(* ===== verification/WF_Prelude.thy ===== *)
theory WF_Prelude
  imports Main "HOL-Library.Word" "HOL-Library.Monad_Syntax"
begin

text \<open>
  Shared vocabulary of the development.

  Conventions used by every component:
  \<^item> A result of type \<open>'a option\<close> is the result of code that may run into undefined
    behaviour of C++ (an array access out of range, a read of an object that was deleted) or
    into a loop that does not end: \<open>None\<close> stands for exactly that. Ordinary error returns
    of the code (\<^verbatim>\<open>-1\<close>, \<^verbatim>\<open>NULL\<close> with \<^verbatim>\<open>errno\<close>) are values, never \<open>None\<close>.
    The invariants of the components are what makes these results \<open>Some\<close>.
  \<^item> Arrays are lists that are read with \<open>rd\<close> and written with \<open>wr\<close>, which fail
    out of range.
  \<^item> Objects are identified by addresses of type \<open>nat\<close>; a pointer that may be
    \<^verbatim>\<open>NULL\<close> is an \<open>addr option\<close>.
  \<^item> Critical sections guarded by one mutex are atomic steps; what happens between them is
    modelled by interleaving such steps.
\<close>

section \<open>Names for the types of the model\<close>

type_synonym addr = nat
type_synonym u8 = "8 word"
type_synonym u16 = "16 word"
type_synonym u32 = "32 word"
type_synonym u64 = "64 word"

text \<open>The values of \<^verbatim>\<open>errno\<close> that the modelled code sets or passes on.\<close>

datatype errno = EINVAL | EAGAIN | EEXIST | EBUSY | ENOENT | ENOMEM | ETIMEDOUT | EMSGSIZE | EBADMSG | EOVERFLOW | EOTHER int

section \<open>Collections of rules\<close>

named_theorems array_simps \<open>reading and writing arrays inside their bounds\<close>
named_theorems inv_intros \<open>preservation of the components' invariants\<close>

section \<open>Arrays with bounds\<close>

definition rd :: "'a list \<Rightarrow> nat \<Rightarrow> 'a option" where
  "rd a i = (if i < length a then Some (a ! i) else None)"

definition wr :: "'a list \<Rightarrow> nat \<Rightarrow> 'a \<Rightarrow> 'a list option" where
  "wr a i v = (if i < length a then Some (a[i := v]) else None)"

lemma rd_in [simp, array_simps]: "i < length a \<Longrightarrow> rd a i = Some (a ! i)"
  by (simp add: rd_def)

lemma wr_in [simp, array_simps]: "i < length a \<Longrightarrow> wr a i v = Some (a[i := v])"
  by (simp add: wr_def)

lemma rd_out: "length a \<le> i \<Longrightarrow> rd a i = None"
  by (simp add: rd_def)

lemma rd_Some_iff: "rd a i = Some v \<longleftrightarrow> i < length a \<and> v = a ! i"
  by (auto simp: rd_def)

lemma wr_Some_iff: "wr a i v = Some b \<longleftrightarrow> i < length a \<and> b = a[i := v]"
  by (auto simp: wr_def)

section \<open>Lists\<close>

lemma map_upt_Suc_conv: "map f [0..<Suc n] = f 0 # map (\<lambda>k. f (Suc k)) [0..<n]"
  by (simp add: upt_conv_Cons map_Suc_upt [symmetric] del: upt_Suc)

lemma mod_succ_wrap:
  fixes j n :: nat
  assumes "j < n"
  shows "Suc j mod n = (if Suc j = n then 0 else Suc j)"
  using assms by (auto simp: mod_less)

lemma wrap_once: "(f :: nat) < n \<Longrightarrow> (f + n) mod n = f"
  by simp

lemma add_mod_inj:
  fixes f i j n :: nat
  assumes "(f + i) mod n = (f + j) mod n" "i < n" "j < n"
  shows "i = j"
proof (rule ccontr)
  assume "i \<noteq> j"
  then consider "i < j" | "j < i" by linarith
  then show False
  proof cases
    case 1
    with assms have "n dvd (f + j) - (f + i)" by (metis mod_eq_dvd_iff_nat add_le_cancel_left less_imp_le)
    with 1 assms(3) show False by (auto dest: dvd_imp_le)
  next
    case 2
    with assms have "n dvd (f + i) - (f + j)" by (metis mod_eq_dvd_iff_nat add_le_cancel_left less_imp_le)
    with 2 assms(2) show False by (auto dest: dvd_imp_le)
  qed
qed

section \<open>Words\<close>

lemma unat_succ:
  assumes "a < (b :: 'a :: len word)"
  shows "unat (a + 1) = unat a + 1"
proof -
  have "unat a < unat b" using assms by (simp add: word_less_nat_alt)
  moreover have "unat b < 2 ^ LENGTH('a)" by (rule unsigned_less)
  ultimately have "unat a + unat (1 :: 'a word) < 2 ^ LENGTH('a)"
    by (metis Suc_eq_plus1 Suc_leI le_less_trans unsigned_1)
  then show ?thesis using unat_add_lem [of a 1] by simp
qed

lemma unat_pred: "a \<noteq> 0 \<Longrightarrow> unat (a - 1) = unat a - 1"
  by (rule unat_minus_one)

end
