(* ===== verification/Series_Queue.thy ===== *)
theory Series_Queue
  imports WF_Prelude
begin

text \<open>
  The task queue of \<^verbatim>\<open>SeriesWork\<close> (\<^verbatim>\<open>workflow/src/factory/Workflow.cc\<close>): a circular buffer
  that grows when it is full. The record holds the fields of the class; the operations are the
  bodies of \<^verbatim>\<open>SeriesWork::SeriesWork\<close>, \<^verbatim>\<open>expand_queue\<close>, \<^verbatim>\<open>push_front\<close>, \<^verbatim>\<open>push_back\<close> and the locked
  part of \<^verbatim>\<open>pop_task\<close>. Indices are natural numbers: the only negative value the code ever
  computes is the \<open>-1\<close> of \<^verbatim>\<open>--this->front == -1\<close>, which is the case \<open>front = 0\<close> here. They are not
  bounded: the overflow of \<^verbatim>\<open>int size = 2 * this->queue_size\<close>, which needs a queue of \<open>2 ^ 30\<close> slots, is not modelled. A
  slot that was never written holds \<open>None\<close>.
\<close>

section \<open>State\<close>

record series_work =
  sw_context :: "addr option"
  sw_callback :: "nat option"
  sw_first :: addr
  sw_last :: "addr option"
  sw_queue :: "addr option list"
  sw_queue_size :: nat
  sw_front :: nat
  sw_back :: nat
  sw_in_parallel :: bool
  sw_canceled :: bool

definition new_series_work :: "addr \<Rightarrow> nat option \<Rightarrow> series_work" where
  "new_series_work t cb =
     \<lparr>sw_context = None, sw_callback = cb, sw_first = t, sw_last = None,
      sw_queue = replicate 4 None, sw_queue_size = 4, sw_front = 0, sw_back = 0,
      sw_in_parallel = False, sw_canceled = False\<rparr>"

section \<open>Operations\<close>

text \<open>
  The copy loop of \<^verbatim>\<open>expand_queue\<close>: \<open>i\<close> walks over the new array, \<open>j\<close> over the old one,
  until \<open>j\<close> reaches \<open>back\<close> again. As a \<^verbatim>\<open>do\<close>-\<^verbatim>\<open>while\<close> loop it runs at least once.
\<close>

partial_function (option) expand_copy ::
  "addr option list \<Rightarrow> nat \<Rightarrow> nat \<Rightarrow> addr option list \<Rightarrow> nat \<Rightarrow> nat \<Rightarrow> (addr option list \<times> nat) option"
where
  "expand_copy old sz b new i j =
     do { v \<leftarrow> rd old j;
          new' \<leftarrow> wr new i v;
          (let i' = i + 1; j' = (if j + 1 = sz then 0 else j + 1)
           in if j' \<noteq> b then expand_copy old sz b new' i' j' else Some (new', i')) }"

definition expand_queue :: "series_work \<Rightarrow> series_work option" where
  "expand_queue s =
     (let sz = 2 * sw_queue_size s
      in do { (q, i) \<leftarrow> expand_copy (sw_queue s) (sw_queue_size s) (sw_back s) (replicate sz None) 0 (sw_front s);
              Some (s\<lparr>sw_queue := q, sw_queue_size := sz, sw_front := 0, sw_back := i\<rparr>) })"

definition push_front :: "series_work \<Rightarrow> addr \<Rightarrow> series_work option" where
  "push_front s task =
     (let f = (if sw_front s = 0 then sw_queue_size s - 1 else sw_front s - 1)
      in do { q \<leftarrow> wr (sw_queue s) f (Some task);
              (let s' = s\<lparr>sw_front := f, sw_queue := q\<rparr>
               in if f = sw_back s' then expand_queue s' else Some s') })"

definition push_back :: "series_work \<Rightarrow> addr \<Rightarrow> series_work option" where
  "push_back s task =
     do { q \<leftarrow> wr (sw_queue s) (sw_back s) (Some task);
          (let b = (if sw_back s + 1 = sw_queue_size s then 0 else sw_back s + 1);
               s' = s\<lparr>sw_queue := q, sw_back := b\<rparr>
           in if sw_front s' = b then expand_queue s' else Some s') }"

text \<open>
  The part of \<^verbatim>\<open>pop_task\<close> under the mutex: the next task, from the queue, then the last task,
  then \<^verbatim>\<open>NULL\<close> (\<open>None\<close> inside the pair). Reading a slot that was never written is undefined.
\<close>

definition take_task :: "series_work \<Rightarrow> (addr option \<times> series_work) option" where
  "take_task s =
     (if sw_front s \<noteq> sw_back s then
        do { v \<leftarrow> rd (sw_queue s) (sw_front s);
             task \<leftarrow> v;
             Some (Some task, s\<lparr>sw_front := (if sw_front s + 1 = sw_queue_size s then 0 else sw_front s + 1)\<rparr>) }
      else Some (sw_last s, s\<lparr>sw_last := None\<rparr>))"

definition set_last_task :: "series_work \<Rightarrow> addr \<Rightarrow> series_work" where
  "set_last_task s t = s\<lparr>sw_last := Some t\<rparr>"

definition unset_last_task :: "series_work \<Rightarrow> series_work" where
  "unset_last_task s = s\<lparr>sw_last := None\<rparr>"

section \<open>The invariant and the abstraction\<close>

text \<open>
  \<open>ring_slice q n f m\<close> is what \<open>m\<close> consecutive slots hold, starting at \<open>f\<close> and wrapping
  around at \<open>n\<close>. The queue holds the slots from \<open>front\<close> up to \<open>back\<close>; it is empty
  when they are equal, so it never fills its array.
\<close>

definition ring_slice :: "'a list \<Rightarrow> nat \<Rightarrow> nat \<Rightarrow> nat \<Rightarrow> 'a list" where
  "ring_slice q n f m = map (\<lambda>k. q ! ((f + k) mod n)) [0..<m]"

definition ring_len :: "series_work \<Rightarrow> nat" where
  "ring_len s = (sw_back s + sw_queue_size s - sw_front s) mod sw_queue_size s"

definition ring_slots :: "series_work \<Rightarrow> addr option list" where
  "ring_slots s = ring_slice (sw_queue s) (sw_queue_size s) (sw_front s) (ring_len s)"

definition pending :: "series_work \<Rightarrow> addr list" where
  "pending s = map the (ring_slots s)"

definition ring_shape :: "series_work \<Rightarrow> bool" where
  "ring_shape s \<longleftrightarrow> 0 < sw_queue_size s \<and> length (sw_queue s) = sw_queue_size s \<and>
     sw_front s < sw_queue_size s \<and> sw_back s < sw_queue_size s"

definition series_inv :: "series_work \<Rightarrow> bool" where
  "series_inv s \<longleftrightarrow> ring_shape s \<and> None \<notin> set (ring_slots s)"

section \<open>Slices of the ring\<close>

lemma ring_slice_0 [simp]: "ring_slice q n f 0 = []"
  by (simp add: ring_slice_def)

lemma length_ring_slice [simp]: "length (ring_slice q n f m) = m"
  by (simp add: ring_slice_def)

lemma ring_slice_Suc: "ring_slice q n f (Suc m) = q ! (f mod n) # ring_slice q n (Suc f) m"
  by (simp add: ring_slice_def map_upt_Suc_conv del: upt_Suc)

lemma ring_slice_snoc: "ring_slice q n f (Suc m) = ring_slice q n f m @ [q ! ((f + m) mod n)]"
  by (simp add: ring_slice_def)

lemma ring_slice_mod: "ring_slice q n (f mod n) m = ring_slice q n f m"
  by (simp add: ring_slice_def mod_add_left_eq)

lemma ring_slice_upd_out:
  assumes "\<forall>k < m. (f + k) mod n \<noteq> i"
  shows "ring_slice (q[i := v]) n f m = ring_slice q n f m"
  using assms by (auto simp: ring_slice_def)

lemma ring_slice_whole:
  assumes "m \<le> length q" "m \<le> n"
  shows "ring_slice q n 0 m = take m q"
  using assms by (auto simp: ring_slice_def list_eq_iff_nth_eq)

section \<open>Growing the queue\<close>

lemma expand_copy_unfold:
  assumes "j < sz" "length old = sz" "i < length new"
  shows "expand_copy old sz b new i j =
     (if Suc j mod sz \<noteq> b then expand_copy old sz b (new[i := old ! j]) (Suc i) (Suc j mod sz)
      else Some (new[i := old ! j], Suc i))"
  using assms by (subst expand_copy.simps) (simp add: mod_succ_wrap Let_def)

lemma expand_copy_slice:
  assumes "length old = sz" "j < sz" "m < sz" "(j + Suc m) mod sz = b" "i + Suc m \<le> length new"
  shows "expand_copy old sz b new i j =
     Some (take i new @ ring_slice old sz j (Suc m) @ drop (i + Suc m) new, i + Suc m)"
  using assms(2-)
proof (induction m arbitrary: i j new)
  case 0
  with assms(1) show ?case
    by (simp add: expand_copy_unfold ring_slice_Suc upd_conv_take_nth_drop)
next
  case (Suc m)
  let ?j = "Suc j mod sz" and ?new = "new[i := old ! j]"
  have b: "(?j + Suc m) mod sz = b" using Suc.prems(3) mod_add_left_eq [of "Suc j" sz "Suc m"] by simp
  have "?j \<noteq> b"
    using add_mod_inj [of ?j 0 sz "Suc m"] b Suc.prems(1,2) by fastforce
  then have "expand_copy old sz b new i j = expand_copy old sz b ?new (Suc i) ?j"
    using Suc.prems assms(1) by (simp add: expand_copy_unfold)
  also have "\<dots> = Some (take (Suc i) ?new @ ring_slice old sz ?j (Suc m) @
       drop (Suc i + Suc m) ?new, Suc i + Suc m)"
    using Suc.prems b by (intro Suc.IH) auto
  also have "take (Suc i) ?new = take i new @ [old ! j]"
    using Suc.prems(4) by (simp add: take_Suc_conv_app_nth)
  also have "ring_slice old sz ?j (Suc m) = ring_slice old sz (Suc j) (Suc m)"
    by (rule ring_slice_mod)
  finally show ?case
    using Suc.prems(1,4) by (simp add: ring_slice_Suc [of _ _ _ "Suc m"])
qed

lemma expand_queue_full:
  assumes "ring_shape s" "sw_front s = sw_back s"
  shows "expand_queue s = Some (s\<lparr>
     sw_queue := ring_slice (sw_queue s) (sw_queue_size s) (sw_front s) (sw_queue_size s) @
       replicate (sw_queue_size s) None,
     sw_queue_size := 2 * sw_queue_size s, sw_front := 0, sw_back := sw_queue_size s\<rparr>)"
proof -
  obtain m where m: "sw_queue_size s = Suc m" using assms(1) by (cases "sw_queue_size s") (auto simp: ring_shape_def)
  have "expand_copy (sw_queue s) (sw_queue_size s) (sw_back s)
      (replicate (2 * sw_queue_size s) None) 0 (sw_front s) =
    Some (ring_slice (sw_queue s) (sw_queue_size s) (sw_front s) (Suc m) @
      drop (Suc m) (replicate (2 * sw_queue_size s) None), Suc m)"
    using assms m wrap_once [of "sw_back s" "Suc m"]
    by (subst expand_copy_slice [where m = m]) (auto simp: ring_shape_def)
  moreover have "drop (Suc m) (replicate (2 * sw_queue_size s) None) = replicate (sw_queue_size s) None"
    unfolding m [symmetric] by simp
  ultimately show ?thesis by (simp add: expand_queue_def m [symmetric])
qed

section \<open>What the operations do to the pending tasks\<close>

lemma ring_len_less: "ring_shape s \<Longrightarrow> ring_len s < sw_queue_size s"
  by (simp add: ring_len_def ring_shape_def)

lemma ring_len_back: "ring_shape s \<Longrightarrow> (sw_front s + ring_len s) mod sw_queue_size s = sw_back s"
  by (simp add: ring_len_def ring_shape_def mod_add_right_eq)

lemma ring_len_unique:
  assumes "ring_shape s" "n < sw_queue_size s" "(sw_front s + n) mod sw_queue_size s = sw_back s"
  shows "ring_len s = n"
  using add_mod_inj [of "sw_front s" "ring_len s" "sw_queue_size s" n] assms
    ring_len_back ring_len_less by metis

lemma ring_len_0_iff: "ring_shape s \<Longrightarrow> ring_len s = 0 \<longleftrightarrow> sw_front s = sw_back s"
  using ring_len_unique [of s 0] ring_len_back [of s] by (auto simp: ring_shape_def)

lemma expand_queue_slots:
  assumes "ring_shape s" "sw_front s = sw_back s" "expand_queue s = Some s'"
  shows "ring_shape s'"
    and "ring_slots s' = ring_slice (sw_queue s) (sw_queue_size s) (sw_front s) (sw_queue_size s)"
proof -
  let ?n = "sw_queue_size s"
  have s': "s' = s\<lparr>sw_queue := ring_slice (sw_queue s) ?n (sw_front s) ?n @ replicate ?n None,
     sw_queue_size := 2 * ?n, sw_front := 0, sw_back := ?n\<rparr>"
    using expand_queue_full [OF assms(1,2)] assms(3) by simp
  have n: "0 < ?n" using assms(1) by (simp add: ring_shape_def)
  then show shape: "ring_shape s'" by (simp add: s' ring_shape_def)
  have "ring_len s' = ?n" using n by (intro ring_len_unique [OF shape]) (auto simp: s')
  then show "ring_slots s' = ring_slice (sw_queue s) ?n (sw_front s) ?n"
    by (simp add: ring_slots_def s' ring_slice_whole)
qed

text \<open>
  After a slot is filled next to either end, the ring has one task more; when this makes
  \<open>front\<close> and \<open>back\<close> meet, \<open>expand_queue\<close> unrolls all \<open>queue_size\<close> slots.
\<close>

lemma settle_ring:
  assumes "ring_shape s" "n < sw_queue_size s" "(sw_front s + Suc n) mod sw_queue_size s = sw_back s"
  shows "\<exists>s'. (if sw_front s = sw_back s then expand_queue s else Some s) = Some s' \<and> ring_shape s' \<and>
     ring_slots s' = ring_slice (sw_queue s) (sw_queue_size s) (sw_front s) (Suc n)"
proof (cases "sw_front s = sw_back s")
  case True
  have "Suc n = sw_queue_size s"
  proof (rule ccontr)
    assume "Suc n \<noteq> sw_queue_size s"
    with assms True show False
      using add_mod_inj [of "sw_front s" 0 "sw_queue_size s" "Suc n"] by (simp add: ring_shape_def)
  qed
  with True show ?thesis
    using expand_queue_full [OF assms(1) True] expand_queue_slots [OF assms(1) True] by simp
next
  case False
  have "Suc n \<noteq> sw_queue_size s" 
    using False assms(1,3) wrap_once [of "sw_front s" "Suc n"] by (auto simp: ring_shape_def)
  with assms have "ring_len s = Suc n" by (intro ring_len_unique) auto
  with False assms(1) show ?thesis by (simp add: ring_slots_def)
qed

lemma push_back_pending:
  assumes "series_inv s"
  shows "\<exists>s'. push_back s t = Some s' \<and> series_inv s' \<and> pending s' = pending s @ [t]"
proof -
  let ?n = "sw_queue_size s" and ?q = "(sw_queue s)[sw_back s := Some t]"
  let ?s = "s\<lparr>sw_queue := ?q, sw_back := Suc (sw_back s) mod ?n\<rparr>"
  have shape: "ring_shape s" using assms by (simp add: series_inv_def)
  then have shape': "ring_shape ?s" by (simp add: ring_shape_def)
  have len: "ring_len s < ?n" and b: "(sw_front s + ring_len s) mod ?n = sw_back s"
    using shape by (rule ring_len_less, rule ring_len_back)
  have "(sw_front s + Suc (ring_len s)) mod ?n = Suc (sw_back s) mod ?n"
    by (metis b add_Suc_right mod_Suc_eq)
  then obtain s' where s': "(if sw_front ?s = sw_back ?s then expand_queue ?s else Some ?s) = Some s'"
    "ring_shape s'" "ring_slots s' = ring_slice ?q ?n (sw_front s) (Suc (ring_len s))"
    using settle_ring [OF shape', of "ring_len s"] len by auto
  have "\<forall>k < ring_len s. (sw_front s + k) mod ?n \<noteq> sw_back s"
    using add_mod_inj [of "sw_front s" _ ?n "ring_len s"] len b by fastforce
  then have slots: "ring_slots s' = ring_slots s @ [Some t]"
    using s'(3) shape b by (simp add: ring_slice_snoc ring_slice_upd_out ring_slots_def ring_shape_def)
  have wrap: "(if sw_back s + 1 = ?n then 0 else sw_back s + 1) = Suc (sw_back s) mod ?n"
    using shape by (simp add: ring_shape_def mod_succ_wrap)
  have "push_back s t = Some s'"
    unfolding push_back_def Let_def wrap using s'(1) shape by (simp add: ring_shape_def)
  with s'(2) slots assms show ?thesis by (simp add: series_inv_def pending_def)
qed

lemma push_front_pending:
  assumes "series_inv s"
  shows "\<exists>s'. push_front s t = Some s' \<and> series_inv s' \<and> pending s' = t # pending s"
proof -
  let ?n = "sw_queue_size s" and ?f = "if sw_front s = 0 then sw_queue_size s - 1 else sw_front s - 1"
  let ?q = "(sw_queue s)[?f := Some t]"
  let ?s = "s\<lparr>sw_front := ?f, sw_queue := ?q\<rparr>"
  have shape: "ring_shape s" using assms by (simp add: series_inv_def)
  then have shape': "ring_shape ?s" by (auto simp: ring_shape_def)
  have len: "ring_len s < ?n" and b: "(sw_front s + ring_len s) mod ?n = sw_back s"
    using shape by (rule ring_len_less, rule ring_len_back)
  have f: "Suc ?f mod ?n = sw_front s" using shape by (auto simp: ring_shape_def)
  have step: "(?f + Suc k) mod ?n = (sw_front s + k) mod ?n" for k
    by (metis f add_Suc_right add_Suc mod_add_left_eq)
  then obtain s' where s': "(if sw_front ?s = sw_back ?s then expand_queue ?s else Some ?s) = Some s'"
    "ring_shape s'" "ring_slots s' = ring_slice ?q ?n ?f (Suc (ring_len s))"
    using settle_ring [OF shape', of "ring_len s"] len b by auto
  have "\<forall>k < ring_len s. (Suc ?f + k) mod ?n \<noteq> ?f"
  proof (intro allI impI)
    fix k assume "k < ring_len s"
    then show "(Suc ?f + k) mod ?n \<noteq> ?f"
      using add_mod_inj [of ?f 0 ?n "Suc k"] len shape' by (auto simp: ring_shape_def)
  qed
  then have "ring_slice ?q ?n (Suc ?f) (ring_len s) = ring_slots s"
    using ring_slice_mod [of "sw_queue s" ?n "Suc ?f" "ring_len s"] f
    by (simp add: ring_slice_upd_out ring_slots_def)
  then have slots: "ring_slots s' = Some t # ring_slots s"
    using s'(3) shape by (auto simp: ring_slice_Suc ring_shape_def)
  have "push_front s t = Some s'"
    using s'(1) shape shape' by (simp add: push_front_def ring_shape_def Let_def)
  with s'(2) slots assms show ?thesis by (simp add: series_inv_def pending_def)
qed

lemma take_task_pending:
  assumes "series_inv s" "pending s = t # ts"
  shows "\<exists>s'. take_task s = Some (Some t, s') \<and> series_inv s' \<and> pending s' = ts \<and> sw_last s' = sw_last s"
proof -
  let ?n = "sw_queue_size s"
  let ?s = "s\<lparr>sw_front := Suc (sw_front s) mod ?n\<rparr>"
  have shape: "ring_shape s" using assms by (simp add: series_inv_def)
  then have shape': "ring_shape ?s" by (simp add: ring_shape_def)
  obtain m where m: "ring_len s = Suc m"
    using assms(2) by (cases "ring_len s") (auto simp: pending_def ring_slots_def)
  have "ring_len ?s = m"
    using ring_len_less [OF shape] ring_len_back [OF shape] m
    by (intro ring_len_unique [OF shape']) (simp_all add: mod_add_left_eq [of "Suc _", simplified])
  then have slots: "ring_slots s = sw_queue s ! sw_front s # ring_slots ?s"
    using shape m by (simp add: ring_slots_def ring_slice_Suc ring_slice_mod ring_shape_def)
  with assms have hd: "sw_queue s ! sw_front s = Some t"
    by (auto simp: pending_def series_inv_def)
  have "sw_front s \<noteq> sw_back s" using ring_len_0_iff [OF shape] m by simp
  then have "take_task s = Some (Some t, ?s)"
    using shape hd by (simp add: take_task_def ring_shape_def mod_succ_wrap)
  with shape' slots assms show ?thesis by (auto simp: series_inv_def pending_def)
qed

lemma take_task_empty:
  assumes "series_inv s" "pending s = []"
  shows "take_task s = Some (sw_last s, s\<lparr>sw_last := None\<rparr>)"
  using assms ring_len_0_iff [of s]
  by (auto simp: take_task_def pending_def ring_slots_def series_inv_def dest: arg_cong [where f = length])

lemma last_task_pending:
  "pending (set_last_task s t) = pending s" "pending (unset_last_task s) = pending s"
  "series_inv (set_last_task s t) = series_inv s" "series_inv (unset_last_task s) = series_inv s"
  "sw_last (set_last_task s t) = Some t" "sw_last (unset_last_task s) = None"
  by (simp_all add: set_last_task_def unset_last_task_def pending_def ring_slots_def ring_len_def
      series_inv_def ring_shape_def)

lemma expand_queue_last: "expand_queue s = Some s' \<Longrightarrow> sw_last s' = sw_last s"
  by (auto simp: expand_queue_def Let_def split: bind_splits)

lemma push_last:
  "push_back s t = Some s' \<Longrightarrow> sw_last s' = sw_last s"
  "push_front s t = Some s' \<Longrightarrow> sw_last s' = sw_last s"
  by (auto simp: push_back_def push_front_def Let_def split: bind_splits if_splits dest: expand_queue_last)

section \<open>The contract of the queue\<close>

text \<open>
  What the users of a series rely on: a double-ended queue with one more task, the last one, that is
  handed out when the queue is empty. The specification works on a list and an optional last task.
\<close>

datatype 'a queue_op = PushFront 'a | PushBack 'a | SetLast 'a | UnsetLast | Take

fun spec_op :: "'a list \<times> 'a option \<Rightarrow> 'a queue_op \<Rightarrow> 'a option list \<times> 'a list \<times> 'a option" where
  "spec_op (xs, l) (PushFront t) = ([], t # xs, l)"
| "spec_op (xs, l) (PushBack t) = ([], xs @ [t], l)"
| "spec_op (xs, l) (SetLast t) = ([], xs, Some t)"
| "spec_op (xs, l) UnsetLast = ([], xs, None)"
| "spec_op (x # xs, l) Take = ([Some x], xs, l)"
| "spec_op ([], l) Take = ([l], [], None)"

fun spec_run :: "'a list \<times> 'a option \<Rightarrow> 'a queue_op list \<Rightarrow> 'a option list \<times> 'a list \<times> 'a option" where
  "spec_run a [] = ([], a)"
| "spec_run a (p # ps) = (let (o1, a1) = spec_op a p; (o2, a2) = spec_run a1 ps in (o1 @ o2, a2))"

fun op_run :: "('q \<Rightarrow> 'a queue_op \<Rightarrow> ('a option list \<times> 'q) option) \<Rightarrow> 'q \<Rightarrow> 'a queue_op list \<Rightarrow> ('a option list \<times> 'q) option" where
  "op_run f q [] = Some ([], q)"
| "op_run f q (p # ps) = do { (o1, q1) \<leftarrow> f q p; (o2, q2) \<leftarrow> op_run f q1 ps; Some (o1 @ o2, q2) }"

locale task_queue =
  fixes inv :: "'q \<Rightarrow> bool" and content :: "'q \<Rightarrow> 'a list" and final :: "'q \<Rightarrow> 'a option"
    and enq_front enq_back :: "'q \<Rightarrow> 'a \<Rightarrow> 'q option"
    and set_final :: "'q \<Rightarrow> 'a \<Rightarrow> 'q" and unset_final :: "'q \<Rightarrow> 'q"
    and deq :: "'q \<Rightarrow> ('a option \<times> 'q) option"
  assumes enq_front_law: "inv q \<Longrightarrow> \<exists>q'. enq_front q t = Some q' \<and> inv q' \<and> content q' = t # content q \<and> final q' = final q"
    and enq_back_law: "inv q \<Longrightarrow> \<exists>q'. enq_back q t = Some q' \<and> inv q' \<and> content q' = content q @ [t] \<and> final q' = final q"
    and set_final_law: "inv q \<Longrightarrow> inv (set_final q t) \<and> content (set_final q t) = content q \<and> final (set_final q t) = Some t"
    and unset_final_law: "inv q \<Longrightarrow> inv (unset_final q) \<and> content (unset_final q) = content q \<and> final (unset_final q) = None"
    and deq_law: "inv q \<Longrightarrow> content q = t # ts \<Longrightarrow> \<exists>q'. deq q = Some (Some t, q') \<and> inv q' \<and> content q' = ts \<and> final q' = final q"
    and deq_empty_law: "inv q \<Longrightarrow> content q = [] \<Longrightarrow> \<exists>q'. deq q = Some (final q, q') \<and> inv q' \<and> content q' = [] \<and> final q' = None"
begin

fun exec :: "'q \<Rightarrow> 'a queue_op \<Rightarrow> ('a option list \<times> 'q) option" where
  "exec q (PushFront t) = do { q \<leftarrow> enq_front q t; Some ([], q) }"
| "exec q (PushBack t) = do { q \<leftarrow> enq_back q t; Some ([], q) }"
| "exec q (SetLast t) = Some ([], set_final q t)"
| "exec q UnsetLast = Some ([], unset_final q)"
| "exec q Take = do { (r, q) \<leftarrow> deq q; Some ([r], q) }"

lemma exec_sim:
  assumes "inv q"
  shows "\<exists>q'. exec q p = Some (fst (spec_op (content q, final q) p), q') \<and> inv q' \<and>
     (content q', final q') = snd (spec_op (content q, final q) p)"
proof (cases p)
  case Take
  then show ?thesis using deq_law [OF assms] deq_empty_law [OF assms] by (cases "content q") fastforce+
next
  case (PushFront t)
  then show ?thesis using enq_front_law [OF assms, of t] by auto
next
  case (PushBack t)
  then show ?thesis using enq_back_law [OF assms, of t] by auto
qed (simp_all add: assms set_final_law unset_final_law)

lemma run_sim:
  assumes "inv q"
  shows "\<exists>q'. op_run exec q ps = Some (fst (spec_run (content q, final q) ps), q') \<and> inv q' \<and>
     (content q', final q') = snd (spec_run (content q, final q) ps)"
  using assms
proof (induction ps arbitrary: q)
  case (Cons p ps)
  obtain q1 where q1: "exec q p = Some (fst (spec_op (content q, final q) p), q1)" "inv q1"
    "(content q1, final q1) = snd (spec_op (content q, final q) p)" using exec_sim [OF Cons.prems] by blast
  from Cons.IH [OF q1(2)] obtain q2 where q2:
    "op_run exec q1 ps = Some (fst (spec_run (content q1, final q1) ps), q2)" "inv q2"
    "(content q2, final q2) = snd (spec_run (content q1, final q1) ps)" by blast
  with q1 show ?case by (simp add: split_beta)
qed simp

end

lemma series_queue_laws: "task_queue series_inv pending sw_last push_front push_back set_last_task unset_last_task take_task"
proof
  show "\<exists>q'. push_front q t = Some q' \<and> series_inv q' \<and> pending q' = t # pending q \<and> sw_last q' = sw_last q" if "series_inv q" for q t
    using push_front_pending [OF that, of t] push_last(2) by blast
  show "\<exists>q'. push_back q t = Some q' \<and> series_inv q' \<and> pending q' = pending q @ [t] \<and> sw_last q' = sw_last q" if "series_inv q" for q t
    using push_back_pending [OF that, of t] push_last(1) by blast
  show "\<exists>q'. take_task q = Some (sw_last q, q') \<and> series_inv q' \<and> pending q' = [] \<and> sw_last q' = None"
    if "series_inv q" "pending q = []" for q
    using take_task_empty [OF that] that last_task_pending [of q] by (auto simp: unset_last_task_def)
qed (simp_all add: take_task_pending last_task_pending)

interpretation sq: task_queue series_inv pending sw_last push_front push_back set_last_task unset_last_task take_task
  by (rule series_queue_laws)

definition series_op :: "series_work \<Rightarrow> addr queue_op \<Rightarrow> (addr option list \<times> series_work) option" where
  "series_op s p =
     (case p of PushFront t \<Rightarrow> map_option (Pair []) (push_front s t)
      | PushBack t \<Rightarrow> map_option (Pair []) (push_back s t)
      | SetLast t \<Rightarrow> Some ([], set_last_task s t)
      | UnsetLast \<Rightarrow> Some ([], unset_last_task s)
      | Take \<Rightarrow> map_option (\<lambda>(r, s). ([r], s)) (take_task s))"

lemma series_op_exec: "series_op = sq.exec"
proof (intro ext)
  fix s p show "series_op s p = sq.exec s p"
    by (cases p) (auto simp: series_op_def map_option_case split: bind_splits option.splits)
qed

lemma new_series_inv: "series_inv (new_series_work t cb) \<and> pending (new_series_work t cb) = [] \<and> sw_last (new_series_work t cb) = None"
  by (simp add: series_inv_def new_series_work_def ring_shape_def ring_slots_def ring_len_def pending_def)

section \<open>Properties\<close>

text \<open>
  C11: the growing ring buffer of a series behaves, under every sequence of \<^verbatim>\<open>push_front\<close>, \<^verbatim>\<open>push_back\<close>,
  \<^verbatim>\<open>set_last_task\<close>, \<^verbatim>\<open>unset_last_task\<close> and task requests from its creation on, exactly like a list with an
  optional last task: it never reads or writes outside its array, its copy loop ends, and the tasks it hands out are the same.
\<close>

theorem series_queue_refines:
  "\<exists>s'. op_run series_op (new_series_work t cb) ps = Some (fst (spec_run ([], None) ps), s') \<and>
     series_inv s' \<and> (pending s', sw_last s') = snd (spec_run ([], None) ps)"
  using sq.run_sim [of "new_series_work t cb" ps] new_series_inv [of t cb]
  by (simp add: series_op_exec)

text \<open>
  \<^verbatim>\<open>expand_queue\<close>, called when \<^verbatim>\<open>front\<close> has met \<^verbatim>\<open>back\<close>, ends, doubles the array and unrolls all slots of
  the ring in order from index 0.
\<close>

theorem expand_queue_unrolls:
  assumes "ring_shape s" "sw_front s = sw_back s"
  shows "\<exists>s'. expand_queue s = Some s' \<and> ring_shape s' \<and> sw_queue_size s' = 2 * sw_queue_size s \<and>
     ring_slots s' = drop (sw_front s) (sw_queue s) @ take (sw_front s) (sw_queue s)"
proof -
  have "ring_slice (sw_queue s) (sw_queue_size s) (sw_front s) (sw_queue_size s) = rotate (sw_front s) (sw_queue s)"
    using assms(1) by (auto simp: ring_slice_def list_eq_iff_nth_eq nth_rotate ring_shape_def add.commute)
  moreover have "rotate (sw_front s) (sw_queue s) = drop (sw_front s) (sw_queue s) @ take (sw_front s) (sw_queue s)"
    using assms(1) by (simp add: rotate_drop_take ring_shape_def)
  ultimately show ?thesis
    using expand_queue_full [OF assms] expand_queue_slots [OF assms] by auto
qed

definition full_ring :: series_work where
  "full_ring = (new_series_work 1 None)\<lparr>sw_queue := [Some 12, Some 13, Some 10, Some 11], sw_front := 2, sw_back := 2\<rparr>"

theorem expand_queue_unrolls_witness:
  "\<exists>s'. expand_queue full_ring = Some s' \<and> ring_slots s' = [Some 10, Some 11, Some 12, Some 13]"
  using expand_queue_unrolls [of full_ring] by (auto simp: full_ring_def new_series_work_def ring_shape_def)

end
