(* ===== verification/Task_Flow.thy ===== *)
theory Task_Flow
  imports Series_Queue
begin

text \<open>
  How series and parallel works run (\<^verbatim>\<open>workflow/src/kernel/SubTask.cc\<close>, \<^verbatim>\<open>SubTask.h\<close>, \<^verbatim>\<open>workflow/src/factory/Workflow.cc\<close>,
  \<^verbatim>\<open>Workflow.h\<close>). Tasks and series live in a heap; reading an object that was deleted, or a null pointer, is undefined (\<open>None\<close>).

  Many threads run at once. A thread inside the code is an activity, named after the place where it is and carrying the local variables it
  still needs; one step of an activity is the code up to the next place where another thread can be in between. A thread that starts a
  second piece of work on its stack (\<^verbatim>\<open>dispatch\<close> called from a loop) leaves two activities, which may then run in any order: more orders
  than the stack allows. A plain task is what the rest of the library or the user implements: it is at work until it
  calls \<^verbatim>\<open>subtask_done\<close>, at a time of its own choice; its \<^verbatim>\<open>done\<close> is that of the tasks in \<^verbatim>\<open>WFTask.h\<close>. While the callback of a task
  runs, the user may push new tasks to the series of that task or cancel it.
\<close>

section \<open>State\<close>

text \<open>
  \<open>pw_buf\<close> is the array of \<open>2 * pw_buf_size\<close> pointers whose first half is \<^verbatim>\<open>subtasks\<close> and whose second half is \<^verbatim>\<open>all_series\<close>.
\<close>

record parallel_work =
  pw_callback :: "nat option"
  pw_context :: "addr option"
  pw_buf :: "addr option list"
  pw_subtasks_nr :: nat
  pw_nleft :: nat
  pw_buf_size :: nat

text \<open>
  \<open>st_entry\<close> points to a place in the array of a parallel work. \<open>st_parallel\<close> is what \<^verbatim>\<open>dynamic_cast\<close> to \<^verbatim>\<open>ParallelWork\<close> gives.
\<close>

record subtask =
  st_parent :: "addr option"
  st_entry :: "(addr \<times> nat) option"
  st_pointer :: "addr option"
  st_parallel :: "parallel_work option"

text \<open>What has happened: callbacks of tasks and of parallel works, and ends of series with the callback that was called.\<close>

datatype flow_event = Task_done addr | Parallel_done addr | Series_end addr "nat option"

text \<open>
  \<open>Dispatching t\<close>: about to call \<^verbatim>\<open>t->dispatch()\<close>. \<open>Started t\<close>: the plain task is at work. \<open>Finishing t\<close>: about to call \<^verbatim>\<open>t->done()\<close>.
  \<open>Calling t\<close>: in its callback. \<open>Looping p i n\<close>: in the loop of \<^verbatim>\<open>ParallelTask::dispatch\<close>, at place \<open>i\<close> of \<open>n\<close>.
  \<open>Leaving p e\<close>: after the end of a series, about to count down \<^verbatim>\<open>parent->nleft\<close>; \<open>e\<close> is the local \<^verbatim>\<open>entry\<close>.
\<close>

datatype activity = Dispatching addr | Started addr | Finishing addr | Calling addr | Looping addr nat nat | Leaving addr "(addr \<times> nat) option"

record flow =
  fl_tasks :: "addr \<rightharpoonup> subtask"
  fl_series :: "addr \<rightharpoonup> series_work"
  fl_log :: "flow_event list"
  fl_acts :: "activity list"

definition new_subtask :: subtask where
  "new_subtask = \<lparr>st_parent = None, st_entry = None, st_pointer = None, st_parallel = None\<rparr>"

definition set_pointer :: "addr \<Rightarrow> addr \<Rightarrow> flow \<Rightarrow> flow option" where
  "set_pointer t s f = do { T \<leftarrow> fl_tasks f t; Some (f\<lparr>fl_tasks := (fl_tasks f)(t \<mapsto> T\<lparr>st_pointer := Some s\<rparr>)\<rparr>) }"

definition delete_task :: "addr \<Rightarrow> flow \<Rightarrow> flow option" where
  "delete_task t f = do { T \<leftarrow> fl_tasks f t; Some (f\<lparr>fl_tasks := (fl_tasks f)(t := None)\<rparr>) }"

definition delete_series :: "addr \<Rightarrow> flow \<Rightarrow> flow option" where
  "delete_series s f = do { S \<leftarrow> fl_series f s; Some (f\<lparr>fl_series := (fl_series f)(s := None)\<rparr>) }"

section \<open>Building\<close>

text \<open>\<^verbatim>\<open>create_series_work\<close> with a fresh object \<open>s\<close>.\<close>

definition create_series_work :: "addr \<Rightarrow> addr \<Rightarrow> nat option \<Rightarrow> flow \<Rightarrow> flow option" where
  "create_series_work s t cb f = set_pointer t s (f\<lparr>fl_series := (fl_series f)(s \<mapsto> new_series_work t cb)\<rparr>)"

definition series_push_back :: "addr \<Rightarrow> addr \<Rightarrow> flow \<Rightarrow> flow option" where
  "series_push_back s t f =
     do { S \<leftarrow> fl_series f s;
          f \<leftarrow> set_pointer t s f;
          S \<leftarrow> push_back S t;
          Some (f\<lparr>fl_series := (fl_series f)(s \<mapsto> S)\<rparr>) }"

definition series_push_front :: "addr \<Rightarrow> addr \<Rightarrow> flow \<Rightarrow> flow option" where
  "series_push_front s t f =
     do { S \<leftarrow> fl_series f s;
          f \<leftarrow> set_pointer t s f;
          S \<leftarrow> push_front S t;
          Some (f\<lparr>fl_series := (fl_series f)(s \<mapsto> S)\<rparr>) }"

definition series_set_last_task :: "addr \<Rightarrow> addr \<Rightarrow> flow \<Rightarrow> flow option" where
  "series_set_last_task s l f =
     do { f \<leftarrow> set_pointer l s f;
          S \<leftarrow> fl_series f s;
          Some (f\<lparr>fl_series := (fl_series f)(s \<mapsto> set_last_task S l)\<rparr>) }"

definition create_series_work_last :: "addr \<Rightarrow> addr \<Rightarrow> addr \<Rightarrow> nat option \<Rightarrow> flow \<Rightarrow> flow option" where
  "create_series_work_last s t l cb f = do { f \<leftarrow> create_series_work s t cb f; series_set_last_task s l f }"

definition series_unset_last_task :: "addr \<Rightarrow> flow \<Rightarrow> flow option" where
  "series_unset_last_task s f = do { S \<leftarrow> fl_series f s; Some (f\<lparr>fl_series := (fl_series f)(s \<mapsto> unset_last_task S)\<rparr>) }"

definition series_set_callback :: "addr \<Rightarrow> nat option \<Rightarrow> flow \<Rightarrow> flow option" where
  "series_set_callback s cb f = do { S \<leftarrow> fl_series f s; Some (f\<lparr>fl_series := (fl_series f)(s \<mapsto> S\<lparr>sw_callback := cb\<rparr>)\<rparr>) }"

definition series_set_context :: "addr \<Rightarrow> addr option \<Rightarrow> flow \<Rightarrow> flow option" where
  "series_set_context s c f = do { S \<leftarrow> fl_series f s; Some (f\<lparr>fl_series := (fl_series f)(s \<mapsto> S\<lparr>sw_context := c\<rparr>)\<rparr>) }"

definition series_cancel :: "addr \<Rightarrow> flow \<Rightarrow> flow option" where
  "series_cancel s f = do { S \<leftarrow> fl_series f s; Some (f\<lparr>fl_series := (fl_series f)(s \<mapsto> S\<lparr>sw_canceled := True\<rparr>)\<rparr>) }"

text \<open>A parallel work without series; \<open>nl\<close> is what \<^verbatim>\<open>nleft\<close> holds before it is set.\<close>

definition new_parallel_work :: "nat option \<Rightarrow> nat \<Rightarrow> parallel_work" where
  "new_parallel_work cb nl = \<lparr>pw_callback = cb, pw_context = None, pw_buf = [], pw_subtasks_nr = 0, pw_nleft = nl, pw_buf_size = 0\<rparr>"

definition expand_buf :: "parallel_work \<Rightarrow> parallel_work" where
  "expand_buf P =
     (let bs = (if 2 * pw_buf_size P = 0 then 4 else 2 * pw_buf_size P); n = pw_subtasks_nr P
      in P\<lparr>pw_buf_size := bs,
           pw_buf := take n (pw_buf P) @ replicate (bs - n) None @ take n (drop (pw_buf_size P) (pw_buf P)) @ replicate (bs - n) None\<rparr>)"

definition put_series :: "addr \<Rightarrow> series_work \<Rightarrow> parallel_work \<Rightarrow> parallel_work option" where
  "put_series s S P =
     (let P = (if pw_subtasks_nr P = pw_buf_size P then expand_buf P else P); n = pw_subtasks_nr P
      in if sw_in_parallel S then None
         else do { b \<leftarrow> wr (pw_buf P) (pw_buf_size P + n) (Some s);
                   b \<leftarrow> wr b n (Some (sw_first S));
                   Some (P\<lparr>pw_buf := b, pw_subtasks_nr := n + 1\<rparr>) })"

definition add_series :: "addr \<Rightarrow> addr \<Rightarrow> flow \<Rightarrow> flow option" where
  "add_series p s f =
     do { T \<leftarrow> fl_tasks f p;
          P \<leftarrow> st_parallel T;
          S \<leftarrow> fl_series f s;
          P \<leftarrow> put_series s S P;
          Some (f\<lparr>fl_tasks := (fl_tasks f)(p \<mapsto> T\<lparr>st_parallel := Some P\<rparr>), fl_series := (fl_series f)(s \<mapsto> S\<lparr>sw_in_parallel := True\<rparr>)\<rparr>) }"

definition create_parallel_empty :: "addr \<Rightarrow> nat option \<Rightarrow> nat \<Rightarrow> flow \<Rightarrow> flow" where
  "create_parallel_empty p cb nl f = f\<lparr>fl_tasks := (fl_tasks f)(p \<mapsto> new_subtask\<lparr>st_parallel := Some (new_parallel_work cb nl)\<rparr>)\<rparr>"

definition parallel_set_callback :: "addr \<Rightarrow> nat option \<Rightarrow> flow \<Rightarrow> flow option" where
  "parallel_set_callback p cb f =
     do { T \<leftarrow> fl_tasks f p; P \<leftarrow> st_parallel T; Some (f\<lparr>fl_tasks := (fl_tasks f)(p \<mapsto> T\<lparr>st_parallel := Some (P\<lparr>pw_callback := cb\<rparr>)\<rparr>)\<rparr>) }"

definition parallel_set_context :: "addr \<Rightarrow> addr option \<Rightarrow> flow \<Rightarrow> flow option" where
  "parallel_set_context p c f =
     do { T \<leftarrow> fl_tasks f p; P \<leftarrow> st_parallel T; Some (f\<lparr>fl_tasks := (fl_tasks f)(p \<mapsto> T\<lparr>st_parallel := Some (P\<lparr>pw_context := c\<rparr>)\<rparr>)\<rparr>) }"

text \<open>The constructor with an array of series: the loop over the array, from place \<open>i\<close> of \<open>n\<close>.\<close>

fun fill_series :: "nat \<Rightarrow> nat \<Rightarrow> addr list \<Rightarrow> addr option list \<times> flow \<Rightarrow> (addr option list \<times> flow) option" where
  "fill_series n i [] bf = Some bf"
| "fill_series n i (s # ss) (b, f) =
     do { S \<leftarrow> fl_series f s;
          if sw_in_parallel S then None
          else do { b \<leftarrow> wr b (n + i) (Some s);
                    b \<leftarrow> wr b i (Some (sw_first S));
                    fill_series n (i + 1) ss (b, f\<lparr>fl_series := (fl_series f)(s \<mapsto> S\<lparr>sw_in_parallel := True\<rparr>)\<rparr>) } }"

definition create_parallel_work :: "addr \<Rightarrow> addr list \<Rightarrow> nat option \<Rightarrow> nat \<Rightarrow> flow \<Rightarrow> flow option" where
  "create_parallel_work p ss cb nl f =
     do { (b, f) \<leftarrow> fill_series (length ss) 0 ss (replicate (2 * length ss) None, f);
          Some (f\<lparr>fl_tasks := (fl_tasks f)(p \<mapsto> new_subtask\<lparr>st_parallel :=
                 Some \<lparr>pw_callback = cb, pw_context = None, pw_buf = b, pw_subtasks_nr = length ss, pw_nleft = nl, pw_buf_size = length ss\<rparr>\<rparr>)\<rparr>) }"

definition series_start :: "addr \<Rightarrow> flow \<Rightarrow> flow option" where
  "series_start s f =
     do { S \<leftarrow> fl_series f s;
          if sw_in_parallel S then None else Some (f\<lparr>fl_acts := fl_acts f @ [Dispatching (sw_first S)]\<rparr>) }"

text \<open>\<^verbatim>\<open>Workflow::start_series_work\<close> and \<^verbatim>\<open>Workflow::start_parallel_work\<close>, and \<^verbatim>\<open>ParallelWork::start\<close>.\<close>

definition start_series_work :: "addr \<Rightarrow> addr \<Rightarrow> nat option \<Rightarrow> flow \<Rightarrow> flow option" where
  "start_series_work s t cb f = do { f \<leftarrow> create_series_work s t cb f; Some (f\<lparr>fl_acts := fl_acts f @ [Dispatching t]\<rparr>) }"

definition start_series_work_last :: "addr \<Rightarrow> addr \<Rightarrow> addr \<Rightarrow> nat option \<Rightarrow> flow \<Rightarrow> flow option" where
  "start_series_work_last s t l cb f = do { f \<leftarrow> create_series_work_last s t l cb f; Some (f\<lparr>fl_acts := fl_acts f @ [Dispatching t]\<rparr>) }"

definition parallel_start :: "addr \<Rightarrow> addr \<Rightarrow> flow \<Rightarrow> flow option" where
  "parallel_start s p f = do { T \<leftarrow> fl_tasks f p; if st_pointer T \<noteq> None then None else start_series_work s p None f }"

definition start_parallel_work :: "addr \<Rightarrow> addr \<Rightarrow> addr list \<Rightarrow> nat option \<Rightarrow> nat \<Rightarrow> flow \<Rightarrow> flow option" where
  "start_parallel_work s p ss cb nl f = do { f \<leftarrow> create_parallel_work p ss cb nl f; start_series_work s p None f }"

section \<open>Taking tasks and dismissing them\<close>

definition sub_series :: "parallel_work \<Rightarrow> nat \<Rightarrow> addr option" where
  "sub_series P i = do { v \<leftarrow> rd (pw_buf P) (pw_buf_size P + i); v }"

text \<open>\<^verbatim>\<open>series_at\<close>: a null pointer behind the last series.\<close>

definition series_at :: "parallel_work \<Rightarrow> nat \<Rightarrow> addr option option" where
  "series_at P index = (if index < pw_subtasks_nr P then rd (pw_buf P) (pw_buf_size P + index) else Some None)"

definition pop_task :: "addr \<Rightarrow> flow \<Rightarrow> (addr option \<times> flow) option" where
  "pop_task s f =
     do { S \<leftarrow> fl_series f s;
          (t, S') \<leftarrow> take_task S;
          let f = f\<lparr>fl_series := (fl_series f)(s \<mapsto> S')\<rparr>
          in (case t of
                Some t \<Rightarrow> Some (Some t, f)
              | None \<Rightarrow>
                  let f = f\<lparr>fl_log := fl_log f @ [Series_end s (sw_callback S')]\<rparr>
                  in if \<not> sw_in_parallel S' then do { f \<leftarrow> delete_series s f; Some (None, f) } else Some (None, f)) }"

text \<open>
  The calls of the two functions \<^verbatim>\<open>dismiss_recursive\<close> that have not returned, innermost first: \<open>D_series\<close> is a series about to be
  dismissed, \<open>D_task\<close> a task, \<open>D_next\<close> the rest of the loop over the tasks of a series, \<open>D_subs\<close> the rest of the loop over the series of a
  parallel work.
\<close>

datatype dismissal = D_series addr | D_task addr | D_next addr | D_subs addr nat

partial_function (option) dismiss :: "dismissal list \<Rightarrow> flow \<Rightarrow> flow option" where
  "dismiss ds f =
     (case ds of
        [] \<Rightarrow> Some f
      | D_series s # ds \<Rightarrow>
          do { S \<leftarrow> fl_series f s;
               dismiss (D_task (sw_first S) # D_next s # ds)
                 (f\<lparr>fl_series := (fl_series f)(s \<mapsto> S\<lparr>sw_in_parallel := False, sw_callback := None\<rparr>)\<rparr>) }
      | D_task t # ds \<Rightarrow>
          do { T \<leftarrow> fl_tasks f t;
               (case st_parallel T of
                  Some P \<Rightarrow> dismiss (D_subs t 0 # ds) f
                | None \<Rightarrow> do { f \<leftarrow> delete_task t f; dismiss ds f }) }
      | D_next s # ds \<Rightarrow>
          do { (t, f) \<leftarrow> pop_task s f;
               (case t of Some t \<Rightarrow> dismiss (D_task t # D_next s # ds) f | None \<Rightarrow> dismiss ds f) }
      | D_subs p i # ds \<Rightarrow>
          do { T \<leftarrow> fl_tasks f p;
               P \<leftarrow> st_parallel T;
               if i < pw_subtasks_nr P then do { s \<leftarrow> sub_series P i; dismiss (D_series s # D_subs p (i + 1) # ds) f }
               else do { f \<leftarrow> delete_task p f; dismiss ds f } })"

definition pop :: "addr \<Rightarrow> flow \<Rightarrow> (addr option \<times> flow) option" where
  "pop s f =
     do { S \<leftarrow> fl_series f s;
          (task, f) \<leftarrow> pop_task s f;
          if \<not> sw_canceled S then Some (task, f)
          else (case task of
                  None \<Rightarrow> Some (None, f)
                | Some t \<Rightarrow> do { f \<leftarrow> dismiss [D_task t, D_next s] f; Some (None, f) }) }"

text \<open>The public calls \<^verbatim>\<open>dismiss\<close>.\<close>

definition series_dismiss :: "addr \<Rightarrow> flow \<Rightarrow> flow option" where
  "series_dismiss s f = do { S \<leftarrow> fl_series f s; if sw_in_parallel S then None else dismiss [D_series s] f }"

definition parallel_dismiss :: "addr \<Rightarrow> flow \<Rightarrow> flow option" where
  "parallel_dismiss p f =
     do { T \<leftarrow> fl_tasks f p; P \<leftarrow> st_parallel T; if st_pointer T \<noteq> None then None else dismiss [D_subs p 0] f }"

section \<open>Dispatching and finishing\<close>

text \<open>\<^verbatim>\<open>done\<close> behind the callback: what is deleted, then the next task of the series.\<close>

fun delete_subs :: "parallel_work \<Rightarrow> nat list \<Rightarrow> flow \<Rightarrow> flow option" where
  "delete_subs P [] f = Some f"
| "delete_subs P (i # is) f = do { s \<leftarrow> sub_series P i; f \<leftarrow> delete_series s f; delete_subs P is f }"

definition parallel_done :: "addr \<Rightarrow> parallel_work \<Rightarrow> flow \<Rightarrow> (addr option \<times> flow) option" where
  "parallel_done t P f =
     do { T \<leftarrow> fl_tasks f t;
          s \<leftarrow> st_pointer T;
          f \<leftarrow> delete_subs P [0..<pw_subtasks_nr P] f;
          f \<leftarrow> delete_task t f;
          pop s f }"

definition plain_done :: "addr \<Rightarrow> flow \<Rightarrow> (addr option \<times> flow) option" where
  "plain_done t f =
     do { T \<leftarrow> fl_tasks f t;
          s \<leftarrow> st_pointer T;
          f \<leftarrow> delete_task t f;
          pop s f }"

text \<open>The call of the virtual function.\<close>

definition task_done :: "addr \<Rightarrow> flow \<Rightarrow> (addr option \<times> flow) option" where
  "task_done t f = do { T \<leftarrow> fl_tasks f t; case st_parallel T of Some P \<Rightarrow> parallel_done t P f | None \<Rightarrow> plain_done t f }"

text \<open>\<^verbatim>\<open>*entry = cur\<close>.\<close>

definition write_entry :: "(addr \<times> nat) option \<Rightarrow> addr \<Rightarrow> flow \<Rightarrow> flow option" where
  "write_entry entry cur f =
     do { (p, i) \<leftarrow> entry;
          T \<leftarrow> fl_tasks f p;
          P \<leftarrow> st_parallel T;
          b \<leftarrow> wr (pw_buf P) i (Some cur);
          Some (f\<lparr>fl_tasks := (fl_tasks f)(p \<mapsto> T\<lparr>st_parallel := Some (P\<lparr>pw_buf := b\<rparr>)\<rparr>)\<rparr>) }"

definition set_links :: "addr option \<Rightarrow> (addr \<times> nat) option \<Rightarrow> addr \<Rightarrow> flow \<Rightarrow> flow option" where
  "set_links parent entry t f =
     do { T \<leftarrow> fl_tasks f t; Some (f\<lparr>fl_tasks := (fl_tasks f)(t \<mapsto> T\<lparr>st_parent := parent, st_entry := entry\<rparr>)\<rparr>) }"

text \<open>An iteration of the loop in \<^verbatim>\<open>subtask_done\<close> from \<^verbatim>\<open>done\<close> on, up to the call of \<^verbatim>\<open>dispatch\<close> or the count down.\<close>

definition after_done :: "addr \<Rightarrow> flow \<Rightarrow> (activity list \<times> flow) option" where
  "after_done t f =
     do { T \<leftarrow> fl_tasks f t;
          (cur, f) \<leftarrow> task_done t f;
          (case cur of
             Some c \<Rightarrow>
               do { f \<leftarrow> set_links (st_parent T) (st_entry T) c f;
                    f \<leftarrow> (if st_parent T \<noteq> None then write_entry (st_entry T) c f else Some f);
                    Some ([Dispatching c], f) }
           | None \<Rightarrow> (case st_parent T of Some p \<Rightarrow> Some ([Leaving p (st_entry T)], f) | None \<Rightarrow> Some ([], f))) }"

text \<open>\<^verbatim>\<open>__sync_sub_and_fetch\<close> on a \<^verbatim>\<open>size_t\<close>, which wraps around below zero.\<close>

definition count_down :: "nat \<Rightarrow> nat" where
  "count_down n = (if n = 0 then 2 ^ 64 - 1 else n - 1)"

fun act_step :: "activity \<Rightarrow> flow \<Rightarrow> (activity list \<times> flow) option" where
  "act_step (Dispatching t) f =
     do { T \<leftarrow> fl_tasks f t;
          (case st_parallel T of
             None \<Rightarrow> Some ([Started t], f)
           | Some P \<Rightarrow>
               let n = pw_subtasks_nr P; f = f\<lparr>fl_tasks := (fl_tasks f)(t \<mapsto> T\<lparr>st_parallel := Some (P\<lparr>pw_nleft := n\<rparr>)\<rparr>)\<rparr>
               in Some (if n \<noteq> 0 then [Looping t 0 n] else [Finishing t], f)) }"
| "act_step (Looping p i n) f =
     do { T \<leftarrow> fl_tasks f p;
          P \<leftarrow> st_parallel T;
          v \<leftarrow> rd (pw_buf P) i;
          t \<leftarrow> v;
          f \<leftarrow> set_links (Some p) (Some (p, i)) t f;
          Some (Dispatching t # (if i + 1 \<noteq> n then [Looping p (i + 1) n] else []), f) }"
| "act_step (Started t) f = Some ([Finishing t], f)"
| "act_step (Finishing t) f =
     do { T \<leftarrow> fl_tasks f t;
          Some ([Calling t], f\<lparr>fl_log := fl_log f @ [if st_parallel T = None then Task_done t else Parallel_done t]\<rparr>) }"
| "act_step (Calling t) f = after_done t f"
| "act_step (Leaving p e) f =
     do { T \<leftarrow> fl_tasks f p;
          P \<leftarrow> st_parallel T;
          let n = count_down (pw_nleft P)
          in Some (if n = 0 then [Finishing p] else [], f\<lparr>fl_tasks := (fl_tasks f)(p \<mapsto> T\<lparr>st_parallel := Some (P\<lparr>pw_nleft := n\<rparr>)\<rparr>)\<rparr>) }"

text \<open>The task an activity works for.\<close>

fun act_task :: "activity \<Rightarrow> addr option" where
  "act_task (Dispatching t) = Some t"
| "act_task (Started t) = Some t"
| "act_task (Finishing t) = Some t"
| "act_task (Calling t) = Some t"
| "act_task (Looping p i n) = Some p"
| "act_task (Leaving p e) = None"

text \<open>
  A step of the system: one of an activity, or of the user in the callback of a task, who pushes a new task or cancels the series.
\<close>

inductive act_flow :: "flow \<Rightarrow> flow \<Rightarrow> bool" where
  act: "fl_acts f = xs @ a # ys \<Longrightarrow> act_step a f = Some (new, f') \<Longrightarrow> act_flow f (f'\<lparr>fl_acts := xs @ new @ ys\<rparr>)"

inductive user_push :: "flow \<Rightarrow> flow \<Rightarrow> bool" where
  user_push_back: "Calling t \<in> set (fl_acts f) \<Longrightarrow> fl_tasks f t = Some T \<Longrightarrow> st_pointer T = Some s \<Longrightarrow> fl_tasks f u = None \<Longrightarrow>
    series_push_back s u (f\<lparr>fl_tasks := (fl_tasks f)(u \<mapsto> new_subtask)\<rparr>) = Some f' \<Longrightarrow> user_push f f'"
| user_push_front: "Calling t \<in> set (fl_acts f) \<Longrightarrow> fl_tasks f t = Some T \<Longrightarrow> st_pointer T = Some s \<Longrightarrow> fl_tasks f u = None \<Longrightarrow>
    series_push_front s u (f\<lparr>fl_tasks := (fl_tasks f)(u \<mapsto> new_subtask)\<rparr>) = Some f' \<Longrightarrow> user_push f f'"

inductive user_cancel :: "flow \<Rightarrow> flow \<Rightarrow> bool" where
  cancel: "Calling t \<in> set (fl_acts f) \<Longrightarrow> fl_tasks f t = Some T \<Longrightarrow> st_pointer T = Some s \<Longrightarrow> series_cancel s f = Some f' \<Longrightarrow> user_cancel f f'"

text \<open>A run from \<open>f0\<close> with \<open>n\<close> steps of activities, in which the user pushed \<open>k\<close> tasks.\<close>

inductive flow_run :: "flow \<Rightarrow> nat \<Rightarrow> nat \<Rightarrow> flow \<Rightarrow> bool" for f0 :: flow where
  start: "flow_run f0 0 0 f0"
| act: "flow_run f0 n k f \<Longrightarrow> act_flow f f' \<Longrightarrow> flow_run f0 (Suc n) k f'"
| push: "flow_run f0 n k f \<Longrightarrow> user_push f f' \<Longrightarrow> flow_run f0 n (Suc k) f'"
| cancel: "flow_run f0 n k f \<Longrightarrow> user_cancel f f' \<Longrightarrow> flow_run f0 n k f'"

lemma task_done_eq:
  "task_done t f =
     do { T \<leftarrow> fl_tasks f t;
          s \<leftarrow> st_pointer T;
          f \<leftarrow> (case st_parallel T of Some P \<Rightarrow> delete_subs P [0..<pw_subtasks_nr P] f | None \<Rightarrow> Some f);
          f \<leftarrow> delete_task t f;
          pop s f }"
  by (cases "fl_tasks f t") (auto simp: task_done_def parallel_done_def plain_done_def split: option.split)

inductive_cases act_flowE: "act_flow f f'"
inductive_cases user_pushE: "user_push f f'"
inductive_cases user_cancelE: "user_cancel f f'"

end
