(* ===== verification/Flow_Core.thy ===== *)
theory Flow_Core
  imports Task_Flow
begin

text \<open>
  The invariant of running works. The shape of a work is given by three functions that never change: \<open>U\<close> says in which parallel work and at
  which place a series is, \<open>H\<close> in which series a parallel work is, and \<open>R\<close> is a rank that falls from a series to the series inside it. A status
  per series says how far it is; where the threads are follows from it.
\<close>

section \<open>Status of a series\<close>

datatype phase = P_disp | P_run | P_fin | P_call | P_loop nat nat | P_wait

text \<open>\<open>Gap\<close>: between two tasks, in the middle of a step. \<open>Leave\<close>: ended, but not counted yet by its parallel work.\<close>

datatype status = Unstarted | At addr phase | Gap | Leave | Ended

type_synonym place = "addr \<rightharpoonup> addr \<times> nat"
type_synonym statuses = "addr \<Rightarrow> status"

definition todo :: "series_work \<Rightarrow> addr list" where
  "todo S = pending S @ (case sw_last S of Some t \<Rightarrow> [t] | None \<Rightarrow> [])"

definition current :: "status \<Rightarrow> series_work \<Rightarrow> addr list" where
  "current st S = (case st of Unstarted \<Rightarrow> [sw_first S] | At t ph \<Rightarrow> [t] | _ \<Rightarrow> [])"

definition live :: "status \<Rightarrow> series_work \<Rightarrow> addr list" where
  "live st S = current st S @ todo S"

definition act_of :: "(addr \<times> nat) option \<Rightarrow> status \<Rightarrow> activity option" where
  "act_of u st =
     (case st of
        At t ph \<Rightarrow> (case ph of P_disp \<Rightarrow> Some (Dispatching t) | P_run \<Rightarrow> Some (Started t) | P_fin \<Rightarrow> Some (Finishing t)
                      | P_call \<Rightarrow> Some (Calling t) | P_loop i n \<Rightarrow> Some (Looping t i n) | P_wait \<Rightarrow> None)
      | Leave \<Rightarrow> (case u of Some (p, i) \<Rightarrow> Some (Leaving p (Some (p, i))) | None \<Rightarrow> None)
      | _ \<Rightarrow> None)"

section \<open>Stages of a parallel work\<close>

definition stage :: "(addr \<Rightarrow> addr) \<Rightarrow> statuses \<Rightarrow> addr \<Rightarrow> phase" where
  "stage H \<phi> p = (case \<phi> (H p) of At t ph \<Rightarrow> if t = p then ph else P_disp | _ \<Rightarrow> P_disp)"

definition sub_ok :: "phase \<Rightarrow> nat \<Rightarrow> status \<Rightarrow> bool" where
  "sub_ok ph i st =
     (case ph of P_loop k n \<Rightarrow> (st = Unstarted) = (k \<le> i) | P_wait \<Rightarrow> st \<noteq> Unstarted | P_fin \<Rightarrow> st = Ended | P_call \<Rightarrow> st = Ended
      | _ \<Rightarrow> st = Unstarted)"

definition left_count :: "statuses \<Rightarrow> parallel_work \<Rightarrow> nat" where
  "left_count \<phi> P = card {i. i < pw_subtasks_nr P \<and> \<phi> (the (sub_series P i)) \<noteq> Ended}"

lemma sub_series_nleft [simp]: "sub_series (P\<lparr>pw_nleft := k\<rparr>) i = sub_series P i"
  by (simp add: sub_series_def)

lemma left_count_nleft [simp]: "left_count \<phi> (P\<lparr>pw_nleft := k\<rparr>) = left_count \<phi> P"
  by (simp add: left_count_def)

definition nleft_ok :: "phase \<Rightarrow> statuses \<Rightarrow> parallel_work \<Rightarrow> bool" where
  "nleft_ok ph \<phi> P =
     (case ph of P_loop k n \<Rightarrow> n = pw_subtasks_nr P \<and> k < n \<and> pw_nleft P = left_count \<phi> P
      | P_wait \<Rightarrow> 0 < pw_nleft P \<and> pw_nleft P = left_count \<phi> P | _ \<Rightarrow> True)"

definition buf_ok :: "parallel_work \<Rightarrow> bool" where
  "buf_ok P \<longleftrightarrow> pw_subtasks_nr P \<le> pw_buf_size P \<and> length (pw_buf P) = 2 * pw_buf_size P"

text \<open>The series at place \<open>i\<close> of a parallel work \<open>p\<close>.\<close>

definition place_ok :: "place \<Rightarrow> statuses \<Rightarrow> (addr \<rightharpoonup> series_work) \<Rightarrow> addr \<Rightarrow> parallel_work \<Rightarrow> phase \<Rightarrow> nat \<Rightarrow> bool" where
  "place_ok U \<phi> SS p P ph i \<longleftrightarrow> (\<exists>s S. sub_series P i = Some s \<and> SS s = Some S \<and> U s = Some (p, i) \<and>
     (\<phi> s = Unstarted \<longrightarrow> pw_buf P ! i = Some (sw_first S)) \<and> sub_ok ph i (\<phi> s))"

definition phase_fits :: "phase \<Rightarrow> subtask \<Rightarrow> bool" where
  "phase_fits ph T \<longleftrightarrow> (if st_parallel T = None then ph \<in> {P_disp, P_run, P_fin, P_call} else ph \<noteq> P_run)"

section \<open>The invariant\<close>

definition inv_series :: "place \<Rightarrow> statuses \<Rightarrow> (addr \<rightharpoonup> series_work) \<Rightarrow> bool" where
  "inv_series U \<phi> SS \<longleftrightarrow> (\<forall>s S. SS s = Some S \<longrightarrow> series_inv S \<and> (sw_in_parallel S \<longleftrightarrow> U s \<noteq> None) \<and> distinct (live (\<phi> s) S) \<and>
     (\<phi> s \<in> {Leave, Ended} \<longrightarrow> todo S = [] \<and> U s \<noteq> None))"

definition inv_live :: "statuses \<Rightarrow> (addr \<rightharpoonup> subtask) \<Rightarrow> (addr \<rightharpoonup> series_work) \<Rightarrow> bool" where
  "inv_live \<phi> TS SS \<longleftrightarrow> (\<forall>s S t. SS s = Some S \<longrightarrow> t \<in> set (live (\<phi> s) S) \<longrightarrow> (\<exists>T. TS t = Some T \<and> st_pointer T = Some s))"

definition inv_cover :: "statuses \<Rightarrow> (addr \<rightharpoonup> subtask) \<Rightarrow> (addr \<rightharpoonup> series_work) \<Rightarrow> bool" where
  "inv_cover \<phi> TS SS \<longleftrightarrow> (\<forall>t T. TS t = Some T \<longrightarrow> (\<exists>s S. st_pointer T = Some s \<and> SS s = Some S \<and> t \<in> set (live (\<phi> s) S)))"

definition inv_links :: "place \<Rightarrow> statuses \<Rightarrow> (addr \<rightharpoonup> subtask) \<Rightarrow> (addr \<rightharpoonup> series_work) \<Rightarrow> bool" where
  "inv_links U \<phi> TS SS \<longleftrightarrow> (\<forall>s S t ph. SS s = Some S \<longrightarrow> \<phi> s = At t ph \<longrightarrow>
     (\<exists>T. TS t = Some T \<and> st_parent T = map_option fst (U s) \<and> st_entry T = U s \<and> phase_fits ph T))"

definition inv_up :: "place \<Rightarrow> (addr \<Rightarrow> addr) \<Rightarrow> (addr \<Rightarrow> nat) \<Rightarrow> (addr \<rightharpoonup> subtask) \<Rightarrow> (addr \<rightharpoonup> series_work) \<Rightarrow> bool" where
  "inv_up U H R TS SS \<longleftrightarrow> (\<forall>s S p i. SS s = Some S \<longrightarrow> U s = Some (p, i) \<longrightarrow>
     R s < R (H p) \<and> (\<exists>T P. TS p = Some T \<and> st_parallel T = Some P \<and> i < pw_subtasks_nr P \<and> sub_series P i = Some s))"

definition inv_par :: "place \<Rightarrow> (addr \<Rightarrow> addr) \<Rightarrow> statuses \<Rightarrow> (addr \<rightharpoonup> subtask) \<Rightarrow> (addr \<rightharpoonup> series_work) \<Rightarrow> bool" where
  "inv_par U H \<phi> TS SS \<longleftrightarrow> (\<forall>p T P. TS p = Some T \<longrightarrow> st_parallel T = Some P \<longrightarrow> st_pointer T = Some (H p) \<and> buf_ok P \<and>
     (\<forall>i < pw_subtasks_nr P. place_ok U \<phi> SS p P (stage H \<phi> p) i) \<and> nleft_ok (stage H \<phi> p) \<phi> P)"

definition inv_root :: "place \<Rightarrow> addr \<Rightarrow> statuses \<Rightarrow> (addr \<rightharpoonup> series_work) \<Rightarrow> bool" where
  "inv_root U root \<phi> SS \<longleftrightarrow> finite (dom SS) \<and> (\<forall>s S. SS s = Some S \<longrightarrow> U s = None \<longrightarrow> s = root \<and> \<phi> s \<noteq> Unstarted)"

definition flow_core :: "place \<Rightarrow> (addr \<Rightarrow> addr) \<Rightarrow> (addr \<Rightarrow> nat) \<Rightarrow> addr \<Rightarrow> statuses \<Rightarrow> (addr \<rightharpoonup> subtask) \<Rightarrow> (addr \<rightharpoonup> series_work) \<Rightarrow> bool" where
  "flow_core U H R root \<phi> TS SS \<longleftrightarrow> inv_series U \<phi> SS \<and> inv_live \<phi> TS SS \<and> inv_cover \<phi> TS SS \<and> inv_links U \<phi> TS SS \<and>
     inv_up U H R TS SS \<and> inv_par U H \<phi> TS SS \<and> inv_root U root \<phi> SS"

text \<open>The activities are those of the statuses, each of them once.\<close>

definition inv_acts :: "place \<Rightarrow> statuses \<Rightarrow> (addr \<rightharpoonup> series_work) \<Rightarrow> activity list \<Rightarrow> bool" where
  "inv_acts U \<phi> SS as \<longleftrightarrow> distinct as \<and> set as = {a. \<exists>s \<in> dom SS. act_of (U s) (\<phi> s) = Some a}"

definition flow_inv :: "place \<Rightarrow> (addr \<Rightarrow> addr) \<Rightarrow> (addr \<Rightarrow> nat) \<Rightarrow> addr \<Rightarrow> statuses \<Rightarrow> flow \<Rightarrow> bool" where
  "flow_inv U H R root \<phi> f \<longleftrightarrow> flow_core U H R root \<phi> (fl_tasks f) (fl_series f) \<and> inv_acts U \<phi> (fl_series f) (fl_acts f) \<and> (\<forall>s \<in> dom (fl_series f). \<phi> s \<noteq> Gap)"

text \<open>How much there is left to do: every step of an activity makes it less.\<close>

fun phase_weight :: "phase \<Rightarrow> nat" where
  "phase_weight P_disp = 6"
| "phase_weight (P_loop i n) = 5"
| "phase_weight P_wait = 4"
| "phase_weight P_run = 3"
| "phase_weight P_fin = 2"
| "phase_weight P_call = 1"

fun status_weight :: "status \<Rightarrow> nat" where
  "status_weight Unstarted = 9"
| "status_weight (At t ph) = phase_weight ph"
| "status_weight Gap = 0"
| "status_weight Leave = 1"
| "status_weight Ended = 0"

definition flow_weight :: "statuses \<Rightarrow> (addr \<rightharpoonup> subtask) \<Rightarrow> (addr \<rightharpoonup> series_work) \<Rightarrow> nat" where
  "flow_weight \<phi> TS SS = 6 * card (dom TS) + (\<Sum>s \<in> dom SS. status_weight (\<phi> s))"

section \<open>Reading the invariant\<close>

lemma flow_coreD:
  assumes "flow_core U H R root \<phi> TS SS"
  shows "inv_series U \<phi> SS" "inv_live \<phi> TS SS" "inv_cover \<phi> TS SS" "inv_links U \<phi> TS SS" "inv_up U H R TS SS" "inv_par U H \<phi> TS SS" "inv_root U root \<phi> SS"
  using assms by (simp_all add: flow_core_def)

lemma flow_coreI:
  "inv_series U \<phi> SS \<Longrightarrow> inv_live \<phi> TS SS \<Longrightarrow> inv_cover \<phi> TS SS \<Longrightarrow> inv_links U \<phi> TS SS \<Longrightarrow> inv_up U H R TS SS \<Longrightarrow> inv_par U H \<phi> TS SS \<Longrightarrow>
    inv_root U root \<phi> SS \<Longrightarrow> flow_core U H R root \<phi> TS SS"
  by (simp add: flow_core_def)

lemma seriesD:
  assumes "inv_series U \<phi> SS" "SS s = Some S"
  shows "series_inv S" "sw_in_parallel S \<longleftrightarrow> U s \<noteq> None" "distinct (live (\<phi> s) S)" "\<phi> s \<in> {Leave, Ended} \<Longrightarrow> todo S = [] \<and> U s \<noteq> None"
  using assms unfolding inv_series_def by blast+

lemma liveD: "inv_live \<phi> TS SS \<Longrightarrow> SS s = Some S \<Longrightarrow> t \<in> set (live (\<phi> s) S) \<Longrightarrow> \<exists>T. TS t = Some T \<and> st_pointer T = Some s"
  unfolding inv_live_def by blast

lemma coverD: "inv_cover \<phi> TS SS \<Longrightarrow> TS t = Some T \<Longrightarrow> \<exists>s S. st_pointer T = Some s \<and> SS s = Some S \<and> t \<in> set (live (\<phi> s) S)"
  unfolding inv_cover_def by blast

lemma linksD: "inv_links U \<phi> TS SS \<Longrightarrow> SS s = Some S \<Longrightarrow> \<phi> s = At t ph \<Longrightarrow>
    \<exists>T. TS t = Some T \<and> st_parent T = map_option fst (U s) \<and> st_entry T = U s \<and> phase_fits ph T"
  unfolding inv_links_def by blast

lemma upD: "inv_up U H R TS SS \<Longrightarrow> SS s = Some S \<Longrightarrow> U s = Some (p, i) \<Longrightarrow>
    R s < R (H p) \<and> (\<exists>T P. TS p = Some T \<and> st_parallel T = Some P \<and> i < pw_subtasks_nr P \<and> sub_series P i = Some s)"
  unfolding inv_up_def by blast

lemma parD:
  assumes "inv_par U H \<phi> TS SS" "TS p = Some T" "st_parallel T = Some P"
  shows "st_pointer T = Some (H p)" "buf_ok P" "\<And>i. i < pw_subtasks_nr P \<Longrightarrow> place_ok U \<phi> SS p P (stage H \<phi> p) i" "nleft_ok (stage H \<phi> p) \<phi> P"
  using assms unfolding inv_par_def by blast+

lemma live_at: "st = At t ph \<Longrightarrow> t \<in> set (live st S)"
  by (simp add: live_def current_def)

lemma act_inj:
  assumes core: "flow_core U H R root \<phi> TS SS" and s: "SS s = Some S" "act_of (U s) (\<phi> s) = Some a" and s': "SS s' = Some S'" "act_of (U s') (\<phi> s') = Some a"
  shows "s = s'"
proof (cases "\<exists>t ph. \<phi> s = At t ph")
  case True
  then obtain t ph where t: "\<phi> s = At t ph" by blast
  then obtain ph' where t': "\<phi> s' = At t ph'" using s(2) s'(2) by (auto simp: act_of_def split: phase.splits status.splits option.splits)
  have "\<exists>T. TS t = Some T \<and> st_pointer T = Some s" using liveD [OF flow_coreD(2) [OF core] s(1) live_at [OF t]] .
  moreover have "\<exists>T. TS t = Some T \<and> st_pointer T = Some s'" using liveD [OF flow_coreD(2) [OF core] s'(1) live_at [OF t']] .
  ultimately show ?thesis by auto
next
  case False
  then have "\<phi> s = Leave" using s(2) by (auto simp: act_of_def split: status.splits)
  then obtain p i where u: "U s = Some (p, i)" "a = Leaving p (Some (p, i))" using s(2) by (auto simp: act_of_def split: option.splits)
  then have "U s' = Some (p, i)" using s'(2) by (auto simp: act_of_def split: phase.splits status.splits option.splits)
  then show ?thesis using upD [OF flow_coreD(5) [OF core] s(1) u(1)] upD [OF flow_coreD(5) [OF core] s'(1)] by fastforce
qed

text \<open>Replacing the activity of one series, when the statuses change on a set \<open>Z\<close> of series.\<close>

lemma acts_replace:
  assumes old: "inv_acts U \<phi> SS (xs @ a # ys)" "flow_core U H R root \<phi> TS SS" and new: "flow_core U H R root \<phi>' TS' SS'"
    and owner: "s \<in> Z" "s \<in> dom SS" "act_of (U s) (\<phi> s) = Some a"
    and rest: "\<And>z. z \<notin> Z \<Longrightarrow> z \<in> dom SS' \<longleftrightarrow> z \<in> dom SS" "\<And>z. z \<notin> Z \<Longrightarrow> \<phi>' z = \<phi> z"
      "\<And>z. z \<in> Z \<Longrightarrow> z \<noteq> s \<Longrightarrow> z \<in> dom SS \<Longrightarrow> act_of (U z) (\<phi> z) = None"
    and made: "distinct bs" "set bs = {b. \<exists>z \<in> Z \<inter> dom SS'. act_of (U z) (\<phi>' z) = Some b}"
  shows "inv_acts U \<phi>' SS' (xs @ bs @ ys)"
proof -
  note dom = rest(1)
  have others: "set (xs @ ys) = {b. \<exists>z \<in> dom SS - Z. act_of (U z) (\<phi> z) = Some b}" (is "_ = ?O")
  proof
    show "set (xs @ ys) \<subseteq> ?O"
    proof
      fix b assume b: "b \<in> set (xs @ ys)"
      then have "b \<noteq> a" using old(1) by (auto simp: inv_acts_def)
      moreover obtain z where "z \<in> dom SS" "act_of (U z) (\<phi> z) = Some b" using b old(1) by (fastforce simp: inv_acts_def)
      ultimately show "b \<in> ?O" using rest(3) [of z] owner(3) by fastforce
    qed
    show "?O \<subseteq> set (xs @ ys)"
    proof
      fix b assume "b \<in> ?O"
      then obtain z where z: "z \<in> dom SS" "z \<notin> Z" "act_of (U z) (\<phi> z) = Some b" by blast
      then have "b \<in> set (xs @ a # ys)" using old(1) by (auto simp: inv_acts_def)
      moreover have "b \<noteq> a" using act_inj [OF old(2)] z owner by blast
      ultimately show "b \<in> set (xs @ ys)" by auto
    qed
  qed
  have "set bs \<inter> set (xs @ ys) = {}"
  proof (rule ccontr)
    assume "set bs \<inter> set (xs @ ys) \<noteq> {}"
    then obtain b z z' where "z \<in> Z \<inter> dom SS'" "act_of (U z) (\<phi>' z) = Some b" "z' \<in> dom SS - Z" "act_of (U z') (\<phi> z') = Some b"
      using others made(2) by blast
    then show False using act_inj [OF new] dom rest(2) by (metis DiffD1 DiffD2 IntD1 IntD2 domD)
  qed
  moreover have "distinct (xs @ ys)" using old(1) by (auto simp: inv_acts_def)
  ultimately have "distinct (xs @ bs @ ys)" using made(1) by auto
  moreover have "set (xs @ bs @ ys) = {b. \<exists>z \<in> dom SS'. act_of (U z) (\<phi>' z) = Some b}" (is "?l = ?r")
  proof -
    have "?l = set (xs @ ys) \<union> set bs" by auto
    also have "\<dots> = ?r" 
    proof (intro equalityI subsetI)
      fix b assume "b \<in> set (xs @ ys) \<union> set bs"
      then consider z where "z \<in> dom SS" "z \<notin> Z" "act_of (U z) (\<phi> z) = Some b" | z where "z \<in> dom SS'" "act_of (U z) (\<phi>' z) = Some b"
        unfolding others made(2) by blast
      then show "b \<in> ?r"
      proof cases
        case (1 z)
        then show ?thesis using dom [OF 1(2)] rest(2) [OF 1(2)] by (intro CollectI bexI [of _ z]) simp_all
      qed blast
    next
      fix b assume "b \<in> ?r"
      then obtain z where z: "z \<in> dom SS'" "act_of (U z) (\<phi>' z) = Some b" by blast
      show "b \<in> set (xs @ ys) \<union> set bs"
      proof (cases "z \<in> Z")
        case False
        then have "z \<in> dom SS - Z" "act_of (U z) (\<phi> z) = Some b" using z dom rest(2) by auto
        then show ?thesis unfolding others by blast
      qed (use z made(2) in blast)
    qed
    finally show ?thesis .
  qed
  ultimately show ?thesis by (simp add: inv_acts_def)
qed

section \<open>Statuses that a parallel work cannot tell apart\<close>

definition alike_status :: "statuses \<Rightarrow> statuses \<Rightarrow> bool" where
  "alike_status \<phi>' \<phi> \<longleftrightarrow> (\<forall>z. (\<phi>' z = Unstarted \<longleftrightarrow> \<phi> z = Unstarted) \<and> (\<phi>' z = Ended \<longleftrightarrow> \<phi> z = Ended))"

lemma alikeD: "alike_status \<phi>' \<phi> \<Longrightarrow> \<phi>' z = Unstarted \<longleftrightarrow> \<phi> z = Unstarted" "alike_status \<phi>' \<phi> \<Longrightarrow> \<phi>' z = Ended \<longleftrightarrow> \<phi> z = Ended"
  by (simp_all add: alike_status_def)

lemma sub_ok_alike: "alike_status \<phi>' \<phi> \<Longrightarrow> sub_ok q i (\<phi>' z) = sub_ok q i (\<phi> z)"
  by (cases q) (simp_all add: sub_ok_def alikeD)

lemma nleft_alike: "alike_status \<phi>' \<phi> \<Longrightarrow> nleft_ok q \<phi>' P = nleft_ok q \<phi> P"
proof -
  assume "alike_status \<phi>' \<phi>"
  then have "left_count \<phi>' P = left_count \<phi> P" for P by (simp add: left_count_def alikeD)
  then show ?thesis by (cases q) (simp_all add: nleft_ok_def)
qed

lemma place_alike: "alike_status \<phi>' \<phi> \<Longrightarrow> place_ok U \<phi>' SS p P q i = place_ok U \<phi> SS p P q i"
  by (simp add: place_ok_def sub_ok_alike alikeD)

section \<open>A task moves on\<close>

lemma core_phase:
  assumes core: "flow_core U H R root \<phi> TS SS" and s: "SS s = Some S" "\<phi> s = At t ph" and t: "TS t = Some T"
    and T': "st_parent T' = st_parent T" "st_entry T' = st_entry T" "st_pointer T' = st_pointer T"
      "st_parallel T' = map_option (\<lambda>P. P\<lparr>pw_nleft := n\<rparr>) (st_parallel T)"
    and fits: "phase_fits ph' T"
    and par: "\<And>P i s'. st_parallel T = Some P \<Longrightarrow> i < pw_subtasks_nr P \<Longrightarrow> sub_series P i = Some s' \<Longrightarrow> sub_ok ph' i (\<phi> s')"
      "\<And>P. st_parallel T = Some P \<Longrightarrow> nleft_ok ph' \<phi> (P\<lparr>pw_nleft := n\<rparr>)"
  shows "flow_core U H R root (\<phi>(s := At t ph')) (TS(t \<mapsto> T')) SS"
proof -
  let ?\<phi> = "\<phi>(s := At t ph')" and ?TS = "TS(t \<mapsto> T')"
  note C = flow_coreD [OF core]
  have lv: "live (?\<phi> z) Z = live (\<phi> z) Z" for z Z using s(2) by (simp add: live_def current_def)
  have pt: "\<exists>T''. ?TS x = Some T'' \<and> st_pointer T'' = st_pointer X" if "TS x = Some X" for x X using that t T'(3) by auto
  have sub: "sub_series (P\<lparr>pw_nleft := k\<rparr>) i = sub_series P i" for P k i by (simp add: sub_series_def)
  show ?thesis
  proof (rule flow_coreI)
    show "inv_series U ?\<phi> SS" unfolding inv_series_def lv
    proof (intro allI impI)
      fix z Z assume z: "SS z = Some Z"
      show "series_inv Z \<and> (sw_in_parallel Z \<longleftrightarrow> U z \<noteq> None) \<and> distinct (live (\<phi> z) Z) \<and> (?\<phi> z \<in> {Leave, Ended} \<longrightarrow> todo Z = [] \<and> U z \<noteq> None)"
        using seriesD [OF C(1) z] by simp
    qed
    show "inv_live ?\<phi> ?TS SS" unfolding inv_live_def lv
    proof (intro allI impI)
      fix z Z x assume "SS z = Some Z" "x \<in> set (live (\<phi> z) Z)"
      then show "\<exists>T. ?TS x = Some T \<and> st_pointer T = Some z" using liveD [OF C(2)] pt by fastforce
    qed
    show "inv_cover ?\<phi> ?TS SS" unfolding inv_cover_def lv
    proof (intro allI impI)
      fix x X assume "?TS x = Some X"
      then show "\<exists>s S. st_pointer X = Some s \<and> SS s = Some S \<and> x \<in> set (live (\<phi> s) S)"
        using coverD [OF C(3)] t T'(3) by (cases "x = t") auto
    qed
    show "inv_links U ?\<phi> ?TS SS" unfolding inv_links_def
    proof (intro allI impI)
      fix z Z x q assume z: "SS z = Some Z" "?\<phi> z = At x q"
      show "\<exists>T. ?TS x = Some T \<and> st_parent T = map_option fst (U z) \<and> st_entry T = U z \<and> phase_fits q T"
      proof (cases "z = s")
        case True
        then show ?thesis using z linksD [OF C(4) s] t T' fits by (auto simp: phase_fits_def)
      next
        case False
        have "x \<noteq> t"
        proof
          assume "x = t"
          then show False using liveD [OF C(2) z(1), of x] liveD [OF C(2) s(1), of t] live_at [of _ x q Z] live_at [OF s(2), of S] z(2) False by auto
        qed
        then show ?thesis using linksD [OF C(4) z(1), of x q] z(2) False by auto
      qed
    qed
    show "inv_up U H R ?TS SS" unfolding inv_up_def
    proof (intro allI impI)
      fix z Z p i assume z: "SS z = Some Z" "U z = Some (p, i)"
      note V = upD [OF C(5) z]
      then obtain X P where X: "TS p = Some X" "st_parallel X = Some P" "i < pw_subtasks_nr P" "sub_series P i = Some z" by blast
      then show "R z < R (H p) \<and> (\<exists>T P. ?TS p = Some T \<and> st_parallel T = Some P \<and> i < pw_subtasks_nr P \<and> sub_series P i = Some z)"
        using V t T'(4) by (cases "p = t") (auto simp: sub)
    qed
    have st: "stage H ?\<phi> p = stage H \<phi> p" if "p \<noteq> t" for p using s(2) that by (simp add: stage_def)
    have home: "H t = s" if "st_parallel T = Some P" for P
      using parD(1) [OF C(6) t that] liveD [OF C(2) s(1) live_at [OF s(2)]] t by simp
    have "alike_status ?\<phi> \<phi>" using s(2) by (simp add: alike_status_def)
    note nl = nleft_alike [OF this] and pl = place_alike [OF this]
    show "inv_par U H ?\<phi> ?TS SS" unfolding inv_par_def nl pl
    proof (intro allI impI)
      fix p X P assume X: "?TS p = Some X" "st_parallel X = Some P"
      show "st_pointer X = Some (H p) \<and> buf_ok P \<and> (\<forall>i < pw_subtasks_nr P. place_ok U \<phi> SS p P (stage H ?\<phi> p) i) \<and> nleft_ok (stage H ?\<phi> p) \<phi> P"
      proof (cases "p = t")
        case False
        then show ?thesis using X parD [OF C(6), of p X P] st by auto
      next
        case True
        then obtain P0 where P0: "st_parallel T = Some P0" "P = P0\<lparr>pw_nleft := n\<rparr>" "X = T'" using X T'(4) by (cases "st_parallel T") auto
        note D = parD [OF C(6) t P0(1)]
        have stg: "stage H ?\<phi> t = ph'" using home [OF P0(1)] by (simp add: stage_def)
        have "place_ok U \<phi> SS t P ph' i" if "i < pw_subtasks_nr P" for i
          using D(3) [of i] that par(1) [OF P0(1)] P0(2) by (auto simp: place_ok_def sub)
        then show ?thesis using D(1,2) T'(3) P0 par(2) [OF P0(1)] True stg by (simp add: buf_ok_def)
      qed
    qed
    show "inv_root U root ?\<phi> SS" using C(7) s by (auto simp: inv_root_def)
  qed
qed

section \<open>A series moves on\<close>

text \<open>
  One series gets a new status and new tasks, and the series \<open>X\<close> are removed with their tasks; the parallel works that are left keep
  their series.
\<close>

lemma core_update:
  assumes core: "flow_core U H R root \<phi> TS SS" and s: "SS s = Some S" "s \<notin> X"
    and new: "series_inv S'" "sw_in_parallel S' = sw_in_parallel S" "distinct (live st' S')" "st' \<in> {Leave, Ended} \<Longrightarrow> todo S' = [] \<and> U s \<noteq> None"
    and cls: "st' = Unstarted \<longleftrightarrow> \<phi> s = Unstarted" "st' = Ended \<longleftrightarrow> \<phi> s = Ended" "st' = Unstarted \<Longrightarrow> sw_first S' = sw_first S"
    and keep: "\<And>x T. TS x = Some T \<Longrightarrow> st_pointer T \<noteq> Some s \<Longrightarrow> st_pointer T \<notin> Some ` X \<Longrightarrow> TS' x = Some T"
    and gone: "\<And>x T. TS x = Some T \<Longrightarrow> st_pointer T \<in> Some ` X \<Longrightarrow> TS' x = None"
    and own: "\<And>x. x \<in> set (live st' S') \<longleftrightarrow> (\<exists>T. TS' x = Some T \<and> st_pointer T = Some s)"
    and fresh: "\<And>x T. TS' x = Some T \<Longrightarrow> TS x = None \<Longrightarrow> st_pointer T = Some s \<and> st_parallel T = None"
    and same: "\<And>x T T'. TS x = Some T \<Longrightarrow> TS' x = Some T' \<Longrightarrow> st_pointer T' = st_pointer T \<and> st_parallel T' = st_parallel T"
    and subs: "\<And>z p i. z \<in> dom SS \<Longrightarrow> U z = Some (p, i) \<Longrightarrow> z \<in> X \<longleftrightarrow> TS' p = None"
    and links: "\<And>c ph. st' = At c ph \<Longrightarrow> \<exists>T. TS' c = Some T \<and> st_parent T = map_option fst (U s) \<and> st_entry T = U s \<and> phase_fits ph T"
    and stg: "\<And>p. TS' p \<noteq> None \<Longrightarrow> H p = s \<Longrightarrow> stage H (\<phi>(s := st')) p = stage H \<phi> p"
  shows "flow_core U H R root (\<phi>(s := st')) TS' ((SS |` (- X))(s \<mapsto> S'))"
proof -
  let ?\<phi> = "\<phi>(s := st')" and ?SS = "(SS |` (- X))(s \<mapsto> S')"
  note C = flow_coreD [OF core]
  have other: "SS z = Some Z \<and> z \<notin> X \<and> ?\<phi> z = \<phi> z" if "?SS z = Some Z" "z \<noteq> s" for z Z
    using that by (auto simp: restrict_map_def split: if_splits)
  have al: "alike_status ?\<phi> \<phi>" using cls(1,2) by (simp add: alike_status_def)
  show ?thesis
  proof (rule flow_coreI)
    show "inv_series U ?\<phi> ?SS" unfolding inv_series_def
    proof (intro allI impI)
      fix z Z assume z: "?SS z = Some Z"
      show "series_inv Z \<and> (sw_in_parallel Z \<longleftrightarrow> U z \<noteq> None) \<and> distinct (live (?\<phi> z) Z) \<and> (?\<phi> z \<in> {Leave, Ended} \<longrightarrow> todo Z = [] \<and> U z \<noteq> None)"
      proof (cases "z = s")
        case True
        then show ?thesis using z new seriesD(2) [OF C(1) s(1)] by auto
      next
        case False
        then show ?thesis using other [OF z False] seriesD [OF C(1), of z Z] by auto
      qed
    qed
    show "inv_live ?\<phi> TS' ?SS" unfolding inv_live_def
    proof (intro allI impI)
      fix z Z x assume z: "?SS z = Some Z" "x \<in> set (live (?\<phi> z) Z)"
      show "\<exists>T. TS' x = Some T \<and> st_pointer T = Some z"
      proof (cases "z = s")
        case True
        then show ?thesis using z own by auto
      next
        case False
        note o = other [OF z(1) False]
        then obtain T where T: "TS x = Some T" "st_pointer T = Some z" using liveD [OF C(2), of z Z x] z(2) by auto
        then have "TS' x = Some T" using keep [OF T(1)] False o by auto
        then show ?thesis using T(2) by simp
      qed
    qed
    show "inv_cover ?\<phi> TS' ?SS" unfolding inv_cover_def
    proof (intro allI impI)
      fix x T assume x: "TS' x = Some T"
      show "\<exists>z Z. st_pointer T = Some z \<and> ?SS z = Some Z \<and> x \<in> set (live (?\<phi> z) Z)"
      proof (cases "TS x")
        case None
        then show ?thesis using fresh [OF x] own [of x] x by (intro exI [of _ s] exI [of _ S']) auto
      next
        case (Some T0)
        obtain z Z where z: "st_pointer T = Some z" "SS z = Some Z" "x \<in> set (live (\<phi> z) Z)" using coverD [OF C(3) Some] same [OF Some x] by auto
        have "st_pointer T0 = Some z" using same [OF Some x] z(1) by simp
        then have "z \<notin> X" using gone [OF Some] x by auto
        then show ?thesis using z own [of x] x by (cases "z = s") auto
      qed
    qed
    show "inv_links U ?\<phi> TS' ?SS" unfolding inv_links_def
    proof (intro allI impI)
      fix z Z x q assume z: "?SS z = Some Z" "?\<phi> z = At x q"
      show "\<exists>T. TS' x = Some T \<and> st_parent T = map_option fst (U z) \<and> st_entry T = U z \<and> phase_fits q T"
      proof (cases "z = s")
        case True
        then show ?thesis using links z(2) by auto
      next
        case False
        note o = other [OF z(1) False]
        then have \<phi>: "\<phi> z = At x q" using z(2) by simp
        obtain T where T: "TS x = Some T" "st_parent T = map_option fst (U z)" "st_entry T = U z" "phase_fits q T" using linksD [OF C(4) _ \<phi>] o by blast
        moreover have "st_pointer T = Some z" using liveD [OF C(2), of z Z x] live_at [OF \<phi>] o T(1) by fastforce
        ultimately have "TS' x = Some T" using keep [OF T(1)] False o by auto
        then show ?thesis using T by simp
      qed
    qed
    show "inv_up U H R TS' ?SS" unfolding inv_up_def
    proof (intro allI impI)
      fix z Z p i assume z: "?SS z = Some Z" "U z = Some (p, i)"
      obtain Z0 where Z0: "SS z = Some Z0" "z \<notin> X" using other [OF z(1)] s by (cases "z = s") auto
      obtain T P where T: "TS p = Some T" "st_parallel T = Some P" "i < pw_subtasks_nr P" "sub_series P i = Some z" "R z < R (H p)" using upD [OF C(5) Z0(1) z(2)] by blast
      obtain T' where "TS' p = Some T'" using subs [of z p i] Z0 z(2) by auto
      then show "R z < R (H p) \<and> (\<exists>T P. TS' p = Some T \<and> st_parallel T = Some P \<and> i < pw_subtasks_nr P \<and> sub_series P i = Some z)"
        using T same [OF T(1)] by auto
    qed
    show "inv_par U H ?\<phi> TS' ?SS" unfolding inv_par_def
    proof (intro allI impI)
      fix p T' P assume p: "TS' p = Some T'" "st_parallel T' = Some P"
      then obtain T where T: "TS p = Some T" using fresh by fastforce
      then have T2: "st_parallel T = Some P" "st_pointer T' = st_pointer T" using same [OF T p(1)] p(2) by auto
      note D = parD [OF C(6) T T2(1)]
      have sg: "stage H ?\<phi> p = stage H \<phi> p" using stg [of p] p(1) by (cases "H p = s") (auto simp: stage_def)
      have "place_ok U ?\<phi> ?SS p P (stage H \<phi> p) i" if "i < pw_subtasks_nr P" for i
      proof -
        have "place_ok U ?\<phi> SS p P (stage H \<phi> p) i" using D(3) [OF that] place_alike [OF al] by blast
        then obtain z Z where z: "sub_series P i = Some z" "SS z = Some Z" "U z = Some (p, i)" "?\<phi> z = Unstarted \<longrightarrow> pw_buf P ! i = Some (sw_first Z)"
          "sub_ok (stage H \<phi> p) i (?\<phi> z)" unfolding place_ok_def by blast
        then have "z \<notin> X" using subs [of z p i] p(1) by auto
        show ?thesis
        proof (cases "z = s")
          case True
          then show ?thesis using z cls(3) s(1) unfolding place_ok_def by (intro exI [of _ s] exI [of _ S']) auto
        next
          case False
          then show ?thesis using z \<open>z \<notin> X\<close> unfolding place_ok_def by (intro exI [of _ z] exI [of _ Z]) auto
        qed
      qed
      then show "st_pointer T' = Some (H p) \<and> buf_ok P \<and> (\<forall>i < pw_subtasks_nr P. place_ok U ?\<phi> ?SS p P (stage H ?\<phi> p) i) \<and> nleft_ok (stage H ?\<phi> p) ?\<phi> P"
        using D(1,2,4) T2(2) sg nleft_alike [OF al] by auto
    qed
    have "dom ?SS \<subseteq> dom SS" using s(1) by (auto simp: restrict_map_def split: if_splits)
    then have "finite (dom ?SS)" using C(7) by (auto simp: inv_root_def intro: finite_subset)
    then show "inv_root U root ?\<phi> ?SS" using C(7) s(1) cls(1) by (auto simp: inv_root_def restrict_map_def split: if_splits)
  qed
qed

lemma restrict_none: "m |` (- {}) = m"
  by (rule ext) (simp add: restrict_map_def)

lemma pointer_at: "flow_core U H R root \<phi> TS SS \<Longrightarrow> SS s = Some S \<Longrightarrow> \<phi> s = At t ph \<Longrightarrow> TS t = Some T \<Longrightarrow> st_pointer T = Some s"
  using liveD [OF flow_coreD(2), of U H R root \<phi> TS SS s S t] live_at by fastforce

lemma core_own:
  assumes "flow_core U H R root \<phi> TS SS" "SS s = Some S"
  shows "x \<in> set (live (\<phi> s) S) \<longleftrightarrow> (\<exists>T. TS x = Some T \<and> st_pointer T = Some s)"
  using liveD [OF flow_coreD(2) [OF assms(1)] assms(2), of x] coverD [OF flow_coreD(3) [OF assms(1)], of x] assms(2) by fastforce

text \<open>A task is deleted behind its callback, with the series of a parallel work, which have all ended.\<close>

definition subs_of :: "place \<Rightarrow> addr \<Rightarrow> addr set" where
  "subs_of U p = {z. \<exists>i. U z = Some (p, i)}"

lemma called_subs:
  assumes core: "flow_core U H R root \<phi> TS SS" and s: "SS s = Some S" "\<phi> s = At t ph" "ph \<in> {P_fin, P_call}" and z: "z \<in> subs_of U t" "SS z = Some Z"
  shows "\<phi> z = Ended" "live (\<phi> z) Z = []" "z \<noteq> s"
proof -
  note C = flow_coreD [OF core]
  obtain i where i: "U z = Some (t, i)" using z(1) by (auto simp: subs_of_def)
  obtain T P where T: "TS t = Some T" "st_parallel T = Some P" "i < pw_subtasks_nr P" "sub_series P i = Some z" "R z < R (H t)" using upD [OF C(5) z(2) i] by blast
  have h: "H t = s" using parD(1) [OF C(6) T(1,2)] pointer_at [OF core s(1,2) T(1)] by simp
  then have "stage H \<phi> t = ph" using s(2) by (simp add: stage_def)
  then have "sub_ok ph i (\<phi> z)" using parD(3) [OF C(6) T(1-3)] T(4) by (auto simp: place_ok_def)
  then show e: "\<phi> z = Ended" using s(3) by (auto simp: sub_ok_def)
  show "live (\<phi> z) Z = []" using seriesD(4) [OF C(1) z(2)] e by (simp add: live_def current_def)
  show "z \<noteq> s" using T(5) h by auto
qed

lemma core_finish:
  assumes core: "flow_core U H R root \<phi> TS SS" and s: "SS s = Some S" "\<phi> s = At t P_call" and t: "TS t = Some T"
  shows "flow_core U H R root (\<phi>(s := Gap)) (TS(t := None)) (SS |` (- subs_of U t))"
proof -
  note C = flow_coreD [OF core]
  note sub = called_subs [OF core s]
  have ns: "s \<notin> subs_of U t" using sub(3) [of s S] s(1) by auto
  have pt: "st_pointer T = Some s" by (rule pointer_at [OF core s t])
  have none: "st_pointer X \<notin> Some ` subs_of U t" if "TS x = Some X" for x X
  proof
    assume "st_pointer X \<in> Some ` subs_of U t"
    then obtain z where z: "z \<in> subs_of U t" "st_pointer X = Some z" by auto
    then show False using coverD [OF C(3) that] sub(2) by fastforce
  qed
  have e: "(SS |` (- subs_of U t))(s \<mapsto> S) = SS |` (- subs_of U t)" using s(1) ns by (auto simp: restrict_map_def)
  have "flow_core U H R root (\<phi>(s := Gap)) (TS(t := None)) ((SS |` (- subs_of U t))(s \<mapsto> S))"
  proof (rule core_update [OF core s(1) ns])
    show "distinct (live Gap S)" using seriesD(3) [OF C(1) s(1)] by (simp add: live_def current_def)
    show "x \<in> set (live Gap S) \<longleftrightarrow> (\<exists>T. (TS(t := None)) x = Some T \<and> st_pointer T = Some s)" for x
      using core_own [OF core s(1), of x] seriesD(3) [OF C(1) s(1)] s(2) by (auto simp: live_def current_def)
    show "z \<in> subs_of U t \<longleftrightarrow> (TS(t := None)) p = None" if "z \<in> dom SS" "U z = Some (p, i)" for z p i
      using that upD [OF C(5), of z _ p i] by (auto simp: subs_of_def)
  qed (use seriesD(1) [OF C(1) s(1)] s t pt none in \<open>auto simp: stage_def split: if_splits\<close>)
  then show ?thesis by (simp only: e)
qed

text \<open>The next task of a series, with its links.\<close>

lemma core_next:
  assumes core: "flow_core U H R root \<phi> TS SS" and s: "SS s = Some S" "\<phi> s = Gap" and c: "todo S = c # todo S'" "TS c = Some C"
    and S': "series_inv S'" "sw_in_parallel S' = sw_in_parallel S"
  shows "flow_core U H R root (\<phi>(s := At c P_disp)) (TS(c \<mapsto> C\<lparr>st_parent := map_option fst (U s), st_entry := U s\<rparr>)) (SS(s \<mapsto> S'))"
proof -
  note C = flow_coreD [OF core]
  have lv: "live (At c P_disp) S' = live (\<phi> s) S" using s(2) c(1) by (simp add: live_def current_def)
  have pt: "st_pointer C = Some s" using liveD [OF C(2) s(1), of c] c s(2) by (auto simp: live_def)
  have "flow_core U H R root (\<phi>(s := At c P_disp)) (TS(c \<mapsto> C\<lparr>st_parent := map_option fst (U s), st_entry := U s\<rparr>)) ((SS |` (- {}))(s \<mapsto> S'))"
  proof (rule core_update [OF core s(1)])
    show "distinct (live (At c P_disp) S')" using seriesD(3) [OF C(1) s(1)] lv by simp
    show "x \<in> set (live (At c P_disp) S') \<longleftrightarrow> (\<exists>T. (TS(c \<mapsto> C\<lparr>st_parent := map_option fst (U s), st_entry := U s\<rparr>)) x = Some T \<and> st_pointer T = Some s)" for x
      using core_own [OF core s(1), of x] lv c(2) pt by auto
    show "z \<in> {} \<longleftrightarrow> (TS(c \<mapsto> C\<lparr>st_parent := map_option fst (U s), st_entry := U s\<rparr>)) p = None" if "z \<in> dom SS" "U z = Some (p, i)" for z p i
      using that upD [OF C(5), of z _ p i] by auto
    show "\<exists>T. (TS(c \<mapsto> C\<lparr>st_parent := map_option fst (U s), st_entry := U s\<rparr>)) c' = Some T \<and> st_parent T = map_option fst (U s) \<and> st_entry T = U s \<and> phase_fits ph T"
      if "At c P_disp = At c' ph" for c' ph using that by (auto simp: phase_fits_def)
  qed (use S' s c(2) pt in \<open>auto simp: stage_def split: if_splits\<close>)
  then show ?thesis unfolding restrict_none .
qed

text \<open>A series that is part of a parallel work has run out of tasks.\<close>

lemma core_leave:
  assumes core: "flow_core U H R root \<phi> TS SS" and s: "SS s = Some S" "\<phi> s = Gap" "U s \<noteq> None" and c: "todo S = []" "todo S' = []"
    and S': "series_inv S'" "sw_in_parallel S' = sw_in_parallel S"
  shows "flow_core U H R root (\<phi>(s := Leave)) TS (SS(s \<mapsto> S'))"
proof -
  note C = flow_coreD [OF core]
  have lv: "live Leave S' = []" "live (\<phi> s) S = []" using s(2) c by (simp_all add: live_def current_def)
  have "flow_core U H R root (\<phi>(s := Leave)) TS ((SS |` (- {}))(s \<mapsto> S'))"
  proof (rule core_update [OF core s(1)])
    show "x \<in> set (live Leave S') \<longleftrightarrow> (\<exists>T. TS x = Some T \<and> st_pointer T = Some s)" for x
      using core_own [OF core s(1), of x] lv by simp
    show "z \<in> {} \<longleftrightarrow> TS p = None" if "z \<in> dom SS" "U z = Some (p, i)" for z p i
      using that upD [OF C(5), of z _ p i] by auto
  qed (use S' s c lv in \<open>auto simp: stage_def split: if_splits\<close>)
  then show ?thesis unfolding restrict_none .
qed

text \<open>The series that was started has run out of tasks and is deleted.\<close>

lemma core_end:
  assumes core: "flow_core U H R root \<phi> TS SS" and s: "SS s = Some S" "\<phi> s = Gap" "U s = None" and c: "todo S = []"
  shows "flow_core U H R root \<phi> TS (SS(s := None))"
proof -
  note C = flow_coreD [OF core]
  have none: "\<not> (TS x = Some T \<and> st_pointer T = Some s)" for x T using core_own [OF core s(1), of x] s(2) c by (auto simp: live_def current_def)
  show ?thesis
  proof (rule flow_coreI)
    have sm: "SS z = Some Z" if "(SS(s := None)) z = Some Z" for z Z using that by (simp split: if_splits)
    show "inv_series U \<phi> (SS(s := None))" using C(1) sm unfolding inv_series_def by blast
    show "inv_live \<phi> TS (SS(s := None))" using C(2) sm unfolding inv_live_def by blast
    show "inv_cover \<phi> TS (SS(s := None))" unfolding inv_cover_def
    proof (intro allI impI)
      fix x T assume x: "TS x = Some T"
      show "\<exists>z Z. st_pointer T = Some z \<and> (SS(s := None)) z = Some Z \<and> x \<in> set (live (\<phi> z) Z)" using coverD [OF C(3) x] none [of x T] x by auto
    qed
    show "inv_links U \<phi> TS (SS(s := None))" using C(4) sm unfolding inv_links_def by blast
    show "inv_up U H R TS (SS(s := None))" using C(5) sm unfolding inv_up_def by blast
    have pl: "place_ok U \<phi> (SS(s := None)) p P q i" if "place_ok U \<phi> SS p P q i" for p P q i
      using that s(3) unfolding place_ok_def by (metis fun_upd_other option.distinct(1))
    show "inv_par U H \<phi> TS (SS(s := None))" using C(6) pl unfolding inv_par_def by blast
    show "inv_root U root \<phi> (SS(s := None))" using C(7) by (auto simp: inv_root_def)
  qed
qed

section \<open>Parallel works\<close>

text \<open>A place of the array whose series was started is only written, never read.\<close>

lemma core_entry:
  assumes core: "flow_core U H R root \<phi> TS SS" and p: "TS p = Some T" "st_parallel T = Some P" and i: "i < pw_subtasks_nr P" "sub_series P i = Some z" "\<phi> z \<noteq> Unstarted"
  shows "flow_core U H R root \<phi> (TS(p \<mapsto> T\<lparr>st_parallel := Some (P\<lparr>pw_buf := (pw_buf P)[i := v]\<rparr>)\<rparr>)) SS"
proof -
  let ?P = "P\<lparr>pw_buf := (pw_buf P)[i := v]\<rparr>"
  let ?TS = "TS(p \<mapsto> T\<lparr>st_parallel := Some ?P\<rparr>)"
  note C = flow_coreD [OF core]
  note D = parD [OF C(6) p]
  have sub: "sub_series ?P j = sub_series P j" for j using D(2) i(1) by (simp add: sub_series_def buf_ok_def rd_def)
  have pl: "place_ok U \<phi> SS p ?P q j" if "place_ok U \<phi> SS p P q j" "j < pw_subtasks_nr P" for q j
    using that i(2,3) by (cases "j = i") (auto simp: place_ok_def sub)
  have lc: "left_count \<phi> ?P = left_count \<phi> P" by (simp add: left_count_def sub)
  have nl: "nleft_ok q \<phi> ?P = nleft_ok q \<phi> P" for q by (cases q) (simp_all add: nleft_ok_def lc)
  show ?thesis
  proof (rule flow_coreI)
    show "inv_live \<phi> ?TS SS" using C(2) p(1) unfolding inv_live_def by fastforce
    show "inv_cover \<phi> ?TS SS" unfolding inv_cover_def
    proof (intro allI impI)
      fix x X assume "?TS x = Some X"
      then show "\<exists>s S. st_pointer X = Some s \<and> SS s = Some S \<and> x \<in> set (live (\<phi> s) S)" using coverD [OF C(3)] p(1) by (cases "x = p") auto
    qed
    show "inv_links U \<phi> ?TS SS" unfolding inv_links_def
    proof (intro allI impI)
      fix s S t ph assume "SS s = Some S" "\<phi> s = At t ph"
      from linksD [OF C(4) this] show "\<exists>T. ?TS t = Some T \<and> st_parent T = map_option fst (U s) \<and> st_entry T = U s \<and> phase_fits ph T"
        using p by (cases "t = p") (auto simp: phase_fits_def)
    qed
    show "inv_up U H R ?TS SS" unfolding inv_up_def
    proof (intro allI impI)
      fix s S q j assume "SS s = Some S" "U s = Some (q, j)"
      from upD [OF C(5) this] show "R s < R (H q) \<and> (\<exists>T P. ?TS q = Some T \<and> st_parallel T = Some P \<and> j < pw_subtasks_nr P \<and> sub_series P j = Some s)"
        using p by (cases "q = p") (auto simp: sub)
    qed
    show "inv_par U H \<phi> ?TS SS" unfolding inv_par_def
    proof (intro allI impI)
      fix q X Q assume X: "?TS q = Some X" "st_parallel X = Some Q"
      show "st_pointer X = Some (H q) \<and> buf_ok Q \<and> (\<forall>i < pw_subtasks_nr Q. place_ok U \<phi> SS q Q (stage H \<phi> q) i) \<and> nleft_ok (stage H \<phi> q) \<phi> Q"
      proof (cases "q = p")
        case True
        then have "Q = ?P" "X = T\<lparr>st_parallel := Some ?P\<rparr>" using X by auto
        then show ?thesis using D(1,2,4) True pl [OF D(3)] nl by (auto simp: buf_ok_def)
      qed (use X parD [OF C(6), of q X Q] in auto)
    qed
  qed (use C in auto)
qed

text \<open>Several series change their status, none of them its tasks.\<close>

lemma core_status:
  assumes core: "flow_core U H R root \<phi> TS SS"
    and ptr: "\<And>x. map_option st_pointer (TS' x) = map_option st_pointer (TS x)"
    and par: "\<And>x T T'. TS x = Some T \<Longrightarrow> TS' x = Some T' \<Longrightarrow> st_parallel T' = map_option (\<lambda>P. P\<lparr>pw_nleft := nl x P\<rparr>) (st_parallel T)"
    and lv: "\<And>z Z. SS z = Some Z \<Longrightarrow> live (\<phi>' z) Z = live (\<phi> z) Z" and e: "\<And>z. \<phi>' z \<in> {Leave, Ended} \<Longrightarrow> \<phi> z \<in> {Leave, Ended}"
    and links: "inv_links U \<phi>' TS' SS"
    and sub: "\<And>p T P i z. TS p = Some T \<Longrightarrow> st_parallel T = Some P \<Longrightarrow> i < pw_subtasks_nr P \<Longrightarrow> sub_series P i = Some z \<Longrightarrow> U z = Some (p, i) \<Longrightarrow>
        z \<in> dom SS \<Longrightarrow> sub_ok (stage H \<phi> p) i (\<phi> z) \<Longrightarrow> sub_ok (stage H \<phi>' p) i (\<phi>' z) \<and> (\<phi>' z = Unstarted \<longrightarrow> \<phi> z = Unstarted)"
    and nleft: "\<And>p T P. TS p = Some T \<Longrightarrow> st_parallel T = Some P \<Longrightarrow> nleft_ok (stage H \<phi>' p) \<phi>' (P\<lparr>pw_nleft := nl p P\<rparr>)"
    and root: "\<And>z. z \<in> dom SS \<Longrightarrow> \<phi> z \<noteq> Unstarted \<Longrightarrow> \<phi>' z \<noteq> Unstarted"
  shows "flow_core U H R root \<phi>' TS' SS"
proof -
  note C = flow_coreD [OF core]
  have old: "\<exists>T. TS x = Some T \<and> st_pointer T = st_pointer T'" if "TS' x = Some T'" for x T' using ptr [of x] that by (cases "TS x") auto
  have new: "\<exists>T'. TS' x = Some T' \<and> st_pointer T' = st_pointer T" if "TS x = Some T" for x T using ptr [of x] that by (cases "TS' x") auto
  have ss: "sub_series (P\<lparr>pw_nleft := k\<rparr>) i = sub_series P i" for P k i by (simp add: sub_series_def)
  show ?thesis
  proof (rule flow_coreI)
    show "inv_series U \<phi>' SS" unfolding inv_series_def
    proof (intro allI impI)
      fix z Z assume z: "SS z = Some Z"
      show "series_inv Z \<and> (sw_in_parallel Z \<longleftrightarrow> U z \<noteq> None) \<and> distinct (live (\<phi>' z) Z) \<and> (\<phi>' z \<in> {Leave, Ended} \<longrightarrow> todo Z = [] \<and> U z \<noteq> None)"
        using seriesD [OF C(1) z] e [of z] lv [OF z] by auto
    qed
    show "inv_live \<phi>' TS' SS" unfolding inv_live_def
    proof (intro allI impI)
      fix z Z x assume z: "SS z = Some Z" "x \<in> set (live (\<phi>' z) Z)"
      then obtain T where T: "TS x = Some T" "st_pointer T = Some z" using liveD [OF C(2) z(1), of x] lv by auto
      then show "\<exists>T. TS' x = Some T \<and> st_pointer T = Some z" using new by fastforce
    qed
    show "inv_cover \<phi>' TS' SS" unfolding inv_cover_def
    proof (intro allI impI)
      fix x T' assume x: "TS' x = Some T'"
      then obtain T where T: "TS x = Some T" "st_pointer T = st_pointer T'" using old by blast
      from coverD [OF C(3) T(1)] obtain s S where "st_pointer T = Some s" "SS s = Some S" "x \<in> set (live (\<phi> s) S)" by blast
      then show "\<exists>s S. st_pointer T' = Some s \<and> SS s = Some S \<and> x \<in> set (live (\<phi>' s) S)" using T lv by auto
    qed
    show "inv_up U H R TS' SS" unfolding inv_up_def
    proof (intro allI impI)
      fix s S p i assume s: "SS s = Some S" "U s = Some (p, i)"
      obtain T P where T: "TS p = Some T" "st_parallel T = Some P" "i < pw_subtasks_nr P" "sub_series P i = Some s" "R s < R (H p)" using upD [OF C(5) s] by blast
      obtain T' where T': "TS' p = Some T'" using new [OF T(1)] by blast
      then have "st_parallel T' = Some (P\<lparr>pw_nleft := nl p P\<rparr>)" using par [OF T(1) T'] T(2) by simp
      then show "R s < R (H p) \<and> (\<exists>T P. TS' p = Some T \<and> st_parallel T = Some P \<and> i < pw_subtasks_nr P \<and> sub_series P i = Some s)"
        using T T' by (auto simp: ss)
    qed
    show "inv_par U H \<phi>' TS' SS" unfolding inv_par_def
    proof (intro allI impI)
      fix p T' P' assume p: "TS' p = Some T'" "st_parallel T' = Some P'"
      obtain T where T: "TS p = Some T" "st_pointer T = st_pointer T'" using old [OF p(1)] by blast
      obtain P where P: "st_parallel T = Some P" "P' = P\<lparr>pw_nleft := nl p P\<rparr>" using par [OF T(1) p(1)] p(2) by (cases "st_parallel T") auto
      note D = parD [OF C(6) T(1) P(1)]
      have "place_ok U \<phi>' SS p P' (stage H \<phi>' p) i" if i: "i < pw_subtasks_nr P" for i
      proof -
        obtain z Z where z: "sub_series P i = Some z" "SS z = Some Z" "U z = Some (p, i)" "\<phi> z = Unstarted \<longrightarrow> pw_buf P ! i = Some (sw_first Z)" "sub_ok (stage H \<phi> p) i (\<phi> z)"
          using D(3) [OF i] by (auto simp: place_ok_def)
        then have "sub_ok (stage H \<phi>' p) i (\<phi>' z) \<and> (\<phi>' z = Unstarted \<longrightarrow> \<phi> z = Unstarted)" using sub [OF T(1) P(1) i z(1,3)] by auto
        then show ?thesis using z unfolding place_ok_def P(2) by (intro exI [of _ z] exI [of _ Z]) (simp add: ss)
      qed
      then show "st_pointer T' = Some (H p) \<and> buf_ok P' \<and> (\<forall>i < pw_subtasks_nr P'. place_ok U \<phi>' SS p P' (stage H \<phi>' p) i) \<and> nleft_ok (stage H \<phi>' p) \<phi>' P'"
        using D(1,2) T(2) nleft [OF T(1) P(1)] P(2) by (simp add: buf_ok_def)
    qed
    show "inv_root U root \<phi>' SS" using C(7) root unfolding inv_root_def by blast
  qed (use links in auto)
qed

text \<open>The loop over the series of a parallel work starts the next one.\<close>

definition after_loop :: "nat \<Rightarrow> nat \<Rightarrow> phase" where
  "after_loop k n = (if k + 1 \<noteq> n then P_loop (k + 1) n else P_wait)"

lemma looping_sub:
  assumes core: "flow_core U H R root \<phi> TS SS" and h: "SS h = Some S" "\<phi> h = At p (P_loop k n)" and p: "TS p = Some T" "st_parallel T = Some P"
  shows "H p = h" "n = pw_subtasks_nr P" "k < n"
    "\<exists>z Z. sub_series P k = Some z \<and> SS z = Some Z \<and> U z = Some (p, k) \<and> \<phi> z = Unstarted \<and> pw_buf P ! k = Some (sw_first Z) \<and> z \<noteq> h \<and> R z < R h"
proof -
  note C = flow_coreD [OF core]
  note D = parD [OF C(6) p]
  show hp: "H p = h" using D(1) pointer_at [OF core h p(1)] by simp
  then have st: "stage H \<phi> p = P_loop k n" using h(2) by (simp add: stage_def)
  then show kn: "n = pw_subtasks_nr P" "k < n" using D(4) by (auto simp: nleft_ok_def)
  then obtain z Z where z: "sub_series P k = Some z" "SS z = Some Z" "U z = Some (p, k)" "\<phi> z = Unstarted" "pw_buf P ! k = Some (sw_first Z)"
    using D(3) [of k] st by (auto simp: place_ok_def sub_ok_def)
  moreover have "R z < R h" using upD [OF C(5) z(2,3)] hp by simp
  ultimately show "\<exists>z Z. sub_series P k = Some z \<and> SS z = Some Z \<and> U z = Some (p, k) \<and> \<phi> z = Unstarted \<and> pw_buf P ! k = Some (sw_first Z) \<and> z \<noteq> h \<and> R z < R h" by blast
qed

lemma core_begin:
  assumes core: "flow_core U H R root \<phi> TS SS" and h: "SS h = Some S" "\<phi> h = At p (P_loop k n)" and p: "TS p = Some T" "st_parallel T = Some P"
    and z: "sub_series P k = Some z" "SS z = Some Z" "U z = Some (p, k)" "\<phi> z = Unstarted" and c: "sw_first Z = c" "TS c = Some C"
  shows "flow_core U H R root (\<phi>(z := At c P_disp, h := At p (after_loop k n))) (TS(c \<mapsto> C\<lparr>st_parent := Some p, st_entry := Some (p, k)\<rparr>)) SS"
proof -
  let ?\<phi> = "\<phi>(z := At c P_disp, h := At p (after_loop k n))" and ?TS = "TS(c \<mapsto> C\<lparr>st_parent := Some p, st_entry := Some (p, k)\<rparr>)"
  note C = flow_coreD [OF core]
  note L = looping_sub [OF core h p]
  have zh: "z \<noteq> h" using z(4) h(2) by auto
  have cp: "st_pointer C = Some z" using liveD [OF C(2) z(2), of c] z(4) c by (auto simp: live_def current_def)
  have cne: "c \<noteq> p" using cp zh pointer_at [OF core h p(1)] p(1) c(2) by auto
  have al: "x \<noteq> z \<Longrightarrow> (?\<phi> x = Unstarted \<longleftrightarrow> \<phi> x = Unstarted)" "?\<phi> x = Ended \<longleftrightarrow> \<phi> x = Ended" for x using h(2) z(4) by auto
  have stp: "stage H ?\<phi> p = after_loop k n" "stage H \<phi> p = P_loop k n" using L(1) h(2) by (simp_all add: stage_def)
  have stq: "stage H ?\<phi> q = stage H \<phi> q" if "q \<noteq> p" for q using that h(2) z(4) by (simp add: stage_def)
  have lc: "left_count ?\<phi> Q = left_count \<phi> Q" for Q unfolding left_count_def al(2) ..
  show ?thesis
  proof (rule core_status [OF core, where nl = "\<lambda>x P. pw_nleft P"])
    show "map_option st_pointer (?TS x) = map_option st_pointer (TS x)" for x using c(2) by simp
    show "st_parallel X' = map_option (\<lambda>P. P\<lparr>pw_nleft := pw_nleft P\<rparr>) (st_parallel X)" if "TS x = Some X" "?TS x = Some X'" for x X X'
      using that c(2) by (auto simp: option.map_ident split: if_splits)
    show "live (?\<phi> x) X = live (\<phi> x) X" if "SS x = Some X" for x X using that h(2) z(2,4) c(1) by (auto simp: live_def current_def)
    show "?\<phi> x \<in> {Leave, Ended} \<Longrightarrow> \<phi> x \<in> {Leave, Ended}" for x by (auto split: if_splits)
    show "inv_links U ?\<phi> ?TS SS" unfolding inv_links_def
    proof (intro allI impI)
      fix s S t ph assume s: "SS s = Some S" "?\<phi> s = At t ph"
      consider "s = h" | "s = z" "s \<noteq> h" | "s \<noteq> h" "s \<noteq> z" by blast
      then show "\<exists>T. ?TS t = Some T \<and> st_parent T = map_option fst (U s) \<and> st_entry T = U s \<and> phase_fits ph T"
      proof cases
        case 1
        then show ?thesis using s(2) linksD [OF C(4) h] p cne by (auto simp: phase_fits_def after_loop_def split: if_splits)
      next
        case 2
        then show ?thesis using s(2) z(3) by (auto simp: phase_fits_def)
      next
        case 3
        then have \<phi>: "\<phi> s = At t ph" using s(2) by simp
        have "t \<noteq> c" using liveD [OF C(2) s(1) live_at [OF \<phi>]] c(2) cp 3 by auto
        then show ?thesis using linksD [OF C(4) s(1) \<phi>] by auto
      qed
    qed
    show "sub_ok (stage H ?\<phi> q) i (?\<phi> w) \<and> (?\<phi> w = Unstarted \<longrightarrow> \<phi> w = Unstarted)"
      if q: "TS q = Some X" "st_parallel X = Some Q" "i < pw_subtasks_nr Q" "sub_series Q i = Some w" "U w = Some (q, i)" "w \<in> dom SS" "sub_ok (stage H \<phi> q) i (\<phi> w)" for q X Q i w
    proof (cases "w = z")
      case True
      then have "q = p" "i = k" using q(5) z(3) by auto
      then show ?thesis using True zh stp by (auto simp: sub_ok_def after_loop_def)
    next
      case False
      note wz = False
      have u: "?\<phi> w = Unstarted \<longleftrightarrow> \<phi> w = Unstarted" "?\<phi> w = Ended \<longleftrightarrow> \<phi> w = Ended" using al [of w] False by auto
      show ?thesis
      proof (cases "q = p")
        case True
        then have "i \<noteq> k" using q(2,4) False p z(1) q(1) by auto
        moreover have "i < n" using q(1-3) p L(2) True by auto
        ultimately show ?thesis using q(7) u stp(2) True unfolding True stp(1) by (auto simp: sub_ok_def after_loop_def simp del: fun_upd_apply)
      next
        case False
        then show ?thesis using q(7) u stq [OF False] by (cases "stage H \<phi> q") (auto simp: sub_ok_def)
      qed
    qed
    show "nleft_ok (stage H ?\<phi> q) ?\<phi> (Q\<lparr>pw_nleft := pw_nleft Q\<rparr>)" if q: "TS q = Some X" "st_parallel X = Some Q" for q X Q
    proof (cases "q = p")
      case True
      have "nleft_ok (P_loop k n) \<phi> P" using parD(4) [OF C(6) p] stp by simp
      moreover have "k \<in> {i. i < pw_subtasks_nr P \<and> \<phi> (the (sub_series P i)) \<noteq> Ended}" using L(2,3) z(1,4) by simp
      then have "0 < left_count \<phi> P" unfolding left_count_def by (subst card_gt_0_iff) auto
      moreover have "Q = P" using q p True by simp
      ultimately show ?thesis using L(3) stp True lc by (auto simp: nleft_ok_def after_loop_def)
    next
      case False
      have "nleft_ok (stage H \<phi> q) \<phi> Q" by (rule parD(4) [OF C(6) q])
      then show ?thesis using stq [OF False] lc by (cases "stage H \<phi> q") (auto simp: nleft_ok_def)
    qed
    show "?\<phi> x \<noteq> Unstarted" if "x \<in> dom SS" "\<phi> x \<noteq> Unstarted" for x using that by auto
  qed
qed

section \<open>A series is counted\<close>

lemma leave_stage:
  assumes core: "flow_core U H R root \<phi> TS SS" and z: "SS z = Some Z" "\<phi> z = Leave" "U z = Some (p, i)" and p: "TS p = Some T" "st_parallel T = Some P"
  shows "i < pw_subtasks_nr P" "sub_series P i = Some z" "z \<noteq> H p" "\<phi> (H p) = At p (stage H \<phi> p)" "st_pointer T = Some (H p)"
    "stage H \<phi> p = P_wait \<or> (\<exists>k n. stage H \<phi> p = P_loop k n)" "pw_nleft P = left_count \<phi> P" "0 < pw_nleft P"
    "pw_nleft P = 1 \<Longrightarrow> stage H \<phi> p = P_wait"
proof -
  note C = flow_coreD [OF core]
  note D = parD [OF C(6) p]
  show i: "i < pw_subtasks_nr P" "sub_series P i = Some z" and "z \<noteq> H p" using upD [OF C(5) z(1,3)] p by auto
  show "st_pointer T = Some (H p)" by (rule D(1))
  have ok: "sub_ok (stage H \<phi> p) i Leave" using D(3) [OF i(1)] i(2) z(2) by (auto simp: place_ok_def)
  then show st: "stage H \<phi> p = P_wait \<or> (\<exists>k n. stage H \<phi> p = P_loop k n)" by (cases "stage H \<phi> p") (auto simp: sub_ok_def)
  then show "\<phi> (H p) = At p (stage H \<phi> p)" by (auto simp: stage_def split: status.splits if_splits)
  show nl: "pw_nleft P = left_count \<phi> P" using D(4) st by (auto simp: nleft_ok_def)
  let ?L = "{j. j < pw_subtasks_nr P \<and> \<phi> (the (sub_series P j)) \<noteq> Ended}"
  have iL: "i \<in> ?L" using i z(2) by simp
  then show "0 < pw_nleft P" unfolding nl left_count_def by (subst card_gt_0_iff) auto
  show "stage H \<phi> p = P_wait" if "pw_nleft P = 1"
  proof (rule ccontr)
    assume "stage H \<phi> p \<noteq> P_wait"
    then obtain k n where k: "stage H \<phi> p = P_loop k n" using st by blast
    then have kn: "k < pw_subtasks_nr P" using D(4) by (simp add: nleft_ok_def)
    obtain w where w: "sub_series P k = Some w" "\<phi> w = Unstarted" using D(3) [OF kn] k by (auto simp: place_ok_def sub_ok_def)
    have "k \<noteq> i" using w i(2) z(2) by auto
    moreover have "k \<in> ?L" using kn w by simp
    ultimately have "card {i, k} \<le> card ?L" using iL by (intro card_mono) auto
    then show False using \<open>k \<noteq> i\<close> that nl by (simp add: left_count_def)
  qed
qed

lemma left_count_drop:
  assumes "i < pw_subtasks_nr P" "sub_series P i = Some z" "\<phi> z \<noteq> Ended" "\<And>j w. j < pw_subtasks_nr P \<Longrightarrow> sub_series P j = Some w \<Longrightarrow> \<phi>' w = Ended \<longleftrightarrow> \<phi> w = Ended \<or> j = i"
    and "\<And>j. j < pw_subtasks_nr P \<Longrightarrow> sub_series P j \<noteq> None"
  shows "left_count \<phi>' P = left_count \<phi> P - 1"
proof -
  have "{j. j < pw_subtasks_nr P \<and> \<phi>' (the (sub_series P j)) \<noteq> Ended} = {j. j < pw_subtasks_nr P \<and> \<phi> (the (sub_series P j)) \<noteq> Ended} - {i}"
    using assms(4,5) by force
  then show ?thesis using assms(1-3) by (simp add: left_count_def)
qed

lemma left_count_same:
  assumes "\<And>j w. j < pw_subtasks_nr P \<Longrightarrow> sub_series P j = Some w \<Longrightarrow> \<phi>' w = Ended \<longleftrightarrow> \<phi> w = Ended" and "\<And>j. j < pw_subtasks_nr P \<Longrightarrow> sub_series P j \<noteq> None"
  shows "left_count \<phi>' P = left_count \<phi> P"
  unfolding left_count_def by (rule arg_cong [where f = card]) (use assms in force)

lemma left_count_0:
  assumes "left_count \<phi> P = 0" "j < pw_subtasks_nr P" "sub_series P j = Some w"
  shows "\<phi> w = Ended"
  using assms by (auto simp: left_count_def)

text \<open>What counting the series does to the statuses: the last one lets the parallel work finish.\<close>

definition counted :: "(addr \<Rightarrow> addr) \<Rightarrow> statuses \<Rightarrow> addr \<Rightarrow> addr \<Rightarrow> nat \<Rightarrow> statuses" where
  "counted H \<phi> z p n = (if n = 0 then \<phi>(z := Ended, H p := At p P_fin) else \<phi>(z := Ended))"

lemma core_count:
  assumes core: "flow_core U H R root \<phi> TS SS" and z: "SS z = Some Z" "\<phi> z = Leave" "U z = Some (p, i)" and p: "TS p = Some T" "st_parallel T = Some P"
    and n: "n = pw_nleft P - 1"
  shows "flow_core U H R root (counted H \<phi> z p n) (TS(p \<mapsto> T\<lparr>st_parallel := Some (P\<lparr>pw_nleft := n\<rparr>)\<rparr>)) SS"
proof -
  let ?\<phi> = "counted H \<phi> z p n" and ?TS = "TS(p \<mapsto> T\<lparr>st_parallel := Some (P\<lparr>pw_nleft := n\<rparr>)\<rparr>)"
  note C = flow_coreD [OF core]
  note L = leave_stage [OF core z p]
  note D = parD [OF C(6) p]
  have wait: "n = 0 \<Longrightarrow> stage H \<phi> p = P_wait" using L(8,9) n by simp
  have hp: "\<phi> (H p) \<noteq> Ended" "\<phi> (H p) \<noteq> Unstarted" "\<phi> (H p) \<noteq> Leave" using L(4) by auto
  have ended: "?\<phi> w = Ended \<longleftrightarrow> \<phi> w = Ended \<or> w = z" for w using hp L(3) by (auto simp: counted_def)
  have unst: "?\<phi> w = Unstarted \<longleftrightarrow> \<phi> w = Unstarted" for w using hp L(3) z(2) by (auto simp: counted_def)
  have stq: "stage H ?\<phi> q = stage H \<phi> q" if "q \<noteq> p" for q using that L(3,4) z(2) by (auto simp: stage_def counted_def split: status.splits)
  have stp: "stage H ?\<phi> p = (if n = 0 then P_fin else stage H \<phi> p)" using L(3) by (auto simp: stage_def counted_def)
  have isz: "w = z \<longleftrightarrow> q = p \<and> j = i" if "TS q = Some X" "st_parallel X = Some Q" "j < pw_subtasks_nr Q" "sub_series Q j = Some w" for q X Q j w
    using parD(3) [OF C(6) that(1-3)] that z(3) L(2) p by (fastforce simp: place_ok_def)
  have some: "sub_series Q j \<noteq> None" if "TS q = Some X" "st_parallel X = Some Q" "j < pw_subtasks_nr Q" for q X Q j
    using parD(3) [OF C(6) that] by (auto simp: place_ok_def)
  have lcp: "left_count ?\<phi> P = n"
    using left_count_drop [OF L(1,2), of \<phi> ?\<phi>] z(2) ended isz [OF p] some [OF p] L(7) n by simp
  have fin: "n = 0 \<Longrightarrow> j < pw_subtasks_nr P \<Longrightarrow> sub_series P j = Some w \<Longrightarrow> ?\<phi> w = Ended" for j w
    using left_count_0 [of ?\<phi> P j w] lcp by simp
  show ?thesis
  proof (rule core_status [OF core, where nl = "\<lambda>x P. if x = p then n else pw_nleft P"])
    show "map_option st_pointer (?TS x) = map_option st_pointer (TS x)" for x using p(1) by simp
    show "st_parallel X' = map_option (\<lambda>P. P\<lparr>pw_nleft := if x = p then n else pw_nleft P\<rparr>) (st_parallel X)" if "TS x = Some X" "?TS x = Some X'" for x X X'
      using that p by (auto simp: option.map_ident split: if_splits)
    show "live (?\<phi> x) X = live (\<phi> x) X" if "SS x = Some X" for x X using L(3,4) z(2) by (auto simp: counted_def live_def current_def)
    show "?\<phi> x \<in> {Leave, Ended} \<Longrightarrow> \<phi> x \<in> {Leave, Ended}" for x using z(2) by (auto simp: counted_def split: if_splits)
    show "inv_links U ?\<phi> ?TS SS" unfolding inv_links_def
    proof (intro allI impI)
      fix s S t ph assume s: "SS s = Some S" "?\<phi> s = At t ph"
      show "\<exists>T. ?TS t = Some T \<and> st_parent T = map_option fst (U s) \<and> st_entry T = U s \<and> phase_fits ph T"
      proof (cases "n = 0 \<and> s = H p")
        case True
        then have "t = p" "ph = P_fin" using s(2) by (auto simp: counted_def)
        then show ?thesis using linksD [OF C(4) s(1), of p] L(4) True p by (auto simp: phase_fits_def)
      next
        case False
        then have "\<phi> s = At t ph" using s(2) by (auto simp: counted_def split: if_splits)
        from linksD [OF C(4) s(1) this] show ?thesis using p by (cases "t = p") (auto simp: phase_fits_def)
      qed
    qed
    show "sub_ok (stage H ?\<phi> q) j (?\<phi> w) \<and> (?\<phi> w = Unstarted \<longrightarrow> \<phi> w = Unstarted)"
      if q: "TS q = Some X" "st_parallel X = Some Q" "j < pw_subtasks_nr Q" "sub_series Q j = Some w" "U w = Some (q, j)" "w \<in> dom SS" "sub_ok (stage H \<phi> q) j (\<phi> w)" for q X Q j w
    proof (cases "q = p")
      case False
      then have "w \<noteq> z" using q(5) z(3) by auto
      then have "sub_ok (stage H \<phi> q) j (?\<phi> w)" using q(7) ended [of w] unst [of w] by (cases "stage H \<phi> q") (auto simp: sub_ok_def)
      then show ?thesis using stq [OF False] unst by simp
    next
      case True
      then have "Q = P" using q p by simp
      show ?thesis
      proof (cases "n = 0")
        case n0: True
        then show ?thesis using fin [OF n0, of j w] q(3,4) \<open>Q = P\<close> True stp by (simp add: sub_ok_def)
      next
        case False
        then have "stage H ?\<phi> q = stage H \<phi> q" using stp True by simp
        then show ?thesis using q(7) unst [of w] L(6) True by (auto simp: sub_ok_def)
      qed
    qed
    show "nleft_ok (stage H ?\<phi> q) ?\<phi> (Q\<lparr>pw_nleft := if q = p then n else pw_nleft Q\<rparr>)" if q: "TS q = Some X" "st_parallel X = Some Q" for q X Q
    proof (cases "q = p")
      case True
      have "Q = P" using q p True by simp
      then show ?thesis using True stp lcp D(4) L(6) by (auto simp: nleft_ok_def)
    next
      case False
      have "left_count ?\<phi> Q = left_count \<phi> Q" using isz [OF q] False ended some [OF q] by (intro left_count_same) auto
      moreover have "nleft_ok (stage H \<phi> q) \<phi> Q" by (rule parD(4) [OF C(6) q])
      ultimately show ?thesis using stq [OF False] False by (cases "stage H \<phi> q") (auto simp: nleft_ok_def)
    qed
    show "?\<phi> x \<noteq> Unstarted" if "x \<in> dom SS" "\<phi> x \<noteq> Unstarted" for x using that unst by simp
  qed
qed

section \<open>The user pushes a task\<close>

lemma core_push:
  assumes core: "flow_core U H R root \<phi> TS SS" and s: "SS s = Some S" "\<phi> s = At t ph" and u: "TS u = None" "st_pointer N = Some s" "st_parallel N = None"
    and S': "series_inv S'" "sw_in_parallel S' = sw_in_parallel S" and st: "set (todo S') = insert u (set (todo S))" and len: "length (todo S') = Suc (length (todo S))"
  shows "flow_core U H R root \<phi> (TS(u \<mapsto> N)) (SS(s \<mapsto> S'))"
proof -
  note C = flow_coreD [OF core]
  have own: "x \<in> set (live (\<phi> s) S) \<longleftrightarrow> (\<exists>T. TS x = Some T \<and> st_pointer T = Some s)" for x by (rule core_own [OF core s(1)])
  have un: "u \<notin> set (live (\<phi> s) S)" using own u(1) by simp
  have "distinct (u # todo S)" using seriesD(3) [OF C(1) s(1)] un by (auto simp: live_def)
  then have "card (set (todo S')) = length (todo S')" unfolding st len by (simp add: distinct_card)
  then have "distinct (todo S')" by (rule card_distinct)
  then have d: "distinct (live (\<phi> s) S')" using seriesD(3) [OF C(1) s(1)] un s(2) st by (auto simp: live_def current_def)
  have "flow_core U H R root (\<phi>(s := \<phi> s)) (TS(u \<mapsto> N)) ((SS |` (- {}))(s \<mapsto> S'))"
  proof (rule core_update [OF core s(1)])
    show "x \<in> set (live (\<phi> s) S') \<longleftrightarrow> (\<exists>T. (TS(u \<mapsto> N)) x = Some T \<and> st_pointer T = Some s)" for x
      using own [of x] u st s(2) by (auto simp: live_def current_def)
    show "z \<in> {} \<longleftrightarrow> (TS(u \<mapsto> N)) p = None" if "z \<in> dom SS" "U z = Some (p, i)" for z p i
      using that upD [OF C(5), of z _ p i] by auto
    show "\<exists>T. (TS(u \<mapsto> N)) c = Some T \<and> st_parent T = map_option fst (U s) \<and> st_entry T = U s \<and> phase_fits ph' T" if "\<phi> s = At c ph'" for c ph'
      using linksD [OF C(4) s(1) that] u(1) by auto
    show "stage H (\<phi>(s := \<phi> s)) p = stage H \<phi> p" for p by simp
  qed (use S'(1,2) s u d in \<open>auto split: if_splits\<close>)
  then show ?thesis unfolding restrict_none by simp
qed

end
