(* ===== verification/Flow_Dismiss.thy ===== *)
theory Flow_Dismiss
  imports Flow_Core
begin

text \<open>
  What the functions \<^verbatim>\<open>dismiss_recursive\<close> remove: a dismissed task or series goes with all that is inside it, and nothing else changes. The
  recursion ends because the rank falls. The last part is \<^verbatim>\<open>SeriesWork::pop\<close> on a series between two tasks, canceled or not.
\<close>

section \<open>Taking a task\<close>

lemma take_task_rest: "take_task S = Some (t, S') \<Longrightarrow> sw_in_parallel S' = sw_in_parallel S \<and> sw_callback S' = sw_callback S \<and> sw_canceled S' = sw_canceled S \<and> sw_first S' = sw_first S"
  by (auto simp: take_task_def split: if_splits bind_splits)

lemma take_todo:
  assumes "series_inv S" "todo S = t # ts"
  shows "\<exists>S'. take_task S = Some (Some t, S') \<and> series_inv S' \<and> todo S' = ts"
proof (cases "pending S")
  case Nil
  then have "sw_last S = Some t" "ts = []" using assms(2) by (auto simp: todo_def split: option.splits)
  then show ?thesis using take_task_empty [OF assms(1) Nil] Nil assms(1) last_task_pending(2,4,6) [of S] by (simp add: todo_def unset_last_task_def)
next
  case (Cons x xs)
  then show ?thesis using take_task_pending [OF assms(1) Cons] assms(2) by (auto simp: todo_def)
qed

lemma pop_task_some:
  assumes "fl_series f s = Some S" "series_inv S" "todo S = t # ts"
  shows "\<exists>S'. pop_task s f = Some (Some t, f\<lparr>fl_series := (fl_series f)(s \<mapsto> S')\<rparr>) \<and> series_inv S' \<and> todo S' = ts \<and>
     sw_in_parallel S' = sw_in_parallel S \<and> sw_callback S' = sw_callback S \<and> sw_canceled S' = sw_canceled S"
  using take_todo [OF assms(2,3)] take_task_rest assms(1) by (fastforce simp: pop_task_def)

lemma pop_task_none:
  assumes "fl_series f s = Some S" "series_inv S" "todo S = []"
  shows "pop_task s f = Some (None, f\<lparr>fl_series := (if sw_in_parallel S then fl_series f else (fl_series f)(s := None)), fl_log := fl_log f @ [Series_end s (sw_callback S)]\<rparr>)"
proof -
  have e: "pending S = []" "sw_last S = None" using assms(3) by (auto simp: todo_def split: option.splits)
  then have "S\<lparr>sw_last := None\<rparr> = S" by simp
  then have "take_task S = Some (None, S)" using take_task_empty [OF assms(2) e(1)] e(2) by simp
  moreover have "(fl_series f)(s \<mapsto> S) = fl_series f" using assms(1) by auto
  ultimately show ?thesis using assms(1) by (simp add: pop_task_def delete_series_def)
qed

section \<open>What a dismissal removes\<close>

definition cut_tasks :: "addr set \<Rightarrow> addr set \<Rightarrow> (addr \<rightharpoonup> subtask) \<Rightarrow> addr \<rightharpoonup> subtask" where
  "cut_tasks X Y TS x = (if x \<in> Y then None else case TS x of Some T \<Rightarrow> if st_pointer T \<in> Some ` X then None else Some T | None \<Rightarrow> None)"

definition cut_flow :: "addr set \<Rightarrow> addr set \<Rightarrow> flow_event list \<Rightarrow> flow \<Rightarrow> flow" where
  "cut_flow X Y es f = f\<lparr>fl_tasks := cut_tasks X Y (fl_tasks f), fl_series := fl_series f |` (- X), fl_log := fl_log f @ es\<rparr>"

lemma cut_tasks_some: "cut_tasks X Y TS x = Some T \<longleftrightarrow> TS x = Some T \<and> x \<notin> Y \<and> st_pointer T \<notin> Some ` X"
  by (auto simp: cut_tasks_def split: option.splits if_splits)

lemma cut_series_some: "(SS |` (- X)) z = Some Z \<longleftrightarrow> SS z = Some Z \<and> z \<notin> X"
  by (simp add: restrict_map_def)

lemma cut_cut: "cut_flow X2 Y2 es2 (cut_flow X1 Y1 es1 f) = cut_flow (X1 \<union> X2) (Y1 \<union> Y2) (es1 @ es2) f"
proof -
  have "cut_tasks X2 Y2 (cut_tasks X1 Y1 TS) x = cut_tasks (X1 \<union> X2) (Y1 \<union> Y2) TS x" for TS x by (auto simp: cut_tasks_def split: option.splits)
  then show ?thesis by (simp add: cut_flow_def Int_commute fun_eq_iff)
qed

lemma cut_flow_fields [simp]:
  "fl_tasks (cut_flow X Y es f) = cut_tasks X Y (fl_tasks f)" "fl_series (cut_flow X Y es f) = fl_series f |` (- X)"
  "fl_log (cut_flow X Y es f) = fl_log f @ es" "fl_acts (cut_flow X Y es f) = fl_acts f"
  by (simp_all add: cut_flow_def)

text \<open>A task whose series is removed need not be named.\<close>

lemma cut_owned:
  assumes "\<And>y T. y \<in> Y \<Longrightarrow> fl_tasks f y = Some T \<Longrightarrow> st_pointer T \<in> Some ` X"
  shows "cut_flow X Y es f = cut_flow X {} es f"
proof -
  have "cut_tasks X Y (fl_tasks f) = cut_tasks X {} (fl_tasks f)" using assms by (auto simp: cut_tasks_def fun_eq_iff split: option.splits)
  then show ?thesis by (simp add: cut_flow_def)
qed

lemma cut_upd_series: "v \<in> X \<Longrightarrow> cut_flow X Y es (f\<lparr>fl_series := (fl_series f)(v := w)\<rparr>) = cut_flow X Y es f"
  by (simp add: cut_flow_def)

section \<open>Works that were not started\<close>

text \<open>
  \<open>A\<close> is a set of series that were not started and contains what is inside them. The tasks of a series \<open>z\<close> are those that point to it.
\<close>

definition owns :: "(addr \<rightharpoonup> subtask) \<Rightarrow> addr \<Rightarrow> addr list \<Rightarrow> bool" where
  "owns TS z ts \<longleftrightarrow> distinct ts \<and> (\<forall>x. x \<in> set ts \<longleftrightarrow> (\<exists>T. TS x = Some T \<and> st_pointer T = Some z))"

definition places :: "place \<Rightarrow> addr set \<Rightarrow> (addr \<rightharpoonup> series_work) \<Rightarrow> addr \<Rightarrow> parallel_work \<Rightarrow> nat \<Rightarrow> bool" where
  "places U A SS p P k \<longleftrightarrow> (\<forall>i. k \<le> i \<longrightarrow> i < pw_subtasks_nr P \<longrightarrow> (\<exists>w. sub_series P i = Some w \<and> U w = Some (p, i) \<and> w \<in> dom SS \<and> w \<in> A))"

definition idle_up :: "place \<Rightarrow> (addr \<Rightarrow> addr) \<Rightarrow> (addr \<Rightarrow> nat) \<Rightarrow> (addr \<rightharpoonup> subtask) \<Rightarrow> (addr \<rightharpoonup> series_work) \<Rightarrow> bool" where
  "idle_up U H R TS SS \<longleftrightarrow> (\<forall>w W p i. SS w = Some W \<longrightarrow> U w = Some (p, i) \<longrightarrow> R w < R (H p) \<and>
     (\<exists>T P. TS p = Some T \<and> st_parallel T = Some P \<and> st_pointer T = Some (H p) \<and> i < pw_subtasks_nr P \<and> sub_series P i = Some w))"

definition idle_series :: "(addr \<Rightarrow> nat) \<Rightarrow> addr set \<Rightarrow> nat \<Rightarrow> (addr \<rightharpoonup> subtask) \<Rightarrow> (addr \<rightharpoonup> series_work) \<Rightarrow> bool" where
  "idle_series R A n TS SS \<longleftrightarrow> (\<forall>z Z. SS z = Some Z \<longrightarrow> z \<in> A \<longrightarrow> R z < n \<longrightarrow> series_inv Z \<and> owns TS z (sw_first Z # todo Z))"

definition idle_par :: "place \<Rightarrow> (addr \<Rightarrow> addr) \<Rightarrow> (addr \<Rightarrow> nat) \<Rightarrow> addr set \<Rightarrow> nat \<Rightarrow> (addr \<rightharpoonup> subtask) \<Rightarrow> (addr \<rightharpoonup> series_work) \<Rightarrow> bool" where
  "idle_par U H R A n TS SS \<longleftrightarrow> (\<forall>p T P z. TS p = Some T \<longrightarrow> st_parallel T = Some P \<longrightarrow> st_pointer T = Some z \<longrightarrow> z \<in> A \<longrightarrow> R z < n \<longrightarrow> H p = z \<and> places U A SS p P 0)"

definition idle :: "place \<Rightarrow> (addr \<Rightarrow> addr) \<Rightarrow> (addr \<Rightarrow> nat) \<Rightarrow> addr set \<Rightarrow> nat \<Rightarrow> (addr \<rightharpoonup> subtask) \<Rightarrow> (addr \<rightharpoonup> series_work) \<Rightarrow> bool" where
  "idle U H R A n TS SS \<longleftrightarrow> idle_up U H R TS SS \<and> idle_series R A n TS SS \<and> idle_par U H R A n TS SS"

lemma idleD: "idle U H R A n TS SS \<Longrightarrow> idle_up U H R TS SS" "idle U H R A n TS SS \<Longrightarrow> idle_series R A n TS SS" "idle U H R A n TS SS \<Longrightarrow> idle_par U H R A n TS SS"
  by (simp_all add: idle_def)

lemma idle_upD: "idle_up U H R TS SS \<Longrightarrow> SS w = Some W \<Longrightarrow> U w = Some (p, i) \<Longrightarrow> R w < R (H p) \<and>
     (\<exists>T P. TS p = Some T \<and> st_parallel T = Some P \<and> st_pointer T = Some (H p) \<and> i < pw_subtasks_nr P \<and> sub_series P i = Some w)"
  unfolding idle_up_def by blast

lemma idle_seriesD: "idle_series R A n TS SS \<Longrightarrow> SS z = Some Z \<Longrightarrow> z \<in> A \<Longrightarrow> R z < n \<Longrightarrow> series_inv Z \<and> owns TS z (sw_first Z # todo Z)"
  unfolding idle_series_def by blast

lemma idle_parD: "idle_par U H R A n TS SS \<Longrightarrow> TS p = Some T \<Longrightarrow> st_parallel T = Some P \<Longrightarrow> st_pointer T = Some z \<Longrightarrow> z \<in> A \<Longrightarrow> R z < n \<Longrightarrow> H p = z \<and> places U A SS p P 0"
  unfolding idle_par_def by blast

lemma ownsD: "owns TS z ts \<Longrightarrow> x \<in> set ts \<longleftrightarrow> (\<exists>T. TS x = Some T \<and> st_pointer T = Some z)" "owns TS z ts \<Longrightarrow> distinct ts"
  by (simp_all add: owns_def)

lemma idle_mono: "idle U H R A n TS SS \<Longrightarrow> m \<le> n \<Longrightarrow> idle U H R A m TS SS"
  unfolding idle_def idle_series_def idle_par_def by (meson order_less_le_trans)

text \<open>Series \<open>X\<close> are removed with their tasks, and tasks \<open>Y\<close>.\<close>

definition closed_cut :: "place \<Rightarrow> (addr \<Rightarrow> addr) \<Rightarrow> (addr \<rightharpoonup> series_work) \<Rightarrow> addr set \<Rightarrow> addr set \<Rightarrow> addr set \<Rightarrow> bool" where
  "closed_cut U H SS V X Y \<longleftrightarrow> X \<subseteq> dom SS \<and> (\<forall>z q i. z \<in> dom SS \<longrightarrow> U z = Some (q, i) \<longrightarrow> q \<in> Y \<or> H q \<in> X \<longrightarrow> z \<in> X) \<and>
     (\<forall>z \<in> X. z \<in> V \<or> (\<exists>q i. U z = Some (q, i) \<and> (q \<in> Y \<or> H q \<in> X)))"

lemma closed_cutD:
  assumes "closed_cut U H SS V X Y"
  shows "X \<subseteq> dom SS" "SS z = Some Z \<Longrightarrow> U z = Some (q, i) \<Longrightarrow> q \<in> Y \<or> H q \<in> X \<Longrightarrow> z \<in> X" "z \<in> X \<Longrightarrow> z \<in> V \<or> (\<exists>q i. U z = Some (q, i) \<and> (q \<in> Y \<or> H q \<in> X))"
  using assms unfolding closed_cut_def by blast+

lemma idle_cut:
  assumes idle: "idle U H R A n TS SS" and X: "closed_cut U H SS V X Y"
    and Y: "\<And>y T z. y \<in> Y \<Longrightarrow> TS y = Some T \<Longrightarrow> st_pointer T = Some z \<Longrightarrow> n \<le> R z"
    and V: "\<And>v p i. v \<in> V \<Longrightarrow> U v = Some (p, i) \<Longrightarrow> n \<le> R (H p)"
  shows "idle U H R A n (cut_tasks X Y TS) (SS |` (- X))"
proof -
  note I = idleD [OF idle] and X = closed_cutD [OF X]
  have "idle_up U H R (cut_tasks X Y TS) (SS |` (- X))" unfolding idle_up_def cut_series_some cut_tasks_some
  proof (intro allI impI)
    fix w W p i assume w: "SS w = Some W \<and> w \<notin> X" "U w = Some (p, i)"
    then have "p \<notin> Y" "H p \<notin> X" using X(2) by blast+
    then show "R w < R (H p) \<and> (\<exists>T P. (TS p = Some T \<and> p \<notin> Y \<and> st_pointer T \<notin> Some ` X) \<and> st_parallel T = Some P \<and> st_pointer T = Some (H p) \<and> i < pw_subtasks_nr P \<and> sub_series P i = Some w)"
      using idle_upD [OF I(1), of w W p i] w by auto
  qed
  moreover have "idle_series R A n (cut_tasks X Y TS) (SS |` (- X))" unfolding idle_series_def cut_series_some
  proof (intro allI impI)
    fix z Z assume z: "SS z = Some Z \<and> z \<notin> X" "z \<in> A" "R z < n"
    then have "series_inv Z" and o: "owns TS z (sw_first Z # todo Z)" using idle_seriesD [OF I(2)] by blast+
    moreover have "cut_tasks X Y TS x = Some T \<and> st_pointer T = Some z \<longleftrightarrow> TS x = Some T \<and> st_pointer T = Some z" for x T
      using z Y [of x T z] by (auto simp: cut_tasks_some)
    ultimately show "series_inv Z \<and> owns (cut_tasks X Y TS) z (sw_first Z # todo Z)" unfolding owns_def by simp
  qed
  moreover have "idle_par U H R A n (cut_tasks X Y TS) (SS |` (- X))" unfolding idle_par_def cut_tasks_some
  proof (intro allI impI)
    fix p T P z assume p: "TS p = Some T \<and> p \<notin> Y \<and> st_pointer T \<notin> Some ` X" "st_parallel T = Some P" "st_pointer T = Some z" "z \<in> A" "R z < n"
    then have h: "H p = z" "places U A SS p P 0" using idle_parD [OF I(3)] by blast+
    have "w \<notin> X" if "U w = Some (p, i)" for w i
    proof
      assume "w \<in> X"
      then have "w \<in> V \<or> H p \<in> X" using X(3) that p(1) by fastforce
      then show False using V that h(1) p by fastforce
    qed
    then show "H p = z \<and> places U A (SS |` (- X)) p P 0" using h unfolding places_def dom_restrict by blast
  qed
  ultimately show ?thesis by (simp add: idle_def)
qed


section \<open>What the loops remove\<close>

lemma idle_upd:
  assumes "idle U H R A n TS SS" "SS v = Some V" "n \<le> R v"
  shows "idle U H R A n TS (SS(v \<mapsto> V'))"
proof -
  have d: "dom (SS(v \<mapsto> V')) = dom SS" using assms(2) by auto
  have up: "idle_up U H R TS (SS(v \<mapsto> V'))" unfolding idle_up_def
  proof (intro allI impI)
    fix w W p i assume w: "(SS(v \<mapsto> V')) w = Some W" "U w = Some (p, i)"
    obtain W0 where "SS w = Some W0" using w(1) assms(2) by (cases "w = v") auto
    from idle_upD [OF idleD(1) [OF assms(1)] this w(2)] show "R w < R (H p) \<and>
     (\<exists>T P. TS p = Some T \<and> st_parallel T = Some P \<and> st_pointer T = Some (H p) \<and> i < pw_subtasks_nr P \<and> sub_series P i = Some w)" .
  qed
  have "idle_series R A n TS (SS(v \<mapsto> V'))" unfolding idle_series_def
  proof (intro allI impI)
    fix z Z assume z: "(SS(v \<mapsto> V')) z = Some Z" "z \<in> A" "R z < n"
    then have "SS z = Some Z" using assms(3) by (cases "z = v") auto
    then show "series_inv Z \<and> owns TS z (sw_first Z # todo Z)" using idle_seriesD [OF idleD(2) [OF assms(1)]] z by blast
  qed
  moreover have "idle_par U H R A n TS (SS(v \<mapsto> V'))" using idleD(3) [OF assms(1)] unfolding idle_par_def places_def d .
  ultimately show ?thesis using up by (simp add: idle_def)
qed

text \<open>Only series without a callback end while works are dismissed.\<close>

definition quiet_ends :: "addr set \<Rightarrow> flow_event list \<Rightarrow> bool" where
  "quiet_ends X es \<longleftrightarrow> set es \<subseteq> (\<lambda>z. Series_end z None) ` X"

lemma quiet_append: "quiet_ends X1 es1 \<Longrightarrow> quiet_ends X2 es2 \<Longrightarrow> quiet_ends (X1 \<union> X2) (es1 @ es2)"
  by (auto simp: quiet_ends_def)

definition series_goes :: "place \<Rightarrow> (addr \<Rightarrow> addr) \<Rightarrow> (addr \<Rightarrow> nat) \<Rightarrow> addr set \<Rightarrow> addr \<Rightarrow> flow \<Rightarrow> bool" where
  "series_goes U H R A v f \<longleftrightarrow> (\<exists>X es. (\<forall>ds. dismiss (D_series v # ds) f = dismiss ds (cut_flow X {} es f)) \<and> closed_cut U H (fl_series f) {v} X {} \<and>
     v \<in> X \<and> X \<subseteq> A \<and> (\<forall>z \<in> X. R z \<le> R v) \<and> quiet_ends X es)"

definition tasks_go :: "place \<Rightarrow> (addr \<Rightarrow> addr) \<Rightarrow> (addr \<Rightarrow> nat) \<Rightarrow> addr set \<Rightarrow> dismissal \<Rightarrow> addr \<Rightarrow> nat \<Rightarrow> flow \<Rightarrow> bool" where
  "tasks_go U H R A d t n f \<longleftrightarrow> (\<exists>X es. (\<forall>ds. dismiss (d # ds) f = dismiss ds (cut_flow X {t} es f)) \<and> closed_cut U H (fl_series f) {} X {t} \<and>
     X \<subseteq> A \<and> (\<forall>z \<in> X. R z < n) \<and> quiet_ends X es)"

lemma closed_union:
  assumes "closed_cut U H SS V1 X1 Y1" "closed_cut U H (SS |` (- X1)) V2 X2 Y2"
    and "\<And>z. z \<in> X1 \<Longrightarrow> z \<in> V1 \<Longrightarrow> z \<in> V \<or> (\<exists>q i. U z = Some (q, i) \<and> (q \<in> Y \<or> H q \<in> X2))" and "V2 \<subseteq> V"
    and "\<And>z q i. z \<in> dom SS \<Longrightarrow> U z = Some (q, i) \<Longrightarrow> q \<in> Y1 \<union> Y2 \<Longrightarrow> q \<in> Y \<or> H q \<in> X2" and "Y \<subseteq> Y1 \<union> Y2"
  shows "closed_cut U H SS V (X1 \<union> X2) Y"
proof -
  have 1: "X1 \<subseteq> dom SS" "\<And>z q i. z \<in> dom SS \<Longrightarrow> U z = Some (q, i) \<Longrightarrow> q \<in> Y1 \<or> H q \<in> X1 \<Longrightarrow> z \<in> X1"
    "\<And>z. z \<in> X1 \<Longrightarrow> z \<in> V1 \<or> (\<exists>q i. U z = Some (q, i) \<and> (q \<in> Y1 \<or> H q \<in> X1))" using assms(1) unfolding closed_cut_def by blast+
  have 2: "X2 \<subseteq> dom SS" "\<And>z q i. z \<in> dom SS \<Longrightarrow> z \<notin> X1 \<Longrightarrow> U z = Some (q, i) \<Longrightarrow> q \<in> Y2 \<or> H q \<in> X2 \<Longrightarrow> z \<in> X2"
    "\<And>z. z \<in> X2 \<Longrightarrow> z \<in> V2 \<or> (\<exists>q i. U z = Some (q, i) \<and> (q \<in> Y2 \<or> H q \<in> X2))" using assms(2) unfolding closed_cut_def dom_restrict by blast+
  show ?thesis unfolding closed_cut_def
  proof (intro conjI allI impI ballI)
    show "X1 \<union> X2 \<subseteq> dom SS" using 1(1) 2(1) by blast
    show "z \<in> X1 \<union> X2" if "z \<in> dom SS" "U z = Some (q, i)" "q \<in> Y \<or> H q \<in> X1 \<union> X2" for z q i
      using 1(2) [OF that(1,2)] 2(2) [OF that(1) _ that(2)] that(3) assms(6) by blast
    show "z \<in> V \<or> (\<exists>q i. U z = Some (q, i) \<and> (q \<in> Y \<or> H q \<in> X1 \<union> X2))" if "z \<in> X1 \<union> X2" for z
      using that
    proof
      assume z: "z \<in> X1"
      then have "z \<in> dom SS" using 1(1) by blast
      then show ?thesis using 1(3) [OF z] assms(3) [OF z] assms(5) [of z] by blast
    next
      assume z: "z \<in> X2"
      then have "z \<in> dom SS" using 2(1) by blast
      then show ?thesis using 2(3) [OF z] assms(4) assms(5) [of z] by blast
    qed
  qed
qed

lemma delete_task_cut: "fl_tasks f t = Some T \<Longrightarrow> delete_task t f = Some (cut_flow {} {t} [] f)"
proof -
  assume "fl_tasks f t = Some T"
  moreover have "cut_tasks {} {t} (fl_tasks f) = (fl_tasks f)(t := None)" by (auto simp: cut_tasks_def fun_eq_iff split: option.splits)
  ultimately show ?thesis by (simp add: delete_task_def cut_flow_def restrict_map_def)
qed

lemma dismiss_subs:
  assumes smaller: "\<And>v n f. R v < R (H p) \<Longrightarrow> idle U H R A n (fl_tasks f) (fl_series f) \<Longrightarrow> v \<in> dom (fl_series f) \<Longrightarrow> v \<in> A \<Longrightarrow> R v < n \<Longrightarrow> series_goes U H R A v f"
    and "idle U H R A (R (H p)) (fl_tasks f) (fl_series f)" "fl_tasks f p = Some T" "st_parallel T = Some P" "st_pointer T = Some (H p)" "places U A (fl_series f) p P k"
    "k \<le> pw_subtasks_nr P" "\<And>w j. w \<in> dom (fl_series f) \<Longrightarrow> U w = Some (p, j) \<Longrightarrow> k \<le> j"
  shows "tasks_go U H R A (D_subs p k) p (R (H p)) f"
  using assms(2-)
proof (induction "pw_subtasks_nr P - k" arbitrary: k f)
  case 0
  note up = idle_upD [OF idleD(1) [OF 0(2)]]
  have "dismiss (D_subs p k # ds) f = dismiss ds (cut_flow {} {p} [] f)" for ds
    using 0 delete_task_cut [OF 0(3)] by (subst dismiss.simps) simp
  moreover have "closed_cut U H (fl_series f) {} {} {p}" unfolding closed_cut_def
  proof (intro conjI allI impI)
    fix z q i assume z: "z \<in> dom (fl_series f)" "U z = Some (q, i)" "q \<in> {p} \<or> H q \<in> {}"
    then have "i < pw_subtasks_nr P" using up [of z _ q i] 0(3,4) by auto
    then show "z \<in> {}" using 0(8) [OF z(1)] z 0(1,7) by auto
  qed auto
  ultimately show ?case unfolding tasks_go_def by (intro exI [of _ "{}"] exI [of _ "[]"]) (simp add: quiet_ends_def)
next
  case (Suc d)
  note up = idle_upD [OF idleD(1) [OF Suc(3)]]
  have k: "k < pw_subtasks_nr P" using Suc(2) by simp
  then obtain w where w: "sub_series P k = Some w" "U w = Some (p, k)" "w \<in> dom (fl_series f)" "w \<in> A" using Suc(7) unfolding places_def by blast
  have rw: "R w < R (H p)" using up [of w _ p k] w by auto
  obtain X es where X: "\<And>ds. dismiss (D_series w # ds) f = dismiss ds (cut_flow X {} es f)" "closed_cut U H (fl_series f) {w} X {}" "w \<in> X" "X \<subseteq> A" "\<And>z. z \<in> X \<Longrightarrow> R z \<le> R w" "quiet_ends X es"
    using smaller [OF rw Suc(3) w(3,4) rw] unfolding series_goes_def by blast
  let ?f = "cut_flow X {} es f"
  note C = closed_cutD [OF X(2)]
  have hp: "H p \<notin> X" using X(5) rw by fastforce
  have step: "dismiss (D_subs p k # ds) f = dismiss (D_subs p (Suc k) # ds) ?f" for ds
    using Suc(4,5) k w(1) X(1) by (subst dismiss.simps) simp
  have "tasks_go U H R A (D_subs p (Suc k)) p (R (H p)) ?f"
  proof (rule Suc(1))
    show "d = pw_subtasks_nr P - Suc k" "Suc k \<le> pw_subtasks_nr P" using Suc(2) k by auto
    show "idle U H R A (R (H p)) (fl_tasks ?f) (fl_series ?f)" using idle_cut [OF Suc(3) X(2)] w(2) by simp
    show "fl_tasks ?f p = Some T" using Suc(4,6) hp by (simp add: cut_tasks_some image_iff)
    have "z \<notin> X" if "U z = Some (p, j)" "Suc k \<le> j" for z j using C(3) [of z] that w(2) hp by auto
    moreover have "places U A (fl_series f) p P (Suc k)" using Suc(7) unfolding places_def by (meson Suc_leD)
    ultimately show "places U A (fl_series ?f) p P (Suc k)" unfolding places_def cut_flow_fields dom_restrict by blast
    show "Suc k \<le> j" if "z \<in> dom (fl_series ?f)" "U z = Some (p, j)" for z j
    proof -
      have z: "z \<in> dom (fl_series f)" "z \<notin> X" using that(1) by auto
      then have "z = w" if "j = k" using up [of z _ p j] Suc(4,5) w(1) \<open>U z = Some (p, j)\<close> that by auto
      then show ?thesis using Suc(9) [OF z(1) that(2)] z(2) X(3) by (cases "j = k") auto
    qed
  qed (use Suc(5,6) in auto)
  then obtain X' es' where X': "\<And>ds. dismiss (D_subs p (Suc k) # ds) ?f = dismiss ds (cut_flow X' {p} es' ?f)" "closed_cut U H (fl_series ?f) {} X' {p}" "X' \<subseteq> A"
    "\<And>z. z \<in> X' \<Longrightarrow> R z < R (H p)" "quiet_ends X' es'" unfolding tasks_go_def by blast
  have "dismiss (D_subs p k # ds) f = dismiss ds (cut_flow (X \<union> X') {p} (es @ es') f)" for ds using step X'(1) by (simp add: cut_cut)
  moreover have "closed_cut U H (fl_series f) {} (X \<union> X') {p}"
    by (rule closed_union [OF X(2)]) (use X'(2) w(2) in auto)
  moreover have "R z < R (H p)" if "z \<in> X \<union> X'" for z using that X(5) X'(4) rw by fastforce
  ultimately show ?case unfolding tasks_go_def using X(4,6) X'(3,5) quiet_append by (intro exI [of _ "X \<union> X'"] exI [of _ "es @ es'"]) blast
qed

lemma dismiss_task:
  assumes smaller: "\<And>v n f. R v < R s \<Longrightarrow> idle U H R A n (fl_tasks f) (fl_series f) \<Longrightarrow> v \<in> dom (fl_series f) \<Longrightarrow> v \<in> A \<Longrightarrow> R v < n \<Longrightarrow> series_goes U H R A v f"
    and idle: "idle U H R A (R s) (fl_tasks f) (fl_series f)" and t: "fl_tasks f t = Some T" "st_pointer T = Some s"
    and par: "\<And>P. st_parallel T = Some P \<Longrightarrow> H t = s \<and> places U A (fl_series f) t P 0"
  shows "tasks_go U H R A (D_task t) t (R s) f"
proof (cases "st_parallel T")
  case None
  have "dismiss (D_task t # ds) f = dismiss ds (cut_flow {} {t} [] f)" for ds
    using t None delete_task_cut [OF t(1)] by (subst dismiss.simps) simp
  moreover have "closed_cut U H (fl_series f) {} {} {t}" using idle_upD [OF idleD(1) [OF idle]] t None unfolding closed_cut_def by fastforce
  ultimately show ?thesis unfolding tasks_go_def by (intro exI [of _ "{}"] exI [of _ "[]"]) (simp add: quiet_ends_def)
next
  case (Some P)
  have h: "H t = s" using par [OF Some] by simp
  have "dismiss (D_task t # ds) f = dismiss (D_subs t 0 # ds) f" for ds using t Some by (subst dismiss.simps) simp
  moreover have "tasks_go U H R A (D_subs t 0) t (R (H t)) f"
    by (rule dismiss_subs [OF _ _ t(1) Some]) (use smaller idle par [OF Some] t h in auto)
  ultimately show ?thesis using h by (simp add: tasks_go_def)
qed


text \<open>All tasks of a series, the next one first.\<close>

lemma dismiss_tasks:
  assumes smaller: "\<And>v n f. R v < R s \<Longrightarrow> idle U H R A n (fl_tasks f) (fl_series f) \<Longrightarrow> v \<in> dom (fl_series f) \<Longrightarrow> v \<in> A \<Longrightarrow> R v < n \<Longrightarrow> series_goes U H R A v f"
    and "idle U H R A (R s) (fl_tasks f) (fl_series f)" "fl_series f s = Some S" "series_inv S" "todo S = ts" "owns (fl_tasks f) s (t # ts)"
    and "\<And>t T P. fl_tasks f t = Some T \<Longrightarrow> st_pointer T = Some s \<Longrightarrow> st_parallel T = Some P \<Longrightarrow> H t = s \<and> places U A (fl_series f) t P 0"
  shows "\<exists>X es S'. (\<forall>ds. dismiss (D_task t # D_next s # ds) f = dismiss (D_next s # ds) (cut_flow X (set (t # ts)) es (f\<lparr>fl_series := (fl_series f)(s \<mapsto> S')\<rparr>))) \<and>
     closed_cut U H (fl_series f) {} X (set (t # ts)) \<and> X \<subseteq> A \<and> (\<forall>z \<in> X. R z < R s) \<and> quiet_ends X es \<and>
     series_inv S' \<and> todo S' = [] \<and> sw_in_parallel S' = sw_in_parallel S \<and> sw_callback S' = sw_callback S"
  using assms(2-)
proof (induction ts arbitrary: t S f)
  case Nil
  obtain T where T: "fl_tasks f t = Some T" "st_pointer T = Some s" using ownsD(1) [OF Nil(5), of t] by auto
  have "tasks_go U H R A (D_task t) t (R s) f" by (rule dismiss_task [OF _ Nil(1) T], erule (4) smaller) (use Nil(6) T in auto)
  then obtain X es where X: "\<And>ds. dismiss (D_task t # ds) f = dismiss ds (cut_flow X {t} es f)" "closed_cut U H (fl_series f) {} X {t}" "X \<subseteq> A" "\<forall>z \<in> X. R z < R s" "quiet_ends X es"
    unfolding tasks_go_def by blast
  have e: "f\<lparr>fl_series := (fl_series f)(s \<mapsto> S)\<rparr> = f" using Nil(2) by (simp add: fun_upd_idem)
  show ?case by (rule exI [of _ X], rule exI [of _ es], rule exI [of _ S], unfold e) (use X Nil(2-4) in simp)
next
  case (Cons u ts)
  obtain T where T: "fl_tasks f t = Some T" "st_pointer T = Some s" using ownsD(1) [OF Cons(6), of t] by auto
  have "tasks_go U H R A (D_task t) t (R s) f" by (rule dismiss_task [OF _ Cons(2) T], erule (4) smaller) (use Cons(7) T in auto)
  then obtain X es where X: "\<And>ds. dismiss (D_task t # ds) f = dismiss ds (cut_flow X {t} es f)" "closed_cut U H (fl_series f) {} X {t}" "X \<subseteq> A" "\<forall>z \<in> X. R z < R s" "quiet_ends X es"
    unfolding tasks_go_def by blast
  let ?f = "cut_flow X {t} es f"
  have sX: "s \<notin> X" using X(4) by blast
  have s: "fl_series ?f s = Some S" using Cons(3) sX by (simp add: restrict_map_def)
  obtain S1 where S1: "pop_task s ?f = Some (Some u, ?f\<lparr>fl_series := (fl_series ?f)(s \<mapsto> S1)\<rparr>)" "series_inv S1" "todo S1 = ts"
     "sw_in_parallel S1 = sw_in_parallel S" "sw_callback S1 = sw_callback S" using pop_task_some [OF s Cons(4,5)] by blast
  let ?g = "?f\<lparr>fl_series := (fl_series ?f)(s \<mapsto> S1)\<rparr>"
  have step: "dismiss (D_task t # D_next s # ds) f = dismiss (D_task u # D_next s # ds) ?g" for ds
    unfolding X(1) using S1(1) by (subst dismiss.simps) simp
  have id1: "idle U H R A (R s) (fl_tasks ?f) (fl_series ?f)" using idle_cut [OF Cons(2) X(2)] T by fastforce
  have keep: "fl_tasks ?f x = Some Z \<and> st_pointer Z = Some s \<longleftrightarrow> fl_tasks f x = Some Z \<and> st_pointer Z = Some s \<and> x \<noteq> t" for x Z using sX by (auto simp: cut_tasks_some)
  have d: "dom (fl_series ?g) = dom (fl_series ?f)" "dom (fl_series ?g) = dom (fl_series f) - X" using s Cons(3) sX by (auto simp: restrict_map_def split: if_splits)
  have "\<exists>X es S'. (\<forall>ds. dismiss (D_task u # D_next s # ds) ?g = dismiss (D_next s # ds) (cut_flow X (set (u # ts)) es (?g\<lparr>fl_series := (fl_series ?g)(s \<mapsto> S')\<rparr>))) \<and>
     closed_cut U H (fl_series ?g) {} X (set (u # ts)) \<and> X \<subseteq> A \<and> (\<forall>z \<in> X. R z < R s) \<and> quiet_ends X es \<and>
     series_inv S' \<and> todo S' = [] \<and> sw_in_parallel S' = sw_in_parallel S1 \<and> sw_callback S' = sw_callback S1"
  proof (rule Cons(1))
    show "idle U H R A (R s) (fl_tasks ?g) (fl_series ?g)" using idle_upd [OF id1 s] by simp
    show "owns (fl_tasks ?g) s (u # ts)" using Cons(6) keep unfolding owns_def by (auto simp del: cut_flow_fields)
    show "H x = s \<and> places U A (fl_series ?g) x P 0" if x: "fl_tasks ?g x = Some Z" "st_pointer Z = Some s" "st_parallel Z = Some P" for x Z P
    proof -
      have x': "fl_tasks f x = Some Z" "x \<noteq> t" using keep [of x Z] x by auto
      then have h: "H x = s" "places U A (fl_series f) x P 0" using Cons(7) x by blast+
      have "z \<notin> X" if "U z = Some (x, j)" for z j using closed_cutD(3) [OF X(2), of z] that h(1) sX x'(2) by auto
      then show ?thesis using h unfolding places_def d(2) by blast
    qed
  qed (use S1 in auto)
  then obtain X' es' S' where X': "\<And>ds. dismiss (D_task u # D_next s # ds) ?g = dismiss (D_next s # ds) (cut_flow X' (set (u # ts)) es' (?g\<lparr>fl_series := (fl_series ?g)(s \<mapsto> S')\<rparr>))"
     "closed_cut U H (fl_series ?g) {} X' (set (u # ts))" "X' \<subseteq> A" "\<forall>z \<in> X'. R z < R s" "quiet_ends X' es'"
     "series_inv S'" "todo S' = []" "sw_in_parallel S' = sw_in_parallel S1" "sw_callback S' = sw_callback S1" by blast
  have g: "?g\<lparr>fl_series := (fl_series ?g)(s \<mapsto> S')\<rparr> = cut_flow X {t} es (f\<lparr>fl_series := (fl_series f)(s \<mapsto> S')\<rparr>)"
    using sX by (simp add: cut_flow_def)
  have "dismiss (D_task t # D_next s # ds) f = dismiss (D_next s # ds) (cut_flow (X \<union> X') (set (t # u # ts)) (es @ es') (f\<lparr>fl_series := (fl_series f)(s \<mapsto> S')\<rparr>))" for ds
    unfolding step X'(1) g cut_cut by (simp add: insert_commute)
  moreover have "closed_cut U H (fl_series ?f) {} X' (set (u # ts))" using X'(2) unfolding closed_cut_def d(1) .
  then have "closed_cut U H (fl_series f) {} (X \<union> X') (set (t # u # ts))" unfolding cut_flow_fields by (rule closed_union [OF X(2)]) auto
  ultimately show ?case using X(3,4) X'(3,4,6-9) S1(4,5) quiet_append [OF X(5) X'(5)]
    by (intro exI [of _ "X \<union> X'"] exI [of _ "es @ es'"] exI [of _ S']) (auto simp del: fun_upd_apply)
qed

lemma dismiss_series:
  assumes "idle U H R A n (fl_tasks f) (fl_series f)" "v \<in> dom (fl_series f)" "v \<in> A" "R v < n"
  shows "series_goes U H R A v f"
  using assms
proof (induction "R v" arbitrary: v n f rule: less_induct)
  case less
  obtain V where V: "fl_series f v = Some V" using less(3) by blast
  have I: "series_inv V" "owns (fl_tasks f) v (sw_first V # todo V)" using idle_seriesD [OF idleD(2) [OF less(2)] V less(4,5)] by auto
  let ?V = "V\<lparr>sw_in_parallel := False, sw_callback := None\<rparr>"
  let ?f = "f\<lparr>fl_series := (fl_series f)(v \<mapsto> ?V)\<rparr>"
  have eq: "todo ?V = todo V" "series_inv ?V = series_inv V"
    by (simp_all add: todo_def pending_def ring_slots_def ring_len_def series_inv_def ring_shape_def)
  have d: "dom (fl_series ?f) = dom (fl_series f)" using V by auto
  have up: "idle_up U H R (fl_tasks f) (fl_series f)" by (rule idleD(1) [OF less(2)])
  have "\<exists>X es S'. (\<forall>ds. dismiss (D_task (sw_first V) # D_next v # ds) ?f = dismiss (D_next v # ds) (cut_flow X (set (sw_first V # todo V)) es (?f\<lparr>fl_series := (fl_series ?f)(v \<mapsto> S')\<rparr>))) \<and>
     closed_cut U H (fl_series ?f) {} X (set (sw_first V # todo V)) \<and> X \<subseteq> A \<and> (\<forall>z \<in> X. R z < R v) \<and> quiet_ends X es \<and>
     series_inv S' \<and> todo S' = [] \<and> sw_in_parallel S' = sw_in_parallel ?V \<and> sw_callback S' = sw_callback ?V"
  proof (rule dismiss_tasks)
    show "idle U H R A (R v) (fl_tasks ?f) (fl_series ?f)" using idle_upd [OF idle_mono [OF less(2), of "R v"] V] less(5) by simp
    show "H t = v \<and> places U A (fl_series ?f) t P 0" if "fl_tasks ?f t = Some T" "st_pointer T = Some v" "st_parallel T = Some P" for t T P
      using idle_parD [OF idleD(3) [OF less(2)], of t T P v] that less(4,5) unfolding places_def d by auto
  qed (use less(1) I eq in auto)
  then obtain X es S' where X: "\<And>ds. dismiss (D_task (sw_first V) # D_next v # ds) ?f = dismiss (D_next v # ds) (cut_flow X (set (sw_first V # todo V)) es (?f\<lparr>fl_series := (fl_series ?f)(v \<mapsto> S')\<rparr>))"
     "closed_cut U H (fl_series ?f) {} X (set (sw_first V # todo V))" "X \<subseteq> A" "\<forall>z \<in> X. R z < R v" "quiet_ends X es"
     "series_inv S'" "todo S' = []" "\<not> sw_in_parallel S'" "sw_callback S' = None" by auto
  let ?Y = "set (sw_first V # todo V)"
  let ?g = "f\<lparr>fl_series := (fl_series f)(v \<mapsto> S')\<rparr>"
  let ?h = "cut_flow X ?Y es ?g"
  have vX: "v \<notin> X" using X(4) by blast
  have h: "fl_series ?h v = Some S'" using vX by (simp add: restrict_map_def)
  have none: "fl_tasks ?h x = Some T \<Longrightarrow> st_pointer T \<noteq> Some v" for x T using ownsD(1) [OF I(2), of x] by (auto simp: cut_tasks_some)
  have own: "st_pointer T = Some v" if "x \<in> ?Y" "fl_tasks f x = Some T" for x T using ownsD(1) [OF I(2), of x] that by auto
  have ct: "cut_tasks {v} {} (fl_tasks ?h) = fl_tasks ?h"
  proof
    fix x show "cut_tasks {v} {} (fl_tasks ?h) x = fl_tasks ?h x" using none [of x] by (cases "fl_tasks ?h x") (auto simp: cut_tasks_def)
  qed
  have last: "?h\<lparr>fl_series := (fl_series ?h)(v := None), fl_log := fl_log ?h @ [Series_end v None]\<rparr> = cut_flow {v} {} [Series_end v None] ?h"
    using ct unfolding cut_flow_def [of "{v}"] restrict_complement_singleton_eq by simp
  have "dismiss (D_series v # ds) f = dismiss (D_task (sw_first V) # D_next v # ds) ?f" for ds using V by (subst dismiss.simps) simp
  also have "\<dots> ds = dismiss (D_next v # ds) ?h" for ds using X(1) by simp
  also have "\<dots> ds = dismiss ds (cut_flow {v} {} [Series_end v None] ?h)" for ds
    unfolding last [symmetric] using pop_task_none [OF h X(6,7)] X(8,9) by (subst dismiss.simps) simp
  also have "cut_flow {v} {} [Series_end v None] ?h = cut_flow (insert v X) {} (es @ [Series_end v None]) f"
    unfolding cut_cut by (subst cut_owned) (use own cut_upd_series [of v "X \<union> {v}" "{}" _ f] in auto)
  finally have run: "dismiss (D_series v # ds) f = dismiss ds (cut_flow (insert v X) {} (es @ [Series_end v None]) f)" for ds .
  have up': "H q = v" if "z \<in> dom (fl_series f)" "U z = Some (q, i)" "q \<in> ?Y" for z q i
    using idle_upD [OF up, of z _ q i] that own [of q] by auto
  have "closed_cut U H (fl_series f) {v} (insert v X) {}" unfolding closed_cut_def
  proof (intro conjI allI impI ballI)
    note C = closed_cutD [OF X(2)]
    show "insert v X \<subseteq> dom (fl_series f)" using C(1) d V by auto
    show "z \<in> insert v X" if z: "z \<in> dom (fl_series f)" "U z = Some (q, i)" "q \<in> {} \<or> H q \<in> insert v X" for z q i
    proof -
      have "q \<in> ?Y" if "H q = v" using idle_upD [OF up, of z _ q i] z that ownsD(1) [OF I(2), of q] by auto
      moreover have "z \<in> dom (fl_series ?f)" using z(1) d by simp
      ultimately have "z \<in> X" using C(2) [of z _ q i] z(2,3) by blast
      then show ?thesis by blast
    qed
    show "z \<in> {v} \<or> (\<exists>q i. U z = Some (q, i) \<and> (q \<in> {} \<or> H q \<in> insert v X))" if "z \<in> insert v X" for z
    proof (cases "z = v")
      case False
      then have "z \<in> X" "z \<in> dom (fl_series f)" using that C(1) d by auto
      then show ?thesis using C(3) [of z] up' [of z] by blast
    qed simp
  qed
  moreover have "quiet_ends (insert v X) (es @ [Series_end v None])" using X(5) by (auto simp: quiet_ends_def)
  moreover have "R z \<le> R v" if "z \<in> insert v X" for z using that X(4) by fastforce
  ultimately show ?case unfolding series_goes_def using run X(3) less(4) by (intro exI [of _ "insert v X"] exI [of _ "es @ [Series_end v None]"]) auto
qed

section \<open>Dismissing what a canceled series has left\<close>

lemma core_places:
  assumes core: "flow_core U H R root \<phi> TS SS" and t: "TS t = Some T" "st_pointer T = Some s" "st_parallel T = Some P" and s: "\<phi> s \<in> {Unstarted, Gap}"
  shows "H t = s" "places U {z. \<phi> z = Unstarted} SS t P 0"
proof -
  note D = parD [OF flow_coreD(6) [OF core] t(1,3)]
  show h: "H t = s" using D(1) t(2) by simp
  have st: "stage H \<phi> t = P_disp" using s by (auto simp: stage_def h)
  show "places U {z. \<phi> z = Unstarted} SS t P 0" unfolding places_def
  proof (intro allI impI)
    fix i assume "i < pw_subtasks_nr P"
    then show "\<exists>w. sub_series P i = Some w \<and> U w = Some (t, i) \<and> w \<in> dom SS \<and> w \<in> {z. \<phi> z = Unstarted}" using D(3) [of i] st by (auto simp: place_ok_def sub_ok_def)
  qed
qed

lemma core_idle:
  assumes core: "flow_core U H R root \<phi> TS SS"
  shows "idle U H R {z. \<phi> z = Unstarted} n TS SS"
proof -
  note C = flow_coreD [OF core]
  have "idle_up U H R TS SS" unfolding idle_up_def
  proof (intro allI impI)
    fix w W p i assume "SS w = Some W" "U w = Some (p, i)"
    from upD [OF C(5) this] show "R w < R (H p) \<and>
     (\<exists>T P. TS p = Some T \<and> st_parallel T = Some P \<and> st_pointer T = Some (H p) \<and> i < pw_subtasks_nr P \<and> sub_series P i = Some w)" using parD(1) [OF C(6)] by blast
  qed
  moreover have "idle_series R {z. \<phi> z = Unstarted} n TS SS" unfolding idle_series_def
  proof (intro allI impI)
    fix z Z assume z: "SS z = Some Z" "z \<in> {z. \<phi> z = Unstarted}"
    then have "live (\<phi> z) Z = sw_first Z # todo Z" by (simp add: live_def current_def)
    then show "series_inv Z \<and> owns TS z (sw_first Z # todo Z)" using seriesD(1,3) [OF C(1) z(1)] core_own [OF core z(1)] unfolding owns_def by simp
  qed
  moreover have "idle_par U H R {z. \<phi> z = Unstarted} n TS SS" unfolding idle_par_def using core_places [OF core] by blast
  ultimately show ?thesis by (simp add: idle_def)
qed

lemma core_purge:
  assumes core: "flow_core U H R root \<phi> TS SS" and s: "SS s = Some S" "\<phi> s = Gap" and X: "closed_cut U H SS {} X (set (todo S))" "s \<notin> X"
    and S': "series_inv S'" "todo S' = []" "sw_in_parallel S' = sw_in_parallel S"
  shows "flow_core U H R root \<phi> (cut_tasks X (set (todo S)) TS) ((SS |` (- X))(s \<mapsto> S'))"
proof -
  let ?TS = "cut_tasks X (set (todo S)) TS"
  note C = flow_coreD [OF core]
  note X' = closed_cutD [OF X(1)]
  have own: "x \<in> set (todo S) \<longleftrightarrow> (\<exists>T. TS x = Some T \<and> st_pointer T = Some s)" for x using core_own [OF core s(1), of x] s(2) by (simp add: live_def current_def)
  have "flow_core U H R root (\<phi>(s := Gap)) ?TS ((SS |` (- X))(s \<mapsto> S'))"
  proof (rule core_update [OF core s(1) X(2)])
    show "?TS x = Some T" if "TS x = Some T" "st_pointer T \<noteq> Some s" "st_pointer T \<notin> Some ` X" for x T using that own [of x] by (auto simp: cut_tasks_some)
    show "?TS x = None" if "TS x = Some T" "st_pointer T \<in> Some ` X" for x T using that by (simp add: cut_tasks_def)
    show "x \<in> set (live Gap S') \<longleftrightarrow> (\<exists>T. ?TS x = Some T \<and> st_pointer T = Some s)" for x using own [of x] S'(2) by (auto simp: cut_tasks_some live_def current_def)
    show "z \<in> X \<longleftrightarrow> ?TS p = None" if z: "z \<in> dom SS" "U z = Some (p, i)" for z p i
    proof -
      obtain Z T P where T: "SS z = Some Z" "TS p = Some T" "st_parallel T = Some P" using upD [OF C(5), of z _ p i] z by auto
      then have "?TS p = None \<longleftrightarrow> p \<in> set (todo S) \<or> H p \<in> X" using parD(1) [OF C(6) T(2,3)] by (auto simp: cut_tasks_def)
      then show ?thesis using X'(2) [OF T(1) z(2)] X'(3) [of z] z(2) by auto
    qed
    show "stage H (\<phi>(s := Gap)) p = stage H \<phi> p" for p using s(2) by (simp add: fun_upd_idem)
  qed (use S' s in \<open>auto simp: cut_tasks_some live_def current_def\<close>)
  then show ?thesis using s(2) by (simp add: fun_upd_idem)
qed

text \<open>Taking the next task of a series between two tasks.\<close>

definition series_over :: "place \<Rightarrow> (addr \<Rightarrow> addr) \<Rightarrow> (addr \<Rightarrow> nat) \<Rightarrow> addr \<Rightarrow> statuses \<Rightarrow> addr \<Rightarrow> flow \<Rightarrow> flow \<Rightarrow> addr set \<Rightarrow> bool" where
  "series_over U H R root \<phi> s f f' X \<longleftrightarrow> fl_acts f' = fl_acts f \<and> dom (fl_tasks f') \<subseteq> dom (fl_tasks f) \<and> X \<subseteq> {z. \<phi> z = Unstarted} \<and>
     dom (fl_series f') = (if U s = None then dom (fl_series f) - X - {s} else dom (fl_series f) - X) \<and>
     flow_core U H R root (if U s = None then \<phi> else \<phi>(s := Leave)) (fl_tasks f') (fl_series f')"

lemma over_last:
  assumes core: "flow_core U H R root \<phi> (fl_tasks f) (fl_series f)" and s: "fl_series f s = Some S" "\<phi> s = Gap" "todo S = []"
  shows "\<exists>f'. pop_task s f = Some (None, f') \<and> series_over U H R root \<phi> s f f' {} \<and> (\<exists>cb. fl_log f' = fl_log f @ [Series_end s cb])"
proof -
  note C = flow_coreD [OF core]
  note S = seriesD [OF C(1) s(1)]
  have e: "(fl_series f)(s \<mapsto> S) = fl_series f" using s(1) by auto
  have "flow_core U H R root (\<phi>(s := Leave)) (fl_tasks f) (fl_series f)" if "U s \<noteq> None" using core_leave [OF core s(1,2) that s(3,3) S(1) refl] unfolding e .
  moreover have "flow_core U H R root \<phi> (fl_tasks f) ((fl_series f)(s := None))" if "U s = None" by (rule core_end [OF core s(1,2) that s(3)])
  ultimately show ?thesis unfolding pop_task_none [OF s(1) S(1) s(3)] series_over_def using S(2) by auto
qed

lemma pop_gap:
  assumes core: "flow_core U H R root \<phi> (fl_tasks f) (fl_series f)" and s: "fl_series f s = Some S" "\<phi> s = Gap"
  shows "(\<exists>c S'. pop s f = Some (Some c, f\<lparr>fl_series := (fl_series f)(s \<mapsto> S')\<rparr>) \<and> todo S = c # todo S' \<and> series_inv S' \<and> sw_in_parallel S' = sw_in_parallel S) \<or>
     (\<exists>f' X. pop s f = Some (None, f') \<and> series_over U H R root \<phi> s f f' X \<and> (\<exists>es cb. fl_log f' = fl_log f @ es @ [Series_end s cb] \<and> quiet_ends X es))"
proof -
  note C = flow_coreD [OF core]
  note inv = seriesD(1) [OF C(1) s(1)]
  show ?thesis
  proof (cases "todo S")
    case Nil
    obtain f' where f': "pop_task s f = Some (None, f')" "series_over U H R root \<phi> s f f' {}" "\<exists>cb. fl_log f' = fl_log f @ [Series_end s cb]" using over_last [OF core s Nil] by blast
    have "pop s f = Some (None, f')" using s(1) f'(1) by (simp add: pop_def)
    then show ?thesis using f'(2,3) by (intro disjI2 exI [of _ f'] exI [of _ "{}"]) (auto simp: quiet_ends_def)
  next
    case (Cons c ts)
    obtain S1 where S1: "pop_task s f = Some (Some c, f\<lparr>fl_series := (fl_series f)(s \<mapsto> S1)\<rparr>)" "series_inv S1" "todo S1 = ts" "sw_in_parallel S1 = sw_in_parallel S"
      using pop_task_some [OF s(1) inv Cons] by blast
    show ?thesis
    proof (cases "sw_canceled S")
      case False
      then have "pop s f = Some (Some c, f\<lparr>fl_series := (fl_series f)(s \<mapsto> S1)\<rparr>)" using s(1) S1(1) by (simp add: pop_def)
      then show ?thesis using S1 Cons by blast
    next
      case True
      let ?f = "f\<lparr>fl_series := (fl_series f)(s \<mapsto> S1)\<rparr>" and ?A = "{z. \<phi> z = Unstarted}"
      have d: "dom (fl_series ?f) = dom (fl_series f)" using s(1) by auto
      have own: "owns (fl_tasks f) s (c # ts)"
        using core_own [OF core s(1)] seriesD(3) [OF C(1) s(1)] s(2) Cons by (simp add: owns_def live_def current_def)
      have "\<exists>X es S'. (\<forall>ds. dismiss (D_task c # D_next s # ds) ?f = dismiss (D_next s # ds) (cut_flow X (set (c # ts)) es (?f\<lparr>fl_series := (fl_series ?f)(s \<mapsto> S')\<rparr>))) \<and>
         closed_cut U H (fl_series ?f) {} X (set (c # ts)) \<and> X \<subseteq> ?A \<and> (\<forall>z \<in> X. R z < R s) \<and> quiet_ends X es \<and>
         series_inv S' \<and> todo S' = [] \<and> sw_in_parallel S' = sw_in_parallel S1 \<and> sw_callback S' = sw_callback S1"
      proof (rule dismiss_tasks)
        show "series_goes U H R ?A v g" if "R v < R s" "idle U H R ?A n (fl_tasks g) (fl_series g)" "v \<in> dom (fl_series g)" "v \<in> ?A" "R v < n" for v n g
          by (rule dismiss_series [OF that(2-)])
        show "idle U H R ?A (R s) (fl_tasks ?f) (fl_series ?f)" using idle_upd [OF core_idle [OF core] s(1)] by simp
        show "H t = s \<and> places U ?A (fl_series ?f) t P 0" if "fl_tasks ?f t = Some T" "st_pointer T = Some s" "st_parallel T = Some P" for t T P
          using core_places [OF core _ that(2,3)] that(1) s(2) unfolding places_def d by auto
      qed (use S1 own in auto)
      then obtain X es S' where X: "\<And>ds. dismiss (D_task c # D_next s # ds) ?f = dismiss (D_next s # ds) (cut_flow X (set (todo S)) es (f\<lparr>fl_series := (fl_series f)(s \<mapsto> S')\<rparr>))"
        "closed_cut U H (fl_series f) {} X (set (todo S))" "X \<subseteq> ?A" "\<forall>z \<in> X. R z < R s" "quiet_ends X es" "series_inv S'" "todo S' = []" "sw_in_parallel S' = sw_in_parallel S"
        unfolding closed_cut_def d using S1(4) Cons by auto
      let ?g = "cut_flow X (set (todo S)) es (f\<lparr>fl_series := (fl_series f)(s \<mapsto> S')\<rparr>)"
      have sX: "s \<notin> X" using X(4) by blast
      have g: "fl_series ?g = (fl_series f |` (- X))(s \<mapsto> S')" using sX by simp
      have "flow_core U H R root \<phi> (fl_tasks ?g) (fl_series ?g)" using core_purge [OF core s X(2) sX X(6,7,8)] unfolding g by simp
      moreover have "fl_series ?g s = Some S'" using g by simp
      ultimately obtain f' where f': "pop_task s ?g = Some (None, f')" "series_over U H R root \<phi> s ?g f' {}" "\<exists>cb. fl_log f' = fl_log ?g @ [Series_end s cb]"
        using over_last [of U H R root \<phi> ?g s S'] s(2) X(7) by blast
      have "dismiss [D_task c, D_next s] ?f = Some f'" unfolding X(1) using f'(1) by (subst dismiss.simps) (simp add: dismiss.simps)
      then have pop: "pop s f = Some (None, f')" using s(1) S1(1) True by (simp add: pop_def)
      have "dom (fl_series ?g) = dom (fl_series f) - X" unfolding g using s(1) sX by (auto simp: restrict_map_def split: if_splits)
      moreover have "dom (fl_tasks ?g) \<subseteq> dom (fl_tasks f)" by (auto simp: cut_tasks_some)
      then have "dom (fl_tasks f') \<subseteq> dom (fl_tasks f)" using f'(2) unfolding series_over_def by (meson subset_trans)
      ultimately have "series_over U H R root \<phi> s f f' X" using f'(2) X(3) unfolding series_over_def by (auto split: if_splits)
      then show ?thesis using pop f'(3) X(5) by auto
    qed
  qed
qed

end
