(* ===== verification/Flow_Safe.thy ===== *)
theory Flow_Safe
  imports Flow_Dismiss
begin

text \<open>
  Every activity of a state that satisfies the invariant can take its step, the invariant holds again behind it, and there is less left to do.
\<close>

section \<open>Steps of activities\<close>

text \<open>An activity can run, and the invariant holds behind it.\<close>

definition runs :: "place \<Rightarrow> (addr \<Rightarrow> addr) \<Rightarrow> (addr \<Rightarrow> nat) \<Rightarrow> addr \<Rightarrow> statuses \<Rightarrow> flow \<Rightarrow> activity list \<Rightarrow> activity \<Rightarrow> activity list \<Rightarrow> bool" where
  "runs U H R root \<phi> f xs a ys \<longleftrightarrow> (\<exists>new f' \<phi>'. act_step a f = Some (new, f') \<and> flow_inv U H R root \<phi>' (f'\<lparr>fl_acts := xs @ new @ ys\<rparr>) \<and>
     flow_weight \<phi>' (fl_tasks f') (fl_series f') < flow_weight \<phi> (fl_tasks f) (fl_series f))"

lemma core_finite:
  assumes core: "flow_core U H R root \<phi> TS SS"
  shows "finite (dom TS)" "finite (dom SS)"
proof -
  show fin: "finite (dom SS)" using flow_coreD(7) [OF core] by (simp add: inv_root_def)
  have "dom TS \<subseteq> (\<Union>s \<in> dom SS. set (live (\<phi> s) (the (SS s))))" using coverD [OF flow_coreD(3) [OF core]] by fastforce
  moreover have "finite (\<Union>s \<in> dom SS. set (live (\<phi> s) (the (SS s))))" using fin by blast
  ultimately show "finite (dom TS)" by (rule finite_subset)
qed

lemma weight_split: "finite D \<Longrightarrow> (\<Sum>s \<in> D. w s) = (\<Sum>s \<in> Z \<inter> D. w s) + (\<Sum>s \<in> D - Z. (w s :: nat))"
  by (subst sum.union_disjoint [symmetric]) (auto intro: sum.cong)

lemma runsI:
  assumes inv: "flow_inv U H R root \<phi> f" "fl_acts f = xs @ a # ys" and step: "act_step a f = Some (new, f')"
    and core: "flow_core U H R root \<phi>' (fl_tasks f') (fl_series f')"
    and owner: "s \<in> Z" "s \<in> dom (fl_series f)" "act_of (U s) (\<phi> s) = Some a"
    and rest: "\<And>z. z \<notin> Z \<Longrightarrow> z \<in> dom (fl_series f') \<longleftrightarrow> z \<in> dom (fl_series f)" "\<And>z. z \<notin> Z \<Longrightarrow> \<phi>' z = \<phi> z"
      "\<And>z. z \<in> Z \<Longrightarrow> z \<noteq> s \<Longrightarrow> z \<in> dom (fl_series f) \<Longrightarrow> act_of (U z) (\<phi> z) = None"
    and made: "distinct new" "set new = {b. \<exists>z \<in> Z \<inter> dom (fl_series f'). act_of (U z) (\<phi>' z) = Some b}"
    and gap: "\<And>z. z \<in> Z \<Longrightarrow> z \<in> dom (fl_series f') \<Longrightarrow> \<phi>' z \<noteq> Gap"
    and less: "6 * card (dom (fl_tasks f')) + (\<Sum>z \<in> Z \<inter> dom (fl_series f'). status_weight (\<phi>' z)) <
      6 * card (dom (fl_tasks f)) + (\<Sum>z \<in> Z \<inter> dom (fl_series f). status_weight (\<phi> z))"
  shows "runs U H R root \<phi> f xs a ys"
proof -
  have old: "flow_core U H R root \<phi> (fl_tasks f) (fl_series f)" "\<forall>s \<in> dom (fl_series f). \<phi> s \<noteq> Gap" using inv(1) by (simp_all add: flow_inv_def)
  have "inv_acts U \<phi>' (fl_series f') (xs @ new @ ys)"
    using acts_replace [where xs = xs and ys = ys and TS = "fl_tasks f", OF _ _ core owner rest made] inv by (simp add: flow_inv_def)
  moreover have "\<forall>s \<in> dom (fl_series f'). \<phi>' s \<noteq> Gap" using gap rest(1,2) old(2) by metis
  moreover have "(\<Sum>z \<in> dom (fl_series f') - Z. status_weight (\<phi>' z)) = (\<Sum>z \<in> dom (fl_series f) - Z. status_weight (\<phi> z))"
    by (rule sum.cong) (use rest in auto)
  then have "flow_weight \<phi>' (fl_tasks f') (fl_series f') < flow_weight \<phi> (fl_tasks f) (fl_series f)"
    unfolding flow_weight_def using less weight_split [OF core_finite(2) [OF core], of _ Z] weight_split [OF core_finite(2) [OF old(1)], of _ Z] by simp
  ultimately show ?thesis using step core unfolding runs_def flow_inv_def by (intro exI [of _ new] exI [of _ f'] exI [of _ \<phi>']) simp
qed

lemma act_of_at: "act_of u (At t ph) = (case ph of P_disp \<Rightarrow> Some (Dispatching t) | P_run \<Rightarrow> Some (Started t) | P_fin \<Rightarrow> Some (Finishing t)
                      | P_call \<Rightarrow> Some (Calling t) | P_loop i n \<Rightarrow> Some (Looping t i n) | P_wait \<Rightarrow> None)"
  by (simp add: act_of_def)

lemma act_owner:
  assumes "flow_inv U H R root \<phi> f" "a \<in> set (fl_acts f)"
  shows "\<exists>s S. fl_series f s = Some S \<and> act_of (U s) (\<phi> s) = Some a"
  using assms by (auto simp: flow_inv_def inv_acts_def)

lemma owner_at:
  "act_of u st = Some (Dispatching t) \<Longrightarrow> st = At t P_disp" "act_of u st = Some (Started t) \<Longrightarrow> st = At t P_run"
  "act_of u st = Some (Finishing t) \<Longrightarrow> st = At t P_fin" "act_of u st = Some (Calling t) \<Longrightarrow> st = At t P_call"
  "act_of u st = Some (Looping t i n) \<Longrightarrow> st = At t (P_loop i n)"
  "act_of u st = Some (Leaving p e) \<Longrightarrow> st = Leave \<and> (\<exists>i. u = Some (p, i) \<and> e = Some (p, i))"
  by (auto simp: act_of_def split: status.splits phase.splits option.splits)

lemma runs_phase:
  assumes inv: "flow_inv U H R root \<phi> f" "fl_acts f = xs @ a # ys" and s: "fl_series f s = Some S" "\<phi> s = At t ph" "act_of (U s) (\<phi> s) = Some a"
    and step: "act_step a f = Some ([b], f')" and b: "act_of (U s) (At t ph') = Some b"
    and core: "flow_core U H R root (\<phi>(s := At t ph')) (fl_tasks f') (fl_series f)" "fl_series f' = fl_series f"
    and less: "dom (fl_tasks f') = dom (fl_tasks f)" "phase_weight ph' < phase_weight ph"
  shows "runs U H R root \<phi> f xs a ys"
proof -
  have "{s} \<inter> dom (fl_series f) = {s}" using s(1) by auto
  then show ?thesis by (intro runsI [OF inv step, where s = s and Z = "{s}" and \<phi>' = "\<phi>(s := At t ph')"]) (use core s b less in auto)
qed

lemma dispatching_runs:
  assumes inv: "flow_inv U H R root \<phi> f" "fl_acts f = xs @ Dispatching t # ys"
  shows "runs U H R root \<phi> f xs (Dispatching t) ys"
proof -
  have core: "flow_core U H R root \<phi> (fl_tasks f) (fl_series f)" using inv by (simp add: flow_inv_def)
  note C = flow_coreD [OF core]
  obtain s S where s: "fl_series f s = Some S" "\<phi> s = At t P_disp" "act_of (U s) (\<phi> s) = Some (Dispatching t)"
    using act_owner [OF inv(1), of "Dispatching t"] inv(2) owner_at(1) by fastforce
  obtain T where T: "fl_tasks f t = Some T" using linksD [OF C(4) s(1,2)] by blast
  show ?thesis
  proof (cases "st_parallel T")
    case None
    have "flow_core U H R root (\<phi>(s := At t P_run)) ((fl_tasks f)(t \<mapsto> T)) (fl_series f)"
      by (rule core_phase [OF core s(1,2) T]) (use None in \<open>auto simp: phase_fits_def\<close>)
    then show ?thesis by (intro runs_phase [OF inv s, where b = "Started t" and f' = f and ph' = P_run]) (use T None in \<open>auto simp: act_of_at fun_upd_idem\<close>)
  next
    case (Some P)
    let ?n = "pw_subtasks_nr P" and ?ph = "if pw_subtasks_nr P \<noteq> 0 then P_loop 0 (pw_subtasks_nr P) else P_fin"
    let ?TS = "(fl_tasks f)(t \<mapsto> T\<lparr>st_parallel := Some (P\<lparr>pw_nleft := ?n\<rparr>)\<rparr>)"
    note D = parD [OF C(6) T Some]
    have "stage H \<phi> t = P_disp" using D(1) pointer_at [OF core s(1,2) T] s(2) by (simp add: stage_def)
    then have un: "\<exists>z. sub_series P i = Some z \<and> \<phi> z = Unstarted" if "i < ?n" for i using D(3) [OF that] by (auto simp: place_ok_def sub_ok_def)
    then have "{i. i < ?n \<and> \<phi> (the (sub_series P i)) \<noteq> Ended} = {i. i < ?n}" by fastforce
    then have lc: "left_count \<phi> P = ?n" by (simp add: left_count_def)
    have "flow_core U H R root (\<phi>(s := At t ?ph)) ?TS (fl_series f)"
    proof (rule core_phase [OF core s(1,2) T])
      show "sub_ok ?ph i (\<phi> z)" if "st_parallel T = Some Q" "i < pw_subtasks_nr Q" "sub_series Q i = Some z" for Q i z
        using that un [of i] Some by (auto simp: sub_ok_def)
      show "nleft_ok ?ph \<phi> (Q\<lparr>pw_nleft := ?n\<rparr>)" if "st_parallel T = Some Q" for Q using that Some lc by (auto simp: nleft_ok_def)
    qed (use Some in \<open>auto simp: phase_fits_def\<close>)
    then show ?thesis
      by (intro runs_phase [OF inv s, where b = "if ?n \<noteq> 0 then Looping t 0 ?n else Finishing t" and f' = "f\<lparr>fl_tasks := ?TS\<rparr>" and ph' = ?ph]) (use T Some in \<open>auto simp: act_of_at Let_def\<close>)
  qed
qed

lemma started_runs:
  assumes inv: "flow_inv U H R root \<phi> f" "fl_acts f = xs @ Started t # ys"
  shows "runs U H R root \<phi> f xs (Started t) ys"
proof -
  have core: "flow_core U H R root \<phi> (fl_tasks f) (fl_series f)" using inv by (simp add: flow_inv_def)
  obtain s S where s: "fl_series f s = Some S" "\<phi> s = At t P_run" "act_of (U s) (\<phi> s) = Some (Started t)"
    using act_owner [OF inv(1), of "Started t"] inv(2) owner_at(2) by fastforce
  obtain T where T: "fl_tasks f t = Some T" "st_parallel T = None" using linksD [OF flow_coreD(4) [OF core] s(1,2)] by (auto simp: phase_fits_def split: if_splits)
  have "flow_core U H R root (\<phi>(s := At t P_fin)) ((fl_tasks f)(t \<mapsto> T)) (fl_series f)"
    by (rule core_phase [OF core s(1,2) T(1)]) (use T in \<open>auto simp: phase_fits_def\<close>)
  then show ?thesis by (intro runs_phase [OF inv s, where b = "Finishing t" and f' = f and ph' = P_fin]) (use T in \<open>auto simp: act_of_at fun_upd_idem\<close>)
qed

lemma finishing_runs:
  assumes inv: "flow_inv U H R root \<phi> f" "fl_acts f = xs @ Finishing t # ys"
  shows "runs U H R root \<phi> f xs (Finishing t) ys"
proof -
  have core: "flow_core U H R root \<phi> (fl_tasks f) (fl_series f)" using inv by (simp add: flow_inv_def)
  obtain s S where s: "fl_series f s = Some S" "\<phi> s = At t P_fin" "act_of (U s) (\<phi> s) = Some (Finishing t)"
    using act_owner [OF inv(1), of "Finishing t"] inv(2) owner_at(3) by fastforce
  obtain T where T: "fl_tasks f t = Some T" using linksD [OF flow_coreD(4) [OF core] s(1,2)] by blast
  have sub: "\<phi> z = Ended" if p: "st_parallel T = Some P" "i < pw_subtasks_nr P" "sub_series P i = Some z" for P i z
  proof -
    note D = parD [OF flow_coreD(6) [OF core] T p(1)]
    have "stage H \<phi> t = P_fin" using D(1) pointer_at [OF core s(1,2) T] s(2) by (simp add: stage_def)
    then show ?thesis using D(3) [OF p(2)] p(3) by (auto simp: place_ok_def sub_ok_def)
  qed
  have "flow_core U H R root (\<phi>(s := At t P_call)) ((fl_tasks f)(t \<mapsto> T)) (fl_series f)"
    by (cases "st_parallel T"; rule core_phase [OF core s(1,2) T, where n = "pw_nleft (the (st_parallel T))"])
      (use sub in \<open>auto simp: phase_fits_def sub_ok_def nleft_ok_def\<close>)
  then show ?thesis
    by (intro runs_phase [OF inv s, where b = "Calling t" and ph' = P_call and f' = "f\<lparr>fl_log := fl_log f @ [if st_parallel T = None then Task_done t else Parallel_done t]\<rparr>"])
      (use T in \<open>auto simp: act_of_at fun_upd_idem\<close>)
qed

lemma looping_runs:
  assumes inv: "flow_inv U H R root \<phi> f" "fl_acts f = xs @ Looping p k n # ys"
  shows "runs U H R root \<phi> f xs (Looping p k n) ys"
proof -
  have core: "flow_core U H R root \<phi> (fl_tasks f) (fl_series f)" using inv by (simp add: flow_inv_def)
  note C = flow_coreD [OF core]
  obtain h S where h: "fl_series f h = Some S" "\<phi> h = At p (P_loop k n)" "act_of (U h) (\<phi> h) = Some (Looping p k n)"
    using act_owner [OF inv(1), of "Looping p k n"] inv(2) owner_at(5) by fastforce
  obtain T P where p: "fl_tasks f p = Some T" "st_parallel T = Some P" using linksD [OF C(4) h(1,2)] by (auto simp: phase_fits_def split: if_splits)
  note L = looping_sub [OF core h(1,2) p]
  obtain z Z where z: "sub_series P k = Some z" "fl_series f z = Some Z" "U z = Some (p, k)" "\<phi> z = Unstarted" "pw_buf P ! k = Some (sw_first Z)" "z \<noteq> h" using L(4) by blast
  let ?c = "sw_first Z"
  obtain X where c: "fl_tasks f ?c = Some X" using liveD [OF C(2) z(2), of ?c] z(4) by (auto simp: live_def current_def)
  let ?f = "f\<lparr>fl_tasks := (fl_tasks f)(?c \<mapsto> X\<lparr>st_parent := Some p, st_entry := Some (p, k)\<rparr>)\<rparr>"
  have "k < length (pw_buf P)" using parD(2) [OF C(6) p] L(2,3) by (auto simp: buf_ok_def)
  then have step: "act_step (Looping p k n) f = Some (Dispatching ?c # (if k + 1 \<noteq> n then [Looping p (k + 1) n] else []), ?f)"
    using p z(5) c by (simp add: rd_def set_links_def)
  have "{z, h} \<inter> dom (fl_series f) = {z, h}" "dom (fl_tasks ?f) = dom (fl_tasks f)" using h(1) z(2) c by auto
  then show ?thesis
    by (intro runsI [OF inv step, where s = h and Z = "{z, h}" and \<phi>' = "\<phi>(z := At ?c P_disp, h := At p (after_loop k n))"])
      (use core_begin [OF core h(1,2) p z(1-4) refl c] h z in \<open>auto simp: act_of_def after_loop_def\<close>)
qed

lemma leaving_runs:
  assumes inv: "flow_inv U H R root \<phi> f" "fl_acts f = xs @ Leaving p e # ys"
  shows "runs U H R root \<phi> f xs (Leaving p e) ys"
proof -
  have core: "flow_core U H R root \<phi> (fl_tasks f) (fl_series f)" using inv by (simp add: flow_inv_def)
  note C = flow_coreD [OF core]
  obtain z Z i where z: "fl_series f z = Some Z" "\<phi> z = Leave" "U z = Some (p, i)" "act_of (U z) (\<phi> z) = Some (Leaving p e)"
    using act_owner [OF inv(1), of "Leaving p e"] inv(2) owner_at(6) by fastforce
  obtain T P where p: "fl_tasks f p = Some T" "st_parallel T = Some P" using upD [OF C(5) z(1,3)] by blast
  note L = leave_stage [OF core z(1-3) p]
  let ?n = "pw_nleft P - 1"
  let ?f = "f\<lparr>fl_tasks := (fl_tasks f)(p \<mapsto> T\<lparr>st_parallel := Some (P\<lparr>pw_nleft := ?n\<rparr>)\<rparr>)\<rparr>"
  have step: "act_step (Leaving p e) f = Some (if ?n = 0 then [Finishing p] else [], ?f)" using p L(8) by (simp add: count_down_def)
  obtain V where V: "fl_series f (H p) = Some V" using coverD [OF C(3) p(1)] L(5) by auto
  have wait: "?n = 0 \<Longrightarrow> \<phi> (H p) = At p P_wait" using L(4,8,9) by auto
  note core' = core_count [OF core z(1-3) p refl]
  show ?thesis
  proof (cases "?n = 0")
    case True
    have d: "{z, H p} \<inter> dom (fl_series f) = {z, H p}" "dom (fl_tasks ?f) = dom (fl_tasks f)" using z(1) V p(1) by auto
    show ?thesis
    proof (rule runsI [OF inv step, where s = z and Z = "{z, H p}" and \<phi>' = "counted H \<phi> z p ?n"])
      show "6 * card (dom (fl_tasks ?f)) + (\<Sum>x \<in> {z, H p} \<inter> dom (fl_series ?f). status_weight (counted H \<phi> z p ?n x)) <
        6 * card (dom (fl_tasks f)) + (\<Sum>x \<in> {z, H p} \<inter> dom (fl_series f). status_weight (\<phi> x))"
        using d wait [OF True] True L(3) z(2) by (simp add: counted_def)
    qed (use core' z V L(3) wait [OF True] True in \<open>simp_all add: counted_def act_of_at\<close>, auto simp: act_of_def split: if_splits)
  next
    case False
    have d: "{z} \<inter> dom (fl_series f) = {z}" "dom (fl_tasks ?f) = dom (fl_tasks f)" using z(1) p(1) by auto
    show ?thesis
    proof (rule runsI [OF inv step, where s = z and Z = "{z}" and \<phi>' = "counted H \<phi> z p ?n"])
      show "6 * card (dom (fl_tasks ?f)) + (\<Sum>x \<in> {z} \<inter> dom (fl_series ?f). status_weight (counted H \<phi> z p ?n x)) <
        6 * card (dom (fl_tasks f)) + (\<Sum>x \<in> {z} \<inter> dom (fl_series f). status_weight (\<phi> x))"
        using d False z(2) by (simp add: counted_def)
    qed (use core' z False in \<open>simp_all add: counted_def\<close>, auto simp: act_of_def)
  qed
qed

section \<open>A task is done\<close>

lemma delete_subs_cut:
  assumes "distinct is" "\<And>i. i \<in> set is \<Longrightarrow> \<exists>z. sub_series P i = Some z \<and> z \<in> dom (fl_series f)" "inj_on (sub_series P) (set is)"
  shows "delete_subs P is f = Some (f\<lparr>fl_series := fl_series f |` (- {z. Some z \<in> sub_series P ` set is})\<rparr>)"
  using assms
proof (induction "is" arbitrary: f)
  case Nil
  then show ?case by (simp add: restrict_map_def)
next
  case (Cons i "is")
  obtain z where z: "sub_series P i = Some z" "z \<in> dom (fl_series f)" using Cons(3) [of i] by auto
  let ?f = "f\<lparr>fl_series := (fl_series f)(z := None)\<rparr>"
  have "delete_subs P is ?f = Some (?f\<lparr>fl_series := fl_series ?f |` (- {z. Some z \<in> sub_series P ` set is})\<rparr>)"
  proof (rule Cons(1))
    show "\<exists>w. sub_series P j = Some w \<and> w \<in> dom (fl_series ?f)" if j: "j \<in> set is" for j
    proof -
      obtain w where w: "sub_series P j = Some w" "w \<in> dom (fl_series f)" using Cons(3) [of j] j by auto
      moreover have "j \<noteq> i" using j Cons(2) by auto
      then have "sub_series P j \<noteq> sub_series P i" using inj_onD [OF Cons(4), of j i] j by auto
      ultimately show ?thesis using z(1) by auto
    qed
  qed (use Cons in \<open>auto simp: inj_on_def\<close>)
  moreover have "(fl_series f)(z := None) |` (- {z. Some z \<in> sub_series P ` set is}) = fl_series f |` (- {z. Some z \<in> sub_series P ` set (i # is)})"
    using z(1) by (auto simp: restrict_map_def fun_eq_iff)
  ultimately show ?case using z by (auto simp: delete_series_def)
qed

lemma restrict_cong_dom: "(\<And>z. z \<in> dom m \<Longrightarrow> z \<in> X \<longleftrightarrow> z \<in> Y) \<Longrightarrow> m |` (- X) = m |` (- Y)"
  by (auto simp: restrict_map_def fun_eq_iff domIff) (metis not_None_eq)+

lemma delete_subs_done:
  assumes core: "flow_core U H R root \<phi> (fl_tasks f) (fl_series f)" and t: "fl_tasks f t = Some T"
  shows "(case st_parallel T of Some P \<Rightarrow> delete_subs P [0..<pw_subtasks_nr P] f | None \<Rightarrow> Some f) = Some (f\<lparr>fl_series := fl_series f |` (- subs_of U t)\<rparr>)"
proof (cases "st_parallel T")
  case None
  have "z \<notin> subs_of U t" if z: "z \<in> dom (fl_series f)" for z
  proof
    assume "z \<in> subs_of U t"
    then obtain i where "U z = Some (t, i)" by (auto simp: subs_of_def)
    then show False using upD [OF flow_coreD(5) [OF core], of z _ t i] z t None by auto
  qed
  then have "fl_series f |` (- subs_of U t) = fl_series f |` (- {})" by (intro restrict_cong_dom) auto
  then show ?thesis using None by (simp add: restrict_map_def)
next
  case (Some P)
  note D = parD [OF flow_coreD(6) [OF core] t Some]
  have place: "\<exists>z. sub_series P i = Some z \<and> z \<in> dom (fl_series f) \<and> U z = Some (t, i)" if "i < pw_subtasks_nr P" for i using D(3) [OF that] by (auto simp: place_ok_def)
  have "delete_subs P [0..<pw_subtasks_nr P] f = Some (f\<lparr>fl_series := fl_series f |` (- {z. Some z \<in> sub_series P ` set [0..<pw_subtasks_nr P]})\<rparr>)"
  proof (rule delete_subs_cut)
    show "\<exists>z. sub_series P i = Some z \<and> z \<in> dom (fl_series f)" if "i \<in> set [0..<pw_subtasks_nr P]" for i using place [of i] that by auto
    show "inj_on (sub_series P) (set [0..<pw_subtasks_nr P])"
    proof (rule inj_onI)
      fix i j assume "i \<in> set [0..<pw_subtasks_nr P]" "j \<in> set [0..<pw_subtasks_nr P]" "sub_series P i = sub_series P j"
      then show "i = j" using place [of i] place [of j] by fastforce
    qed
  qed simp
  moreover have "fl_series f |` (- {z. Some z \<in> sub_series P ` set [0..<pw_subtasks_nr P]}) = fl_series f |` (- subs_of U t)"
  proof (rule restrict_cong_dom)
    fix z assume z: "z \<in> dom (fl_series f)"
    show "z \<in> {z. Some z \<in> sub_series P ` set [0..<pw_subtasks_nr P]} \<longleftrightarrow> z \<in> subs_of U t"
    proof
      assume "z \<in> {z. Some z \<in> sub_series P ` set [0..<pw_subtasks_nr P]}"
      then obtain i where "i < pw_subtasks_nr P" "sub_series P i = Some z" by force
      then show "z \<in> subs_of U t" using place [of i] by (auto simp: subs_of_def)
    next
      assume "z \<in> subs_of U t"
      then obtain i where "U z = Some (t, i)" by (auto simp: subs_of_def)
      then have "i < pw_subtasks_nr P \<and> sub_series P i = Some z" using upD [OF flow_coreD(5) [OF core], of z _ t i] z t Some by auto
      then show "z \<in> {z. Some z \<in> sub_series P ` set [0..<pw_subtasks_nr P]}" by force
    qed
  qed
  ultimately show ?thesis using Some by simp
qed

text \<open>The heap behind \<^verbatim>\<open>done\<close> up to the call of \<^verbatim>\<open>pop\<close>, with the series between two tasks.\<close>

definition finished :: "place \<Rightarrow> addr \<Rightarrow> flow \<Rightarrow> flow" where
  "finished U t f = f\<lparr>fl_series := fl_series f |` (- subs_of U t), fl_tasks := (fl_tasks f)(t := None)\<rparr>"

lemma task_done_pop:
  assumes core: "flow_core U H R root \<phi> (fl_tasks f) (fl_series f)" and s: "fl_series f s = Some S" "\<phi> s = At t P_call"
  shows "task_done t f = pop s (finished U t f)" "flow_core U H R root (\<phi>(s := Gap)) (fl_tasks (finished U t f)) (fl_series (finished U t f))"
    "fl_series (finished U t f) s = Some S" "s \<notin> subs_of U t" "\<And>z. z \<in> subs_of U t \<Longrightarrow> z \<in> dom (fl_series f) \<Longrightarrow> \<phi> z = Ended"
proof -
  note C = flow_coreD [OF core]
  obtain T where T: "fl_tasks f t = Some T" using linksD [OF C(4) s] by blast
  have p: "st_pointer T = Some s" by (rule pointer_at [OF core s T])
  show "task_done t f = pop s (finished U t f)"
    unfolding task_done_eq using T p delete_subs_done [OF core T] by (simp add: delete_task_def finished_def)
  show "flow_core U H R root (\<phi>(s := Gap)) (fl_tasks (finished U t f)) (fl_series (finished U t f))" using core_finish [OF core s T] by (simp add: finished_def)
  show e: "\<phi> z = Ended" if "z \<in> subs_of U t" "z \<in> dom (fl_series f)" for z using called_subs(1) [OF core s] that by auto
  show ns: "s \<notin> subs_of U t" using e [of s] s by auto
  then show "fl_series (finished U t f) s = Some S" using s(1) by (simp add: finished_def restrict_map_def)
qed

lemma write_entry_core:
  assumes core: "flow_core U H R root \<phi> (fl_tasks f) (fl_series f)" and s: "fl_series f s = Some S" "\<phi> s \<noteq> Unstarted" "U s = Some (p, i)"
  shows "\<exists>TS. write_entry (U s) c f = Some (f\<lparr>fl_tasks := TS\<rparr>) \<and> dom TS = dom (fl_tasks f) \<and> flow_core U H R root \<phi> TS (fl_series f)"
proof -
  obtain T P where p: "fl_tasks f p = Some T" "st_parallel T = Some P" "i < pw_subtasks_nr P" "sub_series P i = Some s" using upD [OF flow_coreD(5) [OF core] s(1,3)] by blast
  have "i < length (pw_buf P)" using parD(2) [OF flow_coreD(6) [OF core] p(1,2)] p(3) by (simp add: buf_ok_def)
  then have "write_entry (U s) c f = Some (f\<lparr>fl_tasks := (fl_tasks f)(p \<mapsto> T\<lparr>st_parallel := Some (P\<lparr>pw_buf := (pw_buf P)[i := Some c]\<rparr>)\<rparr>)\<rparr>)"
    using p s(3) by (simp add: write_entry_def wr_def)
  moreover have "dom ((fl_tasks f)(p \<mapsto> T\<lparr>st_parallel := Some (P\<lparr>pw_buf := (pw_buf P)[i := Some c]\<rparr>)\<rparr>)) = dom (fl_tasks f)" using p(1) by auto
  ultimately show ?thesis using core_entry [OF core p s(2), of "Some c"] by blast
qed

lemma weight_done:
  assumes "finite A" "t \<in> A" "A' \<subseteq> A - {t}" "finite D" "s \<in> Z \<inter> D" "0 < w s" "Z \<inter> D' \<subseteq> {s}" "w' s \<le> 6"
  shows "6 * card A' + (\<Sum>z \<in> Z \<inter> D'. w' z) < 6 * card A + (\<Sum>z \<in> Z \<inter> D. w z :: nat)"
proof -
  have "card A' \<le> card (A - {t})" using assms(1,3) by (intro card_mono) auto
  then have "6 * card A' + 6 \<le> 6 * card A" using card_Suc_Diff1 [OF assms(1,2)] by linarith
  moreover have "(\<Sum>z \<in> Z \<inter> D'. w' z) \<le> (\<Sum>z \<in> {s}. w' z)" using assms(7) by (intro sum_mono2) auto
  moreover have "w s \<le> (\<Sum>z \<in> Z \<inter> D. w z)" using assms(4,5) by (intro member_le_sum) auto
  ultimately show ?thesis using assms(6,8) by simp
qed

lemma calling_runs:
  assumes inv: "flow_inv U H R root \<phi> f" "fl_acts f = xs @ Calling t # ys"
  shows "runs U H R root \<phi> f xs (Calling t) ys"
proof -
  have core: "flow_core U H R root \<phi> (fl_tasks f) (fl_series f)" using inv by (simp add: flow_inv_def)
  note C = flow_coreD [OF core]
  obtain s S where s: "fl_series f s = Some S" "\<phi> s = At t P_call" "act_of (U s) (\<phi> s) = Some (Calling t)"
    using act_owner [OF inv(1), of "Calling t"] inv(2) owner_at(4) by fastforce
  obtain T where T: "fl_tasks f t = Some T" "st_parent T = map_option fst (U s)" "st_entry T = U s" using linksD [OF C(4) s(1,2)] by blast
  let ?f = "finished U t f" and ?\<phi> = "\<phi>(s := Gap)"
  note D = task_done_pop [OF core s(1,2)]
  note fin = core_finite [OF core]
  have dom: "dom (fl_series ?f) = dom (fl_series f) - subs_of U t" by (simp add: finished_def Diff_eq)
  have pop: "(\<exists>c S'. pop s ?f = Some (Some c, ?f\<lparr>fl_series := (fl_series ?f)(s \<mapsto> S')\<rparr>) \<and> todo S = c # todo S' \<and> series_inv S' \<and> sw_in_parallel S' = sw_in_parallel S) \<or>
     (\<exists>f' X. pop s ?f = Some (None, f') \<and> series_over U H R root ?\<phi> s ?f f' X)" using pop_gap [OF D(2,3)] by auto
  then show ?thesis
  proof (elim disjE exE conjE)
    fix c S' assume c: "pop s ?f = Some (Some c, ?f\<lparr>fl_series := (fl_series ?f)(s \<mapsto> S')\<rparr>)" "todo S = c # todo S'" "series_inv S'" "sw_in_parallel S' = sw_in_parallel S"
    obtain X where X: "fl_tasks ?f c = Some X" using liveD [OF flow_coreD(2) [OF D(2)] D(3), of c] c(2) by (auto simp: live_def)
    let ?SS = "(fl_series ?f)(s \<mapsto> S')" and ?TS = "(fl_tasks ?f)(c \<mapsto> X\<lparr>st_parent := map_option fst (U s), st_entry := U s\<rparr>)"
    let ?g = "?f\<lparr>fl_series := ?SS, fl_tasks := ?TS\<rparr>"
    have core': "flow_core U H R root (\<phi>(s := At c P_disp)) (fl_tasks ?g) (fl_series ?g)" using core_next [OF D(2,3) _ c(2) X c(3,4)] by simp
    have "\<exists>TS. (if st_parent T \<noteq> None then write_entry (st_entry T) c ?g else Some ?g) = Some (?g\<lparr>fl_tasks := TS\<rparr>) \<and> dom TS = dom (fl_tasks ?g) \<and> flow_core U H R root (\<phi>(s := At c P_disp)) TS ?SS"
    proof (cases "U s")
      case None
      then show ?thesis using core' T(2) by auto
    next
      case (Some pi)
      then show ?thesis using write_entry_core [OF core', of s S' "fst pi" "snd pi" c] T(2,3) by auto
    qed
    then obtain TS where TS: "(if st_parent T \<noteq> None then write_entry (st_entry T) c ?g else Some ?g) = Some (?g\<lparr>fl_tasks := TS\<rparr>)" "dom TS = dom (fl_tasks ?g)" "flow_core U H R root (\<phi>(s := At c P_disp)) TS ?SS" by blast
    have "set_links (st_parent T) (st_entry T) c (?f\<lparr>fl_series := ?SS\<rparr>) = Some ?g" using X T(2,3) by (simp add: set_links_def)
    then have step: "act_step (Calling t) f = Some ([Dispatching c], ?g\<lparr>fl_tasks := TS\<rparr>)"
      using T(1) D(1) c(1) TS(1) by (simp add: after_done_def)
    have few: "dom TS \<subseteq> dom (fl_tasks f) - {t}" unfolding TS(2) using X by (auto simp: finished_def split: if_splits)
    show ?thesis
    proof (rule runsI [OF inv step, where s = s and Z = "insert s (subs_of U t)" and \<phi>' = "\<phi>(s := At c P_disp)"])
      show "6 * card (dom (fl_tasks (?g\<lparr>fl_tasks := TS\<rparr>))) + (\<Sum>z \<in> insert s (subs_of U t) \<inter> dom (fl_series (?g\<lparr>fl_tasks := TS\<rparr>)). status_weight ((\<phi>(s := At c P_disp)) z)) <
        6 * card (dom (fl_tasks f)) + (\<Sum>z \<in> insert s (subs_of U t) \<inter> dom (fl_series f). status_weight (\<phi> z))"
        by (rule weight_done [OF fin(1) _ _ fin(2), of t _ s]) (use few T(1) s dom in auto)
    qed (use TS(3) dom s D(3-5) in \<open>auto simp: act_of_def\<close>)
  next
    fix f' X assume f': "pop s ?f = Some (None, f')" "series_over U H R root ?\<phi> s ?f f' X"
    have few: "dom (fl_tasks f') \<subseteq> dom (fl_tasks f) - {t}" using f'(2) by (auto simp: series_over_def finished_def dest!: subsetD split: if_splits)
    have o: "X \<subseteq> {z. ?\<phi> z = Unstarted}" "dom (fl_series f') = (if U s = None then dom (fl_series ?f) - X - {s} else dom (fl_series ?f) - X)"
      "flow_core U H R root (if U s = None then ?\<phi> else \<phi>(s := Leave)) (fl_tasks f') (fl_series f')" using f'(2) by (auto simp: series_over_def)
    have X: "\<phi> z = Unstarted" "z \<noteq> s" if "z \<in> X" for z using o(1) that by (auto split: if_splits)
    have none: "act_of (U z) (\<phi> z) = None" if "z \<in> subs_of U t \<union> X" "z \<in> dom (fl_series f)" for z using that D(5) [of z] X(1) [of z] by (auto simp: act_of_def)
    show ?thesis
    proof (cases "U s")
      case None
      have step: "act_step (Calling t) f = Some ([], f')" using T None D(1) f'(1) by (simp add: after_done_def)
      show ?thesis
      proof (rule runsI [OF inv step, where s = s and Z = "insert s (subs_of U t \<union> X)" and \<phi>' = "?\<phi>"])
        show "6 * card (dom (fl_tasks f')) + (\<Sum>z \<in> insert s (subs_of U t \<union> X) \<inter> dom (fl_series f'). status_weight (?\<phi> z)) <
          6 * card (dom (fl_tasks f)) + (\<Sum>z \<in> insert s (subs_of U t \<union> X) \<inter> dom (fl_series f). status_weight (\<phi> z))"
          by (rule weight_done [OF fin(1) _ _ fin(2), of t _ s]) (use few T(1) s dom o(2) None in auto)
      qed (use o(2,3) None dom s X(2) none D(4) in auto)
    next
      case (Some pi)
      obtain p i where pi: "U s = Some (p, i)" using Some by (cases pi) auto
      have step: "act_step (Calling t) f = Some ([Leaving p (Some (p, i))], f')" using T pi D(1) f'(1) by (simp add: after_done_def)
      have sd: "s \<in> dom (fl_series f')" using o(2) pi dom s(1) D(4) X(2) by auto
      show ?thesis
      proof (rule runsI [OF inv step, where s = s and Z = "insert s (subs_of U t \<union> X)" and \<phi>' = "\<phi>(s := Leave)"])
        show "6 * card (dom (fl_tasks f')) + (\<Sum>z \<in> insert s (subs_of U t \<union> X) \<inter> dom (fl_series f'). status_weight ((\<phi>(s := Leave)) z)) <
          6 * card (dom (fl_tasks f)) + (\<Sum>z \<in> insert s (subs_of U t \<union> X) \<inter> dom (fl_series f). status_weight (\<phi> z))"
          by (rule weight_done [OF fin(1) _ _ fin(2), of t _ s]) (use few T(1) s dom o(2) pi in auto)
      qed (use o(2,3) pi dom s X(2) sd none D(4) in \<open>auto simp: act_of_def [of _ Leave]\<close>)
    qed
  qed
qed

end
