(* ===== verification/Flow_Theorems.thy ===== *)
theory Flow_Theorems
  imports Flow_Safe
begin

text \<open>
  What the invariant gives for works that are built and started: steps of the user keep it, a work that is ready satisfies it when it is started,
  and when nothing runs any more everything has been deleted.
\<close>

section \<open>Steps of the user\<close>

lemma expand_queue_flags: "expand_queue S = Some S' \<Longrightarrow> sw_in_parallel S' = sw_in_parallel S"
  by (auto simp: expand_queue_def Let_def split: bind_splits)

lemma push_flags: "push_back S t = Some S' \<Longrightarrow> sw_in_parallel S' = sw_in_parallel S" "push_front S t = Some S' \<Longrightarrow> sw_in_parallel S' = sw_in_parallel S"
  by (auto simp: push_back_def push_front_def Let_def split: bind_splits if_splits dest: expand_queue_flags)

lemma push_back_todo:
  assumes "series_inv S"
  shows "\<exists>S'. push_back S u = Some S' \<and> series_inv S' \<and> sw_in_parallel S' = sw_in_parallel S \<and> set (todo S') = insert u (set (todo S)) \<and> length (todo S') = Suc (length (todo S))"
  using push_back_pending [OF assms, of u] push_last(1) [of S u] push_flags(1) [of S u] by (fastforce simp: todo_def)

lemma push_front_todo:
  assumes "series_inv S"
  shows "\<exists>S'. push_front S u = Some S' \<and> series_inv S' \<and> sw_in_parallel S' = sw_in_parallel S \<and> set (todo S') = insert u (set (todo S)) \<and> length (todo S') = Suc (length (todo S))"
  using push_front_pending [OF assms, of u] push_last(2) [of S u] push_flags(2) [of S u] by (fastforce simp: todo_def)

text \<open>The series of the task whose callback runs.\<close>

lemma calling_series:
  assumes inv: "flow_inv U H R root \<phi> f" and t: "Calling t \<in> set (fl_acts f)" "fl_tasks f t = Some T" "st_pointer T = Some s"
  shows "\<exists>S. fl_series f s = Some S \<and> \<phi> s = At t P_call \<and> series_inv S"
proof -
  have core: "flow_core U H R root \<phi> (fl_tasks f) (fl_series f)" using inv by (simp add: flow_inv_def)
  obtain s' S where s: "fl_series f s' = Some S" "\<phi> s' = At t P_call" using act_owner [OF inv t(1)] owner_at(4) by blast
  then show ?thesis using pointer_at [OF core s t(2)] t(3) seriesD(1) [OF flow_coreD(1) [OF core] s(1)] by auto
qed

lemma inv_acts_dom: "inv_acts U \<phi> SS as \<Longrightarrow> dom SS' = dom SS \<Longrightarrow> inv_acts U \<phi> SS' as"
  by (simp add: inv_acts_def)

lemma push_inv:
  assumes inv: "flow_inv U H R root \<phi> f" and s: "fl_series f s = Some S" "\<phi> s = At t ph" and u: "fl_tasks f u = None"
    and S': "series_inv S'" "sw_in_parallel S' = sw_in_parallel S" "set (todo S') = insert u (set (todo S))" "length (todo S') = Suc (length (todo S))"
  shows "flow_inv U H R root \<phi> (f\<lparr>fl_tasks := (fl_tasks f)(u \<mapsto> new_subtask\<lparr>st_pointer := Some s\<rparr>), fl_series := (fl_series f)(s \<mapsto> S')\<rparr>)"
    "flow_weight \<phi> ((fl_tasks f)(u \<mapsto> new_subtask\<lparr>st_pointer := Some s\<rparr>)) ((fl_series f)(s \<mapsto> S')) = flow_weight \<phi> (fl_tasks f) (fl_series f) + 6"
proof -
  have core: "flow_core U H R root \<phi> (fl_tasks f) (fl_series f)" using inv by (simp add: flow_inv_def)
  have d: "dom ((fl_series f)(s \<mapsto> S')) = dom (fl_series f)" using s(1) by auto
  show "flow_inv U H R root \<phi> (f\<lparr>fl_tasks := (fl_tasks f)(u \<mapsto> new_subtask\<lparr>st_pointer := Some s\<rparr>), fl_series := (fl_series f)(s \<mapsto> S')\<rparr>)"
    using core_push [OF core s u _ _ S'(1,2), of "new_subtask\<lparr>st_pointer := Some s\<rparr>"] S'(3,4) inv inv_acts_dom [OF _ d] d unfolding flow_inv_def
    by (simp add: new_subtask_def)
  have "card (insert u (dom (fl_tasks f))) = Suc (card (dom (fl_tasks f)))" using core_finite(1) [OF core] u by (simp add: domIff)
  then show "flow_weight \<phi> ((fl_tasks f)(u \<mapsto> new_subtask\<lparr>st_pointer := Some s\<rparr>)) ((fl_series f)(s \<mapsto> S')) = flow_weight \<phi> (fl_tasks f) (fl_series f) + 6"
    unfolding flow_weight_def d by simp
qed

lemma push_result:
  assumes "fl_series f s = Some S" "push S u = Some S'"
    and "F = do { S \<leftarrow> fl_series f s; f \<leftarrow> set_pointer u s (f\<lparr>fl_tasks := (fl_tasks f)(u \<mapsto> new_subtask)\<rparr>); S \<leftarrow> push S u; Some (f\<lparr>fl_series := (fl_series f)(s \<mapsto> S)\<rparr>) }"
  shows "F = Some (f\<lparr>fl_tasks := (fl_tasks f)(u \<mapsto> new_subtask\<lparr>st_pointer := Some s\<rparr>), fl_series := (fl_series f)(s \<mapsto> S')\<rparr>)"
  using assms by (simp add: set_pointer_def)

lemma user_push_inv:
  assumes inv: "flow_inv U H R root \<phi> f" and "user_push f f'"
  shows "flow_inv U H R root \<phi> f' \<and> flow_weight \<phi> (fl_tasks f') (fl_series f') = flow_weight \<phi> (fl_tasks f) (fl_series f) + 6"
  using assms(2)
proof (cases rule: user_push.cases)
  case (user_push_back t T s u)
  obtain S where S: "fl_series f s = Some S" "\<phi> s = At t P_call" "series_inv S" using calling_series [OF inv user_push_back(1-3)] by blast
  obtain S' where S': "push_back S u = Some S'" "series_inv S'" "sw_in_parallel S' = sw_in_parallel S" "set (todo S') = insert u (set (todo S))" "length (todo S') = Suc (length (todo S))"
    using push_back_todo [OF S(3)] by blast
  have "f' = f\<lparr>fl_tasks := (fl_tasks f)(u \<mapsto> new_subtask\<lparr>st_pointer := Some s\<rparr>), fl_series := (fl_series f)(s \<mapsto> S')\<rparr>"
    using user_push_back(5) push_result [where push = push_back, OF S(1) S'(1) refl] by (simp add: series_push_back_def)
  then show ?thesis using push_inv [OF inv S(1,2) user_push_back(4) S'(2-)] by simp
next
  case (user_push_front t T s u)
  obtain S where S: "fl_series f s = Some S" "\<phi> s = At t P_call" "series_inv S" using calling_series [OF inv user_push_front(1-3)] by blast
  obtain S' where S': "push_front S u = Some S'" "series_inv S'" "sw_in_parallel S' = sw_in_parallel S" "set (todo S') = insert u (set (todo S))" "length (todo S') = Suc (length (todo S))"
    using push_front_todo [OF S(3)] by blast
  have "f' = f\<lparr>fl_tasks := (fl_tasks f)(u \<mapsto> new_subtask\<lparr>st_pointer := Some s\<rparr>), fl_series := (fl_series f)(s \<mapsto> S')\<rparr>"
    using user_push_front(5) push_result [where push = push_front, OF S(1) S'(1) refl] by (simp add: series_push_front_def)
  then show ?thesis using push_inv [OF inv S(1,2) user_push_front(4) S'(2-)] by simp
qed

lemma core_touch:
  assumes core: "flow_core U H R root \<phi> TS SS" and s: "SS s = Some S" and S': "series_inv S'" "sw_in_parallel S' = sw_in_parallel S" "sw_first S' = sw_first S" "todo S' = todo S"
  shows "flow_core U H R root \<phi> TS (SS(s \<mapsto> S'))"
proof -
  note C = flow_coreD [OF core]
  have lv: "live (\<phi> s) S' = live (\<phi> s) S" using S'(3,4) by (cases "\<phi> s") (simp_all add: live_def current_def)
  have "flow_core U H R root (\<phi>(s := \<phi> s)) TS ((SS |` (- {}))(s \<mapsto> S'))"
  proof (rule core_update [OF core s])
    show "x \<in> set (live (\<phi> s) S') \<longleftrightarrow> (\<exists>T. TS x = Some T \<and> st_pointer T = Some s)" for x using core_own [OF core s] lv by simp
    show "z \<in> {} \<longleftrightarrow> TS p = None" if "z \<in> dom SS" "U z = Some (p, i)" for z p i using that upD [OF C(5), of z _ p i] by auto
    show "\<exists>T. TS c = Some T \<and> st_parent T = map_option fst (U s) \<and> st_entry T = U s \<and> phase_fits ph T" if "\<phi> s = At c ph" for c ph using linksD [OF C(4) s that] .
    show "stage H (\<phi>(s := \<phi> s)) p = stage H \<phi> p" for p by simp
  qed (use S' seriesD(3,4) [OF C(1) s] lv in auto)
  then show ?thesis unfolding restrict_none by simp
qed

lemma user_cancel_inv:
  assumes inv: "flow_inv U H R root \<phi> f" and "user_cancel f f'"
  shows "flow_inv U H R root \<phi> f' \<and> flow_weight \<phi> (fl_tasks f') (fl_series f') = flow_weight \<phi> (fl_tasks f) (fl_series f)"
  using assms(2)
proof (cases rule: user_cancel.cases)
  case (cancel t T s)
  have core: "flow_core U H R root \<phi> (fl_tasks f) (fl_series f)" using inv by (simp add: flow_inv_def)
  obtain S where S: "fl_series f s = Some S" "series_inv S" using calling_series [OF inv cancel(1-3)] by blast
  have f': "f' = f\<lparr>fl_series := (fl_series f)(s \<mapsto> S\<lparr>sw_canceled := True\<rparr>)\<rparr>" using cancel(4) S(1) by (simp add: series_cancel_def)
  have "series_inv (S\<lparr>sw_canceled := True\<rparr>)" "todo (S\<lparr>sw_canceled := True\<rparr>) = todo S"
    using S(2) by (simp_all add: todo_def pending_def ring_slots_def ring_len_def series_inv_def ring_shape_def)
  then have "flow_core U H R root \<phi> (fl_tasks f') (fl_series f')" using core_touch [OF core S(1), of "S\<lparr>sw_canceled := True\<rparr>"] f' by simp
  moreover have d: "dom (fl_series f') = dom (fl_series f)" using S(1) f' by auto
  ultimately show ?thesis using inv inv_acts_dom [OF _ d] unfolding flow_inv_def flow_weight_def d by (simp add: f')
qed

lemma act_flow_inv:
  assumes inv: "flow_inv U H R root \<phi> f" and a: "fl_acts f = xs @ a # ys"
  shows "runs U H R root \<phi> f xs a ys"
proof (cases a)
  case (Dispatching t)
  then show ?thesis using dispatching_runs [OF inv] a by simp
next
  case (Started t)
  then show ?thesis using started_runs [OF inv] a by simp
next
  case (Finishing t)
  then show ?thesis using finishing_runs [OF inv] a by simp
next
  case (Calling t)
  then show ?thesis using calling_runs [OF inv] a by simp
next
  case (Looping p i n)
  then show ?thesis using looping_runs [OF inv] a by simp
next
  case (Leaving p e)
  then show ?thesis using leaving_runs [OF inv] a by simp
qed

lemma flow_run_inv:
  assumes "flow_run f0 n k f" "flow_inv U H R root \<phi>0 f0"
  shows "\<exists>\<phi>. flow_inv U H R root \<phi> f \<and> flow_weight \<phi> (fl_tasks f) (fl_series f) + n \<le> flow_weight \<phi>0 (fl_tasks f0) (fl_series f0) + 6 * k"
  using assms
proof (induction rule: flow_run.induct)
  case start
  then show ?case by auto
next
  case (act n k f f')
  then obtain \<phi> where \<phi>: "flow_inv U H R root \<phi> f" "flow_weight \<phi> (fl_tasks f) (fl_series f) + n \<le> flow_weight \<phi>0 (fl_tasks f0) (fl_series f0) + 6 * k" by blast
  obtain xs a ys new g where g: "fl_acts f = xs @ a # ys" "act_step a f = Some (new, g)" "f' = g\<lparr>fl_acts := xs @ new @ ys\<rparr>" using act(2) by (elim act_flowE) blast
  obtain \<phi>' where \<phi>': "flow_inv U H R root \<phi>' f'" "flow_weight \<phi>' (fl_tasks g) (fl_series g) < flow_weight \<phi> (fl_tasks f) (fl_series f)"
    using act_flow_inv [OF \<phi>(1) g(1)] g(2,3) unfolding runs_def by auto
  have "fl_tasks f' = fl_tasks g" "fl_series f' = fl_series g" using g(3) by simp_all
  then show ?case using \<phi>(2) \<phi>' by (intro exI [of _ \<phi>']) simp
next
  case (push n k f f')
  then show ?case using user_push_inv [of U H R root _ f f'] by fastforce
next
  case (cancel n k f f')
  then show ?case using user_cancel_inv [of U H R root _ f f'] by fastforce
qed

section \<open>Works that are ready to start\<close>

definition ready_series :: "place \<Rightarrow> addr \<Rightarrow> flow \<Rightarrow> bool" where
  "ready_series U root f \<longleftrightarrow> (\<forall>z Z. fl_series f z = Some Z \<longrightarrow> series_inv Z \<and> owns (fl_tasks f) z (sw_first Z # todo Z) \<and>
     (sw_in_parallel Z \<longleftrightarrow> z \<noteq> root) \<and> (U z = None \<longleftrightarrow> z = root))"

definition ready_tasks :: "place \<Rightarrow> (addr \<Rightarrow> addr) \<Rightarrow> flow \<Rightarrow> bool" where
  "ready_tasks U H f \<longleftrightarrow> (\<forall>t T. fl_tasks f t = Some T \<longrightarrow> st_parent T = None \<and> st_entry T = None \<and> (\<exists>z \<in> dom (fl_series f). st_pointer T = Some z) \<and>
     (\<forall>P. st_parallel T = Some P \<longrightarrow> st_pointer T = Some (H t) \<and> buf_ok P \<and>
        (\<forall>i < pw_subtasks_nr P. \<exists>z Z. sub_series P i = Some z \<and> fl_series f z = Some Z \<and> U z = Some (t, i) \<and> pw_buf P ! i = Some (sw_first Z))))"

text \<open>
  A work that may be started: the series \<open>root\<close> and all that is inside it. \<open>U\<close> says where the other series are, \<open>H\<close> in which series a parallel
  work is; by \<open>R\<close> no series is inside itself.
\<close>

definition ready :: "place \<Rightarrow> (addr \<Rightarrow> addr) \<Rightarrow> (addr \<Rightarrow> nat) \<Rightarrow> addr \<Rightarrow> flow \<Rightarrow> bool" where
  "ready U H R root f \<longleftrightarrow> fl_acts f = [] \<and> finite (dom (fl_series f)) \<and> root \<in> dom (fl_series f) \<and> ready_series U root f \<and> ready_tasks U H f \<and>
     inv_up U H R (fl_tasks f) (fl_series f)"

lemma readyD:
  assumes "ready U H R root f"
  shows "fl_series f z = Some Z \<Longrightarrow> series_inv Z \<and> owns (fl_tasks f) z (sw_first Z # todo Z) \<and> (sw_in_parallel Z \<longleftrightarrow> z \<noteq> root) \<and> (U z = None \<longleftrightarrow> z = root)"
    "fl_tasks f t = Some T \<Longrightarrow> st_parent T = None \<and> st_entry T = None \<and> (\<exists>z \<in> dom (fl_series f). st_pointer T = Some z)"
    "fl_tasks f t = Some T \<Longrightarrow> st_parallel T = Some P \<Longrightarrow> st_pointer T = Some (H t) \<and> buf_ok P"
    "fl_tasks f t = Some T \<Longrightarrow> st_parallel T = Some P \<Longrightarrow> i < pw_subtasks_nr P \<Longrightarrow>
       \<exists>z Z. sub_series P i = Some z \<and> fl_series f z = Some Z \<and> U z = Some (t, i) \<and> pw_buf P ! i = Some (sw_first Z)"
    "inv_up U H R (fl_tasks f) (fl_series f)" "finite (dom (fl_series f))" "root \<in> dom (fl_series f)" "fl_acts f = []"
proof -
  have r: "ready_series U root f" "ready_tasks U H f" "inv_up U H R (fl_tasks f) (fl_series f)" "finite (dom (fl_series f))" "root \<in> dom (fl_series f)" "fl_acts f = []"
    using assms by (simp_all add: ready_def)
  show "fl_series f z = Some Z \<Longrightarrow> series_inv Z \<and> owns (fl_tasks f) z (sw_first Z # todo Z) \<and> (sw_in_parallel Z \<longleftrightarrow> z \<noteq> root) \<and> (U z = None \<longleftrightarrow> z = root)"
    using r(1) [unfolded ready_series_def, rule_format, of z Z] .
  show "fl_tasks f t = Some T \<Longrightarrow> st_parent T = None \<and> st_entry T = None \<and> (\<exists>z \<in> dom (fl_series f). st_pointer T = Some z)"
    "fl_tasks f t = Some T \<Longrightarrow> st_parallel T = Some P \<Longrightarrow> st_pointer T = Some (H t) \<and> buf_ok P"
    "fl_tasks f t = Some T \<Longrightarrow> st_parallel T = Some P \<Longrightarrow> i < pw_subtasks_nr P \<Longrightarrow>
       \<exists>z Z. sub_series P i = Some z \<and> fl_series f z = Some Z \<and> U z = Some (t, i) \<and> pw_buf P ! i = Some (sw_first Z)"
    using r(2) unfolding ready_tasks_def by blast+
qed (use assms in \<open>simp_all add: ready_def\<close>)

definition started_statuses :: "addr \<Rightarrow> addr \<Rightarrow> statuses" where
  "started_statuses root t z = (if z = root then At t P_disp else Unstarted)"

lemma ready_core:
  assumes r: "ready U H R root f" and S: "fl_series f root = Some S"
  shows "flow_core U H R root (started_statuses root (sw_first S)) (fl_tasks f) (fl_series f)"
proof -
  let ?\<phi> = "started_statuses root (sw_first S)"
  note D = readyD [OF r]
  have lv: "live (?\<phi> z) Z = sw_first Z # todo Z" if "fl_series f z = Some Z" for z Z using that S by (auto simp: live_def current_def started_statuses_def)
  show ?thesis
  proof (rule flow_coreI)
    show "inv_series U ?\<phi> (fl_series f)" unfolding inv_series_def
    proof (intro allI impI)
      fix z Z assume z: "fl_series f z = Some Z"
      show "series_inv Z \<and> (sw_in_parallel Z \<longleftrightarrow> U z \<noteq> None) \<and> distinct (live (?\<phi> z) Z) \<and> (?\<phi> z \<in> {Leave, Ended} \<longrightarrow> todo Z = [] \<and> U z \<noteq> None)"
        using D(1) [OF z] unfolding lv [OF z] by (auto simp: owns_def started_statuses_def)
    qed
    show "inv_live ?\<phi> (fl_tasks f) (fl_series f)" unfolding inv_live_def
    proof (intro allI impI)
      fix z Z t assume z: "fl_series f z = Some Z" "t \<in> set (live (?\<phi> z) Z)"
      then show "\<exists>T. fl_tasks f t = Some T \<and> st_pointer T = Some z" using D(1) [OF z(1)] ownsD(1) [of "fl_tasks f" z "sw_first Z # todo Z" t] lv [OF z(1)] by simp
    qed
    show "inv_cover ?\<phi> (fl_tasks f) (fl_series f)" unfolding inv_cover_def
    proof (intro allI impI)
      fix t T assume t: "fl_tasks f t = Some T"
      then obtain z Z where z: "st_pointer T = Some z" "fl_series f z = Some Z" using D(2) by blast
      then have "t \<in> set (sw_first Z # todo Z)" using D(1) [OF z(2)] ownsD(1) t by blast
      then show "\<exists>s S. st_pointer T = Some s \<and> fl_series f s = Some S \<and> t \<in> set (live (?\<phi> s) S)" using z lv [OF z(2)] by auto
    qed
    show "inv_links U ?\<phi> (fl_tasks f) (fl_series f)" unfolding inv_links_def
    proof (intro allI impI)
      fix z Z t ph assume z: "fl_series f z = Some Z" "?\<phi> z = At t ph"
      then have z': "z = root" "t = sw_first S" "ph = P_disp" by (auto simp: started_statuses_def split: if_splits)
      then obtain T where T: "fl_tasks f t = Some T" using D(1) [OF z(1)] ownsD(1) [of "fl_tasks f" z _ t] z(1) S by fastforce
      moreover have "U z = None" using D(1) [OF z(1)] z' by simp
      ultimately show "\<exists>T. fl_tasks f t = Some T \<and> st_parent T = map_option fst (U z) \<and> st_entry T = U z \<and> phase_fits ph T"
        using D(2) [OF T] z' by (auto simp: phase_fits_def)
    qed
    show "inv_par U H ?\<phi> (fl_tasks f) (fl_series f)" unfolding inv_par_def
    proof (intro allI impI)
      fix p T P assume p: "fl_tasks f p = Some T" "st_parallel T = Some P"
      have st: "stage H ?\<phi> p = P_disp" by (auto simp: stage_def started_statuses_def)
      have "place_ok U ?\<phi> (fl_series f) p P P_disp i" if i: "i < pw_subtasks_nr P" for i
      proof -
        obtain z Z where z: "sub_series P i = Some z" "fl_series f z = Some Z" "U z = Some (p, i)" "pw_buf P ! i = Some (sw_first Z)" using D(4) [OF p i] by blast
        have "z \<noteq> root" using D(1) [OF z(2)] z(3) by auto
        then show ?thesis using z unfolding place_ok_def by (intro exI [of _ z] exI [of _ Z]) (simp add: started_statuses_def sub_ok_def)
      qed
      then show "st_pointer T = Some (H p) \<and> buf_ok P \<and> (\<forall>i < pw_subtasks_nr P. place_ok U ?\<phi> (fl_series f) p P (stage H ?\<phi> p) i) \<and> nleft_ok (stage H ?\<phi> p) ?\<phi> P"
        using D(3) [OF p] st by (auto simp: nleft_ok_def)
    qed
    show "inv_root U root ?\<phi> (fl_series f)" using D(1,6) by (auto simp: inv_root_def started_statuses_def)
  qed (rule D(5))
qed

lemma ready_start:
  assumes r: "ready U H R root f" and f: "series_start root f = Some f'"
  shows "\<exists>\<phi>. flow_inv U H R root \<phi> f' \<and> flow_weight \<phi> (fl_tasks f') (fl_series f') \<le> 6 * card (dom (fl_tasks f)) + 9 * card (dom (fl_series f))"
proof -
  obtain S where S: "fl_series f root = Some S" using readyD(7) [OF r] by blast
  let ?\<phi> = "started_statuses root (sw_first S)"
  note D = readyD [OF r]
  have f': "f' = f\<lparr>fl_acts := [Dispatching (sw_first S)]\<rparr>" using f S D(1) [OF S] D(8) by (simp add: series_start_def)
  have "{a. \<exists>s \<in> dom (fl_series f). act_of (U s) (?\<phi> s) = Some a} = {Dispatching (sw_first S)}"
    using S by (auto simp: act_of_def started_statuses_def split: if_splits)
  then have "flow_inv U H R root ?\<phi> f'" using ready_core [OF r S] unfolding flow_inv_def inv_acts_def f' by (simp add: started_statuses_def)
  moreover have "(\<Sum>s \<in> dom (fl_series f). status_weight (?\<phi> s)) \<le> (\<Sum>s \<in> dom (fl_series f). 9)" by (rule sum_mono) (simp add: started_statuses_def)
  then have "flow_weight ?\<phi> (fl_tasks f') (fl_series f') \<le> 6 * card (dom (fl_tasks f)) + 9 * card (dom (fl_series f))" unfolding flow_weight_def f' by simp
  ultimately show ?thesis by blast
qed


lemma ready_run:
  assumes "ready U H R root f0" "series_start root f0 = Some f1" "flow_run f1 n k f"
  shows "\<exists>\<phi>. flow_inv U H R root \<phi> f \<and> flow_weight \<phi> (fl_tasks f) (fl_series f) + n \<le> 6 * card (dom (fl_tasks f0)) + 9 * card (dom (fl_series f0)) + 6 * k"
  using ready_start [OF assms(1,2)] flow_run_inv [OF assms(3)] by (meson add_mono_thms_linordered_semiring(3) order_trans)

section \<open>When nothing runs any more\<close>

lemma quiet_status:
  assumes inv: "flow_inv U H R root \<phi> f" "fl_acts f = []" and s: "fl_series f s = Some S"
  shows "\<phi> s \<in> {Unstarted, Ended} \<or> (\<exists>p. \<phi> s = At p P_wait)"
proof -
  have "\<forall>x. \<forall>s \<in> dom (fl_series f). act_of (U s) (\<phi> s) \<noteq> Some x" using inv by (simp add: flow_inv_def inv_acts_def)
  then have "act_of (U s) (\<phi> s) = None" using s by (cases "act_of (U s) (\<phi> s)") auto
  moreover have "\<phi> s \<noteq> Gap" "\<phi> s = Leave \<Longrightarrow> U s \<noteq> None" using inv(1) s seriesD(4) [OF flow_coreD(1), of U H R root \<phi> "fl_tasks f" "fl_series f" s S] by (auto simp: flow_inv_def)
  ultimately show ?thesis by (cases "\<phi> s") (auto simp: act_of_def split: phase.splits option.splits)
qed

lemma no_wait:
  assumes inv: "flow_inv U H R root \<phi> f" "fl_acts f = []" and s: "fl_series f s = Some S"
  shows "\<phi> s \<noteq> At p P_wait"
  using s
proof (induction "R s" arbitrary: s S p rule: less_induct)
  case less
  have core: "flow_core U H R root \<phi> (fl_tasks f) (fl_series f)" using inv by (simp add: flow_inv_def)
  note C = flow_coreD [OF core]
  show ?case
  proof
    assume w: "\<phi> s = At p P_wait"
    obtain T P where p: "fl_tasks f p = Some T" "st_parallel T = Some P" using linksD [OF C(4) less(2) w] by (auto simp: phase_fits_def split: if_splits)
    note D = parD [OF C(6) p]
    have h: "H p = s" using D(1) pointer_at [OF core less(2) w p(1)] by simp
    then have st: "stage H \<phi> p = P_wait" using w by (simp add: stage_def)
    then have "0 < left_count \<phi> P" using D(4) by (simp add: nleft_ok_def)
    then obtain i where i: "i < pw_subtasks_nr P" "\<phi> (the (sub_series P i)) \<noteq> Ended" unfolding left_count_def by (metis (mono_tags, lifting) Collect_empty_eq card.empty less_numeral_extra(3))
    obtain z Z where z: "sub_series P i = Some z" "fl_series f z = Some Z" "U z = Some (p, i)" "\<phi> z \<noteq> Unstarted" using D(3) [OF i(1)] st by (auto simp: place_ok_def sub_ok_def)
    then obtain q where "\<phi> z = At q P_wait" using quiet_status [OF inv z(2)] i(2) by auto
    then show False using less(1) [OF _ z(2)] upD [OF C(5) z(2,3)] h by blast
  qed
qed

lemma quiet_empty:
  assumes inv: "flow_inv U H R root \<phi> f" "fl_acts f = []"
  shows "fl_tasks f = Map.empty" "fl_series f = Map.empty"
proof -
  have core: "flow_core U H R root \<phi> (fl_tasks f) (fl_series f)" using inv by (simp add: flow_inv_def)
  note C = flow_coreD [OF core]
  have up: "\<exists>z Z. fl_series f z = Some Z \<and> R s < R z" if s: "fl_series f s = Some S" for s S
  proof -
    have st: "\<phi> s \<in> {Unstarted, Ended}" using quiet_status [OF inv s] no_wait [OF inv s] by blast
    have "U s \<noteq> None" using st seriesD(4) [OF C(1) s] C(7) s by (auto simp: inv_root_def)
    then obtain p i where u: "U s = Some (p, i)" by auto
    then obtain T P where p: "R s < R (H p)" "fl_tasks f p = Some T" "st_parallel T = Some P" using upD [OF C(5) s u] by blast
    then show ?thesis using coverD [OF C(3) p(2)] parD(1) [OF C(6) p(2,3)] by fastforce
  qed
  have "dom (fl_series f) = {}"
  proof (rule ccontr)
    assume ne: "dom (fl_series f) \<noteq> {}"
    let ?m = "Max (R ` dom (fl_series f))"
    have fin: "finite (R ` dom (fl_series f))" using core_finite(2) [OF core] by simp
    then have "?m \<in> R ` dom (fl_series f)" using ne by (intro Max_in) auto
    then obtain s where s: "s \<in> dom (fl_series f)" "R s = ?m" by (metis imageE)
    then obtain z where z: "z \<in> dom (fl_series f)" "R s < R z" using up by blast
    have "R z \<le> ?m" using fin z(1) by (intro Max_ge) auto
    then show False using s(2) z(2) by simp
  qed
  then show "fl_series f = Map.empty" by simp
  then show "fl_tasks f = Map.empty" using coverD [OF C(3)] by fastforce
qed

section \<open>Dismissing a work that was not started\<close>

lemma ready_idle:
  assumes r: "ready U H R root f"
  shows "idle U H R UNIV n (fl_tasks f) (fl_series f)"
proof -
  note D = readyD [OF r]
  have "idle_up U H R (fl_tasks f) (fl_series f)" unfolding idle_up_def
  proof (intro allI impI)
    fix w W p i assume "fl_series f w = Some W" "U w = Some (p, i)"
    from upD [OF D(5) this] show "R w < R (H p) \<and>
     (\<exists>T P. fl_tasks f p = Some T \<and> st_parallel T = Some P \<and> st_pointer T = Some (H p) \<and> i < pw_subtasks_nr P \<and> sub_series P i = Some w)" using D(3) by blast
  qed
  moreover have "idle_series R UNIV n (fl_tasks f) (fl_series f)" unfolding idle_series_def using D(1) by simp
  moreover have "idle_par U H R UNIV n (fl_tasks f) (fl_series f)" unfolding idle_par_def places_def
  proof (intro allI impI conjI)
    fix p T P z assume p: "fl_tasks f p = Some T" "st_parallel T = Some P" "st_pointer T = Some z"
    show "H p = z" using D(3) [OF p(1,2)] p(3) by simp
    fix i assume "i < pw_subtasks_nr P"
    then show "\<exists>w. sub_series P i = Some w \<and> U w = Some (p, i) \<and> w \<in> dom (fl_series f) \<and> w \<in> UNIV" using D(4) [OF p(1,2)] by blast
  qed
  ultimately show ?thesis by (simp add: idle_def)
qed

lemma ready_dismiss:
  assumes r: "ready U H R root f"
  shows "\<exists>es. series_dismiss root f = Some (f\<lparr>fl_tasks := Map.empty, fl_series := Map.empty, fl_log := fl_log f @ es\<rparr>) \<and> set es \<subseteq> (\<lambda>z. Series_end z None) ` dom (fl_series f)"
proof -
  note D = readyD [OF r]
  obtain S where S: "fl_series f root = Some S" using D(7) by blast
  obtain X es where X: "\<And>ds. dismiss (D_series root # ds) f = dismiss ds (cut_flow X {} es f)" "closed_cut U H (fl_series f) {root} X {}" "root \<in> X" "quiet_ends X es"
    using dismiss_series [OF ready_idle [OF r], of root "Suc (R root)"] D(7) unfolding series_goes_def by blast
  note C = closed_cutD [OF X(2)]
  have all: "z \<in> X" if "fl_series f z = Some Z" for z Z
    using that
  proof (induction "Max (R ` dom (fl_series f)) - R z" arbitrary: z Z rule: less_induct)
    case less
    show ?case
    proof (cases "U z")
      case None
      then show ?thesis using D(1) [OF less(2)] X(3) by simp
    next
      case (Some pi)
      obtain p i where u: "U z = Some (p, i)" using Some by (cases pi) auto
      obtain T P where p: "R z < R (H p)" "fl_tasks f p = Some T" "st_parallel T = Some P" using upD [OF D(5) less(2) u] by blast
      obtain V where V: "fl_series f (H p) = Some V" using D(2) [OF p(2)] D(3) [OF p(2,3)] by auto
      have "R (H p) \<le> Max (R ` dom (fl_series f))" using V D(6) by (intro Max_ge) auto
      then have "H p \<in> X" using less(1) [OF _ V] p(1) by simp
      then show ?thesis using C(2) [OF less(2) u] by blast
    qed
  qed
  have "fl_series f |` (- X) = Map.empty" using all by (auto simp: restrict_map_def fun_eq_iff) (meson not_None_eq)
  moreover have "cut_tasks X {} (fl_tasks f) x = None" for x
    using D(2) [of x] all by (cases "fl_tasks f x") (force simp: cut_tasks_def)+
  then have "cut_tasks X {} (fl_tasks f) = Map.empty" by (simp add: fun_eq_iff)
  ultimately have "series_dismiss root f = Some (f\<lparr>fl_tasks := Map.empty, fl_series := Map.empty, fl_log := fl_log f @ es\<rparr>)"
    using S D(1) [OF S] X(1) [of "[]"] by (simp add: series_dismiss_def dismiss.simps [of "[]"] cut_flow_def)
  then show ?thesis using X(4) C(1) unfolding quiet_ends_def by (meson image_mono subset_trans)
qed


section \<open>Concrete works\<close>

text \<open>Runs in which the activities take turns as told.\<close>

fun run_acts :: "nat list \<Rightarrow> flow \<Rightarrow> flow option" where
  "run_acts [] f = Some f"
| "run_acts (i # is) f =
     (if i < length (fl_acts f)
      then do { (new, g) \<leftarrow> act_step (fl_acts f ! i) f; run_acts is (g\<lparr>fl_acts := take i (fl_acts f) @ new @ drop (Suc i) (fl_acts f)\<rparr>) }
      else None)"

lemma run_acts_run: "run_acts is f = Some f' \<Longrightarrow> flow_run f0 n k f \<Longrightarrow> flow_run f0 (n + length is) k f'"
proof (induction "is" arbitrary: n f)
  case (Cons i "is")
  obtain new g where g: "i < length (fl_acts f)" "act_step (fl_acts f ! i) f = Some (new, g)" "run_acts is (g\<lparr>fl_acts := take i (fl_acts f) @ new @ drop (Suc i) (fl_acts f)\<rparr>) = Some f'"
    using Cons(2) by (auto split: if_splits bind_splits)
  have "act_flow f (g\<lparr>fl_acts := take i (fl_acts f) @ new @ drop (Suc i) (fl_acts f)\<rparr>)"
    using g(2) by (intro act_flow.act [OF id_take_nth_drop [OF g(1)]])
  then show ?case using Cons(1) [OF g(3) flow_run.act [OF Cons(3)]] by simp
qed simp

text \<open>Two tasks in parallel, followed by a third one: the work is built with the functions of the code.\<close>

definition empty_flow :: flow where
  "empty_flow = \<lparr>fl_tasks = [1 \<mapsto> new_subtask, 2 \<mapsto> new_subtask, 4 \<mapsto> new_subtask], fl_series = Map.empty, fl_log = [], fl_acts = []\<rparr>"

definition demo_build :: "flow option" where
  "demo_build =
     do { f \<leftarrow> create_series_work 10 1 None empty_flow;
          f \<leftarrow> create_series_work 11 2 None f;
          f \<leftarrow> create_parallel_work 3 [10, 11] (Some 7) 0 f;
          f \<leftarrow> create_series_work 20 3 (Some 8) f;
          series_push_back 20 4 f }"

definition demo_flow :: flow where
  "demo_flow = the demo_build"

definition demo_U :: place where
  "demo_U = [10 \<mapsto> (3, 0), 11 \<mapsto> (3, 1)]"

definition demo_R :: "addr \<Rightarrow> nat" where
  "demo_R z = (if z = 20 then 1 else 0)"

definition demo_parallel :: parallel_work where
  "demo_parallel = \<lparr>pw_callback = Some 7, pw_context = None, pw_buf = [Some 1, Some 2, Some 10, Some 11], pw_subtasks_nr = 2, pw_nleft = 0, pw_buf_size = 2\<rparr>"

definition demo_root :: series_work where
  "demo_root = (new_series_work 3 (Some 8))\<lparr>sw_queue := [Some 4, None, None, None], sw_back := 1\<rparr>"

lemma demo_value:
  "demo_build = Some \<lparr>fl_tasks = [1 \<mapsto> new_subtask\<lparr>st_pointer := Some 10\<rparr>, 2 \<mapsto> new_subtask\<lparr>st_pointer := Some 11\<rparr>, 4 \<mapsto> new_subtask\<lparr>st_pointer := Some 20\<rparr>,
      3 \<mapsto> new_subtask\<lparr>st_pointer := Some 20, st_parallel := Some demo_parallel\<rparr>],
    fl_series = [10 \<mapsto> (new_series_work 1 None)\<lparr>sw_in_parallel := True\<rparr>, 11 \<mapsto> (new_series_work 2 None)\<lparr>sw_in_parallel := True\<rparr>, 20 \<mapsto> demo_root],
    fl_log = [], fl_acts = []\<rparr>"
  by (simp add: demo_build_def create_series_work_def create_parallel_work_def series_push_back_def set_pointer_def empty_flow_def new_series_work_def wr_def
      push_back_def demo_parallel_def demo_root_def numeral_eq_Suc fun_eq_iff)


lemma demo_fields:
  "fl_tasks demo_flow = [1 \<mapsto> new_subtask\<lparr>st_pointer := Some 10\<rparr>, 2 \<mapsto> new_subtask\<lparr>st_pointer := Some 11\<rparr>, 4 \<mapsto> new_subtask\<lparr>st_pointer := Some 20\<rparr>,
      3 \<mapsto> new_subtask\<lparr>st_pointer := Some 20, st_parallel := Some demo_parallel\<rparr>]"
  "fl_series demo_flow = [10 \<mapsto> (new_series_work 1 None)\<lparr>sw_in_parallel := True\<rparr>, 11 \<mapsto> (new_series_work 2 None)\<lparr>sw_in_parallel := True\<rparr>, 20 \<mapsto> demo_root]"
  "fl_log demo_flow = []" "fl_acts demo_flow = []"
  by (simp_all add: demo_flow_def demo_value)

lemma demo_todo: "todo ((new_series_work t cb)\<lparr>sw_in_parallel := b\<rparr>) = []" "series_inv ((new_series_work t cb)\<lparr>sw_in_parallel := b\<rparr>)" "todo demo_root = [4]" "series_inv demo_root"
  "sw_first (new_series_work t cb) = t" "sw_first demo_root = 3" "\<not> sw_in_parallel demo_root"
  by (simp_all add: todo_def pending_def ring_slots_def ring_len_def ring_slice_def series_inv_def ring_shape_def new_series_work_def demo_root_def)

lemma demo_subs: "sub_series demo_parallel 0 = Some 10" "sub_series demo_parallel (Suc 0) = Some 11"
  by (simp_all add: sub_series_def demo_parallel_def rd_def)

lemma demo_places:
  assumes "i < 2"
  shows "\<exists>z Z. sub_series demo_parallel i = Some z \<and> fl_series demo_flow z = Some Z \<and> demo_U z = Some (3, i) \<and> pw_buf demo_parallel ! i = Some (sw_first Z)"
proof -
  consider "i = 0" | "i = Suc 0" using assms by linarith
  then show ?thesis
  proof cases
    case 1
    then show ?thesis by (intro exI [of _ 10]) (auto simp: demo_subs demo_fields demo_U_def demo_todo, simp add: demo_parallel_def)
  next
    case 2
    then show ?thesis by (intro exI [of _ 11]) (auto simp: demo_subs demo_fields demo_U_def demo_todo, simp add: demo_parallel_def)
  qed
qed

lemma demo_buf: "buf_ok demo_parallel" "pw_subtasks_nr demo_parallel = 2"
  by (simp_all add: demo_parallel_def buf_ok_def)

lemma demo_dom: "10 \<in> dom (fl_series demo_flow)" "11 \<in> dom (fl_series demo_flow)" "20 \<in> dom (fl_series demo_flow)"
  by (simp_all add: demo_fields)

lemma demo_ready: "ready demo_U (\<lambda>p. 20) demo_R 20 demo_flow"
proof -
  have "ready_series demo_U 20 demo_flow" unfolding ready_series_def demo_fields
    by (auto simp: demo_todo owns_def demo_U_def new_subtask_def split: if_splits)
  moreover have "ready_tasks demo_U (\<lambda>p. 20) demo_flow" unfolding ready_tasks_def demo_fields(1)
  proof (intro allI impI)
    fix t :: addr and T assume "[1 \<mapsto> new_subtask\<lparr>st_pointer := Some 10\<rparr>, 2 \<mapsto> new_subtask\<lparr>st_pointer := Some 11\<rparr>, 4 \<mapsto> new_subtask\<lparr>st_pointer := Some 20\<rparr>,
      3 \<mapsto> new_subtask\<lparr>st_pointer := Some 20, st_parallel := Some demo_parallel\<rparr>] t = Some T"
    then show "st_parent T = None \<and> st_entry T = None \<and> (\<exists>z \<in> dom (fl_series demo_flow). st_pointer T = Some z) \<and>
     (\<forall>P. st_parallel T = Some P \<longrightarrow> st_pointer T = Some 20 \<and> buf_ok P \<and>
        (\<forall>i < pw_subtasks_nr P. \<exists>z Z. sub_series P i = Some z \<and> fl_series demo_flow z = Some Z \<and> demo_U z = Some (t, i) \<and> pw_buf P ! i = Some (sw_first Z)))"
      using demo_places demo_buf demo_dom by (auto simp: new_subtask_def split: if_splits)
  qed
  moreover have "inv_up demo_U (\<lambda>p. 20) demo_R (fl_tasks demo_flow) (fl_series demo_flow)" unfolding inv_up_def demo_fields
    by (auto simp: demo_U_def demo_R_def demo_subs split: if_splits) (simp_all add: demo_parallel_def)
  ultimately show ?thesis by (simp add: ready_def demo_fields)
qed


text \<open>The whole run: nineteen steps of the first activity.\<close>

definition demo_started :: flow where
  "demo_started = the (series_start 20 demo_flow)"

lemma demo_start: "series_start 20 demo_flow = Some demo_started"
  by (simp add: demo_started_def series_start_def demo_fields demo_todo)

lemma demo_run: "map_option fl_acts (run_acts (replicate 19 0) demo_started) = Some []"
  by code_simp

lemma demo_join: "map_option (\<lambda>f. (fl_acts f, map_option (\<lambda>T. map_option pw_subtasks_nr (st_parallel T)) (fl_tasks f 3))) (run_acts (replicate 14 0) demo_started) = Some ([Calling 3], Some (Some 2))"
  by code_simp

lemma demo_fork: "map_option (\<lambda>f. (fl_acts f, fl_tasks f 1 = None, fl_tasks f 2 = None)) (run_acts [0, 0, 1] demo_started) = Some ([Dispatching 1, Dispatching 2], False, False)"
  by code_simp

lemma demo_ends: "\<exists>f. flow_run demo_started 19 0 f \<and> fl_acts f = []"
  using demo_run run_acts_run [OF _ flow_run.start, of "replicate 19 0" demo_started] by auto

lemma demo_called: "\<exists>f T P. flow_run demo_started 14 0 f \<and> fl_acts f = [Calling 3] \<and> fl_tasks f 3 = Some T \<and> st_parallel T = Some P \<and> pw_subtasks_nr P = 2"
  using demo_join run_acts_run [OF _ flow_run.start, of "replicate 14 0" demo_started] by auto

lemma demo_both: "\<exists>f T V. flow_run demo_started 3 0 f \<and> fl_acts f = [Dispatching 1, Dispatching 2] \<and> fl_tasks f 1 = Some T \<and> fl_tasks f 2 = Some V"
  using demo_fork run_acts_run [OF _ flow_run.start, of "[0, 0, 1]" demo_started] by (auto simp: numeral_3_eq_3)

section \<open>Properties\<close>

lemma leaving_counts:
  assumes inv: "flow_inv U H R root \<phi> f" and a: "Leaving p e \<in> set (fl_acts f)"
  shows "\<exists>T P. fl_tasks f p = Some T \<and> st_parallel T = Some P \<and> 0 < pw_nleft P"
proof -
  have core: "flow_core U H R root \<phi> (fl_tasks f) (fl_series f)" using inv by (simp add: flow_inv_def)
  obtain z Z i where z: "fl_series f z = Some Z" "\<phi> z = Leave" "U z = Some (p, i)" using act_owner [OF inv a] owner_at(6) by fastforce
  obtain T P where p: "fl_tasks f p = Some T" "st_parallel T = Some P" using upD [OF flow_coreD(5) [OF core] z(1,3)] by blast
  then show ?thesis using leave_stage(8) [OF core z p] by blast
qed

text \<open>
  C2: in every run of a started work, in whatever order the threads of the tasks come to call \<^verbatim>\<open>subtask_done\<close>, where callbacks may push new plain tasks to the series of their task or
  cancel it, every thread can take its next step: no step uses a task or a series that was deleted, follows a null pointer or leaves the array of a parallel work. A thread that is about to
  count down \<^verbatim>\<open>nleft\<close> finds it above zero, so that it never wraps around.
\<close>

theorem flow_safe:
  assumes "ready U H R root f0" "series_start root f0 = Some f1" "flow_run f1 n k f" "a \<in> set (fl_acts f)"
  shows "(\<exists>new f'. act_step a f = Some (new, f')) \<and>
    (\<forall>p e. a = Leaving p e \<longrightarrow> (\<exists>T P. fl_tasks f p = Some T \<and> st_parallel T = Some P \<and> 0 < pw_nleft P \<and> count_down (pw_nleft P) < pw_nleft P))"
proof -
  obtain \<phi> where inv: "flow_inv U H R root \<phi> f" using ready_run [OF assms(1-3)] by blast
  obtain xs ys where "fl_acts f = xs @ a # ys" using assms(4) by (meson split_list)
  from act_flow_inv [OF inv this] have "\<exists>new f'. act_step a f = Some (new, f')" unfolding runs_def by blast
  moreover have "\<exists>T P. fl_tasks f p = Some T \<and> st_parallel T = Some P \<and> 0 < pw_nleft P \<and> count_down (pw_nleft P) < pw_nleft P" if "a = Leaving p e" for p e
    using leaving_counts [OF inv, of p e] assms(4) that by (auto simp: count_down_def)
  ultimately show ?thesis by blast
qed

theorem flow_safe_witness: "\<exists>f. flow_run demo_started 14 0 f \<and> Calling 3 \<in> set (fl_acts f) \<and> act_step (Calling 3) f \<noteq> None"
proof -
  obtain f where f: "flow_run demo_started 14 0 f" "fl_acts f = [Calling 3]" using demo_called by blast
  then show ?thesis using flow_safe [OF demo_ready demo_start f(1), of "Calling 3"] by auto
qed

text \<open>
  C4: when no thread is left in the code, every task and every series of the work has been deleted: nothing leaks, and no series or
  parallel work is left behind waiting.
\<close>

theorem flow_no_leak:
  assumes "ready U H R root f0" "series_start root f0 = Some f1" "flow_run f1 n k f" "fl_acts f = []"
  shows "fl_tasks f = Map.empty \<and> fl_series f = Map.empty"
  using ready_run [OF assms(1-3)] quiet_empty [OF _ assms(4)] by blast

theorem flow_no_leak_witness: "\<exists>f. flow_run demo_started 19 0 f \<and> fl_acts f = [] \<and> fl_tasks f = Map.empty \<and> fl_series f = Map.empty"
  using demo_ends flow_no_leak [OF demo_ready demo_start] by blast

text \<open>
  C10: a work comes to its end: with \<open>k\<close> tasks pushed by callbacks, the threads take at most six steps per task and nine per series.
\<close>

theorem flow_bounded:
  assumes "ready U H R root f0" "series_start root f0 = Some f1" "flow_run f1 n k f"
  shows "n \<le> 6 * (card (dom (fl_tasks f0)) + k) + 9 * card (dom (fl_series f0))"
  using ready_run [OF assms] by auto

theorem flow_bounded_witness: "(19 :: nat) \<le> 6 * (card (dom (fl_tasks demo_flow)) + 0) + 9 * card (dom (fl_series demo_flow))"
  using demo_ends flow_bounded [OF demo_ready demo_start] by blast

text \<open>
  C13: while the callback of a parallel work runs, all of its series have come to their end: each is still there for the callback to
  read, has no task left to run, and no task belongs to it any more.
\<close>

theorem flow_join:
  assumes "ready U H R root f0" "series_start root f0 = Some f1" "flow_run f1 n k f"
    and "Calling p \<in> set (fl_acts f)" "fl_tasks f p = Some T" "st_parallel T = Some P" "i < pw_subtasks_nr P"
  shows "\<exists>z Z. sub_series P i = Some z \<and> fl_series f z = Some Z \<and> todo Z = [] \<and> (\<forall>t T. fl_tasks f t = Some T \<longrightarrow> st_pointer T \<noteq> Some z)"
proof -
  obtain \<phi> where inv: "flow_inv U H R root \<phi> f" using ready_run [OF assms(1-3)] by blast
  have core: "flow_core U H R root \<phi> (fl_tasks f) (fl_series f)" using inv by (simp add: flow_inv_def)
  obtain s S where s: "fl_series f s = Some S" "\<phi> s = At p P_call" using act_owner [OF inv assms(4)] owner_at(4) by blast
  obtain z Z where z: "sub_series P i = Some z" "fl_series f z = Some Z" "U z = Some (p, i)" using parD(3) [OF flow_coreD(6) [OF core] assms(5-7)] by (auto simp: place_ok_def)
  have "live (\<phi> z) Z = []" using called_subs(2) [OF core s, of z Z] z by (auto simp: subs_of_def)
  then show ?thesis using z core_own [OF core z(2)] by (auto simp: live_def)
qed

theorem flow_join_witness:
  "\<exists>f T P z Z. flow_run demo_started 14 0 f \<and> Calling 3 \<in> set (fl_acts f) \<and> fl_tasks f 3 = Some T \<and> st_parallel T = Some P \<and> 1 < pw_subtasks_nr P \<and>
     sub_series P 1 = Some z \<and> fl_series f z = Some Z \<and> todo Z = []"
proof -
  obtain f T P where f: "flow_run demo_started 14 0 f" "Calling 3 \<in> set (fl_acts f)" "fl_tasks f 3 = Some T" "st_parallel T = Some P" "1 < pw_subtasks_nr P" using demo_called by auto
  then show ?thesis using flow_join [OF demo_ready demo_start f] by blast
qed

text \<open>
  C33: the tasks of a series run one at a time: two threads in the code are always at tasks of different series.
\<close>

theorem flow_serial:
  assumes "ready U H R root f0" "series_start root f0 = Some f1" "flow_run f1 n k f"
    and "a \<in> set (fl_acts f)" "b \<in> set (fl_acts f)" "a \<noteq> b" "act_task a = Some t" "act_task b = Some u"
    and "fl_tasks f t = Some T" "fl_tasks f u = Some V"
  shows "st_pointer T \<noteq> st_pointer V"
proof
  assume same: "st_pointer T = st_pointer V"
  obtain \<phi> where inv: "flow_inv U H R root \<phi> f" using ready_run [OF assms(1-3)] by blast
  have core: "flow_core U H R root \<phi> (fl_tasks f) (fl_series f)" using inv by (simp add: flow_inv_def)
  have at: "\<exists>ph. st = At x ph" if "act_of y st = Some c" "act_task c = Some x" for y st c x
    using that by (auto simp: act_of_def split: status.splits phase.splits option.splits)
  obtain s S ph where s: "fl_series f s = Some S" "act_of (U s) (\<phi> s) = Some a" "\<phi> s = At t ph" using act_owner [OF inv assms(4)] at assms(7) by blast
  obtain s' S' ph' where s': "fl_series f s' = Some S'" "act_of (U s') (\<phi> s') = Some b" "\<phi> s' = At u ph'" using act_owner [OF inv assms(5)] at assms(8) by blast
  have "s = s'" using pointer_at [OF core s(1,3) assms(9)] pointer_at [OF core s'(1,3) assms(10)] same by simp
  then show False using s(2) s'(2) assms(6) by simp
qed

theorem flow_serial_witness:
  "\<exists>f T V. flow_run demo_started 3 0 f \<and> fl_acts f = [Dispatching 1, Dispatching 2] \<and> fl_tasks f 1 = Some T \<and> fl_tasks f 2 = Some V \<and> st_pointer T \<noteq> st_pointer V"
proof -
  obtain f T V where f: "flow_run demo_started 3 0 f" "fl_acts f = [Dispatching 1, Dispatching 2]" "fl_tasks f 1 = Some T" "fl_tasks f 2 = Some V" using demo_both by blast
  then show ?thesis using flow_serial [OF demo_ready demo_start f(1), of "Dispatching 1" "Dispatching 2" 1 2 T V] by auto
qed

text \<open>
  dismissing a series that was not started deletes it with all its tasks and everything inside them, calls no callback and always returns.
\<close>

theorem series_dismiss_frees:
  assumes "ready U H R root f"
  shows "\<exists>es. series_dismiss root f = Some (f\<lparr>fl_tasks := Map.empty, fl_series := Map.empty, fl_log := fl_log f @ es\<rparr>) \<and> (\<forall>e \<in> set es. \<exists>z. e = Series_end z None)"
  using ready_dismiss [OF assms] by blast

theorem series_dismiss_frees_witness: "\<exists>f. series_dismiss 20 demo_flow = Some f \<and> fl_tasks f = Map.empty \<and> fl_series f = Map.empty"
  using series_dismiss_frees [OF demo_ready] by auto

end
