(* ===== verification/Flow_Build.thy ===== *)
theory Flow_Build
  imports Flow_Theorems
begin

text \<open>
  Works that are built with the functions of \<^verbatim>\<open>Workflow.h\<close> are well formed: the array of a parallel work grows as series are added, every task
  belongs to the series it was put into, and a work that is complete is ready to be started.
\<close>

section \<open>The array of a parallel work\<close>

lemma expand_buf_keeps:
  assumes "buf_ok P"
  shows "buf_ok (expand_buf P)" "pw_subtasks_nr (expand_buf P) = pw_subtasks_nr P" "pw_subtasks_nr P < pw_buf_size (expand_buf P)"
    "i < pw_subtasks_nr P \<Longrightarrow> pw_buf (expand_buf P) ! i = pw_buf P ! i" "i < pw_subtasks_nr P \<Longrightarrow> sub_series (expand_buf P) i = sub_series P i"
proof -
  let ?n = "pw_subtasks_nr P" and ?b = "pw_buf_size P" and ?c = "if 2 * pw_buf_size P = 0 then 4 else 2 * pw_buf_size P"
  have b: "?n \<le> ?b" "length (pw_buf P) = 2 * ?b" using assms by (simp_all add: buf_ok_def)
  have buf: "pw_buf (expand_buf P) = take ?n (pw_buf P) @ replicate (?c - ?n) None @ take ?n (drop ?b (pw_buf P)) @ replicate (?c - ?n) None" "pw_buf_size (expand_buf P) = ?c"
    by (simp_all add: expand_buf_def Let_def)
  show lt: "?n < pw_buf_size (expand_buf P)" unfolding buf(2) using b(1) by (cases "?b = 0") auto
  show "pw_subtasks_nr (expand_buf P) = ?n" by (simp add: expand_buf_def Let_def)
  then show "buf_ok (expand_buf P)" using b lt unfolding buf_ok_def buf by simp
  show "i < ?n \<Longrightarrow> pw_buf (expand_buf P) ! i = pw_buf P ! i" using b unfolding buf(1) by (simp add: nth_append)
  show "i < ?n \<Longrightarrow> sub_series (expand_buf P) i = sub_series P i"
    using b lt unfolding sub_series_def buf by (auto simp: rd_def nth_append)
qed

lemma put_series_spec:
  assumes "buf_ok P" "\<not> sw_in_parallel S"
  shows "\<exists>P'. put_series s S P = Some P' \<and> buf_ok P' \<and> pw_subtasks_nr P' = Suc (pw_subtasks_nr P) \<and>
     (\<forall>i < pw_subtasks_nr P. pw_buf P' ! i = pw_buf P ! i \<and> sub_series P' i = sub_series P i) \<and>
     pw_buf P' ! pw_subtasks_nr P = Some (sw_first S) \<and> sub_series P' (pw_subtasks_nr P) = Some s"
proof -
  let ?Q = "if pw_subtasks_nr P = pw_buf_size P then expand_buf P else P" and ?n = "pw_subtasks_nr P"
  have Q: "buf_ok ?Q" "pw_subtasks_nr ?Q = ?n" "?n < pw_buf_size ?Q" "\<forall>i < ?n. pw_buf ?Q ! i = pw_buf P ! i \<and> sub_series ?Q i = sub_series P i"
    using expand_buf_keeps [OF assms(1)] assms(1) by (auto simp: buf_ok_def)
  let ?b = "(pw_buf ?Q)[pw_buf_size ?Q + ?n := Some s, ?n := Some (sw_first S)]"
  let ?P = "?Q\<lparr>pw_buf := ?b, pw_subtasks_nr := ?n + 1\<rparr>"
  have len: "length (pw_buf ?Q) = 2 * pw_buf_size ?Q" using Q(1) by (simp add: buf_ok_def)
  have run: "put_series s S P = Some ?P" unfolding put_series_def Let_def Q(2) using assms(2) len Q(3) by (simp add: wr_def)
  have ok: "buf_ok ?P" using Q(1,3) by (simp add: buf_ok_def)
  have "pw_buf ?P ! i = pw_buf ?Q ! i \<and> sub_series ?P i = sub_series ?Q i" if "i < ?n" for i
    using that len Q(3) by (simp add: sub_series_def rd_def)
  then have old: "\<forall>i < ?n. pw_buf ?P ! i = pw_buf P ! i \<and> sub_series ?P i = sub_series P i" using Q(4) by simp
  have new: "pw_buf ?P ! ?n = Some (sw_first S)" "sub_series ?P ?n = Some s" using len Q(3) by (simp_all add: sub_series_def rd_def)
  show ?thesis by (rule exI [of _ ?P]) (use run ok old new in simp)
qed

section \<open>Forests of works\<close>

text \<open>
  What holds while works are being built. A task without a series and a series outside every parallel work are loose; \<open>U\<close>, \<open>H\<close> and \<open>R\<close>
  describe the work that is planned.
\<close>

definition forest_series :: "flow \<Rightarrow> bool" where
  "forest_series f \<longleftrightarrow> finite (dom (fl_series f)) \<and> (\<forall>z Z. fl_series f z = Some Z \<longrightarrow> series_inv Z \<and> owns (fl_tasks f) z (sw_first Z # todo Z))"

definition forest_up :: "place \<Rightarrow> (addr \<Rightarrow> addr) \<Rightarrow> (addr \<Rightarrow> nat) \<Rightarrow> flow \<Rightarrow> bool" where
  "forest_up U H R f \<longleftrightarrow> (\<forall>z Z. fl_series f z = Some Z \<longrightarrow> sw_in_parallel Z \<longrightarrow>
     (\<exists>p i T P. U z = Some (p, i) \<and> R z < R (H p) \<and> fl_tasks f p = Some T \<and> st_parallel T = Some P \<and> i < pw_subtasks_nr P \<and> sub_series P i = Some z))"

definition forest_tasks :: "(addr \<Rightarrow> addr) \<Rightarrow> flow \<Rightarrow> bool" where
  "forest_tasks H f \<longleftrightarrow> (\<forall>t T. fl_tasks f t = Some T \<longrightarrow> st_parent T = None \<and> st_entry T = None \<and>
     (\<forall>z. st_pointer T = Some z \<longrightarrow> z \<in> dom (fl_series f) \<and> (st_parallel T \<noteq> None \<longrightarrow> H t = z)))"

definition forest_par :: "place \<Rightarrow> flow \<Rightarrow> bool" where
  "forest_par U f \<longleftrightarrow> (\<forall>p T P. fl_tasks f p = Some T \<longrightarrow> st_parallel T = Some P \<longrightarrow> buf_ok P \<and>
     (\<forall>i < pw_subtasks_nr P. \<exists>z Z. sub_series P i = Some z \<and> fl_series f z = Some Z \<and> sw_in_parallel Z \<and> U z = Some (p, i) \<and> pw_buf P ! i = Some (sw_first Z)))"

definition forest :: "place \<Rightarrow> (addr \<Rightarrow> addr) \<Rightarrow> (addr \<Rightarrow> nat) \<Rightarrow> flow \<Rightarrow> bool" where
  "forest U H R f \<longleftrightarrow> fl_acts f = [] \<and> forest_series f \<and> forest_up U H R f \<and> forest_tasks H f \<and> forest_par U f"

lemma forestD:
  assumes "forest U H R f"
  shows "fl_acts f = []" "finite (dom (fl_series f))"
    "fl_series f z = Some Z \<Longrightarrow> series_inv Z \<and> owns (fl_tasks f) z (sw_first Z # todo Z)"
    "fl_series f z = Some Z \<Longrightarrow> sw_in_parallel Z \<Longrightarrow>
       \<exists>p i T P. U z = Some (p, i) \<and> R z < R (H p) \<and> fl_tasks f p = Some T \<and> st_parallel T = Some P \<and> i < pw_subtasks_nr P \<and> sub_series P i = Some z"
    "fl_tasks f t = Some T \<Longrightarrow> st_parent T = None \<and> st_entry T = None"
    "fl_tasks f t = Some T \<Longrightarrow> st_pointer T = Some z \<Longrightarrow> z \<in> dom (fl_series f) \<and> (st_parallel T \<noteq> None \<longrightarrow> H t = z)"
    "fl_tasks f t = Some T \<Longrightarrow> st_parallel T = Some P \<Longrightarrow> buf_ok P"
    "fl_tasks f t = Some T \<Longrightarrow> st_parallel T = Some P \<Longrightarrow> i < pw_subtasks_nr P \<Longrightarrow>
       \<exists>z Z. sub_series P i = Some z \<and> fl_series f z = Some Z \<and> sw_in_parallel Z \<and> U z = Some (t, i) \<and> pw_buf P ! i = Some (sw_first Z)"
proof -
  have F: "forest_series f" "forest_up U H R f" "forest_tasks H f" "forest_par U f" using assms by (simp_all add: forest_def)
  show "finite (dom (fl_series f))" "fl_series f z = Some Z \<Longrightarrow> series_inv Z \<and> owns (fl_tasks f) z (sw_first Z # todo Z)" using F(1) by (simp_all add: forest_series_def)
  show "fl_series f z = Some Z \<Longrightarrow> sw_in_parallel Z \<Longrightarrow>
       \<exists>p i T P. U z = Some (p, i) \<and> R z < R (H p) \<and> fl_tasks f p = Some T \<and> st_parallel T = Some P \<and> i < pw_subtasks_nr P \<and> sub_series P i = Some z"
    using F(2) unfolding forest_up_def by blast
  show "fl_tasks f t = Some T \<Longrightarrow> st_parent T = None \<and> st_entry T = None"
    "fl_tasks f t = Some T \<Longrightarrow> st_pointer T = Some z \<Longrightarrow> z \<in> dom (fl_series f) \<and> (st_parallel T \<noteq> None \<longrightarrow> H t = z)"
    using F(3) unfolding forest_tasks_def by blast+
  show "fl_tasks f t = Some T \<Longrightarrow> st_parallel T = Some P \<Longrightarrow> buf_ok P"
    "fl_tasks f t = Some T \<Longrightarrow> st_parallel T = Some P \<Longrightarrow> i < pw_subtasks_nr P \<Longrightarrow>
       \<exists>z Z. sub_series P i = Some z \<and> fl_series f z = Some Z \<and> sw_in_parallel Z \<and> U z = Some (t, i) \<and> pw_buf P ! i = Some (sw_first Z)"
    using F(4) unfolding forest_par_def by blast+
qed (use assms in \<open>simp add: forest_def\<close>)

lemma forestI: "fl_acts f = [] \<Longrightarrow> forest_series f \<Longrightarrow> forest_up U H R f \<Longrightarrow> forest_tasks H f \<Longrightarrow> forest_par U f \<Longrightarrow> forest U H R f"
  by (simp add: forest_def)

text \<open>A new task.\<close>

lemma forest_new:
  assumes F: "forest U H R f" and u: "fl_tasks f u = None" and N: "st_parent N = None" "st_entry N = None" "st_pointer N = None"
    and P: "\<And>P. st_parallel N = Some P \<Longrightarrow> buf_ok P \<and> pw_subtasks_nr P = 0"
  shows "forest U H R (f\<lparr>fl_tasks := (fl_tasks f)(u \<mapsto> N)\<rparr>)"
proof (rule forestI)
  note D = forestD [OF F]
  let ?f = "f\<lparr>fl_tasks := (fl_tasks f)(u \<mapsto> N)\<rparr>"
  show "forest_series ?f" unfolding forest_series_def
  proof (intro conjI allI impI)
    fix z Z assume z: "fl_series ?f z = Some Z"
    then have "series_inv Z" "owns (fl_tasks f) z (sw_first Z # todo Z)" using D(3) by simp_all
    then show "series_inv Z" "owns (fl_tasks ?f) z (sw_first Z # todo Z)" using u N(3) by (auto simp: owns_def)
  qed (use D(2) in simp)
  show "forest_up U H R ?f" unfolding forest_up_def
  proof (intro allI impI)
    fix z Z assume "fl_series ?f z = Some Z" "sw_in_parallel Z"
    then show "\<exists>p i T P. U z = Some (p, i) \<and> R z < R (H p) \<and> fl_tasks ?f p = Some T \<and> st_parallel T = Some P \<and> i < pw_subtasks_nr P \<and> sub_series P i = Some z"
      using D(4) [of z Z] u by (metis flow.select_convs(1,2) flow.surjective flow.update_convs(1) fun_upd_other option.distinct(1))
  qed
  show "forest_tasks H ?f" using D(5,6) N unfolding forest_tasks_def by simp
  show "forest_par U ?f" using D(7,8) P unfolding forest_par_def by simp
qed (use forestD(1) [OF F] in simp)

text \<open>A loose task is put into a series, which may be new.\<close>

lemma forest_put:
  assumes F: "forest U H R f" and u: "fl_tasks f u = Some T" "st_pointer T = None" "st_parallel T \<noteq> None \<Longrightarrow> H u = s"
    and S': "series_inv S'" "distinct (sw_first S' # todo S')"
    and old: "\<And>S. fl_series f s = Some S \<Longrightarrow> sw_first S' = sw_first S \<and> sw_in_parallel S' = sw_in_parallel S \<and> set (sw_first S' # todo S') = insert u (set (sw_first S # todo S))"
    and new: "fl_series f s = None \<Longrightarrow> set (sw_first S' # todo S') = {u} \<and> \<not> sw_in_parallel S'"
  shows "forest U H R (f\<lparr>fl_tasks := (fl_tasks f)(u \<mapsto> T\<lparr>st_pointer := Some s\<rparr>), fl_series := (fl_series f)(s \<mapsto> S')\<rparr>)"
proof (rule forestI)
  note D = forestD [OF F]
  let ?f = "f\<lparr>fl_tasks := (fl_tasks f)(u \<mapsto> T\<lparr>st_pointer := Some s\<rparr>), fl_series := (fl_series f)(s \<mapsto> S')\<rparr>"
  have own: "x \<in> set (sw_first S' # todo S') \<longleftrightarrow> x = u \<or> (\<exists>X. fl_tasks f x = Some X \<and> st_pointer X = Some s)" for x
  proof (cases "fl_series f s")
    case None
    then show ?thesis using new D(6) [of x _ s] by auto
  next
    case (Some S)
    then show ?thesis using old [OF Some] D(3) [OF Some] ownsD(1) [of "fl_tasks f" s "sw_first S # todo S" x] by auto
  qed
  show "forest_series ?f" unfolding forest_series_def
  proof (intro conjI allI impI)
    fix z Z assume z: "fl_series ?f z = Some Z"
    show "series_inv Z" using z S'(1) D(3) [of z Z] by (auto split: if_splits)
    show "owns (fl_tasks ?f) z (sw_first Z # todo Z)"
    proof (cases "z = s")
      case True
      then show ?thesis using z own S'(2) u(2) unfolding owns_def by auto
    next
      case False
      then have "owns (fl_tasks f) z (sw_first Z # todo Z)" using z D(3) by simp
      then show ?thesis using False u unfolding owns_def by auto
    qed
  qed (use D(2) in simp)
  show "forest_up U H R ?f" unfolding forest_up_def
  proof (intro allI impI)
    fix z Z assume z: "fl_series ?f z = Some Z" "sw_in_parallel Z"
    have "\<exists>Z. fl_series f z = Some Z \<and> sw_in_parallel Z" using z old new by (cases "z = s"; cases "fl_series f s") auto
    then obtain p i X P where "U z = Some (p, i)" "R z < R (H p)" "fl_tasks f p = Some X" "st_parallel X = Some P" "i < pw_subtasks_nr P" "sub_series P i = Some z" using D(4) by blast
    then show "\<exists>p i T P. U z = Some (p, i) \<and> R z < R (H p) \<and> fl_tasks ?f p = Some T \<and> st_parallel T = Some P \<and> i < pw_subtasks_nr P \<and> sub_series P i = Some z"
      using u(1) by (cases "p = u") auto
  qed
  show "forest_tasks H ?f" unfolding forest_tasks_def
  proof (intro allI impI)
    fix t X assume t: "fl_tasks ?f t = Some X"
    show "st_parent X = None \<and> st_entry X = None \<and> (\<forall>z. st_pointer X = Some z \<longrightarrow> z \<in> dom (fl_series ?f) \<and> (st_parallel X \<noteq> None \<longrightarrow> H t = z))"
    proof (cases "t = u")
      case True
      then have "X = T\<lparr>st_pointer := Some s\<rparr>" using t by simp
      then show ?thesis using D(5) [OF u(1)] u(3) True by simp
    next
      case False
      then have t': "fl_tasks f t = Some X" using t by simp
      then show ?thesis using D(5) [OF t'] D(6) [OF t'] by simp
    qed
  qed
  show "forest_par U ?f" unfolding forest_par_def
  proof (intro allI impI)
    fix p X P assume p: "fl_tasks ?f p = Some X" "st_parallel X = Some P"
    obtain X0 where X0: "fl_tasks f p = Some X0" "st_parallel X0 = Some P" using p u(1) by (cases "p = u") auto
    have "\<exists>z Z. sub_series P i = Some z \<and> fl_series ?f z = Some Z \<and> sw_in_parallel Z \<and> U z = Some (p, i) \<and> pw_buf P ! i = Some (sw_first Z)" if i: "i < pw_subtasks_nr P" for i
    proof -
      obtain z Z where z: "sub_series P i = Some z" "fl_series f z = Some Z" "sw_in_parallel Z" "U z = Some (p, i)" "pw_buf P ! i = Some (sw_first Z)" using D(8) [OF X0 i] by blast
      show ?thesis
      proof (cases "z = s")
        case True
        then show ?thesis using z old [of Z] by (intro exI [of _ z] exI [of _ S']) simp
      qed (use z in auto)
    qed
    then show "buf_ok P \<and> (\<forall>i < pw_subtasks_nr P. \<exists>z Z. sub_series P i = Some z \<and> fl_series ?f z = Some Z \<and> sw_in_parallel Z \<and> U z = Some (p, i) \<and> pw_buf P ! i = Some (sw_first Z))"
      using D(7) [OF X0] by blast
  qed
qed (use forestD(1) [OF F] in simp)


section \<open>Series are put into a parallel work\<close>

definition mark_series :: "addr set \<Rightarrow> (addr \<rightharpoonup> series_work) \<Rightarrow> addr \<rightharpoonup> series_work" where
  "mark_series X SS z = (if z \<in> X then map_option (\<lambda>Z. Z\<lparr>sw_in_parallel := True\<rparr>) (SS z) else SS z)"

lemma mark_fields: "todo (Z\<lparr>sw_in_parallel := b\<rparr>) = todo Z" "series_inv (Z\<lparr>sw_in_parallel := b\<rparr>) = series_inv Z"
  by (simp_all add: todo_def pending_def ring_slots_def ring_len_def series_inv_def ring_shape_def)

lemma mark_someD: "mark_series X SS z = Some Z \<Longrightarrow> \<exists>Z0. SS z = Some Z0 \<and> Z = (if z \<in> X then Z0\<lparr>sw_in_parallel := True\<rparr> else Z0)"
  by (auto simp: mark_series_def split: if_splits)

lemma mark_dom: "dom (mark_series X SS) = dom SS"
  by (auto simp: mark_series_def split: if_splits)

lemma forest_join:
  assumes F: "forest U H R f" and p: "fl_tasks f p = Some T" "st_parallel T = Some P"
    and P': "buf_ok P'" "pw_subtasks_nr P' = pw_subtasks_nr P + length ss" "\<And>i. i < pw_subtasks_nr P \<Longrightarrow> pw_buf P' ! i = pw_buf P ! i \<and> sub_series P' i = sub_series P i"
    and ss: "\<And>j. j < length ss \<Longrightarrow> sub_series P' (pw_subtasks_nr P + j) = Some (ss ! j) \<and> U (ss ! j) = Some (p, pw_subtasks_nr P + j) \<and> R (ss ! j) < R (H p) \<and>
      (\<exists>S. fl_series f (ss ! j) = Some S \<and> pw_buf P' ! (pw_subtasks_nr P + j) = Some (sw_first S))"
  shows "forest U H R (f\<lparr>fl_tasks := (fl_tasks f)(p \<mapsto> T\<lparr>st_parallel := Some P'\<rparr>), fl_series := mark_series (set ss) (fl_series f)\<rparr>)"
proof (rule forestI)
  note D = forestD [OF F]
  let ?f = "f\<lparr>fl_tasks := (fl_tasks f)(p \<mapsto> T\<lparr>st_parallel := Some P'\<rparr>), fl_series := mark_series (set ss) (fl_series f)\<rparr>" and ?n = "pw_subtasks_nr P"
  show "forest_series ?f" unfolding forest_series_def
  proof (intro conjI allI impI)
    fix z Z assume "fl_series ?f z = Some Z"
    then obtain Z0 where Z: "fl_series f z = Some Z0" "Z = (if z \<in> set ss then Z0\<lparr>sw_in_parallel := True\<rparr> else Z0)" by (auto dest: mark_someD)
    then show "series_inv Z" "owns (fl_tasks ?f) z (sw_first Z # todo Z)" using D(3) [OF Z(1)] p(1) by (auto simp: mark_fields owns_def)
  qed (use D(2) mark_dom in simp)
  show "forest_up U H R ?f" unfolding forest_up_def
  proof (intro allI impI)
    fix z Z assume z: "fl_series ?f z = Some Z" "sw_in_parallel Z"
    show "\<exists>q i T P. U z = Some (q, i) \<and> R z < R (H q) \<and> fl_tasks ?f q = Some T \<and> st_parallel T = Some P \<and> i < pw_subtasks_nr P \<and> sub_series P i = Some z"
    proof (cases "z \<in> set ss")
      case True
      then obtain j where j: "j < length ss" "ss ! j = z" by (auto simp: in_set_conv_nth)
      then show ?thesis using ss [OF j(1)] P'(2) by (intro exI [of _ p] exI [of _ "?n + j"] exI [of _ "T\<lparr>st_parallel := Some P'\<rparr>"] exI [of _ P']) simp
    next
      case False
      then have "fl_series f z = Some Z" using z(1) by (simp add: mark_series_def)
      then obtain q i X Q where q: "U z = Some (q, i)" "R z < R (H q)" "fl_tasks f q = Some X" "st_parallel X = Some Q" "i < pw_subtasks_nr Q" "sub_series Q i = Some z" using D(4) z(2) by blast
      then show ?thesis using p P'(2,3) by (cases "q = p") auto
    qed
  qed
  show "forest_tasks H ?f" unfolding forest_tasks_def
  proof (intro allI impI)
    fix t X assume t: "fl_tasks ?f t = Some X"
    obtain X0 where X0: "fl_tasks f t = Some X0" "st_parent X = st_parent X0" "st_entry X = st_entry X0" "st_pointer X = st_pointer X0" "st_parallel X0 = None \<longrightarrow> st_parallel X = None"
      using t p by (cases "t = p") auto
    show "st_parent X = None \<and> st_entry X = None \<and> (\<forall>z. st_pointer X = Some z \<longrightarrow> z \<in> dom (fl_series ?f) \<and> (st_parallel X \<noteq> None \<longrightarrow> H t = z))"
      using D(5) [OF X0(1)] D(6) [OF X0(1)] X0 by (cases "st_parallel X0") (simp_all add: mark_dom)
  qed
  show "forest_par U ?f" unfolding forest_par_def
  proof (intro allI impI)
    fix q X Q assume q: "fl_tasks ?f q = Some X" "st_parallel X = Some Q"
    have mk: "\<exists>Z'. fl_series ?f z = Some Z' \<and> sw_first Z' = sw_first Z \<and> (z \<in> set ss \<or> sw_in_parallel Z \<longrightarrow> sw_in_parallel Z')" if "fl_series f z = Some Z" for z Z using that by (simp add: mark_series_def)
    show "buf_ok Q \<and> (\<forall>i < pw_subtasks_nr Q. \<exists>z Z. sub_series Q i = Some z \<and> fl_series ?f z = Some Z \<and> sw_in_parallel Z \<and> U z = Some (q, i) \<and> pw_buf Q ! i = Some (sw_first Z))"
    proof (cases "q = p")
      case False
      then have q': "fl_tasks f q = Some X" using q(1) by simp
      have "\<exists>z Z. sub_series Q i = Some z \<and> fl_series ?f z = Some Z \<and> sw_in_parallel Z \<and> U z = Some (q, i) \<and> pw_buf Q ! i = Some (sw_first Z)" if "i < pw_subtasks_nr Q" for i
        using D(8) [OF q' q(2) that] mk by metis
      then show ?thesis using D(7) [OF q' q(2)] by blast
    next
      case True
      then have Q: "Q = P'" using q by auto
      have "\<exists>z Z. sub_series P' i = Some z \<and> fl_series ?f z = Some Z \<and> sw_in_parallel Z \<and> U z = Some (p, i) \<and> pw_buf P' ! i = Some (sw_first Z)" if i: "i < pw_subtasks_nr P'" for i
      proof (cases "i < ?n")
        case True
        then show ?thesis using D(8) [OF p True] P'(3) [OF True] mk by metis
      next
        case False
        then have j: "i - ?n < length ss" "?n + (i - ?n) = i" using i P'(2) by auto
        obtain S where S: "fl_series f (ss ! (i - ?n)) = Some S" "pw_buf P' ! i = Some (sw_first S)" using ss [OF j(1)] j(2) by auto
        moreover have "ss ! (i - ?n) \<in> set ss" using j(1) by simp
        ultimately show ?thesis using mk [OF S(1)] ss [OF j(1)] j(2) by metis
      qed
      then show ?thesis using Q P'(1) True by simp
    qed
  qed
qed (use forestD(1) [OF F] in simp)

lemma mark_one: "SS s = Some S \<Longrightarrow> mark_series {s} SS = SS(s \<mapsto> S\<lparr>sw_in_parallel := True\<rparr>)"
  by (auto simp: mark_series_def fun_eq_iff)

lemma forest_add:
  assumes F: "forest U H R f" and p: "fl_tasks f p = Some T" "st_parallel T = Some P" "U s = Some (p, pw_subtasks_nr P)" "R s < R (H p)" and run: "add_series p s f = Some f'"
  shows "forest U H R f'"
proof -
  obtain S P' where S: "fl_series f s = Some S" "put_series s S P = Some P'"
    "f' = f\<lparr>fl_tasks := (fl_tasks f)(p \<mapsto> T\<lparr>st_parallel := Some P'\<rparr>), fl_series := (fl_series f)(s \<mapsto> S\<lparr>sw_in_parallel := True\<rparr>)\<rparr>"
    using run p(1,2) by (auto simp: add_series_def split: bind_splits)
  have "\<not> sw_in_parallel S" using S(2) by (auto simp: put_series_def Let_def split: if_splits)
  then have P': "buf_ok P'" "pw_subtasks_nr P' = Suc (pw_subtasks_nr P)" "\<forall>i < pw_subtasks_nr P. pw_buf P' ! i = pw_buf P ! i \<and> sub_series P' i = sub_series P i"
     "pw_buf P' ! pw_subtasks_nr P = Some (sw_first S)" "sub_series P' (pw_subtasks_nr P) = Some s"
    using put_series_spec [OF forestD(7) [OF F p(1,2)], of S s] S(2) by auto
  have "forest U H R (f\<lparr>fl_tasks := (fl_tasks f)(p \<mapsto> T\<lparr>st_parallel := Some P'\<rparr>), fl_series := mark_series (set [s]) (fl_series f)\<rparr>)"
    by (rule forest_join [OF F p(1,2)]) (use P' S(1) p(3,4) in auto)
  then show ?thesis using S(1,3) by (simp add: mark_one)
qed

lemma fill_series_spec:
  assumes "fill_series n i ss (b, f) = Some (b', f')" "i + length ss = n" "length b = 2 * n" "distinct ss"
  shows "f' = f\<lparr>fl_series := mark_series (set ss) (fl_series f)\<rparr> \<and> length b' = 2 * n \<and> (\<forall>j < i. b' ! j = b ! j \<and> b' ! (n + j) = b ! (n + j)) \<and>
     (\<forall>j < length ss. \<exists>S. fl_series f (ss ! j) = Some S \<and> b' ! (i + j) = Some (sw_first S) \<and> b' ! (n + (i + j)) = Some (ss ! j))"
  using assms
proof (induction n i ss "(b, f)" arbitrary: b f rule: fill_series.induct)
  case (1 n i b f)
  have "mark_series {} (fl_series f) = fl_series f" by (simp add: mark_series_def fun_eq_iff)
  then show ?case using 1 by simp
next
  case (2 n i s ss b f)
  obtain S where S: "fl_series f s = Some S" "\<not> sw_in_parallel S" using 2(2) by (auto split: bind_splits if_splits)
  let ?b = "b[n + i := Some s, i := Some (sw_first S)]" and ?f = "f\<lparr>fl_series := (fl_series f)(s \<mapsto> S\<lparr>sw_in_parallel := True\<rparr>)\<rparr>"
  have len: "i < n" "length ?b = 2 * n" using 2(3,4) by auto
  have run: "fill_series n (i + 1) ss (?b, ?f) = Some (b', f')" using 2(2) S len 2(4) by (simp add: wr_def)
  have IH: "f' = ?f\<lparr>fl_series := mark_series (set ss) (fl_series ?f)\<rparr>" "length b' = 2 * n" "\<forall>j < i + 1. b' ! j = ?b ! j \<and> b' ! (n + j) = ?b ! (n + j)"
     "\<forall>j < length ss. \<exists>S. fl_series ?f (ss ! j) = Some S \<and> b' ! (i + 1 + j) = Some (sw_first S) \<and> b' ! (n + (i + 1 + j)) = Some (ss ! j)"
    using 2(1) [OF S(1) _ _ _ run] 2(3,5) len by (auto simp: wr_def S(2) 2(4))
  have "mark_series (set ss) (fl_series ?f) = mark_series (set (s # ss)) (fl_series f)" using S(1) 2(5) by (auto simp: mark_series_def fun_eq_iff)
  then have f': "f' = f\<lparr>fl_series := mark_series (set (s # ss)) (fl_series f)\<rparr>" using IH(1) by simp
  have old: "b' ! j = b ! j \<and> b' ! (n + j) = b ! (n + j)" if "j < i" for j using IH(3) that len 2(4) by auto
  have "\<exists>S. fl_series f ((s # ss) ! j) = Some S \<and> b' ! (i + j) = Some (sw_first S) \<and> b' ! (n + (i + j)) = Some ((s # ss) ! j)" if j: "j < length (s # ss)" for j
  proof (cases j)
    case 0
    then show ?thesis using IH(3) S(1) len 2(4) by auto
  next
    case (Suc m)
    then have m: "m < length ss" "ss ! m \<noteq> s" using j 2(5) by auto
    then obtain Z where "fl_series ?f (ss ! m) = Some Z" "b' ! (i + 1 + m) = Some (sw_first Z)" "b' ! (n + (i + 1 + m)) = Some (ss ! m)" using IH(4) by blast
    then show ?thesis using m(2) Suc by simp
  qed
  then show ?case using f' IH(2) old by blast
qed


lemma forest_fill:
  assumes F: "forest U H R f" and p: "fl_tasks f p = None" and plan: "\<And>j. j < length ss \<Longrightarrow> U (ss ! j) = Some (p, j) \<and> R (ss ! j) < R (H p)"
    and run: "create_parallel_work p ss cb nl f = Some f'"
  shows "forest U H R f'"
proof -
  let ?n = "length ss" and ?N = "new_subtask\<lparr>st_parallel := Some (new_parallel_work cb nl)\<rparr>"
  let ?g = "f\<lparr>fl_tasks := (fl_tasks f)(p \<mapsto> ?N)\<rparr>"
  have "distinct ss" unfolding distinct_conv_nth using plan by (metis Pair_inject option.inject)
  moreover obtain b g where g: "fill_series ?n 0 ss (replicate (2 * ?n) None, f) = Some (b, g)"
    "f' = g\<lparr>fl_tasks := (fl_tasks g)(p \<mapsto> new_subtask\<lparr>st_parallel := Some \<lparr>pw_callback = cb, pw_context = None, pw_buf = b, pw_subtasks_nr = ?n, pw_nleft = nl, pw_buf_size = ?n\<rparr>\<rparr>)\<rparr>"
    using run by (auto simp: create_parallel_work_def split: bind_splits)
  ultimately have b: "g = f\<lparr>fl_series := mark_series (set ss) (fl_series f)\<rparr>" "length b = 2 * ?n"
     "\<forall>j < ?n. \<exists>S. fl_series f (ss ! j) = Some S \<and> b ! j = Some (sw_first S) \<and> b ! (?n + j) = Some (ss ! j)" using fill_series_spec [OF g(1)] by auto
  let ?P = "\<lparr>pw_callback = cb, pw_context = None, pw_buf = b, pw_subtasks_nr = ?n, pw_nleft = nl, pw_buf_size = ?n\<rparr>"
  have "forest U H R ?g" by (rule forest_new [OF F p]) (auto simp: new_subtask_def new_parallel_work_def buf_ok_def)
  then have "forest U H R (?g\<lparr>fl_tasks := (fl_tasks ?g)(p \<mapsto> ?N\<lparr>st_parallel := Some ?P\<rparr>), fl_series := mark_series (set ss) (fl_series ?g)\<rparr>)"
  proof (rule forest_join)
    show "sub_series ?P (pw_subtasks_nr (new_parallel_work cb nl) + j) = Some (ss ! j) \<and> U (ss ! j) = Some (p, pw_subtasks_nr (new_parallel_work cb nl) + j) \<and> R (ss ! j) < R (H p) \<and>
      (\<exists>S. fl_series ?g (ss ! j) = Some S \<and> pw_buf ?P ! (pw_subtasks_nr (new_parallel_work cb nl) + j) = Some (sw_first S))" if "j < ?n" for j
      using b(2,3) plan [OF that] that by (auto simp: sub_series_def rd_def new_parallel_work_def)
  qed (use b(2) in \<open>auto simp: buf_ok_def new_parallel_work_def\<close>)
  moreover have "f' = ?g\<lparr>fl_tasks := (fl_tasks ?g)(p \<mapsto> ?N\<lparr>st_parallel := Some ?P\<rparr>), fl_series := mark_series (set ss) (fl_series ?g)\<rparr>" using g(2) b(1) by simp
  ultimately show ?thesis by simp
qed

section \<open>Building\<close>

text \<open>
  The calls of the user that build works, in any order. A task is put into one series only, and a series into one parallel work only (the latter is
  what the assertion of the code asks for); \<open>U\<close>, \<open>H\<close> and \<open>R\<close> say what the user is going to build: nothing goes into itself.
\<close>

inductive built :: "place \<Rightarrow> (addr \<Rightarrow> addr) \<Rightarrow> (addr \<Rightarrow> nat) \<Rightarrow> flow \<Rightarrow> bool" for U :: place and H :: "addr \<Rightarrow> addr" and R :: "addr \<Rightarrow> nat" where
  nothing: "built U H R \<lparr>fl_tasks = Map.empty, fl_series = Map.empty, fl_log = [], fl_acts = []\<rparr>"
| task: "built U H R f \<Longrightarrow> fl_tasks f u = None \<Longrightarrow> built U H R (f\<lparr>fl_tasks := (fl_tasks f)(u \<mapsto> new_subtask)\<rparr>)"
| parallel: "built U H R f \<Longrightarrow> fl_tasks f p = None \<Longrightarrow> built U H R (create_parallel_empty p cb nl f)"
| parallel_of: "built U H R f \<Longrightarrow> fl_tasks f p = None \<Longrightarrow> (\<And>j. j < length ss \<Longrightarrow> U (ss ! j) = Some (p, j) \<and> R (ss ! j) < R (H p)) \<Longrightarrow>
    create_parallel_work p ss cb nl f = Some f' \<Longrightarrow> built U H R f'"
| series: "built U H R f \<Longrightarrow> fl_series f s = None \<Longrightarrow> fl_tasks f t = Some T \<Longrightarrow> st_pointer T = None \<Longrightarrow> (st_parallel T \<noteq> None \<Longrightarrow> H t = s) \<Longrightarrow>
    create_series_work s t cb f = Some f' \<Longrightarrow> built U H R f'"
| to_back: "built U H R f \<Longrightarrow> fl_tasks f t = Some T \<Longrightarrow> st_pointer T = None \<Longrightarrow> (st_parallel T \<noteq> None \<Longrightarrow> H t = s) \<Longrightarrow> series_push_back s t f = Some f' \<Longrightarrow> built U H R f'"
| to_front: "built U H R f \<Longrightarrow> fl_tasks f t = Some T \<Longrightarrow> st_pointer T = None \<Longrightarrow> (st_parallel T \<noteq> None \<Longrightarrow> H t = s) \<Longrightarrow> series_push_front s t f = Some f' \<Longrightarrow> built U H R f'"
| to_end: "built U H R f \<Longrightarrow> fl_series f s = Some S \<Longrightarrow> sw_last S = None \<Longrightarrow> fl_tasks f t = Some T \<Longrightarrow> st_pointer T = None \<Longrightarrow> (st_parallel T \<noteq> None \<Longrightarrow> H t = s) \<Longrightarrow>
    series_set_last_task s t f = Some f' \<Longrightarrow> built U H R f'"
| add: "built U H R f \<Longrightarrow> fl_tasks f p = Some T \<Longrightarrow> st_parallel T = Some P \<Longrightarrow> U s = Some (p, pw_subtasks_nr P) \<Longrightarrow> R s < R (H p) \<Longrightarrow>
    add_series p s f = Some f' \<Longrightarrow> built U H R f'"

lemma forest_push:
  assumes F: "forest U H R f" and t: "fl_tasks f t = Some T" "st_pointer T = None" "st_parallel T \<noteq> None \<Longrightarrow> H t = s" and S: "fl_series f s = Some S"
    and S': "series_inv S'" "sw_in_parallel S' = sw_in_parallel S" "sw_first S' = sw_first S" "set (todo S') = insert t (set (todo S))" "length (todo S') = Suc (length (todo S))"
    and f': "f' = f\<lparr>fl_tasks := (fl_tasks f)(t \<mapsto> T\<lparr>st_pointer := Some s\<rparr>), fl_series := (fl_series f)(s \<mapsto> S')\<rparr>"
  shows "forest U H R f'"
  unfolding f'
proof (rule forest_put [OF F t])
  have own: "owns (fl_tasks f) s (sw_first S # todo S)" using forestD(3) [OF F S] by blast
  then have "t \<notin> set (sw_first S # todo S)" using t(1,2) ownsD(1) [OF own, of t] by simp
  moreover have d: "distinct (sw_first S # todo S)" by (rule ownsD(2) [OF own])
  ultimately have "card (set (todo S')) = length (todo S')" unfolding S'(4,5) by (simp add: distinct_card)
  then have "distinct (todo S')" by (rule card_distinct)
  then show "distinct (sw_first S' # todo S')" using d \<open>t \<notin> set (sw_first S # todo S)\<close> S'(3,4) by auto
qed (use S S' in auto)

lemma expand_queue_first: "expand_queue S = Some S' \<Longrightarrow> sw_first S' = sw_first S"
  by (auto simp: expand_queue_def Let_def split: bind_splits)

lemma push_first: "push_back S t = Some S' \<Longrightarrow> sw_first S' = sw_first S" "push_front S t = Some S' \<Longrightarrow> sw_first S' = sw_first S"
  by (auto simp: push_back_def push_front_def Let_def split: bind_splits if_splits dest: expand_queue_first)

lemma built_forest: "built U H R f \<Longrightarrow> forest U H R f"
proof (induction rule: built.induct)
  case nothing
  then show ?case by (simp add: forest_def forest_series_def forest_up_def forest_tasks_def forest_par_def)
next
  case (task f u)
  then show ?case by (intro forest_new) (simp_all add: new_subtask_def)
next
  case (parallel f p cb nl)
  then show ?case unfolding create_parallel_empty_def by (intro forest_new) (auto simp: new_subtask_def new_parallel_work_def buf_ok_def)
next
  case (parallel_of f p ss cb nl f')
  then show ?case by (intro forest_fill [of U H R f p ss cb nl f']) auto
next
  case (series f s t T cb f')
  have f': "f' = f\<lparr>fl_tasks := (fl_tasks f)(t \<mapsto> T\<lparr>st_pointer := Some s\<rparr>), fl_series := (fl_series f)(s \<mapsto> new_series_work t cb)\<rparr>"
    using series(3,6) by (auto simp: create_series_work_def set_pointer_def)
  have "todo (new_series_work t cb) = []" "sw_first (new_series_work t cb) = t" "\<not> sw_in_parallel (new_series_work t cb)"
    using new_series_inv [of t cb] by (simp_all add: todo_def new_series_work_def)
  then show ?case unfolding f' using new_series_inv [of t cb] series by (intro forest_put) auto
next
  case (to_back f t T s f')
  obtain S S' where S: "fl_series f s = Some S" "push_back S t = Some S'" "f' = f\<lparr>fl_tasks := (fl_tasks f)(t \<mapsto> T\<lparr>st_pointer := Some s\<rparr>), fl_series := (fl_series f)(s \<mapsto> S')\<rparr>"
    using to_back(2,5) by (auto simp: series_push_back_def set_pointer_def split: bind_splits)
  have "series_inv S" using forestD(3) [OF to_back(6) S(1)] by blast
  then show ?case using push_back_todo [of S t] push_first(1) [OF S(2)] S by (intro forest_push [OF to_back(6,2,3,4) S(1) _ _ _ _ _ S(3)]) auto
next
  case (to_front f t T s f')
  obtain S S' where S: "fl_series f s = Some S" "push_front S t = Some S'" "f' = f\<lparr>fl_tasks := (fl_tasks f)(t \<mapsto> T\<lparr>st_pointer := Some s\<rparr>), fl_series := (fl_series f)(s \<mapsto> S')\<rparr>"
    using to_front(2,5) by (auto simp: series_push_front_def set_pointer_def split: bind_splits)
  have "series_inv S" using forestD(3) [OF to_front(6) S(1)] by blast
  then show ?case using push_front_todo [of S t] push_first(2) [OF S(2)] S by (intro forest_push [OF to_front(6,2,3,4) S(1) _ _ _ _ _ S(3)]) auto
next
  case (to_end f s S t T f')
  have f': "f' = f\<lparr>fl_tasks := (fl_tasks f)(t \<mapsto> T\<lparr>st_pointer := Some s\<rparr>), fl_series := (fl_series f)(s \<mapsto> set_last_task S t)\<rparr>"
    using to_end(2,4,7) by (auto simp: series_set_last_task_def set_pointer_def split: bind_splits)
  have "series_inv S" using forestD(3) [OF to_end(8) to_end(2)] by blast
  moreover have "todo (set_last_task S t) = todo S @ [t]" using to_end(3) last_task_pending(1,5) [of S t] by (simp add: todo_def)
  ultimately show ?case using last_task_pending(3) [of S t] by (intro forest_push [OF to_end(8,4,5,6) to_end(2) _ _ _ _ _ f']) (auto simp: set_last_task_def)
next
  case (add f p T P s f')
  then show ?case by (intro forest_add [OF add(7) add(2-6)])
qed

section \<open>Complete works\<close>

lemma forest_ready:
  assumes F: "forest U H R f" and root: "fl_series f root = Some S" "\<not> sw_in_parallel S" "U root = None"
    and all: "\<And>z Z. fl_series f z = Some Z \<Longrightarrow> z \<noteq> root \<Longrightarrow> sw_in_parallel Z" "\<And>t T. fl_tasks f t = Some T \<Longrightarrow> st_pointer T \<noteq> None"
  shows "ready U H R root f"
proof -
  note D = forestD [OF F]
  have U: "sw_in_parallel Z \<longleftrightarrow> z \<noteq> root" "U z = None \<longleftrightarrow> z = root" if "fl_series f z = Some Z" for z Z
    using that root all(1) [OF that] D(4) [OF that] by (cases "z = root"; auto)+
  have "ready_series U root f" unfolding ready_series_def using D(3) U by simp
  moreover have "ready_tasks U H f" unfolding ready_tasks_def
  proof (intro allI impI)
    fix t T assume t: "fl_tasks f t = Some T"
    obtain z where z: "st_pointer T = Some z" using all(2) [OF t] by blast
    have "st_pointer T = Some (H t) \<and> buf_ok P \<and> (\<forall>i < pw_subtasks_nr P. \<exists>z Z. sub_series P i = Some z \<and> fl_series f z = Some Z \<and> U z = Some (t, i) \<and> pw_buf P ! i = Some (sw_first Z))"
      if P: "st_parallel T = Some P" for P using D(6) [OF t z] z P D(7) [OF t P] D(8) [OF t P] by fastforce
    then show "st_parent T = None \<and> st_entry T = None \<and> (\<exists>z \<in> dom (fl_series f). st_pointer T = Some z) \<and>
     (\<forall>P. st_parallel T = Some P \<longrightarrow> st_pointer T = Some (H t) \<and> buf_ok P \<and>
        (\<forall>i < pw_subtasks_nr P. \<exists>z Z. sub_series P i = Some z \<and> fl_series f z = Some Z \<and> U z = Some (t, i) \<and> pw_buf P ! i = Some (sw_first Z)))"
      using D(5) [OF t] D(6) [OF t z] z by blast
  qed
  moreover have "inv_up U H R (fl_tasks f) (fl_series f)" unfolding inv_up_def
  proof (intro allI impI)
    fix s S p i assume s: "fl_series f s = Some S" "U s = Some (p, i)"
    then have "sw_in_parallel S" using U [OF s(1)] by simp
    from D(4) [OF s(1) this] show "R s < R (H p) \<and> (\<exists>T P. fl_tasks f p = Some T \<and> st_parallel T = Some P \<and> i < pw_subtasks_nr P \<and> sub_series P i = Some s)" using s(2) by auto
  qed
  ultimately show ?thesis using D(1,2) root(1) by (auto simp: ready_def)
qed


lemma demo_built: "built demo_U (\<lambda>p. 20) demo_R demo_flow"
proof -
  let ?b = "built demo_U (\<lambda>p. 20) demo_R"
  have "?b (\<lparr>fl_tasks = Map.empty, fl_series = Map.empty, fl_log = [], fl_acts = []\<rparr>\<lparr>fl_tasks := [1 \<mapsto> new_subtask]\<rparr>)"
    using built.task [OF built.nothing, of 1] by simp
  then have "?b \<lparr>fl_tasks = [1 \<mapsto> new_subtask, 2 \<mapsto> new_subtask], fl_series = Map.empty, fl_log = [], fl_acts = []\<rparr>" using built.task [of _ _ _ _ 2] by fastforce
  then have 0: "?b empty_flow" unfolding empty_flow_def using built.task [of _ _ _ _ 4] by fastforce
  obtain f1 where 1: "create_series_work 10 1 None empty_flow = Some f1" "fl_series f1 = [10 \<mapsto> new_series_work 1 None]"
    "fl_tasks f1 = [1 \<mapsto> new_subtask\<lparr>st_pointer := Some 10\<rparr>, 2 \<mapsto> new_subtask, 4 \<mapsto> new_subtask]"
    by (auto simp: create_series_work_def set_pointer_def empty_flow_def fun_eq_iff)
  have b1: "?b f1" by (rule built.series [where T = new_subtask, OF 0 _ _ _ _ 1(1)]) (simp_all add: empty_flow_def new_subtask_def)
  obtain f2 where 2: "create_series_work 11 2 None f1 = Some f2" "fl_series f2 = [10 \<mapsto> new_series_work 1 None, 11 \<mapsto> new_series_work 2 None]"
    "fl_tasks f2 = [1 \<mapsto> new_subtask\<lparr>st_pointer := Some 10\<rparr>, 2 \<mapsto> new_subtask\<lparr>st_pointer := Some 11\<rparr>, 4 \<mapsto> new_subtask]"
    using 1 by (auto simp: create_series_work_def set_pointer_def fun_eq_iff)
  have b2: "?b f2" by (rule built.series [where T = new_subtask, OF b1 _ _ _ _ 2(1)]) (simp_all add: 1 new_subtask_def)
  obtain f3 where 3: "create_parallel_work 3 [10, 11] (Some 7) 0 f2 = Some f3"
    "fl_tasks f3 = (fl_tasks f2)(3 \<mapsto> new_subtask\<lparr>st_parallel := Some demo_parallel\<rparr>)" "fl_series f3 20 = None"
    using 2 by (auto simp: create_parallel_work_def new_series_work_def wr_def demo_parallel_def numeral_eq_Suc)
  have b3: "?b f3" by (rule built.parallel_of [OF b2 _ _ 3(1)]) (auto simp: 2 demo_U_def demo_R_def less_Suc_eq)
  obtain f4 where 4: "create_series_work 20 3 (Some 8) f3 = Some f4" "fl_tasks f4 4 = Some new_subtask" using 3 2 by (auto simp: create_series_work_def set_pointer_def)
  have b4: "?b f4" by (rule built.series [where T = "new_subtask\<lparr>st_parallel := Some demo_parallel\<rparr>", OF b3 3(3) _ _ _ 4(1)]) (simp_all add: 3(2) new_subtask_def)
  have "demo_build = series_push_back 20 4 f4" unfolding demo_build_def 1(1) using 2(1) 3(1) 4(1) by simp
  moreover have "demo_build = Some demo_flow" unfolding demo_flow_def demo_value by simp
  ultimately have 5: "series_push_back 20 4 f4 = Some demo_flow" by simp
  show ?thesis by (rule built.to_back [OF b4 4(2) _ _ 5]) (simp_all add: new_subtask_def)
qed

section \<open>Properties\<close>

text \<open>
  whatever the user builds with \<^verbatim>\<open>create_series_work\<close>, \<^verbatim>\<open>create_parallel_work\<close>, \<^verbatim>\<open>push_back\<close>, \<^verbatim>\<open>push_front\<close>, \<^verbatim>\<open>set_last_task\<close> and
  \<^verbatim>\<open>add_series\<close>, in any order, is well formed: once every task is in a series and every series but the root in a parallel work, the
  work is ready to be started or dismissed.
\<close>

theorem built_ready:
  assumes "built U H R f" "fl_series f root = Some S" "\<not> sw_in_parallel S" "U root = None"
    and "\<And>z Z. fl_series f z = Some Z \<Longrightarrow> z \<noteq> root \<Longrightarrow> sw_in_parallel Z" "\<And>t T. fl_tasks f t = Some T \<Longrightarrow> st_pointer T \<noteq> None"
  shows "ready U H R root f"
  using forest_ready [OF built_forest [OF assms(1)] assms(2-4)] assms(5,6) by blast

theorem built_ready_witness: "built demo_U (\<lambda>p. 20) demo_R demo_flow \<and> ready demo_U (\<lambda>p. 20) demo_R 20 demo_flow"
proof
  show "ready demo_U (\<lambda>p. 20) demo_R 20 demo_flow"
    by (rule built_ready [OF demo_built, of 20 demo_root])
      (auto simp: demo_fields demo_todo demo_U_def new_subtask_def split: if_splits)
qed (rule demo_built)

end
