(* ===== verification/Kernel_List.thy ===== *)
theory Kernel_List
  imports WF_Prelude
begin

text \<open>
  The intrusive lists of \<^verbatim>\<open>workflow/src/kernel/list.h\<close>. Nodes live at addresses, address \<open>0\<close> is
  \<^verbatim>\<open>NULL\<close>, and a heap maps every address to its \<^verbatim>\<open>next\<close> and \<^verbatim>\<open>prev\<close> fields. Following a null pointer
  gives \<open>None\<close>. The doubly linked list is circular through its head; \<open>dlist h hd xs\<close> says that
  the nodes linked from \<open>hd\<close> are exactly \<open>xs\<close>, in this order and with consistent back links.
  The second half models the singly linked \<^verbatim>\<open>slist\<close>, whose head stores a pointer to the last node.
\<close>

section \<open>Doubly linked lists\<close>

record list_heap =
  nxt :: "addr \<Rightarrow> addr"
  prv :: "addr \<Rightarrow> addr"

definition set_nxt :: "addr \<Rightarrow> addr \<Rightarrow> list_heap \<Rightarrow> list_heap option" where
  "set_nxt p v h = (if p = 0 then None else Some (h\<lparr>nxt := (nxt h)(p := v)\<rparr>))"

definition set_prv :: "addr \<Rightarrow> addr \<Rightarrow> list_heap \<Rightarrow> list_heap option" where
  "set_prv p v h = (if p = 0 then None else Some (h\<lparr>prv := (prv h)(p := v)\<rparr>))"

definition INIT_LIST_HEAD :: "addr \<Rightarrow> list_heap \<Rightarrow> list_heap option" where
  "INIT_LIST_HEAD l h = do { h \<leftarrow> set_nxt l l h; set_prv l l h }"

definition list_add_between :: "addr \<Rightarrow> addr \<Rightarrow> addr \<Rightarrow> list_heap \<Rightarrow> list_heap option" where
  "list_add_between node pr ne h =
     do { h \<leftarrow> set_prv ne node h;
          h \<leftarrow> set_nxt node ne h;
          h \<leftarrow> set_prv node pr h;
          set_nxt pr node h }"

definition list_add :: "addr \<Rightarrow> addr \<Rightarrow> list_heap \<Rightarrow> list_heap option" where
  "list_add node head h = list_add_between node head (nxt h head) h"

definition list_add_tail :: "addr \<Rightarrow> addr \<Rightarrow> list_heap \<Rightarrow> list_heap option" where
  "list_add_tail node head h = list_add_between node (prv h head) head h"

definition list_del_between :: "addr \<Rightarrow> addr \<Rightarrow> list_heap \<Rightarrow> list_heap option" where
  "list_del_between pr ne h = do { h \<leftarrow> set_prv ne pr h; set_nxt pr ne h }"

definition list_del :: "addr \<Rightarrow> list_heap \<Rightarrow> list_heap option" where
  "list_del e h = list_del_between (prv h e) (nxt h e) h"

definition list_move :: "addr \<Rightarrow> addr \<Rightarrow> list_heap \<Rightarrow> list_heap option" where
  "list_move l head h = do { h \<leftarrow> list_del_between (prv h l) (nxt h l) h; list_add l head h }"

definition list_move_tail :: "addr \<Rightarrow> addr \<Rightarrow> list_heap \<Rightarrow> list_heap option" where
  "list_move_tail l head h = do { h \<leftarrow> list_del_between (prv h l) (nxt h l) h; list_add_tail l head h }"

definition list_empty :: "addr \<Rightarrow> list_heap \<Rightarrow> bool" where
  "list_empty head h \<longleftrightarrow> nxt h head = head"

definition list_splice_nodes :: "addr \<Rightarrow> addr \<Rightarrow> list_heap \<Rightarrow> list_heap option" where
  "list_splice_nodes l head h =
     (let fst = nxt h l; lst = prv h l; at = nxt h head
      in do { h \<leftarrow> set_prv fst head h;
              h \<leftarrow> set_nxt head fst h;
              h \<leftarrow> set_nxt lst at h;
              set_prv at lst h })"

definition list_splice :: "addr \<Rightarrow> addr \<Rightarrow> list_heap \<Rightarrow> list_heap option" where
  "list_splice l head h = (if \<not> list_empty l h then list_splice_nodes l head h else Some h)"

definition list_splice_init :: "addr \<Rightarrow> addr \<Rightarrow> list_heap \<Rightarrow> list_heap option" where
  "list_splice_init l head h =
     (if \<not> list_empty l h then do { h \<leftarrow> list_splice_nodes l head h; INIT_LIST_HEAD l h } else Some h)"

text \<open>
  \<^verbatim>\<open>list_for_each\<close> and \<^verbatim>\<open>list_for_each_prev\<close> as the sequence of nodes they visit, when the body
  leaves the list alone; the walk ends when it meets the head again.
\<close>

partial_function (option) list_walk :: "(addr \<Rightarrow> addr) \<Rightarrow> addr \<Rightarrow> addr \<Rightarrow> addr list option" where
  "list_walk step pos head =
     (if pos = head then Some [] else do { xs \<leftarrow> list_walk step (step pos) head; Some (pos # xs) })"

definition list_for_each :: "addr \<Rightarrow> list_heap \<Rightarrow> addr list option" where
  "list_for_each head h = list_walk (nxt h) (nxt h head) head"

definition list_for_each_prev :: "addr \<Rightarrow> list_heap \<Rightarrow> addr list option" where
  "list_for_each_prev head h = list_walk (prv h) (prv h head) head"

text \<open>
  \<^verbatim>\<open>list_for_each_safe\<close>: the successor is read before the body runs, so the body may unlink the
  node it is given.
\<close>

partial_function (option) list_for_each_safe_from ::
  "('s \<Rightarrow> list_heap) \<Rightarrow> (addr \<Rightarrow> 's \<Rightarrow> 's option) \<Rightarrow> addr \<Rightarrow> addr \<Rightarrow> addr \<Rightarrow> 's \<Rightarrow> 's option"
where
  "list_for_each_safe_from hp body pos n head s =
     (if pos = head then Some s
      else do { s \<leftarrow> body pos s;
                list_for_each_safe_from hp body n (nxt (hp s) n) head s })"

definition list_for_each_safe ::
  "('s \<Rightarrow> list_heap) \<Rightarrow> (addr \<Rightarrow> 's \<Rightarrow> 's option) \<Rightarrow> addr \<Rightarrow> 's \<Rightarrow> 's option" where
  "list_for_each_safe hp body head s =
     list_for_each_safe_from hp body (nxt (hp s) head) (nxt (hp s) (nxt (hp s) head)) head s"

section \<open>The abstraction of a doubly linked list\<close>

fun lseg :: "list_heap \<Rightarrow> addr \<Rightarrow> addr list \<Rightarrow> addr \<Rightarrow> bool" where
  "lseg h a [] b \<longleftrightarrow> nxt h a = b \<and> prv h b = a"
| "lseg h a (x # xs) b \<longleftrightarrow> nxt h a = x \<and> prv h x = a \<and> lseg h x xs b"

definition dlist :: "list_heap \<Rightarrow> addr \<Rightarrow> addr list \<Rightarrow> bool" where
  "dlist h head xs \<longleftrightarrow> lseg h head xs head \<and> distinct (head # xs) \<and> 0 \<notin> set (head # xs)"

lemma set_nxt_ok [simp]: "p \<noteq> 0 \<Longrightarrow> set_nxt p v h = Some (h\<lparr>nxt := (nxt h)(p := v)\<rparr>)"
  by (simp add: set_nxt_def)

lemma set_prv_ok [simp]: "p \<noteq> 0 \<Longrightarrow> set_prv p v h = Some (h\<lparr>prv := (prv h)(p := v)\<rparr>)"
  by (simp add: set_prv_def)

lemma lseg_append: "lseg h a (xs @ y # ys) b \<longleftrightarrow> lseg h a xs y \<and> lseg h y ys b"
  by (induction xs arbitrary: a) auto

lemma lseg_nxt: "lseg h a xs b \<Longrightarrow> nxt h a = hd (xs @ [b])"
  by (cases xs) auto

lemma lseg_last: "lseg h a xs b \<Longrightarrow> nxt h (last (a # xs)) = b \<and> prv h b = last (a # xs)"
  by (induction xs arbitrary: a) auto

lemma lseg_prv: "lseg h a xs b \<Longrightarrow> prv h b = last (a # xs)"
  using lseg_last by blast

lemma lseg_split:
  assumes "lseg h a (xs @ ys) b"
  shows "lseg h a xs (hd (ys @ [b])) \<and> lseg h (last (a # xs)) ys b"
proof (cases ys)
  case Nil
  with assms lseg_last [of h a xs b] show ?thesis by simp
next
  case (Cons y zs)
  with assms lseg_last [of h a xs y] show ?thesis by (simp add: lseg_append)
qed

text \<open>A segment only depends on the forward links of its start and nodes, and on the backward
  links of its nodes and end.\<close>

lemma lseg_cong:
  assumes "\<forall>p \<in> set (a # xs). nxt h' p = nxt h p" "\<forall>p \<in> set (xs @ [b]). prv h' p = prv h p"
  shows "lseg h' a xs b = lseg h a xs b"
  using assms by (induction xs arbitrary: a) auto

lemma lseg_frame_nxt [simp]: "p \<notin> set (a # xs) \<Longrightarrow> lseg (h\<lparr>nxt := (nxt h)(p := v)\<rparr>) a xs b = lseg h a xs b"
  by (rule lseg_cong) auto

lemma lseg_frame_prv [simp]: "p \<notin> set (xs @ [b]) \<Longrightarrow> lseg (h\<lparr>prv := (prv h)(p := v)\<rparr>) a xs b = lseg h a xs b"
  by (rule lseg_cong) auto

text \<open>Redirecting one end of a segment: closing it at another node.\<close>

lemma lseg_relink_end:
  assumes "lseg h a xs b" "distinct (a # xs)" "nb \<notin> set xs" "z = last (a # xs)"
  shows "lseg (h\<lparr>nxt := (nxt h)(z := nb), prv := (prv h)(nb := z)\<rparr>) a xs nb"
proof (cases xs rule: rev_cases)
  case Nil
  with assms show ?thesis by simp
next
  case (snoc ys y)
  with assms(4) have z: "z = y" by simp
  have "lseg (h\<lparr>nxt := (nxt h)(z := nb), prv := (prv h)(nb := z)\<rparr>) a ys y"
    using assms snoc z by (subst lseg_cong [where h = h]) (auto simp: lseg_append)
  then show ?thesis by (simp add: snoc lseg_append z)
qed

lemma lseg_relink_start:
  assumes "lseg h a xs b" "distinct (xs @ [b])" "na \<notin> set xs" "z = hd (xs @ [b])"
  shows "lseg (h\<lparr>nxt := (nxt h)(na := z), prv := (prv h)(z := na)\<rparr>) na xs b"
proof (cases xs)
  case Nil
  with assms show ?thesis by simp
next
  case (Cons y ys)
  with assms(4) have z: "z = y" by simp
  have "lseg (h\<lparr>nxt := (nxt h)(na := z), prv := (prv h)(z := na)\<rparr>) y ys b"
    using assms Cons z by (subst lseg_cong [where h = h]) auto
  then show ?thesis by (simp add: Cons z)
qed

lemma dlist_empty_iff: "dlist h head xs \<Longrightarrow> list_empty head h \<longleftrightarrow> xs = []"
  by (cases xs) (auto simp: dlist_def list_empty_def)

lemma dlist_nxt_head: "dlist h head xs \<Longrightarrow> nxt h head = hd (xs @ [head])"
  by (auto simp: dlist_def dest: lseg_nxt)

lemma dlist_prv_head: "dlist h head xs \<Longrightarrow> prv h head = last (head # xs)"
  unfolding dlist_def by (blast dest: lseg_prv)

lemma dlist_cong:
  assumes "\<forall>p \<in> set (head # xs). nxt h' p = nxt h p \<and> prv h' p = prv h p"
  shows "dlist h' head xs = dlist h head xs"
proof -
  have "lseg h' head xs head = lseg h head xs head" using assms by (intro lseg_cong) auto
  then show ?thesis by (simp add: dlist_def)
qed

section \<open>What the operations do\<close>

lemma INIT_LIST_HEAD_dlist:
  assumes "head \<noteq> 0"
  shows "\<exists>h'. INIT_LIST_HEAD head h = Some h' \<and> dlist h' head []"
  using assms by (simp add: INIT_LIST_HEAD_def dlist_def)

text \<open>Inserting between two neighbours, and unlinking what is between two neighbours.\<close>

lemma add_between_dlist:
  assumes "dlist h head (xs @ ys)" "node \<noteq> 0" "node \<notin> set (head # xs @ ys)"
    "pr = last (head # xs)" "ne = hd (ys @ [head])"
  shows "\<exists>h'. list_add_between node pr ne h = Some h' \<and> dlist h' head (xs @ node # ys) \<and>
     (\<forall>p. p \<notin> set (head # node # xs @ ys) \<longrightarrow> nxt h' p = nxt h p \<and> prv h' p = prv h p)"
proof -
  let ?h = "h\<lparr>nxt := (nxt h)(node := ne, pr := node), prv := (prv h)(ne := node, node := pr)\<rparr>"
  have seg: "lseg h head (xs @ ys) head" and dist: "distinct (head # xs @ ys)" "0 \<notin> set (head # xs @ ys)"
    using assms(1) by (auto simp: dlist_def)
  have pr: "pr \<in> set (head # xs)" "pr \<notin> set ys" using assms(4) dist by (cases xs rule: rev_cases; auto)+
  have ne: "ne \<in> set (head # ys)" "ne \<notin> set xs" using assms(5) dist by (cases ys; auto)+
  have nodes: "pr \<noteq> 0" "ne \<noteq> 0" "pr \<noteq> node" "ne \<noteq> node" using pr ne assms(2,3) dist by auto
  have 1: "lseg h head xs ne" and 2: "lseg h pr ys head"
    using lseg_split [OF seg] assms(4,5) by auto
  have "lseg (h\<lparr>nxt := (nxt h)(pr := node), prv := (prv h)(node := pr)\<rparr>) head xs node"
    using 1 dist assms(3,4) by (intro lseg_relink_end) auto
  then have A: "lseg ?h head xs node"
    using nodes ne assms(3) by (subst lseg_cong) auto
  have "lseg (h\<lparr>nxt := (nxt h)(node := ne), prv := (prv h)(ne := node)\<rparr>) node ys head"
    using 2 dist assms(3,5) by (intro lseg_relink_start) auto
  then have B: "lseg ?h node ys head"
    using nodes pr assms(3) by (subst lseg_cong) auto
  have "list_add_between node pr ne h = Some ?h"
    using nodes assms(2) by (simp add: list_add_between_def fun_upd_twist)
  moreover have "dlist ?h head (xs @ node # ys)"
    using A B dist assms(2,3) by (auto simp: dlist_def lseg_append)
  moreover have "\<forall>p. p \<notin> set (head # node # xs @ ys) \<longrightarrow> nxt ?h p = nxt h p \<and> prv ?h p = prv h p"
    using pr ne by auto
  ultimately show ?thesis by blast
qed

lemma list_add_dlist:
  assumes "dlist h head xs" "node \<noteq> 0" "node \<notin> set (head # xs)"
  shows "\<exists>h'. list_add node head h = Some h' \<and> dlist h' head (node # xs) \<and>
     (\<forall>p. p \<notin> set (head # node # xs) \<longrightarrow> nxt h' p = nxt h p \<and> prv h' p = prv h p)"
  using add_between_dlist [of h head "[]" xs node] assms
  by (simp add: list_add_def dlist_nxt_head)

lemma list_add_tail_dlist:
  assumes "dlist h head xs" "node \<noteq> 0" "node \<notin> set (head # xs)"
  shows "\<exists>h'. list_add_tail node head h = Some h' \<and> dlist h' head (xs @ [node]) \<and>
     (\<forall>p. p \<notin> set (head # node # xs) \<longrightarrow> nxt h' p = nxt h p \<and> prv h' p = prv h p)"
  using add_between_dlist [of h head xs "[]" node] assms
  by (simp add: list_add_tail_def dlist_prv_head)

lemma dlist_neighbours:
  assumes "dlist h head (xs @ e # ys)"
  shows "prv h e = last (head # xs)" "nxt h e = hd (ys @ [head])"
  using assms lseg_prv [of h head xs e] lseg_nxt [of h e ys head]
  by (auto simp: dlist_def lseg_append)

lemma list_del_dlist:
  assumes "dlist h head (xs @ e # ys)"
  shows "\<exists>h'. list_del e h = Some h' \<and> dlist h' head (xs @ ys) \<and>
     (\<forall>p. p \<notin> set (head # xs @ ys) \<longrightarrow> nxt h' p = nxt h p \<and> prv h' p = prv h p)"
proof -
  let ?pr = "last (head # xs)" and ?ne = "hd (ys @ [head])"
  let ?h = "h\<lparr>nxt := (nxt h)(?pr := ?ne), prv := (prv h)(?ne := ?pr)\<rparr>"
  have seg: "lseg h head xs e" "lseg h e ys head"
    and dist: "distinct (head # xs @ e # ys)" "0 \<notin> set (head # xs @ e # ys)"
    using assms by (auto simp: dlist_def lseg_append)
  have pr: "?pr \<in> set (head # xs)" "?pr \<notin> set ys" "?pr \<noteq> 0"
    using dist by (cases xs rule: rev_cases; auto)+
  have ne: "?ne \<in> set (head # ys)" "?ne \<notin> set xs" "?ne \<noteq> 0" using dist by (cases ys; auto)+
  have A: "lseg ?h head xs ?ne" using seg(1) dist ne by (intro lseg_relink_end) auto
  have dl: "lseg ?h head (xs @ ys) head"
  proof (cases ys)
    case Nil
    with A show ?thesis by simp
  next
    case (Cons y zs)
    have "lseg ?h y zs head" using seg(2) dist pr Cons by (subst lseg_cong [where h = h]) auto
    with A Cons show ?thesis by (simp add: lseg_append)
  qed
  have "list_del e h = Some ?h"
    using pr ne dlist_neighbours [OF assms] by (simp add: list_del_def list_del_between_def)
  moreover have "dlist ?h head (xs @ ys)" using dl dist by (simp add: dlist_def)
  moreover have "\<forall>p. p \<notin> set (head # xs @ ys) \<longrightarrow> nxt ?h p = nxt h p \<and> prv ?h p = prv h p"
    using pr ne by auto
  ultimately show ?thesis by blast
qed

lemma list_move_unfold:
  "list_move l head h = do { h \<leftarrow> list_del l h; list_add l head h }"
  "list_move_tail l head h = do { h \<leftarrow> list_del l h; list_add_tail l head h }"
  by (simp_all add: list_move_def list_move_tail_def list_del_def)

lemma list_move_same:
  assumes "dlist h head (xs @ e # ys)"
  shows "\<exists>h'. list_move e head h = Some h' \<and> dlist h' head (e # xs @ ys)"
    "\<exists>h'. list_move_tail e head h = Some h' \<and> dlist h' head (xs @ ys @ [e])"
proof -
  obtain h1 where h1: "list_del e h = Some h1" "dlist h1 head (xs @ ys)"
    using list_del_dlist [OF assms] by blast
  have e: "e \<noteq> 0" "e \<notin> set (head # xs @ ys)" using assms by (auto simp: dlist_def)
  show "\<exists>h'. list_move e head h = Some h' \<and> dlist h' head (e # xs @ ys)"
    using h1 list_add_dlist [OF h1(2) e] by (auto simp: list_move_unfold)
  show "\<exists>h'. list_move_tail e head h = Some h' \<and> dlist h' head (xs @ ys @ [e])"
    using h1 list_add_tail_dlist [OF h1(2) e] by (auto simp: list_move_unfold)
qed

text \<open>Two lists with no node in common.\<close>

definition two_lists :: "list_heap \<Rightarrow> addr \<Rightarrow> addr list \<Rightarrow> addr \<Rightarrow> addr list \<Rightarrow> bool" where
  "two_lists h l xs head ys \<longleftrightarrow> dlist h l xs \<and> dlist h head ys \<and> set (l # xs) \<inter> set (head # ys) = {}"

lemma list_move_tail_other:
  assumes "two_lists h l (xs @ e # ys) head zs"
  shows "\<exists>h'. list_move_tail e head h = Some h' \<and> two_lists h' l (xs @ ys) head (zs @ [e])"
proof -
  have d: "dlist h l (xs @ e # ys)" "dlist h head zs" "set (l # xs @ e # ys) \<inter> set (head # zs) = {}"
    using assms by (auto simp: two_lists_def)
  obtain h1 where h1: "list_del e h = Some h1" "dlist h1 l (xs @ ys)"
    "\<forall>p. p \<notin> set (l # xs @ ys) \<longrightarrow> nxt h1 p = nxt h p \<and> prv h1 p = prv h p"
    using list_del_dlist [OF d(1)] by blast
  have "dlist h1 head zs" using d(2,3) h1(3) by (subst dlist_cong [where h = h]) auto
  moreover have e: "e \<noteq> 0" "e \<notin> set (head # zs)" "e \<notin> set (l # xs @ ys)"
    using d by (auto simp: dlist_def)
  ultimately obtain h2 where h2: "list_add_tail e head h1 = Some h2" "dlist h2 head (zs @ [e])"
    "\<forall>p. p \<notin> set (head # e # zs) \<longrightarrow> nxt h2 p = nxt h1 p \<and> prv h2 p = prv h1 p"
    using list_add_tail_dlist by blast
  have "dlist h2 l (xs @ ys)" using h1(2) h2(3) d(3) e(3) by (subst dlist_cong [where h = h1]) auto
  with h1 h2 d(3) e(3) show ?thesis
    by (auto simp: list_move_unfold two_lists_def)
qed

lemma splice_nodes_dlist:
  assumes "two_lists h l xs head ys" "xs \<noteq> []"
  shows "\<exists>h'. list_splice_nodes l head h = Some h' \<and> dlist h' head (xs @ ys) \<and>
     (\<forall>p. p \<notin> set (head # xs @ ys) \<longrightarrow> nxt h' p = nxt h p \<and> prv h' p = prv h p)"
proof -
  let ?f = "hd xs" and ?z = "last xs" and ?at = "hd (ys @ [head])"
  let ?h1 = "h\<lparr>nxt := (nxt h)(head := ?f), prv := (prv h)(?f := head)\<rparr>"
  let ?h = "?h1\<lparr>nxt := (nxt ?h1)(?z := ?at), prv := (prv ?h1)(?at := ?z)\<rparr>"
  have seg: "lseg h l xs l" "lseg h head ys head"
    and dist: "distinct (l # xs)" "distinct (head # ys)" "0 \<notin> set (l # head # xs @ ys)"
      "set (l # xs) \<inter> set (head # ys) = {}"
    using assms by (auto simp: two_lists_def dlist_def)
  have ends: "?f \<in> set xs" "?z \<in> set xs" using assms(2) by auto
  have at: "?at \<in> set (head # ys)" by (cases ys) auto
  have "lseg ?h1 head xs l" using seg(1) dist ends assms(2) by (intro lseg_relink_start) auto
  then have A: "lseg ?h head xs ?at"
    using dist at assms(2) by (intro lseg_relink_end) auto
  have B: "lseg ?h head (xs @ ys) head"
  proof (cases ys)
    case Nil
    with A show ?thesis by simp
  next
    case (Cons y zs)
    have "lseg ?h y zs head"
      using seg(2) dist ends Cons by (subst lseg_cong [where h = h]) auto
    with A Cons show ?thesis by (simp add: lseg_append)
  qed
  have nz: "head \<noteq> 0" "?f \<noteq> 0" "?z \<noteq> 0" "?at \<noteq> 0" using dist ends at by auto
  have "list_splice_nodes l head h = Some ?h"
    using nz seg assms(2) lseg_nxt [OF seg(1)] lseg_prv [OF seg(1)] lseg_nxt [OF seg(2)]
    by (simp add: list_splice_nodes_def Let_def)
  moreover have "dlist ?h head (xs @ ys)" using B dist by (auto simp: dlist_def)
  moreover have "\<forall>p. p \<notin> set (head # xs @ ys) \<longrightarrow> nxt ?h p = nxt h p \<and> prv ?h p = prv h p"
    using ends at by auto
  ultimately show ?thesis by blast
qed

lemma list_splice_init_lists:
  assumes "two_lists h l xs head ys"
  shows "\<exists>h'. list_splice_init l head h = Some h' \<and> two_lists h' l [] head (xs @ ys)"
proof (cases "xs = []")
  case True
  with assms dlist_empty_iff [of h l xs] show ?thesis
    by (auto simp: two_lists_def list_splice_init_def)
next
  case False
  obtain h1 where h1: "list_splice_nodes l head h = Some h1" "dlist h1 head (xs @ ys)"
    using splice_nodes_dlist [OF assms False] by blast
  have l: "l \<noteq> 0" "l \<notin> set (head # xs @ ys)" using assms by (auto simp: two_lists_def dlist_def)
  let ?h = "h1\<lparr>nxt := (nxt h1)(l := l), prv := (prv h1)(l := l)\<rparr>"
  have "dlist ?h head (xs @ ys)" using h1(2) l by (subst dlist_cong [where h = h1]) auto
  moreover have "list_splice_init l head h = Some ?h"
    using False assms h1(1) l dlist_empty_iff [of h l xs]
    by (simp add: list_splice_init_def INIT_LIST_HEAD_def two_lists_def)
  moreover have "dlist ?h l []" using l by (simp add: dlist_def)
  ultimately show ?thesis using l by (auto simp: two_lists_def)
qed

section \<open>Walking over a list\<close>

lemma list_walk_stop [simp]: "list_walk step head head = Some []"
  by (simp add: list_walk.simps)

lemma list_walk_lseg: "lseg h a xs b \<Longrightarrow> b \<notin> set xs \<Longrightarrow> list_walk (nxt h) (nxt h a) b = Some xs"
  by (induction xs arbitrary: a) (auto simp: list_walk.simps)

lemma list_walk_lseg_prv:
  "lseg h a xs b \<Longrightarrow> a \<notin> set xs \<Longrightarrow> list_walk (prv h) (prv h b) a = Some (rev xs)"
  by (induction xs arbitrary: b rule: rev_induct) (auto simp: list_walk.simps lseg_append)

lemma list_for_each_dlist: "dlist h head xs \<Longrightarrow> list_for_each head h = Some xs"
  by (auto simp: dlist_def list_for_each_def intro: list_walk_lseg)

lemma list_for_each_prev_dlist: "dlist h head xs \<Longrightarrow> list_for_each_prev head h = Some (rev xs)"
  by (auto simp: dlist_def list_for_each_prev_def intro: list_walk_lseg_prv)

text \<open>
  The rule for \<^verbatim>\<open>list_for_each_safe\<close>: \<open>I xs s\<close> is the invariant when the nodes \<open>xs\<close> are still
  to be visited. The body may unlink its node, as long as the rest of the list stays in order.
\<close>

lemma list_for_each_safe_from_rule:
  assumes step: "\<And>x xs s. I (x # xs) s \<Longrightarrow>
      x \<noteq> head \<and> nxt (hp s) x = hd (xs @ [head]) \<and> (\<exists>s'. body x s = Some s' \<and> I xs s')"
    and "I xs s"
  shows "\<exists>s'. list_for_each_safe_from hp body (hd (xs @ [head])) (nxt (hp s) (hd (xs @ [head]))) head s
      = Some s' \<and> I [] s'"
  using assms(2)
proof (induction xs arbitrary: s)
  case Nil
  then show ?case by (simp add: list_for_each_safe_from.simps)
next
  case (Cons x xs)
  then obtain s' where s': "x \<noteq> head" "nxt (hp s) x = hd (xs @ [head])" "body x s = Some s'" "I xs s'"
    using step by blast
  then show ?case using Cons.IH [of s']
    by (simp add: list_for_each_safe_from.simps [of hp body x])
qed

lemma list_for_each_safe_rule:
  assumes "\<And>x xs s. I (x # xs) s \<Longrightarrow>
      x \<noteq> head \<and> nxt (hp s) x = hd (xs @ [head]) \<and> (\<exists>s'. body x s = Some s' \<and> I xs s')"
    and "I xs s" and "nxt (hp s) head = hd (xs @ [head])"
  shows "\<exists>s'. list_for_each_safe hp body head s = Some s' \<and> I [] s'"
  using list_for_each_safe_from_rule [of I head hp body xs s] assms
  by (simp add: list_for_each_safe_def)

section \<open>Singly linked lists\<close>

text \<open>
  \<^verbatim>\<open>struct slist_head\<close> embeds a first node and a pointer to the last node. The address of a list
  is the address of its embedded node \<^verbatim>\<open>first\<close>; \<open>lastp\<close> maps it to the \<^verbatim>\<open>last\<close> field.
\<close>

record slist_heap =
  snxt :: "addr \<Rightarrow> addr"
  lastp :: "addr \<Rightarrow> addr"

definition set_snxt :: "addr \<Rightarrow> addr \<Rightarrow> slist_heap \<Rightarrow> slist_heap option" where
  "set_snxt p v h = (if p = 0 then None else Some (h\<lparr>snxt := (snxt h)(p := v)\<rparr>))"

definition get_snxt :: "addr \<Rightarrow> slist_heap \<Rightarrow> addr option" where
  "get_snxt p h = (if p = 0 then None else Some (snxt h p))"

definition set_last :: "addr \<Rightarrow> addr \<Rightarrow> slist_heap \<Rightarrow> slist_heap" where
  "set_last l v h = h\<lparr>lastp := (lastp h)(l := v)\<rparr>"

definition INIT_SLIST_HEAD :: "addr \<Rightarrow> slist_heap \<Rightarrow> slist_heap option" where
  "INIT_SLIST_HEAD l h = do { h \<leftarrow> set_snxt l 0 h; Some (set_last l l h) }"

definition slist_add_head :: "addr \<Rightarrow> addr \<Rightarrow> slist_heap \<Rightarrow> slist_heap option" where
  "slist_add_head node l h =
     do { h \<leftarrow> set_snxt node (snxt h l) h;
          h \<leftarrow> set_snxt l node h;
          Some (if snxt h node = 0 then set_last l node h else h) }"

definition slist_add_tail :: "addr \<Rightarrow> addr \<Rightarrow> slist_heap \<Rightarrow> slist_heap option" where
  "slist_add_tail node l h =
     do { h \<leftarrow> set_snxt node 0 h;
          h \<leftarrow> set_snxt (lastp h l) node h;
          Some (set_last l node h) }"

definition slist_add_after :: "addr \<Rightarrow> addr \<Rightarrow> addr \<Rightarrow> slist_heap \<Rightarrow> slist_heap option" where
  "slist_add_after node pr l h =
     do { n \<leftarrow> get_snxt pr h;
          h \<leftarrow> set_snxt node n h;
          h \<leftarrow> set_snxt pr node h;
          Some (if snxt h node = 0 then set_last l node h else h) }"

definition slist_del_head :: "addr \<Rightarrow> slist_heap \<Rightarrow> slist_heap option" where
  "slist_del_head l h =
     do { n \<leftarrow> get_snxt (snxt h l) h;
          h \<leftarrow> set_snxt l n h;
          Some (if snxt h l = 0 then set_last l l h else h) }"

definition slist_del_after :: "addr \<Rightarrow> addr \<Rightarrow> slist_heap \<Rightarrow> slist_heap option" where
  "slist_del_after pr l h =
     do { e \<leftarrow> get_snxt pr h;
          n \<leftarrow> get_snxt e h;
          h \<leftarrow> set_snxt pr n h;
          Some (if snxt h pr = 0 then set_last l pr h else h) }"

definition slist_empty :: "addr \<Rightarrow> slist_heap \<Rightarrow> bool" where
  "slist_empty l h \<longleftrightarrow> snxt h l = 0"

definition slist_splice_nodes :: "addr \<Rightarrow> addr \<Rightarrow> addr \<Rightarrow> slist_heap \<Rightarrow> slist_heap option" where
  "slist_splice_nodes l at head h =
     do { n \<leftarrow> get_snxt at h;
          h \<leftarrow> set_snxt (lastp h l) n h;
          h \<leftarrow> set_snxt at (snxt h l) h;
          n \<leftarrow> get_snxt (lastp h l) h;
          Some (if n = 0 then set_last head (lastp h l) h else h) }"

definition slist_splice :: "addr \<Rightarrow> addr \<Rightarrow> addr \<Rightarrow> slist_heap \<Rightarrow> slist_heap option" where
  "slist_splice l at head h = (if \<not> slist_empty l h then slist_splice_nodes l at head h else Some h)"

definition slist_splice_init :: "addr \<Rightarrow> addr \<Rightarrow> addr \<Rightarrow> slist_heap \<Rightarrow> slist_heap option" where
  "slist_splice_init l at head h =
     (if \<not> slist_empty l h then do { h \<leftarrow> slist_splice_nodes l at head h; INIT_SLIST_HEAD l h } else Some h)"

fun spath :: "slist_heap \<Rightarrow> addr \<Rightarrow> addr list \<Rightarrow> addr \<Rightarrow> bool" where
  "spath h a [] b \<longleftrightarrow> snxt h a = b"
| "spath h a (x # xs) b \<longleftrightarrow> snxt h a = x \<and> spath h x xs b"

definition slist :: "slist_heap \<Rightarrow> addr \<Rightarrow> addr list \<Rightarrow> bool" where
  "slist h l xs \<longleftrightarrow> spath h l xs 0 \<and> distinct (l # xs) \<and> 0 \<notin> set (l # xs) \<and> lastp h l = last (l # xs)"

lemma set_snxt_ok [simp]: "p \<noteq> 0 \<Longrightarrow> set_snxt p v h = Some (h\<lparr>snxt := (snxt h)(p := v)\<rparr>)"
  by (simp add: set_snxt_def)

lemma get_snxt_ok [simp]: "p \<noteq> 0 \<Longrightarrow> get_snxt p h = Some (snxt h p)"
  by (simp add: get_snxt_def)

lemma spath_append: "spath h a (xs @ y # ys) b \<longleftrightarrow> spath h a xs y \<and> spath h y ys b"
  by (induction xs arbitrary: a) auto

lemma spath_cong: "\<forall>p \<in> set (a # xs). snxt h' p = snxt h p \<Longrightarrow> spath h' a xs b = spath h a xs b"
  by (induction xs arbitrary: a) auto

lemma spath_frame [simp]:
  "p \<notin> set (a # xs) \<Longrightarrow> spath (h\<lparr>snxt := (snxt h)(p := v)\<rparr>) a xs b = spath h a xs b"
  "spath (h\<lparr>lastp := w\<rparr>) a xs b = spath h a xs b"
  by (rule spath_cong; simp)+

lemma spath_relink:
  assumes "spath h a xs b" "distinct (a # xs)"
  shows "spath (h\<lparr>snxt := (snxt h)(last (a # xs) := nb)\<rparr>) a xs nb"
proof (cases xs rule: rev_cases)
  case Nil
  then show ?thesis by simp
next
  case (snoc ys y)
  with assms show ?thesis by (auto simp: spath_append)
qed

text \<open>The last node of a path links to its end; a null end marks the last node of the list.\<close>

lemma spath_last: "spath h a xs b \<Longrightarrow> snxt h (last (a # xs)) = b"
  by (induction xs arbitrary: a) auto

lemma spath_hd: "spath h a xs 0 \<Longrightarrow> 0 \<notin> set xs \<Longrightarrow> snxt h a = 0 \<longleftrightarrow> xs = []"
  by (cases xs) auto

lemma slist_empty_iff: "slist h l xs \<Longrightarrow> slist_empty l h \<longleftrightarrow> xs = []"
  by (auto simp: slist_def slist_empty_def dest: spath_hd)

lemma INIT_SLIST_HEAD_slist:
  "l \<noteq> 0 \<Longrightarrow> \<exists>h'. INIT_SLIST_HEAD l h = Some h' \<and> slist h' l []"
  by (simp add: INIT_SLIST_HEAD_def set_last_def slist_def)

lemma slist_add_tail_slist:
  assumes "slist h l xs" "node \<noteq> 0" "node \<notin> set (l # xs)"
  shows "\<exists>h'. slist_add_tail node l h = Some h' \<and> slist h' l (xs @ [node])"
proof -
  have s: "spath h l xs 0" "distinct (l # xs)" "0 \<notin> set (l # xs)" "lastp h l = last (l # xs)"
    using assms by (auto simp: slist_def)
  have z: "last (l # xs) \<in> set (l # xs)" by (rule last_in_set) simp
  have "spath (h\<lparr>snxt := (snxt h)(last (l # xs) := node)\<rparr>) l xs node"
    using s by (intro spath_relink) auto
  then have "spath (h\<lparr>snxt := (snxt h)(node := 0, last (l # xs) := node)\<rparr>) l xs node"
    using assms(3) z by (subst spath_cong) auto
  moreover have "last (l # xs) \<noteq> 0" "last (l # xs) \<noteq> node" using z s assms(3) by metis+
  ultimately show ?thesis using s assms(2,3)
    by (simp add: slist_add_tail_def set_last_def slist_def spath_append)
qed

lemma slist_add_after_slist:
  assumes "slist h l (xs @ ys)" "node \<noteq> 0" "node \<notin> set (l # xs @ ys)" "pr = last (l # xs)"
  shows "\<exists>h'. slist_add_after node pr l h = Some h' \<and> slist h' l (xs @ node # ys)"
proof -
  have s: "spath h l (xs @ ys) 0" "distinct (l # xs @ ys)" "0 \<notin> set (l # xs @ ys)"
    "lastp h l = last (l # xs @ ys)" using assms by (auto simp: slist_def)
  have pr: "pr \<in> set (l # xs)" "pr \<noteq> 0" "pr \<noteq> node" "pr \<notin> set ys"
    using assms s by (cases xs rule: rev_cases; auto)+
  let ?h = "h\<lparr>snxt := (snxt h)(node := snxt h pr, pr := node)\<rparr>"
  have n: "spath h l xs (snxt h pr) \<and> spath h node' ys 0" if "snxt h node' = snxt h pr" for node'
    using s(1) spath_last [of h l xs] that assms(4) by (cases ys) (auto simp: spath_append)
  have "spath (h\<lparr>snxt := (snxt h)(pr := node)\<rparr>) l xs node"
    unfolding assms(4) using n [of pr] s(2) by (intro spath_relink) auto
  then have A: "spath ?h l xs node" using pr assms(3) by (subst spath_cong) auto
  have B: "spath ?h node ys 0"
  proof (cases ys)
    case Nil
    then show ?thesis using n [of pr] pr by simp
  next
    case (Cons y zs)
    have "spath ?h y zs 0" using n [of pr] pr assms(3) Cons by (subst spath_cong [where h = h]) auto
    with n [of pr] Cons pr show ?thesis by simp
  qed
  have "snxt ?h node = 0 \<longleftrightarrow> ys = []" using B s(3) by (auto dest: spath_hd)
  with A B s pr assms(2,3) show ?thesis
    by (auto simp: slist_add_after_def set_last_def slist_def spath_append)
qed

lemma slist_del_after_slist:
  assumes "slist h l (xs @ e # ys)" "pr = last (l # xs)"
  shows "\<exists>h'. slist_del_after pr l h = Some h' \<and> slist h' l (xs @ ys)"
proof -
  have s: "spath h l xs e" "spath h e ys 0" "distinct (l # xs @ e # ys)" "0 \<notin> set (l # xs @ e # ys)"
    "lastp h l = last (l # xs @ e # ys)" using assms by (auto simp: slist_def spath_append)
  have pr: "pr \<in> set (l # xs)" "pr \<noteq> 0" "pr \<noteq> e" "pr \<notin> set ys"
    using assms s by (cases xs rule: rev_cases; auto)+
  let ?h = "h\<lparr>snxt := (snxt h)(pr := snxt h e)\<rparr>"
  have A: "spath ?h l xs (snxt h e)" unfolding assms(2) using s by (intro spath_relink) auto
  have B: "spath ?h l (xs @ ys) 0"
  proof (cases ys)
    case Nil
    with A s show ?thesis by simp
  next
    case (Cons y zs)
    with A s pr show ?thesis by (auto simp: spath_append)
  qed
  have "snxt h e = 0 \<longleftrightarrow> ys = []" using s by (auto dest: spath_hd)
  with B s pr spath_last [OF s(1)] assms(2) show ?thesis
    by (auto simp: slist_del_after_def set_last_def slist_def)
qed

lemma slist_add_head_after: "l \<noteq> 0 \<Longrightarrow> slist_add_head node l h = slist_add_after node l l h"
  by (simp add: slist_add_head_def slist_add_after_def)

lemma slist_del_head_after: "l \<noteq> 0 \<Longrightarrow> slist_del_head l h = slist_del_after l l h"
  by (simp add: slist_del_head_def slist_del_after_def)

lemma spath_split:
  assumes "spath h a (xs @ ys) b"
  shows "spath h a xs (hd (ys @ [b])) \<and> spath h (last (a # xs)) ys b"
proof (cases ys)
  case Nil
  with assms spath_last [of h a xs b] show ?thesis by simp
next
  case (Cons y zs)
  with assms spath_last [of h a xs y] show ?thesis by (simp add: spath_append)
qed

text \<open>Splicing list \<open>l\<close> into \<open>head\<close> behind the node \<open>at\<close>, which may be the head itself.\<close>

lemma slist_splice_init_slist:
  assumes "slist h l zs" "slist h head (xs @ ys)" "set (l # zs) \<inter> set (head # xs @ ys) = {}" "at = last (head # xs)"
  shows "\<exists>h'. slist_splice_init l at head h = Some h' \<and> slist h' l [] \<and> slist h' head (xs @ zs @ ys)"
proof (cases "zs = []")
  case True
  then show ?thesis using assms slist_empty_iff [OF assms(1)] by (auto simp: slist_splice_init_def)
next
  case False
  let ?z = "last zs" and ?n = "snxt h at"
  have L: "spath h l zs 0" "distinct (l # zs)" "0 \<notin> set (l # zs)" "lastp h l = ?z"
    using assms(1) False by (auto simp: slist_def)
  have H: "spath h head (xs @ ys) 0" "distinct (head # xs @ ys)" "0 \<notin> set (head # xs @ ys)" "lastp h head = last (head # xs @ ys)"
    using assms(2) by (auto simp: slist_def)
  have sp: "spath h head xs (hd (ys @ [0]))" "spath h at ys 0"
    using spath_split [OF H(1)] assms(4) by auto
  have at: "at \<in> set (head # xs)" "at \<notin> set ys" using assms(4) H(2) by (cases xs rule: rev_cases; auto)+
  have n: "?n = hd (ys @ [0])" using sp(2) by (cases ys) auto
  have zin: "?z \<in> set zs" using False by simp
  have nz: "at \<noteq> 0" "?z \<noteq> 0" "?z \<noteq> at" "l \<noteq> 0" "l \<noteq> at" "l \<noteq> head" "l \<noteq> ?z"
    using at zin L(2,3) H(3) assms(3) by auto
  obtain y zs' where zs: "zs = y # zs'" using False by (cases zs) auto
  have y: "snxt h l = y" using L(1) zs by simp
  let ?h1 = "h\<lparr>snxt := (snxt h)(?z := ?n, at := y)\<rparr>"
  have "spath (h\<lparr>snxt := (snxt h)(?z := ?n)\<rparr>) l zs ?n"
    using spath_relink [OF L(1,2), of ?n] False by simp
  then have "spath (h\<lparr>snxt := (snxt h)(?z := ?n)\<rparr>) y zs' ?n" by (simp add: zs)
  moreover have "at \<notin> set (y # zs')" using at(1) assms(3) zs by auto
  ultimately have P2: "spath ?h1 y zs' ?n" by (subst spath_cong [where h = "h\<lparr>snxt := (snxt h)(?z := ?n)\<rparr>"]) auto
  have "spath (h\<lparr>snxt := (snxt h)(at := y)\<rparr>) head xs y"
    unfolding assms(4) using sp(1) H(2) by (intro spath_relink) auto
  then have P1: "spath ?h1 head xs y"
    using zin assms(3) by (subst spath_cong [where h = "h\<lparr>snxt := (snxt h)(at := y)\<rparr>"]) auto
  have P3: "spath ?h1 head (xs @ zs @ ys) 0"
  proof (cases ys)
    case Nil
    with P1 P2 n show ?thesis by (simp add: zs spath_append)
  next
    case (Cons u us)
    have "spath ?h1 u us 0"
      using sp(2) Cons at(2) zin assms(3) by (subst spath_cong [where h = h]) auto
    with P1 P2 n Cons show ?thesis using spath_append [of ?h1 y zs' u us 0] by (simp add: zs spath_append)
  qed
  have n0: "?n = 0 \<longleftrightarrow> ys = []" using n H(3) by (cases ys) auto
  let ?h2 = "if ys = [] then set_last head ?z ?h1 else ?h1"
  let ?h3 = "set_last l l (?h2\<lparr>snxt := (snxt ?h2)(l := 0)\<rparr>)"
  have "slist_splice_init l at head h = Some ?h3"
    using nz L(4) False y n0 slist_empty_iff [OF assms(1)]
    by (simp add: slist_splice_init_def slist_splice_nodes_def INIT_SLIST_HEAD_def set_last_def)
  moreover have "slist ?h3 l []" using nz by (simp add: slist_def set_last_def)
  moreover have "slist ?h3 head (xs @ zs @ ys)"
  proof -
    have "spath ?h3 head (xs @ zs @ ys) 0"
      using P3 assms(3) L(2) nz by (subst spath_cong [where h = ?h1]) (auto simp: set_last_def)
    moreover have "lastp ?h3 head = last (head # xs @ zs @ ys)"
      using H(4) nz False by (auto simp: set_last_def)
    moreover have "distinct (head # xs @ zs @ ys)" "0 \<notin> set (head # xs @ zs @ ys)" using H L assms(3) by auto
    ultimately show ?thesis by (simp add: slist_def)
  qed
  ultimately show ?thesis by blast
qed

section \<open>Both kinds of list as queues\<close>

text \<open>
  What the users of the lists rely on, for both kinds at once: adding at either end, removing the first
  node, and testing for emptiness act on the represented sequence of nodes.
\<close>

fun ins_all :: "(addr \<Rightarrow> addr \<Rightarrow> 'h \<Rightarrow> 'h option) \<Rightarrow> addr \<Rightarrow> addr list \<Rightarrow> 'h \<Rightarrow> 'h option" where
  "ins_all ins head [] h = Some h"
| "ins_all ins head (x # xs) h = do { h \<leftarrow> ins x head h; ins_all ins head xs h }"

fun take_out :: "('h \<Rightarrow> addr \<Rightarrow> addr) \<Rightarrow> (addr \<Rightarrow> 'h \<Rightarrow> 'h option) \<Rightarrow> addr \<Rightarrow> nat \<Rightarrow> 'h \<Rightarrow> (addr list \<times> 'h) option" where
  "take_out frst del head 0 h = Some ([], h)"
| "take_out frst del head (Suc n) h =
     do { h' \<leftarrow> del head h; (xs, h') \<leftarrow> take_out frst del head n h'; Some (frst h head # xs, h') }"

locale node_list =
  fixes rep :: "'h \<Rightarrow> addr \<Rightarrow> addr list \<Rightarrow> bool"
    and ins_head ins_tail :: "addr \<Rightarrow> addr \<Rightarrow> 'h \<Rightarrow> 'h option"
    and frst :: "'h \<Rightarrow> addr \<Rightarrow> addr" and del_first :: "addr \<Rightarrow> 'h \<Rightarrow> 'h option"
    and empty :: "addr \<Rightarrow> 'h \<Rightarrow> bool"
  assumes ins_head_law: "rep h head xs \<Longrightarrow> x \<noteq> 0 \<Longrightarrow> x \<notin> set (head # xs) \<Longrightarrow> \<exists>h'. ins_head x head h = Some h' \<and> rep h' head (x # xs)"
    and ins_tail_law: "rep h head xs \<Longrightarrow> x \<noteq> 0 \<Longrightarrow> x \<notin> set (head # xs) \<Longrightarrow> \<exists>h'. ins_tail x head h = Some h' \<and> rep h' head (xs @ [x])"
    and frst_law: "rep h head (x # xs) \<Longrightarrow> frst h head = x"
    and del_first_law: "rep h head (x # xs) \<Longrightarrow> \<exists>h'. del_first head h = Some h' \<and> rep h' head xs"
    and empty_law: "rep h head xs \<Longrightarrow> empty head h \<longleftrightarrow> xs = []"
begin

lemma ins_tail_all:
  "rep h head xs \<Longrightarrow> distinct ns \<Longrightarrow> 0 \<notin> set ns \<Longrightarrow> set ns \<inter> set (head # xs) = {} \<Longrightarrow>
   \<exists>h'. ins_all ins_tail head ns h = Some h' \<and> rep h' head (xs @ ns)"
proof (induction ns arbitrary: h xs)
  case (Cons n ns)
  then obtain h1 where h1: "ins_tail n head h = Some h1" "rep h1 head (xs @ [n])"
    using ins_tail_law [of h head xs n] by auto
  with Cons.IH [of h1 "xs @ [n]"] Cons.prems show ?case by fastforce
qed simp

lemma ins_head_all:
  "rep h head xs \<Longrightarrow> distinct ns \<Longrightarrow> 0 \<notin> set ns \<Longrightarrow> set ns \<inter> set (head # xs) = {} \<Longrightarrow>
   \<exists>h'. ins_all ins_head head ns h = Some h' \<and> rep h' head (rev ns @ xs)"
proof (induction ns arbitrary: h xs)
  case (Cons n ns)
  then obtain h1 where h1: "ins_head n head h = Some h1" "rep h1 head (n # xs)"
    using ins_head_law [of h head xs n] by auto
  with Cons.IH [of h1 "n # xs"] Cons.prems show ?case by fastforce
qed simp

lemma take_out_all:
  "rep h head (xs @ ys) \<Longrightarrow> \<exists>h'. take_out frst del_first head (length xs) h = Some (xs, h') \<and> rep h' head ys"
proof (induction xs arbitrary: h)
  case (Cons x xs)
  then obtain h1 where "del_first head h = Some h1" "rep h1 head (xs @ ys)"
    using del_first_law [of h head x "xs @ ys"] by auto
  with Cons frst_law [of h head x "xs @ ys"] show ?case by fastforce
qed simp

lemma fifo:
  assumes "rep h head xs" "distinct ns" "0 \<notin> set ns" "set ns \<inter> set (head # xs) = {}"
  shows "\<exists>h' h''. ins_all ins_tail head ns h = Some h' \<and>
     take_out frst del_first head (length xs + length ns) h' = Some (xs @ ns, h'') \<and> empty head h''"
proof -
  obtain h' where h': "ins_all ins_tail head ns h = Some h'" "rep h' head ((xs @ ns) @ [])"
    using ins_tail_all [OF assms] by auto
  from take_out_all [OF h'(2)] h'(1) empty_law show ?thesis by fastforce
qed

lemma lifo:
  assumes "rep h head xs" "distinct ns" "0 \<notin> set ns" "set ns \<inter> set (head # xs) = {}"
  shows "\<exists>h' h''. ins_all ins_head head ns h = Some h' \<and>
     take_out frst del_first head (length ns) h' = Some (rev ns, h'') \<and> rep h'' head xs"
proof -
  obtain h' where h': "ins_all ins_head head ns h = Some h'" "rep h' head (rev ns @ xs)"
    using ins_head_all [OF assms] by auto
  from take_out_all [OF h'(2)] h'(1) show ?thesis by simp
qed

end

definition list_del_first :: "addr \<Rightarrow> list_heap \<Rightarrow> list_heap option" where
  "list_del_first head h = list_del (nxt h head) h"

interpretation dl: node_list dlist list_add list_add_tail nxt list_del_first list_empty
proof
  show "\<exists>h'. list_del_first head h = Some h' \<and> dlist h' head xs" if "dlist h head (x # xs)" for h head x xs
    using list_del_dlist [of h head "[]" x xs] dlist_nxt_head [OF that] that by (auto simp: list_del_first_def)
qed (auto simp: dlist_nxt_head dlist_empty_iff dest: list_add_dlist list_add_tail_dlist)

lemma slist_nz: "slist h l xs \<Longrightarrow> l \<noteq> 0"
  by (simp add: slist_def)

interpretation sl: node_list slist slist_add_head slist_add_tail snxt slist_del_head slist_empty
proof
  show "\<exists>h'. slist_add_head x head h = Some h' \<and> slist h' head (x # xs)"
    if "slist h head xs" "x \<noteq> 0" "x \<notin> set (head # xs)" for h head x xs
    using slist_add_after_slist [of h head "[]" xs x head] that slist_nz [OF that(1)] by (simp add: slist_add_head_after)
  show "\<exists>h'. slist_del_head head h = Some h' \<and> slist h' head xs" if "slist h head (x # xs)" for h head x xs
    using slist_del_after_slist [of h head "[]" x xs head] that slist_nz [OF that] by (simp add: slist_del_head_after)
  show "snxt h head = x" if "slist h head (x # xs)" for h head x xs using that by (simp add: slist_def)
qed (auto simp: slist_empty_iff dest: slist_add_tail_slist)

section \<open>Properties\<close>

text \<open>
  C34: nodes added with \<^verbatim>\<open>list_add_tail\<close> to a doubly linked list come out of its front in first-in first-out
  order, after the nodes that were there before, and the list is empty then; no null pointer is followed.
\<close>

theorem list_fifo:
  assumes "dlist h head xs" "distinct ns" "0 \<notin> set ns" "set ns \<inter> set (head # xs) = {}"
  shows "\<exists>h' h''. ins_all list_add_tail head ns h = Some h' \<and>
     take_out nxt list_del_first head (length xs + length ns) h' = Some (xs @ ns, h'') \<and> list_empty head h''"
  using assms by (rule dl.fifo)

definition one_list :: list_heap where
  "one_list = \<lparr>nxt = (\<lambda>p. 0)(1 := 4, 4 := 1), prv = (\<lambda>p. 0)(1 := 4, 4 := 1)\<rparr>"

theorem list_fifo_witness:
  "dlist one_list 1 [4] \<and> (\<exists>h' h''. ins_all list_add_tail 1 [7, 5] one_list = Some h' \<and>
     take_out nxt list_del_first 1 3 h' = Some ([4, 7, 5], h''))"
proof -
  have "dlist one_list 1 [4]" by (simp add: dlist_def one_list_def)
  with list_fifo [of one_list 1 "[4]" "[7, 5]"] show ?thesis by (auto simp: numeral_3_eq_3)
qed

text \<open>
  the singly linked list is a queue as well, although its head keeps a pointer to the last node that
  every operation has to keep up to date.
\<close>

theorem slist_fifo:
  assumes "slist h l xs" "distinct ns" "0 \<notin> set ns" "set ns \<inter> set (l # xs) = {}"
  shows "\<exists>h' h''. ins_all slist_add_tail l ns h = Some h' \<and>
     take_out snxt slist_del_head l (length xs + length ns) h' = Some (xs @ ns, h'') \<and> slist_empty l h''"
  using assms by (rule sl.fifo)

definition empty_slist :: slist_heap where
  "empty_slist = \<lparr>snxt = (\<lambda>p. 0), lastp = (\<lambda>p. p)\<rparr>"

theorem slist_fifo_witness:
  "slist empty_slist 3 [] \<and> (\<exists>h' h''. ins_all slist_add_tail 3 [9, 8] empty_slist = Some h' \<and>
     take_out snxt slist_del_head 3 2 h' = Some ([9, 8], h''))"
proof -
  have "slist empty_slist 3 []" by (simp add: slist_def empty_slist_def)
  with slist_fifo [of empty_slist 3 "[]" "[9, 8]"] show ?thesis by (auto simp: numeral_2_eq_2)
qed

text \<open>
  unlinking any node of a doubly linked list leaves exactly the other nodes, in order and readable in
  both directions, and touches no node outside the list.
\<close>

theorem list_del_any:
  assumes "dlist h head (xs @ e # ys)"
  shows "\<exists>h'. list_del e h = Some h' \<and> list_for_each head h' = Some (xs @ ys) \<and>
     list_for_each_prev head h' = Some (rev (xs @ ys)) \<and>
     (\<forall>p. p \<notin> set (head # xs @ ys) \<longrightarrow> nxt h' p = nxt h p \<and> prv h' p = prv h p)"
  using list_del_dlist [OF assms] list_for_each_dlist list_for_each_prev_dlist by blast

theorem list_del_any_witness:
  "\<exists>h'. list_del 4 one_list = Some h' \<and> list_for_each 1 h' = Some []"
proof -
  have "dlist one_list 1 ([] @ 4 # [])" by (simp add: dlist_def one_list_def)
  from list_del_any [OF this] show ?thesis by auto
qed

text \<open>
  \<^verbatim>\<open>list_splice_init\<close> and \<^verbatim>\<open>slist_splice_init\<close> move all nodes of one list into the other, in order, and leave
  the first one empty and reusable.
\<close>

theorem splice_init_moves:
  assumes "two_lists h l xs head ys" "slist sh sl' zs" "slist sh shead (us @ vs)"
    "set (sl' # zs) \<inter> set (shead # us @ vs) = {}"
  shows "(\<exists>h'. list_splice_init l head h = Some h' \<and> dlist h' l [] \<and> dlist h' head (xs @ ys)) \<and>
     (\<exists>h'. slist_splice_init sl' (last (shead # us)) shead sh = Some h' \<and> slist h' sl' [] \<and> slist h' shead (us @ zs @ vs))"
  using list_splice_init_lists [OF assms(1)] slist_splice_init_slist [OF assms(2-4) refl]
  by (auto simp: two_lists_def)

definition two_demo :: list_heap where
  "two_demo = \<lparr>nxt = (\<lambda>p. 0)(1 := 4, 4 := 1, 2 := 5, 5 := 2), prv = (\<lambda>p. 0)(1 := 4, 4 := 1, 2 := 5, 5 := 2)\<rparr>"

definition stwo_demo :: slist_heap where
  "stwo_demo = \<lparr>snxt = (\<lambda>p. 0)(1 := 4, 2 := 5), lastp = (\<lambda>p. p)(1 := 4, 2 := 5)\<rparr>"

theorem splice_init_moves_witness:
  "(\<exists>h'. list_splice_init 1 2 two_demo = Some h' \<and> dlist h' 2 [4, 5]) \<and>
   (\<exists>h'. slist_splice_init 1 5 2 stwo_demo = Some h' \<and> slist h' 2 [5, 4])"
proof -
  have "two_lists two_demo 1 [4] 2 [5]" by (simp add: two_lists_def dlist_def two_demo_def)
  moreover have "slist stwo_demo 1 [4]" "slist stwo_demo 2 ([5] @ [])" by (simp_all add: slist_def stwo_demo_def)
  ultimately show ?thesis using splice_init_moves [of two_demo 1 "[4]" 2 "[5]" stwo_demo 1 "[4]" 2 "[5]" "[]"] by auto
qed

end
