(* ===== verification/Comm_Sched.thy ===== *)
theory Comm_Sched
  imports Complex_Main WF_Prelude "HOL-Library.Multiset"
begin

text \<open>
  Connection scheduling (\<^verbatim>\<open>workflow/src/kernel/CommScheduler.cc\<close> and \<^verbatim>\<open>.h\<close>). A \<^verbatim>\<open>CommSchedTarget\<close>
  admits \<^verbatim>\<open>max_load\<close> connections at a time; a \<^verbatim>\<open>CommSchedGroup\<close> keeps its targets in a binary heap
  ordered by the ratio \<^verbatim>\<open>cur_load / max_load\<close>, compared by cross multiplication on \<^verbatim>\<open>size_t\<close>.
  Loads are 64-bit words, so the comparison wraps exactly as the code's does. A thread that has to
  wait on a condition variable leaves the critical section: \<^verbatim>\<open>acquire\<close> is split at
  \<^verbatim>\<open>pthread_cond_timedwait\<close> into \<open>enter\<close> and \<open>wake\<close> steps.
\<close>

section \<open>State\<close>

record sched_target =
  t_max_load :: u64
  t_cur_load :: u64
  t_group :: "addr option"
  t_index :: nat
  t_wait_cnt :: nat

record sched_group =
  g_max_load :: u64
  g_cur_load :: u64
  g_tg_heap :: "addr option list"
  g_heap_size :: nat
  g_heap_buf_size :: nat
  g_wait_cnt :: nat

record sched =
  s_tg :: "addr \<Rightarrow> sched_target"
  s_grp :: "addr \<Rightarrow> sched_group"

section \<open>The heap of a group\<close>

definition target_cmp :: "sched_target \<Rightarrow> sched_target \<Rightarrow> int" where
  "target_cmp t1 t2 =
     (let load1 = t_cur_load t1 * t_max_load t2;
          load2 = t_cur_load t2 * t_max_load t1
      in if load1 < load2 then -1 else if load1 > load2 then 1 else 0)"

text \<open>A slot of the heap array; a slot that was never written holds \<open>None\<close>.\<close>

definition slot :: "addr option list \<Rightarrow> nat \<Rightarrow> addr option" where
  "slot a i = do { v \<leftarrow> rd a i; v }"

text \<open>\<^verbatim>\<open>tg_heap[i] = target; target->index = i;\<close>\<close>

definition place ::
  "(addr \<Rightarrow> sched_target) \<Rightarrow> addr option list \<Rightarrow> nat \<Rightarrow> addr \<Rightarrow>
   ((addr \<Rightarrow> sched_target) \<times> addr option list) option" where
  "place tg a i t = do { a \<leftarrow> wr a i (Some t); Some (tg(t := (tg t)\<lparr>t_index := i\<rparr>), a) }"

function heap_adjust_loop ::
  "(addr \<Rightarrow> sched_target) \<Rightarrow> addr option list \<Rightarrow> addr \<Rightarrow> int \<Rightarrow> nat \<Rightarrow>
   ((addr \<Rightarrow> sched_target) \<times> addr option list \<times> nat) option" where
  "heap_adjust_loop tg a target swap index =
     (if index > 0 then
        do { parent \<leftarrow> slot a ((index - 1) div 2);
             if target_cmp (tg target) (tg parent) < swap then
               do { (tg, a) \<leftarrow> place tg a index parent;
                    heap_adjust_loop tg a target swap ((index - 1) div 2) }
             else Some (tg, a, index) }
      else Some (tg, a, index))"
  by pat_completeness auto
termination
  by (relation "measure (\<lambda>(tg, a, target, swap, index). index)") auto

definition heap_adjust :: "sched \<Rightarrow> addr \<Rightarrow> nat \<Rightarrow> bool \<Rightarrow> sched option" where
  "heap_adjust s g index swap_on_equal =
     (let a = g_tg_heap (s_grp s g)
      in do { target \<leftarrow> slot a index;
              (tg, a, index) \<leftarrow> heap_adjust_loop (s_tg s) a target (if swap_on_equal then 1 else 0) index;
              (tg, a) \<leftarrow> place tg a index target;
              Some (s\<lparr>s_tg := tg, s_grp := (s_grp s)(g := (s_grp s g)\<lparr>g_tg_heap := a\<rparr>)\<rparr>) })"

text \<open>
  The loop of \<^verbatim>\<open>heapify\<close>: the value is the final position of the target. The early \<^verbatim>\<open>return\<close> of the
  code writes the target at \<^verbatim>\<open>top\<close>, which is also what the code after the loop does with \<^verbatim>\<open>top\<close>,
  when \<^verbatim>\<open>i\<close> is not the last index.
\<close>

function heapify_loop ::
  "(addr \<Rightarrow> sched_target) \<Rightarrow> addr option list \<Rightarrow> addr \<Rightarrow> nat \<Rightarrow> nat \<Rightarrow>
   ((addr \<Rightarrow> sched_target) \<times> addr option list) option" where
  "heapify_loop tg a target lst tp =
     (let i = 2 * tp + 1
      in if i < lst then
           do { child0 \<leftarrow> slot a i;
                child1 \<leftarrow> slot a (i + 1);
                if target_cmp (tg child0) (tg target) < 0 then
                  if target_cmp (tg child1) (tg child0) < 0 then
                    do { (tg, a) \<leftarrow> place tg a tp child1;
                         heapify_loop tg a target lst (i + 1) }
                  else
                    do { (tg, a) \<leftarrow> place tg a tp child0;
                         heapify_loop tg a target lst i }
                else if target_cmp (tg child1) (tg target) < 0 then
                  do { (tg, a) \<leftarrow> place tg a tp child1;
                       heapify_loop tg a target lst (i + 1) }
                else place tg a tp target }
         else if i = lst then
           do { child0 \<leftarrow> slot a i;
                if target_cmp (tg child0) (tg target) < 0 then
                  do { (tg, a) \<leftarrow> place tg a tp child0; place tg a i target }
                else place tg a tp target }
         else place tg a tp target)"
  by pat_completeness auto
termination
  by (relation "measure (\<lambda>(tg, a, target, lst, tp). lst - tp)") auto

declare heap_adjust_loop.simps [simp del] heapify_loop.simps [simp del]

definition heapify :: "sched \<Rightarrow> addr \<Rightarrow> nat \<Rightarrow> sched option" where
  "heapify s g tp =
     (let a = g_tg_heap (s_grp s g); lst = g_heap_size (s_grp s g) - 1
      in do { target \<leftarrow> slot a tp;
              (tg, a) \<leftarrow> heapify_loop (s_tg s) a target lst tp;
              Some (s\<lparr>s_tg := tg, s_grp := (s_grp s)(g := (s_grp s g)\<lparr>g_tg_heap := a\<rparr>)\<rparr>) })"

definition heap_insert :: "sched \<Rightarrow> addr \<Rightarrow> addr \<Rightarrow> bool \<Rightarrow> (bool \<times> sched) option" where
  "heap_insert s g target mem =
     (let G = s_grp s g; full = (g_heap_size G = g_heap_buf_size G)
      in if full \<and> \<not> mem then Some (False, s)
         else let new_size = 2 * g_heap_buf_size G;
                  G1 = (if full then
                          G\<lparr>g_tg_heap := g_tg_heap G @ replicate (new_size - g_heap_buf_size G) None,
                            g_heap_buf_size := new_size\<rparr>
                        else G)
              in do { (tg, a) \<leftarrow> place (s_tg s) (g_tg_heap G1) (g_heap_size G1) target;
                      s \<leftarrow> heap_adjust (s\<lparr>s_tg := tg, s_grp := (s_grp s)(g := G1\<lparr>g_tg_heap := a\<rparr>)\<rparr>)
                             g (g_heap_size G1) False;
                      Some (True, s\<lparr>s_grp := (s_grp s)(g := (s_grp s g)\<lparr>g_heap_size := Suc (g_heap_size G1)\<rparr>)\<rparr>) })"

definition heap_remove :: "sched \<Rightarrow> addr \<Rightarrow> nat \<Rightarrow> sched option" where
  "heap_remove s g index =
     (let G = (s_grp s g)\<lparr>g_heap_size := g_heap_size (s_grp s g) - 1\<rparr>;
          s = s\<lparr>s_grp := (s_grp s)(g := G)\<rparr>
      in if index \<noteq> g_heap_size G then
           do { target \<leftarrow> slot (g_tg_heap G) (g_heap_size G);
                (tg, a) \<leftarrow> place (s_tg s) (g_tg_heap G) index target;
                s \<leftarrow> heap_adjust (s\<lparr>s_tg := tg, s_grp := (s_grp s)(g := G\<lparr>g_tg_heap := a\<rparr>)\<rparr>) g index False;
                heapify s g (t_index (s_tg s target)) }
         else Some s)"

section \<open>Groups and targets\<close>

text \<open>Condition variables that an operation signals.\<close>

datatype cond = TargetCond addr | GroupCond addr

text \<open>What \<^verbatim>\<open>acquire\<close> comes to: a target, an error, or a wait on the condition variable.\<close>

datatype acquired = Got addr | Failed errno | Waiting

text \<open>
  The deadline for a wait of \<^verbatim>\<open>timeout\<close> milliseconds from the time \<open>(sec, nsec)\<close>; a negative timeout
  means no deadline. The timeout is not negative where it is divided, so truncation towards
  zero and \<open>div\<close> agree.
\<close>

definition get_abstime :: "int \<Rightarrow> int \<times> int \<Rightarrow> (int \<times> int) option" where
  "get_abstime timeout now =
     (if timeout < 0 then None
      else let sec = fst now + timeout div 1000;
               nsec = snd now + timeout mod 1000 * 1000000
           in if nsec \<ge> 1000000000 then Some (sec + 1, nsec - 1000000000) else Some (sec, nsec))"

text \<open>
  \<^verbatim>\<open>CommSchedTarget::init\<close>. The results of \<^verbatim>\<open>CommTarget::init\<close> and of the two \<^verbatim>\<open>pthread\<close> calls are
  arguments (\<open>None\<close> is success).
\<close>

definition target_init ::
  "sched \<Rightarrow> addr \<Rightarrow> u64 \<Rightarrow> errno option \<Rightarrow> errno option \<Rightarrow> errno option \<Rightarrow> errno option \<times> sched" where
  "target_init s t max_connections base mutex_ret cond_ret =
     (if max_connections = 0 then (Some EINVAL, s)
      else case base of Some e \<Rightarrow> (Some e, s)
      | None \<Rightarrow>
        (case mutex_ret of Some e \<Rightarrow> (Some e, s)
         | None \<Rightarrow>
           (case cond_ret of Some e \<Rightarrow> (Some e, s)
            | None \<Rightarrow> (None, s\<lparr>s_tg := (s_tg s)(t := (s_tg s t)\<lparr>t_max_load := max_connections,
                 t_cur_load := 0, t_wait_cnt := 0, t_group := None\<rparr>)\<rparr>))))"

definition group_init :: "sched \<Rightarrow> addr \<Rightarrow> errno option \<Rightarrow> errno option \<Rightarrow> errno option \<Rightarrow> errno option \<times> sched" where
  "group_init s g mem mutex_ret cond_ret =
     (case mem of Some e \<Rightarrow> (Some e, s)
      | None \<Rightarrow>
        (case mutex_ret of Some e \<Rightarrow> (Some e, s)
         | None \<Rightarrow>
           (case cond_ret of Some e \<Rightarrow> (Some e, s)
            | None \<Rightarrow> (None, s\<lparr>s_grp := (s_grp s)(g := \<lparr>g_max_load = 0, g_cur_load = 0,
                 g_tg_heap = replicate 4 None, g_heap_size = 0, g_heap_buf_size = 4, g_wait_cnt = 0\<rparr>)\<rparr>))))"

definition group_add :: "sched \<Rightarrow> addr \<Rightarrow> addr \<Rightarrow> bool \<Rightarrow> (errno option \<times> cond list \<times> sched) option" where
  "group_add s g t mem =
     (if t_group (s_tg s t) = None \<and> t_wait_cnt (s_tg s t) = 0 then
        do { (ok, s) \<leftarrow> heap_insert s g t mem;
             (if \<not> ok then Some (Some ENOMEM, [], s)
              else let T = s_tg s t;
                       G = (s_grp s g)\<lparr>g_max_load := g_max_load (s_grp s g) + t_max_load T,
                                       g_cur_load := g_cur_load (s_grp s g) + t_cur_load T\<rparr>
                   in Some (None,
                        (if g_wait_cnt G > 0 \<and> g_cur_load G < g_max_load G then [GroupCond g] else []),
                        s\<lparr>s_tg := (s_tg s)(t := T\<lparr>t_group := Some g\<rparr>), s_grp := (s_grp s)(g := G)\<rparr>)) }
      else if t_group (s_tg s t) = Some g then Some (Some EEXIST, [], s)
      else if t_group (s_tg s t) \<noteq> None then Some (Some EINVAL, [], s)
      else Some (Some EBUSY, [], s))"

definition group_remove :: "sched \<Rightarrow> addr \<Rightarrow> addr \<Rightarrow> (errno option \<times> sched) option" where
  "group_remove s g t =
     (if t_group (s_tg s t) = Some g \<and> t_wait_cnt (s_tg s t) = 0 then
        do { s \<leftarrow> heap_remove s g (t_index (s_tg s t));
             (let T = s_tg s t;
                  G = (s_grp s g)\<lparr>g_max_load := g_max_load (s_grp s g) - t_max_load T,
                                  g_cur_load := g_cur_load (s_grp s g) - t_cur_load T\<rparr>
              in Some (None, s\<lparr>s_tg := (s_tg s)(t := T\<lparr>t_group := None\<rparr>), s_grp := (s_grp s)(g := G)\<rparr>)) }
      else if t_group (s_tg s t) \<noteq> Some g then Some (Some ENOENT, s)
      else Some (Some EBUSY, s))"

definition target_take :: "sched \<Rightarrow> addr \<Rightarrow> sched option" where
  "target_take s t =
     (let T = (s_tg s t)\<lparr>t_cur_load := t_cur_load (s_tg s t) + 1\<rparr>;
          s = s\<lparr>s_tg := (s_tg s)(t := T)\<rparr>
      in case t_group T of
           None \<Rightarrow> Some s
         | Some g \<Rightarrow>
             heapify (s\<lparr>s_grp := (s_grp s)(g := (s_grp s g)\<lparr>g_cur_load := g_cur_load (s_grp s g) + 1\<rparr>)\<rparr>)
               g (t_index T))"

definition target_acquire_enter :: "sched \<Rightarrow> addr \<Rightarrow> int \<Rightarrow> (acquired \<times> sched) option" where
  "target_acquire_enter s t wait_timeout =
     (if t_cur_load (s_tg s t) \<ge> t_max_load (s_tg s t) then
        if wait_timeout \<noteq> 0 then
          Some (Waiting, s\<lparr>s_tg := (s_tg s)(t := (s_tg s t)\<lparr>t_wait_cnt := t_wait_cnt (s_tg s t) + 1\<rparr>)\<rparr>)
        else Some (Failed EAGAIN, s)
      else do { s \<leftarrow> target_take s t; Some (Got t, s) })"

text \<open>
  A waiter wakes with the result \<open>ret\<close> of \<^verbatim>\<open>pthread_cond_timedwait\<close> (\<open>None\<close> is 0): it waits again
  while the target is full and there was no error, and takes a connection whenever there is one,
  even after a timeout.
\<close>

definition target_acquire_wake :: "sched \<Rightarrow> addr \<Rightarrow> errno option \<Rightarrow> (acquired \<times> sched) option" where
  "target_acquire_wake s t ret =
     (let s1 = s\<lparr>s_tg := (s_tg s)(t := (s_tg s t)\<lparr>t_wait_cnt := t_wait_cnt (s_tg s t) - 1\<rparr>)\<rparr>
      in if t_cur_load (s_tg s1 t) \<ge> t_max_load (s_tg s1 t) then
           (case ret of
              None \<Rightarrow> Some (Waiting, s1\<lparr>s_tg := (s_tg s1)(t := (s_tg s1 t)\<lparr>t_wait_cnt := t_wait_cnt (s_tg s1 t) + 1\<rparr>)\<rparr>)
            | Some e \<Rightarrow> Some (Failed e, s1))
         else do { s2 \<leftarrow> target_take s1 t; Some (Got t, s2) })"

definition target_release :: "sched \<Rightarrow> addr \<Rightarrow> bool \<Rightarrow> (cond list \<times> sched) option" where
  "target_release s t keep_alive =
     (let T = (s_tg s t)\<lparr>t_cur_load := t_cur_load (s_tg s t) - 1\<rparr>;
          s = s\<lparr>s_tg := (s_tg s)(t := T)\<rparr>;
          sig1 = (if t_wait_cnt T > 0 then [TargetCond t] else [])
      in case t_group T of
           None \<Rightarrow> Some (sig1, s)
         | Some g \<Rightarrow>
             let G = (s_grp s g)\<lparr>g_cur_load := g_cur_load (s_grp s g) - 1\<rparr>;
                 sig2 = (if t_wait_cnt T = 0 \<and> g_wait_cnt G > 0 then [GroupCond g] else [])
             in do { s \<leftarrow> heap_adjust (s\<lparr>s_grp := (s_grp s)(g := G)\<rparr>) g (t_index T) keep_alive;
                     Some (sig1 @ sig2, s) })"

definition group_take :: "sched \<Rightarrow> addr \<Rightarrow> (addr \<times> sched) option" where
  "group_take s g =
     do { t \<leftarrow> slot (g_tg_heap (s_grp s g)) 0;
          s \<leftarrow> heapify (s\<lparr>s_tg := (s_tg s)(t := (s_tg s t)\<lparr>t_cur_load := t_cur_load (s_tg s t) + 1\<rparr>),
                 s_grp := (s_grp s)(g := (s_grp s g)\<lparr>g_cur_load := g_cur_load (s_grp s g) + 1\<rparr>)\<rparr>) g 0;
          Some (t, s) }"

definition group_acquire_enter :: "sched \<Rightarrow> addr \<Rightarrow> int \<Rightarrow> (acquired \<times> sched) option" where
  "group_acquire_enter s g wait_timeout =
     (if g_cur_load (s_grp s g) \<ge> g_max_load (s_grp s g) then
        if wait_timeout \<noteq> 0 then
          Some (Waiting, s\<lparr>s_grp := (s_grp s)(g := (s_grp s g)\<lparr>g_wait_cnt := g_wait_cnt (s_grp s g) + 1\<rparr>)\<rparr>)
        else Some (Failed EAGAIN, s)
      else do { (t, s) \<leftarrow> group_take s g; Some (Got t, s) })"

definition group_acquire_wake :: "sched \<Rightarrow> addr \<Rightarrow> errno option \<Rightarrow> (acquired \<times> sched) option" where
  "group_acquire_wake s g ret =
     (let s1 = s\<lparr>s_grp := (s_grp s)(g := (s_grp s g)\<lparr>g_wait_cnt := g_wait_cnt (s_grp s g) - 1\<rparr>)\<rparr>
      in if g_cur_load (s_grp s1 g) \<ge> g_max_load (s_grp s1 g) then
           (case ret of
              None \<Rightarrow> Some (Waiting, s1\<lparr>s_grp := (s_grp s1)(g := (s_grp s1 g)\<lparr>g_wait_cnt := g_wait_cnt (s_grp s1 g) + 1\<rparr>)\<rparr>)
            | Some e \<Rightarrow> Some (Failed e, s1))
         else do { (t, s2) \<leftarrow> group_take s1 g; Some (Got t, s2) })"

text \<open>
  \<^verbatim>\<open>CommScheduler::request\<close> on a target or a group, up to the first wait; \<open>comm_ret\<close> is what
  \<^verbatim>\<open>Communicator::request\<close> returns for the acquired target. The result is the return value of
  \<^verbatim>\<open>request\<close> and the target it stores, or \<open>Inr Waiting\<close> when the thread blocks.
\<close>

datatype sched_object = OfTarget addr | OfGroup addr

definition sched_acquire :: "sched \<Rightarrow> sched_object \<Rightarrow> int \<Rightarrow> (acquired \<times> sched) option" where
  "sched_acquire s obj wait_timeout =
     (case obj of OfTarget t \<Rightarrow> target_acquire_enter s t wait_timeout
      | OfGroup g \<Rightarrow> group_acquire_enter s g wait_timeout)"

definition sched_request ::
  "sched \<Rightarrow> sched_object \<Rightarrow> int \<Rightarrow> (addr \<Rightarrow> int) \<Rightarrow> (int option \<times> addr option \<times> cond list \<times> sched) option" where
  "sched_request s obj wait_timeout comm_ret =
     do { (r, s) \<leftarrow> sched_acquire s obj wait_timeout;
          (case r of
             Waiting \<Rightarrow> Some (None, None, [], s)
           | Failed e \<Rightarrow> Some (Some (-1), None, [], s)
           | Got t \<Rightarrow>
               if comm_ret t < 0 then
                 do { (sig, s) \<leftarrow> target_release s t False; Some (Some (comm_ret t), Some t, sig, s) }
               else Some (Some (comm_ret t), Some t, [], s)) }"

section \<open>Binary heaps in an array\<close>

text \<open>
  The order the loops work towards, for any key: \<open>up_heap k v i\<close> is a heap but for a key at \<open>i\<close>
  that may be smaller than its parent's, \<open>down_heap k v i\<close> one but for a key at \<open>i\<close> that may be
  larger than its children's.
\<close>

abbreviation par :: "nat \<Rightarrow> nat" where "par j \<equiv> (j - 1) div 2"

definition heap_ord :: "('a \<Rightarrow> real) \<Rightarrow> 'a list \<Rightarrow> bool" where
  "heap_ord k v \<longleftrightarrow> (\<forall>j. 0 < j \<longrightarrow> j < length v \<longrightarrow> k (v ! par j) \<le> k (v ! j))"

definition up_heap :: "('a \<Rightarrow> real) \<Rightarrow> 'a list \<Rightarrow> nat \<Rightarrow> bool" where
  "up_heap k v i \<longleftrightarrow>
     (\<forall>j. 0 < j \<longrightarrow> j < length v \<longrightarrow> j \<noteq> i \<longrightarrow> k (v ! par j) \<le> k (v ! j)) \<and>
     (\<forall>j. 0 < j \<longrightarrow> j < length v \<longrightarrow> par j = i \<longrightarrow> 0 < i \<longrightarrow> k (v ! par i) \<le> k (v ! j))"

definition down_heap :: "('a \<Rightarrow> real) \<Rightarrow> 'a list \<Rightarrow> nat \<Rightarrow> bool" where
  "down_heap k v i \<longleftrightarrow>
     (\<forall>j. 0 < j \<longrightarrow> j < length v \<longrightarrow> par j \<noteq> i \<longrightarrow> k (v ! par j) \<le> k (v ! j)) \<and>
     (\<forall>j. 0 < j \<longrightarrow> j < length v \<longrightarrow> par j = i \<longrightarrow> 0 < i \<longrightarrow> k (v ! par i) \<le> k (v ! j))"

definition swap_at :: "'a list \<Rightarrow> nat \<Rightarrow> nat \<Rightarrow> 'a list" where
  "swap_at v i j = v[i := v ! j, j := v ! i]"

lemma length_swap_at [simp]: "length (swap_at v i j) = length v"
  by (simp add: swap_at_def)

lemma swap_at_nth:
  "i < length v \<Longrightarrow> j < length v \<Longrightarrow>
   swap_at v i j ! l = (if l = j then v ! i else if l = i then v ! j else v ! l)"
  by (auto simp: swap_at_def nth_list_update)

lemma par_cases: "0 < j \<Longrightarrow> par j = i \<longleftrightarrow> j = 2 * i + 1 \<or> j = 2 * i + 2"
  by presburger

lemma heap_root_least: "heap_ord k v \<Longrightarrow> j < length v \<Longrightarrow> k (v ! 0) \<le> k (v ! j)"
proof (induction j rule: less_induct)
  case (less j)
  show ?case
  proof (cases "j = 0")
    case False
    then have "k (v ! 0) \<le> k (v ! par j)" using less by (intro less.IH) auto
    moreover have "k (v ! par j) \<le> k (v ! j)" using less.prems False by (simp add: heap_ord_def)
    ultimately show ?thesis by simp
  qed simp
qed

lemma up_heap_done: "up_heap k v i \<Longrightarrow> i = 0 \<or> k (v ! par i) \<le> k (v ! i) \<Longrightarrow> heap_ord k v"
  unfolding up_heap_def heap_ord_def by (metis less_irrefl)

lemma up_heap_step:
  assumes "up_heap k v i" "0 < i" "i < length v" "k (v ! i) \<le> k (v ! par i)"
  shows "up_heap k (swap_at v i (par i)) (par i)"
proof -
  have p: "par i < i" using assms(2) by auto
  have nth: "swap_at v i (par i) ! l = (if l = par i then v ! i else if l = i then v ! par i else v ! l)" for l
    using assms(3) p by (intro swap_at_nth) auto
  have 1: "\<And>j. 0 < j \<Longrightarrow> j < length v \<Longrightarrow> j \<noteq> i \<Longrightarrow> k (v ! par j) \<le> k (v ! j)"
    and 2: "\<And>j. 0 < j \<Longrightarrow> j < length v \<Longrightarrow> par j = i \<Longrightarrow> k (v ! par i) \<le> k (v ! j)"
    using assms(1,2) by (auto simp: up_heap_def)
  show ?thesis unfolding up_heap_def length_swap_at
  proof (intro conjI allI impI)
    fix j assume j: "0 < j" "j < length v" "j \<noteq> par i"
    show "k (swap_at v i (par i) ! par j) \<le> k (swap_at v i (par i) ! j)"
      using 1 [OF j(1,2)] 2 [OF j(1,2)] assms(2,4) j p unfolding nth by auto
  next
    fix j assume j: "0 < j" "j < length v" "par j = par i" "0 < par i"
    have pp: "par (par i) < par i" using j(4) by auto
    have "k (v ! par (par i)) \<le> k (v ! par i)" using 1 [of "par i"] j p assms(3) by auto
    moreover have "k (v ! par i) \<le> k (v ! j)" if "j \<noteq> i" using 1 [OF j(1,2)] j that by auto
    ultimately show "k (swap_at v i (par i) ! par (par i)) \<le> k (swap_at v i (par i) ! j)"
      using j p pp unfolding nth by (cases "j = i") auto
  qed
qed

lemma down_heap_done:
  assumes "down_heap k v i" "\<And>j. 0 < j \<Longrightarrow> j < length v \<Longrightarrow> par j = i \<Longrightarrow> k (v ! i) \<le> k (v ! j)"
  shows "heap_ord k v"
  using assms unfolding down_heap_def heap_ord_def by metis

lemma down_heap_step:
  assumes "down_heap k v i" "0 < c" "c < length v" "par c = i" "k (v ! c) \<le> k (v ! i)"
    "\<And>j. 0 < j \<Longrightarrow> j < length v \<Longrightarrow> par j = i \<Longrightarrow> k (v ! c) \<le> k (v ! j)"
  shows "down_heap k (swap_at v i c) c"
proof -
  have ic: "i < c" using assms(2,4) by auto
  have nth: "swap_at v i c ! l = (if l = c then v ! i else if l = i then v ! c else v ! l)" for l
    using assms(3) ic by (intro swap_at_nth) auto
  have 1: "\<And>j. 0 < j \<Longrightarrow> j < length v \<Longrightarrow> par j \<noteq> i \<Longrightarrow> k (v ! par j) \<le> k (v ! j)"
    and 2: "\<And>j. 0 < j \<Longrightarrow> j < length v \<Longrightarrow> par j = i \<Longrightarrow> 0 < i \<Longrightarrow> k (v ! par i) \<le> k (v ! j)"
    using assms(1) by (auto simp: down_heap_def)
  show ?thesis unfolding down_heap_def length_swap_at
  proof (intro conjI allI impI)
    fix j assume j: "0 < j" "j < length v" "par j \<noteq> c"
    have "j = i \<Longrightarrow> k (v ! par i) \<le> k (v ! c)" using 2 [OF assms(2-4)] j by auto
    then show "k (swap_at v i c ! par j) \<le> k (swap_at v i c ! j)"
      using 1 [OF j(1,2)] 2 [OF j(1,2)] assms(4-6) j ic unfolding nth by auto
  next
    fix j assume j: "0 < j" "j < length v" "par j = c" "0 < c"
    have "k (v ! c) \<le> k (v ! j)" using 1 [OF j(1,2)] j ic by auto
    moreover have "c < j" using j by auto
    ultimately show "k (swap_at v i c ! par c) \<le> k (swap_at v i c ! j)"
      using assms(4) ic unfolding nth by auto
  qed
qed

section \<open>Comparing loads\<close>

text \<open>
  Loads below \<open>2 ^ 32\<close> make the cross products exact; then \<^verbatim>\<open>target_cmp\<close> compares load ratios.
\<close>

definition load_ok :: "sched_target \<Rightarrow> bool" where
  "load_ok t \<longleftrightarrow> 0 < t_max_load t \<and> unat (t_max_load t) < 2 ^ 32 \<and> t_cur_load t \<le> t_max_load t"

definition ratio :: "sched_target \<Rightarrow> real" where
  "ratio t = real (unat (t_cur_load t)) / real (unat (t_max_load t))"

lemma unat_mult_32: "unat (a :: u64) < 2 ^ 32 \<Longrightarrow> unat (b :: u64) < 2 ^ 32 \<Longrightarrow> unat (a * b) = unat a * unat b"
proof -
  assume "unat a < 2 ^ 32" "unat b < 2 ^ 32"
  then have "unat a * unat b < 2 ^ 32 * 2 ^ 32" by (intro mult_strict_mono) auto
  then show ?thesis by (simp add: unat_mult_lem [symmetric])
qed

lemma load_okD:
  assumes "load_ok t"
  shows "0 < unat (t_max_load t)" "unat (t_max_load t) < 2 ^ 32"
    "unat (t_cur_load t) \<le> unat (t_max_load t)" "unat (t_cur_load t) < 2 ^ 32"
proof -
  have *: "unat (t_cur_load t) \<le> unat (t_max_load t)" "unat (t_max_load t) < 2 ^ 32"
    using assms by (simp_all add: load_ok_def word_le_nat_alt)
  then show "unat (t_max_load t) < 2 ^ 32" "unat (t_cur_load t) \<le> unat (t_max_load t)"
    "unat (t_cur_load t) < 2 ^ 32" by simp_all
  show "0 < unat (t_max_load t)" using assms by (simp add: load_ok_def word_less_nat_alt)
qed

lemma frac_less_nat:
  "0 < b \<Longrightarrow> 0 < d \<Longrightarrow> real a / real b < real c / real d \<longleftrightarrow> a * d < c * (b :: nat)"
  by (simp add: divide_simps flip: of_nat_mult)

lemma frac_le_nat:
  "0 < b \<Longrightarrow> 0 < d \<Longrightarrow> real a / real b \<le> real c / real d \<longleftrightarrow> a * d \<le> c * (b :: nat)"
  by (simp add: divide_simps flip: of_nat_mult)

lemma target_cmp_ratio:
  assumes "load_ok t1" "load_ok t2"
  shows "target_cmp t1 t2 < 0 \<longleftrightarrow> ratio t1 < ratio t2"
    and "target_cmp t1 t2 < 1 \<longleftrightarrow> ratio t1 \<le> ratio t2"
proof -
  note b = load_okD [OF assms(1)] load_okD [OF assms(2)]
  have p1: "unat (t_cur_load t1 * t_max_load t2) = unat (t_cur_load t1) * unat (t_max_load t2)"
    and p2: "unat (t_cur_load t2 * t_max_load t1) = unat (t_cur_load t2) * unat (t_max_load t1)"
    using b by (auto intro!: unat_mult_32)
  have "ratio t1 < ratio t2 \<longleftrightarrow>
      unat (t_cur_load t1) * unat (t_max_load t2) < unat (t_cur_load t2) * unat (t_max_load t1)"
    unfolding ratio_def by (rule frac_less_nat [OF b(1,5)])
  moreover have "ratio t1 \<le> ratio t2 \<longleftrightarrow>
      unat (t_cur_load t1) * unat (t_max_load t2) \<le> unat (t_cur_load t2) * unat (t_max_load t1)"
    unfolding ratio_def by (rule frac_le_nat [OF b(1,5)])
  ultimately show "target_cmp t1 t2 < 0 \<longleftrightarrow> ratio t1 < ratio t2"
    "target_cmp t1 t2 < 1 \<longleftrightarrow> ratio t1 \<le> ratio t2"
    using p1 p2 by (auto simp: target_cmp_def Let_def word_less_nat_alt word_le_nat_alt)
qed

abbreviation key :: "(addr \<Rightarrow> sched_target) \<Rightarrow> addr \<Rightarrow> real" where
  "key tg \<equiv> (\<lambda>x. ratio (tg x))"

section \<open>The loops restore the heap\<close>

text \<open>
  During a loop the target is held aside: the array \<open>w\<close> has a hole at \<open>i\<close>, and what counts is
  \<open>w[i := t]\<close>. Only the \<^verbatim>\<open>index\<close> fields of the targets change.
\<close>

definition reindexed :: "addr set \<Rightarrow> (addr \<Rightarrow> sched_target) \<Rightarrow> (addr \<Rightarrow> sched_target) \<Rightarrow> bool" where
  "reindexed A tg tg' \<longleftrightarrow> (\<forall>x. (\<exists>i. tg' x = (tg x)\<lparr>t_index := i\<rparr>) \<and> (x \<notin> A \<longrightarrow> tg' x = tg x))"

definition indexed_but :: "(addr \<Rightarrow> sched_target) \<Rightarrow> addr list \<Rightarrow> nat \<Rightarrow> bool" where
  "indexed_but tg w i \<longleftrightarrow> (\<forall>j < length w. j \<noteq> i \<longrightarrow> t_index (tg (w ! j)) = j)"

definition hole_ok :: "(addr \<Rightarrow> sched_target) \<Rightarrow> addr list \<Rightarrow> nat \<Rightarrow> addr \<Rightarrow> bool" where
  "hole_ok tg w i t \<longleftrightarrow> i < length w \<and> distinct (w[i := t]) \<and> indexed_but tg w i \<and>
     (\<forall>x \<in> set (w[i := t]). load_ok (tg x))"

lemma hole_ok_load:
  assumes "hole_ok tg w i t"
  shows "load_ok (tg t)" "c < length w \<Longrightarrow> c \<noteq> i \<Longrightarrow> load_ok (tg (w ! c))"
proof -
  show "load_ok (tg t)" using assms set_update_memI [of i w t] by (auto simp: hole_ok_def)
  assume "c < length w" "c \<noteq> i"
  then have "w ! c \<in> set (w[i := t])" by (metis length_list_update nth_list_update_neq nth_mem)
  with assms show "load_ok (tg (w ! c))" by (auto simp: hole_ok_def)
qed

lemma reindexed_refl [simp]: "reindexed A tg tg"
  unfolding reindexed_def by (metis (full_types) sched_target.surjective sched_target.update_convs(4))

lemma reindexed_trans:
  assumes "reindexed A a b" "reindexed A b c"
  shows "reindexed A a c"
proof -
  have "\<exists>i. c x = (a x)\<lparr>t_index := i\<rparr>" for x
  proof -
    obtain i j where "b x = (a x)\<lparr>t_index := i\<rparr>" "c x = (b x)\<lparr>t_index := j\<rparr>"
      using assms unfolding reindexed_def by blast
    then have "c x = (a x)\<lparr>t_index := j\<rparr>" by simp
    then show ?thesis by blast
  qed
  then show ?thesis using assms unfolding reindexed_def by metis
qed

lemma reindexed_upd:
  assumes "t \<in> A"
  shows "reindexed A tg (tg(t := (tg t)\<lparr>t_index := i\<rparr>))"
proof -
  have "\<exists>j. (tg(t := (tg t)\<lparr>t_index := i\<rparr>)) x = (tg x)\<lparr>t_index := j\<rparr>" for x
    using reindexed_refl [of A tg, unfolded reindexed_def, rule_format, of x] by (cases "x = t") auto
  then show ?thesis using assms unfolding reindexed_def by auto
qed

lemma reindexed_same:
  assumes "reindexed A tg tg'"
  shows "t_max_load (tg' x) = t_max_load (tg x)" "t_cur_load (tg' x) = t_cur_load (tg x)"
    "t_group (tg' x) = t_group (tg x)" "t_wait_cnt (tg' x) = t_wait_cnt (tg x)"
    "ratio (tg' x) = ratio (tg x)" "load_ok (tg' x) = load_ok (tg x)"
proof -
  obtain i where "tg' x = (tg x)\<lparr>t_index := i\<rparr>" using assms unfolding reindexed_def by blast
  then show "t_max_load (tg' x) = t_max_load (tg x)" "t_cur_load (tg' x) = t_cur_load (tg x)"
    "t_group (tg' x) = t_group (tg x)" "t_wait_cnt (tg' x) = t_wait_cnt (tg x)"
    "ratio (tg' x) = ratio (tg x)" "load_ok (tg' x) = load_ok (tg x)"
    by (simp_all add: ratio_def load_ok_def)
qed

lemma slot_view [simp]: "i < length w \<Longrightarrow> slot (map Some w @ rest) i = Some (w ! i)"
  by (simp add: slot_def rd_def nth_append)

lemma place_view:
  "i < length w \<Longrightarrow> place tg (map Some w @ rest) i t =
     Some (tg(t := (tg t)\<lparr>t_index := i\<rparr>), map Some (w[i := t]) @ rest)"
  by (simp add: place_def list_update_append map_update)

text \<open>Moving the element at \<open>c\<close> into the hole at \<open>i\<close> makes a hole at \<open>c\<close>.\<close>

lemma move_hole:
  assumes "hole_ok tg w i t" "c < length w" "c \<noteq> i"
  defines "w' \<equiv> w[i := w ! c]" and "tg' \<equiv> tg(w ! c := (tg (w ! c))\<lparr>t_index := i\<rparr>)"
  shows "hole_ok tg' w' c t" "w'[c := t] = swap_at (w[i := t]) i c" "mset (w'[c := t]) = mset (w[i := t])"
proof -
  have i: "i < length w" and d: "distinct (w[i := t])" using assms(1) by (auto simp: hole_ok_def)
  have sw: "w'[c := t] = swap_at (w[i := t]) i c"
    using i assms(2,3) by (auto simp: w'_def swap_at_def list_update_swap)
  then show "w'[c := t] = swap_at (w[i := t]) i c" .
  show m: "mset (w'[c := t]) = mset (w[i := t])"
    unfolding sw swap_at_def using i assms(2) by (intro mset_swap) auto
  have neq: "w ! j \<noteq> w ! c" if "j < length w" "j \<noteq> i" "j \<noteq> c" for j
    using d that assms(2,3) nth_eq_iff_index_eq [OF d, of j c] by (auto simp: nth_list_update)
  have "indexed_but tg' w' c"
    using assms(1,2,3) neq by (auto simp: indexed_but_def hole_ok_def w'_def tg'_def nth_list_update)
  moreover have "distinct (w'[c := t])" using d m by (metis mset_eq_imp_distinct_iff)
  moreover have "set (w'[c := t]) = set (w[i := t])" using m by (metis mset_eq_setD)
  ultimately show "hole_ok tg' w' c t"
    using assms(1,2) by (auto simp: hole_ok_def w'_def tg'_def load_ok_def)
qed

lemma heap_adjust_loop_ok:
  assumes "hole_ok tg w i t" "up_heap (key tg) (w[i := t]) i" "swap = 0 \<or> swap = (1 :: int)"
  shows "\<exists>tg' w' i'. heap_adjust_loop tg (map Some w @ rest) t swap i = Some (tg', map Some w' @ rest, i') \<and>
     hole_ok tg' w' i' t \<and> heap_ord (key tg) (w'[i' := t]) \<and> mset (w'[i' := t]) = mset (w[i := t]) \<and>
     reindexed (set (w[i := t])) tg tg'"
  using assms(1,2)
proof (induction i arbitrary: tg w rule: less_induct)
  case (less i)
  note hole = less.prems(1) and up = less.prems(2)
  let ?p = "par i"
  have i: "i < length w" using hole by (simp add: hole_ok_def)
  show ?case
  proof (cases "i > 0 \<and> target_cmp (tg t) (tg (w ! ?p)) < swap")
    case True
    then have p: "?p < i" "?p < length w" "?p \<noteq> i" using i by auto
    let ?w = "w[i := w ! ?p]" and ?tg = "tg(w ! ?p := (tg (w ! ?p))\<lparr>t_index := i\<rparr>)"
    note mv = move_hole [OF hole p(2,3)]
    have re: "reindexed (set (w[i := t])) tg ?tg"
      using p i by (intro reindexed_upd) (metis length_list_update nth_list_update_neq nth_mem)
    have same: "key ?tg = key tg" using reindexed_same(5) [OF re] by auto
    have ok: "load_ok (tg t)" "load_ok (tg (w ! ?p))"
      using hole_ok_load [OF hole] p by auto
    have "ratio (tg t) \<le> ratio (tg (w ! ?p))"
      using True assms(3) target_cmp_ratio [OF ok] by auto
    then have "up_heap (key tg) (swap_at (w[i := t]) i ?p) ?p"
      using up True i p by (intro up_heap_step) (auto simp: nth_list_update)
    then have up': "up_heap (key ?tg) (?w[?p := t]) ?p" by (simp only: mv(2) same)
    obtain tg' w' i' where r: "heap_adjust_loop ?tg (map Some ?w @ rest) t swap ?p = Some (tg', map Some w' @ rest, i')"
      "hole_ok tg' w' i' t" "heap_ord (key tg) (w'[i' := t])" "mset (w'[i' := t]) = mset (w[i := t])"
      "reindexed (set (w[i := t])) ?tg tg'"
      using less.IH [OF p(1) mv(1) up'] unfolding same mv(3) mset_eq_setD [OF mv(3)] by blast
    have "heap_adjust_loop tg (map Some w @ rest) t swap i = Some (tg', map Some w' @ rest, i')"
      using True i p r(1) by (subst heap_adjust_loop.simps) (simp add: place_view)
    with r reindexed_trans [OF re r(5)] show ?thesis by blast
  next
    case False
    have "heap_ord (key tg) (w[i := t])"
    proof (rule up_heap_done [OF up])
      show "i = 0 \<or> key tg (w[i := t] ! ?p) \<le> key tg (w[i := t] ! i)"
      proof (cases "i = 0")
        case False
        then have p: "?p < i" "?p < length w" using i by auto
        then have ok: "load_ok (tg t)" "load_ok (tg (w ! ?p))"
          using hole_ok_load [OF hole] by auto
        show ?thesis using \<open>\<not> (i > 0 \<and> _)\<close> False p i assms(3) target_cmp_ratio [OF ok]
          by (auto simp: nth_list_update)
      qed simp
    qed
    moreover have "heap_adjust_loop tg (map Some w @ rest) t swap i = Some (tg, map Some w @ rest, i)"
      using False i by (subst heap_adjust_loop.simps) auto
    ultimately show ?thesis using hole by auto
  qed
qed

text \<open>Filling the hole: every element carries its own index again.\<close>

definition heap_done :: "(addr \<Rightarrow> sched_target) \<Rightarrow> (addr \<Rightarrow> sched_target) \<Rightarrow> addr list \<Rightarrow> addr list \<Rightarrow> bool" where
  "heap_done tg tg' v0 v \<longleftrightarrow> heap_ord (key tg) v \<and> mset v = mset v0 \<and> reindexed (set v0) tg tg' \<and>
     (\<forall>j < length v. t_index (tg' (v ! j)) = j)"

lemma fill_hole:
  assumes "hole_ok tg w i t" "heap_ord (key tg) (w[i := t])"
  shows "heap_done tg (tg(t := (tg t)\<lparr>t_index := i\<rparr>)) (w[i := t]) (w[i := t])"
proof -
  have d: "distinct (w[i := t])" and i: "i < length w" using assms(1) by (auto simp: hole_ok_def)
  have "w ! j \<noteq> t" if "j < length w" "j \<noteq> i" for j
    using that i nth_eq_iff_index_eq [OF d, of j i] by (auto simp: nth_list_update)
  then have "t_index ((tg(t := (tg t)\<lparr>t_index := i\<rparr>)) (w[i := t] ! j)) = j" if "j < length w" for j
    using that assms(1) i by (auto simp: hole_ok_def indexed_but_def nth_list_update)
  then show ?thesis using assms(2) reindexed_upd [of t "set (w[i := t])"] set_update_memI [OF i]
    by (auto simp: heap_done_def)
qed

lemma heap_done_trans:
  assumes "reindexed (set v0) tg tg1" "mset v1 = mset v0" "heap_done tg1 tg' v1 v"
  shows "heap_done tg tg' v0 v"
  using assms reindexed_trans [OF assms(1)] reindexed_same(5) [OF assms(1)] mset_eq_setD [OF assms(2)]
  by (simp add: heap_done_def)

lemma heapify_descend:
  assumes "hole_ok tg w i t" "down_heap (key tg) (w[i := t]) i"
    "c = 2 * i + 1 \<or> c = 2 * i + 2" "c < length w" "ratio (tg (w ! c)) \<le> ratio (tg t)"
    "\<And>j. j = 2 * i + 1 \<or> j = 2 * i + 2 \<Longrightarrow> j < length w \<Longrightarrow> ratio (tg (w ! c)) \<le> ratio (tg (w ! j))"
  defines "w' \<equiv> w[i := w ! c]" and "tg' \<equiv> tg(w ! c := (tg (w ! c))\<lparr>t_index := i\<rparr>)"
  shows "hole_ok tg' w' c t" "down_heap (key tg') (w'[c := t]) c" "mset (w'[c := t]) = mset (w[i := t])"
    "reindexed (set (w[i := t])) tg tg'"
proof -
  have i: "i < length w" using assms(1) by (simp add: hole_ok_def)
  have ci: "c \<noteq> i" "0 < c" "par c = i" using assms(3) by auto
  note mv = move_hole [OF assms(1,4) ci(1)]
  show re: "reindexed (set (w[i := t])) tg tg'"
    unfolding tg'_def using ci assms(4) by (intro reindexed_upd) (metis length_list_update nth_list_update_neq nth_mem)
  show "hole_ok tg' w' c t" "mset (w'[c := t]) = mset (w[i := t])" unfolding w'_def tg'_def by (rule mv)+
  have "down_heap (key tg) (swap_at (w[i := t]) i c) c"
  proof (rule down_heap_step [OF assms(2) ci(2)])
    fix j assume j: "0 < j" "j < length (w[i := t])" "par j = i"
    then have "j = 2 * i + 1 \<or> j = 2 * i + 2" using par_cases [OF j(1)] by blast
    then show "key tg (w[i := t] ! c) \<le> key tg (w[i := t] ! j)"
      using assms(6) [of j] j ci by (auto simp: nth_list_update)
  qed (use assms(4,5) ci i in \<open>auto simp: nth_list_update\<close>)
  moreover have "key tg' = key tg" using reindexed_same(5) [OF re] by auto
  ultimately show "down_heap (key tg') (w'[c := t]) c" using mv(2) by (simp add: w'_def)
qed

lemma heapify_stop:
  assumes "hole_ok tg w i t" "down_heap (key tg) (w[i := t]) i"
    "\<And>j. j = 2 * i + 1 \<or> j = 2 * i + 2 \<Longrightarrow> j < length w \<Longrightarrow> ratio (tg t) \<le> ratio (tg (w ! j))"
  shows "\<exists>tg' v. place tg (map Some w @ rest) i t = Some (tg', map Some v @ rest) \<and> heap_done tg tg' (w[i := t]) v"
proof -
  have i: "i < length w" using assms(1) by (simp add: hole_ok_def)
  have "heap_ord (key tg) (w[i := t])"
  proof (rule down_heap_done [OF assms(2)])
    fix j assume j: "0 < j" "j < length (w[i := t])" "par j = i"
    then have "j = 2 * i + 1 \<or> j = 2 * i + 2" using par_cases [OF j(1)] by blast
    then show "key tg (w[i := t] ! i) \<le> key tg (w[i := t] ! j)"
      using assms(3) [of j] j i by (auto simp: nth_list_update)
  qed
  then show ?thesis using fill_hole [OF assms(1)] i by (auto simp: place_view)
qed

lemma heapify_loop_ok:
  assumes "hole_ok tg w i t" "down_heap (key tg) (w[i := t]) i" "length w = Suc lst"
  shows "\<exists>tg' v. heapify_loop tg (map Some w @ rest) t lst i = Some (tg', map Some v @ rest) \<and>
     heap_done tg tg' (w[i := t]) v"
  using assms
proof (induction "lst - i" arbitrary: i tg w rule: less_induct)
  case less
  note hole = less.prems(1) and down = less.prems(2) and len = less.prems(3)
  have i: "i < length w" using hole by (simp add: hole_ok_def)
  let ?l = "2 * i + 1"
  have cmp: "target_cmp (tg (w ! c)) (tg t) < 0 \<longleftrightarrow> ratio (tg (w ! c)) < ratio (tg t)"
    if "c < length w" "c \<noteq> i" for c
    using hole_ok_load [OF hole] that by (intro target_cmp_ratio) auto
  have go: "\<exists>tg' v. do { (tg, a) \<leftarrow> place tg (map Some w @ rest) i (w ! c); heapify_loop tg a t lst c } =
      Some (tg', map Some v @ rest) \<and> heap_done tg tg' (w[i := t]) v"
    if c: "c = ?l \<or> c = ?l + 1" "c < length w" "ratio (tg (w ! c)) \<le> ratio (tg t)"
      "\<And>j. j = ?l \<or> j = 2 * i + 2 \<Longrightarrow> j < length w \<Longrightarrow> ratio (tg (w ! c)) \<le> ratio (tg (w ! j))" for c
  proof -
    have c': "c = 2 * i + 1 \<or> c = 2 * i + 2" using c(1) by auto
    note ds = heapify_descend [OF hole down c' c(2,3) c(4)]
    have m: "lst - c < lst - i" using c len by auto
    obtain tg' v where "heapify_loop (tg(w ! c := (tg (w ! c))\<lparr>t_index := i\<rparr>)) (map Some (w[i := w ! c]) @ rest) t lst c =
        Some (tg', map Some v @ rest)"
      "heap_done (tg(w ! c := (tg (w ! c))\<lparr>t_index := i\<rparr>)) tg' (w[i := w ! c, c := t]) v"
      using less.hyps [OF m ds(1,2)] len unfolding length_list_update by blast
    then show ?thesis using i heap_done_trans [OF ds(4,3)] by (simp add: place_view)
  qed
  consider (both) "?l < lst" | (one) "?l = lst" | (none) "lst < ?l" by linarith
  then show ?case
  proof cases
    case both
    then have s: "slot (map Some w @ rest) ?l = Some (w ! ?l)" "slot (map Some w @ rest) (?l + 1) = Some (w ! (?l + 1))"
      using len by auto
    have c10: "target_cmp (tg (w ! (?l + 1))) (tg (w ! ?l)) < 0 \<longleftrightarrow> ratio (tg (w ! (?l + 1))) < ratio (tg (w ! ?l))"
      using hole_ok_load(2) [OF hole] both len by (intro target_cmp_ratio) auto
    note c0 = cmp [of ?l] and c1 = cmp [of "?l + 1"]
    have unf: "heapify_loop tg (map Some w @ rest) t lst i =
        (if ratio (tg (w ! ?l)) < ratio (tg t) then
           if ratio (tg (w ! (?l + 1))) < ratio (tg (w ! ?l))
           then do { (tg, a) \<leftarrow> place tg (map Some w @ rest) i (w ! (?l + 1)); heapify_loop tg a t lst (?l + 1) }
           else do { (tg, a) \<leftarrow> place tg (map Some w @ rest) i (w ! ?l); heapify_loop tg a t lst ?l }
         else if ratio (tg (w ! (?l + 1))) < ratio (tg t)
         then do { (tg, a) \<leftarrow> place tg (map Some w @ rest) i (w ! (?l + 1)); heapify_loop tg a t lst (?l + 1) }
         else place tg (map Some w @ rest) i t)"
      using both s c0 c1 c10 len by (subst heapify_loop.simps) (simp add: Let_def)
    consider (right) "ratio (tg (w ! (?l + 1))) < ratio (tg t)"
        "ratio (tg (w ! ?l)) < ratio (tg t) \<Longrightarrow> ratio (tg (w ! (?l + 1))) < ratio (tg (w ! ?l))"
      | (left) "ratio (tg (w ! ?l)) < ratio (tg t)" "\<not> ratio (tg (w ! (?l + 1))) < ratio (tg (w ! ?l))"
      | (stop) "\<not> ratio (tg (w ! ?l)) < ratio (tg t)" "\<not> ratio (tg (w ! (?l + 1))) < ratio (tg t)"
      by force
    then show ?thesis
    proof cases
      case right
      have "\<exists>tg' v. do { (tg, a) \<leftarrow> place tg (map Some w @ rest) i (w ! (?l + 1)); heapify_loop tg a t lst (?l + 1) } =
          Some (tg', map Some v @ rest) \<and> heap_done tg tg' (w[i := t]) v"
      proof (rule go)
        fix j assume "j = ?l \<or> j = 2 * i + 2"
        then show "ratio (tg (w ! (?l + 1))) \<le> ratio (tg (w ! j))"
          using right by (cases "ratio (tg (w ! ?l)) < ratio (tg t)") auto
      qed (use right both len in auto)
      with right show ?thesis unfolding unf by simp
    next
      case left
      have "\<exists>tg' v. do { (tg, a) \<leftarrow> place tg (map Some w @ rest) i (w ! ?l); heapify_loop tg a t lst ?l } =
          Some (tg', map Some v @ rest) \<and> heap_done tg tg' (w[i := t]) v"
        by (rule go) (use left both len in auto)
      with left show ?thesis unfolding unf by simp
    next
      case stop
      have "\<exists>tg' v. place tg (map Some w @ rest) i t = Some (tg', map Some v @ rest) \<and> heap_done tg tg' (w[i := t]) v"
        by (rule heapify_stop [OF hole down]) (use stop in auto)
      with stop show ?thesis unfolding unf by simp
    qed
  next
    case one
    then have s: "slot (map Some w @ rest) ?l = Some (w ! ?l)" using len by auto
    have last_step: "heapify_loop tg1 a t lst lst = place tg1 a lst t" for tg1 a
      by (subst heapify_loop.simps) (simp add: Let_def)
    have "heapify_loop tg (map Some w @ rest) t lst i =
        (if ratio (tg (w ! ?l)) < ratio (tg t)
         then do { (tg, a) \<leftarrow> place tg (map Some w @ rest) i (w ! ?l); heapify_loop tg a t lst ?l }
         else place tg (map Some w @ rest) i t)"
      using one s cmp [of ?l] len by (subst heapify_loop.simps) (simp add: Let_def last_step)
    moreover have "\<exists>tg' v. do { (tg, a) \<leftarrow> place tg (map Some w @ rest) i (w ! ?l); heapify_loop tg a t lst ?l } =
        Some (tg', map Some v @ rest) \<and> heap_done tg tg' (w[i := t]) v" if "ratio (tg (w ! ?l)) < ratio (tg t)"
      by (rule go) (use that one len in auto)
    moreover have "\<exists>tg' v. place tg (map Some w @ rest) i t = Some (tg', map Some v @ rest) \<and>
        heap_done tg tg' (w[i := t]) v" if "\<not> ratio (tg (w ! ?l)) < ratio (tg t)"
      by (rule heapify_stop [OF hole down]) (use that one len in auto)
    ultimately show ?thesis by (cases "ratio (tg (w ! ?l)) < ratio (tg t)") simp_all
  next
    case none
    then have "heapify_loop tg (map Some w @ rest) t lst i = place tg (map Some w @ rest) i t"
      by (subst heapify_loop.simps) (simp add: Let_def)
    then show ?thesis using none len heapify_stop [OF hole down] by auto
  qed
qed

text \<open>The two operations on the array of a group.\<close>

lemma hole_self:
  assumes "distinct v" "i < length v" "\<forall>j < length v. t_index (tg (v ! j)) = j" "\<forall>x \<in> set v. load_ok (tg x)"
  shows "hole_ok tg v i (v ! i)"
  using assms by (simp add: hole_ok_def indexed_but_def)

lemma heap_adjust_ok:
  assumes "g_tg_heap (s_grp s g) = map Some v @ rest" "hole_ok (s_tg s) v i (v ! i)" "up_heap (key (s_tg s)) v i"
  shows "\<exists>tg' v'. heap_adjust s g i sw = Some (s\<lparr>s_tg := tg',
       s_grp := (s_grp s)(g := (s_grp s g)\<lparr>g_tg_heap := map Some v' @ rest\<rparr>)\<rparr>) \<and> heap_done (s_tg s) tg' v v'"
proof -
  have i: "i < length v" using assms(2) by (simp add: hole_ok_def)
  have sw01: "(if sw then 1 else 0) = (0 :: int) \<or> (if sw then 1 else 0) = (1 :: int)" by simp
  obtain tg1 w1 i1 where
    L: "heap_adjust_loop (s_tg s) (map Some v @ rest) (v ! i) (if sw then 1 else 0) i = Some (tg1, map Some w1 @ rest, i1)"
      "hole_ok tg1 w1 i1 (v ! i)" "heap_ord (key (s_tg s)) (w1[i1 := v ! i])"
      "mset (w1[i1 := v ! i]) = mset v" "reindexed (set v) (s_tg s) tg1"
    using heap_adjust_loop_ok [OF assms(2) _ sw01, of rest] assms(3) unfolding list_update_id by blast
  have "heap_ord (key tg1) (w1[i1 := v ! i])" using L(3) reindexed_same(5) [OF L(5)] by simp
  note fill = heap_done_trans [OF L(5,4) fill_hole [OF L(2) this]]
  have "i1 < length w1" using L(2) by (simp add: hole_ok_def)
  with L(1) i fill show ?thesis by (simp add: heap_adjust_def assms(1) place_view) blast
qed

lemma heapify_ok:
  assumes "g_tg_heap (s_grp s g) = map Some v @ rest" "g_heap_size (s_grp s g) = length v"
    "hole_ok (s_tg s) v i (v ! i)" "down_heap (key (s_tg s)) v i"
  shows "\<exists>tg' v'. heapify s g i = Some (s\<lparr>s_tg := tg',
       s_grp := (s_grp s)(g := (s_grp s g)\<lparr>g_tg_heap := map Some v' @ rest\<rparr>)\<rparr>) \<and> heap_done (s_tg s) tg' v v'"
proof -
  have i: "i < length v" using assms(3) by (simp add: hole_ok_def)
  then have "length v = Suc (length v - 1)" by simp
  then obtain tg' v' where "heapify_loop (s_tg s) (map Some v @ rest) (v ! i) (length v - 1) i = Some (tg', map Some v' @ rest)"
    "heap_done (s_tg s) tg' v v'"
    using heapify_loop_ok [OF assms(3), of "length v - 1" rest] assms(4) i by auto
  with i show ?thesis by (simp add: heapify_def assms(1,2)) blast
qed

section \<open>The invariant of a group\<close>

definition group_shape :: "sched \<Rightarrow> addr \<Rightarrow> addr list \<Rightarrow> bool" where
  "group_shape s g v \<longleftrightarrow>
     (let G = s_grp s g
      in g_heap_size G = length v \<and> length v \<le> g_heap_buf_size G \<and> 0 < g_heap_buf_size G \<and>
         length (g_tg_heap G) = g_heap_buf_size G \<and> take (length v) (g_tg_heap G) = map Some v) \<and>
     distinct v \<and> (\<forall>j < length v. t_index (s_tg s (v ! j)) = j) \<and> (\<forall>t \<in> set v. load_ok (s_tg s t))"

definition group_inv :: "sched \<Rightarrow> addr \<Rightarrow> addr list \<Rightarrow> bool" where
  "group_inv s g v \<longleftrightarrow> group_shape s g v \<and> heap_ord (key (s_tg s)) v \<and>
     (\<forall>t. t_group (s_tg s t) = Some g \<longleftrightarrow> t \<in> set v) \<and>
     unat (g_max_load (s_grp s g)) = (\<Sum>t \<leftarrow> v. unat (t_max_load (s_tg s t))) \<and>
     unat (g_cur_load (s_grp s g)) = (\<Sum>t \<leftarrow> v. unat (t_cur_load (s_tg s t)))"

lemma group_shape_array:
  assumes "group_shape s g v"
  shows "g_tg_heap (s_grp s g) = map Some v @ drop (length v) (g_tg_heap (s_grp s g))"
proof -
  have "take (length v) (g_tg_heap (s_grp s g)) = map Some v"
    using assms by (simp add: group_shape_def Let_def)
  then show ?thesis by (metis append_take_drop_id)
qed

lemma group_shape_hole: "group_shape s g v \<Longrightarrow> i < length v \<Longrightarrow> hole_ok (s_tg s) v i (v ! i)"
  by (rule hole_self) (auto simp: group_shape_def)

lemma sum_list_mset_eq: "mset v = mset v' \<Longrightarrow> (\<Sum>t \<leftarrow> v. f t) = (\<Sum>t \<leftarrow> v'. (f t :: nat))"
  by (metis mset_map sum_mset_sum_list)

text \<open>Restoring the heap after one target's load changed keeps everything else of the invariant.\<close>

lemma heap_done_group_inv:
  assumes "group_shape s g v" "heap_done (s_tg s) tg' v v'"
    "\<forall>t. t_group (s_tg s t) = Some g \<longleftrightarrow> t \<in> set v"
    "unat (g_max_load (s_grp s g)) = (\<Sum>t \<leftarrow> v. unat (t_max_load (s_tg s t)))"
    "unat (g_cur_load (s_grp s g)) = (\<Sum>t \<leftarrow> v. unat (t_cur_load (s_tg s t)))"
    "rest = drop (length v) (g_tg_heap (s_grp s g))"
  shows "group_inv (s\<lparr>s_tg := tg', s_grp := (s_grp s)(g := (s_grp s g)\<lparr>g_tg_heap := map Some v' @ rest\<rparr>)\<rparr>) g v'"
proof -
  have m: "mset v' = mset v" and re: "reindexed (set v) (s_tg s) tg'" and h: "heap_ord (key (s_tg s)) v'"
    and ix: "\<forall>j < length v'. t_index (tg' (v' ! j)) = j"
    using assms(2) by (auto simp: heap_done_def)
  have len: "length v' = length v" and st: "set v' = set v" using m by (metis size_mset, metis set_mset_mset)
  have d: "distinct v'" using m assms(1) by (metis mset_eq_imp_distinct_iff group_shape_def)
  have l: "length (drop (length v) (g_tg_heap (s_grp s g))) = g_heap_buf_size (s_grp s g) - length v"
    using assms(1) by (simp add: group_shape_def Let_def)
  show ?thesis
    using assms(1,3-6) h ix d len st l reindexed_same [OF re]
      sum_list_mset_eq [OF m, of "\<lambda>t. unat (t_max_load (s_tg s t))"]
      sum_list_mset_eq [OF m, of "\<lambda>t. unat (t_cur_load (s_tg s t))"]
    by (auto simp: group_inv_def group_shape_def Let_def)
qed

section \<open>Changing the load of one target\<close>

lemma key_raised:
  assumes "heap_ord k v" "distinct v" "i < length v" "k (v ! i) \<le> k' (v ! i)"
    "\<And>x. x \<in> set v \<Longrightarrow> x \<noteq> v ! i \<Longrightarrow> k' x = k x"
  shows "down_heap k' v i"
proof -
  have same: "k' (v ! j) = k (v ! j)" if "j < length v" "j \<noteq> i" for j
    using assms that nth_eq_iff_index_eq by force
  have ord: "k (v ! par j) \<le> k (v ! j)" if "0 < j" "j < length v" for j
    using assms(1) that by (simp add: heap_ord_def)
  show ?thesis unfolding down_heap_def
  proof (intro conjI allI impI)
    fix j assume j: "0 < j" "j < length v" "par j \<noteq> i"
    then show "k' (v ! par j) \<le> k' (v ! j)"
      using ord [OF j(1,2)] same [of "par j"] same [of j] assms(4) by (cases "j = i") auto
  next
    fix j assume j: "0 < j" "j < length v" "par j = i" "0 < i"
    then have "i < j" by auto
    have "k (v ! par i) \<le> k (v ! i)" "k (v ! i) \<le> k (v ! j)"
      using ord [of i] ord [OF j(1,2)] j \<open>i < j\<close> by auto
    moreover have "par i < i" using \<open>0 < i\<close> by auto
    then have "k' (v ! par i) = k (v ! par i)" "k' (v ! j) = k (v ! j)"
      using same [of "par i"] same [of j] j(2) \<open>i < j\<close> by auto
    ultimately show "k' (v ! par i) \<le> k' (v ! j)" by simp
  qed
qed

lemma key_lowered:
  assumes "heap_ord k v" "distinct v" "i < length v" "k' (v ! i) \<le> k (v ! i)"
    "\<And>x. x \<in> set v \<Longrightarrow> x \<noteq> v ! i \<Longrightarrow> k' x = k x"
  shows "up_heap k' v i"
proof -
  have same: "k' (v ! j) = k (v ! j)" if "j < length v" "j \<noteq> i" for j
    using assms that nth_eq_iff_index_eq by force
  have ord: "k (v ! par j) \<le> k (v ! j)" if "0 < j" "j < length v" for j
    using assms(1) that by (simp add: heap_ord_def)
  show ?thesis unfolding up_heap_def
  proof (intro conjI allI impI)
    fix j assume j: "0 < j" "j < length v" "j \<noteq> i"
    then show "k' (v ! par j) \<le> k' (v ! j)"
      using ord [OF j(1,2)] same [of "par j"] same [of j] assms(4) by (cases "par j = i") auto
  next
    fix j assume j: "0 < j" "j < length v" "par j = i" "0 < i"
    then have "i < j" by auto
    have "k (v ! par i) \<le> k (v ! i)" "k (v ! i) \<le> k (v ! j)"
      using ord [of i] ord [OF j(1,2)] j \<open>i < j\<close> by auto
    moreover have "par i < i" using \<open>0 < i\<close> by auto
    then have "k' (v ! par i) = k (v ! par i)" "k' (v ! j) = k (v ! j)"
      using same [of "par i"] same [of j] j(2) \<open>i < j\<close> by auto
    ultimately show "k' (v ! par i) \<le> k' (v ! j)" by simp
  qed
qed

lemma sum_list_upd1:
  assumes "distinct v" "t \<in> set v" "\<And>x. x \<noteq> t \<Longrightarrow> f' x = (f x :: nat)"
  shows "(\<Sum>x \<leftarrow> v. f' x) + f t = (\<Sum>x \<leftarrow> v. f x) + f' t"
proof -
  have "(\<Sum>x \<in> set v - {t}. f' x) = (\<Sum>x \<in> set v - {t}. f x)" using assms(3) by (intro sum.cong) auto
  then show ?thesis
    using assms(1,2) by (simp add: sum_list_distinct_conv_sum_set sum.remove [of "set v" t])
qed

text \<open>\<open>reload s g t c gc\<close>: target \<open>t\<close> gets load \<open>c\<close> and its group load \<open>gc\<close>.\<close>

definition reload :: "sched \<Rightarrow> addr \<Rightarrow> addr \<Rightarrow> u64 \<Rightarrow> u64 \<Rightarrow> sched" where
  "reload s g t c gc = s\<lparr>s_tg := (s_tg s)(t := (s_tg s t)\<lparr>t_cur_load := c\<rparr>),
     s_grp := (s_grp s)(g := (s_grp s g)\<lparr>g_cur_load := gc\<rparr>)\<rparr>"

lemma reload_inv:
  assumes "group_inv s g v" "t \<in> set v" "c \<le> t_max_load (s_tg s t)"
    "unat gc + unat (t_cur_load (s_tg s t)) = unat (g_cur_load (s_grp s g)) + unat c"
  shows "group_shape (reload s g t c gc) g v"
    "\<forall>u. t_group (s_tg (reload s g t c gc) u) = Some g \<longleftrightarrow> u \<in> set v"
    "unat (g_max_load (s_grp (reload s g t c gc) g)) = (\<Sum>u \<leftarrow> v. unat (t_max_load (s_tg (reload s g t c gc) u)))"
    "unat (g_cur_load (s_grp (reload s g t c gc) g)) = (\<Sum>u \<leftarrow> v. unat (t_cur_load (s_tg (reload s g t c gc) u)))"
proof -
  have inv: "group_shape s g v" "\<forall>u. t_group (s_tg s u) = Some g \<longleftrightarrow> u \<in> set v"
    "unat (g_max_load (s_grp s g)) = (\<Sum>u \<leftarrow> v. unat (t_max_load (s_tg s u)))"
    "unat (g_cur_load (s_grp s g)) = (\<Sum>u \<leftarrow> v. unat (t_cur_load (s_tg s u)))"
    using assms(1) by (auto simp: group_inv_def)
  have d: "distinct v" using inv(1) by (simp add: group_shape_def)
  have "load_ok ((s_tg s t)\<lparr>t_cur_load := c\<rparr>)"
    using inv(1) assms(2,3) by (simp add: group_shape_def load_ok_def)
  then show "group_shape (reload s g t c gc) g v"
    using inv(1) by (auto simp: group_shape_def reload_def Let_def)
  show "\<forall>u. t_group (s_tg (reload s g t c gc) u) = Some g \<longleftrightarrow> u \<in> set v"
    using inv(2) assms(2) by (auto simp: reload_def)
  have "(\<Sum>u \<leftarrow> v. unat (t_max_load (s_tg (reload s g t c gc) u))) = (\<Sum>u \<leftarrow> v. unat (t_max_load (s_tg s u)))"
    by (intro arg_cong [where f = sum_list] map_cong) (auto simp: reload_def)
  with inv(3) show "unat (g_max_load (s_grp (reload s g t c gc) g)) = (\<Sum>u \<leftarrow> v. unat (t_max_load (s_tg (reload s g t c gc) u)))"
    by (simp add: reload_def)
  have "(\<Sum>u \<leftarrow> v. unat (t_cur_load (s_tg (reload s g t c gc) u))) + unat (t_cur_load (s_tg s t)) =
     (\<Sum>u \<leftarrow> v. unat (t_cur_load (s_tg s u))) + unat c"
    using sum_list_upd1 [OF d assms(2), of "\<lambda>u. unat (t_cur_load (s_tg (reload s g t c gc) u))"
        "\<lambda>u. unat (t_cur_load (s_tg s u))"] by (auto simp: reload_def)
  with inv(4) assms(4) show "unat (g_cur_load (s_grp (reload s g t c gc) g)) = (\<Sum>u \<leftarrow> v. unat (t_cur_load (s_tg (reload s g t c gc) u)))"
    by (simp add: reload_def)
qed

lemma reload_key:
  assumes "group_inv s g v" "i < length v"
  shows "t_cur_load (s_tg s (v ! i)) \<le> c \<Longrightarrow> down_heap (key (s_tg (reload s g (v ! i) c gc))) v i"
    and "c \<le> t_cur_load (s_tg s (v ! i)) \<Longrightarrow> up_heap (key (s_tg (reload s g (v ! i) c gc))) v i"
proof -
  have h: "heap_ord (key (s_tg s)) v" and d: "distinct v"
    using assms(1) by (auto simp: group_inv_def group_shape_def)
  have r: "ratio (s_tg (reload s g (v ! i) c gc) (v ! i)) = real (unat c) / real (unat (t_max_load (s_tg s (v ! i))))"
    by (simp add: reload_def ratio_def)
  { assume "t_cur_load (s_tg s (v ! i)) \<le> c"
    then have "key (s_tg s) (v ! i) \<le> key (s_tg (reload s g (v ! i) c gc)) (v ! i)"
      unfolding r by (simp only: ratio_def, intro divide_right_mono) (simp_all only: word_le_nat_alt of_nat_le_iff of_nat_0_le_iff)
    then show "down_heap (key (s_tg (reload s g (v ! i) c gc))) v i"
      using key_raised [OF h d assms(2)] by (auto simp: reload_def) }
  { assume "c \<le> t_cur_load (s_tg s (v ! i))"
    then have "key (s_tg (reload s g (v ! i) c gc)) (v ! i) \<le> key (s_tg s) (v ! i)"
      unfolding r by (simp only: ratio_def, intro divide_right_mono) (simp_all only: word_le_nat_alt of_nat_le_iff of_nat_0_le_iff)
    then show "up_heap (key (s_tg (reload s g (v ! i) c gc))) v i"
      using key_lowered [OF h d assms(2)] by (auto simp: reload_def) }
qed

section \<open>Acquiring and releasing\<close>

lemma group_inv_index: "group_inv s g v \<Longrightarrow> t \<in> set v \<Longrightarrow> t_index (s_tg s t) < length v \<and> v ! t_index (s_tg s t) = t"
  by (auto simp: group_inv_def group_shape_def in_set_conv_nth)

lemma group_inv_load: "group_inv s g v \<Longrightarrow> t \<in> set v \<Longrightarrow> load_ok (s_tg s t)"
  by (simp add: group_inv_def group_shape_def)

lemma sum_list_less_ex:
  fixes f h :: "'a \<Rightarrow> nat"
  assumes "\<And>x. x \<in> set v \<Longrightarrow> f x \<le> h x" "t \<in> set v" "f t < h t"
  shows "(\<Sum>x \<leftarrow> v. f x) < (\<Sum>x \<leftarrow> v. h x)"
  using assms
proof (induction v)
  case (Cons x v)
  have "(\<Sum>x \<leftarrow> v. f x) \<le> (\<Sum>x \<leftarrow> v. h x)" using Cons.prems by (intro sum_list_mono) auto
  with Cons show ?case by (cases "t = x") (auto intro: add_le_less_mono add_less_le_mono)
qed simp

text \<open>
  Raising the load of a member by one and sifting it down, and lowering it by one and sifting it
  up, keep the invariant. In both, all other targets keep their loads.
\<close>

lemma raise_member:
  assumes "group_inv s g v" "t \<in> set v" "t_cur_load (s_tg s t) < t_max_load (s_tg s t)"
  defines "s1 \<equiv> reload s g t (t_cur_load (s_tg s t) + 1) (g_cur_load (s_grp s g) + 1)"
  shows "\<exists>s' v'. heapify s1 g (t_index (s_tg s t)) = Some s' \<and> group_inv s' g v' \<and> set v' = set v \<and>
     reindexed (set v) (s_tg s1) (s_tg s') \<and> g_wait_cnt (s_grp s' g) = g_wait_cnt (s_grp s g) \<and>
     g_max_load (s_grp s' g) = g_max_load (s_grp s g) \<and> (\<forall>h. h \<noteq> g \<longrightarrow> s_grp s' h = s_grp s h) \<and>
     g_cur_load (s_grp s' g) = g_cur_load (s_grp s g) + 1"
proof -
  let ?i = "t_index (s_tg s t)" and ?c = "t_cur_load (s_tg s t) + 1" and ?gc = "g_cur_load (s_grp s g) + 1"
  note ix = group_inv_index [OF assms(1,2)]
  have c: "unat ?c = unat (t_cur_load (s_tg s t)) + 1"
    using assms(3) by (rule unat_succ)
  have "unat (t_cur_load (s_tg s t)) < unat (t_max_load (s_tg s t))" using assms(3) by (simp add: word_less_nat_alt)
  then have "?c \<le> t_max_load (s_tg s t)" using c by (simp add: word_le_nat_alt)
  moreover have "g_cur_load (s_grp s g) < g_max_load (s_grp s g)"
  proof -
    have "(\<Sum>u \<leftarrow> v. unat (t_cur_load (s_tg s u))) < (\<Sum>u \<leftarrow> v. unat (t_max_load (s_tg s u)))"
      using assms(2,3) group_inv_load [OF assms(1)]
      by (intro sum_list_less_ex) (auto simp: word_less_nat_alt word_le_nat_alt load_ok_def)
    then show ?thesis using assms(1) by (simp add: group_inv_def word_less_nat_alt)
  qed
  then have "unat ?gc = unat (g_cur_load (s_grp s g)) + 1"
    by (rule unat_succ)
  ultimately have R: "group_shape s1 g v" "\<forall>u. t_group (s_tg s1 u) = Some g \<longleftrightarrow> u \<in> set v"
    "unat (g_max_load (s_grp s1 g)) = (\<Sum>u \<leftarrow> v. unat (t_max_load (s_tg s1 u)))"
    "unat (g_cur_load (s_grp s1 g)) = (\<Sum>u \<leftarrow> v. unat (t_cur_load (s_tg s1 u)))"
    unfolding s1_def using reload_inv [OF assms(1,2), of ?c ?gc] c by auto
  have "t_cur_load (s_tg s t) \<le> ?c" using c by (simp add: word_le_nat_alt)
  then have "down_heap (key (s_tg s1)) v ?i"
    using reload_key(1) [OF assms(1), of ?i] ix by (simp add: s1_def)
  moreover have "g_heap_size (s_grp s1 g) = length v" using R(1) by (simp add: group_shape_def Let_def)
  ultimately obtain tg' v' where H: "heapify s1 g ?i = Some (s1\<lparr>s_tg := tg',
      s_grp := (s_grp s1)(g := (s_grp s1 g)\<lparr>g_tg_heap := map Some v' @ drop (length v) (g_tg_heap (s_grp s1 g))\<rparr>)\<rparr>)"
    "heap_done (s_tg s1) tg' v v'"
    using heapify_ok [OF group_shape_array [OF R(1)] _ group_shape_hole [OF R(1)]] ix by blast
  have "group_inv (s1\<lparr>s_tg := tg',
      s_grp := (s_grp s1)(g := (s_grp s1 g)\<lparr>g_tg_heap := map Some v' @ drop (length v) (g_tg_heap (s_grp s1 g))\<rparr>)\<rparr>) g v'"
    by (rule heap_done_group_inv [OF R(1) H(2) R(2-4) refl])
  moreover have "set v' = set v" "reindexed (set v) (s_tg s1) tg'"
    using H(2) by (auto simp: heap_done_def dest: mset_eq_setD)
  ultimately show ?thesis using H(1)
    by (intro exI [of _ "s1\<lparr>s_tg := tg', s_grp := (s_grp s1)(g := (s_grp s1 g)
        \<lparr>g_tg_heap := map Some v' @ drop (length v) (g_tg_heap (s_grp s1 g))\<rparr>)\<rparr>"] exI [of _ v'] conjI)
      (simp_all add: s1_def reload_def)
qed

lemma lower_member:
  assumes "group_inv s g v" "t \<in> set v" "0 < t_cur_load (s_tg s t)"
  defines "s1 \<equiv> reload s g t (t_cur_load (s_tg s t) - 1) (g_cur_load (s_grp s g) - 1)"
  shows "\<exists>s' v'. heap_adjust s1 g (t_index (s_tg s t)) sw = Some s' \<and> group_inv s' g v' \<and> set v' = set v \<and>
     reindexed (set v) (s_tg s1) (s_tg s') \<and> g_wait_cnt (s_grp s' g) = g_wait_cnt (s_grp s g) \<and>
     g_max_load (s_grp s' g) = g_max_load (s_grp s g) \<and> (\<forall>h. h \<noteq> g \<longrightarrow> s_grp s' h = s_grp s h) \<and>
     g_cur_load (s_grp s' g) = g_cur_load (s_grp s g) - 1"
proof -
  let ?i = "t_index (s_tg s t)" and ?c = "t_cur_load (s_tg s t) - 1" and ?gc = "g_cur_load (s_grp s g) - 1"
  note ix = group_inv_index [OF assms(1,2)]
  have pos: "0 < unat (t_cur_load (s_tg s t))" using assms(3) by (simp add: word_less_nat_alt)
  have c: "unat ?c = unat (t_cur_load (s_tg s t)) - 1" using assms(3) by (simp add: unat_minus_one word_gt_0)
  have "unat (t_cur_load (s_tg s t)) \<le> (\<Sum>u \<leftarrow> v. unat (t_cur_load (s_tg s u)))"
    using assms(2) by (intro member_le_sum_list) auto
  then have gpos: "0 < unat (g_cur_load (s_grp s g))" using pos assms(1) by (simp add: group_inv_def)
  then have gc: "unat ?gc = unat (g_cur_load (s_grp s g)) - 1" by (simp add: unat_minus_one unat_gt_0)
  have le: "?c \<le> t_cur_load (s_tg s t)" using c by (simp add: word_le_nat_alt)
  then have "?c \<le> t_max_load (s_tg s t)"
    using group_inv_load [OF assms(1,2)] order_trans unfolding load_ok_def by blast
  then have R: "group_shape s1 g v" "\<forall>u. t_group (s_tg s1 u) = Some g \<longleftrightarrow> u \<in> set v"
    "unat (g_max_load (s_grp s1 g)) = (\<Sum>u \<leftarrow> v. unat (t_max_load (s_tg s1 u)))"
    "unat (g_cur_load (s_grp s1 g)) = (\<Sum>u \<leftarrow> v. unat (t_cur_load (s_tg s1 u)))"
    unfolding s1_def using reload_inv [OF assms(1,2), of ?c ?gc] c gc pos gpos by auto
  have "up_heap (key (s_tg s1)) v ?i"
    using reload_key(2) [OF assms(1), of ?i ?c] ix le by (simp add: s1_def)
  then obtain tg' v' where H: "heap_adjust s1 g ?i sw = Some (s1\<lparr>s_tg := tg',
      s_grp := (s_grp s1)(g := (s_grp s1 g)\<lparr>g_tg_heap := map Some v' @ drop (length v) (g_tg_heap (s_grp s1 g))\<rparr>)\<rparr>)"
    "heap_done (s_tg s1) tg' v v'"
    using heap_adjust_ok [OF group_shape_array [OF R(1)] group_shape_hole [OF R(1)]] ix by blast
  have "group_inv (s1\<lparr>s_tg := tg',
      s_grp := (s_grp s1)(g := (s_grp s1 g)\<lparr>g_tg_heap := map Some v' @ drop (length v) (g_tg_heap (s_grp s1 g))\<rparr>)\<rparr>) g v'"
    by (rule heap_done_group_inv [OF R(1) H(2) R(2-4) refl])
  moreover have "set v' = set v" "reindexed (set v) (s_tg s1) tg'"
    using H(2) by (auto simp: heap_done_def dest: mset_eq_setD)
  ultimately show ?thesis using H(1)
    by (intro exI [of _ "s1\<lparr>s_tg := tg', s_grp := (s_grp s1)(g := (s_grp s1 g)
        \<lparr>g_tg_heap := map Some v' @ drop (length v) (g_tg_heap (s_grp s1 g))\<rparr>)\<rparr>"] exI [of _ v'] conjI)
      (simp_all add: s1_def reload_def)
qed

text \<open>When the group has spare load, so has its root, which has the least load ratio.\<close>

lemma root_has_room:
  assumes "group_inv s g v" "g_cur_load (s_grp s g) < g_max_load (s_grp s g)"
  shows "v \<noteq> []" "t_cur_load (s_tg s (v ! 0)) < t_max_load (s_tg s (v ! 0))"
    "\<forall>u \<in> set v. ratio (s_tg s (v ! 0)) \<le> ratio (s_tg s u)"
proof -
  have sums: "(\<Sum>u \<leftarrow> v. unat (t_cur_load (s_tg s u))) < (\<Sum>u \<leftarrow> v. unat (t_max_load (s_tg s u)))"
    using assms by (simp add: group_inv_def word_less_nat_alt)
  then show ne: "v \<noteq> []" by auto
  have h: "heap_ord (key (s_tg s)) v" using assms(1) by (simp add: group_inv_def)
  show least: "\<forall>u \<in> set v. ratio (s_tg s (v ! 0)) \<le> ratio (s_tg s u)"
    using heap_root_least [OF h] by (auto simp: in_set_conv_nth)
  show "t_cur_load (s_tg s (v ! 0)) < t_max_load (s_tg s (v ! 0))"
  proof (rule ccontr)
    assume "\<not> ?thesis"
    then have "unat (t_max_load (s_tg s (v ! 0))) \<le> unat (t_cur_load (s_tg s (v ! 0)))"
      by (simp add: word_le_nat_alt word_less_nat_alt)
    moreover have "0 < unat (t_max_load (s_tg s (v ! 0)))"
      using load_okD(1) group_inv_load [OF assms(1)] ne by simp
    ultimately have one: "1 \<le> ratio (s_tg s (v ! 0))" unfolding ratio_def by (simp add: le_divide_eq_1 del: of_nat_unat)
    have "unat (t_max_load (s_tg s u)) \<le> unat (t_cur_load (s_tg s u))" if "u \<in> set v" for u
    proof -
      have "0 < unat (t_max_load (s_tg s u))" using load_okD(1) group_inv_load [OF assms(1) that] by simp
      moreover have "1 \<le> ratio (s_tg s u)" using least that one by force
      ultimately show ?thesis unfolding ratio_def by (simp add: le_divide_eq_1 del: of_nat_unat)
    qed
    then have "(\<Sum>u \<leftarrow> v. unat (t_max_load (s_tg s u))) \<le> (\<Sum>u \<leftarrow> v. unat (t_cur_load (s_tg s u)))"
      by (intro sum_list_mono) auto
    with sums show False by simp
  qed
qed

text \<open>
  The members of a group in heap order, and what every operation keeps: \<open>group_ok\<close>. An operation on
  target \<open>t\<close> of group \<open>g\<close> changes \<open>t\<close> by \<open>f\<close>, moves members of \<open>g\<close> inside the heap, and leaves
  every other target and group alone: \<open>affects s s' g t f\<close>.
\<close>

definition members :: "sched \<Rightarrow> addr \<Rightarrow> addr list" where
  "members s g = map the (take (g_heap_size (s_grp s g)) (g_tg_heap (s_grp s g)))"

definition group_ok :: "sched \<Rightarrow> addr \<Rightarrow> bool" where
  "group_ok s g \<longleftrightarrow> group_inv s g (members s g)"

definition affects :: "sched \<Rightarrow> sched \<Rightarrow> addr \<Rightarrow> addr \<Rightarrow> (sched_target \<Rightarrow> sched_target) \<Rightarrow> bool" where
  "affects s s' g t f \<longleftrightarrow>
     reindexed (insert t (set (members s g))) ((s_tg s)(t := f (s_tg s t))) (s_tg s') \<and>
     (\<forall>h. h \<noteq> g \<longrightarrow> s_grp s' h = s_grp s h)"

lemma group_inv_members: "group_inv s g v \<Longrightarrow> members s g = v"
  by (simp add: group_inv_def group_shape_def members_def Let_def comp_def)

lemma group_inv_ok: "group_inv s g v \<Longrightarrow> group_ok s g"
  by (simp add: group_ok_def group_inv_members)

lemma reindexed_mono: "reindexed A a b \<Longrightarrow> A \<subseteq> B \<Longrightarrow> reindexed B a b"
  by (auto simp: reindexed_def)

lemma group_ok_member: "group_ok s g \<Longrightarrow> t \<in> set (members s g) \<longleftrightarrow> t_group (s_tg s t) = Some g"
  by (simp add: group_ok_def group_inv_def)

lemma group_take_ok:
  assumes "group_ok s g" "g_cur_load (s_grp s g) < g_max_load (s_grp s g)"
  defines "t \<equiv> hd (members s g)"
  shows "\<exists>s'. group_take s g = Some (t, s') \<and> group_ok s' g \<and> set (members s' g) = set (members s g) \<and>
     affects s s' g t (\<lambda>T. T\<lparr>t_cur_load := t_cur_load T + 1\<rparr>) \<and>
     g_cur_load (s_grp s' g) = g_cur_load (s_grp s g) + 1 \<and> g_max_load (s_grp s' g) = g_max_load (s_grp s g) \<and>
     g_wait_cnt (s_grp s' g) = g_wait_cnt (s_grp s g)"
proof -
  let ?v = "members s g"
  have inv: "group_inv s g ?v" using assms(1) by (simp add: group_ok_def)
  note room = root_has_room [OF inv assms(2)]
  have t: "t = ?v ! 0" "t \<in> set ?v" using room(1) by (simp_all add: t_def hd_conv_nth)
  have "t_index (s_tg s t) = 0"
    using inv room(1) t by (simp add: group_inv_def group_shape_def)
  moreover have "slot (g_tg_heap (s_grp s g)) 0 = Some t"
    using group_shape_array [of s g ?v] inv slot_view [of 0 ?v "drop (length ?v) (g_tg_heap (s_grp s g))"] room(1) t(1)
    unfolding group_inv_def by simp
  ultimately show ?thesis
    using raise_member [OF inv t(2)] room(2) t
    by (auto simp: group_take_def affects_def reload_def group_inv_ok group_inv_members intro!: reindexed_mono [where A = "set ?v"])
qed

lemma target_take_ok:
  assumes "group_ok s g" "t_group (s_tg s t) = Some g" "t_cur_load (s_tg s t) < t_max_load (s_tg s t)"
  shows "\<exists>s'. target_take s t = Some s' \<and> group_ok s' g \<and> set (members s' g) = set (members s g) \<and>
     affects s s' g t (\<lambda>T. T\<lparr>t_cur_load := t_cur_load T + 1\<rparr>)"
proof -
  have inv: "group_inv s g (members s g)" and t: "t \<in> set (members s g)"
    using assms(1,2) by (simp_all add: group_ok_member) (simp add: group_ok_def)
  show ?thesis using raise_member [OF inv t assms(3)] assms(2)
    by (auto simp: target_take_def affects_def reload_def group_inv_ok group_inv_members
        intro!: reindexed_mono [where A = "set (members s g)"])
qed

lemma target_release_ok:
  assumes "group_ok s g" "t_group (s_tg s t) = Some g" "0 < t_cur_load (s_tg s t)"
  shows "\<exists>s'. target_release s t ka = Some
       ((if 0 < t_wait_cnt (s_tg s t) then [TargetCond t]
         else if 0 < g_wait_cnt (s_grp s g) then [GroupCond g] else []), s') \<and>
     group_ok s' g \<and> set (members s' g) = set (members s g) \<and>
     affects s s' g t (\<lambda>T. T\<lparr>t_cur_load := t_cur_load T - 1\<rparr>)"
proof -
  have inv: "group_inv s g (members s g)" and t: "t \<in> set (members s g)"
    using assms(1,2) by (simp_all add: group_ok_member) (simp add: group_ok_def)
  show ?thesis using lower_member [OF inv t assms(3), of ka] assms(2)
    by (auto simp: target_release_def affects_def reload_def group_inv_ok group_inv_members Let_def
        intro!: reindexed_mono [where A = "set (members s g)"])
qed

section \<open>Adding and removing targets\<close>

definition heap_state :: "sched \<Rightarrow> addr \<Rightarrow> (addr \<Rightarrow> sched_target) \<Rightarrow> addr list \<Rightarrow> addr option list \<Rightarrow> sched" where
  "heap_state s g tg v rest = s\<lparr>s_tg := tg, s_grp := (s_grp s)(g := (s_grp s g)\<lparr>g_tg_heap := map Some v @ rest,
     g_heap_size := length v, g_heap_buf_size := length v + length rest\<rparr>)\<rparr>"

text \<open>The array is a heap of exactly the targets of \<open>v\<close>, with their indices.\<close>

definition heap_of :: "(addr \<Rightarrow> sched_target) \<Rightarrow> (addr \<Rightarrow> sched_target) \<Rightarrow> addr multiset \<Rightarrow> addr list \<Rightarrow> bool" where
  "heap_of tg tg' M v \<longleftrightarrow> heap_ord (key tg) v \<and> mset v = M \<and> (\<forall>j < length v. t_index (tg' (v ! j)) = j)"

lemma grp_upd_order:
  "G\<lparr>g_heap_buf_size := b, g_tg_heap := h, g_heap_size := n\<rparr> = (G :: sched_group)\<lparr>g_tg_heap := h, g_heap_size := n, g_heap_buf_size := b\<rparr>"
  "G\<lparr>g_heap_size := n, g_tg_heap := h\<rparr> = (G :: sched_group)\<lparr>g_tg_heap := h, g_heap_size := n\<rparr>"
  "g_heap_buf_size G = b \<Longrightarrow> (G :: sched_group)\<lparr>g_tg_heap := h, g_heap_size := n, g_heap_buf_size := b\<rparr> = G\<lparr>g_tg_heap := h, g_heap_size := n\<rparr>"
  "g_tg_heap G = h \<Longrightarrow> G\<lparr>g_tg_heap := h\<rparr> = G"
  "g_heap_buf_size G = b \<Longrightarrow> G\<lparr>g_heap_size := n, g_heap_buf_size := b\<rparr> = G\<lparr>g_heap_size := n\<rparr>"
  by (cases G; simp)+

lemma place_append:
  "place tg (map Some v @ x # rest) (length v) t = Some (tg(t := (tg t)\<lparr>t_index := length v\<rparr>), map Some (v @ [t]) @ rest)"
  by (simp add: place_def list_update_append)

lemma up_heap_snoc: "heap_ord k v \<Longrightarrow> up_heap k (v @ [t]) (length v)"
proof -
  assume "heap_ord k v"
  moreover have "v \<noteq> [] \<Longrightarrow> (length v - Suc 0) div 2 \<noteq> length v" by (cases v) auto
  ultimately show ?thesis by (auto simp: heap_ord_def up_heap_def nth_append less_Suc_eq)
qed

lemma heap_insert_ok:
  assumes "group_shape s g v" "heap_ord (key (s_tg s)) v" "t \<notin> set v" "load_ok (s_tg s t)"
    "mem \<or> length v < g_heap_buf_size (s_grp s g)"
  shows "\<exists>tg' v' rest. heap_insert s g t mem = Some (True, heap_state s g tg' v' rest) \<and>
     heap_of (s_tg s) tg' (add_mset t (mset v)) v' \<and> reindexed (insert t (set v)) (s_tg s) tg'"
proof -
  let ?G = "s_grp s g" and ?full = "g_heap_size (s_grp s g) = g_heap_buf_size (s_grp s g)"
  define rest0 where "rest0 = drop (length v) (g_tg_heap ?G) @ (if ?full then replicate (g_heap_buf_size ?G) None else [])"
  define G1 where "G1 = ?G\<lparr>g_tg_heap := map Some v @ rest0, g_heap_buf_size := length v + length rest0\<rparr>"
  have sh: "g_heap_size ?G = length v" "length v \<le> g_heap_buf_size ?G" "0 < g_heap_buf_size ?G"
    "length (g_tg_heap ?G) = g_heap_buf_size ?G" "distinct v" "\<forall>j < length v. t_index (s_tg s (v ! j)) = j"
    "\<forall>t \<in> set v. load_ok (s_tg s t)"
    using assms(1) by (auto simp: group_shape_def Let_def)
  have arr: "g_tg_heap ?G = map Some v @ drop (length v) (g_tg_heap ?G)" by (rule group_shape_array [OF assms(1)])
  have "0 < length rest0" using sh by (auto simp: rest0_def)
  then obtain x rest where x: "rest0 = x # rest" by (cases rest0) auto
  let ?tg = "(s_tg s)(t := (s_tg s t)\<lparr>t_index := length v\<rparr>)"
  let ?s1 = "s\<lparr>s_tg := ?tg, s_grp := (s_grp s)(g := G1\<lparr>g_tg_heap := map Some (v @ [t]) @ rest\<rparr>)\<rparr>"
  have re: "reindexed (insert t (set v)) (s_tg s) ?tg" by (rule reindexed_upd) simp
  have "hole_ok ?tg (v @ [t]) (length v) ((v @ [t]) ! length v)"
    using sh assms(3,4) by (intro hole_self) (auto simp: nth_append load_ok_def less_Suc_eq)
  moreover have "up_heap (key ?tg) (v @ [t]) (length v)"
    using up_heap_snoc [OF assms(2)] reindexed_same(5) [OF re] by simp
  ultimately obtain tg' v' where H: "heap_adjust ?s1 g (length v) False = Some (?s1\<lparr>s_tg := tg',
       s_grp := (s_grp ?s1)(g := (s_grp ?s1 g)\<lparr>g_tg_heap := map Some v' @ rest\<rparr>)\<rparr>)"
    "heap_done ?tg tg' (v @ [t]) v'"
    using heap_adjust_ok [of ?s1 g "v @ [t]" rest "length v" False] by auto
  have "mset v' = mset (v @ [t])" using H(2) by (simp add: heap_done_def)
  from mset_eq_length [OF this] have len: "length v' = Suc (length v)" by simp
  have G1: "(if ?full then ?G\<lparr>g_tg_heap := g_tg_heap ?G @ replicate (2 * g_heap_buf_size ?G - g_heap_buf_size ?G) None,
      g_heap_buf_size := 2 * g_heap_buf_size ?G\<rparr> else ?G) = G1"
    using sh arr by (auto simp: G1_def rest0_def)
  have hi: "heap_insert s g t mem = Some (True, heap_state s g tg' v' rest)"
    using assms(5) sh(1) H(1) len x place_append [of "s_tg s" v x rest t]
    unfolding heap_insert_def Let_def G1
    by (auto simp: heap_state_def G1_def grp_upd_order(1))
  have re2: "reindexed (insert t (set v)) (s_tg s) tg'"
    using reindexed_trans [OF re] H(2) by (simp add: heap_done_def)
  have "heap_of (s_tg s) tg' (add_mset t (mset v)) v'"
    using H(2) reindexed_same(5) [OF re] by (simp add: heap_done_def heap_of_def)
  with hi re2 show ?thesis by blast
qed

text \<open>Removing puts the last target in the hole, which may have to move up or down from there.\<close>

lemma heap_ord_butlast: "heap_ord k v \<Longrightarrow> heap_ord k (butlast v)"
  by (auto simp: heap_ord_def nth_butlast)

lemma fill_up_or_down:
  assumes "heap_ord k w" "i < length w"
  shows "(0 < i \<and> k x < k (w ! par i) \<longrightarrow> up_heap k (w[i := x]) i) \<and>
     (i = 0 \<or> k (w ! par i) \<le> k x \<longrightarrow> down_heap k (w[i := x]) i)"
proof -
  have ord: "k (w ! par j) \<le> k (w ! j)" if "0 < j" "j < length w" for j
    using assms(1) that by (simp add: heap_ord_def)
  have pi: "0 < i \<Longrightarrow> par i < i" by auto
  have ch: "k (w ! par i) \<le> k (w ! j)" if "0 < j" "j < length w" "par j = i" "0 < i" for j
  proof -
    have "k (w ! i) \<le> k (w ! j)" using ord [OF that(1,2)] that(3) by simp
    with ord [OF that(4) assms(2)] show ?thesis by simp
  qed
  have nj: "par j = i \<Longrightarrow> 0 < j \<Longrightarrow> j \<noteq> i" for j using pi by force
  show ?thesis
  proof (intro conjI impI)
    assume x: "0 < i \<and> k x < k (w ! par i)"
    show "up_heap k (w[i := x]) i" unfolding up_heap_def
    proof (intro conjI allI impI)
      fix j assume j: "0 < j" "j < length (w[i := x])" "j \<noteq> i"
      then show "k (w[i := x] ! par j) \<le> k (w[i := x] ! j)"
        using ord [of j] ch [of j] x assms(2) by (cases "par j = i") auto
    next
      fix j assume j: "0 < j" "j < length (w[i := x])" "par j = i" "0 < i"
      then show "k (w[i := x] ! par i) \<le> k (w[i := x] ! j)"
        using ch [of j] nj [of j] pi by auto
    qed
  next
    assume x: "i = 0 \<or> k (w ! par i) \<le> k x"
    show "down_heap k (w[i := x]) i" unfolding down_heap_def
    proof (intro conjI allI impI)
      fix j assume j: "0 < j" "j < length (w[i := x])" "par j \<noteq> i"
      then show "k (w[i := x] ! par j) \<le> k (w[i := x] ! j)"
        using ord [of j] x assms(2) by (cases "j = i") auto
    next
      fix j assume j: "0 < j" "j < length (w[i := x])" "par j = i" "0 < i"
      then show "k (w[i := x] ! par i) \<le> k (w[i := x] ! j)"
        using ch [of j] nj [of j] pi by auto
    qed
  qed
qed

lemma heap_ord_down: "heap_ord k v \<Longrightarrow> down_heap k v i"
proof -
  assume h: "heap_ord k v"
  then have ord: "k (v ! par j) \<le> k (v ! j)" if "0 < j" "j < length v" for j
    using that by (simp add: heap_ord_def)
  show ?thesis unfolding down_heap_def
  proof (intro conjI allI impI)
    fix j assume j: "0 < j" "j < length v" "par j = i" "0 < i"
    then have "i < j" by auto
    then show "k (v ! par i) \<le> k (v ! j)" using ord [of i] ord [of j] j by auto
  qed (use ord in auto)
qed

text \<open>
  From a target \<open>w ! i\<close> whose key was chosen freely, \<^verbatim>\<open>heap_adjust\<close> and then \<^verbatim>\<open>heapify\<close> at the
  place where it ends restore the heap.
\<close>

lemma adjust_then_heapify:
  assumes "g_tg_heap (s_grp s g) = map Some w @ rest" "g_heap_size (s_grp s g) = length w"
    "hole_ok (s_tg s) w i (w ! i)" "t_index (s_tg s (w ! i)) = i"
    "up_heap (key (s_tg s)) w i \<or> down_heap (key (s_tg s)) w i \<and> (i = 0 \<or> ratio (s_tg s (w ! par i)) \<le> ratio (s_tg s (w ! i)))"
  shows "\<exists>tg' v'. do { s1 \<leftarrow> heap_adjust s g i False; heapify s1 g (t_index (s_tg s1 (w ! i))) } =
      Some (s\<lparr>s_tg := tg', s_grp := (s_grp s)(g := (s_grp s g)\<lparr>g_tg_heap := map Some v' @ rest\<rparr>)\<rparr>) \<and>
     heap_done (s_tg s) tg' w v'"
proof -
  have i: "i < length w" and d: "distinct w" and l: "\<forall>x \<in> set w. load_ok (s_tg s x)"
    using assms(3) by (auto simp: hole_ok_def)
  have "\<exists>tg1 v1. heap_adjust s g i False = Some (s\<lparr>s_tg := tg1,
       s_grp := (s_grp s)(g := (s_grp s g)\<lparr>g_tg_heap := map Some v1 @ rest\<rparr>)\<rparr>) \<and>
     reindexed (set w) (s_tg s) tg1 \<and> mset v1 = mset w \<and> (\<forall>j < length v1. t_index (tg1 (v1 ! j)) = j) \<and>
     (\<exists>j. j < length v1 \<and> v1 ! j = w ! i \<and> down_heap (key tg1) v1 j)"
    using assms(5)
  proof
    assume "up_heap (key (s_tg s)) w i"
    from heap_adjust_ok [OF assms(1,3) this, of False] obtain tg1 v1 where
      H: "heap_adjust s g i False = Some (s\<lparr>s_tg := tg1,
         s_grp := (s_grp s)(g := (s_grp s g)\<lparr>g_tg_heap := map Some v1 @ rest\<rparr>)\<rparr>)" "heap_done (s_tg s) tg1 w v1" by blast
    have re: "reindexed (set w) (s_tg s) tg1" and m: "mset v1 = mset w" and
      ix: "\<forall>j < length v1. t_index (tg1 (v1 ! j)) = j" and h: "heap_ord (key (s_tg s)) v1"
      using H(2) by (auto simp: heap_done_def)
    have "w ! i \<in> set v1" using m i by (metis mset_eq_setD nth_mem)
    then obtain j where "j < length v1" "v1 ! j = w ! i" by (auto simp: in_set_conv_nth)
    moreover have "down_heap (key tg1) v1 j" using heap_ord_down [OF h] reindexed_same(5) [OF re] by simp
    ultimately show ?thesis using H(1) re m ix by blast
  next
    assume a: "down_heap (key (s_tg s)) w i \<and> (i = 0 \<or> ratio (s_tg s (w ! par i)) \<le> ratio (s_tg s (w ! i)))"
    then have "i = 0 \<or> \<not> target_cmp (s_tg s (w ! i)) (s_tg s (w ! par i)) < 0"
      using target_cmp_ratio(1) [of "s_tg s (w ! i)" "s_tg s (w ! par i)"] l i by auto
    then have "heap_adjust_loop (s_tg s) (map Some w @ rest) (w ! i) 0 i = Some (s_tg s, map Some w @ rest, i)"
      using i by (subst heap_adjust_loop.simps) auto
    moreover have "(s_tg s)(w ! i := (s_tg s (w ! i))\<lparr>t_index := i\<rparr>) = s_tg s" using assms(4) by auto
    ultimately have "heap_adjust s g i False = Some (s\<lparr>s_tg := s_tg s,
         s_grp := (s_grp s)(g := (s_grp s g)\<lparr>g_tg_heap := map Some w @ rest\<rparr>)\<rparr>)"
      using i by (simp add: heap_adjust_def assms(1) place_view)
    moreover have "\<forall>j < length w. t_index (s_tg s (w ! j)) = j"
      using assms(3,4) by (auto simp: hole_ok_def indexed_but_def)
    ultimately show ?thesis using a i by (intro exI [of _ "s_tg s"] exI [of _ w]) (auto intro!: exI [of _ i])
  qed
  then obtain tg1 v1 j where A: "heap_adjust s g i False = Some (s\<lparr>s_tg := tg1,
       s_grp := (s_grp s)(g := (s_grp s g)\<lparr>g_tg_heap := map Some v1 @ rest\<rparr>)\<rparr>)"
    "reindexed (set w) (s_tg s) tg1" "mset v1 = mset w" "\<forall>j < length v1. t_index (tg1 (v1 ! j)) = j"
    "j < length v1" "v1 ! j = w ! i" "down_heap (key tg1) v1 j" by blast
  have "t_index (tg1 (w ! i)) = j" using A(4,5,6) by metis
  moreover have "hole_ok tg1 v1 j (v1 ! j)"
  proof (rule hole_self)
    show "distinct v1" using A(3) d by (metis mset_eq_imp_distinct_iff)
    show "\<forall>x \<in> set v1. load_ok (tg1 x)" using l reindexed_same(6) [OF A(2)] mset_eq_setD [OF A(3)] by simp
  qed (use A in auto)
  moreover have "length v1 = length w" using A(3) by (rule mset_eq_length)
  ultimately show ?thesis
    using heapify_ok [of "s\<lparr>s_tg := tg1, s_grp := (s_grp s)(g := (s_grp s g)\<lparr>g_tg_heap := map Some v1 @ rest\<rparr>)\<rparr>" g v1 rest j]
      A(1,7) assms(2) heap_done_trans [OF A(2,3)] by auto
qed

lemma heap_remove_ok:
  assumes "group_shape s g v" "heap_ord (key (s_tg s)) v" "i < length v"
  shows "\<exists>tg' v' rest. heap_remove s g i = Some (heap_state s g tg' v' rest) \<and> 0 < length v' + length rest \<and>
     heap_of (s_tg s) tg' (mset v - {#v ! i#}) v' \<and> reindexed (set v) (s_tg s) tg'"
proof -
  let ?n = "length v - 1" and ?w = "butlast v" and ?x = "last v"
  define r where "r = drop (length v) (g_tg_heap (s_grp s g))"
  have ne: "v \<noteq> []" using assms(3) by auto
  have vw: "v = ?w @ [?x]" using ne by simp
  have sh: "g_heap_size (s_grp s g) = length v" "length v \<le> g_heap_buf_size (s_grp s g)"
    "length (g_tg_heap (s_grp s g)) = g_heap_buf_size (s_grp s g)" "distinct v" "\<forall>j < length v. t_index (s_tg s (v ! j)) = j"
    "\<forall>t \<in> set v. load_ok (s_tg s t)"
    using assms(1) by (auto simp: group_shape_def Let_def)
  have arr: "g_tg_heap (s_grp s g) = map Some ?w @ Some ?x # r"
    using group_shape_array [OF assms(1)] vw unfolding r_def [symmetric]
    by (metis append.assoc append_Cons append_Nil list.map(1) list.map(2) map_append)
  have buf: "g_heap_buf_size (s_grp s g) = length ?w + length (Some ?x # r)"
    using sh(2,3) ne by (cases v rule: rev_cases) (auto simp: r_def)
  show ?thesis
  proof (cases "i = ?n")
    case True
    then have "v ! i = ?x" using ne by (simp add: last_conv_nth)
    then have "mset v - {#v ! i#} = mset ?w" using vw by (metis add_diff_cancel_right' mset_append mset_single_iff_right)
    moreover have "heap_ord (key (s_tg s)) ?w" by (rule heap_ord_butlast [OF assms(2)])
    moreover have "heap_remove s g i = Some (heap_state s g (s_tg s) ?w (Some ?x # r))"
      using True sh(1) arr buf by (simp add: heap_remove_def heap_state_def Let_def grp_upd_order(3-5))
    moreover have "\<forall>j < length ?w. t_index (s_tg s (?w ! j)) = j" using sh(5) by (simp add: nth_butlast)
    ultimately show ?thesis unfolding heap_of_def
      by (intro exI [of _ "s_tg s"] exI [of _ ?w] exI [of _ "Some ?x # r"]) simp
  next
    case False
    then have i: "i < length ?w" using assms(3) by simp
    let ?tg = "(s_tg s)(?x := (s_tg s ?x)\<lparr>t_index := i\<rparr>)"
    let ?G = "(s_grp s g)\<lparr>g_heap_size := ?n, g_tg_heap := map Some (?w[i := ?x]) @ Some ?x # r\<rparr>"
    let ?s1 = "s\<lparr>s_tg := ?tg, s_grp := (s_grp s)(g := ?G)\<rparr>"
    have xin: "?x \<in> set v" using ne by simp
    have re: "reindexed (set v) (s_tg s) ?tg" by (rule reindexed_upd [OF xin])
    have "distinct (?w @ [?x])" using sh(4) vw by simp
    then have dw: "distinct ?w" "?x \<notin> set ?w" by auto
    have wset: "set (?w[i := ?x]) \<subseteq> set v" using set_update_subset_insert [of ?w i ?x] xin in_set_butlastD by fastforce
    have "hole_ok ?tg (?w[i := ?x]) i (?w[i := ?x] ! i)"
    proof (rule hole_self)
      show "distinct (?w[i := ?x])" using dw by (simp add: distinct_list_update)
      show "\<forall>j < length (?w[i := ?x]). t_index (?tg (?w[i := ?x] ! j)) = j"
      proof (intro allI impI)
        fix j assume j: "j < length (?w[i := ?x])"
        then have "?w ! j \<in> set ?w" by (intro nth_mem) simp
        with dw(2) have "?w ! j \<noteq> ?x" by metis
        then show "t_index (?tg (?w[i := ?x] ! j)) = j"
          using j i sh(5) by (simp add: nth_list_update nth_butlast)
      qed
      show "\<forall>y \<in> set (?w[i := ?x]). load_ok (?tg y)"
        using sh(6) wset reindexed_same(6) [OF re] by (simp add: subset_iff)
    qed (use i in simp)
    moreover have "up_heap (key (s_tg s)) (?w[i := ?x]) i \<or> down_heap (key (s_tg s)) (?w[i := ?x]) i \<and>
        (i = 0 \<or> ratio (s_tg s (?w[i := ?x] ! par i)) \<le> ratio (s_tg s (?w[i := ?x] ! i)))"
    proof -
      have "0 < i \<Longrightarrow> i \<noteq> par i" by auto
      then show ?thesis
        using fill_up_or_down [OF heap_ord_butlast [OF assms(2)] i, of ?x] i by (cases "i = 0") auto
    qed
    ultimately obtain tg' v' where H: "do { s1 \<leftarrow> heap_adjust ?s1 g i False; heapify s1 g (t_index (s_tg s1 ?x)) } =
        Some (?s1\<lparr>s_tg := tg', s_grp := (s_grp ?s1)(g := (s_grp ?s1 g)\<lparr>g_tg_heap := map Some v' @ Some ?x # r\<rparr>)\<rparr>)"
      "heap_done ?tg tg' (?w[i := ?x]) v'"
      using adjust_then_heapify [of ?s1 g "?w[i := ?x]" "Some ?x # r" i] i reindexed_same(5) [OF re]
      by (auto simp: ratio_def)
    have m: "mset v' = mset v - {#v ! i#}"
    proof -
      have "mset v' = mset (?w[i := ?x])" using H(2) by (simp add: heap_done_def)
      also have "\<dots> = add_mset ?x (mset ?w - {#?w ! i#})" using i by (simp add: mset_update)
      also have "\<dots> = mset (?w @ [?x]) - {#?w ! i#}" using i by simp
      finally show ?thesis using vw i by (simp add: nth_butlast)
    qed
    have len: "length v' = length ?w" using H(2) mset_eq_length [of v' "?w[i := ?x]"] by (simp add: heap_done_def)
    have "slot (g_tg_heap (s_grp s g)) ?n = Some ?x" unfolding arr by (simp add: slot_def rd_def nth_append)
    moreover have "place (s_tg s) (g_tg_heap (s_grp s g)) i ?x = Some (?tg, map Some (?w[i := ?x]) @ Some ?x # r)"
      unfolding arr by (rule place_view [OF i])
    ultimately have "heap_remove s g i = Some (heap_state s g tg' v' (Some ?x # r))"
      using False sh(1) buf H(1) len by (simp add: heap_remove_def heap_state_def Let_def grp_upd_order(2,3))
    moreover have "reindexed (set v) (s_tg s) tg'"
      using reindexed_trans [OF re] reindexed_mono [OF _ wset] H(2) unfolding heap_done_def by blast
    moreover have "heap_of (s_tg s) tg' (mset v - {#v ! i#}) v'"
      using H(2) reindexed_same(5) [OF re] m by (simp add: heap_done_def heap_of_def)
    ultimately show ?thesis by (intro exI [of _ tg'] exI [of _ v'] exI [of _ "Some ?x # r"]) simp
  qed
qed

text \<open>The invariant after a heap operation that also changed the membership of \<open>t\<close>.\<close>

definition regroup :: "addr \<Rightarrow> addr option \<Rightarrow> (addr \<Rightarrow> sched_target) \<Rightarrow> addr \<Rightarrow> sched_target" where
  "regroup t go tg = tg(t := (tg t)\<lparr>t_group := go\<rparr>)"

lemma regroup_same:
  "ratio (regroup t go tg u) = ratio (tg u)" "load_ok (regroup t go tg u) = load_ok (tg u)"
  "t_index (regroup t go tg u) = t_index (tg u)" "t_max_load (regroup t go tg u) = t_max_load (tg u)"
  "t_cur_load (regroup t go tg u) = t_cur_load (tg u)"
  "t_group (regroup t go tg u) = (if u = t then go else t_group (tg u))"
  by (auto simp: regroup_def ratio_def load_ok_def)

lemma reindexed_regroup:
  assumes "reindexed A a b"
  shows "reindexed A (regroup t go a) (regroup t go b)"
proof -
  have "\<exists>i. regroup t go b x = (regroup t go a x)\<lparr>t_index := i\<rparr>" for x
  proof -
    obtain i where "b x = (a x)\<lparr>t_index := i\<rparr>" using assms unfolding reindexed_def by blast
    then have "regroup t go b x = (regroup t go a x)\<lparr>t_index := i\<rparr>" by (auto simp: regroup_def)
    then show ?thesis ..
  qed
  with assms show ?thesis by (auto simp: reindexed_def regroup_def)
qed

lemma heap_of_group_inv:
  assumes "heap_of (s_tg s) tg' (mset v) v'" "reindexed A (s_tg s) tg'" "distinct v" "0 < length v' + length rest"
    "\<forall>u \<in> set v. load_ok (s_tg s u)" "\<forall>u. t_group (regroup t go tg' u) = Some g \<longleftrightarrow> u \<in> set v"
    "unat gm = (\<Sum>u \<leftarrow> v. unat (t_max_load (s_tg s u)))" "unat gc = (\<Sum>u \<leftarrow> v. unat (t_cur_load (s_tg s u)))"
  defines "s' \<equiv> (heap_state s g tg' v' rest)\<lparr>s_tg := regroup t go tg', s_grp := (s_grp (heap_state s g tg' v' rest))
     (g := (s_grp (heap_state s g tg' v' rest) g)\<lparr>g_max_load := gm, g_cur_load := gc\<rparr>)\<rparr>"
  shows "group_inv s' g v'"
proof -
  have m: "heap_ord (key (s_tg s)) v'" "mset v' = mset v" "\<forall>j < length v'. t_index (tg' (v' ! j)) = j"
    using assms(1) by (simp_all add: heap_of_def)
  have st: "set v' = set v" and d: "distinct v'" using m(2) assms(3) by (metis mset_eq_setD, metis mset_eq_imp_distinct_iff)
  note same = regroup_same reindexed_same [OF assms(2)]
  have tg: "s_tg s' = regroup t go tg'" by (simp add: s'_def)
  have shape: "group_shape s' g v'"
    unfolding group_shape_def tg same using m d st assms(4,5) by (simp add: s'_def heap_state_def Let_def)
  have sums: "(\<Sum>u \<leftarrow> v'. unat (t_max_load (s_tg s u))) = unat gm" "(\<Sum>u \<leftarrow> v'. unat (t_cur_load (s_tg s u))) = unat gc"
    using sum_list_mset_eq [OF m(2)] assms(7,8) by simp_all
  have "\<forall>u. t_group (s_tg s' u) = Some g \<longleftrightarrow> u \<in> set v'" using assms(6) st tg by simp
  then show ?thesis unfolding group_inv_def using shape m(1)
    by (simp only: tg same sums) (simp add: s'_def heap_state_def)
qed

lemma unat_add_small: "unat (a :: u64) + unat b < 2 ^ 64 \<Longrightarrow> unat (a + b) = unat a + unat b"
  using unat_add_lem [of a b] by simp

lemma group_add_ok:
  assumes "group_ok s g" "t_group (s_tg s t) = None" "t_wait_cnt (s_tg s t) = 0" "load_ok (s_tg s t)"
    "unat (g_max_load (s_grp s g)) + unat (t_max_load (s_tg s t)) < 2 ^ 64"
    "mem \<or> length (members s g) < g_heap_buf_size (s_grp s g)"
  shows "\<exists>sig s'. group_add s g t mem = Some (None, sig, s') \<and> group_ok s' g \<and>
     set (members s' g) = insert t (set (members s g)) \<and> affects s s' g t (\<lambda>T. T\<lparr>t_group := Some g\<rparr>)"
proof -
  let ?v = "members s g"
  have inv: "group_shape s g ?v" "heap_ord (key (s_tg s)) ?v" "\<forall>t. t_group (s_tg s t) = Some g \<longleftrightarrow> t \<in> set ?v"
    "unat (g_max_load (s_grp s g)) = (\<Sum>t \<leftarrow> ?v. unat (t_max_load (s_tg s t)))"
    "unat (g_cur_load (s_grp s g)) = (\<Sum>t \<leftarrow> ?v. unat (t_cur_load (s_tg s t)))"
    using assms(1) by (auto simp: group_ok_def group_inv_def)
  have nt: "t \<notin> set ?v" using inv(3) assms(2) by (metis option.distinct(1))
  obtain tg' v' rest where H: "heap_insert s g t mem = Some (True, heap_state s g tg' v' rest)"
    "heap_of (s_tg s) tg' (mset (t # ?v)) v'" "reindexed (insert t (set ?v)) (s_tg s) tg'"
    using heap_insert_ok [OF inv(1,2) nt assms(4,6)] by auto
  have ld: "\<forall>u \<in> set (t # ?v). load_ok (s_tg s u)" and d: "distinct (t # ?v)" using inv(1) assms(4) nt by (auto simp: group_shape_def)
  have "(\<Sum>t \<leftarrow> ?v. unat (t_cur_load (s_tg s t))) \<le> (\<Sum>t \<leftarrow> ?v. unat (t_max_load (s_tg s t)))"
    using ld load_okD(3) by (intro sum_list_mono) auto
  then have "unat (g_cur_load (s_grp s g)) + unat (t_cur_load (s_tg s t)) < 2 ^ 64"
    using inv(4,5) assms(5) load_okD(3) [OF assms(4)] by linarith
  then have gc: "unat (g_cur_load (s_grp s g) + t_cur_load (s_tg s t)) = (\<Sum>t \<leftarrow> t # ?v. unat (t_cur_load (s_tg s t)))"
    using inv(5) by (simp add: unat_add_small)
  have gm: "unat (g_max_load (s_grp s g) + t_max_load (s_tg s t)) = (\<Sum>t \<leftarrow> t # ?v. unat (t_max_load (s_tg s t)))"
    using inv(4) assms(5) by (simp add: unat_add_small)
  have "\<forall>u. t_group (regroup t (Some g) tg' u) = Some g \<longleftrightarrow> u \<in> set (t # ?v)"
    using inv(3) reindexed_same(3) [OF H(3)] by (auto simp: regroup_same)
  moreover have "0 < length v' + length rest"
    using H(2) mset_eq_length [of v' "t # ?v"] by (simp add: heap_of_def)
  ultimately have I: "group_inv ((heap_state s g tg' v' rest)\<lparr>s_tg := regroup t (Some g) tg',
     s_grp := (s_grp (heap_state s g tg' v' rest))(g := (s_grp (heap_state s g tg' v' rest) g)
       \<lparr>g_max_load := g_max_load (s_grp s g) + t_max_load (s_tg s t),
        g_cur_load := g_cur_load (s_grp s g) + t_cur_load (s_tg s t)\<rparr>)\<rparr>) g v'"
    using heap_of_group_inv [OF H(2,3) d _ ld _ gm gc] by blast
  have "set v' = insert t (set ?v)" using H(2) mset_eq_setD [of v' "t # ?v"] by (simp add: heap_of_def)
  then show ?thesis
    using I assms(2,3) H(1) reindexed_same [OF H(3), of t] reindexed_regroup [OF H(3), of t "Some g"]
      group_inv_ok [OF I] group_inv_members [OF I]
    by (simp add: group_add_def affects_def Let_def heap_state_def regroup_def)
qed

lemma group_remove_ok:
  assumes "group_ok s g" "t_group (s_tg s t) = Some g" "t_wait_cnt (s_tg s t) = 0"
  shows "\<exists>s'. group_remove s g t = Some (None, s') \<and> group_ok s' g \<and>
     set (members s' g) = set (members s g) - {t} \<and> affects s s' g t (\<lambda>T. T\<lparr>t_group := None\<rparr>)"
proof -
  let ?v = "members s g" and ?i = "t_index (s_tg s t)"
  have inv: "group_shape s g ?v" "heap_ord (key (s_tg s)) ?v" "\<forall>t. t_group (s_tg s t) = Some g \<longleftrightarrow> t \<in> set ?v"
    "unat (g_max_load (s_grp s g)) = (\<Sum>t \<leftarrow> ?v. unat (t_max_load (s_tg s t)))"
    "unat (g_cur_load (s_grp s g)) = (\<Sum>t \<leftarrow> ?v. unat (t_cur_load (s_tg s t)))"
    using assms(1) by (auto simp: group_ok_def group_inv_def)
  have t: "t \<in> set ?v" using inv(3) assms(2) by blast
  have ix: "?i < length ?v" "?v ! ?i = t"
    using group_inv_index [of s g ?v t] assms(1) t by (auto simp: group_ok_def)
  let ?u = "remove1 t ?v"
  have d: "distinct ?v" using inv(1) by (simp add: group_shape_def)
  obtain tg' v' rest where H: "heap_remove s g ?i = Some (heap_state s g tg' v' rest)" "0 < length v' + length rest"
    "heap_of (s_tg s) tg' (mset ?u) v'" "reindexed (set ?v) (s_tg s) tg'"
    using heap_remove_ok [OF inv(1,2) ix(1)] ix(2) by auto
  have du: "distinct ?u" "set ?u = set ?v - {t}" using d by (auto simp: set_remove1_eq)
  have ld: "\<forall>u \<in> set ?u. load_ok (s_tg s u)" using inv(1) du(2) by (simp add: group_shape_def)
  have gm: "unat (g_max_load (s_grp s g) - t_max_load (s_tg s t)) = (\<Sum>u \<leftarrow> ?u. unat (t_max_load (s_tg s u)))"
    using inv(4) sum_list_map_remove1 [OF t, of "\<lambda>u. unat (t_max_load (s_tg s u))"]
    by (simp add: unat_sub word_le_nat_alt)
  have gc: "unat (g_cur_load (s_grp s g) - t_cur_load (s_tg s t)) = (\<Sum>u \<leftarrow> ?u. unat (t_cur_load (s_tg s u)))"
    using inv(5) sum_list_map_remove1 [OF t, of "\<lambda>u. unat (t_cur_load (s_tg s u))"]
    by (simp add: unat_sub word_le_nat_alt)
  have "\<forall>u. t_group (regroup t None tg' u) = Some g \<longleftrightarrow> u \<in> set ?u"
    using inv(3) reindexed_same(3) [OF H(4)] du(2) by (auto simp: regroup_same)
  then have I: "group_inv ((heap_state s g tg' v' rest)\<lparr>s_tg := regroup t None tg',
     s_grp := (s_grp (heap_state s g tg' v' rest))(g := (s_grp (heap_state s g tg' v' rest) g)
       \<lparr>g_max_load := g_max_load (s_grp s g) - t_max_load (s_tg s t),
        g_cur_load := g_cur_load (s_grp s g) - t_cur_load (s_tg s t)\<rparr>)\<rparr>) g v'"
    using heap_of_group_inv [OF H(3,4) du(1) H(2) ld _ gm gc] by blast
  have "set v' = set ?v - {t}" using H(3) mset_eq_setD [of v' ?u] du(2) by (simp add: heap_of_def)
  moreover have "insert t (set ?v) = set ?v" using t by auto
  ultimately show ?thesis
    using I assms(2,3) H(1) reindexed_same [OF H(4), of t] reindexed_regroup [OF H(4), of t None]
      group_inv_ok [OF I] group_inv_members [OF I]
    by (simp add: group_remove_def affects_def Let_def heap_state_def regroup_def)
qed

section \<open>All groups together\<close>

definition sched_ok :: "sched \<Rightarrow> bool" where
  "sched_ok s \<longleftrightarrow> (\<forall>g. group_ok s g) \<and> (\<forall>t. load_ok (s_tg s t))"

definition load_of :: "sched \<Rightarrow> addr \<Rightarrow> nat" where
  "load_of s t = unat (t_cur_load (s_tg s t))"

definition max_of :: "sched \<Rightarrow> addr \<Rightarrow> u64" where
  "max_of s t = t_max_load (s_tg s t)"

lemma sched_okD: "sched_ok s \<Longrightarrow> group_ok s g" "sched_ok s \<Longrightarrow> load_ok (s_tg s t)"
  by (simp_all add: sched_ok_def)

lemma affects_tg:
  assumes "affects s s' g t f" "u \<noteq> t" "u \<notin> set (members s g)"
  shows "s_tg s' u = s_tg s u"
  using assms by (simp add: affects_def reindexed_def)

lemma affects_fields:
  assumes "affects s s' g t f"
  shows "t_group (s_tg s' u) = t_group (if u = t then f (s_tg s t) else s_tg s u)"
    "t_cur_load (s_tg s' u) = t_cur_load (if u = t then f (s_tg s t) else s_tg s u)"
    "t_max_load (s_tg s' u) = t_max_load (if u = t then f (s_tg s t) else s_tg s u)"
    "t_wait_cnt (s_tg s' u) = t_wait_cnt (if u = t then f (s_tg s t) else s_tg s u)"
proof -
  have "reindexed (insert t (set (members s g))) ((s_tg s)(t := f (s_tg s t))) (s_tg s')"
    using assms by (simp add: affects_def)
  from reindexed_same [OF this, of u]
  show "t_group (s_tg s' u) = t_group (if u = t then f (s_tg s t) else s_tg s u)"
    "t_cur_load (s_tg s' u) = t_cur_load (if u = t then f (s_tg s t) else s_tg s u)"
    "t_max_load (s_tg s' u) = t_max_load (if u = t then f (s_tg s t) else s_tg s u)"
    "t_wait_cnt (s_tg s' u) = t_wait_cnt (if u = t then f (s_tg s t) else s_tg s u)"
    by simp_all
qed

text \<open>An operation on group \<open>g\<close> leaves the heaps of the other groups alone.\<close>

lemma heap_ord_cong:
  assumes "\<And>x. x \<in> set v \<Longrightarrow> k x = k' x"
  shows "heap_ord k v = heap_ord k' v"
proof -
  have "k (v ! par j) = k' (v ! par j)" "k (v ! j) = k' (v ! j)" if "j < length v" for j
    using that by (auto intro!: assms)
  then show ?thesis by (simp add: heap_ord_def)
qed

lemma group_ok_cong:
  assumes "group_ok s h" "s_grp s' h = s_grp s h" "\<And>u. u \<in> set (members s h) \<Longrightarrow> s_tg s' u = s_tg s u"
    "\<And>u. t_group (s_tg s' u) = Some h \<longleftrightarrow> t_group (s_tg s u) = Some h"
  shows "group_ok s' h"
proof -
  have m: "members s' h = members s h" using assms(2) by (simp add: members_def)
  have sums: "(\<Sum>t \<leftarrow> members s h. unat (t_max_load (s_tg s' t))) = (\<Sum>t \<leftarrow> members s h. unat (t_max_load (s_tg s t)))"
    "(\<Sum>t \<leftarrow> members s h. unat (t_cur_load (s_tg s' t))) = (\<Sum>t \<leftarrow> members s h. unat (t_cur_load (s_tg s t)))"
    using assms(3) by (auto intro!: arg_cong [where f = sum_list] map_cong)
  have "heap_ord (key (s_tg s')) (members s h) = heap_ord (key (s_tg s)) (members s h)"
    using assms(3) by (intro heap_ord_cong) simp
  then show ?thesis
    using assms(1) unfolding group_ok_def m group_inv_def group_shape_def assms(2,4) sums
    by (auto simp: Let_def assms(3))
qed

lemma affects_frame:
  assumes "\<And>h. group_ok s h" "affects s s' g t f" "group_ok s' g"
    "t_group (s_tg s t) \<in> {None, Some g}" "t_group (f (s_tg s t)) \<in> {None, Some g}"
  shows "group_ok s' h"
proof (cases "h = g")
  case False
  show ?thesis
  proof (rule group_ok_cong [OF assms(1)])
    show "s_grp s' h = s_grp s h" using assms(2) False by (simp add: affects_def)
    show "t_group (s_tg s' u) = Some h \<longleftrightarrow> t_group (s_tg s u) = Some h" for u
      using affects_fields(1) [OF assms(2), of u] assms(4,5) False by auto
    show "s_tg s' u = s_tg s u" if "u \<in> set (members s h)" for u
    proof (rule affects_tg [OF assms(2)])
      have "t_group (s_tg s u) = Some h" using group_ok_member [OF assms(1)] that by simp
      then show "u \<noteq> t" "u \<notin> set (members s g)"
        using assms(4) False group_ok_member [OF assms(1)] by auto
    qed
  qed
qed (use assms(3) in simp)

lemma sched_ok_waits:
  assumes "sched_ok s"
  shows "sched_ok (s\<lparr>s_tg := (s_tg s)(t := (s_tg s t)\<lparr>t_wait_cnt := n\<rparr>)\<rparr>)"
    "sched_ok (s\<lparr>s_grp := (s_grp s)(g := (s_grp s g)\<lparr>g_wait_cnt := n\<rparr>)\<rparr>)"
proof -
  let ?s = "s\<lparr>s_tg := (s_tg s)(t := (s_tg s t)\<lparr>t_wait_cnt := n\<rparr>)\<rparr>"
  have f: "ratio (s_tg ?s u) = ratio (s_tg s u)" "load_ok (s_tg ?s u) = load_ok (s_tg s u)"
    "t_index (s_tg ?s u) = t_index (s_tg s u)" "t_group (s_tg ?s u) = t_group (s_tg s u)"
    "t_max_load (s_tg ?s u) = t_max_load (s_tg s u)" "t_cur_load (s_tg ?s u) = t_cur_load (s_tg s u)"
    "s_grp ?s = s_grp s" for u
    by (auto simp: ratio_def load_ok_def)
  show "sched_ok ?s" using assms unfolding sched_ok_def group_ok_def members_def group_inv_def group_shape_def f .
  let ?r = "s\<lparr>s_grp := (s_grp s)(g := (s_grp s g)\<lparr>g_wait_cnt := n\<rparr>)\<rparr>"
  have r: "g_tg_heap (s_grp ?r h) = g_tg_heap (s_grp s h)" "g_heap_size (s_grp ?r h) = g_heap_size (s_grp s h)"
    "g_heap_buf_size (s_grp ?r h) = g_heap_buf_size (s_grp s h)" "g_max_load (s_grp ?r h) = g_max_load (s_grp s h)"
    "g_cur_load (s_grp ?r h) = g_cur_load (s_grp s h)" "s_tg ?r = s_tg s" for h by auto
  show "sched_ok ?r" using assms unfolding sched_ok_def group_ok_def members_def group_inv_def group_shape_def Let_def r .
qed

text \<open>Every operation keeps \<open>sched_ok\<close>, returns, and changes the loads by what it hands out.\<close>

lemma load_ok_upd:
  "load_ok T \<Longrightarrow> t_cur_load T < t_max_load T \<Longrightarrow> load_ok (T\<lparr>t_cur_load := t_cur_load T + 1\<rparr>)"
  "load_ok T \<Longrightarrow> 0 < t_cur_load T \<Longrightarrow> load_ok (T\<lparr>t_cur_load := t_cur_load T - 1\<rparr>)"
  by (auto simp: load_ok_def word_le_nat_alt unat_succ unat_minus_one word_less_nat_alt unat_gt_0)

lemma affects_sched_ok:
  assumes "sched_ok s" "affects s s' g t f" "group_ok s' g"
    "t_group (s_tg s t) \<in> {None, Some g}" "t_group (f (s_tg s t)) \<in> {None, Some g}" "load_ok (f (s_tg s t))"
  shows "sched_ok s'" "load_of s' = (load_of s)(t := unat (t_cur_load (f (s_tg s t))))"
    "max_of s' = (max_of s)(t := t_max_load (f (s_tg s t)))"
proof -
  have "load_ok (s_tg s' u)" for u
    using affects_fields [OF assms(2), of u] assms(6) sched_okD(2) [OF assms(1)] by (auto simp: load_ok_def)
  then show "sched_ok s'"
    using affects_frame [OF sched_okD(1) [OF assms(1)] assms(2-5)] by (simp add: sched_ok_def)
  show "load_of s' = (load_of s)(t := unat (t_cur_load (f (s_tg s t))))"
    using affects_fields(2) [OF assms(2)] by (auto simp: load_of_def)
  show "max_of s' = (max_of s)(t := t_max_load (f (s_tg s t)))"
    using affects_fields(3) [OF assms(2)] by (auto simp: max_of_def)
qed

text \<open>A target outside every group is touched by nothing but its own operations.\<close>

lemma lone_target:
  assumes "sched_ok s" "t_group (s_tg s t) = None" "load_ok ((s_tg s t)\<lparr>t_cur_load := c\<rparr>)"
  defines "s' \<equiv> s\<lparr>s_tg := (s_tg s)(t := (s_tg s t)\<lparr>t_cur_load := c\<rparr>)\<rparr>"
  shows "sched_ok s'" "load_of s' = (load_of s)(t := unat c)" "max_of s' = max_of s"
proof -
  have "group_ok s' h" for h
  proof (rule group_ok_cong [OF sched_okD(1) [OF assms(1)]])
    show "s_tg s' u = s_tg s u" if "u \<in> set (members s h)" for u
      using that assms(2) group_ok_member [OF sched_okD(1) [OF assms(1)]] by (auto simp: s'_def)
  qed (auto simp: s'_def)
  then show "sched_ok s'" using assms(1,3) by (auto simp: sched_ok_def s'_def)
  show "load_of s' = (load_of s)(t := unat c)" "max_of s' = max_of s" by (auto simp: load_of_def max_of_def s'_def)
qed

lemma target_take_sched_ok:
  assumes "sched_ok s" "t_cur_load (s_tg s t) < t_max_load (s_tg s t)"
  shows "\<exists>s'. target_take s t = Some s' \<and> sched_ok s' \<and> load_of s' = (load_of s)(t := load_of s t + 1) \<and> max_of s' = max_of s"
proof (cases "t_group (s_tg s t)")
  case None
  have "load_ok ((s_tg s t)\<lparr>t_cur_load := t_cur_load (s_tg s t) + 1\<rparr>)"
    using load_ok_upd(1) sched_okD(2) [OF assms(1)] assms(2) by blast
  from lone_target [OF assms(1) None this] show ?thesis
    using None by (simp add: target_take_def load_of_def unat_succ [OF assms(2)])
next
  case (Some g)
  from target_take_ok [OF sched_okD(1) [OF assms(1)] Some assms(2)] obtain s' where
    s': "target_take s t = Some s'" "group_ok s' g" "affects s s' g t (\<lambda>T. T\<lparr>t_cur_load := t_cur_load T + 1\<rparr>)" by blast
  show ?thesis
    using affects_sched_ok [OF assms(1) s'(3,2)] Some load_ok_upd(1) [OF sched_okD(2) [OF assms(1)] assms(2)] s'(1)
    by (simp add: load_of_def max_of_def fun_eq_iff unat_succ [OF assms(2)])
qed

lemma group_take_sched_ok:
  assumes "sched_ok s" "g_cur_load (s_grp s g) < g_max_load (s_grp s g)"
  shows "\<exists>t s'. group_take s g = Some (t, s') \<and> t_group (s_tg s t) = Some g \<and>
     (\<forall>u. t_group (s_tg s u) = Some g \<longrightarrow> ratio (s_tg s t) \<le> ratio (s_tg s u)) \<and>
     t_cur_load (s_tg s t) < t_max_load (s_tg s t) \<and>
     sched_ok s' \<and> load_of s' = (load_of s)(t := load_of s t + 1) \<and> max_of s' = max_of s"
proof -
  let ?t = "hd (members s g)"
  have ok: "group_ok s g" by (rule sched_okD(1) [OF assms(1)])
  then have inv: "group_inv s g (members s g)" by (simp add: group_ok_def)
  note room = root_has_room [OF inv assms(2)]
  have hd: "members s g ! 0 = ?t" using room(1) by (simp add: hd_conv_nth)
  have g: "t_group (s_tg s ?t) = Some g" using group_ok_member [OF ok, of ?t] room(1) by simp
  have lt: "t_cur_load (s_tg s ?t) < t_max_load (s_tg s ?t)" using room(2) hd by simp
  obtain s' where s': "group_take s g = Some (?t, s')" "group_ok s' g"
    "affects s s' g ?t (\<lambda>T. T\<lparr>t_cur_load := t_cur_load T + 1\<rparr>)"
    using group_take_ok [OF ok assms(2)] by blast
  have "sched_ok s'" "load_of s' = (load_of s)(?t := load_of s ?t + 1)" "max_of s' = max_of s"
    using affects_sched_ok [OF assms(1) s'(3,2)] g load_ok_upd(1) [OF sched_okD(2) [OF assms(1)] lt]
    by (simp_all add: load_of_def max_of_def fun_eq_iff unat_succ [OF lt])
  moreover have "\<forall>u. t_group (s_tg s u) = Some g \<longrightarrow> ratio (s_tg s ?t) \<le> ratio (s_tg s u)"
    using room(3) hd group_ok_member [OF ok] by simp
  ultimately show ?thesis using s'(1) g lt by blast
qed

lemma target_release_sched_ok:
  assumes "sched_ok s" "0 < load_of s t"
  shows "\<exists>sig s'. target_release s t ka = Some (sig, s') \<and> sched_ok s' \<and> load_of s' = (load_of s)(t := load_of s t - 1) \<and> max_of s' = max_of s"
proof -
  have pos: "0 < t_cur_load (s_tg s t)" using assms(2) by (simp add: load_of_def word_less_nat_alt)
  then have pred: "unat (t_cur_load (s_tg s t) - 1) = unat (t_cur_load (s_tg s t)) - 1"
    by (simp add: unat_minus_one word_gt_0)
  note ld = load_ok_upd(2) [OF sched_okD(2) [OF assms(1)] pos]
  show ?thesis
  proof (cases "t_group (s_tg s t)")
    case None
    from lone_target [OF assms(1) None ld] show ?thesis
      using None by (simp add: target_release_def load_of_def pred)
  next
    case (Some g)
    from target_release_ok [OF sched_okD(1) [OF assms(1)] Some pos] obtain sig s' where
      s': "target_release s t ka = Some (sig, s')" "group_ok s' g" "affects s s' g t (\<lambda>T. T\<lparr>t_cur_load := t_cur_load T - 1\<rparr>)"
      by blast
    show ?thesis
      using affects_sched_ok [OF assms(1) s'(3,2)] Some ld s'(1) by (simp add: load_of_def max_of_def fun_eq_iff pred)
  qed
qed

lemma load_of_waits:
  "load_of (s\<lparr>s_tg := (s_tg s)(t := (s_tg s t)\<lparr>t_wait_cnt := n\<rparr>)\<rparr>) = load_of s"
  "load_of (s\<lparr>s_grp := G\<rparr>) = load_of s"
  "max_of (s\<lparr>s_tg := (s_tg s)(t := (s_tg s t)\<lparr>t_wait_cnt := n\<rparr>)\<rparr>) = max_of s"
  "max_of (s\<lparr>s_grp := G\<rparr>) = max_of s"
  by (auto simp: load_of_def max_of_def)

text \<open>What \<^verbatim>\<open>acquire\<close> may come to, and what it does to the loads.\<close>

definition acquire_ok :: "sched \<Rightarrow> acquired \<Rightarrow> sched \<Rightarrow> bool" where
  "acquire_ok s r s' \<longleftrightarrow> sched_ok s' \<and> max_of s' = max_of s \<and>
     (case r of Got t \<Rightarrow> load_of s' = (load_of s)(t := load_of s t + 1) | _ \<Rightarrow> load_of s' = load_of s)"

lemma acquire_enter_ok:
  assumes "sched_ok s"
  shows "\<exists>r s'. target_acquire_enter s t w = Some (r, s') \<and> acquire_ok s r s'"
    and "\<exists>r s'. group_acquire_enter s g w = Some (r, s') \<and> acquire_ok s r s'"
  using target_take_sched_ok [OF assms, of t] group_take_sched_ok [OF assms, of g] sched_ok_waits [OF assms] assms
  by (fastforce simp: target_acquire_enter_def group_acquire_enter_def acquire_ok_def load_of_waits not_le)+

lemma acquire_wake_ok:
  assumes "sched_ok s"
  shows "\<exists>r s'. target_acquire_wake s t ret = Some (r, s') \<and> acquire_ok s r s'"
    and "\<exists>r s'. group_acquire_wake s g ret = Some (r, s') \<and> acquire_ok s r s'"
proof -
  let ?s1 = "s\<lparr>s_tg := (s_tg s)(t := (s_tg s t)\<lparr>t_wait_cnt := t_wait_cnt (s_tg s t) - 1\<rparr>)\<rparr>"
  note ok1 = sched_ok_waits(1) [OF assms, of t "t_wait_cnt (s_tg s t) - 1"]
  show "\<exists>r s'. target_acquire_wake s t ret = Some (r, s') \<and> acquire_ok s r s'"
    using target_take_sched_ok [OF ok1, of t] sched_ok_waits(1) [OF ok1, of t] ok1
    by (cases ret) (fastforce simp: target_acquire_wake_def acquire_ok_def load_of_waits not_le Let_def)+
  let ?s2 = "s\<lparr>s_grp := (s_grp s)(g := (s_grp s g)\<lparr>g_wait_cnt := g_wait_cnt (s_grp s g) - 1\<rparr>)\<rparr>"
  note ok2 = sched_ok_waits(2) [OF assms, of g "g_wait_cnt (s_grp s g) - 1"]
  show "\<exists>r s'. group_acquire_wake s g ret = Some (r, s') \<and> acquire_ok s r s'"
    using group_take_sched_ok [OF ok2, of g] sched_ok_waits(2) [OF ok2, of g] ok2
    by (cases ret) (fastforce simp: group_acquire_wake_def acquire_ok_def load_of_waits not_le Let_def)+
qed

end
