(* ===== verification/Comm_Requests.thy ===== *)
theory Comm_Requests
  imports Comm_Sched
begin

text \<open>
  \<^verbatim>\<open>CommScheduler::request\<close> as a client of the two implementations of \<^verbatim>\<open>CommSchedObject\<close>, and runs
  of any number of threads that acquire, wait, release and move targets between groups. The
  contract of \<^verbatim>\<open>CommSchedObject\<close> is the locale \<open>sched_provider\<close>; targets and groups both provide it.
\<close>

section \<open>The contract of a scheduling object\<close>

locale sched_provider =
  fixes acquire :: "sched \<Rightarrow> int \<Rightarrow> (acquired \<times> sched) option"
    and release :: "sched \<Rightarrow> addr \<Rightarrow> bool \<Rightarrow> (cond list \<times> sched) option"
    and inv :: "sched \<Rightarrow> bool"
    and load :: "sched \<Rightarrow> addr \<Rightarrow> nat"
  assumes acquire_returns: "inv s \<Longrightarrow> \<exists>r s'. acquire s w = Some (r, s')"
    and acquire_inv: "inv s \<Longrightarrow> acquire s w = Some (r, s') \<Longrightarrow> inv s'"
    and acquire_got: "inv s \<Longrightarrow> acquire s w = Some (Got t, s') \<Longrightarrow> load s' = (load s)(t := load s t + 1)"
    and acquire_not: "inv s \<Longrightarrow> acquire s w = Some (r, s') \<Longrightarrow> \<forall>t. r \<noteq> Got t \<Longrightarrow> load s' = load s"
    and release_returns: "inv s \<Longrightarrow> 0 < load s t \<Longrightarrow> \<exists>sig s'. release s t ka = Some (sig, s')"
    and release_inv: "inv s \<Longrightarrow> 0 < load s t \<Longrightarrow> release s t ka = Some (sig, s') \<Longrightarrow>
          inv s' \<and> load s' = (load s)(t := load s t - 1)"
begin

definition serve :: "sched \<Rightarrow> int \<Rightarrow> (addr \<Rightarrow> int) \<Rightarrow> (int option \<times> addr option \<times> cond list \<times> sched) option" where
  "serve s w comm_ret =
     do { (r, s) \<leftarrow> acquire s w;
          (case r of
             Waiting \<Rightarrow> Some (None, None, [], s)
           | Failed e \<Rightarrow> Some (Some (-1), None, [], s)
           | Got t \<Rightarrow>
               if comm_ret t < 0 then
                 do { (sig, s) \<leftarrow> release s t False; Some (Some (comm_ret t), Some t, sig, s) }
               else Some (Some (comm_ret t), Some t, [], s)) }"

text \<open>
  A request always comes back; it holds exactly one unit of load when it succeeded and none
  when it failed, whether it failed in \<^verbatim>\<open>acquire\<close> or in the communicator.
\<close>

lemma serve_balanced:
  assumes "inv s"
  shows "\<exists>ret to sig s'. serve s w comm_ret = Some (ret, to, sig, s') \<and> inv s' \<and>
     (case ret of
        Some n \<Rightarrow> if n \<ge> 0 then (\<exists>t. to = Some t \<and> load s' = (load s)(t := load s t + 1)) else load s' = load s
      | None \<Rightarrow> to = None \<and> load s' = load s)"
proof -
  obtain r s1 where a: "acquire s w = Some (r, s1)" using acquire_returns [OF assms] by blast
  have i1: "inv s1" by (rule acquire_inv [OF assms a])
  show ?thesis
  proof (cases r)
    case (Got t)
    have l1: "load s1 = (load s)(t := load s t + 1)" using acquire_got [OF assms] a Got by blast
    then have "0 < load s1 t" by simp
    from release_returns [OF i1 this, of False] obtain sig s2 where r: "release s1 t False = Some (sig, s2)" by blast
    from release_inv [OF i1 \<open>0 < load s1 t\<close> r] have "inv s2" "load s2 = load s" using l1 by auto
    with a Got i1 l1 r show ?thesis by (cases "comm_ret t < 0") (auto simp: serve_def)
  qed (use a i1 acquire_not [OF assms a] in \<open>auto simp: serve_def\<close>)
qed

end

lemma target_release_inv:
  assumes "sched_ok s" "0 < load_of s t" "target_release s t ka = Some (sig, s')"
  shows "sched_ok s' \<and> load_of s' = (load_of s)(t := load_of s t - 1) \<and> max_of s' = max_of s"
  using target_release_sched_ok [OF assms(1,2), of ka] assms(3) by auto

lemma acquire_enter_cases:
  assumes "sched_ok s"
  shows "target_acquire_enter s t w = Some (r, s') \<Longrightarrow> acquire_ok s r s'"
    and "group_acquire_enter s g w = Some (r, s') \<Longrightarrow> acquire_ok s r s'"
  using acquire_enter_ok [OF assms] by (metis option.inject prod.inject)+

lemma acquire_wake_cases:
  assumes "sched_ok s"
  shows "target_acquire_wake s t ret = Some (r, s') \<Longrightarrow> acquire_ok s r s'"
    and "group_acquire_wake s g ret = Some (r, s') \<Longrightarrow> acquire_ok s r s'"
  using acquire_wake_ok [OF assms] by (metis option.inject prod.inject)+

lemma acquire_okD:
  "acquire_ok s r s' \<Longrightarrow> sched_ok s'" "acquire_ok s r s' \<Longrightarrow> max_of s' = max_of s"
  "acquire_ok s (Got t) s' \<Longrightarrow> load_of s' = (load_of s)(t := load_of s t + 1)"
  "acquire_ok s r s' \<Longrightarrow> \<forall>t. r \<noteq> Got t \<Longrightarrow> load_of s' = load_of s"
  by (auto simp: acquire_ok_def split: acquired.splits)

interpretation tgt: sched_provider "\<lambda>s. target_acquire_enter s t" target_release sched_ok load_of for t
  using acquire_enter_ok(1) target_release_sched_ok target_release_inv
  by unfold_locales (blast dest: acquire_enter_cases(1) acquire_okD)+

interpretation grp: sched_provider "\<lambda>s. group_acquire_enter s g" target_release sched_ok load_of for g
  using acquire_enter_ok(2) target_release_sched_ok target_release_inv
  by unfold_locales (blast dest: acquire_enter_cases(2) acquire_okD)+

lemma sched_request_serve:
  "sched_request s obj w comm_ret =
     (case obj of OfTarget t \<Rightarrow> tgt.serve t s w comm_ret | OfGroup g \<Rightarrow> grp.serve g s w comm_ret)"
  by (cases obj) (simp_all add: sched_request_def sched_acquire_def tgt.serve_def grp.serve_def)

section \<open>Runs\<close>

text \<open>
  One step of some thread. The second component of the state is the multiset of connections that
  are out: one for each \<^verbatim>\<open>acquire\<close> that returned a target and was not released.
\<close>

inductive sched_step :: "sched \<times> addr multiset \<Rightarrow> sched \<times> addr multiset \<Rightarrow> bool" where
  target_enter: "target_acquire_enter s t w = Some (r, s') \<Longrightarrow>
     sched_step (s, out) (s', (case r of Got u \<Rightarrow> add_mset u out | _ \<Rightarrow> out))"
| target_wake: "0 < t_wait_cnt (s_tg s t) \<Longrightarrow> target_acquire_wake s t ret = Some (r, s') \<Longrightarrow>
     sched_step (s, out) (s', (case r of Got u \<Rightarrow> add_mset u out | _ \<Rightarrow> out))"
| group_enter: "group_acquire_enter s g w = Some (r, s') \<Longrightarrow>
     sched_step (s, out) (s', (case r of Got u \<Rightarrow> add_mset u out | _ \<Rightarrow> out))"
| group_wake: "0 < g_wait_cnt (s_grp s g) \<Longrightarrow> group_acquire_wake s g ret = Some (r, s') \<Longrightarrow>
     sched_step (s, out) (s', (case r of Got u \<Rightarrow> add_mset u out | _ \<Rightarrow> out))"
| release: "t \<in># out \<Longrightarrow> target_release s t ka = Some (sig, s') \<Longrightarrow> sched_step (s, out) (s', out - {#t#})"
| add: "unat (g_max_load (s_grp s g)) + unat (t_max_load (s_tg s t)) < 2 ^ 64 \<Longrightarrow>
     group_add s g t mem = Some (e, sig, s') \<Longrightarrow> sched_step (s, out) (s', out)"
| remove: "group_remove s g t = Some (e, s') \<Longrightarrow> sched_step (s, out) (s', out)"

text \<open>Every target initialised with its \<^verbatim>\<open>max_load\<close>, every group initialised and empty.\<close>

definition sched_start :: "(addr \<Rightarrow> u64) \<Rightarrow> sched" where
  "sched_start m = \<lparr>s_tg = (\<lambda>t. \<lparr>t_max_load = m t, t_cur_load = 0, t_group = None, t_index = 0, t_wait_cnt = 0\<rparr>),
     s_grp = (\<lambda>g. \<lparr>g_max_load = 0, g_cur_load = 0, g_tg_heap = replicate 4 None, g_heap_size = 0,
                   g_heap_buf_size = 4, g_wait_cnt = 0\<rparr>)\<rparr>"

lemma sched_start_ok: "(\<And>t. 0 < m t \<and> unat (m t) < 2 ^ 32) \<Longrightarrow> sched_ok (sched_start m)"
  by (simp add: sched_ok_def sched_start_def group_ok_def group_inv_def group_shape_def members_def
      heap_ord_def load_ok_def)

definition accounted :: "(addr \<Rightarrow> u64) \<Rightarrow> sched \<times> addr multiset \<Rightarrow> bool" where
  "accounted m so \<longleftrightarrow> sched_ok (fst so) \<and> max_of (fst so) = m \<and> load_of (fst so) = count (snd so)"


lemma acquire_accounted:
  assumes "accounted m (s, out)" "acquire_ok s r s'"
  shows "accounted m (s', (case r of Got u \<Rightarrow> add_mset u out | _ \<Rightarrow> out))"
  using assms by (cases r) (auto simp: accounted_def acquire_ok_def)

lemma accounted_sched_ok: "accounted m (s, out) \<Longrightarrow> sched_ok s"
  by (simp add: accounted_def)

lemma add_sched_ok:
  assumes "sched_ok s" "unat (g_max_load (s_grp s g)) + unat (t_max_load (s_tg s t)) < 2 ^ 64"
    "group_add s g t mem = Some (e, sig, s')"
  shows "sched_ok s' \<and> load_of s' = load_of s \<and> max_of s' = max_of s"
proof (cases "t_group (s_tg s t) = None \<and> t_wait_cnt (s_tg s t) = 0 \<and>
    (mem \<or> length (members s g) < g_heap_buf_size (s_grp s g))")
  case True
  then obtain s1 sig1 where a: "group_add s g t mem = Some (None, sig1, s1)" "group_ok s1 g"
    "affects s s1 g t (\<lambda>T. T\<lparr>t_group := Some g\<rparr>)"
    using group_add_ok [OF sched_okD(1) [OF assms(1)] _ _ sched_okD(2) [OF assms(1)] assms(2)] by blast
  have "load_ok ((s_tg s t)\<lparr>t_group := Some g\<rparr>)" using sched_okD(2) [OF assms(1)] by (simp add: load_ok_def)
  from affects_sched_ok [OF assms(1) a(3,2) _ _ this] True a(1) assms(3) show ?thesis
    by (auto simp: load_of_def max_of_def)
next
  case False
  have "group_ok s g" by (rule sched_okD(1) [OF assms(1)])
  then have "g_heap_size (s_grp s g) = length (members s g)" "length (members s g) \<le> g_heap_buf_size (s_grp s g)"
    by (auto simp: group_ok_def group_inv_def group_shape_def Let_def)
  with False assms(1,3) show ?thesis
    by (auto simp: group_add_def heap_insert_def split: if_splits)
qed

lemma remove_sched_ok:
  assumes "sched_ok s" "group_remove s g t = Some (e, s')"
  shows "sched_ok s' \<and> load_of s' = load_of s \<and> max_of s' = max_of s"
proof (cases "t_group (s_tg s t) = Some g \<and> t_wait_cnt (s_tg s t) = 0")
  case True
  then obtain s1 where a: "group_remove s g t = Some (None, s1)" "group_ok s1 g"
    "affects s s1 g t (\<lambda>T. T\<lparr>t_group := None\<rparr>)"
    using group_remove_ok [OF sched_okD(1) [OF assms(1)], of t g] by blast
  have "load_ok ((s_tg s t)\<lparr>t_group := None\<rparr>)" using sched_okD(2) [OF assms(1)] by (simp add: load_ok_def)
  from affects_sched_ok [OF assms(1) a(3,2) _ _ this] True a(1) assms(2) show ?thesis
    by (auto simp: load_of_def max_of_def)
qed (use assms in \<open>auto simp: group_remove_def split: if_splits\<close>)

lemma step_accounted:
  assumes "sched_step so so'" "accounted m so"
  shows "accounted m so'"
  using assms
proof (induction rule: sched_step.induct)
  case (release t out s ka sig s')
  then have "sched_ok s" "0 < load_of s t" by (auto simp: accounted_def)
  from target_release_inv [OF this release.hyps(2)] release show ?case by (auto simp: accounted_def)
next
  case (add s g t mem e sig s' out)
  then show ?case using add_sched_ok [of s g t mem e sig s'] by (auto simp: accounted_def)
next
  case (remove s g t e s' out)
  then show ?case using remove_sched_ok [of s g t e s'] by (auto simp: accounted_def)
qed (blast intro: acquire_accounted acquire_enter_cases acquire_wake_cases accounted_sched_ok)+

lemma steps_accounted: "sched_step\<^sup>*\<^sup>* so so' \<Longrightarrow> accounted m so \<Longrightarrow> accounted m so'"
  by (induction rule: rtranclp_induct) (auto dest: step_accounted)

lemma start_accounted: "(\<And>t. 0 < m t \<and> unat (m t) < 2 ^ 32) \<Longrightarrow> accounted m (sched_start m, {#})"
  using sched_start_ok [of m] by (auto simp: accounted_def sched_start_def max_of_def load_of_def)

text \<open>A small scheduler for the witnesses: group 0 holds target 5 with load 1 of 4 and target 7 with load 1 of 2.\<close>

definition demo_sched :: sched where
  "demo_sched = \<lparr>s_tg = (\<lambda>t. \<lparr>t_max_load = 1, t_cur_load = 0, t_group = None, t_index = 0, t_wait_cnt = 0\<rparr>)
      (5 := \<lparr>t_max_load = 4, t_cur_load = 1, t_group = Some 0, t_index = 0, t_wait_cnt = 0\<rparr>,
       7 := \<lparr>t_max_load = 2, t_cur_load = 1, t_group = Some 0, t_index = 1, t_wait_cnt = 0\<rparr>),
     s_grp = (\<lambda>g. \<lparr>g_max_load = 0, g_cur_load = 0, g_tg_heap = replicate 4 None, g_heap_size = 0,
                   g_heap_buf_size = 4, g_wait_cnt = 0\<rparr>)
      (0 := \<lparr>g_max_load = 6, g_cur_load = 2, g_tg_heap = [Some 5, Some 7, None, None], g_heap_size = 2,
             g_heap_buf_size = 4, g_wait_cnt = 1\<rparr>)\<rparr>"

lemma demo_sched_ok: "sched_ok demo_sched"
proof -
  have "heap_ord (key (s_tg demo_sched)) [5, 7]"
    by (auto simp: heap_ord_def demo_sched_def ratio_def less_Suc_eq)
  then have "group_ok demo_sched 0"
    by (auto simp: group_ok_def group_inv_def group_shape_def members_def load_ok_def Let_def demo_sched_def
        less_Suc_eq)
  moreover have "group_ok demo_sched g" if "g \<noteq> 0" for g
    using that by (auto simp: group_ok_def group_inv_def group_shape_def members_def Let_def demo_sched_def heap_ord_def)
  ultimately have "group_ok demo_sched g" for g by (cases "g = 0") blast+
  moreover have "load_ok (s_tg demo_sched t)" for t by (simp add: load_ok_def demo_sched_def)
  ultimately show ?thesis by (simp add: sched_ok_def)
qed

section \<open>Properties\<close>

text \<open>
  C1: whatever threads acquire, wait, time out, release and move targets between groups, the
  connections that are out of a target are counted exactly by its \<^verbatim>\<open>cur_load\<close> and never exceed its
  \<^verbatim>\<open>max_load\<close>, and every group's heap stays a heap with correct indices and load sums.
\<close>

theorem load_accounting:
  assumes "\<forall>t. 0 < m t \<and> unat (m t) < 2 ^ 32" "sched_step\<^sup>*\<^sup>* (sched_start m, {#}) (s, out)"
  shows "sched_ok s \<and> (\<forall>t. count out t = unat (t_cur_load (s_tg s t)) \<and> count out t \<le> unat (m t))"
proof -
  have "accounted m (s, out)" using steps_accounted [OF assms(2)] start_accounted [of m] assms(1) by blast
  then have ok: "sched_ok s" and eq: "max_of s = m" "load_of s = count out" by (auto simp: accounted_def)
  have "count out t = unat (t_cur_load (s_tg s t))" "count out t \<le> unat (m t)" for t
    using load_okD(3) [OF sched_okD(2) [OF ok], of t] eq by (auto simp: max_of_def load_of_def fun_eq_iff)
  then show ?thesis using ok by blast
qed

theorem load_accounting_witness:
  "\<exists>s. sched_step\<^sup>*\<^sup>* (sched_start (\<lambda>t. 2), {#}) (s, {#5#}) \<and> sched_ok s \<and> t_cur_load (s_tg s 5) = 1"
proof -
  let ?s = "(sched_start (\<lambda>t. 2))\<lparr>s_tg := (s_tg (sched_start (\<lambda>t. 2)))
      (5 := (s_tg (sched_start (\<lambda>t. 2)) 5)\<lparr>t_cur_load := 1\<rparr>)\<rparr>"
  have "target_acquire_enter (sched_start (\<lambda>t. 2)) 5 0 = Some (Got 5, ?s)"
    by (simp add: target_acquire_enter_def target_take_def sched_start_def)
  from target_enter [OF this, of "{#}"] have "sched_step\<^sup>*\<^sup>* (sched_start (\<lambda>t. 2), {#}) (?s, {#5#})" by simp
  with load_accounting [of "\<lambda>t. 2" ?s "{#5#}"] show ?thesis by (auto simp: sched_start_def)
qed

text \<open>
  C28: a group that has spare load hands out a member that has room, and one whose load ratio is
  the least of all members; only that member's load grows, by one.
\<close>

theorem group_acquire_least:
  assumes "sched_ok s" "g_cur_load (s_grp s g) < g_max_load (s_grp s g)"
  shows "\<exists>t s'. group_acquire_enter s g w = Some (Got t, s') \<and> t_group (s_tg s t) = Some g \<and>
     (\<forall>u. t_group (s_tg s u) = Some g \<longrightarrow> ratio (s_tg s t) \<le> ratio (s_tg s u)) \<and>
     t_cur_load (s_tg s t) < t_max_load (s_tg s t) \<and>
     sched_ok s' \<and> load_of s' = (load_of s)(t := load_of s t + 1)"
  using group_take_sched_ok [OF assms] assms(2) by (auto simp: group_acquire_enter_def)

theorem group_acquire_least_witness:
  "\<exists>s'. group_acquire_enter demo_sched 0 0 = Some (Got 5, s') \<and> sched_ok s' \<and> load_of s' 5 = 2"
proof -
  have "g_cur_load (s_grp demo_sched 0) < g_max_load (s_grp demo_sched 0)" by (simp add: demo_sched_def)
  from group_acquire_least [OF demo_sched_ok this, of 0] obtain t s' where
    t: "group_acquire_enter demo_sched 0 0 = Some (Got t, s')" "t_group (s_tg demo_sched t) = Some 0"
      "\<forall>u. t_group (s_tg demo_sched u) = Some 0 \<longrightarrow> ratio (s_tg demo_sched t) \<le> ratio (s_tg demo_sched u)"
      "sched_ok s'" "load_of s' = (load_of demo_sched)(t := load_of demo_sched t + 1)" by blast
  have "t = 5 \<or> t = 7" using t(2) by (auto simp: demo_sched_def split: if_splits)
  moreover have "t \<noteq> 7" using t(3) [rule_format, of 5] by (auto simp: demo_sched_def ratio_def)
  ultimately have "t = 5" by simp
  moreover have "load_of demo_sched 5 = 1" by (simp add: load_of_def demo_sched_def)
  ultimately show ?thesis using t(1,4,5) by auto
qed

text \<open>
  \<^verbatim>\<open>CommSchedGroup::acquire\<close> succeeds at once exactly when some member target has room, although
  it only looks at the summed loads and at the root of the heap.
\<close>

theorem group_acquire_iff_room:
  assumes "sched_ok s"
  shows "(\<exists>t s'. group_acquire_enter s g w = Some (Got t, s')) \<longleftrightarrow>
     (\<exists>u. t_group (s_tg s u) = Some g \<and> t_cur_load (s_tg s u) < t_max_load (s_tg s u))"
proof
  assume "\<exists>t s'. group_acquire_enter s g w = Some (Got t, s')"
  then have "g_cur_load (s_grp s g) < g_max_load (s_grp s g)"
    by (auto simp: group_acquire_enter_def not_le split: if_splits)
  from group_take_sched_ok [OF assms this] show "\<exists>u. t_group (s_tg s u) = Some g \<and> t_cur_load (s_tg s u) < t_max_load (s_tg s u)"
    by blast
next
  assume "\<exists>u. t_group (s_tg s u) = Some g \<and> t_cur_load (s_tg s u) < t_max_load (s_tg s u)"
  then obtain u where u: "t_group (s_tg s u) = Some g" "t_cur_load (s_tg s u) < t_max_load (s_tg s u)" by blast
  have inv: "group_inv s g (members s g)" and mem: "u \<in> set (members s g)"
    using sched_okD(1) [OF assms, of g] u(1) by (auto simp: group_ok_def group_inv_def)
  have "(\<Sum>x \<leftarrow> members s g. unat (t_cur_load (s_tg s x))) < (\<Sum>x \<leftarrow> members s g. unat (t_max_load (s_tg s x)))"
    using mem u(2) load_okD(3) [OF sched_okD(2) [OF assms]] by (intro sum_list_less_ex) (auto simp: word_less_nat_alt)
  then have "g_cur_load (s_grp s g) < g_max_load (s_grp s g)"
    using inv by (simp add: group_inv_def word_less_nat_alt)
  from group_take_sched_ok [OF assms this] this show "\<exists>t s'. group_acquire_enter s g w = Some (Got t, s')"
    by (auto simp: group_acquire_enter_def)
qed

theorem group_acquire_iff_room_witness:
  "\<not> (\<exists>t s'. group_acquire_enter demo_sched 3 0 = Some (Got t, s'))"
  using group_acquire_iff_room [OF demo_sched_ok, of 3 0] by (simp add: demo_sched_def)

text \<open>
  \<^verbatim>\<open>CommScheduler::request\<close> always comes back from its critical sections; a request that the
  communicator accepted holds exactly one unit of load of the target it reports, and one that failed,
  in \<^verbatim>\<open>acquire\<close> or in the communicator, or that is still waiting, holds none.
\<close>

theorem sched_request_balanced:
  assumes "sched_ok s"
  shows "\<exists>ret to sig s'. sched_request s obj w comm_ret = Some (ret, to, sig, s') \<and> sched_ok s' \<and>
     (case ret of
        Some n \<Rightarrow> if n \<ge> 0 then (\<exists>t. to = Some t \<and> load_of s' = (load_of s)(t := load_of s t + 1)) else load_of s' = load_of s
      | None \<Rightarrow> to = None \<and> load_of s' = load_of s)"
proof (cases obj)
  case (OfTarget t)
  then show ?thesis using tgt.serve_balanced [OF assms, of t w comm_ret] by (simp add: sched_request_serve)
next
  case (OfGroup g)
  then show ?thesis using grp.serve_balanced [OF assms, of g w comm_ret] by (simp add: sched_request_serve)
qed

theorem sched_request_balanced_witness:
  "\<exists>ret to sig s'. sched_request demo_sched (OfGroup 0) 0 (\<lambda>t. -1) = Some (ret, to, sig, s') \<and> sched_ok s'"
  using sched_request_balanced [OF demo_sched_ok, of "OfGroup 0" 0 "\<lambda>t. -1"] by blast

text \<open>
  releasing a connection of a grouped target signals exactly one waiter when there is one, a waiter of
  the target before a waiter of its group, restores the group's heap and lowers that load by one.
\<close>

theorem release_signals_one:
  assumes "sched_ok s" "t_group (s_tg s t) = Some g" "0 < load_of s t"
  shows "\<exists>s'. target_release s t ka = Some
       ((if 0 < t_wait_cnt (s_tg s t) then [TargetCond t]
         else if 0 < g_wait_cnt (s_grp s g) then [GroupCond g] else []), s') \<and>
     sched_ok s' \<and> load_of s' = (load_of s)(t := load_of s t - 1)"
proof -
  have "0 < t_cur_load (s_tg s t)" using assms(3) by (simp add: load_of_def word_less_nat_alt)
  from target_release_ok [OF sched_okD(1) [OF assms(1)] assms(2) this, of ka]
    target_release_inv [OF assms(1,3)] show ?thesis by blast
qed

theorem release_signals_one_witness:
  "\<exists>s'. target_release demo_sched 7 True = Some ([GroupCond 0], s') \<and> load_of s' 7 = 0"
proof -
  have "t_group (s_tg demo_sched 7) = Some 0" "0 < load_of demo_sched 7"
    "load_of demo_sched 7 = 1" "t_wait_cnt (s_tg demo_sched 7) = 0" "g_wait_cnt (s_grp demo_sched 0) = 1"
    by (simp_all add: demo_sched_def load_of_def)
  with release_signals_one [OF demo_sched_ok, of 7 0 True] show ?thesis by auto
qed

text \<open>
  removing a target from the middle of the heap and adding it again leaves every group with a valid heap:
  both calls succeed, the group ends with the same members, and no load changes.
\<close>

theorem remove_add_group:
  assumes "sched_ok s" "t_group (s_tg s t) = Some g" "t_wait_cnt (s_tg s t) = 0"
  shows "\<exists>s1 sig s2. group_remove s g t = Some (None, s1) \<and> sched_ok s1 \<and>
     set (members s1 g) = set (members s g) - {t} \<and>
     (unat (g_max_load (s_grp s1 g)) + unat (t_max_load (s_tg s1 t)) < 2 ^ 64 \<longrightarrow>
       group_add s1 g t True = Some (None, sig, s2) \<and> sched_ok s2 \<and>
       set (members s2 g) = set (members s g) \<and> load_of s2 = load_of s)"
proof -
  have tg: "t \<in> set (members s g)" using group_ok_member [OF sched_okD(1) [OF assms(1)]] assms(2) by blast
  obtain s1 where r: "group_remove s g t = Some (None, s1)" "set (members s1 g) = set (members s g) - {t}"
    "affects s s1 g t (\<lambda>T. T\<lparr>t_group := None\<rparr>)"
    using group_remove_ok [OF sched_okD(1) [OF assms(1)] assms(2,3)] by blast
  have ok1: "sched_ok s1" "load_of s1 = load_of s" using remove_sched_ok [OF assms(1) r(1)] by auto
  have f: "t_group (s_tg s1 t) = None" "t_wait_cnt (s_tg s1 t) = 0"
    using affects_fields [OF r(3), of t] assms(3) by auto
  show ?thesis
  proof (cases "unat (g_max_load (s_grp s1 g)) + unat (t_max_load (s_tg s1 t)) < 2 ^ 64")
    case True
    from group_add_ok [OF sched_okD(1) [OF ok1(1)] f sched_okD(2) [OF ok1(1)] this, of True] obtain sig s2 where
      a: "group_add s1 g t True = Some (None, sig, s2)" "set (members s2 g) = insert t (set (members s1 g))" by blast
    from add_sched_ok [OF ok1(1) True a(1)] a r ok1 tg show ?thesis by auto
  qed (use r ok1 in blast)
qed

theorem remove_add_group_witness:
  "\<exists>s1. group_remove demo_sched 0 5 = Some (None, s1) \<and> sched_ok s1 \<and> set (members s1 0) = {7}"
proof -
  have "t_group (s_tg demo_sched 5) = Some 0" "t_wait_cnt (s_tg demo_sched 5) = 0" "set (members demo_sched 0) = {5, 7}"
    by (simp_all add: demo_sched_def members_def)
  with remove_add_group [OF demo_sched_ok, of 5 0] show ?thesis by auto
qed

text \<open>
  the deadline of a timed wait is the current time plus the timeout, with the nanoseconds normalised;
  a negative timeout gives no deadline.
\<close>

theorem get_abstime_deadline:
  assumes "0 \<le> nsec" "nsec < 1000000000"
  shows "(timeout < 0 \<longrightarrow> get_abstime timeout (sec, nsec) = None) \<and>
     (0 \<le> timeout \<longrightarrow> (\<exists>sec' nsec'. get_abstime timeout (sec, nsec) = Some (sec', nsec') \<and>
        0 \<le> nsec' \<and> nsec' < 1000000000 \<and>
        sec' * 1000000000 + nsec' = sec * 1000000000 + nsec + timeout * 1000000))"
proof -
  have "timeout = timeout div 1000 * 1000 + timeout mod 1000" by simp
  moreover have "0 \<le> timeout mod 1000" "timeout mod 1000 < 1000" by simp_all
  ultimately show ?thesis using assms unfolding get_abstime_def Let_def by (simp, linarith)
qed

theorem get_abstime_deadline_witness: "get_abstime 1500 (10, 600000000) = Some (12, 100000000)"
  using get_abstime_deadline [of 600000000 1500 10] by (simp add: get_abstime_def)

end
