(* ===== verification/String_Util.thy ===== *)
theory String_Util
  imports WF_Prelude "HOL-Library.Sublist"
begin

text \<open>
  String helpers (\<^verbatim>\<open>workflow/src/util/StringUtil.cc\<close>). Characters are the 8-bit \<^typ>\<open>char\<close>; \<open>code c\<close> is the
  value as \<^verbatim>\<open>unsigned char\<close>. The classification functions are those of the C locale, in which no
  character above 127 has a class. \<^verbatim>\<open>url_decode\<close> works in place: the buffer is an array with the terminating
  \<^verbatim>\<open>NUL\<close>, read at \<open>data\<close> and written at \<open>dest\<close>.
\<close>

section \<open>Characters\<close>

abbreviation code :: "char \<Rightarrow> nat" where "code \<equiv> of_char"

definition NUL :: char where "NUL = char_of (0 :: nat)"

definition isdigit :: "char \<Rightarrow> bool" where "isdigit c \<longleftrightarrow> 48 \<le> code c \<and> code c \<le> 57"
definition isupper :: "char \<Rightarrow> bool" where "isupper c \<longleftrightarrow> 65 \<le> code c \<and> code c \<le> 90"
definition islower :: "char \<Rightarrow> bool" where "islower c \<longleftrightarrow> 97 \<le> code c \<and> code c \<le> 122"
definition isalpha :: "char \<Rightarrow> bool" where "isalpha c \<longleftrightarrow> isupper c \<or> islower c"
definition isalnum :: "char \<Rightarrow> bool" where "isalnum c \<longleftrightarrow> isalpha c \<or> isdigit c"
definition isxdigit :: "char \<Rightarrow> bool" where
  "isxdigit c \<longleftrightarrow> isdigit c \<or> 65 \<le> code c \<and> code c \<le> 70 \<or> 97 \<le> code c \<and> code c \<le> 102"
definition isspace :: "char \<Rightarrow> bool" where "isspace c \<longleftrightarrow> 9 \<le> code c \<and> code c \<le> 13 \<or> code c = 32"

lemmas ctype_defs = isdigit_def isupper_def islower_def isalpha_def isalnum_def isxdigit_def isspace_def

section \<open>Operations\<close>

definition htoi_digit :: "char \<Rightarrow> int" where
  "htoi_digit ch =
     (let c = int (code ch); c = (if isupper ch then c + 32 else c)
      in if c \<ge> 48 \<and> c \<le> 57 then c - 48 else c - 97 + 10)"

definition htoi :: "char \<Rightarrow> char \<Rightarrow> int" where
  "htoi s0 s1 = htoi_digit s0 * 16 + htoi_digit s1"

definition itoh :: "nat \<Rightarrow> char" where
  "itoh n = (if n > 9 then char_of (n - 10 + 65) else char_of (n + 48))"

text \<open>The loop of \<^verbatim>\<open>url_decode\<close>, with the \<^verbatim>\<open>while (len--)\<close> test and the final \<^verbatim>\<open>*dest = '\0'\<close>.\<close>

function url_decode_loop :: "char list \<Rightarrow> nat \<Rightarrow> nat \<Rightarrow> nat \<Rightarrow> (char list \<times> nat) option" where
  "url_decode_loop buf data dest len =
     (if len = 0 then do { buf \<leftarrow> wr buf dest NUL; Some (buf, dest) }
      else let len = len - 1
           in do { c \<leftarrow> rd buf data;
                   esc \<leftarrow> (if c = CHR ''%'' \<and> len \<ge> 2 then
                             do { c1 \<leftarrow> rd buf (data + 1);
                                  if isxdigit c1 then
                                    do { c2 \<leftarrow> rd buf (data + 2);
                                         Some (if isxdigit c2 then Some (htoi c1 c2) else None) }
                                  else Some None }
                           else Some None);
                   (case esc of
                      Some v \<Rightarrow> do { buf \<leftarrow> wr buf dest (char_of (nat v));
                                    url_decode_loop buf (data + 3) (dest + 1) (len - 2) }
                    | None \<Rightarrow> do { buf \<leftarrow> wr buf dest (if c = CHR ''+'' then CHR '' '' else c);
                                  url_decode_loop buf (data + 1) (dest + 1) len }) })"
  by pat_completeness auto
termination
  by (relation "measure (\<lambda>(buf, data, dest, len). len)") auto

declare url_decode_loop.simps [simp del]

definition url_decode_buf :: "char list \<Rightarrow> nat \<Rightarrow> (char list \<times> nat) option" where
  "url_decode_buf str len = url_decode_loop str 0 0 len"

text \<open>The overload on \<^verbatim>\<open>std::string\<close>; the buffer of a string is its characters and a \<^verbatim>\<open>NUL\<close>.\<close>

definition url_decode :: "string \<Rightarrow> string option" where
  "url_decode str =
     (if str = [] then Some []
      else do { (buf, sz) \<leftarrow> url_decode_buf (str @ [NUL]) (length str); Some (take sz buf) })"

definition url_keep_component :: "char \<Rightarrow> bool" where
  "url_keep_component c \<longleftrightarrow> isalnum c \<or> c \<in> set ''-_.!~*()'' \<or> c = CHR 0x27"

definition url_keep :: "char \<Rightarrow> bool" where
  "url_keep c \<longleftrightarrow> url_keep_component c \<or> c \<in> set '':/@?#&''"

fun url_encode_with :: "(char \<Rightarrow> bool) \<Rightarrow> string \<Rightarrow> string" where
  "url_encode_with keep [] = []"
| "url_encode_with keep (c # cs) =
     (if c = CHR '' '' then [CHR ''+'']
      else if keep c then [c]
      else [CHR ''%'', itoh (code c div 16), itoh (code c mod 16)]) @ url_encode_with keep cs"

definition url_encode :: "string \<Rightarrow> string" where
  "url_encode str = url_encode_with url_keep str"

definition url_encode_component :: "string \<Rightarrow> string" where
  "url_encode_component str = url_encode_with url_keep_component str"

text \<open>The iterators \<^verbatim>\<open>start\<close> and \<^verbatim>\<open>next\<close> as suffixes of the string: \<^verbatim>\<open>find\<close> is \<^const>\<open>dropWhile\<close>.\<close>

function split :: "string \<Rightarrow> char \<Rightarrow> string list" where
  "split start sep =
     (case dropWhile (\<lambda>c. c \<noteq> sep) start of
        [] \<Rightarrow> [start]
      | _ # rest \<Rightarrow> takeWhile (\<lambda>c. c \<noteq> sep) start # split rest sep)"
  by pat_completeness auto
termination
proof (relation "measure (\<lambda>(start, sep). length start)")
  fix start sep x rest
  assume "dropWhile (\<lambda>c. c \<noteq> sep) start = x # rest"
  then have "length (x # rest) \<le> length start" by (metis length_dropWhile_le)
  then show "((rest, sep), (start, sep)) \<in> measure (\<lambda>(start, sep). length start)" by simp
qed simp

function split_filter_empty :: "string \<Rightarrow> char \<Rightarrow> string list" where
  "split_filter_empty start sep =
     (case dropWhile (\<lambda>c. c \<noteq> sep) start of
        [] \<Rightarrow> (if start \<noteq> [] then [start] else [])
      | _ # rest \<Rightarrow>
          (if takeWhile (\<lambda>c. c \<noteq> sep) start \<noteq> [] then [takeWhile (\<lambda>c. c \<noteq> sep) start] else []) @
          split_filter_empty rest sep)"
  by pat_completeness auto
termination
proof (relation "measure (\<lambda>(start, sep). length start)")
  fix start sep x rest
  assume "dropWhile (\<lambda>c. c \<noteq> sep) start = x # rest"
  then have "length (x # rest) \<le> length start" by (metis length_dropWhile_le)
  then show "((rest, sep), (start, sep)) \<in> measure (\<lambda>(start, sep). length start)" by simp
qed simp

declare split.simps [simp del] split_filter_empty.simps [simp del]

text \<open>The two loops of \<^verbatim>\<open>strip\<close>; the pointers are integers because \<^verbatim>\<open>ed\<close> may end before \<^verbatim>\<open>st\<close>.\<close>

function strip_left :: "string \<Rightarrow> int \<Rightarrow> int \<Rightarrow> int option" where
  "strip_left s st ed =
     (if st \<le> ed then do { c \<leftarrow> rd s (nat st); if \<not> isspace c then Some st else strip_left s (st + 1) ed }
      else Some st)"
  by pat_completeness auto
termination
  by (relation "measure (\<lambda>(s, st, ed). nat (ed + 1 - st))") auto

function strip_right :: "string \<Rightarrow> int \<Rightarrow> int \<Rightarrow> int option" where
  "strip_right s st ed =
     (if ed \<ge> st then do { c \<leftarrow> rd s (nat ed); if \<not> isspace c then Some ed else strip_right s st (ed - 1) }
      else Some ed)"
  by pat_completeness auto
termination
  by (relation "measure (\<lambda>(s, st, ed). nat (ed + 1 - st))") auto

declare strip_left.simps [simp del] strip_right.simps [simp del]

definition strip :: "string \<Rightarrow> string option" where
  "strip str =
     (if str \<noteq> [] then
        do { st \<leftarrow> strip_left str 0 (int (length str) - 1);
             ed \<leftarrow> strip_right str st (int (length str) - 1);
             Some (if ed \<ge> st then take (nat (ed - st + 1)) (drop (nat st) str) else []) }
      else Some [])"

fun start_with_loop :: "string \<Rightarrow> string \<Rightarrow> nat \<Rightarrow> nat \<Rightarrow> bool option" where
  "start_with_loop str prefx i 0 = Some True"
| "start_with_loop str prefx i (Suc k) =
     do { a \<leftarrow> rd str i; b \<leftarrow> rd prefx i;
          if a \<noteq> b then Some False else start_with_loop str prefx (i + 1) k }"

definition start_with :: "string \<Rightarrow> string \<Rightarrow> bool option" where
  "start_with str prefx =
     (if length str < length prefx then Some False else start_with_loop str prefx 0 (length prefx))"

section \<open>Decoding\<close>

text \<open>What decoding means, on strings.\<close>

definition plus_space :: "char \<Rightarrow> char" where
  "plus_space c = (if c = CHR ''+'' then CHR '' '' else c)"

fun url_decoded :: "string \<Rightarrow> string" where
  "url_decoded (c # c1 # c2 # cs) =
     (if c = CHR ''%'' \<and> isxdigit c1 \<and> isxdigit c2 then char_of (nat (htoi c1 c2)) # url_decoded cs
      else plus_space c # url_decoded (c1 # c2 # cs))"
| "url_decoded [c, c1] = [plus_space c, plus_space c1]"
| "url_decoded [c] = [plus_space c]"
| "url_decoded [] = []"

lemma wr_front: "m \<noteq> [] \<Longrightarrow> wr (pre @ m @ s) (length pre) v = Some ((pre @ [v]) @ tl m @ s)"
  by (cases m) (auto simp: wr_def)

lemma rd_mid: "length xs = n \<Longrightarrow> rd (xs @ c # r) n = Some c"
  by (auto simp: rd_def)

lemma url_decode_end:
  assumes "m \<noteq> []"
  shows "\<exists>t. url_decode_loop (pre @ m) d (length pre) 0 = Some (pre @ NUL # t, length pre)"
  using assms by (cases m) (auto simp: url_decode_loop.simps wr_def)

lemma url_decode_plain:
  assumes "\<not> (c = CHR ''%'' \<and> (\<exists>c1 c2 r. cs = c1 # c2 # r \<and> isxdigit c1 \<and> isxdigit c2))"
  shows "url_decode_loop (pre @ mid @ (c # cs) @ rest) (length pre + length mid) (length pre) (Suc (length cs)) =
     url_decode_loop ((pre @ [plus_space c]) @ tl (mid @ [c]) @ cs @ rest) (Suc (length pre + length mid)) (Suc (length pre)) (length cs)"
proof -
  let ?buf = "pre @ mid @ (c # cs) @ rest" and ?d = "length pre + length mid"
  have r0: "rd ?buf ?d = Some c" using rd_mid [of "pre @ mid" ?d c "cs @ rest"] by simp
  have w: "wr ?buf (length pre) v = Some ((pre @ [v]) @ tl (mid @ [c]) @ cs @ rest)" for v
    using wr_front [of "mid @ [c]" pre "cs @ rest" v] by simp
  have esc: "(if c = CHR ''%'' \<and> length cs \<ge> 2 then
       do { c1 \<leftarrow> rd ?buf (?d + 1);
            if isxdigit c1 then do { c2 \<leftarrow> rd ?buf (?d + 2); Some (if isxdigit c2 then Some (htoi c1 c2) else None) }
            else Some None }
     else Some None) = Some None"
  proof (cases "c = CHR ''%'' \<and> length cs \<ge> 2")
    case True
    then obtain c1 c2 r where cs: "cs = c1 # c2 # r" by (cases cs rule: remdups_adj.cases) auto
    have "rd ?buf (?d + 1) = Some c1" "rd ?buf (?d + 2) = Some c2"
      using rd_mid [of "pre @ mid @ [c]" "?d + 1" c1 "c2 # r @ rest"]
        rd_mid [of "pre @ mid @ [c, c1]" "?d + 2" c2 "r @ rest"] cs by simp_all
    with True cs assms show ?thesis by auto
  qed auto
  show ?thesis
    unfolding url_decode_loop.simps [of ?buf] using r0 esc w by (simp add: Let_def plus_space_def)
qed

lemma url_decode_escape:
  assumes "isxdigit c1" "isxdigit c2"
  shows "url_decode_loop (pre @ mid @ (CHR ''%'' # c1 # c2 # cs) @ rest) (length pre + length mid) (length pre) (length cs + 3) =
     url_decode_loop ((pre @ [char_of (nat (htoi c1 c2))]) @ tl (mid @ [CHR ''%'', c1, c2]) @ cs @ rest)
       (length pre + length mid + 3) (Suc (length pre)) (length cs)"
proof -
  let ?buf = "pre @ mid @ (CHR ''%'' # c1 # c2 # cs) @ rest" and ?d = "length pre + length mid"
  have r: "rd ?buf ?d = Some (CHR ''%'')" "rd ?buf (?d + 1) = Some c1" "rd ?buf (?d + 2) = Some c2"
    using rd_mid [of "pre @ mid" ?d "CHR ''%''" "c1 # c2 # cs @ rest"] rd_mid [of "pre @ mid @ [CHR ''%'']" "?d + 1" c1 "c2 # cs @ rest"]
      rd_mid [of "pre @ mid @ [CHR ''%'', c1]" "?d + 2" c2 "cs @ rest"] by simp_all
  have w: "wr ?buf (length pre) v = Some ((pre @ [v]) @ tl (mid @ [CHR ''%'', c1, c2]) @ cs @ rest)" for v
    using wr_front [of "mid @ [CHR ''%'', c1, c2]" pre "cs @ rest" v] by simp
  show ?thesis
    unfolding url_decode_loop.simps [of ?buf] using r w assms by (simp add: Let_def)
qed

lemma url_decode_loop_ok:
  assumes "mid @ rest \<noteq> []"
  shows "\<exists>t. url_decode_loop (pre @ mid @ s @ rest) (length pre + length mid) (length pre) (length s) =
     Some (pre @ url_decoded s @ NUL # t, length pre + length (url_decoded s))"
  using assms
proof (induction s arbitrary: pre mid rule: url_decoded.induct)
  case (1 c c1 c2 cs)
  show ?case
  proof (cases "c = CHR ''%'' \<and> isxdigit c1 \<and> isxdigit c2")
    case True
    have "tl (mid @ [CHR ''%'', c1, c2]) @ rest \<noteq> []" by (cases mid) auto
    from 1(1) [OF True this, of "pre @ [char_of (nat (htoi c1 c2))]"] True url_decode_escape [of c1 c2 pre mid cs rest]
    show ?thesis by (simp add: ac_simps numeral_3_eq_3)
  next
    case False
    have "tl (mid @ [c]) @ rest \<noteq> []" if "mid = [] \<longrightarrow> rest \<noteq> []" using that by (cases mid) auto
    then have ne: "tl (mid @ [c]) @ rest \<noteq> []" using 1(3) by auto
    have "length pre + 1 + length (tl (mid @ [c])) = Suc (length pre + length mid)" by (cases mid) auto
    with 1(2) [OF False ne, of "pre @ [plus_space c]"] False url_decode_plain [of c "c1 # c2 # cs" pre mid rest]
    show ?thesis by auto
  qed
next
  case (2 c c1)
  have a: "url_decode_loop (pre @ mid @ [c, c1] @ rest) (length pre + length mid) (length pre) 2 =
      url_decode_loop ((pre @ [plus_space c]) @ tl (mid @ [c]) @ [c1] @ rest) (Suc (length pre + length mid)) (Suc (length pre)) 1"
    using url_decode_plain [of c "[c1]" pre mid rest] by (simp add: numeral_2_eq_2)
  have l: "Suc (length pre + length mid) = length (pre @ [plus_space c]) + length (tl (mid @ [c]))" by (cases mid) auto
  have b: "url_decode_loop ((pre @ [plus_space c]) @ tl (mid @ [c]) @ [c1] @ rest) (Suc (length pre + length mid)) (Suc (length pre)) 1 =
      url_decode_loop (((pre @ [plus_space c]) @ [plus_space c1]) @ tl (tl (mid @ [c]) @ [c1]) @ rest)
        (Suc (Suc (length pre + length mid))) (Suc (Suc (length pre))) 0"
    using url_decode_plain [of c1 "[]" "pre @ [plus_space c]" "tl (mid @ [c])" rest] unfolding l by simp
  have "tl (tl (mid @ [c]) @ [c1]) @ rest \<noteq> []" using 2 by (cases mid; cases "tl mid") auto
  from url_decode_end [OF this, of "(pre @ [plus_space c]) @ [plus_space c1]" "Suc (Suc (length pre + length mid))"] a b
  show ?case by (simp add: numeral_2_eq_2)
next
  case (3 c)
  have "tl (mid @ [c]) @ rest \<noteq> []" using 3 by (cases mid) auto
  from url_decode_end [OF this, of "pre @ [plus_space c]" "Suc (length pre + length mid)"] url_decode_plain [of c "[]" pre mid rest]
  show ?case by simp
next
  case 4
  then show ?case using url_decode_end [of "mid @ rest" pre] by simp
qed

lemma url_decode_buf_ok:
  "\<exists>t. url_decode_buf (s @ NUL # r) (length s) = Some (url_decoded s @ NUL # t, length (url_decoded s))"
  using url_decode_loop_ok [of "[]" "NUL # r" "[]" s] by (simp add: url_decode_buf_def)

lemma url_decode_ok: "url_decode s = Some (url_decoded s)"
  using url_decode_buf_ok [of s "[]"] by (auto simp: url_decode_def)

section \<open>Encoding and decoding\<close>

lemma itoh_xdigit: "n < 16 \<Longrightarrow> isxdigit (itoh n) \<and> htoi_digit (itoh n) = int n"
  by (auto simp: itoh_def ctype_defs htoi_digit_def Let_def)

lemma htoi_itoh: "htoi (itoh (code c div 16)) (itoh (code c mod 16)) = int (code c)"
proof -
  have "code c < 256" by simp
  then have "code c div 16 < 16" by linarith
  then show ?thesis using itoh_xdigit [of "code c div 16"] itoh_xdigit [of "code c mod 16"]
    by (simp add: htoi_def zdiv_int zmod_int)
qed

lemma url_decoded_plain: "c \<noteq> CHR ''%'' \<Longrightarrow> url_decoded (c # cs) = plus_space c # url_decoded cs"
  by (cases cs rule: remdups_adj.cases) auto

lemma url_encode_with_decoded:
  assumes "\<And>c. keep c \<Longrightarrow> c \<noteq> CHR ''%'' \<and> c \<noteq> CHR ''+''"
  shows "url_decoded (url_encode_with keep s) = s"
proof (induction s)
  case (Cons c s)
  have "code c < 256" by simp
  then have "code c div 16 < 16" by linarith
  then have "isxdigit (itoh (code c div 16))" "isxdigit (itoh (code c mod 16))" using itoh_xdigit by simp_all
  then show ?case using Cons assms by (auto simp: url_decoded_plain plus_space_def htoi_itoh)
qed simp

lemma url_keep_safe:
  "url_keep_component c \<Longrightarrow> c \<noteq> CHR ''%'' \<and> c \<noteq> CHR ''+''" "url_keep c \<Longrightarrow> c \<noteq> CHR ''%'' \<and> c \<noteq> CHR ''+''"
  by (auto simp: url_keep_def url_keep_component_def ctype_defs)

section \<open>Splitting and stripping\<close>

fun join :: "char \<Rightarrow> string list \<Rightarrow> string" where
  "join sep [] = []"
| "join sep [x] = x"
| "join sep (x # xs) = x @ sep # join sep xs"

lemma split_nil: "dropWhile (\<lambda>c. c \<noteq> sep) s = [] \<Longrightarrow> split s sep = [s]"
  by (subst split.simps) (simp del: dropWhile_eq_Nil_conv)

lemma split_cons: "dropWhile (\<lambda>c. c \<noteq> sep) s = x # r \<Longrightarrow> split s sep = takeWhile (\<lambda>c. c \<noteq> sep) s # split r sep"
  by (subst split.simps) simp

lemma split_ne: "split s sep \<noteq> []"
  by (cases "dropWhile (\<lambda>c. c \<noteq> sep) s") (simp_all add: split_nil split_cons del: dropWhile_eq_Nil_conv)

lemma split_pieces: "p \<in> set (split s sep) \<Longrightarrow> sep \<notin> set p"
proof (induction s sep rule: split.induct)
  case (1 s sep)
  show ?case
  proof (cases "dropWhile (\<lambda>c. c \<noteq> sep) s")
    case Nil
    then show ?thesis using 1(2) split_nil [OF Nil] by auto
  next
    case (Cons x r)
    then show ?thesis using 1(1) [OF Cons] 1(2) split_cons [OF Cons] by (auto dest: set_takeWhileD)
  qed
qed

lemma join_Cons: "xs \<noteq> [] \<Longrightarrow> join sep (x # xs) = x @ sep # join sep xs"
  by (cases xs) auto

lemma split_join: "join sep (split s sep) = s"
proof (induction s sep rule: split.induct)
  case (1 s sep)
  show ?case
  proof (cases "dropWhile (\<lambda>c. c \<noteq> sep) s")
    case Nil
    then show ?thesis by (simp add: split_nil del: dropWhile_eq_Nil_conv)
  next
    case (Cons x r)
    then have "x = sep" using hd_dropWhile [of "\<lambda>c. c \<noteq> sep" s] by auto
    with 1 [OF Cons] Cons show ?thesis
      using takeWhile_dropWhile_id [of "\<lambda>c. c \<noteq> sep" s] by (simp add: split_cons [OF Cons] join_Cons split_ne)
  qed
qed

lemma cut_at:
  assumes "sep \<notin> set x"
  shows "takeWhile (\<lambda>c. c \<noteq> sep) (x @ sep # z) = x" "dropWhile (\<lambda>c. c \<noteq> sep) (x @ sep # z) = sep # z"
  using assms by (induction x) auto

lemma split_of_join:
  "xs \<noteq> [] \<Longrightarrow> (\<And>x. x \<in> set xs \<Longrightarrow> sep \<notin> set x) \<Longrightarrow> split (join sep xs) sep = xs"
proof (induction xs rule: join.induct)
  case (2 sep x)
  then have "dropWhile (\<lambda>c. c \<noteq> sep) x = []" by auto
  then show ?case by (simp add: split_nil del: dropWhile_eq_Nil_conv)
next
  case (3 sep x y ys)
  then show ?case by (simp add: split_cons [OF cut_at(2)] cut_at(1))
qed simp

lemma split_filter_empty_split: "split_filter_empty s sep = filter (\<lambda>p. p \<noteq> []) (split s sep)"
proof (induction s sep rule: split.induct)
  case (1 s sep)
  show ?case
  proof (cases "dropWhile (\<lambda>c. c \<noteq> sep) s")
    case Nil
    then show ?thesis
      by (subst split_filter_empty.simps) (simp add: split_nil del: dropWhile_eq_Nil_conv)
  next
    case (Cons x r)
    then show ?thesis using 1 [OF Cons] by (subst split_filter_empty.simps) (simp add: split_cons)
  qed
qed

lemma strip_left_ok:
  "n \<le> length s \<Longrightarrow>
   strip_left s (int n) (int (length s) - 1) = Some (int (n + length (takeWhile isspace (drop n s))))"
proof (induction "length s - n" arbitrary: n)
  case 0
  then show ?case by (simp add: strip_left.simps)
next
  case (Suc k)
  then have n: "n < length s" by simp
  then have d: "drop n s = s ! n # drop (Suc n) s" by (simp add: Cons_nth_drop_Suc)
  have "strip_left s (int (Suc n)) (int (length s) - 1) = Some (int (Suc n + length (takeWhile isspace (drop (Suc n) s))))"
    using Suc n by (intro Suc(1)) auto
  then show ?case using n by (subst strip_left.simps) (simp add: d ac_simps)
qed

lemma strip_right_ok:
  "n \<le> m \<Longrightarrow> m \<le> length s \<Longrightarrow>
   strip_right s (int n) (int m - 1) = Some (int m - 1 - int (length (takeWhile isspace (rev (take (m - n) (drop n s))))))"
proof (induction "m - n" arbitrary: m)
  case 0
  then show ?case by (simp add: strip_right.simps)
next
  case (Suc k)
  then obtain l where m: "m = Suc l" "n \<le> l" "l < length s" by (cases m) auto
  have t: "take (m - n) (drop n s) = take (l - n) (drop n s) @ [s ! l]"
    using m take_Suc_conv_app_nth [of "l - n" "drop n s"] by (simp add: Suc_diff_le)
  have "strip_right s (int n) (int l - 1) = Some (int l - 1 - int (length (takeWhile isspace (rev (take (l - n) (drop n s))))))"
    using Suc m by (intro Suc(1)) auto
  then show ?case using m(2,3) by (subst strip_right.simps) (simp add: t m(1) [symmetric], simp add: m(1))
qed

definition rstrip :: "string \<Rightarrow> string" where
  "rstrip s = rev (dropWhile isspace (rev s))"

lemma rstrip_take: "rstrip s = take (length s - length (takeWhile isspace (rev s))) s"
  by (simp add: rstrip_def dropWhile_eq_drop rev_drop)

lemma strip_ok: "strip s = Some (rstrip (dropWhile isspace s))"
proof (cases "s = []")
  case False
  let ?n = "length (takeWhile isspace s)"
  have n: "?n \<le> length s" by (rule length_takeWhile_le)
  have l: "strip_left s 0 (int (length s) - 1) = Some (int ?n)" using strip_left_ok [of 0 s] by simp
  have d: "drop ?n s = dropWhile isspace s" by (simp add: dropWhile_eq_drop)
  let ?k = "length (takeWhile isspace (rev (drop ?n s)))"
  have r: "strip_right s (int ?n) (int (length s) - 1) = Some (int (length s) - 1 - int ?k)"
    using strip_right_ok [OF n le_refl] by simp
  have k: "?k \<le> length s - ?n" using length_takeWhile_le [of isspace "rev (drop ?n s)"] by simp
  have "strip s = Some (take (length s - ?n - ?k) (drop ?n s))"
    using False l r k n by (auto simp: strip_def nat_diff_distrib of_nat_diff nat_add_distrib intro!: arg_cong2 [where f = take])
  then show ?thesis by (simp add: rstrip_take d [symmetric])
qed (simp add: strip_def rstrip_def)

lemma start_with_loop_ok:
  "i + k = length p \<Longrightarrow> length p \<le> length s \<Longrightarrow> start_with_loop s p i k = Some (prefix (drop i p) (drop i s))"
proof (induction k arbitrary: i)
  case (Suc k)
  then have "drop i p = p ! i # drop (Suc i) p" "drop i s = s ! i # drop (Suc i) s"
    by (simp_all add: Cons_nth_drop_Suc)
  with Suc show ?case by auto
qed simp

lemma start_with_ok: "start_with s p = Some (prefix p s)"
  using start_with_loop_ok [of 0 "length p" p s] prefix_length_le by (fastforce simp: start_with_def)

section \<open>Properties\<close>

text \<open>
  \<^verbatim>\<open>url_decode\<close> in place stays inside its buffer, ends, writes the terminating \<^verbatim>\<open>NUL\<close> and leaves exactly the decoded
  string in front of it; decoding is read off the string from left to right, although the code overwrites the buffer it reads.
\<close>

theorem url_decode_in_place:
  "\<exists>t. url_decode_buf (s @ NUL # r) (length s) = Some (url_decoded s @ NUL # t, length (url_decoded s)) \<and>
     url_decode s = Some (url_decoded s)"
  using url_decode_buf_ok url_decode_ok by blast

text \<open>
  decoding inverts both encodings, for every string of bytes.
\<close>

theorem url_roundtrip:
  "url_decode (url_encode s) = Some s \<and> url_decode (url_encode_component s) = Some s"
  using url_encode_with_decoded [of url_keep s] url_encode_with_decoded [of url_keep_component s] url_keep_safe
  by (simp add: url_decode_ok url_encode_def url_encode_component_def)

text \<open>
  \<^verbatim>\<open>split\<close> cuts a string at every separator and nowhere else: joining the pieces gives the string back, no piece
  holds the separator, and any non-empty list of such pieces is recovered; \<^verbatim>\<open>split_filter_empty\<close> drops exactly the empty pieces.
\<close>

theorem split_inverse:
  "join sep (split s sep) = s \<and> \<not> (\<exists>p. p \<in> set (split s sep) \<and> sep \<in> set p) \<and>
   split_filter_empty s sep = filter (\<lambda>p. p \<noteq> []) (split s sep) \<and>
   (xs \<noteq> [] \<and> (\<forall>x \<in> set xs. sep \<notin> set x) \<longrightarrow> split (join sep xs) sep = xs)"
  using split_join split_pieces split_filter_empty_split split_of_join by blast

theorem split_inverse_witness: "split ''a,,b'' (CHR '','') = [''a'', [], ''b'']"
  using split_inverse [of "CHR '',''" "[]" "[''a'', [], ''b'']"] by simp

text \<open>
  \<^verbatim>\<open>strip\<close> never reads outside the string and returns the part between the leading and the trailing white space;
  \<^verbatim>\<open>start_with\<close> decides the prefix order.
\<close>

theorem strip_start_with:
  "strip s = Some (rstrip (dropWhile isspace s)) \<and> start_with s p = Some (prefix p s)"
  by (simp add: strip_ok start_with_ok)

end
