(* ===== verification/Uri_Parser.thy ===== *)
theory Uri_Parser
  imports String_Util
begin

text \<open>
  The URI parser (\<^verbatim>\<open>workflow/src/util/URIParser.cc\<close> and \<^verbatim>\<open>.h\<close>). A C string is the list of its characters
  before the terminating \<^verbatim>\<open>NUL\<close>; a pointer into it is the suffix that starts there, so \<^verbatim>\<open>str[cur]\<close> is the
  head of the suffix, or \<^verbatim>\<open>NUL\<close> when the suffix is empty. The arrays \<^verbatim>\<open>st\<close> and \<^verbatim>\<open>ed\<close> hold the index ranges of
  the seven components; they are natural numbers without a bound, where the code has \<^verbatim>\<open>int\<close>, so strings of \<open>2 ^ 31\<close> bytes and more are not modelled. The outcome of \<^verbatim>\<open>realloc\<close> and \<^verbatim>\<open>strdup\<close> for component \<open>i\<close> is an argument.
\<close>

section \<open>Tables and data\<close>

text \<open>\<^verbatim>\<open>scheme, userinfo, host, port, path, query, fragment\<close>\<close>

definition valid_char :: "nat list list" where
  "valid_char = [
    [0,0,0,0,0,0,0,0,0,0,0,0,0,0,0,0,
     0,0,0,0,0,0,0,0,0,0,0,0,0,0,0,0,
     0,0,0,0,0,0,0,0,0,0,0,1,0,1,1,0,
     1,1,1,1,1,1,1,1,1,1,0,0,0,0,0,0,
     0,1,1,1,1,1,1,1,1,1,1,1,1,1,1,1,
     1,1,1,1,1,1,1,1,1,1,1,0,0,0,0,0,
     0,1,1,1,1,1,1,1,1,1,1,1,1,1,1,1,
     1,1,1,1,1,1,1,1,1,1,1,0,0,0,0,0,
     0,0,0,0,0,0,0,0,0,0,0,0,0,0,0,0,
     0,0,0,0,0,0,0,0,0,0,0,0,0,0,0,0,
     0,0,0,0,0,0,0,0,0,0,0,0,0,0,0,0,
     0,0,0,0,0,0,0,0,0,0,0,0,0,0,0,0,
     0,0,0,0,0,0,0,0,0,0,0,0,0,0,0,0,
     0,0,0,0,0,0,0,0,0,0,0,0,0,0,0,0,
     0,0,0,0,0,0,0,0,0,0,0,0,0,0,0,0,
     0,0,0,0,0,0,0,0,0,0,0,0,0,0,0,0],
    [0,0,0,0,0,0,0,0,0,0,0,0,0,0,0,0,
     0,0,0,0,0,0,0,0,0,0,0,0,0,0,0,0,
     0,1,0,0,1,1,1,1,1,1,1,1,1,1,1,0,
     1,1,1,1,1,1,1,1,1,1,1,1,0,1,0,0,
     0,1,1,1,1,1,1,1,1,1,1,1,1,1,1,1,
     1,1,1,1,1,1,1,1,1,1,1,0,0,0,0,1,
     0,1,1,1,1,1,1,1,1,1,1,1,1,1,1,1,
     1,1,1,1,1,1,1,1,1,1,1,0,0,0,1,0,
     0,0,0,0,0,0,0,0,0,0,0,0,0,0,0,0,
     0,0,0,0,0,0,0,0,0,0,0,0,0,0,0,0,
     0,0,0,0,0,0,0,0,0,0,0,0,0,0,0,0,
     0,0,0,0,0,0,0,0,0,0,0,0,0,0,0,0,
     0,0,0,0,0,0,0,0,0,0,0,0,0,0,0,0,
     0,0,0,0,0,0,0,0,0,0,0,0,0,0,0,0,
     0,0,0,0,0,0,0,0,0,0,0,0,0,0,0,0,
     0,0,0,0,0,0,0,0,0,0,0,0,0,0,0,0],
    [0,0,0,0,0,0,0,0,0,0,0,0,0,0,0,0,
     0,0,0,0,0,0,0,0,0,0,0,0,0,0,0,0,
     0,1,0,0,1,1,1,1,1,1,1,1,1,1,1,0,
     1,1,1,1,1,1,1,1,1,1,1,1,0,1,0,0,
     0,1,1,1,1,1,1,1,1,1,1,1,1,1,1,1,
     1,1,1,1,1,1,1,1,1,1,1,0,0,0,0,1,
     0,1,1,1,1,1,1,1,1,1,1,1,1,1,1,1,
     1,1,1,1,1,1,1,1,1,1,1,0,0,0,1,0,
     0,0,0,0,0,0,0,0,0,0,0,0,0,0,0,0,
     0,0,0,0,0,0,0,0,0,0,0,0,0,0,0,0,
     0,0,0,0,0,0,0,0,0,0,0,0,0,0,0,0,
     0,0,0,0,0,0,0,0,0,0,0,0,0,0,0,0,
     0,0,0,0,0,0,0,0,0,0,0,0,0,0,0,0,
     0,0,0,0,0,0,0,0,0,0,0,0,0,0,0,0,
     0,0,0,0,0,0,0,0,0,0,0,0,0,0,0,0,
     0,0,0,0,0,0,0,0,0,0,0,0,0,0,0,0],
    [0,0,0,0,0,0,0,0,0,0,0,0,0,0,0,0,
     0,0,0,0,0,0,0,0,0,0,0,0,0,0,0,0,
     0,0,0,0,0,0,0,0,0,0,0,0,0,0,0,0,
     1,1,1,1,1,1,1,1,1,1,0,0,0,0,0,0,
     0,0,0,0,0,0,0,0,0,0,0,0,0,0,0,0,
     0,0,0,0,0,0,0,0,0,0,0,0,0,0,0,0,
     0,0,0,0,0,0,0,0,0,0,0,0,0,0,0,0,
     0,0,0,0,0,0,0,0,0,0,0,0,0,0,0,0,
     0,0,0,0,0,0,0,0,0,0,0,0,0,0,0,0,
     0,0,0,0,0,0,0,0,0,0,0,0,0,0,0,0,
     0,0,0,0,0,0,0,0,0,0,0,0,0,0,0,0,
     0,0,0,0,0,0,0,0,0,0,0,0,0,0,0,0,
     0,0,0,0,0,0,0,0,0,0,0,0,0,0,0,0,
     0,0,0,0,0,0,0,0,0,0,0,0,0,0,0,0,
     0,0,0,0,0,0,0,0,0,0,0,0,0,0,0,0,
     0,0,0,0,0,0,0,0,0,0,0,0,0,0,0,0],
    [0,0,0,0,0,0,0,0,0,0,0,0,0,0,0,0,
     0,0,0,0,0,0,0,0,0,0,0,0,0,0,0,0,
     0,1,0,0,1,1,1,1,1,1,1,1,1,1,1,1,
     1,1,1,1,1,1,1,1,1,1,1,1,0,1,0,0,
     1,1,1,1,1,1,1,1,1,1,1,1,1,1,1,1,
     1,1,1,1,1,1,1,1,1,1,1,0,0,0,0,1,
     0,1,1,1,1,1,1,1,1,1,1,1,1,1,1,1,
     1,1,1,1,1,1,1,1,1,1,1,0,0,0,1,0,
     0,0,0,0,0,0,0,0,0,0,0,0,0,0,0,0,
     0,0,0,0,0,0,0,0,0,0,0,0,0,0,0,0,
     0,0,0,0,0,0,0,0,0,0,0,0,0,0,0,0,
     0,0,0,0,0,0,0,0,0,0,0,0,0,0,0,0,
     0,0,0,0,0,0,0,0,0,0,0,0,0,0,0,0,
     0,0,0,0,0,0,0,0,0,0,0,0,0,0,0,0,
     0,0,0,0,0,0,0,0,0,0,0,0,0,0,0,0,
     0,0,0,0,0,0,0,0,0,0,0,0,0,0,0,0],
    [0,0,0,0,0,0,0,0,0,0,0,0,0,0,0,0,
     0,0,0,0,0,0,0,0,0,0,0,0,0,0,0,0,
     0,1,0,0,1,1,1,1,1,1,1,1,1,1,1,1,
     1,1,1,1,1,1,1,1,1,1,1,1,0,1,0,1,
     1,1,1,1,1,1,1,1,1,1,1,1,1,1,1,1,
     1,1,1,1,1,1,1,1,1,1,1,0,0,0,0,1,
     0,1,1,1,1,1,1,1,1,1,1,1,1,1,1,1,
     1,1,1,1,1,1,1,1,1,1,1,0,0,0,1,0,
     0,0,0,0,0,0,0,0,0,0,0,0,0,0,0,0,
     0,0,0,0,0,0,0,0,0,0,0,0,0,0,0,0,
     0,0,0,0,0,0,0,0,0,0,0,0,0,0,0,0,
     0,0,0,0,0,0,0,0,0,0,0,0,0,0,0,0,
     0,0,0,0,0,0,0,0,0,0,0,0,0,0,0,0,
     0,0,0,0,0,0,0,0,0,0,0,0,0,0,0,0,
     0,0,0,0,0,0,0,0,0,0,0,0,0,0,0,0,
     0,0,0,0,0,0,0,0,0,0,0,0,0,0,0,0],
    [0,0,0,0,0,0,0,0,0,0,0,0,0,0,0,0,
     0,0,0,0,0,0,0,0,0,0,0,0,0,0,0,0,
     0,1,0,0,1,1,1,1,1,1,1,1,1,1,1,1,
     1,1,1,1,1,1,1,1,1,1,1,1,0,1,0,1,
     1,1,1,1,1,1,1,1,1,1,1,1,1,1,1,1,
     1,1,1,1,1,1,1,1,1,1,1,0,0,0,0,1,
     0,1,1,1,1,1,1,1,1,1,1,1,1,1,1,1,
     1,1,1,1,1,1,1,1,1,1,1,0,0,0,1,0,
     0,0,0,0,0,0,0,0,0,0,0,0,0,0,0,0,
     0,0,0,0,0,0,0,0,0,0,0,0,0,0,0,0,
     0,0,0,0,0,0,0,0,0,0,0,0,0,0,0,0,
     0,0,0,0,0,0,0,0,0,0,0,0,0,0,0,0,
     0,0,0,0,0,0,0,0,0,0,0,0,0,0,0,0,
     0,0,0,0,0,0,0,0,0,0,0,0,0,0,0,0,
     0,0,0,0,0,0,0,0,0,0,0,0,0,0,0,0,
     0,0,0,0,0,0,0,0,0,0,0,0,0,0,0,0]]"

definition valid_at :: "nat \<Rightarrow> char \<Rightarrow> bool" where
  "valid_at i c \<longleftrightarrow> valid_char ! i ! code c = 1"

definition sep :: string where
  "sep = '':/?#''"

datatype uri_state = URI_STATE_INIT | URI_STATE_SUCCESS | URI_STATE_INVALID | URI_STATE_ERROR

record parsed_uri =
  u_scheme :: "string option"
  u_userinfo :: "string option"
  u_host :: "string option"
  u_port :: "string option"
  u_path :: "string option"
  u_query :: "string option"
  u_fragment :: "string option"
  u_state :: uri_state
  u_error :: "errno option"

definition uri_init :: parsed_uri where
  "uri_init = \<lparr>u_scheme = None, u_userinfo = None, u_host = None, u_port = None, u_path = None,
     u_query = None, u_fragment = None, u_state = URI_STATE_INIT, u_error = None\<rparr>"

definition uri_deinit :: "parsed_uri \<Rightarrow> parsed_uri" where
  "uri_deinit u = u\<lparr>u_scheme := None, u_host := None, u_path := None, u_userinfo := None,
     u_port := None, u_query := None, u_fragment := None\<rparr>"

text \<open>\<^verbatim>\<open>strdup\<close> of component \<open>i\<close>: a null source is not copied, a failure ends the copy.\<close>

definition dup :: "(nat \<Rightarrow> bool) \<Rightarrow> nat \<Rightarrow> string option \<Rightarrow> string option option" where
  "dup fails i f = (case f of None \<Rightarrow> Some None | Some x \<Rightarrow> if fails i then None else Some (Some x))"

definition uri_copy :: "(nat \<Rightarrow> bool) \<Rightarrow> errno \<Rightarrow> parsed_uri \<Rightarrow> parsed_uri" where
  "uri_copy fails err from =
     (let u = uri_init\<lparr>u_state := u_state from, u_error := u_error from\<rparr>
      in if u_state u = URI_STATE_SUCCESS then
           (case do { a \<leftarrow> dup fails 0 (u_scheme from);
                      b \<leftarrow> dup fails 1 (u_userinfo from);
                      c \<leftarrow> dup fails 2 (u_host from);
                      d \<leftarrow> dup fails 3 (u_port from);
                      e \<leftarrow> dup fails 4 (u_path from);
                      f \<leftarrow> dup fails 5 (u_query from);
                      g \<leftarrow> dup fails 6 (u_fragment from);
                      Some (u\<lparr>u_scheme := a, u_userinfo := b, u_host := c, u_port := d, u_path := e,
                              u_query := f, u_fragment := g\<rparr>) } of
              Some u' \<Rightarrow> u'
            | None \<Rightarrow> uri_init\<lparr>u_state := URI_STATE_ERROR, u_error := Some err\<rparr>)
         else u)"

text \<open>The new value of \<^verbatim>\<open>this\<close> and what is left of the object moved from.\<close>

definition uri_move :: "parsed_uri \<Rightarrow> parsed_uri \<times> parsed_uri" where
  "uri_move from = (from, uri_init)"

definition uri_assign_copy :: "(nat \<Rightarrow> bool) \<Rightarrow> errno \<Rightarrow> bool \<Rightarrow> parsed_uri \<Rightarrow> parsed_uri \<Rightarrow> parsed_uri" where
  "uri_assign_copy fails err same this from = (if \<not> same then uri_copy fails err from else this)"

definition uri_assign_move :: "bool \<Rightarrow> parsed_uri \<Rightarrow> parsed_uri \<Rightarrow> parsed_uri \<times> parsed_uri" where
  "uri_assign_move same this from = (if \<not> same then uri_move from else (this, this))"

section \<open>Parsing\<close>

fun scheme_end :: "string \<Rightarrow> nat \<Rightarrow> nat \<times> string" where
  "scheme_end [] cur = (cur, [])"
| "scheme_end (c # cs) cur = (if valid_at 0 c then scheme_end cs (cur + 1) else (cur, c # cs))"

text \<open>The search for the userinfo: the new \<^verbatim>\<open>st[1]\<close>, \<^verbatim>\<open>ed[1]\<close>, \<^verbatim>\<open>cur\<close> and the string at \<^verbatim>\<open>cur\<close>.\<close>

fun find_userinfo :: "string \<Rightarrow> nat \<Rightarrow> nat \<Rightarrow> string \<Rightarrow> nat \<times> nat \<times> nat \<times> string" where
  "find_userinfo [] i cur at = (0, 0, cur, at)"
| "find_userinfo (c # cs) i cur at =
     (if c = CHR ''/'' \<or> c = CHR ''?'' \<or> c = CHR ''#'' then (cur, cur, cur, at)
      else if c = CHR ''@'' then (cur, i, i + 1, cs)
      else find_userinfo cs (i + 1) cur at)"

fun find_bracket :: "string \<Rightarrow> nat \<Rightarrow> nat \<times> string" where
  "find_bracket [] cur = (cur, [])"
| "find_bracket (c # cs) cur = (if c \<noteq> CHR '']'' then find_bracket cs (cur + 1) else (cur, c # cs))"

record scan =
  sc_idx :: nat
  sc_last :: nat
  sc_ipv6 :: bool
  sc_st :: "nat list"
  sc_ed :: "nat list"

definition sep_from :: "nat \<Rightarrow> char \<Rightarrow> nat option" where
  "sep_from idx c = find (\<lambda>i. sep ! i = c) [idx..<4]"

definition close_component :: "nat \<Rightarrow> scan \<Rightarrow> scan" where
  "close_component cur s = s\<lparr>sc_st := (sc_st s)[sc_idx s + 2 := sc_last s], sc_ed := (sc_ed s)[sc_idx s + 2 := cur]\<rparr>"

definition scan_char :: "char \<Rightarrow> nat \<Rightarrow> scan \<Rightarrow> scan" where
  "scan_char c cur s =
     (case sep_from (sc_idx s) c of
        None \<Rightarrow> s
      | Some i \<Rightarrow>
          (if sc_ipv6 s then s\<lparr>sc_ipv6 := False\<rparr> else close_component cur s)
            \<lparr>sc_idx := i + 1, sc_last := (if sep ! i = CHR ''/'' then cur else cur + 1)\<rparr>)"

fun scan_loop :: "string \<Rightarrow> nat \<Rightarrow> scan \<Rightarrow> nat \<times> scan" where
  "scan_loop [] cur s = (cur, s)"
| "scan_loop (c # cs) cur s = scan_loop cs (cur + 1) (scan_char c cur s)"

definition slice :: "string \<Rightarrow> nat \<Rightarrow> nat \<Rightarrow> string" where
  "slice s a b = take (b - a) (drop a s)"

definition uri_set :: "nat \<Rightarrow> string option \<Rightarrow> parsed_uri \<Rightarrow> parsed_uri" where
  "uri_set i v u =
     (if i = 0 then u\<lparr>u_scheme := v\<rparr> else if i = 1 then u\<lparr>u_userinfo := v\<rparr>
      else if i = 2 then u\<lparr>u_host := v\<rparr> else if i = 3 then u\<lparr>u_port := v\<rparr>
      else if i = 4 then u\<lparr>u_path := v\<rparr> else if i = 5 then u\<lparr>u_query := v\<rparr>
      else u\<lparr>u_fragment := v\<rparr>)"

text \<open>A host that starts with an escaped slash (a Unix socket path) is decoded; what a reader sees of the buffer ends at the first \<^verbatim>\<open>NUL\<close>.\<close>

definition component_text :: "nat \<Rightarrow> string \<Rightarrow> string option" where
  "component_text i t =
     (if i = 2 \<and> length t \<ge> 3 \<and> t ! 0 = CHR ''%'' \<and> t ! 1 = CHR ''2'' \<and> (t ! 2 = CHR ''F'' \<or> t ! 2 = CHR ''f'') then
        do { (buf, len) \<leftarrow> url_decode_buf (t @ [NUL]) (length t); Some (takeWhile (\<lambda>c. c \<noteq> NUL) (take len buf)) }
      else Some t)"

fun assign_components ::
  "(nat \<Rightarrow> bool) \<Rightarrow> errno \<Rightarrow> string \<Rightarrow> nat list \<Rightarrow> nat list \<Rightarrow> nat list \<Rightarrow> parsed_uri \<Rightarrow> (int \<times> parsed_uri) option" where
  "assign_components fails err str st ed [] u = Some (0, u\<lparr>u_state := URI_STATE_SUCCESS\<rparr>)"
| "assign_components fails err str st ed (i # is) u =
     (if ed ! i > st ! i then
        if fails i then Some (-1, (uri_set i None u)\<lparr>u_state := URI_STATE_ERROR, u_error := Some err\<rparr>)
        else do { t \<leftarrow> component_text i (slice str (st ! i) (ed ! i));
                  assign_components fails err str st ed is (uri_set i (Some t) u) }
      else assign_components fails err str st ed is (uri_set i None u))"

text \<open>The part of \<^verbatim>\<open>parse\<close> from the main loop on, at \<open>at = str + cur\<close>.\<close>

definition parse_from :: "(nat \<Rightarrow> bool) \<Rightarrow> errno \<Rightarrow> string \<Rightarrow> string \<Rightarrow> nat \<Rightarrow> scan \<Rightarrow> parsed_uri \<Rightarrow> (int \<times> parsed_uri) option" where
  "parse_from fails err str at cur s u =
     (let (cur, s) = scan_loop at cur s;
          s = (if cur > sc_last s \<and> \<not> sc_ipv6 s then close_component cur s else s)
      in if \<forall>i \<in> set [1..<5]. list_all (valid_at i) (slice str (sc_st s ! i) (sc_ed s ! i)) then
           assign_components fails err str (sc_st s) (sc_ed s) [0..<7] u
         else Some (-1, u))"

definition parse :: "(nat \<Rightarrow> bool) \<Rightarrow> errno \<Rightarrow> string \<Rightarrow> parsed_uri \<Rightarrow> (int \<times> parsed_uri) option" where
  "parse fails err str uri =
     (let u = uri\<lparr>u_state := URI_STATE_INVALID\<rparr>
      in case str of
           [] \<Rightarrow> Some (-1, u)
         | c0 # cs \<Rightarrow>
             if \<not> isalpha c0 then Some (-1, u)
             else
               let (cur, at) = scheme_end cs 1; ed = (replicate 7 0)[0 := cur]; st = replicate 7 0
               in if take 3 at = ''://'' then
                    let cur = cur + 3; at = drop 3 at; last = cur;
                        (st1, ed1, cur, at) = find_userinfo at cur cur at;
                        st = st[1 := st1]; ed = ed[1 := ed1]
                    in case at of
                         c # rest \<Rightarrow>
                           if c = CHR ''['' then
                             let st2 = cur + 1; (cur, at) = find_bracket rest (cur + 1)
                             in case at of
                                  [] \<Rightarrow> Some (-1, u)
                                | _ # at' \<Rightarrow>
                                    if at' \<noteq> [] \<and> hd at' \<notin> set sep then Some (-1, u)
                                    else parse_from fails err str at' (cur + 1)
                                      \<lparr>sc_idx = 0, sc_last = last, sc_ipv6 = True, sc_st = st[2 := st2], sc_ed = ed[2 := cur]\<rparr> u
                           else parse_from fails err str at cur
                                  \<lparr>sc_idx = 0, sc_last = cur, sc_ipv6 = False, sc_st = st, sc_ed = ed\<rparr> u
                       | [] \<Rightarrow> parse_from fails err str at cur
                                 \<lparr>sc_idx = 0, sc_last = cur, sc_ipv6 = False, sc_st = st, sc_ed = ed\<rparr> u
                  else Some (-1, u))"

section \<open>Queries and paths\<close>

fun strict_fold :: "string list \<Rightarrow> (string \<Rightarrow> string list option) \<Rightarrow> (string \<Rightarrow> string list option)" where
  "strict_fold [] res = res"
| "strict_fold (ele # arr) res =
     (if ele = [] then strict_fold arr res
      else let kv = split ele (CHR ''=''); key = kv ! 0
           in if key = [] then strict_fold arr res
              else let old = (case res key of None \<Rightarrow> [] | Some vs \<Rightarrow> vs)
                   in if length kv = 1 then strict_fold arr (res(key \<mapsto> old @ [[]]))
                      else let val = kv ! 1
                           in if val = [] then strict_fold arr (res(key \<mapsto> old @ [[]]))
                              else strict_fold arr (res(key \<mapsto> old @ [val])))"

definition split_query_strict :: "string \<Rightarrow> (string \<Rightarrow> string list option)" where
  "split_query_strict query =
     (if query = [] then Map.empty
      else let arr = split query (CHR ''&'') in if arr = [] then Map.empty else strict_fold arr Map.empty)"

fun query_fold :: "string list \<Rightarrow> (string \<Rightarrow> string option) \<Rightarrow> (string \<Rightarrow> string option)" where
  "query_fold [] res = res"
| "query_fold (ele # arr) res =
     (if ele = [] then query_fold arr res
      else let kv = split ele (CHR ''=''); key = kv ! 0
           in if key = [] \<or> res key \<noteq> None then query_fold arr res
              else if length kv = 1 then query_fold arr (res(key \<mapsto> []))
              else let val = kv ! 1
                   in if val = [] then query_fold arr (res(key \<mapsto> []))
                      else query_fold arr (res(key \<mapsto> val)))"

definition split_query :: "string \<Rightarrow> (string \<Rightarrow> string option)" where
  "split_query query =
     (if query = [] then Map.empty
      else let arr = split query (CHR ''&'') in if arr = [] then Map.empty else query_fold arr Map.empty)"

definition split_path :: "string \<Rightarrow> string list" where
  "split_path path = split_filter_empty path (CHR ''/'')"

section \<open>The main loop on the text\<close>

text \<open>
  What the loop collects, without indices: \<open>P\<close> is the text since \<^verbatim>\<open>last\<close> and \<open>F i\<close> the text of component \<open>i\<close>.
\<close>

fun scan_text :: "string \<Rightarrow> nat \<Rightarrow> bool \<Rightarrow> string \<Rightarrow> (nat \<Rightarrow> string) \<Rightarrow> (nat \<Rightarrow> string)" where
  "scan_text [] idx v6 P F = (if P \<noteq> [] \<and> \<not> v6 then F(idx + 2 := P) else F)"
| "scan_text (c # cs) idx v6 P F =
     (case sep_from idx c of
        None \<Rightarrow> scan_text cs idx v6 (P @ [c]) F
      | Some i \<Rightarrow> scan_text cs (i + 1) False (if i = 1 then [c] else []) (if v6 then F else F(idx + 2 := P)))"

definition texts :: "string \<Rightarrow> nat list \<Rightarrow> nat list \<Rightarrow> (nat \<Rightarrow> string) \<Rightarrow> bool" where
  "texts str st ed F \<longleftrightarrow> length st = 7 \<and> length ed = 7 \<and> (\<forall>i < 7. ed ! i \<le> length str \<and> slice str (st ! i) (ed ! i) = F i)"

lemma find_Some_mem: "find P xs = Some x \<Longrightarrow> x \<in> set xs \<and> P x"
  by (induction xs) (auto split: if_splits)

lemma sep_from_less: "sep_from idx c = Some i \<Longrightarrow> idx \<le> i \<and> i < 4 \<and> sep ! i = c"
  by (auto simp: sep_from_def dest: find_Some_mem)

lemma sep_nth: "i < 4 \<Longrightarrow> (sep ! i = CHR ''/'') = (i = 1)"
  by (auto simp: sep_def less_Suc_eq numeral_eq_Suc nth_Cons split: nat.splits)

lemma slice_snoc: "lst \<le> cur \<Longrightarrow> drop cur str = c # cs \<Longrightarrow> slice str lst (Suc cur) = slice str lst cur @ [c]"
proof -
  assume a: "lst \<le> cur" "drop cur str = c # cs"
  then have l: "cur < length str" "str ! cur = c" by (metis drop_eq_Nil list.distinct(1) not_le) (metis a(2) nth_via_drop)
  have "take (Suc (cur - lst)) (drop lst str) = take (cur - lst) (drop lst str) @ [drop lst str ! (cur - lst)]"
    using a l by (intro take_Suc_conv_app_nth) simp
  with a l show ?thesis by (simp add: slice_def Suc_diff_le)
qed

lemma slice_empty [simp]: "slice str a a = []"
  by (simp add: slice_def)

lemma slice_ne: "lst \<le> cur \<Longrightarrow> cur \<le> length str \<Longrightarrow> slice str lst cur = [] \<longleftrightarrow> \<not> lst < cur"
  by (auto simp: slice_def)

lemma texts_close:
  assumes "texts str st ed F" "k < 7" "slice str a b = P" "b \<le> length str"
  shows "texts str (st[k := a]) (ed[k := b]) (F(k := P))"
  using assms by (auto simp: texts_def nth_list_update)

text \<open>The loop with the two arrays computes what \<open>scan_text\<close> says; it indexes neither beyond 6.\<close>

lemma scan_loop_text:
  assumes "drop cur str = cs" "cur \<le> length str" "sc_last s \<le> cur" "sc_idx s \<le> 4" "texts str (sc_st s) (sc_ed s) F"
  shows "\<exists>s'. scan_loop cs cur s = (length str, s') \<and>
     (let s'' = (if length str > sc_last s' \<and> \<not> sc_ipv6 s' then close_component (length str) s' else s')
      in texts str (sc_st s'') (sc_ed s'') (scan_text cs (sc_idx s) (sc_ipv6 s) (slice str (sc_last s) cur) F))"
  using assms
proof (induction cs arbitrary: cur s F)
  case Nil
  then have cur: "cur = length str" by simp
  have "texts str ((sc_st s)[sc_idx s + 2 := sc_last s]) ((sc_ed s)[sc_idx s + 2 := length str]) (F(sc_idx s + 2 := slice str (sc_last s) (length str)))"
    using Nil by (intro texts_close) auto
  then show ?case using Nil cur slice_ne [of "sc_last s" cur str] by (auto simp: close_component_def)
next
  case (Cons c cs)
  have d: "drop (Suc cur) str = cs" "Suc cur \<le> length str"
    using Cons.prems(1) by (metis drop_Suc tl_drop list.sel(3), metis drop_eq_Nil list.distinct(1) not_less_eq_eq)
  show ?case
  proof (cases "sep_from (sc_idx s) c")
    case None
    then have "scan_char c cur s = s" by (simp add: scan_char_def)
    with Cons.IH [OF d, of s F] Cons.prems None slice_snoc [OF Cons.prems(3,1)] show ?thesis by simp
  next
    case (Some i)
    then have i: "sc_idx s \<le> i" "i < 4" "sep ! i = c" using sep_from_less by blast+
    have ch: "c = CHR ''/'' \<longleftrightarrow> i = 1" using sep_nth [OF i(2)] i(3) by simp
    have lt: "slice str cur (Suc cur) = [c]" using slice_snoc [OF le_refl Cons.prems(1)] by simp
    let ?s = "scan_char c cur s"
    have s: "sc_idx ?s = Suc i" "sc_ipv6 ?s = False" "sc_last ?s = (if i = 1 then cur else Suc cur)"
      "texts str (sc_st ?s) (sc_ed ?s) (if sc_ipv6 s then F else F(sc_idx s + 2 := slice str (sc_last s) cur))"
      using Some i ch Cons.prems texts_close [OF Cons.prems(5), of "sc_idx s + 2"]
      by (auto simp: scan_char_def close_component_def)
    have "sc_last ?s \<le> Suc cur" "sc_idx ?s \<le> 4" using s i by auto
    from Cons.IH [OF d this s(4)] s(1-3) Some lt show ?thesis by (cases "i = 1") simp_all
  qed
qed

text \<open>Separator-free text extends the pending component.\<close>

lemma scan_text_body:
  "(\<And>c. c \<in> set xs \<Longrightarrow> sep_from idx c = None) \<Longrightarrow> scan_text (xs @ cs) idx v6 P F = scan_text cs idx v6 (P @ xs) F"
  by (induction xs arbitrary: P) auto

lemma sep_from_eq:
  "sep_from 0 c = (if c = CHR '':'' then Some 0 else if c = CHR ''/'' then Some 1 else if c = CHR ''?'' then Some 2 else if c = CHR ''#'' then Some 3 else None)"
  "sep_from (Suc 0) c = (if c = CHR ''/'' then Some 1 else if c = CHR ''?'' then Some 2 else if c = CHR ''#'' then Some 3 else None)"
  "sep_from 2 c = (if c = CHR ''?'' then Some 2 else if c = CHR ''#'' then Some 3 else None)"
  "sep_from 3 c = (if c = CHR ''#'' then Some 3 else None)"
  "sep_from 4 c = None"
  by (auto simp: sep_from_def sep_def upt_rec numeral_eq_Suc)

section \<open>The tables\<close>

definition uri_rule :: "nat \<Rightarrow> nat \<Rightarrow> bool" where
  "uri_rule i n \<longleftrightarrow>
     (let alnum = (48 \<le> n \<and> n \<le> 57 \<or> 65 \<le> n \<and> n \<le> 90 \<or> 97 \<le> n \<and> n \<le> 122);
          unreserved = (alnum \<or> n = 45 \<or> n = 46 \<or> n = 95 \<or> n = 126);
          sub_delims = (n = 33 \<or> n = 36 \<or> 38 \<le> n \<and> n \<le> 44 \<or> n = 59 \<or> n = 61);
          pchar = (unreserved \<or> sub_delims \<or> n = 37 \<or> n = 58 \<or> n = 64)
      in if i = 0 then alnum \<or> n = 43 \<or> n = 45 \<or> n = 46
         else if i \<le> 2 then unreserved \<or> sub_delims \<or> n = 37 \<or> n = 58
         else if i = 3 then 48 \<le> n \<and> n \<le> 57
         else if i = 4 then pchar \<or> n = 47
         else pchar \<or> n = 47 \<or> n = 63)"

definition row_ok :: "nat \<Rightarrow> bool" where
  "row_ok i \<longleftrightarrow> list_all2 (\<lambda>n v. (v = 1) = uri_rule i n) [0..<256] (valid_char ! i)"

lemma row_0_ok: "row_ok 0"
  by code_simp

lemma row_1_ok: "row_ok 1"
  by code_simp

lemma row_2_ok: "row_ok 2"
  by code_simp

lemma row_3_ok: "row_ok 3"
  by code_simp

lemma row_4_ok: "row_ok 4"
  by code_simp

lemma row_5_ok: "row_ok 5"
  by code_simp

lemma row_6_ok: "row_ok 6"
  by code_simp

lemmas rows_ok = row_0_ok row_1_ok row_2_ok row_3_ok row_4_ok row_5_ok row_6_ok

lemma valid_at_rule: "i < 7 \<Longrightarrow> valid_at i c \<longleftrightarrow> uri_rule i (code c)"
proof -
  assume "i < 7"
  then have "i \<in> {0, 1, 2, 3, 4, 5, 6}" by auto
  then have "row_ok i" using rows_ok by auto
  moreover have "code c < 256" by simp
  ultimately show ?thesis by (simp add: row_ok_def valid_at_def list_all2_conv_all_nth)
qed

lemma valid_at_not:
  "valid_at 0 c \<Longrightarrow> c \<noteq> CHR '':''"
  "valid_at 1 c \<Longrightarrow> c \<notin> {CHR ''/'', CHR ''?'', CHR ''#'', CHR ''@''}"
  "valid_at 2 c \<Longrightarrow> c \<notin> {CHR ''/'', CHR ''?'', CHR ''#'', CHR ''@'', CHR ''['', CHR '']''}"
  "valid_at 3 c \<Longrightarrow> c \<notin> {CHR ''/'', CHR ''?'', CHR ''#'', CHR ''@'', CHR '':''}"
  "valid_at 4 c \<Longrightarrow> c \<notin> {CHR ''?'', CHR ''#''}"
  by (auto simp: valid_at_rule uri_rule_def)

section \<open>Assigning the components\<close>

definition decoded_host :: "string \<Rightarrow> bool" where
  "decoded_host t \<longleftrightarrow> length t \<ge> 3 \<and> t ! 0 = CHR ''%'' \<and> t ! 1 = CHR ''2'' \<and> (t ! 2 = CHR ''F'' \<or> t ! 2 = CHR ''f'')"

definition ctext :: "nat \<Rightarrow> string \<Rightarrow> string" where
  "ctext i t = (if i = 2 \<and> decoded_host t then takeWhile (\<lambda>c. c \<noteq> NUL) (url_decoded t) else t)"

lemma component_text_ok: "component_text i t = Some (ctext i t)"
proof -
  obtain r where "url_decode_buf (t @ [NUL]) (length t) = Some (url_decoded t @ NUL # r, length (url_decoded t))"
    using url_decode_buf_ok [of t "[]"] by auto
  then show ?thesis unfolding component_text_def ctext_def decoded_host_def
    by (cases "i = 2 \<and> 3 \<le> length t \<and> t ! 0 = CHR ''%'' \<and> t ! 1 = CHR ''2'' \<and> (t ! 2 = CHR ''F'' \<or> t ! 2 = CHR ''f'')")
      (simp_all only: if_True if_False, simp_all)
qed

definition field :: "(nat \<Rightarrow> string) \<Rightarrow> nat \<Rightarrow> string option" where
  "field F i = (if F i = [] then None else Some (ctext i (F i)))"

definition uri_of :: "(nat \<Rightarrow> string) \<Rightarrow> parsed_uri \<Rightarrow> parsed_uri" where
  "uri_of F u = u\<lparr>u_scheme := field F 0, u_userinfo := field F 1, u_host := field F 2, u_port := field F 3,
     u_path := field F 4, u_query := field F 5, u_fragment := field F 6, u_state := URI_STATE_SUCCESS\<rparr>"

lemma slice_range: "b \<le> length s \<Longrightarrow> a < b \<longleftrightarrow> slice s a b \<noteq> []"
  by (auto simp: slice_def)

lemma assign_step:
  assumes "texts str st ed F" "i < 7"
  shows "assign_components (\<lambda>i. False) err str st ed (i # is) u = assign_components (\<lambda>i. False) err str st ed is (uri_set i (field F i) u)"
  using assms slice_range [of "ed ! i" str "st ! i"] by (simp add: texts_def field_def component_text_ok)

lemma assign_ok:
  assumes "texts str st ed F"
  shows "assign_components (\<lambda>i. False) err str st ed [0..<7] u = Some (0, uri_of F u)"
proof -
  have "[0..<7] = [0, 1, 2, 3, 4, 5, 6 :: nat]" by (simp add: upt_rec)
  then show ?thesis by (simp add: assign_step [OF assms] uri_of_def uri_set_def del: assign_components.simps(2))
qed

lemma parse_from_text:
  assumes "drop cur str = at" "cur \<le> length str" "sc_last s \<le> cur" "sc_idx s = 0" "texts str (sc_st s) (sc_ed s) F0"
  defines "F \<equiv> scan_text at 0 (sc_ipv6 s) (slice str (sc_last s) cur) F0"
  shows "parse_from (\<lambda>i. False) err str at cur s u =
     (if \<forall>i \<in> set [1..<5]. list_all (valid_at i) (F i) then Some (0, uri_of F u) else Some (-1, u))"
proof -
  obtain s' where s': "scan_loop at cur s = (length str, s')"
    and t: "let s'' = (if length str > sc_last s' \<and> \<not> sc_ipv6 s' then close_component (length str) s' else s')
      in texts str (sc_st s'') (sc_ed s'') F"
    using scan_loop_text [OF assms(1-3) _ assms(5)] assms(4) unfolding F_def by auto
  define s2 where "s2 = (if length str > sc_last s' \<and> \<not> sc_ipv6 s' then close_component (length str) s' else s')"
  have t2: "texts str (sc_st s2) (sc_ed s2) F" using t unfolding s2_def Let_def .
  then have "slice str (sc_st s2 ! i) (sc_ed s2 ! i) = F i" if "i \<in> set [1..<5]" for i
    using that by (simp add: texts_def)
  then have "(\<forall>i \<in> set [1..<5]. list_all (valid_at i) (slice str (sc_st s2 ! i) (sc_ed s2 ! i))) =
      (\<forall>i \<in> set [1..<5]. list_all (valid_at i) (F i))" by (intro ball_cong) simp_all
  then show ?thesis
    using assign_ok [OF t2, of err u] unfolding parse_from_def s' Let_def split s2_def [symmetric] by simp
qed

end
