(* ===== verification/Uri_Theorems.thy ===== *)
theory Uri_Theorems
  imports Uri_Parser
begin

text \<open>
  What the URI parser guarantees: it inverts a printer of well-formed URIs, it answers on every string, what it accepts has the
  shape it reports, and queries are split as their pairs were joined. Copies and moves of a parsed URI are at the end.
\<close>

section \<open>Printing and parsing back\<close>

record uri_parts =
  p_scheme :: string
  p_userinfo :: "string option"
  p_ipv6 :: bool
  p_host :: string
  p_port :: "string option"
  p_path :: string
  p_query :: "string option"
  p_fragment :: "string option"

definition opt_text :: "string option \<Rightarrow> string" where
  "opt_text o' = (case o' of None \<Rightarrow> [] | Some t \<Rightarrow> t)"

definition after :: "char \<Rightarrow> string option \<Rightarrow> string" where
  "after c o' = (case o' of None \<Rightarrow> [] | Some t \<Rightarrow> c # t)"

definition print_tail :: "uri_parts \<Rightarrow> string" where
  "print_tail p = after (CHR '':'') (p_port p) @ p_path p @ after (CHR ''?'') (p_query p) @ after (CHR ''#'') (p_fragment p)"

definition print_host :: "uri_parts \<Rightarrow> string" where
  "print_host p = (if p_ipv6 p then CHR ''['' # p_host p @ [CHR '']''] else p_host p)"

definition print_uri :: "uri_parts \<Rightarrow> string" where
  "print_uri p = p_scheme p @ ''://'' @ (case p_userinfo p of None \<Rightarrow> [] | Some u \<Rightarrow> u @ [CHR ''@'']) @ print_host p @ print_tail p"

definition parts_ok :: "uri_parts \<Rightarrow> bool" where
  "parts_ok p \<longleftrightarrow>
     p_scheme p \<noteq> [] \<and> isalpha (hd (p_scheme p)) \<and> list_all (valid_at 0) (tl (p_scheme p)) \<and>
     p_userinfo p \<noteq> Some [] \<and> list_all (valid_at 1) (opt_text (p_userinfo p)) \<and>
     p_host p \<noteq> [] \<and> list_all (valid_at 2) (p_host p) \<and> (p_ipv6 p \<or> CHR '':'' \<notin> set (p_host p)) \<and> \<not> decoded_host (p_host p) \<and>
     p_port p \<noteq> Some [] \<and> list_all (valid_at 3) (opt_text (p_port p)) \<and>
     (p_path p = [] \<or> hd (p_path p) = CHR ''/'') \<and> list_all (valid_at 4) (p_path p) \<and>
     p_query p \<noteq> Some [] \<and> CHR ''#'' \<notin> set (opt_text (p_query p)) \<and> p_fragment p \<noteq> Some []"

definition parts_uri :: "uri_parts \<Rightarrow> parsed_uri \<Rightarrow> parsed_uri" where
  "parts_uri p u = u\<lparr>u_scheme := Some (p_scheme p), u_userinfo := p_userinfo p, u_host := Some (p_host p),
     u_port := p_port p, u_path := (if p_path p = [] then None else Some (p_path p)),
     u_query := p_query p, u_fragment := p_fragment p, u_state := URI_STATE_SUCCESS\<rparr>"

definition parts_text :: "uri_parts \<Rightarrow> nat \<Rightarrow> string" where
  "parts_text p i = (if i = 0 then p_scheme p else if i = 1 then opt_text (p_userinfo p) else if i = 2 then p_host p
     else if i = 3 then opt_text (p_port p) else if i = 4 then p_path p else if i = 5 then opt_text (p_query p)
     else if i = 6 then opt_text (p_fragment p) else [])"

lemma scan_fragment:
  assumes "idx < 4" "v6 \<or> F (idx + 2) = []" "F 6 = []" "idx + 2 \<noteq> 6"
  shows "scan_text (after (CHR ''#'') f) idx v6 P F =
     (if v6 then F else F(idx + 2 := P))(6 := opt_text f)"
proof -
  have i: "idx = 0 \<or> idx = Suc 0 \<or> idx = 2 \<or> idx = 3" using assms(1) by auto
  show ?thesis
  proof (cases f)
    case None
    then show ?thesis using assms by (auto simp: after_def opt_text_def fun_eq_iff)
  next
    case (Some t)
    have "scan_text (t @ []) 4 False [] G = scan_text [] 4 False ([] @ t) G" for G
      by (rule scan_text_body) (simp add: sep_from_eq)
    then have "scan_text t 4 False [] G = (if t = [] then G else G(6 := t))" for G by simp
    with Some i assms show ?thesis by (auto simp: after_def opt_text_def sep_from_eq fun_eq_iff)
  qed
qed

lemma scan_query:
  assumes "idx < 3" "v6 \<or> F (idx + 2) = []" "F 5 = []" "F 6 = []" "CHR ''#'' \<notin> set (opt_text q)"
  shows "scan_text (after (CHR ''?'') q @ after (CHR ''#'') f) idx v6 P F =
     (if v6 then F else F(idx + 2 := P))(5 := opt_text q, 6 := opt_text f)"
proof -
  have i: "idx = 0 \<or> idx = Suc 0 \<or> idx = 2" using assms(1) by auto
  show ?thesis
  proof (cases q)
    case None
    then show ?thesis using scan_fragment [of idx v6 F f P] assms by (auto simp: after_def opt_text_def fun_eq_iff)
  next
    case (Some t)
    have "scan_text (t @ after (CHR ''#'') f) 3 False [] G = scan_text (after (CHR ''#'') f) 3 False ([] @ t) G" for G
      using assms(5) Some by (intro scan_text_body) (auto simp: sep_from_eq opt_text_def)
    moreover have "scan_text (after (CHR ''#'') f) 3 False t G = (G(5 := t))(6 := opt_text f)" if "G 5 = []" "G 6 = []" for G
      using scan_fragment [of 3 False G f t] that by simp
    ultimately show ?thesis using Some i assms by (auto simp: after_def [of "CHR ''?''"] opt_text_def sep_from_eq)
  qed
qed

lemma scan_path:
  assumes "idx < 2" "v6 \<or> F (idx + 2) = []" "F 4 = []" "F 5 = []" "F 6 = []" "CHR ''#'' \<notin> set (opt_text q)"
    "path = [] \<or> hd path = CHR ''/''" "list_all (valid_at 4) path"
  shows "scan_text (path @ after (CHR ''?'') q @ after (CHR ''#'') f) idx v6 P F =
     (if v6 then F else F(idx + 2 := P))(4 := path, 5 := opt_text q, 6 := opt_text f)"
proof -
  have i: "idx = 0 \<or> idx = Suc 0" using assms(1) by auto
  show ?thesis
  proof (cases path)
    case Nil
    then show ?thesis using scan_query [of idx v6 F q f P] assms by (auto simp: fun_eq_iff)
  next
    case (Cons c t)
    then have c: "c = CHR ''/''" using assms(7) by simp
    let ?rest = "after (CHR ''?'') q @ after (CHR ''#'') f"
    have "sep_from 2 x = None" if "x \<in> set t" for x
      using assms(8) Cons that valid_at_not(5) [of x] by (auto simp: sep_from_eq list_all_iff)
    then have "scan_text (t @ ?rest) 2 False [c] G = scan_text ?rest 2 False ([c] @ t) G" for G
      by (intro scan_text_body)
    moreover have "scan_text ?rest 2 False path G = G(4 := path, 5 := opt_text q, 6 := opt_text f)" if "G 4 = []" "G 5 = []" "G 6 = []" for G
      using scan_query [of 2 False G q f path] that assms(6) by simp
    ultimately show ?thesis using Cons c i assms by (auto simp: sep_from_eq simp flip: numeral_2_eq_2)
  qed
qed

lemma scan_tail:
  assumes "parts_ok p" "F 2 = [] \<or> v6" "F 3 = []" "F 4 = []" "F 5 = []" "F 6 = []"
  shows "scan_text (print_tail p) 0 v6 P F =
     (if v6 then F else F(2 := P))(3 := opt_text (p_port p), 4 := p_path p, 5 := opt_text (p_query p), 6 := opt_text (p_fragment p))"
proof -
  let ?rest = "p_path p @ after (CHR ''?'') (p_query p) @ after (CHR ''#'') (p_fragment p)"
  have ok: "CHR ''#'' \<notin> set (opt_text (p_query p))" "p_path p = [] \<or> hd (p_path p) = CHR ''/''" "list_all (valid_at 4) (p_path p)"
    "list_all (valid_at 3) (opt_text (p_port p))" using assms(1) by (auto simp: parts_ok_def)
  show ?thesis
  proof (cases "p_port p")
    case None
    have z: "0 < (2 :: nat)" by simp
    have "scan_text ?rest 0 v6 P F = (if v6 then F else F(2 := P))(4 := p_path p, 5 := opt_text (p_query p), 6 := opt_text (p_fragment p))"
      using scan_path [of 0 v6 F "p_query p" "p_path p" "p_fragment p" P, unfolded add_0, OF z] ok assms(2-6) by blast
    moreover have "print_tail p = ?rest" "opt_text (p_port p) = []" using None by (simp_all add: print_tail_def after_def opt_text_def)
    ultimately show ?thesis using assms(3) by (auto simp: fun_eq_iff)
  next
    case (Some t)
    have "sep_from (Suc 0) x = None" if "x \<in> set t" for x
      using ok(4) Some that valid_at_not(4) [of x] by (auto simp: sep_from_eq list_all_iff opt_text_def)
    then have "scan_text (t @ ?rest) (Suc 0) False [] G = scan_text ?rest (Suc 0) False ([] @ t) G" for G
      by (intro scan_text_body)
    moreover have "scan_text ?rest (Suc 0) False t G = G(3 := t, 4 := p_path p, 5 := opt_text (p_query p), 6 := opt_text (p_fragment p))"
      if "G 3 = []" "G 4 = []" "G 5 = []" "G 6 = []" for G
      using scan_path [of "Suc 0" False G "p_query p" "p_path p" "p_fragment p" t] that ok by (simp add: numeral_3_eq_3)
    ultimately show ?thesis using Some assms
      by (auto simp: print_tail_def after_def [of "CHR '':''"] opt_text_def [of "Some t"] sep_from_eq)
  qed
qed

lemma scheme_end_ok:
  "list_all (valid_at 0) cs \<Longrightarrow> rest = [] \<or> \<not> valid_at 0 (hd rest) \<Longrightarrow> scheme_end (cs @ rest) n = (n + length cs, rest)"
  by (induction cs arbitrary: n) (cases rest; auto)+

lemma find_userinfo_some:
  "list_all (valid_at 1) u \<Longrightarrow> find_userinfo (u @ CHR ''@'' # rest) i cur at = (cur, i + length u, Suc (i + length u), rest)"
proof (induction u arbitrary: i)
  case (Cons c u)
  then show ?case using valid_at_not(2) [of c] by auto
qed simp

lemma find_userinfo_none:
  assumes "CHR ''@'' \<notin> set xs" "zs = [] \<or> hd zs \<in> set ''/?#''"
  shows "\<exists>a b. find_userinfo (xs @ zs) i cur at = (a, b, cur, at) \<and> b \<le> a \<and> b \<le> cur"
  using assms
proof (induction xs arbitrary: i)
  case Nil
  then show ?case by (cases zs) auto
qed auto

lemma find_bracket_ok: "CHR '']'' \<notin> set h \<Longrightarrow> find_bracket (h @ CHR '']'' # rest) n = (n + length h, CHR '']'' # rest)"
  by (induction h arbitrary: n) auto

text \<open>What follows the host begins with a separator, or is empty.\<close>

lemma tail_hd: "parts_ok p \<Longrightarrow> print_tail p = [] \<or> hd (print_tail p) \<in> set sep"
  by (cases "p_port p"; cases "p_path p"; cases "p_query p"; cases "p_fragment p")
    (auto simp: parts_ok_def print_tail_def after_def sep_def)

lemma tail_no_at:
  assumes "parts_ok p"
  shows "\<exists>xs zs. print_tail p = xs @ zs \<and> CHR ''@'' \<notin> set xs \<and> (zs = [] \<or> hd zs \<in> set ''/?#'')"
proof -
  let ?zs = "p_path p @ after (CHR ''?'') (p_query p) @ after (CHR ''#'') (p_fragment p)"
  have "CHR ''@'' \<notin> set (after (CHR '':'') (p_port p))"
    using assms valid_at_not(4) [of "CHR ''@''"] by (cases "p_port p") (auto simp: after_def parts_ok_def opt_text_def list_all_iff)
  moreover have "?zs = [] \<or> hd ?zs \<in> set ''/?#''"
    using assms by (cases "p_path p"; cases "p_query p"; cases "p_fragment p") (auto simp: parts_ok_def after_def)
  moreover have "print_tail p = after (CHR '':'') (p_port p) @ ?zs" by (simp add: print_tail_def)
  ultimately show ?thesis by blast
qed

lemma host_no_at: "parts_ok p \<Longrightarrow> CHR ''@'' \<notin> set (print_host p) \<and> (\<not> p_ipv6 p \<longrightarrow> hd (p_host p) \<noteq> CHR ''['')"
  using valid_at_not(3) [of "CHR ''@''"] valid_at_not(3) [of "CHR ''[''"]
  by (cases "p_host p") (auto simp: parts_ok_def print_host_def list_all_iff)

lemma parts_texts_ok:
  assumes "parts_ok p" "\<And>i. i < 7 \<Longrightarrow> F i = parts_text p i"
  shows "(\<forall>i \<in> set [1..<5]. list_all (valid_at i) (F i)) \<and> uri_of F u = parts_uri p u"
proof
  have "set [1..<5] = {1, 2, 3, 4 :: nat}" by auto
  then show "\<forall>i \<in> set [1..<5]. list_all (valid_at i) (F i)" using assms by (auto simp: parts_ok_def parts_text_def)
  show "uri_of F u = parts_uri p u"
    using assms by (cases "p_userinfo p"; cases "p_port p"; cases "p_query p"; cases "p_fragment p")
      (auto simp: uri_of_def parts_uri_def field_def parts_text_def ctext_def opt_text_def parts_ok_def)
qed

lemma drop_slice: "drop a str = x @ y \<Longrightarrow> slice str a (a + length x) = x"
  by (simp add: slice_def)

lemma drop_more: "drop a str = x @ y \<Longrightarrow> drop (a + length x) str = y"
  by (metis add.commute append_eq_conv_conj drop_drop)

lemma drop_bound: "drop a str = x @ y \<Longrightarrow> x \<noteq> [] \<Longrightarrow> a + length x \<le> length str"
  by (drule arg_cong [where f = length]) (cases x; auto)

lemma userinfo_part:
  assumes "parts_ok p" "drop n str = (case p_userinfo p of None \<Rightarrow> [] | Some u \<Rightarrow> u @ [CHR ''@'']) @ print_host p @ print_tail p" "n \<le> length str"
  shows "\<exists>a b cur. find_userinfo (drop n str) n n (drop n str) = (a, b, cur, print_host p @ print_tail p) \<and>
     drop cur str = print_host p @ print_tail p \<and> cur \<le> length str \<and> n \<le> cur \<and> slice str a b = opt_text (p_userinfo p) \<and> b \<le> length str"
proof (cases "p_userinfo p")
  case None
  obtain xs zs where t: "print_tail p = xs @ zs" "CHR ''@'' \<notin> set xs" "zs = [] \<or> hd zs \<in> set ''/?#''"
    using tail_no_at [OF assms(1)] by blast
  have "\<exists>a b. find_userinfo ((print_host p @ xs) @ zs) n n (drop n str) = (a, b, n, drop n str) \<and> b \<le> a \<and> b \<le> n"
    using host_no_at [OF assms(1)] t by (intro find_userinfo_none) auto
  with assms(2,3) None t(1) show ?thesis by (fastforce simp: slice_def opt_text_def)
next
  case (Some u)
  have d: "drop n str = u @ CHR ''@'' # print_host p @ print_tail p" using assms(2) Some by simp
  have "list_all (valid_at 1) u" using assms(1) Some by (simp add: parts_ok_def opt_text_def)
  then have "find_userinfo (drop n str) n n (drop n str) = (n, n + length u, Suc (n + length u), print_host p @ print_tail p)"
    unfolding d by (rule find_userinfo_some)
  moreover have "drop (n + length (u @ [CHR ''@''])) str = print_host p @ print_tail p"
    by (rule drop_more) (simp add: d)
  moreover have "n + length (u @ [CHR ''@'']) \<le> length str" by (rule drop_bound [where y = "print_host p @ print_tail p"]) (simp_all add: d)
  moreover have "slice str n (n + length u) = u" using d by (rule drop_slice)
  ultimately show ?thesis using Some by (simp add: opt_text_def)
qed

lemma parse_print:
  assumes "parts_ok p"
  shows "parse (\<lambda>i. False) err (print_uri p) u = Some (0, parts_uri p u)"
proof -
  define str where "str = print_uri p"
  define n where "n = length (p_scheme p)"
  let ?R = "(case p_userinfo p of None \<Rightarrow> [] | Some u \<Rightarrow> u @ [CHR ''@'']) @ print_host p @ print_tail p"
  let ?u = "u\<lparr>u_state := URI_STATE_INVALID\<rparr>"
  obtain c cs where sc: "p_scheme p = c # cs" "isalpha c" "list_all (valid_at 0) cs"
    using assms by (cases "p_scheme p") (auto simp: parts_ok_def)
  have str: "str = c # cs @ ''://'' @ ?R" by (simp add: str_def print_uri_def sc)
  have se: "scheme_end (cs @ ''://'' @ ?R) 1 = (n, ''://'' @ ?R)"
    using scheme_end_ok [OF sc(3), of "''://'' @ ?R" 1] valid_at_not(1) [of "CHR '':''"] by (auto simp: n_def sc)
  have dn: "drop (n + 3) str = ?R" by (simp add: str n_def sc numeral_3_eq_3)
  have ln: "n + 3 \<le> length str" by (simp add: str n_def sc)
  obtain a b cur where ui: "find_userinfo ?R (n + 3) (n + 3) ?R = (a, b, cur, print_host p @ print_tail p)"
    "drop cur str = print_host p @ print_tail p" "cur \<le> length str" "n + 3 \<le> cur" "slice str a b = opt_text (p_userinfo p)" "b \<le> length str"
    using userinfo_part [OF assms dn ln] dn by auto
  let ?st = "(replicate 7 0)[1 := a]" and ?ed = "(replicate 7 0)[0 := n, 1 := b]"
  let ?F = "(\<lambda>i. [])(0 := p_scheme p, 1 := opt_text (p_userinfo p))"
  have sl: "slice str 0 n = p_scheme p" by (simp add: slice_def str n_def sc)
  have "texts str (replicate 7 0) (replicate 7 0) (\<lambda>i. [])" by (simp add: texts_def)
  then have "texts str ((replicate 7 0)[0 := 0]) ((replicate 7 0)[0 := n]) ((\<lambda>i. [])(0 := p_scheme p))"
    using sl ln by (intro texts_close) auto
  moreover have "(replicate 7 0)[0 := 0] = replicate 7 (0 :: nat)" by (simp add: numeral_eq_Suc)
  ultimately have "texts str (replicate 7 0) ((replicate 7 0)[0 := n]) ((\<lambda>i. [])(0 := p_scheme p))" by simp
  then have T: "texts str ?st ?ed ?F"
    using ui texts_close [of str "replicate 7 0" "(replicate 7 0)[0 := n]" "(\<lambda>i. [])(0 := p_scheme p)" 1 a b] by simp
  show ?thesis
  proof (cases "p_ipv6 p")
    case False
    have h: "p_host p \<noteq> []" "hd (p_host p) \<noteq> CHR ''[''" using assms host_no_at [OF assms] False by (auto simp: parts_ok_def)
    have at: "print_host p @ print_tail p = p_host p @ print_tail p" using False by (simp add: print_host_def)
    let ?s = "\<lparr>sc_idx = 0, sc_last = cur, sc_ipv6 = False, sc_st = ?st, sc_ed = ?ed\<rparr>"
    have "parse (\<lambda>i. False) err str u = parse_from (\<lambda>i. False) err str (p_host p @ print_tail p) cur ?s ?u"
      using sc(2) se ui(1) h at unfolding str
      by (cases "p_host p") (simp_all add: parse_def Let_def numeral_3_eq_3)
    also have "\<dots> = Some (0, parts_uri p ?u)"
    proof -
      have "sep_from 0 x = None" if "x \<in> set (p_host p)" for x
        using assms False that valid_at_not(3) [of x] by (auto simp: parts_ok_def sep_from_eq list_all_iff)
      then have "scan_text (p_host p @ print_tail p) 0 False [] ?F = scan_text (print_tail p) 0 False ([] @ p_host p) ?F"
        by (rule scan_text_body)
      then have "scan_text (p_host p @ print_tail p) 0 False [] ?F i = parts_text p i" if "i < 7" for i
        using scan_tail [OF assms, of ?F False "p_host p"] that by (auto simp: parts_text_def)
      from parts_texts_ok [OF assms this] parse_from_text [of cur str "p_host p @ print_tail p" ?s ?F err ?u] ui(2,3) T at
      show ?thesis by simp
    qed
    finally show ?thesis by (simp add: str_def parts_uri_def)
  next
    case True
    let ?m = "cur + 1 + length (p_host p)"
    let ?s = "\<lparr>sc_idx = 0, sc_last = n + 3, sc_ipv6 = True, sc_st = ?st[2 := cur + 1], sc_ed = ?ed[2 := ?m]\<rparr>"
    have at: "print_host p @ print_tail p = CHR ''['' # p_host p @ CHR '']'' # print_tail p" using True by (simp add: print_host_def)
    have "CHR '']'' \<notin> set (p_host p)" using assms valid_at_not(3) [of "CHR '']''"] by (auto simp: parts_ok_def list_all_iff)
    note br = find_bracket_ok [OF this, of "print_tail p" "cur + 1"]
    have "drop cur str = [CHR ''[''] @ (p_host p @ CHR '']'' # print_tail p)" using ui(2) unfolding at by (simp only: append.simps)
    from drop_more [OF this] have d1: "drop (cur + 1) str = p_host p @ CHR '']'' # print_tail p" by (simp only: list.size add_0 One_nat_def)
    have d2: "drop (cur + 1 + length (p_host p @ '']'')) str = print_tail p" by (rule drop_more) (use d1 in simp)
    have l2: "cur + 1 + length (p_host p @ '']'') \<le> length str" by (rule drop_bound [where y = "print_tail p"]) (use d1 in simp_all)
    have "parse (\<lambda>i. False) err str u = parse_from (\<lambda>i. False) err str (print_tail p) (?m + 1) ?s ?u"
      using sc(2) se ui(1) at br tail_hd [OF assms] unfolding str
      by (auto simp: parse_def Let_def numeral_3_eq_3)
    also have "\<dots> = Some (0, parts_uri p ?u)"
    proof -
      have "slice str (cur + 1) ?m = p_host p" using drop_slice [OF d1] by simp
      then have T2: "texts str (?st[2 := cur + 1]) (?ed[2 := ?m]) (?F(2 := p_host p))" using l2 by (intro texts_close [OF T]) auto
      have "scan_text (print_tail p) 0 True (slice str (n + 3) (?m + 1)) (?F(2 := p_host p)) i = parts_text p i" if "i < 7" for i
        using scan_tail [OF assms, of "?F(2 := p_host p)" True "slice str (n + 3) (?m + 1)"] that by (auto simp: parts_text_def)
      from parts_texts_ok [OF assms this] parse_from_text [of "?m + 1" str "print_tail p" ?s "?F(2 := p_host p)" err ?u] d2 l2 T2 ui(4)
      show ?thesis by simp
    qed
    finally show ?thesis by (simp add: str_def parts_uri_def)
  qed
qed

section \<open>Every input\<close>

lemma Cons_drop: "drop i s = c # cs \<Longrightarrow> drop (Suc i) s = cs \<and> i < length s"
  by (metis drop_Suc tl_drop list.sel(3) drop_eq_Nil list.distinct(1) not_le)

lemma find_userinfo_gen:
  assumes "drop i str = xs" "drop cur str = at" "cur \<le> i" "i \<le> length str"
  shows "\<exists>a b cur' at'. find_userinfo xs i cur at = (a, b, cur', at') \<and> drop cur' str = at' \<and> cur \<le> cur' \<and> cur' \<le> length str \<and> b \<le> length str"
  using assms
proof (induction xs arbitrary: i)
  case (Cons c xs)
  then show ?case using Cons_drop [of i str c xs] by auto
qed auto

lemma find_bracket_gen:
  assumes "drop i str = xs" "i \<le> length str"
  shows "\<exists>n at. find_bracket xs i = (n, at) \<and> drop n str = at \<and> i \<le> n \<and> n \<le> length str"
  using assms
proof (induction xs arbitrary: i)
  case (Cons c xs)
  have d: "drop (Suc i) str = xs" "Suc i \<le> length str" using Cons_drop [OF Cons.prems(1)] by auto
  from Cons.IH [OF d] Cons.prems show ?case by fastforce
qed auto

lemma scheme_end_gen: "\<exists>k at. scheme_end cs n = (n + k, at) \<and> cs = take k cs @ at \<and> length (take k cs) = k \<and> list_all (valid_at 0) (take k cs)"
proof (induction cs arbitrary: n)
  case Nil
  then show ?case by simp
next
  case (Cons c cs)
  show ?case
  proof (cases "valid_at 0 c")
    case True
    from Cons [of "Suc n"] obtain k at where "scheme_end cs (Suc n) = (Suc n + k, at)" "cs = take k cs @ at" "length (take k cs) = k" "list_all (valid_at 0) (take k cs)" by blast
    with True show ?thesis by (intro exI [of _ "Suc k"] exI [of _ at]) auto
  next
    case False
    then show ?thesis by (intro exI [of _ 0] exI [of _ "c # cs"]) simp
  qed
qed

lemma scan_text_low: "i < 2 \<Longrightarrow> scan_text cs idx v6 P F i = F i"
  by (induction cs arbitrary: idx v6 P F) (auto split: option.splits)

lemma assign_total:
  "\<exists>ret u'. assign_components fails err str st ed is u = Some (ret, u') \<and>
     (ret = 0 \<and> u_state u' = URI_STATE_SUCCESS \<or> ret = -1 \<and> u_state u' = URI_STATE_ERROR)"
  by (induction "is" arbitrary: u) (auto simp: component_text_ok)

lemma parse_from_total:
  "\<exists>ret u'. parse_from fails err str at cur s u = Some (ret, u') \<and>
     (ret = 0 \<and> u_state u' = URI_STATE_SUCCESS \<or> ret = -1 \<and> (u_state u' = URI_STATE_ERROR \<or> u' = u))"
proof -
  obtain c s' where "scan_loop at cur s = (c, s')" by fastforce
  then show ?thesis using assign_total [of fails err str _ _ "[0..<7]" u] by (simp add: parse_from_def Let_def) blast
qed

text \<open>\<^verbatim>\<open>parse\<close> either refuses the string before the main loop or enters it in a state that fits the string.\<close>

lemma parse_cases:
  obtains (bad) "parse fails err str u = Some (-1, u\<lparr>u_state := URI_STATE_INVALID\<rparr>)"
  | (scan) at cur s F rest where
      "parse fails err str u = parse_from fails err str at cur s (u\<lparr>u_state := URI_STATE_INVALID\<rparr>)"
      "drop cur str = at" "cur \<le> length str" "sc_last s \<le> cur" "sc_idx s = 0" "texts str (sc_st s) (sc_ed s) F"
      "F 0 \<noteq> []" "str = F 0 @ ''://'' @ rest" "isalpha (hd (F 0))" "list_all (valid_at 0) (tl (F 0))"
proof (cases str)
  case Nil
  then show ?thesis using bad by (simp add: parse_def)
next
  case (Cons c cs)
  obtain k at0 where se: "scheme_end cs 1 = (1 + k, at0)" "cs = take k cs @ at0" "length (take k cs) = k" "list_all (valid_at 0) (take k cs)"
    using scheme_end_gen by blast
  show ?thesis
  proof (cases "isalpha c \<and> take 3 at0 = ''://''")
    case False
    then show ?thesis using bad Cons se(1) by (auto simp: parse_def Let_def)
  next
    case True
    let ?n = "1 + k" and ?sch = "c # take k cs"
    obtain rest where at0: "at0 = ''://'' @ rest" using True append_take_drop_id [of 3 at0] by metis
    have str: "str = ?sch @ ''://'' @ rest" using Cons se(2) at0 by simp
    have len: "length ?sch = ?n" using se(3) by simp
    have dn: "drop (?n + 3) str = rest" "?n + 3 \<le> length str"
    proof -
      have "drop 0 str = (?sch @ ''://'') @ rest" using str by simp
      from drop_more [OF this] show "drop (?n + 3) str = rest" using len by (simp add: ac_simps numeral_eq_Suc)
      show "?n + 3 \<le> length str" using str len by simp
    qed
    obtain a b cur at where ui: "find_userinfo rest (?n + 3) (?n + 3) rest = (a, b, cur, at)" "drop cur str = at"
      "?n + 3 \<le> cur" "cur \<le> length str" "b \<le> length str"
      using find_userinfo_gen [of "?n + 3" str rest "?n + 3" rest] dn by blast
    let ?st = "(replicate 7 0)[1 := a]" and ?ed = "(replicate 7 0)[0 := ?n, 1 := b]"
    let ?F = "(\<lambda>i. [])(0 := ?sch, 1 := slice str a b)"
    have "texts str (replicate 7 0) (replicate 7 0) (\<lambda>i. [])" by (simp add: texts_def)
    moreover have "slice str 0 ?n = ?sch" using str len unfolding slice_def by (metis append_eq_conv_conj drop_0 diff_zero)
    ultimately have "texts str ((replicate 7 0)[0 := 0]) ((replicate 7 0)[0 := ?n]) ((\<lambda>i. [])(0 := ?sch))"
      using dn(2) by (intro texts_close) auto
    moreover have "(replicate 7 0)[0 := 0] = replicate 7 (0 :: nat)" by (simp add: numeral_eq_Suc)
    ultimately have "texts str (replicate 7 0) ((replicate 7 0)[0 := ?n]) ((\<lambda>i. [])(0 := ?sch))" by simp
    then have T: "texts str ?st ?ed ?F" using ui(5) by (intro texts_close) auto
    note sch = True str se(4)
    have pre: "parse fails err str u = (case at of
         c # r \<Rightarrow>
           if c = CHR ''['' then
             let (m, at) = find_bracket r (cur + 1)
             in case at of
                  [] \<Rightarrow> Some (-1, u\<lparr>u_state := URI_STATE_INVALID\<rparr>)
                | _ # at' \<Rightarrow>
                    if at' \<noteq> [] \<and> hd at' \<notin> set sep then Some (-1, u\<lparr>u_state := URI_STATE_INVALID\<rparr>)
                    else parse_from fails err str at' (m + 1)
                      \<lparr>sc_idx = 0, sc_last = ?n + 3, sc_ipv6 = True, sc_st = ?st[2 := cur + 1], sc_ed = ?ed[2 := m]\<rparr> (u\<lparr>u_state := URI_STATE_INVALID\<rparr>)
           else parse_from fails err str at cur \<lparr>sc_idx = 0, sc_last = cur, sc_ipv6 = False, sc_st = ?st, sc_ed = ?ed\<rparr> (u\<lparr>u_state := URI_STATE_INVALID\<rparr>)
       | [] \<Rightarrow> parse_from fails err str at cur \<lparr>sc_idx = 0, sc_last = cur, sc_ipv6 = False, sc_st = ?st, sc_ed = ?ed\<rparr> (u\<lparr>u_state := URI_STATE_INVALID\<rparr>))"
      using Cons True se(1) ui(1) at0 by (cases at) (simp_all add: parse_def Let_def numeral_3_eq_3 split: prod.splits list.splits)
    show ?thesis
    proof (cases "\<exists>r. at = CHR ''['' # r")
      case False
      then have "parse fails err str u = parse_from fails err str at cur \<lparr>sc_idx = 0, sc_last = cur, sc_ipv6 = False, sc_st = ?st, sc_ed = ?ed\<rparr> (u\<lparr>u_state := URI_STATE_INVALID\<rparr>)"
        using pre by (auto split: list.splits)
      then show ?thesis using T ui sch by (intro scan [of at cur _ ?F rest]) auto
    next
      case v6: True
      then obtain r where r: "at = CHR ''['' # r" by blast
      have d1: "drop (Suc cur) str = r" "Suc cur \<le> length str" using Cons_drop [of cur str] ui(2) r by fastforce+
      obtain m at1 where fb: "find_bracket r (Suc cur) = (m, at1)" "drop m str = at1" "Suc cur \<le> m" "m \<le> length str"
        using find_bracket_gen [OF d1] by blast
      show ?thesis
      proof (cases at1)
        case Nil
        then show ?thesis using bad pre r fb(1) by simp
      next
        case at1: (Cons x at')
        have d2: "drop (Suc m) str = at'" "m < length str" using Cons_drop [of m str x at'] fb(2) at1 by auto
        have T2: "texts str (?st[2 := cur + 1]) (?ed[2 := m]) (?F(2 := slice str (cur + 1) m))"
          using fb(4) by (intro texts_close [OF T]) auto
        show ?thesis
        proof (cases "at' \<noteq> [] \<and> hd at' \<notin> set sep")
          case True
          then show ?thesis using bad pre r fb(1) at1 by simp
        next
          case False
          then have "parse fails err str u = parse_from fails err str at' (m + 1)
              \<lparr>sc_idx = 0, sc_last = ?n + 3, sc_ipv6 = True, sc_st = ?st[2 := cur + 1], sc_ed = ?ed[2 := m]\<rparr> (u\<lparr>u_state := URI_STATE_INVALID\<rparr>)"
            using pre r fb(1) at1 by auto
          then show ?thesis using T2 d2 ui(3) fb(3) sch by (intro scan [of at' "m + 1" _ "?F(2 := slice str (cur + 1) m)" rest]) auto
        qed
      qed
    qed
  qed
qed

lemma parse_total:
  "\<exists>ret u'. parse fails err str u = Some (ret, u') \<and>
     (ret = 0 \<and> u_state u' = URI_STATE_SUCCESS \<or> ret = -1 \<and> (u_state u' = URI_STATE_ERROR \<or> u' = u\<lparr>u_state := URI_STATE_INVALID\<rparr>))"
proof (cases rule: parse_cases [of fails err str u])
  case (scan at cur s F rest)
  then show ?thesis using parse_from_total by metis
qed simp

lemma parse_sound:
  assumes "parse (\<lambda>i. False) err str u = Some (0, u')"
  shows "\<exists>F rest. u' = uri_of F (u\<lparr>u_state := URI_STATE_INVALID\<rparr>) \<and> F 0 \<noteq> [] \<and> str = F 0 @ ''://'' @ rest \<and>
     isalpha (hd (F 0)) \<and> list_all (valid_at 0) (tl (F 0)) \<and> (\<forall>i \<in> {1, 2, 3, 4}. list_all (valid_at i) (F i))"
proof (cases rule: parse_cases [of "\<lambda>i. False" err str u])
  case (scan at cur s F rest)
  let ?F = "scan_text at 0 (sc_ipv6 s) (slice str (sc_last s) cur) F"
  have "\<forall>i \<in> set [1..<5]. list_all (valid_at i) (?F i)" "u' = uri_of ?F (u\<lparr>u_state := URI_STATE_INVALID\<rparr>)"
    using parse_from_text [OF scan(2-6), of err] scan(1) assms by (auto split: if_splits)
  moreover have "set [1..<5] = {1, 2, 3, 4 :: nat}" by auto
  moreover have "?F 0 = F 0" by (rule scan_text_low) simp
  ultimately show ?thesis using scan(7-10) by (intro exI [of _ ?F] exI [of _ rest]) simp
qed (use assms in simp)

section \<open>Queries\<close>

lemma query_fold_strict:
  assumes "\<And>k. res k = map_option hd (sres k)" "\<And>k vs. sres k = Some vs \<Longrightarrow> vs \<noteq> []"
  shows "query_fold arr res k = map_option hd (strict_fold arr sres k)"
  using assms
proof (induction arr arbitrary: res sres)
  case Nil
  then show ?case by simp
next
  case (Cons ele arr)
  let ?kv = "split ele (CHR ''='')"
  let ?key = "?kv ! 0" and ?val = "if length ?kv = 1 then [] else ?kv ! 1"
  let ?old = "case sres ?key of None \<Rightarrow> [] | Some vs \<Rightarrow> vs"
  show ?case
  proof (cases "ele = [] \<or> ?key = []")
    case True
    then show ?thesis using Cons.IH [OF Cons.prems] by (auto simp: Let_def)
  next
    case False
    have s: "strict_fold (ele # arr) sres = strict_fold arr (sres(?key \<mapsto> ?old @ [?val]))"
      using False by (auto simp: Let_def)
    have q: "query_fold (ele # arr) res = query_fold arr (if res ?key \<noteq> None then res else res(?key \<mapsto> ?val))"
      using False by (auto simp: Let_def)
    have "query_fold arr (if res ?key \<noteq> None then res else res(?key \<mapsto> ?val)) k =
       map_option hd (strict_fold arr (sres(?key \<mapsto> ?old @ [?val])) k)"
    proof (rule Cons.IH)
      fix k' show "(if res ?key \<noteq> None then res else res(?key \<mapsto> ?val)) k' = map_option hd ((sres(?key \<mapsto> ?old @ [?val])) k')"
        using Cons.prems by (cases "sres ?key") (auto simp: hd_append)
    next
      fix k' vs assume "(sres(?key \<mapsto> ?old @ [?val])) k' = Some vs"
      then show "vs \<noteq> []" using Cons.prems(2) by (auto split: if_splits)
    qed
    with s q show ?thesis by metis
  qed
qed

definition query_pair :: "string \<times> string \<Rightarrow> string" where
  "query_pair kv = fst kv @ CHR ''='' # snd kv"

definition pair_ok :: "string \<times> string \<Rightarrow> bool" where
  "pair_ok kv \<longleftrightarrow> fst kv \<noteq> [] \<and> CHR ''='' \<notin> set (fst kv) \<and> CHR ''&'' \<notin> set (fst kv) \<and>
     CHR ''='' \<notin> set (snd kv) \<and> CHR ''&'' \<notin> set (snd kv)"

lemma split_pair: "pair_ok kv \<Longrightarrow> split (query_pair kv) (CHR ''='') = [fst kv, snd kv]"
  using split_of_join [of "[fst kv, snd kv]" "CHR ''=''"] by (auto simp: pair_ok_def query_pair_def)

lemma strict_fold_pairs:
  "list_all pair_ok kvs \<Longrightarrow> strict_fold (map query_pair kvs) res k =
     (case map snd (filter (\<lambda>kv. fst kv = k) kvs) of [] \<Rightarrow> res k
      | vs \<Rightarrow> Some ((case res k of None \<Rightarrow> [] | Some old \<Rightarrow> old) @ vs))"
proof (induction kvs arbitrary: res)
  case (Cons kv kvs)
  have ok: "pair_ok kv" "list_all pair_ok kvs" using Cons.prems by auto
  have ne: "query_pair kv \<noteq> []" "fst kv \<noteq> []" using ok(1) by (auto simp: query_pair_def pair_ok_def)
  have "strict_fold (map query_pair (kv # kvs)) res =
      strict_fold (map query_pair kvs) (res(fst kv \<mapsto> (case res (fst kv) of None \<Rightarrow> [] | Some vs \<Rightarrow> vs) @ [snd kv]))"
    using split_pair [OF ok(1)] ne by (auto simp: Let_def)
  then show ?case using Cons.IH [OF ok(2)] by (auto split: list.splits option.splits)
qed simp

lemma query_pairs:
  assumes "list_all pair_ok kvs" "kvs \<noteq> []"
  shows "split_query_strict (join (CHR ''&'') (map query_pair kvs)) k =
     (case map snd (filter (\<lambda>kv. fst kv = k) kvs) of [] \<Rightarrow> None | vs \<Rightarrow> Some vs)"
proof -
  have "CHR ''&'' \<notin> set x" if "x \<in> set (map query_pair kvs)" for x
    using that assms(1) by (auto simp: query_pair_def pair_ok_def list_all_iff)
  then have s: "split (join (CHR ''&'') (map query_pair kvs)) (CHR ''&'') = map query_pair kvs"
    using assms(2) by (intro split_of_join) auto
  obtain kv kvs' where kvs: "kvs = kv # kvs'" using assms(2) by (cases kvs) auto
  have "join (CHR ''&'') (map query_pair kvs) \<noteq> []"
    unfolding kvs by (cases kvs') (auto simp: query_pair_def)
  then show ?thesis using s assms strict_fold_pairs [OF assms(1), of Map.empty k]
    by (simp add: split_query_strict_def Let_def split: list.splits)
qed

lemma char_codes:
  "c = CHR ''+'' \<longleftrightarrow> code c = 43"
  "c = CHR ''-'' \<longleftrightarrow> code c = 45"
  "c = CHR ''.'' \<longleftrightarrow> code c = 46"
  "c = CHR ''~'' \<longleftrightarrow> code c = 126"
  "c = CHR ''_'' \<longleftrightarrow> code c = 95"
  "c = CHR ''!'' \<longleftrightarrow> code c = 33"
  "c = CHR ''$'' \<longleftrightarrow> code c = 36"
  "c = CHR ''&'' \<longleftrightarrow> code c = 38"
  "c = CHR ''('' \<longleftrightarrow> code c = 40"
  "c = CHR '')'' \<longleftrightarrow> code c = 41"
  "c = CHR ''*'' \<longleftrightarrow> code c = 42"
  "c = CHR '','' \<longleftrightarrow> code c = 44"
  "c = CHR '';'' \<longleftrightarrow> code c = 59"
  "c = CHR ''='' \<longleftrightarrow> code c = 61"
  "c = CHR ''%'' \<longleftrightarrow> code c = 37"
  "c = CHR '':'' \<longleftrightarrow> code c = 58"
  "c = CHR ''/'' \<longleftrightarrow> code c = 47"
  "c = CHR ''@'' \<longleftrightarrow> code c = 64"
  "c = CHR ''?'' \<longleftrightarrow> code c = 63"
  "c = CHR 0x27 \<longleftrightarrow> code c = 39"
  unfolding of_char_eq_iff [symmetric, where ?'a = nat] by simp_all

section \<open>Properties\<close>

text \<open>
  C25: parsing inverts printing. A URI printed from its components (scheme, optional userinfo, a name or a bracketed IPv6 literal as host,
  optional port, a path that is empty or starts with a slash, optional query and fragment), each over the characters the tables
  allow, is parsed back into exactly these components, whatever the object held before.
\<close>

theorem uri_roundtrip:
  assumes "parts_ok p"
  shows "parse (\<lambda>i. False) err (print_uri p) u = Some (0, parts_uri p u)"
  by (rule parse_print [OF assms])

definition demo_parts :: uri_parts where
  "demo_parts = \<lparr>p_scheme = ''http'', p_userinfo = Some ''me'', p_ipv6 = True, p_host = ''::1'', p_port = Some ''80'',
     p_path = ''/a'', p_query = Some ''b:/?@'', p_fragment = Some ''#''\<rparr>"

theorem uri_roundtrip_witness:
  "parse (\<lambda>i. False) ENOMEM ''http://me@[::1]:80/a?b:/?@##'' uri_init = Some (0, parts_uri demo_parts uri_init)"
proof -
  have "parts_ok demo_parts"
    by (simp add: parts_ok_def demo_parts_def valid_at_rule uri_rule_def ctype_defs opt_text_def decoded_host_def)
  from uri_roundtrip [OF this, of ENOMEM uri_init] show ?thesis
    by (simp add: print_uri_def print_host_def print_tail_def after_def demo_parts_def)
qed

text \<open>
  on every string and every memory behaviour \<^verbatim>\<open>parse\<close> comes back with 0 and state success, or with -1 and state error (an allocation
  failed) or state invalid; a string refused as invalid leaves every component of the object as it was.
\<close>

theorem parse_answers:
  "\<exists>ret u'. parse fails err str u = Some (ret, u') \<and>
     (ret = 0 \<and> u_state u' = URI_STATE_SUCCESS \<or> ret = -1 \<and> (u_state u' = URI_STATE_ERROR \<or> u' = u\<lparr>u_state := URI_STATE_INVALID\<rparr>))"
  by (rule parse_total)

text \<open>
  what \<^verbatim>\<open>parse\<close> accepts: the string starts with the scheme it stores, which starts with a letter and is followed by \<^verbatim>\<open>://\<close>, and
  the texts behind userinfo, host, port and path hold only characters of their tables.
\<close>

theorem parse_accepts:
  assumes "parse (\<lambda>i. False) err str u = Some (0, u')"
  shows "\<exists>F rest. u' = uri_of F (u\<lparr>u_state := URI_STATE_INVALID\<rparr>) \<and> F 0 \<noteq> [] \<and> str = F 0 @ ''://'' @ rest \<and>
     isalpha (hd (F 0)) \<and> list_all (valid_at 0) (tl (F 0)) \<and> (\<forall>i \<in> {1, 2, 3, 4}. list_all (valid_at i) (F i))"
  using assms by (rule parse_sound)

theorem parse_accepts_witness:
  "\<exists>F rest. print_uri demo_parts = F (0 :: nat) @ ''://'' @ rest \<and> isalpha (hd (F 0))"
proof -
  have "parts_ok demo_parts"
    by (simp add: parts_ok_def demo_parts_def valid_at_rule uri_rule_def ctype_defs opt_text_def decoded_host_def)
  from parse_accepts [OF parse_print [OF this, of ENOMEM uri_init]] show ?thesis by blast
qed

text \<open>
  the tables hold exactly the characters of their components: letters, digits and \<^verbatim>\<open>+-.\<close> for the scheme, digits for the port, the
  same set with the colon for userinfo and host, and the path, query and fragment sets, each larger than the one before.
\<close>

theorem valid_char_tables:
  "(valid_at 0 c \<longleftrightarrow> isalnum c \<or> c \<in> set ''+-.'') \<and> (valid_at 3 c \<longleftrightarrow> isdigit c) \<and>
   (valid_at 1 c \<longleftrightarrow> isalnum c \<or> c \<in> set ''-._~!$&()*+,;=%:'' \<or> c = CHR 0x27) \<and> (valid_at 2 c \<longleftrightarrow> valid_at 1 c) \<and>
   (valid_at 4 c \<longleftrightarrow> valid_at 2 c \<or> c \<in> set ''/@'') \<and>
   (valid_at 5 c \<longleftrightarrow> valid_at 4 c \<or> c = CHR ''?'') \<and> (valid_at 6 c \<longleftrightarrow> valid_at 5 c)"
  by (auto simp: valid_at_rule uri_rule_def ctype_defs char_codes)

text \<open>
  \<^verbatim>\<open>split_query\<close> keeps the first value of every key that \<^verbatim>\<open>split_query_strict\<close> collects, for every query string.
\<close>

theorem split_query_first:
  "split_query q k = map_option hd (split_query_strict q k)"
  using query_fold_strict [of Map.empty Map.empty] by (auto simp: split_query_def split_query_strict_def Let_def)

text \<open>
  a query printed from key and value pairs is split back into the values of each key, in their order.
\<close>

theorem query_roundtrip:
  assumes "list_all pair_ok kvs" "kvs \<noteq> []"
  shows "split_query_strict (join (CHR ''&'') (map query_pair kvs)) k =
     (case map snd (filter (\<lambda>kv. fst kv = k) kvs) of [] \<Rightarrow> None | vs \<Rightarrow> Some vs)"
  by (rule query_pairs [OF assms])

theorem query_roundtrip_witness:
  "split_query_strict ''a=1&b=&a=2'' ''a'' = Some [''1'', ''2'']"
  using query_roundtrip [of "[(''a'', ''1''), (''b'', []), (''a'', ''2'')]" "''a''"]
  by (simp add: pair_ok_def query_pair_def)

text \<open>
  copying a parsed URI gives an equal one when memory suffices and otherwise an empty object in the error state, never a partly
  copied one; moving hands over everything and leaves an initialised object.
\<close>

theorem uri_copy_all_or_nothing:
  assumes "u_state from = URI_STATE_SUCCESS"
  shows "uri_copy fails err from \<in> {from, uri_init\<lparr>u_state := URI_STATE_ERROR, u_error := Some err\<rparr>} \<and>
     uri_copy (\<lambda>i. False) err from = from \<and> uri_move from = (from, uri_init)"
proof -
  have d: "dup fails i f = Some f \<or> dup fails i f = None" for i f by (cases f) (auto simp: dup_def)
  have n: "dup (\<lambda>i. False) i f = Some f" for i f by (cases f) (auto simp: dup_def)
  have full: "uri_init\<lparr>u_state := u_state from, u_error := u_error from, u_scheme := u_scheme from, u_userinfo := u_userinfo from,
      u_host := u_host from, u_port := u_port from, u_path := u_path from, u_query := u_query from, u_fragment := u_fragment from\<rparr> = from"
    by (cases "from") (simp add: uri_init_def)
  have "uri_copy (\<lambda>i. False) err from = from" using assms full by (simp add: uri_copy_def n)
  moreover have "uri_copy fails err from \<in> {from, uri_init\<lparr>u_state := URI_STATE_ERROR, u_error := Some err\<rparr>}"
  proof -
    have "(\<forall>x. dup fails 0 (u_scheme from) = Some x \<longrightarrow> x = u_scheme from)" "\<And>i f x. dup fails i f = Some x \<Longrightarrow> x = f"
      using d by (metis option.distinct(1) option.inject)+
    then show ?thesis using assms full unfolding uri_copy_def Let_def by (auto split: bind_splits option.splits)
  qed
  ultimately show ?thesis by (simp add: uri_move_def)
qed

theorem uri_copy_all_or_nothing_witness:
  "uri_copy (\<lambda>i. False) ENOMEM (parts_uri demo_parts uri_init) = parts_uri demo_parts uri_init"
  using uri_copy_all_or_nothing [of "parts_uri demo_parts uri_init" "\<lambda>i. False" ENOMEM] by (simp add: parts_uri_def)

end
