(* ===== verification/LRU_Cache.thy ===== *)
theory LRU_Cache
  imports Kernel_List "HOL-Library.Multiset"
begin

text \<open>
  The reference-counted LRU cache (\<^verbatim>\<open>workflow/src/util/LRUCache.h\<close>). Handles are allocated at addresses; the map
  \<open>lc_handles\<close> holds the live ones, and touching a handle that was deleted gives \<open>None\<close>, as does a failing \<^verbatim>\<open>assert\<close>. The
  \<^verbatim>\<open>prev\<close> and \<^verbatim>\<open>next\<close> fields are in the list heap of \<^verbatim>\<open>Kernel_List\<close>; the sentinels \<^verbatim>\<open>not_use_\<close> and \<^verbatim>\<open>in_use_\<close> are the
  addresses 1 and 2. The address that \<^verbatim>\<open>new\<close> returns is an argument of \<^verbatim>\<open>put\<close>. \<open>lc_deleted\<close> records the values given to
  the value deleter, in order. The \<^verbatim>\<open>int\<close> that counts the references of a handle is a natural number without a bound: its overflow, which needs \<open>2 ^ 31\<close>
  holders of one handle, is not modelled.
\<close>

section \<open>State\<close>

record ('k, 'v) lru_handle =
  lh_value :: 'v
  lh_key :: 'k
  lh_ref :: nat
  lh_in_cache :: bool

record ('k, 'v) lru_cache =
  lc_max_size :: nat
  lc_size :: nat
  lc_links :: list_heap
  lc_handles :: "addr \<Rightarrow> ('k, 'v) lru_handle option"
  lc_map :: "'k \<Rightarrow> addr option"
  lc_deleted :: "'v list"

abbreviation NOT_USE :: addr where "NOT_USE \<equiv> 1"
abbreviation IN_USE :: addr where "IN_USE \<equiv> 2"

definition new_lru_cache :: "list_heap \<Rightarrow> ('k, 'v) lru_cache" where
  "new_lru_cache h =
     \<lparr>lc_max_size = 0, lc_size = 0,
      lc_links = h\<lparr>nxt := (nxt h)(NOT_USE := NOT_USE, IN_USE := IN_USE), prv := (prv h)(NOT_USE := NOT_USE, IN_USE := IN_USE)\<rparr>,
      lc_handles = (\<lambda>e. None), lc_map = (\<lambda>k. None), lc_deleted = []\<rparr>"

section \<open>Operations\<close>

definition set_max_size :: "('k, 'v) lru_cache \<Rightarrow> nat \<Rightarrow> ('k, 'v) lru_cache" where
  "set_max_size c n = c\<lparr>lc_max_size := n\<rparr>"

definition list_remove :: "addr \<Rightarrow> list_heap \<Rightarrow> list_heap option" where
  "list_remove node h = do { h \<leftarrow> set_prv (nxt h node) (prv h node) h; set_nxt (prv h node) (nxt h node) h }"

definition list_append :: "addr \<Rightarrow> addr \<Rightarrow> list_heap \<Rightarrow> list_heap option" where
  "list_append l node h =
     do { h \<leftarrow> set_nxt node l h;
          h \<leftarrow> set_prv node (prv h l) h;
          h \<leftarrow> set_nxt (prv h node) node h;
          set_prv (nxt h node) node h }"

definition relink :: "addr \<Rightarrow> addr \<Rightarrow> ('k, 'v) lru_cache \<Rightarrow> ('k, 'v) lru_cache option" where
  "relink l e c = do { h \<leftarrow> list_remove e (lc_links c); h \<leftarrow> list_append l e h; Some (c\<lparr>lc_links := h\<rparr>) }"

definition lru_ref :: "addr \<Rightarrow> ('k, 'v) lru_cache \<Rightarrow> ('k, 'v) lru_cache option" where
  "lru_ref e c =
     do { h \<leftarrow> lc_handles c e;
          c \<leftarrow> (if lh_in_cache h \<and> lh_ref h = 1 then relink IN_USE e c else Some c);
          Some (c\<lparr>lc_handles := (lc_handles c)(e \<mapsto> h\<lparr>lh_ref := lh_ref h + 1\<rparr>)\<rparr>) }"

definition lru_unref :: "addr \<Rightarrow> ('k, 'v) lru_cache \<Rightarrow> ('k, 'v) lru_cache option" where
  "lru_unref e c =
     do { h \<leftarrow> lc_handles c e;
          if lh_ref h = 0 then None
          else let h = h\<lparr>lh_ref := lh_ref h - 1\<rparr>; c = c\<lparr>lc_handles := (lc_handles c)(e \<mapsto> h)\<rparr>
               in if lh_ref h = 0 then
                    if lh_in_cache h then None
                    else Some (c\<lparr>lc_deleted := lc_deleted c @ [lh_value h], lc_handles := (lc_handles c)(e := None)\<rparr>)
                  else if lh_in_cache h \<and> lh_ref h = 1 then relink NOT_USE e c
                  else Some c }"

definition erase_node :: "addr \<Rightarrow> ('k, 'v) lru_cache \<Rightarrow> ('k, 'v) lru_cache option" where
  "erase_node e c =
     do { h \<leftarrow> lc_handles c e;
          if \<not> lh_in_cache h then None
          else do { l \<leftarrow> list_remove e (lc_links c);
                    lru_unref e (c\<lparr>lc_links := l, lc_handles := (lc_handles c)(e \<mapsto> h\<lparr>lh_in_cache := False\<rparr>),
                                   lc_size := lc_size c - 1\<rparr>) } }"

text \<open>The first idle handle is dropped from the map and erased; \<^verbatim>\<open>prune\<close> and \<^verbatim>\<open>put\<close> repeat this.\<close>

definition drop_oldest :: "('k, 'v) lru_cache \<Rightarrow> ('k, 'v) lru_cache option" where
  "drop_oldest c =
     (let e = nxt (lc_links c) NOT_USE
      in do { h \<leftarrow> lc_handles c e;
              if lh_ref h \<noteq> 1 then None
              else erase_node e (c\<lparr>lc_map := (lc_map c)(lh_key h := None)\<rparr>) })"

partial_function (option) prune :: "('k, 'v) lru_cache \<Rightarrow> ('k, 'v) lru_cache option" where
  "prune c =
     (if nxt (lc_links c) NOT_USE \<noteq> NOT_USE then do { c \<leftarrow> drop_oldest c; prune c } else Some c)"

definition lru_release :: "addr option \<Rightarrow> ('k, 'v) lru_cache \<Rightarrow> ('k, 'v) lru_cache option" where
  "lru_release handle c = (case handle of None \<Rightarrow> Some c | Some e \<Rightarrow> lru_unref e c)"

definition lru_get :: "'k \<Rightarrow> ('k, 'v) lru_cache \<Rightarrow> (addr option \<times> ('k, 'v) lru_cache) option" where
  "lru_get key c =
     (case lc_map c key of
        Some e \<Rightarrow> do { c \<leftarrow> lru_ref e c; Some (Some e, c) }
      | None \<Rightarrow> Some (None, c))"

partial_function (option) evict :: "('k, 'v) lru_cache \<Rightarrow> ('k, 'v) lru_cache option" where
  "evict c =
     (if lc_size c > lc_max_size c \<and> nxt (lc_links c) NOT_USE \<noteq> NOT_USE then do { c \<leftarrow> drop_oldest c; evict c }
      else Some c)"

definition lru_put :: "addr \<Rightarrow> 'k \<Rightarrow> 'v \<Rightarrow> ('k, 'v) lru_cache \<Rightarrow> (addr \<times> ('k, 'v) lru_cache) option" where
  "lru_put e key value c =
     (let h = \<lparr>lh_value = value, lh_key = key, lh_ref = 2, lh_in_cache = True\<rparr>;
          c = c\<lparr>lc_handles := (lc_handles c)(e \<mapsto> h), lc_size := lc_size c + 1\<rparr>
      in do { l \<leftarrow> list_append IN_USE e (lc_links c);
              (let c = c\<lparr>lc_links := l\<rparr>
               in do { c \<leftarrow> (case lc_map c key of
                              Some old \<Rightarrow> do { c \<leftarrow> erase_node old c; Some (c\<lparr>lc_map := (lc_map c)(key \<mapsto> e)\<rparr>) }
                            | None \<Rightarrow> Some (c\<lparr>lc_map := (lc_map c)(key \<mapsto> e)\<rparr>));
                       c \<leftarrow> (if lc_max_size c > 0 then evict c else Some c);
                       Some (e, c) }) })"

definition lru_del :: "'k \<Rightarrow> ('k, 'v) lru_cache \<Rightarrow> ('k, 'v) lru_cache option" where
  "lru_del key c =
     (case lc_map c key of
        Some node \<Rightarrow> erase_node node (c\<lparr>lc_map := (lc_map c)(key := None)\<rparr>)
      | None \<Rightarrow> Some c)"

text \<open>The destructor walks the idle list with the successor read first.\<close>

partial_function (option) destroy_from :: "addr \<Rightarrow> ('k, 'v) lru_cache \<Rightarrow> ('k, 'v) lru_cache option" where
  "destroy_from e c =
     (if e \<noteq> NOT_USE then
        let n = nxt (lc_links c) e
        in do { h \<leftarrow> lc_handles c e;
                if \<not> lh_in_cache h \<or> lh_ref h \<noteq> 1 then None
                else do { c \<leftarrow> lru_unref e (c\<lparr>lc_handles := (lc_handles c)(e \<mapsto> h\<lparr>lh_in_cache := False\<rparr>)\<rparr>);
                          destroy_from n c } }
      else Some c)"

definition destroy_cache :: "('k, 'v) lru_cache \<Rightarrow> ('k, 'v) lru_cache option" where
  "destroy_cache c =
     (if nxt (lc_links c) IN_USE \<noteq> IN_USE then None else destroy_from (nxt (lc_links c) NOT_USE) c)"

section \<open>Links\<close>

lemma list_remove_del: "nxt h e \<noteq> e \<Longrightarrow> list_remove e h = list_del e h"
  by (cases "nxt h e = 0"; cases "prv h e = 0")
    (auto simp: list_remove_def list_del_def list_del_between_def set_prv_def set_nxt_def)

lemma list_append_add_tail:
  assumes "l \<noteq> 0" "node \<noteq> 0" "prv h l \<noteq> 0" "prv h l \<noteq> node" "node \<noteq> l"
  shows "list_append l node h = list_add_tail node l h"
  using assms by (simp add: list_append_def list_add_tail_def list_add_between_def fun_upd_twist)

text \<open>The idle list \<open>N\<close> and the list \<open>U\<close> of handles in use.\<close>

abbreviation links_ok :: "list_heap \<Rightarrow> addr list \<Rightarrow> addr list \<Rightarrow> bool" where
  "links_ok h N U \<equiv> two_lists h NOT_USE N IN_USE U"

lemma dlist_not_self: "dlist h head (xs @ e # ys) \<Longrightarrow> nxt h e \<noteq> e"
  using dlist_neighbours(2) [of h head xs e ys] by (cases ys) (auto simp: dlist_def)

lemma remove_dlist:
  assumes "dlist h head (xs @ e # ys)"
  shows "\<exists>h'. list_remove e h = Some h' \<and> dlist h' head (xs @ ys) \<and>
     (\<forall>p. p \<notin> set (head # xs @ ys) \<longrightarrow> nxt h' p = nxt h p \<and> prv h' p = prv h p)"
  using list_del_dlist [OF assms] by (simp add: list_remove_del [OF dlist_not_self [OF assms]])

lemma append_dlist:
  assumes "dlist h head xs" "e \<noteq> 0" "e \<notin> set (head # xs)"
  shows "\<exists>h'. list_append head e h = Some h' \<and> dlist h' head (xs @ [e]) \<and>
     (\<forall>p. p \<notin> set (head # e # xs) \<longrightarrow> nxt h' p = nxt h p \<and> prv h' p = prv h p)"
proof -
  have p: "prv h head \<in> set (head # xs)" using dlist_prv_head [OF assms(1)] by (metis last_in_set list.distinct(1))
  moreover have "0 \<notin> set (head # xs)" using assms(1) by (simp add: dlist_def)
  ultimately have "prv h head \<noteq> 0" "prv h head \<noteq> e" "head \<noteq> 0" using assms(3) by (metis, metis, auto)
  then have "list_append head e h = list_add_tail e head h"
    using assms(2,3) by (intro list_append_add_tail) auto
  then show ?thesis using list_add_tail_dlist [OF assms] by simp
qed

lemma dlist_frame:
  assumes "dlist h head xs" "\<forall>p. p \<notin> A \<longrightarrow> nxt h' p = nxt h p \<and> prv h' p = prv h p" "set (head # xs) \<inter> A = {}"
  shows "dlist h' head xs"
proof -
  have "\<forall>p \<in> set (head # xs). nxt h' p = nxt h p \<and> prv h' p = prv h p" using assms(2,3) by blast
  then show ?thesis using assms(1) dlist_cong by blast
qed

lemma two_lists_sym: "two_lists h a xs b ys \<Longrightarrow> two_lists h b ys a xs"
  by (auto simp: two_lists_def)

lemma two_lists_remove:
  assumes "two_lists h a (xs @ e # ys) b zs"
  shows "\<exists>h'. list_remove e h = Some h' \<and> two_lists h' a (xs @ ys) b zs"
proof -
  have d: "dlist h a (xs @ e # ys)" "dlist h b zs" "set (a # xs @ e # ys) \<inter> set (b # zs) = {}"
    using assms by (simp_all add: two_lists_def)
  obtain h' where h': "list_remove e h = Some h'" "dlist h' a (xs @ ys)"
    "\<forall>p. p \<notin> set (a # xs @ ys) \<longrightarrow> nxt h' p = nxt h p \<and> prv h' p = prv h p"
    using remove_dlist [OF d(1)] by blast
  have dj: "set (b # zs) \<inter> set (a # xs @ ys) = {}" using d(3) by auto
  have "dlist h' b zs" by (rule dlist_frame [OF d(2) h'(3) dj])
  with h' dj show ?thesis unfolding two_lists_def by blast
qed

lemma two_lists_append:
  assumes "two_lists h a xs b ys" "e \<noteq> 0" "e \<notin> set (a # xs)" "e \<notin> set (b # ys)"
  shows "\<exists>h'. list_append a e h = Some h' \<and> two_lists h' a (xs @ [e]) b ys"
proof -
  have d: "dlist h a xs" "dlist h b ys" "set (a # xs) \<inter> set (b # ys) = {}"
    using assms(1) by (simp_all add: two_lists_def)
  obtain h' where h': "list_append a e h = Some h'" "dlist h' a (xs @ [e])"
    "\<forall>p. p \<notin> set (a # e # xs) \<longrightarrow> nxt h' p = nxt h p \<and> prv h' p = prv h p"
    using append_dlist [OF d(1) assms(2,3)] by blast
  have dj: "set (b # ys) \<inter> set (a # e # xs) = {}" using d(3) assms(4) by auto
  have "dlist h' b ys" by (rule dlist_frame [OF d(2) h'(3) dj])
  moreover have "set (a # xs @ [e]) \<inter> set (b # ys) = {}" using dj by auto
  ultimately show ?thesis using h' unfolding two_lists_def by blast
qed

lemma links_remove:
  "links_ok h (xs @ e # ys) U \<Longrightarrow> \<exists>h'. list_remove e h = Some h' \<and> links_ok h' (xs @ ys) U"
  "links_ok h N (xs @ e # ys) \<Longrightarrow> \<exists>h'. list_remove e h = Some h' \<and> links_ok h' N (xs @ ys)"
  using two_lists_remove two_lists_sym by blast+

lemma links_append:
  assumes "links_ok h N U" "e \<notin> {0, NOT_USE, IN_USE}" "e \<notin> set N" "e \<notin> set U"
  shows "\<exists>h'. list_append NOT_USE e h = Some h' \<and> links_ok h' (N @ [e]) U"
    "\<exists>h'. list_append IN_USE e h = Some h' \<and> links_ok h' N (U @ [e])"
proof -
  have "e \<noteq> 0" "e \<notin> set (NOT_USE # N)" "e \<notin> set (IN_USE # U)" using assms(2-4) by auto
  then show "\<exists>h'. list_append NOT_USE e h = Some h' \<and> links_ok h' (N @ [e]) U"
    "\<exists>h'. list_append IN_USE e h = Some h' \<and> links_ok h' N (U @ [e])"
    using two_lists_append [OF assms(1)] two_lists_append [OF two_lists_sym [OF assms(1)]] two_lists_sym by blast+
qed

lemma links_distinct: "links_ok h N U \<Longrightarrow> distinct (N @ U)"
  by (auto simp: two_lists_def dlist_def)

lemma links_remove1:
  assumes "links_ok h N U" "e \<in> set N \<or> e \<in> set U"
  shows "\<exists>h'. list_remove e h = Some h' \<and> links_ok h' (remove1 e N) (remove1 e U)"
proof -
  have d: "distinct (N @ U)" by (rule links_distinct [OF assms(1)])
  show ?thesis
  proof (cases "e \<in> set N")
    case True
    then obtain xs ys where N: "N = xs @ e # ys" by (meson split_list)
    with d have "remove1 e N = xs @ ys" "remove1 e U = U" by (auto simp: remove1_append remove1_idem)
    then show ?thesis using links_remove(1) [of h xs e ys U] assms(1) N by simp
  next
    case False
    with assms(2) obtain xs ys where U: "U = xs @ e # ys" by (meson split_list)
    with d False have "remove1 e U = xs @ ys" "remove1 e N = N" by (auto simp: remove1_append remove1_idem)
    then show ?thesis using links_remove(2) [of h N xs e ys] assms(1) U by simp
  qed
qed

section \<open>The invariant\<close>

text \<open>
  \<open>held\<close> counts the references that callers of \<^verbatim>\<open>get\<close> and \<^verbatim>\<open>put\<close> have not released. \<open>lru_core\<close> leaves the key map aside,
  because it is out of step for a moment in \<^verbatim>\<open>put\<close> and \<^verbatim>\<open>del\<close>.
\<close>

definition handle_ok :: "addr multiset \<Rightarrow> addr \<Rightarrow> ('k, 'v) lru_handle \<Rightarrow> bool" where
  "handle_ok held e h \<longleftrightarrow> e \<notin> {0, NOT_USE, IN_USE} \<and>
     lh_ref h = (if lh_in_cache h then 1 else 0) + count held e \<and> (lh_in_cache h \<or> 0 < count held e)"

definition cached :: "('k, 'v) lru_cache \<Rightarrow> addr \<Rightarrow> bool" where
  "cached c e \<longleftrightarrow> (\<exists>h. lc_handles c e = Some h \<and> lh_in_cache h)"

definition lru_core :: "('k, 'v) lru_cache \<Rightarrow> addr list \<Rightarrow> addr list \<Rightarrow> addr multiset \<Rightarrow> bool" where
  "lru_core c N U held \<longleftrightarrow>
     links_ok (lc_links c) N U \<and> (\<forall>e. cached c e \<longleftrightarrow> e \<in> set N \<or> e \<in> set U) \<and>
     (\<forall>e h. lc_handles c e = Some h \<longrightarrow> handle_ok held e h) \<and> (\<forall>e. 0 < count held e \<longrightarrow> lc_handles c e \<noteq> None) \<and>
     (\<forall>e \<in> set N. count held e = 0) \<and> (\<forall>e \<in> set U. 0 < count held e) \<and> lc_size c = length N + length U \<and>
     finite (dom (lc_handles c))"

definition map_ok :: "('k, 'v) lru_cache \<Rightarrow> bool" where
  "map_ok c \<longleftrightarrow> (\<forall>k e. lc_map c k = Some e \<longleftrightarrow> (\<exists>h. lc_handles c e = Some h \<and> lh_in_cache h \<and> lh_key h = k))"

definition lru_inv :: "('k, 'v) lru_cache \<Rightarrow> addr list \<Rightarrow> addr list \<Rightarrow> addr multiset \<Rightarrow> bool" where
  "lru_inv c N U held \<longleftrightarrow> lru_core c N U held \<and> map_ok c"

lemma new_lru_inv: "lru_inv (new_lru_cache h) [] [] {#}"
  by (simp add: lru_inv_def lru_core_def map_ok_def cached_def new_lru_cache_def two_lists_def dlist_def)

lemma relink_ok:
  assumes "links_ok (lc_links c) N U" "e \<in> set N \<or> e \<in> set U" "e \<notin> {0, NOT_USE, IN_USE}"
  shows "\<exists>l. relink IN_USE e c = Some (c\<lparr>lc_links := l\<rparr>) \<and> links_ok l (remove1 e N) (remove1 e U @ [e])"
    "\<exists>l. relink NOT_USE e c = Some (c\<lparr>lc_links := l\<rparr>) \<and> links_ok l (remove1 e N @ [e]) (remove1 e U)"
proof -
  have d: "distinct (N @ U)" by (rule links_distinct [OF assms(1)])
  then have out: "e \<notin> set (remove1 e N)" "e \<notin> set (remove1 e U)" by (simp_all add: set_remove1_eq)
  obtain h1 where h1: "list_remove e (lc_links c) = Some h1" "links_ok h1 (remove1 e N) (remove1 e U)"
    using links_remove1 [OF assms(1,2)] by blast
  show "\<exists>l. relink IN_USE e c = Some (c\<lparr>lc_links := l\<rparr>) \<and> links_ok l (remove1 e N) (remove1 e U @ [e])"
    using links_append(2) [OF h1(2) assms(3) out] h1(1) by (auto simp: relink_def)
  show "\<exists>l. relink NOT_USE e c = Some (c\<lparr>lc_links := l\<rparr>) \<and> links_ok l (remove1 e N @ [e]) (remove1 e U)"
    using links_append(1) [OF h1(2) assms(3) out] h1(1) by (auto simp: relink_def)
qed
section \<open>Counting references\<close>

lemma coreD:
  assumes "lru_core c N U held"
  shows "links_ok (lc_links c) N U" "\<And>e. cached c e \<longleftrightarrow> e \<in> set N \<or> e \<in> set U"
    "\<And>e h. lc_handles c e = Some h \<Longrightarrow> handle_ok held e h" "\<And>e. 0 < count held e \<Longrightarrow> lc_handles c e \<noteq> None"
    "\<And>e. e \<in> set N \<Longrightarrow> count held e = 0" "\<And>e. e \<in> set U \<Longrightarrow> 0 < count held e"
    "lc_size c = length N + length U" "finite (dom (lc_handles c))" "distinct N" "distinct U" "set N \<inter> set U = {}"
  using assms links_distinct [of "lc_links c" N U] by (auto simp: lru_core_def)

text \<open>Changing the reference count of one handle, with the lists adapted to it.\<close>

lemma core_recount:
  assumes "lru_core c N U held" "lc_handles c e = Some h" "links_ok l N' U'" "set N' \<union> set U' = set N \<union> set U"
    "length N' + length U' = length N + length U"
    "handle_ok held' e (h\<lparr>lh_ref := r\<rparr>)" "\<And>x. x \<noteq> e \<Longrightarrow> count held' x = count held x"
    "\<And>x. x \<noteq> e \<Longrightarrow> x \<in> set N' \<longleftrightarrow> x \<in> set N" "\<And>x. x \<noteq> e \<Longrightarrow> x \<in> set U' \<longleftrightarrow> x \<in> set U"
    "e \<in> set N' \<Longrightarrow> count held' e = 0" "e \<in> set U' \<Longrightarrow> 0 < count held' e"
  shows "lru_core (c\<lparr>lc_links := l, lc_handles := (lc_handles c)(e \<mapsto> h\<lparr>lh_ref := r\<rparr>)\<rparr>) N' U' held'"
proof -
  note D = coreD [OF assms(1)]
  have c: "cached (c\<lparr>lc_links := l, lc_handles := (lc_handles c)(e \<mapsto> h\<lparr>lh_ref := r\<rparr>)\<rparr>) x \<longleftrightarrow> cached c x" for x
    using assms(2) by (auto simp: cached_def)
  have "handle_ok held' x k" if "((lc_handles c)(e \<mapsto> h\<lparr>lh_ref := r\<rparr>)) x = Some k" for x k
    using that assms(6,7) D(3) [of x k] by (cases "x = e") (auto simp: handle_ok_def)
  moreover have "((lc_handles c)(e \<mapsto> h\<lparr>lh_ref := r\<rparr>)) x \<noteq> None" if "0 < count held' x" for x
    using that assms(7) D(4) [of x] by (cases "x = e") auto
  moreover have "count held' x = 0" if "x \<in> set N'" for x
    using that assms(7,8,10) D(5) by (cases "x = e") auto
  moreover have "0 < count held' x" if "x \<in> set U'" for x
    using that assms(7,9,11) D(6) by (cases "x = e") auto
  moreover have "cached c x \<longleftrightarrow> x \<in> set N' \<or> x \<in> set U'" for x using D(2) [of x] assms(4) by auto
  ultimately show ?thesis unfolding lru_core_def c using assms(3,5) D(7,8) by simp
qed

lemma lru_ref_ok:
  assumes "lru_core c N U held" "cached c e"
  defines "N' \<equiv> remove1 e N" and "U' \<equiv> (if e \<in> set N then U @ [e] else U)"
  shows "\<exists>l h. lc_handles c e = Some h \<and> lru_ref e c = Some (c\<lparr>lc_links := l, lc_handles := (lc_handles c)(e \<mapsto> h\<lparr>lh_ref := lh_ref h + 1\<rparr>)\<rparr>) \<and>
     lru_core (c\<lparr>lc_links := l, lc_handles := (lc_handles c)(e \<mapsto> h\<lparr>lh_ref := lh_ref h + 1\<rparr>)\<rparr>) N' U' (add_mset e held)"
proof -
  note D = coreD [OF assms(1)]
  obtain h where h: "lc_handles c e = Some h" "lh_in_cache h" using assms(2) by (auto simp: cached_def)
  have ok: "handle_ok held e h" by (rule D(3) [OF h(1)])
  have in_list: "e \<in> set N \<or> e \<in> set U" using D(2) assms(2) by blast
  have idle: "lh_ref h = 1 \<longleftrightarrow> e \<in> set N" using ok h(2) in_list D(5) [of e] D(6) [of e] by (auto simp: handle_ok_def simp del: count_greater_zero_iff)
  have e: "e \<notin> {0, NOT_USE, IN_USE}" using ok by (simp add: handle_ok_def)
  show ?thesis
  proof (cases "e \<in> set N")
    case True
    have lN: "Suc (length N - Suc 0) = length N" using True by (cases N) auto
    have U: "remove1 e U = U" using True D(11) by (intro remove1_idem) auto
    obtain l where l: "relink IN_USE e c = Some (c\<lparr>lc_links := l\<rparr>)" "links_ok l N' U'"
      using relink_ok(1) [OF D(1) in_list e] True U by (auto simp: N'_def U'_def)
    have "lru_ref e c = Some (c\<lparr>lc_links := l, lc_handles := (lc_handles c)(e \<mapsto> h\<lparr>lh_ref := lh_ref h + 1\<rparr>)\<rparr>)"
      using h idle True l(1) by (simp add: lru_ref_def)
    moreover have "lru_core (c\<lparr>lc_links := l, lc_handles := (lc_handles c)(e \<mapsto> h\<lparr>lh_ref := lh_ref h + 1\<rparr>)\<rparr>) N' U' (add_mset e held)"
      using True D(9) ok h(2) l(2) lN
      by (intro core_recount [OF assms(1) h(1)]) (auto simp: N'_def U'_def handle_ok_def set_remove1_eq length_remove1 Suc_diff_1 length_pos_if_in_set)
    ultimately show ?thesis using h(1) by blast
  next
    case False
    then have eU: "e \<in> set U" using in_list by blast
    have "lru_ref e c = Some (c\<lparr>lc_links := lc_links c, lc_handles := (lc_handles c)(e \<mapsto> h\<lparr>lh_ref := lh_ref h + 1\<rparr>)\<rparr>)"
      using h idle False by (simp add: lru_ref_def)
    moreover have "lru_core (c\<lparr>lc_links := lc_links c, lc_handles := (lc_handles c)(e \<mapsto> h\<lparr>lh_ref := lh_ref h + 1\<rparr>)\<rparr>) N' U' (add_mset e held)"
      using False D(1) ok h(2) by (intro core_recount [OF assms(1) h(1)]) (auto simp: N'_def U'_def handle_ok_def remove1_idem)
    ultimately show ?thesis using h(1) by blast
  qed
qed

text \<open>Giving a reference back: the last one makes a cached handle idle, and ends one that left the cache.\<close>

lemma lru_unref_ok:
  assumes "lru_core c N U held" "e \<in># held" "lc_handles c e = Some h"
  defines "gone \<equiv> \<not> lh_in_cache h \<and> count held e = 1" and "idle \<equiv> lh_in_cache h \<and> count held e = 1"
  shows "\<exists>l. lru_unref e c = Some (c\<lparr>lc_links := l,
       lc_handles := (lc_handles c)(e := if gone then None else Some (h\<lparr>lh_ref := lh_ref h - 1\<rparr>)),
       lc_deleted := lc_deleted c @ (if gone then [lh_value h] else [])\<rparr>) \<and>
     lru_core (c\<lparr>lc_links := l,
       lc_handles := (lc_handles c)(e := if gone then None else Some (h\<lparr>lh_ref := lh_ref h - 1\<rparr>)),
       lc_deleted := lc_deleted c @ (if gone then [lh_value h] else [])\<rparr>)
       (if idle then N @ [e] else N) (if idle then remove1 e U else U) (held - {#e#})"
proof -
  note D = coreD [OF assms(1)]
  have ok: "handle_ok held e h" by (rule D(3) [OF assms(3)])
  have cnt: "0 < count held e" using assms(2) by simp
  have ref: "lh_ref h = (if lh_in_cache h then 1 else 0) + count held e" using ok by (simp add: handle_ok_def)
  have e: "e \<notin> {0, NOT_USE, IN_USE}" using ok by (simp add: handle_ok_def)
  have cnt': "count (held - {#e#}) x = (if x = e then count held e - 1 else count held x)" for x by auto
  have nN: "e \<notin> set N" using cnt D(5) by force
  consider (gone) "gone" | (idle) "idle" | (other) "\<not> gone" "\<not> idle" by blast
  then show ?thesis
  proof cases
    case gone
    then have h: "\<not> lh_in_cache h" "count held e = 1" "lh_ref h = 1" using ref by (auto simp: gone_def)
    have nU: "e \<notin> set U" using D(2) [of e] h(1) assms(3) by (auto simp: cached_def)
    let ?c = "c\<lparr>lc_links := lc_links c, lc_handles := (lc_handles c)(e := None), lc_deleted := lc_deleted c @ [lh_value h]\<rparr>"
    have "lru_unref e c = Some ?c" using h assms(3) by (simp add: lru_unref_def Let_def)
    moreover have "lru_core ?c N U (held - {#e#})"
    proof -
      have "cached ?c x \<longleftrightarrow> cached c x" for x using h(1) assms(3) by (auto simp: cached_def)
      moreover have "handle_ok (held - {#e#}) x k" if "lc_handles c x = Some k" "x \<noteq> e" for x k
        using D(3) [OF that(1)] that(2) by (simp add: handle_ok_def)
      ultimately show ?thesis using D nN nU h(2) unfolding lru_core_def by (auto simp: cnt')
    qed
    ultimately show ?thesis using gone by (intro exI [of _ "lc_links c"]) (simp add: idle_def gone_def)
  next
    case idle
    then have h: "lh_in_cache h" "count held e = 1" "lh_ref h = 2" using ref by (auto simp: idle_def)
    have eU: "e \<in> set U" using D(2) [of e] h(1) assms(3) nN by (auto simp: cached_def)
    then have lU: "Suc (length U - Suc 0) = length U" by (cases U) auto
    let ?c1 = "c\<lparr>lc_handles := (lc_handles c)(e \<mapsto> h\<lparr>lh_ref := lh_ref h - 1\<rparr>)\<rparr>"
    obtain l where l: "relink NOT_USE e ?c1 = Some (?c1\<lparr>lc_links := l\<rparr>)" "links_ok l (N @ [e]) (remove1 e U)"
      using relink_ok(2) [of ?c1 N U e] D(1) eU e nN by (auto simp: remove1_idem)
    have "lru_unref e c = Some (c\<lparr>lc_links := l, lc_handles := (lc_handles c)(e \<mapsto> h\<lparr>lh_ref := lh_ref h - 1\<rparr>)\<rparr>)"
      using h l(1) assms(3) by (simp add: lru_unref_def Let_def)
    moreover have "lru_core (c\<lparr>lc_links := l, lc_handles := (lc_handles c)(e \<mapsto> h\<lparr>lh_ref := lh_ref h - 1\<rparr>)\<rparr>) (N @ [e]) (remove1 e U) (held - {#e#})"
      using eU D(10) ok h l(2) lU
      by (intro core_recount [OF assms(1) assms(3)]) (auto simp: cnt' handle_ok_def set_remove1_eq length_remove1 Suc_diff_1 length_pos_if_in_set)
    ultimately show ?thesis using idle by (intro exI [of _ l]) (simp add: gone_def idle_def)
  next
    case other
    have c2: "2 \<le> count held e" using other cnt by (cases "lh_in_cache h") (auto simp: gone_def idle_def simp del: count_greater_zero_iff)
    have "lru_unref e c = Some (c\<lparr>lc_links := lc_links c, lc_handles := (lc_handles c)(e \<mapsto> h\<lparr>lh_ref := lh_ref h - 1\<rparr>)\<rparr>)"
      using c2 ref assms(3) by (auto simp: lru_unref_def Let_def)
    moreover have "lru_core (c\<lparr>lc_links := lc_links c, lc_handles := (lc_handles c)(e \<mapsto> h\<lparr>lh_ref := lh_ref h - 1\<rparr>)\<rparr>) N U (held - {#e#})"
      using D(1) ok c2 nN by (intro core_recount [OF assms(1) assms(3)]) (auto simp: cnt' handle_ok_def)
    ultimately show ?thesis using other by (intro exI [of _ "lc_links c"]) simp
  qed
qed

text \<open>Erasing a cached handle takes it off its list; the handle itself lives on while it is held.\<close>

definition erased :: "addr multiset \<Rightarrow> addr \<Rightarrow> ('k, 'v) lru_handle \<Rightarrow> ('k, 'v) lru_handle option" where
  "erased held e h = (if count held e = 0 then None else Some (h\<lparr>lh_in_cache := False, lh_ref := lh_ref h - 1\<rparr>))"

lemma erase_node_ok:
  assumes "lru_core c N U held" "lc_handles c e = Some h" "lh_in_cache h"
  shows "\<exists>l. erase_node e c = Some (c\<lparr>lc_links := l, lc_handles := (lc_handles c)(e := erased held e h), lc_size := lc_size c - 1,
       lc_deleted := lc_deleted c @ (if count held e = 0 then [lh_value h] else [])\<rparr>) \<and>
     lru_core (c\<lparr>lc_links := l, lc_handles := (lc_handles c)(e := erased held e h), lc_size := lc_size c - 1,
       lc_deleted := lc_deleted c @ (if count held e = 0 then [lh_value h] else [])\<rparr>) (remove1 e N) (remove1 e U) held"
proof -
  note D = coreD [OF assms(1)]
  have ok: "handle_ok held e h" by (rule D(3) [OF assms(2)])
  have ref: "lh_ref h = 1 + count held e" using ok assms(3) by (simp add: handle_ok_def)
  have mem: "e \<in> set N \<or> e \<in> set U" using D(2) assms(2,3) by (auto simp: cached_def)
  obtain l where l: "list_remove e (lc_links c) = Some l" "links_ok l (remove1 e N) (remove1 e U)"
    using links_remove1 [OF D(1) mem] by blast
  let ?c = "c\<lparr>lc_links := l, lc_handles := (lc_handles c)(e := erased held e h), lc_size := lc_size c - 1,
       lc_deleted := lc_deleted c @ (if count held e = 0 then [lh_value h] else [])\<rparr>"
  have "erase_node e c = Some ?c"
    using assms(2,3) l(1) ref by (cases "count held e") (simp_all add: erase_node_def lru_unref_def Let_def erased_def)
  moreover have "lru_core ?c (remove1 e N) (remove1 e U) held"
  proof -
    have "cached ?c x \<longleftrightarrow> x \<in> set (remove1 e N) \<or> x \<in> set (remove1 e U)" for x
      using D(2) [of x] D(9,10) by (cases "x = e") (auto simp: cached_def erased_def set_remove1_eq)
    moreover have "handle_ok held x k" if "((lc_handles c)(e := erased held e h)) x = Some k" for x k
    proof (cases "x = e")
      case True
      then have "k = h\<lparr>lh_in_cache := False, lh_ref := lh_ref h - 1\<rparr>" "0 < count held e"
        using that by (auto simp: erased_def split: if_splits)
      then show ?thesis using ok ref True by (simp add: handle_ok_def)
    qed (use that D(3) in simp)
    moreover have "((lc_handles c)(e := erased held e h)) x \<noteq> None" if "0 < count held x" for x
      using that D(4) [of x] by (auto simp: erased_def simp del: count_greater_zero_iff)
    moreover have "length N + length U - 1 = length (remove1 e N) + length (remove1 e U)"
    proof -
      have "length (remove1 e N) = (if e \<in> set N then length N - 1 else length N)"
        "length (remove1 e U) = (if e \<in> set U then length U - 1 else length U)" by (simp_all add: length_remove1)
      moreover have "e \<in> set N \<Longrightarrow> 0 < length N" "e \<in> set U \<Longrightarrow> 0 < length U" by (auto intro: length_pos_if_in_set)
      moreover have "\<not> (e \<in> set N \<and> e \<in> set U)" using D(11) by auto
      ultimately show ?thesis using mem by (cases "e \<in> set N"; cases "e \<in> set U") (simp_all only: if_True if_False, linarith+)
    qed
    moreover have "count held x = 0" if "x \<in> set (remove1 e N)" for x
      using D(5) that set_remove1_subset [of e N] by blast
    moreover have "0 < count held x" if "x \<in> set (remove1 e U)" for x
      using D(6) that set_remove1_subset [of e U] by blast
    ultimately show ?thesis using D(7,8) l(2) by (simp add: lru_core_def)
  qed
  ultimately show ?thesis by blast
qed
section \<open>Whole operations\<close>

lemma map_ok_recount:
  assumes "map_ok c" "lc_handles c e = Some h"
  shows "map_ok (c\<lparr>lc_links := l, lc_handles := (lc_handles c)(e \<mapsto> h\<lparr>lh_ref := r\<rparr>)\<rparr>)"
  using assms unfolding map_ok_def by (auto split: if_splits)

lemma lru_get_hit:
  assumes "lru_inv c N U held" "lc_map c k = Some e"
  shows "\<exists>c'. lru_get k c = Some (Some e, c') \<and>
     lru_inv c' (remove1 e N) (if e \<in> set N then U @ [e] else U) (add_mset e held) \<and>
     map_option lh_value (lc_handles c' e) = map_option lh_value (lc_handles c e) \<and> lc_deleted c' = lc_deleted c \<and>
     lc_map c' = lc_map c \<and> lc_max_size c' = lc_max_size c \<and>
     (\<forall>x. map_option lh_value (lc_handles c' x) = map_option lh_value (lc_handles c x))"
proof -
  have i: "lru_core c N U held" "map_ok c" using assms(1) by (auto simp: lru_inv_def)
  have "cached c e" using i(2) assms(2) by (auto simp: map_ok_def cached_def)
  from lru_ref_ok [OF i(1) this] obtain l h where r: "lc_handles c e = Some h"
    "lru_ref e c = Some (c\<lparr>lc_links := l, lc_handles := (lc_handles c)(e \<mapsto> h\<lparr>lh_ref := lh_ref h + 1\<rparr>)\<rparr>)"
    "lru_core (c\<lparr>lc_links := l, lc_handles := (lc_handles c)(e \<mapsto> h\<lparr>lh_ref := lh_ref h + 1\<rparr>)\<rparr>)
       (remove1 e N) (if e \<in> set N then U @ [e] else U) (add_mset e held)" by blast
  from map_ok_recount [OF i(2) r(1), where l = l and r = "lh_ref h + 1"] r assms(2) show ?thesis
    by (intro exI [of _ "c\<lparr>lc_links := l, lc_handles := (lc_handles c)(e \<mapsto> h\<lparr>lh_ref := lh_ref h + 1\<rparr>)\<rparr>"])
      (simp add: lru_get_def lru_inv_def)
qed

lemma lru_release_ok:
  assumes "lru_inv c N U held" "e \<in># held"
  shows "\<exists>c' N' U'. lru_release (Some e) c = Some c' \<and> lru_inv c' N' U' (held - {#e#}) \<and> lc_map c' = lc_map c \<and>
     lc_max_size c' = lc_max_size c \<and>
     (lc_deleted c' = lc_deleted c \<and> (\<forall>x. map_option lh_value (lc_handles c' x) = map_option lh_value (lc_handles c x)) \<or>
      count held e = 1 \<and> (\<exists>h. lc_handles c e = Some h \<and> lc_deleted c' = lc_deleted c @ [lh_value h] \<and> lc_handles c' = (lc_handles c)(e := None)))"
proof -
  have i: "lru_core c N U held" "map_ok c" using assms(1) by (auto simp: lru_inv_def)
  obtain h where h: "lc_handles c e = Some h" using coreD(4) [OF i(1), of e] assms(2) by auto
  let ?gone = "\<not> lh_in_cache h \<and> count held e = 1"
  let ?c = "\<lambda>l. c\<lparr>lc_links := l,
       lc_handles := (lc_handles c)(e := if ?gone then None else Some (h\<lparr>lh_ref := lh_ref h - 1\<rparr>)),
       lc_deleted := lc_deleted c @ (if ?gone then [lh_value h] else [])\<rparr>"
  from lru_unref_ok [OF i(1) assms(2) h] obtain l where u: "lru_unref e c = Some (?c l)"
    and core: "lru_core (?c l) (if lh_in_cache h \<and> count held e = 1 then N @ [e] else N)
       (if lh_in_cache h \<and> count held e = 1 then remove1 e U else U) (held - {#e#})" by blast
  have "map_ok (?c l)" using i(2) h unfolding map_ok_def by (auto split: if_splits)
  then have "lru_inv (?c l) (if lh_in_cache h \<and> count held e = 1 then N @ [e] else N)
       (if lh_in_cache h \<and> count held e = 1 then remove1 e U else U) (held - {#e#})" using core by (simp add: lru_inv_def)
  moreover have "lru_release (Some e) c = Some (?c l)" using u by (simp add: lru_release_def)
  moreover have "lc_deleted (?c l) = lc_deleted c \<and> (\<forall>x. map_option lh_value (lc_handles (?c l) x) = map_option lh_value (lc_handles c x)) \<or>
      count held e = 1 \<and> (\<exists>h. lc_handles c e = Some h \<and> lc_deleted (?c l) = lc_deleted c @ [lh_value h] \<and> lc_handles (?c l) = (lc_handles c)(e := None))"
    using h by (cases ?gone) auto
  moreover have "lc_map (?c l) = lc_map c" "lc_max_size (?c l) = lc_max_size c" by simp_all
  ultimately show ?thesis by blast
qed

text \<open>Taking a cached handle out of map and list.\<close>

lemma erase_mapped:
  assumes "lru_inv c N U held" "lc_map c k = Some e" "lc_handles c e = Some h"
  shows "\<exists>c'. erase_node e (c\<lparr>lc_map := (lc_map c)(k := None)\<rparr>) = Some c' \<and>
     lru_inv c' (remove1 e N) (remove1 e U) held \<and> lc_map c' = (lc_map c)(k := None) \<and> lc_max_size c' = lc_max_size c \<and>
     lc_handles c' = (lc_handles c)(e := erased held e h) \<and>
     lc_deleted c' = lc_deleted c @ (if count held e = 0 then [lh_value h] else []) \<and> lc_size c' = lc_size c - 1"
proof -
  have i: "lru_core c N U held" "map_ok c" using assms(1) by (auto simp: lru_inv_def)
  have h: "lh_in_cache h" "lh_key h = k" using i(2) assms(2,3) by (auto simp: map_ok_def)
  let ?c = "c\<lparr>lc_map := (lc_map c)(k := None)\<rparr>"
  have "lru_core ?c N U held" using i(1) by (simp add: lru_core_def cached_def)
  from erase_node_ok [OF this _ h(1), of e] assms(3) obtain l where
    e: "erase_node e ?c = Some (?c\<lparr>lc_links := l, lc_handles := (lc_handles c)(e := erased held e h), lc_size := lc_size c - 1,
       lc_deleted := lc_deleted c @ (if count held e = 0 then [lh_value h] else [])\<rparr>)"
    and core: "lru_core (?c\<lparr>lc_links := l, lc_handles := (lc_handles c)(e := erased held e h), lc_size := lc_size c - 1,
       lc_deleted := lc_deleted c @ (if count held e = 0 then [lh_value h] else [])\<rparr>) (remove1 e N) (remove1 e U) held" by auto
  let ?c' = "?c\<lparr>lc_links := l, lc_handles := (lc_handles c)(e := erased held e h), lc_size := lc_size c - 1,
       lc_deleted := lc_deleted c @ (if count held e = 0 then [lh_value h] else [])\<rparr>"
  have "map_ok ?c'"
  proof -
    have "lc_map ?c' k' = Some x \<longleftrightarrow> (\<exists>y. lc_handles ?c' x = Some y \<and> lh_in_cache y \<and> lh_key y = k')" for k' x
    proof (cases "x = e")
      case True
      have "lc_map c k' = Some e \<longleftrightarrow> k' = k" using i(2) assms(3) h by (auto simp: map_ok_def)
      then show ?thesis using True by (auto simp: erased_def)
    next
      case False
      then have "lc_map c k \<noteq> Some x" using assms(2) by simp
      then show ?thesis using i(2) False unfolding map_ok_def by auto
    qed
    then show ?thesis by (simp add: map_ok_def)
  qed
  with e core show ?thesis by (intro exI [of _ ?c']) (simp add: lru_inv_def)
qed

lemma lru_del_ok:
  assumes "lru_inv c N U held"
  shows "\<exists>c' N' U'. lru_del k c = Some c' \<and> lru_inv c' N' U' held \<and> lc_map c' = (lc_map c)(k := None)"
proof (cases "lc_map c k")
  case None
  then show ?thesis using assms by (auto simp: lru_del_def fun_upd_idem)
next
  case (Some e)
  obtain h where "lc_handles c e = Some h" using assms Some by (auto simp: lru_inv_def map_ok_def)
  from erase_mapped [OF assms Some this] Some show ?thesis by (auto simp: lru_del_def)
qed

text \<open>One round of eviction removes the head of the idle list.\<close>

lemma drop_oldest_ok:
  assumes "lru_inv c (e # N) U held"
  shows "\<exists>c' h. drop_oldest c = Some c' \<and> lc_handles c e = Some h \<and> lc_map c (lh_key h) = Some e \<and>
     lru_inv c' N U held \<and> lc_map c' = (lc_map c)(lh_key h := None) \<and> lc_max_size c' = lc_max_size c \<and>
     lc_handles c' = (lc_handles c)(e := None) \<and> lc_deleted c' = lc_deleted c @ [lh_value h] \<and> lc_size c' = lc_size c - 1"
proof -
  have i: "lru_core c (e # N) U held" "map_ok c" using assms by (auto simp: lru_inv_def)
  note D = coreD [OF i(1)]
  obtain h where h: "lc_handles c e = Some h" "lh_in_cache h" using D(2) [of e] by (auto simp: cached_def)
  have m: "lc_map c (lh_key h) = Some e" using i(2) h by (auto simp: map_ok_def)
  have c0: "count held e = 0" using D(5) [of e] by simp
  have ref: "lh_ref h = 1" using D(3) [OF h(1)] h(2) c0 by (simp add: handle_ok_def)
  have n: "nxt (lc_links c) NOT_USE = e" using D(1) dlist_nxt_head [of "lc_links c" NOT_USE "e # N"] by (simp add: two_lists_def)
  have r: "remove1 e U = U" using D(11) by (intro remove1_idem) auto
  from erase_mapped [OF assms m h(1)] c0 r n h ref m show ?thesis
    by (auto simp: drop_oldest_def Let_def erased_def)
qed

lemma links_idle_empty: "links_ok h N U \<Longrightarrow> nxt h NOT_USE = NOT_USE \<longleftrightarrow> N = []"
  using dlist_empty_iff [of h NOT_USE N] by (auto simp: two_lists_def list_empty_def)

lemma prune_ok: "lru_inv c N U held \<Longrightarrow> \<exists>c'. prune c = Some c' \<and> lru_inv c' [] U held \<and> length (lc_deleted c') = length (lc_deleted c) + length N"
proof (induction N arbitrary: c)
  case Nil
  then show ?case using links_idle_empty [of "lc_links c" "[]" U]
    by (subst prune.simps) (auto simp: lru_inv_def lru_core_def)
next
  case (Cons e N)
  have ne: "nxt (lc_links c) NOT_USE \<noteq> NOT_USE"
    using Cons.prems links_idle_empty [of "lc_links c" "e # N" U] by (auto simp: lru_inv_def lru_core_def)
  obtain c1 where c1: "drop_oldest c = Some c1" "lru_inv c1 N U held" "length (lc_deleted c1) = Suc (length (lc_deleted c))"
    using drop_oldest_ok [OF Cons.prems] by auto
  from Cons.IH [OF c1(2)] c1 ne show ?case by (subst prune.simps) auto
qed

text \<open>
  Eviction removes a prefix of the idle list, just long enough: afterwards the cache fits or nothing is idle.
\<close>

lemma evict_ok:
  "lru_inv c N U held \<Longrightarrow> \<exists>c' n. evict c = Some c' \<and> lru_inv c' (drop n N) U held \<and> n \<le> length N \<and> lc_max_size c' = lc_max_size c \<and>
     (lc_size c' \<le> lc_max_size c \<or> n = length N) \<and> (0 < n \<longrightarrow> lc_max_size c \<le> lc_size c') \<and>
     lc_handles c' = lc_handles c |` (- set (take n N)) \<and>
     lc_deleted c' = lc_deleted c @ map (\<lambda>e. lh_value (the (lc_handles c e))) (take n N)"
proof (induction N arbitrary: c)
  case Nil
  then show ?case using links_idle_empty [of "lc_links c" "[]" U]
    by (subst evict.simps) (auto simp: lru_inv_def lru_core_def)
next
  case (Cons e N)
  have i: "lru_core c (e # N) U held" using Cons.prems by (simp add: lru_inv_def)
  have ne: "nxt (lc_links c) NOT_USE \<noteq> NOT_USE"
    using links_idle_empty [of "lc_links c" "e # N" U] coreD(1) [OF i] by simp
  show ?case
  proof (cases "lc_size c > lc_max_size c")
    case False
    then show ?thesis using Cons.prems by (subst evict.simps) (auto intro!: exI [of _ 0])
  next
    case True
    obtain c1 h where c1: "drop_oldest c = Some c1" "lc_handles c e = Some h" "lru_inv c1 N U held" "lc_max_size c1 = lc_max_size c"
      "lc_handles c1 = (lc_handles c)(e := None)" "lc_deleted c1 = lc_deleted c @ [lh_value h]" "lc_size c1 = lc_size c - 1"
      using drop_oldest_ok [OF Cons.prems] by blast
    obtain c' n where IH: "evict c1 = Some c'" "lru_inv c' (drop n N) U held" "n \<le> length N" "lc_max_size c' = lc_max_size c1"
      "lc_size c' \<le> lc_max_size c1 \<or> n = length N" "0 < n \<longrightarrow> lc_max_size c1 \<le> lc_size c'"
      "lc_handles c' = lc_handles c1 |` (- set (take n N))"
      "lc_deleted c' = lc_deleted c1 @ map (\<lambda>e. lh_value (the (lc_handles c1 e))) (take n N)"
      using Cons.IH [OF c1(3)] by blast
    have enN: "e \<notin> set N" using coreD(9) [OF i] by simp
    have s: "lc_size c' = length (drop n N) + length U" "lc_size c1 = length N + length U"
      using IH(2) c1(3) coreD(7) [of c' "drop n N" U held] coreD(7) [of c1 N U held] by (simp_all add: lru_inv_def)
    have "evict c = Some c'" using True ne c1(1) IH(1) by (subst evict.simps) simp
    moreover have "lc_handles c' = lc_handles c |` (- set (take (Suc n) (e # N)))"
      using IH(7) c1(5) by (auto simp: restrict_map_def fun_eq_iff)
    moreover have "lc_deleted c' = lc_deleted c @ map (\<lambda>e. lh_value (the (lc_handles c e))) (take (Suc n) (e # N))"
      using IH(8) c1(2,5,6) enN by (auto dest: in_set_takeD)
    moreover have "lc_max_size c \<le> lc_size c'" using IH(6) c1(4,7) s True by (cases "n = 0") auto
    ultimately show ?thesis using IH(2-6) c1(4) by (intro exI [of _ c'] exI [of _ "Suc n"]) auto
  qed
qed

section \<open>Insertion\<close>

text \<open>The handle is linked in use before the map knows it.\<close>

lemma core_insert:
  assumes "lru_core c N U held" "lc_handles c e = None" "e \<notin> {0, NOT_USE, IN_USE}" "lh_in_cache h" "lh_ref h = 2"
  shows "\<exists>l. list_append IN_USE e (lc_links c) = Some l \<and>
     lru_core (c\<lparr>lc_handles := (lc_handles c)(e \<mapsto> h), lc_size := lc_size c + 1, lc_links := l\<rparr>) N (U @ [e]) (add_mset e held)"
proof -
  note D = coreD [OF assms(1)]
  have out: "e \<notin> set N" "e \<notin> set U" using D(2) [of e] assms(2) by (auto simp: cached_def)
  have c0: "count held e = 0" using D(4) [of e] assms(2) by (metis gr0I)
  obtain l where l: "list_append IN_USE e (lc_links c) = Some l" "links_ok l N (U @ [e])"
    using links_append(2) [OF D(1) assms(3) out] by blast
  let ?c = "c\<lparr>lc_handles := (lc_handles c)(e \<mapsto> h), lc_size := lc_size c + 1, lc_links := l\<rparr>"
  have "cached ?c x \<longleftrightarrow> x \<in> set N \<or> x \<in> set (U @ [e])" for x
    using D(2) [of x] assms(4) out by (cases "x = e") (auto simp: cached_def)
  moreover have "handle_ok (add_mset e held) x k" if "((lc_handles c)(e \<mapsto> h)) x = Some k" for x k
    using that D(3) [of x k] assms(3-5) c0 by (cases "x = e") (auto simp: handle_ok_def)
  moreover have "((lc_handles c)(e \<mapsto> h)) x \<noteq> None" if "0 < count (add_mset e held) x" for x
    using that D(4) [of x] by (cases "x = e") (simp_all del: count_greater_zero_iff)
  moreover have "count (add_mset e held) x = 0" if "x \<in> set N" for x using that D(5) [of x] out by auto
  moreover have "0 < count (add_mset e held) x" if "x \<in> set (U @ [e])" for x using that D(6) [of x] by auto
  moreover have "lc_size ?c = length N + length (U @ [e])" using D(7) by simp
  ultimately show ?thesis using l D(8) by (simp add: lru_core_def)
qed

text \<open>The values that are deleted or still owned by a live handle.\<close>

definition live_values :: "(addr \<Rightarrow> ('k, 'v) lru_handle option) \<Rightarrow> 'v multiset" where
  "live_values H = image_mset (\<lambda>e. lh_value (the (H e))) (mset_set (dom H))"

definition owned :: "('k, 'v) lru_cache \<Rightarrow> 'v multiset" where
  "owned c = mset (lc_deleted c) + live_values (lc_handles c)"

lemma live_insert:
  assumes "finite (dom H)" "H e = None"
  shows "live_values (H(e \<mapsto> h)) = add_mset (lh_value h) (live_values H)"
proof -
  have "image_mset (\<lambda>x. lh_value (the ((H(e \<mapsto> h)) x))) (mset_set (dom H)) = image_mset (\<lambda>x. lh_value (the (H x))) (mset_set (dom H))"
    using assms by (intro image_mset_cong) auto
  moreover have "mset_set (insert e (dom H)) = add_mset e (mset_set (dom H))" using assms by (simp add: domIff)
  ultimately show ?thesis by (simp add: live_values_def)
qed

lemma live_remove:
  assumes "finite (dom H)" "H e = Some h"
  shows "live_values H = add_mset (lh_value h) (live_values (H(e := None)))"
  using live_insert [of "H(e := None)" e h] assms by (simp add: fun_upd_idem)

lemma live_same:
  assumes "\<And>x. map_option lh_value (H' x) = map_option lh_value (H x)"
  shows "live_values H' = live_values H"
proof -
  have n: "H' x = None \<longleftrightarrow> H x = None" for x using assms [of x] by (metis map_option_is_None)
  then have d: "dom H' = dom H" by (simp add: dom_def)
  have "lh_value (the (H' x)) = lh_value (the (H x))" if "x \<in> dom H" for x
    using assms [of x] that n [of x] by (cases "H x"; cases "H' x") auto
  then show ?thesis unfolding live_values_def d
    by (intro image_mset_cong) (metis elem_mset_set emptyE mset_set.infinite set_mset_empty)
qed

lemma live_erased:
  assumes "finite (dom H)" "H e = Some h"
  shows "mset (if count held e = 0 then [lh_value h] else []) + live_values (H(e := erased held e h)) = live_values H"
proof (cases "count held e = 0")
  case True
  then show ?thesis using live_remove [OF assms] by (simp add: erased_def)
next
  case False
  have "live_values (H(e := erased held e h)) = live_values H"
    by (rule live_same) (use assms(2) False in \<open>simp add: erased_def del: count_greater_zero_iff\<close>)
  then show ?thesis using False by simp
qed

lemma live_restrict:
  assumes "finite (dom H)" "distinct es" "set es \<subseteq> dom H"
  shows "mset (map (\<lambda>e. lh_value (the (H e))) es) + live_values (H |` (- set es)) = live_values H"
  using assms
proof (induction es arbitrary: H)
  case (Cons e es)
  then obtain h where h: "H e = Some h" by auto
  define H' where "H' = H(e := None)"
  have "map (\<lambda>x. lh_value (the (H' x))) es = map (\<lambda>x. lh_value (the (H x))) es" using Cons.prems(2) by (auto simp: H'_def)
  moreover have "H |` (- set (e # es)) = H' |` (- set es)" by (auto simp: H'_def restrict_map_def fun_eq_iff)
  moreover have "finite (dom H')" "set es \<subseteq> dom H'" "distinct es" using Cons.prems by (auto simp: H'_def simp del: fun_upd_apply)
  then have "mset (map (\<lambda>x. lh_value (the (H' x))) es) + live_values (H' |` (- set es)) = live_values H'" by (intro Cons.IH)
  moreover have "live_values H = add_mset (lh_value h) (live_values H')" unfolding H'_def by (rule live_remove) (use Cons.prems h in auto)
  moreover have "mset (map (\<lambda>x. lh_value (the (H x))) (e # es)) = add_mset (lh_value h) (mset (map (\<lambda>x. lh_value (the (H x))) es))"
    using h by simp
  ultimately show ?case by (metis union_mset_add_mset_left)
qed (simp add: restrict_map_def)

text \<open>Replacing the entry of the key, or adding one.\<close>

lemma map_ok_put:
  assumes "map_ok c" "lc_handles c e = None" "lh_in_cache h" "lh_key h = k"
    "lc_map c' = (lc_map c)(k \<mapsto> e)"
    "\<And>x y. lc_handles c' x = Some y \<and> lh_in_cache y \<longleftrightarrow> (if x = e then y = h else Some x \<noteq> lc_map c k \<and> lc_handles c x = Some y \<and> lh_in_cache y)"
  shows "map_ok c'"
proof -
  have "lc_map c' k' = Some x \<longleftrightarrow> (\<exists>y. lc_handles c' x = Some y \<and> lh_in_cache y \<and> lh_key y = k')" for k' x
  proof (cases "x = e")
    case True
    have "lc_map c k' \<noteq> Some e" using assms(1,2) by (simp add: map_ok_def)
    moreover have "(\<exists>y. lc_handles c' x = Some y \<and> lh_in_cache y \<and> lh_key y = k') \<longleftrightarrow> k' = k"
      using assms(6) [of e] assms(4) True by (simp, metis)
    ultimately show ?thesis using True assms(5) by simp
  next
    case False
    have m: "lc_map c k' = Some x \<longleftrightarrow> (\<exists>y. lc_handles c x = Some y \<and> lh_in_cache y \<and> lh_key y = k')" for k'
      using assms(1) by (simp add: map_ok_def)
    have "(\<exists>y. lc_handles c' x = Some y \<and> lh_in_cache y \<and> lh_key y = k') \<longleftrightarrow> Some x \<noteq> lc_map c k \<and> lc_map c k' = Some x"
      using assms(6) [of x] False m [of k'] by auto
    moreover have "lc_map c k = Some x \<Longrightarrow> lc_map c k' = Some x \<Longrightarrow> k' = k" using m [of k] m [of k'] by auto
    ultimately show ?thesis using False assms(5) by auto
  qed
  then show ?thesis by (simp add: map_ok_def)
qed

text \<open>The cache after the map update and before eviction.\<close>

definition put_mid :: "addr \<Rightarrow> 'k \<Rightarrow> 'v \<Rightarrow> ('k, 'v) lru_cache \<Rightarrow> ('k, 'v) lru_cache option" where
  "put_mid e key value c =
     do { l \<leftarrow> list_append IN_USE e (lc_links c);
          c \<leftarrow> Some (c\<lparr>lc_handles := (lc_handles c)(e \<mapsto> \<lparr>lh_value = value, lh_key = key, lh_ref = 2, lh_in_cache = True\<rparr>),
                      lc_size := lc_size c + 1, lc_links := l\<rparr>);
          (case lc_map c key of
             Some old \<Rightarrow> do { c \<leftarrow> erase_node old c; Some (c\<lparr>lc_map := (lc_map c)(key \<mapsto> e)\<rparr>) }
           | None \<Rightarrow> Some (c\<lparr>lc_map := (lc_map c)(key \<mapsto> e)\<rparr>)) }"

lemma lru_put_mid:
  "lru_put e key value c =
     do { c \<leftarrow> put_mid e key value c; c \<leftarrow> (if lc_max_size c > 0 then evict c else Some c); Some (e, c) }"
  by (simp add: lru_put_def put_mid_def Let_def Option.bind_assoc)

definition without_old :: "'k \<Rightarrow> ('k, 'v) lru_cache \<Rightarrow> addr list \<Rightarrow> addr list" where
  "without_old k c xs = (case lc_map c k of None \<Rightarrow> xs | Some old \<Rightarrow> remove1 old xs)"

lemma put_mid_ok:
  assumes "lru_inv c N U held" "lc_handles c e = None" "e \<notin> {0, NOT_USE, IN_USE}"
  shows "\<exists>c'. put_mid e k v c = Some c' \<and>
     lru_inv c' (without_old k c N) (without_old k c (U @ [e])) (add_mset e held) \<and>
     lc_map c' = (lc_map c)(k \<mapsto> e) \<and> lc_max_size c' = lc_max_size c \<and>
     map_option lh_value (lc_handles c' e) = Some v \<and> owned c' = add_mset v (owned c)"
proof -
  let ?h = "\<lparr>lh_value = v, lh_key = k, lh_ref = 2, lh_in_cache = True\<rparr>"
  have i: "lru_core c N U held" "map_ok c" using assms(1) by (auto simp: lru_inv_def)
  obtain l where l: "list_append IN_USE e (lc_links c) = Some l"
    "lru_core (c\<lparr>lc_handles := (lc_handles c)(e \<mapsto> ?h), lc_size := lc_size c + 1, lc_links := l\<rparr>) N (U @ [e]) (add_mset e held)"
    using core_insert [OF i(1) assms(2,3), of ?h] by auto
  let ?c1 = "c\<lparr>lc_handles := (lc_handles c)(e \<mapsto> ?h), lc_size := lc_size c + 1, lc_links := l\<rparr>"
  have o1: "owned ?c1 = add_mset v (owned c)"
    using live_insert [of "lc_handles c" e ?h] coreD(8) [OF i(1)] assms(2) by (simp add: owned_def)
  show ?thesis
  proof (cases "lc_map c k")
    case None
    let ?c2 = "?c1\<lparr>lc_map := (lc_map c)(k \<mapsto> e)\<rparr>"
    have "lc_handles ?c2 x = Some y \<and> lh_in_cache y \<longleftrightarrow>
        (if x = e then y = ?h else Some x \<noteq> lc_map c k \<and> lc_handles c x = Some y \<and> lh_in_cache y)" for x y
      using None by (cases "x = e") auto
    then have "map_ok ?c2" by (intro map_ok_put [OF i(2) assms(2), of ?h k ?c2]) simp_all
    moreover have "lru_core ?c2 N (U @ [e]) (add_mset e held)" using l(2) by (simp add: lru_core_def cached_def)
    moreover have "owned ?c2 = owned ?c1" by (simp add: owned_def)
    ultimately show ?thesis using None l(1) o1 by (simp add: put_mid_def lru_inv_def without_old_def)
  next
    case (Some old)
    obtain ho where ho: "lc_handles c old = Some ho" "lh_in_cache ho" using i(2) Some by (auto simp: map_ok_def)
    have ne: "old \<noteq> e" using ho(1) assms(2) by auto
    obtain l2 where e2: "erase_node old ?c1 = Some (?c1\<lparr>lc_links := l2, lc_handles := (lc_handles ?c1)(old := erased (add_mset e held) old ho),
         lc_size := lc_size ?c1 - 1, lc_deleted := lc_deleted ?c1 @ (if count (add_mset e held) old = 0 then [lh_value ho] else [])\<rparr>)"
      "lru_core (?c1\<lparr>lc_links := l2, lc_handles := (lc_handles ?c1)(old := erased (add_mset e held) old ho),
         lc_size := lc_size ?c1 - 1, lc_deleted := lc_deleted ?c1 @ (if count (add_mset e held) old = 0 then [lh_value ho] else [])\<rparr>)
         (remove1 old N) (remove1 old (U @ [e])) (add_mset e held)"
      using erase_node_ok [OF l(2), of old ho] ho ne by auto
    define c2 where "c2 = ?c1\<lparr>lc_links := l2, lc_handles := (lc_handles ?c1)(old := erased (add_mset e held) old ho),
         lc_size := lc_size ?c1 - 1, lc_deleted := lc_deleted ?c1 @ (if count (add_mset e held) old = 0 then [lh_value ho] else [])\<rparr>"
    let ?c3 = "c2\<lparr>lc_map := (lc_map c)(k \<mapsto> e)\<rparr>"
    have "lc_handles ?c3 x = Some y \<and> lh_in_cache y \<longleftrightarrow>
        (if x = e then y = ?h else Some x \<noteq> lc_map c k \<and> lc_handles c x = Some y \<and> lh_in_cache y)" for x y
      using Some ne by (cases "x = e"; cases "x = old") (auto simp: c2_def erased_def)
    then have "map_ok ?c3" by (intro map_ok_put [OF i(2) assms(2), of ?h k ?c3]) (simp_all add: c2_def)
    moreover have "lru_core ?c3 (remove1 old N) (remove1 old (U @ [e])) (add_mset e held)"
      using e2(2) unfolding c2_def [symmetric] by (simp add: lru_core_def cached_def)
    moreover have "owned ?c3 = owned ?c1"
    proof -
      have c3: "lc_handles ?c3 = (lc_handles ?c1)(old := erased (add_mset e held) old ho)"
        "lc_deleted ?c3 = lc_deleted ?c1 @ (if count (add_mset e held) old = 0 then [lh_value ho] else [])" by (simp_all add: c2_def)
      have "lc_handles ?c1 old = Some ho" using ho ne by simp
      from live_erased [OF coreD(8) [OF l(2)] this, of "add_mset e held"] show ?thesis
        by (simp only: owned_def c3 mset_append add.assoc)
    qed
    ultimately show ?thesis using Some l(1) o1 e2(1) ne unfolding c2_def [symmetric]
      by (simp add: put_mid_def lru_inv_def without_old_def) (simp add: c2_def)
  qed
qed

lemma map_after_evict:
  assumes "map_ok c" "map_ok c'" "lc_handles c' = lc_handles c |` (- A)"
  shows "lc_map c' k = Some x \<longleftrightarrow> lc_map c k = Some x \<and> x \<notin> A"
  using assms unfolding map_ok_def by (auto simp: restrict_map_def)

lemma lru_put_ok:
  assumes "lru_inv c N U held" "lc_handles c e = None" "e \<notin> {0, NOT_USE, IN_USE}"
  shows "\<exists>c' n. lru_put e k v c = Some (e, c') \<and> n \<le> length (without_old k c N) \<and>
     lru_inv c' (drop n (without_old k c N)) (without_old k c (U @ [e])) (add_mset e held) \<and>
     map_option lh_value (lc_handles c' e) = Some v \<and> owned c' = add_mset v (owned c) \<and> lc_max_size c' = lc_max_size c \<and>
     (\<forall>k' x. lc_map c' k' = Some x \<longleftrightarrow> ((lc_map c)(k \<mapsto> e)) k' = Some x \<and> x \<notin> set (take n (without_old k c N))) \<and>
     lc_map c' k = Some e \<and>
     (0 < lc_max_size c \<longrightarrow> lc_size c' \<le> lc_max_size c \<or> n = length (without_old k c N)) \<and>
     (0 < n \<longrightarrow> 0 < lc_max_size c \<and> lc_max_size c \<le> lc_size c')"
proof -
  let ?N = "without_old k c N" and ?U = "without_old k c (U @ [e])"
  obtain m where m: "put_mid e k v c = Some m" "lru_inv m ?N ?U (add_mset e held)" "lc_map m = (lc_map c)(k \<mapsto> e)"
    "lc_max_size m = lc_max_size c" "map_option lh_value (lc_handles m e) = Some v" "owned m = add_mset v (owned c)"
    using put_mid_ok [OF assms] by blast
  show ?thesis
  proof (cases "lc_max_size c > 0")
    case False
    then show ?thesis using m by (intro exI [of _ m] exI [of _ 0]) (simp add: lru_put_mid)
  next
    case True
    obtain c' n where c': "evict m = Some c'" "lru_inv c' (drop n ?N) ?U (add_mset e held)" "n \<le> length ?N"
      "lc_max_size c' = lc_max_size m" "lc_size c' \<le> lc_max_size m \<or> n = length ?N" "0 < n \<longrightarrow> lc_max_size m \<le> lc_size c'"
      "lc_handles c' = lc_handles m |` (- set (take n ?N))"
      "lc_deleted c' = lc_deleted m @ map (\<lambda>e. lh_value (the (lc_handles m e))) (take n ?N)"
      using evict_ok [OF m(2)] by blast
    have core: "lru_core m ?N ?U (add_mset e held)" using m(2) by (simp add: lru_inv_def)
    note D = coreD [OF core]
    have "e \<notin> set ?N" using D(5) [of e] by (metis count_add_mset nat.distinct(1))
    then have eN: "e \<notin> set (take n ?N)" by (meson in_set_takeD)
    have "set (take n ?N) \<subseteq> dom (lc_handles m)" using D(2) by (fastforce simp: cached_def dest: in_set_takeD)
    then have "owned c' = owned m"
      using live_restrict [of "lc_handles m" "take n ?N"] D(8,9) c'(7,8) by (simp add: owned_def ac_simps del: mset_map)
    moreover have maps: "lc_map c' k' = Some x \<longleftrightarrow> lc_map m k' = Some x \<and> x \<notin> set (take n ?N)" for k' x
      using map_after_evict [OF _ _ c'(7)] m(2) c'(2) by (simp add: lru_inv_def)
    moreover have "lru_put e k v c = Some (e, c')" using m(1,4) True c'(1) by (simp add: lru_put_mid)
    moreover have "map_option lh_value (lc_handles c' e) = Some v" using c'(7) eN m(5) by (simp add: restrict_map_def)
    moreover have "lc_map c' k = Some e" using maps [of k e] m(3) eN by simp
    ultimately show ?thesis using m(3,4,6) c'(2-6) True
      by (intro exI [of _ c'] exI [of _ n]) (simp del: fun_upd_apply)
  qed
qed

section \<open>Runs\<close>

text \<open>
  A history of calls. Callers release only handles they hold, and \<^verbatim>\<open>new\<close> returns an address that is not in use; \<open>puts\<close>
  collects the values handed to the cache.
\<close>

definition fresh_addr :: "('k, 'v) lru_cache \<Rightarrow> addr \<Rightarrow> bool" where
  "fresh_addr c e \<longleftrightarrow> lc_handles c e = None \<and> e \<notin> {0, NOT_USE, IN_USE}"

inductive lru_run :: "('k, 'v) lru_cache \<Rightarrow> addr multiset \<Rightarrow> 'v multiset \<Rightarrow> bool" where
  start: "lru_run (new_lru_cache h) {#} {#}"
| resize: "lru_run c held puts \<Longrightarrow> lru_run (set_max_size c n) held puts"
| hit: "lru_run c held puts \<Longrightarrow> lru_get k c = Some (Some e, c') \<Longrightarrow> lru_run c' (add_mset e held) puts"
| miss: "lru_run c held puts \<Longrightarrow> lru_get k c = Some (None, c') \<Longrightarrow> lru_run c' held puts"
| put: "lru_run c held puts \<Longrightarrow> fresh_addr c e \<Longrightarrow> lru_put e k v c = Some (e, c') \<Longrightarrow>
     lru_run c' (add_mset e held) (add_mset v puts)"
| release: "lru_run c held puts \<Longrightarrow> e \<in># held \<Longrightarrow> lru_release (Some e) c = Some c' \<Longrightarrow> lru_run c' (held - {#e#}) puts"
| del: "lru_run c held puts \<Longrightarrow> lru_del k c = Some c' \<Longrightarrow> lru_run c' held puts"
| prune: "lru_run c held puts \<Longrightarrow> prune c = Some c' \<Longrightarrow> lru_run c' held puts"

lemma owned_get:
  assumes "lru_inv c N U held" "lc_map c k = Some e" "lru_get k c = Some (r, c')"
  shows "owned c' = owned c"
proof -
  obtain c1 where c1: "lru_get k c = Some (Some e, c1)" "lc_deleted c1 = lc_deleted c"
    "\<forall>x. map_option lh_value (lc_handles c1 x) = map_option lh_value (lc_handles c x)"
    using lru_get_hit [OF assms(1,2)] by blast
  have "live_values (lc_handles c1) = live_values (lc_handles c)" using c1(3) by (intro live_same) blast
  moreover have "c' = c1" using c1(1) assms(3) by simp
  ultimately show ?thesis using c1(2) by (simp add: owned_def)
qed

lemma owned_release:
  assumes "lru_inv c N U held" "e \<in># held" "lru_release (Some e) c = Some c'"
  shows "owned c' = owned c"
proof -
  have f: "finite (dom (lc_handles c))" using assms(1) by (simp add: lru_inv_def lru_core_def)
  obtain c1 where c1: "lru_release (Some e) c = Some c1"
    "lc_deleted c1 = lc_deleted c \<and> (\<forall>x. map_option lh_value (lc_handles c1 x) = map_option lh_value (lc_handles c x)) \<or>
     (\<exists>h. lc_handles c e = Some h \<and> lc_deleted c1 = lc_deleted c @ [lh_value h] \<and> lc_handles c1 = (lc_handles c)(e := None))"
    using lru_release_ok [OF assms(1,2)] by blast
  have "c' = c1" using c1(1) assms(3) by simp
  from c1(2) show ?thesis
  proof
    assume u: "lc_deleted c1 = lc_deleted c \<and> (\<forall>x. map_option lh_value (lc_handles c1 x) = map_option lh_value (lc_handles c x))"
    then have "live_values (lc_handles c1) = live_values (lc_handles c)" by (intro live_same) blast
    then show ?thesis using u \<open>c' = c1\<close> by (simp add: owned_def)
  next
    assume "\<exists>h. lc_handles c e = Some h \<and> lc_deleted c1 = lc_deleted c @ [lh_value h] \<and> lc_handles c1 = (lc_handles c)(e := None)"
    then obtain h where "lc_handles c e = Some h" "lc_deleted c1 = lc_deleted c @ [lh_value h]" "lc_handles c1 = (lc_handles c)(e := None)"
      by blast
    then show ?thesis using live_remove [OF f, of e h] \<open>c' = c1\<close> by (simp add: owned_def)
  qed
qed

lemma owned_erase:
  assumes "lru_inv c N U held" "lc_map c k = Some e" "erase_node e (c\<lparr>lc_map := (lc_map c)(k := None)\<rparr>) = Some c'"
  shows "owned c' = owned c"
proof -
  have f: "finite (dom (lc_handles c))" using assms(1) by (simp add: lru_inv_def lru_core_def)
  obtain h where h: "lc_handles c e = Some h" using assms(1,2) by (auto simp: lru_inv_def map_ok_def)
  from erase_mapped [OF assms(1,2) h] assms(3) have "lc_handles c' = (lc_handles c)(e := erased held e h)"
    "lc_deleted c' = lc_deleted c @ (if count held e = 0 then [lh_value h] else [])" by auto
  then show ?thesis using live_erased [OF f h, of held] by (simp add: owned_def del: fun_upd_apply)
qed

lemma owned_prune: "lru_inv c N U held \<Longrightarrow> prune c = Some c' \<Longrightarrow> owned c' = owned c"
proof (induction N arbitrary: c)
  case Nil
  then show ?case using links_idle_empty [of "lc_links c" "[]" U]
    by (subst (asm) prune.simps) (auto simp: lru_inv_def lru_core_def)
next
  case (Cons e N)
  have ne: "nxt (lc_links c) NOT_USE \<noteq> NOT_USE"
    using Cons.prems(1) links_idle_empty [of "lc_links c" "e # N" U] by (auto simp: lru_inv_def lru_core_def)
  obtain c1 h where c1: "drop_oldest c = Some c1" "lc_handles c e = Some h" "lru_inv c1 N U held"
    "lc_handles c1 = (lc_handles c)(e := None)" "lc_deleted c1 = lc_deleted c @ [lh_value h]"
    using drop_oldest_ok [OF Cons.prems(1)] by blast
  have f: "finite (dom (lc_handles c))" using Cons.prems(1) by (simp add: lru_inv_def lru_core_def)
  have "owned c1 = owned c" using live_remove [OF f c1(2)] c1(4,5) by (simp add: owned_def)
  moreover have "prune c1 = Some c'" using Cons.prems(2) ne c1(1) by (subst (asm) prune.simps) simp
  ultimately show ?case using Cons.IH [OF c1(3)] by simp
qed

lemma lru_del_owned:
  assumes "lru_inv c N U held" "lru_del k c = Some c'"
  shows "(\<exists>N' U'. lru_inv c' N' U' held) \<and> owned c' = owned c"
proof (cases "lc_map c k")
  case None
  then show ?thesis using assms by (auto simp: lru_del_def)
next
  case (Some e)
  then show ?thesis using lru_del_ok [OF assms(1), of k] assms(2) owned_erase [OF assms(1) Some, of c']
    by (auto simp: lru_del_def)
qed

lemma set_max_inv: "lru_inv c N U held \<Longrightarrow> lru_inv (set_max_size c n) N U held" "owned (set_max_size c n) = owned c"
  by (simp_all add: lru_inv_def lru_core_def map_ok_def cached_def set_max_size_def owned_def)

lemma lru_run_inv: "lru_run c held puts \<Longrightarrow> (\<exists>N U. lru_inv c N U held) \<and> owned c = puts"
proof (induction rule: lru_run.induct)
  case (start h)
  have "owned (new_lru_cache h) = {#}" by (simp add: owned_def new_lru_cache_def live_values_def)
  then show ?case using new_lru_inv by blast
next
  case (resize c held puts n)
  then show ?case using set_max_inv by metis
next
  case (hit c held puts k e c')
  then obtain N U where i: "lru_inv c N U held" by blast
  have m: "lc_map c k = Some e" using hit.hyps(2) by (auto simp: lru_get_def split: option.splits bind_splits)
  obtain N' U' where "lru_inv c' N' U' (add_mset e held)" using lru_get_hit [OF i m] hit.hyps(2) by fastforce
  then show ?case using owned_get [OF i m hit.hyps(2)] hit.IH by blast
next
  case (miss c held puts k c')
  then have "c' = c" by (auto simp: lru_get_def split: option.splits bind_splits)
  then show ?case using miss.IH by simp
next
  case (put c held puts e k v c')
  then obtain N U where i: "lru_inv c N U held" by blast
  then show ?case using lru_put_ok [OF i, of e k v] put by (auto simp: fresh_addr_def)
next
  case (release c held puts e c')
  then obtain N U where i: "lru_inv c N U held" by blast
  obtain N' U' where "lru_inv c' N' U' (held - {#e#})" using lru_release_ok [OF i release.hyps(2)] release.hyps(3) by fastforce
  then show ?case using owned_release [OF i release.hyps(2,3)] release.IH by blast
next
  case (del c held puts k c')
  then show ?case using lru_del_owned by metis
next
  case (prune c held puts c')
  then obtain N U where i: "lru_inv c N U held" by blast
  then show ?case using owned_prune [OF i prune.hyps(2)] prune_ok [OF i] prune by auto
qed

section \<open>The destructor\<close>

lemma destroy_from_ok:
  assumes "dlist (lc_links c) NOT_USE (xs @ ys)"
    "\<forall>e \<in> set ys. \<exists>h. lc_handles c e = Some h \<and> lh_in_cache h \<and> lh_ref h = 1"
  shows "\<exists>c'. destroy_from (hd (ys @ [NOT_USE])) c = Some c' \<and> lc_handles c' = lc_handles c |` (- set ys) \<and>
     lc_deleted c' = lc_deleted c @ map (\<lambda>e. lh_value (the (lc_handles c e))) ys"
  using assms
proof (induction ys arbitrary: xs c)
  case Nil
  then show ?case by (subst destroy_from.simps) (simp add: restrict_map_def)
next
  case (Cons e ys)
  obtain h where h: "lc_handles c e = Some h" "lh_in_cache h" "lh_ref h = 1" using Cons.prems(2) by auto
  have d: "e \<noteq> NOT_USE" "e \<notin> set ys" using Cons.prems(1) by (auto simp: dlist_def)
  have n: "nxt (lc_links c) e = hd (ys @ [NOT_USE])" using dlist_neighbours(2) [OF Cons.prems(1)] by (cases ys) simp_all
  let ?c1 = "c\<lparr>lc_deleted := lc_deleted c @ [lh_value h], lc_handles := (lc_handles c)(e := None)\<rparr>"
  have u: "lru_unref e (c\<lparr>lc_handles := (lc_handles c)(e \<mapsto> h\<lparr>lh_in_cache := False\<rparr>)\<rparr>) = Some ?c1"
    using h by (simp add: lru_unref_def Let_def)
  have "dlist (lc_links ?c1) NOT_USE ((xs @ [e]) @ ys)" using Cons.prems(1) by simp
  moreover have "\<forall>x \<in> set ys. \<exists>h. lc_handles ?c1 x = Some h \<and> lh_in_cache h \<and> lh_ref h = 1" using Cons.prems(2) d(2) by auto
  ultimately obtain c' where c': "destroy_from (hd (ys @ [NOT_USE])) ?c1 = Some c'" "lc_handles c' = lc_handles ?c1 |` (- set ys)"
    "lc_deleted c' = lc_deleted ?c1 @ map (\<lambda>e. lh_value (the (lc_handles ?c1 e))) ys" using Cons.IH [of ?c1 "xs @ [e]"] by blast
  have "destroy_from e c = Some c'" using d(1) h n u c'(1) by (subst destroy_from.simps) (simp add: Let_def)
  moreover have "lc_handles c' = lc_handles c |` (- set (e # ys))" using c'(2) by (auto simp: restrict_map_def fun_eq_iff)
  moreover have "lc_deleted c' = lc_deleted c @ map (\<lambda>e. lh_value (the (lc_handles c e))) (e # ys)" using c'(3) h(1) d(2) by auto
  ultimately show ?case by auto
qed

lemma destroy_cache_ok:
  assumes "lru_inv c N U {#}"
  shows "\<exists>c'. destroy_cache c = Some c' \<and> lc_handles c' = (\<lambda>e. None) \<and> mset (lc_deleted c') = owned c"
proof -
  have core: "lru_core c N U {#}" using assms by (simp add: lru_inv_def)
  note D = coreD [OF core]
  have U: "U = []" using D(6) by (cases U) auto
  have ok: "\<exists>h. lc_handles c e = Some h \<and> lh_in_cache h \<and> lh_ref h = 1" if "e \<in> set N" for e
    using that D(2) [of e] D(3) [of e] by (auto simp: cached_def handle_ok_def)
  have all: "dom (lc_handles c) = set N"
    using D(2,3) U ok by (auto simp: cached_def handle_ok_def dom_def) blast
  have e: "nxt (lc_links c) IN_USE = IN_USE" using D(1) U dlist_nxt_head [of "lc_links c" IN_USE "[]"] by (simp add: two_lists_def)
  have n: "nxt (lc_links c) NOT_USE = hd (N @ [NOT_USE])" using D(1) dlist_nxt_head [of "lc_links c" NOT_USE N] by (simp add: two_lists_def)
  have "dlist (lc_links c) NOT_USE ([] @ N)" using D(1) by (simp add: two_lists_def)
  then obtain c' where c': "destroy_from (hd (N @ [NOT_USE])) c = Some c'" "lc_handles c' = lc_handles c |` (- set N)"
    "lc_deleted c' = lc_deleted c @ map (\<lambda>e. lh_value (the (lc_handles c e))) N" using destroy_from_ok [of c "[]" N] ok by blast
  have h: "lc_handles c |` (- set N) = (\<lambda>e. None)" using all by (auto simp: restrict_map_def fun_eq_iff dom_def)
  have z: "live_values (\<lambda>e. None :: ('a, 'b) lru_handle option) = {#}" by (simp add: live_values_def)
  have "mset (lc_deleted c') = owned c"
    using live_restrict [of "lc_handles c" N] D(8,9) all c'(3) unfolding h owned_def z by (simp del: mset_map)
  then show ?thesis using c'(1,2) e n h by (simp add: destroy_cache_def)
qed

section \<open>The interface of a cache with handles\<close>

text \<open>
  What a client of the cache relies on: \<open>lookup\<close> is the key map, \<open>val\<close> reads a value through a handle, \<open>upd\<close> writes it.
\<close>

locale handle_cache =
  fixes inv :: "'c \<Rightarrow> 'e multiset \<Rightarrow> bool"
    and lookup :: "'c \<Rightarrow> 'k \<Rightarrow> 'e option"
    and val :: "'c \<Rightarrow> 'e \<Rightarrow> 'v option"
    and upd :: "'e \<Rightarrow> 'v \<Rightarrow> 'c \<Rightarrow> 'c option"
    and get :: "'k \<Rightarrow> 'c \<Rightarrow> ('e option \<times> 'c) option"
    and release :: "'e option \<Rightarrow> 'c \<Rightarrow> 'c option"
  assumes get_hit: "inv c held \<Longrightarrow> lookup c k = Some e \<Longrightarrow>
      \<exists>c'. get k c = Some (Some e, c') \<and> inv c' (add_mset e held) \<and> lookup c' = lookup c \<and> val c' = val c"
    and get_miss: "lookup c k = None \<Longrightarrow> get k c = Some (None, c)"
    and lookup_val: "inv c held \<Longrightarrow> lookup c k = Some e \<Longrightarrow> val c e \<noteq> None"
    and held_val: "inv c held \<Longrightarrow> e \<in># held \<Longrightarrow> val c e \<noteq> None"
    and release_held: "inv c held \<Longrightarrow> e \<in># held \<Longrightarrow>
      \<exists>c'. release (Some e) c = Some c' \<and> inv c' (held - {#e#}) \<and> lookup c' = lookup c \<and>
        (\<forall>x. val c' x = val c x \<or> x = e \<and> val c' x = None)"
    and upd_held: "inv c held \<Longrightarrow> e \<in># held \<Longrightarrow>
      \<exists>c'. upd e v c = Some c' \<and> inv c' held \<and> lookup c' = lookup c \<and> val c' = (val c)(e \<mapsto> v)"
begin

text \<open>Writing through a handle and giving it back keeps an entry that the map still has.\<close>

lemma upd_release:
  assumes "inv c (add_mset e held)" "lookup c k = Some e"
  shows "\<exists>c1 c2. upd e v c = Some c1 \<and> release (Some e) c1 = Some c2 \<and> inv c2 held \<and> lookup c2 = lookup c \<and>
     val c2 = (val c)(e \<mapsto> v)"
proof -
  obtain c1 where c1: "upd e v c = Some c1" "inv c1 (add_mset e held)" "lookup c1 = lookup c" "val c1 = (val c)(e \<mapsto> v)"
    using upd_held [OF assms(1), of e v] by auto
  obtain c2 where c2: "release (Some e) c1 = Some c2" "inv c2 held" "lookup c2 = lookup c1"
    "\<forall>x. val c2 x = val c1 x \<or> x = e \<and> val c2 x = None"
    using release_held [OF c1(2), of e] unfolding add_mset_remove_trivial by (metis union_single_eq_member)
  have e: "val c2 e \<noteq> None" using lookup_val [OF c2(2)] c2(3) c1(3) assms(2) by simp
  have "val c2 = val c1"
  proof
    show "val c2 x = val c1 x" for x using spec [OF c2(4), of x] e by auto
  qed
  then show ?thesis using c1 c2(1-3) by metis
qed

lemma get_release:
  assumes "inv c held" "lookup c k = Some e"
  shows "\<exists>c1 c2. get k c = Some (Some e, c1) \<and> release (Some e) c1 = Some c2 \<and> inv c2 held \<and> lookup c2 = lookup c \<and> val c2 = val c"
proof -
  obtain c1 where c1: "get k c = Some (Some e, c1)" "inv c1 (add_mset e held)" "lookup c1 = lookup c" "val c1 = val c"
    using get_hit [OF assms] by blast
  obtain c2 where c2: "release (Some e) c1 = Some c2" "inv c2 held" "lookup c2 = lookup c1"
    "\<forall>x. val c2 x = val c1 x \<or> x = e \<and> val c2 x = None"
    using release_held [OF c1(2), of e] unfolding add_mset_remove_trivial by (metis union_single_eq_member)
  have e: "val c2 e \<noteq> None" using lookup_val [OF c2(2)] c2(3) c1(3) assms(2) by simp
  have "val c2 = val c1"
  proof
    show "val c2 x = val c1 x" for x using spec [OF c2(4), of x] e by auto
  qed
  then show ?thesis using c1 c2(1-3) by metis
qed

end

definition lru_ok :: "('k, 'v) lru_cache \<Rightarrow> addr multiset \<Rightarrow> bool" where
  "lru_ok c held \<longleftrightarrow> (\<exists>N U. lru_inv c N U held)"

definition handle_value :: "('k, 'v) lru_cache \<Rightarrow> addr \<Rightarrow> 'v option" where
  "handle_value c e = map_option lh_value (lc_handles c e)"

definition set_value :: "addr \<Rightarrow> 'v \<Rightarrow> ('k, 'v) lru_cache \<Rightarrow> ('k, 'v) lru_cache option" where
  "set_value e v c = do { h \<leftarrow> lc_handles c e; Some (c\<lparr>lc_handles := (lc_handles c)(e \<mapsto> h\<lparr>lh_value := v\<rparr>)\<rparr>) }"

lemma set_value_ok:
  assumes "lru_inv c N U held" "lc_handles c e = Some h"
  shows "lru_inv (c\<lparr>lc_handles := (lc_handles c)(e \<mapsto> h\<lparr>lh_value := v\<rparr>)\<rparr>) N U held"
proof -
  let ?c = "c\<lparr>lc_handles := (lc_handles c)(e \<mapsto> h\<lparr>lh_value := v\<rparr>)\<rparr>"
  have core: "lru_core c N U held" and mp: "map_ok c" using assms(1) by (simp_all add: lru_inv_def)
  note D = coreD [OF core]
  have "cached ?c x \<longleftrightarrow> cached c x" for x using assms(2) by (auto simp: cached_def)
  moreover have "handle_ok held x y" if "((lc_handles c)(e \<mapsto> h\<lparr>lh_value := v\<rparr>)) x = Some y" for x y
    using that D(3) [of x y] D(3) [OF assms(2)] by (cases "x = e") (auto simp: handle_ok_def)
  moreover have "((lc_handles c)(e \<mapsto> h\<lparr>lh_value := v\<rparr>)) x \<noteq> None" if "0 < count held x" for x
    using D(4) [OF that] by simp
  ultimately have "lru_core ?c N U held" using D by (simp add: lru_core_def)
  moreover have "map_ok ?c" using mp assms(2) unfolding map_ok_def by (auto split: if_splits)
  ultimately show ?thesis by (simp add: lru_inv_def)
qed

interpretation lru: handle_cache lru_ok lc_map handle_value set_value lru_get lru_release
proof
  fix c :: "('k, 'v) lru_cache" and held k e
  assume "lru_ok c held" and m: "lc_map c k = Some e"
  then obtain N U where i: "lru_inv c N U held" by (auto simp: lru_ok_def)
  obtain c' where c': "lru_get k c = Some (Some e, c')" "lru_ok c' (add_mset e held)" "lc_map c' = lc_map c"
    "\<forall>x. handle_value c' x = handle_value c x"
    using lru_get_hit [OF i m] unfolding lru_ok_def handle_value_def by blast
  have "handle_value c' = handle_value c"
  proof
    show "handle_value c' x = handle_value c x" for x using spec [OF c'(4), of x] .
  qed
  then show "\<exists>c'. lru_get k c = Some (Some e, c') \<and> lru_ok c' (add_mset e held) \<and> lc_map c' = lc_map c \<and> handle_value c' = handle_value c"
    using c'(1-3) by blast
  show "handle_value c e \<noteq> None" using i m by (auto simp: lru_inv_def map_ok_def handle_value_def)
next
  fix c :: "('k, 'v) lru_cache" and k
  show "lc_map c k = None \<Longrightarrow> lru_get k c = Some (None, c)" by (simp add: lru_get_def)
next
  fix c :: "('k, 'v) lru_cache" and held e and v :: 'v
  assume "lru_ok c held" and h: "e \<in># held"
  then obtain N U where i: "lru_inv c N U held" by (auto simp: lru_ok_def)
  then have core: "lru_core c N U held" by (simp add: lru_inv_def)
  obtain y where y: "lc_handles c e = Some y" using coreD(4) [OF core, of e] h by auto
  then show "handle_value c e \<noteq> None" by (simp add: handle_value_def)
  obtain c' N' U' where c': "lru_release (Some e) c = Some c'" "lru_inv c' N' U' (held - {#e#})" "lc_map c' = lc_map c"
    "lc_deleted c' = lc_deleted c \<and> (\<forall>x. map_option lh_value (lc_handles c' x) = map_option lh_value (lc_handles c x)) \<or>
      (\<exists>h. lc_handles c' = (lc_handles c)(e := None))"
    using lru_release_ok [OF i h] by blast
  have "handle_value c' x = handle_value c x \<or> x = e \<and> handle_value c' x = None" for x
  proof (cases "\<exists>h. lc_handles c' = (lc_handles c)(e := None)")
    case True
    then show ?thesis by (auto simp: handle_value_def)
  next
    case False
    then show ?thesis using c'(4) unfolding handle_value_def by blast
  qed
  then show "\<exists>c'. lru_release (Some e) c = Some c' \<and> lru_ok c' (held - {#e#}) \<and> lc_map c' = lc_map c \<and>
      (\<forall>x. handle_value c' x = handle_value c x \<or> x = e \<and> handle_value c' x = None)"
    using c'(1-3) unfolding lru_ok_def by blast
  have "lru_ok (c\<lparr>lc_handles := (lc_handles c)(e \<mapsto> y\<lparr>lh_value := v\<rparr>)\<rparr>) held"
    using set_value_ok [OF i y] unfolding lru_ok_def by blast
  then show "\<exists>c'. set_value e v c = Some c' \<and> lru_ok c' held \<and> lc_map c' = lc_map c \<and> handle_value c' = (handle_value c)(e \<mapsto> v)"
    using y by (auto simp: set_value_def handle_value_def fun_eq_iff)
qed

section \<open>Properties of the cache\<close>

definition demo_start :: "(nat, nat) lru_cache" where
  "demo_start = set_max_size (new_lru_cache \<lparr>nxt = (\<lambda>p. 0), prv = (\<lambda>p. 0)\<rparr>) 1"

definition demo_first :: "(nat, nat) lru_cache" where
  "demo_first = (case lru_put 10 7 70 demo_start of Some (e, c) \<Rightarrow> c | None \<Rightarrow> demo_start)"

definition demo_idle :: "(nat, nat) lru_cache" where
  "demo_idle = (case lru_release (Some 10) demo_first of Some c \<Rightarrow> c | None \<Rightarrow> demo_start)"

lemma demo_start_run: "lru_run demo_start {#} {#}"
  unfolding demo_start_def by (intro lru_run.resize lru_run.start)

lemma demo_first_run: "lru_run demo_first {#10#} {#70#}"
proof -
  have f: "fresh_addr demo_start 10" by (simp add: fresh_addr_def demo_start_def set_max_size_def new_lru_cache_def)
  obtain N U where i: "lru_inv demo_start N U {#}" using lru_run_inv [OF demo_start_run] by blast
  obtain c where "lru_put 10 7 70 demo_start = Some (10, c)"
    using lru_put_ok [OF i, of 10 7 70] f by (auto simp: fresh_addr_def)
  then show ?thesis using lru_run.put [OF demo_start_run f, of 7 70 c] by (simp add: demo_first_def)
qed

lemma demo_idle_run: "lru_run demo_idle {#} {#70#}"
proof -
  obtain N U where i: "lru_inv demo_first N U {#10#}" using lru_run_inv [OF demo_first_run] by blast
  have h: "(10 :: addr) \<in># {#10#}" by simp
  obtain c where "lru_release (Some 10) demo_first = Some c" using lru_release_ok [OF i h] by blast
  then show ?thesis using lru_run.release [OF demo_first_run h, of c] by (simp add: demo_idle_def)
qed

lemma demo_fresh: "fresh_addr demo_idle 11"
  by (simp add: fresh_addr_def demo_idle_def demo_first_def demo_start_def set_max_size_def new_lru_cache_def lru_put_def
      list_append_def lru_release_def lru_unref_def relink_def list_remove_def set_nxt_def set_prv_def evict.simps Let_def)

text \<open>
  No call on the cache fails: after any history in which callers release only what they hold, get, release, put, del
  and prune return, so no assertion fires, no freed handle is touched and every eviction loop ends.
\<close>

theorem lru_calls_return:
  assumes "lru_run c held puts"
  shows "lru_get k c \<noteq> None \<and> lru_del k c \<noteq> None \<and> prune c \<noteq> None \<and>
    (e \<in># held \<longrightarrow> lru_release (Some e) c \<noteq> None) \<and> (fresh_addr c a \<longrightarrow> lru_put a k v c \<noteq> None)"
proof -
  obtain N U where i: "lru_inv c N U held" using lru_run_inv [OF assms] by blast
  have "lru_get k c \<noteq> None"
  proof (cases "lc_map c k")
    case (Some x)
    then show ?thesis using lru_get_hit [OF i Some] by blast
  qed (simp add: lru_get_def)
  moreover have "lru_put a k v c \<noteq> None" if "fresh_addr c a"
  proof -
    have "lc_handles c a = None" "a \<notin> {0, NOT_USE, IN_USE}" using that by (simp_all add: fresh_addr_def)
    from lru_put_ok [OF i this, of k v] show ?thesis by (metis option.distinct(1))
  qed
  ultimately show ?thesis using lru_del_ok [OF i, of k] prune_ok [OF i] lru_release_ok [OF i, of e] by blast
qed

theorem lru_calls_return_witness:
  "lru_release (Some 10) demo_first \<noteq> None \<and> lru_put 11 8 80 demo_idle \<noteq> None"
  using lru_calls_return [OF demo_first_run, of 7 10 0 0] lru_calls_return [OF demo_idle_run, of 8 0 11 80] demo_fresh by simp

text \<open>
  C19: Values are freed exactly once and never while held: the values given to the cache are those passed to the deleter
  plus those of live handles, every held handle is live and counts its holders, and once nothing is held the destructor
  passes every remaining value to the deleter.
\<close>

theorem lru_values_once:
  assumes "lru_run c held puts"
  shows "mset (lc_deleted c) + live_values (lc_handles c) = puts \<and>
    (\<forall>e. e \<in># held \<longrightarrow> (\<exists>h. lc_handles c e = Some h \<and> lh_ref h = (if lh_in_cache h then 1 else 0) + count held e)) \<and>
    (held = {#} \<longrightarrow> (\<exists>c'. destroy_cache c = Some c' \<and> lc_handles c' = (\<lambda>e. None) \<and> mset (lc_deleted c') = puts))"
proof -
  obtain N U where i: "lru_inv c N U held" and o: "owned c = puts" using lru_run_inv [OF assms] by blast
  have core: "lru_core c N U held" using i by (simp add: lru_inv_def)
  have "\<exists>h. lc_handles c e = Some h \<and> lh_ref h = (if lh_in_cache h then 1 else 0) + count held e" if "e \<in># held" for e
    using coreD(3,4) [OF core, of e] that by (auto simp: handle_ok_def)
  then show ?thesis using o destroy_cache_ok [of c N U] i by (auto simp: owned_def)
qed

theorem lru_values_once_witness:
  "\<exists>c'. destroy_cache demo_idle = Some c' \<and> mset (lc_deleted c') = {#70#}"
  using lru_values_once [OF demo_idle_run] by auto

lemma option_filter_cases:
  assumes "\<And>x. a = Some x \<longleftrightarrow> b = Some x \<and> P x"
  shows "a = b \<or> a = None \<and> (\<exists>x. b = Some x \<and> \<not> P x)"
proof (cases b)
  case None
  then have "a = None" using assms by (metis option.exhaust)
  then show ?thesis using None by simp
next
  case (Some y)
  then have "P y \<Longrightarrow> a = Some y" "\<not> P y \<Longrightarrow> a = None" using assms by (metis, metis option.exhaust option.inject)
  then show ?thesis using Some by blast
qed

text \<open>
  Put then get: after \<^verbatim>\<open>put(k, v)\<close> the key finds the new handle and its value, and the entry of another key is kept
  unless it was idle and evicted.
\<close>

theorem lru_put_then_get:
  assumes "lru_run c held puts" "fresh_addr c e"
  shows "\<exists>c' c''. lru_put e k v c = Some (e, c') \<and> handle_value c' e = Some v \<and> lru_get k c' = Some (Some e, c'') \<and>
    handle_value c'' e = Some v \<and>
    (\<forall>k'. k' \<noteq> k \<longrightarrow> lc_map c' k' = lc_map c k' \<or> lc_map c' k' = None \<and> (\<exists>x. lc_map c k' = Some x \<and> x \<notin># held))"
proof -
  obtain N U where i: "lru_inv c N U held" using lru_run_inv [OF assms(1)] by blast
  obtain c' n where p: "lru_put e k v c = Some (e, c')"
    "lru_inv c' (drop n (without_old k c N)) (without_old k c (U @ [e])) (add_mset e held)"
    "handle_value c' e = Some v" "lc_map c' k = Some e"
    "\<forall>k' x. lc_map c' k' = Some x \<longleftrightarrow> ((lc_map c)(k \<mapsto> e)) k' = Some x \<and> x \<notin> set (take n (without_old k c N))"
  proof -
    have f: "lc_handles c e = None" "e \<notin> {0, NOT_USE, IN_USE}" using assms(2) by (simp_all add: fresh_addr_def)
    show thesis using lru_put_ok [OF i f, of k v] that unfolding handle_value_def by metis
  qed
  have ok: "lru_ok c' (add_mset e held)" using p(2) unfolding lru_ok_def by blast
  obtain c'' where g: "lru_get k c' = Some (Some e, c'')" "handle_value c'' = handle_value c'" using lru.get_hit [OF ok p(4)] by blast
  have "lc_map c' k' = lc_map c k' \<or> lc_map c' k' = None \<and> (\<exists>x. lc_map c k' = Some x \<and> x \<notin># held)" if "k' \<noteq> k" for k'
  proof -
    have "x \<notin># held" if "x \<in> set (take n (without_old k c N))" for x
    proof -
      have "x \<in> set N" using that unfolding without_old_def
        by (auto split: option.splits dest!: in_set_takeD) (meson notin_set_remove1)
      then show ?thesis using i by (simp add: lru_inv_def lru_core_def count_eq_zero_iff)
    qed
    moreover have m: "lc_map c' k' = Some x \<longleftrightarrow> lc_map c k' = Some x \<and> x \<notin> set (take n (without_old k c N))" for x
      using p(5) that by simp
    ultimately show ?thesis using option_filter_cases [OF m] by blast
  qed
  then show ?thesis using p(1,3) g by auto
qed

theorem lru_put_then_get_witness:
  "\<exists>c' c''. lru_put 11 8 80 demo_idle = Some (11, c') \<and> lru_get 8 c' = Some (Some 11, c'') \<and> handle_value c'' 11 = Some 80"
  using lru_put_then_get [OF demo_idle_run demo_fresh, of 8 80] by blast

text \<open>
  Eviction order and bound: with a limit, \<^verbatim>\<open>put\<close> evicts the longest idle entries first (a prefix of the idle list,
  handles in order of release), stops as soon as the size is within the limit, and the limit is exceeded afterwards only
  when every cached handle is held.
\<close>

theorem lru_put_evicts:
  assumes "lru_inv c N U held" "fresh_addr c e" "0 < lc_max_size c" "lc_map c k = None"
  shows "\<exists>c' n. lru_put e k v c = Some (e, c') \<and> lru_inv c' (drop n N) (U @ [e]) (add_mset e held) \<and> n \<le> length N \<and>
    (\<forall>x \<in> set (take n N). \<forall>k'. lc_map c' k' \<noteq> Some x) \<and>
    (lc_size c' \<le> lc_max_size c \<or> n = length N) \<and> (0 < n \<longrightarrow> lc_max_size c \<le> lc_size c')"
proof -
  have f: "lc_handles c e = None" "e \<notin> {0, NOT_USE, IN_USE}" using assms(2) by (simp_all add: fresh_addr_def)
  have w: "without_old k c xs = xs" for xs using assms(4) by (simp add: without_old_def)
  obtain c' n where "lru_put e k v c = Some (e, c')" "lru_inv c' (drop n N) (U @ [e]) (add_mset e held)" "n \<le> length N"
    "\<forall>k' x. lc_map c' k' = Some x \<longleftrightarrow> ((lc_map c)(k \<mapsto> e)) k' = Some x \<and> x \<notin> set (take n N)"
    "lc_size c' \<le> lc_max_size c \<or> n = length N" "0 < n \<longrightarrow> lc_max_size c \<le> lc_size c'"
    using lru_put_ok [OF assms(1) f, of k v] assms(3) unfolding w by blast
  then show ?thesis by blast
qed

lemma demo_idle_inv: "lru_inv demo_idle [10] [] {#}"
proof -
  obtain N U where i: "lru_inv demo_idle N U {#}" using lru_run_inv [OF demo_idle_run] by blast
  then have core: "lru_core demo_idle N U {#}" by (simp add: lru_inv_def)
  have "cached demo_idle x \<longleftrightarrow> x = 10" for x
    by (simp add: cached_def demo_idle_def demo_first_def demo_start_def set_max_size_def new_lru_cache_def lru_put_def
        list_append_def lru_release_def lru_unref_def relink_def list_remove_def set_nxt_def set_prv_def evict.simps Let_def)
  moreover have U: "U = []" using coreD(6) [OF core] by (cases U) auto
  ultimately have "set N = {10}" "distinct N" using coreD(2,9) [OF core] by auto
  then have "length N = 1" by (metis distinct_card is_singletonI is_singleton_altdef)
  then have "N = [10]" using \<open>set N = {10}\<close> by (cases N) auto
  then show ?thesis using i U by simp
qed

theorem lru_put_evicts_witness:
  "\<exists>c'. lru_put 11 8 80 demo_idle = Some (11, c') \<and> lru_inv c' [] [11] {#11#} \<and> lc_size c' = 1"
proof -
  have d: "0 < lc_max_size demo_idle" "lc_map demo_idle 8 = None" "lc_max_size demo_idle = 1"
    by (simp_all add: demo_idle_def demo_first_def demo_start_def set_max_size_def new_lru_cache_def lru_put_def
        list_append_def lru_release_def lru_unref_def relink_def list_remove_def set_nxt_def set_prv_def evict.simps Let_def)
  from lru_put_evicts [OF demo_idle_inv demo_fresh d(1,2), of 80] obtain c' n where
    c': "lru_put 11 8 80 demo_idle = Some (11, c')" "lru_inv c' (drop n [10]) [11] {#11#}" "n \<le> 1"
      "lc_size c' \<le> 1 \<or> n = 1" using d(3) by auto
  have "lc_size c' = length (drop n [10 :: addr]) + 1" using coreD(7) [of c' "drop n [10]" "[11]" "{#11#}"] c'(2) by (simp add: lru_inv_def)
  then have "n = 1" using c'(3,4) by (cases n) auto
  then show ?thesis using c' coreD(7) [of c' "[]" "[11]" "{#11#}"] by (simp add: lru_inv_def)
qed
end
