(* ===== verification/Dns_Cache.thy ===== *)
theory Dns_Cache
  imports LRU_Cache "HOL-Library.Word"
begin

text \<open>
  The cache of resolved addresses (\<^verbatim>\<open>workflow/src/manager/DnsCache.cc\<close>, \<^verbatim>\<open>DnsCache.h\<close>), a client of the LRU cache. Times
  are \<^verbatim>\<open>int64_t\<close> seconds, kept as \<open>int\<close> with signed overflow as \<open>None\<close>; the time to live is an \<^verbatim>\<open>unsigned int\<close>. The clock is
  an argument. \<^verbatim>\<open>get_inner\<close> reads the time stamp before it takes the mutex and again under it, so it is split there:
  \<open>get_inner_enter\<close> runs up to the lock and \<open>get_inner_locked\<close> is the critical section.
\<close>

section \<open>Values and operations\<close>

record dns_cache_value =
  dv_addrinfo :: addr
  dv_confident_time :: int
  dv_expire_time :: int

type_synonym host_port = "string \<times> 16 word"
type_synonym dns_cache = "(host_port, dns_cache_value) lru_cache"

abbreviation GET_TYPE_TTL :: int where "GET_TYPE_TTL \<equiv> 0"
abbreviation GET_TYPE_CONFIDENT :: int where "GET_TYPE_CONFIDENT \<equiv> 1"
abbreviation CONFIDENT_INC :: int where "CONFIDENT_INC \<equiv> 10"
abbreviation TTL_INC :: int where "TTL_INC \<equiv> 10"
abbreviation INT64_MAX :: int where "INT64_MAX \<equiv> 2 ^ 63 - 1"

definition add_int64 :: "int \<Rightarrow> int \<Rightarrow> int option" where
  "add_int64 a b = (if - (2 ^ 63) \<le> a + b \<and> a + b \<le> INT64_MAX then Some (a + b) else None)"

definition is_stale :: "int \<Rightarrow> int \<Rightarrow> dns_cache_value \<Rightarrow> bool" where
  "is_stale type cur_time v =
     (if type = GET_TYPE_TTL then cur_time > dv_expire_time v
      else if type = GET_TYPE_CONFIDENT then cur_time > dv_confident_time v
      else False)"

definition push_back_time :: "int \<Rightarrow> dns_cache_value \<Rightarrow> dns_cache_value option" where
  "push_back_time type v =
     (if type = GET_TYPE_TTL then do { t \<leftarrow> add_int64 (dv_expire_time v) TTL_INC; Some (v\<lparr>dv_expire_time := t\<rparr>) }
      else if type = GET_TYPE_CONFIDENT then
        do { t \<leftarrow> add_int64 (dv_confident_time v) CONFIDENT_INC; Some (v\<lparr>dv_confident_time := t\<rparr>) }
      else Some v)"

datatype dns_get = Returned "addr option" | Wants_lock addr

definition get_inner_enter :: "host_port \<Rightarrow> int \<Rightarrow> int \<Rightarrow> dns_cache \<Rightarrow> (dns_get \<times> dns_cache) option" where
  "get_inner_enter hp type cur_time c =
     do { (handle, c) \<leftarrow> lru_get hp c;
          (case handle of
             None \<Rightarrow> Some (Returned None, c)
           | Some e \<Rightarrow> do { v \<leftarrow> handle_value c e;
                           Some (if is_stale type cur_time v then Wants_lock e else Returned (Some e), c) }) }"

definition get_inner_locked :: "int \<Rightarrow> int \<Rightarrow> addr \<Rightarrow> dns_cache \<Rightarrow> (addr option \<times> dns_cache) option" where
  "get_inner_locked type cur_time e c =
     do { v \<leftarrow> handle_value c e;
          if is_stale type cur_time v then
            do { v \<leftarrow> push_back_time type v;
                 c \<leftarrow> set_value e v c;
                 c \<leftarrow> lru_release (Some e) c;
                 Some (None, c) }
          else Some (Some e, c) }"

definition get_inner :: "host_port \<Rightarrow> int \<Rightarrow> int \<Rightarrow> dns_cache \<Rightarrow> (addr option \<times> dns_cache) option" where
  "get_inner hp type cur_time c =
     do { (r, c) \<leftarrow> get_inner_enter hp type cur_time c;
          (case r of Returned h \<Rightarrow> Some (h, c) | Wants_lock e \<Rightarrow> get_inner_locked type cur_time e c) }"

definition get_ttl :: "host_port \<Rightarrow> int \<Rightarrow> dns_cache \<Rightarrow> (addr option \<times> dns_cache) option" where
  "get_ttl hp = get_inner hp GET_TYPE_TTL"

definition get_confident :: "host_port \<Rightarrow> int \<Rightarrow> dns_cache \<Rightarrow> (addr option \<times> dns_cache) option" where
  "get_confident hp = get_inner hp GET_TYPE_CONFIDENT"

definition dns_get_any :: "host_port \<Rightarrow> dns_cache \<Rightarrow> (addr option \<times> dns_cache) option" where
  "dns_get_any hp c = lru_get hp c"

definition dns_release :: "addr option \<Rightarrow> dns_cache \<Rightarrow> dns_cache option" where
  "dns_release handle c = lru_release handle c"

definition dns_del :: "host_port \<Rightarrow> dns_cache \<Rightarrow> dns_cache option" where
  "dns_del key c = lru_del key c"

definition time_limit :: "int \<Rightarrow> 32 word \<Rightarrow> int option" where
  "time_limit cur_time ttl = (if ttl = - 1 then Some INT64_MAX else add_int64 cur_time (uint ttl))"

definition dns_put :: "addr \<Rightarrow> host_port \<Rightarrow> addr \<Rightarrow> 32 word \<Rightarrow> 32 word \<Rightarrow> int \<Rightarrow> dns_cache \<Rightarrow> (addr \<times> dns_cache) option" where
  "dns_put e hp addrinfo dns_ttl_default dns_ttl_min cur_time c =
     (let dns_ttl_min = (if dns_ttl_min > dns_ttl_default then dns_ttl_default else dns_ttl_min)
      in do { confident_time \<leftarrow> time_limit cur_time dns_ttl_min;
              expire_time \<leftarrow> time_limit cur_time dns_ttl_default;
              lru_put e hp \<lparr>dv_addrinfo = addrinfo, dv_confident_time = confident_time, dv_expire_time = expire_time\<rparr> c })"

text \<open>The deleter of values picks the function that allocated the list; \<open>flags\<close> reads \<^verbatim>\<open>ai_flags\<close>.\<close>

datatype free_call = System_freeaddrinfo addr | DnsUtil_freeaddrinfo addr

definition value_deleter :: "(addr \<Rightarrow> int) \<Rightarrow> dns_cache_value \<Rightarrow> free_call" where
  "value_deleter flags v =
     (let ai = dv_addrinfo v
      in if ai \<noteq> 0 \<and> odd (flags ai) then System_freeaddrinfo ai else DnsUtil_freeaddrinfo ai)"

section \<open>One call\<close>

lemma time_limit_total: "- (2 ^ 62) \<le> cur \<Longrightarrow> cur \<le> 2 ^ 62 \<Longrightarrow> time_limit cur ttl \<noteq> None"
proof -
  assume c: "- (2 ^ 62) \<le> cur" "cur \<le> 2 ^ 62"
  define u where "u = uint ttl"
  have "0 \<le> u" "u < 2 ^ 32" using uint_bounded [of ttl] uint_nonnegative [of ttl] by (simp_all add: u_def)
  then have "- (2 ^ 63) \<le> cur + u" "cur + u \<le> INT64_MAX" using c by simp_all
  then show ?thesis unfolding time_limit_def add_int64_def u_def [symmetric] by simp
qed

lemma time_limit_mono:
  assumes "a \<le> b" "time_limit cur a = Some s" "time_limit cur b = Some t"
  shows "s \<le> t"
proof -
  have "b = - 1" if "a = - 1" using that assms(1) word_order.extremum_uniqueI by blast
  then show ?thesis using assms unfolding time_limit_def add_int64_def word_le_def
    by (cases "b = - 1"; cases "a = - 1") (auto split: if_splits)
qed

text \<open>A stale entry in the map is pushed back by ten seconds and not handed out; the cache is otherwise as it was.\<close>

lemma locked_stale:
  assumes "lru_ok c (add_mset e held)" "lc_map c hp = Some e" "handle_value c e = Some v" "is_stale type cur v"
    "push_back_time type v = Some v'"
  shows "\<exists>c'. get_inner_locked type cur e c = Some (None, c') \<and> lru_ok c' held \<and> lc_map c' = lc_map c \<and>
    handle_value c' = (handle_value c)(e \<mapsto> v')"
proof -
  obtain c1 c2 where "set_value e v' c = Some c1" "lru_release (Some e) c1 = Some c2" "lru_ok c2 held" "lc_map c2 = lc_map c"
    "handle_value c2 = (handle_value c)(e \<mapsto> v')" using lru.upd_release [OF assms(1,2), of v'] by blast
  then show ?thesis using assms(3-5) by (simp add: get_inner_locked_def)
qed

lemma locked_fresh:
  "handle_value c e = Some v \<Longrightarrow> \<not> is_stale type cur v \<Longrightarrow> get_inner_locked type cur e c = Some (Some e, c)"
  by (simp add: get_inner_locked_def)

lemma enter_hit:
  assumes "lru_ok c held" "lc_map c hp = Some e" "handle_value c e = Some v"
  shows "\<exists>c'. get_inner_enter hp type cur c = Some (if is_stale type cur v then Wants_lock e else Returned (Some e), c') \<and>
    lru_ok c' (add_mset e held) \<and> lc_map c' = lc_map c \<and> handle_value c' = handle_value c"
proof -
  obtain c' where "lru_get hp c = Some (Some e, c')" "lru_ok c' (add_mset e held)" "lc_map c' = lc_map c" "handle_value c' = handle_value c"
    using lru.get_hit [OF assms(1,2)] by blast
  then show ?thesis using assms(3) by (simp add: get_inner_enter_def)
qed


section \<open>Interleaved calls\<close>

definition stamp :: "int \<Rightarrow> dns_cache_value \<Rightarrow> int" where
  "stamp type v = (if type = GET_TYPE_TTL then dv_expire_time v else dv_confident_time v)"

lemma stale_stamp: "type \<in> {GET_TYPE_TTL, GET_TYPE_CONFIDENT} \<Longrightarrow> is_stale type cur v \<longleftrightarrow> stamp type v < cur"
  by (auto simp: is_stale_def stamp_def)

lemma push_back_stamp:
  assumes "type \<in> {GET_TYPE_TTL, GET_TYPE_CONFIDENT}" "- (2 ^ 63) \<le> stamp type v" "stamp type v + 10 \<le> INT64_MAX"
  shows "\<exists>v'. push_back_time type v = Some v' \<and> stamp type v' = stamp type v + 10 \<and> dv_addrinfo v' = dv_addrinfo v"
proof (cases "type = GET_TYPE_TTL")
  case True
  then have "add_int64 (dv_expire_time v) TTL_INC = Some (dv_expire_time v + 10)" using assms(2,3) by (simp add: stamp_def add_int64_def)
  then show ?thesis using True by (simp add: push_back_time_def stamp_def)
next
  case False
  then have "add_int64 (dv_confident_time v) CONFIDENT_INC = Some (dv_confident_time v + 10)"
    using assms(2,3) by (simp add: stamp_def add_int64_def)
  then show ?thesis using False assms(1) by (simp add: push_back_time_def stamp_def)
qed

text \<open>
  Calls of \<^verbatim>\<open>get_inner\<close> on one key, interleaved at the lock, at times within ten seconds after the time stamp \<open>T\<close> of the
  entry \<open>e\<close>. \<open>waiting\<close> holds the clock values of the callers that want the lock, \<open>nulls\<close> and \<open>handed\<close> count the answers.
\<close>

inductive refresh_run :: "host_port \<Rightarrow> int \<Rightarrow> addr \<Rightarrow> int \<Rightarrow> dns_cache \<Rightarrow> addr multiset \<Rightarrow> int multiset \<Rightarrow> nat \<Rightarrow> nat \<Rightarrow> nat \<Rightarrow> bool"
  for hp type e T where
  start: "lru_ok c held \<Longrightarrow> lc_map c hp = Some e \<Longrightarrow> handle_value c e = Some v \<Longrightarrow> stamp type v = T \<Longrightarrow>
     refresh_run hp type e T c held {#} 0 0 0"
| enter_wait: "refresh_run hp type e T c held waiting calls nulls handed \<Longrightarrow> T < cur \<Longrightarrow> cur \<le> T + 10 \<Longrightarrow>
     get_inner_enter hp type cur c = Some (Wants_lock x, c') \<Longrightarrow>
     refresh_run hp type e T c' (add_mset x held) (add_mset cur waiting) (Suc calls) nulls handed"
| enter_hand: "refresh_run hp type e T c held waiting calls nulls handed \<Longrightarrow> T < cur \<Longrightarrow> cur \<le> T + 10 \<Longrightarrow>
     get_inner_enter hp type cur c = Some (Returned (Some x), c') \<Longrightarrow>
     refresh_run hp type e T c' (add_mset x held) waiting (Suc calls) nulls (Suc handed)"
| lock_null: "refresh_run hp type e T c held waiting calls nulls handed \<Longrightarrow> cur \<in># waiting \<Longrightarrow>
     get_inner_locked type cur e c = Some (None, c') \<Longrightarrow>
     refresh_run hp type e T c' (held - {#e#}) (waiting - {#cur#}) calls (Suc nulls) handed"
| lock_hand: "refresh_run hp type e T c held waiting calls nulls handed \<Longrightarrow> cur \<in># waiting \<Longrightarrow>
     get_inner_locked type cur e c = Some (Some x, c') \<Longrightarrow>
     refresh_run hp type e T c' held (waiting - {#cur#}) calls nulls (Suc handed)"
| give_back: "refresh_run hp type e T c held waiting calls nulls handed \<Longrightarrow> 0 < handed \<Longrightarrow> lru_release (Some e) c = Some c' \<Longrightarrow>
     refresh_run hp type e T c' (held - {#e#}) waiting calls nulls (handed - 1)"

definition refresh_inv :: "host_port \<Rightarrow> int \<Rightarrow> addr \<Rightarrow> int \<Rightarrow> dns_cache \<Rightarrow> addr multiset \<Rightarrow> int multiset \<Rightarrow> nat \<Rightarrow> nat \<Rightarrow> nat \<Rightarrow> bool" where
  "refresh_inv hp type e T c held waiting calls nulls handed \<longleftrightarrow>
     lru_ok c held \<and> lc_map c hp = Some e \<and> handed + size waiting \<le> count held e \<and>
     (\<exists>v. handle_value c e = Some v \<and> stamp type v = T + 10 * int nulls) \<and> nulls \<le> 1 \<and>
     (\<forall>cur. cur \<in># waiting \<longrightarrow> T < cur \<and> cur \<le> T + 10) \<and> (nulls = 0 \<longrightarrow> size waiting = calls \<and> handed = 0)"

lemma refresh_enter:
  assumes "refresh_inv hp type e T c held waiting calls nulls handed" "type \<in> {GET_TYPE_TTL, GET_TYPE_CONFIDENT}" "T < cur" "cur \<le> T + 10"
  shows "\<exists>c'. get_inner_enter hp type cur c = Some (if nulls = 0 then Wants_lock e else Returned (Some e), c') \<and>
    refresh_inv hp type e T c' (add_mset e held) (if nulls = 0 then add_mset cur waiting else waiting) (Suc calls) nulls
      (if nulls = 0 then handed else Suc handed)"
proof -
  obtain v where v: "handle_value c e = Some v" "stamp type v = T + 10 * int nulls" and i: "lru_ok c held" "lc_map c hp = Some e" "nulls \<le> 1"
    using assms(1) by (auto simp: refresh_inv_def)
  have st: "is_stale type cur v \<longleftrightarrow> nulls = 0" using stale_stamp [OF assms(2)] v(2) i(3) assms(3,4) by (cases nulls) auto
  obtain c' where "get_inner_enter hp type cur c = Some (if nulls = 0 then Wants_lock e else Returned (Some e), c')"
    "lru_ok c' (add_mset e held)" "lc_map c' = lc_map c" "handle_value c' = handle_value c"
    using enter_hit [OF i(1,2) v(1), of type cur] unfolding st by blast
  then show ?thesis using assms v i by (auto simp: refresh_inv_def)
qed

lemma refresh_lock:
  assumes "refresh_inv hp type e T c held waiting calls nulls handed" "type \<in> {GET_TYPE_TTL, GET_TYPE_CONFIDENT}" "cur \<in># waiting"
    "- (2 ^ 63) \<le> T" "T + 10 \<le> INT64_MAX"
  shows "\<exists>c'. get_inner_locked type cur e c = Some (if nulls = 0 then None else Some e, c') \<and>
    refresh_inv hp type e T c' (if nulls = 0 then held - {#e#} else held) (waiting - {#cur#}) calls 1 (if nulls = 0 then handed else Suc handed)"
proof -
  obtain v where v: "handle_value c e = Some v" "stamp type v = T + 10 * int nulls" and i: "lru_ok c held" "lc_map c hp = Some e" "nulls \<le> 1"
    "T < cur" "cur \<le> T + 10" "handed + size waiting \<le> count held e"
    using assms(1,3) by (auto simp: refresh_inv_def)
  have w: "size waiting = Suc (size (waiting - {#cur#}))" using assms(3) by (metis size_Suc_Diff1)
  have cond: "x \<in># waiting - {#cur#} \<Longrightarrow> T < x \<and> x \<le> T + 10" for x using assms(1) by (meson in_diffD refresh_inv_def)
  show ?thesis
  proof (cases "nulls = 0")
    case True
    have "0 < count held e" using i(6) w by linarith
    then obtain held' where h: "held = add_mset e held'" by (metis count_greater_zero_iff mset_add)
    have st: "is_stale type cur v" using stale_stamp [OF assms(2)] v(2) True i(4) by simp
    obtain v' where v': "push_back_time type v = Some v'" "stamp type v' = T + 10"
      using push_back_stamp [OF assms(2), of v] v(2) True assms(4,5) by auto
    from locked_stale [OF i(1) [unfolded h] i(2) v(1) st v'(1)] obtain c' where
      "get_inner_locked type cur e c = Some (None, c')" "lru_ok c' held'" "lc_map c' = lc_map c" "handle_value c' = (handle_value c)(e \<mapsto> v')" by blast
    then show ?thesis using True h i(2,6) w cond v'(2) assms(1) by (auto simp: refresh_inv_def)
  next
    case False
    then have n: "nulls = 1" using i(3) by simp
    then have "\<not> is_stale type cur v" using stale_stamp [OF assms(2)] v(2) i(5) by simp
    then show ?thesis using locked_fresh [OF v(1)] n i v w cond by (auto simp: refresh_inv_def)
  qed
qed

lemma refresh_give_back:
  assumes "refresh_inv hp type e T c held waiting calls nulls handed" "0 < handed"
  shows "\<exists>c'. lru_release (Some e) c = Some c' \<and> refresh_inv hp type e T c' (held - {#e#}) waiting calls nulls (handed - 1)"
proof -
  have "0 < count held e" and i: "lru_ok c held" "lc_map c hp = Some e" using assms by (auto simp: refresh_inv_def simp del: count_greater_zero_iff)
  then have m: "e \<in># held" by simp
  obtain c' where c': "lru_release (Some e) c = Some c'" "lru_ok c' (held - {#e#})" "lc_map c' = lc_map c"
    "\<forall>x. handle_value c' x = handle_value c x \<or> x = e \<and> handle_value c' x = None" using lru.release_held [OF i(1) m] by blast
  have "handle_value c' e = handle_value c e" using lru.lookup_val [OF c'(2), of hp e] c'(3) i(2) spec [OF c'(4), of e] by auto
  then show ?thesis using c'(1-3) assms by (auto simp: refresh_inv_def)
qed

lemma refresh_run_inv:
  assumes "refresh_run hp type e T c held waiting calls nulls handed" "type \<in> {GET_TYPE_TTL, GET_TYPE_CONFIDENT}"
    "- (2 ^ 63) \<le> T" "T + 10 \<le> INT64_MAX"
  shows "refresh_inv hp type e T c held waiting calls nulls handed"
  using assms(1)
proof (induction rule: refresh_run.induct)
  case (start c held v)
  then show ?case by (auto simp: refresh_inv_def)
next
  case (enter_wait c held waiting calls nulls handed cur x c')
  then show ?case using refresh_enter [OF enter_wait.IH assms(2) enter_wait.hyps(2,3)] by (auto split: if_splits)
next
  case (enter_hand c held waiting calls nulls handed cur x c')
  then show ?case using refresh_enter [OF enter_hand.IH assms(2) enter_hand.hyps(2,3)] by (auto split: if_splits)
next
  case (lock_null c held waiting calls nulls handed cur c')
  then show ?case using refresh_lock [OF lock_null.IH assms(2) lock_null.hyps(2) assms(3,4)] by (auto split: if_splits)
next
  case (lock_hand c held waiting calls nulls handed cur x c')
  then have "nulls \<le> 1" by (simp add: refresh_inv_def)
  then show ?case using refresh_lock [OF lock_hand.IH assms(2) lock_hand.hyps(2) assms(3,4)] lock_hand.hyps(3)
    by (cases nulls) (auto split: if_splits)
next
  case (give_back c held waiting calls nulls handed c')
  then show ?case using refresh_give_back [OF give_back.IH give_back.hyps(2)] by auto
qed

section \<open>Properties\<close>

lemma get_inner_hit:
  assumes "lru_ok c held" "lc_map c hp = Some e" "handle_value c e = Some v" "\<not> is_stale type cur v"
  shows "\<exists>c'. get_inner hp type cur c = Some (Some e, c') \<and> lru_ok c' (add_mset e held) \<and> handle_value c' = handle_value c"
  using enter_hit [OF assms(1-3), of type cur] assms(4) by (auto simp: get_inner_def)

lemma get_inner_stale:
  assumes "lru_ok c held" "lc_map c hp = Some e" "handle_value c e = Some v" "is_stale type cur v" "push_back_time type v = Some v'"
  shows "\<exists>c'. get_inner hp type cur c = Some (None, c') \<and> lru_ok c' held \<and> lc_map c' = lc_map c \<and> handle_value c' = (handle_value c)(e \<mapsto> v')"
proof -
  obtain c1 where c1: "get_inner_enter hp type cur c = Some (Wants_lock e, c1)" "lru_ok c1 (add_mset e held)" "lc_map c1 = lc_map c"
    "handle_value c1 = handle_value c" using enter_hit [OF assms(1-3), of type cur] assms(4) by auto
  from locked_stale [OF c1(2), of hp v type cur v'] c1(3,4) assms(2-5) obtain c2 where "get_inner_locked type cur e c1 = Some (None, c2)"
    "lru_ok c2 held" "lc_map c2 = lc_map c" "handle_value c2 = (handle_value c)(e \<mapsto> v')" by auto
  then show ?thesis using c1(1) by (simp add: get_inner_def)
qed

text \<open>
  C22: One refresher: when any number of threads look up an entry whose time stamp has passed by at most ten seconds, in
  any interleaving of the unlocked check and the critical section, at most one of them is told to resolve the name again
  (gets NULL), and exactly one once no caller is waiting for the lock; everyone else holds the old addresses.
\<close>

theorem dns_single_refresher:
  assumes "refresh_run hp type e T c held waiting calls nulls handed" "type \<in> {GET_TYPE_TTL, GET_TYPE_CONFIDENT}"
    "- (2 ^ 63) \<le> T" "T + 10 \<le> INT64_MAX"
  shows "nulls \<le> 1 \<and> (0 < calls \<and> waiting = {#} \<longrightarrow> nulls = 1) \<and> lru_ok c held \<and> handed \<le> count held e"
  using refresh_run_inv [OF assms] by (auto simp: refresh_inv_def)

text \<open>
  Expiry: an entry stored at second \<open>now\<close> is served by \<^verbatim>\<open>get_ttl\<close> up to \<open>now\<close> plus the default TTL and by
  \<^verbatim>\<open>get_confident\<close> up to \<open>now\<close> plus the smaller of the two TTLs, for ever when that TTL is \<^verbatim>\<open>(unsigned int)-1\<close>; later
  calls return NULL without keeping a reference, and the confident time never exceeds the expiry time.
\<close>

theorem dns_expiry:
  assumes "lru_run c held puts" "fresh_addr c e" "0 \<le> now" "now \<le> 2 ^ 62" "now \<le> cur" "cur \<le> 2 ^ 62"
    and lim: "time_limit now (if type = GET_TYPE_TTL then ttl else min ttl ttl_min) = Some limit"
    and type: "type \<in> {GET_TYPE_TTL, GET_TYPE_CONFIDENT}"
  shows "\<exists>c1 c2 v. dns_put e hp ai ttl ttl_min now c = Some (e, c1) \<and> handle_value c1 e = Some v \<and>
    dv_addrinfo v = ai \<and> dv_confident_time v \<le> dv_expire_time v \<and>
    get_inner hp type cur c1 = Some (if limit < cur then None else Some e, c2) \<and>
    lru_ok c2 (if limit < cur then add_mset e held else add_mset e (add_mset e held))"
proof -
  obtain N U where i: "lru_inv c N U held" using lru_run_inv [OF assms(1)] by blast
  have mn: "(if ttl_min > ttl then ttl else ttl_min) = min ttl ttl_min" by (simp add: min_def) (auto simp: not_le)
  obtain ct et where t: "time_limit now (min ttl ttl_min) = Some ct" "time_limit now ttl = Some et"
    using time_limit_total [of now] assms(3,4) by fastforce
  let ?v = "\<lparr>dv_addrinfo = ai, dv_confident_time = ct, dv_expire_time = et\<rparr>"
  have p: "dns_put e hp ai ttl ttl_min now c = lru_put e hp ?v c" unfolding dns_put_def Let_def mn t by simp
  have f: "lc_handles c e = None" "e \<notin> {0, NOT_USE, IN_USE}" using assms(2) by (simp_all add: fresh_addr_def)
  obtain c1 where c1: "lru_put e hp ?v c = Some (e, c1)" "lru_ok c1 (add_mset e held)" "handle_value c1 e = Some ?v" "lc_map c1 hp = Some e"
    using lru_put_ok [OF i f, of hp ?v] unfolding lru_ok_def handle_value_def by blast
  have le: "ct \<le> et" by (rule time_limit_mono [OF _ t]) simp
  have st: "stamp type ?v = limit" using lim t type by (auto simp: stamp_def)
  have stale: "is_stale type cur ?v \<longleftrightarrow> limit < cur" using stale_stamp [OF type, of cur ?v] st by simp
  have "\<exists>c2. get_inner hp type cur c1 = Some (if limit < cur then None else Some e, c2) \<and>
      lru_ok c2 (if limit < cur then add_mset e held else add_mset e (add_mset e held))"
  proof (cases "limit < cur")
    case True
    have "- (2 ^ 63) \<le> limit" using lim by (auto simp: time_limit_def add_int64_def split: if_splits)
    moreover have "limit + 10 \<le> INT64_MAX" using True assms(6) by simp
    ultimately obtain v' where "push_back_time type ?v = Some v'" using push_back_stamp [OF type, of ?v] st by auto
    then show ?thesis using get_inner_stale [OF c1(2,4,3)] stale True by fastforce
  next
    case False
    then show ?thesis using get_inner_hit [OF c1(2,4,3)] stale by fastforce
  qed
  then show ?thesis using p c1(1,3) le by auto
qed

definition demo_hp :: host_port where "demo_hp = (''h'', 80)"

definition demo_dns :: dns_cache where "demo_dns = new_lru_cache \<lparr>nxt = (\<lambda>p. 0), prv = (\<lambda>p. 0)\<rparr>"

theorem dns_expiry_witness:
  "\<exists>c1 c2. dns_put 10 demo_hp 5 60 600 100 demo_dns = Some (10, c1) \<and>
     get_inner demo_hp GET_TYPE_TTL 161 c1 = Some (None, c2)"
proof -
  have r: "lru_run demo_dns {#} {#}" unfolding demo_dns_def by (rule lru_run.start)
  have f: "fresh_addr demo_dns 10" by (simp add: demo_dns_def fresh_addr_def new_lru_cache_def)
  have l: "time_limit 100 (if GET_TYPE_TTL = GET_TYPE_TTL then 60 else min 60 600) = Some 160"
    by (simp add: time_limit_def add_int64_def)
  show ?thesis using dns_expiry [OF r f _ _ _ _ l, of 161 demo_hp 5] by auto
qed

lemma demo_entry:
  "\<exists>c v. lru_ok c {#10#} \<and> lc_map c demo_hp = Some 10 \<and> handle_value c 10 = Some v \<and> stamp GET_TYPE_TTL v = 160"
proof -
  have r: "lru_run demo_dns {#} {#}" unfolding demo_dns_def by (rule lru_run.start)
  then obtain N U where i: "lru_inv demo_dns N U {#}" using lru_run_inv by blast
  have f: "lc_handles demo_dns 10 = None" "(10 :: addr) \<notin> {0, NOT_USE, IN_USE}" by (simp_all add: demo_dns_def new_lru_cache_def)
  obtain c where "lru_ok c {#10#}" "lc_map c demo_hp = Some 10"
    "handle_value c 10 = Some \<lparr>dv_addrinfo = 5, dv_confident_time = 160, dv_expire_time = 160\<rparr>"
    using lru_put_ok [OF i f, of demo_hp "\<lparr>dv_addrinfo = 5, dv_confident_time = 160, dv_expire_time = 160\<rparr>"]
    unfolding lru_ok_def handle_value_def by blast
  then show ?thesis by (auto simp: stamp_def)
qed

theorem dns_single_refresher_witness:
  "\<exists>c held. refresh_run demo_hp GET_TYPE_TTL 10 160 c held {#} 2 1 1 \<and> lru_ok c held \<and> 1 \<le> count held 10"
proof -
  obtain c0 v where c0: "lru_ok c0 {#10#}" "lc_map c0 demo_hp = Some 10" "handle_value c0 10 = Some v" "stamp GET_TYPE_TTL v = 160"
    using demo_entry by blast
  note s0 = refresh_run.start [OF c0]
  note s0' = refresh_run_inv [OF s0]
  obtain c1 where e1: "get_inner_enter demo_hp GET_TYPE_TTL 161 c0 = Some (Wants_lock 10, c1)"
    using refresh_enter [OF s0', of 161] by auto
  have s1: "refresh_run demo_hp GET_TYPE_TTL 10 160 c1 {#10, 10#} {#161#} (Suc 0) 0 0"
    using refresh_run.enter_wait [OF s0 _ _ e1] by (simp add: add_mset_commute)
  obtain c2 where e2: "get_inner_enter demo_hp GET_TYPE_TTL 165 c1 = Some (Wants_lock 10, c2)"
    using refresh_enter [OF refresh_run_inv [OF s1], of 165] by auto
  have s2: "refresh_run demo_hp GET_TYPE_TTL 10 160 c2 {#10, 10, 10#} {#165, 161#} (Suc (Suc 0)) 0 0"
    using refresh_run.enter_wait [OF s1 _ _ e2] by simp
  obtain c3 where e3: "get_inner_locked GET_TYPE_TTL 161 10 c2 = Some (None, c3)"
    using refresh_lock [OF refresh_run_inv [OF s2], of 161] by auto
  have s3: "refresh_run demo_hp GET_TYPE_TTL 10 160 c3 {#10, 10#} {#165#} 2 1 0"
    using refresh_run.lock_null [OF s2 _ e3] by (simp add: numeral_2_eq_2)
  obtain c4 where e4: "get_inner_locked GET_TYPE_TTL 165 10 c3 = Some (Some 10, c4)"
    using refresh_lock [OF refresh_run_inv [OF s3], of 165] by auto
  have s4: "refresh_run demo_hp GET_TYPE_TTL 10 160 c4 {#10, 10#} {#} 2 1 1"
    using refresh_run.lock_hand [OF s3 _ e4] by simp
  have "lru_ok c4 {#10, 10#} \<and> 1 \<le> count {#10, 10#} (10 :: addr)" using dns_single_refresher [OF s4] by simp
  then show ?thesis using s4 by blast
qed
end
