(* ===== verification/Mysql_Bytes.thy ===== *)
theory Mysql_Bytes
  imports WF_Prelude
begin

unbundle bit_operations_syntax

text \<open>
  Integers in byte buffers (\<^verbatim>\<open>workflow/src/protocol/mysql_byteorder.h\<close>, \<^verbatim>\<open>mysql_byteorder.c\<close>). The header has one set of
  functions for little-endian machines, which copy memory, and one for big-endian machines, which compute with the bytes;
  both are modelled, the second with the prefix \<open>be_\<close>. A buffer is a list of bytes and a pointer into it an index; access
  outside the list is \<open>None\<close>. A buffer that grows by doubling is shared with the other protocols.
\<close>

section \<open>Buffers\<close>

definition bytes_at :: "u8 list \<Rightarrow> nat \<Rightarrow> nat \<Rightarrow> u8 list option" where
  "bytes_at buf p n = (if p + n \<le> length buf then Some (take n (drop p buf)) else None)"

definition poke :: "u8 list \<Rightarrow> nat \<Rightarrow> u8 list \<Rightarrow> u8 list option" where
  "poke buf p bs = (if p + length bs \<le> length buf then Some (take p buf @ bs @ drop (p + length bs) buf) else None)"

text \<open>\<^verbatim>\<open>while (new_size < need) new_size *= 2;\<close>\<close>

partial_function (option) grow_size :: "nat \<Rightarrow> nat \<Rightarrow> nat option" where
  "grow_size need new_size = (if new_size < need then grow_size need (2 * new_size) else Some new_size)"

text \<open>The memory image of an integer on a little-endian machine.\<close>

primrec le_word :: "u8 list \<Rightarrow> 'a :: len word" where
  "le_word [] = 0"
| "le_word (b # bs) = ucast b OR push_bit 8 (le_word bs)"

primrec le_bytes :: "nat \<Rightarrow> 'a :: len word \<Rightarrow> u8 list" where
  "le_bytes 0 x = []"
| "le_bytes (Suc n) x = ucast x # le_bytes n (drop_bit 8 x)"

section \<open>Little-endian machines\<close>

definition uint2korr :: "u8 list \<Rightarrow> nat \<Rightarrow> u16 option" where "uint2korr A p = map_option le_word (bytes_at A p 2)"
definition uint3korr :: "u8 list \<Rightarrow> nat \<Rightarrow> u32 option" where "uint3korr A p = map_option le_word (bytes_at A p 3)"
definition uint4korr :: "u8 list \<Rightarrow> nat \<Rightarrow> u32 option" where "uint4korr A p = map_option le_word (bytes_at A p 4)"
definition uint8korr :: "u8 list \<Rightarrow> nat \<Rightarrow> u64 option" where "uint8korr A p = map_option le_word (bytes_at A p 8)"
definition sint2korr :: "u8 list \<Rightarrow> nat \<Rightarrow> int option" where
  "sint2korr A p = map_option (\<lambda>bs. sint (le_word bs :: u16)) (bytes_at A p 2)"
definition sint3korr :: "u8 list \<Rightarrow> nat \<Rightarrow> int option" where
  "sint3korr A p = map_option (\<lambda>bs. sint (le_word bs :: u32)) (bytes_at A p 3)"
definition sint4korr :: "u8 list \<Rightarrow> nat \<Rightarrow> int option" where
  "sint4korr A p = map_option (\<lambda>bs. sint (le_word bs :: u32)) (bytes_at A p 4)"
definition sint8korr :: "u8 list \<Rightarrow> nat \<Rightarrow> int option" where
  "sint8korr A p = map_option (\<lambda>bs. sint (le_word bs :: u64)) (bytes_at A p 8)"

definition int2store :: "u8 list \<Rightarrow> nat \<Rightarrow> u16 \<Rightarrow> u8 list option" where "int2store T p A = poke T p (le_bytes 2 A)"
definition int3store :: "u8 list \<Rightarrow> nat \<Rightarrow> u32 \<Rightarrow> u8 list option" where "int3store T p A = poke T p (le_bytes 3 A)"
definition int4store :: "u8 list \<Rightarrow> nat \<Rightarrow> u32 \<Rightarrow> u8 list option" where "int4store T p A = poke T p (le_bytes 4 A)"
definition int7store :: "u8 list \<Rightarrow> nat \<Rightarrow> u64 \<Rightarrow> u8 list option" where "int7store T p A = poke T p (le_bytes 7 A)"
definition int8store :: "u8 list \<Rightarrow> nat \<Rightarrow> u64 \<Rightarrow> u8 list option" where "int8store T p A = poke T p (le_bytes 8 A)"

text \<open>The accessors of the machine's own integers in memory; signed arguments are given by their bits.\<close>

definition ushortget :: "u8 list \<Rightarrow> nat \<Rightarrow> u16 option" where "ushortget M p = uint2korr M p"
definition shortget :: "u8 list \<Rightarrow> nat \<Rightarrow> int option" where "shortget M p = sint2korr M p"
definition longget :: "u8 list \<Rightarrow> nat \<Rightarrow> int option" where "longget M p = sint4korr M p"
definition ulongget :: "u8 list \<Rightarrow> nat \<Rightarrow> u32 option" where "ulongget M p = uint4korr M p"
definition longlongget :: "u8 list \<Rightarrow> nat \<Rightarrow> int option" where
  "longlongget M p = map_option (\<lambda>bs. sint (le_word bs :: u64)) (bytes_at M p 8)"
definition shortstore :: "u8 list \<Rightarrow> nat \<Rightarrow> u16 \<Rightarrow> u8 list option" where "shortstore T p V = int2store T p V"
definition longstore :: "u8 list \<Rightarrow> nat \<Rightarrow> u32 \<Rightarrow> u8 list option" where "longstore T p V = int4store T p V"
definition longlongstore :: "u8 list \<Rightarrow> nat \<Rightarrow> u64 \<Rightarrow> u8 list option" where "longlongstore T p V = poke T p (le_bytes 8 V)"

section \<open>Big-endian machines\<close>

definition be_uint2korr :: "u8 list \<Rightarrow> nat \<Rightarrow> u16 option" where
  "be_uint2korr A p = do { a0 \<leftarrow> rd A p; a1 \<leftarrow> rd A (p + 1); Some (ucast a0 + push_bit 8 (ucast a1)) }"

definition be_uint3korr :: "u8 list \<Rightarrow> nat \<Rightarrow> u32 option" where
  "be_uint3korr A p =
     do { a0 \<leftarrow> rd A p; a1 \<leftarrow> rd A (p + 1); a2 \<leftarrow> rd A (p + 2);
          Some (ucast a0 + push_bit 8 (ucast a1) + push_bit 16 (ucast a2)) }"

definition be_uint4korr :: "u8 list \<Rightarrow> nat \<Rightarrow> u32 option" where
  "be_uint4korr A p =
     do { a0 \<leftarrow> rd A p; a1 \<leftarrow> rd A (p + 1); a2 \<leftarrow> rd A (p + 2); a3 \<leftarrow> rd A (p + 3);
          Some (ucast a0 + push_bit 8 (ucast a1) + push_bit 16 (ucast a2) + push_bit 24 (ucast a3)) }"

definition be_uint8korr :: "u8 list \<Rightarrow> nat \<Rightarrow> u64 option" where
  "be_uint8korr A p =
     do { lo \<leftarrow> be_uint4korr A p; hi \<leftarrow> be_uint4korr A (p + 4); Some (ucast lo + push_bit 32 (ucast hi)) }"

definition be_sint2korr :: "u8 list \<Rightarrow> nat \<Rightarrow> int option" where "be_sint2korr A p = map_option sint (be_uint2korr A p)"
definition be_sint8korr :: "u8 list \<Rightarrow> nat \<Rightarrow> int option" where "be_sint8korr A p = map_option sint (be_uint8korr A p)"

text \<open>\<^verbatim>\<open>(int32_t)(A[3]) << 24\<close> is undefined if the result is not an \<^verbatim>\<open>int32_t\<close>.\<close>

definition be_sint4korr :: "u8 list \<Rightarrow> nat \<Rightarrow> int option" where
  "be_sint4korr A p =
     do { a0 \<leftarrow> rd A p; a1 \<leftarrow> rd A (p + 1); a2 \<leftarrow> rd A (p + 2); a3 \<leftarrow> rd A (p + 3);
          if 128 \<le> a3 then None
          else Some (sint (ucast a0 + push_bit 8 (ucast a1) + push_bit 16 (ucast a2) + push_bit 24 (ucast a3) :: u32)) }"

definition be_sint3korr :: "u8 list \<Rightarrow> nat \<Rightarrow> int option" where
  "be_sint3korr A p =
     do { p0 \<leftarrow> rd A p; p1 \<leftarrow> rd A (p + 1); p2 \<leftarrow> rd A (p + 2);
          Some (sint (if p2 AND 128 \<noteq> 0
                      then push_bit 24 255 OR push_bit 16 (ucast p2) OR push_bit 8 (ucast p1) OR ucast p0
                      else push_bit 16 (ucast p2) OR push_bit 8 (ucast p1) OR (ucast p0 :: u32))) }"

definition be_int2store :: "u8 list \<Rightarrow> nat \<Rightarrow> u16 \<Rightarrow> u8 list option" where
  "be_int2store T p A =
     (let def_temp = ucast A :: u32
      in do { T \<leftarrow> wr T p (ucast def_temp); wr T (p + 1) (ucast (drop_bit 8 def_temp)) })"

definition be_int3store :: "u8 list \<Rightarrow> nat \<Rightarrow> u32 \<Rightarrow> u8 list option" where
  "be_int3store T p x =
     do { T \<leftarrow> wr T p (ucast x); T \<leftarrow> wr T (p + 1) (ucast (drop_bit 8 x)); wr T (p + 2) (ucast (drop_bit 16 x)) }"

definition be_int4store :: "u8 list \<Rightarrow> nat \<Rightarrow> u32 \<Rightarrow> u8 list option" where
  "be_int4store T p A =
     do { T \<leftarrow> wr T p (ucast A); T \<leftarrow> wr T (p + 1) (ucast (drop_bit 8 A));
          T \<leftarrow> wr T (p + 2) (ucast (drop_bit 16 A)); wr T (p + 3) (ucast (drop_bit 24 A)) }"

definition be_int7store :: "u8 list \<Rightarrow> nat \<Rightarrow> u64 \<Rightarrow> u8 list option" where
  "be_int7store T p A =
     do { T \<leftarrow> wr T p (ucast A); T \<leftarrow> wr T (p + 1) (ucast (drop_bit 8 A));
          T \<leftarrow> wr T (p + 2) (ucast (drop_bit 16 A)); T \<leftarrow> wr T (p + 3) (ucast (drop_bit 24 A));
          T \<leftarrow> wr T (p + 4) (ucast (drop_bit 32 A)); T \<leftarrow> wr T (p + 5) (ucast (drop_bit 40 A));
          wr T (p + 6) (ucast (drop_bit 48 A)) }"

definition be_int8store :: "u8 list \<Rightarrow> nat \<Rightarrow> u64 \<Rightarrow> u8 list option" where
  "be_int8store T p A =
     (let def_temp = ucast A :: u32; def_temp2 = ucast (drop_bit 32 A) :: u32
      in do { T \<leftarrow> be_int4store T p def_temp; be_int4store T (p + 4) def_temp2 })"

text \<open>
  The machine's own integers again. \<^verbatim>\<open>longget\<close> and \<^verbatim>\<open>ulongget\<close> copy the bytes into an integer, whose first byte is the highest one here. Shifting a negative number to the right does not
  change the byte that is stored.
\<close>

definition be_ushortget :: "u8 list \<Rightarrow> nat \<Rightarrow> u16 option" where
  "be_ushortget M p = do { m1 \<leftarrow> rd M (p + 1); m0 \<leftarrow> rd M p; Some (ucast m1 + push_bit 8 (ucast m0)) }"

definition be_shortget :: "u8 list \<Rightarrow> nat \<Rightarrow> int option" where
  "be_shortget M p = do { m1 \<leftarrow> rd M (p + 1); m0 \<leftarrow> rd M p; Some (sint (ucast m1 + push_bit 8 (ucast m0) :: u16)) }"

definition be_ulongget :: "u8 list \<Rightarrow> nat \<Rightarrow> u32 option" where
  "be_ulongget M p = do { m0 \<leftarrow> rd M p; m1 \<leftarrow> rd M (p + 1); m2 \<leftarrow> rd M (p + 2); m3 \<leftarrow> rd M (p + 3); Some (le_word (rev [m0, m1, m2, m3])) }"

definition be_longget :: "u8 list \<Rightarrow> nat \<Rightarrow> int option" where
  "be_longget M p = do { m0 \<leftarrow> rd M p; m1 \<leftarrow> rd M (p + 1); m2 \<leftarrow> rd M (p + 2); m3 \<leftarrow> rd M (p + 3); Some (sint (le_word (rev [m0, m1, m2, m3]) :: u32)) }"

definition be_longlongget :: "u8 list \<Rightarrow> nat \<Rightarrow> int option" where
  "be_longlongget M p = map_option (\<lambda>bs. sint (le_word (rev bs) :: u64)) (bytes_at M p 8)"

definition be_shortstore :: "u8 list \<Rightarrow> nat \<Rightarrow> u16 \<Rightarrow> u8 list option" where
  "be_shortstore T p A =
     (let def_temp = scast A :: u32
      in do { T \<leftarrow> wr T (p + 1) (ucast def_temp); wr T p (ucast (drop_bit 8 def_temp)) })"

definition be_longstore :: "u8 list \<Rightarrow> nat \<Rightarrow> u32 \<Rightarrow> u8 list option" where
  "be_longstore T p A =
     do { T \<leftarrow> wr T (p + 3) (ucast A); T \<leftarrow> wr T (p + 2) (ucast (drop_bit 8 A));
          T \<leftarrow> wr T (p + 1) (ucast (drop_bit 16 A)); wr T p (ucast (drop_bit 24 A)) }"

definition be_longlongstore :: "u8 list \<Rightarrow> nat \<Rightarrow> u64 \<Rightarrow> u8 list option" where
  "be_longlongstore T p V = poke T p (rev (le_bytes 8 V))"

section \<open>Length-encoded integers and strings\<close>

text \<open>The result is the return value, what was written to \<^verbatim>\<open>*res\<close>, and the new \<^verbatim>\<open>*pos\<close>.\<close>

definition decode_length_safe :: "u8 list \<Rightarrow> nat \<Rightarrow> nat \<Rightarrow> (int \<times> u64 option \<times> nat) option" where
  "decode_length_safe buf p lim =
     do { b \<leftarrow> rd buf p;
          if b = 251 then Some (1, Some (NOT 0), p + 1)
          else if b = 252 then
            if p + 2 > lim then Some (0, None, p)
            else do { v \<leftarrow> uint2korr buf (p + 1); Some (1, Some (ucast v), p + 3) }
          else if b = 253 then
            if p + 3 > lim then Some (0, None, p)
            else do { v \<leftarrow> uint3korr buf (p + 1); Some (1, Some (ucast v), p + 4) }
          else if b = 254 then
            if p + 8 > lim then Some (0, None, p)
            else do { v \<leftarrow> uint8korr buf (p + 1); Some (1, Some v, p + 9) }
          else if b = 255 then Some (- 1, None, p)
          else Some (1, Some (ucast b), p + 1) }"

text \<open>
  \<open>base\<close> is the address of the buffer: the test \<^verbatim>\<open>*pos + length > end\<close> compares 64-bit addresses. The result is the return
  value, \<^verbatim>\<open>*str\<close> (\<open>None\<close> for \<^verbatim>\<open>NULL\<close>), \<^verbatim>\<open>*len\<close> and \<^verbatim>\<open>*pos\<close>; on failure the first two are not written.
\<close>

datatype decoded_string = Not_decoded | Decoded "nat option" u64

definition decode_string :: "u64 \<Rightarrow> u8 list \<Rightarrow> nat \<Rightarrow> nat \<Rightarrow> (int \<times> decoded_string \<times> nat) option" where
  "decode_string base buf p lim =
     do { (ret, res, p) \<leftarrow> decode_length_safe buf p lim;
          (case res of
             None \<Rightarrow> Some (0, Not_decoded, p)
           | Some len \<Rightarrow>
               if ret \<le> 0 then Some (0, Not_decoded, p)
               else if len = 0 \<or> len = NOT 0 then Some (1, Decoded None 0, p)
               else if base + of_nat p + len > base + of_nat lim then Some (0, Not_decoded, p)
               else Some (1, Decoded (Some p) len, p + unat len)) }"

definition get_length_size :: "u64 \<Rightarrow> nat" where
  "get_length_size num = (if num < 252 then 1 else if num < 65536 then 3 else if num < 16777216 then 4 else 9)"

section \<open>Growing\<close>

text \<open>All allocations succeed.\<close>

abbreviation always :: "nat \<Rightarrow> bool" where "always \<equiv> \<lambda>n. True"

lemma grow_size_ok: "0 < s \<Longrightarrow> \<exists>n. grow_size need s = Some n \<and> need \<le> n"
proof (induction "need - s" arbitrary: s rule: less_induct)
  case less
  show ?case
  proof (cases "s < need")
    case True
    then show ?thesis using less.hyps [of "2 * s"] less.prems by (subst grow_size.simps) auto
  next
    case False
    then show ?thesis by (subst grow_size.simps) auto
  qed
qed


section \<open>Images of integers\<close>

lemma bit_le_word_Cons:
  "bit (le_word (b # bs) :: 'a :: len word) k \<longleftrightarrow> k < LENGTH('a) \<and> (if k < 8 then bit b k else bit (le_word bs :: 'a word) (k - 8))"
  by (auto simp: bit_or_iff bit_push_bit_iff bit_ucast_iff not_le dest: bit_imp_le_length)

lemma le_word_bytes:
  fixes x :: "'a :: len word"
  shows "le_word (le_bytes n x) = take_bit (8 * n) x"
proof (induction n arbitrary: x)
  case (Suc n)
  show ?case
  proof (rule bit_word_eqI)
    fix k assume "k < LENGTH('a)"
    then show "bit (le_word (le_bytes (Suc n) x) :: 'a word) k \<longleftrightarrow> bit (take_bit (8 * Suc n) x) k"
      by (simp del: le_word.simps add: bit_le_word_Cons Suc.IH bit_take_bit_iff bit_drop_bit_eq bit_ucast_iff) (auto simp: not_less)
  qed
qed simp

lemma bit_le_word:
  "bit (le_word bs :: 'a :: len word) k \<longleftrightarrow> k < LENGTH('a) \<and> k < 8 * length bs \<and> bit (bs ! (k div 8)) (k mod 8)"
proof (induction bs arbitrary: k)
  case (Cons b bs)
  have "k div 8 = Suc ((k - 8) div 8)" "k mod 8 = (k - 8) mod 8" if "8 \<le> k"
    using that by (simp_all add: le_div_geq le_mod_geq)
  then show ?case using Cons.IH [of "k - 8"] by (cases "k < 8") (auto simp: bit_le_word_Cons simp del: le_word.simps(2))
qed simp

lemma ucast_le_word:
  assumes "8 * length bs \<le> LENGTH('a)" "LENGTH('a) \<le> LENGTH('b)"
  shows "ucast (le_word bs :: 'a :: len word) = (le_word bs :: 'b :: len word)"
  by (rule bit_word_eqI) (use assms in \<open>auto simp: bit_ucast_iff bit_le_word\<close>)

lemma length_le_bytes [simp]: "length (le_bytes n x) = n"
  by (induction n arbitrary: x) auto

lemma bytes_poke: "poke buf p bs = Some buf' \<Longrightarrow> bytes_at buf' p (length bs) = Some bs"
  by (auto simp: poke_def bytes_at_def split: if_splits)

lemma le_word_plus: "ucast b OR push_bit 8 x = (ucast (b :: u8) + push_bit 8 x :: 'a :: len word)"
  by (rule disjunctive_add [symmetric]) (auto simp: bit_push_bit_iff bit_ucast_iff dest: bit_imp_le_length)

lemma le_word_eq_plus: "le_word (b # bs) = ucast b + push_bit 8 (le_word bs)"
  by (simp add: le_word_plus)


section \<open>The two sets of functions agree\<close>

lemma bytes_at_list:
  "p + 2 \<le> length A \<Longrightarrow> bytes_at A p 2 = Some [A ! p, A ! (p + 1)]"
  "p + 3 \<le> length A \<Longrightarrow> bytes_at A p 3 = Some [A ! p, A ! (p + 1), A ! (p + 2)]"
  "p + 4 \<le> length A \<Longrightarrow> bytes_at A p 4 = Some [A ! p, A ! (p + 1), A ! (p + 2), A ! (p + 3)]"
  "p + 8 \<le> length A \<Longrightarrow> bytes_at A p 8 =
     Some [A ! p, A ! (p + 1), A ! (p + 2), A ! (p + 3), A ! (p + 4), A ! (p + 5), A ! (p + 6), A ! (p + 7)]"
  by (auto simp: bytes_at_def eval_nat_numeral take_Suc_conv_app_nth nth_append)

lemma be_uint2korr_eq: "be_uint2korr A p = uint2korr A p"
proof (cases "p + 2 \<le> length A")
  case True
  then show ?thesis by (simp add: be_uint2korr_def uint2korr_def bytes_at_list le_word_eq_plus del: le_word.simps(2))
next
  case False
  then show ?thesis by (cases "p < length A") (simp_all add: be_uint2korr_def uint2korr_def bytes_at_def rd_def)
qed

lemma be_uint3korr_eq: "be_uint3korr A p = uint3korr A p"
proof (cases "p + 3 \<le> length A")
  case True
  then show ?thesis by (simp add: be_uint3korr_def uint3korr_def bytes_at_list le_word_eq_plus push_bit_add add.assoc del: le_word.simps(2))
next
  case False
  then have "rd A (p + 2) = None" by (simp add: rd_def)
  then show ?thesis using False by (simp add: be_uint3korr_def uint3korr_def bytes_at_def bind_eq_None_conv)
qed

lemma be_uint4korr_eq: "be_uint4korr A p = uint4korr A p"
proof (cases "p + 4 \<le> length A")
  case True
  then show ?thesis by (simp add: be_uint4korr_def uint4korr_def bytes_at_list le_word_eq_plus push_bit_add add.assoc del: le_word.simps(2))
next
  case False
  then have "rd A (p + 3) = None" by (simp add: rd_def)
  then show ?thesis using False by (simp add: be_uint4korr_def uint4korr_def bytes_at_def bind_eq_None_conv)
qed

lemma ucast_le_word4:
  "ucast (le_word [a, b, c, d] :: u32) = (le_word [a, b, c, d] :: u64)"
  by (rule bit_word_eqI) (auto simp: bit_ucast_iff bit_le_word_Cons simp del: le_word.simps(2) dest: bit_imp_le_length)

lemma be_uint8korr_eq: "be_uint8korr A p = uint8korr A p"
proof (cases "p + 8 \<le> length A")
  case True
  have "be_uint4korr A p = Some (le_word [A ! p, A ! (p + 1), A ! (p + 2), A ! (p + 3)])"
    "be_uint4korr A (p + 4) = Some (le_word [A ! (p + 4), A ! (p + 5), A ! (p + 6), A ! (p + 7)])"
    using True by (simp_all add: be_uint4korr_eq uint4korr_def bytes_at_list add.commute del: le_word.simps)
  then show ?thesis using True
    by (simp add: be_uint8korr_def uint8korr_def bytes_at_list ucast_le_word4 del: le_word.simps)
      (simp add: le_word_eq_plus push_bit_add add.assoc del: le_word.simps(2))
next
  case False
  then have "uint4korr A (p + 4) = None" by (simp add: uint4korr_def bytes_at_def)
  then show ?thesis using False by (simp add: be_uint8korr_def be_uint4korr_eq uint8korr_def bytes_at_def bind_eq_None_conv)
qed

lemma poke_Nil: "p \<le> length T \<Longrightarrow> poke T p [] = Some T"
  by (simp add: poke_def)

lemma poke_Cons: "poke T p (b # bs) = do { T \<leftarrow> wr T p b; poke T (p + 1) bs }"
proof (cases "p < length T")
  case True
  have "take (p + 1) (T[p := b]) = take p T @ [b]" using True by (simp add: take_Suc_conv_app_nth)
  then show ?thesis using True by (simp add: poke_def wr_def drop_update_cancel)
qed (simp add: poke_def wr_def)

lemma poke_1: "poke T p [b] = wr T p b"
  by (cases "p < length T") (simp_all add: poke_Cons poke_Nil wr_def)

lemma ucast_drop_ucast32: "ucast (drop_bit n (ucast (x :: u64) :: u32)) = (ucast (drop_bit n x) :: u8)" if "n + 8 \<le> 32"
  by (rule bit_word_eqI) (use that in \<open>auto simp: bit_ucast_iff bit_drop_bit_eq dest: bit_imp_le_length\<close>)

lemma ucast_drop_ucast16: "ucast (drop_bit n (ucast (x :: u16) :: u32)) = (ucast (drop_bit n x) :: u8)"
  by (rule bit_word_eqI) (auto simp: bit_ucast_iff bit_drop_bit_eq dest: bit_imp_le_length)

lemma le_bytes_numeral: "le_bytes (numeral k) x = ucast x # le_bytes (pred_numeral k) (drop_bit 8 x)"
  by (simp add: numeral_eq_Suc)

lemma le_bytes_list:
  "le_bytes 2 x = [ucast x, ucast (drop_bit 8 x)]"
  "le_bytes 3 x = [ucast x, ucast (drop_bit 8 x), ucast (drop_bit 16 x)]"
  "le_bytes 4 x = [ucast x, ucast (drop_bit 8 x), ucast (drop_bit 16 x), ucast (drop_bit 24 x)]"
  "le_bytes 7 x = [ucast x, ucast (drop_bit 8 x), ucast (drop_bit 16 x), ucast (drop_bit 24 x), ucast (drop_bit 32 x),
     ucast (drop_bit 40 x), ucast (drop_bit 48 x)]"
  "le_bytes 8 x = [ucast x, ucast (drop_bit 8 x), ucast (drop_bit 16 x), ucast (drop_bit 24 x), ucast (drop_bit 32 x),
     ucast (drop_bit 40 x), ucast (drop_bit 48 x), ucast (drop_bit 56 x)]"
  by (simp_all add: le_bytes_numeral)

lemma poke_Cons2: "poke T p (b # c # bs) = do { T \<leftarrow> wr T p b; poke T (p + 1) (c # bs) }"
  by (rule poke_Cons)

lemma be_store_eq:
  "be_int2store T p a = int2store T p a" "be_int3store T p b = int3store T p b"
  "be_int4store T p b = int4store T p b" "be_int7store T p c = int7store T p c"
  using ucast_drop_ucast16 [of 0 a]
  by (simp_all add: be_int2store_def be_int3store_def be_int4store_def be_int7store_def int2store_def int3store_def
      int4store_def int7store_def le_bytes_list poke_Cons2 poke_1 ucast_drop_ucast16 Let_def)
    (simp_all add: eval_nat_numeral)

lemma poke_append: "poke T p (xs @ ys) = do { T \<leftarrow> poke T p xs; poke T (p + length xs) ys }"
proof (induction xs arbitrary: T p)
  case Nil
  then show ?case by (auto simp: poke_def)
next
  case (Cons x xs)
  then show ?case by (simp add: poke_Cons Option.bind_assoc)
qed

lemma be_int8store_eq: "be_int8store T p a = int8store T p a"
proof -
  have lo: "le_bytes 4 (ucast a :: u32) = [ucast a, ucast (drop_bit 8 a), ucast (drop_bit 16 a), ucast (drop_bit 24 a)]"
    using ucast_drop_ucast32 [of 0 a] by (simp add: le_bytes_list ucast_drop_ucast32)
  have hi: "le_bytes 4 (ucast (drop_bit 32 a) :: u32) = [ucast (drop_bit 32 a), ucast (drop_bit 40 a), ucast (drop_bit 48 a), ucast (drop_bit 56 a)]"
    using ucast_drop_ucast32 [of 0 "drop_bit 32 a"] by (simp add: le_bytes_list ucast_drop_ucast32)
  have "le_bytes 8 a = le_bytes 4 (ucast a :: u32) @ le_bytes 4 (ucast (drop_bit 32 a) :: u32)" unfolding lo hi by (simp add: le_bytes_list)
  then show ?thesis by (simp add: be_int8store_def be_store_eq int4store_def int8store_def poke_append Let_def)
qed

lemma be_sint4korr_eq:
  "be_sint4korr A p = (if p + 4 \<le> length A \<and> 128 \<le> A ! (p + 3) then None else sint4korr A p)"
proof (cases "p + 4 \<le> length A")
  case True
  have "be_uint4korr A p = Some (le_word [A ! p, A ! (p + 1), A ! (p + 2), A ! (p + 3)])" using True by (simp add: be_uint4korr_eq uint4korr_def bytes_at_list del: le_word.simps)
  then have "ucast (A ! p) + push_bit 8 (ucast (A ! (p + 1))) + push_bit 16 (ucast (A ! (p + 2))) + push_bit 24 (ucast (A ! (p + 3))) = (le_word [A ! p, A ! (p + 1), A ! (p + 2), A ! (p + 3)] :: u32)"
    using True by (simp add: be_uint4korr_def del: le_word.simps)
  then show ?thesis using True by (simp add: be_sint4korr_def sint4korr_def bytes_at_list del: le_word.simps)
next
  case False
  then have "rd A (p + 3) = None" by (simp add: rd_def)
  then show ?thesis using False by (simp add: be_sint4korr_def sint4korr_def bytes_at_def bind_eq_None_conv)
qed

text \<open>Extending the sign of a number of three bytes.\<close>

lemma sign_extend3:
  fixes w :: u32
  assumes "uint w < 2 ^ 24"
  shows "sint w = uint w" "2 ^ 23 \<le> uint w \<Longrightarrow> sint (w OR push_bit 24 255) = uint w - 2 ^ 24"
proof -
  have w: "w = word_of_int (uint w)" by simp
  have s: "sint (word_of_int i :: u32) = i" if "- (2 ^ 31) \<le> i" "i < 2 ^ 31" for i :: int
    using that by (simp add: signed_of_int signed_take_bit_int_eq_self)
  show "sint w = uint w" using s [of "uint w"] assms uint_ge_0 [of w] by simp
  have n: "\<not> bit w k" if "24 \<le> k" for k
  proof -
    have "take_bit 24 (uint w) = uint w" using assms by (simp add: take_bit_int_eq_self)
    then have "take_bit 24 w = w" by (metis unsigned_take_bit_eq word_uint_eqI)
    then show ?thesis using that by (metis bit_take_bit_iff leD)
  qed
  have "w OR push_bit 24 h = w + push_bit 24 h" for h
    by (rule disjunctive_add [symmetric]) (use n in \<open>auto simp: bit_push_bit_iff\<close>)
  from this [of 255] have "w OR push_bit 24 255 = w + push_bit 24 255" .
  also have "\<dots> = word_of_int (uint w - 2 ^ 24)" by simp
  finally have e: "w OR push_bit 24 255 = word_of_int (uint w - 2 ^ 24)" .
  assume "2 ^ 23 \<le> uint w"
  then show "sint (w OR push_bit 24 255) = uint w - 2 ^ 24" unfolding e using assms by (intro s) auto
qed

lemma bit_23: "0 \<le> x \<Longrightarrow> x < 2 ^ 24 \<Longrightarrow> bit x 23 \<longleftrightarrow> 2 ^ 23 \<le> (x :: int)"
proof -
  assume x: "0 \<le> x" "x < 2 ^ 24"
  show ?thesis
  proof (cases "2 ^ 23 \<le> x")
    case True
    then have "x div 2 ^ 23 = 1" using x by (intro int_div_pos_eq [of _ _ _ "x - 2 ^ 23"]) auto
    then show ?thesis using True by (simp add: bit_iff_odd)
  next
    case False
    then show ?thesis using x by (simp add: bit_iff_odd)
  qed
qed

lemma be_sint3korr_eq: "be_sint3korr A p = map_option (\<lambda>v. if 2 ^ 23 \<le> v then v - 2 ^ 24 else v) (sint3korr A p)"
proof (cases "p + 3 \<le> length A")
  case True
  let ?a = "A ! p" and ?b = "A ! (p + 1)" and ?c = "A ! (p + 2)"
  define w :: u32 where "w = le_word [?a, ?b, ?c]"
  have w: "push_bit 16 (ucast ?c) OR push_bit 8 (ucast ?b) OR ucast ?a = w"
    by (simp add: w_def push_bit_or or.assoc or.commute or.left_commute)
  have b: "bit w k \<longleftrightarrow> k < 24 \<and> bit ([?a, ?b, ?c] ! (k div 8)) (k mod 8)" for k by (auto simp: w_def bit_le_word simp del: le_word.simps)
  have "take_bit 24 w = w" by (rule bit_word_eqI) (auto simp: bit_take_bit_iff b)
  then have u: "uint w < 2 ^ 24" by (metis take_bit_int_less_exp unsigned_take_bit_eq)
  have "?c AND 128 \<noteq> 0 \<longleftrightarrow> bit ?c 7" using and_exp_eq_0_iff_not_bit [of ?c 7] by simp
  also have "\<dots> \<longleftrightarrow> bit w 23" by (simp add: b)
  also have "\<dots> \<longleftrightarrow> bit (uint w) 23" by (simp add: bit_uint_iff)
  also have "\<dots> \<longleftrightarrow> 2 ^ 23 \<le> uint w" by (rule bit_23 [OF uint_ge_0 u])
  finally have c: "?c AND 128 \<noteq> 0 \<longleftrightarrow> 2 ^ 23 \<le> uint w" .
  have rds: "rd A p = Some ?a" "rd A (p + 1) = Some ?b" "rd A (p + 2) = Some ?c" using True by simp_all
  have "push_bit 24 255 OR push_bit 16 (ucast ?c) OR push_bit 8 (ucast ?b) OR ucast ?a = w OR push_bit 24 255" unfolding w [symmetric] by (simp only: or.assoc or.commute or.left_commute)
  then have "be_sint3korr A p = Some (if 2 ^ 23 \<le> uint w then uint w - 2 ^ 24 else uint w)"
    using sign_extend3 [OF u] by (simp only: be_sint3korr_def rds Option.bind.bind_lunit c w if_True if_False split: if_splits) simp
  moreover have "sint3korr A p = Some (uint w)" using True sign_extend3(1) [OF u] by (simp add: sint3korr_def bytes_at_list w_def del: le_word.simps)
  ultimately show ?thesis by simp
next
  case False
  then have "rd A (p + 2) = None" by (simp add: rd_def)
  then show ?thesis using False by (simp add: be_sint3korr_def sint3korr_def bytes_at_def bind_eq_None_conv)
qed

text \<open>On a big-endian machine the machine's own integers have their bytes in the opposite order.\<close>

lemma be_get_eq:
  "be_ushortget M p = map_option (\<lambda>bs. le_word (rev bs)) (bytes_at M p 2)" "be_shortget M p = map_option (\<lambda>bs. sint (le_word (rev bs) :: u16)) (bytes_at M p 2)"
  "be_ulongget M p = map_option (\<lambda>bs. le_word (rev bs)) (bytes_at M p 4)" "be_longget M p = map_option (\<lambda>bs. sint (le_word (rev bs) :: u32)) (bytes_at M p 4)"
proof -
  have 2: "p + 2 \<le> length M \<or> bytes_at M p 2 = None \<and> rd M (p + 1) = None" by (auto simp: bytes_at_def rd_def)
  have 4: "p + 4 \<le> length M \<or> bytes_at M p 4 = None \<and> rd M (p + 3) = None" by (auto simp: bytes_at_def rd_def)
  show "be_ushortget M p = map_option (\<lambda>bs. le_word (rev bs)) (bytes_at M p 2)" using 2 by (auto simp: be_ushortget_def bytes_at_list le_word_eq_plus simp del: le_word.simps(2))
  show "be_shortget M p = map_option (\<lambda>bs. sint (le_word (rev bs) :: u16)) (bytes_at M p 2)" using 2 by (auto simp: be_shortget_def bytes_at_list le_word_eq_plus simp del: le_word.simps(2))
  show "be_ulongget M p = map_option (\<lambda>bs. le_word (rev bs)) (bytes_at M p 4)" using 4 by (auto simp: be_ulongget_def bytes_at_list bind_eq_None_conv simp del: le_word.simps)
  show "be_longget M p = map_option (\<lambda>bs. sint (le_word (rev bs) :: u32)) (bytes_at M p 4)" using 4 by (auto simp: be_longget_def bytes_at_list bind_eq_None_conv simp del: le_word.simps)
qed

lemma ucast_drop_scast16: "n \<le> 8 \<Longrightarrow> ucast (drop_bit n (scast (x :: u16) :: u32)) = (ucast (drop_bit n x) :: u8)"
proof (rule bit_word_eqI)
  fix k assume n: "n \<le> 8" and "k < LENGTH(8)"
  then have "k + n < 15 \<or> k + n = 15" by auto
  then show "bit (ucast (drop_bit n (scast x :: u32)) :: u8) k = bit (ucast (drop_bit n x) :: u8) k"
    by (auto simp: bit_ucast_iff bit_drop_bit_eq bit_signed_iff min_def add.commute eval_nat_numeral)
qed

lemma be_own_store_eq: "be_shortstore T p a = poke T p (rev (le_bytes 2 a))" "be_longstore T p b = poke T p (rev (le_bytes 4 b))"
proof -
  have "ucast (scast a :: u32) = (ucast a :: u8)" using ucast_drop_scast16 [of 0 a] by simp
  then show "be_shortstore T p a = poke T p (rev (le_bytes 2 a))"
    by (auto simp: be_shortstore_def le_bytes_list poke_Cons2 poke_1 wr_def ucast_drop_scast16 Let_def list_update_swap)
  show "be_longstore T p b = poke T p (rev (le_bytes 4 b))"
    by (auto simp: be_longstore_def le_bytes_list poke_Cons2 poke_1 wr_def intro!: nth_equalityI simp: nth_list_update)
qed

section \<open>Properties\<close>

text \<open>
  C35: How the functions for the two byte orders compare, on every buffer, reads and writes out of range included. The functions for the integers of the protocol (\<^verbatim>\<open>korr\<close> and \<^verbatim>\<open>intstore\<close>)
  agree, with two exceptions: the signed load of four bytes is undefined on big-endian machines for negative numbers, and the signed load of three bytes extends the sign there only. The functions for
  the machine's own integers (\<^verbatim>\<open>ushortget\<close>, \<^verbatim>\<open>shortget\<close>, \<^verbatim>\<open>ulongget\<close>, \<^verbatim>\<open>longget\<close>, \<^verbatim>\<open>shortstore\<close>, \<^verbatim>\<open>longstore\<close>, \<^verbatim>\<open>longlongget\<close>, \<^verbatim>\<open>longlongstore\<close>) do not agree: they access the same bytes in the opposite order.
\<close>

theorem byteorder_agree:
  "be_uint2korr A p = uint2korr A p \<and> be_uint3korr A p = uint3korr A p \<and> be_uint4korr A p = uint4korr A p \<and>
   be_uint8korr A p = uint8korr A p \<and> be_sint2korr A p = sint2korr A p \<and> be_sint8korr A p = sint8korr A p \<and>
   be_int2store A p a = int2store A p a \<and> be_int3store A p b = int3store A p b \<and> be_int4store A p b = int4store A p b \<and>
   be_int7store A p c = int7store A p c \<and> be_int8store A p c = int8store A p c \<and>
   be_sint4korr A p = (if p + 4 \<le> length A \<and> 128 \<le> A ! (p + 3) then None else sint4korr A p) \<and>
   be_sint3korr A p = map_option (\<lambda>v. if 2 ^ 23 \<le> v then v - 2 ^ 24 else v) (sint3korr A p) \<and>
   ushortget A p = map_option le_word (bytes_at A p 2) \<and> be_ushortget A p = map_option (\<lambda>bs. le_word (rev bs)) (bytes_at A p 2) \<and>
   shortget A p = map_option (\<lambda>bs. sint (le_word bs :: u16)) (bytes_at A p 2) \<and> be_shortget A p = map_option (\<lambda>bs. sint (le_word (rev bs) :: u16)) (bytes_at A p 2) \<and>
   ulongget A p = map_option le_word (bytes_at A p 4) \<and> be_ulongget A p = map_option (\<lambda>bs. le_word (rev bs)) (bytes_at A p 4) \<and>
   longget A p = map_option (\<lambda>bs. sint (le_word bs :: u32)) (bytes_at A p 4) \<and> be_longget A p = map_option (\<lambda>bs. sint (le_word (rev bs) :: u32)) (bytes_at A p 4) \<and>
   shortstore A p a = poke A p (le_bytes 2 a) \<and> be_shortstore A p a = poke A p (rev (le_bytes 2 a)) \<and>
   longstore A p b = poke A p (le_bytes 4 b) \<and> be_longstore A p b = poke A p (rev (le_bytes 4 b)) \<and>
   longlongget A p = map_option (\<lambda>bs. sint (le_word bs :: u64)) (bytes_at A p 8) \<and> be_longlongget A p = map_option (\<lambda>bs. sint (le_word (rev bs) :: u64)) (bytes_at A p 8) \<and>
   longlongstore A p c = poke A p (le_bytes 8 c) \<and> be_longlongstore A p c = poke A p (rev (le_bytes 8 c))"
proof -
  have s: "be_sint2korr A p = sint2korr A p" "be_sint8korr A p = sint8korr A p"
    by (simp_all add: be_sint2korr_def be_uint2korr_eq sint2korr_def uint2korr_def be_sint8korr_def be_uint8korr_eq sint8korr_def uint8korr_def option.map_comp comp_def)
  have l: "ushortget A p = map_option le_word (bytes_at A p 2)" "shortget A p = map_option (\<lambda>bs. sint (le_word bs :: u16)) (bytes_at A p 2)"
    "ulongget A p = map_option le_word (bytes_at A p 4)" "longget A p = map_option (\<lambda>bs. sint (le_word bs :: u32)) (bytes_at A p 4)"
    "shortstore A p a = poke A p (le_bytes 2 a)" "longstore A p b = poke A p (le_bytes 4 b)"
    by (simp_all add: ushortget_def uint2korr_def shortget_def sint2korr_def ulongget_def uint4korr_def longget_def sint4korr_def shortstore_def int2store_def longstore_def int4store_def)
  show ?thesis by (intro conjI be_uint2korr_eq be_uint3korr_eq be_uint4korr_eq be_uint8korr_eq s l be_store_eq be_int8store_eq be_sint4korr_eq be_sint3korr_eq be_get_eq be_own_store_eq longlongget_def be_longlongget_def longlongstore_def be_longlongstore_def)
qed

text \<open>
  A stored integer is read back: loading after a store gives the value, truncated to 24 bits for the three-byte form,
  and the bytes outside the field are untouched.
\<close>

theorem byteorder_roundtrip:
  "(\<forall>T'. int2store T p a = Some T' \<longrightarrow> uint2korr T' p = Some a \<and> sint2korr T' p = Some (sint a)) \<and>
   (\<forall>T'. int3store T p b = Some T' \<longrightarrow> uint3korr T' p = Some (take_bit 24 b)) \<and>
   (\<forall>T'. int4store T p b = Some T' \<longrightarrow> uint4korr T' p = Some b \<and> sint4korr T' p = Some (sint b)) \<and>
   (\<forall>T'. int8store T p c = Some T' \<longrightarrow> uint8korr T' p = Some c \<and> sint8korr T' p = Some (sint c) \<and>
      length T' = length T \<and> take p T' = take p T \<and> drop (p + 8) T' = drop (p + 8) T)"
proof -
  have "uint2korr T' p = Some a \<and> sint2korr T' p = Some (sint a)" if "int2store T p a = Some T'" for T'
    using bytes_poke [of T p "le_bytes 2 a" T'] that le_word_bytes [of 2 a] by (simp add: take_bit_word_eq_self int2store_def uint2korr_def sint2korr_def)
  moreover have "uint3korr T' p = Some (take_bit 24 b)" if "int3store T p b = Some T'" for T'
    using bytes_poke [of T p "le_bytes 3 b" T'] that le_word_bytes [of 3 b] by (simp add: int3store_def uint3korr_def)
  moreover have "uint4korr T' p = Some b \<and> sint4korr T' p = Some (sint b)" if "int4store T p b = Some T'" for T'
    using bytes_poke [of T p "le_bytes 4 b" T'] that le_word_bytes [of 4 b] by (simp add: take_bit_word_eq_self int4store_def uint4korr_def sint4korr_def)
  moreover have "uint8korr T' p = Some c \<and> sint8korr T' p = Some (sint c)" if "int8store T p c = Some T'" for T'
    using bytes_poke [of T p "le_bytes 8 c" T'] that le_word_bytes [of 8 c] by (simp add: take_bit_word_eq_self int8store_def uint8korr_def sint8korr_def)
  moreover have "length T' = length T \<and> take p T' = take p T \<and> drop (p + 8) T' = drop (p + 8) T" if "int8store T p c = Some T'" for T'
    using that by (auto simp: int8store_def poke_def split: if_splits)
  ultimately show ?thesis by blast
qed

theorem byteorder_roundtrip_witness:
  "uint4korr [9, 120, 86, 52, 18] 1 = Some 0x12345678"
proof -
  have "int4store [9, 0, 0, 0, 0] 1 0x12345678 = Some [9, 120, 86, 52, 18]"
    by (simp add: int4store_def le_bytes_list poke_def)
  then show ?thesis using byteorder_roundtrip [of "[9, 0, 0, 0, 0]" 1 0 "0x12345678" 0] by blast
qed

text \<open>How many bytes the encoding starting with \<open>b\<close> takes.\<close>

definition length_need :: "u8 \<Rightarrow> nat" where
  "length_need b = (if b = 252 then 3 else if b = 253 then 4 else if b = 254 then 9 else 1)"

text \<open>
  C36: Decoding a length: when all bytes of the encoding lie before the end, the value is decoded and the position moves
  past it; when the end is more than one byte short the result is \<open>0\<close>; when it is exactly one byte short the check still
  passes, and the load reads one byte past the end of the buffer.
\<close>

theorem decode_length_safe_cases:
  assumes "p < length buf" "b = buf ! p" "b \<noteq> 255"
  shows "(p + length_need b \<le> length buf \<longrightarrow>
      decode_length_safe buf p (length buf) =
        Some (1, Some (if b = 251 then NOT 0 else if b < 251 then ucast b else le_word (take (length_need b - 1) (drop (p + 1) buf))),
              p + length_need b)) \<and>
    (p + length_need b = length buf + 1 \<longrightarrow> decode_length_safe buf p (length buf) = None) \<and>
    (p + length_need b > length buf + 1 \<longrightarrow> decode_length_safe buf p (length buf) = Some (0, None, p))"
proof -
  have r: "rd buf p = Some b" using assms(1,2) by simp
  consider "b = 251" | "b = 252" | "b = 253" | "b = 254" | "b < 251"
  proof -
    have "unat b < 256" using unsigned_less [of b] by simp
    moreover have "unat b \<noteq> 255" using assms(3) by (simp add: word_unat_eq_iff)
    ultimately have "unat b = 251 \<or> unat b = 252 \<or> unat b = 253 \<or> unat b = 254 \<or> unat b < 251" by linarith
    then show thesis using that by (simp add: word_unat_eq_iff word_less_nat_alt) blast
  qed
  then show ?thesis
  proof cases
    case 5
    then have "b \<noteq> 251" "b \<noteq> 252" "b \<noteq> 253" "b \<noteq> 254" by auto
    then show ?thesis using r assms 5 by (simp add: decode_length_safe_def length_need_def)
  qed (use r assms in \<open>auto simp: decode_length_safe_def length_need_def uint2korr_def uint3korr_def uint8korr_def bytes_at_def ucast_le_word\<close>)
qed

theorem decode_length_safe_cases_witness:
  "decode_length_safe [252, 1, 2] 0 3 = Some (1, Some 513, 3) \<and> decode_length_safe [252, 1] 0 2 = None"
proof -
  have l: "length [252, 1 :: u8] = 2" by simp
  have "decode_length_safe [252, 1] 0 2 = None"
    using decode_length_safe_cases [of 0 "[252, 1]" 252, unfolded l] by (simp add: length_need_def)
  moreover have "decode_length_safe [252, 1, 2] 0 3 = Some (1, Some (le_word [1, 2]), 3)"
    using decode_length_safe_cases [of 0 "[252, 1, 2]" 252] by (simp add: length_need_def numeral_3_eq_3 del: le_word.simps)
  ultimately show ?thesis by simp
qed

lemma decode_length_pos: "decode_length_safe buf p lim = Some (1, Some v, q) \<Longrightarrow> q \<le> length buf"
  by (auto simp: decode_length_safe_def uint2korr_def uint3korr_def uint8korr_def bytes_at_def rd_Some_iff
      split: bind_splits if_splits)

text \<open>
  A decoded string: whenever its length does not reach beyond the 64-bit address space, the string and the new position
  lie within the buffer; a length near \<open>2 ^ 64\<close> makes the address sum wrap around, and the check accepts it.
\<close>

theorem decode_string_bounds:
  assumes "decode_string base buf p (length buf) = Some (1, Decoded (Some q) len, p')"
    "unat base + length buf + unat len < 2 ^ 64"
  shows "q + unat len \<le> length buf \<and> p' = q + unat len \<and> 0 < unat len \<and>
    decode_string 4096 [254, 240, 255, 255, 255, 255, 255, 255, 255] 0 9 = Some (1, Decoded (Some 9) (- 16), 9 + (2 ^ 64 - 16))"
proof -
  obtain d: "decode_length_safe buf p (length buf) = Some (1, Some len, q)" and ne: "len \<noteq> 0"
    and c: "base + of_nat q + len \<le> base + of_nat (length buf)" and p': "p' = q + unat len"
    using assms(1) unfolding decode_string_def
    by (auto split: bind_splits option.splits if_splits simp: decode_length_safe_def)
  have q: "q \<le> length buf" by (rule decode_length_pos [OF d])
  have "unat (base + of_nat q + len) = unat base + q + unat len" "unat (base + of_nat (length buf)) = unat base + length buf"
    using assms(2) q by (simp_all add: unat_word_ariths unat_of_nat take_bit_eq_mod)
  then have "q + unat len \<le> length buf" using c by (simp add: word_le_nat_alt)
  moreover have "0 < unat len" using ne by (simp add: unat_gt_0)
  moreover have "decode_string 4096 [254, 240, 255, 255, 255, 255, 255, 255, 255] 0 9 = Some (1, Decoded (Some 9) (- 16), 9 + (2 ^ 64 - 16))"
    by (simp add: decode_string_def decode_length_safe_def uint8korr_def bytes_at_def)
  ultimately show ?thesis using p' by simp
qed

theorem decode_string_bounds_witness:
  "decode_string 4096 [2, 104, 105] 0 3 = Some (1, Decoded (Some 1) 2, 3) \<and> 1 + unat (2 :: u64) \<le> 3"
proof -
  have d: "decode_string 4096 [2, 104, 105] 0 (length [2, 104, 105 :: u8]) = Some (1, Decoded (Some 1) 2, 3)"
    by (simp add: decode_string_def decode_length_safe_def)
  have l: "length [2, 104, 105 :: u8] = 3" by simp
  have "1 + unat (2 :: u64) \<le> 3" using decode_string_bounds [OF d] by simp
  then show ?thesis using d [unfolded l] by simp
qed
end
