(* ===== verification/Mysql_Stream.thy ===== *)
theory Mysql_Stream
  imports Mysql_Bytes
begin

text \<open>
  Packets of the MySQL protocol (\<^verbatim>\<open>workflow/src/protocol/mysql_stream.c\<close> and the framing part of \<^verbatim>\<open>MySQLMessage.cc\<close>): a
  message is cut into packets of at most \<open>2 ^ 24 - 1\<close> bytes, each with a four-byte head, and the receiving stream collects the
  payloads. The stream's buffer is the list of the bytes written so far together with its capacity; writing beyond the
  capacity is \<open>None\<close>. \<open>mem\<close> tells which reallocations succeed. The function pointer \<^verbatim>\<open>write\<close> is the field \<open>ms_write\<close>.
\<close>

section \<open>The receiving stream\<close>

datatype ms_state = Write_head | Write_payload

record mysql_stream =
  ms_head :: "u8 list"
  ms_head_left :: nat
  ms_sequence_id :: u8
  ms_payload_length :: nat
  ms_payload_left :: nat
  ms_buf :: "u8 list"
  ms_bufsize :: nat
  ms_write :: ms_state

abbreviation MYSQL_PAYLOAD_MAX :: nat where "MYSQL_PAYLOAD_MAX \<equiv> 2 ^ 24 - 1"

definition mysql_stream_init :: "u8 list \<Rightarrow> mysql_stream" where
  "mysql_stream_init junk =
     \<lparr>ms_head = junk, ms_head_left = 4, ms_sequence_id = 0, ms_payload_length = 0, ms_payload_left = 0, ms_buf = [],
      ms_bufsize = 0, ms_write = Write_head\<rparr>"

text \<open>Each writer gets the bytes that are left and returns its result, the number of bytes it took, and the stream.\<close>

definition mysql_stream_write_head :: "(nat \<Rightarrow> bool) \<Rightarrow> u8 list \<Rightarrow> mysql_stream \<Rightarrow> (int \<times> nat \<times> mysql_stream) option" where
  "mysql_stream_write_head mem bs st =
     (if length bs < ms_head_left st then
        do { head \<leftarrow> poke (ms_head st) (4 - ms_head_left st) bs;
             Some (0, length bs, st\<lparr>ms_head := head, ms_head_left := ms_head_left st - length bs\<rparr>) }
      else
        do { head \<leftarrow> poke (ms_head st) (4 - ms_head_left st) (take (ms_head_left st) bs);
             h0 \<leftarrow> rd head 0; h1 \<leftarrow> rd head 1; h2 \<leftarrow> rd head 2; h3 \<leftarrow> rd head 3;
             (let len = unat h2 * 2 ^ 16 + unat h1 * 2 ^ 8 + unat h0;
                  st = st\<lparr>ms_head := head, ms_payload_length := len, ms_payload_left := len, ms_sequence_id := h3\<rparr>
              in if ms_bufsize st < length (ms_buf st) + len then
                   do { new_size \<leftarrow> grow_size (length (ms_buf st) + len) (max 2048 (2 * ms_bufsize st));
                        if mem new_size then
                          Some (0, ms_head_left st, st\<lparr>ms_bufsize := new_size, ms_write := Write_payload\<rparr>)
                        else Some (- 1, length bs, st) }
                 else Some (0, ms_head_left st, st\<lparr>ms_write := Write_payload\<rparr>)) })"

definition buf_append :: "u8 list \<Rightarrow> mysql_stream \<Rightarrow> mysql_stream option" where
  "buf_append bs st =
     (if length (ms_buf st) + length bs \<le> ms_bufsize st then Some (st\<lparr>ms_buf := ms_buf st @ bs\<rparr>) else None)"

definition mysql_stream_write_payload :: "u8 list \<Rightarrow> mysql_stream \<Rightarrow> (int \<times> nat \<times> mysql_stream) option" where
  "mysql_stream_write_payload bs st =
     (if length bs < ms_payload_left st then
        do { st \<leftarrow> buf_append bs st; Some (0, length bs, st\<lparr>ms_payload_left := ms_payload_left st - length bs\<rparr>) }
      else
        do { st \<leftarrow> buf_append (take (ms_payload_left st) bs) st;
             Some (if ms_payload_length st \<noteq> 2 ^ 24 - 1 then 1 else 0, ms_payload_left st,
                   st\<lparr>ms_head_left := 4, ms_write := Write_head\<rparr>) })"

definition mysql_stream_step :: "(nat \<Rightarrow> bool) \<Rightarrow> u8 list \<Rightarrow> mysql_stream \<Rightarrow> (int \<times> nat \<times> mysql_stream) option" where
  "mysql_stream_step mem bs st =
     (case ms_write st of Write_head \<Rightarrow> mysql_stream_write_head mem bs st | Write_payload \<Rightarrow> mysql_stream_write_payload bs st)"

partial_function (option) mysql_stream_write :: "(nat \<Rightarrow> bool) \<Rightarrow> u8 list \<Rightarrow> mysql_stream \<Rightarrow> (int \<times> mysql_stream) option" where
  "mysql_stream_write mem bs st =
     do { (ret, n, st) \<leftarrow> mysql_stream_step mem bs st;
          if length bs = n then Some (ret, st) else mysql_stream_write mem (drop n bs) st }"

section \<open>The sending message\<close>

text \<open>
  The iovec array has \<open>max\<close> entries; writing beyond it is \<open>None\<close>. The test \<^verbatim>\<open>i > max\<close> of the code comes after the two
  writes, so it can be true only after such a write.
\<close>

definition packet_head :: "nat \<Rightarrow> u8 \<Rightarrow> u8 list" where
  "packet_head len seqid = le_bytes 3 (of_nat len :: u32) @ [seqid]"

datatype encode_result = Encoded "u8 list list" | Encode_failed errno

partial_function (option) encode_from :: "nat \<Rightarrow> u8 \<Rightarrow> u8 \<Rightarrow> u8 list \<Rightarrow> u8 list list \<Rightarrow> (encode_result \<times> u8) option" where
  "encode_from max_iov seqid_start seqid rest vectors =
     (let len = (if length rest \<ge> MYSQL_PAYLOAD_MAX then MYSQL_PAYLOAD_MAX else length rest);
          i = length vectors + 2
      in if i > max_iov then None
         else let vectors = vectors @ [packet_head len seqid, take len rest]; seqid = seqid + 1
              in if length rest < MYSQL_PAYLOAD_MAX then Some (Encoded vectors, seqid)
                 else if seqid \<noteq> seqid_start then encode_from max_iov seqid_start seqid (drop len rest) vectors
                 else Some (Encode_failed EOVERFLOW, seqid))"

record mysql_message =
  mm_stream :: mysql_stream
  mm_buf :: "u8 list"
  mm_seqid :: u8
  mm_cur_size :: nat
  mm_size_limit :: nat

definition mysql_encode :: "nat \<Rightarrow> mysql_message \<Rightarrow> (encode_result \<times> mysql_message) option" where
  "mysql_encode max_iov m =
     do { (r, seqid) \<leftarrow> encode_from max_iov (mm_seqid m) (mm_seqid m) (mm_buf m) []; Some (r, m\<lparr>mm_seqid := seqid\<rparr>) }"

text \<open>
  \<open>decode_packet\<close> is the virtual function of the message class. The result is the return value, the value that
  \<^verbatim>\<open>append\<close> itself assigned to \<^verbatim>\<open>errno\<close>, if any, and the message.
\<close>

definition mysql_append ::
  "(nat \<Rightarrow> bool) \<Rightarrow> (u8 list \<Rightarrow> int) \<Rightarrow> u8 list \<Rightarrow> mysql_message \<Rightarrow> (int \<times> errno option \<times> mysql_message) option" where
  "mysql_append mem decode_packet bs m =
     (let m = m\<lparr>mm_cur_size := mm_cur_size m + length bs\<rparr>
      in if mm_cur_size m > mm_size_limit m then Some (- 1, Some EMSGSIZE, m)
         else do { (ret, st) \<leftarrow> mysql_stream_write mem bs (mm_stream m);
                   (let m = m\<lparr>mm_stream := st\<rparr>
                    in if ret > 0 then
                         let m = m\<lparr>mm_seqid := ms_sequence_id st\<rparr>; ret = decode_packet (ms_buf st)
                         in if ret = - 2 then Some (- 1, Some EBADMSG, m) else Some (ret, None, m)
                       else Some (ret, None, m)) })"

section \<open>A specification that reads byte by byte\<close>

text \<open>
  \<open>In_payload 0\<close> is the state after the head of an empty packet: the code finishes such a packet only when the next byte
  comes.
\<close>

datatype frame = In_head "u8 list" | In_payload nat

record framing =
  fr_frame :: frame
  fr_len :: nat
  fr_seq :: u8
  fr_data :: "u8 list"

definition head_length :: "u8 list \<Rightarrow> nat" where
  "head_length h = unat (h ! 2) * 2 ^ 16 + unat (h ! 1) * 2 ^ 8 + unat (h ! 0)"

definition head_byte :: "u8 list \<Rightarrow> u8 \<Rightarrow> framing \<Rightarrow> framing" where
  "head_byte hs b f =
     (if length hs < 3 then f\<lparr>fr_frame := In_head (hs @ [b])\<rparr>
      else f\<lparr>fr_frame := In_payload (head_length (hs @ [b])), fr_len := head_length (hs @ [b]), fr_seq := b\<rparr>)"

fun read_byte :: "u8 \<Rightarrow> framing \<Rightarrow> framing" where
  "read_byte b f =
     (case fr_frame f of
        In_head hs \<Rightarrow> head_byte hs b f
      | In_payload 0 \<Rightarrow> head_byte [] b f
      | In_payload (Suc n) \<Rightarrow> f\<lparr>fr_data := fr_data f @ [b], fr_frame := (if n = 0 then In_head [] else In_payload n)\<rparr>)"

declare read_byte.simps [simp del]

definition read_bytes :: "u8 list \<Rightarrow> framing \<Rightarrow> framing" where
  "read_bytes bs f = fold read_byte bs f"

definition message_done :: "framing \<Rightarrow> bool" where
  "message_done f \<longleftrightarrow> fr_frame f = In_head [] \<and> fr_len f \<noteq> MYSQL_PAYLOAD_MAX"

lemma read_bytes_append: "read_bytes (a @ b) f = read_bytes b (read_bytes a f)"
  by (simp add: read_bytes_def)

lemma read_bytes_Nil [simp]: "read_bytes [] f = f"
  by (simp add: read_bytes_def)

lemma read_bytes_Cons: "read_bytes (b # bs) f = read_bytes bs (read_byte b f)"
  by (simp add: read_bytes_def)

lemma read_head_part:
  "fr_frame f = In_head hs \<Longrightarrow> length hs + length bs < 4 \<Longrightarrow> read_bytes bs f = f\<lparr>fr_frame := In_head (hs @ bs)\<rparr>"
proof (induction bs arbitrary: f hs)
  case (Cons b bs)
  then have "read_byte b f = f\<lparr>fr_frame := In_head (hs @ [b])\<rparr>" by (simp add: read_byte.simps head_byte_def)
  then show ?case using Cons.IH [of "f\<lparr>fr_frame := In_head (hs @ [b])\<rparr>" "hs @ [b]"] Cons.prems by (simp add: read_bytes_Cons)
qed simp

lemma read_head_rest:
  assumes "fr_frame f = In_head hs" "length hs < 4" "length hs + length bs = 4"
  shows "read_bytes bs f =
    f\<lparr>fr_frame := In_payload (head_length (hs @ bs)), fr_len := head_length (hs @ bs), fr_seq := (hs @ bs) ! 3\<rparr>"
proof -
  have "bs \<noteq> []" using assms by auto
  then obtain cs b where bs: "bs = cs @ [b]" by (metis rev_exhaust)
  have "read_bytes cs f = f\<lparr>fr_frame := In_head (hs @ cs)\<rparr>" by (rule read_head_part) (use assms bs in auto)
  then show ?thesis using assms bs by (simp add: read_bytes_append read_bytes_Cons read_byte.simps head_byte_def nth_append)
qed

lemma read_payload_part:
  "fr_frame f = In_payload n \<Longrightarrow> length bs < n \<Longrightarrow>
   read_bytes bs f = f\<lparr>fr_frame := In_payload (n - length bs), fr_data := fr_data f @ bs\<rparr>"
proof (induction bs arbitrary: f n)
  case (Cons b bs)
  then obtain m where m: "n = Suc m" "0 < m" by (cases n) auto
  then have "read_byte b f = f\<lparr>fr_data := fr_data f @ [b], fr_frame := In_payload m\<rparr>" using Cons.prems by (simp add: read_byte.simps)
  then show ?case using Cons.IH [of "f\<lparr>fr_data := fr_data f @ [b], fr_frame := In_payload m\<rparr>" m] Cons.prems m by (simp add: read_bytes_Cons)
qed simp

lemma read_payload_all:
  assumes "fr_frame f = In_payload (length bs)" "bs \<noteq> []"
  shows "read_bytes bs f = f\<lparr>fr_frame := In_head [], fr_data := fr_data f @ bs\<rparr>"
proof -
  obtain cs b where bs: "bs = cs @ [b]" using assms(2) by (metis rev_exhaust)
  have "read_bytes cs f = f\<lparr>fr_frame := In_payload (length bs - length cs), fr_data := fr_data f @ cs\<rparr>"
    by (rule read_payload_part [OF assms(1)]) (simp add: bs)
  then show ?thesis using bs by (simp add: read_bytes_append read_bytes_Cons read_byte.simps)
qed

lemma read_empty_packet:
  assumes "fr_frame f = In_payload 0" "bs \<noteq> []"
  shows "read_bytes bs f = read_bytes bs (f\<lparr>fr_frame := In_head []\<rparr>)"
  using assms by (cases bs) (simp_all add: read_bytes_Cons read_byte.simps head_byte_def)

section \<open>The stream implements the specification\<close>

definition stream_ok :: "mysql_stream \<Rightarrow> bool" where
  "stream_ok st \<longleftrightarrow> length (ms_head st) = 4 \<and> 1 \<le> ms_head_left st \<and> ms_head_left st \<le> 4 \<and>
     (ms_write st = Write_payload \<longrightarrow> length (ms_buf st) + ms_payload_left st \<le> ms_bufsize st)"

definition abs_stream :: "mysql_stream \<Rightarrow> framing" where
  "abs_stream st =
     \<lparr>fr_frame = (case ms_write st of Write_head \<Rightarrow> In_head (take (4 - ms_head_left st) (ms_head st))
                                   | Write_payload \<Rightarrow> In_payload (ms_payload_left st)),
      fr_len = ms_payload_length st, fr_seq = ms_sequence_id st, fr_data = ms_buf st\<rparr>"

lemma head_step_part:
  assumes "stream_ok st" "ms_write st = Write_head" "length bs < ms_head_left st"
  shows "\<exists>st'. mysql_stream_step mem bs st = Some (0, length bs, st') \<and> stream_ok st' \<and> abs_stream st' = read_bytes bs (abs_stream st)"
proof -
  let ?k = "4 - ms_head_left st"
  have ok: "length (ms_head st) = 4" "1 \<le> ms_head_left st" "ms_head_left st \<le> 4" using assms(1) by (auto simp: stream_ok_def)
  let ?head = "take ?k (ms_head st) @ bs @ drop (?k + length bs) (ms_head st)"
  let ?st = "st\<lparr>ms_head := ?head, ms_head_left := ms_head_left st - length bs\<rparr>"
  have p: "poke (ms_head st) ?k bs = Some ?head" using ok assms(3) by (simp add: poke_def)
  have t: "take (4 - (ms_head_left st - length bs)) ?head = take ?k (ms_head st) @ bs"
  proof -
    have "4 - (ms_head_left st - length bs) = ?k + length bs" using ok assms(3) by simp
    then show ?thesis using ok by simp
  qed
  have "abs_stream ?st = read_bytes bs (abs_stream st)"
    by (subst read_head_part [of _ "take ?k (ms_head st)"]) (use assms ok t in \<open>simp_all add: abs_stream_def\<close>)
  moreover have "mysql_stream_step mem bs st = Some (0, length bs, ?st)"
    using assms p by (simp add: mysql_stream_step_def mysql_stream_write_head_def)
  moreover have "stream_ok ?st" using ok assms by (simp add: stream_ok_def) linarith
  ultimately show ?thesis by blast
qed

lemma head_step_full:
  assumes "stream_ok st" "ms_write st = Write_head" "ms_head_left st \<le> length bs"
  shows "\<exists>st'. mysql_stream_step always bs st = Some (0, ms_head_left st, st') \<and> stream_ok st' \<and> ms_write st' = Write_payload \<and>
    abs_stream st' = read_bytes (take (ms_head_left st) bs) (abs_stream st)"
proof -
  let ?k = "4 - ms_head_left st" and ?cs = "take (ms_head_left st) bs"
  have ok: "length (ms_head st) = 4" "1 \<le> ms_head_left st" "ms_head_left st \<le> 4" using assms(1) by (auto simp: stream_ok_def)
  define head where "head = take ?k (ms_head st) @ ?cs"
  define len where "len = head_length head"
  have l: "length head = 4" using ok assms(3) by (simp add: head_def)
  have p: "poke (ms_head st) ?k ?cs = Some head" using ok assms(3) by (simp add: poke_def head_def)
  have hl: "unat (head ! 2) * 2 ^ 16 + unat (head ! 1) * 2 ^ 8 + unat (head ! 0) = len" by (simp add: len_def head_length_def)
  have r: "rd head 0 = Some (head ! 0)" "rd head 1 = Some (head ! 1)" "rd head 2 = Some (head ! 2)" "rd head 3 = Some (head ! 3)"
    unfolding rd_def l by simp_all
  let ?st = "st\<lparr>ms_head := head, ms_payload_length := len, ms_payload_left := len, ms_sequence_id := head ! 3\<rparr>"
  obtain new where new: "grow_size (length (ms_buf st) + len) (max 2048 (2 * ms_bufsize st)) = Some new" "length (ms_buf st) + len \<le> new"
    using grow_size_ok [of "max 2048 (2 * ms_bufsize st)" "length (ms_buf st) + len"] by (metis less_max_iff_disj zero_less_numeral)
  let ?b = "if ms_bufsize st < length (ms_buf st) + len then new else ms_bufsize st"
  have n: "\<not> length bs < ms_head_left st" using assms(3) by simp
  have step: "mysql_stream_step always bs st = Some (0, ms_head_left st, ?st\<lparr>ms_bufsize := ?b, ms_write := Write_payload\<rparr>)"
    unfolding mysql_stream_step_def mysql_stream_write_head_def assms(2) ms_state.case if_not_P [OF n] p r hl Option.bind.bind_lunit Let_def
    using new(1) by simp
  have "read_bytes ?cs (abs_stream st) = (abs_stream st)\<lparr>fr_frame := In_payload len, fr_len := len, fr_seq := head ! 3\<rparr>"
    unfolding len_def head_def by (rule read_head_rest) (use assms ok in \<open>simp_all add: abs_stream_def\<close>)
  then have "abs_stream (?st\<lparr>ms_bufsize := ?b, ms_write := Write_payload\<rparr>) = read_bytes ?cs (abs_stream st)"
    by (simp add: abs_stream_def)
  moreover have "stream_ok (?st\<lparr>ms_bufsize := ?b, ms_write := Write_payload\<rparr>)" using ok l new(2) by (simp add: stream_ok_def)
  ultimately show ?thesis using step by auto
qed

lemma payload_step_part:
  assumes "stream_ok st" "ms_write st = Write_payload" "length bs < ms_payload_left st"
  shows "\<exists>st'. mysql_stream_step mem bs st = Some (0, length bs, st') \<and> stream_ok st' \<and> abs_stream st' = read_bytes bs (abs_stream st)"
proof -
  let ?st = "st\<lparr>ms_buf := ms_buf st @ bs, ms_payload_left := ms_payload_left st - length bs\<rparr>"
  have room: "length (ms_buf st) + ms_payload_left st \<le> ms_bufsize st" using assms by (simp add: stream_ok_def)
  have "mysql_stream_step mem bs st = Some (0, length bs, ?st)"
    using assms room by (simp add: mysql_stream_step_def mysql_stream_write_payload_def buf_append_def)
  moreover have "stream_ok ?st" using assms room by (simp add: stream_ok_def)
  moreover have "abs_stream ?st = read_bytes bs (abs_stream st)"
    by (subst read_payload_part [of _ "ms_payload_left st"]) (use assms in \<open>simp_all add: abs_stream_def\<close>)
  ultimately show ?thesis by blast
qed

lemma payload_step_full:
  assumes "stream_ok st" "ms_write st = Write_payload" "ms_payload_left st \<le> length bs"
  shows "\<exists>st'. mysql_stream_step mem bs st = Some (if ms_payload_length st \<noteq> MYSQL_PAYLOAD_MAX then 1 else 0, ms_payload_left st, st') \<and>
    stream_ok st' \<and> ms_write st' = Write_head \<and>
    abs_stream st' = (abs_stream st)\<lparr>fr_frame := In_head [], fr_data := ms_buf st @ take (ms_payload_left st) bs\<rparr>"
proof -
  let ?st = "st\<lparr>ms_buf := ms_buf st @ take (ms_payload_left st) bs, ms_head_left := 4, ms_write := Write_head\<rparr>"
  have room: "length (ms_buf st) + ms_payload_left st \<le> ms_bufsize st" using assms by (simp add: stream_ok_def)
  have "mysql_stream_step mem bs st = Some (if ms_payload_length st \<noteq> MYSQL_PAYLOAD_MAX then 1 else 0, ms_payload_left st, ?st)"
    using assms room by (simp add: mysql_stream_step_def mysql_stream_write_payload_def buf_append_def)
  moreover have "stream_ok ?st" using assms by (simp add: stream_ok_def)
  moreover have "abs_stream ?st = (abs_stream st)\<lparr>fr_frame := In_head [], fr_data := ms_buf st @ take (ms_payload_left st) bs\<rparr>"
    by (simp add: abs_stream_def)
  ultimately show ?thesis by force
qed

lemma write_unfold:
  "mysql_stream_step mem bs st = Some (r, n, st') \<Longrightarrow>
   mysql_stream_write mem bs st = (if length bs = n then Some (r, st') else mysql_stream_write mem (drop n bs) st')"
  by (subst mysql_stream_write.simps) simp

lemma done_head: "0 < length hs \<Longrightarrow> fr_frame f = In_head hs \<Longrightarrow> \<not> message_done f"
  by (auto simp: message_done_def)

lemma done_payload: "fr_frame f = In_payload n \<Longrightarrow> \<not> message_done f"
  by (auto simp: message_done_def)

definition written :: "u8 list \<Rightarrow> mysql_stream \<Rightarrow> mysql_stream \<Rightarrow> bool" where
  "written bs st st' \<longleftrightarrow> mysql_stream_write always bs st = Some (if message_done (abs_stream st') then 1 else 0, st') \<and> stream_ok st' \<and>
     abs_stream st' = read_bytes bs (abs_stream st)"

lemma written_head:
  assumes ok: "stream_ok st" and ne_bs: "bs \<noteq> []" and mode: "ms_write st = Write_head"
    and rest: "\<And>st1 n. stream_ok st1 \<Longrightarrow> n < length bs \<Longrightarrow> 0 < n \<Longrightarrow> \<exists>st2. written (drop n bs) st1 st2"
  shows "\<exists>st'. written bs st st'"
proof (cases "length bs < ms_head_left st")
  case True
  from head_step_part [OF ok mode True] obtain st' where
    st': "mysql_stream_step always bs st = Some (0, length bs, st')" "stream_ok st'" "abs_stream st' = read_bytes bs (abs_stream st)" by blast
  have "fr_frame (read_bytes bs (abs_stream st)) = In_head (take (4 - ms_head_left st) (ms_head st) @ bs)"
    by (subst read_head_part [of _ "take (4 - ms_head_left st) (ms_head st)"])
      (use ok mode True in \<open>auto simp: abs_stream_def stream_ok_def\<close>)
  then have "\<not> message_done (abs_stream st')" using st'(3) ne_bs by (simp add: message_done_def)
  then show ?thesis using st' write_unfold [OF st'(1)] by (auto simp: written_def)
next
  case False
  then obtain st' where st': "mysql_stream_step always bs st = Some (0, ms_head_left st, st')" "stream_ok st'"
    "ms_write st' = Write_payload" "abs_stream st' = read_bytes (take (ms_head_left st) bs) (abs_stream st)"
    using head_step_full [OF ok mode, of bs] by auto
  have pos: "0 < ms_head_left st" using ok by (simp add: stream_ok_def)
  show ?thesis
  proof (cases "length bs = ms_head_left st")
    case True
    have "\<not> message_done (abs_stream st')" using st'(3) by (simp add: message_done_def abs_stream_def)
    then show ?thesis using True st' write_unfold [OF st'(1)] by (auto simp: written_def)
  next
    case ne: False
    then obtain st2 where "written (drop (ms_head_left st) bs) st' st2" using rest [OF st'(2), of "ms_head_left st"] False pos
      by (metis linorder_neqE_nat)
    then show ?thesis using ne write_unfold [OF st'(1)] st'(4) unfolding written_def
        by (metis append_take_drop_id read_bytes_append)
  qed
qed

lemma written_payload:
  assumes ok: "stream_ok st" and ne_bs: "bs \<noteq> []" and mode: "ms_write st = Write_payload"
    and rest: "\<And>st1 n. stream_ok st1 \<Longrightarrow> n < length bs \<Longrightarrow> 0 < n \<or> ms_write st1 = Write_head \<Longrightarrow> \<exists>st2. written (drop n bs) st1 st2"
  shows "\<exists>st'. written bs st st'"
proof (cases "length bs < ms_payload_left st")
  case True
  from payload_step_part [OF ok mode True] obtain st' where
    st': "mysql_stream_step always bs st = Some (0, length bs, st')" "stream_ok st'" "abs_stream st' = read_bytes bs (abs_stream st)" by blast
  have "fr_frame (read_bytes bs (abs_stream st)) = In_payload (ms_payload_left st - length bs)"
    by (subst read_payload_part [of _ "ms_payload_left st"]) (use mode True in \<open>auto simp: abs_stream_def\<close>)
  then have "\<not> message_done (abs_stream st')" using st'(3) by (simp add: message_done_def)
  then show ?thesis using st' write_unfold [OF st'(1)] by (auto simp: written_def)
next
  case False
  let ?n = "ms_payload_left st"
  let ?r = "if ms_payload_length st \<noteq> MYSQL_PAYLOAD_MAX then 1 else (0 :: int)"
  from False obtain st' where st': "mysql_stream_step always bs st = Some (?r, ?n, st')" "stream_ok st'" "ms_write st' = Write_head"
    "abs_stream st' = (abs_stream st)\<lparr>fr_frame := In_head [], fr_data := ms_buf st @ take ?n bs\<rparr>"
    using payload_step_full [OF ok mode, of bs] by auto
  have f: "fr_frame (abs_stream st) = In_payload ?n" "fr_data (abs_stream st) = ms_buf st" "fr_len (abs_stream st) = ms_payload_length st"
    using mode by (simp_all add: abs_stream_def)
  show ?thesis
  proof (cases "length bs = ?n")
    case True
    then have "read_bytes bs (abs_stream st) = abs_stream st'" using read_payload_all [of "abs_stream st" bs] f ne_bs st'(4) by simp
    moreover have "message_done (abs_stream st') \<longleftrightarrow> ms_payload_length st \<noteq> MYSQL_PAYLOAD_MAX" using st'(4) f(3) by (simp add: message_done_def)
    ultimately show ?thesis using True st'(1,2) write_unfold [OF st'(1)] by (auto simp: written_def)
  next
    case ne: False
    then obtain st2 where st2: "written (drop ?n bs) st' st2"
      using rest [OF st'(2), of ?n] False mode st'(3) by auto
    have "read_bytes bs (abs_stream st) = read_bytes (drop ?n bs) (abs_stream st')"
    proof (cases "?n = 0")
      case True
      then have "abs_stream st' = (abs_stream st)\<lparr>fr_frame := In_head []\<rparr>" using st'(4) f(2) by simp
      then show ?thesis using read_empty_packet [of "abs_stream st" bs] f(1) True ne_bs by simp
    next
      case n: False
      have "read_bytes (take ?n bs) (abs_stream st) = abs_stream st'"
        using read_payload_all [of "abs_stream st" "take ?n bs"] f n False ne_bs st'(4) by simp
      then show ?thesis by (metis append_take_drop_id read_bytes_append)
    qed
    then show ?thesis using ne write_unfold [OF st'(1)] st2 by (auto simp: written_def)
  qed
qed

text \<open>Writing any non-empty piece: the loop ends, stays inside the buffer and does what reading byte by byte does.\<close>

lemma stream_write_ok:
  assumes "stream_ok st" "bs \<noteq> []"
  shows "\<exists>st'. written bs st st'"
  using assms
proof (induction "2 * length bs + (if ms_write st = Write_head then 0 else 1)" arbitrary: bs st rule: less_induct)
  case less
  have rest: "\<exists>st2. written (drop n bs) st1 st2"
    if "stream_ok st1" "n < length bs" "0 < n \<or> ms_write st = Write_payload \<and> ms_write st1 = Write_head" for st1 n
  proof -
    have "2 * length (drop n bs) + (if ms_write st1 = Write_head then 0 else 1) < 2 * length bs + (if ms_write st = Write_head then 0 else 1)"
      using that by auto
    then show ?thesis using less.hyps that by simp
  qed
  show ?case
  proof (cases "ms_write st")
    case Write_head
    then show ?thesis using written_head [OF less.prems] rest by blast
  next
    case Write_payload
    then show ?thesis using written_payload [OF less.prems] rest by blast
  qed
qed

section \<open>What the sender writes\<close>

function packets :: "u8 \<Rightarrow> u8 list \<Rightarrow> u8 list list" where
  "packets seqid rest =
     (if length rest < MYSQL_PAYLOAD_MAX then [packet_head (length rest) seqid, rest]
      else packet_head MYSQL_PAYLOAD_MAX seqid # take MYSQL_PAYLOAD_MAX rest # packets (seqid + 1) (drop MYSQL_PAYLOAD_MAX rest))"
  by auto
termination by (relation "measure (\<lambda>(s, r). length r)") auto

declare packets.simps [simp del]

definition packet_count :: "nat \<Rightarrow> nat" where
  "packet_count n = n div MYSQL_PAYLOAD_MAX + 1"

lemma packet_count_more: "MYSQL_PAYLOAD_MAX \<le> n \<Longrightarrow> packet_count n = Suc (packet_count (n - MYSQL_PAYLOAD_MAX))"
  unfolding packet_count_def by (subst le_div_geq) simp_all

lemma encode_from_packets:
  "length vectors + 2 * packet_count (length rest) \<le> max_iov \<Longrightarrow>
   (\<And>j. 1 \<le> j \<Longrightarrow> j < packet_count (length rest) \<Longrightarrow> seqid + of_nat j \<noteq> start) \<Longrightarrow>
   encode_from max_iov start seqid rest vectors =
     Some (Encoded (vectors @ packets seqid rest), seqid + of_nat (packet_count (length rest)))"
proof (induction seqid rest arbitrary: vectors rule: packets.induct)
  case (1 seqid rest)
  show ?case
  proof (cases "length rest < MYSQL_PAYLOAD_MAX")
    case True
    then have c: "packet_count (length rest) = 1" unfolding packet_count_def by simp
    show ?thesis using True 1(2) unfolding c by (subst encode_from.simps, subst packets.simps) (simp add: Let_def)
  next
    case False
    let ?rest = "drop MYSQL_PAYLOAD_MAX rest"
    let ?v = "vectors @ [packet_head MYSQL_PAYLOAD_MAX seqid, take MYSQL_PAYLOAD_MAX rest]"
    have c: "packet_count (length rest) = Suc (packet_count (length ?rest))" using False packet_count_more [of "length rest"] by simp
    have pos: "1 \<le> packet_count (length ?rest)" by (simp add: packet_count_def)
    have s: "seqid + 1 \<noteq> start" using 1(3) [of 1] c pos by simp
    have IH: "encode_from max_iov start (seqid + 1) ?rest ?v =
        Some (Encoded (?v @ packets (seqid + 1) ?rest), seqid + 1 + of_nat (packet_count (length ?rest)))"
    proof (rule 1(1) [OF False])
      show "length ?v + 2 * packet_count (length ?rest) \<le> max_iov" using 1(2) c by simp
      show "seqid + 1 + of_nat j \<noteq> start" if "1 \<le> j" "j < packet_count (length ?rest)" for j
        using 1(3) [of "Suc j"] that c by (simp add: ac_simps)
    qed
    have "encode_from max_iov start seqid rest vectors = encode_from max_iov start (seqid + 1) ?rest ?v"
      using False 1(2) c s by (subst encode_from.simps) (simp add: Let_def not_less)
    then show ?thesis using IH c False by (subst packets.simps) (simp add: ac_simps)
  qed
qed

lemma head_length_packet:
  assumes "len < 2 ^ 24"
  shows "head_length (packet_head len seqid) = len" "length (packet_head len seqid) = 4" "packet_head len seqid ! 3 = seqid"
proof -
  have u: "unat (of_nat len :: u32) = len" using assms by (simp add: unat_of_nat take_bit_eq_mod)
  have b: "unat (ucast (drop_bit n (of_nat len :: u32)) :: u8) = len div 2 ^ n mod 256" for n
  proof -
    have "unat (drop_bit n (of_nat len :: u32)) = drop_bit n (take_bit 32 (unat (of_nat len :: u32)))" by (simp only: unsigned_drop_bit_eq) simp
    also have "\<dots> = len div 2 ^ n" unfolding u using assms by (simp add: drop_bit_eq_div take_bit_eq_mod)
    finally show ?thesis by (simp add: unsigned_ucast_eq take_bit_eq_mod)
  qed
  have "unat (ucast (of_nat len :: u32) :: u8) = len mod 256" using b [of 0] by simp
  moreover have "len div 65536 * 65536 + len div 256 mod 256 * 256 + len mod 256 = len"
  proof -
    have "len mod 65536 = 256 * (len div 256 mod 256) + len mod 256" using mod_mult2_eq [of len 256 256] by simp
    moreover have "len = len div 65536 * 65536 + len mod 65536" by simp
    ultimately show ?thesis by linarith
  qed
  ultimately show "head_length (packet_head len seqid) = len"
    using b [of 8] b [of 16] assms less_mult_imp_div_less [of len 256 65536] by (simp add: head_length_def packet_head_def le_bytes_list)
qed (simp_all add: packet_head_def le_bytes_list)

lemma read_packet:
  assumes "fr_frame f = In_head []" "length pay < 2 ^ 24"
  shows "read_bytes (packet_head (length pay) seqid @ pay) f =
    f\<lparr>fr_frame := (if pay = [] then In_payload 0 else In_head []), fr_len := length pay, fr_seq := seqid, fr_data := fr_data f @ pay\<rparr>"
proof -
  let ?h = "packet_head (length pay) seqid"
  note h = head_length_packet [OF assms(2), of seqid]
  have "read_bytes ?h f = f\<lparr>fr_frame := In_payload (length pay), fr_len := length pay, fr_seq := seqid\<rparr>"
    using read_head_rest [OF assms(1), of ?h] h by simp
  then show ?thesis using read_payload_all [of "f\<lparr>fr_frame := In_payload (length pay), fr_len := length pay, fr_seq := seqid\<rparr>" pay]
    by (simp add: read_bytes_append)
qed

lemma read_message:
  "fr_frame f = In_head [] \<Longrightarrow> read_bytes (concat (packets seqid msg)) f =
     f\<lparr>fr_frame := (if length msg mod MYSQL_PAYLOAD_MAX = 0 then In_payload 0 else In_head []), fr_len := length msg mod MYSQL_PAYLOAD_MAX,
       fr_seq := seqid + of_nat (packet_count (length msg) - 1), fr_data := fr_data f @ msg\<rparr>"
proof (induction seqid msg arbitrary: f rule: packets.induct)
  case (1 seqid rest)
  show ?case
  proof (cases "length rest < MYSQL_PAYLOAD_MAX")
    case True
    then have "packet_count (length rest) = 1" "length rest mod MYSQL_PAYLOAD_MAX = length rest" unfolding packet_count_def by simp_all
    then show ?thesis using read_packet [OF 1(2), of rest seqid] True by (subst packets.simps) simp
  next
    case False
    let ?pay = "take MYSQL_PAYLOAD_MAX rest" and ?rest = "drop MYSQL_PAYLOAD_MAX rest"
    have l: "length ?pay = MYSQL_PAYLOAD_MAX" using False by simp
    then have ne: "?pay \<noteq> []" by force
    let ?f = "f\<lparr>fr_frame := In_head [], fr_len := MYSQL_PAYLOAD_MAX, fr_seq := seqid, fr_data := fr_data f @ ?pay\<rparr>"
    have p: "read_bytes (packet_head MYSQL_PAYLOAD_MAX seqid @ ?pay) f = ?f" using read_packet [OF 1(2), of ?pay seqid] ne unfolding l by simp
    have c: "packet_count (length rest) - 1 = Suc (packet_count (length ?rest) - 1)"
      using packet_count_more [of "length rest"] False by (simp add: packet_count_def)
    have md: "length rest mod MYSQL_PAYLOAD_MAX = length ?rest mod MYSQL_PAYLOAD_MAX" using False by (simp add: le_mod_geq)
    have "concat (packets seqid rest) = (packet_head MYSQL_PAYLOAD_MAX seqid @ ?pay) @ concat (packets (seqid + 1) ?rest)"
      using False by (subst packets.simps) simp
    then show ?thesis using 1(1) [OF False, of ?f] p c md by (simp add: read_bytes_append ac_simps)
  qed
qed

lemma prefix_cases:
  assumes "p @ q = a @ b"
  obtains q' where "p @ q' = a" "q' \<noteq> []" | r where "p = a @ r" "r @ q = b"
proof -
  from assms consider us where "p = a @ us" "us @ q = b" | us where "p @ us = a" "q = us @ b"
    by (auto simp: append_eq_append_conv2)
  then show ?thesis
  proof cases
    case 1
    then show ?thesis using that(2) by blast
  next
    case 2
    then show ?thesis using that(1) [of us] that(2) [of "[]"] by (cases us) auto
  qed
qed

text \<open>A message is not complete before its last byte: first inside one packet, then for all packets.\<close>

lemma not_done_inside:
  assumes "fr_frame f = In_head []" "length pay < 2 ^ 24" "p @ q = packet_head (length pay) seqid @ pay" "p \<noteq> []" "q \<noteq> []"
  shows "\<not> message_done (read_bytes p f)"
proof -
  let ?h = "packet_head (length pay) seqid"
  note h = head_length_packet [OF assms(2), of seqid]
  consider "length p < 4" | r where "p = ?h @ r" "r @ q = pay"
  proof (rule prefix_cases [OF assms(3)])
    fix q' assume "p @ q' = ?h" "q' \<noteq> []"
    then have "length p + length q' = 4" "0 < length q'" using h(2) by (metis length_append, simp)
    then show thesis using that(1) by linarith
  qed (use that(2) in blast)
  then show ?thesis
  proof cases
    case 1
    then show ?thesis using read_head_part [OF assms(1), of p] assms(4) by (simp add: message_done_def)
  next
    case 2
    have "read_bytes ?h f = f\<lparr>fr_frame := In_payload (length pay), fr_len := length pay, fr_seq := seqid\<rparr>"
      using read_head_rest [OF assms(1), of ?h] h by simp
    moreover have "length r < length pay" using 2(2) assms(5) by auto
    ultimately show ?thesis
      using 2(1) read_payload_part [of "f\<lparr>fr_frame := In_payload (length pay), fr_len := length pay, fr_seq := seqid\<rparr>" "length pay" r]
      by (simp add: read_bytes_append message_done_def)
  qed
qed

lemma not_done_prefix:
  "fr_frame f = In_head [] \<Longrightarrow> p @ q = concat (packets seqid msg) \<Longrightarrow> p \<noteq> [] \<Longrightarrow> q \<noteq> [] \<Longrightarrow> \<not> message_done (read_bytes p f)"
proof (induction seqid msg arbitrary: f p rule: packets.induct)
  case (1 seqid rest)
  show ?case
  proof (cases "length rest < MYSQL_PAYLOAD_MAX")
    case True
    then show ?thesis using not_done_inside [OF 1(2), of rest p q seqid] 1(3-5) by (subst (asm) packets.simps) simp
  next
    case False
    let ?pay = "take MYSQL_PAYLOAD_MAX rest" and ?rest = "drop MYSQL_PAYLOAD_MAX rest"
    let ?first = "packet_head MYSQL_PAYLOAD_MAX seqid @ ?pay"
    have l: "length ?pay = MYSQL_PAYLOAD_MAX" using False by simp
    then have ne: "?pay \<noteq> []" by force
    let ?f = "f\<lparr>fr_frame := In_head [], fr_len := MYSQL_PAYLOAD_MAX, fr_seq := seqid, fr_data := fr_data f @ ?pay\<rparr>"
    have p1: "read_bytes ?first f = ?f" using read_packet [OF 1(2), of ?pay seqid] ne unfolding l by simp
    have all: "p @ q = ?first @ concat (packets (seqid + 1) ?rest)" using 1(3) False by (subst (asm) packets.simps) simp
    consider q' where "p @ q' = ?first" "q' \<noteq> []" | p' where "p = ?first @ p'" "p' @ q = concat (packets (seqid + 1) ?rest)"
      by (rule prefix_cases [OF all]) blast+
    then show ?thesis
    proof cases
      case 1
      then show ?thesis using not_done_inside [OF \<open>fr_frame f = In_head []\<close>, of ?pay p q' seqid] \<open>p \<noteq> []\<close> unfolding l by simp
    next
      case 2
      have r: "read_bytes p f = read_bytes p' ?f" using 2(1) p1 by (simp add: read_bytes_append)
      show ?thesis
      proof (cases "p' = []")
        case True
        then show ?thesis using r by (simp add: message_done_def)
      next
        case ne': False
        then show ?thesis unfolding r by (intro 1(1) [OF False _ 2(2)]) (use \<open>q \<noteq> []\<close> in simp_all)
      qed
    qed
  qed
qed

section \<open>Properties\<close>

lemma init_ok: "length junk = 4 \<Longrightarrow> stream_ok (mysql_stream_init junk)"
  by (simp add: stream_ok_def mysql_stream_init_def)

lemma abs_init: "abs_stream (mysql_stream_init junk) = \<lparr>fr_frame = In_head [], fr_len = 0, fr_seq = 0, fr_data = []\<rparr>"
  by (simp add: abs_stream_def mysql_stream_init_def)

text \<open>
  C27: The stream implements reading byte by byte: from any valid state the writing loop ends, never writes outside its
  buffer, and leaves the state that reading the bytes one at a time leaves; so two pieces written one after the other give
  the same state and the same answer as both at once.
\<close>

theorem mysql_stream_refines:
  assumes "stream_ok st" "a \<noteq> []" "b \<noteq> []"
  shows "\<exists>r1 st1 r2 st2 st3. mysql_stream_write always a st = Some (r1, st1) \<and> mysql_stream_write always b st1 = Some (r2, st2) \<and>
    mysql_stream_write always (a @ b) st = Some (r2, st3) \<and> stream_ok st1 \<and> stream_ok st2 \<and> stream_ok st3 \<and>
    abs_stream st3 = abs_stream st2 \<and> abs_stream st2 = read_bytes (a @ b) (abs_stream st)"
proof -
  obtain st1 where st1: "written a st st1" using stream_write_ok [OF assms(1,2)] by blast
  then have ok1: "stream_ok st1" by (simp add: written_def)
  obtain st2 where st2: "written b st1 st2" using stream_write_ok [OF ok1 assms(3)] by blast
  obtain st3 where st3: "written (a @ b) st st3" using stream_write_ok [OF assms(1), of "a @ b"] assms(2) by blast
  have "abs_stream st3 = abs_stream st2" using st1 st2 st3 by (simp add: written_def read_bytes_append)
  then show ?thesis using st1 st2 st3 by (simp add: written_def)
qed

theorem mysql_stream_refines_witness:
  "\<exists>r st. mysql_stream_write always ([3, 0, 0, 0, 7] @ [8, 9]) (mysql_stream_init [0, 0, 0, 0]) = Some (r, st) \<and>
     stream_ok st \<and> fr_data (abs_stream st) = [7, 8, 9]"
proof -
  have "fr_data (read_bytes ([3, 0, 0, 0, 7] @ [8, 9]) (abs_stream (mysql_stream_init [0, 0, 0, 0]))) = [7, 8, 9]"
    by (simp add: abs_init read_bytes_def read_byte.simps head_byte_def head_length_def)
  then show ?thesis
    using mysql_stream_refines [OF init_ok [of "[0, 0, 0, 0]"], of "[3, 0, 0, 0, 7]" "[8, 9]"] by fastforce
qed

text \<open>
  C26: Framing round trip: a message of fewer than 256 full packets that fits the iovec array is encoded, and the receiving
  stream collects exactly the message; no proper part of the bytes is taken for a whole message. The stream reports the
  end of the message with the last byte, except when its length is a multiple of \<open>2 ^ 24 - 1\<close>: then the empty last packet
  is complete but the answer is \<open>0\<close>.
\<close>

theorem mysql_frame_roundtrip:
  assumes "2 * packet_count (length (mm_buf m)) \<le> max_iov" "packet_count (length (mm_buf m)) \<le> 256" "length junk = 4"
  shows "\<exists>vectors m' st. mysql_encode max_iov m = Some (Encoded vectors, m') \<and>
    mysql_stream_write always (concat vectors) (mysql_stream_init junk) =
      Some (if length (mm_buf m) mod MYSQL_PAYLOAD_MAX = 0 then 0 else 1, st) \<and> ms_buf st = mm_buf m \<and>
    (\<forall>p q. p @ q = concat vectors \<and> p \<noteq> [] \<and> q \<noteq> [] \<longrightarrow> (\<exists>st'. mysql_stream_write always p (mysql_stream_init junk) = Some (0, st')))"
proof -
  let ?n = "packet_count (length (mm_buf m))" and ?s = "mm_seqid m"
  let ?bytes = "concat (packets ?s (mm_buf m))" and ?i = "mysql_stream_init junk"
  have wrap: "?s + of_nat j \<noteq> ?s" if "1 \<le> j" "j < ?n" for j
  proof
    assume "?s + of_nat j = ?s"
    then have "of_nat j = (0 :: u8)" by simp
    then have "256 dvd j" by (simp add: word_of_nat_eq_0_iff)
    then show False using that assms(2) by (auto dest: dvd_imp_le)
  qed
  have enc: "mysql_encode max_iov m = Some (Encoded (packets ?s (mm_buf m)), m\<lparr>mm_seqid := ?s + of_nat ?n\<rparr>)"
    using encode_from_packets [of "[]" "mm_buf m" max_iov ?s ?s] wrap assms(1) by (simp add: mysql_encode_def)
  have ne: "?bytes \<noteq> []" by (subst packets.simps) (simp add: packet_head_def)
  obtain st where st: "written ?bytes ?i st" using stream_write_ok [OF init_ok [OF assms(3)] ne] by blast
  have r: "abs_stream st = read_bytes ?bytes (abs_stream ?i)" using st by (simp add: written_def)
  have f: "fr_frame (abs_stream ?i) = In_head []" "fr_data (abs_stream ?i) = []" by (simp_all add: abs_init)
  have lt: "length (mm_buf m) mod MYSQL_PAYLOAD_MAX \<noteq> MYSQL_PAYLOAD_MAX"
    by (metis less_irrefl mod_less_divisor zero_less_diff one_less_numeral_iff one_less_power semiring_norm(76) zero_less_numeral)
  have d: "message_done (abs_stream st) \<longleftrightarrow> length (mm_buf m) mod MYSQL_PAYLOAD_MAX \<noteq> 0"
    unfolding r read_message [OF f(1)] using lt by (simp add: message_done_def)
  have "fr_data (abs_stream st) = mm_buf m" unfolding r read_message [OF f(1)] by (simp add: f(2))
  then have buf: "ms_buf st = mm_buf m" by (simp add: abs_stream_def)
  have "\<exists>st'. mysql_stream_write always p ?i = Some (0, st')" if "p @ q = ?bytes" "p \<noteq> []" "q \<noteq> []" for p q
  proof -
    note pq = that
    obtain st' where "written p ?i st'" using stream_write_ok [OF init_ok [OF assms(3)] pq(2)] by blast
    then show ?thesis using not_done_prefix [OF f(1) pq] by (auto simp: written_def)
  qed
  then show ?thesis using enc st buf d by (auto simp: written_def)
qed

definition demo_message :: mysql_message where
  "demo_message = \<lparr>mm_stream = mysql_stream_init [0, 0, 0, 0], mm_buf = [3, 65, 66], mm_seqid = 0, mm_cur_size = 0, mm_size_limit = 1000\<rparr>"

theorem mysql_frame_roundtrip_witness:
  "\<exists>vectors m' st. mysql_encode 8192 demo_message = Some (Encoded vectors, m') \<and>
     mysql_stream_write always (concat vectors) (mysql_stream_init [0, 0, 0, 0]) = Some (1, st) \<and> ms_buf st = [3, 65, 66]"
proof -
  have b: "mm_buf demo_message = [3, 65, 66]" by (simp add: demo_message_def)
  then show ?thesis using mysql_frame_roundtrip [of demo_message 8192 "[0, 0, 0, 0]"] by (auto simp: packet_count_def)
qed
end
