(* ===== verification/C_Library.thy ===== *)
theory C_Library
  imports String_Util
begin

text \<open>
  What the protocol parsers use of the C library on strings: numbers in text, read from the memory behind a pointer up to the
  end of the buffer, and their printed form.
\<close>

abbreviation CR :: char where "CR \<equiv> CHR 0x0D"
abbreviation LF :: char where "LF \<equiv> CHR 0x0A"

section \<open>Reading numbers\<close>

text \<open>\<^verbatim>\<open>atoi\<close> and \<^verbatim>\<open>atoll\<close> on the memory from a pointer to the end of the buffer.\<close>

fun read_digits :: "string \<Rightarrow> nat \<Rightarrow> nat option" where
  "read_digits [] n = None"
| "read_digits (c # cs) n = (if isdigit c then read_digits cs (10 * n + (code c - 48)) else Some n)"

fun read_signed :: "string \<Rightarrow> int option" where
  "read_signed [] = None"
| "read_signed (c # cs) =
     (if isspace c then read_signed cs
      else if c = CHR ''-'' then map_option (\<lambda>n. - int n) (read_digits cs 0)
      else if c = CHR ''+'' then map_option int (read_digits cs 0)
      else map_option int (read_digits (c # cs) 0))"

definition in_range :: "nat \<Rightarrow> int \<Rightarrow> int option" where
  "in_range w n = (if - (2 ^ (w - 1)) \<le> n \<and> n < 2 ^ (w - 1) then Some n else None)"

definition atoi :: "string \<Rightarrow> int option" where "atoi s = do { n \<leftarrow> read_signed s; in_range 32 n }"
definition atoll :: "string \<Rightarrow> int option" where "atoll s = do { n \<leftarrow> read_signed s; in_range 64 n }"

section \<open>Printing numbers\<close>

definition digit :: "nat \<Rightarrow> char" where "digit d = char_of (48 + d)"

fun show_nat :: "nat \<Rightarrow> string" where
  "show_nat n = (if n < 10 then [digit n] else show_nat (n div 10) @ [digit (n mod 10)])"

declare show_nat.simps [simp del]

definition show_int :: "int \<Rightarrow> string" where
  "show_int n = (if n < 0 then CHR ''-'' # show_nat (nat (- n)) else show_nat (nat n))"

definition crlf :: string where "crlf = [CR, LF]"

lemma code_digit: "d < 10 \<Longrightarrow> code (digit d) = 48 + d"
  by (simp add: digit_def)

lemma digit_class: "d < 10 \<Longrightarrow> isdigit (digit d) \<and> \<not> isspace (digit d) \<and> digit d \<notin> {CHR ''-'', CHR ''+'', CR, LF}"
  using code_digit [of d] by (auto simp: isdigit_def isspace_def)

lemma show_nat_digits: "c \<in> set (show_nat n) \<Longrightarrow> \<exists>d < 10. c = digit d"
proof (induction n rule: show_nat.induct)
  case (1 n)
  then consider "n < 10" "c = digit n" | "\<not> n < 10" "c \<in> set (show_nat (n div 10))" | "c = digit (n mod 10)"
    by (subst (asm) (2) show_nat.simps) (auto split: if_splits)
  then show ?case
  proof cases
    case 3
    then show ?thesis by (intro exI [of _ "n mod 10"]) simp
  qed (use 1 in auto)
qed

lemma show_nat_ne [simp]: "show_nat n \<noteq> []"
  by (subst show_nat.simps) simp

lemma read_show_nat: "read_digits (show_nat n @ cs) m = read_digits cs (m * 10 ^ length (show_nat n) + n)"
proof (induction n arbitrary: m cs rule: show_nat.induct)
  case (1 n)
  show ?case
  proof (cases "n < 10")
    case True
    then have s: "show_nat n = [digit n]" by (subst show_nat.simps) simp
    show ?thesis using digit_class [OF True] code_digit [OF True] by (simp add: s algebra_simps)
  next
    case False
    then have s: "show_nat n = show_nat (n div 10) @ [digit (n mod 10)]" by (subst show_nat.simps) simp
    have d: "n mod 10 < 10" by simp
    have "10 * (m * 10 ^ length (show_nat (n div 10)) + n div 10) + n mod 10 = m * 10 ^ length (show_nat n) + n"
      by (simp add: s algebra_simps)
    then show ?thesis using 1 [OF False, of "[digit (n mod 10)] @ cs" m] digit_class [OF d] code_digit [OF d] by (simp add: s algebra_simps)
  qed
qed

lemma read_show_int:
  assumes "\<not> isdigit c"
  shows "read_signed (show_int n @ c # rest) = Some n"
proof -
  have r: "read_digits (show_nat k @ c # rest) 0 = Some k" for k using read_show_nat [of k "c # rest" 0] assms by simp
  obtain d ds where d: "show_nat (nat n) = d # ds" by (metis show_nat_ne list.exhaust)
  then obtain k where "k < 10" "d = digit k" using show_nat_digits [of d "nat n"] by auto
  then have "\<not> isspace d" "d \<noteq> CHR ''-''" "d \<noteq> CHR ''+''" using digit_class by auto
  moreover have "\<not> isspace (CHR ''-'')" by (simp add: isspace_def)
  ultimately show ?thesis using r [of "nat n"] r [of "nat (- n)"] d by (auto simp: show_int_def)
qed

lemma show_int_no_cr: "CR \<notin> set (show_int n)" "LF \<notin> set (show_int n)"
proof -
  have "c \<in> set (show_nat k) \<Longrightarrow> c \<noteq> CR \<and> c \<noteq> LF" for c k using show_nat_digits digit_class by fastforce
  then show "CR \<notin> set (show_int n)" "LF \<notin> set (show_int n)" by (auto simp: show_int_def)
qed

lemma length_show_nat: "n < 10 ^ k \<Longrightarrow> 0 < k \<Longrightarrow> length (show_nat n) \<le> k"
proof (induction n arbitrary: k rule: show_nat.induct)
  case (1 n)
  show ?case
  proof (cases "n < 10")
    case False
    have "k \<noteq> 1" using 1(2) False by auto
    then obtain j where k: "k = Suc j" "0 < j" using 1(3) by (cases k) auto
    have "n div 10 < 10 ^ j" using 1(2) k by (simp add: less_mult_imp_div_less mult.commute)
    then show ?thesis using 1(1) [OF False _ k(2)] False k by (subst show_nat.simps) simp
  qed (use 1(3) in \<open>subst show_nat.simps, simp\<close>)
qed

lemma length_show_int: "- (2 ^ 63) \<le> n \<Longrightarrow> n < 2 ^ 63 \<Longrightarrow> 0 < length (show_int n) \<and> length (show_int n) \<le> 30"
proof -
  assume "- (2 ^ 63) \<le> n" "n < 2 ^ 63"
  then have "nat n < 10 ^ 19" "nat (- n) < 10 ^ 19" by simp_all
  then show ?thesis using length_show_nat [of "nat n" 19] length_show_nat [of "nat (- n)" 19] by (auto simp: show_int_def)
qed

lemma atoll_show: "- (2 ^ 63) \<le> n \<Longrightarrow> n < 2 ^ 63 \<Longrightarrow> atoll (show_int n @ [NUL]) = Some n"
  using read_show_int [of NUL n "[]"] by (simp add: atoll_def in_range_def isdigit_def NUL_def)

lemma atoi_show: "- (2 ^ 31) \<le> n \<Longrightarrow> n < 2 ^ 31 \<Longrightarrow> atoi (show_int n @ crlf @ rest) = Some n"
  using read_show_int [of CR n "LF # rest"] by (simp add: atoi_def in_range_def isdigit_def crlf_def)

end
