(* ===== verification/Redis_Parser.thy ===== *)
theory Redis_Parser
  imports C_Library Mysql_Bytes
begin

text \<open>
  The incremental parser of Redis replies (\<^verbatim>\<open>workflow/src/protocol/redis_parser.c\<close>, \<^verbatim>\<open>redis_parser.h\<close>). Reply objects live
  at addresses, the root reply at address 0; \<open>rp_next\<close> is the next address \<^verbatim>\<open>malloc\<close> hands out. The message buffer is the list
  of the bytes received, with its capacity beside it. Strings are offsets into the buffer, as in the code while it parses; the
  last pass of the code, which turns the offsets into pointers, is the identity on them. The list of records of replies still
  to be read is the list of their addresses. \<open>mem\<close> tells which sizes of allocations succeed. Reading outside the buffer and
  integer conversions out of range are \<open>None\<close>.
\<close>

section \<open>State\<close>

datatype redis_status = REDIS_GET_CMD | REDIS_GET_CR | REDIS_GET_LF | REDIS_UNTIL_CRLF | REDIS_GET_NCHAR | REDIS_PARSE_END

datatype redis_reply_type =
  REDIS_REPLY_TYPE_STRING | REDIS_REPLY_TYPE_ARRAY | REDIS_REPLY_TYPE_INTEGER | REDIS_REPLY_TYPE_NIL
| REDIS_REPLY_TYPE_STATUS | REDIS_REPLY_TYPE_ERROR

record redis_reply =
  rr_type :: redis_reply_type
  rr_integer :: int
  rr_len :: nat
  rr_str :: nat
  rr_element :: "addr list"

type_synonym reply_heap = "addr \<Rightarrow> redis_reply option"

record redis_parser =
  rp_parse_succ :: bool
  rp_status :: redis_status
  rp_msgbuf :: string
  rp_bufsize :: nat
  rp_cur :: addr
  rp_read_list :: "addr list"
  rp_msgidx :: nat
  rp_findidx :: nat
  rp_nleft :: int
  rp_nchar :: nat
  rp_cmd :: char
  rp_heap :: reply_heap
  rp_next :: addr

section \<open>Replies\<close>

definition redis_reply_init :: redis_reply where
  "redis_reply_init = \<lparr>rr_type = REDIS_REPLY_TYPE_NIL, rr_integer = 0, rr_len = 0, rr_str = 0, rr_element = []\<rparr>"

definition redis_reply_set_string :: "nat \<Rightarrow> nat \<Rightarrow> redis_reply \<Rightarrow> redis_reply" where
  "redis_reply_set_string str len r = r\<lparr>rr_type := REDIS_REPLY_TYPE_STRING, rr_len := len, rr_str := str\<rparr>"

definition redis_reply_set_integer :: "int \<Rightarrow> redis_reply \<Rightarrow> redis_reply" where
  "redis_reply_set_integer intv r = r\<lparr>rr_type := REDIS_REPLY_TYPE_INTEGER, rr_integer := intv\<rparr>"

definition redis_reply_set_null :: "redis_reply \<Rightarrow> redis_reply" where
  "redis_reply_set_null r = r\<lparr>rr_type := REDIS_REPLY_TYPE_NIL\<rparr>"

definition redis_reply_set_error :: "nat \<Rightarrow> nat \<Rightarrow> redis_reply \<Rightarrow> redis_reply" where
  "redis_reply_set_error err len r = r\<lparr>rr_type := REDIS_REPLY_TYPE_ERROR, rr_len := len, rr_str := err\<rparr>"

definition redis_reply_set_status :: "nat \<Rightarrow> nat \<Rightarrow> redis_reply \<Rightarrow> redis_reply" where
  "redis_reply_set_status str len r = r\<lparr>rr_type := REDIS_REPLY_TYPE_STATUS, rr_len := len, rr_str := str\<rparr>"

definition set_cur :: "(redis_reply \<Rightarrow> redis_reply) \<Rightarrow> redis_parser \<Rightarrow> redis_parser option" where
  "set_cur f p = do { r \<leftarrow> rp_heap p (rp_cur p); Some (p\<lparr>rp_heap := (rp_heap p)(rp_cur p \<mapsto> f r)\<rparr>) }"

text \<open>Freeing the elements of replies, with everything below them.\<close>

partial_function (option) free_replies :: "addr list \<Rightarrow> reply_heap \<Rightarrow> reply_heap option" where
  "free_replies es h =
     (case es of
        [] \<Rightarrow> Some h
      | e # es \<Rightarrow> do { r \<leftarrow> h e; h \<leftarrow> free_replies (rr_element r) h; free_replies es (h(e := None)) })"

definition redis_reply_deinit :: "addr \<Rightarrow> reply_heap \<Rightarrow> reply_heap option" where
  "redis_reply_deinit a h = do { r \<leftarrow> h a; free_replies (rr_element r) h }"

text \<open>\<^verbatim>\<open>__create_array\<close>: the elements, or nothing left allocated; \<^verbatim>\<open>sizeof (redis_reply_t)\<close> is 48.\<close>

definition create_array :: "(nat \<Rightarrow> bool) \<Rightarrow> nat \<Rightarrow> addr \<Rightarrow> addr list option" where
  "create_array mem n a = (if mem (8 * n) \<and> (n = 0 \<or> mem 48) then Some [a..<a + n] else None)"

definition redis_reply_set_array :: "(nat \<Rightarrow> bool) \<Rightarrow> nat \<Rightarrow> redis_parser \<Rightarrow> (bool \<times> redis_parser) option" where
  "redis_reply_set_array mem n p =
     (case create_array mem n (rp_next p) of
        None \<Rightarrow> Some (False, p)
      | Some es \<Rightarrow>
          do { h \<leftarrow> redis_reply_deinit (rp_cur p) (\<lambda>x. if x \<in> set es then Some redis_reply_init else rp_heap p x);
               r \<leftarrow> h (rp_cur p);
               Some (True, p\<lparr>rp_next := rp_next p + n,
                             rp_heap := h(rp_cur p \<mapsto> r\<lparr>rr_element := es, rr_type := REDIS_REPLY_TYPE_ARRAY\<rparr>)\<rparr>) })"

section \<open>Steps\<close>

definition redis_parse_cmd :: "char \<Rightarrow> redis_parser \<Rightarrow> int \<times> redis_parser" where
  "redis_parse_cmd ch p =
     (if ch \<in> {CHR ''+'', CHR ''-'', CHR '':'', CHR ''$'', CHR ''*''} then
        (0, p\<lparr>rp_cmd := ch, rp_status := REDIS_UNTIL_CRLF, rp_findidx := rp_msgidx p\<rparr>)
      else (- 2, p))"

definition redis_parse_cr :: "char \<Rightarrow> redis_parser \<Rightarrow> int \<times> redis_parser" where
  "redis_parse_cr ch p = (if ch \<noteq> CR then (- 2, p) else (0, p\<lparr>rp_status := REDIS_GET_LF\<rparr>))"

definition redis_parse_lf :: "char \<Rightarrow> redis_parser \<Rightarrow> int \<times> redis_parser" where
  "redis_parse_lf ch p = (if ch \<noteq> LF then (- 2, p) else (1, p))"

text \<open>The records for the elements after the first, pushed from the last on; \<^verbatim>\<open>sizeof (__read_record)\<close> is 24.\<close>

definition push_records :: "(nat \<Rightarrow> bool) \<Rightarrow> addr list \<Rightarrow> redis_parser \<Rightarrow> bool \<times> redis_parser" where
  "push_records mem es p =
     (if es = [] \<or> mem 24 then (True, p\<lparr>rp_read_list := foldr (#) es (rp_read_list p)\<rparr>) else (False, p))"

text \<open>The line of an array with \<open>n \<ge> 0\<close> elements.\<close>

definition parse_array :: "(nat \<Rightarrow> bool) \<Rightarrow> int \<Rightarrow> redis_parser \<Rightarrow> (int \<times> redis_parser) option" where
  "parse_array mem n p =
     do { nleft \<leftarrow> in_range 32 (rp_nleft p + n);
          (ok, p) \<leftarrow> redis_reply_set_array mem (nat n) (p\<lparr>rp_nleft := nleft\<rparr>);
          if \<not> ok then Some (- 1, p)
          else if n = 0 then Some (1, p)
          else do { r \<leftarrow> rp_heap p (rp_cur p);
                    (let (ok, p) = push_records mem (tl (rr_element r)) (p\<lparr>rp_nleft := rp_nleft p - 1\<rparr>)
                     in if \<not> ok then Some (- 1, p)
                        else do { e0 \<leftarrow> rd (rr_element r) 0;
                                  Some (0, p\<lparr>rp_cur := e0, rp_status := REDIS_GET_CMD\<rparr>) }) } }"

definition redis_parse_line :: "(nat \<Rightarrow> bool) \<Rightarrow> redis_parser \<Rightarrow> (int \<times> redis_parser) option" where
  "redis_parse_line mem p =
     (let offset = rp_msgidx p; slen = rp_findidx p - rp_msgidx p; str = drop offset (rp_msgbuf p);
          p = p\<lparr>rp_msgidx := rp_findidx p + 2\<rparr>
      in if rp_cmd p = CHR ''+'' then do { p \<leftarrow> set_cur (redis_reply_set_status offset slen) p; Some (1, p) }
         else if rp_cmd p = CHR ''-'' then do { p \<leftarrow> set_cur (redis_reply_set_error offset slen) p; Some (1, p) }
         else if rp_cmd p = CHR '':'' then
           if slen = 0 \<or> slen > 30 then Some (- 1, p)
           else do { n \<leftarrow> atoll (take slen str @ [NUL]); p \<leftarrow> set_cur (redis_reply_set_integer n) p; Some (1, p) }
         else if rp_cmd p = CHR ''$'' then
           do { n \<leftarrow> atoi str;
                if n < 0 then do { p \<leftarrow> set_cur redis_reply_set_null p; Some (1, p) }
                else if n = 0 then
                  do { p \<leftarrow> set_cur (redis_reply_set_string offset 0) p; Some (0, p\<lparr>rp_status := REDIS_GET_CR\<rparr>) }
                else Some (0, p\<lparr>rp_nchar := nat n, rp_status := REDIS_GET_NCHAR\<rparr>) }
         else if rp_cmd p = CHR ''*'' then
           do { n \<leftarrow> atoi str;
                if n < 0 then do { p \<leftarrow> set_cur redis_reply_set_null p; Some (1, p) }
                else parse_array mem n p }
         else Some (- 1, p))"

text \<open>The search for the end of the line: whether it was found, and where the search stands.\<close>

function find_crlf :: "string \<Rightarrow> nat \<Rightarrow> bool \<times> nat" where
  "find_crlf buf i =
     (if i + 1 < length buf then
        if buf ! i = CR \<and> buf ! (i + 1) = LF then (True, i) else find_crlf buf (i + 1)
      else (False, i))"
  by auto
termination by (relation "measure (\<lambda>(buf, i). length buf - i)") auto

declare find_crlf.simps [simp del]

definition redis_parse_crlf :: "(nat \<Rightarrow> bool) \<Rightarrow> redis_parser \<Rightarrow> (int \<times> redis_parser) option" where
  "redis_parse_crlf mem p =
     (let (found, i) = find_crlf (rp_msgbuf p) (rp_findidx p); p = p\<lparr>rp_findidx := i\<rparr>
      in if found then redis_parse_line mem p else Some (2, p))"

definition redis_parse_nchar :: "redis_parser \<Rightarrow> (int \<times> redis_parser) option" where
  "redis_parse_nchar p =
     (if rp_nchar p \<le> length (rp_msgbuf p) - rp_msgidx p then
        do { p \<leftarrow> set_cur (redis_reply_set_string (rp_msgidx p) (rp_nchar p)) p;
             Some (0, p\<lparr>rp_msgidx := rp_msgidx p + rp_nchar p, rp_status := REDIS_GET_CR\<rparr>) }
      else Some (2, p))"

definition redis_parser_forward :: "(nat \<Rightarrow> bool) \<Rightarrow> redis_parser \<Rightarrow> (int \<times> redis_parser) option" where
  "redis_parser_forward mem p =
     (if rp_msgidx p \<ge> length (rp_msgbuf p) then Some (2, p)
      else let ch = rp_msgbuf p ! rp_msgidx p; q = p\<lparr>rp_msgidx := rp_msgidx p + 1\<rparr>
           in (case rp_status p of
                 REDIS_GET_CMD \<Rightarrow> Some (redis_parse_cmd ch q)
               | REDIS_GET_CR \<Rightarrow> Some (redis_parse_cr ch q)
               | REDIS_GET_LF \<Rightarrow> Some (redis_parse_lf ch q)
               | REDIS_UNTIL_CRLF \<Rightarrow> redis_parse_crlf mem p
               | REDIS_GET_NCHAR \<Rightarrow> redis_parse_nchar p
               | REDIS_PARSE_END \<Rightarrow> Some (- 1, p)))"

section \<open>The parser\<close>

definition redis_parser_init :: redis_parser where
  "redis_parser_init =
     \<lparr>rp_parse_succ = False, rp_status = REDIS_GET_CMD, rp_msgbuf = [], rp_bufsize = 0, rp_cur = 0, rp_read_list = [],
      rp_msgidx = 0, rp_findidx = 0, rp_nleft = 1, rp_nchar = 0, rp_cmd = NUL,
      rp_heap = (\<lambda>a. if a = 0 then Some redis_reply_init else None), rp_next = 1\<rparr>"

definition redis_parser_deinit :: "redis_parser \<Rightarrow> redis_parser option" where
  "redis_parser_deinit p = do { h \<leftarrow> redis_reply_deinit 0 (rp_heap p); Some (p\<lparr>rp_heap := h, rp_read_list := []\<rparr>) }"

text \<open>What follows a finished reply: the next record, if any, and the end of the message.\<close>

definition finish_one :: "redis_parser \<Rightarrow> redis_parser" where
  "finish_one p =
     (let p = p\<lparr>rp_nleft := rp_nleft p - 1\<rparr>;
          p = (case rp_read_list p of [] \<Rightarrow> p | e # es \<Rightarrow> p\<lparr>rp_cur := e, rp_read_list := es\<rparr>)
      in if rp_nleft p > 0 then p\<lparr>rp_status := REDIS_GET_CMD\<rparr>
         else p\<lparr>rp_parse_succ := True, rp_status := REDIS_PARSE_END\<rparr>)"

partial_function (option) redis_parse_loop :: "(nat \<Rightarrow> bool) \<Rightarrow> redis_parser \<Rightarrow> (int \<times> redis_parser) option" where
  "redis_parse_loop mem p =
     do { (ret, p) \<leftarrow> redis_parser_forward mem p;
          if ret < 0 then Some (ret, p)
          else if ret = 2 then Some (0, p)
          else let p = (if ret = 1 then finish_one p else p)
               in if rp_status p \<noteq> REDIS_PARSE_END then redis_parse_loop mem p else Some (1, p) }"

text \<open>The result is the return value, what \<^verbatim>\<open>*size\<close> is afterwards, and the parser.\<close>

definition redis_parser_append_message :: "(nat \<Rightarrow> bool) \<Rightarrow> string \<Rightarrow> redis_parser \<Rightarrow> (int \<times> nat \<times> redis_parser) option" where
  "redis_parser_append_message mem buf p =
     (let msgsize_bak = length (rp_msgbuf p); size = length buf
      in if rp_status p = REDIS_PARSE_END then Some (1, 0, p)
         else do { new_size \<leftarrow> (if msgsize_bak + size > rp_bufsize p
                                then grow_size (msgsize_bak + size) (max 8 (2 * rp_bufsize p))
                                else Some (rp_bufsize p));
                   if new_size \<noteq> rp_bufsize p \<and> \<not> mem new_size then Some (- 1, size, p)
                   else do { (ret, p) \<leftarrow> redis_parse_loop mem (p\<lparr>rp_bufsize := new_size, rp_msgbuf := rp_msgbuf p @ buf\<rparr>);
                             Some (ret, if ret = 1 then rp_msgidx p - msgsize_bak else size, p) } })"


section \<open>More bytes\<close>

text \<open>A parser whose buffer has been extended (and perhaps moved).\<close>

definition ext :: "string \<Rightarrow> nat \<Rightarrow> redis_parser \<Rightarrow> redis_parser" where
  "ext C n p = p\<lparr>rp_msgbuf := rp_msgbuf p @ C, rp_bufsize := n\<rparr>"

lemma ext_simps [simp]:
  "rp_status (ext C n p) = rp_status p" "rp_msgidx (ext C n p) = rp_msgidx p" "rp_findidx (ext C n p) = rp_findidx p"
  "rp_cmd (ext C n p) = rp_cmd p" "rp_nleft (ext C n p) = rp_nleft p" "rp_nchar (ext C n p) = rp_nchar p"
  "rp_cur (ext C n p) = rp_cur p" "rp_heap (ext C n p) = rp_heap p" "rp_next (ext C n p) = rp_next p"
  "rp_read_list (ext C n p) = rp_read_list p" "rp_msgbuf (ext C n p) = rp_msgbuf p @ C" "rp_bufsize (ext C n p) = n"
  "rp_parse_succ (ext C n p) = rp_parse_succ p"
  by (simp_all add: ext_def)

lemma ext_update [simp]:
  "(ext C n p)\<lparr>rp_status := x1\<rparr> = ext C n (p\<lparr>rp_status := x1\<rparr>)" "(ext C n p)\<lparr>rp_msgidx := x2\<rparr> = ext C n (p\<lparr>rp_msgidx := x2\<rparr>)"
  "(ext C n p)\<lparr>rp_findidx := x2\<rparr> = ext C n (p\<lparr>rp_findidx := x2\<rparr>)" "(ext C n p)\<lparr>rp_cmd := x3\<rparr> = ext C n (p\<lparr>rp_cmd := x3\<rparr>)"
  "(ext C n p)\<lparr>rp_nleft := x4\<rparr> = ext C n (p\<lparr>rp_nleft := x4\<rparr>)" "(ext C n p)\<lparr>rp_nchar := x2\<rparr> = ext C n (p\<lparr>rp_nchar := x2\<rparr>)"
  "(ext C n p)\<lparr>rp_cur := x2\<rparr> = ext C n (p\<lparr>rp_cur := x2\<rparr>)" "(ext C n p)\<lparr>rp_heap := x5\<rparr> = ext C n (p\<lparr>rp_heap := x5\<rparr>)"
  "(ext C n p)\<lparr>rp_next := x2\<rparr> = ext C n (p\<lparr>rp_next := x2\<rparr>)" "(ext C n p)\<lparr>rp_read_list := x6\<rparr> = ext C n (p\<lparr>rp_read_list := x6\<rparr>)"
  "(ext C n p)\<lparr>rp_parse_succ := x7\<rparr> = ext C n (p\<lparr>rp_parse_succ := x7\<rparr>)"
  by (simp_all add: ext_def)

lemma set_cur_ext: "set_cur f (ext C n p) = map_option (ext C n) (set_cur f p)"
  by (cases "rp_heap p (rp_cur p)") (simp_all add: set_cur_def)

lemma set_array_ext: "redis_reply_set_array mem k (ext C n p) = map_option (\<lambda>(b, q). (b, ext C n q)) (redis_reply_set_array mem k p)"
  unfolding redis_reply_set_array_def ext_simps by (auto split: bind_splits option.splits)

lemma push_records_ext: "push_records mem es (ext C n p) = (fst (push_records mem es p), ext C n (snd (push_records mem es p)))"
  by (simp add: push_records_def)

lemma parse_array_ext: "parse_array mem k (ext C n p) = map_option (\<lambda>(r, q). (r, ext C n q)) (parse_array mem k p)"
proof (cases "in_range 32 (rp_nleft p + k)")
  case (Some l)
  show ?thesis
  proof (cases "redis_reply_set_array mem (nat k) (p\<lparr>rp_nleft := l\<rparr>)")
    case s: (Some bq)
    obtain b q where bq: "bq = (b, q)" by fastforce
    show ?thesis
    proof (cases "rp_heap q (rp_cur q)")
      case r: (Some r)
      then show ?thesis using Some s bq
        by (cases "rd (rr_element r) 0") (simp_all add: parse_array_def set_array_ext push_records_ext Let_def push_records_def)
    qed (use Some s bq in \<open>simp add: parse_array_def set_array_ext\<close>)
  qed (use Some in \<open>simp add: parse_array_def set_array_ext\<close>)
qed (simp add: parse_array_def)

lemma read_digits_ext: "read_digits s k = Some m \<Longrightarrow> read_digits (s @ C) k = Some m"
  by (induction s k rule: read_digits.induct) (auto split: if_splits)

lemma read_signed_ext: "read_signed s = Some m \<Longrightarrow> read_signed (s @ C) = Some m"
proof (induction s rule: read_signed.induct)
  case (2 c cs)
  then show ?case using read_digits_ext [of cs 0 _ C] read_digits_ext [of "c # cs" 0 _ C] by (auto split: if_splits)
qed simp

lemma atoi_ext: "atoi s = Some m \<Longrightarrow> atoi (s @ C) = Some m"
  using read_signed_ext [of s _ C] by (auto simp: atoi_def split: bind_splits)

lemma find_crlf_cases:
  "\<not> i + 1 < length B \<Longrightarrow> find_crlf B i = (False, i)"
  "i + 1 < length B \<Longrightarrow> B ! i = CR \<Longrightarrow> B ! (i + 1) = LF \<Longrightarrow> find_crlf B i = (True, i)"
  "i + 1 < length B \<Longrightarrow> \<not> (B ! i = CR \<and> B ! (i + 1) = LF) \<Longrightarrow> find_crlf B i = find_crlf B (i + 1)"
  by (subst find_crlf.simps; auto; fail)+

lemma find_crlf_ext:
  "(fst (find_crlf B i) \<longrightarrow> find_crlf (B @ C) i = find_crlf B i) \<and>
   (\<not> fst (find_crlf B i) \<longrightarrow> find_crlf (B @ C) i = find_crlf (B @ C) (snd (find_crlf B i)))"
proof (induction B i rule: find_crlf.induct)
  case (1 B i)
  show ?case
  proof (cases "i + 1 < length B")
    case True
    then have e: "(B @ C) ! i = B ! i" "(B @ C) ! (i + 1) = B ! (i + 1)" "i + 1 < length (B @ C)" by (auto simp: nth_append)
    show ?thesis
    proof (cases "B ! i = CR \<and> B ! (i + 1) = LF")
      case True
      then show ?thesis using find_crlf_cases(2) [of i B] find_crlf_cases(2) [of i "B @ C"] e \<open>i + 1 < length B\<close> by simp
    next
      case False
      then show ?thesis using 1 [OF True False] find_crlf_cases(3) [OF True False] find_crlf_cases(3) [of i "B @ C"] e by simp
    qed
  qed (simp add: find_crlf_cases(1))
qed

lemma find_crlf_bounds:
  "i \<le> snd (find_crlf B i) \<and> (fst (find_crlf B i) \<longrightarrow> snd (find_crlf B i) + 1 < length B) \<and>
   (\<not> fst (find_crlf B i) \<longrightarrow> length B \<le> snd (find_crlf B i) + 1)"
proof (induction B i rule: find_crlf.induct)
  case (1 B i)
  show ?case
  proof (cases "i + 1 < length B \<and> \<not> (B ! i = CR \<and> B ! (i + 1) = LF)")
    case True
    then show ?thesis using 1 find_crlf_cases(3) [of i B] by auto
  next
    case False
    then show ?thesis using find_crlf_cases(1,2) [of i B] by (cases "i + 1 < length B") auto
  qed
qed

text \<open>The line, command by command.\<close>

definition parse_bulk :: "int \<Rightarrow> nat \<Rightarrow> redis_parser \<Rightarrow> (int \<times> redis_parser) option" where
  "parse_bulk n offset p =
     (if n < 0 then do { p \<leftarrow> set_cur redis_reply_set_null p; Some (1, p) }
      else if n = 0 then do { p \<leftarrow> set_cur (redis_reply_set_string offset 0) p; Some (0, p\<lparr>rp_status := REDIS_GET_CR\<rparr>) }
      else Some (0, p\<lparr>rp_nchar := nat n, rp_status := REDIS_GET_NCHAR\<rparr>))"

definition parse_multi :: "(nat \<Rightarrow> bool) \<Rightarrow> int \<Rightarrow> redis_parser \<Rightarrow> (int \<times> redis_parser) option" where
  "parse_multi mem n p = (if n < 0 then do { p \<leftarrow> set_cur redis_reply_set_null p; Some (1, p) } else parse_array mem n p)"

definition line_text :: "redis_parser \<Rightarrow> string" where
  "line_text p = take (rp_findidx p - rp_msgidx p) (drop (rp_msgidx p) (rp_msgbuf p))"

definition past_line :: "redis_parser \<Rightarrow> redis_parser" where
  "past_line p = p\<lparr>rp_msgidx := rp_findidx p + 2\<rparr>"

lemma parse_line_eqs:
  "rp_cmd p = CHR ''+'' \<Longrightarrow> redis_parse_line mem p =
     do { p \<leftarrow> set_cur (redis_reply_set_status (rp_msgidx p) (rp_findidx p - rp_msgidx p)) (past_line p); Some (1, p) }"
  "rp_cmd p = CHR ''-'' \<Longrightarrow> redis_parse_line mem p =
     do { p \<leftarrow> set_cur (redis_reply_set_error (rp_msgidx p) (rp_findidx p - rp_msgidx p)) (past_line p); Some (1, p) }"
  "rp_cmd p = CHR '':'' \<Longrightarrow> redis_parse_line mem p =
     (if rp_findidx p - rp_msgidx p = 0 \<or> rp_findidx p - rp_msgidx p > 30 then Some (- 1, past_line p)
      else do { n \<leftarrow> atoll (line_text p @ [NUL]); p \<leftarrow> set_cur (redis_reply_set_integer n) (past_line p); Some (1, p) })"
  "rp_cmd p = CHR ''$'' \<Longrightarrow> redis_parse_line mem p =
     do { n \<leftarrow> atoi (drop (rp_msgidx p) (rp_msgbuf p)); parse_bulk n (rp_msgidx p) (past_line p) }"
  "rp_cmd p = CHR ''*'' \<Longrightarrow> redis_parse_line mem p =
     do { n \<leftarrow> atoi (drop (rp_msgidx p) (rp_msgbuf p)); parse_multi mem n (past_line p) }"
  "rp_cmd p \<notin> {CHR ''+'', CHR ''-'', CHR '':'', CHR ''$'', CHR ''*''} \<Longrightarrow> redis_parse_line mem p = Some (- 1, past_line p)"
  by (simp_all add: redis_parse_line_def past_line_def line_text_def parse_bulk_def parse_multi_def Let_def)

lemma line_cmd_cases:
  obtains (status) "rp_cmd p = CHR ''+''" | (error) "rp_cmd p = CHR ''-''" | (integer) "rp_cmd p = CHR '':''" | (bulk) "rp_cmd p = CHR ''$''"
  | (multi) "rp_cmd p = CHR ''*''" | (other) "rp_cmd p \<notin> {CHR ''+'', CHR ''-'', CHR '':'', CHR ''$'', CHR ''*''}"
  by blast

lemma past_line_ext: "past_line (ext C n p) = ext C n (past_line p)"
  by (simp add: past_line_def)

lemma parse_bulk_ext: "parse_bulk k i (ext C n p) = map_option (\<lambda>(r, q). (r, ext C n q)) (parse_bulk k i p)"
  by (cases "rp_heap p (rp_cur p)") (simp_all add: parse_bulk_def set_cur_ext set_cur_def)

lemma parse_multi_ext: "parse_multi mem k (ext C n p) = map_option (\<lambda>(r, q). (r, ext C n q)) (parse_multi mem k p)"
  by (cases "rp_heap p (rp_cur p)") (simp_all add: parse_multi_def set_cur_ext set_cur_def parse_array_ext)

lemma parse_line_ext:
  assumes "redis_parse_line mem p = Some (r, q)" "rp_msgidx p \<le> length (rp_msgbuf p)" "rp_findidx p \<le> length (rp_msgbuf p)"
  shows "redis_parse_line mem (ext C n p) = Some (r, ext C n q)"
proof -
  have t: "line_text (ext C n p) = line_text p" using assms(2,3) by (simp add: line_text_def)
  have a: "atoi (drop (rp_msgidx p) (rp_msgbuf p)) = Some k \<Longrightarrow> atoi (drop (rp_msgidx p) (rp_msgbuf p @ C)) = Some k" for k
    using atoi_ext [of "drop (rp_msgidx p) (rp_msgbuf p)" k C] assms(2) by simp
  show ?thesis
  proof (cases p rule: line_cmd_cases)
    case bulk
    then show ?thesis using assms(1) a by (auto simp: parse_line_eqs(4) past_line_ext parse_bulk_ext bind_eq_Some_conv)
  next
    case multi
    then show ?thesis using assms(1) a by (auto simp: parse_line_eqs(5) past_line_ext parse_multi_ext bind_eq_Some_conv)
  next
    case status
    then show ?thesis using assms(1) by (auto simp: parse_line_eqs(1) past_line_ext set_cur_ext bind_eq_Some_conv)
  next
    case error
    then show ?thesis using assms(1) by (auto simp: parse_line_eqs(2) past_line_ext set_cur_ext bind_eq_Some_conv)
  next
    case integer
    then show ?thesis using assms(1) t by (auto simp: parse_line_eqs(3) past_line_ext set_cur_ext bind_eq_Some_conv split: if_splits)
  next
    case other
    then show ?thesis using assms(1) parse_line_eqs(6) [of p mem] parse_line_eqs(6) [of "ext C n p" mem] by (simp add: past_line_ext)
  qed
qed

lemma set_cur_fields:
  "set_cur f p = Some q \<Longrightarrow> rp_msgidx q = rp_msgidx p \<and> rp_msgbuf q = rp_msgbuf p \<and> rp_status q = rp_status p \<and> rp_findidx q = rp_findidx p"
  by (auto simp: set_cur_def bind_eq_Some_conv)

lemma set_array_fields:
  "redis_reply_set_array mem k p = Some (b, q) \<Longrightarrow> rp_msgidx q = rp_msgidx p \<and> rp_msgbuf q = rp_msgbuf p \<and> rp_status q = rp_status p"
  by (cases "create_array mem k (rp_next p)") (auto simp: redis_reply_set_array_def bind_eq_Some_conv)

lemma parse_array_fields:
  assumes "parse_array mem n p = Some (r, q)"
  shows "rp_msgidx q = rp_msgidx p \<and> rp_msgbuf q = rp_msgbuf p \<and> r \<in> {- 1, 0, 1} \<and> rp_status q \<in> {rp_status p, REDIS_GET_CMD}"
proof -
  obtain l b q1 where s: "in_range 32 (rp_nleft p + n) = Some l" "redis_reply_set_array mem (nat n) (p\<lparr>rp_nleft := l\<rparr>) = Some (b, q1)"
    using assms by (auto simp: parse_array_def bind_eq_Some_conv)
  have f: "rp_msgidx q1 = rp_msgidx p \<and> rp_msgbuf q1 = rp_msgbuf p \<and> rp_status q1 = rp_status p" using set_array_fields [OF s(2)] by simp
  show ?thesis
  proof (cases "b \<and> n \<noteq> 0")
    case True
    then obtain x where x: "rp_heap q1 (rp_cur q1) = Some x" using assms s by (auto simp: parse_array_def bind_eq_Some_conv)
    show ?thesis using assms s True x f by (cases "rd (rr_element x) 0") (auto simp: parse_array_def push_records_def Let_def split: if_splits)
  next
    case False
    then show ?thesis using assms s f by (auto simp: parse_array_def split: if_splits)
  qed
qed

lemma parse_bulk_fields:
  "parse_bulk n i p = Some (r, q) \<Longrightarrow> rp_msgidx q = rp_msgidx p \<and> rp_msgbuf q = rp_msgbuf p \<and> r \<in> {0, 1} \<and>
   rp_status q \<in> {rp_status p, REDIS_GET_CR, REDIS_GET_NCHAR}"
  by (auto simp: parse_bulk_def set_cur_def bind_eq_Some_conv split: if_splits)

lemma parse_multi_fields:
  "parse_multi mem n p = Some (r, q) \<Longrightarrow> rp_msgidx q = rp_msgidx p \<and> rp_msgbuf q = rp_msgbuf p \<and> r \<in> {- 1, 0, 1} \<and>
   rp_status q \<in> {rp_status p, REDIS_GET_CMD}"
  using parse_array_fields [of mem n p r q] by (auto simp: parse_multi_def set_cur_def bind_eq_Some_conv split: if_splits)

lemma parse_line_fields:
  assumes "redis_parse_line mem p = Some (r, q)"
  shows "rp_msgidx q = rp_findidx p + 2 \<and> rp_msgbuf q = rp_msgbuf p \<and> r \<in> {- 1, 0, 1} \<and>
    rp_status q \<in> {rp_status p, REDIS_GET_CR, REDIS_GET_NCHAR, REDIS_GET_CMD}"
proof (cases p rule: line_cmd_cases)
  case bulk
  then show ?thesis using assms parse_bulk_fields by (fastforce simp: parse_line_eqs(4) bind_eq_Some_conv past_line_def)
next
  case multi
  then show ?thesis using assms parse_multi_fields by (fastforce simp: parse_line_eqs(5) bind_eq_Some_conv past_line_def)
next
  case integer
  then show ?thesis using assms by (auto simp: parse_line_eqs(3) bind_eq_Some_conv past_line_def set_cur_def split: if_splits)
next
  case other
  then show ?thesis using assms parse_line_eqs(6) [of p mem] by (auto simp: past_line_def)
qed (use assms in \<open>auto simp: parse_line_eqs(1,2) bind_eq_Some_conv past_line_def set_cur_def\<close>)

lemma forward_ext:
  assumes "redis_parser_forward mem p = Some (r, q)" "r \<noteq> 2"
  shows "redis_parser_forward mem (ext C n p) = Some (r, ext C n q)"
proof -
  have lt: "rp_msgidx p < length (rp_msgbuf p)" using assms by (auto simp: redis_parser_forward_def split: if_splits)
  show ?thesis
  proof (cases "rp_status p")
    case REDIS_UNTIL_CRLF
    obtain f j where f: "find_crlf (rp_msgbuf p) (rp_findidx p) = (f, j)" by fastforce
    have f': f using assms REDIS_UNTIL_CRLF lt f by (auto simp: redis_parser_forward_def redis_parse_crlf_def Let_def split: if_splits)
    then have e: "find_crlf (rp_msgbuf p @ C) (rp_findidx p) = (True, j)" using find_crlf_ext [of "rp_msgbuf p" "rp_findidx p" C] f by simp
    have b: "j + 1 < length (rp_msgbuf p)" using find_crlf_bounds [of "rp_findidx p" "rp_msgbuf p"] f f' by simp
    have "redis_parse_line mem (p\<lparr>rp_findidx := j\<rparr>) = Some (r, q)"
      using assms(1) REDIS_UNTIL_CRLF lt f f' by (simp add: redis_parser_forward_def redis_parse_crlf_def)
    from parse_line_ext [OF this, of C n] show ?thesis using REDIS_UNTIL_CRLF lt e b
      by (simp add: redis_parser_forward_def redis_parse_crlf_def)
  next
    case REDIS_GET_NCHAR
    then show ?thesis using assms lt
      by (auto simp: redis_parser_forward_def redis_parse_nchar_def bind_eq_Some_conv set_cur_ext split: if_splits)
  qed (use assms lt in \<open>auto simp: redis_parser_forward_def redis_parse_cmd_def redis_parse_cr_def redis_parse_lf_def nth_append Let_def split: if_splits\<close>)
qed

lemma forward_stuck:
  assumes "redis_parser_forward mem p = Some (2, q)"
  shows "redis_parser_forward mem (ext C n p) = redis_parser_forward mem (ext C n q) \<and> redis_parser_forward mem q = Some (2, q)"
proof (cases "rp_msgidx p < length (rp_msgbuf p)")
  case lt: True
  show ?thesis
  proof (cases "rp_status p")
    case REDIS_UNTIL_CRLF
    obtain f j where f: "find_crlf (rp_msgbuf p) (rp_findidx p) = (f, j)" by fastforce
    have "\<not> f"
    proof
      assume f
      then have "redis_parse_line mem (p\<lparr>rp_findidx := j\<rparr>) = Some (2, q)"
        using assms REDIS_UNTIL_CRLF lt f by (simp add: redis_parser_forward_def redis_parse_crlf_def)
      then show False using parse_line_fields by fastforce
    qed
    then have q: "q = p\<lparr>rp_findidx := j\<rparr>" using assms REDIS_UNTIL_CRLF lt f by (simp add: redis_parser_forward_def redis_parse_crlf_def)
    have e: "find_crlf (rp_msgbuf p @ C) (rp_findidx p) = find_crlf (rp_msgbuf p @ C) j"
      using find_crlf_ext [of "rp_msgbuf p" "rp_findidx p" C] f \<open>\<not> f\<close> by simp
    have "find_crlf (rp_msgbuf p) j = (False, j)"
      using find_crlf_bounds [of "rp_findidx p" "rp_msgbuf p"] f \<open>\<not> f\<close> by (intro find_crlf_cases(1)) simp
    then show ?thesis using REDIS_UNTIL_CRLF lt q e by (simp add: redis_parser_forward_def redis_parse_crlf_def Let_def)
  next
    case REDIS_GET_NCHAR
    then show ?thesis using assms lt by (auto simp: redis_parser_forward_def redis_parse_nchar_def bind_eq_Some_conv split: if_splits)
  qed (use assms lt in \<open>auto simp: redis_parser_forward_def redis_parse_cmd_def redis_parse_cr_def redis_parse_lf_def Let_def split: if_splits\<close>)
qed (use assms in \<open>simp add: redis_parser_forward_def\<close>)

lemma finish_one_ext: "finish_one (ext C n p) = ext C n (finish_one p)"
  by (simp add: finish_one_def Let_def split: list.split)

lemma loop_step:
  "redis_parser_forward mem p = Some (r, q) \<Longrightarrow> redis_parse_loop mem p =
     (if r < 0 then Some (r, q) else if r = 2 then Some (0, q)
      else let q = (if r = 1 then finish_one q else q) in if rp_status q \<noteq> REDIS_PARSE_END then redis_parse_loop mem q else Some (1, q))"
  by (subst redis_parse_loop.simps) simp

definition loop_extends :: "string \<Rightarrow> nat \<Rightarrow> (nat \<Rightarrow> bool) \<Rightarrow> redis_parser \<Rightarrow> int \<Rightarrow> redis_parser \<Rightarrow> bool" where
  "loop_extends C n mem p r q \<longleftrightarrow>
     (r = 0 \<longrightarrow> redis_parse_loop mem (ext C n p) = redis_parse_loop mem (ext C n q) \<and> redis_parser_forward mem q = Some (2, q)) \<and>
     (r \<noteq> 0 \<longrightarrow> redis_parse_loop mem (ext C n p) = Some (r, ext C n q))"

lemma loop_ext:
  assumes "redis_parse_loop mem0 p0 = Some y0"
  shows "loop_extends C n mem0 p0 (fst y0) (snd y0)"
proof (rule redis_parse_loop.raw_induct [where P = "\<lambda>mem p y. loop_extends C n mem p (fst y) (snd y)", OF _ assms])
  fix f mem p y
  assume IH: "\<And>mem p y. f mem p = Some y \<Longrightarrow> loop_extends C n mem p (fst y) (snd y)"
    and body: "redis_parser_forward mem p \<bind> (\<lambda>(ret, p). if ret < 0 then Some (ret, p) else if ret = 2 then Some (0, p)
      else let p = if ret = 1 then finish_one p else p in if rp_status p \<noteq> REDIS_PARSE_END then f mem p else Some (1, p)) = Some y"
  from body obtain ret p1 where fw: "redis_parser_forward mem p = Some (ret, p1)" by (auto simp: bind_eq_Some_conv)
  consider "ret = 2" | "ret < 0" | "ret \<noteq> 2" "\<not> ret < 0" by fastforce
  then show "loop_extends C n mem p (fst y) (snd y)"
  proof cases
    case 1
    then have y: "y = (0, p1)" using body fw by simp
    have "redis_parser_forward mem (ext C n p) = redis_parser_forward mem (ext C n p1) \<and> redis_parser_forward mem p1 = Some (2, p1)"
      using forward_stuck [of mem p p1 C n] fw 1 by simp
    then show ?thesis using y
      by (simp add: loop_extends_def redis_parse_loop.simps [of mem "ext C n p"] redis_parse_loop.simps [of mem "ext C n p1"])
  next
    case 2
    then have "y = (ret, p1)" using body fw by simp
    then show ?thesis using loop_step [OF forward_ext [OF fw, of C n]] 2 by (simp add: loop_extends_def)
  next
    case 3
    let ?p2 = "if ret = 1 then finish_one p1 else p1"
    have st: "redis_parse_loop mem (ext C n p) =
        (if rp_status ?p2 \<noteq> REDIS_PARSE_END then redis_parse_loop mem (ext C n ?p2) else Some (1, ext C n ?p2))"
      using loop_step [OF forward_ext [OF fw, of C n]] 3 by (auto simp: finish_one_ext Let_def)
    show ?thesis
    proof (cases "rp_status ?p2 = REDIS_PARSE_END")
      case True
      then have "y = (1, ?p2)" using body fw 3 by (auto simp: Let_def)
      then show ?thesis using st True by (auto simp: loop_extends_def)
    next
      case ne: False
      then have "f mem ?p2 = Some y" using body fw 3 by (auto simp: Let_def)
      from IH [OF this] show ?thesis using st ne by (auto simp: loop_extends_def)
    qed
  qed
qed

lemma forward_until:
  assumes "rp_status p = REDIS_UNTIL_CRLF" "rp_msgidx p < length (rp_msgbuf p)"
  shows "redis_parser_forward mem p = redis_parse_crlf mem p"
  using assms by (simp add: redis_parser_forward_def)

lemma forward_stuck_moved:
  assumes "redis_parser_forward mem p = Some (2, p)"
  shows "redis_parser_forward mem (ext [] n p) = Some (2, ext [] n p)"
proof (cases "rp_msgidx p < length (rp_msgbuf p)")
  case lt: True
  consider "rp_status p = REDIS_UNTIL_CRLF" | "rp_status p = REDIS_GET_NCHAR"
    using assms lt by (cases "rp_status p")
      (auto simp: redis_parser_forward_def redis_parse_cmd_def redis_parse_cr_def redis_parse_lf_def Let_def split: if_splits)
  then show ?thesis
  proof cases
    case 1
    obtain f j where f: "find_crlf (rp_msgbuf p) (rp_findidx p) = (f, j)" by fastforce
    have nf: "\<not> f"
    proof
      assume f
      then have "redis_parse_line mem (p\<lparr>rp_findidx := j\<rparr>) = Some (2, p)" using assms 1 lt f by (simp add: forward_until redis_parse_crlf_def)
      then show False using parse_line_fields by fastforce
    qed
    then have "p = p\<lparr>rp_findidx := j\<rparr>" using assms 1 lt f by (simp add: forward_until redis_parse_crlf_def)
    then show ?thesis using 1 lt f nf by (simp add: forward_until redis_parse_crlf_def)
  next
    case 2
    then show ?thesis using assms lt by (auto simp: redis_parser_forward_def redis_parse_nchar_def bind_eq_Some_conv split: if_splits)
  qed
qed (simp add: redis_parser_forward_def)

section \<open>Positions\<close>

definition rp_ok :: "redis_parser \<Rightarrow> bool" where
  "rp_ok p \<longleftrightarrow> rp_msgidx p \<le> length (rp_msgbuf p) \<and> (rp_status p = REDIS_UNTIL_CRLF \<longrightarrow> rp_msgidx p \<le> rp_findidx p)"

lemma finish_one_fields: "rp_msgidx (finish_one p) = rp_msgidx p" "rp_msgbuf (finish_one p) = rp_msgbuf p" "rp_status (finish_one p) \<noteq> REDIS_UNTIL_CRLF"
  by (simp_all add: finish_one_def Let_def split: list.split)

lemma parse_array_status: "parse_array mem n p = Some (0, q) \<Longrightarrow> rp_status q = REDIS_GET_CMD"
  by (auto simp: parse_array_def bind_eq_Some_conv push_records_def Let_def split: if_splits)

lemma parse_line_status:
  assumes "redis_parse_line mem p = Some (0, q)"
  shows "rp_status q \<in> {REDIS_GET_CR, REDIS_GET_NCHAR, REDIS_GET_CMD}"
proof (cases p rule: line_cmd_cases)
  case bulk
  then show ?thesis using assms by (auto simp: parse_line_eqs(4) parse_bulk_def bind_eq_Some_conv split: if_splits)
next
  case multi
  then show ?thesis using assms parse_array_status by (auto simp: parse_line_eqs(5) parse_multi_def bind_eq_Some_conv split: if_splits)
next
  case integer
  then show ?thesis using assms by (auto simp: parse_line_eqs(3) bind_eq_Some_conv split: if_splits)
next
  case other
  then show ?thesis using assms parse_line_eqs(6) [of p mem] by simp
qed (use assms in \<open>auto simp: parse_line_eqs(1,2) bind_eq_Some_conv\<close>)

lemma forward_ok:
  assumes "redis_parser_forward mem p = Some (r, q)" "rp_ok p"
  shows "rp_msgidx p \<le> rp_msgidx q \<and> rp_msgidx q \<le> length (rp_msgbuf q) \<and> rp_msgbuf q = rp_msgbuf p \<and> (r \<in> {0, 2} \<longrightarrow> rp_ok q)"
proof (cases "rp_msgidx p < length (rp_msgbuf p)")
  case lt: True
  show ?thesis
  proof (cases "rp_status p")
    case REDIS_UNTIL_CRLF
    obtain f j where f: "find_crlf (rp_msgbuf p) (rp_findidx p) = (f, j)" by fastforce
    have b: "rp_findidx p \<le> j" "f \<Longrightarrow> j + 1 < length (rp_msgbuf p)" using find_crlf_bounds [of "rp_findidx p" "rp_msgbuf p"] f by auto
    show ?thesis
    proof (cases f)
      case True
      then have l: "redis_parse_line mem (p\<lparr>rp_findidx := j\<rparr>) = Some (r, q)"
        using assms(1) REDIS_UNTIL_CRLF lt f by (simp add: forward_until redis_parse_crlf_def)
      have "rp_msgidx q = j + 2" "rp_msgbuf q = rp_msgbuf p" "r \<noteq> 2" using parse_line_fields [OF l] by auto
      moreover have "r = 0 \<longrightarrow> rp_status q \<noteq> REDIS_UNTIL_CRLF" using parse_line_status [of mem "p\<lparr>rp_findidx := j\<rparr>" q] l by auto
      ultimately show ?thesis using b True assms(2) REDIS_UNTIL_CRLF by (auto simp: rp_ok_def)
    next
      case False
      then show ?thesis using assms REDIS_UNTIL_CRLF lt f b by (auto simp: forward_until redis_parse_crlf_def rp_ok_def)
    qed
  next
    case REDIS_GET_NCHAR
    then show ?thesis using assms lt
      by (auto simp: redis_parser_forward_def redis_parse_nchar_def bind_eq_Some_conv rp_ok_def set_cur_def split: if_splits)
  qed (use assms lt in \<open>auto simp: redis_parser_forward_def redis_parse_cmd_def redis_parse_cr_def redis_parse_lf_def rp_ok_def Let_def split: if_splits\<close>)
qed (use assms in \<open>auto simp: redis_parser_forward_def\<close>, simp_all add: rp_ok_def)

text \<open>Bytes that were missing are used up by the next step.\<close>

lemma stuck_progress:
  assumes "redis_parser_forward mem q = Some (2, q)" "redis_parser_forward mem (ext C n q) = Some (r, q')" "r \<noteq> 2" "rp_ok q"
  shows "length (rp_msgbuf q) \<le> rp_msgidx q'"
proof (cases "rp_msgidx q < length (rp_msgbuf q)")
  case lt: True
  consider "rp_status q = REDIS_UNTIL_CRLF" | "rp_status q = REDIS_GET_NCHAR"
    using assms(1) lt by (cases "rp_status q")
      (auto simp: redis_parser_forward_def redis_parse_cmd_def redis_parse_cr_def redis_parse_lf_def Let_def split: if_splits)
  then show ?thesis
  proof cases
    case 1
    obtain f j where f: "find_crlf (rp_msgbuf q) (rp_findidx q) = (f, j)" by fastforce
    have nf: "\<not> f"
    proof
      assume f
      then have "redis_parse_line mem (q\<lparr>rp_findidx := j\<rparr>) = Some (2, q)" using assms(1) 1 lt f by (simp add: forward_until redis_parse_crlf_def)
      then show False using parse_line_fields by fastforce
    qed
    then have "q = q\<lparr>rp_findidx := j\<rparr>" using assms(1) 1 lt f by (simp add: forward_until redis_parse_crlf_def)
    then have j: "rp_findidx q = j" by (metis redis_parser.select_convs(8) redis_parser.surjective redis_parser.update_convs(8))
    have e: "length (rp_msgbuf q) \<le> rp_findidx q + 1" using find_crlf_bounds [of "rp_findidx q" "rp_msgbuf q"] f nf j by simp
    obtain f' j' where f': "find_crlf (rp_msgbuf q @ C) (rp_findidx q) = (f', j')" by fastforce
    have "rp_findidx q \<le> j'" using find_crlf_bounds [of "rp_findidx q" "rp_msgbuf q @ C"] f' by simp
    moreover have f' using assms(2,3) 1 lt f' by (auto simp: forward_until redis_parse_crlf_def Let_def split: if_splits)
    then have "redis_parse_line mem (ext C n (q\<lparr>rp_findidx := j'\<rparr>)) = Some (r, q')" using assms(2) 1 lt f' by (simp add: forward_until redis_parse_crlf_def)
    then have "rp_msgidx q' = j' + 2" using parse_line_fields by fastforce
    ultimately show ?thesis using e by simp
  next
    case 2
    then show ?thesis using assms(1-3) lt
      by (auto simp: redis_parser_forward_def redis_parse_nchar_def bind_eq_Some_conv set_cur_def split: if_splits)
  qed
next
  case False
  have "rp_ok (ext C n q)" using assms(4) by (auto simp: rp_ok_def)
  from forward_ok [OF assms(2) this] False show ?thesis by simp
qed

lemma forward_ret:
  assumes "redis_parser_forward mem p = Some (r, q)"
  shows "r < 0 \<or> r \<in> {0, 1, 2}"
proof (cases "rp_msgidx p < length (rp_msgbuf p) \<and> rp_status p = REDIS_UNTIL_CRLF")
  case True
  obtain f j where f: "find_crlf (rp_msgbuf p) (rp_findidx p) = (f, j)" by fastforce
  show ?thesis
  proof (cases f)
    case l: True
    then have "redis_parse_line mem (p\<lparr>rp_findidx := j\<rparr>) = Some (r, q)" using assms True f by (simp add: forward_until redis_parse_crlf_def)
    then show ?thesis using parse_line_fields by fastforce
  qed (use assms True f in \<open>simp add: forward_until redis_parse_crlf_def\<close>)
next
  case False
  then show ?thesis using assms
    by (cases "rp_status p") (auto simp: redis_parser_forward_def redis_parse_nchar_def redis_parse_cmd_def redis_parse_cr_def redis_parse_lf_def
        bind_eq_Some_conv Let_def split: if_splits)
qed

lemma loop_mono:
  assumes "redis_parse_loop mem0 p0 = Some y0"
  shows "rp_ok p0 \<longrightarrow> rp_msgidx p0 \<le> rp_msgidx (snd y0) \<and> rp_msgidx (snd y0) \<le> length (rp_msgbuf (snd y0)) \<and>
    rp_msgbuf (snd y0) = rp_msgbuf p0 \<and> (fst y0 = 0 \<longrightarrow> rp_ok (snd y0))"
proof (rule redis_parse_loop.raw_induct [where P = "\<lambda>mem p y. rp_ok p \<longrightarrow> rp_msgidx p \<le> rp_msgidx (snd y) \<and>
    rp_msgidx (snd y) \<le> length (rp_msgbuf (snd y)) \<and> rp_msgbuf (snd y) = rp_msgbuf p \<and> (fst y = 0 \<longrightarrow> rp_ok (snd y))", OF _ assms], rule impI)
  fix f mem p y
  assume IH: "\<And>mem p y. f mem p = Some y \<Longrightarrow> rp_ok p \<longrightarrow> rp_msgidx p \<le> rp_msgidx (snd y) \<and>
      rp_msgidx (snd y) \<le> length (rp_msgbuf (snd y)) \<and> rp_msgbuf (snd y) = rp_msgbuf p \<and> (fst y = 0 \<longrightarrow> rp_ok (snd y))"
    and body: "redis_parser_forward mem p \<bind> (\<lambda>(ret, p). if ret < 0 then Some (ret, p) else if ret = 2 then Some (0, p)
      else let p = if ret = 1 then finish_one p else p in if rp_status p \<noteq> REDIS_PARSE_END then f mem p else Some (1, p)) = Some y"
    and ok: "rp_ok p"
  from body obtain ret p1 where fw: "redis_parser_forward mem p = Some (ret, p1)" by (auto simp: bind_eq_Some_conv)
  note F = forward_ok [OF fw ok]
  have ret: "ret < 0 \<or> ret \<in> {0, 1, 2}" by (rule forward_ret [OF fw])
  show "rp_msgidx p \<le> rp_msgidx (snd y) \<and> rp_msgidx (snd y) \<le> length (rp_msgbuf (snd y)) \<and> rp_msgbuf (snd y) = rp_msgbuf p \<and> (fst y = 0 \<longrightarrow> rp_ok (snd y))"
  proof (cases "ret < 0 \<or> ret = 2")
    case True
    then show ?thesis using body fw F by (auto split: if_splits)
  next
    case False
    let ?p2 = "if ret = 1 then finish_one p1 else p1"
    have p2: "rp_ok ?p2" "rp_msgidx ?p2 = rp_msgidx p1" "rp_msgbuf ?p2 = rp_msgbuf p1" using F ret False finish_one_fields [of p1] by (auto simp: rp_ok_def)
    show ?thesis
    proof (cases "rp_status ?p2 = REDIS_PARSE_END")
      case True
      then have "y = (1, ?p2)" using body fw False by (auto simp: Let_def)
      then show ?thesis using F p2 by auto
    next
      case ne: False
      then have "f mem ?p2 = Some y" using body fw False by (auto simp: Let_def)
      from IH [OF this] show ?thesis using p2 F by auto
    qed
  qed
qed

section \<open>Messages in pieces\<close>

lemma ext_eq: "p\<lparr>rp_bufsize := n, rp_msgbuf := rp_msgbuf p @ C\<rparr> = ext C n p"
  by (simp add: ext_def)

lemma append_loop:
  assumes "rp_status p \<noteq> REDIS_PARSE_END"
  shows "\<exists>n. redis_parser_append_message always buf p =
    do { (ret, q) \<leftarrow> redis_parse_loop always (ext buf n p); Some (ret, if ret = 1 then rp_msgidx q - length (rp_msgbuf p) else length buf, q) }"
proof (cases "length (rp_msgbuf p) + length buf > rp_bufsize p")
  case True
  obtain n where "grow_size (length (rp_msgbuf p) + length buf) (max 8 (2 * rp_bufsize p)) = Some n"
    using grow_size_ok [of "max 8 (2 * rp_bufsize p)" "length (rp_msgbuf p) + length buf"] by (metis less_max_iff_disj zero_less_numeral)
  then show ?thesis using True assms by (intro exI [of _ n]) (simp add: redis_parser_append_message_def ext_eq Let_def)
next
  case False
  have e: "p\<lparr>rp_msgbuf := rp_msgbuf p @ buf\<rparr> = ext buf (rp_bufsize p) p" by (simp add: ext_def)
  show ?thesis using assms False
    by (intro exI [of _ "rp_bufsize p"], unfold e [symmetric]) (simp add: redis_parser_append_message_def Let_def)
qed

lemma append_loopD:
  assumes "rp_status p \<noteq> REDIS_PARSE_END" "redis_parser_append_message always buf p = Some (r, k, q)"
  shows "\<exists>n. redis_parse_loop always (ext buf n p) = Some (r, q) \<and> k = (if r = 1 then rp_msgidx q - length (rp_msgbuf p) else length buf)"
proof -
  obtain n where "do { (ret, q) \<leftarrow> redis_parse_loop always (ext buf n p); Some (ret, if ret = 1 then rp_msgidx q - length (rp_msgbuf p) else length buf, q) } =
      Some (r, k, q)" using append_loop [OF assms(1), of buf] unfolding assms(2) by (elim exE) (drule sym, blast)
  then show ?thesis by (auto simp: bind_eq_Some_conv)
qed

lemma ext_ext: "ext D m (ext C n p) = ext (C @ D) m p"
  by (simp add: ext_def)

definition same_parser :: "redis_parser \<Rightarrow> redis_parser \<Rightarrow> bool" where
  "same_parser p q \<longleftrightarrow> p\<lparr>rp_bufsize := 0\<rparr> = q\<lparr>rp_bufsize := 0\<rparr>"

lemma same_ext: "same_parser (ext [] n p) p"
  by (simp add: same_parser_def ext_def)

lemma append_pieces:
  assumes "rp_ok p" "redis_parser_append_message always a p = Some (0, k1, p1)" "redis_parser_append_message always b p1 = Some (r, k2, p2)"
    "rp_status p1 \<noteq> REDIS_PARSE_END"
  shows "\<exists>p3. redis_parser_append_message always (a @ b) p = Some (r, if r = 1 then length a + k2 else length (a @ b), p3) \<and> same_parser p3 p2"
proof -
  have ne: "rp_status p \<noteq> REDIS_PARSE_END" using assms(2) by (auto simp: redis_parser_append_message_def Let_def)
  obtain n1 where n1: "redis_parse_loop always (ext a n1 p) = Some (0, p1)" using append_loopD [OF ne assms(2)] by blast
  obtain n2 where n2: "redis_parse_loop always (ext b n2 p1) = Some (r, p2)" "k2 = (if r = 1 then rp_msgidx p2 - length (rp_msgbuf p1) else length b)"
    using append_loopD [OF assms(4,3)] by blast
  obtain n3 where n3: "redis_parser_append_message always (a @ b) p = do { (ret, q) \<leftarrow> redis_parse_loop always (ext (a @ b) n3 p);
      Some (ret, if ret = 1 then rp_msgidx q - length (rp_msgbuf p) else length (a @ b), q) }" using append_loop [OF ne, of "a @ b"] by blast
  have ok0: "rp_ok (ext a n1 p)" using assms(1) by (auto simp: rp_ok_def)
  have m1: "rp_msgbuf p1 = rp_msgbuf p @ a" "rp_ok p1" using loop_mono [OF n1] ok0 by auto
  have stuck: "redis_parser_forward always p1 = Some (2, p1)"
    and l1: "redis_parse_loop always (ext (a @ b) n3 p) = redis_parse_loop always (ext b n3 p1)"
    using loop_ext [OF n1, of b n3] by (simp_all add: loop_extends_def ext_ext)
  have e: "ext [] n3 (ext b n2 p1) = ext b n3 p1" by (simp add: ext_ext)
  have l2: "redis_parse_loop always (ext b n3 p1) = Some (r, ext [] n3 p2)"
  proof (cases "r = 0")
    case True
    then have "redis_parse_loop always (ext b n3 p1) = redis_parse_loop always (ext [] n3 p2)" "redis_parser_forward always p2 = Some (2, p2)"
      using loop_ext [OF n2(1), of "[]" n3] e by (simp_all add: loop_extends_def)
    then show ?thesis using loop_step [OF forward_stuck_moved [of always p2 n3]] True by simp
  next
    case False
    then show ?thesis using loop_ext [OF n2(1), of "[]" n3] e by (simp add: loop_extends_def)
  qed
  have bound: "length (rp_msgbuf p1) \<le> rp_msgidx p2" if "r = 1"
  proof -
    obtain x q where fw: "redis_parser_forward always (ext b n2 p1) = Some (x, q)"
      using n2(1) by (subst (asm) redis_parse_loop.simps) (auto simp: bind_eq_Some_conv)
    have x: "x \<noteq> 2" "\<not> x < 0" using loop_step [OF fw] n2(1) that by auto
    have okb: "rp_ok (ext b n2 p1)" using m1(2) by (auto simp: rp_ok_def)
    let ?q = "if x = 1 then finish_one q else q"
    have q: "length (rp_msgbuf p1) \<le> rp_msgidx ?q" using stuck_progress [OF stuck fw x(1) m1(2)] finish_one_fields(1) by simp
    show ?thesis
    proof (cases "rp_status ?q = REDIS_PARSE_END")
      case True
      then have "p2 = ?q" using loop_step [OF fw] n2(1) x by (auto simp: Let_def)
      then show ?thesis using q by simp
    next
      case False
      then have l: "redis_parse_loop always ?q = Some (r, p2)" using loop_step [OF fw] n2(1) x by (auto simp: Let_def)
      have "rp_ok ?q" using forward_ok [OF fw okb] forward_ret [OF fw] x finish_one_fields [of q] by (auto simp: rp_ok_def)
      then show ?thesis using loop_mono [OF l] q by auto
    qed
  qed
  show ?thesis using n3 l1 l2 same_ext [of n3 p2] n2(2) m1(1) bound by auto
qed
end
