(* ===== verification/Redis_Theorems.thy ===== *)
theory Redis_Theorems
  imports Redis_Parser
begin

text \<open>
  What the Redis parser computes: replies as values, their wire format, and the proofs that parsing inverts it, in one
  piece or in many.
\<close>

section \<open>Values and their wire format\<close>

datatype reply = Status string | Failure string | Number int | Bulk string | Nothing | Multi "reply list"

fun wire :: "reply \<Rightarrow> string" where
  "wire (Status s) = CHR ''+'' # s @ crlf"
| "wire (Failure s) = CHR ''-'' # s @ crlf"
| "wire (Number n) = CHR '':'' # show_int n @ crlf"
| "wire (Bulk s) = CHR ''$'' # show_int (int (length s)) @ crlf @ s @ crlf"
| "wire Nothing = CHR ''$'' # show_int (- 1) @ crlf"
| "wire (Multi rs) = CHR ''*'' # show_int (int (length rs)) @ crlf @ concat (map wire rs)"

fun no_crlf :: "string \<Rightarrow> bool" where
  "no_crlf (c # d # s) \<longleftrightarrow> \<not> (c = CR \<and> d = LF) \<and> no_crlf (d # s)"
| "no_crlf _ \<longleftrightarrow> True"

fun reply_size :: "reply \<Rightarrow> nat" where
  "reply_size (Multi rs) = 1 + sum_list (map reply_size rs)"
| "reply_size _ = 1"

fun reply_ok :: "reply \<Rightarrow> bool" where
  "reply_ok (Status s) \<longleftrightarrow> no_crlf s"
| "reply_ok (Failure s) \<longleftrightarrow> no_crlf s"
| "reply_ok (Number n) \<longleftrightarrow> - (2 ^ 63) \<le> n \<and> n < 2 ^ 63"
| "reply_ok (Bulk s) \<longleftrightarrow> length s < 2 ^ 31"
| "reply_ok Nothing \<longleftrightarrow> True"
| "reply_ok (Multi rs) \<longleftrightarrow> (\<forall>r \<in> set rs. reply_ok r)"

section \<open>Lines\<close>

lemma no_crlf_if: "CR \<notin> set s \<Longrightarrow> no_crlf s"
  by (induction s rule: no_crlf.induct) auto

lemma find_crlf_line:
  "no_crlf s \<Longrightarrow> B = A @ s @ crlf @ post \<Longrightarrow> find_crlf B (length A) = (True, length A + length s)"
proof (induction s arbitrary: A)
  case Nil
  then show ?case by (intro trans [OF find_crlf_cases(2)]) (simp_all add: crlf_def nth_append)
next
  case (Cons c s)
  have n: "\<not> (B ! length A = CR \<and> B ! (length A + 1) = LF)"
    using Cons.prems by (cases s) (auto simp: nth_append crlf_def)
  have l: "length A + 1 < length B" using Cons.prems(2) by (simp add: crlf_def)
  have "no_crlf s" using Cons.prems(1) by (cases s) auto
  from Cons.IH [OF this, of "A @ [c]"] Cons.prems(2) show ?case using find_crlf_cases(3) [OF l n] by simp
qed


section \<open>Steps of the loop\<close>

text \<open>\<open>reaches p q\<close>: the loop gets from \<open>p\<close> to the end of one reply, in state \<open>q\<close>.\<close>

definition after :: "redis_parser \<Rightarrow> (int \<times> redis_parser) option" where
  "after q = (if rp_status (finish_one q) \<noteq> REDIS_PARSE_END then redis_parse_loop always (finish_one q) else Some (1, finish_one q))"

lemma loop_continue:
  "redis_parser_forward always p = Some (0, q) \<Longrightarrow> rp_status q \<noteq> REDIS_PARSE_END \<Longrightarrow> redis_parse_loop always p = redis_parse_loop always q"
  by (simp add: loop_step)

lemma loop_finish: "redis_parser_forward always p = Some (1, q) \<Longrightarrow> redis_parse_loop always p = after q"
  by (simp add: loop_step after_def)

text \<open>The command byte and the search for the end of its line.\<close>

lemma run_line:
  assumes "rp_status p = REDIS_GET_CMD" "rp_msgbuf p = pre @ c # s @ crlf @ post" "rp_msgidx p = length pre" "no_crlf s"
    "c \<in> {CHR ''+'', CHR ''-'', CHR '':'', CHR ''$'', CHR ''*''}"
  shows "\<exists>p1. redis_parser_forward always p = Some (0, p1) \<and> rp_status p1 = REDIS_UNTIL_CRLF \<and>
    redis_parser_forward always p1 = redis_parse_line always
      (p\<lparr>rp_msgidx := length pre + 1, rp_cmd := c, rp_status := REDIS_UNTIL_CRLF, rp_findidx := length pre + 1 + length s\<rparr>)"
proof -
  let ?p1 = "p\<lparr>rp_msgidx := length pre + 1, rp_cmd := c, rp_status := REDIS_UNTIL_CRLF, rp_findidx := length pre + 1\<rparr>"
  have f: "find_crlf (rp_msgbuf p) (length (pre @ [c])) = (True, length (pre @ [c]) + length s)"
    by (rule find_crlf_line [OF assms(4)]) (simp add: assms(2))
  have "redis_parser_forward always p = Some (0, ?p1)"
    using assms by (simp add: redis_parser_forward_def redis_parse_cmd_def Let_def)
  moreover have "redis_parser_forward always ?p1 = redis_parse_line always
      (p\<lparr>rp_msgidx := length pre + 1, rp_cmd := c, rp_status := REDIS_UNTIL_CRLF, rp_findidx := length pre + 1 + length s\<rparr>)"
    using f assms(2) by (simp add: forward_until redis_parse_crlf_def Let_def crlf_def)
  ultimately show ?thesis by auto
qed

text \<open>The end of a string that was sent with its length.\<close>

lemma run_crlf:
  assumes "rp_status p = REDIS_GET_CR" "rp_msgbuf p = pre @ crlf @ post" "rp_msgidx p = length pre"
  shows "redis_parse_loop always p = after (p\<lparr>rp_msgidx := length pre + 2, rp_status := REDIS_GET_LF\<rparr>)"
proof -
  let ?p1 = "p\<lparr>rp_msgidx := length pre + 1, rp_status := REDIS_GET_LF\<rparr>"
  have "redis_parser_forward always p = Some (0, ?p1)"
    using assms by (simp add: redis_parser_forward_def redis_parse_cr_def crlf_def Let_def)
  then have "redis_parse_loop always p = redis_parse_loop always ?p1" by (simp add: loop_continue)
  moreover have "redis_parser_forward always ?p1 = Some (1, p\<lparr>rp_msgidx := length pre + 2, rp_status := REDIS_GET_LF\<rparr>)"
    using assms by (simp add: redis_parser_forward_def redis_parse_lf_def crlf_def Let_def nth_append)
  ultimately show ?thesis by (simp add: loop_finish)
qed

section \<open>Replies in the heap\<close>

text \<open>The cells of a reply and what they hold; \<open>S\<close> is the set of the cells.\<close>

inductive represents :: "reply_heap \<Rightarrow> string \<Rightarrow> addr set \<Rightarrow> addr \<Rightarrow> reply \<Rightarrow> bool"
  and represents_all :: "reply_heap \<Rightarrow> string \<Rightarrow> addr set \<Rightarrow> addr list \<Rightarrow> reply list \<Rightarrow> bool"
  for h buf where
  "h a = Some r \<Longrightarrow> rr_type r = REDIS_REPLY_TYPE_STATUS \<Longrightarrow> rr_len r = length s \<Longrightarrow> take (length s) (drop (rr_str r) buf) = s \<Longrightarrow>
   represents h buf {a} a (Status s)"
| "h a = Some r \<Longrightarrow> rr_type r = REDIS_REPLY_TYPE_ERROR \<Longrightarrow> rr_len r = length s \<Longrightarrow> take (length s) (drop (rr_str r) buf) = s \<Longrightarrow>
   represents h buf {a} a (Failure s)"
| "h a = Some r \<Longrightarrow> rr_type r = REDIS_REPLY_TYPE_STRING \<Longrightarrow> rr_len r = length s \<Longrightarrow> take (length s) (drop (rr_str r) buf) = s \<Longrightarrow>
   represents h buf {a} a (Bulk s)"
| "h a = Some r \<Longrightarrow> rr_type r = REDIS_REPLY_TYPE_INTEGER \<Longrightarrow> rr_integer r = n \<Longrightarrow> represents h buf {a} a (Number n)"
| "h a = Some r \<Longrightarrow> rr_type r = REDIS_REPLY_TYPE_NIL \<Longrightarrow> represents h buf {a} a Nothing"
| "h a = Some r \<Longrightarrow> rr_type r = REDIS_REPLY_TYPE_ARRAY \<Longrightarrow> represents_all h buf S (rr_element r) vs \<Longrightarrow>
   represents h buf (insert a S) a (Multi vs)"
| "represents_all h buf {} [] []"
| "represents h buf S a v \<Longrightarrow> represents_all h buf T as vs \<Longrightarrow> represents_all h buf (S \<union> T) (a # as) (v # vs)"

lemma represents_frame:
  "represents h buf S a v \<Longrightarrow> (\<And>x. x \<in> S \<Longrightarrow> h' x = h x) \<Longrightarrow> represents h' buf S a v"
  "represents_all h buf T as vs \<Longrightarrow> (\<And>x. x \<in> T \<Longrightarrow> h' x = h x) \<Longrightarrow> represents_all h' buf T as vs"
  by (induction rule: represents_represents_all.inducts) (auto intro: represents_represents_all.intros)

text \<open>A parser in front of a reply: its cell and those waiting in the list are fresh.\<close>

definition ready :: "redis_parser \<Rightarrow> bool" where
  "ready p \<longleftrightarrow> rp_nleft p = int (Suc (length (rp_read_list p))) \<and> distinct (rp_cur p # rp_read_list p) \<and>
     (\<forall>a \<in> set (rp_cur p # rp_read_list p). a < rp_next p \<and> rp_heap p a = Some redis_reply_init)"

definition parsed :: "redis_parser \<Rightarrow> reply \<Rightarrow> redis_parser \<Rightarrow> bool" where
  "parsed p v q \<longleftrightarrow> redis_parse_loop always p = after q \<and> rp_msgidx q = rp_msgidx p + length (wire v) \<and> rp_msgbuf q = rp_msgbuf p \<and>
     rp_nleft q = rp_nleft p \<and> rp_read_list q = rp_read_list p \<and> rp_next p \<le> rp_next q \<and>
     (\<exists>S. represents (rp_heap q) (rp_msgbuf q) S (rp_cur p) v \<and> S \<subseteq> insert (rp_cur p) {rp_next p..<rp_next q}) \<and>
     (\<forall>x. x \<notin> insert (rp_cur p) {rp_next p..<rp_next q} \<longrightarrow> rp_heap q x = rp_heap p x)"

lemma leaf_parsed:
  assumes "ready p" "redis_parse_loop always p = after q" "rp_msgidx q = rp_msgidx p + length (wire v)" "rp_msgbuf q = rp_msgbuf p"
    "rp_nleft q = rp_nleft p" "rp_read_list q = rp_read_list p" "rp_next q = rp_next p" "rp_heap q = (rp_heap p)(rp_cur p \<mapsto> r)"
    "represents (rp_heap q) (rp_msgbuf q) {rp_cur p} (rp_cur p) v"
  shows "parsed p v q"
  using assms unfolding parsed_def by auto

lemma set_cur_ready: "ready p \<Longrightarrow> rp_heap q = rp_heap p \<Longrightarrow> rp_cur q = rp_cur p \<Longrightarrow>
  set_cur f q = Some (q\<lparr>rp_heap := (rp_heap p)(rp_cur p \<mapsto> f redis_reply_init)\<rparr>)"
  by (simp add: set_cur_def ready_def)

lemma parse_line_reply:
  assumes "ready p" "rp_status p = REDIS_GET_CMD" "rp_msgbuf p = pre @ c # s @ crlf @ post" "rp_msgidx p = length pre" "no_crlf s"
    "(c, v) \<in> {(CHR ''+'', Status s), (CHR ''-'', Failure s)}"
  shows "\<exists>q. parsed p v q"
proof -
  let ?p = "p\<lparr>rp_msgidx := length pre + 1, rp_cmd := c, rp_status := REDIS_UNTIL_CRLF, rp_findidx := length pre + 1 + length s\<rparr>"
  obtain p1 where p1: "redis_parser_forward always p = Some (0, p1)" "rp_status p1 = REDIS_UNTIL_CRLF"
    "redis_parser_forward always p1 = redis_parse_line always ?p" using run_line [OF assms(2-5)] assms(6) by auto
  let ?f = "if c = CHR ''+'' then redis_reply_set_status (length pre + 1) (length s) else redis_reply_set_error (length pre + 1) (length s)"
  let ?q = "(past_line ?p)\<lparr>rp_heap := (rp_heap p)(rp_cur p \<mapsto> ?f redis_reply_init)\<rparr>"
  have "redis_parse_line always ?p = Some (1, ?q)"
    using assms(6) set_cur_ready [OF assms(1), of "past_line ?p" ?f] by (auto simp: parse_line_eqs(1,2) past_line_def)
  then have l: "redis_parse_loop always p = after ?q" using p1 by (simp add: loop_continue loop_finish)
  have t: "take (length s) (drop (length pre + 1) (rp_msgbuf p)) = s" using assms(3) by simp
  have "parsed p v ?q"
    by (rule leaf_parsed [OF assms(1) l, where r = "?f redis_reply_init"]) (use assms t in \<open>auto simp: past_line_def crlf_def redis_reply_set_status_def redis_reply_set_error_def
        intro!: represents_represents_all.intros(1,2)\<close>)
  then show ?thesis by blast
qed

lemma parse_number:
  assumes "ready p" "rp_status p = REDIS_GET_CMD" "rp_msgbuf p = pre @ wire (Number n) @ post" "rp_msgidx p = length pre" "reply_ok (Number n)"
  shows "\<exists>q. parsed p (Number n) q"
proof -
  let ?s = "show_int n"
  let ?p = "p\<lparr>rp_msgidx := length pre + 1, rp_cmd := CHR '':'', rp_status := REDIS_UNTIL_CRLF, rp_findidx := length pre + 1 + length ?s\<rparr>"
  have b: "rp_msgbuf p = pre @ CHR '':'' # ?s @ crlf @ post" using assms(3) by simp
  obtain p1 where p1: "redis_parser_forward always p = Some (0, p1)" "rp_status p1 = REDIS_UNTIL_CRLF"
    "redis_parser_forward always p1 = redis_parse_line always ?p"
    using run_line [OF assms(2) b assms(4) no_crlf_if [OF show_int_no_cr(1)]] by auto
  let ?q = "(past_line ?p)\<lparr>rp_heap := (rp_heap p)(rp_cur p \<mapsto> redis_reply_set_integer n redis_reply_init)\<rparr>"
  have t: "line_text ?p = ?s" using b by (simp add: line_text_def)
  have "redis_parse_line always ?p = Some (1, ?q)"
    using length_show_int [of n] assms(5) atoll_show [of n] t set_cur_ready [OF assms(1), of "past_line ?p" "redis_reply_set_integer n"]
    by (simp add: parse_line_eqs(3) past_line_def)
  then have l: "redis_parse_loop always p = after ?q" using p1 by (simp add: loop_continue loop_finish)
  have "parsed p (Number n) ?q"
    by (rule leaf_parsed [OF assms(1) l, where r = "redis_reply_set_integer n redis_reply_init"]) (use assms in \<open>auto simp: past_line_def crlf_def redis_reply_set_integer_def
        intro!: represents_represents_all.intros(4)\<close>)
  then show ?thesis by blast
qed

text \<open>Both kinds of lines with a count.\<close>

lemma run_count:
  assumes "rp_status p = REDIS_GET_CMD" "rp_msgbuf p = pre @ c # show_int n @ crlf @ post" "rp_msgidx p = length pre"
    "c \<in> {CHR ''$'', CHR ''*''}" "- (2 ^ 31) \<le> n" "n < 2 ^ 31"
  shows "\<exists>p1 p2. redis_parser_forward always p = Some (0, p1) \<and> rp_status p1 = REDIS_UNTIL_CRLF \<and>
    redis_parser_forward always p1 = (if c = CHR ''$'' then parse_bulk n (length pre + 1) p2 else parse_multi always n p2) \<and>
    p2 = p\<lparr>rp_msgidx := length pre + length (show_int n) + 3, rp_cmd := c, rp_status := REDIS_UNTIL_CRLF, rp_findidx := length pre + 1 + length (show_int n)\<rparr>"
proof -
  let ?s = "show_int n"
  let ?p = "p\<lparr>rp_msgidx := length pre + 1, rp_cmd := c, rp_status := REDIS_UNTIL_CRLF, rp_findidx := length pre + 1 + length ?s\<rparr>"
  obtain p1 where p1: "redis_parser_forward always p = Some (0, p1)" "rp_status p1 = REDIS_UNTIL_CRLF"
    "redis_parser_forward always p1 = redis_parse_line always ?p"
    using run_line [OF assms(1-3) no_crlf_if [OF show_int_no_cr(1)]] assms(4) by auto
  have a: "atoi (drop (rp_msgidx ?p) (rp_msgbuf ?p)) = Some n" using atoi_show [OF assms(5,6), of post] assms(2) by simp
  have "past_line ?p = p\<lparr>rp_msgidx := length pre + length ?s + 3, rp_cmd := c, rp_status := REDIS_UNTIL_CRLF, rp_findidx := length pre + 1 + length ?s\<rparr>"
    by (simp add: past_line_def)
  then have "redis_parse_line always ?p = (if c = CHR ''$'' then parse_bulk n (length pre + 1)
      (p\<lparr>rp_msgidx := length pre + length ?s + 3, rp_cmd := c, rp_status := REDIS_UNTIL_CRLF, rp_findidx := length pre + 1 + length ?s\<rparr>)
      else parse_multi always n
      (p\<lparr>rp_msgidx := length pre + length ?s + 3, rp_cmd := c, rp_status := REDIS_UNTIL_CRLF, rp_findidx := length pre + 1 + length ?s\<rparr>))"
    using a assms(4) by (auto simp: parse_line_eqs(4,5))
  then show ?thesis using p1 by simp
qed

lemma parse_nothing:
  assumes "ready p" "rp_status p = REDIS_GET_CMD" "rp_msgbuf p = pre @ wire Nothing @ post" "rp_msgidx p = length pre"
  shows "\<exists>q. parsed p Nothing q"
proof -
  have b: "rp_msgbuf p = pre @ CHR ''$'' # show_int (- 1) @ crlf @ post" using assms(3) by simp
  obtain p1 p2 where p1: "redis_parser_forward always p = Some (0, p1)" "rp_status p1 = REDIS_UNTIL_CRLF"
    "redis_parser_forward always p1 = parse_bulk (- 1) (length pre + 1) p2"
    and p2: "p2 = p\<lparr>rp_msgidx := length pre + length (show_int (- 1)) + 3, rp_cmd := CHR ''$'', rp_status := REDIS_UNTIL_CRLF,
      rp_findidx := length pre + 1 + length (show_int (- 1))\<rparr>"
    using run_count [OF assms(2) b assms(4)] by auto
  let ?q = "p2\<lparr>rp_heap := (rp_heap p)(rp_cur p \<mapsto> redis_reply_set_null redis_reply_init)\<rparr>"
  have "parse_bulk (- 1) (length pre + 1) p2 = Some (1, ?q)"
    using set_cur_ready [OF assms(1), of p2 redis_reply_set_null] p2 by (simp add: parse_bulk_def)
  then have l: "redis_parse_loop always p = after ?q" using p1 by (simp add: loop_continue loop_finish)
  have "parsed p Nothing ?q"
    by (rule leaf_parsed [OF assms(1) l, where r = "redis_reply_set_null redis_reply_init"])
      (use assms p2 in \<open>auto simp: crlf_def redis_reply_set_null_def intro!: represents_represents_all.intros(5)\<close>)
  then show ?thesis by blast
qed

lemma parse_bulk_reply:
  assumes "ready p" "rp_status p = REDIS_GET_CMD" "rp_msgbuf p = pre @ wire (Bulk s) @ post" "rp_msgidx p = length pre" "length s < 2 ^ 31"
  shows "\<exists>q. parsed p (Bulk s) q"
proof -
  let ?n = "int (length s)"
  let ?h = "show_int ?n"
  let ?pre = "pre @ CHR ''$'' # ?h @ crlf"
  have b: "rp_msgbuf p = pre @ CHR ''$'' # ?h @ crlf @ (s @ crlf @ post)" using assms(3) by simp
  obtain p1 p2 where p1: "redis_parser_forward always p = Some (0, p1)" "rp_status p1 = REDIS_UNTIL_CRLF"
    "redis_parser_forward always p1 = parse_bulk ?n (length pre + 1) p2"
    and p2: "p2 = p\<lparr>rp_msgidx := length pre + length ?h + 3, rp_cmd := CHR ''$'', rp_status := REDIS_UNTIL_CRLF,
      rp_findidx := length pre + 1 + length ?h\<rparr>"
    using run_count [OF assms(2) b assms(4)] assms(5) by auto
  define off where "off = (if s = [] then length pre + 1 else length pre + length ?h + 3)"
  let ?r = "redis_reply_set_string off (length s) redis_reply_init"
  let ?p3 = "p2\<lparr>rp_heap := (rp_heap p)(rp_cur p \<mapsto> ?r), rp_msgidx := length pre + length ?h + 3 + length s, rp_status := REDIS_GET_CR,
    rp_nchar := (if s = [] then rp_nchar p else length s)\<rparr>"
  have lp: "length ?pre = length pre + length ?h + 3" by (simp add: crlf_def)
  have "redis_parse_loop always p = redis_parse_loop always ?p3"
  proof (cases "s = []")
    case True
    then have "parse_bulk ?n (length pre + 1) p2 = Some (0, ?p3)"
      using set_cur_ready [OF assms(1), of p2 "redis_reply_set_string (length pre + 1) 0"] p2 lp by (simp add: parse_bulk_def off_def)
    then show ?thesis using p1 by (simp add: loop_continue)
  next
    case False
    let ?q = "p2\<lparr>rp_nchar := length s, rp_status := REDIS_GET_NCHAR\<rparr>"
    have "parse_bulk ?n (length pre + 1) p2 = Some (0, ?q)" using False by (simp add: parse_bulk_def)
    then have l: "redis_parse_loop always p = redis_parse_loop always ?q" using p1 by (simp add: loop_continue)
    have "redis_parser_forward always ?q = Some (0, ?p3)"
      using False set_cur_ready [OF assms(1), of ?q "redis_reply_set_string (length pre + length ?h + 3) (length s)"] p2 lp b
      by (simp add: redis_parser_forward_def redis_parse_nchar_def off_def)
    then show ?thesis using l by (simp add: loop_continue)
  qed
  moreover have "redis_parse_loop always ?p3 = after (?p3\<lparr>rp_msgidx := length (?pre @ s) + 2, rp_status := REDIS_GET_LF\<rparr>)"
    by (rule run_crlf [where post = post]) (simp_all add: p2 b crlf_def)
  ultimately have l: "redis_parse_loop always p = after (?p3\<lparr>rp_msgidx := length (?pre @ s) + 2, rp_status := REDIS_GET_LF\<rparr>)" by simp
  have t: "take (length s) (drop off (rp_msgbuf p)) = s"
  proof (cases "s = []")
    case False
    have "rp_msgbuf p = ?pre @ s @ crlf @ post" using b by simp
    then have "take (length s) (drop (length ?pre) (rp_msgbuf p)) = s" by (metis append_eq_conv_conj)
    then show ?thesis using False lp by (simp only: off_def if_False)
  qed simp
  have "parsed p (Bulk s) (?p3\<lparr>rp_msgidx := length (?pre @ s) + 2, rp_status := REDIS_GET_LF\<rparr>)"
    by (rule leaf_parsed [OF assms(1) l, where r = ?r])
      (use assms(4) p2 t in \<open>auto simp: crlf_def redis_reply_set_string_def intro!: represents_represents_all.intros(3)\<close>)
  then show ?thesis by blast
qed

section \<open>Arrays\<close>

lemma reply_size_pos: "1 \<le> reply_size v"
  by (cases v) simp_all

lemma size_sum: "v \<in> set vs \<Longrightarrow> reply_size v + (length vs - 1) \<le> sum_list (map reply_size vs)"
proof (induction vs)
  case (Cons w vs)
  have "length vs \<le> sum_list (map reply_size vs)"
  proof (induction vs)
    case (Cons a vs)
    then show ?case using reply_size_pos [of a] by simp
  qed simp
  then show ?case using Cons reply_size_pos [of w] by (cases vs) (auto split: if_splits)
qed simp

lemma set_array_fresh:
  assumes "rp_heap q = h" "h (rp_cur q) = Some redis_reply_init" "rp_cur q < rp_next q"
  shows "redis_reply_set_array always n q = Some (True, q\<lparr>rp_next := rp_next q + n,
    rp_heap := (\<lambda>x. if x \<in> {rp_next q..<rp_next q + n} then Some redis_reply_init else h x)
      (rp_cur q \<mapsto> redis_reply_init\<lparr>rr_element := [rp_next q..<rp_next q + n], rr_type := REDIS_REPLY_TYPE_ARRAY\<rparr>)\<rparr>)"
proof -
  let ?h = "\<lambda>x. if x \<in> {rp_next q..<rp_next q + n} then Some redis_reply_init else h x"
  have "redis_reply_deinit (rp_cur q) ?h = Some ?h"
    using assms by (auto simp: redis_reply_deinit_def redis_reply_init_def free_replies.simps)
  then show ?thesis using assms by (simp add: redis_reply_set_array_def create_array_def cong: if_cong)
qed

lemma array_line:
  assumes "rp_heap q (rp_cur q) = Some redis_reply_init" "rp_cur q < rp_next q" "0 < rp_nleft q" "rp_nleft q + int n < 2 ^ 31"
  shows "parse_multi always (int n) q = Some (if n = 0 then 1 else 0,
    q\<lparr>rp_nleft := rp_nleft q + int n - (if n = 0 then 0 else 1), rp_next := rp_next q + n,
      rp_heap := (\<lambda>x. if x \<in> {rp_next q..<rp_next q + n} then Some redis_reply_init else rp_heap q x)
        (rp_cur q \<mapsto> redis_reply_init\<lparr>rr_element := [rp_next q..<rp_next q + n], rr_type := REDIS_REPLY_TYPE_ARRAY\<rparr>),
      rp_read_list := (if n = 0 then rp_read_list q else [Suc (rp_next q)..<rp_next q + n] @ rp_read_list q),
      rp_cur := (if n = 0 then rp_cur q else rp_next q), rp_status := (if n = 0 then rp_status q else REDIS_GET_CMD)\<rparr>)"
proof -
  have r: "in_range 32 (rp_nleft q + int n) = Some (rp_nleft q + int n)" using assms(3,4) by (simp add: in_range_def)
  have t: "0 < n \<Longrightarrow> tl [rp_next q..<rp_next q + n] = [Suc (rp_next q)..<rp_next q + n]" by (simp add: tl_upt)
  have f: "foldr (#) xs ys = xs @ ys" for xs ys :: "addr list" by (induction xs) simp_all
  show ?thesis using r t set_array_fresh [of "q\<lparr>rp_nleft := rp_nleft q + int n\<rparr>" "rp_heap q" n] assms(1,2)
    by (cases "n = 0") (simp_all add: parse_multi_def parse_array_def push_records_def Let_def rd_def f)
qed

text \<open>One reply at a time.\<close>

definition parses :: "reply \<Rightarrow> bool" where
  "parses v \<longleftrightarrow> (\<forall>p pre post. ready p \<longrightarrow> rp_status p = REDIS_GET_CMD \<longrightarrow> rp_msgbuf p = pre @ wire v @ post \<longrightarrow>
     rp_msgidx p = length pre \<longrightarrow> rp_nleft p + int (reply_size v) \<le> 2 ^ 31 \<longrightarrow> (\<exists>q. parsed p v q))"

definition parsed_all :: "redis_parser \<Rightarrow> addr list \<Rightarrow> addr list \<Rightarrow> reply list \<Rightarrow> redis_parser \<Rightarrow> bool" where
  "parsed_all p es L vs q \<longleftrightarrow> redis_parse_loop always p = after q \<and> rp_msgidx q = rp_msgidx p + length (concat (map wire vs)) \<and>
     rp_msgbuf q = rp_msgbuf p \<and> rp_nleft q = int (Suc (length L)) \<and> rp_read_list q = L \<and> rp_next p \<le> rp_next q \<and>
     (\<exists>S. represents_all (rp_heap q) (rp_msgbuf q) S es vs \<and> S \<subseteq> set es \<union> {rp_next p..<rp_next q}) \<and>
     (\<forall>x. x \<notin> set es \<union> {rp_next p..<rp_next q} \<longrightarrow> rp_heap q x = rp_heap p x)"

lemma parsed_next:
  assumes "ready p" "parsed p v q" "rp_read_list p = e # es"
  shows "ready (finish_one q)" "redis_parse_loop always p = redis_parse_loop always (finish_one q)" "rp_status (finish_one q) = REDIS_GET_CMD"
    "rp_cur (finish_one q) = e" "rp_read_list (finish_one q) = es" "rp_heap (finish_one q) = rp_heap q" "rp_next (finish_one q) = rp_next q"
    "rp_msgidx (finish_one q) = rp_msgidx q" "rp_msgbuf (finish_one q) = rp_msgbuf p" "rp_nleft (finish_one q) = rp_nleft p - 1"
proof -
  have q: "rp_read_list q = e # es" "rp_nleft q = rp_nleft p" "rp_msgbuf q = rp_msgbuf p" "rp_next p \<le> rp_next q"
    "\<And>x. x \<notin> insert (rp_cur p) {rp_next p..<rp_next q} \<Longrightarrow> rp_heap q x = rp_heap p x" "redis_parse_loop always p = after q"
    using assms(2,3) by (auto simp: parsed_def)
  have p: "rp_nleft p = int (Suc (Suc (length es)))" "distinct (rp_cur p # e # es)" "\<forall>a \<in> set (rp_cur p # e # es). a < rp_next p \<and> rp_heap p a = Some redis_reply_init"
    using assms(1,3) by (auto simp: ready_def)
  show f: "rp_status (finish_one q) = REDIS_GET_CMD" "rp_cur (finish_one q) = e" "rp_read_list (finish_one q) = es"
    "rp_heap (finish_one q) = rp_heap q" "rp_next (finish_one q) = rp_next q" "rp_msgidx (finish_one q) = rp_msgidx q"
    "rp_msgbuf (finish_one q) = rp_msgbuf p" "rp_nleft (finish_one q) = rp_nleft p - 1"
    using q p by (simp_all add: finish_one_def Let_def)
  show "redis_parse_loop always p = redis_parse_loop always (finish_one q)" using q(6) f(1) by (simp add: after_def)
  have "rp_heap q a = Some redis_reply_init \<and> a < rp_next q" if "a \<in> set (e # es)" for a
    using p(2,3) q(4) q(5) [of a] that by fastforce
  then show "ready (finish_one q)" using f p by (auto simp: ready_def)
qed

lemma parse_children:
  assumes "vs \<noteq> []" "\<And>v. v \<in> set vs \<Longrightarrow> parses v" "ready p" "rp_status p = REDIS_GET_CMD" "rp_cur p # rp_read_list p = es @ L" "length es = length vs"
    "rp_msgbuf p = pre @ concat (map wire vs) @ post" "rp_msgidx p = length pre" "int (length L) + 1 + int (sum_list (map reply_size vs)) \<le> 2 ^ 31"
  shows "\<exists>q. parsed_all p es L vs q"
  using assms
proof (induction vs arbitrary: p es pre)
  case (Cons v vs)
  obtain e es' where es: "es = e # es'" "rp_cur p = e" "rp_read_list p = es' @ L" "length es' = length vs" using Cons.prems(5,6) by (cases es) auto
  have nl: "rp_nleft p = int (length vs + length L + 1)" using Cons.prems(3) es by (simp add: ready_def)
  have "length vs \<le> sum_list (map reply_size vs)" using size_sum [of v "v # vs"] by simp
  then have "rp_nleft p + int (reply_size v) \<le> 2 ^ 31" using nl Cons.prems(9) by simp
  moreover have b: "rp_msgbuf p = pre @ wire v @ concat (map wire vs) @ post" using Cons.prems(7) by simp
  ultimately obtain q where q: "parsed p v q"
    using Cons.prems(2) [of v] Cons.prems(3,4,8) unfolding parses_def by (metis list.set_intros(1))
  then obtain S where S: "represents (rp_heap q) (rp_msgbuf q) S e v" "S \<subseteq> insert e {rp_next p..<rp_next q}"
    and fr: "\<And>x. x \<notin> insert e {rp_next p..<rp_next q} \<Longrightarrow> rp_heap q x = rp_heap p x"
    and qf: "redis_parse_loop always p = after q" "rp_msgidx q = rp_msgidx p + length (wire v)" "rp_msgbuf q = rp_msgbuf p"
      "rp_nleft q = rp_nleft p" "rp_read_list q = rp_read_list p" "rp_next p \<le> rp_next q"
    using es by (auto simp: parsed_def)
  show ?case
  proof (cases vs)
    case Nil
    have "represents_all (rp_heap q) (rp_msgbuf q) (S \<union> {}) [e] [v]" by (intro represents_represents_all.intros(7,8) S(1))
    then have "parsed_all p es L (v # vs) q" using Nil es S(2) fr qf nl unfolding parsed_all_def by (intro conjI exI [of _ S]) auto
    then show ?thesis by blast
  next
    case (Cons w ws)
    then obtain e2 es2 where e2: "es' = e2 # es2" using es(4) by (cases es') auto
    note N = parsed_next [OF Cons.prems(3) q, of e2 "es2 @ L"]
    have rl: "rp_read_list p = e2 # es2 @ L" using es e2 by simp
    have "\<exists>q2. parsed_all (finish_one q) es' L vs q2"
    proof (rule Cons.IH [where pre = "pre @ wire v"])
      show "vs \<noteq> []" using Cons by simp
    qed (use N [OF rl] Cons.prems es e2 qf in auto)
    then obtain q2 where q2: "parsed_all (finish_one q) es' L vs q2" ..
    then obtain T where T: "represents_all (rp_heap q2) (rp_msgbuf q2) T es' vs" "T \<subseteq> set es' \<union> {rp_next q..<rp_next q2}"
      and fr2: "\<And>x. x \<notin> set es' \<union> {rp_next q..<rp_next q2} \<Longrightarrow> rp_heap q2 x = rp_heap q x" and n2: "rp_next q \<le> rp_next q2" "rp_msgbuf q2 = rp_msgbuf p"
      using N [OF rl] by (auto simp: parsed_all_def)
    have lt: "\<forall>a \<in> set (e # es'). a < rp_next p" "e \<notin> set es'" using Cons.prems(3) es by (auto simp: ready_def)
    have "represents (rp_heap q2) (rp_msgbuf q2) S e v"
    proof -
      have "rp_heap q2 x = rp_heap q x" if "x \<in> S" for x using that S(2) lt qf(6) by (intro fr2) fastforce
      then show ?thesis using represents_frame(1) [OF S(1)] n2 qf(3) by simp
    qed
    then have "represents_all (rp_heap q2) (rp_msgbuf q2) (S \<union> T) es (v # vs)" using T(1) es(1) by (auto intro: represents_represents_all.intros)
    moreover have "S \<union> T \<subseteq> set es \<union> {rp_next p..<rp_next q2}" using S(2) T(2) es(1) qf(6) n2(1) by fastforce
    moreover have "rp_heap q2 x = rp_heap p x" if "x \<notin> set es \<union> {rp_next p..<rp_next q2}" for x
      using that es(1) qf(6) n2(1) fr [of x] fr2 [of x] by fastforce
    ultimately have "parsed_all p es L (v # vs) q2" using q2 N [OF rl] qf n2 unfolding parsed_all_def by (intro conjI exI [of _ "S \<union> T"]) auto
    then show ?thesis by blast
  qed
qed simp

lemma parse_multi_reply:
  assumes "\<And>v. v \<in> set vs \<Longrightarrow> parses v" "ready p" "rp_status p = REDIS_GET_CMD" "rp_msgbuf p = pre @ wire (Multi vs) @ post" "rp_msgidx p = length pre"
    "rp_nleft p + int (reply_size (Multi vs)) \<le> 2 ^ 31"
  shows "\<exists>q. parsed p (Multi vs) q"
proof -
  let ?n = "length vs" and ?h = "show_int (int (length vs))"
  have b: "rp_msgbuf p = pre @ CHR ''*'' # ?h @ crlf @ (concat (map wire vs) @ post)" using assms(4) by simp
  have r: "rp_heap p (rp_cur p) = Some redis_reply_init" "rp_cur p < rp_next p" "rp_nleft p = int (Suc (length (rp_read_list p)))"
    "distinct (rp_cur p # rp_read_list p)" "\<And>a. a \<in> set (rp_read_list p) \<Longrightarrow> a < rp_next p \<and> rp_heap p a = Some redis_reply_init"
    using assms(2) by (auto simp: ready_def)
  have sz: "?n \<le> sum_list (map reply_size vs)" using size_sum [of Nothing "Nothing # vs"] by simp
  then have n: "rp_nleft p + int ?n < 2 ^ 31" "int ?n < 2 ^ 31" using assms(6) r(3) by simp_all
  obtain p1 p2 where p1: "redis_parser_forward always p = Some (0, p1)" "rp_status p1 = REDIS_UNTIL_CRLF"
    "redis_parser_forward always p1 = parse_multi always (int ?n) p2"
    and p2: "p2 = p\<lparr>rp_msgidx := length pre + length ?h + 3, rp_cmd := CHR ''*'', rp_status := REDIS_UNTIL_CRLF,
      rp_findidx := length pre + 1 + length ?h\<rparr>"
    using run_count [OF assms(3) b assms(5)] n(2) by auto
  have f2: "rp_heap p2 = rp_heap p" "rp_cur p2 = rp_cur p" "rp_next p2 = rp_next p" "rp_nleft p2 = rp_nleft p" "rp_read_list p2 = rp_read_list p"
    "rp_msgbuf p2 = rp_msgbuf p" by (simp_all add: p2)
  let ?c = "redis_reply_init\<lparr>rr_element := [rp_next p..<rp_next p + ?n], rr_type := REDIS_REPLY_TYPE_ARRAY\<rparr>"
  let ?hp = "(\<lambda>x. if x \<in> {rp_next p..<rp_next p + ?n} then Some redis_reply_init else rp_heap p x)(rp_cur p \<mapsto> ?c)"
  have "\<exists>p3. parse_multi always (int ?n) p2 = Some (if vs = [] then 1 else 0, p3) \<and> rp_heap p3 = ?hp \<and> rp_next p3 = rp_next p + ?n \<and>
      rp_msgbuf p3 = rp_msgbuf p \<and> rp_msgidx p3 = length pre + length ?h + 3 \<and>
      (if vs = [] then rp_nleft p3 = rp_nleft p \<and> rp_read_list p3 = rp_read_list p
       else rp_nleft p3 = rp_nleft p + int ?n - 1 \<and> rp_cur p3 # rp_read_list p3 = [rp_next p..<rp_next p + ?n] @ rp_read_list p \<and> rp_status p3 = REDIS_GET_CMD)"
    using array_line [of p2 ?n, unfolded f2, OF r(1,2) _ n(1)] r(3) p2 by (auto simp: upt_conv_Cons)
  then obtain p3 where p3: "parse_multi always (int ?n) p2 = Some (if vs = [] then 1 else 0, p3)" "rp_heap p3 = ?hp" "rp_next p3 = rp_next p + ?n"
    "rp_msgbuf p3 = rp_msgbuf p" "rp_msgidx p3 = length pre + length ?h + 3"
    "vs = [] \<Longrightarrow> rp_nleft p3 = rp_nleft p \<and> rp_read_list p3 = rp_read_list p"
    "vs \<noteq> [] \<Longrightarrow> rp_nleft p3 = rp_nleft p + int ?n - 1 \<and> rp_cur p3 # rp_read_list p3 = [rp_next p..<rp_next p + ?n] @ rp_read_list p \<and> rp_status p3 = REDIS_GET_CMD"
    by (auto split: if_splits)
  show ?thesis
  proof (cases "vs = []")
    case True
    then have l: "redis_parse_loop always p = after p3" using p1 p3(1) by (simp add: loop_continue loop_finish)
    have "represents (rp_heap p3) (rp_msgbuf p3) (insert (rp_cur p) {}) (rp_cur p) (Multi [])"
      using True p3(2) by (intro represents_represents_all.intros(6) [of _ _ ?c]) (auto intro: represents_represents_all.intros(7))
    then have "parsed p (Multi vs) p3"
      by (intro leaf_parsed [OF assms(2) l, where r = ?c]) (use True p3 assms(5) in \<open>auto simp: crlf_def\<close>)
    then show ?thesis by blast
  next
    case False
    let ?es = "[rp_next p..<rp_next p + ?n]"
    have l: "redis_parse_loop always p = redis_parse_loop always p3" using p1 p3(1,7) False by (simp add: loop_continue)
    have c3: "rp_cur p3 # rp_read_list p3 = ?es @ rp_read_list p" using p3(7) False by simp
    have ln: "Suc (length (rp_read_list p3)) = ?n + length (rp_read_list p)" using arg_cong [OF c3, of length] by simp
    have ini: "\<forall>a \<in> set (?es @ rp_read_list p). a < rp_next p3 \<and> rp_heap p3 a = Some redis_reply_init"
    proof
      fix a assume "a \<in> set (?es @ rp_read_list p)"
      then consider "rp_next p \<le> a" "a < rp_next p + ?n" | "a \<in> set (rp_read_list p)" by auto
      then show "a < rp_next p3 \<and> rp_heap p3 a = Some redis_reply_init"
        by cases (use p3(2,3) r(2,4) r(5) [of a] in auto)
    qed
    have "distinct (?es @ rp_read_list p)" using r(4,5) by fastforce
    moreover have "rp_nleft p3 = int (Suc (length (rp_read_list p3)))" unfolding ln using p3(7) False r(3) by simp
    ultimately have "ready p3" unfolding ready_def c3 using ini by blast
    then have "\<exists>q. parsed_all p3 ?es (rp_read_list p) vs q"
      by (intro parse_children [where pre = "pre @ CHR ''*'' # ?h @ crlf" and post = post] assms(1))
        (use False c3 p3 b assms(6) r(3) in \<open>auto simp: crlf_def\<close>)
    then obtain q S where q: "redis_parse_loop always p3 = after q" "rp_msgidx q = rp_msgidx p3 + length (concat (map wire vs))" "rp_msgbuf q = rp_msgbuf p3"
      "rp_nleft q = rp_nleft p" "rp_read_list q = rp_read_list p" "rp_next p3 \<le> rp_next q"
      "represents_all (rp_heap q) (rp_msgbuf q) S ?es vs" "S \<subseteq> set ?es \<union> {rp_next p3..<rp_next q}"
      "\<And>x. x \<notin> set ?es \<union> {rp_next p3..<rp_next q} \<Longrightarrow> rp_heap q x = rp_heap p3 x"
      using r(3) by (auto simp: parsed_all_def)
    have S: "S \<subseteq> {rp_next p..<rp_next q}" using q(6,8) p3(3) by fastforce
    have fr: "rp_heap q x = ?hp x" if "x \<notin> {rp_next p..<rp_next q}" for x using that q(6) q(9) [of x] p3(2,3) by fastforce
    have "represents (rp_heap q) (rp_msgbuf q) (insert (rp_cur p) S) (rp_cur p) (Multi vs)"
      by (rule represents_represents_all.intros(6) [of _ _ ?c]) (use fr [of "rp_cur p"] r(2) q(7) in auto)
    moreover have "rp_heap q x = rp_heap p x" if "x \<notin> insert (rp_cur p) {rp_next p..<rp_next q}" for x
      using that fr [of x] q(6) p3(3) by auto
    moreover have "rp_msgidx q = rp_msgidx p + length (wire (Multi vs))" using q(2) p3(5) assms(5) by (simp add: crlf_def)
    ultimately have "parsed p (Multi vs) q" using l q p3 S unfolding parsed_def by (intro conjI exI [of _ "insert (rp_cur p) S"]) auto
    then show ?thesis by blast
  qed
qed

lemma parse_value: "reply_ok v \<Longrightarrow> parses v"
proof (induction v)
  case (Status s)
  then show ?case unfolding parses_def by (auto intro: parse_line_reply [where c = "CHR ''+''" and s = s])
next
  case (Failure s)
  then show ?case unfolding parses_def by (auto intro: parse_line_reply [where c = "CHR ''-''" and s = s])
next
  case (Number n)
  then show ?case unfolding parses_def using parse_number by blast
next
  case (Bulk s)
  then show ?case unfolding parses_def using parse_bulk_reply by auto
next
  case Nothing
  then show ?case unfolding parses_def using parse_nothing by blast
next
  case (Multi vs)
  then have "\<And>v. v \<in> set vs \<Longrightarrow> parses v" by simp
  then show ?case using parse_multi_reply [of vs] unfolding parses_def [of "Multi vs"] by blast
qed

lemma forward_two_status:
  assumes "redis_parser_forward mem p = Some (2, q)"
  shows "rp_status q = rp_status p"
proof (cases "rp_msgidx p < length (rp_msgbuf p) \<and> rp_status p = REDIS_UNTIL_CRLF")
  case True
  obtain f j where f: "find_crlf (rp_msgbuf p) (rp_findidx p) = (f, j)" by fastforce
  have "\<not> f"
  proof
    assume f
    then have "redis_parse_line mem (p\<lparr>rp_findidx := j\<rparr>) = Some (2, q)" using assms True f by (simp add: forward_until redis_parse_crlf_def)
    then show False using parse_line_fields by fastforce
  qed
  then show ?thesis using assms True f by (auto simp: forward_until redis_parse_crlf_def)
qed (use assms in \<open>cases "rp_status p"; auto simp: redis_parser_forward_def redis_parse_nchar_def redis_parse_cmd_def redis_parse_cr_def
  redis_parse_lf_def bind_eq_Some_conv Let_def split: if_splits\<close>)

lemma loop_not_end:
  assumes "redis_parse_loop mem0 p0 = Some y0"
  shows "rp_status p0 \<noteq> REDIS_PARSE_END \<longrightarrow> fst y0 = 0 \<longrightarrow> rp_status (snd y0) \<noteq> REDIS_PARSE_END"
  by (rule redis_parse_loop.raw_induct [where P = "\<lambda>mem p y. rp_status p \<noteq> REDIS_PARSE_END \<longrightarrow> fst y = 0 \<longrightarrow> rp_status (snd y) \<noteq> REDIS_PARSE_END",
      OF _ assms]) (auto simp: bind_eq_Some_conv Let_def dest: forward_two_status split: if_splits)

section \<open>The parser as a whole\<close>

text \<open>
  C18: Round trip: a parser that is given the wire format of a reply (lines without CRLF, numbers of 64 bits, strings and
  arrays of fewer than \<open>2 ^ 31\<close> bytes and replies), followed by anything, answers 1, has taken exactly the bytes of the reply, and its root
  reply represents the value: each type, number and string, and each array with its elements in order.
\<close>

theorem redis_roundtrip:
  assumes "reply_ok v" "reply_size v < 2 ^ 31"
  shows "\<exists>q S. redis_parser_append_message always (wire v @ extra) redis_parser_init = Some (1, length (wire v), q) \<and>
    represents (rp_heap q) (rp_msgbuf q) S 0 v \<and> rp_parse_succ q"
proof -
  let ?i = redis_parser_init
  obtain n where n: "redis_parser_append_message always (wire v @ extra) ?i =
      do { (ret, q) \<leftarrow> redis_parse_loop always (ext (wire v @ extra) n ?i); Some (ret, if ret = 1 then rp_msgidx q - length (rp_msgbuf ?i) else length (wire v @ extra), q) }"
    using append_loop [of ?i "wire v @ extra"] by (auto simp: redis_parser_init_def)
  let ?p = "ext (wire v @ extra) n ?i"
  have "ready ?p" by (simp add: ready_def redis_parser_init_def)
  moreover have b: "rp_msgbuf ?p = [] @ wire v @ extra" "rp_status ?p = REDIS_GET_CMD" "rp_msgidx ?p = length ([] :: string)" "rp_nleft ?p = 1"
    "rp_read_list ?p = []" "rp_cur ?p = 0" by (simp_all add: redis_parser_init_def)
  ultimately obtain q where q: "parsed ?p v q" using parse_value [OF assms(1)] assms(2) unfolding parses_def by fastforce
  have f: "rp_status (finish_one q) = REDIS_PARSE_END" "rp_heap (finish_one q) = rp_heap q" "rp_parse_succ (finish_one q)"
    using q b by (simp_all add: parsed_def finish_one_def Let_def)
  have "redis_parse_loop always ?p = Some (1, finish_one q)" using q f(1) by (simp add: parsed_def after_def)
  moreover have "rp_msgidx (finish_one q) = length (wire v)" using q b finish_one_fields(1) [of q] by (simp add: parsed_def)
  moreover have "rp_msgbuf ?i = []" by (simp add: redis_parser_init_def)
  moreover obtain S where "represents (rp_heap q) (rp_msgbuf q) S 0 v" using q b by (auto simp: parsed_def)
  ultimately show ?thesis using n f finish_one_fields(2) [of q] by auto
qed

theorem redis_roundtrip_witness:
  "\<exists>q S. redis_parser_append_message always (''*2'' @ crlf @ '':-7'' @ crlf @ ''$2'' @ crlf @ ''ab'' @ crlf @ ''+'') redis_parser_init =
     Some (1, 17, q) \<and> represents (rp_heap q) (rp_msgbuf q) S 0 (Multi [Number (- 7), Bulk ''ab'']) \<and> rp_parse_succ q"
proof -
  have s: "show_int 2 = ''2''" "show_int (- 7) = ''-7''" by code_simp+
  then have w: "wire (Multi [Number (- 7), Bulk ''ab'']) = ''*2'' @ crlf @ '':-7'' @ crlf @ ''$2'' @ crlf @ ''ab'' @ crlf" by simp
  have len: "length (wire (Multi [Number (- 7), Bulk ''ab''])) = 17" unfolding w by (simp add: crlf_def)
  have "reply_ok (Multi [Number (- 7), Bulk ''ab''])" "reply_size (Multi [Number (- 7), Bulk ''ab'']) < 2 ^ 31" by simp_all
  from redis_roundtrip [OF this, of "''+''"] show ?thesis unfolding len unfolding w append_assoc .
qed

text \<open>
  C31: Messages may come in any pieces: when the parser wants more after the first piece, the answer to the second piece, the
  bytes it takes and the state it leaves (but for the capacity of the buffer) are those of both pieces at once; an answer other than
  0 is final, more bytes do not change it.
\<close>

theorem redis_pieces:
  assumes "rp_ok p" "rp_status p \<noteq> REDIS_PARSE_END" "redis_parser_append_message always a p = Some (r1, k1, p1)"
  shows "(r1 = 0 \<longrightarrow> (\<forall>r k2 p2. redis_parser_append_message always b p1 = Some (r, k2, p2) \<longrightarrow>
      (\<exists>p3. redis_parser_append_message always (a @ b) p = Some (r, if r = 1 then length a + k2 else length (a @ b), p3) \<and> same_parser p3 p2))) \<and>
    (r1 \<noteq> 0 \<longrightarrow> (\<exists>p3. redis_parser_append_message always (a @ b) p = Some (r1, if r1 = 1 then k1 else length (a @ b), p3) \<and>
      same_parser p3 (p1\<lparr>rp_msgbuf := rp_msgbuf p1 @ b\<rparr>)))"
proof -
  obtain n1 where n1: "redis_parse_loop always (ext a n1 p) = Some (r1, p1)" "k1 = (if r1 = 1 then rp_msgidx p1 - length (rp_msgbuf p) else length a)"
    using append_loopD [OF assms(2,3)] by blast
  obtain n3 where n3: "redis_parser_append_message always (a @ b) p = do { (ret, q) \<leftarrow> redis_parse_loop always (ext (a @ b) n3 p);
      Some (ret, if ret = 1 then rp_msgidx q - length (rp_msgbuf p) else length (a @ b), q) }" using append_loop [OF assms(2), of "a @ b"] by blast
  have first: "rp_status p1 \<noteq> REDIS_PARSE_END" if "r1 = 0" using loop_not_end [OF n1(1)] that assms(2) by simp
  have "redis_parse_loop always (ext (a @ b) n3 p) = Some (r1, ext b n3 p1)" if "r1 \<noteq> 0"
    using loop_ext [OF n1(1), of b n3] that by (simp add: loop_extends_def ext_ext)
  moreover have "same_parser (ext b n3 p1) (p1\<lparr>rp_msgbuf := rp_msgbuf p1 @ b\<rparr>)" by (simp add: same_parser_def ext_def)
  ultimately show ?thesis using append_pieces [OF assms(1), of a k1 p1 b] assms(3) first n3 n1(2) by auto
qed

theorem redis_pieces_witness:
  "\<exists>p1 p2 p3. redis_parser_append_message always ''+O'' redis_parser_init = Some (0, 2, p1) \<and>
     redis_parser_append_message always (''K'' @ crlf) p1 = Some (1, 3, p2) \<and>
     redis_parser_append_message always (''+O'' @ ''K'' @ crlf) redis_parser_init = Some (1, 5, p3) \<and> same_parser p3 p2"
proof -
  let ?i = redis_parser_init
  have i: "rp_ok ?i" "rp_status ?i \<noteq> REDIS_PARSE_END" by (simp_all add: rp_ok_def redis_parser_init_def)
  note ev = redis_parser_append_message_def redis_parser_init_def grow_size.simps redis_parse_loop.simps redis_parser_forward_def redis_parse_cmd_def
    redis_parse_crlf_def find_crlf.simps redis_parse_line_def set_cur_def finish_one_def crlf_def nth_append Let_def
  have a: "redis_parser_append_message always ''+O'' ?i = Some (0, 2,
      ?i\<lparr>rp_bufsize := 8, rp_msgbuf := ''+O'', rp_msgidx := 1, rp_cmd := CHR ''+'', rp_status := REDIS_UNTIL_CRLF, rp_findidx := 1\<rparr>)"
    by (simp add: ev)
  have "\<exists>p2. redis_parser_append_message always (''K'' @ crlf)
      (?i\<lparr>rp_bufsize := 8, rp_msgbuf := ''+O'', rp_msgidx := 1, rp_cmd := CHR ''+'', rp_status := REDIS_UNTIL_CRLF, rp_findidx := 1\<rparr>) = Some (1, 3, p2)"
    by (simp add: ev)
  then show ?thesis using a redis_pieces [OF i a, of "''K'' @ crlf"] by fastforce
qed

text \<open>
  A count with no digits at the end of the bytes received makes the parser read past its buffer: \<^verbatim>\<open>atoi\<close> skips the
  CRLF as white space and goes on where nothing was received.
\<close>

theorem redis_overread:
  "redis_parser_append_message always (CHR ''$'' # crlf) redis_parser_init = None \<and>
   redis_parser_append_message always (CHR ''*'' # crlf) redis_parser_init = None \<and>
   (\<exists>p. redis_parser_append_message always (CHR ''$'' # crlf @ ''5'' @ crlf) redis_parser_init = Some (0, 6, p) \<and> rp_nchar p = 5)"
proof -
  note ev = redis_parser_append_message_def redis_parser_init_def grow_size.simps redis_parse_loop.simps redis_parser_forward_def redis_parse_cmd_def
    redis_parse_crlf_def find_crlf.simps redis_parse_line_def redis_parse_nchar_def crlf_def nth_append Let_def atoi_def in_range_def isspace_def isdigit_def
  show ?thesis by (simp add: ev)
qed
end
