(* ===== verification/Http_Parser.thy ===== *)
theory Http_Parser
  imports C_Library Mysql_Bytes
begin

text \<open>
  The incremental HTTP parser (\<^verbatim>\<open>workflow/src/protocol/http_parser.c\<close>, \<^verbatim>\<open>http_parser.h\<close>). The bytes received so far are the list
  \<open>hp_msgbuf\<close>, with the capacity of the buffer beside it; the functions for one line get what is behind \<^verbatim>\<open>ptr\<close>, a list whose length is
  \<^verbatim>\<open>len\<close>. C strings are lists without the terminating NUL. Header lines are records in the order of the list; the bytes of a
  line keep the length they were allocated with. \<open>mem\<close> says which sizes of allocations succeed. Only \<^verbatim>\<open>atoi\<close> out of range is undefined.
\<close>

section \<open>State\<close>

datatype header_state = HPS_START_LINE | HPS_HEADER_NAME | HPS_HEADER_VALUE | HPS_HEADER_COMPLETE
datatype chunk_state = CPS_CHUNK_DATA | CPS_TRAILER_PART | CPS_CHUNK_COMPLETE

abbreviation HTTP_START_LINE_MAX :: nat where "HTTP_START_LINE_MAX \<equiv> 8192"
abbreviation HTTP_HEADER_NAME_MAX :: nat where "HTTP_HEADER_NAME_MAX \<equiv> 64"
abbreviation HTTP_HEADER_VALUE_MAX :: nat where "HTTP_HEADER_VALUE_MAX \<equiv> 8192"
abbreviation HTTP_CHUNK_LINE_MAX :: nat where "HTTP_CHUNK_LINE_MAX \<equiv> 1024"
abbreviation HTTP_TRAILER_LINE_MAX :: nat where "HTTP_TRAILER_LINE_MAX \<equiv> 8192"
abbreviation CHUNK_SIZE_MAX :: int where "CHUNK_SIZE_MAX \<equiv> 2 * 1024 * 1024 * 1024 - 1024 - 4"

text \<open>\<open>hl_own\<close>: the bytes have a buffer of their own, apart from the memory of the line.\<close>

record header_line =
  hl_name_len :: nat
  hl_value_len :: nat
  hl_buf :: string
  hl_own :: bool

text \<open>The length \<^verbatim>\<open>(size_t)-1\<close>, which stands for unknown, is \<open>None\<close>.\<close>

record http_parser =
  hp_header_state :: header_state
  hp_chunk_state :: chunk_state
  hp_header_offset :: nat
  hp_chunk_offset :: nat
  hp_content_length :: "nat option"
  hp_transfer_length :: "nat option"
  hp_version :: "string option"
  hp_method :: "string option"
  hp_uri :: "string option"
  hp_code :: "string option"
  hp_phrase :: "string option"
  hp_header_list :: "header_line list"
  hp_namebuf :: string
  hp_msgbuf :: string
  hp_bufsize :: nat
  hp_expect_continue :: bool
  hp_keep_alive :: bool
  hp_chunked :: bool
  hp_complete :: bool
  hp_is_resp :: bool

section \<open>Strings\<close>

definition tolower :: "char \<Rightarrow> char" where
  "tolower c = (if 65 \<le> code c \<and> code c \<le> 90 then char_of (code c + 32) else c)"

definition strcaseeq :: "string \<Rightarrow> string \<Rightarrow> bool" where
  "strcaseeq s t \<longleftrightarrow> map tolower s = map tolower t"

text \<open>\<^verbatim>\<open>strncasecmp (s, t, n) == 0\<close>: equal up to \<open>n\<close> bytes or a NUL in both.\<close>

fun strncaseeq :: "nat \<Rightarrow> string \<Rightarrow> string \<Rightarrow> bool" where
  "strncaseeq 0 s t \<longleftrightarrow> True"
| "strncaseeq (Suc n) (c # s) (d # t) \<longleftrightarrow> tolower c = tolower d \<and> (c = NUL \<or> strncaseeq n s t)"
| "strncaseeq (Suc n) s t \<longleftrightarrow> False"

text \<open>\<^verbatim>\<open>(signed char)c <= 0\<close>.\<close>

definition bad_char :: "char \<Rightarrow> bool" where
  "bad_char c \<longleftrightarrow> c = NUL \<or> 128 \<le> code c"

text \<open>\<^verbatim>\<open>strtol (s, &end, 16)\<close>: the value, saturated, and how many bytes were used, 0 when there was no number.\<close>

definition hex_value :: "char \<Rightarrow> nat option" where
  "hex_value c =
     (if isdigit c then Some (code c - 48)
      else if 97 \<le> code c \<and> code c \<le> 102 then Some (code c - 87)
      else if 65 \<le> code c \<and> code c \<le> 70 then Some (code c - 55) else None)"

fun read_hex :: "string \<Rightarrow> nat \<Rightarrow> nat \<Rightarrow> nat \<times> nat" where
  "read_hex [] v k = (v, k)"
| "read_hex (c # cs) v k = (case hex_value c of Some d \<Rightarrow> read_hex cs (16 * v + d) (k + 1) | None \<Rightarrow> (v, k))"

definition read_prefixed :: "string \<Rightarrow> nat \<times> nat" where
  "read_prefixed s =
     (case s of
        z # x # d # cs \<Rightarrow>
          if z = CHR ''0'' \<and> x \<in> {CHR ''x'', CHR ''X''} \<and> hex_value d \<noteq> None then read_hex (d # cs) 0 2 else read_hex s 0 0
      | _ \<Rightarrow> read_hex s 0 0)"

definition saturate :: "int \<Rightarrow> int" where
  "saturate n = max (- (2 ^ 63)) (min (2 ^ 63 - 1) n)"

definition strtol16 :: "string \<Rightarrow> int \<times> nat" where
  "strtol16 s =
     (let t = dropWhile isspace s; w = length s - length t
      in (case t of
            [] \<Rightarrow> (0, 0)
          | c # cs \<Rightarrow>
              let signed = c \<in> {CHR ''-'', CHR ''+''}; (v, k) = read_prefixed (if signed then cs else t)
              in if k = 0 then (0, 0)
                 else (saturate (if c = CHR ''-'' then - int v else int v), w + (if signed then 1 else 0) + k)))"

section \<open>Header lines\<close>

text \<open>\<^verbatim>\<open>sizeof (struct __header_line)\<close> is 32.\<close>

definition http_parser_add_header :: "(nat \<Rightarrow> bool) \<Rightarrow> string \<Rightarrow> string \<Rightarrow> http_parser \<Rightarrow> int \<times> http_parser" where
  "http_parser_add_header mem name val p =
     (if mem (32 + length name + length val + 4) then
        (0, p\<lparr>hp_header_list := hp_header_list p @
               [\<lparr>hl_name_len = length name, hl_value_len = length val, hl_buf = name @ '': '' @ val @ crlf, hl_own = False\<rparr>]\<rparr>)
      else (- 1, p))"

text \<open>Writing \<open>xs\<close> at an offset.\<close>

definition overwrite :: "string \<Rightarrow> nat \<Rightarrow> string \<Rightarrow> string" where
  "overwrite buf i xs = take i buf @ xs @ drop (i + length xs) buf"

definition set_line :: "(nat \<Rightarrow> bool) \<Rightarrow> string \<Rightarrow> string \<Rightarrow> header_line \<Rightarrow> header_line option" where
  "set_line mem name val l =
     (if length val > hl_value_len l then
        if mem (length name + length val + 4) then Some (l\<lparr>hl_buf := name @ '': '' @ val @ crlf, hl_own := True, hl_value_len := length val\<rparr>)
        else None
      else Some (l\<lparr>hl_buf := overwrite (hl_buf l) (length name + 2) (val @ crlf), hl_value_len := length val\<rparr>))"

definition same_name :: "string \<Rightarrow> header_line \<Rightarrow> bool" where
  "same_name name l \<longleftrightarrow> hl_name_len l = length name \<and> strncaseeq (length name) (hl_buf l) name"

text \<open>The loop of \<^verbatim>\<open>http_parser_set_header\<close>: the answer and the lines, or \<open>None\<close> when no line has the name.\<close>

fun set_header_loop :: "(nat \<Rightarrow> bool) \<Rightarrow> string \<Rightarrow> string \<Rightarrow> header_line list \<Rightarrow> (int \<times> header_line list) option" where
  "set_header_loop mem name val [] = None"
| "set_header_loop mem name val (l # ls) =
     (if same_name name l then
        (case set_line mem name val l of None \<Rightarrow> Some (- 1, l # ls) | Some l' \<Rightarrow> Some (0, l' # ls))
      else map_option (\<lambda>(r, ls). (r, l # ls)) (set_header_loop mem name val ls))"

definition http_parser_set_header :: "(nat \<Rightarrow> bool) \<Rightarrow> string \<Rightarrow> string \<Rightarrow> http_parser \<Rightarrow> int \<times> http_parser" where
  "http_parser_set_header mem name val p =
     (case set_header_loop mem name val (hp_header_list p) of
        Some (r, ls) \<Rightarrow> (r, p\<lparr>hp_header_list := ls\<rparr>)
      | None \<Rightarrow> http_parser_add_header mem name val p)"

section \<open>The start line and the headers with a meaning\<close>

text \<open>\<^verbatim>\<open>strdup\<close> needs the length and the NUL.\<close>

definition dup_ok :: "(nat \<Rightarrow> bool) \<Rightarrow> string \<Rightarrow> bool" where
  "dup_ok mem s \<longleftrightarrow> mem (length s + 1)"

definition old_version :: "string \<Rightarrow> bool" where
  "old_version version \<longleftrightarrow> version = ''HTTP/1.0'' \<or> take 6 version = ''HTTP/0''"

definition match_request_line :: "(nat \<Rightarrow> bool) \<Rightarrow> string \<Rightarrow> string \<Rightarrow> string \<Rightarrow> http_parser \<Rightarrow> int \<times> http_parser" where
  "match_request_line mem method uri version p =
     (let p = (if old_version version then p\<lparr>hp_keep_alive := False\<rparr> else p)
      in if dup_ok mem method then
           if dup_ok mem uri then
             if dup_ok mem version then (0, p\<lparr>hp_method := Some method, hp_uri := Some uri, hp_version := Some version\<rparr>)
             else (- 1, p)
           else (- 1, p)
         else (- 1, p))"

definition match_status_line :: "(nat \<Rightarrow> bool) \<Rightarrow> string \<Rightarrow> string \<Rightarrow> string \<Rightarrow> http_parser \<Rightarrow> int \<times> http_parser" where
  "match_status_line mem version status phrase p =
     (let p = (if old_version version then p\<lparr>hp_keep_alive := False\<rparr> else p);
          p = (if (status \<noteq> [] \<and> hd status = CHR ''1'') \<or> status = ''204'' \<or> status = ''304'' then p\<lparr>hp_transfer_length := Some 0\<rparr> else p)
      in if dup_ok mem version then
           if dup_ok mem status then
             if dup_ok mem phrase then (0, p\<lparr>hp_version := Some version, hp_code := Some status, hp_phrase := Some phrase\<rparr>)
             else (- 1, p)
           else (- 1, p)
         else (- 1, p))"

definition match_connection :: "string \<Rightarrow> string \<Rightarrow> http_parser \<Rightarrow> http_parser" where
  "match_connection name val p =
     (if strcaseeq name ''Connection'' then
        if strcaseeq val ''Keep-Alive'' then p\<lparr>hp_keep_alive := True\<rparr>
        else if strcaseeq val ''close'' then p\<lparr>hp_keep_alive := False\<rparr> else p
      else p)"

definition header_meaning :: "string \<Rightarrow> string \<Rightarrow> http_parser \<Rightarrow> http_parser option" where
  "header_meaning name val p =
     (if length name = 6 then
        let p = (if strcaseeq name ''Expect'' \<and> strcaseeq val ''100-continue'' then p\<lparr>hp_expect_continue := True\<rparr> else p)
        in Some (match_connection name val p)
      else if length name = 10 then Some (match_connection name val p)
      else if length name = 14 then
        if strcaseeq name ''Content-Length'' \<and> val \<noteq> [] \<and> isdigit (hd val) then
          do { n \<leftarrow> atoi (val @ [NUL]); Some (p\<lparr>hp_content_length := Some (nat n)\<rparr>) }
        else Some p
      else if length name = 17 then
        if strcaseeq name ''Transfer-Encoding'' \<and> (length val \<noteq> 8 \<or> \<not> strcaseeq val ''identity'') then Some (p\<lparr>hp_chunked := True\<rparr>)
        else Some p
      else Some p)"

definition match_message_header :: "(nat \<Rightarrow> bool) \<Rightarrow> string \<Rightarrow> string \<Rightarrow> http_parser \<Rightarrow> (int \<times> http_parser) option" where
  "match_message_header mem name val p = do { p \<leftarrow> header_meaning name val p; Some (http_parser_add_header mem name val p) }"

section \<open>Lines\<close>

text \<open>
  The loops over the first \<open>m\<close> bytes behind \<^verbatim>\<open>ptr\<close>: the first place where the loop stops, one that is refused, or \<open>m\<close>.
\<close>

datatype line_scan = Found nat | Refused nat | Scanned nat

function scan_from :: "(char \<Rightarrow> bool) \<Rightarrow> (char \<Rightarrow> bool) \<Rightarrow> string \<Rightarrow> nat \<Rightarrow> nat \<Rightarrow> line_scan" where
  "scan_from stop bad ptr m i =
     (if i < m then if stop (ptr ! i) then Found i else if bad (ptr ! i) then Refused i else scan_from stop bad ptr m (i + 1)
      else Scanned i)"
  by auto
termination by (relation "measure (\<lambda>(stop, bad, ptr, m, i). m - i)") auto

declare scan_from.simps [simp del]

definition is_empty_line :: "string \<Rightarrow> bool" where
  "is_empty_line ptr \<longleftrightarrow> 2 \<le> length ptr \<and> ptr ! 0 = CR \<and> ptr ! 1 = LF"

text \<open>Cutting a string at its first space, which \<^verbatim>\<open>strchr\<close> finds.\<close>

definition cut_space :: "string \<Rightarrow> (string \<times> string) option" where
  "cut_space s = (case dropWhile (\<lambda>c. c \<noteq> CHR '' '') s of [] \<Rightarrow> None | c # t \<Rightarrow> Some (takeWhile (\<lambda>c. c \<noteq> CHR '' '') s, t))"

definition match_start_line :: "(nat \<Rightarrow> bool) \<Rightarrow> string \<Rightarrow> nat \<Rightarrow> http_parser \<Rightarrow> int \<times> http_parser" where
  "match_start_line mem line i p =
     (case cut_space line of
        None \<Rightarrow> (- 2, p)
      | Some (p1, p2) \<Rightarrow>
          (case cut_space p2 of
             None \<Rightarrow> (- 2, p)
           | Some (p2, p3) \<Rightarrow>
               (let (ret, p) = (if hp_is_resp p then match_status_line mem p1 p2 p3 p else match_request_line mem p1 p2 p3 p)
                in if ret < 0 then (- 1, p)
                   else (1, p\<lparr>hp_header_offset := hp_header_offset p + i + 2, hp_header_state := HPS_HEADER_NAME\<rparr>))))"

definition parse_start_line :: "(nat \<Rightarrow> bool) \<Rightarrow> string \<Rightarrow> http_parser \<Rightarrow> int \<times> http_parser" where
  "parse_start_line mem ptr p =
     (let len = length ptr
      in if is_empty_line ptr then (1, p\<lparr>hp_header_offset := hp_header_offset p + 2\<rparr>)
         else (case scan_from (\<lambda>c. c = CR) bad_char ptr (min HTTP_START_LINE_MAX len) 0 of
                 Found i \<Rightarrow>
                   if i = len - 1 then (0, p)
                   else if ptr ! (i + 1) \<noteq> LF then (- 2, p)
                   else match_start_line mem (take i ptr) i p
               | Refused i \<Rightarrow> (- 2, p)
               | Scanned i \<Rightarrow> if i = HTTP_START_LINE_MAX then (- 2, p) else (0, p)))"

definition parse_header_name :: "string \<Rightarrow> http_parser \<Rightarrow> int \<times> http_parser" where
  "parse_header_name ptr p =
     (if is_empty_line ptr then (1, p\<lparr>hp_header_offset := hp_header_offset p + 2, hp_header_state := HPS_HEADER_COMPLETE\<rparr>)
      else (case scan_from (\<lambda>c. c = CHR '':'') bad_char ptr (min HTTP_HEADER_NAME_MAX (length ptr)) 0 of
              Found i \<Rightarrow>
                (1, p\<lparr>hp_namebuf := overwrite (hp_namebuf p) 0 (take i ptr @ [NUL]), hp_header_offset := hp_header_offset p + i + 1,
                       hp_header_state := HPS_HEADER_VALUE\<rparr>)
            | Refused i \<Rightarrow> (- 2, p\<lparr>hp_namebuf := overwrite (hp_namebuf p) 0 (take i ptr)\<rparr>)
            | Scanned i \<Rightarrow> (if i = HTTP_HEADER_NAME_MAX then - 2 else 0, p\<lparr>hp_namebuf := overwrite (hp_namebuf p) 0 (take i ptr)\<rparr>)))"

text \<open>
  The value of a header: \<open>acc\<close> are the first \<^verbatim>\<open>i\<close> bytes of \<^verbatim>\<open>header_value\<close>. \<open>value_spaces\<close> is the loop that skips blanks,
  \<open>value_chars\<close> the loop up to the carriage return, \<open>value_end\<close> what follows it; a line that starts with a blank goes on with the value.
\<close>

datatype header_value = Value_more | Value_bad | Value string string

definition is_blank :: "char \<Rightarrow> bool" where
  "is_blank c \<longleftrightarrow> c = CHR '' '' \<or> c = CHR 0x09"

definition strip_blanks :: "string \<Rightarrow> string" where
  "strip_blanks acc = rev (dropWhile is_blank (rev acc))"

fun value_spaces :: "string \<Rightarrow> string \<Rightarrow> header_value"
  and value_chars :: "string \<Rightarrow> string \<Rightarrow> header_value"
  and value_end :: "string \<Rightarrow> string \<Rightarrow> header_value" where
  "value_spaces [] acc = Value_more"
| "value_spaces (c # cs) acc = (if is_blank c then value_spaces cs acc else value_chars (c # cs) acc)"
| "value_chars [] acc = Value_more"
| "value_chars (c # cs) acc =
     (if length acc = HTTP_HEADER_VALUE_MAX then Value_bad
      else if cs = [] then Value_more
      else if c = CR then value_end cs acc
      else if bad_char c then Value_bad
      else value_chars cs (acc @ [c]))"
| "value_end [] acc = Value_more"
| "value_end (c # cs) acc =
     (if c \<noteq> LF then Value_bad
      else (case cs of
              [] \<Rightarrow> Value_more
            | d # ds \<Rightarrow> if is_blank d then value_spaces ds (strip_blanks acc @ '' '') else Value (strip_blanks acc) cs))"

definition parse_header_value :: "(nat \<Rightarrow> bool) \<Rightarrow> string \<Rightarrow> http_parser \<Rightarrow> (int \<times> http_parser) option" where
  "parse_header_value mem ptr p =
     (case value_spaces ptr [] of
        Value_more \<Rightarrow> Some (0, p)
      | Value_bad \<Rightarrow> Some (- 2, p)
      | Value val rest \<Rightarrow>
          do { (ret, p) \<leftarrow> match_message_header mem (takeWhile (\<lambda>c. c \<noteq> NUL) (hp_namebuf p)) val p;
               if ret < 0 then Some (- 1, p)
               else Some (1, p\<lparr>hp_header_offset := hp_header_offset p + (length ptr - length rest), hp_header_state := HPS_HEADER_NAME\<rparr>) })"

definition header_step :: "(nat \<Rightarrow> bool) \<Rightarrow> string \<Rightarrow> http_parser \<Rightarrow> (int \<times> http_parser) option" where
  "header_step mem ptr p =
     (if hp_header_state p = HPS_START_LINE then Some (parse_start_line mem ptr p)
      else if hp_header_state p = HPS_HEADER_VALUE then parse_header_value mem ptr p
      else Some (parse_header_name ptr p))"

partial_function (option) parse_message_header :: "(nat \<Rightarrow> bool) \<Rightarrow> string \<Rightarrow> http_parser \<Rightarrow> (int \<times> http_parser) option" where
  "parse_message_header mem message p =
     do { (ret, q) \<leftarrow> header_step mem (drop (hp_header_offset p) message) p;
          if hp_header_state q = HPS_HEADER_COMPLETE then Some (1, q)
          else if ret > 0 then parse_message_header mem message q else Some (ret, q) }"

section \<open>Chunks\<close>

text \<open>A line with the size of a chunk, at whose byte \<open>i\<close> the carriage return is.\<close>

definition take_chunk :: "string \<Rightarrow> nat \<Rightarrow> nat \<Rightarrow> http_parser \<Rightarrow> int \<times> http_parser" where
  "take_chunk line i len p =
     (let (chunk_size, used) = strtol16 (takeWhile (\<lambda>c. c \<noteq> NUL) line)
      in if used = 0 then (- 2, p)
         else if chunk_size = 0 then
           (1, p\<lparr>hp_chunk_state := CPS_TRAILER_PART, hp_chunk_offset := hp_chunk_offset p + i + 2\<rparr>)
         else if 0 < chunk_size \<and> chunk_size < CHUNK_SIZE_MAX then
           if len < nat chunk_size + i + 4 then (0, p)
           else (1, p\<lparr>hp_chunk_offset := hp_chunk_offset p + (nat chunk_size + i + 4)\<rparr>)
         else (- 2, p))"

definition parse_chunk_data :: "string \<Rightarrow> http_parser \<Rightarrow> int \<times> http_parser" where
  "parse_chunk_data ptr p =
     (let len = length ptr
      in (case scan_from (\<lambda>c. c = CR) (\<lambda>c. False) ptr (min HTTP_CHUNK_LINE_MAX len) 0 of
            Found i \<Rightarrow>
              if i = len - 1 then (0, p)
              else if ptr ! (i + 1) \<noteq> LF then (- 2, p)
              else take_chunk (take i ptr) i len p
          | Refused i \<Rightarrow> (- 2, p)
          | Scanned i \<Rightarrow> if i = HTTP_CHUNK_LINE_MAX then (- 2, p) else (0, p)))"

definition parse_trailer_part :: "string \<Rightarrow> http_parser \<Rightarrow> int \<times> http_parser" where
  "parse_trailer_part ptr p =
     (let len = length ptr
      in (case scan_from (\<lambda>c. c = CR) (\<lambda>c. False) ptr (min HTTP_TRAILER_LINE_MAX len) 0 of
            Found i \<Rightarrow>
              if i = len - 1 then (0, p)
              else if ptr ! (i + 1) \<noteq> LF then (- 2, p)
              else (1, p\<lparr>hp_chunk_offset := hp_chunk_offset p + i + 2,
                          hp_chunk_state := (if i = 0 then CPS_CHUNK_COMPLETE else hp_chunk_state p)\<rparr>)
          | Refused i \<Rightarrow> (- 2, p)
          | Scanned i \<Rightarrow> if i = HTTP_TRAILER_LINE_MAX then (- 2, p) else (0, p)))"

definition chunk_step :: "string \<Rightarrow> http_parser \<Rightarrow> int \<times> http_parser" where
  "chunk_step ptr p = (if hp_chunk_state p = CPS_CHUNK_DATA then parse_chunk_data ptr p else parse_trailer_part ptr p)"

partial_function (option) parse_chunk :: "string \<Rightarrow> http_parser \<Rightarrow> (int \<times> http_parser) option" where
  "parse_chunk message p =
     (case chunk_step (drop (hp_chunk_offset p) message) p of
        (ret, q) \<Rightarrow>
          if hp_chunk_state q = CPS_CHUNK_COMPLETE then Some (1, q)
          else if ret > 0 then parse_chunk message q else Some (ret, q))"

section \<open>Messages\<close>

text \<open>The content of \<^verbatim>\<open>namebuf\<close> and \<^verbatim>\<open>chunk_state\<close>, \<^verbatim>\<open>chunk_offset\<close> before they are first written are arguments.\<close>

definition http_parser_init :: "bool \<Rightarrow> string \<Rightarrow> chunk_state \<Rightarrow> nat \<Rightarrow> http_parser" where
  "http_parser_init is_resp junk cs co =
     \<lparr>hp_header_state = HPS_START_LINE, hp_chunk_state = cs, hp_header_offset = 0, hp_chunk_offset = co,
      hp_content_length = (if is_resp then None else Some 0), hp_transfer_length = None, hp_version = None, hp_method = None,
      hp_uri = None, hp_code = None, hp_phrase = None, hp_header_list = [], hp_namebuf = junk, hp_msgbuf = [], hp_bufsize = 0,
      hp_expect_continue = False, hp_keep_alive = True, hp_chunked = False, hp_complete = False, hp_is_resp = is_resp\<rparr>"

text \<open>What follows the header: the end by length, or by chunks. The result is the return value, how many bytes are not taken, and the parser.\<close>

definition after_header :: "http_parser \<Rightarrow> http_parser" where
  "after_header p =
     (if hp_chunked p then p\<lparr>hp_chunk_offset := hp_header_offset p, hp_chunk_state := CPS_CHUNK_DATA\<rparr>
      else if hp_transfer_length p = None then p\<lparr>hp_transfer_length := hp_content_length p\<rparr> else p)"

definition parse_body :: "http_parser \<Rightarrow> (int \<times> nat \<times> http_parser) option" where
  "parse_body p =
     (case hp_transfer_length p of
        Some n \<Rightarrow>
          let total = hp_header_offset p + n
          in if length (hp_msgbuf p) \<ge> total then
               Some (1, length (hp_msgbuf p) - total, p\<lparr>hp_msgbuf := take total (hp_msgbuf p), hp_complete := True\<rparr>)
             else Some (0, 0, p)
      | None \<Rightarrow>
          if \<not> hp_chunked p then Some (0, 0, p)
          else do { (ret, p) \<leftarrow> (if hp_chunk_state p \<noteq> CPS_CHUNK_COMPLETE then parse_chunk (hp_msgbuf p) p else Some (1, p));
                    if ret \<le> 0 then Some (ret, 0, p)
                    else Some (1, length (hp_msgbuf p) - hp_chunk_offset p,
                               p\<lparr>hp_msgbuf := take (hp_chunk_offset p) (hp_msgbuf p), hp_complete := True\<rparr>) })"

definition parse_buffer :: "(nat \<Rightarrow> bool) \<Rightarrow> http_parser \<Rightarrow> (int \<times> nat \<times> http_parser) option" where
  "parse_buffer mem p =
     (if hp_header_state p \<noteq> HPS_HEADER_COMPLETE then
        do { (ret, p) \<leftarrow> parse_message_header mem (hp_msgbuf p) p;
             if ret \<le> 0 then Some (ret, 0, p) else parse_body (after_header p) }
      else parse_body p)"

text \<open>The result is the return value, what \<^verbatim>\<open>*n\<close> is afterwards, and the parser.\<close>

definition http_parser_append_message :: "(nat \<Rightarrow> bool) \<Rightarrow> string \<Rightarrow> http_parser \<Rightarrow> (int \<times> nat \<times> http_parser) option" where
  "http_parser_append_message mem buf p =
     (if hp_complete p then Some (1, 0, p)
      else let need = length (hp_msgbuf p) + length buf + 1
           in do { new_size \<leftarrow> (if need > hp_bufsize p then grow_size need (max 2048 (2 * hp_bufsize p)) else Some (hp_bufsize p));
                   if new_size \<noteq> hp_bufsize p \<and> \<not> mem new_size then Some (- 1, length buf, p)
                   else do { (ret, extra, q) \<leftarrow> parse_buffer mem (p\<lparr>hp_bufsize := new_size, hp_msgbuf := hp_msgbuf p @ buf\<rparr>);
                             Some (ret, length buf - extra, q) } })"

definition http_parser_header_complete :: "http_parser \<Rightarrow> bool" where
  "http_parser_header_complete p \<longleftrightarrow> hp_header_state p = HPS_HEADER_COMPLETE"

text \<open>The body, when the message is complete; the NUL behind it fits because the buffer is grown by one byte more than needed.\<close>

definition http_parser_get_body :: "http_parser \<Rightarrow> string option" where
  "http_parser_get_body p =
     (if hp_complete p \<and> hp_header_state p = HPS_HEADER_COMPLETE then Some (drop (hp_header_offset p) (hp_msgbuf p)) else None)"

definition http_parser_close_message :: "http_parser \<Rightarrow> http_parser" where
  "http_parser_close_message p = p\<lparr>hp_complete := True\<rparr>"

section \<open>Setters, cursor and destruction\<close>

definition http_parser_set_method :: "(nat \<Rightarrow> bool) \<Rightarrow> string \<Rightarrow> http_parser \<Rightarrow> int \<times> http_parser" where
  "http_parser_set_method mem s p = (if dup_ok mem s then (0, p\<lparr>hp_method := Some s\<rparr>) else (- 1, p))"

definition http_parser_set_uri :: "(nat \<Rightarrow> bool) \<Rightarrow> string \<Rightarrow> http_parser \<Rightarrow> int \<times> http_parser" where
  "http_parser_set_uri mem s p = (if dup_ok mem s then (0, p\<lparr>hp_uri := Some s\<rparr>) else (- 1, p))"

definition http_parser_set_version :: "(nat \<Rightarrow> bool) \<Rightarrow> string \<Rightarrow> http_parser \<Rightarrow> int \<times> http_parser" where
  "http_parser_set_version mem s p = (if dup_ok mem s then (0, p\<lparr>hp_version := Some s\<rparr>) else (- 1, p))"

definition http_parser_set_code :: "(nat \<Rightarrow> bool) \<Rightarrow> string \<Rightarrow> http_parser \<Rightarrow> int \<times> http_parser" where
  "http_parser_set_code mem s p = (if dup_ok mem s then (0, p\<lparr>hp_code := Some s\<rparr>) else (- 1, p))"

definition http_parser_set_phrase :: "(nat \<Rightarrow> bool) \<Rightarrow> string \<Rightarrow> http_parser \<Rightarrow> int \<times> http_parser" where
  "http_parser_set_phrase mem s p = (if dup_ok mem s then (0, p\<lparr>hp_phrase := Some s\<rparr>) else (- 1, p))"

text \<open>A cursor holds the lines it has not passed yet.\<close>

definition line_name :: "header_line \<Rightarrow> string" where
  "line_name l = take (hl_name_len l) (hl_buf l)"

definition line_value :: "nat \<Rightarrow> header_line \<Rightarrow> string" where
  "line_value name_len l = take (hl_value_len l) (drop (name_len + 2) (hl_buf l))"

definition http_header_cursor_init :: "http_parser \<Rightarrow> header_line list" where
  "http_header_cursor_init p = hp_header_list p"

fun http_header_cursor_next :: "header_line list \<Rightarrow> (string \<times> string) option \<times> header_line list" where
  "http_header_cursor_next [] = (None, [])"
| "http_header_cursor_next (l # ls) = (Some (line_name l, line_value (hl_name_len l) l), ls)"

fun http_header_cursor_find :: "string \<Rightarrow> header_line list \<Rightarrow> string option \<times> header_line list" where
  "http_header_cursor_find name [] = (None, [])"
| "http_header_cursor_find name (l # ls) =
     (if same_name name l then (Some (line_value (length name) l), ls) else http_header_cursor_find name ls)"

text \<open>What \<^verbatim>\<open>http_parser_deinit\<close> passes to \<^verbatim>\<open>free\<close>, in order.\<close>

datatype http_block = Own_buf header_line | Line header_line | Field "string option" | Msgbuf string

definition http_parser_deinit :: "http_parser \<Rightarrow> http_block list" where
  "http_parser_deinit p =
     concat (map (\<lambda>l. (if hl_own l then [Own_buf l] else []) @ [Line l]) (hp_header_list p)) @
     [Field (hp_version p), Field (hp_method p), Field (hp_uri p), Field (hp_code p), Field (hp_phrase p), Msgbuf (hp_msgbuf p)]"
end
