(* ===== verification/Http_Pieces.thy ===== *)
theory Http_Pieces
  imports Http_Parser
begin

text \<open>
  The HTTP parser does not depend on how the bytes are cut into pieces: every line parser answers the same on more bytes once
  it has answered, and leaves the parser as it was when it asks for more.
\<close>

section \<open>More bytes for one line\<close>

lemma scan_cases:
  "i < m \<Longrightarrow> stop (ptr ! i) \<Longrightarrow> scan_from stop bad ptr m i = Found i"
  "i < m \<Longrightarrow> \<not> stop (ptr ! i) \<Longrightarrow> bad (ptr ! i) \<Longrightarrow> scan_from stop bad ptr m i = Refused i"
  "i < m \<Longrightarrow> \<not> stop (ptr ! i) \<Longrightarrow> \<not> bad (ptr ! i) \<Longrightarrow> scan_from stop bad ptr m i = scan_from stop bad ptr m (i + 1)"
  "m \<le> i \<Longrightarrow> scan_from stop bad ptr m i = Scanned i"
  by (simp_all add: scan_from.simps)

lemma scan_more:
  assumes "m \<le> m'" "m \<le> length xs"
  shows "case scan_from stop bad xs m i of Scanned j \<Rightarrow> j = max i m \<and> scan_from stop bad (xs @ ys) m' i = scan_from stop bad (xs @ ys) m' j
    | r \<Rightarrow> scan_from stop bad (xs @ ys) m' i = r"
proof (induction "m - i" arbitrary: i)
  case 0
  then show ?case by (simp add: scan_cases(4) max_def)
next
  case (Suc d)
  then have i: "i < m" "i < m'" "i < length xs" using assms by auto
  then have n: "(xs @ ys) ! i = xs ! i" by (simp add: nth_append)
  consider "stop (xs ! i)" | "\<not> stop (xs ! i)" "bad (xs ! i)" | "\<not> stop (xs ! i)" "\<not> bad (xs ! i)" by blast
  then show ?case
  proof cases
    case 1
    then show ?thesis using i n by (simp add: scan_cases(1))
  next
    case 2
    then show ?thesis using i n by (simp add: scan_cases(2))
  next
    case 3
    have "d = m - (i + 1)" using Suc(2) by simp
    from Suc(1) [OF this] show ?thesis
      using scan_cases(3) [of i m stop xs bad] scan_cases(3) [of i m' stop "xs @ ys" bad] 3 i n by (auto split: line_scan.splits)
  qed
qed

lemma scan_bounds:
  "case scan_from stop bad xs m i of Found j \<Rightarrow> i \<le> j \<and> j < m \<and> stop (xs ! j) \<and> (\<forall>k. i \<le> k \<and> k < j \<longrightarrow> \<not> stop (xs ! k) \<and> \<not> bad (xs ! k))
    | Refused j \<Rightarrow> i \<le> j \<and> j < m | Scanned j \<Rightarrow> j = max i m"
proof (induction "m - i" arbitrary: i)
  case 0
  then show ?case by (simp add: scan_cases(4) max_def)
next
  case (Suc d)
  then have i: "i < m" by simp
  consider "stop (xs ! i)" | "\<not> stop (xs ! i)" "bad (xs ! i)" | "\<not> stop (xs ! i)" "\<not> bad (xs ! i)" by blast
  then show ?case
  proof cases
    case 3
    have "d = m - (i + 1)" using Suc(2) by simp
    note IH = Suc(1) [OF this]
    have k: "\<forall>k. i \<le> k \<and> k < j \<longrightarrow> \<not> stop (xs ! k) \<and> \<not> bad (xs ! k)" if "\<forall>k. i + 1 \<le> k \<and> k < j \<longrightarrow> \<not> stop (xs ! k) \<and> \<not> bad (xs ! k)" for j
    proof (intro allI impI)
      fix k assume "i \<le> k \<and> k < j"
      then show "\<not> stop (xs ! k) \<and> \<not> bad (xs ! k)" using that 3 by (cases "k = i") auto
    qed
    have e: "scan_from stop bad xs m i = scan_from stop bad xs m (i + 1)" using scan_cases(3) [of i m stop xs bad] i 3 by simp
    show ?thesis
    proof (cases "scan_from stop bad xs m (i + 1)")
      case (Found j)
      then have "i + 1 \<le> j" "j < m" "stop (xs ! j)" "\<forall>k. i + 1 \<le> k \<and> k < j \<longrightarrow> \<not> stop (xs ! k) \<and> \<not> bad (xs ! k)" using IH by simp_all
      with k [OF this(4)] show ?thesis unfolding e Found by simp
    qed (use IH e i in simp_all)
  qed (use i in \<open>auto simp: scan_cases\<close>)
qed

lemma empty_line_more: "2 \<le> length xs \<Longrightarrow> is_empty_line (xs @ ys) = is_empty_line xs"
  by (auto simp: is_empty_line_def nth_append)

lemma empty_line_short: "is_empty_line (xs @ ys) \<Longrightarrow> \<not> is_empty_line xs \<Longrightarrow> xs = [] \<or> xs = [CR]"
  by (cases xs; cases "tl xs") (auto simp: is_empty_line_def nth_append)

lemma start_line_more:
  assumes "parse_start_line mem xs p = (r, q)"
  shows "r \<noteq> 0 \<Longrightarrow> parse_start_line mem (xs @ ys) p = (r, q)" "r = 0 \<Longrightarrow> q = p"
proof -
  let ?m = "min HTTP_START_LINE_MAX (length xs)" and ?m' = "min HTTP_START_LINE_MAX (length (xs @ ys))"
  note S = scan_more [where m = ?m and m' = ?m' and xs = xs and stop = "\<lambda>c. c = CR" and bad = bad_char and i = 0 and ys = ys]
  note B = scan_bounds [where stop = "\<lambda>c. c = CR" and bad = bad_char and xs = xs and m = ?m and i = 0]
  have m0: "r = 0 \<Longrightarrow> q = p"
    using assms by (auto simp: parse_start_line_def match_start_line_def Let_def split: line_scan.splits if_splits option.splits prod.splits)
  then show "r = 0 \<Longrightarrow> q = p" .
  assume r: "r \<noteq> 0"
  show "parse_start_line mem (xs @ ys) p = (r, q)"
  proof (cases "is_empty_line xs")
    case True
    then have "is_empty_line (xs @ ys)" using empty_line_more by (auto simp: is_empty_line_def nth_append)
    then show ?thesis using assms True by (simp add: parse_start_line_def)
  next
    case False
    have ne: "\<not> is_empty_line (xs @ ys)"
    proof
      assume "is_empty_line (xs @ ys)"
      then have "xs = [] \<or> xs = [CR]" using empty_line_short False by blast
      then show False using assms r False by (auto simp: parse_start_line_def scan_from.simps)
    qed
    show ?thesis
    proof (cases "scan_from (\<lambda>c. c = CR) bad_char xs ?m 0")
      case (Found i)
      then have i: "i < length xs" "scan_from (\<lambda>c. c = CR) bad_char (xs @ ys) ?m' 0 = Found i" using S B by auto
      moreover have "i \<noteq> length xs - 1" using assms r False Found by (auto simp: parse_start_line_def Let_def)
      ultimately show ?thesis using assms False ne Found by (auto simp: parse_start_line_def Let_def nth_append)
    next
      case (Refused i)
      then show ?thesis using S assms False ne by (auto simp: parse_start_line_def Let_def)
    next
      case (Scanned i)
      then have "i = HTTP_START_LINE_MAX" using assms r False by (auto simp: parse_start_line_def Let_def split: if_splits)
      moreover from this have "HTTP_START_LINE_MAX \<le> length xs" using Scanned B by auto
      ultimately have "scan_from (\<lambda>c. c = CR) bad_char (xs @ ys) ?m' 0 = Scanned i" using S Scanned by (simp add: scan_cases(4))
      then show ?thesis using assms False ne Scanned \<open>i = HTTP_START_LINE_MAX\<close> by (auto simp: parse_start_line_def Let_def)
    qed
  qed
qed

text \<open>The name of a header is also copied into a buffer, so a call that asks for more leaves its bytes there.\<close>

lemma overwrite_0: "overwrite nb 0 xs = xs @ drop (length xs) nb"
  by (simp add: overwrite_def)

lemma overwrite_twice: "length xs \<le> length zs \<Longrightarrow> overwrite (overwrite nb 0 xs) 0 zs = overwrite nb 0 zs"
  by (simp add: overwrite_0)

lemma header_name_more:
  assumes "parse_header_name xs p = (r, q)"
  shows "r \<noteq> 0 \<Longrightarrow> parse_header_name (xs @ ys) p = (r, q)"
    "r = 0 \<Longrightarrow> \<exists>zs. q = p\<lparr>hp_namebuf := zs\<rparr> \<and> (parse_header_name (xs @ ys) q = parse_header_name (xs @ ys) p \<or> is_empty_line (xs @ ys))"
proof -
  let ?m = "min HTTP_HEADER_NAME_MAX (length xs)" and ?m' = "min HTTP_HEADER_NAME_MAX (length (xs @ ys))"
  note S = scan_more [where m = ?m and m' = ?m' and xs = xs and stop = "\<lambda>c. c = CHR '':''" and bad = bad_char and i = 0 and ys = ys]
  note B = scan_bounds [where stop = "\<lambda>c. c = CHR '':''" and bad = bad_char and xs = xs and m = ?m and i = 0]
  note B' = scan_bounds [where stop = "\<lambda>c. c = CHR '':''" and bad = bad_char and xs = "xs @ ys" and m = ?m' and i = 0]
  have sc: "is_empty_line xs \<Longrightarrow> r = 1" using assms by (simp add: parse_header_name_def)
  show "parse_header_name (xs @ ys) p = (r, q)" if r: "r \<noteq> 0"
  proof (cases "is_empty_line xs")
    case True
    then have "is_empty_line (xs @ ys)" using empty_line_more by (auto simp: is_empty_line_def nth_append)
    then show ?thesis using assms True by (simp add: parse_header_name_def)
  next
    case False
    have ne: "\<not> is_empty_line (xs @ ys)"
    proof
      assume "is_empty_line (xs @ ys)"
      then have "xs = [] \<or> xs = [CR]" using empty_line_short False by blast
      moreover have "\<not> bad_char CR" by code_simp
      ultimately show False using assms r False by (auto simp: parse_header_name_def scan_from.simps)
    qed
    show ?thesis
    proof (cases "scan_from (\<lambda>c. c = CHR '':'') bad_char xs ?m 0")
      case (Found i)
      then have "i < length xs" "scan_from (\<lambda>c. c = CHR '':'') bad_char (xs @ ys) ?m' 0 = Found i" using S B by auto
      then show ?thesis using assms False ne Found by (auto simp: parse_header_name_def)
    next
      case (Refused i)
      then have "i < length xs" "scan_from (\<lambda>c. c = CHR '':'') bad_char (xs @ ys) ?m' 0 = Refused i" using S B by auto
      then show ?thesis using assms False ne Refused by (auto simp: parse_header_name_def)
    next
      case (Scanned i)
      then have i: "i = HTTP_HEADER_NAME_MAX" using assms r False by (auto simp: parse_header_name_def split: if_splits)
      then have l: "HTTP_HEADER_NAME_MAX \<le> length xs" using Scanned B by auto
      then have "scan_from (\<lambda>c. c = CHR '':'') bad_char (xs @ ys) ?m' 0 = Scanned i" using S Scanned i by (simp add: scan_cases(4))
      then show ?thesis using assms False ne Scanned i l by (auto simp: parse_header_name_def)
    qed
  qed
  assume r: "r = 0"
  then obtain i where i: "scan_from (\<lambda>c. c = CHR '':'') bad_char xs ?m 0 = Scanned i" "\<not> is_empty_line xs" "i \<noteq> HTTP_HEADER_NAME_MAX"
    using assms by (auto simp: parse_header_name_def split: line_scan.splits if_splits)
  then have len: "i = length xs" "length xs < HTTP_HEADER_NAME_MAX" using B by (auto simp: min_def split: if_splits)
  then have q: "q = p\<lparr>hp_namebuf := overwrite (hp_namebuf p) 0 xs\<rparr>" using assms i r by (simp add: parse_header_name_def)
  have "parse_header_name (xs @ ys) q = parse_header_name (xs @ ys) p" if "\<not> is_empty_line (xs @ ys)"
  proof -
    have T: "scan_from (\<lambda>c. c = CHR '':'') bad_char (xs @ ys) ?m' 0 = scan_from (\<lambda>c. c = CHR '':'') bad_char (xs @ ys) ?m' (length xs)"
      using S i len by simp
    have "case scan_from (\<lambda>c. c = CHR '':'') bad_char (xs @ ys) ?m' 0 of Found j \<Rightarrow> length xs \<le> j \<and> j < ?m' | Refused j \<Rightarrow> length xs \<le> j \<and> j < ?m' | Scanned j \<Rightarrow> length xs \<le> j"
      unfolding T using scan_bounds [where stop = "\<lambda>c. c = CHR '':''" and bad = bad_char and xs = "xs @ ys" and m = ?m' and i = "length xs"]
      by (auto split: line_scan.splits)
    moreover have "length xs \<le> j \<Longrightarrow> j < ?m' \<Longrightarrow> length (take j (xs @ ys)) = j" for j by auto
    ultimately show ?thesis using that len
      by (cases "scan_from (\<lambda>c. c = CHR '':'') bad_char (xs @ ys) ?m' 0") (auto simp: parse_header_name_def q overwrite_twice)
  qed
  then show "\<exists>zs. q = p\<lparr>hp_namebuf := zs\<rparr> \<and> (parse_header_name (xs @ ys) q = parse_header_name (xs @ ys) p \<or> is_empty_line (xs @ ys))"
    using q by blast
qed

lemma value_more:
  "value_spaces xs acc \<noteq> Value_more \<Longrightarrow> value_spaces (xs @ ys) acc =
     (case value_spaces xs acc of Value v rest \<Rightarrow> Value v (rest @ ys) | r \<Rightarrow> r)"
  "value_chars xs acc \<noteq> Value_more \<Longrightarrow> value_chars (xs @ ys) acc =
     (case value_chars xs acc of Value v rest \<Rightarrow> Value v (rest @ ys) | r \<Rightarrow> r)"
  "value_end xs acc \<noteq> Value_more \<Longrightarrow> value_end (xs @ ys) acc =
     (case value_end xs acc of Value v rest \<Rightarrow> Value v (rest @ ys) | r \<Rightarrow> r)"
  by (induction xs acc and xs acc and xs acc rule: value_spaces_value_chars_value_end.induct)
    (auto split: list.splits if_splits)

lemma value_rest:
  "value_spaces xs acc = Value v rest \<Longrightarrow> length rest < length xs"
  "value_chars xs acc = Value v rest \<Longrightarrow> length rest < length xs"
  "value_end xs acc = Value v rest \<Longrightarrow> length rest < length xs"
  by (induction xs acc and xs acc and xs acc rule: value_spaces_value_chars_value_end.induct)
    (auto split: list.splits if_splits)

lemma header_value_more:
  assumes "parse_header_value mem xs p = Some (r, q)"
  shows "r \<noteq> 0 \<Longrightarrow> parse_header_value mem (xs @ ys) p = Some (r, q)" "r = 0 \<Longrightarrow> q = p"
proof -
  show "r = 0 \<Longrightarrow> q = p" using assms by (auto simp: parse_header_value_def bind_eq_Some_conv split: header_value.splits if_splits)
  assume "r \<noteq> 0"
  then have "value_spaces xs [] \<noteq> Value_more" using assms by (auto simp: parse_header_value_def)
  then consider "value_spaces xs [] = Value_bad" "value_spaces (xs @ ys) [] = Value_bad"
    | v rest where "value_spaces xs [] = Value v rest" "value_spaces (xs @ ys) [] = Value v (rest @ ys)"
    using value_more(1) [of xs "[]" ys] by (cases "value_spaces xs []") auto
  then show "parse_header_value mem (xs @ ys) p = Some (r, q)"
  proof cases
    case 2
    have "length (xs @ ys) - length (rest @ ys) = length xs - length rest" by simp
    then show ?thesis using assms 2 unfolding parse_header_value_def by (simp only: header_value.case)
  qed (use assms in \<open>simp add: parse_header_value_def\<close>)
qed

lemma take_chunk_more:
  assumes "take_chunk line i len p = (r, q)"
  shows "r \<noteq> 0 \<Longrightarrow> len \<le> len' \<Longrightarrow> take_chunk line i len' p = (r, q)" "r = 0 \<Longrightarrow> q = p"
  using assms by (auto simp: take_chunk_def Let_def split: if_splits prod.splits)

lemma chunk_data_more:
  assumes "parse_chunk_data xs p = (r, q)"
  shows "r \<noteq> 0 \<Longrightarrow> parse_chunk_data (xs @ ys) p = (r, q)" "r = 0 \<Longrightarrow> q = p"
proof -
  let ?m = "min HTTP_CHUNK_LINE_MAX (length xs)" and ?m' = "min HTTP_CHUNK_LINE_MAX (length (xs @ ys))"
  let ?scan = "\<lambda>xs m. scan_from (\<lambda>c. c = CR) (\<lambda>c. False) xs m 0"
  note S = scan_more [where m = ?m and m' = ?m' and xs = xs and stop = "\<lambda>c. c = CR" and bad = "\<lambda>c. False" and i = 0 and ys = ys]
  note B = scan_bounds [where stop = "\<lambda>c. c = CR" and bad = "\<lambda>c. False" and xs = xs and m = ?m and i = 0]
  show "r = 0 \<Longrightarrow> q = p" using assms take_chunk_more(2) by (auto simp: parse_chunk_data_def Let_def split: line_scan.splits if_splits)
  assume r: "r \<noteq> 0"
  show "parse_chunk_data (xs @ ys) p = (r, q)"
  proof (cases "?scan xs ?m")
    case (Found i)
    then have i: "i < length xs" "?scan (xs @ ys) ?m' = Found i" using S B by auto
    moreover have "i \<noteq> length xs - 1" using assms r Found by (auto simp: parse_chunk_data_def Let_def)
    moreover have "take_chunk (take i xs) i (length xs) p = (r, q) \<Longrightarrow> take_chunk (take i xs) i (length (xs @ ys)) p = (r, q)"
      using take_chunk_more(1) [OF _ r, of "take i xs" i "length xs" p q "length (xs @ ys)"] by simp
    ultimately show ?thesis using assms Found by (auto simp: parse_chunk_data_def Let_def nth_append split: if_splits)
  next
    case (Refused i)
    then show ?thesis using S assms by (auto simp: parse_chunk_data_def Let_def)
  next
    case (Scanned i)
    then have i: "i = HTTP_CHUNK_LINE_MAX" using assms r by (auto simp: parse_chunk_data_def Let_def split: if_splits)
    then have "HTTP_CHUNK_LINE_MAX \<le> length xs" using Scanned B by auto
    then have "?scan (xs @ ys) ?m' = Scanned i" using S Scanned i by (simp add: scan_cases(4))
    then show ?thesis using assms Scanned i by (auto simp: parse_chunk_data_def Let_def)
  qed
qed

lemma trailer_more:
  assumes "parse_trailer_part xs p = (r, q)"
  shows "r \<noteq> 0 \<Longrightarrow> parse_trailer_part (xs @ ys) p = (r, q)" "r = 0 \<Longrightarrow> q = p"
proof -
  let ?m = "min HTTP_TRAILER_LINE_MAX (length xs)" and ?m' = "min HTTP_TRAILER_LINE_MAX (length (xs @ ys))"
  let ?scan = "\<lambda>xs m. scan_from (\<lambda>c. c = CR) (\<lambda>c. False) xs m 0"
  note S = scan_more [where m = ?m and m' = ?m' and xs = xs and stop = "\<lambda>c. c = CR" and bad = "\<lambda>c. False" and i = 0 and ys = ys]
  note B = scan_bounds [where stop = "\<lambda>c. c = CR" and bad = "\<lambda>c. False" and xs = xs and m = ?m and i = 0]
  show "r = 0 \<Longrightarrow> q = p" using assms by (auto simp: parse_trailer_part_def Let_def split: line_scan.splits if_splits)
  assume r: "r \<noteq> 0"
  show "parse_trailer_part (xs @ ys) p = (r, q)"
  proof (cases "?scan xs ?m")
    case (Found i)
    then have i: "i < length xs" "?scan (xs @ ys) ?m' = Found i" using S B by auto
    moreover have "i \<noteq> length xs - 1" using assms r Found by (auto simp: parse_trailer_part_def Let_def)
    ultimately show ?thesis using assms r Found by (auto simp: parse_trailer_part_def Let_def nth_append split: if_splits)
  next
    case (Refused i)
    then show ?thesis using S assms by (auto simp: parse_trailer_part_def Let_def)
  next
    case (Scanned i)
    then have i: "i = HTTP_TRAILER_LINE_MAX" using assms r by (auto simp: parse_trailer_part_def Let_def split: if_splits)
    then have "HTTP_TRAILER_LINE_MAX \<le> length xs" using Scanned B by auto
    then have "?scan (xs @ ys) ?m' = Scanned i" using S Scanned i by (simp add: scan_cases(4))
    then show ?thesis using assms Scanned i by (auto simp: parse_trailer_part_def Let_def)
  qed
qed

section \<open>The buffer\<close>

text \<open>A parser with another buffer.\<close>

definition rebuf :: "string \<Rightarrow> nat \<Rightarrow> http_parser \<Rightarrow> http_parser" where
  "rebuf B n p = p\<lparr>hp_msgbuf := B, hp_bufsize := n\<rparr>"

lemma rebuf_simps [simp]:
  "hp_header_state (rebuf B n p) = hp_header_state p" "hp_chunk_state (rebuf B n p) = hp_chunk_state p" "hp_header_offset (rebuf B n p) = hp_header_offset p"
  "hp_chunk_offset (rebuf B n p) = hp_chunk_offset p" "hp_content_length (rebuf B n p) = hp_content_length p"
  "hp_transfer_length (rebuf B n p) = hp_transfer_length p" "hp_header_list (rebuf B n p) = hp_header_list p" "hp_namebuf (rebuf B n p) = hp_namebuf p"
  "hp_msgbuf (rebuf B n p) = B" "hp_bufsize (rebuf B n p) = n" "hp_chunked (rebuf B n p) = hp_chunked p" "hp_complete (rebuf B n p) = hp_complete p"
  "hp_is_resp (rebuf B n p) = hp_is_resp p" "rebuf B n (rebuf B' n' p) = rebuf B n p"
  by (simp_all add: rebuf_def)

lemma rebuf_update [simp]:
  "(rebuf B n p)\<lparr>hp_header_state := a1\<rparr> = rebuf B n (p\<lparr>hp_header_state := a1\<rparr>)" "(rebuf B n p)\<lparr>hp_chunk_state := a2\<rparr> = rebuf B n (p\<lparr>hp_chunk_state := a2\<rparr>)"
  "(rebuf B n p)\<lparr>hp_header_offset := a3\<rparr> = rebuf B n (p\<lparr>hp_header_offset := a3\<rparr>)" "(rebuf B n p)\<lparr>hp_chunk_offset := a3\<rparr> = rebuf B n (p\<lparr>hp_chunk_offset := a3\<rparr>)"
  "(rebuf B n p)\<lparr>hp_content_length := a4\<rparr> = rebuf B n (p\<lparr>hp_content_length := a4\<rparr>)" "(rebuf B n p)\<lparr>hp_transfer_length := a4\<rparr> = rebuf B n (p\<lparr>hp_transfer_length := a4\<rparr>)"
  "(rebuf B n p)\<lparr>hp_version := a5\<rparr> = rebuf B n (p\<lparr>hp_version := a5\<rparr>)" "(rebuf B n p)\<lparr>hp_method := a5\<rparr> = rebuf B n (p\<lparr>hp_method := a5\<rparr>)"
  "(rebuf B n p)\<lparr>hp_uri := a5\<rparr> = rebuf B n (p\<lparr>hp_uri := a5\<rparr>)" "(rebuf B n p)\<lparr>hp_code := a5\<rparr> = rebuf B n (p\<lparr>hp_code := a5\<rparr>)"
  "(rebuf B n p)\<lparr>hp_phrase := a5\<rparr> = rebuf B n (p\<lparr>hp_phrase := a5\<rparr>)" "(rebuf B n p)\<lparr>hp_header_list := a6\<rparr> = rebuf B n (p\<lparr>hp_header_list := a6\<rparr>)"
  "(rebuf B n p)\<lparr>hp_namebuf := a7\<rparr> = rebuf B n (p\<lparr>hp_namebuf := a7\<rparr>)" "(rebuf B n p)\<lparr>hp_expect_continue := a8\<rparr> = rebuf B n (p\<lparr>hp_expect_continue := a8\<rparr>)"
  "(rebuf B n p)\<lparr>hp_keep_alive := a8\<rparr> = rebuf B n (p\<lparr>hp_keep_alive := a8\<rparr>)" "(rebuf B n p)\<lparr>hp_chunked := a8\<rparr> = rebuf B n (p\<lparr>hp_chunked := a8\<rparr>)"
  "(rebuf B n p)\<lparr>hp_complete := a8\<rparr> = rebuf B n (p\<lparr>hp_complete := a8\<rparr>)"
  by (simp_all add: rebuf_def)

lemma add_header_rebuf: "http_parser_add_header mem name val (rebuf B n p) = apsnd (rebuf B n) (http_parser_add_header mem name val p)"
  by (simp add: http_parser_add_header_def)

lemma start_line_rebuf: "parse_start_line mem xs (rebuf B n p) = apsnd (rebuf B n) (parse_start_line mem xs p)"
proof -
  have "match_request_line mem a b c (rebuf B n p) = apsnd (rebuf B n) (match_request_line mem a b c p)" for a b c p
    by (simp add: match_request_line_def)
  moreover have "match_status_line mem a b c (rebuf B n p) = apsnd (rebuf B n) (match_status_line mem a b c p)" for a b c p
    by (simp add: match_status_line_def Let_def)
  ultimately have "match_start_line mem l i (rebuf B n p) = apsnd (rebuf B n) (match_start_line mem l i p)" for l i
    by (auto simp: match_start_line_def split: option.splits prod.splits)
  then show ?thesis by (auto simp: parse_start_line_def Let_def split: line_scan.splits)
qed

lemma header_name_rebuf: "parse_header_name xs (rebuf B n p) = apsnd (rebuf B n) (parse_header_name xs p)"
  by (auto simp: parse_header_name_def split: line_scan.splits)

lemma header_meaning_rebuf: "header_meaning name val (rebuf B n p) = map_option (rebuf B n) (header_meaning name val p)"
proof -
  have c: "match_connection name val (rebuf B n p) = rebuf B n (match_connection name val p)" for p by (simp add: match_connection_def)
  consider "length name \<in> {6, 10}" | "length name = 14" | "length name \<notin> {6, 10, 14}" by blast
  then show ?thesis
  proof cases
    case 2
    then show ?thesis by (cases "atoi (val @ [NUL])") (simp_all add: header_meaning_def)
  qed (auto simp: header_meaning_def c Let_def)
qed

lemma match_header_rebuf: "match_message_header mem name val (rebuf B n p) = map_option (apsnd (rebuf B n)) (match_message_header mem name val p)"
  by (cases "header_meaning name val p") (simp_all add: match_message_header_def header_meaning_rebuf add_header_rebuf)

lemma header_value_rebuf: "parse_header_value mem xs (rebuf B n p) = map_option (apsnd (rebuf B n)) (parse_header_value mem xs p)"
proof (cases "value_spaces xs []")
  case (Value v rest)
  then show ?thesis
    by (cases "match_message_header mem (takeWhile (\<lambda>c. c \<noteq> NUL) (hp_namebuf p)) v p") (auto simp: parse_header_value_def match_header_rebuf)
qed (simp_all add: parse_header_value_def)

lemma header_step_rebuf: "header_step mem xs (rebuf B n p) = map_option (apsnd (rebuf B n)) (header_step mem xs p)"
  by (simp add: header_step_def start_line_rebuf header_name_rebuf header_value_rebuf)

lemma chunk_step_rebuf: "chunk_step xs (rebuf B n p) = apsnd (rebuf B n) (chunk_step xs p)"
proof -
  have "take_chunk l i k (rebuf B n p) = apsnd (rebuf B n) (take_chunk l i k p)" for l i k by (auto simp: take_chunk_def Let_def split: prod.splits)
  then show ?thesis by (auto simp: chunk_step_def parse_chunk_data_def parse_trailer_part_def Let_def split: line_scan.splits)
qed

section \<open>Positions\<close>

lemma add_header_offset: "hp_header_offset (snd (http_parser_add_header mem name val p)) = hp_header_offset p"
  by (simp add: http_parser_add_header_def)

lemma header_meaning_fields:
  "header_meaning name val p = Some q \<Longrightarrow> hp_header_offset q = hp_header_offset p \<and> hp_header_state q = hp_header_state p \<and> hp_msgbuf q = hp_msgbuf p \<and> hp_complete q = hp_complete p"
  by (auto simp: header_meaning_def match_connection_def bind_eq_Some_conv Let_def split: if_splits)

lemma match_header_fields:
  assumes "match_message_header mem name val p = Some (r, q)"
  shows "hp_header_offset q = hp_header_offset p \<and> hp_header_state q = hp_header_state p \<and> hp_msgbuf q = hp_msgbuf p \<and> hp_complete q = hp_complete p"
proof -
  obtain p' where p': "header_meaning name val p = Some p'" "http_parser_add_header mem name val p' = (r, q)"
    using assms by (auto simp: match_message_header_def bind_eq_Some_conv)
  show ?thesis using header_meaning_fields [OF p'(1)] p'(2) by (auto simp: http_parser_add_header_def split: if_splits)
qed

lemma match_start_fields:
  assumes "match_start_line mem l i p = (r, q)"
  shows "hp_header_offset q = (if r > 0 then hp_header_offset p + i + 2 else hp_header_offset p) \<and>
    hp_header_state q = (if r > 0 then HPS_HEADER_NAME else hp_header_state p) \<and> hp_msgbuf q = hp_msgbuf p \<and> hp_complete q = hp_complete p"
proof -
  have "hp_header_offset (snd (match_request_line mem a b c p)) = hp_header_offset p \<and> hp_header_state (snd (match_request_line mem a b c p)) = hp_header_state p \<and>
      hp_msgbuf (snd (match_request_line mem a b c p)) = hp_msgbuf p \<and> hp_complete (snd (match_request_line mem a b c p)) = hp_complete p" for a b c
    by (simp add: match_request_line_def)
  moreover have "hp_header_offset (snd (match_status_line mem a b c p)) = hp_header_offset p \<and> hp_header_state (snd (match_status_line mem a b c p)) = hp_header_state p \<and>
      hp_msgbuf (snd (match_status_line mem a b c p)) = hp_msgbuf p \<and> hp_complete (snd (match_status_line mem a b c p)) = hp_complete p" for a b c
    by (simp add: match_status_line_def Let_def)
  ultimately show ?thesis using assms
    by (auto simp: match_start_line_def split: option.splits if_splits prod.splits) (metis snd_conv)+
qed

lemma header_step_bound:
  assumes "header_step mem xs p = Some (r, q)"
  shows "hp_header_offset p \<le> hp_header_offset q \<and> hp_header_offset q \<le> hp_header_offset p + length xs \<and> (r > 0 \<longrightarrow> hp_header_offset p < hp_header_offset q) \<and>
    hp_msgbuf q = hp_msgbuf p \<and> hp_complete q = hp_complete p"
proof (cases "hp_header_state p = HPS_HEADER_VALUE")
  case True
  then have v: "parse_header_value mem xs p = Some (r, q)" using assms by (simp add: header_step_def)
  show ?thesis
  proof (cases "value_spaces xs []")
    case (Value val rest)
    obtain r' p' where m: "match_message_header mem (takeWhile (\<lambda>c. c \<noteq> NUL) (hp_namebuf p)) val p = Some (r', p')"
      using v Value by (auto simp: parse_header_value_def bind_eq_Some_conv)
    show ?thesis using v Value m match_header_fields [OF m] value_rest(1) [OF Value] by (auto simp: parse_header_value_def split: if_splits)
  qed (use v in \<open>simp_all add: parse_header_value_def\<close>)
next
  case nv: False
  show ?thesis
  proof (cases "hp_header_state p = HPS_START_LINE")
    case True
    then have v: "parse_start_line mem xs p = (r, q)" using assms by (simp add: header_step_def)
    note B = scan_bounds [where stop = "\<lambda>c. c = CR" and bad = bad_char and xs = xs and m = "min HTTP_START_LINE_MAX (length xs)" and i = 0]
    show ?thesis
    proof (cases "is_empty_line xs")
      case True
      then show ?thesis using v by (auto simp: parse_start_line_def is_empty_line_def)
    next
      case False
      then show ?thesis using v B match_start_fields [of mem _ _ p r q]
        by (auto simp: parse_start_line_def Let_def split: line_scan.splits if_splits)
    qed
  next
    case False
    then have v: "parse_header_name xs p = (r, q)" using assms nv by (simp add: header_step_def)
    note B = scan_bounds [where stop = "\<lambda>c. c = CHR '':''" and bad = bad_char and xs = xs and m = "min HTTP_HEADER_NAME_MAX (length xs)" and i = 0]
    show ?thesis using v B by (auto simp: parse_header_name_def is_empty_line_def split: line_scan.splits if_splits)
  qed
qed

lemma chunk_step_bound:
  assumes "chunk_step xs p = (r, q)"
  shows "hp_chunk_offset p \<le> hp_chunk_offset q \<and> hp_chunk_offset q \<le> hp_chunk_offset p + length xs \<and> (r > 0 \<longrightarrow> hp_chunk_offset p < hp_chunk_offset q) \<and>
    hp_msgbuf q = hp_msgbuf p \<and> hp_complete q = hp_complete p \<and> hp_header_state q = hp_header_state p \<and> hp_header_offset q = hp_header_offset p \<and>
    hp_transfer_length q = hp_transfer_length p \<and> hp_chunked q = hp_chunked p"
proof -
  have t: "take_chunk l i k p = (r, q) \<Longrightarrow> i + 2 \<le> k \<Longrightarrow> hp_chunk_offset p \<le> hp_chunk_offset q \<and> hp_chunk_offset q \<le> hp_chunk_offset p + k \<and> (r > 0 \<longrightarrow> hp_chunk_offset p < hp_chunk_offset q) \<and>
    hp_msgbuf q = hp_msgbuf p \<and> hp_complete q = hp_complete p \<and> hp_header_state q = hp_header_state p \<and> hp_header_offset q = hp_header_offset p \<and>
    hp_transfer_length q = hp_transfer_length p \<and> hp_chunked q = hp_chunked p" for l i k
    by (auto simp: take_chunk_def Let_def split: if_splits prod.splits)
  note B = scan_bounds [where stop = "\<lambda>c. c = CR" and bad = "\<lambda>c. False" and xs = xs and i = 0]
  show ?thesis
  proof (cases "hp_chunk_state p = CPS_CHUNK_DATA")
    case True
    then have v: "parse_chunk_data xs p = (r, q)" using assms by (simp add: chunk_step_def)
    show ?thesis
    proof (cases "scan_from (\<lambda>c. c = CR) (\<lambda>c. False) xs (min HTTP_CHUNK_LINE_MAX (length xs)) 0")
      case (Found i)
      then have "i < length xs" using B [where m = "min HTTP_CHUNK_LINE_MAX (length xs)"] by simp
      then show ?thesis using v Found t [of _ i "length xs"] by (auto simp: parse_chunk_data_def Let_def split: if_splits)
    qed (use v in \<open>auto simp: parse_chunk_data_def Let_def split: if_splits\<close>)
  next
    case False
    then have v: "parse_trailer_part xs p = (r, q)" using assms by (simp add: chunk_step_def)
    show ?thesis
    proof (cases "scan_from (\<lambda>c. c = CR) (\<lambda>c. False) xs (min HTTP_TRAILER_LINE_MAX (length xs)) 0")
      case (Found i)
      then have "i < length xs" using B [where m = "min HTTP_TRAILER_LINE_MAX (length xs)"] by simp
      then show ?thesis using v Found by (auto simp: parse_trailer_part_def Let_def split: if_splits)
    qed (use v in \<open>auto simp: parse_trailer_part_def Let_def split: if_splits\<close>)
  qed
qed

section \<open>Loops\<close>

definition set_name :: "string \<Rightarrow> http_parser \<Rightarrow> http_parser" where
  "set_name z p = p\<lparr>hp_namebuf := z\<rparr>"

lemma set_name_simps [simp]:
  "hp_chunk_state (set_name z p) = hp_chunk_state p" "hp_chunk_offset (set_name z p) = hp_chunk_offset p" "hp_header_offset (set_name z p) = hp_header_offset p"
  "hp_transfer_length (set_name z p) = hp_transfer_length p" "hp_content_length (set_name z p) = hp_content_length p" "hp_chunked (set_name z p) = hp_chunked p"
  "hp_msgbuf (set_name z p) = hp_msgbuf p" "hp_header_state (set_name z p) = hp_header_state p" "hp_complete (set_name z p) = hp_complete p"
  "(set_name z p)\<lparr>hp_chunk_offset := a1\<rparr> = set_name z (p\<lparr>hp_chunk_offset := a1\<rparr>)" "(set_name z p)\<lparr>hp_chunk_state := a2\<rparr> = set_name z (p\<lparr>hp_chunk_state := a2\<rparr>)"
  "(set_name z p)\<lparr>hp_complete := a3\<rparr> = set_name z (p\<lparr>hp_complete := a3\<rparr>)" "(set_name z p)\<lparr>hp_msgbuf := a4\<rparr> = set_name z (p\<lparr>hp_msgbuf := a4\<rparr>)"
  "(set_name z p)\<lparr>hp_transfer_length := a5\<rparr> = set_name z (p\<lparr>hp_transfer_length := a5\<rparr>)" "rebuf B n (set_name z p) = set_name z (rebuf B n p)"
  "set_name y (set_name z p) = set_name y p"
  by (simp_all add: set_name_def rebuf_def)

lemma chunk_step_name: "chunk_step xs (set_name z p) = apsnd (set_name z) (chunk_step xs p)"
proof -
  have "take_chunk l i k (set_name z p) = apsnd (set_name z) (take_chunk l i k p)" for l i k by (auto simp: take_chunk_def Let_def split: prod.splits)
  then show ?thesis by (auto simp: chunk_step_def parse_chunk_data_def parse_trailer_part_def Let_def split: line_scan.splits)
qed

lemma header_loop_step:
  "header_step mem (drop (hp_header_offset p) M) p = Some (r, q) \<Longrightarrow> parse_message_header mem M p =
    (if hp_header_state q = HPS_HEADER_COMPLETE then Some (1, q) else if r > 0 then parse_message_header mem M q else Some (r, q))"
  by (subst parse_message_header.simps) simp

lemma chunk_loop_step:
  "chunk_step (drop (hp_chunk_offset p) M) p = (r, q) \<Longrightarrow> parse_chunk M p =
    (if hp_chunk_state q = CPS_CHUNK_COMPLETE then Some (1, q) else if r > 0 then parse_chunk M q else Some (r, q))"
  by (subst parse_chunk.simps) simp

lemma header_step_more:
  assumes "header_step mem xs p = Some (r, q)"
  shows "r \<noteq> 0 \<Longrightarrow> header_step mem (xs @ ys) p = Some (r, q)"
    "r = 0 \<Longrightarrow> hp_header_state p \<noteq> HPS_HEADER_COMPLETE \<Longrightarrow> \<exists>z. q = set_name z p \<and>
      (header_step mem (xs @ ys) q = header_step mem (xs @ ys) p \<or> hp_header_state p = HPS_HEADER_NAME \<and> is_empty_line (xs @ ys))"
proof -
  show "r \<noteq> 0 \<Longrightarrow> header_step mem (xs @ ys) p = Some (r, q)"
    using assms start_line_more(1) [of mem xs p r q] header_name_more(1) [of xs p r q] header_value_more(1) [of mem xs p r q]
    by (auto simp: header_step_def split: if_splits)
  assume r: "r = 0" "hp_header_state p \<noteq> HPS_HEADER_COMPLETE"
  show "\<exists>z. q = set_name z p \<and> (header_step mem (xs @ ys) q = header_step mem (xs @ ys) p \<or> hp_header_state p = HPS_HEADER_NAME \<and> is_empty_line (xs @ ys))"
  proof (cases "hp_header_state p = HPS_HEADER_NAME")
    case True
    then have "parse_header_name xs p = (0, q)" using assms r by (simp add: header_step_def)
    from header_name_more(2) [OF this, of ys] True show ?thesis by (fastforce simp: set_name_def header_step_def)
  next
    case False
    then have "q = p" using assms r start_line_more(2) [of mem xs p r q] header_value_more(2) [of mem xs p r q]
      by (cases "hp_header_state p") (auto simp: header_step_def)
    then show ?thesis by (intro exI [of _ "hp_namebuf p"]) (simp add: set_name_def)
  qed
qed

definition same_result :: "(int \<times> http_parser) option \<Rightarrow> (int \<times> http_parser) option \<Rightarrow> bool" where
  "same_result x y \<longleftrightarrow> map_option (apsnd (set_name [])) x = map_option (apsnd (set_name [])) y"

definition header_more :: "string \<Rightarrow> nat \<Rightarrow> string \<Rightarrow> (nat \<Rightarrow> bool) \<Rightarrow> string \<Rightarrow> http_parser \<Rightarrow> int \<Rightarrow> http_parser \<Rightarrow> bool" where
  "header_more B n C mem M p r q \<longleftrightarrow>
     (r \<noteq> 0 \<longrightarrow> parse_message_header mem (M @ C) (rebuf B n p) = Some (r, rebuf B n q)) \<and>
     (r = 0 \<longrightarrow> same_result (parse_message_header mem (M @ C) (rebuf B n p)) (parse_message_header mem (M @ C) (rebuf B n q))) \<and>
     hp_header_offset q \<le> length M \<and> hp_msgbuf q = hp_msgbuf p \<and> hp_complete q = hp_complete p \<and>
     (hp_header_state q = HPS_HEADER_COMPLETE \<longleftrightarrow> r > 0) \<and> parse_message_header mem M (rebuf B n p) = Some (r, rebuf B n q)"

lemma header_loop_more:
  assumes "parse_message_header mem0 M0 p0 = Some y0"
  shows "hp_header_offset p0 \<le> length M0 \<and> hp_header_state p0 \<noteq> HPS_HEADER_COMPLETE \<longrightarrow> header_more B n C mem0 M0 p0 (fst y0) (snd y0)"
proof (rule parse_message_header.raw_induct [where P = "\<lambda>mem M p y. hp_header_offset p \<le> length M \<and> hp_header_state p \<noteq> HPS_HEADER_COMPLETE \<longrightarrow>
    header_more B n C mem M p (fst y) (snd y)", OF _ assms], rule impI)
  fix f mem M p y
  assume IH: "\<And>mem M p y. f mem M p = Some y \<Longrightarrow> hp_header_offset p \<le> length M \<and> hp_header_state p \<noteq> HPS_HEADER_COMPLETE \<longrightarrow> header_more B n C mem M p (fst y) (snd y)"
    and body: "header_step mem (drop (hp_header_offset p) M) p \<bind> (\<lambda>(ret, q). if hp_header_state q = HPS_HEADER_COMPLETE then Some (1, q)
      else if 0 < ret then f mem M q else Some (ret, q)) = Some y"
    and ok: "hp_header_offset p \<le> length M \<and> hp_header_state p \<noteq> HPS_HEADER_COMPLETE"
  from body obtain r q where st: "header_step mem (drop (hp_header_offset p) M) p = Some (r, q)" by (auto simp: bind_eq_Some_conv)
  have d: "drop (hp_header_offset p) (M @ C) = drop (hp_header_offset p) M @ C" using ok by simp
  note b = header_step_bound [OF st]
  have q: "hp_header_offset q \<le> length M" using b ok by auto
  have s0: "header_step mem (drop (hp_header_offset p) M) (rebuf B n p) = Some (r, rebuf B n q)" using st by (simp add: header_step_rebuf)
  note L0 = header_loop_step [of mem "rebuf B n p" M, simplified, OF s0]
  show "header_more B n C mem M p (fst y) (snd y)"
  proof (cases "r = 0")
    case False
    have "header_step mem (drop (hp_header_offset p) (M @ C)) p = Some (r, q)" using header_step_more(1) [OF st False, of C] d by simp
    then have "header_step mem (drop (hp_header_offset (rebuf B n p)) (M @ C)) (rebuf B n p) = Some (r, rebuf B n q)" by (simp add: header_step_rebuf)
    note L = header_loop_step [OF this]
    consider "hp_header_state q = HPS_HEADER_COMPLETE" "y = (1, q)" | "hp_header_state q \<noteq> HPS_HEADER_COMPLETE" "r > 0" "f mem M q = Some y"
      | "hp_header_state q \<noteq> HPS_HEADER_COMPLETE" "r < 0" "y = (r, q)" using body st False by (auto split: if_splits)
    then show ?thesis
    proof cases
      case 2
      from IH [OF 2(3)] q 2(1) have "header_more B n C mem M q (fst y) (snd y)" by simp
      then show ?thesis using L L0 2 b by (simp add: header_more_def)
    qed (use L L0 q b in \<open>auto simp: header_more_def\<close>)
  next
    case True
    obtain z where z: "q = set_name z p"
      and e: "header_step mem (drop (hp_header_offset p) M @ C) q = header_step mem (drop (hp_header_offset p) M @ C) p \<or>
        hp_header_state p = HPS_HEADER_NAME \<and> is_empty_line (drop (hp_header_offset p) M @ C)" using header_step_more(2) [OF st True, of C] ok by auto
    then have y: "y = (0, q)" using body st True ok by (auto split: if_splits)
    have "same_result (parse_message_header mem (M @ C) (rebuf B n p)) (parse_message_header mem (M @ C) (rebuf B n q))"
    proof (cases "is_empty_line (drop (hp_header_offset p) M @ C) \<and> hp_header_state p = HPS_HEADER_NAME")
      case True
      then have "header_step mem (drop (hp_header_offset (rebuf B n x)) (M @ C)) (rebuf B n x) =
          Some (1, rebuf B n (x\<lparr>hp_header_offset := hp_header_offset x + 2, hp_header_state := HPS_HEADER_COMPLETE\<rparr>))"
        if "x = p \<or> x = q" for x using that z d by (auto simp: header_step_def parse_header_name_def)
      then have l: "parse_message_header mem (M @ C) (rebuf B n x) =
          Some (1, rebuf B n (x\<lparr>hp_header_offset := hp_header_offset x + 2, hp_header_state := HPS_HEADER_COMPLETE\<rparr>))"
        if "x = p \<or> x = q" for x using header_loop_step that by fastforce
      have "map_option (apsnd (set_name [])) (Some (1 :: int, rebuf B n (p\<lparr>hp_header_offset := hp_header_offset p + 2, hp_header_state := HPS_HEADER_COMPLETE\<rparr>))) =
          map_option (apsnd (set_name [])) (Some (1, rebuf B n (q\<lparr>hp_header_offset := hp_header_offset q + 2, hp_header_state := HPS_HEADER_COMPLETE\<rparr>)))"
        by (simp add: z set_name_def rebuf_def)
      then show ?thesis using l [of p] l [of q] by (simp add: same_result_def)
    next
      case False
      then have "header_step mem (drop (hp_header_offset (rebuf B n q)) (M @ C)) (rebuf B n q) = header_step mem (drop (hp_header_offset (rebuf B n p)) (M @ C)) (rebuf B n p)"
        using e d arg_cong [OF z, of hp_header_offset] by (auto simp: header_step_rebuf)
      then have "parse_message_header mem (M @ C) (rebuf B n q) = parse_message_header mem (M @ C) (rebuf B n p)"
        by (subst (1 2) parse_message_header.simps) simp
      then show ?thesis by (simp add: same_result_def)
    qed
    then show ?thesis using y z ok L0 True by (simp add: header_more_def)
  qed
qed

lemma chunk_step_more:
  assumes "chunk_step xs p = (r, q)"
  shows "r \<noteq> 0 \<Longrightarrow> chunk_step (xs @ ys) p = (r, q)" "r = 0 \<Longrightarrow> q = p"
  using assms chunk_data_more [of xs p r q] trailer_more [of xs p r q] by (auto simp: chunk_step_def split: if_splits)

definition chunk_more :: "string \<Rightarrow> nat \<Rightarrow> string \<Rightarrow> string \<Rightarrow> http_parser \<Rightarrow> int \<Rightarrow> http_parser \<Rightarrow> bool" where
  "chunk_more B n C M p r q \<longleftrightarrow>
     (r \<noteq> 0 \<longrightarrow> parse_chunk (M @ C) (rebuf B n p) = Some (r, rebuf B n q)) \<and>
     (r = 0 \<longrightarrow> parse_chunk (M @ C) (rebuf B n p) = parse_chunk (M @ C) (rebuf B n q)) \<and>
     hp_chunk_offset q \<le> length M \<and> hp_msgbuf q = hp_msgbuf p \<and> hp_complete q = hp_complete p \<and> hp_header_state q = hp_header_state p \<and>
     hp_header_offset q = hp_header_offset p \<and> hp_transfer_length q = hp_transfer_length p \<and> hp_chunked q = hp_chunked p \<and>
     (hp_chunk_state q = CPS_CHUNK_COMPLETE \<longleftrightarrow> r > 0) \<and> r \<le> 1 \<and>
     (\<forall>z. parse_chunk M (set_name z (rebuf B n p)) = Some (r, set_name z (rebuf B n q)))"

lemma chunk_loop_more:
  assumes "parse_chunk M0 p0 = Some y0"
  shows "hp_chunk_offset p0 \<le> length M0 \<and> hp_chunk_state p0 \<noteq> CPS_CHUNK_COMPLETE \<longrightarrow> chunk_more B n C M0 p0 (fst y0) (snd y0)"
proof (rule parse_chunk.raw_induct [where P = "\<lambda>M p y. hp_chunk_offset p \<le> length M \<and> hp_chunk_state p \<noteq> CPS_CHUNK_COMPLETE \<longrightarrow>
    chunk_more B n C M p (fst y) (snd y)", OF _ assms], rule impI)
  fix f M p y
  assume IH: "\<And>M p y. f M p = Some y \<Longrightarrow> hp_chunk_offset p \<le> length M \<and> hp_chunk_state p \<noteq> CPS_CHUNK_COMPLETE \<longrightarrow> chunk_more B n C M p (fst y) (snd y)"
    and body: "(case chunk_step (drop (hp_chunk_offset p) M) p of (ret, q) \<Rightarrow> if hp_chunk_state q = CPS_CHUNK_COMPLETE then Some (1, q)
      else if 0 < ret then f M q else Some (ret, q)) = Some y"
    and ok: "hp_chunk_offset p \<le> length M \<and> hp_chunk_state p \<noteq> CPS_CHUNK_COMPLETE"
  obtain r q where st: "chunk_step (drop (hp_chunk_offset p) M) p = (r, q)" by fastforce
  have d: "drop (hp_chunk_offset p) (M @ C) = drop (hp_chunk_offset p) M @ C" using ok by simp
  note b = chunk_step_bound [OF st]
  have q: "hp_chunk_offset q \<le> length M" using b ok by auto
  have s0: "chunk_step (drop (hp_chunk_offset p) M) (set_name z (rebuf B n p)) = (r, set_name z (rebuf B n q))" for z
    using st by (simp add: chunk_step_rebuf chunk_step_name)
  have L0: "parse_chunk M (set_name z (rebuf B n p)) = (if hp_chunk_state q = CPS_CHUNK_COMPLETE then Some (1, set_name z (rebuf B n q))
      else if r > 0 then parse_chunk M (set_name z (rebuf B n q)) else Some (r, set_name z (rebuf B n q)))" for z
    using chunk_loop_step [of "set_name z (rebuf B n p)" M] s0 [of z] by simp
  show "chunk_more B n C M p (fst y) (snd y)"
  proof (cases "r = 0")
    case False
    have "chunk_step (drop (hp_chunk_offset p) (M @ C)) p = (r, q)" using chunk_step_more(1) [OF st False, of C] d by simp
    then have "chunk_step (drop (hp_chunk_offset (rebuf B n p)) (M @ C)) (rebuf B n p) = (r, rebuf B n q)" by (simp add: chunk_step_rebuf)
    note L = chunk_loop_step [OF this]
    consider "hp_chunk_state q = CPS_CHUNK_COMPLETE" "y = (1, q)" | "hp_chunk_state q \<noteq> CPS_CHUNK_COMPLETE" "r > 0" "f M q = Some y"
      | "hp_chunk_state q \<noteq> CPS_CHUNK_COMPLETE" "r < 0" "y = (r, q)" using body st False by (auto split: if_splits)
    then show ?thesis
    proof cases
      case 2
      from IH [OF 2(3)] q 2(1) have "chunk_more B n C M q (fst y) (snd y)" by simp
      then show ?thesis using L L0 2 b by (simp add: chunk_more_def)
    qed (use L L0 q b in \<open>auto simp: chunk_more_def\<close>)
  next
    case True
    then have "q = p" using chunk_step_more(2) [OF st] by simp
    then have "y = (0, p)" using body st True ok by simp
    then show ?thesis using ok L0 True \<open>q = p\<close> by (simp add: chunk_more_def)
  qed
qed

section \<open>Body and message\<close>

definition body_ok :: "http_parser \<Rightarrow> bool" where
  "body_ok p \<longleftrightarrow> hp_transfer_length p = None \<and> hp_chunked p \<longrightarrow> hp_chunk_offset p \<le> length (hp_msgbuf p) \<and> hp_chunk_state p \<noteq> CPS_CHUNK_COMPLETE"

lemma rebuf_self [simp]: "rebuf (hp_msgbuf p) (hp_bufsize p) p = p"
  by (simp add: rebuf_def)

lemma rebuf_msgbuf [simp]: "(rebuf B n p)\<lparr>hp_msgbuf := B'\<rparr> = rebuf B' n p"
  by (simp add: rebuf_def)

lemma body_chunked:
  assumes "hp_transfer_length p = None" "hp_chunked p" "hp_chunk_state p \<noteq> CPS_CHUNK_COMPLETE"
  shows "parse_body p = do { (ret, p) \<leftarrow> parse_chunk (hp_msgbuf p) p; if ret \<le> 0 then Some (ret, 0, p)
    else Some (1, length (hp_msgbuf p) - hp_chunk_offset p, p\<lparr>hp_msgbuf := take (hp_chunk_offset p) (hp_msgbuf p), hp_complete := True\<rparr>) }"
  using assms by (simp add: parse_body_def)

lemma body_more:
  assumes "parse_body p = Some (r, e, q)" "body_ok p"
  shows "r \<noteq> 0 \<Longrightarrow> parse_body (rebuf (hp_msgbuf p @ C) n p) = Some (r, if r = 1 then e + length C else 0, rebuf (if r = 1 then hp_msgbuf q else hp_msgbuf q @ C) n q)"
    "r = 0 \<Longrightarrow> parse_body (rebuf (hp_msgbuf p @ C) n p) = parse_body (rebuf (hp_msgbuf p @ C) n q) \<and> e = 0 \<and> hp_msgbuf q = hp_msgbuf p \<and> body_ok q \<and>
      hp_complete q = hp_complete p \<and> hp_header_state q = hp_header_state p \<and> hp_header_offset q = hp_header_offset p"
    "parse_body (set_name z (rebuf (hp_msgbuf p) n p)) = Some (r, e, set_name z (rebuf (hp_msgbuf q) n q))"
proof -
  let ?goal = "(r \<noteq> 0 \<longrightarrow> parse_body (rebuf (hp_msgbuf p @ C) n p) = Some (r, if r = 1 then e + length C else 0, rebuf (if r = 1 then hp_msgbuf q else hp_msgbuf q @ C) n q)) \<and>
    (r = 0 \<longrightarrow> parse_body (rebuf (hp_msgbuf p @ C) n p) = parse_body (rebuf (hp_msgbuf p @ C) n q) \<and> e = 0 \<and> hp_msgbuf q = hp_msgbuf p \<and> body_ok q \<and>
      hp_complete q = hp_complete p \<and> hp_header_state q = hp_header_state p \<and> hp_header_offset q = hp_header_offset p) \<and>
    parse_body (set_name z (rebuf (hp_msgbuf p) n p)) = Some (r, e, set_name z (rebuf (hp_msgbuf q) n q))"
  have ?goal
  proof (cases "hp_transfer_length p")
    case (Some k)
    let ?t = "hp_header_offset p + k"
    show ?thesis
    proof (cases "?t \<le> length (hp_msgbuf p)")
      case True
      then have "r = 1" "e = length (hp_msgbuf p) - ?t" "q = p\<lparr>hp_msgbuf := take ?t (hp_msgbuf p), hp_complete := True\<rparr>"
        using assms(1) Some by (auto simp: parse_body_def Let_def)
      then show ?thesis using True Some by (simp add: parse_body_def Let_def) (simp add: rebuf_def)
    next
      case False
      then have "r = 0" "e = 0" "q = p" using assms(1) Some by (auto simp: parse_body_def Let_def)
      then show ?thesis using False Some by (simp add: parse_body_def Let_def body_ok_def)
    qed
  next
    case None
    show ?thesis
    proof (cases "hp_chunked p")
      case False
      then have "r = 0" "e = 0" "q = p" using assms(1) None by (auto simp: parse_body_def)
      then show ?thesis using False None by (simp add: parse_body_def body_ok_def)
    next
      case True
      have ok: "hp_chunk_offset p \<le> length (hp_msgbuf p)" "hp_chunk_state p \<noteq> CPS_CHUNK_COMPLETE" using assms(2) None True by (auto simp: body_ok_def)
      note P = body_chunked [OF None True ok(2)]
      obtain rc qc where c: "parse_chunk (hp_msgbuf p) p = Some (rc, qc)" using assms(1) P by (auto simp: bind_eq_Some_conv)
      have M: "chunk_more B n C (hp_msgbuf p) p rc qc" for B C using chunk_loop_more [OF c, of B n C] ok by simp
      have f: "hp_msgbuf qc = hp_msgbuf p" "hp_chunk_offset qc \<le> length (hp_msgbuf p)" "hp_transfer_length qc = None" "hp_chunked qc"
        "hp_complete qc = hp_complete p" "hp_header_state qc = hp_header_state p" "hp_header_offset qc = hp_header_offset p"
        using M [of "[]" "[]"] None True by (auto simp: chunk_more_def)
      have P': "parse_body x = do { (ret, p) \<leftarrow> parse_chunk (hp_msgbuf x) x; if ret \<le> 0 then Some (ret, 0, p)
          else Some (1, length (hp_msgbuf p) - hp_chunk_offset p, p\<lparr>hp_msgbuf := take (hp_chunk_offset p) (hp_msgbuf p), hp_complete := True\<rparr>) }"
        if "x \<in> {rebuf B n p, set_name z (rebuf B n p)}" for x B using body_chunked [of x] that None True ok by auto
      have N: "parse_chunk (hp_msgbuf p) (set_name z (rebuf (hp_msgbuf p) n p)) = Some (rc, set_name z (rebuf (hp_msgbuf p) n qc))"
        using M [of "hp_msgbuf p" "[]"] by (auto simp: chunk_more_def)
      consider "rc > 0" | "rc < 0" | "rc = 0" by linarith
      then show ?thesis
      proof cases
        case 1
        then have rq: "r = 1" "e = length (hp_msgbuf p) - hp_chunk_offset qc" "q = qc\<lparr>hp_msgbuf := take (hp_chunk_offset qc) (hp_msgbuf p), hp_complete := True\<rparr>"
          using assms(1) P c f by auto
        have "parse_chunk (hp_msgbuf p @ C) (rebuf (hp_msgbuf p @ C) n p) = Some (rc, rebuf (hp_msgbuf p @ C) n qc)"
          using M [of "hp_msgbuf p @ C" C] 1 by (simp add: chunk_more_def)
        then show ?thesis using P' [of "rebuf (hp_msgbuf p @ C) n p" "hp_msgbuf p @ C"] P' [of "set_name z (rebuf (hp_msgbuf p) n p)" "hp_msgbuf p"] N 1 rq f
          by simp (simp add: rebuf_def)
      next
        case 2
        then have rq: "r = rc" "e = 0" "q = qc" using assms(1) P c f by auto
        have "parse_chunk (hp_msgbuf p @ C) (rebuf (hp_msgbuf p @ C) n p) = Some (rc, rebuf (hp_msgbuf p @ C) n qc)"
          using M [of "hp_msgbuf p @ C" C] 2 by (simp add: chunk_more_def)
        then show ?thesis using P' [of "rebuf (hp_msgbuf p @ C) n p" "hp_msgbuf p @ C"] P' [of "set_name z (rebuf (hp_msgbuf p) n p)" "hp_msgbuf p"] N 2 rq f by simp
      next
        case 3
        then have rq: "r = 0" "e = 0" "q = qc" using assms(1) P c f by auto
        have cs: "hp_chunk_state qc \<noteq> CPS_CHUNK_COMPLETE" using M [of "[]" "[]"] 3 by (simp add: chunk_more_def)
        have "parse_chunk (hp_msgbuf p @ C) (rebuf (hp_msgbuf p @ C) n p) = parse_chunk (hp_msgbuf p @ C) (rebuf (hp_msgbuf p @ C) n qc)"
          using M [of "hp_msgbuf p @ C" C] 3 by (simp add: chunk_more_def)
        then have "parse_body (rebuf (hp_msgbuf p @ C) n p) = parse_body (rebuf (hp_msgbuf p @ C) n qc)"
          using P' [of "rebuf (hp_msgbuf p @ C) n p" "hp_msgbuf p @ C"] body_chunked [of "rebuf (hp_msgbuf p @ C) n qc"] f cs by simp
        then show ?thesis using P' [of "set_name z (rebuf (hp_msgbuf p) n p)" "hp_msgbuf p"] N 3 rq f cs by (simp add: body_ok_def)
      qed
    qed
  qed
  then show "r \<noteq> 0 \<Longrightarrow> parse_body (rebuf (hp_msgbuf p @ C) n p) = Some (r, if r = 1 then e + length C else 0, rebuf (if r = 1 then hp_msgbuf q else hp_msgbuf q @ C) n q)"
    "r = 0 \<Longrightarrow> parse_body (rebuf (hp_msgbuf p @ C) n p) = parse_body (rebuf (hp_msgbuf p @ C) n q) \<and> e = 0 \<and> hp_msgbuf q = hp_msgbuf p \<and> body_ok q \<and>
      hp_complete q = hp_complete p \<and> hp_header_state q = hp_header_state p \<and> hp_header_offset q = hp_header_offset p"
    "parse_body (set_name z (rebuf (hp_msgbuf p) n p)) = Some (r, e, set_name z (rebuf (hp_msgbuf q) n q))" by blast+
qed

text \<open>Parsers that differ only in the capacity of the buffer and in the scratch buffer for names.\<close>

definition alike :: "http_parser \<Rightarrow> http_parser \<Rightarrow> bool" where
  "alike p q \<longleftrightarrow> p\<lparr>hp_namebuf := [], hp_bufsize := 0\<rparr> = q\<lparr>hp_namebuf := [], hp_bufsize := 0\<rparr>"

lemma alikeI: "alike (set_name z (rebuf (hp_msgbuf p) n p)) p" "alike (rebuf B n p) (p\<lparr>hp_msgbuf := B\<rparr>)"
  by (simp_all add: alike_def set_name_def rebuf_def)

text \<open>A parser between two calls: positions lie inside the buffer, and the message is not complete.\<close>

definition hp_ok :: "http_parser \<Rightarrow> bool" where
  "hp_ok p \<longleftrightarrow> \<not> hp_complete p \<and> hp_header_offset p \<le> length (hp_msgbuf p) \<and> (hp_header_state p = HPS_HEADER_COMPLETE \<longrightarrow> body_ok p)"

lemma after_header_simps:
  "after_header (set_name z p) = set_name z (after_header p)" "after_header (rebuf B n p) = rebuf B n (after_header p)"
  "hp_msgbuf (after_header p) = hp_msgbuf p" "hp_complete (after_header p) = hp_complete p" "hp_header_state (after_header p) = hp_header_state p"
  "hp_header_offset (after_header p) = hp_header_offset p"
  by (simp_all add: after_header_def)

lemma after_header_ok: "hp_header_offset p \<le> length (hp_msgbuf p) \<Longrightarrow> body_ok (after_header p)"
  by (simp add: after_header_def body_ok_def)

lemma body_ok_buffer: "body_ok p \<Longrightarrow> body_ok (rebuf (hp_msgbuf p @ C) n p)"
  by (auto simp: body_ok_def)

lemma same_result_Some:
  assumes "same_result x (Some (r, q))"
  shows "\<exists>z. x = Some (r, set_name z q)"
proof -
  obtain q' where x: "x = Some (r, q')" "set_name [] q' = set_name [] q" using assms by (auto simp: same_result_def)
  have "q' = set_name (hp_namebuf q') q"
    using x(2) unfolding set_name_def by (metis http_parser.surjective http_parser.update_convs(13))
  then show ?thesis using x(1) by blast
qed

lemma buffer_body:
  assumes "hp_header_state p = HPS_HEADER_COMPLETE"
  shows "parse_buffer mem p = parse_body p"
  using assms by (simp add: parse_buffer_def)

lemma body_pieces:
  assumes "body_ok p" "hp_msgbuf p = M" "parse_body p = Some (r1, e1, p1)"
  shows "r1 = 0 \<Longrightarrow> parse_body (rebuf (M @ b) n2 p1) = Some (r, e, p2) \<Longrightarrow> \<exists>p3. parse_body (rebuf (M @ b) n3 p) = Some (r, e, p3) \<and> alike p3 p2"
    "r1 \<noteq> 0 \<Longrightarrow> \<exists>p3. parse_body (rebuf (M @ b) n3 p) = Some (r1, if r1 = 1 then e1 + length b else 0, p3) \<and>
      alike p3 (if r1 = 1 then p1 else p1\<lparr>hp_msgbuf := hp_msgbuf p1 @ b\<rparr>)"
proof -
  assume r1: "r1 = 0" and p2: "parse_body (rebuf (M @ b) n2 p1) = Some (r, e, p2)"
  note B = body_more(2) [OF assms(3,1) r1, of b n3]
  have "body_ok (rebuf (M @ b) n2 p1)" using body_ok_buffer [of p1 b n2] B assms(2) by simp
  from body_more(3) [OF p2 this, of "hp_namebuf p1" n3]
  have "parse_body (rebuf (M @ b) n3 p1) = Some (r, e, set_name (hp_namebuf p1) (rebuf (hp_msgbuf p2) n3 p2))" by (simp add: set_name_def rebuf_def)
  then show "\<exists>p3. parse_body (rebuf (M @ b) n3 p) = Some (r, e, p3) \<and> alike p3 p2" using B assms(2) alikeI(1) by auto
next
  assume "r1 \<noteq> 0"
  then show "\<exists>p3. parse_body (rebuf (M @ b) n3 p) = Some (r1, if r1 = 1 then e1 + length b else 0, p3) \<and>
      alike p3 (if r1 = 1 then p1 else p1\<lparr>hp_msgbuf := hp_msgbuf p1 @ b\<rparr>)"
    using body_more(1) [OF assms(3,1), of b n3] assms(2) alikeI(2) [of _ n3 p1] by (auto simp: alike_def rebuf_def)
qed

lemma buffer_pieces:
  assumes "hp_ok p" "hp_msgbuf p = M" "parse_buffer mem p = Some (r1, e1, p1)"
  shows "r1 = 0 \<Longrightarrow> e1 = 0 \<and> hp_ok p1 \<and> hp_msgbuf p1 = M \<and>
      (\<forall>n2 r e p2. parse_buffer mem (rebuf (M @ b) n2 p1) = Some (r, e, p2) \<longrightarrow>
        (\<exists>p3. parse_buffer mem (rebuf (M @ b) n3 p) = Some (r, e, p3) \<and> alike p3 p2))"
    "r1 \<noteq> 0 \<Longrightarrow> \<exists>p3. parse_buffer mem (rebuf (M @ b) n3 p) = Some (r1, if r1 = 1 then e1 + length b else 0, p3) \<and>
      alike p3 (if r1 = 1 then p1 else p1\<lparr>hp_msgbuf := hp_msgbuf p1 @ b\<rparr>)"
proof -
  let ?first = "e1 = 0 \<and> hp_ok p1 \<and> hp_msgbuf p1 = M \<and>
      (\<forall>n2 r e p2. parse_buffer mem (rebuf (M @ b) n2 p1) = Some (r, e, p2) \<longrightarrow>
        (\<exists>p3. parse_buffer mem (rebuf (M @ b) n3 p) = Some (r, e, p3) \<and> alike p3 p2))"
  let ?final = "\<exists>p3. parse_buffer mem (rebuf (M @ b) n3 p) = Some (r1, if r1 = 1 then e1 + length b else 0, p3) \<and>
      alike p3 (if r1 = 1 then p1 else p1\<lparr>hp_msgbuf := hp_msgbuf p1 @ b\<rparr>)"
  have "(r1 = 0 \<longrightarrow> ?first) \<and> (r1 \<noteq> 0 \<longrightarrow> ?final)"
  proof (cases "hp_header_state p = HPS_HEADER_COMPLETE")
    case True
    then have b1: "parse_body p = Some (r1, e1, p1)" "body_ok p" using assms by (auto simp: hp_ok_def buffer_body)
    note F = body_more(2) [OF b1, of b n3]
    show ?thesis using body_pieces(1) [OF b1(2) assms(2) b1(1), of b _ _ _ _ n3] body_pieces(2) [OF b1(2) assms(2) b1(1), of b n3] F True assms(1,2) by (auto simp: hp_ok_def buffer_body)
  next
    case False
    obtain rh ph where h: "parse_message_header mem M p = Some (rh, ph)" using assms False by (auto simp: parse_buffer_def bind_eq_Some_conv)
    have H: "header_more B n C mem M p rh ph" for B n C using header_loop_more [OF h, of B n C] assms(1,2) False by (simp add: hp_ok_def)
    have hf: "hp_header_offset ph \<le> length M" "hp_msgbuf ph = M" "hp_complete ph = hp_complete p" "hp_header_state ph = HPS_HEADER_COMPLETE \<longleftrightarrow> rh > 0"
      using H [of "[]" 0 "[]"] assms(2) by (auto simp: header_more_def)
    consider "rh > 0" | "rh < 0" | "rh = 0" by linarith
    then show ?thesis
    proof cases
      case 1
      have b1: "parse_body (after_header ph) = Some (r1, e1, p1)" "body_ok (after_header ph)" using assms(2,3) h False 1 hf after_header_ok [of ph] by (auto simp: parse_buffer_def)
      have hm: "hp_msgbuf (after_header ph) = M" using hf by (simp add: after_header_simps)
      have L: "parse_buffer mem (rebuf (M @ b) n3 p) = parse_body (rebuf (M @ b) n3 (after_header ph))"
        using H [of "M @ b" n3 b] 1 False by (simp add: header_more_def parse_buffer_def after_header_simps)
      note F = body_more(2) [OF b1, of b n3]
      have "r1 = 0 \<Longrightarrow> hp_header_state p1 = HPS_HEADER_COMPLETE" using F hf(4) 1 by (simp add: after_header_simps)
      then show ?thesis using body_pieces(1) [OF b1(2) hm b1(1), of b _ _ _ _ n3] body_pieces(2) [OF b1(2) hm b1(1), of b n3] F L hm hf assms(1) 1 by (auto simp: hp_ok_def buffer_body after_header_simps)
    next
      case 2
      then have e: "r1 = rh" "e1 = 0" "p1 = ph" using assms(2,3) h False by (auto simp: parse_buffer_def)
      have "parse_buffer mem (rebuf (M @ b) n3 p) = Some (rh, 0, rebuf (M @ b) n3 ph)"
        using H [of "M @ b" n3 b] 2 False by (simp add: header_more_def parse_buffer_def)
      then show ?thesis using e 2 hf alikeI(2) by auto
    next
      case 3
      then have e: "r1 = 0" "e1 = 0" "p1 = ph" using assms(2,3) h False by (auto simp: parse_buffer_def)
      have n1: "hp_header_state ph \<noteq> HPS_HEADER_COMPLETE" using hf 3 by simp
      have "\<exists>p3. parse_buffer mem (rebuf (M @ b) n3 p) = Some (r, e, p3) \<and> alike p3 p2" if p2: "parse_buffer mem (rebuf (M @ b) n2 ph) = Some (r, e, p2)" for n2 r e p2
      proof -
        obtain r' q' where l: "parse_message_header mem (M @ b) (rebuf (M @ b) n2 ph) = Some (r', q')" using p2 n1 by (auto simp: parse_buffer_def bind_eq_Some_conv)
        have H2: "header_more (M @ b) n3 [] mem (M @ b) (rebuf (M @ b) n2 ph) r' q'" using header_loop_more [OF l, of "M @ b" n3 "[]"] hf n1 by simp
        have q': "hp_msgbuf q' = M @ b" "hp_header_offset q' \<le> length (M @ b)" using H2 by (auto simp: header_more_def)
        have "same_result (parse_message_header mem (M @ b) (rebuf (M @ b) n3 p)) (Some (r', rebuf (M @ b) n3 q'))"
          using H [of "M @ b" n3 b] H2 3 by (simp add: header_more_def)
        then obtain z where z: "parse_message_header mem (M @ b) (rebuf (M @ b) n3 p) = Some (r', set_name z (rebuf (M @ b) n3 q'))"
          using same_result_Some by blast
        show ?thesis
        proof (cases "r' > 0")
          case True
          then have b2: "parse_body (after_header q') = Some (r, e, p2)" using p2 l n1 by (auto simp: parse_buffer_def)
          have "body_ok (after_header q')" using after_header_ok q' by simp
          from body_more(3) [OF b2 this, of z n3] have "parse_body (after_header (set_name z (rebuf (M @ b) n3 q'))) = Some (r, e, set_name z (rebuf (hp_msgbuf p2) n3 p2))"
            using q' by (simp add: after_header_simps)
          then show ?thesis using z True False alikeI(1) by (auto simp: parse_buffer_def)
        next
          case le: False
          then have "r = r'" "e = 0" "p2 = q'" using p2 l n1 by (auto simp: parse_buffer_def)
          then show ?thesis using z le False q' alikeI(1) [of z q' n3] by (auto simp: parse_buffer_def)
        qed
      qed
      then show ?thesis using e hf n1 assms(1) by (auto simp: hp_ok_def)
    qed
  qed
  then show "r1 = 0 \<Longrightarrow> ?first" "r1 \<noteq> 0 \<Longrightarrow> ?final" by blast+
qed

section \<open>Progress\<close>

text \<open>A step that had to wait for more bytes uses up all the old ones when it succeeds.\<close>

lemma value_inside:
  "value_spaces (xs @ ys) acc = Value v rest \<Longrightarrow> length ys < length rest \<Longrightarrow> value_spaces xs acc \<noteq> Value_more"
  "value_chars (xs @ ys) acc = Value v rest \<Longrightarrow> length ys < length rest \<Longrightarrow> value_chars xs acc \<noteq> Value_more"
  "value_end (xs @ ys) acc = Value v rest \<Longrightarrow> length ys < length rest \<Longrightarrow> value_end xs acc \<noteq> Value_more"
proof (induction xs acc and xs acc and xs acc rule: value_spaces_value_chars_value_end.induct)
  case (1 acc)
  then show ?case using value_rest(1) [of ys acc v rest] by simp
next
  case (3 acc)
  then show ?case using value_rest(2) [of ys acc v rest] by simp
next
  case (4 c cs acc)
  show ?case
  proof (cases "cs = []")
    case True
    have "value_end ys acc = Value v rest \<Longrightarrow> length rest < length ys" "value_chars ys (acc @ [c]) = Value v rest \<Longrightarrow> length rest < length ys"
      using value_rest(2,3) by blast+
    then show ?thesis using True 4 by (cases ys) (auto split: if_splits)
  qed (use 4 in \<open>auto split: if_splits\<close>)
next
  case (5 acc)
  then show ?case using value_rest(3) [of ys acc v rest] by simp
next
  case (6 c cs acc)
  show ?case
  proof (cases cs)
    case Nil
    have "value_spaces ds x = Value v rest \<Longrightarrow> length rest < length ds" for ds x using value_rest(1) by blast
    then show ?thesis using Nil 6(2,3) by (cases ys) (fastforce split: if_splits)+
  qed (use 6 in \<open>auto split: if_splits\<close>)
qed (auto split: if_splits)

lemma scan_late:
  assumes "scan_from stop bad xs m 0 = Scanned (length xs)" "m \<le> length xs" "m \<le> m'" "scan_from stop bad (xs @ ys) m' 0 = Found i"
  shows "length xs \<le> i"
proof -
  have "scan_from stop bad (xs @ ys) m' 0 = scan_from stop bad (xs @ ys) m' (length xs)"
    using scan_more [OF assms(3,2), where stop = stop and bad = bad and i = 0 and ys = ys] assms(1) by simp
  then have "scan_from stop bad (xs @ ys) m' (length xs) = Found i" using assms(4) by simp
  then show ?thesis using scan_bounds [where stop = stop and bad = bad and xs = "xs @ ys" and m = m' and i = "length xs"] by simp
qed

text \<open>Where a scan stopped that had found nothing in the old bytes, or something in their last byte.\<close>

lemma scan_wait:
  assumes "case scan_from stop bad xs (min K (length xs)) 0 of Found j \<Rightarrow> j = length xs - 1 | Refused j \<Rightarrow> False | Scanned j \<Rightarrow> j \<noteq> K"
    "scan_from stop bad (xs @ ys) (min K (length (xs @ ys))) 0 = Found i"
  shows "length xs \<le> i + 1"
proof (cases "scan_from stop bad xs (min K (length xs)) 0")
  case (Found k)
  then have "i = k"
    using scan_more [where m = "min K (length xs)" and m' = "min K (length (xs @ ys))" and xs = xs and stop = stop and bad = bad and i = 0 and ys = ys] assms(2) by simp
  then show ?thesis using assms(1) Found by auto
next
  case (Scanned k)
  then have "k = length xs"
    using scan_bounds [where stop = stop and bad = bad and xs = xs and m = "min K (length xs)" and i = 0] assms(1) by (auto simp: min_def split: if_splits)
  moreover have "min K (length xs) \<le> min K (length (xs @ ys))" by simp
  ultimately show ?thesis using scan_late [of stop bad xs "min K (length xs)" "min K (length (xs @ ys))" ys i] Scanned assms(2) by simp
qed (use assms(1) in simp)

lemma start_line_wait:
  assumes "parse_start_line mem xs p = (0, q)" "parse_start_line mem (xs @ ys) p = (r, q')" "r > 0"
  shows "hp_header_offset p + length xs \<le> hp_header_offset q'"
proof -
  have ne: "\<not> is_empty_line xs" using assms(1) by (auto simp: parse_start_line_def)
  show ?thesis
  proof (cases "is_empty_line (xs @ ys)")
    case True
    then have "length xs \<le> 1" using empty_line_short ne by fastforce
    then show ?thesis using assms(2) True by (auto simp: parse_start_line_def)
  next
    case False
    obtain i where i: "scan_from (\<lambda>c. c = CR) bad_char (xs @ ys) (min HTTP_START_LINE_MAX (length (xs @ ys))) 0 = Found i"
      "match_start_line mem (take i (xs @ ys)) i p = (r, q')"
      using assms(2,3) False by (auto simp: parse_start_line_def Let_def split: line_scan.splits if_splits)
    have ml: "match_start_line mem l j p \<noteq> (0, q)" for l j by (auto simp: match_start_line_def split: option.splits prod.splits if_splits)
    have "length xs \<le> i + 1"
      by (rule scan_wait [OF _ i(1)]) (use assms(1) ne ml in \<open>auto simp: parse_start_line_def Let_def split: line_scan.splits if_splits\<close>)
    then show ?thesis using match_start_fields [OF i(2)] assms(3) by simp
  qed
qed

lemma header_name_wait:
  assumes "parse_header_name xs p = (0, q)" "parse_header_name (xs @ ys) p' = (r, q')" "r > 0" "hp_header_offset p' = hp_header_offset p"
  shows "hp_header_offset p + length xs \<le> hp_header_offset q'"
proof -
  have ne: "\<not> is_empty_line xs" using assms(1) by (auto simp: parse_header_name_def)
  show ?thesis
  proof (cases "is_empty_line (xs @ ys)")
    case True
    then have "length xs \<le> 1" using empty_line_short ne by fastforce
    then show ?thesis using assms(2,4) True by (auto simp: parse_header_name_def)
  next
    case False
    obtain i where i: "scan_from (\<lambda>c. c = CHR '':'') bad_char (xs @ ys) (min HTTP_HEADER_NAME_MAX (length (xs @ ys))) 0 = Found i"
      "hp_header_offset q' = hp_header_offset p + i + 1"
      using assms(2-4) False by (auto simp: parse_header_name_def split: line_scan.splits if_splits)
    have "length xs \<le> i + 1"
      by (rule scan_wait [OF _ i(1)]) (use assms(1) ne in \<open>auto simp: parse_header_name_def split: line_scan.splits if_splits\<close>)
    then show ?thesis using i(2) by simp
  qed
qed

lemma header_value_wait:
  assumes "parse_header_value mem xs p = Some (0, q)" "parse_header_value mem (xs @ ys) p = Some (r, q')" "r > 0"
  shows "hp_header_offset p + length xs \<le> hp_header_offset q'"
proof -
  obtain v rest where v: "value_spaces (xs @ ys) [] = Value v rest" using assms(2,3) by (cases "value_spaces (xs @ ys) []") (auto simp: parse_header_value_def)
  have "value_spaces xs [] = Value_more" using assms(1) by (auto simp: parse_header_value_def bind_eq_Some_conv split: header_value.splits if_splits)
  then have le: "length rest \<le> length ys" using value_inside(1) [OF v] by (meson not_less)
  obtain r' p' where m: "match_message_header mem (takeWhile (\<lambda>c. c \<noteq> NUL) (hp_namebuf p)) v p = Some (r', p')"
    using assms(2) v by (auto simp: parse_header_value_def bind_eq_Some_conv)
  then show ?thesis using assms(2,3) v le match_header_fields [OF m] by (auto simp: parse_header_value_def split: if_splits)
qed

lemma chunk_step_wait:
  assumes "chunk_step xs p = (0, q)" "chunk_step (xs @ ys) p = (r, q')" "r > 0"
  shows "hp_chunk_offset p + length xs \<le> hp_chunk_offset q'"
proof (cases "hp_chunk_state p = CPS_CHUNK_DATA")
  case True
  then have d: "parse_chunk_data xs p = (0, q)" "parse_chunk_data (xs @ ys) p = (r, q')" using assms by (simp_all add: chunk_step_def)
  let ?scan = "\<lambda>xs. scan_from (\<lambda>c. c = CR) (\<lambda>c. False) xs (min HTTP_CHUNK_LINE_MAX (length xs)) 0"
  obtain i where i: "?scan (xs @ ys) = Found i" "take_chunk (take i (xs @ ys)) i (length (xs @ ys)) p = (r, q')"
    using d(2) assms(3) by (auto simp: parse_chunk_data_def Let_def split: line_scan.splits if_splits)
  have off: "hp_chunk_offset p + i + 2 \<le> hp_chunk_offset q'"
    using i(2) assms(3) by (auto simp: take_chunk_def Let_def split: if_splits prod.splits)
  show ?thesis
  proof (cases "?scan xs")
    case (Found j)
    then have j: "j = i" "j < length xs"
      using scan_more [where m = "min HTTP_CHUNK_LINE_MAX (length xs)" and m' = "min HTTP_CHUNK_LINE_MAX (length (xs @ ys))" and xs = xs and
          stop = "\<lambda>c. c = CR" and bad = "\<lambda>c. False" and i = 0 and ys = ys] i(1)
        scan_bounds [where stop = "\<lambda>c. c = CR" and bad = "\<lambda>c. False" and xs = xs and m = "min HTTP_CHUNK_LINE_MAX (length xs)" and i = 0] by auto
    show ?thesis
    proof (cases "j = length xs - 1")
      case True
      then show ?thesis using off j by simp
    next
      case False
      then have t: "take_chunk (take i xs) i (length xs) p = (0, q)" "take i (xs @ ys) = take i xs"
        using d(1) Found j by (auto simp: parse_chunk_data_def Let_def split: if_splits)
      show ?thesis using t i(2) assms(3) by (auto simp: take_chunk_def Let_def split: if_splits prod.splits)
    qed
  next
    case (Scanned j)
    then have "length xs \<le> i + 1" using d(1) by (intro scan_wait [OF _ i(1)]) (auto simp: parse_chunk_data_def Let_def split: if_splits)
    then show ?thesis using off by simp
  qed (use d(1) in \<open>simp add: parse_chunk_data_def\<close>)
next
  case False
  then have d: "parse_trailer_part xs p = (0, q)" "parse_trailer_part (xs @ ys) p = (r, q')" using assms by (simp_all add: chunk_step_def)
  obtain i where i: "scan_from (\<lambda>c. c = CR) (\<lambda>c. False) (xs @ ys) (min HTTP_TRAILER_LINE_MAX (length (xs @ ys))) 0 = Found i"
    "hp_chunk_offset q' = hp_chunk_offset p + i + 2"
    using d(2) assms(3) by (auto simp: parse_trailer_part_def Let_def split: line_scan.splits if_splits)
  have "length xs \<le> i + 1" using d(1) by (intro scan_wait [OF _ i(1)]) (auto simp: parse_trailer_part_def Let_def split: line_scan.splits if_splits)
  then show ?thesis using i(2) by simp
qed

lemma header_mono:
  assumes "parse_message_header mem0 M0 p0 = Some y0"
  shows "hp_header_offset p0 \<le> hp_header_offset (snd y0) \<and> hp_msgbuf (snd y0) = hp_msgbuf p0"
proof (rule parse_message_header.raw_induct [where P = "\<lambda>mem M p y. hp_header_offset p \<le> hp_header_offset (snd y) \<and> hp_msgbuf (snd y) = hp_msgbuf p", OF _ assms])
  fix f mem M p y
  assume IH: "\<And>mem M p y. f mem M p = Some y \<Longrightarrow> hp_header_offset p \<le> hp_header_offset (snd y) \<and> hp_msgbuf (snd y) = hp_msgbuf p"
    and body: "header_step mem (drop (hp_header_offset p) M) p \<bind> (\<lambda>(ret, q). if hp_header_state q = HPS_HEADER_COMPLETE then Some (1, q)
      else if 0 < ret then f mem M q else Some (ret, q)) = Some y"
  from body obtain r q where st: "header_step mem (drop (hp_header_offset p) M) p = Some (r, q)" by (auto simp: bind_eq_Some_conv)
  then have "y = (1, q) \<or> y = (r, q) \<or> f mem M q = Some y" using body by (auto split: if_splits)
  then show "hp_header_offset p \<le> hp_header_offset (snd y) \<and> hp_msgbuf (snd y) = hp_msgbuf p"
    using header_step_bound [OF st] IH [of mem M q y] by auto
qed

lemma chunk_mono:
  assumes "parse_chunk M0 p0 = Some y0"
  shows "hp_chunk_offset p0 \<le> hp_chunk_offset (snd y0) \<and> hp_msgbuf (snd y0) = hp_msgbuf p0"
proof (rule parse_chunk.raw_induct [where P = "\<lambda>M p y. hp_chunk_offset p \<le> hp_chunk_offset (snd y) \<and> hp_msgbuf (snd y) = hp_msgbuf p", OF _ assms])
  fix f M p y
  assume IH: "\<And>M p y. f M p = Some y \<Longrightarrow> hp_chunk_offset p \<le> hp_chunk_offset (snd y) \<and> hp_msgbuf (snd y) = hp_msgbuf p"
    and body: "(case chunk_step (drop (hp_chunk_offset p) M) p of (ret, q) \<Rightarrow> if hp_chunk_state q = CPS_CHUNK_COMPLETE then Some (1, q)
      else if 0 < ret then f M q else Some (ret, q)) = Some y"
  obtain r q where st: "chunk_step (drop (hp_chunk_offset p) M) p = (r, q)" by fastforce
  then have "y = (1, q) \<or> y = (r, q) \<or> f M q = Some y" using body by (auto split: if_splits)
  then show "hp_chunk_offset p \<le> hp_chunk_offset (snd y) \<and> hp_msgbuf (snd y) = hp_msgbuf p" using chunk_step_bound [OF st] IH [of M q y] by auto
qed

lemma step_unfinished:
  "header_step mem xs p = Some (r, q) \<Longrightarrow> r \<le> 0 \<Longrightarrow> hp_header_state q = hp_header_state p"
  "chunk_step xs p = (r', q') \<Longrightarrow> r' \<le> 0 \<Longrightarrow> hp_chunk_state q' = hp_chunk_state p"
proof -
  assume h: "header_step mem xs p = Some (r, q)" "r \<le> 0"
  show "hp_header_state q = hp_header_state p"
  proof (cases "hp_header_state p")
    case HPS_START_LINE
    then show ?thesis using h match_start_fields [of mem _ _ p r q] by (auto simp: header_step_def parse_start_line_def Let_def split: line_scan.splits if_splits)
  next
    case HPS_HEADER_VALUE
    then have v: "parse_header_value mem xs p = Some (r, q)" using h by (simp add: header_step_def)
    show ?thesis
    proof (cases "value_spaces xs []")
      case (Value val rest)
      then obtain a b where "match_message_header mem (takeWhile (\<lambda>c. c \<noteq> NUL) (hp_namebuf p)) val p = Some (a, b)"
        using v by (auto simp: parse_header_value_def bind_eq_Some_conv)
      then show ?thesis using v h(2) Value match_header_fields [of mem _ val p a b] by (auto simp: parse_header_value_def split: if_splits)
    qed (use v in \<open>simp_all add: parse_header_value_def\<close>)
  qed (use h in \<open>auto simp: header_step_def parse_header_name_def split: line_scan.splits if_splits\<close>)
next
  assume "chunk_step xs p = (r', q')" "r' \<le> 0"
  then show "hp_chunk_state q' = hp_chunk_state p"
    by (auto simp: chunk_step_def parse_chunk_data_def parse_trailer_part_def take_chunk_def Let_def split: line_scan.splits if_splits prod.splits)
qed

lemma header_wait:
  assumes "header_step mem xs p = Some (0, q)" "header_step mem (xs @ ys) p = Some (r, q')" "r > 0"
  shows "hp_header_offset p + length xs \<le> hp_header_offset q'"
  using assms start_line_wait [of mem xs p q ys r q'] header_name_wait [of xs p q ys p r q'] header_value_wait [of mem xs p q ys r q']
  by (auto simp: header_step_def split: if_splits)

lemma header_name_ret: "fst (parse_header_name xs (set_name z p)) = fst (parse_header_name xs p)"
  by (simp add: parse_header_name_def split: line_scan.split)

lemma header_loop_stuck:
  assumes "parse_message_header mem0 M0 p0 = Some y0"
  shows "fst y0 = 0 \<and> hp_header_state p0 \<noteq> HPS_HEADER_COMPLETE \<longrightarrow> (\<exists>q. header_step mem0 (drop (hp_header_offset (snd y0)) M0) (snd y0) = Some (0, q))"
proof (rule parse_message_header.raw_induct [where P = "\<lambda>mem M p y. fst y = 0 \<and> hp_header_state p \<noteq> HPS_HEADER_COMPLETE \<longrightarrow>
    (\<exists>q. header_step mem (drop (hp_header_offset (snd y)) M) (snd y) = Some (0, q))", OF _ assms], rule impI)
  fix f mem M p y
  assume IH: "\<And>mem M p y. f mem M p = Some y \<Longrightarrow> fst y = 0 \<and> hp_header_state p \<noteq> HPS_HEADER_COMPLETE \<longrightarrow> (\<exists>q. header_step mem (drop (hp_header_offset (snd y)) M) (snd y) = Some (0, q))"
    and body: "header_step mem (drop (hp_header_offset p) M) p \<bind> (\<lambda>(ret, q). if hp_header_state q = HPS_HEADER_COMPLETE then Some (1, q)
      else if 0 < ret then f mem M q else Some (ret, q)) = Some y"
    and z: "fst y = 0 \<and> hp_header_state p \<noteq> HPS_HEADER_COMPLETE"
  from body obtain r q where st: "header_step mem (drop (hp_header_offset p) M) p = Some (r, q)" by (auto simp: bind_eq_Some_conv)
  then consider "f mem M q = Some y" "hp_header_state q \<noteq> HPS_HEADER_COMPLETE" | "y = (0, q)" "r = 0" using body z by (auto split: if_splits)
  then show "\<exists>q. header_step mem (drop (hp_header_offset (snd y)) M) (snd y) = Some (0, q)"
  proof cases
    case 1
    then show ?thesis using IH [OF 1(1)] z by simp
  next
    case 2
    obtain x where x: "q = set_name x p" using header_step_more(2) [OF st 2(2)] z by blast
    have "header_step mem (drop (hp_header_offset p) M) q = header_step mem (drop (hp_header_offset p) M) p" if "hp_header_state p \<noteq> HPS_HEADER_NAME"
    proof -
      have "q = p" using that st 2(2) z start_line_more(2) [of mem _ p r q] header_value_more(2) [of mem _ p r q] by (cases "hp_header_state p") (auto simp: header_step_def)
      then show ?thesis by simp
    qed
    moreover have "\<exists>q'. header_step mem (drop (hp_header_offset p) M) q = Some (0, q')" if "hp_header_state p = HPS_HEADER_NAME"
    proof -
      have "fst (parse_header_name (drop (hp_header_offset p) M) q) = 0" using header_name_ret st 2(2) that x by (simp add: header_step_def)
      then show ?thesis using that x by (cases "parse_header_name (drop (hp_header_offset p) M) q") (simp add: header_step_def)
    qed
    ultimately show ?thesis using 2 st x by (cases "hp_header_state p = HPS_HEADER_NAME") auto
  qed
qed

lemma chunk_loop_stuck:
  assumes "parse_chunk M0 p0 = Some y0"
  shows "fst y0 = 0 \<longrightarrow> (\<exists>q. chunk_step (drop (hp_chunk_offset (snd y0)) M0) (snd y0) = (0, q))"
proof (rule parse_chunk.raw_induct [where P = "\<lambda>M p y. fst y = 0 \<longrightarrow> (\<exists>q. chunk_step (drop (hp_chunk_offset (snd y)) M) (snd y) = (0, q))", OF _ assms], rule impI)
  fix f M p y
  assume IH: "\<And>M p y. f M p = Some y \<Longrightarrow> fst y = 0 \<longrightarrow> (\<exists>q. chunk_step (drop (hp_chunk_offset (snd y)) M) (snd y) = (0, q))"
    and body: "(case chunk_step (drop (hp_chunk_offset p) M) p of (ret, q) \<Rightarrow> if hp_chunk_state q = CPS_CHUNK_COMPLETE then Some (1, q)
      else if 0 < ret then f M q else Some (ret, q)) = Some y"
    and z: "fst y = 0"
  obtain r q where st: "chunk_step (drop (hp_chunk_offset p) M) p = (r, q)" by fastforce
  have "f M q = Some y \<or> y = (0, q) \<and> r = 0" using body z unfolding st by (auto split: if_splits)
  then consider "f M q = Some y" | "y = (0, q)" "r = 0" by blast
  then show "\<exists>q. chunk_step (drop (hp_chunk_offset (snd y)) M) (snd y) = (0, q)"
  proof cases
    case 1
    then show ?thesis using IH z by blast
  next
    case 2
    then show ?thesis using chunk_step_more(2) [OF st 2(2)] st by auto
  qed
qed

lemma body_left:
  assumes "parse_body x = Some (0, e1, p1)" "body_ok x" "hp_msgbuf x = M" "parse_body (rebuf (M @ b) n p1) = Some (r, e, p2)"
  shows "e \<le> length b"
proof (cases "hp_transfer_length x")
  case (Some k)
  then have "p1 = x" "length M < hp_header_offset x + k" using assms(1,3) by (auto simp: parse_body_def Let_def split: if_splits)
  then show ?thesis using assms(4) Some by (auto simp: parse_body_def Let_def split: if_splits)
next
  case None
  show ?thesis
  proof (cases "hp_chunked x")
    case True
    have ok: "hp_chunk_offset x \<le> length M" "hp_chunk_state x \<noteq> CPS_CHUNK_COMPLETE" using assms(2,3) None True by (auto simp: body_ok_def)
    obtain rc qc where c: "parse_chunk M x = Some (rc, qc)" using assms(1,3) body_chunked [OF None True ok(2)] by (auto simp: bind_eq_Some_conv)
    then have rc: "rc = 0" "p1 = qc" using assms(1,3) body_chunked [OF None True ok(2)] by (auto split: if_splits)
    have M: "chunk_more B n C M x 0 p1" for B C using chunk_loop_more [OF c, of B n C] ok rc by simp
    have f: "hp_transfer_length p1 = None" "hp_chunked p1" "hp_chunk_state p1 \<noteq> CPS_CHUNK_COMPLETE" "hp_chunk_offset p1 \<le> length M"
      using M [of "[]" "[]"] None True by (auto simp: chunk_more_def)
    obtain q where st: "chunk_step (drop (hp_chunk_offset p1) M) p1 = (0, q)" using chunk_loop_stuck [OF c] rc by auto
    obtain rd qd where d: "parse_chunk (M @ b) (rebuf (M @ b) n p1) = Some (rd, qd)"
      using assms(4) body_chunked [of "rebuf (M @ b) n p1"] f by (auto simp: bind_eq_Some_conv)
    have left: "rd \<le> 0 \<and> e = 0 \<or> rd > 0 \<and> e = length (M @ b) - hp_chunk_offset qd"
      using assms(4) body_chunked [of "rebuf (M @ b) n p1"] f d chunk_mono [OF d] by (auto split: if_splits)
    have "length M \<le> hp_chunk_offset qd" if "rd > 0"
    proof -
      obtain r2 q2 where s2: "chunk_step (drop (hp_chunk_offset p1) M @ b) p1 = (r2, q2)" by fastforce
      then have s3: "chunk_step (drop (hp_chunk_offset (rebuf (M @ b) n p1)) (M @ b)) (rebuf (M @ b) n p1) = (r2, rebuf (M @ b) n q2)" using f by (simp add: chunk_step_rebuf)
      have r2: "r2 > 0" using chunk_loop_step [OF s3] step_unfinished(2) [OF s2] d that f by (cases "r2 > 0") (auto split: if_splits)
      have "length M \<le> hp_chunk_offset q2" using chunk_step_wait [OF st s2 r2] f by simp
      moreover have "qd = rebuf (M @ b) n q2 \<or> parse_chunk (M @ b) (rebuf (M @ b) n q2) = Some (rd, qd)" using chunk_loop_step [OF s3] d r2 by (auto split: if_splits)
      ultimately show ?thesis using chunk_mono [of "M @ b" "rebuf (M @ b) n q2"] by fastforce
    qed
    then show ?thesis using left by auto
  next
    case False
    then have "p1 = x" using assms(1) None by (auto simp: parse_body_def)
    then show ?thesis using assms(4) None False by (simp add: parse_body_def)
  qed
qed

lemma body_extra:
  assumes "parse_body (after_header q) = Some (r, e, p)"
  shows "e \<le> length (hp_msgbuf q) - hp_header_offset q"
proof (cases "hp_transfer_length (after_header q)")
  case (Some k)
  then show ?thesis using assms by (auto simp: parse_body_def after_header_simps Let_def split: if_splits)
next
  case None
  show ?thesis
  proof (cases "hp_chunked q")
    case True
    then have a: "hp_chunked (after_header q)" "hp_chunk_state (after_header q) = CPS_CHUNK_DATA" "hp_chunk_offset (after_header q) = hp_header_offset q"
      by (simp_all add: after_header_def)
    obtain rc qc where c: "parse_chunk (hp_msgbuf q) (after_header q) = Some (rc, qc)"
      using assms body_chunked [OF None a(1)] a(2) by (auto simp: bind_eq_Some_conv after_header_simps)
    show ?thesis using assms body_chunked [OF None a(1)] a(2,3) c chunk_mono [OF c] by (auto simp: after_header_simps split: if_splits)
  next
    case False
    then have "\<not> hp_chunked (after_header q)" by (simp add: after_header_def)
    then show ?thesis using assms None by (simp add: parse_body_def)
  qed
qed

lemma buffer_left:
  assumes "hp_ok p" "hp_msgbuf p = M" "parse_buffer mem p = Some (0, e1, p1)" "parse_buffer mem (rebuf (M @ b) n p1) = Some (r, e, p2)"
  shows "e \<le> length b"
proof (cases "hp_header_state p1 = HPS_HEADER_COMPLETE")
  case True
  have "\<exists>x. parse_body x = Some (0, e1, p1) \<and> body_ok x \<and> hp_msgbuf x = M"
  proof (cases "hp_header_state p = HPS_HEADER_COMPLETE")
    case False
    obtain rh ph where h: "parse_message_header mem M p = Some (rh, ph)" using assms(2,3) False by (auto simp: parse_buffer_def bind_eq_Some_conv)
    have H: "header_more [] 0 [] mem M p rh ph" using header_loop_more [OF h, of "[]" 0 "[]"] assms(1,2) False by (simp add: hp_ok_def)
    then have "rh > 0" using assms(2,3) True False h by (auto simp: parse_buffer_def header_more_def split: if_splits)
    then show ?thesis using assms(2,3) False h H after_header_ok [of ph]
      by (intro exI [of _ "after_header ph"]) (auto simp: parse_buffer_def header_more_def after_header_simps)
  qed (use assms in \<open>auto simp: parse_buffer_def hp_ok_def\<close>)
  then show ?thesis using body_left assms(4) True by (auto simp: parse_buffer_def)
next
  case False
  have hp: "hp_header_state p \<noteq> HPS_HEADER_COMPLETE"
  proof
    assume c: "hp_header_state p = HPS_HEADER_COMPLETE"
    then have "parse_body p = Some (0, e1, p1)" "body_ok p" using assms(1,3) by (auto simp: parse_buffer_def hp_ok_def)
    from body_more(2) [OF this] show False using c False by simp
  qed
  obtain rh ph where h: "parse_message_header mem M p = Some (rh, ph)" using assms(2,3) hp by (auto simp: parse_buffer_def bind_eq_Some_conv)
  have H: "header_more [] 0 [] mem M p rh ph" using header_loop_more [OF h, of "[]" 0 "[]"] assms(1,2) hp by (simp add: hp_ok_def)
  have rh: "rh = 0" "ph = p1"
  proof -
    have "\<not> rh > 0"
    proof
      assume g: "rh > 0"
      then have b: "parse_body (after_header ph) = Some (0, e1, p1)" "body_ok (after_header ph)"
        using assms(2,3) hp h H after_header_ok [of ph] by (auto simp: parse_buffer_def header_more_def)
      from body_more(2) [OF this] show False using H g False by (simp add: header_more_def after_header_simps)
    qed
    then show "rh = 0" "ph = p1" using assms(2,3) hp h by (auto simp: parse_buffer_def split: if_splits)
  qed
  have ms: "hp_msgbuf p1 = M" "hp_header_offset p1 \<le> length M" using H rh assms(2) by (auto simp: header_more_def)
  obtain q where st: "header_step mem (drop (hp_header_offset p1) M) p1 = Some (0, q)" using header_loop_stuck [OF h] rh hp by auto
  obtain r' q' where l: "parse_message_header mem (M @ b) (rebuf (M @ b) n p1) = Some (r', q')" using assms(4) False by (auto simp: parse_buffer_def bind_eq_Some_conv)
  show ?thesis
  proof (cases "r' > 0")
    case True
    obtain r2 q2' where s2': "header_step mem (drop (hp_header_offset (rebuf (M @ b) n p1)) (M @ b)) (rebuf (M @ b) n p1) = Some (r2, q2')"
      using l by (subst (asm) parse_message_header.simps) (auto simp: bind_eq_Some_conv)
    then obtain q2 where s2: "header_step mem (drop (hp_header_offset p1) M @ b) p1 = Some (r2, q2)" "q2' = rebuf (M @ b) n q2" using ms by (auto simp: header_step_rebuf)
    have r2: "r2 > 0" using header_loop_step [OF s2'] step_unfinished(1) [OF s2(1)] s2(2) l True False by (cases "r2 > 0") (auto split: if_splits)
    have "length M \<le> hp_header_offset q2" using header_wait [OF st s2(1) r2] ms by simp
    moreover have "q' = q2' \<or> parse_message_header mem (M @ b) q2' = Some (r', q')" using header_loop_step [OF s2'] l r2 by (auto split: if_splits)
    ultimately have "length M \<le> hp_header_offset q'" using header_mono [of mem "M @ b" q2'] s2(2) by fastforce
    moreover have "parse_body (after_header q') = Some (r, e, p2)" using assms(4) False l True by (auto simp: parse_buffer_def)
    moreover have "hp_msgbuf q' = M @ b" using header_mono [OF l] by simp
    ultimately show ?thesis using body_extra [of q' r e p2] by simp
  qed (use assms(4) False l in \<open>auto simp: parse_buffer_def\<close>)
qed

section \<open>Messages in pieces\<close>

lemma http_append_buffer:
  assumes "\<not> hp_complete p"
  shows "\<exists>n. http_parser_append_message always buf p =
    do { (ret, extra, q) \<leftarrow> parse_buffer always (rebuf (hp_msgbuf p @ buf) n p); Some (ret, length buf - extra, q) }"
proof (cases "length (hp_msgbuf p) + length buf + 1 > hp_bufsize p")
  case True
  obtain n where "grow_size (length (hp_msgbuf p) + length buf + 1) (max 2048 (2 * hp_bufsize p)) = Some n"
    using grow_size_ok [of "max 2048 (2 * hp_bufsize p)" "length (hp_msgbuf p) + length buf + 1"] by (metis less_max_iff_disj zero_less_numeral)
  moreover have "p\<lparr>hp_bufsize := n, hp_msgbuf := hp_msgbuf p @ buf\<rparr> = rebuf (hp_msgbuf p @ buf) n p" by (simp add: rebuf_def)
  ultimately show ?thesis using True assms by (intro exI [of _ n]) (simp add: http_parser_append_message_def Let_def)
next
  case False
  have "p\<lparr>hp_bufsize := hp_bufsize p, hp_msgbuf := hp_msgbuf p @ buf\<rparr> = rebuf (hp_msgbuf p @ buf) (hp_bufsize p) p" by (simp add: rebuf_def)
  then show ?thesis using False assms by (intro exI [of _ "hp_bufsize p"]) (simp add: http_parser_append_message_def Let_def)
qed

lemma rebuf_ok: "hp_ok p \<Longrightarrow> hp_ok (rebuf (hp_msgbuf p @ C) n p)"
  using body_ok_buffer [of p C n] by (auto simp: hp_ok_def)

text \<open>
  C24: HTTP messages may come in any pieces: when the parser wants more after the first piece, its answer to the second piece, the bytes
  it takes of both together and the message it holds are those for both pieces at once; an answer other than 0 is final.
\<close>

theorem http_pieces:
  assumes "hp_ok p" "http_parser_append_message always a p = Some (r1, k1, p1)"
  shows "(r1 = 0 \<longrightarrow> hp_ok p1 \<and> (\<forall>r k2 p2. http_parser_append_message always b p1 = Some (r, k2, p2) \<longrightarrow>
      (\<exists>p3. http_parser_append_message always (a @ b) p = Some (r, length a + k2, p3) \<and> alike p3 p2))) \<and>
    (r1 = 1 \<longrightarrow> (\<exists>p3. http_parser_append_message always (a @ b) p = Some (1, k1, p3) \<and> alike p3 p1)) \<and>
    (r1 \<notin> {0, 1} \<longrightarrow> (\<exists>k3 p3. http_parser_append_message always (a @ b) p = Some (r1, k3, p3)))"
proof -
  let ?M = "hp_msgbuf p @ a"
  have nc: "\<not> hp_complete p" using assms(1) by (simp add: hp_ok_def)
  obtain n1 e1 where n1: "parse_buffer always (rebuf ?M n1 p) = Some (r1, e1, p1)" "k1 = length a - e1"
  proof -
    obtain n where "do { (ret, extra, q) \<leftarrow> parse_buffer always (rebuf ?M n p); Some (ret, length a - extra, q) } = Some (r1, k1, p1)"
      using http_append_buffer [OF nc, of a] assms(2) by auto
    then show ?thesis using that [of n] by (auto simp: bind_eq_Some_conv)
  qed
  obtain n3 where n3: "http_parser_append_message always (a @ b) p =
      do { (ret, extra, q) \<leftarrow> parse_buffer always (rebuf (hp_msgbuf p @ a @ b) n3 p); Some (ret, length (a @ b) - extra, q) }"
    using http_append_buffer [OF nc, of "a @ b"] by blast
  have ok: "hp_ok (rebuf ?M n1 p)" using rebuf_ok [OF assms(1)] .
  have e3: "rebuf (?M @ b) n3 (rebuf ?M n1 p) = rebuf (hp_msgbuf p @ a @ b) n3 p" by simp
  note P = buffer_pieces [OF ok _ n1(1), of ?M b n3, unfolded e3]
  show ?thesis
  proof (cases "r1 = 0")
    case True
    have P1: "hp_ok p1" "hp_msgbuf p1 = ?M" and P2: "\<And>n2 r e p2. parse_buffer always (rebuf (?M @ b) n2 p1) = Some (r, e, p2) \<Longrightarrow>
        \<exists>p3. parse_buffer always (rebuf (hp_msgbuf p @ a @ b) n3 p) = Some (r, e, p3) \<and> alike p3 p2" using P(1) True by auto
    have "\<exists>p3. http_parser_append_message always (a @ b) p = Some (r, length a + k2, p3) \<and> alike p3 p2"
      if "http_parser_append_message always b p1 = Some (r, k2, p2)" for r k2 p2
    proof -
      note ans = that
      have "\<not> hp_complete p1" using P1 by (simp add: hp_ok_def)
      then obtain n2 where "do { (ret, extra, q) \<leftarrow> parse_buffer always (rebuf (?M @ b) n2 p1); Some (ret, length b - extra, q) } = Some (r, k2, p2)"
        using http_append_buffer [of p1 b] ans P1(2) by auto
      then obtain e where e: "parse_buffer always (rebuf (?M @ b) n2 p1) = Some (r, e, p2)" "k2 = length b - e" by (auto simp: bind_eq_Some_conv)
      have "e \<le> length b" using buffer_left [OF ok _ n1(1) [unfolded True] e(1)] by simp
      then show ?thesis using P2 [OF e(1)] e(2) n3 by auto
    qed
    then show ?thesis using P1 True by auto
  next
    case False
    then obtain p3 where p3: "parse_buffer always (rebuf (hp_msgbuf p @ a @ b) n3 p) = Some (r1, if r1 = 1 then e1 + length b else 0, p3)"
      "alike p3 (if r1 = 1 then p1 else p1\<lparr>hp_msgbuf := hp_msgbuf p1 @ b\<rparr>)" using P(2) by auto
    then show ?thesis using False n3 n1(2) by auto
  qed
qed

theorem http_pieces_witness:
  "\<exists>p1. http_parser_append_message always ''G'' (http_parser_init False (replicate 64 NUL) CPS_CHUNK_DATA 0) = Some (0, 1, p1) \<and> hp_ok p1 \<and>
     (\<forall>r k2 p2. http_parser_append_message always ''ET'' p1 = Some (r, k2, p2) \<longrightarrow>
       (\<exists>p3. http_parser_append_message always ''GET'' (http_parser_init False (replicate 64 NUL) CPS_CHUNK_DATA 0) = Some (r, 1 + k2, p3) \<and> alike p3 p2))"
proof -
  let ?i = "http_parser_init False (replicate 64 NUL) CPS_CHUNK_DATA 0"
  have ok: "hp_ok ?i" by (simp add: hp_ok_def http_parser_init_def)
  have g: "\<not> bad_char CHR ''G''" by code_simp
  have "parse_start_line always ''G'' p = (0, p)" for p using g by (simp add: parse_start_line_def is_empty_line_def scan_from.simps Let_def)
  then have "parse_message_header always ''G'' (rebuf ''G'' n ?i) = Some (0, rebuf ''G'' n ?i)" for n
    by (subst parse_message_header.simps) (simp add: header_step_def http_parser_init_def rebuf_def)
  then have "parse_buffer always (rebuf ''G'' n ?i) = Some (0, 0, rebuf ''G'' n ?i)" for n by (simp add: parse_buffer_def) (simp add: http_parser_init_def)
  moreover obtain n where "http_parser_append_message always ''G'' ?i =
      do { (ret, extra, q) \<leftarrow> parse_buffer always (rebuf (hp_msgbuf ?i @ ''G'') n ?i); Some (ret, length ''G'' - extra, q) }"
    using http_append_buffer [of ?i "''G''"] ok by (auto simp: hp_ok_def)
  moreover have "hp_msgbuf ?i = []" by (simp add: http_parser_init_def)
  ultimately have a: "http_parser_append_message always ''G'' ?i = Some (0, 1, rebuf ''G'' n ?i)" by simp
  show ?thesis using a http_pieces [OF ok a, of "''ET''"] by simp
qed

end
