(* ===== verification/Http_Theorems.thy ===== *)
theory Http_Theorems
  imports Http_Pieces
begin

text \<open>
  What the HTTP parser computes: it inverts the printed form of requests and responses, and the header lines behave like a
  list of fields with names compared without case.
\<close>

section \<open>Header fields\<close>

text \<open>A line holds its name, a colon and a space, its value and the end of line, inside its memory.\<close>

definition line_ok :: "header_line \<Rightarrow> bool" where
  "line_ok l \<longleftrightarrow> hl_name_len l + hl_value_len l + 4 \<le> length (hl_buf l) \<and>
     take (hl_name_len l + hl_value_len l + 4) (hl_buf l) = line_name l @ '': '' @ line_value (hl_name_len l) l @ crlf"

lemma line_okI: "hl_buf l = n @ '': '' @ v @ crlf @ z \<Longrightarrow> hl_name_len l = length n \<Longrightarrow> hl_value_len l = length v \<Longrightarrow>
    line_ok l \<and> line_name l = n \<and> line_value (length n) l = v"
  by (simp add: line_ok_def line_name_def line_value_def crlf_def numeral_eq_Suc)

lemma line_okE:
  assumes "line_ok l"
  obtains n v z where "hl_buf l = n @ '': '' @ v @ crlf @ z" "hl_name_len l = length n" "hl_value_len l = length v"
proof
  let ?k = "hl_name_len l + hl_value_len l + 4"
  show "hl_buf l = line_name l @ '': '' @ line_value (hl_name_len l) l @ crlf @ drop ?k (hl_buf l)"
    using append_take_drop_id [of ?k "hl_buf l", symmetric] assms unfolding line_ok_def by (metis append.assoc)
qed (use assms in \<open>auto simp: line_ok_def line_name_def line_value_def\<close>)

lemma tolower_NUL: "tolower c = NUL \<longleftrightarrow> c = NUL"
proof -
  have "of_char c + 32 < (256 :: nat)" if "of_char c \<le> (90 :: nat)" using that by simp
  then show ?thesis by (auto simp: tolower_def NUL_def of_char_eq_iff [symmetric])
qed

lemma strncaseeq_map:
  "NUL \<notin> set t \<Longrightarrow> strncaseeq (length t) s t \<longleftrightarrow> length t \<le> length s \<and> map tolower (take (length t) s) = map tolower t"
proof (induction t arbitrary: s)
  case (Cons d t)
  show ?case
  proof (cases s)
    case (Cons c cs)
    have "c \<noteq> NUL" if "tolower c = tolower d" using that Cons.prems tolower_NUL by (metis list.set_intros(1))
    then show ?thesis using Cons.IH [of cs] Cons.prems Cons by auto
  qed simp
qed simp

lemma same_name_iff:
  assumes "NUL \<notin> set name" "line_ok l"
  shows "same_name name l \<longleftrightarrow> hl_name_len l = length name \<and> map tolower (take (hl_name_len l) (hl_buf l)) = map tolower name"
  using strncaseeq_map [OF assms(1), of "hl_buf l"] assms(2) by (cases "hl_name_len l = length name") (auto simp: same_name_def line_ok_def)

lemma set_line_ok:
  assumes "set_line mem name val l = Some l'" "line_ok l" "hl_name_len l = length name" "map tolower (take (hl_name_len l) (hl_buf l)) = map tolower name"
  shows "line_ok l' \<and> hl_name_len l' = length name \<and> map tolower (take (length name) (hl_buf l')) = map tolower name \<and> line_value (length name) l' = val"
proof (cases "length val > hl_value_len l")
  case True
  then have l': "l' = l\<lparr>hl_buf := name @ '': '' @ val @ crlf, hl_own := True, hl_value_len := length val\<rparr>"
    using assms(1) by (simp add: set_line_def split: if_splits)
  show ?thesis using line_okI [of l' name val "[]"] assms(3) by (simp add: l')
next
  case False
  then have l': "l' = l\<lparr>hl_buf := overwrite (hl_buf l) (length name + 2) (val @ crlf), hl_value_len := length val\<rparr>" using assms(1) by (simp add: set_line_def)
  obtain n v z where l: "hl_buf l = n @ '': '' @ v @ crlf @ z" "length n = length name" "hl_value_len l = length v"
    using line_okE [OF assms(2)] assms(3) by metis
  have "hl_buf l' = n @ '': '' @ val @ crlf @ drop (length val + 2) (v @ crlf @ z)"
    using l(1,2) by (simp add: l' overwrite_def crlf_def numeral_eq_Suc)
  then show ?thesis using line_okI [of l' n val] l assms(3,4) by (simp add: l')
qed

lemma find_cons:
  "http_header_cursor_find name (l # ls) = (if same_name name l then (Some (line_value (length name) l), ls) else http_header_cursor_find name ls)"
  by simp

lemma set_header_loop_ok:
  assumes "set_header_loop mem name val ls = Some (0, ls')" "\<forall>l \<in> set ls. line_ok l" "NUL \<notin> set name"
  shows "(\<forall>l \<in> set ls'. line_ok l) \<and> length ls' = length ls \<and> fst (http_header_cursor_find name ls') = Some val \<and>
    (\<forall>other. NUL \<notin> set other \<and> \<not> strcaseeq other name \<longrightarrow> fst (http_header_cursor_find other ls') = fst (http_header_cursor_find other ls))"
  using assms
proof (induction ls arbitrary: ls')
  case (Cons l ls)
  show ?case
  proof (cases "same_name name l")
    case True
    then obtain l' where l': "set_line mem name val l = Some l'" "ls' = l' # ls" using Cons.prems(1) by (auto split: option.splits)
    have n: "hl_name_len l = length name" "map tolower (take (hl_name_len l) (hl_buf l)) = map tolower name" using same_name_iff True Cons.prems by auto
    note S = set_line_ok [OF l'(1) _ n]
    have ok: "line_ok l" "line_ok l'" using S Cons.prems by auto
    have "same_name name l'" using same_name_iff [OF Cons.prems(3) ok(2)] S Cons.prems by simp
    moreover have "\<not> same_name other l" "\<not> same_name other l'" if "NUL \<notin> set other" "\<not> strcaseeq other name" for other
      using same_name_iff [OF that(1)] ok n S that(2) by (auto simp: strcaseeq_def)
    ultimately show ?thesis using l' S Cons.prems(2) by (auto simp: find_cons)
  next
    case False
    then obtain ls2 where "set_header_loop mem name val ls = Some (0, ls2)" "ls' = l # ls2" using Cons.prems(1) by auto
    then show ?thesis using Cons.IH Cons.prems(2,3) False by (auto simp: find_cons)
  qed
qed simp

lemma set_header_none:
  assumes "set_header_loop mem name val ls = None"
  shows "fst (http_header_cursor_find name (ls @ [l])) = (if same_name name l then Some (line_value (length name) l) else None)"
    "\<not> same_name other l \<Longrightarrow> fst (http_header_cursor_find other (ls @ [l])) = fst (http_header_cursor_find other ls)"
proof -
  show "fst (http_header_cursor_find name (ls @ [l])) = (if same_name name l then Some (line_value (length name) l) else None)"
    using assms by (induction ls) (auto split: if_splits option.splits)
  show "\<not> same_name other l \<Longrightarrow> fst (http_header_cursor_find other (ls @ [l])) = fst (http_header_cursor_find other ls)"
    by (induction ls) auto
qed

lemma find_spelling:
  assumes "\<forall>l \<in> set ls. line_ok l" "NUL \<notin> set name" "NUL \<notin> set name'" "strcaseeq name' name"
  shows "http_header_cursor_find name' ls = http_header_cursor_find name ls"
proof -
  have l: "length name' = length name" using assms(4) map_eq_imp_length_eq by (fastforce simp: strcaseeq_def)
  have "same_name name' x \<longleftrightarrow> same_name name x" if "line_ok x" for x
    using same_name_iff [OF assms(2) that] same_name_iff [OF assms(3) that] assms(4) l by (simp add: strcaseeq_def)
  then show ?thesis using assms(1) l by (induction ls) auto
qed

lemma find_none: "fst (http_header_cursor_find name ls) = None \<longleftrightarrow> set_header_loop mem name val ls = None"
  by (induction ls) (auto split: option.splits)

text \<open>
  A header that was set is found with its value under any spelling of its name; every other header keeps its value, lines stay
  inside their memory, and a line is added only when there was none of that name.
\<close>

theorem http_set_find:
  assumes "http_parser_set_header mem name val p = (0, q)" "\<forall>l \<in> set (hp_header_list p). line_ok l" "NUL \<notin> set name"
    "NUL \<notin> set name'" "strcaseeq name' name"
  shows "(\<forall>l \<in> set (hp_header_list q). line_ok l) \<and> fst (http_header_cursor_find name' (http_header_cursor_init q)) = Some val \<and>
    (\<forall>other. NUL \<notin> set other \<and> \<not> strcaseeq other name \<longrightarrow>
      fst (http_header_cursor_find other (http_header_cursor_init q)) = fst (http_header_cursor_find other (http_header_cursor_init p))) \<and>
    length (hp_header_list q) = (if fst (http_header_cursor_find name (hp_header_list p)) = None then 1 else 0) + length (hp_header_list p)"
proof (cases "set_header_loop mem name val (hp_header_list p)")
  case None
  let ?l = "\<lparr>hl_name_len = length name, hl_value_len = length val, hl_buf = name @ '': '' @ val @ crlf, hl_own = False\<rparr>"
  have q: "q = p\<lparr>hp_header_list := hp_header_list p @ [?l]\<rparr>"
    using assms(1) None by (auto simp: http_parser_set_header_def http_parser_add_header_def split: if_splits)
  have ok: "line_ok ?l" using line_okI [of ?l name val "[]"] by simp
  then have ok': "\<forall>l \<in> set (hp_header_list p @ [?l]). line_ok l" using assms(2) by auto
  have s: "same_name other ?l \<longleftrightarrow> strcaseeq other name" if "NUL \<notin> set other" for other
    using same_name_iff [OF that ok] map_eq_imp_length_eq [of tolower name tolower other] by (auto simp: strcaseeq_def)
  have v: "line_value (length name) ?l = val" by (simp add: line_value_def)
  have "fst (http_header_cursor_find name (hp_header_list p @ [?l])) = Some val"
    using set_header_none(1) [OF None] s [OF assms(3)] v by (simp add: strcaseeq_def)
  moreover have "fst (http_header_cursor_find other (hp_header_list p @ [?l])) = fst (http_header_cursor_find other (hp_header_list p))"
    if "NUL \<notin> set other" "\<not> strcaseeq other name" for other using set_header_none(2) [OF None] s [OF that(1)] that(2) by blast
  ultimately show ?thesis using q ok' find_spelling [OF ok' assms(3-5)] find_none [of name "hp_header_list p" mem val] None
    by (simp add: http_header_cursor_init_def)
next
  case (Some x)
  then have x: "set_header_loop mem name val (hp_header_list p) = Some (0, hp_header_list q)"
    using assms(1) by (cases x) (auto simp: http_parser_set_header_def)
  note S = set_header_loop_ok [OF x assms(2,3)]
  then have "http_header_cursor_find name' (hp_header_list q) = http_header_cursor_find name (hp_header_list q)" by (intro find_spelling assms(3-5)) blast
  then show ?thesis using S find_none [of name "hp_header_list p" mem val] x by (simp add: http_header_cursor_init_def)
qed

definition demo_headers :: http_parser where
  "demo_headers = snd (http_parser_add_header always ''Host'' ''abc'' (http_parser_init True [] CPS_CHUNK_DATA 0))"

theorem http_set_find_witness:
  "\<exists>q. http_parser_set_header always ''HOST'' ''x'' demo_headers = (0, q) \<and> fst (http_header_cursor_find ''host'' (http_header_cursor_init q)) = Some ''x'' \<and>
     length (hp_header_list q) = 1"
proof -
  let ?q = "snd (http_parser_set_header always ''HOST'' ''x'' demo_headers)"
  have a: "http_parser_set_header always ''HOST'' ''x'' demo_headers = (0, ?q)" by code_simp
  have h: "\<forall>l \<in> set (hp_header_list demo_headers). line_ok l" "NUL \<notin> set ''HOST''" "NUL \<notin> set ''host''" "strcaseeq ''host'' ''HOST''"
    "fst (http_header_cursor_find ''HOST'' (hp_header_list demo_headers)) = Some ''abc''" "length (hp_header_list demo_headers) = 1" by code_simp+
  show ?thesis using a http_set_find [OF a h(1-4)] h(5,6) by auto
qed

section \<open>Printed messages\<close>

definition clean :: "string \<Rightarrow> bool" where
  "clean s \<longleftrightarrow> (\<forall>c \<in> set s. c \<noteq> CR \<and> \<not> bad_char c)"

definition name_ok :: "string \<Rightarrow> bool" where
  "name_ok n \<longleftrightarrow> clean n \<and> CHR '':'' \<notin> set n \<and> length n < HTTP_HEADER_NAME_MAX \<and> (n = [] \<or> \<not> is_blank (hd n))"

definition value_ok :: "string \<Rightarrow> bool" where
  "value_ok v \<longleftrightarrow> clean v \<and> length v < HTTP_HEADER_VALUE_MAX \<and> (v = [] \<or> \<not> is_blank (hd v) \<and> \<not> is_blank (last v))"

definition print_field :: "string \<times> string \<Rightarrow> string" where
  "print_field f = fst f @ '': '' @ snd f @ crlf"

definition line_of :: "string \<times> string \<Rightarrow> header_line" where
  "line_of f = \<lparr>hl_name_len = length (fst f), hl_value_len = length (snd f), hl_buf = print_field f, hl_own = False\<rparr>"

definition print_start :: "string \<Rightarrow> string \<Rightarrow> string \<Rightarrow> string" where
  "print_start a b c = a @ '' '' @ b @ '' '' @ c @ crlf"

definition start_ok :: "string \<Rightarrow> string \<Rightarrow> string \<Rightarrow> bool" where
  "start_ok a b c \<longleftrightarrow> clean a \<and> clean b \<and> clean c \<and> CHR '' '' \<notin> set a \<and> CHR '' '' \<notin> set b \<and>
     length (print_start a b c) < HTTP_START_LINE_MAX + 2"

lemma scan_clean:
  "\<forall>c \<in> set s. \<not> stop c \<and> \<not> bad c \<Longrightarrow> stop d \<Longrightarrow> length s < m \<Longrightarrow> i \<le> length s \<Longrightarrow> scan_from stop bad (s @ d # z) m i = Found (length s)"
proof (induction "length s - i" arbitrary: i)
  case 0
  then have "i = length s" by simp
  moreover have "(s @ d # z) ! length s = d" by simp
  ultimately show ?case using 0 scan_cases(1) [of i m stop "s @ d # z" bad] by simp
next
  case (Suc k)
  then have "i < length s" by simp
  then have n: "(s @ d # z) ! i = s ! i" "s ! i \<in> set s" by (simp_all add: nth_append)
  then have "scan_from stop bad (s @ d # z) m i = scan_from stop bad (s @ d # z) m (i + 1)"
    using Suc.prems by (intro scan_cases(3)) auto
  then show ?case using Suc.hyps(1) [of "i + 1"] Suc.hyps(2) Suc.prems by auto
qed

lemma clean_append: "clean (s @ t) \<longleftrightarrow> clean s \<and> clean t"
  by (auto simp: clean_def)

lemma clean_not_CR: "clean s \<Longrightarrow> d \<noteq> CR \<Longrightarrow> \<not> is_empty_line (s @ d # z)"
  by (cases s) (auto simp: clean_def is_empty_line_def)

lemma value_chars_clean:
  "clean v \<Longrightarrow> length acc + length v < HTTP_HEADER_VALUE_MAX \<Longrightarrow> rest \<noteq> [] \<Longrightarrow> \<not> is_blank (hd rest) \<Longrightarrow>
    value_chars (v @ CR # LF # rest) acc = Value (strip_blanks (acc @ v)) rest"
proof (induction v arbitrary: acc)
  case Nil
  then show ?case by (cases rest) auto
next
  case (Cons c v)
  then show ?case by (auto simp: clean_def)
qed

lemma value_field:
  assumes "value_ok v" "rest \<noteq> []" "\<not> is_blank (hd rest)"
  shows "value_spaces (CHR '' '' # v @ crlf @ rest) [] = Value v rest"
proof -
  have "strip_blanks v = v"
  proof (cases v rule: rev_cases)
    case (snoc xs x)
    then have "\<not> is_blank x" using assms(1) by (simp add: value_ok_def)
    then show ?thesis by (simp add: snoc strip_blanks_def)
  qed (simp add: strip_blanks_def)
  then have "value_chars (v @ crlf @ rest) [] = Value v rest"
    using value_chars_clean [of v "[]" rest] assms by (simp add: value_ok_def crlf_def)
  moreover have "value_spaces (v @ crlf @ rest) [] = value_chars (v @ crlf @ rest) []"
  proof (cases v)
    case Nil
    have "\<not> is_blank CR" by (simp add: is_blank_def)
    then show ?thesis by (simp add: Nil crlf_def)
  next
    case (Cons c cs)
    then show ?thesis using assms(1) by (simp add: value_ok_def)
  qed
  ultimately show ?thesis by (simp add: is_blank_def)
qed

lemma length_strcaseeq: "strcaseeq s t \<Longrightarrow> length s = length t"
  using map_eq_imp_length_eq by (fastforce simp: strcaseeq_def)

lemma atoi_show_nat: "n < 2 ^ 31 \<Longrightarrow> atoi (show_nat n @ [NUL]) = Some (int n)"
  using read_show_int [of NUL "int n" "[]"] by (simp add: atoi_def in_range_def isdigit_def NUL_def show_int_def)

lemma show_nat_hd: "isdigit (hd (show_nat n))"
  using show_nat_digits [of "hd (show_nat n)" n] digit_class by auto

definition length_field :: "nat \<Rightarrow> string \<times> string \<Rightarrow> bool" where
  "length_field k f \<longleftrightarrow> \<not> strcaseeq (fst f) ''Transfer-Encoding'' \<and> (strcaseeq (fst f) ''Content-Length'' \<longrightarrow> snd f = show_nat k)"

lemma meaning_field:
  assumes "length_field k f" "k < 2 ^ 31"
  shows "\<exists>e a. header_meaning (fst f) (snd f) p = Some (p\<lparr>hp_expect_continue := e, hp_keep_alive := a,
    hp_content_length := if strcaseeq (fst f) ''Content-Length'' then Some k else hp_content_length p\<rparr>)"
proof -
  have c: "\<exists>a. match_connection n v p = p\<lparr>hp_keep_alive := a\<rparr>" for n v and p :: http_parser
  proof -
    have "p = p\<lparr>hp_keep_alive := hp_keep_alive p\<rparr>" by simp
    then show ?thesis unfolding match_connection_def by metis
  qed
  show ?thesis
  proof (cases "strcaseeq (fst f) ''Content-Length''")
    case True
    then have "length (fst f) = 14" "snd f = show_nat k" using length_strcaseeq [OF True] assms(1) by (auto simp: length_field_def)
    then have "header_meaning (fst f) (snd f) p = Some (p\<lparr>hp_content_length := Some k\<rparr>)"
      using True atoi_show_nat [OF assms(2)] show_nat_hd by (simp add: header_meaning_def)
    then show ?thesis using True by (intro exI [of _ "hp_expect_continue p"] exI [of _ "hp_keep_alive p"]) simp
  next
    case False
    have t: "\<not> strcaseeq (fst f) ''Transfer-Encoding''" using assms(1) by (simp add: length_field_def)
    let ?q = "if strcaseeq (fst f) ''Expect'' \<and> strcaseeq (snd f) ''100-continue'' then p\<lparr>hp_expect_continue := True\<rparr> else p"
    obtain a where a: "match_connection (fst f) (snd f) ?q = ?q\<lparr>hp_keep_alive := a\<rparr>" using c by blast
    obtain a' where a': "match_connection (fst f) (snd f) p = p\<lparr>hp_keep_alive := a'\<rparr>" using c by blast
    consider (E) "length (fst f) = 6" | (C) "length (fst f) = 10" | (O) "length (fst f) \<noteq> 6" "length (fst f) \<noteq> 10" by blast
    then consider "header_meaning (fst f) (snd f) p = Some (p\<lparr>hp_expect_continue := True, hp_keep_alive := a\<rparr>)"
      | x where "header_meaning (fst f) (snd f) p = Some (p\<lparr>hp_keep_alive := x\<rparr>)" | "header_meaning (fst f) (snd f) p = Some p"
    proof cases
      case E
      then have h: "header_meaning (fst f) (snd f) p = Some (?q\<lparr>hp_keep_alive := a\<rparr>)" unfolding header_meaning_def Let_def a by (rule if_P)
      show ?thesis
      proof (cases "strcaseeq (fst f) ''Expect'' \<and> strcaseeq (snd f) ''100-continue''")
        case True
        show ?thesis using that(1) h unfolding if_P [OF True] by simp
      next
        case False
        show ?thesis using that(2) h unfolding if_not_P [OF False] .
      qed
    next
      case C
      then show ?thesis using that(2) a' by (simp add: header_meaning_def)
    next
      case O
      then show ?thesis using that(3) False t by (simp add: header_meaning_def)
    qed
    then show ?thesis
    proof cases
      case 1
      then show ?thesis using False by (intro exI [of _ True] exI [of _ a]) simp
    next
      case 2
      then show ?thesis using False by (intro exI [of _ "hp_expect_continue p"] exI [of _ x]) simp
    next
      case 3
      then show ?thesis using False by (intro exI [of _ "hp_expect_continue p"] exI [of _ "hp_keep_alive p"]) simp
    qed
  qed
qed

text \<open>What the headers leave alone.\<close>

definition kept :: "http_parser \<Rightarrow> http_parser \<Rightarrow> bool" where
  "kept p q \<longleftrightarrow> hp_method q = hp_method p \<and> hp_uri q = hp_uri p \<and> hp_version q = hp_version p \<and> hp_code q = hp_code p \<and>
     hp_phrase q = hp_phrase p \<and> hp_chunked q = hp_chunked p \<and> hp_transfer_length q = hp_transfer_length p \<and> hp_msgbuf q = hp_msgbuf p \<and>
     hp_complete q = hp_complete p \<and> hp_is_resp q = hp_is_resp p"

lemma kept_trans: "kept p q \<Longrightarrow> kept q r \<Longrightarrow> kept p r"
  by (simp add: kept_def)

lemma name_field:
  assumes "name_ok n" "hp_header_state p = HPS_HEADER_NAME"
  shows "header_step mem (n @ CHR '':'' # z) p = Some (1, p\<lparr>hp_namebuf := overwrite (hp_namebuf p) 0 (n @ [NUL]),
    hp_header_offset := hp_header_offset p + length n + 1, hp_header_state := HPS_HEADER_VALUE\<rparr>)"
proof -
  have "scan_from (\<lambda>c. c = CHR '':'') bad_char (n @ CHR '':'' # z) (min HTTP_HEADER_NAME_MAX (length (n @ CHR '':'' # z))) 0 = Found (length n)"
  proof (rule scan_clean)
    show "\<forall>c \<in> set n. c \<noteq> CHR '':'' \<and> \<not> bad_char c" using assms(1) unfolding name_ok_def clean_def by blast
  qed (use assms(1) in \<open>simp_all add: name_ok_def less_Suc_eq_le\<close>)
  moreover have "\<not> is_empty_line (n @ CHR '':'' # z)" using clean_not_CR assms(1) by (simp add: name_ok_def)
  ultimately show ?thesis using assms(2) by (simp add: header_step_def parse_header_name_def)
qed

lemma name_ok_NUL: "name_ok n \<Longrightarrow> takeWhile (\<lambda>c. c \<noteq> NUL) (overwrite nb 0 (n @ [NUL])) = n"
proof -
  assume "name_ok n"
  then have "\<forall>c \<in> set n. c \<noteq> NUL" by (auto simp: name_ok_def clean_def bad_char_def)
  moreover have "overwrite nb 0 (n @ [NUL]) = n @ NUL # drop (length n + 1) nb" by (simp add: overwrite_0)
  ultimately show ?thesis by (simp add: takeWhile_tail takeWhile_eq_all_conv)
qed

lemma field_step:
  assumes "name_ok (fst f)" "value_ok (snd f)" "length_field k f" "k < 2 ^ 31" "hp_header_state p = HPS_HEADER_NAME"
    "drop (hp_header_offset p) M = print_field f @ rest" "rest \<noteq> []" "\<not> is_blank (hd rest)"
  shows "\<exists>q. parse_message_header always M p = parse_message_header always M q \<and> kept p q \<and> hp_header_state q = HPS_HEADER_NAME \<and>
    hp_header_offset q = hp_header_offset p + length (print_field f) \<and> hp_header_list q = hp_header_list p @ [line_of f] \<and>
    hp_content_length q = (if strcaseeq (fst f) ''Content-Length'' then Some k else hp_content_length p)"
proof -
  let ?z = "CHR '' '' # snd f @ crlf @ rest"
  define p1 where "p1 = p\<lparr>hp_namebuf := overwrite (hp_namebuf p) 0 (fst f @ [NUL]), hp_header_offset := hp_header_offset p + length (fst f) + 1,
    hp_header_state := HPS_HEADER_VALUE\<rparr>"
  have d: "drop (hp_header_offset p) M = fst f @ CHR '':'' # ?z" using assms(6) by (simp add: print_field_def)
  have "drop (hp_header_offset p1) M = drop (length (fst f) + 1) (drop (hp_header_offset p) M)" by (simp add: p1_def add.commute)
  then have d1: "drop (hp_header_offset p1) M = ?z" using d by simp
  have s1: "parse_message_header always M p = parse_message_header always M p1"
    using header_loop_step [of always p M 1 p1] name_field [OF assms(1,5)] d by (simp add: p1_def)
  obtain e a where m: "header_meaning (fst f) (snd f) p1 = Some (p1\<lparr>hp_expect_continue := e, hp_keep_alive := a,
      hp_content_length := if strcaseeq (fst f) ''Content-Length'' then Some k else hp_content_length p1\<rparr>)"
    using meaning_field [OF assms(3,4)] by blast
  define p2 where "p2 = p1\<lparr>hp_expect_continue := e, hp_keep_alive := a,
      hp_content_length := if strcaseeq (fst f) ''Content-Length'' then Some k else hp_content_length p1\<rparr>"
  define q where "q = p2\<lparr>hp_header_list := hp_header_list p2 @ [line_of f], hp_header_offset := hp_header_offset p2 + (length ?z - length rest),
      hp_header_state := HPS_HEADER_NAME\<rparr>"
  have n: "takeWhile (\<lambda>c. c \<noteq> NUL) (hp_namebuf p1) = fst f" using name_ok_NUL [OF assms(1)] by (simp add: p1_def)
  have "match_message_header always (fst f) (snd f) p1 = Some (0, p2\<lparr>hp_header_list := hp_header_list p2 @ [line_of f]\<rparr>)"
    by (simp add: match_message_header_def http_parser_add_header_def m [folded p2_def] line_of_def print_field_def)
  then have "parse_header_value always ?z p1 = Some (1, q)"
    unfolding parse_header_value_def n value_field [OF assms(2,7,8)] by (simp add: q_def)
  moreover have "hp_header_state p1 = HPS_HEADER_VALUE" by (simp add: p1_def)
  ultimately have "parse_message_header always M p1 = parse_message_header always M q"
    using header_loop_step [of always p1 M 1 q] d1 by (simp add: header_step_def q_def)
  moreover have "kept p q" by (simp add: kept_def q_def p2_def p1_def)
  ultimately show ?thesis using s1 by (intro exI [of _ q]) (simp add: q_def p2_def p1_def print_field_def)
qed

lemma printed_hd: "\<forall>f \<in> set fs. name_ok (fst f) \<Longrightarrow> concat (map print_field fs) @ crlf @ z \<noteq> [] \<and> \<not> is_blank (hd (concat (map print_field fs) @ crlf @ z))"
proof (cases fs)
  case (Cons f gs)
  assume "\<forall>f \<in> set fs. name_ok (fst f)"
  then have "name_ok (fst f)" by (simp add: Cons)
  then show ?thesis by (cases "fst f") (auto simp: Cons print_field_def name_ok_def is_blank_def)
qed (simp add: crlf_def is_blank_def)

lemma fields_loop:
  assumes "\<forall>f \<in> set fs. name_ok (fst f) \<and> value_ok (snd f) \<and> length_field k f" "k < 2 ^ 31" "hp_header_state p = HPS_HEADER_NAME"
    "drop (hp_header_offset p) M = concat (map print_field fs) @ crlf @ z"
  shows "\<exists>q. parse_message_header always M p = Some (1, q) \<and> kept p q \<and> hp_header_state q = HPS_HEADER_COMPLETE \<and>
    hp_header_offset q = hp_header_offset p + length (concat (map print_field fs)) + 2 \<and> hp_header_list q = hp_header_list p @ map line_of fs \<and>
    hp_content_length q = (if \<exists>f \<in> set fs. strcaseeq (fst f) ''Content-Length'' then Some k else hp_content_length p)"
  using assms
proof (induction fs arbitrary: p)
  case Nil
  let ?q = "p\<lparr>hp_header_offset := hp_header_offset p + 2, hp_header_state := HPS_HEADER_COMPLETE\<rparr>"
  have "header_step always (drop (hp_header_offset p) M) p = Some (1, ?q)"
    using Nil by (simp add: header_step_def parse_header_name_def is_empty_line_def crlf_def)
  then have "parse_message_header always M p = Some (1, ?q)" using header_loop_step by fastforce
  then show ?case by (intro exI [of _ ?q]) (simp add: kept_def)
next
  case (Cons f fs)
  let ?r = "concat (map print_field fs) @ crlf @ z"
  have r: "?r \<noteq> []" "\<not> is_blank (hd ?r)" using printed_hd [of fs z] Cons.prems(1) by auto
  have "drop (hp_header_offset p) M = print_field f @ ?r" using Cons.prems(4) by simp
  then obtain q where q: "parse_message_header always M p = parse_message_header always M q" "kept p q" "hp_header_state q = HPS_HEADER_NAME"
    "hp_header_offset q = hp_header_offset p + length (print_field f)" "hp_header_list q = hp_header_list p @ [line_of f]"
    "hp_content_length q = (if strcaseeq (fst f) ''Content-Length'' then Some k else hp_content_length p)"
    using field_step [of f k p M ?r] Cons.prems r by auto
  have "drop (hp_header_offset q) M = drop (length (print_field f)) (drop (hp_header_offset p) M)" using q(4) by (simp add: add.commute)
  then have "drop (hp_header_offset q) M = ?r" using Cons.prems(4) by simp
  then obtain q' where q': "parse_message_header always M q = Some (1, q')" "kept q q'" "hp_header_state q' = HPS_HEADER_COMPLETE"
    "hp_header_offset q' = hp_header_offset q + length (concat (map print_field fs)) + 2" "hp_header_list q' = hp_header_list q @ map line_of fs"
    "hp_content_length q' = (if \<exists>f \<in> set fs. strcaseeq (fst f) ''Content-Length'' then Some k else hp_content_length q)"
    using Cons.IH [of q] Cons.prems q(3) by auto
  show ?case using q q' kept_trans by (intro exI [of _ q']) auto
qed

text \<open>Statuses whose responses have no body, whatever the headers say.\<close>

definition no_body :: "string \<Rightarrow> bool" where
  "no_body status \<longleftrightarrow> (status \<noteq> [] \<and> hd status = CHR ''1'') \<or> status = ''204'' \<or> status = ''304''"

text \<open>The headers tell the length of the body: by a field, or because a request without it has none.\<close>

definition framed :: "bool \<Rightarrow> string \<Rightarrow> nat \<Rightarrow> (string \<times> string) list \<Rightarrow> bool" where
  "framed is_resp b k fs \<longleftrightarrow> k < 2 ^ 31 \<and> (\<forall>f \<in> set fs. length_field k f) \<and>
     (if is_resp \<and> no_body b then k = 0
      else if \<exists>f \<in> set fs. strcaseeq (fst f) ''Content-Length'' then True else \<not> is_resp \<and> k = 0)"

definition starts_with :: "bool \<Rightarrow> string \<Rightarrow> string \<Rightarrow> string \<Rightarrow> http_parser \<Rightarrow> bool" where
  "starts_with is_resp a b c p \<longleftrightarrow>
     (if is_resp then hp_method p = None \<and> hp_version p = Some a \<and> hp_code p = Some b \<and> hp_phrase p = Some c
      else hp_method p = Some a \<and> hp_uri p = Some b \<and> hp_version p = Some c)"

lemma cut_space_word: "CHR '' '' \<notin> set a \<Longrightarrow> cut_space (a @ CHR '' '' # t) = Some (a, t)"
proof -
  assume "CHR '' '' \<notin> set a"
  then have "\<forall>c \<in> set a. c \<noteq> CHR '' ''" by blast
  then have "takeWhile (\<lambda>c. c \<noteq> CHR '' '') a = a" "dropWhile (\<lambda>c. c \<noteq> CHR '' '') a = []" by simp_all
  then show ?thesis by (simp add: cut_space_def dropWhile_append takeWhile_tail)
qed

lemma start_step:
  assumes "start_ok a b c" "hp_header_state p = HPS_START_LINE" "drop (hp_header_offset p) M = print_start a b c @ rest"
    "hp_method p = None"
  shows "\<exists>q. parse_message_header always M p = parse_message_header always M q \<and> hp_header_state q = HPS_HEADER_NAME \<and>
    hp_header_offset q = hp_header_offset p + length (print_start a b c) \<and> starts_with (hp_is_resp p) a b c q \<and>
    hp_transfer_length q = (if hp_is_resp p \<and> no_body b then Some 0 else hp_transfer_length p) \<and>
    hp_header_list q = hp_header_list p \<and> hp_content_length q = hp_content_length p \<and> hp_chunked q = hp_chunked p \<and>
    hp_msgbuf q = hp_msgbuf p \<and> hp_complete q = hp_complete p \<and> hp_is_resp q = hp_is_resp p"
proof -
  let ?l = "a @ CHR '' '' # b @ CHR '' '' # c" and ?z = "LF # rest"
  have t: "print_start a b c @ rest = ?l @ CR # ?z" by (simp add: print_start_def crlf_def)
  have sp: "\<not> bad_char (CHR '' '')" by code_simp
  have "clean (CHR '' '' # s) = clean s" for s using sp by (simp add: clean_def)
  then have "clean ?l" using assms(1) by (simp add: start_ok_def clean_append)
  then have cl: "\<forall>x \<in> set ?l. x \<noteq> CR \<and> \<not> bad_char x" by (simp only: clean_def)
  have len: "length ?l < HTTP_START_LINE_MAX" using assms(1) by (simp add: start_ok_def print_start_def crlf_def)
  have sc: "scan_from (\<lambda>c. c = CR) bad_char (?l @ CR # ?z) (min HTTP_START_LINE_MAX (length (?l @ CR # ?z))) 0 = Found (length ?l)"
    by (rule scan_clean) (use cl len in \<open>simp_all add: less_Suc_eq_le\<close>)
  have ne: "\<not> is_empty_line (?l @ CR # ?z)" using cl by (cases a) (auto simp: is_empty_line_def)
  have nth: "(?l @ CR # ?z) ! (length ?l + 1) = LF" by (simp add: nth_append)
  have tk: "take (length ?l) (?l @ CR # ?z) = ?l" by simp
  have "cut_space ?l = Some (a, b @ CHR '' '' # c)" "cut_space (b @ CHR '' '' # c) = Some (b, c)"
    using cut_space_word assms(1) by (auto simp: start_ok_def)
  moreover have "parse_start_line always (?l @ CR # ?z) p = match_start_line always ?l (length ?l) p"
    unfolding parse_start_line_def Let_def sc if_not_P [OF ne] line_scan.case nth tk by simp
  ultimately obtain q where q: "parse_start_line always (?l @ CR # ?z) p = (1, q)" "hp_header_state q = HPS_HEADER_NAME"
    "hp_header_offset q = hp_header_offset p + length ?l + 2" "starts_with (hp_is_resp p) a b c q"
    "hp_transfer_length q = (if hp_is_resp p \<and> no_body b then Some 0 else hp_transfer_length p)"
    "hp_header_list q = hp_header_list p" "hp_content_length q = hp_content_length p" "hp_chunked q = hp_chunked p"
    "hp_msgbuf q = hp_msgbuf p" "hp_complete q = hp_complete p" "hp_is_resp q = hp_is_resp p"
    using assms(4)
    by (cases "hp_is_resp p") (auto simp: match_start_line_def match_status_line_def match_request_line_def dup_ok_def Let_def starts_with_def no_body_def)
  then have "parse_message_header always M p = parse_message_header always M q"
    using header_loop_step [of always p M 1 q] assms(2,3) by (simp add: header_step_def t)
  then show ?thesis using q by (intro exI [of _ q]) (simp add: print_start_def crlf_def)
qed

lemma printed_message:
  assumes "start_ok a b c" "\<forall>f \<in> set fs. name_ok (fst f) \<and> value_ok (snd f)" "framed is_resp b (length body) fs"
    "text = print_start a b c @ concat (map print_field fs) @ crlf @ body"
  shows "\<exists>q. http_parser_append_message always (text @ extra) (http_parser_init is_resp junk cs co) = Some (1, length text, q) \<and>
    starts_with is_resp a b c q \<and> hp_header_list q = map line_of fs \<and> http_parser_get_body q = Some body \<and> \<not> hp_chunked q"
proof -
  let ?i = "http_parser_init is_resp junk cs co"
  obtain n where n: "http_parser_append_message always (text @ extra) ?i =
      do { (ret, left, q) \<leftarrow> parse_buffer always (rebuf (hp_msgbuf ?i @ text @ extra) n ?i); Some (ret, length (text @ extra) - left, q) }"
    using http_append_buffer [of ?i "text @ extra"] by (auto simp: http_parser_init_def)
  define p where "p = rebuf (text @ extra) n ?i"
  have p: "hp_header_state p = HPS_START_LINE" "hp_method p = None" "hp_header_offset p = 0" "hp_is_resp p = is_resp" "hp_transfer_length p = None"
    "hp_header_list p = []" "hp_content_length p = (if is_resp then None else Some 0)" "\<not> hp_chunked p" "hp_msgbuf p = text @ extra" "\<not> hp_complete p"
    by (simp_all add: p_def http_parser_init_def rebuf_def)
  have a: "http_parser_append_message always (text @ extra) ?i =
      do { (ret, left, q) \<leftarrow> parse_buffer always p; Some (ret, length (text @ extra) - left, q) }" using n by (simp add: p_def) (simp add: http_parser_init_def)
  let ?r = "concat (map print_field fs) @ crlf @ body @ extra"
  obtain q where q: "parse_message_header always (text @ extra) p = parse_message_header always (text @ extra) q" "hp_header_state q = HPS_HEADER_NAME"
    "hp_header_offset q = length (print_start a b c)" "starts_with is_resp a b c q"
    "hp_transfer_length q = (if is_resp \<and> no_body b then Some 0 else None)" "hp_header_list q = []" "hp_content_length q = (if is_resp then None else Some 0)"
    "\<not> hp_chunked q" "hp_msgbuf q = text @ extra" "\<not> hp_complete q" "hp_is_resp q = is_resp"
    using start_step [OF assms(1) p(1), of "text @ extra" ?r] p assms(4) by auto
  have "drop (hp_header_offset q) (text @ extra) = concat (map print_field fs) @ crlf @ body @ extra" using q(3) by (simp add: assms(4))
  then obtain r where r: "parse_message_header always (text @ extra) q = Some (1, r)" "kept q r" "hp_header_state r = HPS_HEADER_COMPLETE"
    "hp_header_offset r = length (print_start a b c) + length (concat (map print_field fs)) + 2" "hp_header_list r = map line_of fs"
    "hp_content_length r = (if \<exists>f \<in> set fs. strcaseeq (fst f) ''Content-Length'' then Some (length body) else hp_content_length q)"
    using fields_loop [of fs "length body" q "text @ extra" "body @ extra"] assms(2,3) q(2,3,6) by (auto simp: framed_def)
  have o: "hp_header_offset r + length body = length text" "text = take (hp_header_offset r) text @ body" using r(4) by (simp_all add: assms(4) crlf_def)
  have tl: "hp_transfer_length (after_header r) = Some (length body)"
    using r(2,6) q(5,7,8) assms(3) by (auto simp: after_header_def kept_def framed_def split: if_splits)
  have ah: "after_header r = r\<lparr>hp_transfer_length := Some (length body)\<rparr>" using tl r(2) q(8) by (auto simp: after_header_def kept_def split: if_splits)
  have "parse_buffer always p = parse_body (after_header r)" using p(1,9) q(1) r(1) by (simp add: parse_buffer_def)
  also have "\<dots> = Some (1, length extra, (after_header r)\<lparr>hp_msgbuf := text, hp_complete := True\<rparr>)"
    using o r(2) q(9) by (simp add: parse_body_def ah kept_def)
  finally have "http_parser_append_message always (text @ extra) ?i = Some (1, length text, (after_header r)\<lparr>hp_msgbuf := text, hp_complete := True\<rparr>)"
    using a by simp
  moreover have "drop (hp_header_offset r) text = body" using o by (metis append_eq_conv_conj append_take_drop_id length_append length_drop add_diff_cancel_right' diff_diff_cancel le_add1)
  ultimately show ?thesis using r(2,3,5) q(4,8) by (auto simp: ah kept_def starts_with_def http_parser_get_body_def)
qed
end
