(* ===== verification/Http_Message.thy ===== *)
theory Http_Message
  imports Http_Theorems
begin

text \<open>
  HTTP messages (\<^verbatim>\<open>workflow/src/protocol/HttpMessage.h\<close>, \<^verbatim>\<open>HttpMessage.cc\<close>, with the base class of \<^verbatim>\<open>ProtocolMessage.h\<close>): a parser,
  the blocks of the body to send and the limit on what may be received. \<open>hm_parser\<close> is \<open>None\<close> once the message was moved from.
  \<open>sock\<close> stands for the socket behind \<^verbatim>\<open>CommMessageIn::feedback\<close>: the number of bytes it takes or an error. Results that are
  \<open>None\<close> are undefined: a write outside the vectors, a use of a moved message or of a pointer that was never set.
\<close>

section \<open>State\<close>

text \<open>The pointer to the wrapper of a message, \<open>Unset\<close> when no constructor gave it a value.\<close>

datatype wrapper_ptr = Unset | Null | Wrapper nat

text \<open>\<open>hm_output_body\<close> are the bytes of the blocks; those added without a copy must not change until they are sent.\<close>

record http_message =
  hm_parser :: "http_parser option"
  hm_cur_size :: nat
  hm_output_body :: "string list"
  hm_output_body_size :: nat
  hm_size_limit :: nat
  hm_attachment :: "nat option"
  hm_wrapper :: wrapper_ptr

abbreviation no_limit :: nat where "no_limit \<equiv> 2 ^ 64 - 1"

definition new_http_message :: "bool \<Rightarrow> string \<Rightarrow> chunk_state \<Rightarrow> nat \<Rightarrow> http_message" where
  "new_http_message is_resp junk cs co =
     \<lparr>hm_parser = Some (http_parser_init is_resp junk cs co), hm_cur_size = 0, hm_output_body = [], hm_output_body_size = 0,
      hm_size_limit = no_limit, hm_attachment = None, hm_wrapper = Null\<rparr>"

definition set_size_limit :: "nat \<Rightarrow> http_message \<Rightarrow> http_message" where
  "set_size_limit limit m = m\<lparr>hm_size_limit := limit\<rparr>"

section \<open>The body to send\<close>

text \<open>\<^verbatim>\<open>sizeof (struct HttpMessageBlock)\<close> is 32.\<close>

definition append_output_body :: "(nat \<Rightarrow> bool) \<Rightarrow> string \<Rightarrow> http_message \<Rightarrow> bool \<times> http_message" where
  "append_output_body mem buf m =
     (if mem (32 + length buf) then
        (True, m\<lparr>hm_output_body := hm_output_body m @ [buf], hm_output_body_size := hm_output_body_size m + length buf\<rparr>)
      else (False, m))"

definition append_output_body_nocopy :: "(nat \<Rightarrow> bool) \<Rightarrow> string \<Rightarrow> http_message \<Rightarrow> bool \<times> http_message" where
  "append_output_body_nocopy mem buf m =
     (if mem 32 then
        (True, m\<lparr>hm_output_body := hm_output_body m @ [buf], hm_output_body_size := hm_output_body_size m + length buf\<rparr>)
      else (False, m))"

definition clear_output_body :: "http_message \<Rightarrow> http_message" where
  "clear_output_body m = m\<lparr>hm_output_body := [], hm_output_body_size := 0\<rparr>"

text \<open>\<open>entries\<close> are the blocks from \<^verbatim>\<open>pos\<close> on. They must fill the new block exactly.\<close>

definition combine_from :: "(nat \<Rightarrow> bool) \<Rightarrow> string list \<Rightarrow> nat \<Rightarrow> (errno + string) option" where
  "combine_from mem entries sz =
     (if mem (32 + sz) then if length (concat entries) = sz then Some (Inr (concat entries)) else None
      else Some (Inl ENOMEM))"

text \<open>
  The loop over the blocks, with \<open>i\<close> vectors written so far: the vectors it writes and the blocks it leaves. Only a place below
  \<open>mx\<close> can be written.
\<close>

fun encode_body :: "(nat \<Rightarrow> bool) \<Rightarrow> nat \<Rightarrow> nat \<Rightarrow> nat \<Rightarrow> string list \<Rightarrow> (errno + string list \<times> string list) option" where
  "encode_body mem mx i sz [] = Some (Inr ([], []))"
| "encode_body mem mx i sz (b # bs) =
     (if i \<ge> mx then None
      else if i + 1 = mx \<and> bs \<noteq> [] then
        do { r \<leftarrow> combine_from mem (b # bs) sz;
             (case r of Inl e \<Rightarrow> Some (Inl e) | Inr block \<Rightarrow> Some (Inr ([block], [block]))) }
      else do { r \<leftarrow> encode_body mem mx (i + 1) (sz - length b) bs;
                (case r of Inl e \<Rightarrow> Some (Inl e) | Inr (vs, bs') \<Rightarrow> Some (Inr (b # vs, b # bs'))) })"

text \<open>The loop over the headers stops at the last vector.\<close>

fun encode_headers :: "nat \<Rightarrow> nat \<Rightarrow> header_line list \<Rightarrow> string list" where
  "encode_headers mx i [] = []"
| "encode_headers mx i (l # ls) =
     (if i = mx then [] else take (hl_name_len l + 2 + hl_value_len l + 2) (hl_buf l) # encode_headers mx (i + 1) ls)"

definition start_fields :: "http_parser \<Rightarrow> string option \<times> string option \<times> string option" where
  "start_fields p = (if hp_method p \<noteq> None then (hp_method p, hp_uri p, hp_version p) else (hp_version p, hp_code p, hp_phrase p))"

definition encode :: "(nat \<Rightarrow> bool) \<Rightarrow> nat \<Rightarrow> http_message \<Rightarrow> ((errno + string list) \<times> http_message) option" where
  "encode mem mx m =
     do { p \<leftarrow> hm_parser m;
          (case start_fields p of
             (Some a, Some b, Some c) \<Rightarrow>
               if mx < 6 then None
               else let start = [a, '' '', b, '' '', c, crlf]; hs = encode_headers mx 6 (hp_header_list p); i = 6 + length hs
                    in if i + 1 \<ge> mx then Some (Inl EOVERFLOW, m)
                       else do { r \<leftarrow> encode_body mem mx (i + 1) (hm_output_body_size m) (hm_output_body m);
                                 (case r of
                                    Inl e \<Rightarrow> Some (Inl e, m)
                                  | Inr (vs, bs) \<Rightarrow> Some (Inr (start @ hs @ [crlf] @ vs), m\<lparr>hm_output_body := bs\<rparr>)) }
           | _ \<Rightarrow> Some (Inl EBADMSG, m)) }"

section \<open>Receiving\<close>

text \<open>The result, how many bytes were taken, and the message.\<close>

definition message_append :: "(nat \<Rightarrow> bool) \<Rightarrow> string \<Rightarrow> http_message \<Rightarrow> ((errno + int) \<times> nat \<times> http_message) option" where
  "message_append mem buf m =
     do { p \<leftarrow> hm_parser m;
          (ret, sz, q) \<leftarrow> http_parser_append_message mem buf p;
          let m = m\<lparr>hm_parser := Some q\<rparr>
          in if ret \<ge> 0 then
               let m = m\<lparr>hm_cur_size := hm_cur_size m + sz\<rparr>
               in if hm_cur_size m > hm_size_limit m then Some (Inl EMSGSIZE, sz, m) else Some (Inr ret, sz, m)
             else if ret = - 2 then Some (Inl EBADMSG, sz, m)
             else Some (Inl ENOMEM, sz, m) }"

definition HTTP_100_RESP :: string where
  "HTTP_100_RESP = ''HTTP/1.1 100 Continue'' @ crlf @ crlf"

definition HTTP_400_RESP :: string where
  "HTTP_400_RESP = ''HTTP/1.1 400 Bad Request'' @ crlf @ ''Content-Length: 0'' @ crlf @ ''Connection: close'' @ crlf @ crlf"

definition HTTP_413_RESP :: string where
  "HTTP_413_RESP = ''HTTP/1.1 413 Request Entity Too Large'' @ crlf @ ''Content-Length: 0'' @ crlf @ ''Connection: close'' @ crlf @ crlf"

definition HTTP_417_RESP :: string where
  "HTTP_417_RESP = ''HTTP/1.1 417 Expectation Failed'' @ crlf @ ''Content-Length: 0'' @ crlf @ ''Connection: close'' @ crlf @ crlf"

text \<open>Where \<^verbatim>\<open>feedback\<close> goes: to the message itself, or to its wrapper.\<close>

definition feedback :: "(nat option \<Rightarrow> string \<Rightarrow> errno + nat) \<Rightarrow> string \<Rightarrow> http_message \<Rightarrow> (errno + nat) option" where
  "feedback sock buf m = (case hm_wrapper m of Unset \<Rightarrow> None | Null \<Rightarrow> Some (sock None buf) | Wrapper w \<Rightarrow> Some (sock (Some w) buf))"

text \<open>The result and what was sent.\<close>

definition handle_expect_continue ::
  "(nat option \<Rightarrow> string \<Rightarrow> errno + nat) \<Rightarrow> http_parser \<Rightarrow> http_message \<Rightarrow> ((errno + int) \<times> string list) option" where
  "handle_expect_continue sock p m =
     (if (case hp_transfer_length p of Some trans_len \<Rightarrow> hp_header_offset p + trans_len > hm_size_limit m | None \<Rightarrow> False) then
        do { _ \<leftarrow> feedback sock HTTP_417_RESP m; Some (Inl EMSGSIZE, [HTTP_417_RESP]) }
      else do { ret \<leftarrow> feedback sock HTTP_100_RESP m;
                (case ret of
                   Inl e \<Rightarrow> Some (Inl e, [HTTP_100_RESP])
                 | Inr n \<Rightarrow> if n \<noteq> length HTTP_100_RESP then Some (Inl EAGAIN, [HTTP_100_RESP]) else Some (Inr 0, [HTTP_100_RESP])) })"

definition request_append ::
  "(nat option \<Rightarrow> string \<Rightarrow> errno + nat) \<Rightarrow> (nat \<Rightarrow> bool) \<Rightarrow> string \<Rightarrow> http_message \<Rightarrow>
    ((errno + int) \<times> nat \<times> string list \<times> http_message) option" where
  "request_append sock mem buf m =
     do { (ret, sz, m) \<leftarrow> message_append mem buf m;
          (case ret of
             Inr r \<Rightarrow>
               if r = 0 then
                 do { p \<leftarrow> hm_parser m;
                      if hp_expect_continue p \<and> http_parser_header_complete p then
                        do { (ret, sent) \<leftarrow> handle_expect_continue sock (p\<lparr>hp_expect_continue := False\<rparr>) m;
                             Some (ret, sz, sent, m\<lparr>hm_parser := Some (p\<lparr>hp_expect_continue := False\<rparr>)\<rparr>) }
                      else Some (Inr r, sz, [], m) }
               else Some (Inr r, sz, [], m)
           | Inl e \<Rightarrow>
               if e = EBADMSG then do { _ \<leftarrow> feedback sock HTTP_400_RESP m; Some (Inl e, sz, [HTTP_400_RESP], m) }
               else if e = EMSGSIZE then do { _ \<leftarrow> feedback sock HTTP_413_RESP m; Some (Inl e, sz, [HTTP_413_RESP], m) }
               else Some (Inl e, sz, [], m)) }"

text \<open>A response 100 is dropped: the parser starts again, with what it had in the fields that are not set.\<close>

definition response_append :: "(nat \<Rightarrow> bool) \<Rightarrow> string \<Rightarrow> http_message \<Rightarrow> ((errno + int) \<times> nat \<times> http_message) option" where
  "response_append mem buf m =
     do { (ret, sz, m) \<leftarrow> message_append mem buf m;
          (case ret of
             Inr r \<Rightarrow>
               if r > 0 then
                 do { p \<leftarrow> hm_parser m;
                      code \<leftarrow> hp_code p;
                      if code = ''100'' then
                        Some (Inr 0, sz, m\<lparr>hm_parser := Some (http_parser_init True (hp_namebuf p) (hp_chunk_state p) (hp_chunk_offset p))\<rparr>)
                      else Some (Inr r, sz, m) }
               else Some (Inr r, sz, m)
           | Inl e \<Rightarrow> Some (Inl e, sz, m)) }"

section \<open>Fields, moving and destruction\<close>

text \<open>An operation of the parser, with its return value as a boolean.\<close>

definition on_parser :: "(http_parser \<Rightarrow> int \<times> http_parser) \<Rightarrow> http_message \<Rightarrow> (bool \<times> http_message) option" where
  "on_parser f m = do { p \<leftarrow> hm_parser m; let (r, q) = f p in Some (r = 0, m\<lparr>hm_parser := Some q\<rparr>) }"

definition set_http_version :: "(nat \<Rightarrow> bool) \<Rightarrow> string \<Rightarrow> http_message \<Rightarrow> (bool \<times> http_message) option" where
  "set_http_version mem s = on_parser (http_parser_set_version mem s)"
definition set_method :: "(nat \<Rightarrow> bool) \<Rightarrow> string \<Rightarrow> http_message \<Rightarrow> (bool \<times> http_message) option" where
  "set_method mem s = on_parser (http_parser_set_method mem s)"
definition set_request_uri :: "(nat \<Rightarrow> bool) \<Rightarrow> string \<Rightarrow> http_message \<Rightarrow> (bool \<times> http_message) option" where
  "set_request_uri mem s = on_parser (http_parser_set_uri mem s)"
definition set_status_code :: "(nat \<Rightarrow> bool) \<Rightarrow> string \<Rightarrow> http_message \<Rightarrow> (bool \<times> http_message) option" where
  "set_status_code mem s = on_parser (http_parser_set_code mem s)"
definition set_reason_phrase :: "(nat \<Rightarrow> bool) \<Rightarrow> string \<Rightarrow> http_message \<Rightarrow> (bool \<times> http_message) option" where
  "set_reason_phrase mem s = on_parser (http_parser_set_phrase mem s)"
definition add_header_pair :: "(nat \<Rightarrow> bool) \<Rightarrow> string \<Rightarrow> string \<Rightarrow> http_message \<Rightarrow> (bool \<times> http_message) option" where
  "add_header_pair mem name val = on_parser (http_parser_add_header mem name val)"
definition set_header_pair :: "(nat \<Rightarrow> bool) \<Rightarrow> string \<Rightarrow> string \<Rightarrow> http_message \<Rightarrow> (bool \<times> http_message) option" where
  "set_header_pair mem name val = on_parser (http_parser_set_header mem name val)"
definition end_parsing :: "http_message \<Rightarrow> http_message option" where
  "end_parsing m = do { p \<leftarrow> hm_parser m; Some (m\<lparr>hm_parser := Some (http_parser_close_message p)\<rparr>) }"
definition parse_zero_body :: "http_message \<Rightarrow> http_message option" where
  "parse_zero_body m = do { p \<leftarrow> hm_parser m; Some (m\<lparr>hm_parser := Some (p\<lparr>hp_transfer_length := Some 0\<rparr>)\<rparr>) }"
definition get_parsed_body :: "http_message \<Rightarrow> string option option" where
  "get_parsed_body m = map_option http_parser_get_body (hm_parser m)"

text \<open>What is freed.\<close>

datatype hm_freed = Attachment nat | Blocks "http_block list" | Body "string list"

text \<open>What the source of a move is left as; its wrapper stays.\<close>

definition moved_from :: "http_message \<Rightarrow> http_message" where
  "moved_from msg =
     msg\<lparr>hm_parser := None, hm_cur_size := 0, hm_output_body := [], hm_output_body_size := 0, hm_size_limit := no_limit, hm_attachment := None\<rparr>"

text \<open>The constructor of the base class does not set \<^verbatim>\<open>wrapper\<close>.\<close>

definition move_construct :: "http_message \<Rightarrow> http_message \<times> http_message" where
  "move_construct msg = (msg\<lparr>hm_wrapper := Unset\<rparr>, moved_from msg)"

definition freed_by :: "http_message \<Rightarrow> hm_freed list" where
  "freed_by m = (case hm_parser m of Some p \<Rightarrow> [Blocks (http_parser_deinit p)] | None \<Rightarrow> [])"

definition move_assign :: "http_message \<Rightarrow> http_message \<Rightarrow> http_message \<times> http_message \<times> hm_freed list" where
  "move_assign this msg =
     (msg\<lparr>hm_wrapper := hm_wrapper this\<rparr>, moved_from msg,
      (case hm_attachment this of Some a \<Rightarrow> [Attachment a] | None \<Rightarrow> []) @ freed_by this @ [Body (hm_output_body this)])"

definition destroy_message :: "http_message \<Rightarrow> hm_freed list" where
  "destroy_message m = Body (hm_output_body m) # freed_by m @ (case hm_attachment m of Some a \<Rightarrow> [Attachment a] | None \<Rightarrow> [])"

section \<open>Encoding\<close>

definition message_ok :: "http_message \<Rightarrow> bool" where
  "message_ok m \<longleftrightarrow> hm_output_body_size m = length (concat (hm_output_body m))"

lemma message_ok_ops:
  "message_ok (new_http_message is_resp junk cs co)" "message_ok (clear_output_body m)" "message_ok (moved_from m)"
  "message_ok m \<Longrightarrow> message_ok (snd (append_output_body mem buf m))"
  "message_ok m \<Longrightarrow> message_ok (snd (append_output_body_nocopy mem buf m))"
  "message_ok m \<Longrightarrow> message_ok (fst (move_construct m))" "message_ok m \<Longrightarrow> message_ok (fst (move_assign this m))"
  by (simp_all add: message_ok_def new_http_message_def clear_output_body_def moved_from_def append_output_body_def
      append_output_body_nocopy_def move_construct_def move_assign_def)

definition header_field :: "header_line \<Rightarrow> string \<times> string" where
  "header_field l = (line_name l, line_value (hl_name_len l) l)"

lemma line_printed: "line_ok l \<Longrightarrow> take (hl_name_len l + 2 + hl_value_len l + 2) (hl_buf l) = print_field (header_field l)"
proof -
  have "hl_name_len l + 2 + hl_value_len l + 2 = hl_name_len l + hl_value_len l + 4" by simp
  then show "line_ok l \<Longrightarrow> ?thesis" unfolding line_ok_def header_field_def print_field_def fst_conv snd_conv by presburger
qed

lemma line_of_field: "header_field (line_of f) = f"
  by (cases f) (simp add: header_field_def line_of_def print_field_def line_name_def line_value_def)

lemma line_of_ok: "line_ok (line_of f)"
  using line_okI [of "line_of f" "fst f" "snd f" "[]"] by (simp add: line_of_def print_field_def)

lemma encode_headers_all: "i + length ls \<le> mx \<Longrightarrow> \<forall>l \<in> set ls. line_ok l \<Longrightarrow> encode_headers mx i ls = map (\<lambda>l. print_field (header_field l)) ls"
proof (induction ls arbitrary: i)
  case (Cons l ls)
  then show ?case using line_printed [of l] by (simp only: encode_headers.simps list.map list.size) auto
qed simp

lemma encode_headers_full: "i \<le> mx \<Longrightarrow> mx \<le> i + length ls \<Longrightarrow> length (encode_headers mx i ls) = mx - i"
  by (induction ls arbitrary: i) auto

lemma encode_body_fits:
  assumes "i < mx \<or> bs = []" "sz = length (concat bs)"
  shows "case encode_body mem mx i sz bs of None \<Rightarrow> False | Some (Inl e) \<Rightarrow> e = ENOMEM \<and> (\<exists>n. \<not> mem n)
    | Some (Inr (vs, bs')) \<Rightarrow> concat vs = concat bs \<and> bs' = vs \<and> (bs = [] \<or> i + length vs \<le> mx)"
  using assms
proof (induction mem mx i sz bs rule: encode_body.induct)
  case (2 mem mx i sz b bs)
  show ?case
  proof (cases "i + 1 = mx \<and> bs \<noteq> []")
    case True
    then show ?thesis using 2(2,3) by (auto simp: combine_from_def)
  next
    case False
    then have "i + 1 < mx \<or> bs = []" "sz - length b = length (concat bs)" using 2(2,3) by auto
    with 2(1) [OF _ False] 2(2) show ?thesis using False by (fastforce split: option.splits sum.splits)
  qed
qed simp

definition demo_request :: "string list \<Rightarrow> http_message" where
  "demo_request blocks = (new_http_message False [] CPS_CHUNK_DATA 0)\<lparr>
     hm_parser := Some ((http_parser_init False [] CPS_CHUNK_DATA 0)\<lparr>hp_method := Some ''PUT'', hp_uri := Some ''/a'', hp_version := Some ''HTTP/1.1'',
       hp_header_list := map line_of [(''Host'', ''h''), (''Content-Length'', ''5'')]\<rparr>),
     hm_output_body := blocks, hm_output_body_size := length (concat blocks)\<rparr>"

lemma encode_result:
  assumes "message_ok m" "hm_parser m = Some p" "start_fields p = (Some a, Some b, Some c)" "6 \<le> mx" "\<forall>l \<in> set (hp_header_list p). line_ok l"
  shows "if mx \<le> 7 + length (hp_header_list p) then encode mem mx m = Some (Inl EOVERFLOW, m)
    else case encode mem mx m of None \<Rightarrow> False
      | Some (Inl e, m') \<Rightarrow> e = ENOMEM \<and> (\<exists>n. \<not> mem n) \<and> m' = m
      | Some (Inr vs, m') \<Rightarrow> length vs \<le> mx \<and> message_ok m' \<and> concat (hm_output_body m') = concat (hm_output_body m) \<and>
          concat vs = print_start a b c @ concat (map (\<lambda>l. print_field (header_field l)) (hp_header_list p)) @ crlf @ concat (hm_output_body m)"
proof (cases "mx \<le> 7 + length (hp_header_list p)")
  case True
  have "mx \<le> 7 + length (encode_headers mx 6 (hp_header_list p))"
  proof (cases "mx \<le> 6 + length (hp_header_list p)")
    case True
    then show ?thesis using encode_headers_full [OF assms(4) True] by simp
  next
    case False
    then have "encode_headers mx 6 (hp_header_list p) = map (\<lambda>l. print_field (header_field l)) (hp_header_list p)"
      using assms(5) by (intro encode_headers_all) auto
    then show ?thesis using True by simp
  qed
  then have "encode mem mx m = Some (Inl EOVERFLOW, m)" using assms(2-4) by (simp add: encode_def Let_def)
  then show ?thesis using True by simp
next
  case False
  have hs: "encode_headers mx 6 (hp_header_list p) = map (\<lambda>l. print_field (header_field l)) (hp_header_list p)"
    using False assms(5) by (intro encode_headers_all) auto
  let ?i = "6 + length (hp_header_list p) + 1"
  have i: "?i < mx \<or> hm_output_body m = []" using False by simp
  have e: "encode mem mx m = do { r \<leftarrow> encode_body mem mx ?i (hm_output_body_size m) (hm_output_body m);
      (case r of Inl e \<Rightarrow> Some (Inl e, m)
       | Inr (vs, bs) \<Rightarrow> Some (Inr ([a, '' '', b, '' '', c, crlf] @ map (\<lambda>l. print_field (header_field l)) (hp_header_list p) @ [crlf] @ vs), m\<lparr>hm_output_body := bs\<rparr>)) }"
    using assms(2-4) False by (simp add: encode_def Let_def hs)
  have "hm_output_body_size m = length (concat (hm_output_body m))" using assms(1) by (simp add: message_ok_def)
  from encode_body_fits [OF i this, of mem] show ?thesis
  proof (cases "encode_body mem mx ?i (hm_output_body_size m) (hm_output_body m)")
    case (Some r)
    show ?thesis
    proof (cases r)
      case (Inl x)
      then show ?thesis using encode_body_fits [OF i, of _ mem] assms(1) Some e False by (auto simp: message_ok_def)
    next
      case (Inr x)
      obtain vs bs where x: "x = (vs, bs)" by force
      have v: "concat vs = concat (hm_output_body m)" "bs = vs" "hm_output_body m = [] \<or> ?i + length vs \<le> mx"
        using encode_body_fits [OF i, of _ mem] assms(1) Some Inr x by (auto simp: message_ok_def)
      moreover have "?i + length vs \<le> mx"
      proof (cases "hm_output_body m = []")
        case True
        then show ?thesis using Some Inr x False by simp
      qed (use v in simp)
      ultimately show ?thesis using e Some Inr x False assms(1) by (simp add: message_ok_def print_start_def)
    qed
  qed simp
qed

text \<open>
  C32: What encoding does, in every case. Without one of the three fields of the start line it fails with \<open>EBADMSG\<close> and touches nothing. With fewer than six vectors the start line is written
  behind them, before their number is looked at. With six or more it stays inside the vectors: it fails with \<open>EOVERFLOW\<close> exactly if there is no room for the headers, the empty line and one
  more vector, and otherwise only for want of memory; the vectors hold the start line, every header in order, the empty line and exactly the body, even when its last blocks had to be combined.
\<close>

theorem http_encode:
  assumes "message_ok m" "hm_parser m = Some p" "\<forall>l \<in> set (hp_header_list p). line_ok l"
  shows "case start_fields p of
      (Some a, Some b, Some c) \<Rightarrow>
        (if mx < 6 then encode mem mx m = None
         else if mx \<le> 7 + length (hp_header_list p) then encode mem mx m = Some (Inl EOVERFLOW, m)
         else case encode mem mx m of None \<Rightarrow> False
           | Some (Inl e, m') \<Rightarrow> e = ENOMEM \<and> (\<exists>n. \<not> mem n) \<and> m' = m
           | Some (Inr vs, m') \<Rightarrow> length vs \<le> mx \<and> message_ok m' \<and> concat (hm_output_body m') = concat (hm_output_body m) \<and>
               concat vs = print_start a b c @ concat (map (\<lambda>l. print_field (header_field l)) (hp_header_list p)) @ crlf @ concat (hm_output_body m))
    | _ \<Rightarrow> encode mem mx m = Some (Inl EBADMSG, m)"
proof (cases "\<exists>a b c. start_fields p = (Some a, Some b, Some c)")
  case True
  then obtain a b c where f: "start_fields p = (Some a, Some b, Some c)" by blast
  show ?thesis
  proof (cases "mx < 6")
    case True
    then show ?thesis using assms(2) f by (simp add: encode_def)
  next
    case False
    then show ?thesis using encode_result [OF assms(1,2) f _ assms(3), of mx mem] f by simp
  qed
next
  case False
  then show ?thesis using assms(2) by (auto simp: encode_def split: prod.splits option.splits)
qed

theorem http_encode_witness:
  "length (hm_output_body (demo_request [''ab'', ''c'', ''de''])) = 3 \<and> encode always 5 (demo_request [''ab'', ''c'', ''de'']) = None \<and>
   (case encode always 11 (demo_request [''ab'', ''c'', ''de'']) of Some (Inr vs, m') \<Rightarrow> length vs \<le> 11 \<and>
      concat vs = print_start ''PUT'' ''/a'' ''HTTP/1.1'' @ ''Host: h'' @ crlf @ ''Content-Length: 5'' @ crlf @ crlf @ ''abcde'' | _ \<Rightarrow> False)"
proof -
  let ?m = "demo_request [''ab'', ''c'', ''de'']"
  have p: "hm_parser ?m = Some (the (hm_parser ?m))" by (simp add: demo_request_def)
  have h: "message_ok ?m" "start_fields (the (hm_parser ?m)) = (Some ''PUT'', Some ''/a'', Some ''HTTP/1.1'')"
    "\<forall>l \<in> set (hp_header_list (the (hm_parser ?m))). line_ok l" "\<not> (11 :: nat) \<le> 7 + length (hp_header_list (the (hm_parser ?m)))" "\<not> (11 :: nat) < 6"
    by (simp_all add: demo_request_def message_ok_def start_fields_def line_of_ok)
  define t where "t = ''Host: h'' @ crlf @ ''Content-Length: 5'' @ crlf @ crlf @ ''abcde''"
  define u where "u = print_start ''PUT'' ''/a'' ''HTTP/1.1''"
  have e: "concat (map (\<lambda>l. print_field (header_field l)) (hp_header_list (the (hm_parser ?m)))) @ crlf @ concat (hm_output_body ?m) = t"
    "length (hm_output_body ?m) = 3" by (simp_all add: demo_request_def t_def line_of_field print_field_def)
  obtain X where X: "encode always 11 ?m = X" by blast
  note W = http_encode [where mx = 11 and mem = always, OF h(1) p h(3), unfolded h(2) prod.case option.case if_not_P [OF h(5)] if_not_P [OF h(4)] e X, folded u_def]
  have "case X of Some (Inr vs, m') \<Rightarrow> length vs \<le> 11 \<and> concat vs = u @ t | _ \<Rightarrow> False"
    using W by (cases X) (auto split: sum.splits)
  moreover have "encode always 5 ?m = None" using http_encode [where mx = 5 and mem = always, OF h(1) p h(3)] by (simp add: h(2))
  ultimately show ?thesis unfolding X t_def u_def using e(2) by blast
qed

lemma http_encode_vectors:
  assumes "message_ok m" "hm_parser m = Some p" "start_fields p = (Some a, Some b, Some c)" "6 \<le> mx" "\<forall>l \<in> set (hp_header_list p). line_ok l"
    "encode mem mx m = Some (Inr vs, m')"
  shows "concat vs = print_start a b c @ concat (map (\<lambda>l. print_field (header_field l)) (hp_header_list p)) @ crlf @ concat (hm_output_body m)"
  using encode_result [OF assms(1-5), of mem] assms(6) by (auto split: if_splits)

section \<open>Sending and receiving\<close>

text \<open>A new message with a limit.\<close>

definition receiver :: "bool \<Rightarrow> string \<Rightarrow> chunk_state \<Rightarrow> nat \<Rightarrow> nat \<Rightarrow> http_message" where
  "receiver is_resp junk cs co limit = set_size_limit limit (new_http_message is_resp junk cs co)"

lemma receive_printed:
  assumes "start_ok a b c" "\<forall>f \<in> set fs. name_ok (fst f) \<and> value_ok (snd f)" "framed is_resp b (length body) fs"
    "text = print_start a b c @ concat (map print_field fs) @ crlf @ body" "length text \<le> limit"
  shows "\<exists>n q. message_append always (text @ extra) (receiver is_resp junk cs co limit) = Some (Inr 1, length text, n) \<and> hm_parser n = Some q \<and>
    starts_with is_resp a b c q \<and> map header_field (hp_header_list q) = fs \<and> http_parser_get_body q = Some body"
proof -
  obtain q where q: "http_parser_append_message always (text @ extra) (http_parser_init is_resp junk cs co) = Some (1, length text, q)"
    "starts_with is_resp a b c q" "hp_header_list q = map line_of fs" "http_parser_get_body q = Some body"
    using printed_message [OF assms(1-4)] by blast
  have "map header_field (map line_of fs) = fs" by (simp add: line_of_field map_idI)
  then show ?thesis using q assms(5)
    by (simp add: message_append_def receiver_def set_size_limit_def new_http_message_def)
qed

text \<open>
  C6: A request or response that was encoded is received as it was sent: the start line, the headers in their order and spelling
  and the body come back, exactly the bytes of the message are taken from what arrived, and nothing is sent back.
\<close>

theorem http_roundtrip:
  assumes "message_ok m" "hm_parser m = Some p" "starts_with is_resp a b c p" "start_ok a b c"
    "\<forall>l \<in> set (hp_header_list p). line_ok l" "fs = map header_field (hp_header_list p)"
    "\<forall>f \<in> set fs. name_ok (fst f) \<and> value_ok (snd f)" "body = concat (hm_output_body m)" "framed is_resp b (length body) fs"
    "encode mem mx m = Some (Inr vs, m')" "length (concat vs) \<le> limit" "is_resp \<Longrightarrow> b \<noteq> ''100''"
  shows "\<exists>n q. hm_parser n = Some q \<and> starts_with is_resp a b c q \<and> map header_field (http_header_cursor_init q) = fs \<and>
    get_parsed_body n = Some (Some body) \<and>
    (if is_resp then response_append always (concat vs @ extra) (receiver True junk cs co limit) = Some (Inr 1, length (concat vs), n)
     else request_append sock always (concat vs @ extra) (receiver False junk cs co limit) = Some (Inr 1, length (concat vs), [], n))"
proof -
  have s: "start_fields p = (Some a, Some b, Some c)" using assms(3) by (auto simp: start_fields_def starts_with_def split: if_splits)
  have "6 \<le> mx" using assms(2,10) s by (auto simp: encode_def split: if_splits)
  from http_encode_vectors [OF assms(1,2) s this assms(5,10)]
  have vs: "concat vs = print_start a b c @ concat (map print_field fs) @ crlf @ body" by (simp add: assms(6,8) comp_def)
  obtain n q where n: "message_append always (concat vs @ extra) (receiver is_resp junk cs co limit) = Some (Inr 1, length (concat vs), n)"
    "hm_parser n = Some q" "starts_with is_resp a b c q" "map header_field (hp_header_list q) = fs" "http_parser_get_body q = Some body"
    using receive_printed [OF assms(4,7,9) vs assms(11)] by blast
  show ?thesis
  proof (cases is_resp)
    case True
    then have "hp_code q = Some b" using n(3) by (simp add: starts_with_def)
    then have "response_append always (concat vs @ extra) (receiver True junk cs co limit) = Some (Inr 1, length (concat vs), n)"
      using n(1,2) True assms(12) by (simp add: response_append_def)
    then show ?thesis using n True by (auto simp: get_parsed_body_def http_header_cursor_init_def)
  next
    case False
    then have "request_append sock always (concat vs @ extra) (receiver False junk cs co limit) = Some (Inr 1, length (concat vs), [], n)"
      using n(1) by (simp add: request_append_def)
    then show ?thesis using n False by (auto simp: get_parsed_body_def http_header_cursor_init_def)
  qed
qed

theorem http_roundtrip_witness:
  "\<exists>vs m' n. encode always 20 (demo_request [''ab'', ''cde'']) = Some (Inr vs, m') \<and> get_parsed_body n = Some (Some ''abcde'') \<and>
     request_append (\<lambda>w s. Inr 0) always (concat vs @ ''GET'') (receiver False [] CPS_CHUNK_DATA 0 1000) = Some (Inr 1, length (concat vs), [], n)"
proof -
  let ?m = "demo_request [''ab'', ''cde'']" and ?fs = "[(''Host'', ''h''), (''Content-Length'', ''5'')]"
  let ?p = "the (hm_parser ?m)"
  have h: "message_ok ?m" "hm_parser ?m = Some ?p" "starts_with False ''PUT'' ''/a'' ''HTTP/1.1'' ?p" "\<forall>l \<in> set (hp_header_list ?p). line_ok l"
    "?fs = map header_field (hp_header_list ?p)" "concat [''ab'', ''cde''] = concat (hm_output_body ?m)"
    by (simp_all add: demo_request_def message_ok_def starts_with_def line_of_ok line_of_field)
  have st: "start_ok ''PUT'' ''/a'' ''HTTP/1.1''" by code_simp
  have nv: "\<forall>f \<in> set ?fs. name_ok (fst f) \<and> value_ok (snd f)" by code_simp
  have five: "show_nat (length (concat [''ab'', ''cde''])) = ''5''" by code_simp
  have "\<not> strcaseeq ''Host'' ''Transfer-Encoding''" "\<not> strcaseeq ''Host'' ''Content-Length''" "\<not> strcaseeq ''Content-Length'' ''Transfer-Encoding''" by code_simp+
  then have fr: "framed False ''/a'' (length (concat [''ab'', ''cde''])) ?fs"
    unfolding framed_def length_field_def five by (simp add: strcaseeq_def)
  define vs where "vs = [''PUT'', '' '', ''/a'', '' '', ''HTTP/1.1'', crlf, print_field (''Host'', ''h''), print_field (''Content-Length'', ''5''), crlf, ''ab'', ''cde'']"
  have hs: "encode_headers 20 6 (map line_of ?fs) = map (\<lambda>l. print_field (header_field l)) (map line_of ?fs)"
    using line_of_ok by (intro encode_headers_all) auto
  have e: "encode always 20 ?m = Some (Inr vs, ?m)"
    using hs by (simp add: encode_def demo_request_def start_fields_def Let_def vs_def line_of_field)
  have l: "length (concat vs) \<le> 1000" by (simp add: vs_def print_field_def crlf_def)
  show ?thesis using http_roundtrip [OF h(1-3) st h(4,5) nv h(6) fr e l, of "''GET''" "[]" CPS_CHUNK_DATA 0 "\<lambda>w s. Inr 0"] e by auto
qed

section \<open>What a server sends back while it receives\<close>

text \<open>Pieces are passed on as long as the message is not complete and there was no error.\<close>

fun receive :: "(nat option \<Rightarrow> string \<Rightarrow> errno + nat) \<Rightarrow> (nat \<Rightarrow> bool) \<Rightarrow> string list \<Rightarrow> http_message \<Rightarrow> ((errno + int) \<times> string list \<times> http_message) option" where
  "receive sock mem [] m = Some (Inr 0, [], m)"
| "receive sock mem (b # bs) m =
     do { (ret, sz, sent, m) \<leftarrow> request_append sock mem b m;
          if ret = Inr 0 then do { (ret, sent', m) \<leftarrow> receive sock mem bs m; Some (ret, sent @ sent', m) }
          else Some (ret, sent, m) }"

definition past_header :: "http_message \<Rightarrow> bool" where
  "past_header m \<longleftrightarrow> (\<exists>p. hm_parser m = Some p \<and> hp_header_state p = HPS_HEADER_COMPLETE \<and> \<not> hp_expect_continue p)"

lemma chunk_step_expect:
  "hp_header_state (snd (chunk_step xs p)) = hp_header_state p \<and> hp_expect_continue (snd (chunk_step xs p)) = hp_expect_continue p"
  by (simp add: chunk_step_def parse_chunk_data_def take_chunk_def parse_trailer_part_def Let_def split: line_scan.splits prod.splits)

lemma chunk_expect:
  assumes "parse_chunk M0 p0 = Some y0"
  shows "hp_header_state (snd y0) = hp_header_state p0 \<and> hp_expect_continue (snd y0) = hp_expect_continue p0"
proof (rule parse_chunk.raw_induct [where P = "\<lambda>M p y. hp_header_state (snd y) = hp_header_state p \<and> hp_expect_continue (snd y) = hp_expect_continue p", OF _ assms])
  fix f M p y
  assume IH: "\<And>M p y. f M p = Some y \<Longrightarrow> hp_header_state (snd y) = hp_header_state p \<and> hp_expect_continue (snd y) = hp_expect_continue p"
    and body: "(case chunk_step (drop (hp_chunk_offset p) M) p of (ret, q) \<Rightarrow> if hp_chunk_state q = CPS_CHUNK_COMPLETE then Some (1, q)
      else if 0 < ret then f M q else Some (ret, q)) = Some y"
  obtain r q where st: "chunk_step (drop (hp_chunk_offset p) M) p = (r, q)" by fastforce
  then have "y = (1, q) \<or> y = (r, q) \<or> f M q = Some y" using body by (auto split: if_splits)
  then show "hp_header_state (snd y) = hp_header_state p \<and> hp_expect_continue (snd y) = hp_expect_continue p"
    using chunk_step_expect [of "drop (hp_chunk_offset p) M" p] IH [of M q y] st by auto
qed

lemma body_expect:
  assumes "parse_body p = Some (r, e, q)"
  shows "hp_header_state q = hp_header_state p \<and> hp_expect_continue q = hp_expect_continue p"
proof (cases "hp_transfer_length p = None \<and> hp_chunked p")
  case True
  let ?c = "if hp_chunk_state p \<noteq> CPS_CHUNK_COMPLETE then parse_chunk (hp_msgbuf p) p else Some (1, p)"
  have "parse_body p = do { (ret, p) \<leftarrow> ?c; if ret \<le> 0 then Some (ret, 0, p) else Some (1, length (hp_msgbuf p) - hp_chunk_offset p,
      p\<lparr>hp_msgbuf := take (hp_chunk_offset p) (hp_msgbuf p), hp_complete := True\<rparr>) }" using True by (simp add: parse_body_def)
  then obtain y where y: "?c = Some y" "q = snd y \<or> q = (snd y)\<lparr>hp_msgbuf := take (hp_chunk_offset (snd y)) (hp_msgbuf (snd y)), hp_complete := True\<rparr>"
    using assms by (cases ?c) (auto split: if_splits)
  then have "hp_header_state (snd y) = hp_header_state p \<and> hp_expect_continue (snd y) = hp_expect_continue p"
    using chunk_expect [of "hp_msgbuf p" p y] by (cases "hp_chunk_state p = CPS_CHUNK_COMPLETE") auto
  then show ?thesis using y(2) by auto
next
  case False
  then show ?thesis using assms by (cases "hp_transfer_length p") (auto simp: parse_body_def Let_def split: if_splits)
qed

lemma message_append_past:
  assumes "past_header m" "message_append mem b m = Some (ret, sz, m')"
  shows "past_header m'"
proof -
  obtain p where p: "hm_parser m = Some p" "hp_header_state p = HPS_HEADER_COMPLETE" "\<not> hp_expect_continue p" using assms(1) by (auto simp: past_header_def)
  obtain r k q where q: "http_parser_append_message mem b p = Some (r, k, q)" "hm_parser m' = Some q"
    using assms(2) p(1) by (auto simp: message_append_def Let_def bind_eq_Some_conv split: if_splits)
  have "hp_header_state q' = HPS_HEADER_COMPLETE \<and> \<not> hp_expect_continue q'"
    if "parse_buffer mem x = Some (r', e, q')" "hp_header_state x = HPS_HEADER_COMPLETE" "\<not> hp_expect_continue x" for x r' e q'
    using that body_expect by (fastforce simp: parse_buffer_def)
  then have "hp_header_state q = HPS_HEADER_COMPLETE \<and> \<not> hp_expect_continue q"
    using q(1) p by (fastforce simp: http_parser_append_message_def Let_def bind_eq_Some_conv split: if_splits)
  then show ?thesis using q(2) by (auto simp: past_header_def)
qed

text \<open>The response to an error.\<close>

definition error_reply :: "errno + int \<Rightarrow> string list" where
  "error_reply ret = (case ret of Inl EBADMSG \<Rightarrow> [HTTP_400_RESP] | Inl EMSGSIZE \<Rightarrow> [HTTP_413_RESP] | _ \<Rightarrow> [])"

text \<open>What a call of \<open>request_append\<close> sends: the answer to an error, or one to an expectation.\<close>

definition expectation_reply :: "errno + int \<Rightarrow> string list \<Rightarrow> bool" where
  "expectation_reply ret sent \<longleftrightarrow> (sent = [HTTP_100_RESP] \<and> (ret = Inr 0 \<or> isl ret)) \<or> (sent = [HTTP_417_RESP] \<and> ret = Inl EMSGSIZE)"

lemma handle_replies: "handle_expect_continue sock p m = Some (ret, sent) \<Longrightarrow> expectation_reply ret sent"
  by (cases "feedback sock HTTP_100_RESP m"; cases "the (feedback sock HTTP_100_RESP m)")
    (auto simp: handle_expect_continue_def expectation_reply_def bind_eq_Some_conv split: if_splits)

lemma request_append_replies:
  assumes "request_append sock mem b m = Some (ret, sz, sent, m')"
  shows "(sent = error_reply ret \<and> (past_header m \<longrightarrow> past_header m')) \<or> (\<not> past_header m \<and> expectation_reply ret sent \<and> past_header m')"
proof -
  obtain r k1 m1 where r: "message_append mem b m = Some (r, k1, m1)" using assms by (auto simp: request_append_def bind_eq_Some_conv)
  have past: "past_header m \<longrightarrow> past_header m1" using message_append_past [OF _ r] by blast
  show ?thesis
  proof (cases r)
    case (Inl x)
    have x: "x \<in> {EBADMSG, EMSGSIZE, ENOMEM}" using r Inl by (auto simp: message_append_def Let_def bind_eq_Some_conv split: if_splits)
    then have "ret = Inl x" "m' = m1" "sent = error_reply ret" using assms r Inl by (auto simp: request_append_def bind_eq_Some_conv error_reply_def)
    then show ?thesis using past by simp
  next
    case (Inr k)
    show ?thesis
    proof (cases "k = 0 \<and> (\<exists>p. hm_parser m1 = Some p \<and> hp_expect_continue p \<and> http_parser_header_complete p)")
      case False
      then have "ret = Inr k" "m' = m1" "sent = []" using assms r Inr by (auto simp: request_append_def bind_eq_Some_conv split: if_splits)
      then show ?thesis using past by (simp add: error_reply_def)
    next
      case True
      then obtain p where p: "hm_parser m1 = Some p" "hp_expect_continue p" "http_parser_header_complete p" by blast
      then have np: "\<not> past_header m" using past by (auto simp: past_header_def)
      have "handle_expect_continue sock (p\<lparr>hp_expect_continue := False\<rparr>) m1 = Some (ret, sent)" "m' = m1\<lparr>hm_parser := Some (p\<lparr>hp_expect_continue := False\<rparr>)\<rparr>"
        using assms r Inr True p by (auto simp: request_append_def bind_eq_Some_conv)
      moreover from this(2) have "past_header m'" using p(3) by (simp add: past_header_def http_parser_header_complete_def)
      ultimately show ?thesis using np handle_replies by blast
    qed
  qed
qed

lemma receive_cons:
  assumes "receive sock mem (b # bs) m = Some (ret, sent, m')"
  obtains r sz s1 m1 where "request_append sock mem b m = Some (r, sz, s1, m1)" "r \<noteq> Inr 0" "ret = r" "sent = s1"
  | sz s1 m1 s2 where "request_append sock mem b m = Some (Inr 0, sz, s1, m1)" "receive sock mem bs m1 = Some (ret, s2, m')" "sent = s1 @ s2"
  using assms by (auto simp: bind_eq_Some_conv split: if_splits)

lemma error_reply_0 [simp]: "error_reply (Inr k) = []"
  by (simp add: error_reply_def)

lemma receive_past:
  assumes "receive sock mem bs m = Some (ret, sent, m')" "past_header m"
  shows "sent = error_reply ret"
  using assms
proof (induction bs arbitrary: m sent)
  case (Cons b bs)
  from Cons.prems(1) show ?case
  proof (cases rule: receive_cons)
    case (1 r sz s1 m1)
    then show ?thesis using request_append_replies [OF 1(1)] Cons.prems(2) by blast
  next
    case (2 sz s1 m1 s2)
    then show ?thesis using request_append_replies [OF 2(1)] Cons.IH [OF 2(2)] Cons.prems(2) by simp
  qed
qed auto

lemma receive_replies:
  assumes "receive sock mem bs m = Some (ret, sent, m')"
  shows "sent = error_reply ret \<or> sent = HTTP_100_RESP # error_reply ret \<or> sent = [HTTP_100_RESP] \<and> isl ret \<or> sent = [HTTP_417_RESP] \<and> ret = Inl EMSGSIZE"
  using assms
proof (induction bs arbitrary: m sent)
  case (Cons b bs)
  from Cons.prems(1) show ?case
  proof (cases rule: receive_cons)
    case (1 r sz s1 m1)
    then show ?thesis using request_append_replies [OF 1(1)] unfolding expectation_reply_def by blast
  next
    case (2 sz s1 m1 s2)
    from request_append_replies [OF 2(1)] consider "s1 = []" | "s1 = [HTTP_100_RESP]" "past_header m1" by (auto simp: expectation_reply_def)
    then show ?thesis
    proof cases
      case 1
      then show ?thesis using Cons.IH [OF 2(2)] 2(3) by simp
    next
      case b: 2
      then show ?thesis using receive_past [OF 2(2) b(2)] 2(3) by simp
    qed
  qed
qed auto

text \<open>
  While a server receives a request in any pieces, it sends 100 Continue at most once and before anything else, 400 for a malformed
  message, 413 for one that turned out too large, 417 alone for one announced too large, and nothing otherwise.
\<close>

theorem http_feedback:
  assumes "receive sock mem bs m = Some (ret, sent, m')"
  shows "sent = error_reply ret \<or> sent = HTTP_100_RESP # error_reply ret \<or> sent = [HTTP_100_RESP] \<and> isl ret \<or> sent = [HTTP_417_RESP] \<and> ret = Inl EMSGSIZE"
  by (rule receive_replies [OF assms])

lemma append_bad:
  "\<exists>k q. http_parser_append_message always [NUL] (http_parser_init is_resp junk cs co) = Some (- 2, k, q)"
proof -
  let ?i = "http_parser_init is_resp junk cs co"
  have "NUL \<noteq> CR" "bad_char NUL" by code_simp+
  then have "parse_start_line always [NUL] x = (- 2, x)" for x by (simp add: parse_start_line_def is_empty_line_def scan_from.simps Let_def)
  then have "parse_message_header always [NUL] (rebuf [NUL] n ?i) = Some (- 2, rebuf [NUL] n ?i)" for n
    by (subst parse_message_header.simps) (simp add: header_step_def http_parser_init_def rebuf_def)
  then have "parse_buffer always (rebuf [NUL] n ?i) = Some (- 2, 0, rebuf [NUL] n ?i)" for n by (simp add: parse_buffer_def) (simp add: http_parser_init_def)
  moreover have "hp_msgbuf ?i = []" "\<not> hp_complete ?i" by (simp_all add: http_parser_init_def)
  ultimately show ?thesis using http_append_buffer [of ?i "[NUL]"] by auto
qed

theorem http_feedback_witness:
  "\<exists>m'. receive (\<lambda>w s. Inr (length s)) always [[NUL]] (receiver False [] CPS_CHUNK_DATA 0 10) = Some (Inl EBADMSG, [HTTP_400_RESP], m')"
proof -
  obtain k q where "http_parser_append_message always [NUL] (http_parser_init False [] CPS_CHUNK_DATA 0) = Some (- 2, k, q)" using append_bad by blast
  then obtain sent m' where a: "receive (\<lambda>w s. Inr (length s)) always [[NUL]] (receiver False [] CPS_CHUNK_DATA 0 10) = Some (Inl EBADMSG, sent, m')"
    by (simp add: receiver_def set_size_limit_def new_http_message_def request_append_def message_append_def feedback_def)
  from a have "HTTP_100_RESP \<notin> set sent"
    using append_bad [of False "[]" CPS_CHUNK_DATA 0]
    by (auto simp: receiver_def set_size_limit_def new_http_message_def request_append_def message_append_def feedback_def HTTP_100_RESP_def HTTP_400_RESP_def)
  then show ?thesis using http_feedback [OF a] a by (auto simp: error_reply_def)
qed

text \<open>
  A message made by moving another one has no valid pointer to a wrapper, so the answer to an error is sent through a pointer that was
  never set.
\<close>

lemma moved_feedback_undefined:
  "request_append sock always [NUL] (fst (move_construct (new_http_message False junk cs co))) = None"
proof -
  obtain k q where "http_parser_append_message always [NUL] (http_parser_init False junk cs co) = Some (- 2, k, q)" using append_bad by blast
  then show ?thesis by (simp add: move_construct_def new_http_message_def request_append_def message_append_def feedback_def)
qed
end
