(* ===== verification/Http_Util.thy ===== *)
theory Http_Util
  imports Http_Message
begin

text \<open>
  The HTTP tools (\<^verbatim>\<open>workflow/src/protocol/HttpUtil.cc\<close>): a map of the headers, the cursor over the chunks of a body and the phrases of
  the statuses. A cursor is a place in the body; \<open>None\<close> is a read outside the body or arithmetic on a null pointer. The byte behind the
  body is NUL, which \<^verbatim>\<open>http_parser_get_body\<close> puts there.
\<close>

section \<open>The map of headers\<close>

type_synonym header_map = "string \<rightharpoonup> string list"

fun header_map_loop :: "header_line list \<Rightarrow> header_map \<Rightarrow> header_map" where
  "header_map_loop [] hm = hm"
| "header_map_loop (l # ls) hm =
     (let key = map tolower (line_name l); vs = (case hm key of Some vs \<Rightarrow> vs | None \<Rightarrow> [])
      in header_map_loop ls (hm(key \<mapsto> vs @ [line_value (hl_name_len l) l])))"

definition new_header_map :: "http_parser \<Rightarrow> header_map" where
  "new_header_map p = header_map_loop (http_header_cursor_init p) Map.empty"

definition key_exists :: "string \<Rightarrow> header_map \<Rightarrow> bool" where
  "key_exists key hm \<longleftrightarrow> hm (map tolower key) \<noteq> None"

definition map_get :: "string \<Rightarrow> header_map \<Rightarrow> string" where
  "map_get key hm = (case hm (map tolower key) of Some (v # vs) \<Rightarrow> v | _ \<Rightarrow> [])"

definition map_get_value :: "string \<Rightarrow> header_map \<Rightarrow> string option" where
  "map_get_value key hm = (case hm (map tolower key) of Some (v # vs) \<Rightarrow> Some v | _ \<Rightarrow> None)"

text \<open>The index operator of the map adds an empty entry for a key that is not there.\<close>

definition map_get_strict :: "string \<Rightarrow> header_map \<Rightarrow> string list \<times> header_map" where
  "map_get_strict key hm =
     (case hm (map tolower key) of Some vs \<Rightarrow> (vs, hm) | None \<Rightarrow> ([], hm(map tolower key \<mapsto> [])))"

definition map_get_strict_values :: "string \<Rightarrow> header_map \<Rightarrow> string list option" where
  "map_get_strict_values key hm = (case hm (map tolower key) of Some (v # vs) \<Rightarrow> Some (v # vs) | _ \<Rightarrow> None)"

section \<open>Statuses\<close>

definition status_phrases :: "(int \<times> string) list" where
  "status_phrases =
     [(100, ''Continue''), (101, ''Switching Protocols''), (102, ''Processing''), (200, ''OK''), (201, ''Created''),
      (202, ''Accepted''), (203, ''Non-Authoritative Information''), (204, ''No Content''), (205, ''Reset Content''),
      (206, ''Partial Content''), (207, ''Multi-Status''), (208, ''Already Reported''), (226, ''IM Used''),
      (300, ''Multiple Choices''), (301, ''Moved Permanently''), (302, ''Found''), (303, ''See Other''),
      (304, ''Not Modified''), (305, ''Use Proxy''), (306, ''Switch Proxy''), (307, ''Temporary Redirect''),
      (308, ''Permanent Redirect''), (400, ''Bad Request''), (401, ''Unauthorized''), (402, ''Payment Required''),
      (403, ''Forbidden''), (404, ''Not Found''), (405, ''Method Not Allowed''), (406, ''Not Acceptable''),
      (407, ''Proxy Authentication Required''), (408, ''Request Timeout''), (409, ''Conflict''), (410, ''Gone''),
      (411, ''Length Required''), (412, ''Precondition Failed''), (413, ''Request Entity Too Large''),
      (414, ''Request-URI Too Long''), (415, ''Unsupported Media Type''), (416, ''Requested Range Not Satisfiable''),
      (417, ''Expectation Failed''), (418, ''I'm a teapot''), (420, ''Enhance Your Caim''), (421, ''Misdirected Request''),
      (422, ''Unprocessable Entity''), (423, ''Locked''), (424, ''Failed Dependency''), (425, ''Too Early''),
      (426, ''Upgrade Required''), (428, ''Precondition Required''), (429, ''Too Many Requests''),
      (431, ''Request Header Fields Too Large''), (444, ''No Response''), (450, ''Blocked by Windows Parental Controls''),
      (451, ''Unavailable For Legal Reasons''), (494, ''Request Header Too Large''), (500, ''Internal Server Error''),
      (501, ''Not Implemented''), (502, ''Bad Gateway''), (503, ''Service Unavailable''), (504, ''Gateway Timeout''),
      (505, ''HTTP Version Not Supported''), (506, ''Variant Also Negotiates''), (507, ''Insufficient Storage''),
      (508, ''Loop Detected''), (510, ''Not Extended''), (511, ''Network Authentication Required'')]"

definition reason_phrase :: "int \<Rightarrow> string" where
  "reason_phrase status_code = (case map_of status_phrases status_code of Some s \<Rightarrow> s | None \<Rightarrow> ''Unknown'')"

definition set_response_status :: "(nat \<Rightarrow> bool) \<Rightarrow> int \<Rightarrow> http_message \<Rightarrow> http_message option" where
  "set_response_status mem status_code resp =
     do { (_, resp) \<leftarrow> set_status_code mem (take 7 (show_int status_code)) resp;
          (_, resp) \<leftarrow> set_reason_phrase mem (reason_phrase status_code) resp;
          Some resp }"

section \<open>Chunks\<close>

record chunk_cursor =
  cc_body :: "string option"
  cc_pos :: nat
  cc_chunked :: bool
  cc_end :: bool

definition new_chunk_cursor :: "http_message \<Rightarrow> chunk_cursor option" where
  "new_chunk_cursor msg =
     do { p \<leftarrow> hm_parser msg;
          Some (case http_parser_get_body p of
                  Some body \<Rightarrow> \<lparr>cc_body = Some body, cc_pos = 0, cc_chunked = hp_chunked p, cc_end = False\<rparr>
                | None \<Rightarrow> \<lparr>cc_body = None, cc_pos = 0, cc_chunked = False, cc_end = True\<rparr>) }"

definition chunk_next :: "chunk_cursor \<Rightarrow> (string option \<times> chunk_cursor) option" where
  "chunk_next c =
     (if cc_end c then Some (None, c)
      else do { body \<leftarrow> cc_body c;
                if \<not> cc_chunked c then Some (Some body, c\<lparr>cc_end := True\<rparr>)
                else if cc_pos c > length body then None
                else let cur = takeWhile (\<lambda>x. x \<noteq> NUL) (drop (cc_pos c) body); (n, used) = strtol16 cur
                     in if n = 0 then Some (None, c\<lparr>cc_end := True\<rparr>)
                        else if CR \<notin> set (drop used cur) then None
                        else let start = cc_pos c + used + length (takeWhile (\<lambda>x. x \<noteq> CR) (drop used cur)) + 2
                             in if n < 0 \<or> start + nat n > length body then None
                                else Some (Some (take (nat n) (drop start body)), c\<lparr>cc_pos := start + nat n + 2\<rparr>) })"

definition chunk_rewind :: "chunk_cursor \<Rightarrow> chunk_cursor" where
  "chunk_rewind c = (if cc_body c \<noteq> None then c\<lparr>cc_pos := 0, cc_end := False\<rparr> else c)"

partial_function (option) decode_chunks :: "chunk_cursor \<Rightarrow> string \<Rightarrow> string option" where
  "decode_chunks c result =
     do { (chunk, c) \<leftarrow> chunk_next c;
          (case chunk of None \<Rightarrow> Some result | Some s \<Rightarrow> decode_chunks c (result @ s)) }"

definition decode_chunked_body :: "http_message \<Rightarrow> string option" where
  "decode_chunked_body msg =
     do { cursor \<leftarrow> new_chunk_cursor msg;
          body \<leftarrow> get_parsed_body msg;
          (case body of Some _ \<Rightarrow> decode_chunks cursor [] | None \<Rightarrow> Some []) }"

section \<open>Printed chunks\<close>

definition hexdigit :: "nat \<Rightarrow> char" where
  "hexdigit d = (if d < 10 then digit d else char_of (87 + d))"

fun show_hex :: "nat \<Rightarrow> string" where
  "show_hex n = (if n < 16 then [hexdigit n] else show_hex (n div 16) @ [hexdigit (n mod 16)])"

declare show_hex.simps [simp del]

lemma code_hexdigit: "d < 16 \<Longrightarrow> code (hexdigit d) = (if d < 10 then 48 + d else 87 + d)"
  by (simp add: hexdigit_def code_digit)

lemma hex_value_hexdigit: "d < 16 \<Longrightarrow> hex_value (hexdigit d) = Some d"
  using code_hexdigit [of d] by (auto simp: hex_value_def isdigit_def)

lemma hexdigit_class: "d < 16 \<Longrightarrow> \<not> isspace (hexdigit d) \<and> hexdigit d \<notin> {CHR ''-'', CHR ''+'', CHR ''x'', CHR ''X'', CR, NUL}"
proof -
  assume d: "d < 16"
  have "code NUL = 0" by (simp add: NUL_def)
  then show ?thesis using code_hexdigit [OF d] d by (auto simp: isspace_def split: if_splits)
qed

lemma show_hex_digits: "c \<in> set (show_hex n) \<Longrightarrow> \<exists>d < 16. c = hexdigit d"
proof (induction n rule: show_hex.induct)
  case (1 n)
  then consider "n < 16" "c = hexdigit n" | "\<not> n < 16" "c \<in> set (show_hex (n div 16))" | "c = hexdigit (n mod 16)"
    by (subst (asm) (2) show_hex.simps) (auto split: if_splits)
  then show ?case
  proof cases
    case 3
    then show ?thesis by (intro exI [of _ "n mod 16"]) simp
  qed (use 1 in auto)
qed

lemma show_hex_ne [simp]: "show_hex n \<noteq> []"
  by (subst show_hex.simps) simp

lemma show_hex_class: "c \<in> set (show_hex n) \<Longrightarrow> \<not> isspace c \<and> c \<notin> {CHR ''-'', CHR ''+'', CHR ''x'', CHR ''X'', CR, NUL}"
proof -
  assume "c \<in> set (show_hex n)"
  then obtain d where d: "d < 16" "c = hexdigit d" using show_hex_digits by blast
  show ?thesis unfolding d(2) by (rule hexdigit_class [OF d(1)])
qed

lemma read_show_hex: "read_hex (show_hex n @ cs) v k = read_hex cs (v * 16 ^ length (show_hex n) + n) (k + length (show_hex n))"
proof (induction n arbitrary: v k cs rule: show_hex.induct)
  case (1 n)
  show ?case
  proof (cases "n < 16")
    case True
    then have s: "show_hex n = [hexdigit n]" by (subst show_hex.simps) simp
    show ?thesis using hex_value_hexdigit [OF True] by (simp add: s algebra_simps)
  next
    case False
    then have s: "show_hex n = show_hex (n div 16) @ [hexdigit (n mod 16)]" by (subst show_hex.simps) simp
    have "16 * (v * 16 ^ length (show_hex (n div 16)) + n div 16) + n mod 16 = v * 16 ^ length (show_hex n) + n"
      by (simp add: s algebra_simps)
    then show ?thesis using 1 [OF False, of "[hexdigit (n mod 16)] @ cs" v k] hex_value_hexdigit [of "n mod 16"] by (simp add: s algebra_simps)
  qed
qed

text \<open>What may follow a number.\<close>

definition hex_end :: "string \<Rightarrow> bool" where
  "hex_end t \<longleftrightarrow> t = [] \<or> hex_value (hd t) = None \<and> hd t \<notin> {CHR ''x'', CHR ''X''}"

lemma read_prefixed_plain: "length s < 2 \<or> s ! 1 \<notin> {CHR ''x'', CHR ''X''} \<Longrightarrow> read_prefixed s = read_hex s 0 0"
  by (auto simp: read_prefixed_def split: list.splits)

lemma strtol16_hex:
  assumes "hex_end t" "n < 2 ^ 63"
  shows "strtol16 (show_hex n @ t) = (int n, length (show_hex n))"
proof -
  obtain h hs where h: "show_hex n = h # hs" by (metis show_hex_ne list.exhaust)
  have c: "\<not> isspace h" "h \<notin> {CHR ''-'', CHR ''+''}" using show_hex_class [of h n] h by auto
  have "length (show_hex n @ t) < 2 \<or> (show_hex n @ t) ! 1 \<notin> {CHR ''x'', CHR ''X''}"
  proof (cases hs)
    case Nil
    then show ?thesis using assms(1) h by (cases t) (auto simp: hex_end_def)
  next
    case (Cons g gs)
    then show ?thesis using show_hex_class [of g n] h by auto
  qed
  then have "read_prefixed (show_hex n @ t) = read_hex t n (length (show_hex n))" using read_prefixed_plain read_show_hex [of n t 0 0] by simp
  also have "\<dots> = (n, length (show_hex n))" using assms(1) by (cases t) (auto simp: hex_end_def)
  finally have r: "read_prefixed (h # hs @ t) = (n, length (show_hex n))" by (simp add: h)
  have "saturate (int n) = int n" using assms(2) by (simp add: saturate_def)
  then show ?thesis using r c by (simp add: strtol16_def h)
qed

text \<open>
  A chunk is the text behind its size and its data; after the last come lines of a trailer. The parser accepts a NUL in the text behind the size (\<open>chunk_accepted\<close>), the format
  does not (\<open>chunk_ok\<close>).
\<close>

type_synonym chunk = "string \<times> string"

definition ext_line :: "string \<Rightarrow> bool" where
  "ext_line e \<longleftrightarrow> (e = [] \<or> hd e = CHR '';'') \<and> CR \<notin> set e"

definition ext_ok :: "string \<Rightarrow> bool" where
  "ext_ok e \<longleftrightarrow> ext_line e \<and> NUL \<notin> set e"

definition size_line :: "string \<Rightarrow> nat \<Rightarrow> string" where
  "size_line e n = show_hex n @ e"

definition chunk_accepted :: "chunk \<Rightarrow> bool" where
  "chunk_accepted c \<longleftrightarrow> ext_line (fst c) \<and> snd c \<noteq> [] \<and> int (length (snd c)) < CHUNK_SIZE_MAX \<and>
     length (size_line (fst c) (length (snd c))) < HTTP_CHUNK_LINE_MAX"

definition chunk_ok :: "chunk \<Rightarrow> bool" where
  "chunk_ok c \<longleftrightarrow> chunk_accepted c \<and> NUL \<notin> set (fst c)"

definition print_chunk :: "chunk \<Rightarrow> string" where
  "print_chunk c = size_line (fst c) (length (snd c)) @ crlf @ snd c @ crlf"

definition trailer_ok :: "string \<Rightarrow> bool" where
  "trailer_ok t \<longleftrightarrow> t \<noteq> [] \<and> CR \<notin> set t \<and> length t < HTTP_TRAILER_LINE_MAX"

definition print_end :: "string \<Rightarrow> string list \<Rightarrow> string" where
  "print_end e ts = size_line e 0 @ crlf @ concat (map (\<lambda>t. t @ crlf) ts) @ crlf"

lemma ext_ok_line: "ext_ok e \<Longrightarrow> ext_line e" "chunk_ok c \<Longrightarrow> chunk_accepted c" "chunk_ok c \<Longrightarrow> ext_ok (fst c)"
  by (simp_all add: ext_ok_def chunk_ok_def chunk_accepted_def)

lemma size_line_chars: "ext_ok e \<Longrightarrow> \<forall>c \<in> set (size_line e n). c \<noteq> CR \<and> c \<noteq> NUL"
  using show_hex_class [of _ n] unfolding size_line_def ext_ok_def ext_line_def set_append by blast

lemma ext_line_hex_end: "ext_line e \<Longrightarrow> hex_end (takeWhile P e) \<and> hex_end e \<and> hex_end (e @ CR # t)"
proof -
  assume "ext_line e"
  moreover have "hex_value (CHR '';'') = None" "hex_value CR = None" by code_simp+
  ultimately show ?thesis by (cases e) (auto simp: ext_line_def hex_end_def)
qed

lemma takeWhile_size_line: "takeWhile (\<lambda>c. c \<noteq> NUL) (size_line e n @ z) = show_hex n @ takeWhile (\<lambda>c. c \<noteq> NUL) (e @ z)"
  using show_hex_class [of _ n] by (simp add: size_line_def takeWhile_append2)

lemma scan_line:
  assumes "CR \<notin> set l" "length l < lim"
  shows "scan_from (\<lambda>c. c = CR) (\<lambda>c. False) (l @ CR # z) (min lim (length (l @ CR # z))) 0 = Found (length l)"
proof (rule scan_clean)
  show "\<forall>c \<in> set l. c \<noteq> CR \<and> \<not> False" using assms(1) by blast
qed (use assms(2) in auto)

lemma chunk_line:
  assumes "CR \<notin> set l" "length l < HTTP_CHUNK_LINE_MAX"
  shows "parse_chunk_data (l @ crlf @ z) p = take_chunk l (length l) (length (l @ crlf @ z)) p"
proof -
  have "scan_from (\<lambda>c. c = CR) (\<lambda>c. False) (l @ crlf @ z) (min HTTP_CHUNK_LINE_MAX (length (l @ crlf @ z))) 0 = Found (length l)"
    using scan_line [OF assms, of "LF # z"] by (simp add: crlf_def)
  moreover have "(l @ crlf @ z) ! (length l + 1) = LF" "take (length l) (l @ crlf @ z) = l" "length l \<noteq> length (l @ crlf @ z) - 1"
    by (simp_all add: crlf_def nth_append)
  ultimately show ?thesis unfolding parse_chunk_data_def Let_def by (simp only: line_scan.case if_False simp_thms)
qed

lemma trailer_line:
  assumes "CR \<notin> set l" "length l < HTTP_TRAILER_LINE_MAX"
  shows "parse_trailer_part (l @ crlf @ z) p = (1, p\<lparr>hp_chunk_offset := hp_chunk_offset p + length l + 2,
    hp_chunk_state := (if l = [] then CPS_CHUNK_COMPLETE else hp_chunk_state p)\<rparr>)"
proof -
  have "scan_from (\<lambda>c. c = CR) (\<lambda>c. False) (l @ crlf @ z) (min HTTP_TRAILER_LINE_MAX (length (l @ crlf @ z))) 0 = Found (length l)"
    using scan_line [OF assms, of "LF # z"] by (simp add: crlf_def)
  moreover have "(l @ crlf @ z) ! (length l + 1) = LF" "length l \<noteq> length (l @ crlf @ z) - 1" by (simp_all add: crlf_def nth_append)
  ultimately show ?thesis unfolding parse_trailer_part_def Let_def by (simp only: line_scan.case if_False simp_thms length_0_conv)
qed

lemma size_line_value:
  assumes "ext_line e" "n < 2 ^ 63"
  shows "CR \<notin> set (size_line e n)" "strtol16 (takeWhile (\<lambda>c. c \<noteq> NUL) (size_line e n)) = (int n, length (show_hex n))"
proof -
  show "CR \<notin> set (size_line e n)" using show_hex_class [of CR n] assms(1) by (auto simp: size_line_def ext_line_def)
  have "takeWhile (\<lambda>c. c \<noteq> NUL) (size_line e n) = show_hex n @ takeWhile (\<lambda>c. c \<noteq> NUL) e" using takeWhile_size_line [of e n "[]"] by simp
  then show "strtol16 (takeWhile (\<lambda>c. c \<noteq> NUL) (size_line e n)) = (int n, length (show_hex n))"
    using strtol16_hex [of "takeWhile (\<lambda>c. c \<noteq> NUL) e" n] ext_line_hex_end [OF assms(1)] assms(2) by simp
qed

lemma data_step:
  assumes "chunk_accepted c" "hp_chunk_state p = CPS_CHUNK_DATA"
  shows "chunk_step (print_chunk c @ rest) p = (1, p\<lparr>hp_chunk_offset := hp_chunk_offset p + length (print_chunk c)\<rparr>)"
proof -
  let ?l = "size_line (fst c) (length (snd c))"
  have c: "ext_line (fst c)" "snd c \<noteq> []" "int (length (snd c)) < CHUNK_SIZE_MAX" "length ?l < HTTP_CHUNK_LINE_MAX" "length (snd c) < 2 ^ 63"
    using assms(1) by (auto simp: chunk_accepted_def)
  have t: "print_chunk c @ rest = ?l @ crlf @ (snd c @ crlf @ rest)" by (simp add: print_chunk_def)
  have "length (print_chunk c) = length (snd c) + length ?l + 4" by (simp add: print_chunk_def crlf_def)
  then have "take_chunk ?l (length ?l) (length (print_chunk c @ rest)) p = (1, p\<lparr>hp_chunk_offset := hp_chunk_offset p + length (print_chunk c)\<rparr>)"
    using c(2,3) by (simp add: take_chunk_def size_line_value(2) [OF c(1,5)])
  then show ?thesis using assms(2) chunk_line [OF size_line_value(1) [OF c(1,5)] c(4), of "snd c @ crlf @ rest" p]
    by (simp add: chunk_step_def t)
qed

lemma last_step:
  assumes "ext_line e" "length (size_line e 0) < HTTP_CHUNK_LINE_MAX" "hp_chunk_state p = CPS_CHUNK_DATA"
  shows "chunk_step (size_line e 0 @ crlf @ rest) p =
    (1, p\<lparr>hp_chunk_state := CPS_TRAILER_PART, hp_chunk_offset := hp_chunk_offset p + length (size_line e 0) + 2\<rparr>)"
  using assms(3) chunk_line [OF size_line_value(1) [OF assms(1)] assms(2), of rest p] size_line_value(2) [OF assms(1), of 0]
  by (simp add: chunk_step_def take_chunk_def)

text \<open>The chunks and the trailer are read to their end, which moves nothing but the state and the place.\<close>

definition chunk_at :: "chunk_state \<Rightarrow> nat \<Rightarrow> http_parser \<Rightarrow> http_parser" where
  "chunk_at s k p = p\<lparr>hp_chunk_state := s, hp_chunk_offset := k\<rparr>"

lemma chunk_at_simps [simp]:
  "hp_chunk_state (chunk_at s k p) = s" "hp_chunk_offset (chunk_at s k p) = k" "chunk_at s k (chunk_at s' k' p) = chunk_at s k p"
  "hp_msgbuf (chunk_at s k p) = hp_msgbuf p" "hp_header_offset (chunk_at s k p) = hp_header_offset p"
  "hp_header_state (chunk_at s k p) = hp_header_state p" "hp_chunked (chunk_at s k p) = hp_chunked p"
  "hp_transfer_length (chunk_at s k p) = hp_transfer_length p"
  by (simp_all add: chunk_at_def)

lemma chunk_at_update [simp]:
  "(chunk_at s k p)\<lparr>hp_chunk_state := s'\<rparr> = chunk_at s' k p" "(chunk_at s k p)\<lparr>hp_chunk_offset := k'\<rparr> = chunk_at s k' p"
  by (simp_all add: chunk_at_def)

lemma trailer_loop:
  assumes "\<forall>t \<in> set ts. trailer_ok t" "drop k M = concat (map (\<lambda>t. t @ crlf) ts) @ crlf @ z"
  shows "parse_chunk M (chunk_at CPS_TRAILER_PART k p) = Some (1, chunk_at CPS_CHUNK_COMPLETE (k + length (concat (map (\<lambda>t. t @ crlf) ts)) + 2) p)"
  using assms
proof (induction ts arbitrary: k)
  case Nil
  have "chunk_step (drop k M) (chunk_at CPS_TRAILER_PART k p) = (1, chunk_at CPS_CHUNK_COMPLETE (k + 2) p)"
    using trailer_line [of "[]" z "chunk_at CPS_TRAILER_PART k p"] Nil(2) by (simp add: chunk_step_def)
  then show ?case using chunk_loop_step [of "chunk_at CPS_TRAILER_PART k p" M] by simp
next
  case (Cons t ts)
  have t: "t \<noteq> []" "CR \<notin> set t" "length t < HTTP_TRAILER_LINE_MAX" using Cons.prems(1) by (auto simp: trailer_ok_def)
  let ?z = "concat (map (\<lambda>t. t @ crlf) ts) @ crlf @ z"
  have "chunk_step (drop k M) (chunk_at CPS_TRAILER_PART k p) = (1, chunk_at CPS_TRAILER_PART (k + length t + 2) p)"
    using trailer_line [OF t(2,3), of ?z "chunk_at CPS_TRAILER_PART k p"] Cons.prems(2) t(1) by (simp add: chunk_step_def)
  then have "parse_chunk M (chunk_at CPS_TRAILER_PART k p) = parse_chunk M (chunk_at CPS_TRAILER_PART (k + length t + 2) p)"
    using chunk_loop_step [of "chunk_at CPS_TRAILER_PART k p" M] by simp
  moreover have "drop (k + length t + 2) M = drop (length t + 2) (drop k M)" by (simp add: add.commute)
  then have "drop (k + length t + 2) M = ?z" using Cons.prems(2) by (simp add: crlf_def)
  ultimately show ?case using Cons.IH [of "k + length t + 2"] Cons.prems(1) by (simp add: crlf_def add.assoc)
qed

lemma chunks_loop:
  assumes "\<forall>c \<in> set cs. chunk_accepted c" "ext_line e" "length (size_line e 0) < HTTP_CHUNK_LINE_MAX" "\<forall>t \<in> set ts. trailer_ok t"
    "drop k M = concat (map print_chunk cs) @ print_end e ts @ z"
  shows "parse_chunk M (chunk_at CPS_CHUNK_DATA k p) = Some (1, chunk_at CPS_CHUNK_COMPLETE (k + length (concat (map print_chunk cs) @ print_end e ts)) p)"
  using assms
proof (induction cs arbitrary: k)
  case Nil
  let ?r = "concat (map (\<lambda>t. t @ crlf) ts) @ crlf @ z" and ?k = "k + length (size_line e 0) + 2"
  have d: "drop k M = size_line e 0 @ crlf @ ?r" using Nil(5) by (simp add: print_end_def)
  have "parse_chunk M (chunk_at CPS_CHUNK_DATA k p) = parse_chunk M (chunk_at CPS_TRAILER_PART ?k p)"
    using chunk_loop_step [of "chunk_at CPS_CHUNK_DATA k p" M] last_step [OF Nil(2,3), of "chunk_at CPS_CHUNK_DATA k p" ?r] d
    by simp
  moreover have "drop ?k M = drop (length (size_line e 0) + 2) (drop k M)" by (simp add: add.commute add.left_commute)
  then have "drop ?k M = ?r" unfolding d by (simp add: crlf_def)
  ultimately show ?case using trailer_loop [OF Nil(4), of ?k M z p] by (simp add: print_end_def crlf_def add.assoc)
next
  case (Cons c cs)
  let ?r = "concat (map print_chunk cs) @ print_end e ts @ z" and ?k = "k + length (print_chunk c)"
  have d: "drop k M = print_chunk c @ ?r" using Cons.prems(5) by simp
  have "parse_chunk M (chunk_at CPS_CHUNK_DATA k p) = parse_chunk M (chunk_at CPS_CHUNK_DATA ?k p)"
    using chunk_loop_step [of "chunk_at CPS_CHUNK_DATA k p" M] data_step [of c "chunk_at CPS_CHUNK_DATA k p" ?r] d Cons.prems(1)
    by simp
  moreover have "drop ?k M = drop (length (print_chunk c)) (drop k M)" by (simp add: add.commute)
  then have "drop ?k M = ?r" unfolding d by simp
  ultimately show ?case using Cons.IH [of ?k] Cons.prems by (simp add: add.assoc)
qed

lemma body_printed:
  assumes "\<forall>c \<in> set cs. chunk_accepted c" "ext_line e" "length (size_line e 0) < HTTP_CHUNK_LINE_MAX" "\<forall>t \<in> set ts. trailer_ok t"
    "hp_chunked p" "hp_transfer_length p = None" "hp_msgbuf p = h @ concat (map print_chunk cs) @ print_end e ts @ extra" "hp_header_offset p = length h"
  shows "parse_body (after_header p) = Some (1, length extra, (chunk_at CPS_CHUNK_COMPLETE (length h + length (concat (map print_chunk cs) @ print_end e ts)) p)
    \<lparr>hp_msgbuf := h @ concat (map print_chunk cs) @ print_end e ts, hp_complete := True\<rparr>)"
proof -
  have a: "after_header p = chunk_at CPS_CHUNK_DATA (length h) p" using assms(5,8) by (simp add: after_header_def chunk_at_def)
  have "drop (length h) (hp_msgbuf p) = concat (map print_chunk cs) @ print_end e ts @ extra" by (simp add: assms(7))
  note L = chunks_loop [OF assms(1-4) this, of p]
  show ?thesis unfolding a using body_chunked [of "chunk_at CPS_CHUNK_DATA (length h) p"] L assms(5-7) by simp
qed

lemma next_chunk:
  assumes "ext_ok e" "n < 2 ^ 63" "\<not> cc_end c" "cc_chunked c" "cc_body c = Some body" "drop (cc_pos c) body = size_line e n @ crlf @ z"
  shows "chunk_next c = (if n = 0 then Some (None, c\<lparr>cc_end := True\<rparr>)
    else if length z < n then None else Some (Some (take n z), c\<lparr>cc_pos := cc_pos c + length (size_line e n) + n + 4\<rparr>))"
proof -
  define cur where "cur = takeWhile (\<lambda>x. x \<noteq> NUL) (drop (cc_pos c) body)"
  have "NUL \<noteq> CR" by code_simp
  then obtain t where t: "cur = size_line e n @ CR # t"
    using size_line_chars [OF assms(1), of n] by (auto simp: cur_def assms(6) crlf_def takeWhile_append)
  then have u: "drop (length (show_hex n)) cur = e @ CR # t" "strtol16 cur = (int n, length (show_hex n))"
    using strtol16_hex [of "e @ CR # t" n] ext_line_hex_end [OF ext_ok_line(1) [OF assms(1)]] assms(2) by (simp_all add: size_line_def)
  have e: "takeWhile (\<lambda>x. x \<noteq> CR) (e @ CR # t) = e"
  proof -
    have "\<forall>x \<in> set e. x \<noteq> CR" using assms(1) unfolding ext_ok_def ext_line_def by blast
    then show ?thesis by (simp add: takeWhile_tail)
  qed
  have pos: "\<not> cc_pos c > length body" using assms(6) by (metis crlf_def append_is_Nil_conv drop_all list.distinct(1) nless_le)
  then have len: "length body = cc_pos c + length (size_line e n) + 2 + length z"
    using arg_cong [OF assms(6), of length] by (simp add: crlf_def)
  have ls: "length (size_line e n) = length (show_hex n) + length e" by (simp add: size_line_def)
  have "drop (cc_pos c + length (size_line e n) + 2) body = drop (length (size_line e n) + 2) (drop (cc_pos c) body)"
    by (simp add: add.commute add.left_commute)
  then have d: "drop (cc_pos c + length (size_line e n) + 2) body = z" unfolding assms(6) by (simp add: crlf_def)
  then have d': "drop (Suc (Suc (cc_pos c + length (show_hex n) + length e))) body = z" using ls by (simp add: add.assoc)
  show ?thesis unfolding chunk_next_def using assms(3-5) pos
    by (simp add: cur_def [symmetric] Let_def u e len [unfolded ls] d' ls add.assoc [symmetric])
qed

lemma decode_prefix:
  assumes "\<forall>c \<in> set cs. chunk_ok c" "cc_body c = Some body" "cc_chunked c" "\<not> cc_end c" "drop (cc_pos c) body = concat (map print_chunk cs) @ rest"
  shows "decode_chunks c acc = decode_chunks (c\<lparr>cc_pos := cc_pos c + length (concat (map print_chunk cs))\<rparr>) (acc @ concat (map snd cs)) \<and>
    drop (cc_pos c + length (concat (map print_chunk cs))) body = rest"
  using assms
proof (induction cs arbitrary: c acc)
  case (Cons k cs)
  let ?n = "length (snd k)" and ?z = "snd k @ crlf @ concat (map print_chunk cs) @ rest"
  have k: "ext_ok (fst k)" "?n < 2 ^ 63" "?n \<noteq> 0" using Cons.prems(1) ext_ok_line(3) by (auto simp: chunk_ok_def chunk_accepted_def)
  have d: "drop (cc_pos c) body = size_line (fst k) ?n @ crlf @ ?z" using Cons.prems(5) by (simp add: print_chunk_def [of k])
  let ?c = "c\<lparr>cc_pos := cc_pos c + length (print_chunk k)\<rparr>"
  have l: "length (print_chunk k) = length (size_line (fst k) ?n) + ?n + 4" by (simp add: print_chunk_def crlf_def)
  then have "chunk_next c = Some (Some (snd k), ?c)" using next_chunk [OF k(1,2) Cons.prems(4,3,2) d] k(3) by (simp add: add.assoc)
  then have "decode_chunks c acc = decode_chunks ?c (acc @ snd k)" by (subst decode_chunks.simps) simp
  moreover have "drop (cc_pos ?c) body = drop (length (print_chunk k)) (drop (cc_pos c) body)" by (simp add: add.commute)
  then have "drop (cc_pos ?c) body = concat (map print_chunk cs) @ rest" unfolding Cons.prems(5) by simp
  ultimately show ?case using Cons.IH [of ?c "acc @ snd k"] Cons.prems by (simp add: add.assoc)
qed simp

lemma decode_printed:
  assumes "\<forall>c \<in> set cs. chunk_ok c" "ext_ok e" "cc_body c = Some body" "cc_chunked c" "\<not> cc_end c"
    "drop (cc_pos c) body = concat (map print_chunk cs) @ print_end e ts"
  shows "decode_chunks c acc = Some (acc @ concat (map snd cs))"
proof -
  note D = decode_prefix [OF assms(1,3-6), of acc]
  let ?c = "c\<lparr>cc_pos := cc_pos c + length (concat (map print_chunk cs))\<rparr>"
  have "chunk_next ?c = Some (None, ?c\<lparr>cc_end := True\<rparr>)"
    using next_chunk [OF assms(2), of 0 ?c body "concat (map (\<lambda>t. t @ crlf) ts) @ crlf"] D assms(3-5) by (simp add: print_end_def)
  then show ?thesis using D by (simp add: decode_chunks.simps [of ?c])
qed

text \<open>The search of the cursor for the end of the line stops at a NUL.\<close>

lemma next_nul:
  assumes "ext_line e" "NUL \<in> set e" "0 < n" "n < 2 ^ 63" "\<not> cc_end c" "cc_chunked c" "cc_body c = Some body" "drop (cc_pos c) body = size_line e n @ z"
  shows "chunk_next c = None"
proof -
  have t: "takeWhile (\<lambda>c. c \<noteq> NUL) (drop (cc_pos c) body) = show_hex n @ takeWhile (\<lambda>c. c \<noteq> NUL) e"
    unfolding assms(8) takeWhile_size_line using takeWhile_append1 [of NUL e "\<lambda>c. c \<noteq> NUL" z] assms(2) by simp
  have v: "strtol16 (show_hex n @ takeWhile (\<lambda>c. c \<noteq> NUL) e) = (int n, length (show_hex n))"
    by (rule strtol16_hex) (use ext_line_hex_end [OF assms(1)] assms(4) in auto)
  have "CR \<notin> set (takeWhile (\<lambda>c. c \<noteq> NUL) e)" using assms(1) by (auto simp: ext_line_def dest: set_takeWhileD)
  then show ?thesis unfolding chunk_next_def using assms(3,5-7) by (simp add: t v)
qed

text \<open>
  C30: A body sent in chunks, with extensions after their sizes and a trailer, is received as one complete message, whatever bytes the
  chunks hold; nothing behind it is taken, and decoding it gives the concatenation of the chunks without a read outside the body.
\<close>

theorem http_chunked_roundtrip:
  assumes "\<forall>c \<in> set cs. chunk_ok c" "ext_ok e" "length (size_line e 0) < HTTP_CHUNK_LINE_MAX" "\<forall>t \<in> set ts. trailer_ok t"
    "hp_chunked p" "hp_transfer_length p = None" "hp_header_state p = HPS_HEADER_COMPLETE"
    "hp_msgbuf p = h @ concat (map print_chunk cs) @ print_end e ts @ extra" "hp_header_offset p = length h"
  shows "\<exists>q. parse_body (after_header p) = Some (1, length extra, q) \<and>
    http_parser_get_body q = Some (concat (map print_chunk cs) @ print_end e ts) \<and>
    decode_chunked_body (m\<lparr>hm_parser := Some q\<rparr>) = Some (concat (map snd cs))"
proof -
  let ?b = "concat (map print_chunk cs) @ print_end e ts"
  let ?q = "(chunk_at CPS_CHUNK_COMPLETE (length h + length ?b) p)\<lparr>hp_msgbuf := h @ ?b, hp_complete := True\<rparr>"
  have b: "http_parser_get_body ?q = Some ?b" using assms(7,9) by (simp add: http_parser_get_body_def)
  then have "new_chunk_cursor (m\<lparr>hm_parser := Some ?q\<rparr>) = Some \<lparr>cc_body = Some ?b, cc_pos = 0, cc_chunked = True, cc_end = False\<rparr>"
    using assms(5) by (simp add: new_chunk_cursor_def)
  moreover have "get_parsed_body (m\<lparr>hm_parser := Some ?q\<rparr>) = Some (Some ?b)" using b by (simp add: get_parsed_body_def)
  ultimately have "decode_chunked_body (m\<lparr>hm_parser := Some ?q\<rparr>) = Some (concat (map snd cs))"
    using decode_printed [OF assms(1,2), of "\<lparr>cc_body = Some ?b, cc_pos = 0, cc_chunked = True, cc_end = False\<rparr>" ?b ts "[]"]
    by (simp add: decode_chunked_body_def)
  then show ?thesis using body_printed [OF _ ext_ok_line(1) [OF assms(2)] assms(3-6,8,9)] ext_ok_line(2) assms(1) b by blast
qed

text \<open>A message with one chunk of five bytes, one of them NUL, and an extension.\<close>

definition demo_chunks :: "chunk list" where
  "demo_chunks = [('';a=b'', ''ab'' @ [NUL, CR, LF])]"

definition demo_chunked :: http_parser where
  "demo_chunked = (http_parser_init True [] CPS_CHUNK_DATA 0)\<lparr>hp_header_state := HPS_HEADER_COMPLETE, hp_chunked := True,
     hp_msgbuf := [] @ concat (map print_chunk demo_chunks) @ print_end [] [''T: 1''] @ ''HTTP''\<rparr>"

theorem http_chunked_roundtrip_witness:
  "\<exists>q. parse_body (after_header demo_chunked) = Some (1, 4, q) \<and>
     decode_chunked_body ((new_http_message True [] CPS_CHUNK_DATA 0)\<lparr>hm_parser := Some q\<rparr>) = Some (''ab'' @ [NUL, CR, LF])"
proof -
  have h: "\<forall>c \<in> set demo_chunks. chunk_ok c" "ext_ok []" "length (size_line [] 0) < HTTP_CHUNK_LINE_MAX" "\<forall>t \<in> set [''T: 1'']. trailer_ok t" by code_simp+
  have p: "hp_chunked demo_chunked" "hp_transfer_length demo_chunked = None" "hp_header_state demo_chunked = HPS_HEADER_COMPLETE"
    "hp_msgbuf demo_chunked = [] @ concat (map print_chunk demo_chunks) @ print_end [] [''T: 1''] @ ''HTTP''" "hp_header_offset demo_chunked = length ([] :: string)"
    by (simp_all add: demo_chunked_def http_parser_init_def)
  have "concat (map snd demo_chunks) = ''ab'' @ [NUL, CR, LF]" by (simp add: demo_chunks_def)
  then show ?thesis using http_chunked_roundtrip [OF h p, of "new_http_message True [] CPS_CHUNK_DATA 0"] by auto
qed

text \<open>
  C37: A NUL in the extension of a chunk is accepted by the parser, wherever the chunk is in the body, but ends the search of the cursor for the end of the line: decoding
  the accepted message computes with a null pointer. This is so for every body whose chunks before it are well formed.
\<close>

theorem chunk_nul_undefined:
  assumes "\<forall>c \<in> set cs. chunk_ok c" "chunk_accepted k" "NUL \<in> set (fst k)" "\<forall>c \<in> set ds. chunk_accepted c"
    "ext_line e" "length (size_line e 0) < HTTP_CHUNK_LINE_MAX" "\<forall>t \<in> set ts. trailer_ok t"
    "hp_chunked p" "hp_transfer_length p = None" "hp_header_state p = HPS_HEADER_COMPLETE"
    "hp_msgbuf p = h @ concat (map print_chunk (cs @ k # ds)) @ print_end e ts @ extra" "hp_header_offset p = length h"
  shows "\<exists>q. parse_body (after_header p) = Some (1, length extra, q) \<and> decode_chunked_body (m\<lparr>hm_parser := Some q\<rparr>) = None"
proof -
  let ?b = "concat (map print_chunk (cs @ k # ds)) @ print_end e ts"
  let ?q = "(chunk_at CPS_CHUNK_COMPLETE (length h + length ?b) p)\<lparr>hp_msgbuf := h @ ?b, hp_complete := True\<rparr>"
  let ?c = "\<lparr>cc_body = Some ?b, cc_pos = 0, cc_chunked = True, cc_end = False\<rparr>"
  have "\<forall>c \<in> set (cs @ k # ds). chunk_accepted c" using assms(1,2,4) ext_ok_line(2) by auto
  from body_printed [OF this assms(5-9,11,12)] have q: "parse_body (after_header p) = Some (1, length extra, ?q)" .
  have b: "http_parser_get_body ?q = Some ?b" using assms(10,12) by (simp add: http_parser_get_body_def)
  note D = decode_prefix [OF assms(1), of ?c ?b "print_chunk k @ concat (map print_chunk ds) @ print_end e ts" "[]"]
  let ?d = "?c\<lparr>cc_pos := length (concat (map print_chunk cs))\<rparr>"
  have "chunk_next ?d = None"
    by (rule next_nul [of "fst k" "length (snd k)" _ ?b "crlf @ snd k @ crlf @ concat (map print_chunk ds) @ print_end e ts"])
      (use assms(2,3) in \<open>auto simp: chunk_accepted_def print_chunk_def\<close>)
  then have "decode_chunks ?d acc = None" for acc by (subst decode_chunks.simps) simp
  then have "decode_chunks ?c [] = None" using D by simp
  then have "decode_chunked_body (m\<lparr>hm_parser := Some ?q\<rparr>) = None"
    using b assms(8) by (simp add: decode_chunked_body_def new_chunk_cursor_def get_parsed_body_def)
  then show ?thesis using q by blast
qed

theorem chunk_nul_undefined_witness:
  "\<exists>q. parse_body (after_header (demo_chunked\<lparr>hp_msgbuf := [] @ concat (map print_chunk (demo_chunks @ ('';'' @ [NUL], ''ab'') # demo_chunks)) @ print_end [] [''T: 1''] @ ''HTTP''\<rparr>)) = Some (1, 4, q) \<and>
     decode_chunked_body ((new_http_message True [] CPS_CHUNK_DATA 0)\<lparr>hm_parser := Some q\<rparr>) = None"
proof -
  have h: "\<forall>c \<in> set demo_chunks. chunk_ok c" "chunk_accepted ('';'' @ [NUL], ''ab'')" "NUL \<in> set (fst ('';'' @ [NUL], ''ab''))" "\<forall>c \<in> set demo_chunks. chunk_accepted c"
    "ext_line []" "length (size_line [] 0) < HTTP_CHUNK_LINE_MAX" "\<forall>t \<in> set [''T: 1'']. trailer_ok t" by code_simp+
  let ?p = "demo_chunked\<lparr>hp_msgbuf := [] @ concat (map print_chunk (demo_chunks @ ('';'' @ [NUL], ''ab'') # demo_chunks)) @ print_end [] [''T: 1''] @ ''HTTP''\<rparr>"
  have p: "hp_chunked ?p" "hp_transfer_length ?p = None" "hp_header_state ?p = HPS_HEADER_COMPLETE" "hp_header_offset ?p = length ([] :: string)"
    by (simp_all add: demo_chunked_def http_parser_init_def)
  have b: "hp_msgbuf ?p = [] @ concat (map print_chunk (demo_chunks @ ('';'' @ [NUL], ''ab'') # demo_chunks)) @ print_end [] [''T: 1''] @ ''HTTP''" by simp
  show ?thesis using chunk_nul_undefined [OF h p(1-3) b p(4), of "new_http_message True [] CPS_CHUNK_DATA 0"] by auto
qed

text \<open>The two bytes behind the data of a chunk are skipped, not compared with the end of a line.\<close>

lemma chunk_end_unchecked: "parse_chunk_data (''2'' @ crlf @ ''abXY'') p = (1, p\<lparr>hp_chunk_offset := hp_chunk_offset p + 7\<rparr>)"
proof -
  have "CR \<notin> set ''2''" "length ''2'' < HTTP_CHUNK_LINE_MAX" "strtol16 (takeWhile (\<lambda>c. c \<noteq> NUL) ''2'') = (2, 1)" by code_simp+
  then show ?thesis using chunk_line [of "''2''" "''abXY''" p] by (simp add: take_chunk_def crlf_def)
qed

section \<open>What the map of headers holds\<close>

definition values_of :: "string \<Rightarrow> header_line list \<Rightarrow> string list" where
  "values_of k ls = map (\<lambda>l. line_value (hl_name_len l) l) (filter (\<lambda>l. map tolower (line_name l) = k) ls)"

lemma header_map_loop_values:
  "header_map_loop ls hm k = (if hm k = None \<and> values_of k ls = [] then None else Some (case_option [] id (hm k) @ values_of k ls))"
proof (induction ls arbitrary: hm)
  case Nil
  then show ?case by (auto simp: values_of_def split: option.splits)
next
  case (Cons l ls)
  show ?case by (auto simp: Cons.IH values_of_def Let_def split: option.splits)
qed

lemma find_values:
  assumes "NUL \<notin> set name" "\<forall>l \<in> set ls. line_ok l"
  shows "fst (http_header_cursor_find name ls) = (case values_of (map tolower name) ls of [] \<Rightarrow> None | v # vs \<Rightarrow> Some v)"
  using assms(2)
proof (induction ls)
  case (Cons l ls)
  have ok: "line_ok l" using Cons.prems by simp
  have "same_name name l \<longleftrightarrow> map tolower (line_name l) = map tolower name"
    using same_name_iff [OF assms(1) ok] map_eq_imp_length_eq [of tolower "line_name l" tolower name] ok by (auto simp: line_name_def line_ok_def)
  moreover have "hl_name_len l = length name" if "map tolower (line_name l) = map tolower name"
    using map_eq_imp_length_eq [OF that] ok by (simp add: line_name_def line_ok_def)
  ultimately show ?case using Cons by (auto simp: values_of_def)
qed (simp add: values_of_def)

text \<open>
  The map of headers agrees with the cursor: a key finds, under any spelling, what the cursor finds first, and all its values in
  their order.
\<close>

theorem header_map_agrees:
  assumes "NUL \<notin> set key" "\<forall>l \<in> set (hp_header_list p). line_ok l"
  shows "map_get_value key (new_header_map p) = fst (http_header_cursor_find key (http_header_cursor_init p)) \<and>
    (key_exists key (new_header_map p) \<longleftrightarrow> fst (http_header_cursor_find key (http_header_cursor_init p)) \<noteq> None) \<and>
    map_get key (new_header_map p) = (case fst (http_header_cursor_find key (http_header_cursor_init p)) of Some v \<Rightarrow> v | None \<Rightarrow> []) \<and>
    fst (map_get_strict key (new_header_map p)) = values_of (map tolower key) (hp_header_list p)"
  using find_values [OF assms]
  by (auto simp: new_header_map_def http_header_cursor_init_def map_get_value_def map_get_def map_get_strict_def key_exists_def header_map_loop_values
      split: list.splits option.splits)

theorem header_map_agrees_witness:
  "map_get_value ''HOST'' (new_header_map demo_headers) = fst (http_header_cursor_find ''HOST'' (http_header_cursor_init demo_headers)) \<and>
   fst (http_header_cursor_find ''HOST'' (http_header_cursor_init demo_headers)) = Some ''abc''"
proof -
  have h: "NUL \<notin> set ''HOST''" "\<forall>l \<in> set (hp_header_list demo_headers). line_ok l"
    "fst (http_header_cursor_find ''HOST'' (http_header_cursor_init demo_headers)) = Some ''abc''" by code_simp+
  show ?thesis using header_map_agrees [OF h(1,2)] h(3) by blast
qed

text \<open>Asking for the values of a header that is not there makes the map say that it is.\<close>

lemma get_strict_inserts: "\<not> key_exists key hm \<Longrightarrow> key_exists key (snd (map_get_strict key hm))"
  by (simp add: key_exists_def map_get_strict_def)
end
