(* ===== verification/Msgqueue.thy ===== *)
theory Msgqueue
  imports WF_Prelude
begin

text \<open>
  The message queue between the poller threads and the handler threads (\<^verbatim>\<open>workflow/src/kernel/msgqueue.c\<close>). The queue does
  not allocate: messages are linked through a field \<^verbatim>\<open>linkoff\<close> bytes into each of them, so the model has the memory cells
  that hold links, by their address. Consumers take from the get list under \<^verbatim>\<open>get_mutex\<close>; when it is empty one of them,
  still holding that mutex, waits for the put list to fill and swaps the two. \<open>mq_step\<close> interleaves any number of threads at
  the two mutexes and the two condition variables, with spurious wake-ups.
\<close>

section \<open>State\<close>

record msgqueue =
  mq_msg_max :: u64
  mq_msg_cnt :: u64
  mq_linkoff :: u64
  mq_nonblock :: bool
  mq_get_head :: u64
  mq_put_head :: u64
  mq_put_tail :: u64
  mq_mem :: "u64 \<Rightarrow> u64"

text \<open>The offsets of the fields \<^verbatim>\<open>head1\<close> and \<^verbatim>\<open>head2\<close> in the structure at address \<open>q\<close>.\<close>

abbreviation head1 :: "u64 \<Rightarrow> u64" where "head1 q \<equiv> q + 24"
abbreviation head2 :: "u64 \<Rightarrow> u64" where "head2 q \<equiv> q + 32"

section \<open>Creation\<close>

datatype mq_resource = Memory | Get_mutex | Put_mutex | Get_cond | Put_cond

text \<open>
  \<open>msgqueue_create q rets mem maxlen linkoff\<close>: \<open>q\<close> is what \<^verbatim>\<open>malloc\<close> returned (0 for \<^verbatim>\<open>NULL\<close>), \<open>rets\<close> what the four
  initialisations return; the result has the queue or the error, and what is still allocated or initialised.
\<close>

definition msgqueue_create :: "u64 \<Rightarrow> int \<times> int \<times> int \<times> int \<Rightarrow> (u64 \<Rightarrow> u64) \<Rightarrow> u64 \<Rightarrow> u64 \<Rightarrow> (int option + msgqueue) \<times> mq_resource list" where
  "msgqueue_create q rets mem maxlen linkoff =
     (case rets of (r1, r2, r3, r4) \<Rightarrow>
        if q = 0 then (Inl None, [])
        else let free_all = (\<lambda>ret live. (Inl (Some ret), removeAll Memory live))
             in if r1 = 0 then
                  if r2 = 0 then
                    if r3 = 0 then
                      if r4 = 0 then
                        (Inr \<lparr>mq_msg_max = maxlen, mq_msg_cnt = 0, mq_linkoff = linkoff, mq_nonblock = False,
                              mq_get_head = head1 q, mq_put_head = head2 q, mq_put_tail = head2 q,
                              mq_mem = mem(head1 q := 0, head2 q := 0)\<rparr>,
                         [Memory, Get_mutex, Put_mutex, Get_cond, Put_cond])
                      else free_all r4 (removeAll Get_mutex (removeAll Put_mutex (removeAll Get_cond [Memory, Get_mutex, Put_mutex, Get_cond])))
                    else free_all r3 (removeAll Get_mutex (removeAll Put_mutex [Memory, Get_mutex, Put_mutex]))
                  else free_all r2 (removeAll Get_mutex [Memory, Get_mutex])
                else free_all r1 [Memory])"

definition msgqueue_destroy :: "mq_resource list \<Rightarrow> mq_resource list" where
  "msgqueue_destroy live =
     removeAll Memory (removeAll Get_mutex (removeAll Put_mutex (removeAll Get_cond (removeAll Put_cond live))))"

section \<open>The parts of the operations\<close>

text \<open>\<^verbatim>\<open>msg_cnt > msg_max - 1\<close> on \<^verbatim>\<open>size_t\<close>: a queue made with \<^verbatim>\<open>maxlen\<close> 0 is never full.\<close>

definition mq_full :: "msgqueue \<Rightarrow> bool" where
  "mq_full q \<longleftrightarrow> mq_msg_cnt q > mq_msg_max q - 1"

text \<open>\<^verbatim>\<open>msgqueue_put\<close> before the lock, the condition of its wait, and under the lock.\<close>

definition put_prepare :: "u64 \<Rightarrow> msgqueue \<Rightarrow> msgqueue" where
  "put_prepare msg q = q\<lparr>mq_mem := (mq_mem q)(msg + mq_linkoff q := 0)\<rparr>"

definition put_waits :: "msgqueue \<Rightarrow> bool" where
  "put_waits q \<longleftrightarrow> mq_full q \<and> \<not> mq_nonblock q"

definition put_locked :: "u64 \<Rightarrow> msgqueue \<Rightarrow> msgqueue" where
  "put_locked msg q =
     (let link = msg + mq_linkoff q
      in q\<lparr>mq_mem := (mq_mem q)(mq_put_tail q := link), mq_put_tail := link, mq_msg_cnt := mq_msg_cnt q + 1\<rparr>)"

text \<open>\<^verbatim>\<open>__msgqueue_swap\<close> before the lock, the condition of its wait, and under the lock: the count and whether the producers are woken.\<close>

definition swap_prepare :: "msgqueue \<Rightarrow> u64 \<times> msgqueue" where
  "swap_prepare q = (mq_get_head q, q\<lparr>mq_get_head := mq_put_head q\<rparr>)"

definition swap_waits :: "msgqueue \<Rightarrow> bool" where
  "swap_waits q \<longleftrightarrow> mq_msg_cnt q = 0 \<and> \<not> mq_nonblock q"

definition swap_locked :: "u64 \<Rightarrow> msgqueue \<Rightarrow> u64 \<times> bool \<times> msgqueue" where
  "swap_locked get_head q = (mq_msg_cnt q, mq_full q, q\<lparr>mq_put_head := get_head, mq_put_tail := get_head, mq_msg_cnt := 0\<rparr>)"

text \<open>\<^verbatim>\<open>msgqueue_get\<close>: whether there is a message to take, and taking it.\<close>

definition get_ready :: "msgqueue \<Rightarrow> bool" where
  "get_ready q \<longleftrightarrow> mq_mem q (mq_get_head q) \<noteq> 0"

definition get_take :: "msgqueue \<Rightarrow> u64 \<times> msgqueue" where
  "get_take q =
     (mq_mem q (mq_get_head q) - mq_linkoff q,
      q\<lparr>mq_mem := (mq_mem q)(mq_get_head q := mq_mem q (mq_mem q (mq_get_head q)))\<rparr>)"

section \<open>Threads\<close>

text \<open>
  Where a thread is: \<open>Put_enter\<close> and \<open>Get_enter\<close> are in front of \<^verbatim>\<open>put_mutex\<close> with the loop condition to be tested,
  \<open>Put_sleep\<close> and \<open>Get_sleep\<close> inside \<^verbatim>\<open>pthread_cond_wait\<close>, \<open>Put_signal\<close> after the unlock of \<^verbatim>\<open>msgqueue_put\<close>, \<open>Get_cnt\<close>
  after the return of \<^verbatim>\<open>__msgqueue_swap\<close>, \<open>Nonblock\<close> between the assignment and the lock of \<^verbatim>\<open>msgqueue_set_nonblock\<close>.
\<close>

datatype mq_pc = Idle | Put_enter u64 | Put_sleep u64 | Put_signal | Get_enter u64 | Get_sleep u64 | Get_cnt u64 | Nonblock

text \<open>
  The system: the queue, the threads, the owner of \<^verbatim>\<open>get_mutex\<close>, and what was put and got so far, in the order of
  the critical sections, with whether \<^verbatim>\<open>nonblock\<close> was ever set.
\<close>

record mq_system =
  sq :: msgqueue
  spc :: "nat \<Rightarrow> mq_pc"
  sowner :: "nat option"
  sputs :: "u64 list"
  sgets :: "u64 list"
  snonblock :: bool

fun wake_put :: "mq_pc \<Rightarrow> mq_pc" where
  "wake_put (Put_sleep m) = Put_enter m"
| "wake_put p = p"

text \<open>A signal on \<^verbatim>\<open>get_cond\<close> wakes the one consumer that can wait there, the owner of \<^verbatim>\<open>get_mutex\<close>.\<close>

fun wake_get :: "mq_pc \<Rightarrow> mq_pc" where
  "wake_get (Get_sleep h) = Get_enter h"
| "wake_get p = p"

fun put_pending :: "mq_pc \<Rightarrow> u64 option" where
  "put_pending (Put_enter m) = Some m"
| "put_pending (Put_sleep m) = Some m"
| "put_pending p = None"

text \<open>What the caller owes: a message is not put again while it is in the queue or being put, and its link is memory of its own.\<close>

definition may_put :: "u64 \<Rightarrow> u64 \<Rightarrow> mq_system \<Rightarrow> bool" where
  "may_put a msg s \<longleftrightarrow> msg + mq_linkoff (sq s) \<notin> {0, head1 a, head2 a} \<and>
     msg \<notin> set (drop (length (sgets s)) (sputs s)) \<and> (\<forall>t. put_pending (spc s t) \<noteq> Some msg)"

inductive mq_step :: "u64 \<Rightarrow> mq_system \<Rightarrow> mq_system \<Rightarrow> bool" for a where
  put_start: "spc s t = Idle \<Longrightarrow> may_put a msg s \<Longrightarrow>
    mq_step a s (s\<lparr>sq := put_prepare msg (sq s), spc := (spc s)(t := Put_enter msg)\<rparr>)"
| put_sleep: "spc s t = Put_enter msg \<Longrightarrow> put_waits (sq s) \<Longrightarrow> mq_step a s (s\<lparr>spc := (spc s)(t := Put_sleep msg)\<rparr>)"
| put_insert: "spc s t = Put_enter msg \<Longrightarrow> \<not> put_waits (sq s) \<Longrightarrow>
    mq_step a s (s\<lparr>sq := put_locked msg (sq s), spc := (spc s)(t := Put_signal), sputs := sputs s @ [msg]\<rparr>)"
| put_signal: "spc s t = Put_signal \<Longrightarrow> mq_step a s (s\<lparr>spc := wake_get \<circ> (spc s)(t := Idle)\<rparr>)"
| get_direct: "spc s t = Idle \<Longrightarrow> sowner s = None \<Longrightarrow> get_ready (sq s) \<Longrightarrow> get_take (sq s) = (msg, q) \<Longrightarrow>
    mq_step a s (s\<lparr>sq := q, sgets := sgets s @ [msg]\<rparr>)"
| get_swap: "spc s t = Idle \<Longrightarrow> sowner s = None \<Longrightarrow> \<not> get_ready (sq s) \<Longrightarrow> swap_prepare (sq s) = (h, q) \<Longrightarrow>
    mq_step a s (s\<lparr>sq := q, spc := (spc s)(t := Get_enter h), sowner := Some t\<rparr>)"
| swap_sleep: "spc s t = Get_enter h \<Longrightarrow> swap_waits (sq s) \<Longrightarrow> mq_step a s (s\<lparr>spc := (spc s)(t := Get_sleep h)\<rparr>)"
| swap_run: "spc s t = Get_enter h \<Longrightarrow> \<not> swap_waits (sq s) \<Longrightarrow> swap_locked h (sq s) = (cnt, wake, q) \<Longrightarrow>
    mq_step a s (s\<lparr>sq := q, spc := (if wake then wake_put \<circ> (spc s)(t := Get_cnt cnt) else (spc s)(t := Get_cnt cnt))\<rparr>)"
| get_message: "spc s t = Get_cnt cnt \<Longrightarrow> cnt > 0 \<Longrightarrow> get_take (sq s) = (msg, q) \<Longrightarrow>
    mq_step a s (s\<lparr>sq := q, spc := (spc s)(t := Idle), sowner := None, sgets := sgets s @ [msg]\<rparr>)"
| get_null: "spc s t = Get_cnt 0 \<Longrightarrow> mq_step a s (s\<lparr>spc := (spc s)(t := Idle), sowner := None\<rparr>)"
| set_nonblock: "spc s t = Idle \<Longrightarrow>
    mq_step a s (s\<lparr>sq := (sq s)\<lparr>mq_nonblock := True\<rparr>, spc := (spc s)(t := Nonblock), snonblock := True\<rparr>)"
| wake_all: "spc s t = Nonblock \<Longrightarrow> mq_step a s (s\<lparr>spc := wake_put \<circ> wake_get \<circ> (spc s)(t := Idle)\<rparr>)"
| set_block: "spc s t = Idle \<Longrightarrow> mq_step a s (s\<lparr>sq := (sq s)\<lparr>mq_nonblock := False\<rparr>\<rparr>)"
| spurious: "mq_step a s (s\<lparr>spc := (spc s)(t := wake_put (wake_get (spc s t)))\<rparr>)"

definition mq_start :: "u64 \<Rightarrow> u64 \<Rightarrow> u64 \<Rightarrow> (u64 \<Rightarrow> u64) \<Rightarrow> mq_system option" where
  "mq_start a maxlen linkoff mem =
     (case fst (msgqueue_create a (0, 0, 0, 0) mem maxlen linkoff) of
        Inl _ \<Rightarrow> None
      | Inr q \<Rightarrow> Some \<lparr>sq = q, spc = (\<lambda>t. Idle), sowner = None, sputs = [], sgets = [], snonblock = False\<rparr>)"

inductive mq_reachable :: "u64 \<Rightarrow> u64 \<Rightarrow> u64 \<Rightarrow> mq_system \<Rightarrow> bool" for a maxlen linkoff where
  start: "mq_start a maxlen linkoff mem = Some s \<Longrightarrow> mq_reachable a maxlen linkoff s"
| step: "mq_reachable a maxlen linkoff s \<Longrightarrow> mq_step a s s' \<Longrightarrow> mq_reachable a maxlen linkoff s'"

section \<open>Chains of links\<close>

fun chain :: "(u64 \<Rightarrow> u64) \<Rightarrow> u64 \<Rightarrow> u64 list \<Rightarrow> bool" where
  "chain m a [] \<longleftrightarrow> m a = 0"
| "chain m a (x # xs) \<longleftrightarrow> m a = x \<and> x \<noteq> 0 \<and> chain m x xs"

lemma chain_upd_other: "c \<notin> set (a # xs) \<Longrightarrow> chain (m(c := v)) a xs = chain m a xs"
  by (induction xs arbitrary: a) auto

lemma chain_snoc:
  "chain m a xs \<Longrightarrow> m x = 0 \<Longrightarrow> x \<noteq> 0 \<Longrightarrow> distinct (a # xs @ [x]) \<Longrightarrow> chain (m(last (a # xs) := x)) a (xs @ [x])"
proof (induction xs arbitrary: a)
  case (Cons y ys)
  have c: "chain (m(last (y # ys) := x)) y (ys @ [x])" using Cons.prems by (intro Cons.IH) auto
  have l: "last (a # y # ys) = last (y # ys)" "last (y # ys) \<noteq> a" using Cons.prems(4) last_in_set [of "y # ys"] by auto
  show ?case unfolding l(1) using c l(2) Cons.prems by (simp add: fun_upd_other del: last.simps fun_upd_apply)
qed auto

lemma chain_pop: "chain m a (x # xs) \<Longrightarrow> a \<notin> set (x # xs) \<Longrightarrow> chain (m(a := m x)) a xs"
  by (cases xs) (auto simp: chain_upd_other)

lemma chain_head: "chain m a xs \<Longrightarrow> m a = 0 \<longleftrightarrow> xs = []"
  by (cases xs) auto

lemma chain_nonzero: "chain m a xs \<Longrightarrow> 0 \<notin> set xs"
  by (induction xs arbitrary: a) auto

lemma few_links:
  assumes "chain m a xs" "distinct xs"
  shows "length xs < 2 ^ 64"
proof -
  have "card (set xs) < card (UNIV :: u64 set)" using chain_nonzero [OF assms(1)] by (intro psubset_card_mono) auto
  then show ?thesis using assms(2) by (simp add: distinct_card card_word)
qed

section \<open>The two lists\<close>

definition mq_lists :: "u64 \<Rightarrow> u64 \<Rightarrow> u64 \<Rightarrow> u64 list \<Rightarrow> u64 list \<Rightarrow> u64 set \<Rightarrow> msgqueue \<Rightarrow> bool" where
  "mq_lists a off gh gs ps P q \<longleftrightarrow> mq_linkoff q = off \<and> chain (mq_mem q) gh gs \<and> chain (mq_mem q) (mq_put_head q) ps \<and>
     mq_put_tail q = last (mq_put_head q # ps) \<and> (gh, mq_put_head q) \<in> {(head1 a, head2 a), (head2 a, head1 a)} \<and>
     distinct (gs @ ps) \<and> head1 a \<notin> set (gs @ ps) \<and> head2 a \<notin> set (gs @ ps) \<and> mq_msg_cnt q = of_nat (length ps) \<and>
     (\<forall>m \<in> P. m + off \<notin> {0, head1 a, head2 a} \<union> set (gs @ ps) \<and> mq_mem q (m + off) = 0)"

lemma heads_differ: "head1 a \<noteq> head2 a"
  by simp

lemma lists_count:
  assumes "mq_lists a off gh gs ps P q"
  shows "unat (mq_msg_cnt q) = length ps" "mq_msg_cnt q = 0 \<longleftrightarrow> ps = []"
proof -
  have "length ps < 2 ^ 64" using assms by (intro few_links [of "mq_mem q" "mq_put_head q"]) (auto simp: mq_lists_def)
  then show u: "unat (mq_msg_cnt q) = length ps" using assms by (simp add: mq_lists_def unat_of_nat)
  show "mq_msg_cnt q = 0 \<longleftrightarrow> ps = []" using u by (metis length_0_conv unat_eq_zero)
qed

lemma lists_mono: "mq_lists a off gh gs ps P q \<Longrightarrow> P' \<subseteq> P \<Longrightarrow> mq_lists a off gh gs ps P' q"
  by (auto simp: mq_lists_def)

lemma lists_fields: "mq_lists a off gh gs ps P (q\<lparr>mq_nonblock := b\<rparr>) = mq_lists a off gh gs ps P q"
  "mq_lists a off gh gs ps P (q\<lparr>mq_get_head := h\<rparr>) = mq_lists a off gh gs ps P q"
  by (simp_all add: mq_lists_def)

lemma lists_prepare:
  assumes "mq_lists a off gh gs ps P q" "m + off \<notin> {0, head1 a, head2 a} \<union> set (gs @ ps)"
  shows "mq_lists a off gh gs ps (insert m P) (put_prepare m q)"
proof -
  have n: "m + off \<notin> set (gh # gs)" "m + off \<notin> set (mq_put_head q # ps)" using assms by (auto simp: mq_lists_def)
  show ?thesis using assms chain_upd_other [OF n(1)] chain_upd_other [OF n(2)] by (auto simp: mq_lists_def put_prepare_def)
qed

lemma lists_put:
  assumes "mq_lists a off gh gs ps P q" "m \<in> P"
  shows "mq_lists a off gh gs (ps @ [m + off]) (P - {m}) (put_locked m q)"
proof -
  let ?l = "m + off" and ?t = "mq_put_tail q"
  have l: "?l \<notin> {0, head1 a, head2 a} \<union> set (gs @ ps)" "mq_mem q ?l = 0" using assms by (auto simp: mq_lists_def)
  have t: "?t = last (mq_put_head q # ps)" "?t \<in> set (mq_put_head q # ps)" using assms(1) last_in_set [of "mq_put_head q # ps"] by (auto simp: mq_lists_def simp del: last.simps)
  have tg: "?t \<notin> set (gh # gs)" using t(2) assms(1) by (auto simp: mq_lists_def)
  have "chain ((mq_mem q)(?t := ?l)) (mq_put_head q) (ps @ [?l])"
    unfolding t(1) using l assms(1) by (intro chain_snoc) (auto simp: mq_lists_def)
  moreover have "chain ((mq_mem q)(?t := ?l)) gh gs" using chain_upd_other [OF tg] assms(1) by (simp add: mq_lists_def)
  moreover have "k + off \<noteq> ?t" if "k \<in> P" for k using that t(2) assms(1) by (auto simp: mq_lists_def)
  ultimately show ?thesis using assms l by (auto simp: mq_lists_def put_locked_def Let_def)
qed

lemma lists_take:
  assumes "mq_lists a off (mq_get_head q) (x # gs) ps P q"
  shows "fst (get_take q) = x - off" "mq_lists a off (mq_get_head q) gs ps P (snd (get_take q))" "mq_get_head (snd (get_take q)) = mq_get_head q"
    "mq_nonblock (snd (get_take q)) = mq_nonblock q" "mq_msg_max (snd (get_take q)) = mq_msg_max q" "mq_msg_cnt (snd (get_take q)) = mq_msg_cnt q"
proof -
  let ?g = "mq_get_head q"
  have x: "mq_mem q ?g = x" using assms by (simp add: mq_lists_def)
  have n: "?g \<notin> set (mq_put_head q # ps)" "?g \<notin> set (x # gs)" using assms by (auto simp: mq_lists_def)
  have "chain ((mq_mem q)(?g := mq_mem q x)) ?g gs" using assms n(2) by (intro chain_pop) (auto simp: mq_lists_def)
  then show "mq_lists a off ?g gs ps P (snd (get_take q))"
    using assms x chain_upd_other [OF n(1)] by (auto simp: mq_lists_def get_take_def)
  show "fst (get_take q) = x - off" using x assms by (simp add: get_take_def mq_lists_def)
qed (simp_all add: get_take_def)

lemma lists_swap:
  assumes "mq_lists a off h [] ps P q" "swap_locked h q = (cnt, wake, q')"
  shows "mq_lists a off (mq_put_head q) ps [] P q'" "unat cnt = length ps" "wake = mq_full q" "mq_get_head q' = mq_get_head q"
    "mq_nonblock q' = mq_nonblock q" "mq_msg_max q' = mq_msg_max q" "mq_msg_cnt q' = 0" "cnt = of_nat (length ps)"
  using assms lists_count(1) [OF assms(1)] by (auto simp: mq_lists_def swap_locked_def)

section \<open>The invariant of the system\<close>

fun swapping :: "mq_pc \<Rightarrow> u64 option" where
  "swapping (Get_enter h) = Some h"
| "swapping (Get_sleep h) = Some h"
| "swapping p = None"

definition holds_get :: "mq_pc \<Rightarrow> bool" where
  "holds_get p \<longleftrightarrow> swapping p \<noteq> None \<or> (\<exists>c. p = Get_cnt c)"

definition pend_set :: "mq_system \<Rightarrow> u64 set" where
  "pend_set s = {m. \<exists>t. put_pending (spc s t) = Some m}"

lemma wake_simps [simp]:
  "put_pending (wake_put p) = put_pending p" "put_pending (wake_get p) = put_pending p" "swapping (wake_put p) = swapping p" "swapping (wake_get p) = swapping p"
  "wake_put p = Get_cnt c \<longleftrightarrow> p = Get_cnt c" "wake_get p = Get_cnt c \<longleftrightarrow> p = Get_cnt c"
  "wake_put p \<noteq> Put_sleep m" "wake_get p \<noteq> Get_sleep m" "wake_get p = Put_sleep m \<longleftrightarrow> p = Put_sleep m" "wake_put p = Get_sleep m \<longleftrightarrow> p = Get_sleep m"
  "wake_put p = Put_signal \<longleftrightarrow> p = Put_signal" "wake_get p = Put_signal \<longleftrightarrow> p = Put_signal"
  "wake_put p = Nonblock \<longleftrightarrow> p = Nonblock" "wake_get p = Nonblock \<longleftrightarrow> p = Nonblock"
  by (cases p; simp)+

lemma holds_wake [simp]: "holds_get (wake_put p) = holds_get p" "holds_get (wake_get p) = holds_get p"
  by (simp_all add: holds_get_def)

text \<open>\<open>gh\<close> is the cell the get list starts at, also while a consumer has already redirected \<^verbatim>\<open>get_head\<close>.\<close>

definition inv_lists :: "u64 \<Rightarrow> u64 \<Rightarrow> u64 \<Rightarrow> u64 \<Rightarrow> u64 list \<Rightarrow> u64 list \<Rightarrow> mq_system \<Rightarrow> bool" where
  "inv_lists a mx off gh gs ps s \<longleftrightarrow> mq_lists a off gh gs ps (pend_set s) (sq s) \<and> mq_msg_max (sq s) = mx \<and>
     sputs s = sgets s @ map (\<lambda>l. l - off) (gs @ ps) \<and> inj_on (\<lambda>t. put_pending (spc s t)) {t. put_pending (spc s t) \<noteq> None}"

definition inv_get :: "u64 \<Rightarrow> u64 list \<Rightarrow> mq_system \<Rightarrow> bool" where
  "inv_get gh gs s \<longleftrightarrow> (\<forall>t. holds_get (spc s t) \<longrightarrow> sowner s = Some t) \<and>
     (\<forall>t h. swapping (spc s t) = Some h \<longrightarrow> gh = h \<and> gs = [] \<and> mq_get_head (sq s) = mq_put_head (sq s)) \<and>
     ((\<forall>t. swapping (spc s t) = None) \<longrightarrow> gh = mq_get_head (sq s)) \<and>
     (\<forall>t c. spc s t = Get_cnt c \<longrightarrow> unat c = length gs)"

definition at_pc :: "mq_system \<Rightarrow> mq_pc \<Rightarrow> bool" where
  "at_pc s p \<longleftrightarrow> (\<exists>t. spc s t = p)"

definition inv_wake :: "mq_system \<Rightarrow> bool" where
  "inv_wake s \<longleftrightarrow> (\<forall>t m. spc s t = Put_sleep m \<longrightarrow> mq_full (sq s) \<and> (mq_nonblock (sq s) \<longrightarrow> at_pc s Nonblock)) \<and>
     (\<forall>t h. spc s t = Get_sleep h \<longrightarrow> (mq_msg_cnt (sq s) \<noteq> 0 \<longrightarrow> at_pc s Put_signal) \<and> (mq_nonblock (sq s) \<longrightarrow> at_pc s Nonblock)) \<and>
     (\<not> snonblock s \<longrightarrow> \<not> mq_nonblock (sq s) \<and> (mq_msg_max (sq s) \<noteq> 0 \<longrightarrow> mq_msg_cnt (sq s) \<le> mq_msg_max (sq s)))"

lemma at_pc_keep: "at_pc s p \<Longrightarrow> (\<And>t. spc s t = p \<Longrightarrow> spc s' t = p) \<Longrightarrow> at_pc s' p"
  by (auto simp: at_pc_def)

lemma wake_threads:
  assumes "inv_wake s"
    "\<And>t m. spc s' t = Put_sleep m \<Longrightarrow> spc s t = Put_sleep m \<and> (mq_full (sq s) \<longrightarrow> mq_full (sq s')) \<and>
       (mq_nonblock (sq s') \<longrightarrow> at_pc s' Nonblock \<or> mq_nonblock (sq s) \<and> (at_pc s Nonblock \<longrightarrow> at_pc s' Nonblock))"
    "\<And>t h. spc s' t = Get_sleep h \<Longrightarrow> spc s t = Get_sleep h \<and>
       (mq_msg_cnt (sq s') \<noteq> 0 \<longrightarrow> at_pc s' Put_signal \<or> mq_msg_cnt (sq s) \<noteq> 0 \<and> (at_pc s Put_signal \<longrightarrow> at_pc s' Put_signal)) \<and>
       (mq_nonblock (sq s') \<longrightarrow> at_pc s' Nonblock \<or> mq_nonblock (sq s) \<and> (at_pc s Nonblock \<longrightarrow> at_pc s' Nonblock))"
    "\<not> snonblock s' \<Longrightarrow> \<not> mq_nonblock (sq s') \<and> (mq_msg_max (sq s') \<noteq> 0 \<longrightarrow> mq_msg_cnt (sq s') \<le> mq_msg_max (sq s'))"
  shows "inv_wake s'"
  unfolding inv_wake_def using assms(1)[unfolded inv_wake_def] assms(2-4) by blast

lemma wake_bound: "inv_wake s \<Longrightarrow> \<not> snonblock s \<Longrightarrow> \<not> mq_nonblock (sq s) \<and> (mq_msg_max (sq s) \<noteq> 0 \<longrightarrow> mq_msg_cnt (sq s) \<le> mq_msg_max (sq s))"
  by (simp add: inv_wake_def)

lemma lists_threads:
  assumes "inv_lists a mx off gh gs ps s" "\<And>t. put_pending (spc s' t) = put_pending (spc s t)" "mq_lists a off gh gs' ps' (pend_set s) (sq s')"
    "mq_msg_max (sq s') = mx" "sputs s' = sgets s' @ map (\<lambda>l. l - off) (gs' @ ps')"
  shows "inv_lists a mx off gh gs' ps' s'"
  using assms by (simp add: inv_lists_def pend_set_def)

lemma get_threads:
  assumes "inv_get gh gs s" "\<And>t. swapping (spc s' t) = swapping (spc s t)" "\<And>t c. spc s' t = Get_cnt c \<longleftrightarrow> spc s t = Get_cnt c" "sowner s' = sowner s"
    "mq_get_head (sq s') = mq_get_head (sq s)" "mq_put_head (sq s') = mq_put_head (sq s)"
  shows "inv_get gh gs s'"
  using assms by (simp add: inv_get_def holds_get_def)

lemma inv_put_start:
  assumes "inv_lists a mx off gh gs ps s" "inv_get gh gs s" "inv_wake s" "spc s t = Idle" "may_put a msg s"
  shows "inv_lists a mx off gh gs ps (s\<lparr>sq := put_prepare msg (sq s), spc := (spc s)(t := Put_enter msg)\<rparr>)"
    "inv_get gh gs (s\<lparr>sq := put_prepare msg (sq s), spc := (spc s)(t := Put_enter msg)\<rparr>)"
    "inv_wake (s\<lparr>sq := put_prepare msg (sq s), spc := (spc s)(t := Put_enter msg)\<rparr>)"
proof -
  have q: "mq_lists a off gh gs ps (pend_set s) (sq s)" "sputs s = sgets s @ map (\<lambda>l. l - off) (gs @ ps)" "mq_linkoff (sq s) = off"
    using assms(1) by (auto simp: inv_lists_def mq_lists_def)
  have "msg + off \<notin> set (gs @ ps)"
  proof
    assume "msg + off \<in> set (gs @ ps)"
    then have "msg + off - off \<in> (\<lambda>l. l - off) ` set (gs @ ps)" by (rule imageI)
    then show False using assms(5) q(2) by (auto simp: may_put_def)
  qed
  then have l: "mq_lists a off gh gs ps (insert msg (pend_set s)) (put_prepare msg (sq s))" using q assms(5) by (intro lists_prepare) (auto simp: may_put_def)
  have "pend_set (s\<lparr>sq := put_prepare msg (sq s), spc := (spc s)(t := Put_enter msg)\<rparr>) \<subseteq> insert msg (pend_set s)"
    by (auto simp: pend_set_def split: if_splits)
  from lists_mono [OF l this] show "inv_lists a mx off gh gs ps (s\<lparr>sq := put_prepare msg (sq s), spc := (spc s)(t := Put_enter msg)\<rparr>)"
    using assms(1,5) by (auto simp: inv_lists_def put_prepare_def inj_on_def may_put_def)
  show "inv_get gh gs (s\<lparr>sq := put_prepare msg (sq s), spc := (spc s)(t := Put_enter msg)\<rparr>)"
    by (rule get_threads [OF assms(2)]) (use assms(4) in \<open>auto simp: put_prepare_def\<close>)
  show "inv_wake (s\<lparr>sq := put_prepare msg (sq s), spc := (spc s)(t := Put_enter msg)\<rparr>)"
    by (rule wake_threads [OF assms(3)]) (use assms(4) wake_bound [OF assms(3)] in
      \<open>auto simp: put_prepare_def mq_full_def split: if_splits elim!: at_pc_keep\<close>)
qed

lemma inv_put_insert:
  assumes "inv_lists a mx off gh gs ps s" "inv_get gh gs s" "inv_wake s" "spc s t = Put_enter msg" "\<not> put_waits (sq s)"
  shows "inv_lists a mx off gh gs (ps @ [msg + off]) (s\<lparr>sq := put_locked msg (sq s), spc := (spc s)(t := Put_signal), sputs := sputs s @ [msg]\<rparr>)"
    "inv_get gh gs (s\<lparr>sq := put_locked msg (sq s), spc := (spc s)(t := Put_signal), sputs := sputs s @ [msg]\<rparr>)"
    "inv_wake (s\<lparr>sq := put_locked msg (sq s), spc := (spc s)(t := Put_signal), sputs := sputs s @ [msg]\<rparr>)"
proof -
  let ?s = "s\<lparr>sq := put_locked msg (sq s), spc := (spc s)(t := Put_signal), sputs := sputs s @ [msg]\<rparr>"
  have q: "mq_lists a off gh gs ps (pend_set s) (sq s)" "msg \<in> pend_set s" using assms(1,4) by (auto simp: inv_lists_def pend_set_def intro: exI [of _ t])
  have inj: "\<And>u. u \<noteq> t \<Longrightarrow> put_pending (spc s u) \<noteq> Some msg" using assms(1,4) unfolding inv_lists_def inj_on_def by fastforce
  have "pend_set ?s \<subseteq> pend_set s - {msg}" using inj by (auto simp: pend_set_def split: if_splits)
  from lists_mono [OF lists_put [OF q] this] have l: "mq_lists a off gh gs (ps @ [msg + off]) (pend_set ?s) (put_locked msg (sq s))" .
  then show "inv_lists a mx off gh gs (ps @ [msg + off]) ?s" using assms(1) by (auto simp: inv_lists_def put_locked_def Let_def inj_on_def)
  show "inv_get gh gs ?s" by (rule get_threads [OF assms(2)]) (use assms(4) in \<open>auto simp: put_locked_def Let_def\<close>)
  have c: "unat (mq_msg_cnt (sq s) + 1) = unat (mq_msg_cnt (sq s)) + 1"
    using lists_count(1) [OF l] lists_count(1) [OF q(1)] by (simp add: put_locked_def Let_def)
  have f: "mq_full (sq s) \<Longrightarrow> mq_full (put_locked msg (sq s))" using c by (simp add: mq_full_def put_locked_def Let_def word_less_nat_alt)
  have b: "mq_msg_cnt (sq s) + 1 \<le> mq_msg_max (sq s)" if "\<not> mq_full (sq s)" "mq_msg_max (sq s) \<noteq> 0"
    using that c unat_pred [OF that(2)] by (simp add: mq_full_def word_le_nat_alt word_less_nat_alt unat_gt_0 [symmetric])
  have p: "mq_nonblock (put_locked msg (sq s)) = mq_nonblock (sq s)" "mq_msg_max (put_locked msg (sq s)) = mq_msg_max (sq s)"
    "mq_msg_cnt (put_locked msg (sq s)) = mq_msg_cnt (sq s) + 1" by (simp_all add: put_locked_def Let_def)
  have sig: "at_pc ?s Put_signal" by (auto simp: at_pc_def)
  show "inv_wake ?s"
    by (rule wake_threads [OF assms(3)]) (use assms(4,5) f b wake_bound [OF assms(3)] sig in
      \<open>auto simp: p put_waits_def split: if_splits elim!: at_pc_keep\<close>)
qed

lemma get_ready_iff: "inv_lists a mx off gh gs ps s \<Longrightarrow> gh = mq_get_head (sq s) \<Longrightarrow> get_ready (sq s) \<longleftrightarrow> gs \<noteq> []"
  using chain_head by (auto simp: inv_lists_def mq_lists_def get_ready_def)

text \<open>Taking a message, with the mutex of the consumers held.\<close>

lemma inv_take:
  assumes "inv_lists a mx off gh gs ps s" "inv_wake s" "gh = mq_get_head (sq s)" "gs \<noteq> []" "get_take (sq s) = (msg, q)"
    "\<And>t. put_pending (f t) = put_pending (spc s t)" "\<And>t. swapping (f t) = None" "\<And>t c. f t \<noteq> Get_cnt c"
    "\<And>t. f t = spc s t \<or> f t = Idle \<and> (\<exists>c. spc s t = Get_cnt c)"
  shows "\<exists>gs. inv_lists a mx off gh gs ps (s\<lparr>sq := q, spc := f, sowner := None, sgets := sgets s @ [msg]\<rparr>) \<and>
    inv_get gh gs (s\<lparr>sq := q, spc := f, sowner := None, sgets := sgets s @ [msg]\<rparr>) \<and>
    inv_wake (s\<lparr>sq := q, spc := f, sowner := None, sgets := sgets s @ [msg]\<rparr>)"
proof -
  obtain x gs' where gs: "gs = x # gs'" using assms(4) by (cases gs) auto
  have l: "mq_lists a off (mq_get_head (sq s)) (x # gs') ps (pend_set s) (sq s)" using assms(1,3) gs by (simp add: inv_lists_def)
  note T = lists_take [OF l, unfolded assms(5), simplified]
  have p: "f t = Put_sleep m \<longleftrightarrow> spc s t = Put_sleep m" "f t = Get_sleep m \<longleftrightarrow> spc s t = Get_sleep m" "f t = Put_signal \<longleftrightarrow> spc s t = Put_signal"
    "f t = Nonblock \<longleftrightarrow> spc s t = Nonblock" for t m using assms(9) [of t] by auto
  have "mq_full q = mq_full (sq s)" using T by (simp add: mq_full_def)
  then have "inv_wake (s\<lparr>sq := q, spc := f, sowner := None, sgets := sgets s @ [msg]\<rparr>)" using assms(2) T p by (simp add: inv_wake_def at_pc_def)
  moreover have "inv_lists a mx off gh gs' ps (s\<lparr>sq := q, spc := f, sowner := None, sgets := sgets s @ [msg]\<rparr>)"
    by (rule lists_threads [OF assms(1)]) (use assms(1,3,6) T gs in \<open>auto simp: inv_lists_def\<close>)
  moreover have "inv_get gh gs' (s\<lparr>sq := q, spc := f, sowner := None, sgets := sgets s @ [msg]\<rparr>)"
    using assms(3,7,8) T by (simp add: inv_get_def holds_get_def)
  ultimately show ?thesis by blast
qed

lemma inv_swap_run:
  assumes "inv_lists a mx off gh gs ps s" "inv_get gh gs s" "inv_wake s" "spc s t = Get_enter h" "\<not> swap_waits (sq s)" "swap_locked h (sq s) = (cnt, wake, q)"
    "s' = s\<lparr>sq := q, spc := (if wake then wake_put \<circ> (spc s)(t := Get_cnt cnt) else (spc s)(t := Get_cnt cnt))\<rparr>"
  shows "inv_lists a mx off (mq_put_head (sq s)) ps [] s' \<and> inv_get (mq_put_head (sq s)) ps s' \<and> inv_wake s'"
proof -
  have h: "gh = h" "gs = []" "mq_get_head (sq s) = mq_put_head (sq s)" "sowner s = Some t"
    using assms(2,4) by (auto simp: inv_get_def holds_get_def dest: spec [of _ t])
  have l: "mq_lists a off h [] ps (pend_set s) (sq s)" using assms(1) h by (simp add: inv_lists_def)
  note T = lists_swap [OF l assms(6)]
  have other: "\<And>u. u \<noteq> t \<Longrightarrow> \<not> holds_get (spc s u)" using assms(2) h(4) by (auto simp: inv_get_def)
  have pend: "put_pending (spc s' u) = put_pending (spc s u)" for u using assms(4,7) by simp
  have "inv_lists a mx off (mq_put_head (sq s)) ps [] s'"
    using assms(1) T pend h(2) unfolding inv_lists_def pend_set_def by (simp add: assms(7))
  moreover have "inv_get (mq_put_head (sq s)) ps s'" using other h T unfolding inv_get_def assms(7) by (auto simp: holds_get_def)
  moreover have "inv_wake s'"
  proof -
    have a: "spc s' u \<noteq> Put_sleep m" for u m using assms(3,7) T(3) by (cases wake) (auto simp: inv_wake_def)
    have "spc s' u \<noteq> Get_sleep m" for u m using other [of u] assms(7) by (cases "u = t") (auto simp: holds_get_def)
    then show ?thesis using a assms(3) T unfolding inv_wake_def by (auto simp: assms(7))
  qed
  ultimately show ?thesis by blast
qed

definition mq_inv :: "u64 \<Rightarrow> u64 \<Rightarrow> u64 \<Rightarrow> mq_system \<Rightarrow> bool" where
  "mq_inv a mx off s \<longleftrightarrow> (\<exists>gh gs ps. inv_lists a mx off gh gs ps s \<and> inv_get gh gs s) \<and> inv_wake s"

lemma mq_invI: "inv_lists a mx off gh gs ps s \<Longrightarrow> inv_get gh gs s \<Longrightarrow> inv_wake s \<Longrightarrow> mq_inv a mx off s"
  by (auto simp: mq_inv_def)

text \<open>Steps that only move threads, without changing what they are about to put or swap.\<close>

lemma inv_move:
  assumes "inv_lists a mx off gh gs ps s" "inv_get gh gs s" "\<And>t. put_pending (f t) = put_pending (spc s t)" "\<And>t. swapping (f t) = swapping (spc s t)"
    "\<And>t c. f t = Get_cnt c \<longleftrightarrow> spc s t = Get_cnt c" "inv_wake (s\<lparr>spc := f\<rparr>)"
  shows "mq_inv a mx off (s\<lparr>spc := f\<rparr>)"
proof (rule mq_invI [OF _ _ assms(6)])
  show "inv_lists a mx off gh gs ps (s\<lparr>spc := f\<rparr>)" by (rule lists_threads [OF assms(1)]) (use assms(1,3) in \<open>auto simp: inv_lists_def\<close>)
  show "inv_get gh gs (s\<lparr>spc := f\<rparr>)" by (rule get_threads [OF assms(2)]) (use assms(4,5) in auto)
qed

lemma inv_flag:
  assumes "inv_lists a mx off gh gs ps s" "inv_get gh gs s" "\<And>t. put_pending (f t) = put_pending (spc s t)" "\<And>t. swapping (f t) = swapping (spc s t)"
    "\<And>t c. f t = Get_cnt c \<longleftrightarrow> spc s t = Get_cnt c" "inv_wake (s\<lparr>sq := (sq s)\<lparr>mq_nonblock := b\<rparr>, spc := f, snonblock := n\<rparr>)"
  shows "mq_inv a mx off (s\<lparr>sq := (sq s)\<lparr>mq_nonblock := b\<rparr>, spc := f, snonblock := n\<rparr>)"
proof (rule mq_invI [OF _ _ assms(6)])
  show "inv_lists a mx off gh gs ps (s\<lparr>sq := (sq s)\<lparr>mq_nonblock := b\<rparr>, spc := f, snonblock := n\<rparr>)"
    by (rule lists_threads [OF assms(1)]) (use assms(1,3) in \<open>auto simp: inv_lists_def lists_fields\<close>)
  show "inv_get gh gs (s\<lparr>sq := (sq s)\<lparr>mq_nonblock := b\<rparr>, spc := f, snonblock := n\<rparr>)" by (rule get_threads [OF assms(2)]) (use assms(4,5) in auto)
qed

lemma no_owner: "inv_get gh gs s \<Longrightarrow> sowner s = None \<Longrightarrow> swapping (spc s t) = None \<and> spc s t \<noteq> Get_cnt c \<and> gh = mq_get_head (sq s)"
  by (auto simp: inv_get_def holds_get_def)

lemma owner_cnt:
  assumes "inv_get gh gs s" "spc s t = Get_cnt c"
  shows "swapping (spc s u) = None \<and> (spc s u = Get_cnt d \<longrightarrow> u = t) \<and> gh = mq_get_head (sq s) \<and> unat c = length gs"
proof -
  have "\<And>u. holds_get (spc s u) \<Longrightarrow> sowner s = Some u" using assms(1) by (simp add: inv_get_def)
  moreover from this have "sowner s = Some t" using assms(2) by (simp add: holds_get_def)
  ultimately have o: "\<And>u. holds_get (spc s u) \<Longrightarrow> u = t" by auto
  have sw: "swapping (spc s u) = None" for u
  proof (rule ccontr)
    assume "swapping (spc s u) \<noteq> None"
    moreover from this have "u = t" by (intro o) (simp add: holds_get_def)
    ultimately show False using assms(2) by simp
  qed
  moreover have "spc s u = Get_cnt d \<Longrightarrow> u = t" using o [of u] by (simp add: holds_get_def)
  ultimately show ?thesis using assms by (simp add: inv_get_def)
qed

lemma step_inv:
  assumes "mq_step a s s'" "inv_lists a mx off gh gs ps s" "inv_get gh gs s" "inv_wake s"
  shows "mq_inv a mx off s'"
  using assms(1)
proof cases
  case (put_start t msg)
  show ?thesis unfolding put_start(1) by (rule mq_invI [OF inv_put_start [OF assms(2-4) put_start(2,3)]])
next
  case (put_sleep t msg)
  have "inv_wake s'"
    using assms(4) put_sleep(2,3) unfolding inv_wake_def put_sleep(1) by (auto simp: put_waits_def elim!: at_pc_keep split: if_splits)
  then show ?thesis unfolding put_sleep(1) by (intro inv_move [OF assms(2,3)]) (use put_sleep(2) in auto)
next
  case (put_insert t msg)
  show ?thesis unfolding put_insert(1) by (rule mq_invI [OF inv_put_insert [OF assms(2-4) put_insert(2,3)]])
next
  case (put_signal t)
  have "inv_wake s'" unfolding put_signal(1)
    by (rule wake_threads [OF assms(4)]) (use put_signal(2) wake_bound [OF assms(4)] in \<open>auto split: if_splits elim!: at_pc_keep\<close>)
  then show ?thesis unfolding put_signal(1) by (intro inv_move [OF assms(2,3)]) (use put_signal(2) in auto)
next
  case (get_direct t msg q)
  have n: "swapping (spc s u) = None" "spc s u \<noteq> Get_cnt c" "gh = mq_get_head (sq s)" for u c using no_owner [OF assms(3) get_direct(3)] by auto
  have "gs \<noteq> []" using get_ready_iff [OF assms(2) n(3)] get_direct(4) by simp
  moreover have "s' = s\<lparr>sq := q, spc := spc s, sowner := None, sgets := sgets s @ [msg]\<rparr>" using get_direct(1,3) by simp
  ultimately show ?thesis using inv_take [OF assms(2,4) n(3) _ get_direct(5), of "spc s"] n(1,2) unfolding mq_inv_def by blast
next
  case (get_swap t h q)
  have n: "swapping (spc s u) = None" "spc s u \<noteq> Get_cnt c" "gh = mq_get_head (sq s)" for u c using no_owner [OF assms(3) get_swap(3)] by auto
  have g: "gs = []" using get_ready_iff [OF assms(2) n(3)] get_swap(4) by simp
  have q: "h = mq_get_head (sq s)" "q = (sq s)\<lparr>mq_get_head := mq_put_head (sq s)\<rparr>" using get_swap(5) by (auto simp: swap_prepare_def)
  show ?thesis
  proof (rule mq_invI)
    show "inv_lists a mx off gh gs ps s'" unfolding get_swap(1)
      by (rule lists_threads [OF assms(2)]) (use assms(2) q get_swap(2) in \<open>auto simp: inv_lists_def lists_fields\<close>)
    show "inv_get gh gs s'" unfolding get_swap(1) using n g q by (auto simp: inv_get_def holds_get_def)
    have f: "mq_full q = mq_full (sq s)" by (simp add: q mq_full_def)
    show "inv_wake s'" unfolding get_swap(1)
      by (rule wake_threads [OF assms(4)]) (use get_swap(2) f q wake_bound [OF assms(4)] in \<open>auto split: if_splits elim!: at_pc_keep\<close>)
  qed
next
  case (swap_sleep t h)
  have "inv_wake s'"
    using assms(4) swap_sleep(2,3) unfolding inv_wake_def swap_sleep(1) by (auto simp: swap_waits_def elim!: at_pc_keep split: if_splits)
  then show ?thesis unfolding swap_sleep(1) by (intro inv_move [OF assms(2,3)]) (use swap_sleep(2) in auto)
next
  case (swap_run t h cnt wake q)
  show ?thesis using inv_swap_run [OF assms(2-4) swap_run(2-4,1)] by (auto simp: mq_inv_def)
next
  case (get_message t cnt msg q)
  note O = owner_cnt [OF assms(3) get_message(2)]
  have "gs \<noteq> []" using O get_message(3) by (auto simp: word_less_nat_alt)
  moreover have "gh = mq_get_head (sq s)" using O by blast
  moreover have "put_pending (((spc s)(t := Idle)) u) = put_pending (spc s u)" for u using get_message(2) by simp
  moreover have "swapping (((spc s)(t := Idle)) u) = None" for u using O [of u] by simp
  moreover have "((spc s)(t := Idle)) u \<noteq> Get_cnt c" for u c using O [of u c] by auto
  moreover have "((spc s)(t := Idle)) u = spc s u \<or> ((spc s)(t := Idle)) u = Idle \<and> (\<exists>c. spc s u = Get_cnt c)" for u using get_message(2) by simp
  ultimately have "\<exists>gs. inv_lists a mx off gh gs ps s' \<and> inv_get gh gs s' \<and> inv_wake s'"
    unfolding get_message(1) by (intro inv_take [OF assms(2,4) _ _ get_message(4)])
  then show ?thesis by (auto simp: mq_inv_def)
next
  case (get_null t)
  note O = owner_cnt [OF assms(3) get_null(2)]
  have "((spc s)(t := Idle)) u \<noteq> Get_cnt c" for u c using O [of u c] by auto
  then have g: "inv_get gh gs s'" unfolding get_null(1) using O by (simp add: inv_get_def holds_get_def)
  have l: "inv_lists a mx off gh gs ps s'" unfolding get_null(1)
    by (rule lists_threads [OF assms(2)]) (use assms(2) get_null(2) in \<open>auto simp: inv_lists_def\<close>)
  have "inv_wake s'" unfolding get_null(1)
    by (rule wake_threads [OF assms(4)]) (use get_null(2) wake_bound [OF assms(4)] in \<open>auto split: if_splits elim!: at_pc_keep\<close>)
  then show ?thesis by (rule mq_invI [OF l g])
next
  case (set_nonblock t)
  have a: "at_pc s' Nonblock" unfolding set_nonblock(1) by (auto simp: at_pc_def)
  have f: "mq_full (sq s') = mq_full (sq s)" by (simp add: set_nonblock(1) mq_full_def)
  have "inv_wake s'" by (rule wake_threads [OF assms(4)]) (use set_nonblock a f in \<open>auto split: if_splits elim!: at_pc_keep\<close>)
  then show ?thesis unfolding set_nonblock(1) by (intro inv_flag [OF assms(2,3)]) (use set_nonblock(2) in auto)
next
  case (wake_all t)
  have "inv_wake s'" unfolding wake_all(1)
    by (rule wake_threads [OF assms(4)]) (use wake_bound [OF assms(4)] in \<open>auto split: if_splits\<close>)
  then show ?thesis unfolding wake_all(1) by (intro inv_move [OF assms(2,3)]) (use wake_all(2) in auto)
next
  case (set_block t)
  have e: "s' = s\<lparr>sq := (sq s)\<lparr>mq_nonblock := False\<rparr>, spc := spc s, snonblock := snonblock s\<rparr>" using set_block(1) by simp
  have "inv_wake s'" using assms(4) unfolding e inv_wake_def by (auto simp: mq_full_def elim!: at_pc_keep)
  then show ?thesis unfolding e by (intro inv_flag [OF assms(2,3)]) auto
next
  case (spurious t)
  have "inv_wake s'" unfolding spurious(1)
    by (rule wake_threads [OF assms(4)]) (use wake_bound [OF assms(4)] in \<open>auto split: if_splits elim!: at_pc_keep\<close>)
  then show ?thesis unfolding spurious(1) by (intro inv_move [OF assms(2,3)]) auto
qed

lemma mq_reachable_inv: "mq_reachable a mx off s \<Longrightarrow> mq_inv a mx off s"
proof (induction rule: mq_reachable.induct)
  case (start mem s)
  have s: "s = \<lparr>sq = \<lparr>mq_msg_max = mx, mq_msg_cnt = 0, mq_linkoff = off, mq_nonblock = False, mq_get_head = head1 a, mq_put_head = head2 a,
      mq_put_tail = head2 a, mq_mem = mem(head1 a := 0, head2 a := 0)\<rparr>, spc = \<lambda>t. Idle, sowner = None, sputs = [], sgets = [], snonblock = False\<rparr>"
    using start by (auto simp: mq_start_def msgqueue_create_def split: if_splits)
  have "inv_lists a mx off (head1 a) [] [] s" by (simp add: s inv_lists_def mq_lists_def pend_set_def)
  moreover have "inv_get (head1 a) [] s" "inv_wake s" by (simp_all add: s inv_get_def inv_wake_def holds_get_def)
  ultimately show ?case by (rule mq_invI)
next
  case (step s s')
  then show ?case using step_inv unfolding mq_inv_def by blast
qed

text \<open>Two runs on a queue at address 4096 with room for two messages: one put, and one consumer that finds nothing.\<close>

definition demo_start :: mq_system where
  "demo_start = \<lparr>sq = \<lparr>mq_msg_max = 2, mq_msg_cnt = 0, mq_linkoff = 8, mq_nonblock = False, mq_get_head = 4120, mq_put_head = 4128,
     mq_put_tail = 4128, mq_mem = \<lambda>x. 0\<rparr>, spc = \<lambda>t. Idle, sowner = None, sputs = [], sgets = [], snonblock = False\<rparr>"

lemma demo_start_reachable: "mq_reachable 4096 2 8 demo_start"
proof (rule mq_reachable.start)
  have "(\<lambda>x. 0 :: u64)(4120 := 0, 4128 := 0) = (\<lambda>x. 0)" by auto
  then show "mq_start 4096 2 8 (\<lambda>x. 0) = Some demo_start" by (simp add: mq_start_def msgqueue_create_def demo_start_def)
qed

lemma demo_put: "\<exists>s. mq_reachable 4096 2 8 s \<and> sputs s = [100] \<and> sgets s = [] \<and> \<not> snonblock s \<and> mq_msg_cnt (sq s) = 1"
proof -
  let ?s1 = "demo_start\<lparr>sq := put_prepare 100 (sq demo_start), spc := (spc demo_start)(0 := Put_enter 100)\<rparr>"
  let ?s2 = "?s1\<lparr>sq := put_locked 100 (sq ?s1), spc := (spc ?s1)(0 := Put_signal), sputs := sputs ?s1 @ [100]\<rparr>"
  have "mq_step 4096 demo_start ?s1" by (rule mq_step.put_start) (simp_all add: demo_start_def may_put_def)
  moreover have "mq_step 4096 ?s1 ?s2"
    by (rule mq_step.put_insert) (simp_all add: demo_start_def put_waits_def mq_full_def put_prepare_def)
  ultimately have "mq_reachable 4096 2 8 ?s2" using demo_start_reachable mq_reachable.step by blast
  moreover have "sputs ?s2 = [100] \<and> sgets ?s2 = [] \<and> \<not> snonblock ?s2 \<and> mq_msg_cnt (sq ?s2) = 1"
    by (simp add: demo_start_def put_locked_def put_prepare_def Let_def)
  ultimately show ?thesis by blast
qed

lemma demo_sleep: "\<exists>s. mq_reachable 4096 2 8 s \<and> spc s = (\<lambda>t. Idle)(0 := Get_sleep 4120)"
proof -
  let ?s1 = "demo_start\<lparr>sq := (sq demo_start)\<lparr>mq_get_head := 4128\<rparr>, spc := (spc demo_start)(0 := Get_enter 4120), sowner := Some 0\<rparr>"
  let ?s2 = "?s1\<lparr>spc := (spc ?s1)(0 := Get_sleep 4120)\<rparr>"
  have "mq_step 4096 demo_start ?s1" by (rule mq_step.get_swap) (simp_all add: demo_start_def get_ready_def swap_prepare_def)
  moreover have "mq_step 4096 ?s1 ?s2" by (rule mq_step.swap_sleep) (simp_all add: demo_start_def swap_waits_def)
  ultimately have "mq_reachable 4096 2 8 ?s2" using demo_start_reachable mq_reachable.step by blast
  moreover have "spc ?s2 = (\<lambda>t. Idle)(0 := Get_sleep 4120)" by (simp add: demo_start_def)
  ultimately show ?thesis by blast
qed

section \<open>Properties\<close>

text \<open>
  C8: The queue is first in, first out, and loses and doubles nothing, for any number of threads in any interleaving: what was
  got is the beginning of what was put, and the rest is linked in order, first through the list the consumers take from and then
  through the put list, whose length is the message count.
\<close>

theorem mq_fifo:
  assumes "mq_reachable a maxlen linkoff s"
  shows "\<exists>gh gs ps. sputs s = sgets s @ map (\<lambda>l. l - linkoff) (gs @ ps) \<and>
    chain (mq_mem (sq s)) gh gs \<and> chain (mq_mem (sq s)) (mq_put_head (sq s)) ps \<and> distinct (gs @ ps) \<and>
    mq_put_tail (sq s) = last (mq_put_head (sq s) # ps) \<and> unat (mq_msg_cnt (sq s)) = length ps \<and>
    (sowner s = None \<longrightarrow> gh = mq_get_head (sq s))"
proof -
  obtain gh gs ps where i: "inv_lists a maxlen linkoff gh gs ps s" "inv_get gh gs s" using mq_reachable_inv [OF assms] by (auto simp: mq_inv_def)
  have l: "mq_lists a linkoff gh gs ps (pend_set s) (sq s)" using i(1) by (simp add: inv_lists_def)
  show ?thesis
    by (rule exI [of _ gh], rule exI [of _ gs], rule exI [of _ ps])
      (use i l lists_count(1) [OF l] no_owner [OF i(2)] in \<open>simp add: inv_lists_def mq_lists_def del: last.simps\<close>)
qed

theorem mq_fifo_witness:
  "\<exists>s gh gs ps. mq_reachable 4096 2 8 s \<and> sputs s = [100] \<and> sgets s = [] \<and> [100] = map (\<lambda>l. l - 8) (gs @ ps) \<and>
     chain (mq_mem (sq s)) gh gs \<and> chain (mq_mem (sq s)) (mq_put_head (sq s)) ps \<and> length ps = 1"
proof -
  obtain s where s: "mq_reachable 4096 2 8 s" "sputs s = [100]" "sgets s = []" "mq_msg_cnt (sq s) = 1" using demo_put by blast
  show ?thesis using s mq_fifo [OF s(1)] by fastforce
qed

text \<open>
  Bounded: as long as the queue was never made non-blocking and has a limit, its put list never has more than \<^verbatim>\<open>maxlen\<close>
  messages; a limit of 0 means no limit, a put never waits then.
\<close>

theorem mq_bounded:
  assumes "mq_reachable a maxlen linkoff s" "\<not> snonblock s"
  shows "(maxlen \<noteq> 0 \<longrightarrow> mq_msg_cnt (sq s) \<le> maxlen) \<and> (maxlen = 0 \<longrightarrow> \<not> put_waits (sq s)) \<and> \<not> mq_nonblock (sq s)"
proof -
  obtain gh gs ps where i: "inv_lists a maxlen linkoff gh gs ps s" "inv_wake s" using mq_reachable_inv [OF assms(1)] by (auto simp: mq_inv_def)
  have m: "mq_msg_max (sq s) = maxlen" using i(1) by (simp add: inv_lists_def)
  have "\<not> mq_full (sq s)" if "maxlen = 0" unfolding mq_full_def m that by (simp add: not_less)
  then show ?thesis using wake_bound [OF i(2) assms(2)] m by (auto simp: put_waits_def)
qed

theorem mq_bounded_witness: "\<exists>s. mq_reachable 4096 2 8 s \<and> sputs s = [100] \<and> mq_msg_cnt (sq s) \<le> 2 \<and> \<not> mq_nonblock (sq s)"
proof -
  obtain s where s: "mq_reachable 4096 2 8 s" "sputs s = [100]" "\<not> snonblock s" using demo_put by blast
  show ?thesis using s mq_bounded [OF s(1,3)] by auto
qed

text \<open>
  C23: No wake-up is lost: a producer that sleeps finds the queue full, a consumer that sleeps finds no message unless the
  producer that brought it is about to signal, and neither sleeps in a non-blocking queue unless the thread that made it so
  is about to wake everybody. So when nothing but sleepers is left, producers and consumers do not sleep at the same time.
\<close>

theorem mq_no_lost_wakeup:
  assumes "mq_reachable a maxlen linkoff s"
  shows "(spc s t = Put_sleep msg \<longrightarrow> put_waits (sq s) \<or> (\<exists>u. spc s u = Nonblock)) \<and>
    (spc s t = Get_sleep h \<longrightarrow> swap_waits (sq s) \<and> sputs s = sgets s \<or> (\<exists>u. spc s u \<in> {Put_signal, Nonblock})) \<and>
    ((\<forall>u. spc s u \<notin> {Put_signal, Nonblock}) \<longrightarrow> \<not> (\<exists>u v m h. spc s u = Put_sleep m \<and> spc s v = Get_sleep h))"
proof -
  obtain gh gs ps where i: "inv_lists a maxlen linkoff gh gs ps s" "inv_get gh gs s" "inv_wake s" using mq_reachable_inv [OF assms] by (auto simp: mq_inv_def)
  have l: "mq_lists a linkoff gh gs ps (pend_set s) (sq s)" using i(1) by (simp add: inv_lists_def)
  have p: "mq_full (sq s) \<and> (mq_nonblock (sq s) \<longrightarrow> (\<exists>u. spc s u = Nonblock))" if "spc s t = Put_sleep msg" for t msg
    using i(3) that by (auto simp: inv_wake_def at_pc_def)
  have g: "(mq_msg_cnt (sq s) \<noteq> 0 \<longrightarrow> (\<exists>u. spc s u = Put_signal)) \<and> (mq_nonblock (sq s) \<longrightarrow> (\<exists>u. spc s u = Nonblock))" if "spc s t = Get_sleep h" for t h
    using i(3) that by (auto simp: inv_wake_def at_pc_def)
  have e: "sputs s = sgets s" if "spc s t = Get_sleep h" "mq_msg_cnt (sq s) = 0" for t h
  proof -
    have sw: "swapping (spc s t) = Some h" using that(1) by simp
    have "\<forall>t h. swapping (spc s t) = Some h \<longrightarrow> gs = []" using i(2) by (simp add: inv_get_def)
    then have "gs = []" using sw by blast
    then show ?thesis using i(1) that(2) lists_count(2) [OF l] by (simp add: inv_lists_def)
  qed
  have no: "\<not> (\<exists>u v m h. spc s u = Put_sleep m \<and> spc s v = Get_sleep h)" if "\<forall>u. spc s u \<notin> {Put_signal, Nonblock}"
  proof -
    have "mq_msg_cnt (sq s) = 0" if "spc s v = Get_sleep h" for v h using g [OF that] \<open>\<forall>u. spc s u \<notin> _\<close> by blast
    moreover have "mq_msg_cnt (sq s) \<noteq> 0" if "spc s u = Put_sleep m" for u m using p [OF that] by (auto simp: mq_full_def)
    ultimately show ?thesis by blast
  qed
  have "spc s t = Put_sleep msg \<Longrightarrow> put_waits (sq s) \<or> (\<exists>u. spc s u = Nonblock)" using p by (auto simp: put_waits_def)
  moreover have "spc s t = Get_sleep h \<Longrightarrow> swap_waits (sq s) \<and> sputs s = sgets s \<or> (\<exists>u. spc s u \<in> {Put_signal, Nonblock})"
    using g [of t h] e [of t h] unfolding swap_waits_def by blast
  ultimately show ?thesis using no by blast
qed

theorem mq_no_lost_wakeup_witness: "\<exists>s. mq_reachable 4096 2 8 s \<and> spc s 0 = Get_sleep 4120 \<and> swap_waits (sq s) \<and> sputs s = sgets s"
proof -
  obtain s where s: "mq_reachable 4096 2 8 s" "spc s = (\<lambda>t. Idle)(0 := Get_sleep 4120)" using demo_sleep by blast
  then have "spc s 0 = Get_sleep 4120" "\<not> (\<exists>u. spc s u \<in> {Put_signal, Nonblock})" by auto
  then show ?thesis using s(1) mq_no_lost_wakeup [OF s(1), of 0 0 4120] by blast
qed

end
