(* ===== verification/Thread_Pool.thy ===== *)
theory Thread_Pool
  imports WF_Prelude
begin

text \<open>
  The thread pool (\<^verbatim>\<open>workflow/src/kernel/thrdpool.c\<close>). The mutex of the pool is held for a few lines at a time and never across a wait, so every
  critical section is one step; between steps any other thread may run. A thread that waits on the condition variable of the pool sleeps until a
  signal, the broadcast, or no reason at all wakes it. The intrusive list of tasks is a list (\<open>Kernel_List\<close> shows that it behaves like one). A task is a
  value of any type that says what is left of it to run: the code of a task may go on, schedule other tasks, add threads, or destroy the pool, and return.
  Using the pool after it was freed, its mutex after it was destroyed, or joining a thread twice is undefined (\<open>None\<close>).
\<close>

section \<open>State\<close>

text \<open>\<open>th_locks\<close>: the mutex, the condition variable and the key exist.\<close>

record 'x thrdpool =
  th_task_queue :: "'x list"
  th_nthreads :: nat
  th_stacksize :: nat
  th_tid :: nat
  th_terminate :: bool
  th_locks :: bool

text \<open>
  Where a thread of the pool is. \<open>W_top\<close>: at the beginning of the loop or behind the wait in it. \<open>W_sleep\<close>: in the wait. \<open>W_run x\<close>: in its task.
  \<open>W_check\<close>: behind its task. \<open>W_destroy x\<close>: its task is inside \<^verbatim>\<open>thrdpool_destroy\<close>. \<open>W_join t\<close>: about to join the thread \<open>t\<close>. Then it has ended:
  \<open>W_done\<close> and nobody has joined it, \<open>W_joined\<close>, or \<open>W_gone\<close> as a detached thread.
\<close>

datatype 'x worker = W_top | W_sleep | W_run 'x | W_check | W_destroy 'x | W_join nat | W_done | W_joined | W_gone

text \<open>Where the caller of \<^verbatim>\<open>thrdpool_destroy\<close> is: \<open>D_check\<close> and \<open>D_wait\<close> are the loop that waits for the threads.\<close>

datatype d_phase = D_check | D_wait | D_join | D_pend | D_over

text \<open>
  \<open>ps_creating\<close>: the number of threads that \<^verbatim>\<open>thrdpool_create\<close> is still going to create. \<open>ps_destroyer\<close>: the thread of the pool that destroys it,
  or none for another thread, and where it is. The last three fields record what has happened: the tasks that were scheduled, started and handed
  to \<^verbatim>\<open>pending\<close>, in their order.
\<close>

record 'x pool_sys =
  ps_pool :: "'x thrdpool option"
  ps_workers :: "nat \<rightharpoonup> 'x worker"
  ps_creating :: "nat option"
  ps_destroyer :: "(nat option \<times> d_phase) option"
  ps_detached :: "nat set"
  ps_scheduled :: "'x list"
  ps_started :: "'x list"
  ps_pended :: "'x list"

definition locked :: "'x pool_sys \<Rightarrow> 'x thrdpool option" where
  "locked S = do { P \<leftarrow> ps_pool S; if th_locks P then Some P else None }"

section \<open>The threads of the pool\<close>

text \<open>\<^verbatim>\<open>--pool->nthreads\<close> on a \<^verbatim>\<open>size_t\<close>.\<close>

definition size_pred :: "nat \<Rightarrow> nat" where
  "size_pred n = (if n = 0 then 2 ^ 64 - 1 else n - 1)"

definition thread_end :: "nat \<Rightarrow> 'x pool_sys \<Rightarrow> 'x worker" where
  "thread_end self S = (if self \<in> ps_detached S then W_gone else W_done)"

text \<open>\<^verbatim>\<open>pthread_cond_signal(pool->terminate)\<close>.\<close>

definition signal_terminate :: "'x pool_sys \<Rightarrow> 'x pool_sys" where
  "signal_terminate S = (case ps_destroyer S of Some (c, D_wait) \<Rightarrow> S\<lparr>ps_destroyer := Some (c, D_check)\<rparr> | _ \<Rightarrow> S)"

text \<open>Behind the loop, with the mutex, up to the unlock: the thread leaves itself to be joined by the next one.\<close>

definition routine_leave :: "nat \<Rightarrow> 'x thrdpool \<Rightarrow> 'x pool_sys \<Rightarrow> 'x pool_sys" where
  "routine_leave self P S =
     (let P' = P\<lparr>th_tid := self, th_nthreads := size_pred (th_nthreads P)\<rparr>;
          S' = S\<lparr>ps_pool := Some P', ps_workers := (ps_workers S)(self \<mapsto> if th_tid P \<noteq> 0 then W_join (th_tid P) else thread_end self S)\<rparr>
      in if th_nthreads P' = 0 then signal_terminate S' else S')"

text \<open>From the lock at the beginning of the loop to the wait, to the unlock before the task, or to the unlock at the end.\<close>

definition routine_top :: "nat \<Rightarrow> 'x pool_sys \<Rightarrow> 'x pool_sys option" where
  "routine_top self S =
     do { P \<leftarrow> locked S;
          if th_terminate P then Some (routine_leave self P S)
          else (case th_task_queue P of
                  [] \<Rightarrow> Some (S\<lparr>ps_workers := (ps_workers S)(self \<mapsto> W_sleep)\<rparr>)
                | x # q \<Rightarrow> Some (S\<lparr>ps_pool := Some (P\<lparr>th_task_queue := q\<rparr>), ps_workers := (ps_workers S)(self \<mapsto> W_run x), ps_started := ps_started S @ [x]\<rparr>)) }"

text \<open>Behind the task: \<^verbatim>\<open>if (pool->nthreads == 0)\<close>, without the mutex.\<close>

definition routine_check :: "nat \<Rightarrow> 'x pool_sys \<Rightarrow> 'x pool_sys option" where
  "routine_check self S =
     do { P \<leftarrow> ps_pool S;
          Some (if th_nthreads P = 0 then S\<lparr>ps_pool := None, ps_workers := (ps_workers S)(self \<mapsto> thread_end self S)\<rparr>
                else S\<lparr>ps_workers := (ps_workers S)(self \<mapsto> W_top)\<rparr>) }"

text \<open>\<^verbatim>\<open>pthread_join\<close> of a thread that has ended.\<close>

definition join_thread :: "nat \<Rightarrow> 'x pool_sys \<Rightarrow> 'x pool_sys option" where
  "join_thread t S = (case ps_workers S t of Some W_done \<Rightarrow> Some (S\<lparr>ps_workers := (ps_workers S)(t \<mapsto> W_joined)\<rparr>) | _ \<Rightarrow> None)"

definition routine_join :: "nat \<Rightarrow> nat \<Rightarrow> 'x pool_sys \<Rightarrow> 'x pool_sys option" where
  "routine_join self t S = do { S \<leftarrow> join_thread t S; Some (S\<lparr>ps_workers := (ps_workers S)(self \<mapsto> thread_end self S)\<rparr>) }"

section \<open>Scheduling, creating, destroying\<close>

text \<open>A signal wakes one of the sleeping threads if there is one: \<open>w\<close> is the one that the system chooses.\<close>

definition signal_cond :: "nat option \<Rightarrow> 'x pool_sys \<Rightarrow> 'x pool_sys" where
  "signal_cond w S = (case w of Some t \<Rightarrow> S\<lparr>ps_workers := (ps_workers S)(t \<mapsto> W_top)\<rparr> | None \<Rightarrow> S)"

definition chosen :: "nat option \<Rightarrow> 'x pool_sys \<Rightarrow> bool" where
  "chosen w S \<longleftrightarrow> (case w of Some t \<Rightarrow> ps_workers S t = Some W_sleep | None \<Rightarrow> Some W_sleep \<notin> range (ps_workers S))"

text \<open>\<^verbatim>\<open>__thrdpool_schedule\<close> has the memory of the entry; \<^verbatim>\<open>thrdpool_schedule\<close> allocates it.\<close>

definition schedule_entry :: "'x \<Rightarrow> nat option \<Rightarrow> 'x pool_sys \<Rightarrow> 'x pool_sys option" where
  "schedule_entry x w S =
     do { P \<leftarrow> locked S;
          Some (signal_cond w (S\<lparr>ps_pool := Some (P\<lparr>th_task_queue := th_task_queue P @ [x]\<rparr>), ps_scheduled := ps_scheduled S @ [x]\<rparr>)) }"

definition thrdpool_schedule :: "bool \<Rightarrow> 'x \<Rightarrow> nat option \<Rightarrow> 'x pool_sys \<Rightarrow> (int \<times> 'x pool_sys) option" where
  "thrdpool_schedule mem x w S = (if mem then map_option (Pair 0) (schedule_entry x w S) else Some (- 1, S))"

text \<open>\<open>r_attr\<close> and \<open>r\<close> are what \<^verbatim>\<open>pthread_attr_init\<close> and \<^verbatim>\<open>pthread_create\<close> return, \<open>t\<close> is the new thread; the result is 0 or the error number.\<close>

definition thrdpool_increase :: "int \<Rightarrow> int \<Rightarrow> nat \<Rightarrow> 'x pool_sys \<Rightarrow> (int \<times> 'x pool_sys) option" where
  "thrdpool_increase r_attr r t S =
     (if r_attr \<noteq> 0 then Some (r_attr, S)
      else do { P \<leftarrow> locked S;
                Some (if r = 0 then (0, S\<lparr>ps_pool := Some (P\<lparr>th_nthreads := th_nthreads P + 1\<rparr>), ps_workers := (ps_workers S)(t \<mapsto> W_top)\<rparr>) else (r, S)) })"

text \<open>\<^verbatim>\<open>__thrdpool_terminate\<close> up to its loop; \<open>c\<close> is the calling thread if it belongs to the pool.\<close>

definition wake_all :: "(nat \<rightharpoonup> 'x worker) \<Rightarrow> nat \<rightharpoonup> 'x worker" where
  "wake_all W t = (if W t = Some W_sleep then Some W_top else W t)"

definition thrdpool_terminate :: "nat option \<Rightarrow> 'x pool_sys \<Rightarrow> 'x pool_sys option" where
  "thrdpool_terminate c S =
     do { P \<leftarrow> locked S;
          Some (S\<lparr>ps_pool := Some (P\<lparr>th_terminate := True, th_nthreads := (if c = None then th_nthreads P else size_pred (th_nthreads P))\<rparr>),
                  ps_workers := wake_all (ps_workers S), ps_detached := ps_detached S \<union> set_option c, ps_destroyer := Some (c, D_check)\<rparr>) }"

definition terminate_check :: "nat option \<Rightarrow> 'x pool_sys \<Rightarrow> 'x pool_sys option" where
  "terminate_check c S = do { P \<leftarrow> locked S; Some (S\<lparr>ps_destroyer := Some (c, if 0 < th_nthreads P then D_wait else D_join)\<rparr>) }"

definition terminate_join :: "nat option \<Rightarrow> 'x pool_sys \<Rightarrow> 'x pool_sys option" where
  "terminate_join c S =
     do { P \<leftarrow> ps_pool S;
          S \<leftarrow> (if th_tid P \<noteq> 0 then join_thread (th_tid P) S else Some S);
          Some (S\<lparr>ps_destroyer := Some (c, D_pend)\<rparr>) }"

text \<open>\<^verbatim>\<open>thrdpool_destroy\<close> behind \<^verbatim>\<open>__thrdpool_terminate\<close>: one round of the loop, or what is behind the loop.\<close>

definition back_to_task :: "nat option \<Rightarrow> (nat \<rightharpoonup> 'x worker) \<Rightarrow> nat \<rightharpoonup> 'x worker" where
  "back_to_task c W = (case c of Some t \<Rightarrow> (case W t of Some (W_destroy x) \<Rightarrow> W(t \<mapsto> W_run x) | _ \<Rightarrow> W) | None \<Rightarrow> W)"

definition destroy_pend :: "nat option \<Rightarrow> 'x pool_sys \<Rightarrow> 'x pool_sys option" where
  "destroy_pend c S =
     do { P \<leftarrow> ps_pool S;
          (case th_task_queue P of
             x # q \<Rightarrow> Some (S\<lparr>ps_pool := Some (P\<lparr>th_task_queue := q\<rparr>), ps_pended := ps_pended S @ [x]\<rparr>)
           | [] \<Rightarrow> Some (S\<lparr>ps_pool := (if c = None then None else Some (P\<lparr>th_locks := False\<rparr>)), ps_workers := back_to_task c (ps_workers S),
                         ps_destroyer := Some (c, D_over)\<rparr>)) }"

text \<open>
  \<^verbatim>\<open>thrdpool_create\<close> up to the loop of \<^verbatim>\<open>__thrdpool_create_threads\<close>; the arguments are what \<^verbatim>\<open>malloc\<close> and the initialisations return, and the error
  number is the result where it fails.
\<close>

definition thrdpool_init_locks :: "int \<Rightarrow> int \<Rightarrow> int" where
  "thrdpool_init_locks r_mutex r_cond = (if r_mutex = 0 then r_cond else r_mutex)"

definition thrdpool_create :: "bool \<Rightarrow> int \<Rightarrow> int \<Rightarrow> int \<Rightarrow> int \<Rightarrow> nat \<Rightarrow> nat \<Rightarrow> errno + 'x pool_sys" where
  "thrdpool_create mem r_mutex r_cond r_key r_attr nthreads stacksize =
     (if \<not> mem then Inl ENOMEM
      else if thrdpool_init_locks r_mutex r_cond \<noteq> 0 then Inl (EOTHER (thrdpool_init_locks r_mutex r_cond))
      else if r_key \<noteq> 0 then Inl (EOTHER r_key)
      else if r_attr \<noteq> 0 then Inl (EOTHER r_attr)
      else Inr \<lparr>ps_pool = Some \<lparr>th_task_queue = [], th_nthreads = 0, th_stacksize = stacksize, th_tid = 0, th_terminate = False, th_locks = True\<rparr>,
                ps_workers = Map.empty, ps_creating = Some nthreads, ps_destroyer = None, ps_detached = {},
                ps_scheduled = [], ps_started = [], ps_pended = []\<rparr>)"

text \<open>One round of the loop of \<^verbatim>\<open>__thrdpool_create_threads\<close>: a thread that cannot be created ends the pool; all being created, the pool is returned.\<close>

definition create_threads :: "int \<Rightarrow> nat \<Rightarrow> nat \<Rightarrow> 'x pool_sys \<Rightarrow> 'x pool_sys option" where
  "create_threads r t nthreads S =
     do { P \<leftarrow> ps_pool S;
          if th_nthreads P < nthreads then
            (if r = 0 then Some (S\<lparr>ps_pool := Some (P\<lparr>th_nthreads := th_nthreads P + 1\<rparr>), ps_workers := (ps_workers S)(t \<mapsto> W_top)\<rparr>)
             else thrdpool_terminate None S)
          else Some (S\<lparr>ps_creating := None\<rparr>) }"

section \<open>Runs\<close>

text \<open>
  Who may call the functions of the pool: another thread once the pool was created and as long as nobody destroys it, and the task of a thread of the pool
  at any time until it has destroyed the pool itself.
\<close>

definition may_call :: "nat option \<Rightarrow> 'x pool_sys \<Rightarrow> bool" where
  "may_call c S \<longleftrightarrow> (case c of None \<Rightarrow> ps_creating S = None \<and> ps_destroyer S = None
                          | Some t \<Rightarrow> (\<exists>x. ps_workers S t = Some (W_run x)) \<and> t \<notin> ps_detached S)"

definition enter_destroy :: "nat option \<Rightarrow> (nat \<rightharpoonup> 'x worker) \<Rightarrow> nat \<rightharpoonup> 'x worker" where
  "enter_destroy c W = (case c of Some t \<Rightarrow> (case W t of Some (W_run x) \<Rightarrow> W(t \<mapsto> W_destroy x) | _ \<Rightarrow> W) | None \<Rightarrow> W)"

definition has_ended :: "'x worker option \<Rightarrow> bool" where
  "has_ended w \<longleftrightarrow> (case w of None \<Rightarrow> True | Some w \<Rightarrow> w = W_done \<or> w = W_joined \<or> w = W_gone)"

text \<open>What the threads of the pool and the caller of \<^verbatim>\<open>thrdpool_destroy\<close> do on their own.\<close>

inductive pool_own :: "'x pool_sys \<Rightarrow> 'x pool_sys \<Rightarrow> bool" where
  top: "ps_workers S t = Some W_top \<Longrightarrow> routine_top t S = Some S' \<Longrightarrow> pool_own S S'"
| check: "ps_workers S t = Some W_check \<Longrightarrow> routine_check t S = Some S' \<Longrightarrow> pool_own S S'"
| join: "ps_workers S t = Some (W_join u) \<Longrightarrow> has_ended (ps_workers S u) \<Longrightarrow> routine_join t u S = Some S' \<Longrightarrow> pool_own S S'"
| d_check: "ps_destroyer S = Some (c, D_check) \<Longrightarrow> terminate_check c S = Some S' \<Longrightarrow> pool_own S S'"
| d_join: "ps_destroyer S = Some (c, D_join) \<Longrightarrow> (\<And>P. ps_pool S = Some P \<Longrightarrow> th_tid P \<noteq> 0 \<Longrightarrow> has_ended (ps_workers S (th_tid P))) \<Longrightarrow>
    terminate_join c S = Some S' \<Longrightarrow> pool_own S S'"

text \<open>A task returns, and \<^verbatim>\<open>pending\<close> gets the tasks that are left.\<close>

inductive pool_work :: "'x pool_sys \<Rightarrow> 'x pool_sys \<Rightarrow> bool" where
  own: "pool_own S S' \<Longrightarrow> pool_work S S'"
| return: "ps_workers S t = Some (W_run x) \<Longrightarrow> pool_work S (S\<lparr>ps_workers := (ps_workers S)(t \<mapsto> W_check)\<rparr>)"
| d_pend: "ps_destroyer S = Some (c, D_pend) \<Longrightarrow> destroy_pend c S = Some S' \<Longrightarrow> pool_work S S'"

text \<open>A wait ends for no reason, and \<^verbatim>\<open>thrdpool_create\<close> creates the threads. A new thread is one that was never there before.\<close>

inductive pool_idle :: "'x pool_sys \<Rightarrow> 'x pool_sys \<Rightarrow> bool" where
  wake: "ps_workers S t = Some W_sleep \<Longrightarrow> pool_idle S (S\<lparr>ps_workers := (ps_workers S)(t \<mapsto> W_top)\<rparr>)"
| d_wake: "ps_destroyer S = Some (c, D_wait) \<Longrightarrow> pool_idle S (S\<lparr>ps_destroyer := Some (c, D_check)\<rparr>)"
| create: "ps_creating S = Some n \<Longrightarrow> ps_destroyer S = None \<Longrightarrow> ps_workers S t = None \<Longrightarrow> t \<noteq> 0 \<Longrightarrow> create_threads r t n S = Some S' \<Longrightarrow> pool_idle S S'"

text \<open>A task goes on with its code, and the functions of the pool are called.\<close>

inductive pool_step :: "'x pool_sys \<Rightarrow> 'x pool_sys \<Rightarrow> bool" where
  work: "pool_work S S' \<Longrightarrow> pool_step S S'"
| idle: "pool_idle S S' \<Longrightarrow> pool_step S S'"
| go_on: "ps_workers S t = Some (W_run x) \<Longrightarrow> pool_step S (S\<lparr>ps_workers := (ps_workers S)(t \<mapsto> W_run y)\<rparr>)"
| schedule: "may_call c S \<Longrightarrow> chosen w S \<Longrightarrow> thrdpool_schedule mem x w S = Some (r, S') \<Longrightarrow> pool_step S S'"
| increase: "may_call c S \<Longrightarrow> ps_workers S t = None \<Longrightarrow> t \<noteq> 0 \<Longrightarrow> thrdpool_increase r_attr r t S = Some (r', S') \<Longrightarrow> pool_step S S'"
| destroy: "may_call c S \<Longrightarrow> ps_destroyer S = None \<Longrightarrow> thrdpool_terminate c (S\<lparr>ps_workers := enter_destroy c (ps_workers S)\<rparr>) = Some S' \<Longrightarrow> pool_step S S'"

inductive pool_run :: "'x pool_sys \<Rightarrow> 'x pool_sys \<Rightarrow> bool" for S0 :: "'x pool_sys" where
  start: "pool_run S0 S0"
| step: "pool_run S0 S \<Longrightarrow> pool_step S S' \<Longrightarrow> pool_run S0 S'"

end
