(* ===== verification/Executor.thy ===== *)
theory Executor
  imports Thread_Pool "HOL-Library.Multiset"
begin

text \<open>
  The executor (\<^verbatim>\<open>workflow/src/kernel/Executor.cc\<close>) runs sessions of named queues on the threads of a pool (\<open>Thread_Pool\<close>). Every queue has a list of sessions
  under a mutex of its own. The pool never has more than one task for a queue: the task takes the first session, schedules itself again if more sessions are left, and
  then executes and handles the session without the mutex. The mutex of the queue is held around the calls of the pool, so everything between its lock and its unlock is one step.
\<close>

section \<open>State\<close>

text \<open>
  A session together with its queue (\<^verbatim>\<open>session->queue\<close>). What is left of a task of the pool: all of \<^verbatim>\<open>executor_thread_routine\<close>, \<^verbatim>\<open>execute\<close> and \<^verbatim>\<open>handle\<close> of
  the session, or the rest of \<^verbatim>\<open>handle\<close>.
\<close>

type_synonym session = "nat \<times> nat"

datatype exec_pc = X_enter nat | X_execute session | X_handle session

text \<open>
  \<open>ex_queues q\<close>: the sessions in \<^verbatim>\<open>task_list\<close> of the queue \<open>q\<close>. The other fields record what has happened: the sessions that were dispatched, those that
  ended at once with \<^verbatim>\<open>ES_STATE_ERROR\<close>, those that \<^verbatim>\<open>request\<close> accepted, those that
  threads have taken, those whose \<^verbatim>\<open>handle\<close> was called with \<^verbatim>\<open>ES_STATE_FINISHED\<close>, and with \<^verbatim>\<open>ES_STATE_CANCELED\<close>.
\<close>

record exec_sys =
  ex_pool :: "exec_pc pool_sys"
  ex_queues :: "nat \<Rightarrow> nat list"
  ex_dispatched :: "session list"
  ex_failed :: "session list"
  ex_accepted :: "session list"
  ex_taken :: "session list"
  ex_finished :: "session list"
  ex_canceled :: "session list"

section \<open>Operations\<close>

definition Executor_init :: "bool \<Rightarrow> int \<Rightarrow> int \<Rightarrow> int \<Rightarrow> int \<Rightarrow> nat \<Rightarrow> errno + exec_sys" where
  "Executor_init mem r_mutex r_cond r_key r_attr nthreads =
     (if nthreads = 0 then Inl EINVAL
      else (case thrdpool_create mem r_mutex r_cond r_key r_attr nthreads 0 of
              Inl e \<Rightarrow> Inl e
            | Inr S \<Rightarrow> Inr \<lparr>ex_pool = S, ex_queues = (\<lambda>_. []), ex_dispatched = [], ex_failed = [], ex_accepted = [], ex_taken = [], ex_finished = [], ex_canceled = []\<rparr>))"

definition ExecQueue_init :: "int \<Rightarrow> nat \<Rightarrow> exec_sys \<Rightarrow> int \<times> exec_sys" where
  "ExecQueue_init r_mutex q E = (if r_mutex = 0 then (0, E\<lparr>ex_queues := (ex_queues E)(q := [])\<rparr>) else (- 1, E))"

text \<open>\<^verbatim>\<open>executor_thread_routine\<close> up to the unlock, on the thread \<open>t\<close>; \<open>w\<close> is the thread that the signal of the pool wakes.\<close>

definition executor_thread_routine :: "nat \<Rightarrow> nat \<Rightarrow> nat option \<Rightarrow> exec_sys \<Rightarrow> exec_sys option" where
  "executor_thread_routine t q w E =
     (case ex_queues E q of
        [] \<Rightarrow> None
      | s # rest \<Rightarrow>
          do { let S = (ex_pool E)\<lparr>ps_workers := (ps_workers (ex_pool E))(t \<mapsto> W_run (X_execute (q, s)))\<rparr>;
               S \<leftarrow> (if rest \<noteq> [] then schedule_entry (X_enter q) w S else Some S);
               Some (E\<lparr>ex_pool := S, ex_queues := (ex_queues E)(q := rest), ex_taken := ex_taken E @ [(q, s)]\<rparr>) })"

text \<open>\<^verbatim>\<open>request\<close>; \<open>mem\<close> and \<open>mem'\<close> say whether there is memory for the entry and for the one of the pool.\<close>

definition request :: "bool \<Rightarrow> bool \<Rightarrow> nat option \<Rightarrow> session \<Rightarrow> exec_sys \<Rightarrow> (int \<times> exec_sys) option" where
  "request mem mem' w x E =
     (if \<not> mem then Some (- 1, E)
      else let E' = E\<lparr>ex_queues := (ex_queues E)(fst x := ex_queues E (fst x) @ [snd x]), ex_accepted := ex_accepted E @ [x]\<rparr> in
        if ex_queues E (fst x) = [] then
          do { (r, S) \<leftarrow> thrdpool_schedule mem' (X_enter (fst x)) w (ex_pool E);
               Some (if r < 0 then (- 1, E) else (0, E'\<lparr>ex_pool := S\<rparr>)) }
        else Some (0, E'))"

text \<open>\<^verbatim>\<open>ExecRequest::dispatch\<close>.\<close>

definition ExecRequest_dispatch :: "bool \<Rightarrow> bool \<Rightarrow> nat option \<Rightarrow> session \<Rightarrow> exec_sys \<Rightarrow> exec_sys option" where
  "ExecRequest_dispatch mem mem' w x E =
     do { (r, E) \<leftarrow> request mem mem' w x (E\<lparr>ex_dispatched := ex_dispatched E @ [x]\<rparr>);
          Some (if r < 0 then E\<lparr>ex_failed := ex_failed E @ [x]\<rparr> else E) }"

text \<open>
  \<^verbatim>\<open>executor_thread_routine\<close> behind the unlock: \<^verbatim>\<open>execute\<close> has returned and \<^verbatim>\<open>handle\<close> is called, and the task returns to the pool.
\<close>

definition session_executed :: "nat \<Rightarrow> session \<Rightarrow> exec_sys \<Rightarrow> exec_sys" where
  "session_executed t x E =
     E\<lparr>ex_pool := (ex_pool E)\<lparr>ps_workers := (ps_workers (ex_pool E))(t \<mapsto> W_run (X_handle x))\<rparr>, ex_finished := ex_finished E @ [x]\<rparr>"

definition session_handled :: "nat \<Rightarrow> exec_sys \<Rightarrow> exec_sys" where
  "session_handled t E = E\<lparr>ex_pool := (ex_pool E)\<lparr>ps_workers := (ps_workers (ex_pool E))(t \<mapsto> W_check)\<rparr>\<rparr>"

text \<open>
  Cancelling. \<^verbatim>\<open>handle\<close> with \<^verbatim>\<open>ES_STATE_CANCELED\<close> runs \<^verbatim>\<open>subtask_done\<close> of the session, and with it the callback and the dispatch of the next task of its series: \<open>h x\<close> are the requests to
  this executor that the handling of \<open>x\<close> dispatches, in their order, with what there is of memory. No thread of the pool is left then, so a signal wakes nobody.
\<close>

type_synonym handling = "session \<Rightarrow> (bool \<times> bool \<times> session) list"

fun dispatch_all :: "(bool \<times> bool \<times> session) list \<Rightarrow> exec_sys \<Rightarrow> exec_sys option" where
  "dispatch_all [] E = Some E"
| "dispatch_all ((mem, mem', x) # rs) E = do { E \<leftarrow> ExecRequest_dispatch mem mem' None x E; dispatch_all rs E }"

definition handle_canceled :: "handling \<Rightarrow> session \<Rightarrow> exec_sys \<Rightarrow> exec_sys option" where
  "handle_canceled h x E = dispatch_all (h x) (E\<lparr>ex_canceled := ex_canceled E @ [x]\<rparr>)"

text \<open>The loop of \<^verbatim>\<open>executor_cancel_tasks\<close>: \<^verbatim>\<open>tmp\<close> is the next session, or the head of the list, before the session is handled.\<close>

partial_function (option) cancel_sessions :: "handling \<Rightarrow> nat \<Rightarrow> exec_sys \<Rightarrow> exec_sys option" where
  "cancel_sessions h q E =
     (case ex_queues E q of
        [] \<Rightarrow> Some E
      | s # rest \<Rightarrow>
          do { E \<leftarrow> handle_canceled h (q, s) (E\<lparr>ex_queues := (ex_queues E)(q := rest)\<rparr>);
               if rest = [] then Some E else cancel_sessions h q E })"

definition executor_cancel_tasks :: "handling \<Rightarrow> exec_pc \<Rightarrow> exec_sys \<Rightarrow> exec_sys option" where
  "executor_cancel_tasks h x E = (case x of X_enter q \<Rightarrow> cancel_sessions h q E | _ \<Rightarrow> None)"

text \<open>
  \<^verbatim>\<open>thrdpool_destroy\<close> in \<^verbatim>\<open>deinit\<close>, with \<^verbatim>\<open>executor_cancel_tasks\<close> as \<^verbatim>\<open>pending\<close>: one round of its loop, or what is behind the loop when there was nothing to do. Behind the last round of the loop
  the pool is destroyed, with whatever the last round has added to its list; \<^verbatim>\<open>tmp\<close> was the head of the list.
\<close>

definition deinit_pend :: "handling \<Rightarrow> nat option \<Rightarrow> exec_sys \<Rightarrow> exec_sys option" where
  "deinit_pend h c E =
     do { P \<leftarrow> ps_pool (ex_pool E);
          S \<leftarrow> destroy_pend c (ex_pool E);
          case th_task_queue P of [] \<Rightarrow> Some (E\<lparr>ex_pool := S\<rparr>) | x # _ \<Rightarrow> executor_cancel_tasks h x (E\<lparr>ex_pool := S\<rparr>) }"

definition deinit_end :: "nat option \<Rightarrow> exec_sys \<Rightarrow> exec_sys option" where
  "deinit_end c E =
     do { P \<leftarrow> ps_pool (ex_pool E);
          S \<leftarrow> destroy_pend c ((ex_pool E)\<lparr>ps_pool := Some (P\<lparr>th_task_queue := []\<rparr>)\<rparr>);
          Some (E\<lparr>ex_pool := S\<rparr>) }"

partial_function (option) deinit_rest :: "handling \<Rightarrow> nat option \<Rightarrow> exec_sys \<Rightarrow> exec_sys option" where
  "deinit_rest h c E =
     do { P \<leftarrow> ps_pool (ex_pool E);
          E \<leftarrow> deinit_pend h c E;
          case th_task_queue P of [] \<Rightarrow> Some E | [x] \<Rightarrow> deinit_end c E | _ \<Rightarrow> deinit_rest h c E }"

section \<open>Runs\<close>

text \<open>
  The callers of \<^verbatim>\<open>request\<close> and \<^verbatim>\<open>deinit\<close>: another thread, or the code of a session on a thread of the pool. As for the pool, nobody else calls \<^verbatim>\<open>request\<close> while
  \<^verbatim>\<open>deinit\<close> runs, and in the runs the handling of the sessions that \<^verbatim>\<open>deinit\<close> cancels does not either; what happens when it does is the subject of \<open>deinit_rest\<close>, which starts where no thread of the
  pool is left. A queue is initialised while it has no sessions.
\<close>

definition may_request :: "nat option \<Rightarrow> exec_pc pool_sys \<Rightarrow> bool" where
  "may_request c S \<longleftrightarrow> may_call c S \<and> (case c of None \<Rightarrow> True | Some t \<Rightarrow> (\<forall>q. ps_workers S t \<noteq> Some (W_run (X_enter q))))"

inductive exec_step :: "exec_sys \<Rightarrow> exec_sys \<Rightarrow> bool" where
  own: "pool_own (ex_pool E) S \<Longrightarrow> exec_step E (E\<lparr>ex_pool := S\<rparr>)"
| idle: "pool_idle (ex_pool E) S \<Longrightarrow> exec_step E (E\<lparr>ex_pool := S\<rparr>)"
| queue: "ex_queues E q = [] \<Longrightarrow> ExecQueue_init r q E = (r', E') \<Longrightarrow> exec_step E E'"
| enter: "ps_workers (ex_pool E) t = Some (W_run (X_enter q)) \<Longrightarrow> chosen w (ex_pool E) \<Longrightarrow> executor_thread_routine t q w E = Some E' \<Longrightarrow> exec_step E E'"
| execute: "ps_workers (ex_pool E) t = Some (W_run (X_execute x)) \<Longrightarrow> exec_step E (session_executed t x E)"
| handle: "ps_workers (ex_pool E) t = Some (W_run (X_handle x)) \<Longrightarrow> exec_step E (session_handled t E)"
| dispatch: "may_request c (ex_pool E) \<Longrightarrow> chosen w (ex_pool E) \<Longrightarrow> ExecRequest_dispatch mem mem' w x E = Some E' \<Longrightarrow> exec_step E E'"
| deinit: "may_request c (ex_pool E) \<Longrightarrow> ps_destroyer (ex_pool E) = None \<Longrightarrow>
    thrdpool_terminate c ((ex_pool E)\<lparr>ps_workers := enter_destroy c (ps_workers (ex_pool E))\<rparr>) = Some S \<Longrightarrow> exec_step E (E\<lparr>ex_pool := S\<rparr>)"
| cancel: "ps_destroyer (ex_pool E) = Some (c, D_pend) \<Longrightarrow> deinit_pend (\<lambda>_. []) c E = Some E' \<Longrightarrow> exec_step E E'"

inductive exec_run :: "exec_sys \<Rightarrow> exec_sys \<Rightarrow> bool" for E0 :: exec_sys where
  start: "exec_run E0 E0"
| step: "exec_run E0 E \<Longrightarrow> exec_step E E' \<Longrightarrow> exec_run E0 E'"

end
