(* ===== verification/Pool_Inv.thy ===== *)
theory Pool_Inv
  imports Thread_Pool
begin

text \<open>
  The invariant of the thread pool (\<open>Thread_Pool\<close>), and that the steps of its threads keep it: \<^verbatim>\<open>nthreads\<close> counts the threads that have not left, the threads
  that have left wait in line to be joined, and what is there of the pool depends on how far its destruction has got.
\<close>

section \<open>The invariant\<close>

fun active :: "'x worker \<Rightarrow> bool" where
  "active (W_join t) = False"
| "active W_done = False"
| "active W_joined = False"
| "active W_gone = False"
| "active w = True"

fun exited :: "'x worker \<Rightarrow> bool" where
  "exited (W_join t) = True"
| "exited W_done = True"
| "exited W_joined = True"
| "exited w = False"

text \<open>The threads that \<^verbatim>\<open>nthreads\<close> counts, and those that have left the loop.\<close>

definition pool_members :: "(nat \<rightharpoonup> 'x worker) \<Rightarrow> nat set \<Rightarrow> nat set" where
  "pool_members W D = {t. t \<notin> D \<and> (\<exists>w. W t = Some w \<and> active w)}"

definition exits :: "(nat \<rightharpoonup> 'x worker) \<Rightarrow> nat set" where
  "exits W = {t. \<exists>w. W t = Some w \<and> exited w}"

text \<open>Threads leave one after the other, each to join the one before: \<open>js\<close> are joined, the first of \<open>ws\<close> has ended.\<close>

primrec lined_up :: "(nat \<rightharpoonup> 'x worker) \<Rightarrow> nat \<Rightarrow> nat list \<Rightarrow> bool" where
  "lined_up W p [] = True"
| "lined_up W p (t # ts) = (W t = Some (W_join p) \<and> lined_up W t ts)"

definition left_chain :: "(nat \<rightharpoonup> 'x worker) \<Rightarrow> nat list \<Rightarrow> nat list \<Rightarrow> bool" where
  "left_chain W js ws \<longleftrightarrow> distinct (js @ ws) \<and> set (js @ ws) = exits W \<and> (\<forall>t \<in> set js. W t = Some W_joined) \<and>
     (case ws of [] \<Rightarrow> True | d # ts \<Rightarrow> W d = Some W_done \<and> lined_up W d ts)"

definition last_or_0 :: "nat list \<Rightarrow> nat" where
  "last_or_0 ts = (if ts = [] then 0 else last ts)"

definition over_inv :: "nat option \<Rightarrow> 'x pool_sys \<Rightarrow> bool" where
  "over_inv c S \<longleftrightarrow> (case c of None \<Rightarrow> ps_pool S = None
     | Some t \<Rightarrow> (\<exists>P. ps_pool S = Some P \<and> th_task_queue P = [] \<and> (ps_workers S t = Some W_check \<or> (\<exists>x. ps_workers S t = Some (W_run x)))) \<or>
                (ps_pool S = None \<and> ps_workers S t = Some W_gone))"

definition phase_inv :: "nat list \<Rightarrow> nat list \<Rightarrow> 'x pool_sys \<Rightarrow> bool" where
  "phase_inv js ws S \<longleftrightarrow> (case ps_destroyer S of
      None \<Rightarrow> js = [] \<and> ws = [] \<and> ps_detached S = {} \<and> ps_pended S = [] \<and> (\<forall>t x. ps_workers S t \<noteq> Some (W_destroy x)) \<and>
              (\<exists>P. ps_pool S = Some P \<and> th_locks P \<and> \<not> th_terminate P)
    | Some (c, ph) \<Rightarrow> ps_detached S = set_option c \<and> (\<forall>t. ps_workers S t \<noteq> Some W_sleep) \<and> (\<forall>t x. ps_workers S t = Some (W_destroy x) \<longrightarrow> c = Some t) \<and>
        (ph = D_over \<longrightarrow> pool_members (ps_workers S) (ps_detached S) = {} \<and> ws = [] \<and> over_inv c S) \<and>
        (ph \<noteq> D_over \<longrightarrow> (\<exists>P. ps_pool S = Some P \<and> th_locks P \<and> th_terminate P) \<and> (\<forall>t. c = Some t \<longrightarrow> (\<exists>x. ps_workers S t = Some (W_destroy x))) \<and>
              (ph = D_wait \<longrightarrow> pool_members (ps_workers S) (ps_detached S) \<noteq> {}) \<and> (ph \<in> {D_join, D_pend} \<longrightarrow> pool_members (ps_workers S) (ps_detached S) = {}) \<and>
              (ph = D_pend \<longrightarrow> ws = []) \<and> (ph \<noteq> D_pend \<longrightarrow> ps_pended S = [] \<and> (ws = [] \<longrightarrow> js = []))))"

definition tops :: "(nat \<rightharpoonup> 'x worker) \<Rightarrow> nat set" where
  "tops W = {t. W t = Some W_top}"

definition pool_inv :: "nat list \<Rightarrow> nat list \<Rightarrow> 'x pool_sys \<Rightarrow> bool" where
  "pool_inv js ws S \<longleftrightarrow> finite (dom (ps_workers S)) \<and> 0 \<notin> dom (ps_workers S) \<and> left_chain (ps_workers S) js ws \<and>
     (\<forall>P. ps_pool S = Some P \<longrightarrow> th_nthreads P = card (pool_members (ps_workers S) (ps_detached S)) \<and> th_tid P = last_or_0 (js @ ws)) \<and>
     (\<forall>t. ps_workers S t = Some W_gone \<longrightarrow> t \<in> ps_detached S) \<and> phase_inv js ws S \<and>
     ps_scheduled S = ps_started S @ ps_pended S @ (case ps_pool S of Some P \<Rightarrow> th_task_queue P | None \<Rightarrow> []) \<and>
     (\<forall>P. ps_destroyer S = None \<longrightarrow> Some W_sleep \<in> range (ps_workers S) \<longrightarrow> ps_pool S = Some P \<longrightarrow> length (th_task_queue P) \<le> card (tops (ps_workers S)))"

lemma pool_invD:
  assumes "pool_inv js ws S"
  shows "finite (dom (ps_workers S))" "0 \<notin> dom (ps_workers S)" "left_chain (ps_workers S) js ws"
    "ps_pool S = Some P \<Longrightarrow> th_nthreads P = card (pool_members (ps_workers S) (ps_detached S))" "ps_pool S = Some P \<Longrightarrow> th_tid P = last_or_0 (js @ ws)"
    "ps_workers S t = Some W_gone \<Longrightarrow> t \<in> ps_detached S" "phase_inv js ws S"
    "ps_scheduled S = ps_started S @ ps_pended S @ (case ps_pool S of Some P \<Rightarrow> th_task_queue P | None \<Rightarrow> [])"
    "ps_destroyer S = None \<Longrightarrow> Some W_sleep \<in> range (ps_workers S) \<Longrightarrow> ps_pool S = Some P \<Longrightarrow> length (th_task_queue P) \<le> card (tops (ps_workers S))"
  using assms unfolding pool_inv_def by blast+

section \<open>One thread changes its state\<close>

lemma members_upd: "pool_members (W(t \<mapsto> w)) D = (if active w \<and> t \<notin> D then insert t (pool_members W D) else pool_members W D - {t})"
  by (auto simp: pool_members_def)

lemma exits_upd: "exits (W(t \<mapsto> w)) = (if exited w then insert t (exits W) else exits W - {t})"
  by (auto simp: exits_def)

lemma lined_up_upd: "t \<notin> set ts \<Longrightarrow> lined_up (W(t \<mapsto> w)) p ts = lined_up W p ts"
  by (induction ts arbitrary: p) auto

lemma not_exited: "left_chain W js ws \<Longrightarrow> W t = Some w \<Longrightarrow> \<not> exited w \<Longrightarrow> t \<notin> set (js @ ws)"
  by (auto simp: left_chain_def exits_def)

lemma chain_upd:
  assumes "left_chain W js ws" "\<not> exited w" "t \<notin> set (js @ ws)"
  shows "left_chain (W(t \<mapsto> w)) js ws"
proof (cases ws)
  case Nil
  then show ?thesis using assms by (auto simp: left_chain_def exits_upd)
next
  case (Cons d ts)
  then show ?thesis using assms by (auto simp: left_chain_def exits_upd lined_up_upd)
qed

lemma finite_members: "finite (dom W) \<Longrightarrow> finite (pool_members W D)"
  by (rule finite_subset [of _ "dom W"]) (auto simp: pool_members_def)

lemma finite_tops: "finite (dom W) \<Longrightarrow> finite (tops W)"
  by (rule finite_subset [of _ "dom W"]) (auto simp: tops_def)

lemma member_there: "W t = Some w \<Longrightarrow> active w \<Longrightarrow> t \<notin> D \<Longrightarrow> t \<in> pool_members W D"
  by (auto simp: pool_members_def)

lemma active_not_exited: "active w \<Longrightarrow> \<not> exited w"
  by (cases w) auto

text \<open>A thread that leaves lines up behind the last one.\<close>

lemma lined_up_snoc: "lined_up W p (ts @ [t]) \<longleftrightarrow> lined_up W p ts \<and> W t = Some (W_join (last (p # ts)))"
  by (induction ts arbitrary: p) auto

lemma chain_leave:
  assumes c: "left_chain W js ws" and t: "t \<notin> set (js @ ws)" and w: "ws = [] \<Longrightarrow> js = []"
  shows "left_chain (W(t \<mapsto> if js @ ws = [] then W_done else W_join (last (js @ ws)))) js (ws @ [t])"
proof (cases ws)
  case Nil
  then show ?thesis using c t w by (auto simp: left_chain_def exits_upd)
next
  case (Cons d ts)
  have "t \<notin> set ts" using t Cons by auto
  then have "lined_up (W(t \<mapsto> W_join (last (d # ts)))) d (ts @ [t])" using c Cons unfolding lined_up_snoc by (simp add: left_chain_def lined_up_upd)
  then show ?thesis using c t Cons by (auto simp: left_chain_def exits_upd)
qed

text \<open>The first thread in line joins the one before it.\<close>

lemma lined_up_joins: "lined_up W p ts \<Longrightarrow> t \<in> set ts \<Longrightarrow> \<exists>u. W t = Some (W_join u)"
  by (induction ts arbitrary: p) auto

lemma join_first:
  assumes c: "left_chain W js ws" and t: "W t = Some (W_join u)" and u: "has_ended (W u)"
  shows "\<exists>ts. ws = u # t # ts \<and> W u = Some W_done"
proof -
  have tw: "t \<in> set ws" using c t by (force simp: left_chain_def exits_def)
  then obtain d rs where ws: "ws = d # rs" by (cases ws) auto
  have d: "W d = Some W_done" "lined_up W d rs" using c ws by (auto simp: left_chain_def)
  then have "t \<in> set rs" using tw ws t by auto
  then obtain ys zs where rs: "rs = ys @ t # zs" by (meson split_list)
  have l: "lined_up W p (ys @ t # zs) \<Longrightarrow> lined_up W p ys \<and> W t = Some (W_join (last (p # ys)))" for p by (induction ys arbitrary: p) auto
  have "u = last (d # ys)" using l [of d] d(2) rs t by auto
  moreover have "ys = []"
  proof (rule ccontr)
    assume "ys \<noteq> []"
    then have "u \<in> set ys" using \<open>u = last (d # ys)\<close> by simp
    then obtain v where "W u = Some (W_join v)" using l [of d] d(2) rs lined_up_joins by metis
    then show False using u by (simp add: has_ended_def)
  qed
  ultimately show ?thesis using ws rs d(1) by auto
qed

lemma chain_join:
  assumes c: "left_chain W js (u # t # ts)"
  shows "left_chain (W(u \<mapsto> W_joined, t \<mapsto> W_done)) (js @ [u]) (t # ts)"
proof -
  have n: "u \<notin> set ts" "t \<notin> set ts" "u \<noteq> t" "t \<notin> set js" using c by (auto simp: left_chain_def)
  have "lined_up (W(u \<mapsto> W_joined, t \<mapsto> W_done)) t ts" using c n by (simp add: left_chain_def lined_up_upd)
  then show ?thesis using c n by (auto simp: left_chain_def exits_upd)
qed

lemma chain_join_last:
  assumes c: "left_chain W js ws" and ws: "ws \<noteq> []" "has_ended (W (last ws))"
  shows "ws = [last ws]" "W (last ws) = Some W_done" "left_chain (W(last ws \<mapsto> W_joined)) (js @ [last ws]) []"
proof -
  obtain d rs where d: "ws = d # rs" "W d = Some W_done" "lined_up W d rs" using c ws(1) by (cases ws) (auto simp: left_chain_def)
  have "rs = []"
  proof (rule ccontr)
    assume "rs \<noteq> []"
    then obtain u where "W (last rs) = Some (W_join u)" using lined_up_joins [OF d(3)] by (meson last_in_set)
    then show False using ws(2) d(1) \<open>rs \<noteq> []\<close> by (simp add: has_ended_def)
  qed
  then show "ws = [last ws]" "W (last ws) = Some W_done" "left_chain (W(last ws \<mapsto> W_joined)) (js @ [last ws]) []" using c d by (auto simp: left_chain_def exits_upd)
qed


section \<open>The steps keep the invariant\<close>

lemma members_same: "W t = Some w \<Longrightarrow> active w \<Longrightarrow> active w' \<Longrightarrow> pool_members (W(t \<mapsto> w')) D = pool_members W D"
  by (auto simp: pool_members_def)

lemma phase_cases:
  assumes "phase_inv js ws S"
  obtains (none) P where "ps_destroyer S = None" "js = []" "ws = []" "ps_detached S = {}" "ps_pended S = []" "\<And>t x. ps_workers S t \<noteq> Some (W_destroy x)"
      "ps_pool S = Some P" "th_locks P" "\<not> th_terminate P"
  | (going) c ph P where "ps_destroyer S = Some (c, ph)" "ph \<noteq> D_over" "ps_detached S = set_option c" "\<And>t. ps_workers S t \<noteq> Some W_sleep"
      "\<And>t x. ps_workers S t = Some (W_destroy x) \<Longrightarrow> c = Some t" "ps_pool S = Some P" "th_locks P" "th_terminate P" "\<And>t. c = Some t \<Longrightarrow> \<exists>x. ps_workers S t = Some (W_destroy x)"
      "ph = D_wait \<Longrightarrow> pool_members (ps_workers S) (ps_detached S) \<noteq> {}" "ph \<in> {D_join, D_pend} \<Longrightarrow> pool_members (ps_workers S) (ps_detached S) = {}"
      "ph = D_pend \<Longrightarrow> ws = []" "ph \<noteq> D_pend \<Longrightarrow> ps_pended S = [] \<and> (ws = [] \<longrightarrow> js = [])"
  | (over) c where "ps_destroyer S = Some (c, D_over)" "ps_detached S = set_option c" "\<And>t. ps_workers S t \<noteq> Some W_sleep"
      "\<And>t x. ps_workers S t = Some (W_destroy x) \<Longrightarrow> c = Some t" "pool_members (ps_workers S) (ps_detached S) = {}" "ws = []" "over_inv c S"
proof (cases "ps_destroyer S")
  case None
  then have p: "js = [] \<and> ws = [] \<and> ps_detached S = {} \<and> ps_pended S = [] \<and> (\<forall>t x. ps_workers S t \<noteq> Some (W_destroy x)) \<and>
              (\<exists>P. ps_pool S = Some P \<and> th_locks P \<and> \<not> th_terminate P)" using assms by (simp add: phase_inv_def)
  then obtain P where "ps_pool S = Some P" "th_locks P" "\<not> th_terminate P" by blast
  then show ?thesis using none [OF None] p by blast
next
  case (Some cp)
  obtain c ph where d: "ps_destroyer S = Some (c, ph)" using Some by (cases cp) auto
  show ?thesis
  proof (cases "ph = D_over")
    case True
    then have "ps_detached S = set_option c \<and> (\<forall>t. ps_workers S t \<noteq> Some W_sleep) \<and> (\<forall>t x. ps_workers S t = Some (W_destroy x) \<longrightarrow> c = Some t) \<and>
      pool_members (ps_workers S) (ps_detached S) = {} \<and> ws = [] \<and> over_inv c S" using assms [unfolded phase_inv_def d option.case prod.case] by blast
    then show ?thesis using over [of c] d True by blast
  next
    case False
    then have p: "ps_detached S = set_option c \<and> (\<forall>t. ps_workers S t \<noteq> Some W_sleep) \<and> (\<forall>t x. ps_workers S t = Some (W_destroy x) \<longrightarrow> c = Some t) \<and>
        (\<exists>P. ps_pool S = Some P \<and> th_locks P \<and> th_terminate P) \<and> (\<forall>t. c = Some t \<longrightarrow> (\<exists>x. ps_workers S t = Some (W_destroy x))) \<and>
              (ph = D_wait \<longrightarrow> pool_members (ps_workers S) (ps_detached S) \<noteq> {}) \<and> (ph \<in> {D_join, D_pend} \<longrightarrow> pool_members (ps_workers S) (ps_detached S) = {}) \<and>
              (ph = D_pend \<longrightarrow> ws = []) \<and> (ph \<noteq> D_pend \<longrightarrow> ps_pended S = [] \<and> (ws = [] \<longrightarrow> js = []))" using assms [unfolded phase_inv_def d option.case prod.case] by blast
    then obtain P where P: "ps_pool S = Some P" "th_locks P" "th_terminate P" by blast
    show ?thesis by (rule going [OF d False _ _ _ P]) (use p in blast)+
  qed
qed

lemma phase_noneI:
  assumes "ps_destroyer S = None" "js = []" "ws = []" "ps_detached S = {}" "ps_pended S = []" "\<And>t x. ps_workers S t \<noteq> Some (W_destroy x)"
      "ps_pool S = Some P" "th_locks P" "\<not> th_terminate P"
  shows "phase_inv js ws S"
  unfolding phase_inv_def assms(1) option.case using assms(2-) by blast

lemma phase_goingI:
  assumes "ps_destroyer S = Some (c, ph)" "ph \<noteq> D_over" "ps_detached S = set_option c" "\<And>t. ps_workers S t \<noteq> Some W_sleep"
      "\<And>t x. ps_workers S t = Some (W_destroy x) \<Longrightarrow> c = Some t" "ps_pool S = Some P" "th_locks P" "th_terminate P" "\<And>t. c = Some t \<Longrightarrow> \<exists>x. ps_workers S t = Some (W_destroy x)"
      "ph = D_wait \<Longrightarrow> pool_members (ps_workers S) (ps_detached S) \<noteq> {}" "ph \<in> {D_join, D_pend} \<Longrightarrow> pool_members (ps_workers S) (ps_detached S) = {}"
      "ph = D_pend \<Longrightarrow> ws = []" "ph \<noteq> D_pend \<Longrightarrow> ps_pended S = [] \<and> (ws = [] \<longrightarrow> js = [])"
  shows "phase_inv js ws S"
  unfolding phase_inv_def assms(1) option.case prod.case using assms(2-) by blast

lemma phase_overI:
  assumes "ps_destroyer S = Some (c, D_over)" "ps_detached S = set_option c" "\<And>t. ps_workers S t \<noteq> Some W_sleep"
      "\<And>t x. ps_workers S t = Some (W_destroy x) \<Longrightarrow> c = Some t" "pool_members (ps_workers S) (ps_detached S) = {}" "ws = []" "over_inv c S"
  shows "phase_inv js ws S"
  unfolding phase_inv_def assms(1) option.case prod.case using assms(2-) by blast

lemma worker_locks:
  assumes inv: "pool_inv js ws S" and t: "ps_workers S t = Some w" "active w" "t \<notin> ps_detached S"
  shows "\<exists>P. ps_pool S = Some P \<and> th_locks P \<and> locked S = Some P \<and> 0 < th_nthreads P \<and> (ps_destroyer S = None \<longleftrightarrow> \<not> th_terminate P)"
proof -
  note D = pool_invD [OF inv]
  have m: "t \<in> pool_members (ps_workers S) (ps_detached S)" using t by (auto simp: pool_members_def)
  have n: "0 < th_nthreads P" if "ps_pool S = Some P" for P using D(4) [OF that] m finite_members [OF D(1), of "ps_detached S"] by (auto simp: card_gt_0_iff)
  from D(7) show ?thesis by (cases rule: phase_cases) (use n m in \<open>auto simp: locked_def\<close>)
qed

lemma pool_move:
  assumes inv: "pool_inv js ws S" and t: "ps_workers S t = Some w" "active w" "active w'" "w \<noteq> W_top" "w' \<noteq> W_sleep" "\<And>x. w \<noteq> W_destroy x" "\<And>x. w' \<noteq> W_destroy x"
    and over: "ps_destroyer S = Some (Some t, D_over) \<Longrightarrow> w' = W_check \<or> (\<exists>x. w' = W_run x)"
  shows "pool_inv js ws (S\<lparr>ps_workers := (ps_workers S)(t \<mapsto> w')\<rparr>)"
proof -
  note D = pool_invD [OF inv]
  let ?W = "(ps_workers S)(t \<mapsto> w')" and ?S = "S\<lparr>ps_workers := (ps_workers S)(t \<mapsto> w')\<rparr>"
  have tn: "t \<notin> set (js @ ws)" using not_exited [OF D(3) t(1)] active_not_exited [OF t(2)] by blast
  have ch: "left_chain ?W js ws" by (rule chain_upd [OF D(3) active_not_exited [OF t(3)] tn])
  have m: "pool_members ?W X = pool_members (ps_workers S) X" for X using t(1-3) by (auto simp: pool_members_def)
  have ph: "phase_inv js ws ?S" using D(7)
  proof (cases rule: phase_cases)
    case (none P)
    then show ?thesis using t(7) by (intro phase_noneI) auto
  next
    case (going c ph P)
    then have "c \<noteq> Some t" using t(1,6) by fastforce
    then show ?thesis using going(1-8,10-) going(9) m t(5,7) by (intro phase_goingI [of _ c ph P]) (auto split: if_splits)
  next
    case (over c)
    have "over_inv c ?S"
    proof (cases "c = Some t")
      case True
      then show ?thesis using over(7) over(1) assms(9) t(1,2) by (auto simp: over_inv_def)
    next
      case False
      then show ?thesis using over(7) by (cases c) (auto simp: over_inv_def)
    qed
    then show ?thesis using over(1-6) m t(5,7) by (intro phase_overI [of _ c]) (auto split: if_splits)
  qed
  have "tops (ps_workers S) \<subseteq> tops ?W" using t(1,4) by (auto simp: tops_def)
  then have le: "card (tops (ps_workers S)) \<le> card (tops ?W)" using finite_tops [of ?W] D(1) by (intro card_mono) auto
  have sl: "Some W_sleep \<in> range ?W \<Longrightarrow> Some W_sleep \<in> range (ps_workers S)" using t(5) by (auto simp: image_iff split: if_splits)
  have "length (th_task_queue P) \<le> card (tops ?W)" if "ps_destroyer S = None" "Some W_sleep \<in> range ?W" "ps_pool S = Some P" for P
    using D(9) [OF that(1) sl [OF that(2)] that(3)] le by linarith
  moreover have "0 \<noteq> t" using D(2) t(1) by auto
  ultimately show ?thesis using D(1,2,4,5,6,8) ch ph m t(1,3) unfolding pool_inv_def by auto
qed

lemma top_inv:
  assumes inv: "pool_inv js ws S" and t: "ps_workers S t = Some W_top" and run: "routine_top t S = Some S'"
  shows "\<exists>ws'. pool_inv js ws' S'"
proof -
  note D = pool_invD [OF inv]
  have tn: "t \<notin> set (js @ ws)" using not_exited [OF D(3) t] by simp
  have td: "t \<notin> ps_detached S" using D(7) t by (cases rule: phase_cases) (auto simp: over_inv_def)
  obtain P where P: "ps_pool S = Some P" "th_locks P" "locked S = Some P" "ps_destroyer S = None \<longleftrightarrow> \<not> th_terminate P" using worker_locks [OF inv t] td by auto
  show ?thesis
  proof (cases "th_terminate P")
    case False
    then have none: "ps_destroyer S = None" using P by simp
    have ph: "js = []" "ws = []" "ps_detached S = {}" "ps_pended S = []" "\<And>t x. ps_workers S t \<noteq> Some (W_destroy x)" using D(7) none by (auto simp: phase_inv_def)
    show ?thesis
    proof (cases "th_task_queue P")
      case Nil
      then have S': "S' = S\<lparr>ps_workers := (ps_workers S)(t \<mapsto> W_sleep)\<rparr>" using run P(3) False by (simp add: routine_top_def routine_leave_def)
      have "pool_inv js ws S'" unfolding pool_inv_def S'
        using D(1,2,4,5,6,8) chain_upd [OF D(3) _ tn, of W_sleep] members_same [of "ps_workers S" t W_top W_sleep] none ph P False Nil t by (auto simp: phase_inv_def)
      then show ?thesis by blast
    next
      case (Cons x q)
      let ?W = "(ps_workers S)(t \<mapsto> W_run x)"
      have S': "S' = S\<lparr>ps_pool := Some (P\<lparr>th_task_queue := q\<rparr>), ps_workers := ?W, ps_started := ps_started S @ [x]\<rparr>" using run P(3) False Cons by (simp add: routine_top_def routine_leave_def)
      have "tops ?W = tops (ps_workers S) - {t}" by (auto simp: tops_def)
      moreover have "t \<in> tops (ps_workers S)" using t by (simp add: tops_def)
      ultimately have "Suc (card (tops ?W)) = card (tops (ps_workers S))" using finite_tops [OF D(1)] by (simp add: card_Suc_Diff1 del: card_Diff_insert)
      moreover have "Some W_sleep \<in> range ?W \<Longrightarrow> Some W_sleep \<in> range (ps_workers S)" by (auto simp: image_iff split: if_splits)
      ultimately have "Some W_sleep \<in> range ?W \<Longrightarrow> length q \<le> card (tops ?W)" using D(9) [OF none _ P(1)] Cons by auto
      then have "pool_inv js ws S'" unfolding pool_inv_def S'
        using D(1,2,4,5,6,8) chain_upd [OF D(3) _ tn, of "W_run x"] members_same [of "ps_workers S" t W_top "W_run x"] none ph P False Cons t by (auto simp: phase_inv_def)
      then show ?thesis by blast
    qed
  next
    case True
    then obtain c d where cd: "ps_destroyer S = Some (c, d)" using P(4) by auto
    have mem: "t \<in> pool_members (ps_workers S) (ps_detached S)" using t td by (auto simp: pool_members_def)
    have ph: "d \<in> {D_check, D_wait}" "ps_detached S = set_option c" "\<And>t. ps_workers S t \<noteq> Some W_sleep" "\<And>t x. ps_workers S t = Some (W_destroy x) \<Longrightarrow> c = Some t"
      "\<And>t. c = Some t \<Longrightarrow> \<exists>x. ps_workers S t = Some (W_destroy x)" "ps_pended S = []" "ws = [] \<Longrightarrow> js = []"
    proof -
      from D(7) have "d \<in> {D_check, D_wait} \<and> ps_detached S = set_option c \<and> (\<forall>t. ps_workers S t \<noteq> Some W_sleep) \<and> (\<forall>t x. ps_workers S t = Some (W_destroy x) \<longrightarrow> c = Some t) \<and>
        (\<forall>t. c = Some t \<longrightarrow> (\<exists>x. ps_workers S t = Some (W_destroy x))) \<and> ps_pended S = [] \<and> (ws = [] \<longrightarrow> js = [])"
      proof (cases rule: phase_cases)
        case (going c' ph P')
        have e: "c' = c" "ph = d" using going(1) cd by auto
        then have "d \<in> {D_check, D_wait}" using going(2,11) mem by (cases d) auto
        then show ?thesis using going e by (metis d_phase.distinct(5,11) insertE singletonD)
      qed (use cd mem in auto)
      then show "d \<in> {D_check, D_wait}" "ps_detached S = set_option c" "\<And>t. ps_workers S t \<noteq> Some W_sleep" "\<And>t x. ps_workers S t = Some (W_destroy x) \<Longrightarrow> c = Some t"
        "\<And>t. c = Some t \<Longrightarrow> \<exists>x. ps_workers S t = Some (W_destroy x)" "ps_pended S = []" "ws = [] \<Longrightarrow> js = []" by blast+
    qed
    let ?w = "if js @ ws = [] then W_done else W_join (last (js @ ws))" and ?M = "pool_members (ps_workers S) (ps_detached S)"
    let ?W = "(ps_workers S)(t \<mapsto> ?w)" and ?P = "P\<lparr>th_tid := t, th_nthreads := card (?M - {t})\<rparr>"
    have "last (js @ ws) \<noteq> 0" if "js @ ws \<noteq> []"
    proof -
      have "last (js @ ws) \<in> exits (ps_workers S)" using D(3) that last_in_set [OF that] by (simp add: left_chain_def)
      then show ?thesis using D(2) by (auto simp: exits_def)
    qed
    then have w: "(if th_tid P \<noteq> 0 then W_join (th_tid P) else thread_end t S) = ?w" using D(5) [OF P(1)] td by (auto simp: last_or_0_def thread_end_def)
    have fin: "finite ?M" by (rule finite_members [OF D(1)])
    have "card (?M - {t}) = card ?M - 1" "0 < card ?M" using mem fin by (auto simp: card_gt_0_iff)
    then have n: "size_pred (th_nthreads P) = card (?M - {t})" using D(4) [OF P(1)] by (simp add: size_pred_def)
    define d' where "d' = (if card (?M - {t}) = 0 then D_check else d)"
    have d': "d' \<in> {D_check, D_wait}" "d' = D_wait \<Longrightarrow> ?M - {t} \<noteq> {}" using ph(1) fin by (auto simp: d'_def card_gt_0_iff split: if_splits)
    have S': "S' = S\<lparr>ps_pool := Some ?P, ps_workers := ?W, ps_destroyer := Some (c, d')\<rparr>"
      (is "_ = ?S")
    proof -
      have "routine_top t S = Some (if card (?M - {t}) = 0 then signal_terminate (S\<lparr>ps_pool := Some ?P, ps_workers := ?W\<rparr>) else S\<lparr>ps_pool := Some ?P, ps_workers := ?W\<rparr>)"
        unfolding routine_top_def routine_leave_def P(3) Option.bind_lunit Let_def w n using True by simp
      moreover have "(if card (?M - {t}) = 0 then signal_terminate (S\<lparr>ps_pool := Some ?P, ps_workers := ?W\<rparr>) else S\<lparr>ps_pool := Some ?P, ps_workers := ?W\<rparr>) = ?S"
        using cd ph(1) unfolding d'_def by (cases "card (?M - {t}) = 0") (auto simp: signal_terminate_def)
      ultimately show ?thesis using run by simp
    qed
    have ch: "left_chain ?W js (ws @ [t])" by (rule chain_leave [OF D(3) tn ph(7)])
    have m: "pool_members ?W (ps_detached S) = ?M - {t}" by (simp add: members_upd)
    have W1: "?W u \<noteq> Some W_sleep" for u using ph(3) by simp
    have W2: "c = Some u" if "?W u = Some (W_destroy x)" for u x using that by (intro ph(4) [of u x]) (simp split: if_splits)
    have W3: "\<exists>x. ?W u = Some (W_destroy x)" if "c = Some u" for u
    proof -
      obtain x where x: "ps_workers S u = Some (W_destroy x)" using ph(5) [OF \<open>c = Some u\<close>] by blast
      then have "u \<noteq> t" using t by auto
      then show ?thesis using x by simp
    qed
    have "phase_inv js (ws @ [t]) S'" by (rule phase_goingI [of _ c d' ?P]) (use ph(2,6) m P(2) True d' W1 W2 W3 in \<open>simp_all add: S' del: fun_upd_apply\<close>, auto)
    then have "pool_inv js (ws @ [t]) S'" unfolding pool_inv_def using D(1,2,6,8) ch m P(1) t unfolding S' by (auto simp: last_or_0_def)
    then show ?thesis by blast
  qed
qed

lemma detached_state:
  assumes inv: "pool_inv js ws S" and t: "t \<in> ps_detached S"
  shows "\<exists>w. ps_workers S t = Some w \<and> \<not> exited w \<and> w \<noteq> W_top \<and> w \<noteq> W_sleep"
  using pool_invD(7) [OF inv]
proof (cases rule: phase_cases)
  case (none P)
  then show ?thesis using t by simp
next
  case (going c ph P)
  then have "c = Some t" using t by (cases c) auto
  then show ?thesis using going(9) by force
next
  case (over c)
  then have "c = Some t" using t by (cases c) auto
  then show ?thesis using over(7) by (auto simp: over_inv_def)
qed

lemma check_inv:
  assumes inv: "pool_inv js ws S" and t: "ps_workers S t = Some W_check" and run: "routine_check t S = Some S'"
  shows "pool_inv js ws S'"
proof (cases "t \<in> ps_detached S")
  case False
  obtain P where P: "ps_pool S = Some P" "0 < th_nthreads P" using worker_locks [OF inv t] False by auto
  then have S': "S' = S\<lparr>ps_workers := (ps_workers S)(t \<mapsto> W_top)\<rparr>" using run by (simp add: routine_check_def)
  have "ps_destroyer S \<noteq> Some (Some t, D_over)" using pool_invD(7) [OF inv] False by (auto simp: phase_inv_def)
  then show ?thesis unfolding S' using t by (intro pool_move [OF inv]) auto
next
  case True
  note D = pool_invD [OF inv]
  have tn: "t \<notin> set (js @ ws)" using not_exited [OF D(3) t] by simp
  from D(7) show ?thesis
  proof (cases rule: phase_cases)
    case (none P)
    then show ?thesis using True by simp
  next
    case (going c ph P)
    then have "c = Some t" using True by (cases c) auto
    then show ?thesis using going(9) t by auto
  next
    case (over c)
    then have c: "c = Some t" using True by (cases c) auto
    then obtain P where P: "ps_pool S = Some P" "th_task_queue P = []" using over(7) t by (auto simp: over_inv_def)
    have "th_nthreads P = 0" using D(4) [OF P(1)] over(5) by simp
    then have S': "S' = S\<lparr>ps_pool := None, ps_workers := (ps_workers S)(t \<mapsto> W_gone)\<rparr>" using run P(1) True by (simp add: routine_check_def thread_end_def)
    let ?W = "(ps_workers S)(t \<mapsto> W_gone)"
    have ch: "left_chain ?W js ws" by (rule chain_upd [OF D(3) _ tn]) simp
    have m: "pool_members ?W (ps_detached S) = {}" using over(5) by (simp add: members_upd)
    have "phase_inv js ws S'" unfolding S' using over(1-4,6) m c by (intro phase_overI [of _ c]) (auto simp: over_inv_def split: if_splits)
    then show ?thesis unfolding pool_inv_def using D(1,2,6,8) ch m P over(1) True t unfolding S' by auto
  qed
qed

lemma join_inv:
  assumes inv: "pool_inv js ws S" and t: "ps_workers S t = Some (W_join u)" and u: "has_ended (ps_workers S u)" and run: "routine_join t u S = Some S'"
  shows "\<exists>js' ws'. pool_inv js' ws' S'"
proof -
  note D = pool_invD [OF inv]
  obtain ts where ws: "ws = u # t # ts" and ud: "ps_workers S u = Some W_done" using join_first [OF D(3) t u] by blast
  have td: "t \<notin> ps_detached S" using detached_state [OF inv, of t] t by auto
  let ?W = "(ps_workers S)(u \<mapsto> W_joined, t \<mapsto> W_done)"
  have S': "S' = S\<lparr>ps_workers := ?W\<rparr>" using run ud td by (simp add: routine_join_def join_thread_def thread_end_def)
  have ch: "left_chain ?W (js @ [u]) (t # ts)" using chain_join D(3) unfolding ws by blast
  have m: "pool_members ?W X = pool_members (ps_workers S) X" for X using t ud by (auto simp: pool_members_def)
  have ph: "phase_inv (js @ [u]) (t # ts) S'" using D(7)
  proof (cases rule: phase_cases)
    case (going c ph P)
    have "ph \<noteq> D_pend" using going(12) ws by auto
    moreover have "c \<noteq> Some t" "c \<noteq> Some u" using going(9) t ud by fastforce+
    ultimately show ?thesis using going(1-11,13) going(9) m unfolding S' by (intro phase_goingI [of _ c ph P]) (auto split: if_splits)
  qed (use ws in auto)
  have "pool_inv (js @ [u]) (t # ts) S'" unfolding pool_inv_def
    using D(1,2,4,5,6,8) ch ph m t ud ws unfolding S' by (auto simp: last_or_0_def phase_inv_def)
  then show ?thesis by blast
qed

end
