(* ===== verification/Pool_Calls.thy ===== *)
theory Pool_Calls
  imports Pool_Inv
begin

text \<open>
  The calls of the thread pool keep its invariant: scheduling, adding threads, creating the pool, and every phase of destroying it.
\<close>

section \<open>Scheduling and new threads\<close>

lemma caller_locks:
  assumes inv: "pool_inv js ws S" and c: "may_call c S"
  shows "\<exists>P. ps_pool S = Some P \<and> th_locks P \<and> locked S = Some P" "ps_destroyer S = None \<or> pool_members (ps_workers S) (ps_detached S) \<noteq> {}"
proof -
  have "(\<exists>P. ps_pool S = Some P \<and> th_locks P \<and> locked S = Some P) \<and> (ps_destroyer S = None \<or> pool_members (ps_workers S) (ps_detached S) \<noteq> {})"
  proof (cases c)
    case None
    then have "ps_destroyer S = None" using c by (simp add: may_call_def)
    then show ?thesis using pool_invD(7) [OF inv] by (auto simp: phase_inv_def locked_def)
  next
    case (Some t)
    then obtain x where "ps_workers S t = Some (W_run x)" "t \<notin> ps_detached S" using c by (auto simp: may_call_def)
    then show ?thesis using worker_locks [OF inv, of t "W_run x"] member_there [of "ps_workers S" t "W_run x"] by auto
  qed
  then show "\<exists>P. ps_pool S = Some P \<and> th_locks P \<and> locked S = Some P" "ps_destroyer S = None \<or> pool_members (ps_workers S) (ps_detached S) \<noteq> {}" by blast+
qed

text \<open>With pool_members left, the caller of \<^verbatim>\<open>thrdpool_destroy\<close> is in its loop.\<close>

lemma busy_cases:
  assumes inv: "pool_inv js ws S" and m: "ps_destroyer S = None \<or> pool_members (ps_workers S) (ps_detached S) \<noteq> {}"
  obtains (none) P where "ps_destroyer S = None" "js = []" "ws = []" "ps_detached S = {}" "ps_pended S = []" "\<And>t x. ps_workers S t \<noteq> Some (W_destroy x)"
      "ps_pool S = Some P" "th_locks P" "\<not> th_terminate P"
  | (going) c ph P where "ps_destroyer S = Some (c, ph)" "ph \<noteq> D_over" "ph \<notin> {D_join, D_pend}" "ps_detached S = set_option c" "\<And>t. ps_workers S t \<noteq> Some W_sleep"
      "\<And>t x. ps_workers S t = Some (W_destroy x) \<Longrightarrow> c = Some t" "ps_pool S = Some P" "th_locks P" "th_terminate P" "\<And>t. c = Some t \<Longrightarrow> \<exists>x. ps_workers S t = Some (W_destroy x)"
      "pool_members (ps_workers S) (ps_detached S) \<noteq> {}" "ps_pended S = [] \<and> (ws = [] \<longrightarrow> js = [])"
  using pool_invD(7) [OF inv]
proof (cases rule: phase_cases)
  case (none P)
  then show ?thesis using that(1) [of P] by blast
next
  case (going c ph P)
  have n: "pool_members (ps_workers S) (ps_detached S) \<noteq> {}" using m going(1) by simp
  then have "ph \<notin> {D_join, D_pend}" using going(11) by blast
  moreover from this have "ps_pended S = [] \<and> (ws = [] \<longrightarrow> js = [])" using going(13) by simp
  ultimately show ?thesis by (intro that(2) [of c ph P]) (use going n in \<open>blast+\<close>)
next
  case (over c)
  then show ?thesis using m by simp
qed

lemma enqueue_inv:
  assumes inv: "pool_inv js ws S" and P: "ps_pool S = Some P" and m: "ps_destroyer S = None \<or> pool_members (ps_workers S) (ps_detached S) \<noteq> {}" and w: "Some W_sleep \<notin> range (ps_workers S)"
  shows "pool_inv js ws (S\<lparr>ps_pool := Some (P\<lparr>th_task_queue := th_task_queue P @ [x]\<rparr>), ps_scheduled := ps_scheduled S @ [x]\<rparr>)" (is "pool_inv _ _ ?S")
proof -
  note D = pool_invD [OF inv]
  have ph: "phase_inv js ws ?S" using inv m
  proof (cases rule: busy_cases)
    case (none P')
    then show ?thesis using P by (simp add: phase_inv_def)
  next
    case (going c ph P')
    then show ?thesis using P by (intro phase_goingI [of _ c ph "P\<lparr>th_task_queue := th_task_queue P @ [x]\<rparr>"]) auto
  qed
  then show ?thesis unfolding pool_inv_def using D(1-6,8) w P by auto
qed

lemma schedule_inv:
  assumes inv: "pool_inv js ws S" and c: "may_call c S" and w: "chosen w S" and run: "thrdpool_schedule mem x w S = Some (r, S')"
  shows "pool_inv js ws S'"
proof (cases mem)
  case False
  then show ?thesis using run inv by (simp add: thrdpool_schedule_def)
next
  case True
  note D = pool_invD [OF inv]
  obtain P where P: "ps_pool S = Some P" "locked S = Some P" using caller_locks(1) [OF inv c] by blast
  let ?S = "S\<lparr>ps_pool := Some (P\<lparr>th_task_queue := th_task_queue P @ [x]\<rparr>), ps_scheduled := ps_scheduled S @ [x]\<rparr>"
  have S': "S' = signal_cond w ?S" using run True P(2) by (simp add: thrdpool_schedule_def schedule_entry_def)
  show ?thesis
  proof (cases w)
    case None
    then have "Some W_sleep \<notin> range (ps_workers S)" using w by (simp add: chosen_def)
    from enqueue_inv [OF inv P(1) caller_locks(2) [OF inv c] this] show ?thesis by (simp add: S' None signal_cond_def)
  next
    case (Some t)
    then have t: "ps_workers S t = Some W_sleep" using w by (simp add: chosen_def)
    let ?W = "(ps_workers S)(t \<mapsto> W_top)"
    have S': "S' = ?S\<lparr>ps_workers := ?W\<rparr>" by (simp add: S' Some signal_cond_def)
    from inv caller_locks(2) [OF inv c] show ?thesis
    proof (cases rule: busy_cases)
      case (none P')
      have tn: "t \<notin> set (js @ ws)" using not_exited [OF D(3) t] by simp
      have ch: "left_chain ?W js ws" by (rule chain_upd [OF D(3) _ tn]) simp
      have m: "pool_members ?W X = pool_members (ps_workers S) X" for X using t by (auto simp: pool_members_def)
      have "tops ?W = insert t (tops (ps_workers S))" "t \<notin> tops (ps_workers S)" using t by (auto simp: tops_def)
      then have tp: "card (tops ?W) = Suc (card (tops (ps_workers S)))" using finite_tops [OF D(1)] by simp
      have "Some W_sleep \<in> range (ps_workers S)" using t by (metis rangeI)
      then have q: "length (th_task_queue P) \<le> card (tops (ps_workers S))" using D(9) [OF none(1) _ P(1)] by blast
      have "phase_inv js ws S'" unfolding S' using none P(1) by (simp add: phase_inv_def)
      then show ?thesis unfolding pool_inv_def using D(1,2,4,5,6,8) ch m t tp q P(1) unfolding S' by auto
    next
      case (going c ph P')
      then show ?thesis using t by blast
    qed
  qed
qed

lemma spawn_inv:
  assumes inv: "pool_inv js ws S" and P: "ps_pool S = Some P" and m: "ps_destroyer S = None \<or> pool_members (ps_workers S) (ps_detached S) \<noteq> {}"
    and t: "ps_workers S t = None" "t \<noteq> 0"
  shows "pool_inv js ws (S\<lparr>ps_pool := Some (P\<lparr>th_nthreads := th_nthreads P + 1\<rparr>), ps_workers := (ps_workers S)(t \<mapsto> W_top)\<rparr>)" (is "pool_inv _ _ ?S")
proof -
  note D = pool_invD [OF inv]
  let ?W = "(ps_workers S)(t \<mapsto> W_top)"
  have td: "t \<notin> ps_detached S" using detached_state [OF inv, of t] t by auto
  have tn: "t \<notin> set (js @ ws)" using D(3) t by (auto simp: left_chain_def exits_def)
  have ch: "left_chain ?W js ws" by (rule chain_upd [OF D(3) _ tn]) simp
  have mt: "t \<notin> pool_members (ps_workers S) X" for X using t(1) by (simp add: pool_members_def)
  have mm: "pool_members ?W (ps_detached S) = insert t (pool_members (ps_workers S) (ps_detached S))" using td by (simp add: members_upd)
  have cm: "card (pool_members ?W (ps_detached S)) = Suc (card (pool_members (ps_workers S) (ps_detached S)))" using mt finite_members [OF D(1)] by (simp add: mm)
  have "tops (ps_workers S) \<subseteq> tops ?W" using t by (auto simp: tops_def)
  then have le: "card (tops (ps_workers S)) \<le> card (tops ?W)" using finite_tops [of ?W] D(1) by (intro card_mono) auto
  have sl: "Some W_sleep \<in> range ?W \<Longrightarrow> Some W_sleep \<in> range (ps_workers S)" by (auto simp: image_iff split: if_splits)
  have tp: "length (th_task_queue P) \<le> card (tops ?W)" if "ps_destroyer S = None" "Some W_sleep \<in> range ?W"
    using D(9) [OF that(1) sl [OF that(2)] P] le by linarith
  have ph: "phase_inv js ws ?S" using inv m
  proof (cases rule: busy_cases)
    case (none P')
    then show ?thesis using P by (simp add: phase_inv_def)
  next
    case (going c ph P')
    have "c \<noteq> Some t" using going(10) t by fastforce
    then show ?thesis using going(1-9,11,12) going(10) P mm by (intro phase_goingI [of _ c ph "P\<lparr>th_nthreads := th_nthreads P + 1\<rparr>"]) (auto split: if_splits)
  qed
  then show ?thesis unfolding pool_inv_def using D(1,2,4,5,6,8) ch cm tp P t by auto
qed

lemma increase_inv:
  assumes inv: "pool_inv js ws S" and c: "may_call c S" and t: "ps_workers S t = None" "t \<noteq> 0" and run: "thrdpool_increase r_attr r t S = Some (r', S')"
  shows "pool_inv js ws S'"
proof -
  obtain P where P: "ps_pool S = Some P" "locked S = Some P" using caller_locks(1) [OF inv c] by blast
  show ?thesis using spawn_inv [OF inv P(1) caller_locks(2) [OF inv c] t] inv run P(2) by (auto simp: thrdpool_increase_def split: if_splits)
qed

section \<open>Destroying\<close>

lemma exits_wake: "exits (wake_all W) = exits W"
  by (auto simp: exits_def wake_all_def)

lemma members_wake: "pool_members (wake_all W) D = pool_members W D"
  by (auto simp: pool_members_def wake_all_def split: if_splits)

lemma exits_enter: "exits (enter_destroy c W) = exits W"
  by (auto simp: exits_def enter_destroy_def split: option.splits worker.splits if_splits)

lemma members_enter: "pool_members (enter_destroy c W) D = pool_members W D"
  by (auto simp: pool_members_def enter_destroy_def split: option.splits worker.splits if_splits)

lemma dom_wake: "dom (wake_all W) = dom W"
  by (auto simp: wake_all_def split: if_splits)

lemma dom_enter: "dom (enter_destroy c W) = dom W"
  by (auto simp: enter_destroy_def split: option.splits worker.splits if_splits)

lemma wake_enter:
  "wake_all (enter_destroy c W) t = Some W_gone \<longleftrightarrow> W t = Some W_gone"
  by (auto simp: wake_all_def enter_destroy_def split: option.splits worker.splits if_splits)

lemma wake_no_sleep: "wake_all W t \<noteq> Some W_sleep"
  by (simp add: wake_all_def)

lemma destroy_in_enter: "wake_all (enter_destroy c W) t = Some (W_destroy x) \<Longrightarrow> \<forall>t x. W t \<noteq> Some (W_destroy x) \<Longrightarrow> c = Some t"
  by (auto simp: wake_all_def enter_destroy_def split: option.splits worker.splits if_splits)

text \<open>The caller is another thread, or its task runs.\<close>

definition may_destroy :: "nat option \<Rightarrow> 'x pool_sys \<Rightarrow> bool" where
  "may_destroy c S \<longleftrightarrow> (\<forall>t. c = Some t \<longrightarrow> (\<exists>x. ps_workers S t = Some (W_run x)))"

lemma call_destroy: "may_call c S \<Longrightarrow> may_destroy c S"
  by (auto simp: may_call_def may_destroy_def split: option.splits)

lemma terminate_inv:
  assumes inv: "pool_inv js ws S" and c: "may_destroy c S" and none: "ps_destroyer S = None"
    and run: "thrdpool_terminate c (S\<lparr>ps_workers := enter_destroy c (ps_workers S)\<rparr>) = Some S'"
  shows "pool_inv js ws S'"
proof -
  note D = pool_invD [OF inv]
  obtain P where n: "js = []" "ws = []" "ps_detached S = {}" "ps_pended S = []" "\<forall>t x. ps_workers S t \<noteq> Some (W_destroy x)" "ps_pool S = Some P" "th_locks P"
    using D(7) none by (auto simp: phase_inv_def)
  let ?W = "wake_all (enter_destroy c (ps_workers S))" and ?M = "pool_members (ps_workers S) {}"
  let ?P = "P\<lparr>th_terminate := True, th_nthreads := card (?M - set_option c)\<rparr>"
  have num: "(if c = None then th_nthreads P else size_pred (th_nthreads P)) = card (?M - set_option c)"
  proof (cases c)
    case None
    then show ?thesis using D(4) [OF n(6)] n(3) by simp
  next
    case (Some t)
    then have t: "t \<in> ?M" using c by (auto simp: may_destroy_def pool_members_def)
    have fin: "finite ?M" by (rule finite_members [OF D(1)])
    have "card (?M - {t}) = card ?M - 1" "0 < card ?M" using t fin by (auto simp: card_gt_0_iff)
    then show ?thesis using D(4) [OF n(6)] n(3) Some by (simp add: size_pred_def)
  qed
  have S': "S' = S\<lparr>ps_pool := Some ?P, ps_workers := ?W, ps_detached := set_option c, ps_destroyer := Some (c, D_check)\<rparr>"
    using run n(3,6,7) num by (simp add: thrdpool_terminate_def locked_def)
  have m: "pool_members ?W (set_option c) = ?M - set_option c"
  proof -
    have "pool_members ?W (set_option c) = pool_members (ps_workers S) (set_option c)" by (simp add: members_wake members_enter)
    then show ?thesis by (auto simp: pool_members_def)
  qed
  have ch: "left_chain ?W js ws" using D(3) n(1,2) by (simp add: left_chain_def exits_wake exits_enter)
  have W3: "\<exists>x. ?W u = Some (W_destroy x)" if "c = Some u" for u
    using c that by (auto simp: may_destroy_def wake_all_def enter_destroy_def)
  have ph: "phase_inv js ws S'"
    by (rule phase_goingI [of _ c D_check ?P]) (use n(1,4,5,7) W3 destroy_in_enter [of c "ps_workers S"] wake_no_sleep [of "enter_destroy c (ps_workers S)"] in \<open>simp_all add: S'\<close>)
  have gone: "?W t \<noteq> Some W_gone" for t using D(6) [of t] n(3) by (auto simp: wake_enter)
  show ?thesis unfolding pool_inv_def using D(1,2,5,8) ch ph m n(3,6) gone unfolding S' by (simp add: dom_wake dom_enter)
qed

lemma terminate_check_inv:
  assumes inv: "pool_inv js ws S" and d: "ps_destroyer S = Some (c, D_check)" and run: "terminate_check c S = Some S'"
  shows "pool_inv js ws S'"
proof -
  note D = pool_invD [OF inv]
  from D(7) show ?thesis
  proof (cases rule: phase_cases)
    case (going c' ph P)
    have e: "c' = c" "ph = D_check" using going(1) d by auto
    have S': "S' = S\<lparr>ps_destroyer := Some (c, if 0 < th_nthreads P then D_wait else D_join)\<rparr>" using run going(6,7) by (simp add: terminate_check_def locked_def)
    have "phase_inv js ws S'"
      by (rule phase_goingI [of _ c "if 0 < th_nthreads P then D_wait else D_join" P]) (use going e D(4) [OF going(6)] finite_members [OF D(1)] in \<open>auto simp: S' split: if_splits\<close>)
    then show ?thesis using D d unfolding S' pool_inv_def by simp
  qed (use d in auto)
qed

lemma terminate_join_inv:
  assumes inv: "pool_inv js ws S" and d: "ps_destroyer S = Some (c, D_join)" and h: "\<And>P. ps_pool S = Some P \<Longrightarrow> th_tid P \<noteq> 0 \<Longrightarrow> has_ended (ps_workers S (th_tid P))"
    and run: "terminate_join c S = Some S'"
  shows "\<exists>js'. pool_inv js' [] S'"
proof -
  note D = pool_invD [OF inv]
  from D(7) show ?thesis
  proof (cases rule: phase_cases)
    case (going c' ph P)
    have e: "c' = c" "ph = D_join" using going(1) d by auto
    have nz: "t \<in> set (js @ ws) \<Longrightarrow> t \<noteq> 0" for t using D(2,3) by (auto simp: left_chain_def exits_def)
    show ?thesis
    proof (cases "ws = []")
      case True
      then have "js = []" using going(13) e by simp
      then have "th_tid P = 0" using D(5) [OF going(6)] True by (simp add: last_or_0_def)
      then have S': "S' = S\<lparr>ps_destroyer := Some (c, D_pend)\<rparr>" using run going(6) by (simp add: terminate_join_def)
      have "phase_inv js ws S'" by (rule phase_goingI [of _ c D_pend P]) (use going e True in \<open>auto simp: S'\<close>)
      then have "pool_inv js [] S'" using D d True unfolding S' pool_inv_def by simp
      then show ?thesis by blast
    next
      case False
      let ?u = "last ws"
      have tid: "th_tid P = ?u" "?u \<noteq> 0" using D(5) [OF going(6)] False nz [of ?u] by (auto simp: last_or_0_def)
      have en: "has_ended (ps_workers S ?u)" using h [OF going(6)] tid by simp
      note j = chain_join_last [OF D(3) False en]
      let ?W = "(ps_workers S)(?u \<mapsto> W_joined)"
      have S': "S' = S\<lparr>ps_workers := ?W, ps_destroyer := Some (c, D_pend)\<rparr>" using run going(6) tid j(2) by (simp add: terminate_join_def join_thread_def)
      have m: "pool_members ?W X = pool_members (ps_workers S) X" for X using j(2) by (auto simp: pool_members_def)
      have "c \<noteq> Some ?u" using going(9) [of ?u] j(2) e by auto
      then have "phase_inv (js @ [?u]) [] S'" using going(3-8,11) going(9) e m by (intro phase_goingI [of _ c D_pend P]) (auto simp: S' split: if_splits)
      moreover have "ps_pool S = Some P \<Longrightarrow> th_tid P = last_or_0 (js @ [?u])" using tid by (simp add: last_or_0_def)
      ultimately have "pool_inv (js @ [?u]) [] S'" unfolding pool_inv_def using D(1,2,4,6,8) j(2,3) m d going(6) unfolding S' by auto
      then show ?thesis by blast
    qed
  qed (use d in auto)
qed

lemma exits_back: "exits (back_to_task c W) = exits W"
  by (auto simp: exits_def back_to_task_def split: option.splits worker.splits if_splits)

lemma members_back: "pool_members (back_to_task c W) D = pool_members W D"
  by (auto simp: pool_members_def back_to_task_def split: option.splits worker.splits if_splits)

lemma dom_back: "dom (back_to_task c W) = dom W"
  by (auto simp: back_to_task_def split: option.splits worker.splits if_splits)

lemma back_same: "back_to_task c W t = Some w \<Longrightarrow> (\<And>x. w \<noteq> W_run x) \<Longrightarrow> W t = Some w"
  by (auto simp: back_to_task_def split: option.splits worker.splits if_splits)

lemma back_exited: "W t = Some w \<Longrightarrow> exited w \<Longrightarrow> back_to_task c W t = Some w"
  by (auto simp: back_to_task_def split: option.splits worker.splits if_splits)

lemma pend_inv:
  assumes inv: "pool_inv js ws S" and d: "ps_destroyer S = Some (c, D_pend)" and run: "destroy_pend c S = Some S'"
  shows "pool_inv js ws S'"
proof -
  note D = pool_invD [OF inv]
  from D(7) show ?thesis
  proof (cases rule: phase_cases)
    case (going c' ph P)
    have e: "c' = c" "ph = D_pend" using going(1) d by auto
    have ws: "ws = []" using going(12) e by simp
    show ?thesis
    proof (cases "th_task_queue P")
      case (Cons x q)
      then have S': "S' = S\<lparr>ps_pool := Some (P\<lparr>th_task_queue := q\<rparr>), ps_pended := ps_pended S @ [x]\<rparr>" using run going(6) by (simp add: destroy_pend_def)
      have "phase_inv js ws S'" by (rule phase_goingI [of _ c D_pend "P\<lparr>th_task_queue := q\<rparr>"]) (use going e in \<open>auto simp: S'\<close>)
      then show ?thesis unfolding pool_inv_def using D(1-6,8) d going(6) Cons unfolding S' by simp
    next
      case Nil
      let ?W = "back_to_task c (ps_workers S)"
      have S': "S' = S\<lparr>ps_pool := (if c = None then None else Some (P\<lparr>th_locks := False\<rparr>)), ps_workers := ?W, ps_destroyer := Some (c, D_over)\<rparr>"
        using run going(6) Nil by (simp add: destroy_pend_def)
      have ch: "left_chain ?W js ws" using D(3) ws back_exited [of "ps_workers S" _ W_joined c] by (auto simp: left_chain_def exits_back)
      have o: "over_inv c S'"
      proof (cases c)
        case None
        then show ?thesis by (simp add: over_inv_def S')
      next
        case (Some t)
        then obtain x where "ps_workers S t = Some (W_destroy x)" using going(9) e by blast
        then show ?thesis using Some Nil by (simp add: over_inv_def S' back_to_task_def)
      qed
      have "phase_inv js ws S'"
        by (rule phase_overI [of _ c]) (use going e ws o in \<open>auto simp: S' members_back dest!: back_same\<close>)
      moreover have "?W t = Some W_gone \<Longrightarrow> t \<in> ps_detached S" for t using D(6) [of t] back_same by force
      ultimately show ?thesis unfolding pool_inv_def using D(1,2,8) D(4,5) [OF going(6)] ch d going(6) Nil unfolding S' by (auto simp: dom_back members_back)
    qed
  qed (use d in auto)
qed

lemma over_creating: "over_inv c (S\<lparr>ps_creating := n\<rparr>) = over_inv c S"
  by (cases c) (simp_all add: over_inv_def)

lemma phase_creating: "phase_inv js ws (S\<lparr>ps_creating := n\<rparr>) = phase_inv js ws S"
  by (cases "ps_destroyer S") (simp_all add: phase_inv_def over_creating split: prod.splits)

lemma inv_creating: "pool_inv js ws S \<Longrightarrow> pool_inv js ws (S\<lparr>ps_creating := n\<rparr>)"
  by (simp add: pool_inv_def phase_creating)

lemma create_inv:
  assumes inv: "pool_inv js ws S" and none: "ps_destroyer S = None" and t: "ps_workers S t = None" "t \<noteq> 0" and run: "create_threads r t n S = Some S'"
  shows "pool_inv js ws S'"
proof -
  obtain P where P: "ps_pool S = Some P" "th_locks P" using pool_invD(7) [OF inv] none by (auto simp: phase_inv_def)
  have e: "S\<lparr>ps_workers := enter_destroy None (ps_workers S)\<rparr> = S" by (simp add: enter_destroy_def)
  have T: "thrdpool_terminate None S = Some S' \<Longrightarrow> pool_inv js ws S'" using terminate_inv [OF inv _ none, of None S'] unfolding e by (simp add: may_destroy_def)
  show ?thesis using run P(1) spawn_inv [OF inv P(1) _ t] none T inv_creating [OF inv] by (auto simp: create_threads_def split: if_splits)
qed

lemma d_wake_inv:
  assumes inv: "pool_inv js ws S" and d: "ps_destroyer S = Some (c, D_wait)"
  shows "pool_inv js ws (S\<lparr>ps_destroyer := Some (c, D_check)\<rparr>)" (is "pool_inv _ _ ?S")
proof -
  note D = pool_invD [OF inv]
  have "phase_inv js ws ?S" using D(7)
  proof (cases rule: phase_cases)
    case (going c' ph P)
    then show ?thesis using d by (intro phase_goingI [of _ c D_check P]) auto
  qed (use d in auto)
  then show ?thesis using D d unfolding pool_inv_def by simp
qed

end
