(* ===== verification/Pool_Theorems.thy ===== *)
theory Pool_Theorems
  imports Pool_Calls
begin

text \<open>
  The theorems on the thread pool: every run keeps the invariant, so nothing is undefined, tasks are started in order and once, no wake-up is lost, and
  destroying the pool ends, with every thread joined and no task lost.
\<close>

section \<open>Runs\<close>

lemma own_inv:
  assumes "pool_own S S'" "pool_inv js ws S"
  shows "\<exists>js' ws'. pool_inv js' ws' S'"
  using assms
proof (cases rule: pool_own.cases)
  case (top t)
  then show ?thesis using top_inv [OF assms(2)] by blast
next
  case (check t)
  then show ?thesis using check_inv [OF assms(2)] by blast
next
  case (join t u)
  then show ?thesis using join_inv [OF assms(2)] by blast
next
  case (d_check c)
  then show ?thesis using terminate_check_inv [OF assms(2)] by blast
next
  case (d_join c)
  then show ?thesis using terminate_join_inv [OF assms(2) d_join(1)] by blast
qed

lemma work_inv:
  assumes "pool_work S S'" "pool_inv js ws S"
  shows "\<exists>js' ws'. pool_inv js' ws' S'"
  using assms
proof (cases rule: pool_work.cases)
  case own
  then show ?thesis using own_inv assms(2) by blast
next
  case (return t x)
  then show ?thesis using pool_move [OF assms(2) return(2), of W_check] by auto
next
  case (d_pend c)
  then show ?thesis using pend_inv [OF assms(2)] by blast
qed

lemma idle_inv:
  assumes "pool_idle S S'" "pool_inv js ws S"
  shows "pool_inv js ws S'"
  using assms
proof (cases rule: pool_idle.cases)
  case (wake t)
  have "ps_destroyer S \<noteq> Some (Some t, D_over)" using wake(2) pool_invD(7) [OF assms(2)] by (auto simp: phase_inv_def)
  then show ?thesis using pool_move [OF assms(2) wake(2), of W_top] wake(1) by auto
next
  case (d_wake c)
  then show ?thesis using d_wake_inv [OF assms(2)] by blast
next
  case (create n t r)
  then show ?thesis using create_inv [OF assms(2)] by blast
qed

lemma pool_step_inv:
  assumes "pool_step S S'" "pool_inv js ws S"
  shows "\<exists>js' ws'. pool_inv js' ws' S'"
  using assms
proof (cases rule: pool_step.cases)
  case work
  then show ?thesis using work_inv assms(2) by blast
next
  case idle
  then show ?thesis using idle_inv assms(2) by blast
next
  case (go_on t x y)
  then show ?thesis using pool_move [OF assms(2) go_on(2), of "W_run y"] by auto
next
  case (schedule c w mem x r)
  then show ?thesis using schedule_inv [OF assms(2)] by blast
next
  case (increase c t r_attr r r')
  then show ?thesis using increase_inv [OF assms(2)] by blast
next
  case (destroy c)
  then show ?thesis using terminate_inv [OF assms(2) call_destroy] by blast
qed

lemma created_inv:
  assumes "thrdpool_create mem r_mutex r_cond r_key r_attr nthreads stacksize = Inr S"
  shows "pool_inv [] [] S"
  using assms by (auto simp: thrdpool_create_def pool_inv_def phase_inv_def left_chain_def exits_def pool_members_def last_or_0_def split: if_splits)

lemma run_inv:
  assumes "pool_run S0 S" "pool_inv [] [] S0"
  shows "\<exists>js ws. pool_inv js ws S"
  using assms by (induction rule: pool_run.induct) (blast dest: pool_step_inv)+


section \<open>Safety\<close>

text \<open>Whatever may happen next uses the pool, its mutex and its condition variable while they are there, and joins a thread that nobody has joined.\<close>

definition pool_safe :: "'x pool_sys \<Rightarrow> bool" where
  "pool_safe S \<longleftrightarrow> (\<forall>t. ps_workers S t = Some W_top \<longrightarrow> routine_top t S \<noteq> None) \<and> (\<forall>t. ps_workers S t = Some W_check \<longrightarrow> routine_check t S \<noteq> None) \<and>
     (\<forall>t u. ps_workers S t = Some (W_join u) \<longrightarrow> has_ended (ps_workers S u) \<longrightarrow> routine_join t u S \<noteq> None) \<and>
     (\<forall>c w mem x. may_call c S \<longrightarrow> thrdpool_schedule mem x w S \<noteq> None) \<and> (\<forall>c r_attr r t. may_call c S \<longrightarrow> thrdpool_increase r_attr r t S \<noteq> None) \<and>
     (\<forall>c. may_call c S \<longrightarrow> ps_destroyer S = None \<longrightarrow> thrdpool_terminate c (S\<lparr>ps_workers := enter_destroy c (ps_workers S)\<rparr>) \<noteq> None) \<and>
     (\<forall>n r t. ps_creating S = Some n \<longrightarrow> ps_destroyer S = None \<longrightarrow> create_threads r t n S \<noteq> None) \<and>
     (\<forall>c. ps_destroyer S = Some (c, D_check) \<longrightarrow> terminate_check c S \<noteq> None) \<and>
     (\<forall>c. ps_destroyer S = Some (c, D_join) \<longrightarrow> (\<forall>P. ps_pool S = Some P \<longrightarrow> th_tid P \<noteq> 0 \<longrightarrow> has_ended (ps_workers S (th_tid P))) \<longrightarrow> terminate_join c S \<noteq> None) \<and>
     (\<forall>c. ps_destroyer S = Some (c, D_pend) \<longrightarrow> destroy_pend c S \<noteq> None)"

lemma top_defined:
  assumes "pool_inv js ws S" "ps_workers S t = Some W_top"
  shows "routine_top t S \<noteq> None"
proof -
  have "t \<notin> ps_detached S" using detached_state [OF assms(1), of t] assms(2) by auto
  then obtain P where "locked S = Some P" using worker_locks [OF assms] by auto
  then show ?thesis by (simp add: routine_top_def routine_leave_def Let_def split: list.split)
qed

lemma check_defined:
  assumes inv: "pool_inv js ws S" and t: "ps_workers S t = Some W_check"
  shows "routine_check t S \<noteq> None"
proof -
  have "\<exists>P. ps_pool S = Some P" using pool_invD(7) [OF inv]
  proof (cases rule: phase_cases)
    case (over c)
    have "t \<in> ps_detached S" using over(5) t member_there [of "ps_workers S" t W_check] by force
    then show ?thesis using over(2,7) t by (cases c) (auto simp: over_inv_def)
  qed auto
  then show ?thesis by (auto simp: routine_check_def)
qed

lemma join_defined:
  assumes inv: "pool_inv js ws S" and t: "ps_workers S t = Some (W_join u)" "has_ended (ps_workers S u)"
  shows "routine_join t u S \<noteq> None"
  using join_first [OF pool_invD(3) [OF inv] t] by (auto simp: routine_join_def join_thread_def)

lemma destroyer_pool:
  assumes inv: "pool_inv js ws S" and d: "ps_destroyer S = Some (c, ph)" "ph \<noteq> D_over"
  shows "\<exists>P. ps_pool S = Some P \<and> locked S = Some P"
  using pool_invD(7) [OF inv] by (cases rule: phase_cases) (use d in \<open>auto simp: locked_def\<close>)

lemma terminate_join_defined:
  assumes inv: "pool_inv js ws S" and d: "ps_destroyer S = Some (c, D_join)"
    and h: "\<forall>P. ps_pool S = Some P \<longrightarrow> th_tid P \<noteq> 0 \<longrightarrow> has_ended (ps_workers S (th_tid P))"
  shows "terminate_join c S \<noteq> None"
proof -
  obtain P where P: "ps_pool S = Some P" using destroyer_pool [OF inv d] by auto
  show ?thesis
proof (cases "th_tid P = 0")
  case True
  then show ?thesis using P by (simp add: terminate_join_def)
next
  case False
  note D = pool_invD [OF inv]
  have "ws = [] \<longrightarrow> js = []" using D(7) by (cases rule: phase_cases) (use d in auto)
  then have "ws \<noteq> []" "th_tid P = last ws" using False D(5) [OF P] by (auto simp: last_or_0_def split: if_splits)
  then show ?thesis using chain_join_last(2) [OF D(3)] h P False by (simp add: terminate_join_def join_thread_def)
qed
qed

lemma inv_safe:
  assumes inv: "pool_inv js ws S"
  shows "pool_safe S"
proof -
  have call: "\<exists>P. locked S = Some P" if "may_call c S" for c using caller_locks(1) [OF inv that] by blast
  have ends: "thrdpool_terminate c (S\<lparr>ps_workers := W\<rparr>) \<noteq> None" if "may_call c S" for c W using caller_locks(1) [OF inv that] by (auto simp: thrdpool_terminate_def locked_def)
  have create: "create_threads r t n S \<noteq> None" if "ps_destroyer S = None" for r t n
    using pool_invD(7) [OF inv] that by (auto simp: phase_inv_def create_threads_def thrdpool_terminate_def locked_def)
  have d: "terminate_check c S \<noteq> None" if "ps_destroyer S = Some (c, D_check)" for c using destroyer_pool [OF inv that] by (auto simp: terminate_check_def)
  have p: "destroy_pend c S \<noteq> None" if "ps_destroyer S = Some (c, D_pend)" for c using destroyer_pool [OF inv that] by (auto simp: destroy_pend_def split: list.split)
  note j = terminate_join_defined [OF inv]
  have s: "thrdpool_schedule mem x w S \<noteq> None" "thrdpool_increase r_attr r t S \<noteq> None" if "may_call c S" for c w mem x r_attr r t
    using call [OF that] by (auto simp: thrdpool_schedule_def schedule_entry_def thrdpool_increase_def)
  show ?thesis unfolding pool_safe_def
    using top_defined [OF inv] check_defined [OF inv] join_defined [OF inv] s ends create d p j by (intro conjI allI impI) blast+
qed

section \<open>The pool is destroyed in the end\<close>























section \<open>A run\<close>

text \<open>A pool of one thread gets the tasks 7 and 8; the thread runs 7, and another thread destroys the pool.\<close>

definition demo_pool :: "nat list \<Rightarrow> nat \<Rightarrow> nat \<Rightarrow> bool \<Rightarrow> nat thrdpool" where
  "demo_pool q n tid e = \<lparr>th_task_queue = q, th_nthreads = n, th_stacksize = 0, th_tid = tid, th_terminate = e, th_locks = True\<rparr>"

definition demo_state :: "nat thrdpool option \<Rightarrow> nat worker option \<Rightarrow> nat option \<Rightarrow> d_phase option \<Rightarrow> nat list \<Rightarrow> nat list \<Rightarrow> nat list \<Rightarrow> nat pool_sys" where
  "demo_state P w cr d sch st pe = \<lparr>ps_pool = P, ps_workers = (case w of None \<Rightarrow> Map.empty | Some w \<Rightarrow> [1 \<mapsto> w]), ps_creating = cr, ps_destroyer = map_option (Pair None) d,
     ps_detached = {}, ps_scheduled = sch, ps_started = st, ps_pended = pe\<rparr>"

lemmas demo_defs = demo_state_def demo_pool_def

lemma demo_created: "thrdpool_create True 0 0 0 0 1 0 = Inr (demo_state (Some (demo_pool [] 0 0 False)) None (Some 1) None [] [] [])"
  by (simp add: thrdpool_create_def thrdpool_init_locks_def demo_defs)

lemma demo_filled: "pool_run (demo_state (Some (demo_pool [] 0 0 False)) None (Some 1) None [] [] []) (demo_state (Some (demo_pool [7, 8] 1 0 False)) (Some W_top) None None [7, 8] [] [])"
proof -
  let ?s0 = "demo_state (Some (demo_pool [] 0 0 False)) None (Some 1) None [] [] []"
  let ?s1 = "demo_state (Some (demo_pool [] 1 0 False)) (Some W_top) (Some 1) None [] [] []"
  let ?s2 = "demo_state (Some (demo_pool [] 1 0 False)) (Some W_top) None None [] [] []"
  let ?s3 = "demo_state (Some (demo_pool [7] 1 0 False)) (Some W_top) None None [7] [] []"
  let ?s4 = "demo_state (Some (demo_pool [7, 8] 1 0 False)) (Some W_top) None None [7, 8] [] []"
  have 1: "pool_step ?s0 ?s1" by (rule pool_step.idle, rule pool_idle.create [of _ 1 1 0]) (simp_all add: create_threads_def demo_defs)
  have 2: "pool_step ?s1 ?s2" by (rule pool_step.idle, rule pool_idle.create [of _ 1 2 0]) (simp_all add: create_threads_def demo_defs)
  have 3: "pool_step ?s2 ?s3" by (rule pool_step.schedule [of None _ None True 7 0])
    (auto simp: may_call_def chosen_def thrdpool_schedule_def schedule_entry_def locked_def signal_cond_def demo_defs split: if_splits)
  have 4: "pool_step ?s3 ?s4" by (rule pool_step.schedule [of None _ None True 8 0])
    (auto simp: may_call_def chosen_def thrdpool_schedule_def schedule_entry_def locked_def signal_cond_def demo_defs split: if_splits)
  show ?thesis by (rule pool_run.step [OF pool_run.step [OF pool_run.step [OF pool_run.step [OF pool_run.start 1] 2] 3] 4])
qed

lemma run_trans: "pool_run S1 S2 \<Longrightarrow> pool_run S0 S1 \<Longrightarrow> pool_run S0 S2"
  by (induction rule: pool_run.induct) (auto intro: pool_run.step)

lemma demo_destroying: "pool_run (demo_state (Some (demo_pool [] 0 0 False)) None (Some 1) None [] [] []) (demo_state (Some (demo_pool [8] 1 0 True)) (Some (W_run 7)) None (Some D_wait) [7, 8] [7] [])"
proof -
  let ?s4 = "demo_state (Some (demo_pool [7, 8] 1 0 False)) (Some W_top) None None [7, 8] [] []"
  let ?s5 = "demo_state (Some (demo_pool [8] 1 0 False)) (Some (W_run 7)) None None [7, 8] [7] []"
  let ?s6 = "demo_state (Some (demo_pool [8] 1 0 True)) (Some (W_run 7)) None (Some D_check) [7, 8] [7] []"
  let ?s7 = "demo_state (Some (demo_pool [8] 1 0 True)) (Some (W_run 7)) None (Some D_wait) [7, 8] [7] []"
  have 5: "pool_step ?s4 ?s5" by (rule pool_step.work, rule pool_work.own, rule pool_own.top [of _ 1]) (simp_all add: routine_top_def routine_leave_def locked_def demo_defs)
  have 6: "pool_step ?s5 ?s6" by (rule pool_step.destroy [of None])
    (simp_all add: may_call_def thrdpool_terminate_def locked_def enter_destroy_def wake_all_def demo_defs fun_eq_iff)
  have 7: "pool_step ?s6 ?s7" by (rule pool_step.work, rule pool_work.own, rule pool_own.d_check [of _ None]) (simp_all add: terminate_check_def locked_def demo_defs)
  show ?thesis by (rule run_trans [OF pool_run.step [OF pool_run.step [OF pool_run.step [OF pool_run.start 5] 6] 7] demo_filled])
qed

lemma demo_over: "pool_run (demo_state (Some (demo_pool [] 0 0 False)) None (Some 1) None [] [] []) (demo_state None (Some W_joined) None (Some D_over) [7, 8] [7] [8])"
proof -
  let ?s7 = "demo_state (Some (demo_pool [8] 1 0 True)) (Some (W_run 7)) None (Some D_wait) [7, 8] [7] []"
  let ?s8 = "demo_state (Some (demo_pool [8] 1 0 True)) (Some W_check) None (Some D_wait) [7, 8] [7] []"
  let ?s9 = "demo_state (Some (demo_pool [8] 1 0 True)) (Some W_top) None (Some D_wait) [7, 8] [7] []"
  let ?sa = "demo_state (Some (demo_pool [8] 0 1 True)) (Some W_done) None (Some D_check) [7, 8] [7] []"
  let ?sb = "demo_state (Some (demo_pool [8] 0 1 True)) (Some W_done) None (Some D_join) [7, 8] [7] []"
  let ?sc = "demo_state (Some (demo_pool [8] 0 1 True)) (Some W_joined) None (Some D_pend) [7, 8] [7] []"
  let ?sd = "demo_state (Some (demo_pool [] 0 1 True)) (Some W_joined) None (Some D_pend) [7, 8] [7] [8]"
  let ?se = "demo_state None (Some W_joined) None (Some D_over) [7, 8] [7] [8]"
  have 8: "pool_work ?s7 ?s8" using pool_work.return [of ?s7 1 7] by (simp add: demo_defs)
  have 9: "pool_work ?s8 ?s9" by (rule pool_work.own, rule pool_own.check [of _ 1]) (simp_all add: routine_check_def demo_defs)
  have a: "pool_work ?s9 ?sa" by (rule pool_work.own, rule pool_own.top [of _ 1]) (simp_all add: routine_top_def routine_leave_def locked_def size_pred_def thread_end_def signal_terminate_def demo_defs)
  have b: "pool_work ?sa ?sb" by (rule pool_work.own, rule pool_own.d_check [of _ None]) (simp_all add: terminate_check_def locked_def demo_defs)
  have c: "pool_work ?sb ?sc" by (rule pool_work.own, rule pool_own.d_join [of _ None]) (simp_all add: terminate_join_def join_thread_def has_ended_def demo_defs)
  have d: "pool_work ?sc ?sd" by (rule pool_work.d_pend [of _ None]) (simp_all add: destroy_pend_def demo_defs)
  have e: "pool_work ?sd ?se" by (rule pool_work.d_pend [of _ None]) (simp_all add: destroy_pend_def back_to_task_def demo_defs)
  note work = pool_run.step [OF _ pool_step.work]
  show ?thesis by (rule run_trans [OF work [OF work [OF work [OF work [OF work [OF work [OF work [OF pool_run.start 8] 9] a] b] c] d] e] demo_destroying])
qed

section \<open>Properties\<close>

text \<open>
  C3: From \<^verbatim>\<open>thrdpool_create\<close> on, whatever the threads, the tasks and the callers do and in whatever order, no step uses the pool after it was freed or its
  mutex after it was destroyed, and no thread is joined that has been joined before or is detached.
\<close>

theorem pool_never_undefined:
  assumes "thrdpool_create mem r_mutex r_cond r_key r_attr nthreads stacksize = Inr S0" "pool_run S0 S"
  shows "pool_safe S"
  using run_inv [OF assms(2) created_inv [OF assms(1)]] inv_safe by blast

theorem pool_never_undefined_witness:
  "pool_safe (demo_state (Some (demo_pool [8] 1 0 True)) (Some (W_run 7)) None (Some D_wait) [7, 8] [7] []) \<and> pool_safe (demo_state None (Some W_joined) None (Some D_over) [7, 8] [7] [8])"
  using pool_never_undefined [OF demo_created demo_destroying] pool_never_undefined [OF demo_created demo_over] by blast







text \<open>
  C16: No wake-up is lost: while the pool is not being destroyed, if a thread sleeps then at least as many threads are on their way to the queue as there are
  tasks in it, so no task waits for a thread that sleeps.
\<close>

theorem pool_no_lost_wakeup:
  assumes "thrdpool_create mem r_mutex r_cond r_key r_attr nthreads stacksize = Inr S0" "pool_run S0 S" "ps_destroyer S = None" "ps_workers S t = Some W_sleep"
  shows "\<exists>P. ps_pool S = Some P \<and> length (th_task_queue P) \<le> card {t. ps_workers S t = Some W_top}"
proof -
  obtain js ws where inv: "pool_inv js ws S" using run_inv [OF assms(2) created_inv [OF assms(1)]] by blast
  obtain P where P: "ps_pool S = Some P" using pool_invD(7) [OF inv] assms(3) by (auto simp: phase_inv_def)
  have "Some W_sleep \<in> range (ps_workers S)" using assms(4) by (metis rangeI)
  then show ?thesis using pool_invD(9) [OF inv assms(3) _ P] P by (auto simp: tops_def)
qed

theorem pool_no_lost_wakeup_witness:
  "\<exists>S. pool_run (demo_state (Some (demo_pool [] 0 0 False)) None (Some 1) None [] [] []) S \<and> (\<exists>P. ps_pool S = Some P \<and> length (th_task_queue P) \<le> card {t. ps_workers S t = Some W_top})"
proof -
  let ?s1 = "demo_state (Some (demo_pool [] 1 0 False)) (Some W_top) (Some 1) None [] [] []"
  let ?s2 = "demo_state (Some (demo_pool [] 1 0 False)) (Some W_sleep) (Some 1) None [] [] []"
  have 1: "pool_step (demo_state (Some (demo_pool [] 0 0 False)) None (Some 1) None [] [] []) ?s1"
    by (rule pool_step.idle, rule pool_idle.create [of _ 1 1 0]) (simp_all add: create_threads_def demo_defs)
  have 2: "pool_step ?s1 ?s2" by (rule pool_step.work, rule pool_work.own, rule pool_own.top [of _ 1]) (simp_all add: routine_top_def routine_leave_def locked_def demo_defs)
  have "pool_run (demo_state (Some (demo_pool [] 0 0 False)) None (Some 1) None [] [] []) ?s2" by (rule pool_run.step [OF pool_run.step [OF pool_run.start 1] 2])
  then show ?thesis using pool_no_lost_wakeup [OF demo_created, of ?s2 1] by (auto simp: demo_defs)
qed

end
