(* ===== verification/Exec_Inv.thy ===== *)
theory Exec_Inv
  imports Executor Pool_Theorems
begin

text \<open>
  Sums over the tasks of a pool, those in its queue and those that its threads run, and how the steps of the pool change them.
\<close>

section \<open>What the tasks of the pool add up to\<close>

definition pc_of :: "'x worker \<Rightarrow> 'x option" where
  "pc_of w = (case w of W_run x \<Rightarrow> Some x | W_destroy x \<Rightarrow> Some x | _ \<Rightarrow> None)"

definition pool_queue :: "'x pool_sys \<Rightarrow> 'x list" where
  "pool_queue S = (case ps_pool S of Some P \<Rightarrow> th_task_queue P | None \<Rightarrow> [])"

definition running :: "('x option \<Rightarrow> 'b :: cancel_comm_monoid_add) \<Rightarrow> (nat \<rightharpoonup> 'x worker) \<Rightarrow> 'b" where
  "running f W = (\<Sum>t \<in> dom W. f (pc_of (the (W t))))"

definition tasks :: "('x option \<Rightarrow> 'b :: cancel_comm_monoid_add) \<Rightarrow> 'x pool_sys \<Rightarrow> 'b" where
  "tasks f S = (\<Sum>x \<leftarrow> pool_queue S. f (Some x)) + running f (ps_workers S)"

lemma pc_of_simps [simp]: "pc_of (W_run x) = Some x" "pc_of (W_destroy x) = Some x" "pc_of W_top = None" "pc_of W_sleep = None" "pc_of W_check = None"
  "pc_of (W_join t) = None" "pc_of W_done = None" "pc_of W_joined = None" "pc_of W_gone = None"
  by (simp_all add: pc_of_def)

lemma running_upd:
  assumes "finite (dom W)" "W t = Some w"
  shows "running f (W(t \<mapsto> w')) + f (pc_of w) = running f W + f (pc_of w')"
proof -
  have d: "dom (W(t \<mapsto> w')) = dom W" "t \<in> dom W" using assms(2) by auto
  have s: "(\<Sum>u \<in> dom W - {t}. f (pc_of (the ((W(t \<mapsto> w')) u)))) = (\<Sum>u \<in> dom W - {t}. f (pc_of (the (W u))))" by (rule sum.cong) auto
  show ?thesis unfolding running_def d(1) using sum.remove [OF assms(1) d(2), of "\<lambda>u. f (pc_of (the ((W(t \<mapsto> w')) u)))"]
      sum.remove [OF assms(1) d(2), of "\<lambda>u. f (pc_of (the (W u)))"] s assms(2) by (simp add: ac_simps)
qed

lemma running_same:
  assumes "finite (dom W)" "W t = Some w" "f (pc_of w) = f (pc_of w')"
  shows "running f (W(t \<mapsto> w')) = running f W"
  using running_upd [OF assms(1,2), of f w'] assms(3) by simp

lemma running_new: "finite (dom W) \<Longrightarrow> W t = None \<Longrightarrow> running f (W(t \<mapsto> w)) = running f W + f (pc_of w)"
proof -
  assume fin: "finite (dom W)" and t: "W t = None"
  have "(\<Sum>u \<in> dom W. f (pc_of (the ((W(t \<mapsto> w)) u)))) = (\<Sum>u \<in> dom W. f (pc_of (the (W u))))" by (rule sum.cong) (use t in auto)
  then show ?thesis unfolding running_def using fin t by (simp add: domIff ac_simps)
qed

lemma running_pcs:
  assumes "dom W' = dom W" "\<And>t w w'. W t = Some w \<Longrightarrow> W' t = Some w' \<Longrightarrow> pc_of w' = pc_of w"
  shows "running f W' = running f W"
  unfolding running_def assms(1)
proof (rule sum.cong)
  fix t assume t: "t \<in> dom W"
  then have "t \<in> dom W'" using assms(1) by blast
  then show "f (pc_of (the (W' t))) = f (pc_of (the (W t)))" using t assms(2) [of t] by auto
qed simp

lemma running_wake [simp]: "running f (wake_all W) = running f W"
  by (rule running_pcs [OF dom_wake]) (auto simp: wake_all_def split: if_splits)

lemma running_enter [simp]: "running f (enter_destroy c W) = running f W"
  by (rule running_pcs [OF dom_enter]) (auto simp: enter_destroy_def split: option.splits worker.splits if_splits)

lemma running_back [simp]: "running f (back_to_task c W) = running f W"
  by (rule running_pcs [OF dom_back]) (auto simp: back_to_task_def split: option.splits worker.splits if_splits)

lemma pool_queue_simps [simp]: "pool_queue (S\<lparr>ps_workers := W\<rparr>) = pool_queue S" "pool_queue (S\<lparr>ps_destroyer := d\<rparr>) = pool_queue S" "pool_queue (S\<lparr>ps_creating := n\<rparr>) = pool_queue S"
  "pool_queue (S\<lparr>ps_pool := Some P\<rparr>) = th_task_queue P" "pool_queue (S\<lparr>ps_pool := None\<rparr>) = []" "pool_queue (S\<lparr>ps_detached := D\<rparr>) = pool_queue S"
  "pool_queue (S\<lparr>ps_scheduled := xs\<rparr>) = pool_queue S" "pool_queue (S\<lparr>ps_started := xs\<rparr>) = pool_queue S" "pool_queue (S\<lparr>ps_pended := xs\<rparr>) = pool_queue S"
  by (simp_all add: pool_queue_def)

lemma signal_same: "pool_queue (signal_terminate S) = pool_queue S" "ps_workers (signal_terminate S) = ps_workers S" "ps_detached (signal_terminate S) = ps_detached S"
  by (auto simp: signal_terminate_def split: option.splits prod.splits d_phase.splits)

text \<open>What a thread of the pool does on its own moves a task from the queue to the thread, or moves none.\<close>

lemma top_tasks:
  assumes inv: "pool_inv js ws S" and t: "ps_workers S t = Some W_top" and run: "routine_top t S = Some S'" and f: "f None = 0"
  shows "tasks f S' = tasks f S \<and> set (pool_queue S') \<subseteq> set (pool_queue S) \<and> ps_detached S' = ps_detached S"
proof -
  note R = running_upd [OF pool_invD(1) [OF inv] t, of f]
  obtain P where P: "ps_pool S = Some P" "locked S = Some P" using run by (auto simp: routine_top_def routine_leave_def locked_def split: bind_splits if_splits)
  then have q: "pool_queue S = th_task_queue P" by (simp add: pool_queue_def)
  show ?thesis
  proof (cases "th_terminate P")
    case True
    let ?w = "if th_tid P \<noteq> 0 then W_join (th_tid P) else thread_end t S"
    have "pc_of ?w = None" by (simp add: thread_end_def)
    then have "running f ((ps_workers S)(t \<mapsto> ?w)) = running f (ps_workers S)" using R [of ?w] f by simp
    then show ?thesis using run P True q by (cases "size_pred (th_nthreads P) = 0") (auto simp: routine_top_def routine_leave_def tasks_def Let_def signal_same)
  next
    case False
    then show ?thesis using run P q R [of W_sleep] R [of "W_run (hd (th_task_queue P))"] f by (auto simp: routine_top_def routine_leave_def tasks_def ac_simps split: list.splits)
  qed
qed

lemma own_tasks:
  assumes own: "pool_own S S'" and inv: "pool_inv js ws S" and f: "f None = 0"
  shows "tasks f S' = tasks f S \<and> set (pool_queue S') \<subseteq> set (pool_queue S) \<and> ps_detached S' = ps_detached S"
proof -
  note fin = pool_invD(1) [OF inv]
  from own show ?thesis
  proof (cases rule: pool_own.cases)
    case (top t)
    then show ?thesis using top_tasks [where f = f, OF inv _ _ f] by blast
  next
    case (check t)
    have "pool_queue S = []" if "ps_pool S = Some P" "th_nthreads P = 0" for P
    proof -
      have m: "pool_members (ps_workers S) (ps_detached S) = {}" using pool_invD(4) [OF inv that(1)] that(2) finite_members [OF fin] by simp
      then have "t \<in> ps_detached S" using check(1) member_there [of "ps_workers S" t W_check] by force
      from pool_invD(7) [OF inv] show ?thesis
      proof (cases rule: phase_cases)
        case (going c ph P')
        then show ?thesis using \<open>t \<in> ps_detached S\<close> check(1) by (cases c) auto
      next
        case (over c)
        then show ?thesis using \<open>t \<in> ps_detached S\<close> check(1) that(1) by (cases c) (auto simp: over_inv_def pool_queue_def)
      qed (use \<open>t \<in> ps_detached S\<close> in auto)
    qed
    then show ?thesis using check(2) running_same [OF fin check(1), of f W_top] running_same [OF fin check(1), of f "thread_end t S"]
      by (auto simp: routine_check_def tasks_def thread_end_def split: bind_splits if_splits)
  next
    case (join t u)
    have u: "ps_workers S u = Some W_done" "u \<noteq> t" using join_first [OF pool_invD(3) [OF inv] join(1,2)] pool_invD(3) [OF inv] by (auto simp: left_chain_def)
    have "running f ((ps_workers S)(u \<mapsto> W_joined, t \<mapsto> thread_end t S)) = running f (ps_workers S)"
      using running_same [OF fin u(1), of f W_joined] running_same [of "(ps_workers S)(u \<mapsto> W_joined)" t "W_join u" f "thread_end t S"] fin join(1) u(2) by (simp add: thread_end_def)
    then show ?thesis using join(3) u(1) by (auto simp: routine_join_def join_thread_def tasks_def thread_end_def)
  next
    case (d_check c)
    then show ?thesis by (auto simp: terminate_check_def tasks_def split: bind_splits)
  next
    case (d_join c)
    then show ?thesis using running_same [OF fin, of _ W_done f W_joined] f by (auto simp: terminate_join_def join_thread_def tasks_def split: bind_splits if_splits option.splits worker.splits)
  qed
qed

lemma idle_tasks:
  assumes idle: "pool_idle S S'" and inv: "pool_inv js ws S" and f: "f None = 0"
  shows "tasks f S' = tasks f S \<and> pool_queue S' = pool_queue S \<and> ps_detached S' = ps_detached S"
  using idle
proof (cases rule: pool_idle.cases)
  case (wake t)
  then show ?thesis using running_same [OF pool_invD(1) [OF inv] wake(2), of f W_top] by (simp add: tasks_def)
next
  case (d_wake c)
  then show ?thesis by (simp add: tasks_def)
next
  case (create n t r)
  have "pool_queue S = th_task_queue P" if "ps_pool S = Some P" for P using that by (simp add: pool_queue_def)
  then show ?thesis using create(5) running_new [OF pool_invD(1) [OF inv] create(3), of f W_top] f
    by (auto simp: create_threads_def thrdpool_terminate_def locked_def tasks_def split: bind_splits if_splits)
qed

lemma schedule_tasks:
  assumes inv: "finite (dom (ps_workers S))" and w: "chosen w S" and run: "schedule_entry x w S = Some S'" and f: "f None = 0"
  shows "tasks f S' = tasks f S + f (Some x)" "pool_queue S' = pool_queue S @ [x]" "ps_detached S' = ps_detached S"
proof -
  obtain P where P: "ps_pool S = Some P" "locked S = Some P" using run by (auto simp: schedule_entry_def locked_def split: bind_splits if_splits)
  have r: "running f (case w of Some t \<Rightarrow> (ps_workers S)(t \<mapsto> W_top) | None \<Rightarrow> ps_workers S) = running f (ps_workers S)"
    using running_same [OF inv, of _ W_sleep f W_top] w by (auto simp: chosen_def split: option.splits)
  show "tasks f S' = tasks f S + f (Some x)" "pool_queue S' = pool_queue S @ [x]" "ps_detached S' = ps_detached S"
    using run P r by (auto simp: schedule_entry_def signal_cond_def tasks_def pool_queue_def ac_simps split: option.splits)
qed

lemma terminate_tasks:
  assumes "thrdpool_terminate c (S\<lparr>ps_workers := enter_destroy c (ps_workers S)\<rparr>) = Some S'"
  shows "tasks f S' = tasks f S" "pool_queue S' = pool_queue S"
  using assms by (auto simp: thrdpool_terminate_def locked_def tasks_def pool_queue_def split: bind_splits if_splits)

lemma pend_tasks:
  assumes "destroy_pend c S = Some S'" "ps_pool S = Some P"
  shows "tasks f S = tasks f S' + (case th_task_queue P of [] \<Rightarrow> 0 | x # _ \<Rightarrow> f (Some x))" "set (pool_queue S') \<subseteq> set (pool_queue S)"
  using assms by (auto simp: destroy_pend_def tasks_def pool_queue_def ac_simps split: list.splits if_splits)

end
