(* ===== verification/Exec_Theorems.thy ===== *)
theory Exec_Theorems
  imports Exec_Inv
begin

text \<open>
  The theorems on the executor: its invariant, that its runs are runs of the pool, and in which order sessions are taken.
\<close>

section \<open>The invariant\<close>

definition enters :: "nat \<Rightarrow> exec_pc option \<Rightarrow> nat" where
  "enters q p = (if p = Some (X_enter q) then 1 else 0)"

definition executing :: "exec_pc option \<Rightarrow> session multiset" where
  "executing p = (case p of Some (X_execute x) \<Rightarrow> {#x#} | _ \<Rightarrow> {#})"

definition of_queue :: "nat \<Rightarrow> session list \<Rightarrow> nat list" where
  "of_queue q xs = map snd (filter (\<lambda>x. fst x = q) xs)"

text \<open>
  The pool has one task for a queue with sessions and none for one without; the sessions taken are being executed or finished; a queue is served in order;
  and the thread that destroys the pool does so from the code of a session.
\<close>

definition exec_inv :: "exec_sys \<Rightarrow> bool" where
  "exec_inv E \<longleftrightarrow> (\<forall>q. tasks (enters q) (ex_pool E) = (if ex_queues E q = [] then 0 else 1)) \<and> (\<forall>x \<in> set (pool_queue (ex_pool E)). \<exists>q. x = X_enter q) \<and>
     (\<forall>t w q. t \<in> ps_detached (ex_pool E) \<longrightarrow> ps_workers (ex_pool E) t = Some w \<longrightarrow> pc_of w \<noteq> Some (X_enter q)) \<and>
     (\<forall>q. of_queue q (ex_accepted E) = of_queue q (ex_taken E) @ of_queue q (ex_canceled E) @ ex_queues E q) \<and>
     mset (ex_taken E) = mset (ex_finished E) + tasks executing (ex_pool E) \<and> (ps_pended (ex_pool E) = [] \<longrightarrow> ex_canceled E = [])"

lemma exec_invI:
  assumes "\<And>q. tasks (enters q) (ex_pool E) = (if ex_queues E q = [] then 0 else 1)" "\<And>x. x \<in> set (pool_queue (ex_pool E)) \<Longrightarrow> \<exists>q. x = X_enter q"
    "\<And>t w q. t \<in> ps_detached (ex_pool E) \<Longrightarrow> ps_workers (ex_pool E) t = Some w \<Longrightarrow> pc_of w \<noteq> Some (X_enter q)"
    "\<And>q. of_queue q (ex_accepted E) = of_queue q (ex_taken E) @ of_queue q (ex_canceled E) @ ex_queues E q"
    "mset (ex_taken E) = mset (ex_finished E) + tasks executing (ex_pool E)" "ps_pended (ex_pool E) = [] \<Longrightarrow> ex_canceled E = []"
  shows "exec_inv E"
  using assms unfolding exec_inv_def by blast

lemma exec_invD:
  assumes "exec_inv E"
  shows "tasks (enters q) (ex_pool E) = (if ex_queues E q = [] then 0 else 1)" "x \<in> set (pool_queue (ex_pool E)) \<Longrightarrow> \<exists>q. x = X_enter q"
    "t \<in> ps_detached (ex_pool E) \<Longrightarrow> ps_workers (ex_pool E) t = Some w \<Longrightarrow> pc_of w \<noteq> Some (X_enter q)"
    "of_queue q (ex_accepted E) = of_queue q (ex_taken E) @ of_queue q (ex_canceled E) @ ex_queues E q"
    "mset (ex_taken E) = mset (ex_finished E) + tasks executing (ex_pool E)" "ps_pended (ex_pool E) = [] \<Longrightarrow> ex_canceled E = []"
  using assms unfolding exec_inv_def by blast+

lemma enters_simps [simp]: "enters q None = 0" "enters q (Some (X_execute x)) = 0" "enters q (Some (X_handle x)) = 0" "enters q (Some (X_enter p)) = (if p = q then 1 else 0)"
  by (auto simp: enters_def)

lemma executing_simps [simp]: "executing None = {#}" "executing (Some (X_enter q)) = {#}" "executing (Some (X_execute x)) = {#x#}" "executing (Some (X_handle x)) = {#}"
  by (simp_all add: executing_def)

lemma of_queue_snoc [simp]: "of_queue q (xs @ [x]) = of_queue q xs @ (if fst x = q then [snd x] else [])"
  by (simp add: of_queue_def)

lemma of_queue_append: "of_queue q (xs @ ys) = of_queue q xs @ of_queue q ys"
  by (simp add: of_queue_def)

lemma of_queue_pair: "of_queue q (map (Pair p) ss) = (if p = q then ss else [])"
  by (induction ss) (auto simp: of_queue_def)

section \<open>The steps of the pool\<close>

lemma own_detached:
  assumes own: "pool_own S S'" and inv: "pool_inv js ws S" and t: "t \<in> ps_detached S" "ps_workers S' t = Some w" "pc_of w = Some x"
  shows "\<exists>w0. ps_workers S t = Some w0 \<and> pc_of w0 = Some x"
proof -
  obtain w1 where w1: "ps_workers S t = Some w1" "w1 \<noteq> W_top" using detached_state [OF inv t(1)] by blast
  from own show ?thesis
  proof (cases rule: pool_own.cases)
    case (top u)
    then have "u \<noteq> t" using w1 by auto
    moreover obtain P where "locked S = Some P" using top(2) by (auto simp: routine_top_def routine_leave_def split: bind_splits)
    ultimately have "ps_workers S' t = ps_workers S t" using top(2) by (auto simp: routine_top_def routine_leave_def Let_def signal_same split: if_splits list.splits)
    then show ?thesis using t(2,3) by (intro exI [of _ w]) simp
  next
    case (check u)
    then show ?thesis using t(2,3) by (auto simp: routine_check_def thread_end_def split: bind_splits if_splits)
  next
    case (join u v)
    then show ?thesis using t(2,3) by (auto simp: routine_join_def join_thread_def thread_end_def split: bind_splits if_splits option.splits worker.splits)
  next
    case (d_check c)
    then show ?thesis using t(2,3) by (auto simp: terminate_check_def split: bind_splits)
  next
    case (d_join c)
    then show ?thesis using t(2,3) by (auto simp: terminate_join_def join_thread_def split: bind_splits if_splits option.splits worker.splits)
  qed
qed

lemma own_pended: "pool_own S S' \<Longrightarrow> ps_pended S' = ps_pended S"
  by (erule pool_own.cases) (auto simp: routine_top_def routine_leave_def routine_check_def routine_join_def terminate_check_def terminate_join_def join_thread_def signal_terminate_def Let_def
      split: bind_splits if_splits list.splits option.splits worker.splits d_phase.splits)

lemma exec_own:
  assumes ex: "exec_inv E" and inv: "pool_inv js ws (ex_pool E)" and own: "pool_own (ex_pool E) S"
  shows "exec_inv (E\<lparr>ex_pool := S\<rparr>)"
proof (rule exec_invI)
  note D = exec_invD [OF ex]
  show "tasks (enters q) (ex_pool (E\<lparr>ex_pool := S\<rparr>)) = (if ex_queues (E\<lparr>ex_pool := S\<rparr>) q = [] then 0 else 1)" for q using own_tasks [OF own inv, of "enters q"] D(1) [of q] by simp
  show "\<exists>q. x = X_enter q" if "x \<in> set (pool_queue (ex_pool (E\<lparr>ex_pool := S\<rparr>)))" for x using own_tasks [OF own inv, of "executing"] D(2) [of x] that by auto
  show "pc_of w \<noteq> Some (X_enter q)" if "t \<in> ps_detached (ex_pool (E\<lparr>ex_pool := S\<rparr>))" "ps_workers (ex_pool (E\<lparr>ex_pool := S\<rparr>)) t = Some w" for t w q
    using own_detached [OF own inv, of t w "X_enter q"] own_tasks [OF own inv, of "executing"] D(3) [of t _ q] that by auto
  show "mset (ex_taken (E\<lparr>ex_pool := S\<rparr>)) = mset (ex_finished (E\<lparr>ex_pool := S\<rparr>)) + tasks executing (ex_pool (E\<lparr>ex_pool := S\<rparr>))" using own_tasks [OF own inv, of "executing"] D(5) by simp
qed (use exec_invD [OF ex] own_pended [OF own] in simp_all)

lemma idle_workers:
  assumes "pool_idle S S'" "ps_workers S' t = Some w" "pc_of w = Some x"
  shows "ps_workers S t = Some w \<and> ps_pended S' = ps_pended S"
  using assms by (cases rule: pool_idle.cases)
    (auto simp: create_threads_def thrdpool_terminate_def locked_def wake_all_def split: bind_splits if_splits)

lemma idle_pended: "pool_idle S S' \<Longrightarrow> ps_pended S' = ps_pended S"
  by (erule pool_idle.cases) (auto simp: create_threads_def thrdpool_terminate_def locked_def split: bind_splits if_splits)

lemma exec_idle:
  assumes ex: "exec_inv E" and inv: "pool_inv js ws (ex_pool E)" and idle: "pool_idle (ex_pool E) S"
  shows "exec_inv (E\<lparr>ex_pool := S\<rparr>)"
proof (rule exec_invI)
  note D = exec_invD [OF ex]
  show "tasks (enters q) (ex_pool (E\<lparr>ex_pool := S\<rparr>)) = (if ex_queues (E\<lparr>ex_pool := S\<rparr>) q = [] then 0 else 1)" for q using idle_tasks [OF idle inv, of "enters q"] D(1) [of q] by simp
  show "\<exists>q. x = X_enter q" if "x \<in> set (pool_queue (ex_pool (E\<lparr>ex_pool := S\<rparr>)))" for x using idle_tasks [OF idle inv, of "executing"] D(2) [of x] that by auto
  show "pc_of w \<noteq> Some (X_enter q)" if "t \<in> ps_detached (ex_pool (E\<lparr>ex_pool := S\<rparr>))" "ps_workers (ex_pool (E\<lparr>ex_pool := S\<rparr>)) t = Some w" for t w q
    using idle_workers [OF idle, of t w "X_enter q"] idle_tasks [OF idle inv, of "executing"] D(3) [of t w q] that by auto
  show "mset (ex_taken (E\<lparr>ex_pool := S\<rparr>)) = mset (ex_finished (E\<lparr>ex_pool := S\<rparr>)) + tasks executing (ex_pool (E\<lparr>ex_pool := S\<rparr>))" using idle_tasks [OF idle inv, of "executing"] D(5) by simp
qed (use exec_invD [OF ex] idle_pended [OF idle] in simp_all)

section \<open>The steps of the executor\<close>

lemma tasks_move:
  assumes "finite (dom (ps_workers S))" "ps_workers S t = Some w"
  shows "tasks f (S\<lparr>ps_workers := (ps_workers S)(t \<mapsto> w')\<rparr>) + f (pc_of w) = tasks f S + f (pc_of w')"
  using running_upd [OF assms, of f w'] by (simp add: tasks_def add.assoc)

lemma task_there:
  fixes f :: "'x option \<Rightarrow> nat"
  assumes "finite (dom (ps_workers S))" "ps_workers S t = Some w"
  shows "f (pc_of w) \<le> tasks f S"
proof -
  have "f (pc_of (the (ps_workers S t))) \<le> running f (ps_workers S)" unfolding running_def using assms by (intro member_le_sum) auto
  then show ?thesis using assms(2) by (simp add: tasks_def)
qed

lemma busy_pended:
  assumes "pool_inv js ws S" "pool_members (ps_workers S) (ps_detached S) \<noteq> {}"
  shows "ps_pended S = []"
  using assms(1) disjI2 [OF assms(2)] by (cases rule: busy_cases) blast+

lemma enter_session:
  assumes ex: "exec_inv E" and inv: "pool_inv js ws (ex_pool E)" and t: "ps_workers (ex_pool E) t = Some (W_run (X_enter q))"
  shows "ex_queues E q \<noteq> []" "t \<notin> ps_detached (ex_pool E)" "ex_canceled E = []" "may_call (Some t) (ex_pool E)"
proof -
  show "ex_queues E q \<noteq> []" using task_there [OF pool_invD(1) [OF inv] t, of "enters q"] exec_invD(1) [OF ex, of q] by (auto split: if_splits)
  show td: "t \<notin> ps_detached (ex_pool E)" using exec_invD(3) [OF ex _ t] by auto
  have "pool_members (ps_workers (ex_pool E)) (ps_detached (ex_pool E)) \<noteq> {}" using member_there [of "ps_workers (ex_pool E)" t "W_run (X_enter q)"] t td by auto
  then have "ps_pended (ex_pool E) = []" by (intro busy_pended [OF inv])
  then show "ex_canceled E = []" by (rule exec_invD(6) [OF ex])
  show "may_call (Some t) (ex_pool E)" using t td by (simp add: may_call_def)
qed

lemma exec_enter:
  assumes ex: "exec_inv E" and inv: "pool_inv js ws (ex_pool E)" and t: "ps_workers (ex_pool E) t = Some (W_run (X_enter q))" and w: "chosen w (ex_pool E)"
    and run: "executor_thread_routine t q w E = Some E'"
  shows "exec_inv E' \<and> pool_run (ex_pool E) (ex_pool E')"
proof -
  note D = exec_invD [OF ex] and es = enter_session [OF ex inv t]
  let ?S = "ex_pool E"
  obtain s rest where q: "ex_queues E q = s # rest" using es(1) by (cases "ex_queues E q") auto
  let ?S1 = "?S\<lparr>ps_workers := (ps_workers ?S)(t \<mapsto> W_run (X_execute (q, s)))\<rparr>"
  obtain S2 where S2: "(if rest \<noteq> [] then schedule_entry (X_enter q) w ?S1 else Some ?S1) = Some S2"
    "E' = E\<lparr>ex_pool := S2, ex_queues := (ex_queues E)(q := rest), ex_taken := ex_taken E @ [(q, s)]\<rparr>" using run q by (auto simp: executor_thread_routine_def Let_def bind_eq_Some_conv)
  have fin: "finite (dom (ps_workers ?S1))" using pool_invD(1) [OF inv] by simp
  have w1: "chosen w ?S1" using w t by (auto simp: chosen_def image_iff split: option.splits if_splits)
  have m: "tasks f ?S1 + f (Some (X_enter q)) = tasks f ?S + f (Some (X_execute (q, s)))" for f :: "exec_pc option \<Rightarrow> 'b :: cancel_comm_monoid_add"
    using tasks_move [OF pool_invD(1) [OF inv] t, of f "W_run (X_execute (q, s))"] by simp
  have c: "tasks f S2 = tasks f ?S1 + (if rest \<noteq> [] then f (Some (X_enter q)) else 0)" if "f None = 0" for f :: "exec_pc option \<Rightarrow> 'b :: cancel_comm_monoid_add"
    using S2(1) schedule_tasks(1) [OF fin w1, of "X_enter q" S2 f] that by (auto split: if_splits)
  have q2: "set (pool_queue S2) \<subseteq> insert (X_enter q) (set (pool_queue ?S))" using S2(1) schedule_tasks(2) [OF fin w1, of "X_enter q" S2 executing] by (auto split: if_splits)
  have d2: "ps_detached S2 = ps_detached ?S" using S2(1) schedule_tasks(3) [OF fin w1, of "X_enter q" S2 executing] by (auto split: if_splits)
  have p2: "ps_pended S2 = ps_pended ?S" using S2(1) by (auto simp: schedule_entry_def signal_cond_def split: bind_splits if_splits option.splits)
  have r2: "ps_workers S2 u = Some v \<Longrightarrow> pc_of v = Some (X_enter p) \<Longrightarrow> ps_workers ?S u = Some v" for u v p
    using S2(1) by (auto simp: schedule_entry_def signal_cond_def split: bind_splits if_splits option.splits)
  have "exec_inv E'"
  proof (rule exec_invI)
    show "tasks (enters p) (ex_pool E') = (if ex_queues E' p = [] then 0 else 1)" for p
      using m [of "enters p"] c [of "enters p"] D(1) [of p] q by (auto simp: S2(2) split: if_splits)
    show "\<exists>q. x = X_enter q" if "x \<in> set (pool_queue (ex_pool E'))" for x using that q2 D(2) [of x] by (auto simp: S2(2))
    show "pc_of v \<noteq> Some (X_enter p)" if "u \<in> ps_detached (ex_pool E')" "ps_workers (ex_pool E') u = Some v" for u v p
      using that r2 [of u v p] D(3) [of u v p] d2 by (auto simp: S2(2))
    show "of_queue p (ex_accepted E') = of_queue p (ex_taken E') @ of_queue p (ex_canceled E') @ ex_queues E' p" for p
      using D(4) [of p] q es(3) by (auto simp: S2(2) of_queue_def)
    show "mset (ex_taken E') = mset (ex_finished E') + tasks executing (ex_pool E')" using m [of executing] c [of executing] D(5) by (simp add: S2(2) split: if_splits)
    show "ex_canceled E' = []" using es(3) by (simp add: S2(2))
  qed
  moreover have "pool_run ?S S2"
  proof -
    have 1: "pool_run ?S ?S1" using pool_run.step [OF pool_run.start pool_step.go_on [OF t]] by blast
    have "may_call (Some t) ?S1" using es(2) by (simp add: may_call_def)
    moreover have "rest \<noteq> [] \<Longrightarrow> thrdpool_schedule True (X_enter q) w ?S1 = Some (0, S2)" using S2(1) by (simp add: thrdpool_schedule_def)
    ultimately have "rest \<noteq> [] \<Longrightarrow> pool_step ?S1 S2" using pool_step.schedule [OF _ w1, of "Some t" True "X_enter q" 0 S2] by blast
    then show ?thesis using 1 S2(1) pool_run.step by (cases "rest = []") auto
  qed
  ultimately show ?thesis by (simp add: S2(2))
qed

lemma exec_move:
  assumes ex: "exec_inv E" and inv: "pool_inv js ws (ex_pool E)" and t: "ps_workers (ex_pool E) t = Some w"
    and f: "\<And>q. pc_of w \<noteq> Some (X_enter q)" "\<And>q. pc_of w' \<noteq> Some (X_enter q)" and fs: "mset fs + executing (pc_of w') = executing (pc_of w)"
  shows "exec_inv (E\<lparr>ex_pool := (ex_pool E)\<lparr>ps_workers := (ps_workers (ex_pool E))(t \<mapsto> w')\<rparr>, ex_finished := ex_finished E @ fs\<rparr>)" (is "exec_inv ?E")
proof (rule exec_invI)
  note D = exec_invD [OF ex]
  let ?S = "ex_pool E"
  have m: "tasks f (?S\<lparr>ps_workers := (ps_workers ?S)(t \<mapsto> w')\<rparr>) + f (pc_of w) = tasks f ?S + f (pc_of w')" for f :: "exec_pc option \<Rightarrow> 'b :: cancel_comm_monoid_add"
    by (rule tasks_move [OF pool_invD(1) [OF inv] t])
  have a: "tasks executing ?S = mset fs + tasks executing (?S\<lparr>ps_workers := (ps_workers ?S)(t \<mapsto> w')\<rparr>)"
    using m [of executing] unfolding fs [symmetric] by (simp add: add.assoc [symmetric] add.commute [of _ "mset fs"])
  have e: "enters q (pc_of w) = 0" "enters q (pc_of w') = 0" for q using f by (auto simp: enters_def)
  show "tasks (enters q) (ex_pool ?E) = (if ex_queues ?E q = [] then 0 else 1)" for q using m [of "enters q"] D(1) [of q] e by simp
  show "\<exists>q. x = X_enter q" if "x \<in> set (pool_queue (ex_pool ?E))" for x using D(2) [of x] that by simp
  show "pc_of v \<noteq> Some (X_enter q)" if "u \<in> ps_detached (ex_pool ?E)" "ps_workers (ex_pool ?E) u = Some v" for u v q
    using that D(3) [of u v q] f(2) by (auto split: if_splits)
  show "mset (ex_taken ?E) = mset (ex_finished ?E) + tasks executing (ex_pool ?E)"
    using D(5) a by (simp add: ac_simps)
qed (use exec_invD [OF ex] in simp_all)


lemma exec_request:
  assumes ex: "exec_inv E" and inv: "pool_inv js ws (ex_pool E)" and c: "may_request c (ex_pool E)" and w: "chosen w (ex_pool E)" and run: "request mem mem' w x E = Some (r, E')"
  shows "exec_inv E' \<and> pool_run (ex_pool E) (ex_pool E')"
proof -
  note D = exec_invD [OF ex]
  let ?S = "ex_pool E" and ?q = "fst x"
  have same: "exec_inv E \<and> pool_run ?S ?S" using ex pool_run.start by blast
  have call: "may_call c ?S" using c by (simp add: may_request_def)
  have "ps_destroyer ?S = None \<or> pool_members (ps_workers ?S) (ps_detached ?S) \<noteq> {}" by (rule caller_locks(2) [OF inv call])
  then have "ps_pended ?S = []" using inv by (elim busy_cases) blast+
  then have nc: "ex_canceled E = []" by (rule D(6))
  show ?thesis
  proof (cases "mem \<and> (ex_queues E ?q = [] \<longrightarrow> mem')")
    case False
    then have "E' = E" using run by (auto simp: request_def thrdpool_schedule_def split: if_splits)
    then show ?thesis using same by simp
  next
    case True
    obtain S where S: "(if ex_queues E ?q = [] then thrdpool_schedule True (X_enter ?q) w ?S else Some (0, ?S)) = Some (0, S)"
      and E': "E' = E\<lparr>ex_pool := S, ex_queues := (ex_queues E)(?q := ex_queues E ?q @ [snd x]), ex_accepted := ex_accepted E @ [x]\<rparr>"
      using run True by (auto simp: request_def thrdpool_schedule_def Let_def bind_eq_Some_conv split: if_splits)
    have st: "(if ex_queues E ?q = [] then schedule_entry (X_enter ?q) w ?S else Some ?S) = Some S" using S by (auto simp: thrdpool_schedule_def split: if_splits)
    have k: "tasks f S = tasks f ?S + (if ex_queues E ?q = [] then f (Some (X_enter ?q)) else 0)" if "f None = 0" for f :: "exec_pc option \<Rightarrow> 'b :: cancel_comm_monoid_add"
      using st schedule_tasks(1) [OF pool_invD(1) [OF inv] w, of "X_enter ?q" S f] that by (auto split: if_splits)
    note s2 = schedule_tasks(2,3) [OF pool_invD(1) [OF inv] w, of "X_enter ?q" S executing]
    have q2: "set (pool_queue S) \<subseteq> insert (X_enter ?q) (set (pool_queue ?S))" using st s2(1) by (auto split: if_splits)
    have d2: "ps_detached S = ps_detached ?S" using st s2(2) by (auto split: if_splits)
    have r2: "ps_workers S u = Some v \<Longrightarrow> pc_of v = Some (X_enter p) \<Longrightarrow> ps_workers ?S u = Some v" for u v p
      using st by (auto simp: schedule_entry_def signal_cond_def split: bind_splits if_splits option.splits)
    have "exec_inv E'"
    proof (rule exec_invI)
      show "tasks (enters p) (ex_pool E') = (if ex_queues E' p = [] then 0 else 1)" for p using k [of "enters p"] D(1) [of p] by (auto simp: E' split: if_splits)
      show "\<exists>q. y = X_enter q" if "y \<in> set (pool_queue (ex_pool E'))" for y using that q2 D(2) [of y] by (auto simp: E')
      show "pc_of v \<noteq> Some (X_enter p)" if "u \<in> ps_detached (ex_pool E')" "ps_workers (ex_pool E') u = Some v" for u v p
        using that r2 [of u v p] D(3) [of u v p] d2 by (auto simp: E')
      show "of_queue p (ex_accepted E') = of_queue p (ex_taken E') @ of_queue p (ex_canceled E') @ ex_queues E' p" for p using D(4) [of p] by (simp add: E')
      show "mset (ex_taken E') = mset (ex_finished E') + tasks executing (ex_pool E')" using k [of executing] D(5) by (simp add: E' split: if_splits)
      show "ex_canceled E' = []" using nc by (simp add: E')
    qed
    moreover have "pool_run ?S S"
    proof (cases "ex_queues E ?q = []")
      case True
      then have "thrdpool_schedule True (X_enter ?q) w ?S = Some (0, S)" using S by simp
      then show ?thesis using pool_run.step [OF pool_run.start pool_step.schedule [OF call w]] by blast
    next
      case False
      then show ?thesis using S pool_run.start by simp
    qed
    ultimately show ?thesis by (simp add: E')
  qed
qed

lemma exec_inv_records [simp]: "exec_inv (E\<lparr>ex_dispatched := xs\<rparr>) = exec_inv E" "exec_inv (E\<lparr>ex_failed := xs\<rparr>) = exec_inv E"
  by (simp_all add: exec_inv_def)

lemma exec_dispatch:
  assumes ex: "exec_inv E" and inv: "pool_inv js ws (ex_pool E)" and c: "may_request c (ex_pool E)" and w: "chosen w (ex_pool E)" and run: "ExecRequest_dispatch mem mem' w x E = Some E'"
  shows "exec_inv E' \<and> pool_run (ex_pool E) (ex_pool E')"
proof -
  let ?E = "E\<lparr>ex_dispatched := ex_dispatched E @ [x]\<rparr>"
  obtain r E1 where r: "request mem mem' w x ?E = Some (r, E1)" "E' = (if r < 0 then E1\<lparr>ex_failed := ex_failed E1 @ [x]\<rparr> else E1)"
    using run by (auto simp: ExecRequest_dispatch_def bind_eq_Some_conv)
  show ?thesis using exec_request [OF _ _ _ _ r(1)] ex inv c w r(2) by auto
qed

lemma enter_pc: "wake_all (enter_destroy c W) t = Some w \<Longrightarrow> pc_of w = Some x \<Longrightarrow> \<exists>w0. W t = Some w0 \<and> pc_of w0 = Some x"
  by (auto simp: wake_all_def enter_destroy_def split: option.splits worker.splits if_splits)

lemma exec_deinit:
  assumes ex: "exec_inv E" and inv: "pool_inv js ws (ex_pool E)" and c: "may_request c (ex_pool E)" and none: "ps_destroyer (ex_pool E) = None"
    and run: "thrdpool_terminate c ((ex_pool E)\<lparr>ps_workers := enter_destroy c (ps_workers (ex_pool E))\<rparr>) = Some S"
  shows "exec_inv (E\<lparr>ex_pool := S\<rparr>)"
proof (rule exec_invI)
  note D = exec_invD [OF ex] and T = terminate_tasks [OF run]
  have d: "ps_detached S = set_option c" "ps_workers S = wake_all (enter_destroy c (ps_workers (ex_pool E)))" "ps_pended S = ps_pended (ex_pool E)"
    using run pool_invD(7) [OF inv] none by (auto simp: thrdpool_terminate_def phase_inv_def split: bind_splits)
  show "tasks (enters q) (ex_pool (E\<lparr>ex_pool := S\<rparr>)) = (if ex_queues (E\<lparr>ex_pool := S\<rparr>) q = [] then 0 else 1)" for q using T(1) [of "enters q"] D(1) [of q] by simp
  show "\<exists>q. x = X_enter q" if "x \<in> set (pool_queue (ex_pool (E\<lparr>ex_pool := S\<rparr>)))" for x using T(2) D(2) [of x] that by simp
  show "pc_of w \<noteq> Some (X_enter q)" if t: "t \<in> ps_detached (ex_pool (E\<lparr>ex_pool := S\<rparr>))" "ps_workers (ex_pool (E\<lparr>ex_pool := S\<rparr>)) t = Some w" for t w q
  proof
    assume "pc_of w = Some (X_enter q)"
    then obtain w0 where w0: "ps_workers (ex_pool E) t = Some w0" "pc_of w0 = Some (X_enter q)" using enter_pc [of c _ t w] t(2) d(2) by auto
    have "c = Some t" using t(1) d(1) by (cases c) auto
    then show False using w0 c by (auto simp: may_request_def may_call_def)
  qed
  show "mset (ex_taken (E\<lparr>ex_pool := S\<rparr>)) = mset (ex_finished (E\<lparr>ex_pool := S\<rparr>)) + tasks executing (ex_pool (E\<lparr>ex_pool := S\<rparr>))" using T(1) [of executing] D(5) by simp
  show "ps_pended (ex_pool (E\<lparr>ex_pool := S\<rparr>)) = [] \<Longrightarrow> ex_canceled (E\<lparr>ex_pool := S\<rparr>) = []" using D(6) d(3) by simp
qed (use exec_invD(4) [OF ex] in simp_all)

lemma back_pc: "back_to_task c W t = Some w \<Longrightarrow> pc_of w = Some x \<Longrightarrow> \<exists>w0. W t = Some w0 \<and> pc_of w0 = Some x"
  by (auto simp: back_to_task_def split: option.splits worker.splits if_splits)

text \<open>Cancelling when the handling dispatches nothing.\<close>

definition cancel_queue :: "exec_pc \<Rightarrow> exec_sys \<Rightarrow> exec_sys option" where
  "cancel_queue x E =
     (case x of X_enter q \<Rightarrow> Some (E\<lparr>ex_queues := (ex_queues E)(q := []), ex_canceled := ex_canceled E @ map (Pair q) (ex_queues E q)\<rparr>) | _ \<Rightarrow> None)"

lemma cancel_sessions_none:
  "ex_queues E q = ss \<Longrightarrow> cancel_sessions (\<lambda>_. []) q E = Some (E\<lparr>ex_queues := (ex_queues E)(q := []), ex_canceled := ex_canceled E @ map (Pair q) ss\<rparr>)"
proof (induction ss arbitrary: E)
  case Nil
  then have "(ex_queues E)(q := []) = ex_queues E" by (simp add: fun_upd_idem)
  then show ?case using Nil by (subst cancel_sessions.simps) simp
next
  case (Cons s ss)
  let ?E = "E\<lparr>ex_queues := (ex_queues E)(q := ss), ex_canceled := ex_canceled E @ [(q, s)]\<rparr>"
  have "cancel_sessions (\<lambda>_. []) q E = (if ss = [] then Some ?E else cancel_sessions (\<lambda>_. []) q ?E)" by (subst cancel_sessions.simps) (simp add: Cons.prems handle_canceled_def)
  also have "\<dots> = Some (E\<lparr>ex_queues := (ex_queues E)(q := []), ex_canceled := ex_canceled E @ map (Pair q) (s # ss)\<rparr>)" using Cons.IH [of ?E] by (simp add: fun_upd_def cong: if_cong)
  finally show ?case .
qed

lemma executor_cancel_none: "executor_cancel_tasks (\<lambda>_. []) x E = cancel_queue x E"
  by (simp add: executor_cancel_tasks_def cancel_queue_def cancel_sessions_none split: exec_pc.split)

lemma deinit_pend_none:
  "deinit_pend (\<lambda>_. []) c E =
     do { P \<leftarrow> ps_pool (ex_pool E);
          S \<leftarrow> destroy_pend c (ex_pool E);
          E \<leftarrow> (case th_task_queue P of [] \<Rightarrow> Some E | x # _ \<Rightarrow> cancel_queue x E);
          Some (E\<lparr>ex_pool := S\<rparr>) }"
proof -
  have "cancel_queue x (E\<lparr>ex_pool := S\<rparr>) = do { E \<leftarrow> cancel_queue x E; Some (E\<lparr>ex_pool := S\<rparr>) }" for x S by (simp add: cancel_queue_def split: exec_pc.split)
  then show ?thesis by (cases "ps_pool (ex_pool E)"; cases "destroy_pend c (ex_pool E)") (simp_all add: deinit_pend_def executor_cancel_none split: list.split)
qed

lemma deinit_pend_cases:
  assumes "deinit_pend (\<lambda>_. []) c E = Some E'"
  obtains P S E1 where "ps_pool (ex_pool E) = Some P" "destroy_pend c (ex_pool E) = Some S"
    "(case th_task_queue P of [] \<Rightarrow> Some E | x # _ \<Rightarrow> cancel_queue x E) = Some E1" "E' = E1\<lparr>ex_pool := S\<rparr>"
  using assms by (auto simp: deinit_pend_none bind_eq_Some_conv)

lemma exec_cancel:
  assumes ex: "exec_inv E" and inv: "pool_inv js ws (ex_pool E)" and d: "ps_destroyer (ex_pool E) = Some (c, D_pend)" and run: "deinit_pend (\<lambda>_. []) c E = Some E'"
  shows "exec_inv E'" "pool_run (ex_pool E) (ex_pool E')"
proof -
  note D = exec_invD [OF ex]
  let ?S = "ex_pool E"
  obtain P S E1 where P: "ps_pool ?S = Some P" and S: "destroy_pend c ?S = Some S"
    and E1: "(case th_task_queue P of [] \<Rightarrow> Some E | x # _ \<Rightarrow> cancel_queue x E) = Some E1" and E1': "E' = E1\<lparr>ex_pool := S\<rparr>"
    using run by (rule deinit_pend_cases)
  have E': "ex_pool E' = S" by (simp add: E1')
  have Q: "pool_queue ?S = th_task_queue P" using P by (simp add: pool_queue_def)
  note T = pend_tasks [OF S P]
  have dt: "ps_detached S = ps_detached ?S" using S by (auto simp: destroy_pend_def split: bind_splits list.splits)
  have pc: "\<exists>w0. ps_workers ?S t = Some w0 \<and> pc_of w0 = Some x" if "ps_workers S t = Some w" "pc_of w = Some x" for t w x
    using S that back_pc [of c "ps_workers ?S" t w x] by (auto simp: destroy_pend_def split: bind_splits list.splits)
  show "pool_run ?S (ex_pool E')" unfolding E' by (rule pool_run.step [OF pool_run.start pool_step.work [OF pool_work.d_pend [OF d S]]])
  have dp: "pc_of w \<noteq> Some (X_enter q)" if "t \<in> ps_detached (ex_pool E')" "ps_workers (ex_pool E') t = Some w" for t w q
    using that pc [of t w "X_enter q"] D(3) [of t _ q] dt by (auto simp: E')
  have qs: "\<exists>q. x = X_enter q" if "x \<in> set (pool_queue (ex_pool E'))" for x using that T(2) D(2) [of x] by (auto simp: E')
  show "exec_inv E'"
  proof (cases "th_task_queue P")
    case Nil
    then have e: "E' = E\<lparr>ex_pool := S\<rparr>" using E1 E1' by simp
    have p: "ps_pended S = ps_pended ?S" using S P Nil by (auto simp: destroy_pend_def)
    show ?thesis by (rule exec_invI [OF _ qs dp]) (use D p T(1) [of "enters _"] T(1) [of executing] Nil in \<open>simp_all add: e\<close>)
  next
    case (Cons x xs)
    then obtain q where x: "x = X_enter q" using D(2) [of x] Q by auto
    have e: "ex_queues E' = (ex_queues E)(q := [])" "ex_canceled E' = ex_canceled E @ map (Pair q) (ex_queues E q)" "ex_accepted E' = ex_accepted E" "ex_taken E' = ex_taken E" "ex_finished E' = ex_finished E"
      using E1 unfolding Cons x E1' by (auto simp: cancel_queue_def)
    have p: "ps_pended S \<noteq> []" using S P Cons by (auto simp: destroy_pend_def)
    have en: "tasks (enters r) (ex_pool E') = (if ex_queues E' r = [] then 0 else 1)" for r using T(1) [of "enters r"] D(1) [of r] Cons x by (auto simp: e E' split: if_splits)
    show ?thesis
    proof (rule exec_invI [OF en qs dp])
      show "of_queue r (ex_accepted E') = of_queue r (ex_taken E') @ of_queue r (ex_canceled E') @ ex_queues E' r" for r using D(4) [of r] by (simp add: e of_queue_append of_queue_pair)
      show "mset (ex_taken E') = mset (ex_finished E') + tasks executing (ex_pool E')" using T(1) [of executing] D(5) Cons x by (simp add: e E')
      show "ps_pended (ex_pool E') = [] \<Longrightarrow> ex_canceled E' = []" using p by (simp add: E')
    qed
  qed
qed


section \<open>Runs\<close>

lemma exec_step_inv:
  assumes step: "exec_step E E'" and ex: "exec_inv E" and inv: "pool_inv js ws (ex_pool E)"
  shows "exec_inv E' \<and> pool_run (ex_pool E) (ex_pool E')"
  using step
proof (cases rule: exec_step.cases)
  case (own S)
  then show ?thesis using exec_own [OF ex inv] pool_run.step [OF pool_run.start pool_step.work [OF pool_work.own]] by auto
next
  case (idle S)
  then show ?thesis using exec_idle [OF ex inv] pool_run.step [OF pool_run.start pool_step.idle] by auto
next
  case (queue q r r')
  then have "E' = E" using fun_upd_idem [of "ex_queues E" q "[]"] by (auto simp: ExecQueue_init_def split: if_splits)
  then show ?thesis using ex pool_run.start by simp
next
  case (enter t q w)
  then show ?thesis using exec_enter [OF ex inv] by blast
next
  case (execute t x)
  then show ?thesis unfolding execute(1) session_executed_def using exec_move [OF ex inv execute(2), of "W_run (X_handle x)" "[x]"] pool_run.step [OF pool_run.start pool_step.go_on [OF execute(2)]] by auto
next
  case (handle t x)
  then show ?thesis unfolding handle(1) session_handled_def using exec_move [OF ex inv handle(2), of W_check "[]"] pool_run.step [OF pool_run.start pool_step.work [OF pool_work.return [OF handle(2)]]] by auto
next
  case (dispatch c w mem mem' x)
  then show ?thesis using exec_dispatch [OF ex inv] by blast
next
  case (deinit c S)
  have "may_call c (ex_pool E)" using deinit(2) by (simp add: may_request_def)
  then show ?thesis using exec_deinit [OF ex inv deinit(2-4)] pool_run.step [OF pool_run.start pool_step.destroy] deinit by auto
next
  case (cancel c)
  then show ?thesis using exec_cancel [OF ex inv] by blast
qed

lemma exec_created:
  assumes "Executor_init mem r_mutex r_cond r_key r_attr nthreads = Inr E0"
  shows "thrdpool_create mem r_mutex r_cond r_key r_attr nthreads 0 = Inr (ex_pool E0)" "exec_inv E0" "pool_inv [] [] (ex_pool E0)"
proof -
  show c: "thrdpool_create mem r_mutex r_cond r_key r_attr nthreads 0 = Inr (ex_pool E0)" using assms by (auto simp: Executor_init_def split: if_splits sum.splits)
  have "ps_workers S = Map.empty \<and> pool_queue S = [] \<and> ps_detached S = {}" if "thrdpool_create mem r_mutex r_cond r_key r_attr nthreads 0 = Inr S" for S :: "exec_pc pool_sys"
    using that by (auto simp: thrdpool_create_def pool_queue_def split: if_splits)
  from this [OF c] have S: "ps_workers (ex_pool E0) = Map.empty" "pool_queue (ex_pool E0) = []" "ps_detached (ex_pool E0) = {}" by auto
  show "exec_inv E0" using assms S by (intro exec_invI) (auto simp: Executor_init_def tasks_def running_def of_queue_def split: if_splits sum.splits)
  show "pool_inv [] [] (ex_pool E0)" by (rule created_inv [OF c])
qed

lemma exec_run_inv:
  assumes "exec_run E0 E" "exec_inv E0" "pool_inv [] [] (ex_pool E0)"
  shows "exec_inv E \<and> pool_run (ex_pool E0) (ex_pool E)"
  using assms
proof (induction rule: exec_run.induct)
  case start
  then show ?case using pool_run.start by blast
next
  case (step E E')
  then obtain js ws where "pool_inv js ws (ex_pool E)" using run_inv by blast
  then show ?case using exec_step_inv [OF step(2)] step run_trans by blast
qed

lemma exec_reached:
  assumes "Executor_init mem r_mutex r_cond r_key r_attr nthreads = Inr E0" "exec_run E0 E"
  shows "exec_inv E" "pool_run (ex_pool E0) (ex_pool E)" "\<exists>js ws. pool_inv js ws (ex_pool E)"
proof -
  show a: "exec_inv E" "pool_run (ex_pool E0) (ex_pool E)" using exec_run_inv [OF assms(2) exec_created(2,3) [OF assms(1)]] by auto
  show "\<exists>js ws. pool_inv js ws (ex_pool E)" by (rule run_inv [OF a(2) exec_created(3) [OF assms(1)]])
qed

lemma step_dispatched:
  assumes "exec_step E E'" "mset (ex_dispatched E) = mset (ex_accepted E) + mset (ex_failed E)"
  shows "mset (ex_dispatched E') = mset (ex_accepted E') + mset (ex_failed E')"
  using assms
proof (cases rule: exec_step.cases)
  case (queue q r r')
  then show ?thesis using assms(2) by (auto simp: ExecQueue_init_def split: if_splits)
next
  case (enter t q w)
  then show ?thesis using assms(2) by (auto simp: executor_thread_routine_def Let_def bind_eq_Some_conv split: list.splits)
next
  case (dispatch c w mem mem' x)
  then show ?thesis using assms(2)
    by (auto simp: ExecRequest_dispatch_def request_def thrdpool_schedule_def Let_def bind_eq_Some_conv split: if_splits)
next
  case (cancel c)
  then obtain P S E1 where "ps_pool (ex_pool E) = Some P" "(case th_task_queue P of [] \<Rightarrow> Some E | x # _ \<Rightarrow> cancel_queue x E) = Some E1" "E' = E1\<lparr>ex_pool := S\<rparr>"
    by (elim deinit_pend_cases)
  then show ?thesis using assms(2) by (cases "th_task_queue P") (auto simp: cancel_queue_def split: exec_pc.splits)
qed (auto simp: session_executed_def session_handled_def)

lemma run_dispatched:
  assumes "exec_run E0 E" "mset (ex_dispatched E0) = mset (ex_accepted E0) + mset (ex_failed E0)"
  shows "mset (ex_dispatched E) = mset (ex_accepted E) + mset (ex_failed E)"
  using assms by (induction rule: exec_run.induct) (auto dest: step_dispatched)

section \<open>A run of the executor\<close>

text \<open>One thread; the sessions 1 and 2 of the queue 5 are requested, the first is executed, and the executor is destroyed.\<close>

definition demo_exec :: "exec_pc list \<Rightarrow> nat \<Rightarrow> nat \<Rightarrow> bool \<Rightarrow> exec_pc worker option \<Rightarrow> nat option \<Rightarrow> d_phase option \<Rightarrow> nat \<Rightarrow> nat \<Rightarrow> nat \<Rightarrow> nat list \<Rightarrow> session list \<Rightarrow> session list \<Rightarrow> session list \<Rightarrow> exec_sys" where
  "demo_exec pq n tid e w cr d k i j q acc tak fin =
     \<lparr>ex_pool = \<lparr>ps_pool = Some \<lparr>th_task_queue = pq, th_nthreads = n, th_stacksize = 0, th_tid = tid, th_terminate = e, th_locks = True\<rparr>,
                 ps_workers = (case w of None \<Rightarrow> Map.empty | Some w \<Rightarrow> [1 \<mapsto> w]), ps_creating = cr, ps_destroyer = map_option (Pair None) d,
                 ps_detached = {}, ps_scheduled = replicate k (X_enter 5), ps_started = replicate i (X_enter 5), ps_pended = replicate j (X_enter 5)\<rparr>,
      ex_queues = (\<lambda>_. [])(5 := q), ex_dispatched = acc, ex_failed = [], ex_accepted = acc, ex_taken = tak, ex_finished = fin, ex_canceled = (if j = 0 then [] else [(5, 2)])\<rparr>"

definition demo_exec_pend :: exec_sys where
  "demo_exec_pend = demo_exec [X_enter 5] 0 1 True (Some W_joined) None (Some D_pend) 2 1 0 [2] [(5, 1), (5, 2)] [(5, 1)] [(5, 1)]"

definition demo_exec_end :: exec_sys where
  "demo_exec_end = (let E = demo_exec [] 0 1 True (Some W_joined) None (Some D_over) 2 1 1 [] [(5, 1), (5, 2)] [(5, 1)] [(5, 1)] in E\<lparr>ex_pool := (ex_pool E)\<lparr>ps_pool := None\<rparr>\<rparr>)"

lemma demo_exec_init: "Executor_init True 0 0 0 0 1 = Inr (demo_exec [] 0 0 False None (Some 1) None 0 0 0 [] [] [] [])"
  by (simp add: Executor_init_def thrdpool_create_def thrdpool_init_locks_def demo_exec_def fun_eq_iff)

lemma exec_trans: "exec_run E1 E2 \<Longrightarrow> exec_run E0 E1 \<Longrightarrow> exec_run E0 E2"
  by (induction rule: exec_run.induct) (auto intro: exec_run.step)

lemma demo_exec_taken: "exec_run (demo_exec [] 0 0 False None (Some 1) None 0 0 0 [] [] [] [])
  (demo_exec [X_enter 5] 1 0 False (Some (W_run (X_execute (5, 1)))) None None 2 1 0 [2] [(5, 1), (5, 2)] [(5, 1)] [])"
proof -
  let ?e0 = "demo_exec [] 0 0 False None (Some 1) None 0 0 0 [] [] [] []"
  let ?e1 = "demo_exec [] 1 0 False (Some W_top) (Some 1) None 0 0 0 [] [] [] []"
  let ?e2 = "demo_exec [] 1 0 False (Some W_top) None None 0 0 0 [] [] [] []"
  let ?e3 = "demo_exec [X_enter 5] 1 0 False (Some W_top) None None 1 0 0 [1] [(5, 1)] [] []"
  let ?e4 = "demo_exec [X_enter 5] 1 0 False (Some W_top) None None 1 0 0 [1, 2] [(5, 1), (5, 2)] [] []"
  let ?e5 = "demo_exec [] 1 0 False (Some (W_run (X_enter 5))) None None 1 1 0 [1, 2] [(5, 1), (5, 2)] [] []"
  let ?e6 = "demo_exec [X_enter 5] 1 0 False (Some (W_run (X_execute (5, 1)))) None None 2 1 0 [2] [(5, 1), (5, 2)] [(5, 1)] []"
  have "pool_idle (ex_pool ?e0) (ex_pool ?e1)" by (rule pool_idle.create [of _ 1 1 0]) (simp_all add: create_threads_def demo_exec_def)
  from exec_step.idle [OF this] have 1: "exec_step ?e0 ?e1" by (simp add: demo_exec_def)
  have "pool_idle (ex_pool ?e1) (ex_pool ?e2)" by (rule pool_idle.create [of _ 1 2 0]) (simp_all add: create_threads_def demo_exec_def)
  from exec_step.idle [OF this] have 2: "exec_step ?e1 ?e2" by (simp add: demo_exec_def)
  have 3: "exec_step ?e2 ?e3" by (rule exec_step.dispatch [of None _ None True True "(5, 1)"])
    (auto simp: may_request_def may_call_def chosen_def ExecRequest_dispatch_def request_def thrdpool_schedule_def schedule_entry_def locked_def signal_cond_def demo_exec_def Let_def split: if_splits)
  have 4: "exec_step ?e3 ?e4" by (rule exec_step.dispatch [of None _ None True True "(5, 2)"])
    (auto simp: may_request_def may_call_def chosen_def ExecRequest_dispatch_def request_def demo_exec_def Let_def split: if_splits)
  have "pool_own (ex_pool ?e4) (ex_pool ?e5)" by (rule pool_own.top [of _ 1]) (simp_all add: routine_top_def routine_leave_def locked_def demo_exec_def)
  from exec_step.own [OF this] have 5: "exec_step ?e4 ?e5" by (simp add: demo_exec_def)
  have 6: "exec_step ?e5 ?e6" by (rule exec_step.enter [of _ 1 5 None])
    (auto simp: chosen_def executor_thread_routine_def schedule_entry_def locked_def signal_cond_def demo_exec_def Let_def numeral_2_eq_2 split: if_splits)
  note st = exec_run.step
  show ?thesis by (rule st [OF st [OF st [OF st [OF st [OF st [OF exec_run.start 1] 2] 3] 4] 5] 6])
qed

lemma demo_exec_left: "exec_run (demo_exec [] 0 0 False None (Some 1) None 0 0 0 [] [] [] []) demo_exec_pend"
proof -
  let ?a = "[(5, 1), (5, 2)]"
  let ?e6 = "demo_exec [X_enter 5] 1 0 False (Some (W_run (X_execute (5, 1)))) None None 2 1 0 [2] ?a [(5, 1)] []"
  let ?e7 = "demo_exec [X_enter 5] 1 0 True (Some (W_run (X_execute (5, 1)))) None (Some D_check) 2 1 0 [2] ?a [(5, 1)] []"
  let ?e8 = "demo_exec [X_enter 5] 1 0 True (Some (W_run (X_handle (5, 1)))) None (Some D_check) 2 1 0 [2] ?a [(5, 1)] [(5, 1)]"
  let ?e9 = "demo_exec [X_enter 5] 1 0 True (Some W_check) None (Some D_check) 2 1 0 [2] ?a [(5, 1)] [(5, 1)]"
  let ?ea = "demo_exec [X_enter 5] 1 0 True (Some W_top) None (Some D_check) 2 1 0 [2] ?a [(5, 1)] [(5, 1)]"
  let ?eb = "demo_exec [X_enter 5] 0 1 True (Some W_done) None (Some D_check) 2 1 0 [2] ?a [(5, 1)] [(5, 1)]"
  let ?ec = "demo_exec [X_enter 5] 0 1 True (Some W_done) None (Some D_join) 2 1 0 [2] ?a [(5, 1)] [(5, 1)]"
  let ?ed = "demo_exec [X_enter 5] 0 1 True (Some W_joined) None (Some D_pend) 2 1 0 [2] ?a [(5, 1)] [(5, 1)]"
  have "thrdpool_terminate None ((ex_pool ?e6)\<lparr>ps_workers := enter_destroy None (ps_workers (ex_pool ?e6))\<rparr>) = Some (ex_pool ?e7)"
    by (simp add: thrdpool_terminate_def locked_def enter_destroy_def wake_all_def demo_exec_def fun_eq_iff)
  from exec_step.deinit [OF _ _ this] have 7: "exec_step ?e6 ?e7" by (simp add: demo_exec_def may_request_def may_call_def)
  have 8: "exec_step ?e7 ?e8" using exec_step.execute [of ?e7 1 "(5, 1)"] by (simp add: demo_exec_def session_executed_def)
  have 9: "exec_step ?e8 ?e9" using exec_step.handle [of ?e8 1 "(5, 1)"] by (simp add: demo_exec_def session_handled_def)
  have "pool_own (ex_pool ?e9) (ex_pool ?ea)" by (rule pool_own.check [of _ 1]) (simp_all add: routine_check_def demo_exec_def)
  from exec_step.own [OF this] have a: "exec_step ?e9 ?ea" by (simp add: demo_exec_def)
  have "pool_own (ex_pool ?ea) (ex_pool ?eb)" by (rule pool_own.top [of _ 1]) (simp_all add: routine_top_def routine_leave_def locked_def size_pred_def thread_end_def signal_terminate_def demo_exec_def)
  from exec_step.own [OF this] have b: "exec_step ?ea ?eb" by (simp add: demo_exec_def)
  have "pool_own (ex_pool ?eb) (ex_pool ?ec)" by (rule pool_own.d_check [of _ None]) (simp_all add: terminate_check_def locked_def demo_exec_def)
  from exec_step.own [OF this] have c: "exec_step ?eb ?ec" by (simp add: demo_exec_def)
  have "pool_own (ex_pool ?ec) (ex_pool ?ed)" by (rule pool_own.d_join [of _ None]) (simp_all add: terminate_join_def join_thread_def has_ended_def demo_exec_def)
  from exec_step.own [OF this] have d: "exec_step ?ec ?ed" by (simp add: demo_exec_def)
  note st = exec_run.step
  show ?thesis unfolding demo_exec_pend_def by (rule exec_trans [OF st [OF st [OF st [OF st [OF st [OF st [OF st [OF exec_run.start 7] 8] 9] a] b] c] d] demo_exec_taken])
qed

lemma demo_exec_over: "exec_run (demo_exec [] 0 0 False None (Some 1) None 0 0 0 [] [] [] []) demo_exec_end"
proof -
  let ?ee = "demo_exec [] 0 1 True (Some W_joined) None (Some D_pend) 2 1 1 [] [(5, 1), (5, 2)] [(5, 1)] [(5, 1)]"
  have e: "exec_step demo_exec_pend ?ee" by (rule exec_step.cancel [of _ None]) (simp_all add: deinit_pend_none destroy_pend_def cancel_queue_def demo_exec_def demo_exec_pend_def)
  have f: "exec_step ?ee demo_exec_end" by (rule exec_step.cancel [of _ None]) (simp_all add: deinit_pend_none destroy_pend_def back_to_task_def demo_exec_def demo_exec_end_def)
  show ?thesis by (rule exec_run.step [OF exec_run.step [OF demo_exec_left e] f])
qed

section \<open>Properties\<close>

text \<open>
  C17: Nothing in the executor is undefined: a task of the pool finds a session in its queue, \<^verbatim>\<open>request\<close> finds the pool, \<^verbatim>\<open>executor_cancel_tasks\<close> gets tasks of queues only, and the pool itself is used safely. (In these
  runs the handling of a canceled session dispatches nothing to the executor; \<open>Exec_Deinit\<close> is on what happens when it does.)
\<close>

theorem exec_never_undefined:
  assumes "Executor_init mem r_mutex r_cond r_key r_attr nthreads = Inr E0" "exec_run E0 E"
  shows "pool_safe (ex_pool E) \<and> (\<forall>t q w. ps_workers (ex_pool E) t = Some (W_run (X_enter q)) \<longrightarrow> executor_thread_routine t q w E \<noteq> None) \<and>
    (\<forall>c m m' w x. may_request c (ex_pool E) \<longrightarrow> request m m' w x E \<noteq> None) \<and> (\<forall>c. ps_destroyer (ex_pool E) = Some (c, D_pend) \<longrightarrow> deinit_pend (\<lambda>_. []) c E \<noteq> None)"
proof (intro conjI allI impI)
  note ex = exec_reached(1) [OF assms]
  obtain js ws where inv: "pool_inv js ws (ex_pool E)" using exec_reached(3) [OF assms] by blast
  show "pool_safe (ex_pool E)" by (rule inv_safe [OF inv])
  show "executor_thread_routine t q w E \<noteq> None" if t: "ps_workers (ex_pool E) t = Some (W_run (X_enter q))" for t q w
  proof -
    note es = enter_session [OF ex inv t]
    obtain P where "ps_pool (ex_pool E) = Some P" "th_locks P" using caller_locks(1) [OF inv es(4)] by blast
    then show ?thesis using es(1) by (auto simp: executor_thread_routine_def schedule_entry_def locked_def Let_def split: list.split)
  qed
  show "request m m' w x E \<noteq> None" if "may_request c (ex_pool E)" for c m m' w x
  proof -
    have "may_call c (ex_pool E)" using that by (simp add: may_request_def)
    then obtain P where "locked (ex_pool E) = Some P" using caller_locks(1) [OF inv] by blast
    then show ?thesis by (auto simp: request_def thrdpool_schedule_def schedule_entry_def Let_def)
  qed
  show "deinit_pend (\<lambda>_. []) c E \<noteq> None" if d: "ps_destroyer (ex_pool E) = Some (c, D_pend)" for c
  proof -
    obtain P where P: "ps_pool (ex_pool E) = Some P" using destroyer_pool [OF inv d] by auto
    have "\<exists>q. x = X_enter q" if "th_task_queue P = x # xs" for x xs using exec_invD(2) [OF ex, of x] that P by (simp add: pool_queue_def)
    then show ?thesis using P by (cases "th_task_queue P") (auto simp: deinit_pend_none destroy_pend_def cancel_queue_def split: exec_pc.split)
  qed
qed

theorem exec_never_undefined_witness:
  "pool_safe (ex_pool demo_exec_end) \<and>
   request True True None (5, 3) (demo_exec [X_enter 5] 1 0 False (Some (W_run (X_execute (5, 1)))) None None 2 1 0 [2] [(5, 1), (5, 2)] [(5, 1)] []) \<noteq> None"
proof -
  have "may_request (Some 1) (ex_pool (demo_exec [X_enter 5] 1 0 False (Some (W_run (X_execute (5, 1)))) None None 2 1 0 [2] [(5, 1), (5, 2)] [(5, 1)] []))"
    by (simp add: may_request_def may_call_def demo_exec_def)
  then show ?thesis using exec_never_undefined [OF demo_exec_init demo_exec_over] exec_never_undefined [OF demo_exec_init demo_exec_taken] by blast
qed



lemma mset_of_queues:
  assumes "\<And>q. mset (of_queue q xs) = mset (of_queue q ys)"
  shows "mset xs = mset ys"
proof (rule multiset_eqI)
  fix x :: session
  have c: "count (mset (of_queue (fst x) zs)) (snd x) = count (mset zs) x" for zs by (induction zs) (auto simp: of_queue_def prod_eq_iff)
  show "count (mset xs) x = count (mset ys) x" using c assms [of "fst x"] by metis
qed

end
