(* ===== verification/Exec_Deinit.thy ===== *)
theory Exec_Deinit
  imports Exec_Theorems
begin

text \<open>
  The end of \<^verbatim>\<open>deinit\<close>, when no thread of the pool is left: whatever the handling of the canceled sessions dispatches to the executor, every request is accounted for.
\<close>

section \<open>Dispatching without threads\<close>

text \<open>\<open>T\<close> and \<open>F\<close> are the sessions taken and finished by the threads, which do not change any more.\<close>

definition settled :: "session list \<Rightarrow> session list \<Rightarrow> exec_sys \<Rightarrow> bool" where
  "settled T F E \<longleftrightarrow> (\<forall>q. of_queue q (ex_accepted E) = of_queue q T @ of_queue q (ex_canceled E) @ ex_queues E q) \<and>
     mset (ex_dispatched E) = mset (ex_accepted E) + mset (ex_failed E) \<and> ex_taken E = T \<and> ex_finished E = F"

definition weights :: "(session \<Rightarrow> nat) \<Rightarrow> session list \<Rightarrow> nat" where
  "weights wt xs = (\<Sum>x \<leftarrow> xs. wt x)"

text \<open>The requests of \<open>ys\<close>, or some of them, were added to the queues.\<close>

definition grows :: "(session \<Rightarrow> nat) \<Rightarrow> session list \<Rightarrow> exec_sys \<Rightarrow> exec_sys \<Rightarrow> bool" where
  "grows wt ys E E' \<longleftrightarrow> locked (ex_pool E') \<noteq> None \<and> (\<exists>es. pool_queue (ex_pool E') = pool_queue (ex_pool E) @ map X_enter es) \<and>
     ex_canceled E' = ex_canceled E \<and> (\<forall>q. \<exists>ss. ex_queues E' q = ex_queues E q @ ss \<and> (\<forall>s \<in> set ss. (q, s) \<in> set ys)) \<and>
     weights wt (ex_accepted E') \<le> weights wt (ex_accepted E) + weights wt ys \<and> (\<forall>T F. settled T F E \<longrightarrow> settled T F E')"

lemma weights_simps [simp]: "weights wt [] = 0" "weights wt (x # xs) = wt x + weights wt xs" "weights wt (xs @ ys) = weights wt xs + weights wt ys"
  by (simp_all add: weights_def)

lemma settled_pool [simp]: "settled T F (E\<lparr>ex_pool := S\<rparr>) = settled T F E"
  by (simp add: settled_def)

lemma grows_refl: "locked (ex_pool E) \<noteq> None \<Longrightarrow> grows wt [] E E"
  by (auto simp: grows_def intro: exI [of _ "[]"])

lemma grows_trans:
  assumes "grows wt xs E E1" "grows wt ys E1 E2"
  shows "grows wt (xs @ ys) E E2"
proof -
  have "\<exists>ss. ex_queues E2 q = ex_queues E q @ ss \<and> (\<forall>s \<in> set ss. (q, s) \<in> set (xs @ ys))" for q
  proof -
    obtain s1 where 1: "ex_queues E1 q = ex_queues E q @ s1" "\<forall>s \<in> set s1. (q, s) \<in> set xs" using assms(1) unfolding grows_def by blast
    obtain s2 where 2: "ex_queues E2 q = ex_queues E1 q @ s2" "\<forall>s \<in> set s2. (q, s) \<in> set ys" using assms(2) unfolding grows_def by blast
    show ?thesis using 1 2 by (intro exI [of _ "s1 @ s2"]) auto
  qed
  moreover have "\<exists>es. pool_queue (ex_pool E2) = pool_queue (ex_pool E) @ map X_enter es"
  proof -
    obtain e1 e2 where "pool_queue (ex_pool E1) = pool_queue (ex_pool E) @ map X_enter e1" "pool_queue (ex_pool E2) = pool_queue (ex_pool E1) @ map X_enter e2"
      using assms unfolding grows_def by blast
    then show ?thesis by (intro exI [of _ "e1 @ e2"]) simp
  qed
  ultimately show ?thesis using assms unfolding grows_def by (simp add: add.assoc)
qed

lemma request_none:
  assumes "locked (ex_pool E) \<noteq> None"
  obtains r E' where "request mem mem' None x E = Some (r, E')" "(r = - 1 \<and> E' = E) \<or>
    (r = 0 \<and> (\<exists>S. E' = E\<lparr>ex_pool := S, ex_queues := (ex_queues E)(fst x := ex_queues E (fst x) @ [snd x]), ex_accepted := ex_accepted E @ [x]\<rparr> \<and>
      locked S \<noteq> None \<and> (\<exists>es. pool_queue S = pool_queue (ex_pool E) @ map X_enter es)))"
proof -
  obtain P where P: "ps_pool (ex_pool E) = Some P" "th_locks P" using assms by (auto simp: locked_def split: bind_splits if_splits)
  consider "\<not> mem" | "mem" "ex_queues E (fst x) \<noteq> []" | "mem" "ex_queues E (fst x) = []" "\<not> mem'" | "mem" "ex_queues E (fst x) = []" "mem'" by blast
  then show ?thesis
  proof cases
    case 2
    then show ?thesis using assms by (intro that [of 0]) (auto simp: request_def Let_def intro!: exI [of _ "ex_pool E"] exI [of _ "[]"])
  next
    case 4
    define S where "S = (ex_pool E)\<lparr>ps_pool := Some (P\<lparr>th_task_queue := th_task_queue P @ [X_enter (fst x)]\<rparr>), ps_scheduled := ps_scheduled (ex_pool E) @ [X_enter (fst x)]\<rparr>"
    have "thrdpool_schedule mem' (X_enter (fst x)) None (ex_pool E) = Some (0, S)" using 4 P by (simp add: S_def thrdpool_schedule_def schedule_entry_def locked_def signal_cond_def)
    then have "request mem mem' None x E = Some (0, E\<lparr>ex_pool := S, ex_queues := (ex_queues E)(fst x := ex_queues E (fst x) @ [snd x]), ex_accepted := ex_accepted E @ [x]\<rparr>)"
      using 4 by (simp add: request_def Let_def)
    moreover have "locked S \<noteq> None" "pool_queue S = pool_queue (ex_pool E) @ map X_enter [fst x]" using P by (simp_all add: S_def locked_def pool_queue_def)
    ultimately show ?thesis by (intro that [of 0]) blast+
  qed (auto simp: request_def thrdpool_schedule_def Let_def intro: that [of "- 1"])
qed

lemma dispatch_grows:
  assumes "locked (ex_pool E) \<noteq> None"
  shows "\<exists>E'. ExecRequest_dispatch mem mem' None x E = Some E' \<and> grows wt [x] E E'"
proof -
  let ?E = "E\<lparr>ex_dispatched := ex_dispatched E @ [x]\<rparr>"
  obtain r E' where r: "request mem mem' None x ?E = Some (r, E')" "(r = - 1 \<and> E' = ?E) \<or>
    (r = 0 \<and> (\<exists>S. E' = ?E\<lparr>ex_pool := S, ex_queues := (ex_queues E)(fst x := ex_queues E (fst x) @ [snd x]), ex_accepted := ex_accepted E @ [x]\<rparr> \<and>
      locked S \<noteq> None \<and> (\<exists>es. pool_queue S = pool_queue (ex_pool E) @ map X_enter es)))"
    by (rule request_none [of ?E mem mem' x]) (use assms in auto)
  from r(2) show ?thesis
  proof (elim disjE conjE exE)
    assume "r = - 1" "E' = ?E"
    then have "ExecRequest_dispatch mem mem' None x E = Some (?E\<lparr>ex_failed := ex_failed E @ [x]\<rparr>)" using r(1) by (simp add: ExecRequest_dispatch_def)
    moreover have "grows wt [x] E (?E\<lparr>ex_failed := ex_failed E @ [x]\<rparr>)" using assms by (auto simp: grows_def settled_def intro: exI [of _ "[]"])
    ultimately show ?thesis by blast
  next
    fix S es assume "r = 0" and E': "E' = ?E\<lparr>ex_pool := S, ex_queues := (ex_queues E)(fst x := ex_queues E (fst x) @ [snd x]), ex_accepted := ex_accepted E @ [x]\<rparr>"
      and S: "locked S \<noteq> None" "pool_queue S = pool_queue (ex_pool E) @ map X_enter es"
    then have "ExecRequest_dispatch mem mem' None x E = Some E'" using r(1) by (simp add: ExecRequest_dispatch_def)
    moreover have "grows wt [x] E E'" using S by (auto simp: E' grows_def settled_def)
    ultimately show ?thesis by blast
  qed
qed

definition dispatches :: "handling \<Rightarrow> session \<Rightarrow> session list" where
  "dispatches h x = map (\<lambda>(mem, mem', y). y) (h x)"

lemma dispatch_all_grows:
  assumes "locked (ex_pool E) \<noteq> None"
  shows "\<exists>E'. dispatch_all rs E = Some E' \<and> grows wt (map (\<lambda>(mem, mem', y). y) rs) E E'"
  using assms
proof (induction rs arbitrary: E)
  case Nil
  then show ?case using grows_refl by simp
next
  case (Cons r rs)
  obtain mem mem' x where r: "r = (mem, mem', x)" by (cases r)
  obtain E1 where 1: "ExecRequest_dispatch mem mem' None x E = Some E1" "grows wt [x] E E1" using dispatch_grows [OF Cons.prems] by blast
  then have "locked (ex_pool E1) \<noteq> None" by (simp add: grows_def)
  from Cons.IH [OF this] obtain E2 where 2: "dispatch_all rs E1 = Some E2" "grows wt (map (\<lambda>(mem, mem', y). y) rs) E1 E2" by blast
  show ?case using 1 2 grows_trans [OF 1(2) 2(2)] by (simp add: r)
qed


section \<open>Cancelling a queue\<close>

definition pot :: "(session \<Rightarrow> nat) \<Rightarrow> exec_sys \<Rightarrow> nat" where
  "pot wt E = weights wt (ex_accepted E) - weights wt (ex_canceled E)"

definition fresh :: "handling \<Rightarrow> exec_sys \<Rightarrow> nat \<Rightarrow> nat \<Rightarrow> bool" where
  "fresh h E q s \<longleftrightarrow> (\<exists>x \<in> set (ex_canceled E). (q, s) \<in> set (dispatches h x))"

definition drained :: "handling \<Rightarrow> (session \<Rightarrow> nat) \<Rightarrow> session list \<Rightarrow> session list \<Rightarrow> nat \<Rightarrow> exec_sys \<Rightarrow> exec_sys \<Rightarrow> bool" where
  "drained h wt T F q E E' \<longleftrightarrow> locked (ex_pool E') \<noteq> None \<and> (\<exists>es. pool_queue (ex_pool E') = pool_queue (ex_pool E) @ map X_enter es) \<and> settled T F E' \<and>
     (E' = E \<or> pot wt E' < pot wt E) \<and> set (ex_canceled E) \<subseteq> set (ex_canceled E') \<and>
     (\<forall>p s. s \<in> set (ex_queues E' p) \<longrightarrow> fresh h E' p s \<or> (p \<noteq> q \<and> s \<in> set (ex_queues E p)))"

lemma count_of_queue: "count (mset (of_queue (fst x) zs)) (snd x) = count (mset zs) x"
  by (induction zs) (auto simp: of_queue_def prod_eq_iff)

lemma settled_weights:
  assumes "settled T F E"
  shows "weights wt (ex_canceled E) \<le> weights wt (ex_accepted E)"
proof -
  have "count (mset (ex_canceled E)) x \<le> count (mset (ex_accepted E)) x" for x
    unfolding count_of_queue [symmetric] using assms by (simp add: settled_def)
  then obtain M where "mset (ex_accepted E) = mset (ex_canceled E) + M" by (metis mset_subset_eqI subset_mset.le_iff_add)
  moreover have "weights wt zs = sum_mset (image_mset wt (mset zs))" for zs by (simp add: weights_def flip: sum_mset_sum_list)
  ultimately show ?thesis by simp
qed

lemma cancel_one:
  assumes "locked (ex_pool E) \<noteq> None" "settled T F E" "ex_queues E q = s # rest" "weights wt (dispatches h (q, s)) < wt (q, s)"
  shows "\<exists>E'. handle_canceled h (q, s) (E\<lparr>ex_queues := (ex_queues E)(q := rest)\<rparr>) = Some E' \<and>
    grows wt (dispatches h (q, s)) (E\<lparr>ex_queues := (ex_queues E)(q := rest), ex_canceled := ex_canceled E @ [(q, s)]\<rparr>) E' \<and> settled T F E' \<and> pot wt E' < pot wt E"
proof -
  let ?E = "E\<lparr>ex_queues := (ex_queues E)(q := rest), ex_canceled := ex_canceled E @ [(q, s)]\<rparr>"
  have s: "settled T F ?E" using assms(2,3) by (auto simp: settled_def)
  obtain E' where E': "dispatch_all (h (q, s)) ?E = Some E'" "grows wt (dispatches h (q, s)) ?E E'" using dispatch_all_grows [of ?E "h (q, s)" wt] assms(1) by (auto simp: dispatches_def)
  have "settled T F E'" using E'(2) s by (simp add: grows_def)
  moreover have "pot wt E' < pot wt E"
  proof -
    have "weights wt (ex_accepted E') \<le> weights wt (ex_accepted E) + weights wt (dispatches h (q, s))" "ex_canceled E' = ex_canceled E @ [(q, s)]" using E'(2) by (auto simp: grows_def)
    then show ?thesis using settled_weights [OF s, of wt] assms(4) by (simp add: pot_def)
  qed
  ultimately show ?thesis using E' by (simp add: handle_canceled_def)
qed

lemma cancel_sessions_drained:
  assumes "locked (ex_pool E) \<noteq> None" "settled T F E" "\<And>x. weights wt (dispatches h x) < wt x"
  shows "\<exists>E'. cancel_sessions h q E = Some E' \<and> drained h wt T F q E E'"
  using assms(1,2)
proof (induction "pot wt E" arbitrary: E rule: less_induct)
  case less
  show ?case
  proof (cases "ex_queues E q")
    case Nil
    then have "drained h wt T F q E E" using less.prems by (auto simp: drained_def intro: exI [of _ "[]"])
    then show ?thesis using Nil by (subst cancel_sessions.simps) simp
  next
    case (Cons s rest)
    let ?E = "E\<lparr>ex_queues := (ex_queues E)(q := rest), ex_canceled := ex_canceled E @ [(q, s)]\<rparr>"
    obtain E1 where E1: "handle_canceled h (q, s) (E\<lparr>ex_queues := (ex_queues E)(q := rest)\<rparr>) = Some E1" "grows wt (dispatches h (q, s)) ?E E1" "settled T F E1" "pot wt E1 < pot wt E"
      using cancel_one [OF less.prems Cons assms(3)] by blast
    have l: "locked (ex_pool E1) \<noteq> None" and c: "ex_canceled E1 = ex_canceled E @ [(q, s)]" using E1(2) by (simp_all add: grows_def)
    obtain e1 where e1: "pool_queue (ex_pool E1) = pool_queue (ex_pool E) @ map X_enter e1" using E1(2) by (auto simp: grows_def)
    have new: "fresh h E1 p v \<or> v \<in> set (if p = q then rest else ex_queues E p)" if v: "v \<in> set (ex_queues E1 p)" for p v
    proof -
      obtain ss where "ex_queues E1 p = ex_queues ?E p @ ss" "\<forall>v \<in> set ss. (p, v) \<in> set (dispatches h (q, s))" using E1(2) unfolding grows_def by blast
      then show ?thesis using v c by (auto simp: fresh_def)
    qed
    show ?thesis
    proof (cases "rest = []")
      case True
      have "fresh h E1 p v \<or> (p \<noteq> q \<and> v \<in> set (ex_queues E p))" if "v \<in> set (ex_queues E1 p)" for p v using new [OF that] True by (auto split: if_splits)
      moreover have "set (ex_canceled E) \<subseteq> set (ex_canceled E1)" using c by auto
      ultimately have "drained h wt T F q E E1" unfolding drained_def using l e1 E1(3,4) by blast
      then show ?thesis using E1(1) Cons True by (subst cancel_sessions.simps) simp
    next
      case False
      obtain E2 where E2: "cancel_sessions h q E1 = Some E2" "drained h wt T F q E1 E2" using less.hyps [OF E1(4) l E1(3)] by blast
      have f: "fresh h E1 p v \<Longrightarrow> fresh h E2 p v" for p v using E2(2) by (auto simp: fresh_def drained_def)
      obtain e2 where e2: "pool_queue (ex_pool E2) = pool_queue (ex_pool E1) @ map X_enter e2" using E2(2) by (auto simp: drained_def)
      have "fresh h E2 p v \<or> (p \<noteq> q \<and> v \<in> set (ex_queues E p))" if "v \<in> set (ex_queues E2 p)" for p v
      proof -
        have "fresh h E2 p v \<or> (p \<noteq> q \<and> v \<in> set (ex_queues E1 p))" using E2(2) that unfolding drained_def by blast
        then show ?thesis using new [of v p] f [of p v] by (auto split: if_splits)
      qed
      moreover have "\<exists>es. pool_queue (ex_pool E2) = pool_queue (ex_pool E) @ map X_enter es" using e1 e2 by (intro exI [of _ "e1 @ e2"]) simp
      moreover have "pot wt E2 < pot wt E" "set (ex_canceled E) \<subseteq> set (ex_canceled E2)" "locked (ex_pool E2) \<noteq> None" "settled T F E2" using E2(2) E1(4) c by (auto simp: drained_def)
      ultimately have "drained h wt T F q E E2" unfolding drained_def by blast
      then show ?thesis using E1(1) E2(1) Cons False by (subst cancel_sessions.simps) simp
    qed
  qed
qed

section \<open>The loop over the tasks of the pool\<close>

lemma deinit_rest_ends:
  assumes "locked (ex_pool E) \<noteq> None" "settled T F E" "\<And>x. weights wt (dispatches h x) < wt x"
    "\<And>x. x \<in> set (pool_queue (ex_pool E)) \<Longrightarrow> \<exists>q. x = X_enter q" "\<And>p s. s \<in> set (ex_queues E p) \<Longrightarrow> fresh h E p s \<or> X_enter p \<in> set (pool_queue (ex_pool E))"
  shows "\<exists>E'. deinit_rest h None E = Some E' \<and> settled T F E' \<and> ps_pool (ex_pool E') = None \<and> ps_destroyer (ex_pool E') = Some (None, D_over) \<and>
    (\<forall>p. \<forall>s \<in> set (ex_queues E' p). fresh h E' p s)"
  using assms(1,2,4,5)
proof (induction E rule: wf_induct_rule [OF wf_measures [of "[pot wt, \<lambda>E. length (pool_queue (ex_pool E))]"]])
  case (1 E)
  obtain P where P: "ps_pool (ex_pool E) = Some P" "th_locks P" using "1.prems"(1) by (auto simp: locked_def split: bind_splits if_splits)
  have Q: "pool_queue (ex_pool E) = th_task_queue P" using P by (simp add: pool_queue_def)
  show ?case
  proof (cases "th_task_queue P")
    case Nil
    then show ?thesis using P "1.prems"(2,4) Q
      by (subst deinit_rest.simps) (auto simp: deinit_pend_def destroy_pend_def fresh_def)
  next
    case (Cons x xs)
    obtain q where x: "x = X_enter q" using "1.prems"(3) [of x] Cons Q by auto
    let ?S = "(ex_pool E)\<lparr>ps_pool := Some (P\<lparr>th_task_queue := xs\<rparr>), ps_pended := ps_pended (ex_pool E) @ [x]\<rparr>"
    have "locked (ex_pool (E\<lparr>ex_pool := ?S\<rparr>)) \<noteq> None" using P by (simp add: locked_def)
    from cancel_sessions_drained [OF this, of T F wt h q] obtain E1 where E1: "cancel_sessions h q (E\<lparr>ex_pool := ?S\<rparr>) = Some E1" "drained h wt T F q (E\<lparr>ex_pool := ?S\<rparr>) E1"
      using "1.prems"(2) assms(3) by auto
    have pend: "deinit_pend h None E = Some E1" using P Cons E1(1) by (simp add: deinit_pend_def destroy_pend_def executor_cancel_tasks_def x)
    obtain es where es: "pool_queue (ex_pool E1) = xs @ map X_enter es" using E1(2) by (auto simp: drained_def pool_queue_def)
    have l: "locked (ex_pool E1) \<noteq> None" "settled T F E1" using E1(2) by (auto simp: drained_def)
    have f: "fresh h E p v \<Longrightarrow> fresh h E1 p v" for p v using E1(2) by (auto simp: fresh_def drained_def)
    have old: "fresh h E1 p v \<or> X_enter p \<in> set xs" if "v \<in> set (ex_queues E1 p)" for p v
      using that E1(2) f [of p v] "1.prems"(4) [of v p] Q Cons x by (auto simp: drained_def)
    show ?thesis
    proof (cases "xs = []")
      case True
      obtain P1 where P1: "ps_pool (ex_pool E1) = Some P1" using l(1) by (auto simp: locked_def split: bind_splits)
      then show ?thesis using pend P Cons True old l(2) by (subst deinit_rest.simps) (auto simp: deinit_end_def destroy_pend_def fresh_def)
    next
      case False
      have "(E1, E) \<in> measures [pot wt, \<lambda>E. length (pool_queue (ex_pool E))]" using E1(2) Q Cons by (auto simp: drained_def pool_queue_def pot_def)
      moreover have "\<exists>q. y = X_enter q" if "y \<in> set (pool_queue (ex_pool E1))" for y using that es "1.prems"(3) [of y] Q Cons by auto
      moreover have "fresh h E1 p v \<or> X_enter p \<in> set (pool_queue (ex_pool E1))" if "v \<in> set (ex_queues E1 p)" for p v using old [OF that] es by auto
      ultimately have "\<exists>E'. deinit_rest h None E1 = Some E' \<and> settled T F E' \<and> ps_pool (ex_pool E') = None \<and> ps_destroyer (ex_pool E') = Some (None, D_over) \<and>
        (\<forall>p. \<forall>s \<in> set (ex_queues E' p). fresh h E' p s)" by (rule "1.IH" [OF _ l])
      then show ?thesis using pend P Cons False by (subst deinit_rest.simps) (auto split: list.split)
    qed
  qed
qed


section \<open>The states in which the loop runs\<close>

lemma no_code_left:
  assumes inv: "pool_inv js ws S" and d: "ps_destroyer S = Some (None, D_pend)"
  shows "running f (ps_workers S) = (\<Sum>t \<in> dom (ps_workers S). f None)"
proof -
  have o: "pool_members (ps_workers S) (ps_detached S) = {}" "ps_detached S = {}" using pool_invD(7) [OF inv] by (cases rule: phase_cases, use d in auto)+
  have "pc_of w = None" if "ps_workers S t = Some w" for t w
  proof -
    have "\<not> active w" using o that by (auto simp: pool_members_def)
    then show ?thesis by (cases w) auto
  qed
  then show ?thesis by (auto simp: running_def intro!: sum.cong)
qed

lemma pend_state:
  assumes init: "Executor_init mem r_mutex r_cond r_key r_attr nthreads = Inr E0" and run: "exec_run E0 E" and d: "ps_destroyer (ex_pool E) = Some (None, D_pend)"
  shows "locked (ex_pool E) \<noteq> None" "settled (ex_taken E) (ex_finished E) E" "mset (ex_taken E) = mset (ex_finished E)"
    "x \<in> set (pool_queue (ex_pool E)) \<Longrightarrow> \<exists>q. x = X_enter q" "ex_queues E p \<noteq> [] \<Longrightarrow> X_enter p \<in> set (pool_queue (ex_pool E))"
proof -
  note D = exec_invD [OF exec_reached(1) [OF init run]]
  obtain js ws where inv: "pool_inv js ws (ex_pool E)" using exec_reached(3) [OF init run] by blast
  show "locked (ex_pool E) \<noteq> None" using destroyer_pool [OF inv d] by auto
  have "mset (ex_dispatched E) = mset (ex_accepted E) + mset (ex_failed E)"
    by (rule run_dispatched [OF run]) (use init in \<open>auto simp: Executor_init_def split: if_splits sum.splits\<close>)
  then show "settled (ex_taken E) (ex_finished E) E" using D(4) by (simp add: settled_def)
  have "(\<Sum>y \<leftarrow> ys. executing (Some y)) = {#}" if "\<And>y. y \<in> set ys \<Longrightarrow> \<exists>q. y = X_enter q" for ys using that by (induction ys) fastforce+
  then have "tasks executing (ex_pool E) = {#}" using D(2) by (simp add: tasks_def no_code_left [OF inv d])
  then show "mset (ex_taken E) = mset (ex_finished E)" using D(5) by simp
  show "x \<in> set (pool_queue (ex_pool E)) \<Longrightarrow> \<exists>q. x = X_enter q" by (rule D(2))
  have "(\<Sum>y \<leftarrow> ys. enters p (Some y)) = 0" if "X_enter p \<notin> set ys" for ys using that by (induction ys) (auto simp: enters_def)
  moreover have "(\<Sum>y \<leftarrow> pool_queue (ex_pool E). enters p (Some y)) = (if ex_queues E p = [] then 0 else 1)" using D(1) [of p] by (simp add: tasks_def no_code_left [OF inv d])
  ultimately show "ex_queues E p \<noteq> [] \<Longrightarrow> X_enter p \<in> set (pool_queue (ex_pool E))" by fastforce
qed

lemma of_queue_mset: "mset (of_queue q xs) = image_mset snd (filter_mset (\<lambda>x. fst x = q) (mset xs))"
  by (simp add: of_queue_def)

lemma settled_handled:
  assumes "settled T F E" "mset T = mset F"
  shows "mset (of_queue q (ex_dispatched E)) = mset (of_queue q (ex_finished E @ ex_canceled E @ ex_failed E)) + mset (ex_queues E q)"
proof -
  have "mset (of_queue q (ex_accepted E)) = mset (of_queue q T) + mset (of_queue q (ex_canceled E)) + mset (ex_queues E q)" using assms(1) by (simp add: settled_def)
  then show ?thesis using assms by (simp add: settled_def of_queue_mset)
qed

lemma cancel_sessions_last:
  assumes "ex_queues E q = ss @ [s]" "\<And>v. v \<in> set ss \<Longrightarrow> h (q, v) = []"
  shows "cancel_sessions h q E = dispatch_all (h (q, s)) (E\<lparr>ex_queues := (ex_queues E)(q := []), ex_canceled := ex_canceled E @ map (Pair q) (ss @ [s])\<rparr>)"
  using assms
proof (induction ss arbitrary: E)
  case Nil
  then show ?case by (subst cancel_sessions.simps) (simp add: handle_canceled_def)
next
  case (Cons v ss)
  let ?E = "E\<lparr>ex_queues := (ex_queues E)(q := ss @ [s]), ex_canceled := ex_canceled E @ [(q, v)]\<rparr>"
  have "cancel_sessions h q E = cancel_sessions h q ?E" by (subst cancel_sessions.simps) (simp add: Cons.prems handle_canceled_def)
  also have "\<dots> = dispatch_all (h (q, s)) (E\<lparr>ex_queues := (ex_queues E)(q := []), ex_canceled := ex_canceled E @ map (Pair q) ((v # ss) @ [s])\<rparr>)"
    using Cons.IH [of ?E] Cons.prems(2) by (simp add: fun_upd_def cong: if_cong)
  finally show ?case .
qed

text \<open>The handling of the session 2 of the queue 5 dispatches the session 3.\<close>

definition demo_handling :: handling where
  "demo_handling x = (if x = (5, 2) then [(True, True, (5, 3))] else [])"

section \<open>Properties\<close>

text \<open>
  C5: When the threads have left, \<^verbatim>\<open>deinit\<close> called by another thread cancels what is left. Whatever the handling of the canceled sessions dispatches to the same executor, as long as one
  handling does not lead to others for ever (\<open>wt\<close> is a bound for what may follow a session), \<^verbatim>\<open>deinit\<close> returns, the pool is gone, and every request ever dispatched to a queue was handled exactly once,
  as finished, as canceled, or with an error where \<^verbatim>\<open>request\<close> had no memory, except those that still wait in their queue; and only a request that the handling of a canceled session dispatched can be left
  waiting. So when no such handling dispatches anything, every request was handled.
\<close>

theorem exec_all_handled:
  assumes "Executor_init mem r_mutex r_cond r_key r_attr nthreads = Inr E0" "exec_run E0 E" "ps_destroyer (ex_pool E) = Some (None, D_pend)"
    "\<And>x. weights wt (dispatches h x) < wt x"
  shows "\<exists>E'. deinit_rest h None E = Some E' \<and> ps_pool (ex_pool E') = None \<and> ps_destroyer (ex_pool E') = Some (None, D_over) \<and>
    (\<forall>q. mset (of_queue q (ex_dispatched E')) = mset (of_queue q (ex_finished E' @ ex_canceled E' @ ex_failed E')) + mset (ex_queues E' q)) \<and>
    (\<forall>q. \<forall>s \<in> set (ex_queues E' q). \<exists>x \<in> set (ex_canceled E'). (q, s) \<in> set (dispatches h x))"
proof -
  note p = pend_state [OF assms(1-3)]
  have "\<exists>E'. deinit_rest h None E = Some E' \<and> settled (ex_taken E) (ex_finished E) E' \<and> ps_pool (ex_pool E') = None \<and> ps_destroyer (ex_pool E') = Some (None, D_over) \<and>
    (\<forall>p. \<forall>s \<in> set (ex_queues E' p). fresh h E' p s)"
    by (rule deinit_rest_ends [OF p(1,2) assms(4) p(4)]) (auto intro!: p(5))
  then show ?thesis using settled_handled [OF _ p(3)] unfolding fresh_def by blast
qed

theorem exec_all_handled_witness:
  "ps_destroyer (ex_pool demo_exec_pend) = Some (None, D_pend) \<and>
   (\<exists>E'. deinit_rest demo_handling None demo_exec_pend = Some E' \<and> mset (of_queue 5 (ex_dispatched E')) = mset (of_queue 5 (ex_finished E' @ ex_canceled E' @ ex_failed E')) + mset (ex_queues E' 5))"
proof -
  have d: "ps_destroyer (ex_pool demo_exec_pend) = Some (None, D_pend)" by (simp add: demo_exec_pend_def demo_exec_def)
  have "weights (\<lambda>x. if x = (5, 2) then 2 else 1) (dispatches demo_handling x) < (if x = (5, 2) then 2 else 1)" for x by (simp add: dispatches_def demo_handling_def)
  from exec_all_handled [where h = demo_handling, OF demo_exec_init demo_exec_left d this] show ?thesis using d by blast
qed

text \<open>
  C38: A request is lost when the last session that \<^verbatim>\<open>deinit\<close> cancels dispatches one: \<^verbatim>\<open>thrdpool_destroy\<close> has stored that its list ends, so the task that \<^verbatim>\<open>request\<close> adds to the pool is not seen; the
  pool is freed, and the request is neither run nor canceled, nor was its dispatch refused.
\<close>

theorem exec_cancel_drops:
  assumes "Executor_init mem r_mutex r_cond r_key r_attr nthreads = Inr E0" "exec_run E0 E" "ps_destroyer (ex_pool E) = Some (None, D_pend)"
    "pool_queue (ex_pool E) = [X_enter q]" "ex_queues E q = ss @ [s]" "\<And>v. v \<in> set ss \<Longrightarrow> h (q, v) = []" "h (q, s) = [(True, True, x)]"
  shows "\<exists>E'. deinit_rest h None E = Some E' \<and> ps_pool (ex_pool E') = None \<and> ex_dispatched E' = ex_dispatched E @ [x] \<and> ex_queues E' (fst x) = [snd x] \<and>
    ex_finished E' = ex_finished E \<and> ex_canceled E' = ex_canceled E @ map (Pair q) (ss @ [s]) \<and> ex_failed E' = ex_failed E"
proof -
  note p = pend_state [OF assms(1-3)]
  obtain P where P: "ps_pool (ex_pool E) = Some P" "th_locks P" using p(1) by (auto simp: locked_def split: bind_splits if_splits)
  have Q: "th_task_queue P = [X_enter q]" using assms(4) P by (simp add: pool_queue_def)
  have e: "fst x \<noteq> q \<Longrightarrow> ex_queues E (fst x) = []" using p(5) [of "fst x"] assms(4) by auto
  let ?S = "(ex_pool E)\<lparr>ps_pool := Some (P\<lparr>th_task_queue := []\<rparr>), ps_pended := ps_pended (ex_pool E) @ [X_enter q]\<rparr>"
  let ?E = "E\<lparr>ex_pool := ?S, ex_queues := (ex_queues E)(q := []), ex_canceled := ex_canceled E @ map (Pair q) (ss @ [s])\<rparr>"
  have "deinit_pend h None E = dispatch_all [(True, True, x)] ?E"
    using P Q assms(5-7) cancel_sessions_last [of "E\<lparr>ex_pool := ?S\<rparr>" q ss s h] by (simp add: deinit_pend_def destroy_pend_def executor_cancel_tasks_def)
  then show ?thesis using P Q e
    by (subst deinit_rest.simps) (auto simp: ExecRequest_dispatch_def request_def thrdpool_schedule_def schedule_entry_def locked_def signal_cond_def Let_def deinit_end_def destroy_pend_def)
qed

theorem exec_cancel_drops_witness:
  "\<exists>E'. deinit_rest demo_handling None demo_exec_pend = Some E' \<and> ex_dispatched E' = [(5, 1), (5, 2), (5, 3)] \<and> ex_queues E' 5 = [3] \<and> ex_finished E' = [(5, 1)] \<and> ex_canceled E' = [(5, 2)]"
proof -
  have d: "ps_destroyer (ex_pool demo_exec_pend) = Some (None, D_pend)" "pool_queue (ex_pool demo_exec_pend) = [X_enter 5]" "ex_queues demo_exec_pend 5 = [] @ [2]"
    "demo_handling (5, 2) = [(True, True, (5, 3))]" by (simp_all add: demo_exec_pend_def demo_exec_def pool_queue_def demo_handling_def)
  have f: "ex_dispatched demo_exec_pend = [(5, 1), (5, 2)]" "ex_finished demo_exec_pend = [(5, 1)]" "ex_canceled demo_exec_pend = []" by (simp_all add: demo_exec_pend_def demo_exec_def)
  have n: "demo_handling (5, v) = []" if "v \<in> set []" for v using that by simp
  show ?thesis using exec_cancel_drops [where h = demo_handling, OF demo_exec_init demo_exec_left d(1,2,3) n d(4)] f by auto
qed

end
