(* ===== verification/Dns_Parser.thy ===== *)
theory Dns_Parser
  imports Mysql_Bytes
begin

unbundle bit_operations_syntax

text \<open>
  The parser of DNS messages (\<^verbatim>\<open>workflow/src/protocol/dns_parser.c\<close>). Positions are indices into the buffer \<^verbatim>\<open>msgbuf\<close>, of which the model has the bytes that
  were written; \<^verbatim>\<open>msgbase\<close> is behind the two bytes of the length when there are any. Names are byte lists that end before the terminating zero. A record is a
  value: memory matters only where it may be missing (\<open>mem\<close> says which sizes can be allocated). Reading bytes that were not written, writing behind the array
  of a name, and following compression pointers forever are \<open>None\<close>.
\<close>

section \<open>Data\<close>

text \<open>The two bytes with the flags, whose order of bits does not depend on the machine.\<close>

record dns_header =
  dh_id :: u16
  dh_flags1 :: u8
  dh_flags2 :: u8
  dh_qdcount :: u16
  dh_ancount :: u16
  dh_nscount :: u16
  dh_arcount :: u16

record dns_question =
  dq_name :: "u8 list option"
  dq_type :: u16
  dq_class :: u16

datatype dns_rdata =
    Rd_bytes "u8 list"
  | Rd_name "u8 list"
  | Rd_soa "u8 list" "u8 list" u32 int int int u32
  | Rd_srv u16 u16 u16 "u8 list"
  | Rd_mx int "u8 list"

record dns_record =
  dr_name :: "u8 list"
  dr_type :: u16
  dr_rclass :: u16
  dr_ttl :: u32
  dr_rdlength :: u16
  dr_rdata :: dns_rdata

record dns_parser =
  dp_msgbuf :: "u8 list"
  dp_msgbase :: nat
  dp_cur :: nat
  dp_msgsize :: nat
  dp_bufsize :: nat
  dp_complete :: bool
  dp_single_packet :: bool
  dp_header :: dns_header
  dp_question :: dns_question
  dp_answer_list :: "dns_record list"
  dp_authority_list :: "dns_record list"
  dp_additional_list :: "dns_record list"

definition DNS_TYPE_A :: u16 where "DNS_TYPE_A = 1"
definition DNS_TYPE_NS :: u16 where "DNS_TYPE_NS = 2"
definition DNS_TYPE_CNAME :: u16 where "DNS_TYPE_CNAME = 5"
definition DNS_TYPE_SOA :: u16 where "DNS_TYPE_SOA = 6"
definition DNS_TYPE_PTR :: u16 where "DNS_TYPE_PTR = 12"
definition DNS_TYPE_MX :: u16 where "DNS_TYPE_MX = 15"
definition DNS_TYPE_AAAA :: u16 where "DNS_TYPE_AAAA = 28"
definition DNS_TYPE_SRV :: u16 where "DNS_TYPE_SRV = 33"

lemmas dns_types = DNS_TYPE_A_def DNS_TYPE_NS_def DNS_TYPE_CNAME_def DNS_TYPE_SOA_def DNS_TYPE_PTR_def DNS_TYPE_MX_def DNS_TYPE_AAAA_def DNS_TYPE_SRV_def

text \<open>A string of C: up to the first zero.\<close>

definition c_str :: "u8 list \<Rightarrow> u8 list" where
  "c_str bs = takeWhile (\<lambda>b. b \<noteq> 0) bs"

definition no_header :: dns_header where
  "no_header = \<lparr>dh_id = 0, dh_flags1 = 0, dh_flags2 = 0, dh_qdcount = 0, dh_ancount = 0, dh_nscount = 0, dh_arcount = 0\<rparr>"

definition dns_parser_init :: dns_parser where
  "dns_parser_init = \<lparr>dp_msgbuf = [], dp_msgbase = 0, dp_cur = 0, dp_msgsize = 0, dp_bufsize = 0, dp_complete = False, dp_single_packet = False,
     dp_header = no_header, dp_question = \<lparr>dq_name = None, dq_type = 0, dq_class = 0\<rparr>, dp_answer_list = [], dp_authority_list = [], dp_additional_list = []\<rparr>"

section \<open>Integers and names\<close>

definition dns_uint16 :: "u8 list \<Rightarrow> nat \<Rightarrow> u16 option" where
  "dns_uint16 buf p = do { a \<leftarrow> rd buf p; b \<leftarrow> rd buf (p + 1); Some (push_bit 8 (ucast a) + ucast b) }"

definition dns_uint32 :: "u8 list \<Rightarrow> nat \<Rightarrow> u32 option" where
  "dns_uint32 buf p =
     do { a \<leftarrow> rd buf p; b \<leftarrow> rd buf (p + 1); c \<leftarrow> rd buf (p + 2); d \<leftarrow> rd buf (p + 3);
          Some (push_bit 24 (ucast a) + push_bit 16 (ucast b) + push_bit 8 (ucast c) + ucast d) }"

text \<open>Writing into \<^verbatim>\<open>char host[DNS_NAMES_MAX + 2]\<close>.\<close>

definition host_put :: "u8 list \<Rightarrow> u8 list \<Rightarrow> u8 list option" where
  "host_put host bs = (if length host + length bs \<le> 258 then Some (host @ bs) else None)"

text \<open>The loop of \<^verbatim>\<open>__dns_parser_parse_host\<close>: the result has the value that is returned, the position, and what is in the array.\<close>

partial_function (option) parse_host_loop :: "u8 list \<Rightarrow> nat \<Rightarrow> nat \<Rightarrow> nat \<Rightarrow> nat option \<Rightarrow> u8 list \<Rightarrow> (int \<times> nat \<times> u8 list) option" where
  "parse_host_loop buf base msgsize cur backup host =
     (if cur < msgsize then
        do { len \<leftarrow> rd buf cur;
             if len AND 0xC0 = 0 then
               (if len = 0 then Some (0, (case backup of Some b \<Rightarrow> b | None \<Rightarrow> cur + 1), host)
                else if 63 < unat len \<or> msgsize < cur + 1 + unat len \<or> 256 < length host + unat len + 1 then Some (- 2, cur + 1, host)
                else do { label \<leftarrow> bytes_at buf (cur + 1) (unat len);
                          host \<leftarrow> host_put host label;
                          host \<leftarrow> host_put host [46];
                          parse_host_loop buf base msgsize (cur + 1 + unat len) backup host })
             else if len AND 0xC0 = 0xC0 then
               do { v \<leftarrow> dns_uint16 buf cur;
                    if msgsize \<le> unat (v AND 0x3FFF) then Some (- 2, cur + 2, host)
                    else parse_host_loop buf base msgsize (base + unat (v AND 0x3FFF)) (Some (case backup of Some b \<Rightarrow> b | None \<Rightarrow> cur + 2)) host }
             else Some (- 2, cur, host) }
      else Some (0, (case backup of Some b \<Rightarrow> b | None \<Rightarrow> cur), host))"

text \<open>An error that is returned, or a value, with the parser as it is then.\<close>

type_synonym 'a dns_result = "((int + 'a) \<times> dns_parser) option"

definition dns_bind :: "'a dns_result \<Rightarrow> ('a \<Rightarrow> dns_parser \<Rightarrow> 'b dns_result) \<Rightarrow> 'b dns_result" where
  "dns_bind r f = (case r of None \<Rightarrow> None | Some (Inl e, p) \<Rightarrow> Some (Inl e, p) | Some (Inr a, p) \<Rightarrow> f a p)"

definition parse_host :: "dns_parser \<Rightarrow> u8 list dns_result" where
  "parse_host p =
     (if dp_msgsize p \<le> dp_cur p then Some (Inl (- 2), p)
      else do { (r, cur, host) \<leftarrow> parse_host_loop (dp_msgbuf p) (dp_msgbase p) (dp_msgsize p) (dp_cur p) None [];
                let p = p\<lparr>dp_cur := cur\<rparr>;
                if r < 0 then Some (Inl r, p)
                else do { let host = (if 1 < length host \<and> last host = 46 then butlast host else host);
                          host \<leftarrow> (if host = [] then host_put host [46] else Some host);
                          host_put host [0];
                          Some (Inr host, p) } })"

section \<open>Records\<close>

text \<open>The sizes of \<^verbatim>\<open>struct __dns_record_entry\<close> and of the structures with the data.\<close>

definition entry_size :: nat where "entry_size = 48"

definition take_bytes :: "(nat \<Rightarrow> bool) \<Rightarrow> nat \<Rightarrow> dns_parser \<Rightarrow> dns_rdata dns_result" where
  "take_bytes mem n p =
     (if \<not> mem (entry_size + n) then Some (Inl (- 1), p)
      else do { bs \<leftarrow> bytes_at (dp_msgbuf p) (dp_cur p) n; Some (Inr (Rd_bytes bs), p\<lparr>dp_cur := dp_cur p + n\<rparr>) })"

definition parse_a :: "(nat \<Rightarrow> bool) \<Rightarrow> nat \<Rightarrow> dns_parser \<Rightarrow> dns_rdata dns_result" where
  "parse_a mem rdlength p = (if 4 \<noteq> rdlength then Some (Inl (- 2), p) else take_bytes mem rdlength p)"

definition parse_aaaa :: "(nat \<Rightarrow> bool) \<Rightarrow> nat \<Rightarrow> dns_parser \<Rightarrow> dns_rdata dns_result" where
  "parse_aaaa mem rdlength p = (if 16 \<noteq> rdlength then Some (Inl (- 2), p) else take_bytes mem rdlength p)"

definition parse_others :: "(nat \<Rightarrow> bool) \<Rightarrow> nat \<Rightarrow> dns_parser \<Rightarrow> dns_rdata dns_result" where
  "parse_others mem rdlength p = take_bytes mem rdlength p"

definition parse_names :: "(nat \<Rightarrow> bool) \<Rightarrow> nat \<Rightarrow> dns_parser \<Rightarrow> dns_rdata dns_result" where
  "parse_names mem rdlength p =
     (let rcdend = dp_cur p + rdlength in
      dns_bind (parse_host p) (\<lambda>name p.
        if dp_cur p \<noteq> rcdend then Some (Inl (- 2), p)
        else if \<not> mem (entry_size + length (c_str name) + 1) then Some (Inl (- 1), p)
        else Some (Inr (Rd_name (c_str name)), p)))"

definition parse_soa :: "(nat \<Rightarrow> bool) \<Rightarrow> nat \<Rightarrow> dns_parser \<Rightarrow> dns_rdata dns_result" where
  "parse_soa mem rdlength p =
     (let rcdend = dp_cur p + rdlength in
      dns_bind (parse_host p) (\<lambda>mname p.
      dns_bind (parse_host p) (\<lambda>rname p.
        if dp_cur p + 20 \<noteq> rcdend then Some (Inl (- 2), p)
        else if \<not> mem (entry_size + 40) then Some (Inl (- 1), p)
        else do { serial \<leftarrow> dns_uint32 (dp_msgbuf p) (dp_cur p);
                  refresh \<leftarrow> dns_uint32 (dp_msgbuf p) (dp_cur p + 4);
                  retry \<leftarrow> dns_uint32 (dp_msgbuf p) (dp_cur p + 8);
                  expire \<leftarrow> dns_uint32 (dp_msgbuf p) (dp_cur p + 12);
                  minimum \<leftarrow> dns_uint32 (dp_msgbuf p) (dp_cur p + 16);
                  if \<not> mem (length (c_str mname) + 1) \<or> \<not> mem (length (c_str rname) + 1) then Some (Inl (- 1), p)
                  else Some (Inr (Rd_soa (c_str mname) (c_str rname) serial (sint refresh) (sint retry) (sint expire) minimum), p\<lparr>dp_cur := dp_cur p + 20\<rparr>) })))"

definition parse_srv :: "(nat \<Rightarrow> bool) \<Rightarrow> nat \<Rightarrow> dns_parser \<Rightarrow> dns_rdata dns_result" where
  "parse_srv mem rdlength p =
     (let rcdend = dp_cur p + rdlength in
      if rcdend < dp_cur p + 6 then Some (Inl (- 2), p)
      else do { priority \<leftarrow> dns_uint16 (dp_msgbuf p) (dp_cur p);
                weight \<leftarrow> dns_uint16 (dp_msgbuf p) (dp_cur p + 2);
                port \<leftarrow> dns_uint16 (dp_msgbuf p) (dp_cur p + 4);
                dns_bind (parse_host (p\<lparr>dp_cur := dp_cur p + 6\<rparr>)) (\<lambda>target p.
                  if dp_cur p \<noteq> rcdend then Some (Inl (- 2), p)
                  else if \<not> mem (entry_size + 16) \<or> \<not> mem (length (c_str target) + 1) then Some (Inl (- 1), p)
                  else Some (Inr (Rd_srv priority weight port (c_str target)), p)) })"

definition parse_mx :: "(nat \<Rightarrow> bool) \<Rightarrow> nat \<Rightarrow> dns_parser \<Rightarrow> dns_rdata dns_result" where
  "parse_mx mem rdlength p =
     (let rcdend = dp_cur p + rdlength in
      if rcdend < dp_cur p + 2 then Some (Inl (- 2), p)
      else do { preference \<leftarrow> dns_uint16 (dp_msgbuf p) (dp_cur p);
                dns_bind (parse_host (p\<lparr>dp_cur := dp_cur p + 2\<rparr>)) (\<lambda>exchange p.
                  if dp_cur p \<noteq> rcdend then Some (Inl (- 2), p)
                  else if \<not> mem (entry_size + 16) \<or> \<not> mem (length (c_str exchange) + 1) then Some (Inl (- 1), p)
                  else Some (Inr (Rd_mx (sint preference) (c_str exchange)), p)) })"

definition parse_rdata :: "(nat \<Rightarrow> bool) \<Rightarrow> u16 \<Rightarrow> nat \<Rightarrow> dns_parser \<Rightarrow> dns_rdata dns_result" where
  "parse_rdata mem type rdlength p =
     (if type = DNS_TYPE_A then parse_a mem rdlength p
      else if type = DNS_TYPE_AAAA then parse_aaaa mem rdlength p
      else if type = DNS_TYPE_NS \<or> type = DNS_TYPE_CNAME \<or> type = DNS_TYPE_PTR then parse_names mem rdlength p
      else if type = DNS_TYPE_SOA then parse_soa mem rdlength p
      else if type = DNS_TYPE_SRV then parse_srv mem rdlength p
      else if type = DNS_TYPE_MX then parse_mx mem rdlength p
      else parse_others mem rdlength p)"

text \<open>
  One round of the loop of \<^verbatim>\<open>__dns_parser_parse_record\<close>. If there is no memory for the name, \<^verbatim>\<open>__dns_parser_free_record\<close> switches on the type of the entry,
  which has not been set then.
\<close>

definition record_count :: "nat \<Rightarrow> dns_parser \<Rightarrow> nat" where
  "record_count idx p = unat (if idx = 0 then dh_ancount (dp_header p) else if idx = 1 then dh_nscount (dp_header p) else dh_arcount (dp_header p))"

definition add_record :: "nat \<Rightarrow> dns_record \<Rightarrow> dns_parser \<Rightarrow> dns_parser" where
  "add_record idx r p =
     (if idx = 0 then p\<lparr>dp_answer_list := dp_answer_list p @ [r]\<rparr>
      else if idx = 1 then p\<lparr>dp_authority_list := dp_authority_list p @ [r]\<rparr>
      else p\<lparr>dp_additional_list := dp_additional_list p @ [r]\<rparr>)"

definition parse_one_record :: "(nat \<Rightarrow> bool) \<Rightarrow> nat \<Rightarrow> dns_parser \<Rightarrow> unit dns_result" where
  "parse_one_record mem idx p =
     dns_bind (parse_host p) (\<lambda>host p.
       if dp_msgsize p < dp_cur p + 10 then Some (Inl (- 2), p)
       else do { type \<leftarrow> dns_uint16 (dp_msgbuf p) (dp_cur p);
                 rclass \<leftarrow> dns_uint16 (dp_msgbuf p) (dp_cur p + 2);
                 ttl \<leftarrow> dns_uint32 (dp_msgbuf p) (dp_cur p + 4);
                 rdlength \<leftarrow> dns_uint16 (dp_msgbuf p) (dp_cur p + 8);
                 let p = p\<lparr>dp_cur := dp_cur p + 10\<rparr>;
                 if dp_msgsize p < dp_cur p + unat rdlength then Some (Inl (- 2), p)
                 else dns_bind (parse_rdata mem type (unat rdlength) p) (\<lambda>rdata p.
                   if \<not> mem (length (c_str host) + 1) then None
                   else Some (Inr (), add_record idx \<lparr>dr_name = c_str host, dr_type = type, dr_rclass = rclass, dr_ttl = ttl, dr_rdlength = rdlength, dr_rdata = rdata\<rparr> p)) })"

primrec parse_records :: "(nat \<Rightarrow> bool) \<Rightarrow> nat \<Rightarrow> nat \<Rightarrow> dns_parser \<Rightarrow> unit dns_result" where
  "parse_records mem idx 0 p = Some (Inr (), p)"
| "parse_records mem idx (Suc n) p = dns_bind (parse_one_record mem idx p) (\<lambda>_ p. parse_records mem idx n p)"

definition parse_record :: "(nat \<Rightarrow> bool) \<Rightarrow> nat \<Rightarrow> dns_parser \<Rightarrow> unit dns_result" where
  "parse_record mem idx p = parse_records mem idx (record_count idx p) p"

section \<open>Messages\<close>

definition parse_question :: "(nat \<Rightarrow> bool) \<Rightarrow> dns_parser \<Rightarrow> unit dns_result" where
  "parse_question mem p =
     (if dh_qdcount (dp_header p) \<noteq> 1 then Some (Inl (- 2), p)
      else dns_bind (parse_host p) (\<lambda>host p.
        if dp_msgsize p < dp_cur p + 4 then Some (Inl (- 2), p)
        else do { qtype \<leftarrow> dns_uint16 (dp_msgbuf p) (dp_cur p);
                  qclass \<leftarrow> dns_uint16 (dp_msgbuf p) (dp_cur p + 2);
                  let p = p\<lparr>dp_cur := dp_cur p + 4\<rparr>;
                  if \<not> mem (length (c_str host) + 1) then Some (Inl (- 1), p\<lparr>dp_question := (dp_question p)\<lparr>dq_name := None\<rparr>\<rparr>)
                  else Some (Inr (), p\<lparr>dp_question := \<lparr>dq_name = Some (c_str host), dq_type = qtype, dq_class = qclass\<rparr>\<rparr>) }))"

definition read_header :: "u8 list \<Rightarrow> nat \<Rightarrow> dns_header option" where
  "read_header buf b =
     do { id \<leftarrow> dns_uint16 buf b; f1 \<leftarrow> rd buf (b + 2); f2 \<leftarrow> rd buf (b + 3);
          qd \<leftarrow> dns_uint16 buf (b + 4); an \<leftarrow> dns_uint16 buf (b + 6); ns \<leftarrow> dns_uint16 buf (b + 8); ar \<leftarrow> dns_uint16 buf (b + 10);
          Some \<lparr>dh_id = id, dh_flags1 = f1, dh_flags2 = f2, dh_qdcount = qd, dh_ancount = an, dh_nscount = ns, dh_arcount = ar\<rparr> }"

definition dns_parser_parse_all :: "(nat \<Rightarrow> bool) \<Rightarrow> dns_parser \<Rightarrow> unit dns_result" where
  "dns_parser_parse_all mem p =
     (let p = p\<lparr>dp_complete := True, dp_cur := dp_msgbase p\<rparr> in
      if dp_msgsize p < 12 then Some (Inl (- 2), p)
      else do { h \<leftarrow> read_header (dp_msgbuf p) (dp_msgbase p);
                let p = p\<lparr>dp_header := h, dp_cur := dp_msgbase p + 12\<rparr>;
                dns_bind (parse_question mem p) (\<lambda>_ p.
                dns_bind (parse_record mem 0 p) (\<lambda>_ p.
                dns_bind (parse_record mem 1 p) (\<lambda>_ p.
                parse_record mem 2 p))) })"

text \<open>\<^verbatim>\<open>dns_parser_append_message\<close>: what is returned, \<^verbatim>\<open>*n\<close> afterwards, and the parser.\<close>

definition parse_received :: "(nat \<Rightarrow> bool) \<Rightarrow> nat \<Rightarrow> dns_parser \<Rightarrow> (int \<times> nat \<times> dns_parser) option" where
  "parse_received mem n p = do { (r, p) \<leftarrow> dns_parser_parse_all mem p; Some (case r of Inl e \<Rightarrow> (e, n, p) | Inr _ \<Rightarrow> (1, n, p)) }"

definition dns_parser_append_message :: "(nat \<Rightarrow> bool) \<Rightarrow> u8 list \<Rightarrow> dns_parser \<Rightarrow> (int \<times> nat \<times> dns_parser) option" where
  "dns_parser_append_message mem buf p =
     (if dp_complete p then Some (1, 0, p)
      else if \<not> dp_single_packet p then
        do { new_size \<leftarrow> (if dp_bufsize p < dp_msgsize p + length buf then grow_size (dp_msgsize p + length buf) (max 514 (2 * dp_bufsize p)) else Some (dp_bufsize p));
             if dp_bufsize p < dp_msgsize p + length buf \<and> \<not> mem new_size then Some (- 1, length buf, p)
             else do { let q = p\<lparr>dp_bufsize := new_size, dp_msgbuf := take (dp_msgsize p) (dp_msgbuf p) @ buf, dp_msgsize := dp_msgsize p + length buf\<rparr>;
                       if dp_msgsize q < 2 then Some (0, length buf, q)
                       else do { total \<leftarrow> dns_uint16 (dp_msgbuf q) 0;
                                 if dp_msgsize q < unat total + 2 then Some (0, length buf, q)
                                 else parse_received mem (unat total + 2 - dp_msgsize p) (q\<lparr>dp_msgsize := unat total + 2, dp_msgbase := 2\<rparr>) } } }
      else if \<not> mem (length buf) then None
      else parse_received mem (length buf) (p\<lparr>dp_msgbuf := buf, dp_msgbase := 0, dp_msgsize := length buf, dp_bufsize := length buf\<rparr>))"

definition dns_parser_set_question_name :: "(nat \<Rightarrow> bool) \<Rightarrow> u8 list \<Rightarrow> dns_parser \<Rightarrow> int \<times> dns_parser" where
  "dns_parser_set_question_name mem name p =
     (if \<not> mem (length name + 1) then (- 1, p)
      else (0, p\<lparr>dp_question := (dp_question p)\<lparr>dq_name := Some (if 1 < length name \<and> last name = 46 then butlast name else name)\<rparr>\<rparr>))"

definition dns_parser_set_question :: "(nat \<Rightarrow> bool) \<Rightarrow> u8 list \<Rightarrow> u16 \<Rightarrow> u16 \<Rightarrow> dns_parser \<Rightarrow> int \<times> dns_parser" where
  "dns_parser_set_question mem name qtype qclass p =
     (case dns_parser_set_question_name mem name p of
        (r, p) \<Rightarrow> if r < 0 then (r, p)
                  else (0, p\<lparr>dp_question := (dp_question p)\<lparr>dq_type := qtype, dq_class := qclass\<rparr>, dp_header := (dp_header p)\<lparr>dh_qdcount := 1\<rparr>\<rparr>))"

definition dns_parser_set_id :: "u16 \<Rightarrow> dns_parser \<Rightarrow> dns_parser" where
  "dns_parser_set_id i p = p\<lparr>dp_header := (dp_header p)\<lparr>dh_id := i\<rparr>\<rparr>"

section \<open>Cursors\<close>

definition to_lower :: "u8 \<Rightarrow> u8" where
  "to_lower b = (if 65 \<le> b \<and> b \<le> 90 then b + 32 else b)"

definition dns_strcaseeq :: "u8 list \<Rightarrow> u8 list \<Rightarrow> bool" where
  "dns_strcaseeq a b \<longleftrightarrow> map to_lower a = map to_lower b"

text \<open>The data of the record with type \<^verbatim>\<open>CNAME\<close> as a string.\<close>

definition rdata_string :: "dns_rdata \<Rightarrow> u8 list option" where
  "rdata_string d = (case d of Rd_name n \<Rightarrow> Some n | _ \<Rightarrow> None)"

fun dns_record_cursor_find_cname :: "u8 list \<Rightarrow> dns_record list \<Rightarrow> u8 list option option" where
  "dns_record_cursor_find_cname name [] = Some None"
| "dns_record_cursor_find_cname name (r # rs) =
     (if dr_type r = DNS_TYPE_CNAME \<and> dns_strcaseeq name (dr_name r) then map_option Some (rdata_string (dr_rdata r))
      else dns_record_cursor_find_cname name rs)"

end
