(* ===== verification/Dns_Names.thy ===== *)
theory Dns_Names
  imports Dns_Parser
begin

text \<open>
  The integers and names of DNS messages on the wire. \<open>holds buf p bs\<close> says that the bytes \<open>bs\<close> are at position \<open>p\<close> of a buffer; \<open>wire_name\<close> writes a list of labels and
  \<open>name_text\<close> is the name with dots that the parser stores. \<open>parse_host_name\<close>: the parser of names inverts \<open>wire_name\<close>.
\<close>

section \<open>Integers in messages\<close>

definition be16 :: "u16 \<Rightarrow> u8 list" where
  "be16 v = [ucast (drop_bit 8 v), ucast v]"

definition be32 :: "u32 \<Rightarrow> u8 list" where
  "be32 v = [ucast (drop_bit 24 v), ucast (drop_bit 16 v), ucast (drop_bit 8 v), ucast v]"

lemma length_be [simp]: "length (be16 v) = 2" "length (be32 w) = 4"
  by (simp_all add: be16_def be32_def)

lemma join16: "push_bit 8 (ucast (ucast (drop_bit 8 v) :: u8)) + ucast (ucast v :: u8) = (v :: u16)"
proof -
  have "ucast (ucast v :: u8) OR push_bit 8 (ucast (ucast (drop_bit 8 v) :: u8)) = (v :: u16)"
    by (rule bit_word_eqI) (auto simp: bit_or_iff bit_push_bit_iff bit_ucast_iff bit_drop_bit_eq)
  then show ?thesis by (simp add: le_word_plus add.commute)
qed

lemma join32:
  "push_bit 24 (ucast (ucast (drop_bit 24 v) :: u8)) + push_bit 16 (ucast (ucast (drop_bit 16 v) :: u8)) + push_bit 8 (ucast (ucast (drop_bit 8 v) :: u8)) + ucast (ucast v :: u8) = (v :: u32)"
proof -
  let ?b = "\<lambda>n. ucast (ucast (drop_bit n v) :: u8) :: u32"
  have "?b 0 OR push_bit 8 (?b 8 OR push_bit 8 (?b 16 OR push_bit 8 (?b 24))) = v"
  proof (rule bit_word_eqI)
    fix k assume k: "k < LENGTH(32)"
    then consider "k < 8" | "8 \<le> k" "k < 16" | "16 \<le> k" "k < 24" | "24 \<le> k" "k < 32" by fastforce
    then show "bit (?b 0 OR push_bit 8 (?b 8 OR push_bit 8 (?b 16 OR push_bit 8 (?b 24)))) k = bit v k"
      by cases (use k in \<open>auto simp: bit_or_iff bit_push_bit_iff bit_ucast_iff bit_drop_bit_eq\<close>)
  qed
  then have "?b 0 + push_bit 8 (?b 8 + push_bit 8 (?b 16 + push_bit 8 (?b 24))) = v" by (simp only: le_word_plus)
  then show ?thesis by (simp add: push_bit_add ac_simps)
qed

section \<open>What a buffer holds\<close>

definition holds :: "u8 list \<Rightarrow> nat \<Rightarrow> u8 list \<Rightarrow> bool" where
  "holds buf p bs \<longleftrightarrow> bytes_at buf p (length bs) = Some bs"

lemma holds_iff: "holds buf p bs \<longleftrightarrow> p + length bs \<le> length buf \<and> take (length bs) (drop p buf) = bs"
  by (simp add: holds_def bytes_at_def)

lemma holds_Nil [simp]: "holds buf p [] \<longleftrightarrow> p \<le> length buf"
  by (simp add: holds_iff)

lemma holds_append: "holds buf p (xs @ ys) \<longleftrightarrow> holds buf p xs \<and> holds buf (p + length xs) ys"
proof -
  have "take (length xs + length ys) (drop p buf) = take (length xs) (drop p buf) @ take (length ys) (drop (p + length xs) buf)"
    by (simp add: take_add add.commute)
  then show ?thesis by (auto simp: holds_iff add.assoc append_eq_append_conv)
qed

lemma holds_one: "holds buf p [b] \<longleftrightarrow> rd buf p = Some b"
proof (cases "p < length buf")
  case True
  then have "take 1 (drop p buf) = [buf ! p]" by (simp add: Cons_nth_drop_Suc [symmetric] take_Suc)
  then show ?thesis using True by (auto simp: holds_iff)
next
  case False
  then show ?thesis by (simp add: holds_iff rd_def)
qed

lemma holds_Cons: "holds buf p (b # bs) \<longleftrightarrow> rd buf p = Some b \<and> holds buf (p + 1) bs"
  using holds_append [of buf p "[b]" bs] by (simp add: holds_one)

lemma holds_mid: "holds (a @ bs @ b) (length a) bs"
  by (simp add: holds_iff)

lemma holds_16: "holds buf p (be16 v) \<Longrightarrow> dns_uint16 buf p = Some v"
  by (simp add: be16_def holds_Cons dns_uint16_def join16)

lemma holds_32: "holds buf p (be32 v) \<Longrightarrow> dns_uint32 buf p = Some v"
  by (simp add: be32_def holds_Cons dns_uint32_def join32 numeral_2_eq_2 numeral_3_eq_3)

lemma holds_bytes: "holds buf p bs \<Longrightarrow> n = length bs \<Longrightarrow> bytes_at buf p n = Some bs"
  by (simp add: holds_def)

section \<open>Names in messages\<close>

text \<open>Labels one behind the other, each with its length; the name as text, every label followed by a dot.\<close>

definition wire_labels :: "u8 list list \<Rightarrow> u8 list" where
  "wire_labels ls = concat (map (\<lambda>l. of_nat (length l) # l) ls)"

definition wire_name :: "u8 list list \<Rightarrow> u8 list" where
  "wire_name ls = wire_labels ls @ [0]"

definition dots :: "u8 list list \<Rightarrow> u8 list" where
  "dots ls = concat (map (\<lambda>l. l @ [46]) ls)"

definition name_text :: "u8 list list \<Rightarrow> u8 list" where
  "name_text ls = (if ls = [] then [46] else butlast (dots ls))"

definition valid_label :: "u8 list \<Rightarrow> bool" where
  "valid_label l \<longleftrightarrow> l \<noteq> [] \<and> length l \<le> 63 \<and> 0 \<notin> set l \<and> 46 \<notin> set l"

definition valid_name :: "u8 list list \<Rightarrow> bool" where
  "valid_name ls \<longleftrightarrow> (\<forall>l \<in> set ls. valid_label l) \<and> length (dots ls) \<le> 256"

lemma wire_simps [simp]: "wire_labels [] = []" "wire_labels (l # ls) = of_nat (length l) # l @ wire_labels ls" "dots [] = []" "dots (l # ls) = l @ 46 # dots ls"
  by (simp_all add: wire_labels_def dots_def)

lemma length_wire: "length (wire_labels ls) = length (dots ls)"
  by (induction ls) auto

lemma label_length:
  assumes "0 < n" "n \<le> 63"
  shows "unat (of_nat n :: u8) = n" "(of_nat n :: u8) \<noteq> 0" "(of_nat n :: u8) AND 0xC0 = 0"
proof -
  show u: "unat (of_nat n :: u8) = n" using assms by (simp add: unat_of_nat take_bit_nat_eq_self)
  then show "(of_nat n :: u8) \<noteq> 0" using assms by (metis unsigned_0 less_irrefl)
  have "\<forall>n \<in> set [0 ..< 64]. (of_nat n :: u8) AND 0xC0 = 0" by code_simp
  then show "(of_nat n :: u8) AND 0xC0 = 0" using assms by auto
qed

lemma host_put_in: "length host + length bs \<le> 258 \<Longrightarrow> host_put host bs = Some (host @ bs)"
  by (simp add: host_put_def)

lemma host_loop_labels:
  assumes "holds buf cur (wire_labels ls)" "cur + length (wire_labels ls) \<le> msgsize" "\<forall>l \<in> set ls. valid_label l" "length host + length (dots ls) \<le> 256"
  shows "parse_host_loop buf base msgsize cur backup host = parse_host_loop buf base msgsize (cur + length (wire_labels ls)) backup (host @ dots ls)"
  using assms
proof (induction ls arbitrary: cur host)
  case (Cons l ls)
  let ?n = "of_nat (length l) :: u8"
  have l: "0 < length l" "length l \<le> 63" using Cons.prems(3) by (auto simp: valid_label_def)
  note n = label_length [OF l]
  have h: "rd buf cur = Some ?n" "holds buf (cur + 1) l" "holds buf (cur + 1 + length l) (wire_labels ls)" using Cons.prems(1) by (simp_all add: holds_Cons holds_append)
  have b: "bytes_at buf (cur + 1) (length l) = Some l" using h(2) by (simp add: holds_def)
  have p: "host_put host l = Some (host @ l)" "host_put (host @ l) [46] = Some (host @ l @ [46])" using Cons.prems(4) by (simp_all add: host_put_in)
  have s: "parse_host_loop buf base msgsize cur backup host = parse_host_loop buf base msgsize (cur + 1 + length l) backup (host @ l @ [46])"
    using h(1) b p n l Cons.prems(2,4) by (subst parse_host_loop.simps) simp
  have "parse_host_loop buf base msgsize (cur + 1 + length l) backup (host @ l @ [46]) =
      parse_host_loop buf base msgsize (cur + 1 + length l + length (wire_labels ls)) backup ((host @ l @ [46]) @ dots ls)"
    by (rule Cons.IH) (use Cons.prems h(3) in auto)
  then show ?case using s by (simp add: add.assoc)
qed simp

lemma host_loop_name:
  assumes "holds buf cur (wire_name ls)" "cur + length (wire_name ls) \<le> msgsize" "valid_name ls"
  shows "parse_host_loop buf base msgsize cur None [] = Some (0, cur + length (wire_name ls), dots ls)"
proof -
  have z: "rd buf (cur + length (wire_labels ls)) = Some 0" "holds buf cur (wire_labels ls)" using assms(1) by (simp_all add: wire_name_def holds_append holds_one)
  have "parse_host_loop buf base msgsize cur None [] = parse_host_loop buf base msgsize (cur + length (wire_labels ls)) None ([] @ dots ls)"
    by (rule host_loop_labels) (use assms z in \<open>auto simp: wire_name_def valid_name_def\<close>)
  also have "\<dots> = Some (0, cur + length (wire_name ls), dots ls)"
    using z(1) assms(2) by (subst parse_host_loop.simps) (simp add: wire_name_def)
  finally show ?thesis .
qed

lemma dots_text:
  assumes "\<forall>l \<in> set ls. valid_label l"
  shows "(if 1 < length (dots ls) \<and> last (dots ls) = 46 then butlast (dots ls) else dots ls) = (if ls = [] then [] else name_text ls)"
proof (cases ls rule: rev_cases)
  case (snoc ks l)
  have "dots ls = dots ks @ l @ [46]" by (simp add: snoc dots_def)
  moreover have "l \<noteq> []" using assms snoc by (auto simp: valid_label_def)
  ultimately show ?thesis using snoc by (cases l) (auto simp: name_text_def)
qed (simp add: name_text_def)

lemma dots_not_0: "\<forall>l \<in> set ls. valid_label l \<Longrightarrow> 0 \<notin> set (dots ls)"
  by (auto simp: dots_def valid_label_def)

lemma c_str_text:
  assumes "valid_name ls"
  shows "c_str (name_text ls) = name_text ls"
proof -
  have "0 \<notin> set (name_text ls)" using dots_not_0 [of ls] assms by (auto simp: name_text_def valid_name_def dest: in_set_butlastD)
  then show ?thesis by (auto simp: c_str_def takeWhile_eq_all_conv)
qed

lemma parse_host_name:
  assumes "holds (dp_msgbuf p) (dp_cur p) (wire_name ls)" "dp_cur p + length (wire_name ls) \<le> dp_msgsize p" "valid_name ls"
  shows "parse_host p = Some (Inr (name_text ls), p\<lparr>dp_cur := dp_cur p + length (wire_name ls)\<rparr>)"
proof -
  have len: "length (dots ls) \<le> 256" using assms(3) by (simp add: valid_name_def)
  have t: "(if 1 < length (dots ls) \<and> last (dots ls) = 46 then butlast (dots ls) else dots ls) = (if ls = [] then [] else name_text ls)"
    using assms(3) by (intro dots_text) (simp add: valid_name_def)
  have ne: "ls \<noteq> [] \<Longrightarrow> name_text ls \<noteq> []"
  proof -
    assume "ls \<noteq> []"
    then obtain l ks where "ls = l # ks" by (cases ls) auto
    then show ?thesis using assms(3) by (cases l) (auto simp: name_text_def valid_name_def valid_label_def butlast_append)
  qed
  have "0 < length (wire_name ls)" by (simp add: wire_name_def)
  then have c: "\<not> dp_msgsize p \<le> dp_cur p" using assms(2) by linarith
  have "length (name_text ls) \<le> 256" using len by (auto simp: name_text_def)
  then have "host_put (name_text ls) [0] = Some (name_text ls @ [0])" by (simp add: host_put_in)
  then show ?thesis using c t ne host_loop_name [OF assms, of "dp_msgbase p"] by (auto simp: parse_host_def Let_def host_put_in name_text_def split: if_splits)
qed

end
