(* ===== verification/Dns_Records.thy ===== *)
theory Dns_Records
  imports Dns_Names
begin

text \<open>
  Records and whole messages on the wire, without compression, and the values the parser must give for them. \<open>parse_rdata_wire\<close>, \<open>parse_record_wire\<close> and \<open>parse_all_wire\<close>: the
  parser of \<open>Dns_Parser\<close> inverts this format, section by section.
\<close>

section \<open>Records in messages\<close>

datatype wire_data =
    Wd_bytes "u8 list"
  | Wd_name "u8 list list"
  | Wd_soa "u8 list list" "u8 list list" u32 u32 u32 u32 u32
  | Wd_srv u16 u16 u16 "u8 list list"
  | Wd_mx u16 "u8 list list"

primrec data_bytes :: "wire_data \<Rightarrow> u8 list" where
  "data_bytes (Wd_bytes bs) = bs"
| "data_bytes (Wd_name ls) = wire_name ls"
| "data_bytes (Wd_soa ms rs a b c d e) = wire_name ms @ wire_name rs @ be32 a @ be32 b @ be32 c @ be32 d @ be32 e"
| "data_bytes (Wd_srv a b c ls) = be16 a @ be16 b @ be16 c @ wire_name ls"
| "data_bytes (Wd_mx a ls) = be16 a @ wire_name ls"

primrec data_value :: "wire_data \<Rightarrow> dns_rdata" where
  "data_value (Wd_bytes bs) = Rd_bytes bs"
| "data_value (Wd_name ls) = Rd_name (name_text ls)"
| "data_value (Wd_soa ms rs a b c d e) = Rd_soa (name_text ms) (name_text rs) a (sint b) (sint c) (sint d) e"
| "data_value (Wd_srv a b c ls) = Rd_srv a b c (name_text ls)"
| "data_value (Wd_mx a ls) = Rd_mx (sint a) (name_text ls)"

text \<open>The data fit the type, and names are valid.\<close>

primrec data_ok :: "u16 \<Rightarrow> wire_data \<Rightarrow> bool" where
  "data_ok type (Wd_bytes bs) \<longleftrightarrow> (type = DNS_TYPE_A \<longrightarrow> length bs = 4) \<and> (type = DNS_TYPE_AAAA \<longrightarrow> length bs = 16) \<and>
     type \<notin> {DNS_TYPE_NS, DNS_TYPE_CNAME, DNS_TYPE_PTR, DNS_TYPE_SOA, DNS_TYPE_SRV, DNS_TYPE_MX}"
| "data_ok type (Wd_name ls) \<longleftrightarrow> type \<in> {DNS_TYPE_NS, DNS_TYPE_CNAME, DNS_TYPE_PTR} \<and> valid_name ls"
| "data_ok type (Wd_soa ms rs a b c d e) \<longleftrightarrow> type = DNS_TYPE_SOA \<and> valid_name ms \<and> valid_name rs"
| "data_ok type (Wd_srv a b c ls) \<longleftrightarrow> type = DNS_TYPE_SRV \<and> valid_name ls"
| "data_ok type (Wd_mx a ls) \<longleftrightarrow> type = DNS_TYPE_MX \<and> valid_name ls"

record wire_record =
  wr_name :: "u8 list list"
  wr_type :: u16
  wr_class :: u16
  wr_ttl :: u32
  wr_data :: wire_data

definition record_ok :: "wire_record \<Rightarrow> bool" where
  "record_ok r \<longleftrightarrow> valid_name (wr_name r) \<and> data_ok (wr_type r) (wr_data r) \<and> length (data_bytes (wr_data r)) < 65536"

definition record_bytes :: "wire_record \<Rightarrow> u8 list" where
  "record_bytes r = wire_name (wr_name r) @ be16 (wr_type r) @ be16 (wr_class r) @ be32 (wr_ttl r) @ be16 (of_nat (length (data_bytes (wr_data r)))) @ data_bytes (wr_data r)"

definition record_value :: "wire_record \<Rightarrow> dns_record" where
  "record_value r = \<lparr>dr_name = name_text (wr_name r), dr_type = wr_type r, dr_rclass = wr_class r, dr_ttl = wr_ttl r,
     dr_rdlength = of_nat (length (data_bytes (wr_data r))), dr_rdata = data_value (wr_data r)\<rparr>"

lemma dns_bind_simps [simp]: "dns_bind (Some (Inr a, p)) f = f a p" "dns_bind (Some (Inl e, p)) f = Some (Inl e, p)" "dns_bind None f = None"
  by (simp_all add: dns_bind_def)

abbreviation all_mem :: "nat \<Rightarrow> bool" where "all_mem \<equiv> \<lambda>_. True"

lemma take_bytes_in:
  assumes "holds (dp_msgbuf p) (dp_cur p) bs"
  shows "take_bytes all_mem (length bs) p = Some (Inr (Rd_bytes bs), p\<lparr>dp_cur := dp_cur p + length bs\<rparr>)"
  using assms by (simp add: take_bytes_def holds_def)

lemma holds_add: "holds buf p xs \<Longrightarrow> p = q \<Longrightarrow> holds buf q xs"
  by simp

lemma parse_rdata_wire:
  assumes "holds (dp_msgbuf p) (dp_cur p) (data_bytes d)" "dp_cur p + length (data_bytes d) \<le> dp_msgsize p" "data_ok type d"
  shows "parse_rdata all_mem type (length (data_bytes d)) p = Some (Inr (data_value d), p\<lparr>dp_cur := dp_cur p + length (data_bytes d)\<rparr>)"
proof (cases d)
  case (Wd_bytes bs)
  then show ?thesis using assms take_bytes_in [of p bs] by (auto simp: parse_rdata_def parse_a_def parse_aaaa_def parse_others_def)
next
  case (Wd_name ls)
  then have "parse_names all_mem (length (data_bytes d)) p = Some (Inr (data_value d), p\<lparr>dp_cur := dp_cur p + length (data_bytes d)\<rparr>)"
    using assms parse_host_name [of p ls] by (simp add: parse_names_def c_str_text)
  then show ?thesis using Wd_name assms(3) by (auto simp: parse_rdata_def dns_types)
next
  case (Wd_soa ms rs a b c d' e)
  let ?p1 = "p\<lparr>dp_cur := dp_cur p + length (wire_name ms)\<rparr>"
  let ?p2 = "p\<lparr>dp_cur := dp_cur p + length (wire_name ms) + length (wire_name rs)\<rparr>"
  let ?q = "dp_cur p + length (wire_name ms) + length (wire_name rs)"
  have v: "valid_name ms" "valid_name rs" using assms(3) Wd_soa by auto
  have 1: "parse_host p = Some (Inr (name_text ms), ?p1)" by (rule parse_host_name) (use assms Wd_soa in \<open>auto simp: holds_append\<close>)
  have 2: "parse_host ?p1 = Some (Inr (name_text rs), ?p2)" using parse_host_name [of ?p1 rs] assms Wd_soa by (auto simp: holds_append)
  have h: "holds (dp_msgbuf p) ?q (be32 a)" "holds (dp_msgbuf p) (?q + 4) (be32 b)" "holds (dp_msgbuf p) (?q + 8) (be32 c)" "holds (dp_msgbuf p) (?q + 12) (be32 d')"
    "holds (dp_msgbuf p) (?q + 16) (be32 e)" using assms(1) Wd_soa by (simp_all add: holds_append add.assoc del: add_2_eq_Suc add_2_eq_Suc')
  have "parse_soa all_mem (length (data_bytes d)) p = Some (Inr (data_value d), p\<lparr>dp_cur := dp_cur p + length (data_bytes d)\<rparr>)"
    using 1 2 v h [THEN holds_32] Wd_soa by (simp add: parse_soa_def Let_def c_str_text)
  then show ?thesis using Wd_soa assms(3) by (auto simp: parse_rdata_def dns_types)
next
  case (Wd_srv a b c ls)
  let ?p = "p\<lparr>dp_cur := dp_cur p + 6\<rparr>"
  have h: "holds (dp_msgbuf p) (dp_cur p) (be16 a)" "holds (dp_msgbuf p) (dp_cur p + 2) (be16 b)" "holds (dp_msgbuf p) (dp_cur p + 4) (be16 c)"
    "holds (dp_msgbuf p) (dp_cur p + 6) (wire_name ls)" using assms(1) Wd_srv by (simp_all add: holds_append add.assoc del: add_2_eq_Suc add_2_eq_Suc')
  have 1: "parse_host ?p = Some (Inr (name_text ls), ?p\<lparr>dp_cur := dp_cur ?p + length (wire_name ls)\<rparr>)" by (rule parse_host_name) (use assms h(4) Wd_srv in auto)
  have "parse_srv all_mem (length (data_bytes d)) p = Some (Inr (data_value d), p\<lparr>dp_cur := dp_cur p + length (data_bytes d)\<rparr>)"
    using 1 h(1-3) [THEN holds_16] assms(3) Wd_srv by (simp add: parse_srv_def Let_def c_str_text add.assoc)
  then show ?thesis using Wd_srv assms(3) by (auto simp: parse_rdata_def dns_types)
next
  case (Wd_mx a ls)
  let ?p = "p\<lparr>dp_cur := dp_cur p + 2\<rparr>"
  have h: "holds (dp_msgbuf p) (dp_cur p) (be16 a)" "holds (dp_msgbuf p) (dp_cur p + 2) (wire_name ls)" using assms(1) Wd_mx by (simp_all add: holds_append)
  have 1: "parse_host ?p = Some (Inr (name_text ls), ?p\<lparr>dp_cur := dp_cur ?p + length (wire_name ls)\<rparr>)" by (rule parse_host_name) (use assms h(2) Wd_mx in auto)
  have "parse_mx all_mem (length (data_bytes d)) p = Some (Inr (data_value d), p\<lparr>dp_cur := dp_cur p + length (data_bytes d)\<rparr>)"
    using 1 h(1) [THEN holds_16] assms(3) Wd_mx by (simp add: parse_mx_def Let_def c_str_text add.assoc)
  then show ?thesis using Wd_mx assms(3) by (auto simp: parse_rdata_def dns_types)
qed

lemma unat_16: "n < 65536 \<Longrightarrow> unat (of_nat n :: u16) = n"
  by (simp add: unat_of_nat take_bit_nat_eq_self)

lemma add_record_cur [simp]: "dp_cur (add_record idx r p) = dp_cur p" "dp_msgbuf (add_record idx r p) = dp_msgbuf p" "dp_msgsize (add_record idx r p) = dp_msgsize p"
  by (simp_all add: add_record_def)

lemma parse_one_record_wire:
  assumes h: "holds (dp_msgbuf p) (dp_cur p) (record_bytes r)" and m: "dp_cur p + length (record_bytes r) \<le> dp_msgsize p" and ok: "record_ok r"
  shows "parse_one_record all_mem idx p = Some (Inr (), add_record idx (record_value r) (p\<lparr>dp_cur := dp_cur p + length (record_bytes r)\<rparr>))"
proof -
  let ?n = "length (wire_name (wr_name r))" and ?d = "wr_data r"
  let ?q = "dp_cur p + ?n" and ?buf = "dp_msgbuf p"
  let ?p1 = "p\<lparr>dp_cur := ?q\<rparr>" and ?p2 = "p\<lparr>dp_cur := ?q + 10\<rparr>"
  have v: "valid_name (wr_name r)" "data_ok (wr_type r) ?d" "length (data_bytes ?d) < 65536" using ok by (auto simp: record_ok_def)
  have hs: "holds ?buf (dp_cur p) (wire_name (wr_name r))" "holds ?buf ?q (be16 (wr_type r))" "holds ?buf (?q + 2) (be16 (wr_class r))" "holds ?buf (?q + 4) (be32 (wr_ttl r))"
    "holds ?buf (?q + 8) (be16 (of_nat (length (data_bytes ?d))))" "holds ?buf (?q + 10) (data_bytes ?d)" using h by (simp_all add: record_bytes_def holds_append add.assoc del: add_2_eq_Suc add_2_eq_Suc')
  have len: "length (record_bytes r) = ?n + 10 + length (data_bytes ?d)" by (simp add: record_bytes_def)
  have 1: "parse_host p = Some (Inr (name_text (wr_name r)), ?p1)" by (rule parse_host_name [OF hs(1) _ v(1)]) (use m len in simp)
  have 2: "parse_rdata all_mem (wr_type r) (length (data_bytes ?d)) ?p2 = Some (Inr (data_value ?d), ?p2\<lparr>dp_cur := dp_cur ?p2 + length (data_bytes ?d)\<rparr>)"
    by (rule parse_rdata_wire) (use hs(6) m len v(2) in auto)
  show ?thesis using 1 2 hs(2,3,5) [THEN holds_16] holds_32 [OF hs(4)] unat_16 [OF v(3)] m len
    by (simp add: parse_one_record_def Let_def c_str_text [OF v(1)] record_value_def add.assoc)
qed

primrec add_records :: "nat \<Rightarrow> dns_record list \<Rightarrow> dns_parser \<Rightarrow> dns_parser" where
  "add_records idx [] p = p"
| "add_records idx (r # rs) p = add_records idx rs (add_record idx r p)"

lemma add_records_eq: "add_records idx rs p =
  (if idx = 0 then p\<lparr>dp_answer_list := dp_answer_list p @ rs\<rparr> else if idx = 1 then p\<lparr>dp_authority_list := dp_authority_list p @ rs\<rparr>
   else p\<lparr>dp_additional_list := dp_additional_list p @ rs\<rparr>)"
  by (induction rs arbitrary: p) (auto simp: add_record_def)

lemma add_record_move: "(add_record idx r p)\<lparr>dp_cur := c\<rparr> = add_record idx r (p\<lparr>dp_cur := c\<rparr>)"
  by (simp add: add_record_def)

lemma parse_records_wire:
  assumes "holds (dp_msgbuf p) (dp_cur p) (concat (map record_bytes rs))" "dp_cur p + length (concat (map record_bytes rs)) \<le> dp_msgsize p" "\<forall>r \<in> set rs. record_ok r"
  shows "parse_records all_mem idx (length rs) p = Some (Inr (), add_records idx (map record_value rs) (p\<lparr>dp_cur := dp_cur p + length (concat (map record_bytes rs))\<rparr>))"
  using assms
proof (induction rs arbitrary: p)
  case (Cons r rs)
  let ?p = "add_record idx (record_value r) (p\<lparr>dp_cur := dp_cur p + length (record_bytes r)\<rparr>)"
  have 1: "parse_one_record all_mem idx p = Some (Inr (), ?p)" by (rule parse_one_record_wire) (use Cons.prems in \<open>auto simp: holds_append\<close>)
  have "parse_records all_mem idx (length rs) ?p = Some (Inr (), add_records idx (map record_value rs) (?p\<lparr>dp_cur := dp_cur ?p + length (concat (map record_bytes rs))\<rparr>))"
    by (rule Cons.IH) (use Cons.prems in \<open>auto simp: holds_append\<close>)
  then show ?case using 1 by (simp add: add_record_move add.assoc)
qed simp

section \<open>Messages\<close>

record wire_message =
  wm_id :: u16
  wm_flags1 :: u8
  wm_flags2 :: u8
  wm_name :: "u8 list list"
  wm_type :: u16
  wm_class :: u16
  wm_answers :: "wire_record list"
  wm_authorities :: "wire_record list"
  wm_additionals :: "wire_record list"

definition message_header :: "wire_message \<Rightarrow> dns_header" where
  "message_header m = \<lparr>dh_id = wm_id m, dh_flags1 = wm_flags1 m, dh_flags2 = wm_flags2 m, dh_qdcount = 1, dh_ancount = of_nat (length (wm_answers m)),
     dh_nscount = of_nat (length (wm_authorities m)), dh_arcount = of_nat (length (wm_additionals m))\<rparr>"

definition header_bytes :: "dns_header \<Rightarrow> u8 list" where
  "header_bytes h = be16 (dh_id h) @ [dh_flags1 h, dh_flags2 h] @ be16 (dh_qdcount h) @ be16 (dh_ancount h) @ be16 (dh_nscount h) @ be16 (dh_arcount h)"

definition records_bytes :: "wire_record list \<Rightarrow> u8 list" where
  "records_bytes rs = concat (map record_bytes rs)"

definition message_bytes :: "wire_message \<Rightarrow> u8 list" where
  "message_bytes m = header_bytes (message_header m) @ (wire_name (wm_name m) @ be16 (wm_type m) @ be16 (wm_class m)) @
     records_bytes (wm_answers m) @ records_bytes (wm_authorities m) @ records_bytes (wm_additionals m)"

definition wire_message_ok :: "wire_message \<Rightarrow> bool" where
  "wire_message_ok m \<longleftrightarrow> valid_name (wm_name m) \<and> (\<forall>r \<in> set (wm_answers m @ wm_authorities m @ wm_additionals m). record_ok r) \<and>
     length (wm_answers m) < 65536 \<and> length (wm_authorities m) < 65536 \<and> length (wm_additionals m) < 65536"

lemma length_header_bytes [simp]: "length (header_bytes h) = 12"
  by (simp add: header_bytes_def)

lemma read_header_bytes:
  assumes "holds buf b (header_bytes h)"
  shows "read_header buf b = Some h"
proof -
  have h: "holds buf b (be16 (dh_id h))" "rd buf (b + 2) = Some (dh_flags1 h)" "rd buf (b + 3) = Some (dh_flags2 h)" "holds buf (b + 4) (be16 (dh_qdcount h))"
    "holds buf (b + 6) (be16 (dh_ancount h))" "holds buf (b + 8) (be16 (dh_nscount h))" "holds buf (b + 10) (be16 (dh_arcount h))"
    using assms by (simp_all add: header_bytes_def holds_append holds_Cons add.assoc del: add_2_eq_Suc add_2_eq_Suc' One_nat_def)
  show ?thesis using h(2,3) h(1,4-) [THEN holds_16] by (simp add: read_header_def)
qed

definition message_parsed :: "wire_message \<Rightarrow> dns_parser \<Rightarrow> dns_parser" where
  "message_parsed m p = p\<lparr>dp_complete := True, dp_cur := dp_msgbase p + length (message_bytes m), dp_header := message_header m,
     dp_question := \<lparr>dq_name = Some (name_text (wm_name m)), dq_type = wm_type m, dq_class = wm_class m\<rparr>,
     dp_answer_list := dp_answer_list p @ map record_value (wm_answers m), dp_authority_list := dp_authority_list p @ map record_value (wm_authorities m),
     dp_additional_list := dp_additional_list p @ map record_value (wm_additionals m)\<rparr>"

lemma parse_record_wire:
  assumes "holds (dp_msgbuf p) (dp_cur p) (records_bytes rs)" "dp_cur p + length (records_bytes rs) \<le> dp_msgsize p" "\<forall>r \<in> set rs. record_ok r" "record_count idx p = length rs"
  shows "parse_record all_mem idx p = Some (Inr (), add_records idx (map record_value rs) (p\<lparr>dp_cur := dp_cur p + length (records_bytes rs)\<rparr>))"
  using parse_records_wire [of p rs idx] assms by (simp add: parse_record_def records_bytes_def)

lemma parse_question_wire:
  assumes h: "holds (dp_msgbuf p) (dp_cur p) (wire_name ls @ be16 ty @ be16 cl)" and m: "dp_cur p + length (wire_name ls) + 4 \<le> dp_msgsize p" and v: "valid_name ls" "dh_qdcount (dp_header p) = 1"
  shows "parse_question all_mem p = Some (Inr (), p\<lparr>dp_cur := dp_cur p + length (wire_name ls) + 4, dp_question := \<lparr>dq_name = Some (name_text ls), dq_type = ty, dq_class = cl\<rparr>\<rparr>)"
proof -
  have hs: "holds (dp_msgbuf p) (dp_cur p) (wire_name ls)" "holds (dp_msgbuf p) (dp_cur p + length (wire_name ls)) (be16 ty)" "holds (dp_msgbuf p) (dp_cur p + length (wire_name ls) + 2) (be16 cl)"
    using h by (simp_all add: holds_append)
  have "parse_host p = Some (Inr (name_text ls), p\<lparr>dp_cur := dp_cur p + length (wire_name ls)\<rparr>)" by (rule parse_host_name [OF hs(1) _ v(1)]) (use m in simp)
  then show ?thesis using hs(2,3) [THEN holds_16] v m by (simp add: parse_question_def Let_def c_str_text)
qed

lemma parse_all_wire:
  assumes ok: "wire_message_ok m" and h: "holds (dp_msgbuf p) (dp_msgbase p) (message_bytes m)" and sz: "dp_msgsize p = dp_msgbase p + length (message_bytes m)"
  shows "dns_parser_parse_all all_mem p = Some (Inr (), message_parsed m p)"
proof -
  let ?b = "dp_msgbase p" and ?buf = "dp_msgbuf p"
  let ?n = "length (wire_name (wm_name m))" and ?an = "records_bytes (wm_answers m)" and ?ns = "records_bytes (wm_authorities m)" and ?ar = "records_bytes (wm_additionals m)"
  let ?q = "\<lparr>dq_name = Some (name_text (wm_name m)), dq_type = wm_type m, dq_class = wm_class m\<rparr>"
  let ?c0 = "?b + 12" and ?c1 = "?b + 12 + ?n + 4"
  let ?c2 = "?c1 + length ?an" and ?c3 = "?c1 + length ?an + length ?ns"
  have len: "length (message_bytes m) = 12 + ?n + 4 + length ?an + length ?ns + length ?ar" by (simp add: message_bytes_def)
  have hs: "holds ?buf ?b (header_bytes (message_header m))" "holds ?buf ?c0 (wire_name (wm_name m) @ be16 (wm_type m) @ be16 (wm_class m))"
    "holds ?buf ?c1 ?an" "holds ?buf ?c2 ?ns" "holds ?buf ?c3 ?ar"
    using h by (simp_all add: message_bytes_def holds_append add.assoc del: add_2_eq_Suc add_2_eq_Suc')
  let ?p0 = "p\<lparr>dp_complete := True, dp_header := message_header m, dp_cur := ?c0\<rparr>"
  let ?p1 = "?p0\<lparr>dp_cur := ?c1, dp_question := ?q\<rparr>"
  let ?p2 = "?p1\<lparr>dp_cur := ?c2, dp_answer_list := dp_answer_list p @ map record_value (wm_answers m)\<rparr>"
  let ?p3 = "?p2\<lparr>dp_cur := ?c3, dp_authority_list := dp_authority_list p @ map record_value (wm_authorities m)\<rparr>"
  have v: "valid_name (wm_name m)" "\<forall>r \<in> set (wm_answers m). record_ok r" "\<forall>r \<in> set (wm_authorities m). record_ok r" "\<forall>r \<in> set (wm_additionals m). record_ok r"
    "length (wm_answers m) < 65536" "length (wm_authorities m) < 65536" "length (wm_additionals m) < 65536" using ok by (auto simp: wire_message_ok_def)
  have 1: "parse_question all_mem ?p0 = Some (Inr (), ?p1)"
    using parse_question_wire [of ?p0 "wm_name m" "wm_type m" "wm_class m"] hs(2) v(1) sz len by (simp add: message_header_def)
  have 2: "parse_record all_mem 0 ?p1 = Some (Inr (), ?p2)"
    using parse_record_wire [of ?p1 "wm_answers m" 0] hs(3) v(2,5) sz len by (simp add: add_records_eq record_count_def message_header_def unat_16)
  have 3: "parse_record all_mem 1 ?p2 = Some (Inr (), ?p3)"
    using parse_record_wire [of ?p2 "wm_authorities m" 1] hs(4) v(3,6) sz len by (simp add: add_records_eq record_count_def message_header_def unat_16)
  have 4: "parse_record all_mem 2 ?p3 = Some (Inr (), message_parsed m p)"
    using parse_record_wire [of ?p3 "wm_additionals m" 2] hs(5) v(4,7) sz len by (simp add: add_records_eq record_count_def message_header_def unat_16 message_parsed_def add.assoc)
  show ?thesis using read_header_bytes [OF hs(1)] 1 2 3 4 sz len by (simp add: dns_parser_parse_all_def Let_def)
qed

end
