(* ===== verification/Dns_Message.thy ===== *)
theory Dns_Message
  imports Dns_Records
begin

text \<open>
  DNS messages (\<^verbatim>\<open>workflow/src/protocol/DnsMessage.cc\<close>, \<^verbatim>\<open>DnsMessage.h\<close>) and the list of addresses of a response (\<^verbatim>\<open>DnsUtil.cc\<close>). A message encodes its question;
  a response that is received must answer the request it was made for.
\<close>

section \<open>Messages\<close>

text \<open>\<open>dm_parser\<close> is missing after a message was moved; moving itself is not modelled.\<close>

record dns_message =
  dm_parser :: "dns_parser option"
  dm_msgbuf :: "u8 list"
  dm_msgsize :: u16
  dm_cur_size :: nat
  dm_size_limit :: nat

definition new_dns_message :: "nat \<Rightarrow> dns_message" where
  "new_dns_message limit = \<lparr>dm_parser = Some dns_parser_init, dm_msgbuf = [], dm_msgsize = 0, dm_cur_size = 0, dm_size_limit = limit\<rparr>"

section \<open>Encoding\<close>

text \<open>The loop over the name: the rest of the name, what was encoded, and whether the name is valid.\<close>

function encode_labels :: "u8 list \<Rightarrow> u8 list \<Rightarrow> bool \<times> u8 list" where
  "encode_labels p out =
     (if p = [] then (True, out)
      else let name = takeWhile (\<lambda>c. c \<noteq> 46) p; rest = dropWhile (\<lambda>c. c \<noteq> 46) p in
        if 63 < length name \<or> name = [] \<and> 1 < length rest then (False, out)
        else encode_labels (tl rest) (if name \<noteq> [] then out @ of_nat (length name) # name else out))"
  by pat_completeness auto
termination
proof (relation "measure (length \<circ> fst)")
  fix p out name and rest :: "u8 list"
  assume "p \<noteq> []" "rest = dropWhile (\<lambda>c. c \<noteq> 46) p"
  then show "((tl rest, if name \<noteq> [] then out @ of_nat (length name) # name else out), p, out) \<in> measure (length \<circ> fst)"
    using length_dropWhile_le [of "\<lambda>c. c \<noteq> 46" p] by (cases p) (auto simp: less_Suc_eq_le)
qed simp

declare encode_labels.simps [simp del]

definition encode_reply :: "dns_message \<Rightarrow> ((errno + unit) \<times> dns_message) option" where
  "encode_reply m =
     do { p \<leftarrow> dm_parser m;
          let h = header_bytes ((dp_header p)\<lparr>dh_qdcount := 1, dh_ancount := 0, dh_nscount := 0, dh_arcount := 0\<rparr>);
          let (ok, out) = encode_labels (case dq_name (dp_question p) of Some n \<Rightarrow> n | None \<Rightarrow> [46]) h;
          if \<not> ok then Some (Inl EINVAL, m\<lparr>dm_msgbuf := out, dm_msgsize := 0\<rparr>)
          else let out = out @ [0] @ be16 (dq_type (dp_question p)) @ be16 (dq_class (dp_question p)) in
            if 65536 \<le> length out then Some (Inl EOVERFLOW, m\<lparr>dm_msgbuf := out, dm_msgsize := 0\<rparr>)
            else Some (Inr (), m\<lparr>dm_msgbuf := out, dm_msgsize := of_nat (length out)\<rparr>) }"

text \<open>The vectors, of which there is room for two; \<^verbatim>\<open>msgsize\<close> is in network byte order in memory.\<close>

definition dns_encode :: "dns_message \<Rightarrow> ((errno + u8 list list) \<times> dns_message) option" where
  "dns_encode m =
     do { (r, m) \<leftarrow> encode_reply m;
          p \<leftarrow> dm_parser m;
          Some (case r of Inl e \<Rightarrow> (Inl e, m) | Inr _ \<Rightarrow> (Inr (if dp_single_packet p then [dm_msgbuf m] else [be16 (dm_msgsize m), dm_msgbuf m]), m)) }"

section \<open>Receiving\<close>

text \<open>The result is the value that is returned, or the error number that is set.\<close>

definition dns_append :: "(nat \<Rightarrow> bool) \<Rightarrow> u8 list \<Rightarrow> dns_message \<Rightarrow> ((errno + int) \<times> nat \<times> dns_message) option" where
  "dns_append mem buf m =
     do { p \<leftarrow> dm_parser m;
          (ret, n, p) \<leftarrow> dns_parser_append_message mem buf p;
          let m = m\<lparr>dm_parser := Some p\<rparr>;
          if 0 \<le> ret then
            let m = m\<lparr>dm_cur_size := dm_cur_size m + n\<rparr> in Some (if dm_size_limit m < dm_cur_size m then (Inl EMSGSIZE, n, m) else (Inr ret, n, m))
          else Some (Inl (if ret = - 2 then EBADMSG else ENOMEM), n, m) }"

record dns_response = dns_message +
  rs_request_id :: u16
  rs_request_name :: "u8 list"

definition new_dns_response :: "nat \<Rightarrow> u16 \<Rightarrow> u8 list \<Rightarrow> dns_response" where
  "new_dns_response limit i name = dns_message.extend (new_dns_message limit) \<lparr>rs_request_id = i, rs_request_name = name\<rparr>"

definition dns_response_append :: "(nat \<Rightarrow> bool) \<Rightarrow> u8 list \<Rightarrow> dns_response \<Rightarrow> ((errno + int) \<times> nat \<times> dns_response) option" where
  "dns_response_append mem buf R =
     do { (r, n, m) \<leftarrow> dns_append mem buf (dns_message.truncate R);
          let R = dns_message.extend m \<lparr>rs_request_id = rs_request_id R, rs_request_name = rs_request_name R\<rparr>;
          p \<leftarrow> dm_parser R;
          case r of Inl e \<Rightarrow> Some (Inl e, n, R)
          | Inr ret \<Rightarrow>
              do { other \<leftarrow> (if ret < 1 then Some False
                             else if rs_request_id R \<noteq> dh_id (dp_header p) then Some True
                             else map_option (\<lambda>qname. \<not> dns_strcaseeq (rs_request_name R) qname) (dq_name (dp_question p)));
                   Some (if other then (if \<not> dp_single_packet p then (Inl EBADMSG, n, R) else (Inr 0, n, R\<lparr>dm_parser := Some dns_parser_init\<rparr>))
                         else (Inr ret, n, R)) } }"

section \<open>Addresses\<close>

datatype eai = EAI_NONAME | EAI_AGAIN | EAI_FAIL | EAI_NODATA | EAI_MEMORY

record dns_addrinfo =
  ai_inet6 :: bool
  ai_address :: "u8 list"
  ai_port :: u16

definition get_rcode :: "dns_header \<Rightarrow> u8" where
  "get_rcode h = dh_flags2 h AND 0x0F"

text \<open>The \<^verbatim>\<open>CNAME\<close> chain: the name at its end and what is left of \<^verbatim>\<open>ancount\<close>.\<close>

function follow_cname :: "dns_record list \<Rightarrow> u8 list \<Rightarrow> int \<Rightarrow> (u8 list \<times> int) option" where
  "follow_cname rs cname ancount =
     (case dns_record_cursor_find_cname cname rs of
        None \<Rightarrow> None
      | Some None \<Rightarrow> Some (cname, ancount)
      | Some (Some next) \<Rightarrow> if 0 < ancount then follow_cname rs next (ancount - 1) else Some (next, ancount - 1))"
  by pat_completeness auto
termination by (relation "measure (\<lambda>(rs, c, n). nat n)") auto

declare follow_cname.simps [simp del]

definition address_record :: "u8 list \<Rightarrow> dns_record \<Rightarrow> bool" where
  "address_record cname r \<longleftrightarrow> dr_rclass r = 1 \<and> (dr_type r = DNS_TYPE_A \<or> dr_type r = DNS_TYPE_AAAA) \<and> dns_strcaseeq (dr_name r) cname"

definition record_address :: "u16 \<Rightarrow> dns_record \<Rightarrow> dns_addrinfo option" where
  "record_address port r =
     (case dr_rdata r of
        Rd_bytes bs \<Rightarrow> do { a \<leftarrow> bytes_at bs 0 (if dr_type r = DNS_TYPE_A then 4 else 16); Some \<lparr>ai_inet6 = (dr_type r \<noteq> DNS_TYPE_A), ai_address = a, ai_port = port\<rparr> }
      | _ \<Rightarrow> None)"

text \<open>Without memory for an address, 48 bytes for the structure and the size of the socket address, the addresses that are there are freed.\<close>

fun collect_addresses :: "(nat \<Rightarrow> bool) \<Rightarrow> u16 \<Rightarrow> u8 list \<Rightarrow> dns_record list \<Rightarrow> (eai + dns_addrinfo list) option" where
  "collect_addresses mem port cname [] = Some (Inr [])"
| "collect_addresses mem port cname (r # rs) =
     (if address_record cname r then
        (if \<not> mem (48 + (if dr_type r = DNS_TYPE_A then 16 else 28)) then Some (Inl EAI_MEMORY)
         else do { a \<leftarrow> record_address port r; as \<leftarrow> collect_addresses mem port cname rs; Some (map_sum id ((#) a) as) })
      else collect_addresses mem port cname rs)"

text \<open>\<^verbatim>\<open>DnsUtil::getaddrinfo\<close>: the addresses and the canonical name, which is missing if there is no memory for it.\<close>

definition dns_getaddrinfo :: "(nat \<Rightarrow> bool) \<Rightarrow> dns_parser \<Rightarrow> u16 \<Rightarrow> (eai + dns_addrinfo list \<times> u8 list option) option" where
  "dns_getaddrinfo mem p port =
     do { let rcode = get_rcode (dp_header p);
          let status = (if rcode = 3 then Some EAI_NONAME else if rcode = 2 then Some EAI_AGAIN else if rcode = 1 \<or> rcode = 4 \<or> rcode = 5 then Some EAI_FAIL else None);
          (cname, ancount) \<leftarrow> follow_cname (dp_answer_list p) (case dq_name (dp_question p) of Some n \<Rightarrow> n | None \<Rightarrow> []) (int (unat (dh_ancount (dp_header p))));
          let status = (if rcode = 0 \<and> ancount \<le> 0 then Some EAI_NODATA else status);
          case status of Some e \<Rightarrow> Some (Inl e)
          | None \<Rightarrow> do { as \<leftarrow> collect_addresses mem port cname (dp_answer_list p);
                          Some (case as of Inl e \<Rightarrow> Inl e | Inr as \<Rightarrow> if as = [] then Inl EAI_NODATA else Inr (as, if mem (length cname + 1) then Some cname else None)) } }"

end
