(* ===== verification/Dns_Theorems.thy ===== *)
theory Dns_Theorems
  imports Dns_Message
begin

text \<open>
  The properties of the DNS parser and of messages: well-formed messages are received, in one datagram or in pieces; questions that were encoded are parsed back; names end if their
  compression pointers point backwards, and do not end if a pointer points to itself; what happens to a response after a datagram that does not belong to it.
\<close>

section \<open>Receiving well-formed messages\<close>

text \<open>A parser before the message is complete.\<close>

definition fresh :: "dns_parser \<Rightarrow> bool" where
  "fresh p \<longleftrightarrow> \<not> dp_complete p \<and> dp_answer_list p = [] \<and> dp_authority_list p = [] \<and> dp_additional_list p = []"

definition parsed_as :: "wire_message \<Rightarrow> dns_parser \<Rightarrow> bool" where
  "parsed_as m p \<longleftrightarrow> dp_complete p \<and> dp_header p = message_header m \<and> dp_question p = \<lparr>dq_name = Some (name_text (wm_name m)), dq_type = wm_type m, dq_class = wm_class m\<rparr> \<and>
     dp_answer_list p = map record_value (wm_answers m) \<and> dp_authority_list p = map record_value (wm_authorities m) \<and> dp_additional_list p = map record_value (wm_additionals m)"

lemma message_parsed_as: "fresh p \<Longrightarrow> parsed_as m (message_parsed m p)"
  by (simp add: fresh_def parsed_as_def message_parsed_def)

lemma append_udp:
  assumes "wire_message_ok m" "fresh p" "dp_single_packet p"
  shows "\<exists>p'. dns_parser_append_message all_mem (message_bytes m) p = Some (1, length (message_bytes m), p') \<and> parsed_as m p' \<and> dp_single_packet p'"
proof -
  let ?p = "p\<lparr>dp_msgbuf := message_bytes m, dp_msgbase := 0, dp_msgsize := length (message_bytes m), dp_bufsize := length (message_bytes m)\<rparr>"
  have "dns_parser_parse_all all_mem ?p = Some (Inr (), message_parsed m ?p)"
    by (rule parse_all_wire [OF assms(1)]) (use holds_mid [of "[]" "message_bytes m" "[]"] in simp_all)
  moreover have "parsed_as m (message_parsed m ?p)" by (rule message_parsed_as) (use assms(2) in \<open>simp add: fresh_def\<close>)
  ultimately show ?thesis using assms(2,3) by (simp add: dns_parser_append_message_def parse_received_def fresh_def message_parsed_def)
qed

text \<open>A parser that has got \<open>a\<close> of a message with its length in front.\<close>

definition partly :: "u8 list \<Rightarrow> dns_parser \<Rightarrow> bool" where
  "partly a p \<longleftrightarrow> fresh p \<and> \<not> dp_single_packet p \<and> dp_msgsize p = length a \<and> dp_msgbuf p = a \<and> dp_msgsize p \<le> dp_bufsize p"

definition tcp_bytes :: "wire_message \<Rightarrow> u8 list" where
  "tcp_bytes m = be16 (of_nat (length (message_bytes m))) @ message_bytes m"

lemma prefix_split:
  assumes "xs @ zs = ys @ ws" "length ys \<le> length xs"
  shows "\<exists>us. xs = ys @ us"
  using assms by (auto simp: append_eq_append_conv2)

lemma append_tcp:
  assumes p: "partly a p" and ok: "wire_message_ok m" "length (message_bytes m) < 65536" and ab: "(a @ b) @ c = tcp_bytes m @ extra"
  shows "length (a @ b) < length (message_bytes m) + 2 \<Longrightarrow> \<exists>p'. dns_parser_append_message all_mem b p = Some (0, length b, p') \<and> partly (a @ b) p'"
    and "length (message_bytes m) + 2 \<le> length (a @ b) \<Longrightarrow> length a < length (message_bytes m) + 2 \<Longrightarrow>
      \<exists>p'. dns_parser_append_message all_mem b p = Some (1, length (message_bytes m) + 2 - length a, p') \<and> parsed_as m p'"
proof -
  let ?n = "length (message_bytes m)"
  obtain new where new: "(if dp_bufsize p < dp_msgsize p + length b then grow_size (dp_msgsize p + length b) (max 514 (2 * dp_bufsize p)) else Some (dp_bufsize p)) = Some new"
    "dp_msgsize p + length b \<le> new"
  proof (cases "dp_bufsize p < dp_msgsize p + length b")
    case True
    have "0 < max 514 (2 * dp_bufsize p)" by simp
    from grow_size_ok [OF this, of "dp_msgsize p + length b"] show ?thesis using that True by auto
  qed (use that in auto)
  let ?q = "p\<lparr>dp_bufsize := new, dp_msgbuf := a @ b, dp_msgsize := length a + length b\<rparr>"
  have p': "\<not> dp_complete p" "\<not> dp_single_packet p" "dp_msgbuf p = a" "dp_msgsize p = length a" "fresh p" using p by (auto simp: partly_def fresh_def)
  have total: "dns_uint16 (a @ b) 0 = Some (of_nat ?n)" if l: "2 \<le> length (a @ b)"
  proof -
    obtain us where "a @ b = be16 (of_nat ?n) @ us" using prefix_split [of "a @ b" c "be16 (of_nat ?n)" "message_bytes m @ extra"] ab l by (auto simp: tcp_bytes_def)
    then show ?thesis using holds_mid [of "[]" "be16 (of_nat ?n)" us] by (intro holds_16) simp
  qed
  have run: "dns_parser_append_message all_mem b p =
      (if length a + length b < ?n + 2 then Some (0, length b, ?q) else parse_received all_mem (?n + 2 - length a) (?q\<lparr>dp_msgsize := ?n + 2, dp_msgbase := 2\<rparr>))"
    using p' new(1) total unat_16 [OF ok(2)] by (auto simp: dns_parser_append_message_def Let_def)
  show "length (a @ b) < ?n + 2 \<Longrightarrow> \<exists>p'. dns_parser_append_message all_mem b p = Some (0, length b, p') \<and> partly (a @ b) p'"
    using run new(2) p' by (simp add: partly_def fresh_def)
  assume l: "?n + 2 \<le> length (a @ b)" "length a < ?n + 2"
  let ?p = "?q\<lparr>dp_msgsize := ?n + 2, dp_msgbase := 2\<rparr>"
  obtain us where us: "a @ b = tcp_bytes m @ us" using prefix_split [OF ab] l(1) by (auto simp: tcp_bytes_def)
  have "dns_parser_parse_all all_mem ?p = Some (Inr (), message_parsed m ?p)"
  proof (rule parse_all_wire [OF ok(1)])
    show "holds (dp_msgbuf ?p) (dp_msgbase ?p) (message_bytes m)" using us holds_mid [of "be16 (of_nat ?n)" "message_bytes m" us] by (simp add: tcp_bytes_def)
  qed simp
  moreover have "parsed_as m (message_parsed m ?p)" by (rule message_parsed_as) (use p'(5) in \<open>simp add: fresh_def\<close>)
  ultimately show "\<exists>p'. dns_parser_append_message all_mem b p = Some (1, ?n + 2 - length a, p') \<and> parsed_as m p'" using run l by (simp add: parse_received_def)
qed

text \<open>The communicator gives the parser the bytes as they come until the message is complete.\<close>

fun feed :: "(nat \<Rightarrow> bool) \<Rightarrow> u8 list list \<Rightarrow> dns_parser \<Rightarrow> (int \<times> dns_parser) option" where
  "feed mem [] p = Some (0, p)"
| "feed mem (b # bs) p = do { (r, n, p) \<leftarrow> dns_parser_append_message mem b p; if r = 0 then feed mem bs p else Some (r, p) }"

lemma feed_tcp:
  assumes "partly a p" "wire_message_ok m" "length (message_bytes m) < 65536" "a @ concat bs = tcp_bytes m @ extra" "length a < length (message_bytes m) + 2"
  shows "\<exists>p'. feed all_mem bs p = Some (1, p') \<and> parsed_as m p'"
  using assms
proof (induction bs arbitrary: a p)
  case Nil
  then have "length a = length (tcp_bytes m @ extra)" by simp
  then show ?case using Nil.prems(5) by (simp add: tcp_bytes_def)
next
  case (Cons b bs)
  have ab: "(a @ b) @ concat bs = tcp_bytes m @ extra" using Cons.prems(4) by simp
  show ?case
  proof (cases "length (a @ b) < length (message_bytes m) + 2")
    case True
    then obtain p' where "dns_parser_append_message all_mem b p = Some (0, length b, p')" "partly (a @ b) p'" using append_tcp(1) [OF Cons.prems(1-3) ab] by blast
    then show ?thesis using Cons.IH [OF _ Cons.prems(2,3) ab True] by simp
  next
    case False
    then show ?thesis using append_tcp(2) [OF Cons.prems(1-3) ab] Cons.prems(5) by auto
  qed
qed

section \<open>Names: ending and not ending\<close>

text \<open>The target of the compression pointer at a position.\<close>

definition pointer_to :: "u8 list \<Rightarrow> nat \<Rightarrow> nat" where
  "pointer_to buf i = (case dns_uint16 buf i of Some v \<Rightarrow> unat (v AND 0x3FFF) | None \<Rightarrow> 0)"

text \<open>From the positions in \<open>N\<close> the parser of names gets to positions in \<open>N\<close>, and compression pointers there point backwards, to earlier bytes.\<close>

definition backward :: "u8 list \<Rightarrow> nat \<Rightarrow> nat \<Rightarrow> nat set \<Rightarrow> bool" where
  "backward buf base msgsize N \<longleftrightarrow> msgsize \<le> length buf \<and> (\<forall>i \<in> N. i < msgsize \<longrightarrow>
     (buf ! i AND 0xC0 = 0 \<longrightarrow> i + 1 + unat (buf ! i) \<in> N) \<and>
     (buf ! i AND 0xC0 = 0xC0 \<longrightarrow> i + 1 < length buf \<and> base + pointer_to buf i < i \<and> base + pointer_to buf i \<in> N))"

lemma host_loop_ends:
  assumes "backward buf base msgsize N" "cur \<in> N" "length host \<le> 256"
  shows "\<exists>r cur' host'. parse_host_loop buf base msgsize cur backup host = Some (r, cur', host') \<and> length host' \<le> 256"
  using assms(2,3)
proof (induction "(256 - length host, cur)" arbitrary: cur backup host rule: wf_induct_rule [OF wf_lex_prod [OF wf_less_than wf_less_than]])
  case less: 1
  show ?case
  proof (cases "cur < msgsize")
    case False
    then show ?thesis using less.prems by (subst parse_host_loop.simps) auto
  next
    case True
    let ?len = "buf ! cur"
    have len: "rd buf cur = Some ?len" "cur < length buf" "msgsize \<le> length buf" using True assms(1) by (auto simp: backward_def)
    have N: "?len AND 0xC0 = 0 \<longrightarrow> cur + 1 + unat ?len \<in> N" "?len AND 0xC0 = 0xC0 \<longrightarrow> cur + 1 < length buf \<and> base + pointer_to buf cur < cur \<and> base + pointer_to buf cur \<in> N"
      using assms(1) less.prems(1) True by (auto simp: backward_def)
    consider (label) "?len AND 0xC0 = 0" "?len \<noteq> 0" "unat ?len \<le> 63" "cur + 1 + unat ?len \<le> msgsize" "length host + unat ?len + 1 \<le> 256"
      | (pointer) "?len AND 0xC0 = 0xC0" "pointer_to buf cur < msgsize"
      | (stop) "\<not> (?len AND 0xC0 = 0 \<and> ?len \<noteq> 0 \<and> unat ?len \<le> 63 \<and> cur + 1 + unat ?len \<le> msgsize \<and> length host + unat ?len + 1 \<le> 256)"
          "\<not> (?len AND 0xC0 = 0xC0 \<and> pointer_to buf cur < msgsize)" by blast
    then show ?thesis
    proof cases
      case label
      let ?h = "host @ take (unat ?len) (drop (cur + 1) buf) @ [46]"
      have l: "length ?h = length host + unat ?len + 1" using label len(3) by simp
      have "parse_host_loop buf base msgsize cur backup host = parse_host_loop buf base msgsize (cur + 1 + unat ?len) backup ?h"
        using True len label by (subst parse_host_loop.simps) (simp add: bytes_at_def host_put_in)
      moreover have "\<exists>r cur' host'. parse_host_loop buf base msgsize (cur + 1 + unat ?len) backup ?h = Some (r, cur', host') \<and> length host' \<le> 256"
        by (rule less.hyps) (use l label N in auto)
      ultimately show ?thesis by simp
    next
      case pointer
      obtain v where v: "dns_uint16 buf cur = Some v" using pointer N(2) len(2) by (simp add: dns_uint16_def)
      then have t: "pointer_to buf cur = unat (v AND 0x3FFF)" by (simp add: pointer_to_def)
      let ?b = "Some (case backup of Some b \<Rightarrow> b | None \<Rightarrow> cur + 2)"
      have "parse_host_loop buf base msgsize cur backup host = parse_host_loop buf base msgsize (base + pointer_to buf cur) ?b host"
        using True len(1) pointer v unfolding t by (subst parse_host_loop.simps) simp
      moreover have "\<exists>r cur' host'. parse_host_loop buf base msgsize (base + pointer_to buf cur) ?b host = Some (r, cur', host') \<and> length host' \<le> 256"
        by (rule less.hyps) (use pointer N(2) less.prems in auto)
      ultimately show ?thesis by simp
    next
      case stop
      have "\<exists>v. dns_uint16 buf cur = Some v \<and> pointer_to buf cur = unat (v AND 0x3FFF)" if "?len AND 0xC0 = 0xC0"
        using that N(2) len(2) by (simp add: dns_uint16_def pointer_to_def)
      then show ?thesis using True len(1) stop less.prems(2) by (subst parse_host_loop.simps) auto
    qed
  qed
qed

lemma self_pointer_none:
  assumes "cur < msgsize" "rd buf cur = Some len" "len AND 0xC0 = 0xC0" "dns_uint16 buf cur = Some v" "base + unat (v AND 0x3FFF) = cur" "unat (v AND 0x3FFF) < msgsize"
  shows "parse_host_loop buf base msgsize cur backup host = None"
proof (rule ccontr)
  assume "parse_host_loop buf base msgsize cur backup host \<noteq> None"
  then obtain y where y: "parse_host_loop buf base msgsize cur backup host = Some y" by blast
  have "\<not> (cur < msgsize \<and> rd buf cur = Some len \<and> len AND 0xC0 = 0xC0 \<and> dns_uint16 buf cur = Some v \<and> base + unat (v AND 0x3FFF) = cur \<and> unat (v AND 0x3FFF) < msgsize)"
    by (rule parse_host_loop.raw_induct [OF _ y]) (auto split: if_splits)
  then show False using assms by blast
qed

section \<open>Encoding\<close>

lemma name_text_Cons: "valid_label l \<Longrightarrow> name_text (l # ls) = (if ls = [] then l else l @ 46 # butlast (dots ls))"
  by (cases ls) (auto simp: name_text_def butlast_append)

lemma name_text_not_Nil: "\<forall>l \<in> set ls. valid_label l \<Longrightarrow> name_text ls \<noteq> []"
  by (cases ls) (auto simp: name_text_Cons name_text_def [of "[]"] valid_label_def split: if_splits)

lemma split_label:
  assumes "valid_label l"
  shows "takeWhile (\<lambda>c. c \<noteq> 46) (l @ 46 # r) = l" "dropWhile (\<lambda>c. c \<noteq> 46) (l @ 46 # r) = 46 # r" "takeWhile (\<lambda>c. c \<noteq> 46) l = l" "dropWhile (\<lambda>c. c \<noteq> 46) l = []"
proof -
  have "46 \<notin> set l" using assms by (simp add: valid_label_def)
  then show "takeWhile (\<lambda>c. c \<noteq> 46) (l @ 46 # r) = l" "dropWhile (\<lambda>c. c \<noteq> 46) (l @ 46 # r) = 46 # r" "takeWhile (\<lambda>c. c \<noteq> 46) l = l" "dropWhile (\<lambda>c. c \<noteq> 46) l = []"
    by (induction l) auto
qed

lemma encode_label:
  assumes "valid_label l"
  shows "encode_labels l out = (True, out @ of_nat (length l) # l)" "encode_labels (l @ 46 # r) out = encode_labels r (out @ of_nat (length l) # l)"
proof -
  have l: "l \<noteq> []" "\<not> 63 < length l" using assms by (auto simp: valid_label_def)
  show "encode_labels l out = (True, out @ of_nat (length l) # l)"
    by (subst encode_labels.simps, simp only: split_label [OF assms] Let_def) (simp add: l encode_labels.simps [of "[]"])
  show "encode_labels (l @ 46 # r) out = encode_labels r (out @ of_nat (length l) # l)"
    by (subst encode_labels.simps, simp only: split_label [OF assms] Let_def) (simp add: l)
qed

lemma encode_labels_dots:
  assumes "\<forall>l \<in> set ls. valid_label l" "ls \<noteq> []"
  shows "encode_labels (butlast (dots ls)) out = (True, out @ wire_labels ls)"
  using assms
proof (induction ls arbitrary: out)
  case (Cons l ls)
  have l: "valid_label l" "l \<noteq> []" "length l \<le> 63" using Cons.prems(1) by (auto simp: valid_label_def)
  show ?case
  proof (cases "ls = []")
    case True
    then show ?thesis using encode_label(1) [OF l(1)] by (simp add: butlast_append)
  next
    case False
    then have "dots ls \<noteq> []" by (cases ls) auto
    then have "butlast (dots (l # ls)) = l @ 46 # butlast (dots ls)" by (simp add: butlast_append)
    then have "encode_labels (butlast (dots (l # ls))) out = encode_labels (butlast (dots ls)) (out @ of_nat (length l) # l)"
      using encode_label(2) [OF l(1)] by simp
    then show ?thesis using Cons.IH [of "out @ of_nat (length l) # l"] Cons.prems(1) False by simp
  qed
qed simp

lemma encode_labels_text:
  assumes "\<forall>l \<in> set ls. valid_label l"
  shows "encode_labels (name_text ls) out = (True, out @ wire_labels ls)"
proof (cases "ls = []")
  case True
  then show ?thesis by (simp add: name_text_def) (subst encode_labels.simps, simp add: Let_def encode_labels.simps [of "[]"])
next
  case False
  then show ?thesis using encode_labels_dots [OF assms False] by (simp add: name_text_def)
qed

text \<open>The question of a message as a message without records.\<close>

definition question_of :: "dns_header \<Rightarrow> u8 list list \<Rightarrow> u16 \<Rightarrow> u16 \<Rightarrow> wire_message" where
  "question_of h ls ty cl = \<lparr>wm_id = dh_id h, wm_flags1 = dh_flags1 h, wm_flags2 = dh_flags2 h, wm_name = ls, wm_type = ty, wm_class = cl,
     wm_answers = [], wm_authorities = [], wm_additionals = []\<rparr>"

lemma question_ok: "valid_name ls \<Longrightarrow> wire_message_ok (question_of h ls ty cl)"
  by (simp add: wire_message_ok_def question_of_def)

lemma question_bytes:
  "message_bytes (question_of h ls ty cl) = header_bytes (h\<lparr>dh_qdcount := 1, dh_ancount := 0, dh_nscount := 0, dh_arcount := 0\<rparr>) @ wire_name ls @ be16 ty @ be16 cl"
  by (simp add: message_bytes_def question_of_def message_header_def header_bytes_def records_bytes_def)

lemma question_length: "valid_name ls \<Longrightarrow> length (message_bytes (question_of h ls ty cl)) < 65536"
  by (simp add: question_bytes wire_name_def length_wire valid_name_def)

lemma encode_question:
  assumes "valid_name ls" "dm_parser m = Some p" "dq_name (dp_question p) = Some (name_text ls)"
  shows "\<exists>vs m'. dns_encode m = Some (Inr vs, m') \<and>
    concat vs = (if dp_single_packet p then message_bytes else tcp_bytes) (question_of (dp_header p) ls (dq_type (dp_question p)) (dq_class (dp_question p)))"
proof -
  let ?m = "question_of (dp_header p) ls (dq_type (dp_question p)) (dq_class (dp_question p))"
  have v: "\<forall>l \<in> set ls. valid_label l" using assms(1) by (simp add: valid_name_def)
  let ?h = "header_bytes ((dp_header p)\<lparr>dh_qdcount := 1, dh_ancount := 0, dh_nscount := 0, dh_arcount := 0\<rparr>)"
  have b: "?h @ wire_labels ls @ 0 # be16 (dq_type (dp_question p)) @ be16 (dq_class (dp_question p)) = message_bytes ?m" by (simp add: question_bytes wire_name_def)
  have l: "\<not> 65536 \<le> length (message_bytes ?m)" using question_length [OF assms(1)] by (simp add: not_le)
  have "encode_reply m = Some (Inr (), m\<lparr>dm_msgbuf := message_bytes ?m, dm_msgsize := of_nat (length (message_bytes ?m))\<rparr>)"
    using l by (simp add: encode_reply_def assms(2,3) encode_labels_text [OF v] Let_def b del: length_append)
  then show ?thesis using assms(2) by (simp add: dns_encode_def tcp_bytes_def)
qed

section \<open>Properties\<close>

lemma init_partly: "partly [] dns_parser_init" "fresh (dns_parser_init\<lparr>dp_single_packet := True\<rparr>)"
  by (simp_all add: partly_def fresh_def dns_parser_init_def)

text \<open>An answer with an address and an alias, a mail server among the authorities, and a start of authority.\<close>

definition demo_name :: "u8 list list" where "demo_name = [[119, 119, 119], [97, 98]]"

definition demo_dns_message :: wire_message where
  "demo_dns_message = \<lparr>wm_id = 7, wm_flags1 = 0x81, wm_flags2 = 0x80, wm_name = demo_name, wm_type = 1, wm_class = 1,
     wm_answers = [\<lparr>wr_name = demo_name, wr_type = 5, wr_class = 1, wr_ttl = 60, wr_data = Wd_name [[97, 98]]\<rparr>, \<lparr>wr_name = [[97, 98]], wr_type = 1, wr_class = 1, wr_ttl = 60, wr_data = Wd_bytes [10, 0, 0, 1]\<rparr>],
     wm_authorities = [\<lparr>wr_name = [], wr_type = 15, wr_class = 1, wr_ttl = 5, wr_data = Wd_mx 10 [[120]]\<rparr>],
     wm_additionals = [\<lparr>wr_name = [[120]], wr_type = 6, wr_class = 1, wr_ttl = 5, wr_data = Wd_soa [[97]] [] 1 2 3 4 5\<rparr>]\<rparr>"

lemma demo_dns_ok: "wire_message_ok demo_dns_message" "length (message_bytes demo_dns_message) < 65536"
  by (simp_all add: demo_dns_message_def demo_name_def wire_message_ok_def record_ok_def valid_name_def valid_label_def dns_types wire_name_def message_bytes_def records_bytes_def record_bytes_def)

text \<open>
  C7: The parser inverts the format of DNS messages. A message with any question and any records of the types the parser knows, and of other types, written without compression,
  is received as one datagram, or in any pieces as a stream with its length in front, and the parser then has its header, its question and its records, in their order and sections.
\<close>

theorem dns_parses:
  assumes "wire_message_ok m" "length (message_bytes m) < 65536"
  shows "(\<exists>p. dns_parser_append_message (\<lambda>_. True) (message_bytes m) (dns_parser_init\<lparr>dp_single_packet := True\<rparr>) = Some (1, length (message_bytes m), p) \<and> parsed_as m p) \<and>
    (concat pieces = be16 (of_nat (length (message_bytes m))) @ message_bytes m \<longrightarrow> (\<exists>p. feed (\<lambda>_. True) pieces dns_parser_init = Some (1, p) \<and> parsed_as m p))"
proof -
  have "\<exists>p. dns_parser_append_message all_mem (message_bytes m) (dns_parser_init\<lparr>dp_single_packet := True\<rparr>) = Some (1, length (message_bytes m), p) \<and> parsed_as m p"
    using append_udp [OF assms(1) init_partly(2)] by auto
  moreover have "concat pieces = be16 (of_nat (length (message_bytes m))) @ message_bytes m \<Longrightarrow> \<exists>p. feed all_mem pieces dns_parser_init = Some (1, p) \<and> parsed_as m p"
    using feed_tcp [OF init_partly(1) assms, of pieces "[]"] by (simp add: tcp_bytes_def)
  ultimately show ?thesis by blast
qed

theorem dns_parses_witness:
  "\<exists>p. feed (\<lambda>_. True) [take 1 (tcp_bytes demo_dns_message), take 40 (drop 1 (tcp_bytes demo_dns_message)), drop 41 (tcp_bytes demo_dns_message)] dns_parser_init = Some (1, p) \<and> parsed_as demo_dns_message p"
proof -
  have "concat [take 1 (tcp_bytes demo_dns_message), take 40 (drop 1 (tcp_bytes demo_dns_message)), drop 41 (tcp_bytes demo_dns_message)] = be16 (of_nat (length (message_bytes demo_dns_message))) @ message_bytes demo_dns_message"
    by code_simp
  then show ?thesis using dns_parses [OF demo_dns_ok, of "[take 1 (tcp_bytes demo_dns_message), take 40 (drop 1 (tcp_bytes demo_dns_message)), drop 41 (tcp_bytes demo_dns_message)]"] by blast
qed

text \<open>
  C21: A question that was encoded is received as it was asked: for every valid name, the message that \<^verbatim>\<open>encode\<close> writes, as a datagram or as a stream in any pieces, gives the other
  side the same identification, flags, name, type and class.
\<close>

theorem dns_question_roundtrip:
  assumes "valid_name ls" "dm_parser m = Some p" "dp_question p = \<lparr>dq_name = Some (name_text ls), dq_type = ty, dq_class = cl\<rparr>"
  shows "\<exists>vs m'. dns_encode m = Some (Inr vs, m') \<and>
    (dp_single_packet p \<longrightarrow> (\<exists>q n. dns_parser_append_message (\<lambda>_. True) (concat vs) (dns_parser_init\<lparr>dp_single_packet := True\<rparr>) = Some (1, n, q) \<and>
       dp_question q = dp_question p \<and> dp_header q = (dp_header p)\<lparr>dh_qdcount := 1, dh_ancount := 0, dh_nscount := 0, dh_arcount := 0\<rparr>)) \<and>
    (\<not> dp_single_packet p \<longrightarrow> (\<forall>pieces. concat pieces = concat vs \<longrightarrow> (\<exists>q. feed (\<lambda>_. True) pieces dns_parser_init = Some (1, q) \<and>
       dp_question q = dp_question p \<and> dp_header q = (dp_header p)\<lparr>dh_qdcount := 1, dh_ancount := 0, dh_nscount := 0, dh_arcount := 0\<rparr>)))"
proof -
  let ?m = "question_of (dp_header p) ls ty cl"
  obtain vs m' where e: "dns_encode m = Some (Inr vs, m')" "concat vs = (if dp_single_packet p then message_bytes else tcp_bytes) ?m"
    using encode_question [OF assms(1,2)] assms(3) by auto
  have q: "parsed_as ?m q \<Longrightarrow> dp_question q = dp_question p \<and> dp_header q = (dp_header p)\<lparr>dh_qdcount := 1, dh_ancount := 0, dh_nscount := 0, dh_arcount := 0\<rparr>" for q
    using assms(3) by (simp add: parsed_as_def question_of_def message_header_def)
  note ok = question_ok [OF assms(1), of "dp_header p" ty cl] and len = question_length [OF assms(1), of "dp_header p" ty cl]
  show ?thesis
  proof (cases "dp_single_packet p")
    case True
    then show ?thesis using e q append_udp [OF ok init_partly(2)] by auto
  next
    case False
    have "\<exists>q. feed all_mem pieces dns_parser_init = Some (1, q) \<and> dp_question q = dp_question p \<and> dp_header q = (dp_header p)\<lparr>dh_qdcount := 1, dh_ancount := 0, dh_nscount := 0, dh_arcount := 0\<rparr>"
      if "concat pieces = concat vs" for pieces
      using feed_tcp [OF init_partly(1) ok len, of pieces "[]"] that e(2) False q by auto
    then show ?thesis using e(1) False by blast
  qed
qed

definition demo_question :: dns_message where
  "demo_question = (new_dns_message 1000)\<lparr>dm_parser := Some (snd (dns_parser_set_question (\<lambda>_. True) [119, 119, 119, 46, 97, 98, 46] 28 1 (dns_parser_set_id 7 dns_parser_init)))\<rparr>"

theorem dns_question_roundtrip_witness:
  "\<exists>vs m' q. dns_encode demo_question = Some (Inr vs, m') \<and> feed (\<lambda>_. True) [concat vs] dns_parser_init = Some (1, q) \<and> dq_type (dp_question q) = 28"
proof -
  let ?p = "snd (dns_parser_set_question (\<lambda>_. True) [119, 119, 119, 46, 97, 98, 46] 28 1 (dns_parser_set_id 7 dns_parser_init))"
  have "valid_name demo_name" "dm_parser demo_question = Some ?p" "dp_question ?p = \<lparr>dq_name = Some (name_text demo_name), dq_type = 28, dq_class = 1\<rparr>" "\<not> dp_single_packet ?p"
    by (code_simp, simp add: demo_question_def, code_simp, code_simp)
  then show ?thesis using dns_question_roundtrip [of demo_name demo_question ?p 28 1] by (metis append_Nil2 concat.simps dns_question.select_convs(2))
qed

text \<open>
  C29: Parsing a name ends and stays inside its array: if the bytes of the message are there and the compression pointers that are met point backwards, as the format demands, then
  \<^verbatim>\<open>__dns_parser_parse_host\<close> returns, with an error or with a name of at most 256 bytes.
\<close>

theorem dns_names_end:
  assumes "backward (dp_msgbuf p) (dp_msgbase p) (dp_msgsize p) N" "dp_cur p \<in> N"
  shows "\<exists>r p'. parse_host p = Some (r, p') \<and> (\<forall>name. r = Inr name \<longrightarrow> name \<noteq> [] \<and> length name \<le> 256)"
proof -
  obtain r cur host where l: "parse_host_loop (dp_msgbuf p) (dp_msgbase p) (dp_msgsize p) (dp_cur p) None [] = Some (r, cur, host)" "length host \<le> 256"
    using host_loop_ends [OF assms, of "[]" None] by auto
  let ?host = "if 1 < length host \<and> last host = 46 then butlast host else host"
  have h: "length ?host \<le> 256" using l(2) by auto
  show ?thesis using l(1) h by (cases "?host = []") (auto simp: parse_host_def host_put_def Let_def)
qed

theorem dns_names_end_witness:
  "\<exists>r p'. parse_host (dns_parser_init\<lparr>dp_msgbuf := [1, 97, 0, 1, 98, 0xC0, 0], dp_msgsize := 7, dp_cur := 3\<rparr>) = Some (r, p') \<and> (\<forall>name. r = Inr name \<longrightarrow> name \<noteq> [] \<and> length name \<le> 256)"
proof -
  let ?b = "[1, 97, 0, 1, 98, 0xC0, 0] :: u8 list"
  have b: "\<forall>i \<in> {0, 2, 3, 5, 7}. i < 7 \<longrightarrow> (?b ! i AND 0xC0 = 0 \<longrightarrow> i + 1 + unat (?b ! i) \<in> {0, 2, 3, 5, 7}) \<and>
     (?b ! i AND 0xC0 = 0xC0 \<longrightarrow> i + 1 < length ?b \<and> 0 + pointer_to ?b i < i \<and> 0 + pointer_to ?b i \<in> {0, 2, 3, 5, 7})" by code_simp
  have "backward ?b 0 7 {0, 2, 3, 5, 7}" unfolding backward_def by (rule conjI [OF _ b]) simp
  then show ?thesis using dns_names_end [of "dns_parser_init\<lparr>dp_msgbuf := ?b, dp_msgsize := 7, dp_cur := 3\<rparr>" "{0, 2, 3, 5, 7}"] by (simp add: dns_parser_init_def)
qed

text \<open>
  C39: A compression pointer to itself is not detected: a datagram whose question is the pointer to byte 12, its own position, keeps \<^verbatim>\<open>dns_parser_append_message\<close> in its loop forever, whatever
  else the datagram has in it.
\<close>

theorem dns_pointer_loop:
  assumes "18 \<le> length buf" "dns_uint16 buf 4 = Some 1" "buf ! 12 = 0xC0" "buf ! 13 = 12"
  shows "dns_parser_append_message (\<lambda>_. True) buf (dns_parser_init\<lparr>dp_single_packet := True\<rparr>) = None"
proof -
  have u: "dns_uint16 buf 12 = Some 0xC00C" using assms by (simp add: dns_uint16_def)
  have n: "parse_host_loop buf 0 (length buf) 12 None [] = None"
    by (rule self_pointer_none [of _ _ _ "0xC0" "0xC00C"]) (use assms u in simp_all)
  have r: "\<exists>v. rd buf i = Some v" if "i < 18" for i using that assms(1) by simp
  have "rd buf 0 = Some (buf ! 0)" using assms(1) by (intro rd_in) linarith
  then obtain h where h: "read_header buf 0 = Some h" "dh_qdcount h = 1" using assms(1,2) by (simp add: read_header_def dns_uint16_def)
  show ?thesis using assms(1) h n
    by (simp add: dns_parser_append_message_def parse_received_def dns_parser_parse_all_def parse_question_def parse_host_def dns_parser_init_def Let_def)
qed

theorem dns_pointer_loop_witness:
  "dns_parser_append_message (\<lambda>_. True) [0, 7, 1, 0, 0, 1, 0, 0, 0, 0, 0, 0, 0xC0, 12, 0, 1, 0, 1] (dns_parser_init\<lparr>dp_single_packet := True\<rparr>) = None"
  by (rule dns_pointer_loop) code_simp+

text \<open>
  C40: After a datagram with another identification the response is lost. A datagram that answers the request is accepted; but \<^verbatim>\<open>DnsResponse::append\<close> resets the parser when it drops a datagram
  that does not, and forgets that the message is a single packet: the two bytes of the identification of the right answer are then taken for its length, and the answer is not recognised.
\<close>

theorem dns_mismatch_stuck:
  assumes "wire_message_ok m1" "wire_message_ok m2" "wm_id m1 \<noteq> i" "wm_id m2 = i" "name_text (wm_name m2) = name"
    "length (message_bytes m1) + length (message_bytes m2) \<le> limit" "length (message_bytes m2) < unat i + 2" "R = (new_dns_response limit i name)\<lparr>dm_parser := Some (dns_parser_init\<lparr>dp_single_packet := True\<rparr>)\<rparr>"
  shows "(\<exists>n R'. dns_response_append (\<lambda>_. True) (message_bytes m2) R = Some (Inr 1, n, R')) \<and>
    (\<exists>n R1. dns_response_append (\<lambda>_. True) (message_bytes m1) R = Some (Inr 0, n, R1) \<and> (\<exists>n' R2. dns_response_append (\<lambda>_. True) (message_bytes m2) R1 = Some (Inr 0, n', R2)))"
proof -
  let ?p = "dns_parser_init\<lparr>dp_single_packet := True\<rparr>"
  note defs = dns_response_append_def dns_append_def new_dns_response_def new_dns_message_def dns_message.defs dns_strcaseeq_def
  obtain p2 where p2: "dns_parser_append_message all_mem (message_bytes m2) ?p = Some (1, length (message_bytes m2), p2)" "parsed_as m2 p2" using append_udp [OF assms(2) init_partly(2)] by auto
  obtain p1 where p1: "dns_parser_append_message all_mem (message_bytes m1) ?p = Some (1, length (message_bytes m1), p1)" "parsed_as m1 p1" "dp_single_packet p1"
    using append_udp [OF assms(1) init_partly(2)] by auto
  have l2: "12 \<le> length (message_bytes m2)" by (simp add: message_bytes_def)
  have "holds (message_bytes m2) 0 (be16 i)" using holds_mid [of "[]" "be16 i"] assms(4) by (simp add: message_bytes_def header_bytes_def message_header_def)
  then have id: "dns_uint16 (message_bytes m2) 0 = Some i" by (rule holds_16)
  obtain g where g: "grow_size (length (message_bytes m2)) 514 = Some g" using grow_size_ok [of 514 "length (message_bytes m2)"] by auto
  have "0 < length (message_bytes m2)" using l2 by linarith
  then have t: "\<exists>q. dns_parser_append_message all_mem (message_bytes m2) dns_parser_init = Some (0, length (message_bytes m2), q)"
    using id g l2 assms(7) by (auto simp: dns_parser_append_message_def dns_parser_init_def Let_def)
  have 1: "\<exists>n R'. dns_response_append all_mem (message_bytes m2) R = Some (Inr 1, n, R')"
    using p2 assms(4,5,6,8) by (simp add: defs parsed_as_def message_header_def)
  have 2: "dns_response_append all_mem (message_bytes m1) R = Some (Inr 0, length (message_bytes m1), R\<lparr>dm_cur_size := length (message_bytes m1), dm_parser := Some dns_parser_init\<rparr>)"
    using p1 assms(3,6,8) by (simp add: defs parsed_as_def message_header_def)
  have 3: "\<exists>n' R2. dns_response_append all_mem (message_bytes m2) (R\<lparr>dm_cur_size := length (message_bytes m1), dm_parser := Some dns_parser_init\<rparr>) = Some (Inr 0, n', R2)"
    using t assms(6,8) by (auto simp: defs)
  show ?thesis using 1 2 3 by blast
qed

theorem dns_mismatch_stuck_witness:
  "\<exists>R R1 R2 n n'. dns_response_append (\<lambda>_. True) (message_bytes demo_dns_message) R = Some (Inr 0, n, R1) \<and>
    dns_response_append (\<lambda>_. True) (message_bytes (demo_dns_message\<lparr>wm_id := 5000\<rparr>)) R1 = Some (Inr 0, n', R2)"
proof -
  let ?R = "(new_dns_response 1000 5000 (name_text demo_name))\<lparr>dm_parser := Some (dns_parser_init\<lparr>dp_single_packet := True\<rparr>)\<rparr>"
  have ok: "wire_message_ok (demo_dns_message\<lparr>wm_id := 5000\<rparr>)" using demo_dns_ok(1) by (simp add: wire_message_ok_def)
  have n: "name_text (wm_name (demo_dns_message\<lparr>wm_id := 5000\<rparr>)) = name_text demo_name" by (simp add: demo_dns_message_def)
  have l: "length (message_bytes demo_dns_message) + length (message_bytes (demo_dns_message\<lparr>wm_id := 5000\<rparr>)) \<le> 1000" "length (message_bytes (demo_dns_message\<lparr>wm_id := 5000\<rparr>)) < unat (5000 :: u16) + 2"
    by (simp_all add: demo_dns_message_def demo_name_def wire_name_def message_bytes_def records_bytes_def record_bytes_def)
  have i: "wm_id demo_dns_message \<noteq> 5000" "wm_id (demo_dns_message\<lparr>wm_id := 5000\<rparr>) = 5000" by (simp_all add: demo_dns_message_def)
  from dns_mismatch_stuck [OF demo_dns_ok(1) ok i n l refl] show ?thesis by blast
qed

end
