(* ===== verification/Dns_Addresses.thy ===== *)
theory Dns_Addresses
  imports Dns_Theorems
begin

text \<open>
  The addresses of a response. For any received bytes the data of every record in the answer fit its type (\<open>all_typed\<close>, kept by every function of the parser), so that
  \<^verbatim>\<open>DnsUtil::getaddrinfo\<close> is defined and returns the addresses of the matching records.
\<close>

section \<open>What the parser guarantees of the records\<close>

definition typed_data :: "u16 \<Rightarrow> dns_rdata \<Rightarrow> bool" where
  "typed_data type d \<longleftrightarrow> (type = DNS_TYPE_A \<longrightarrow> (\<exists>bs. d = Rd_bytes bs \<and> length bs = 4)) \<and> (type = DNS_TYPE_AAAA \<longrightarrow> (\<exists>bs. d = Rd_bytes bs \<and> length bs = 16)) \<and>
     (type = DNS_TYPE_CNAME \<longrightarrow> (\<exists>n. d = Rd_name n))"

definition all_typed :: "dns_parser \<Rightarrow> bool" where
  "all_typed p \<longleftrightarrow> (\<forall>r \<in> set (dp_answer_list p). typed_data (dr_type r) (dr_rdata r))"

lemma dns_bind_Some:
  assumes "dns_bind r f = Some (x, p')"
  obtains (error) e where "r = Some (Inl e, p')" "x = Inl e" | (got) a q where "r = Some (Inr a, q)" "f a q = Some (x, p')"
  using assms by (auto simp: dns_bind_def split: option.splits sum.splits)

lemma parse_host_keeps: "parse_host p = Some (r, p') \<Longrightarrow> \<exists>c. p' = p\<lparr>dp_cur := c\<rparr>"
  by (auto simp: parse_host_def Let_def bind_eq_Some_conv split: if_splits intro: exI [of _ "dp_cur p"])

definition keeps :: "dns_parser \<Rightarrow> dns_parser \<Rightarrow> bool" where
  "keeps p p' \<longleftrightarrow> (\<exists>c. p' = p\<lparr>dp_cur := c\<rparr>)"

lemma keeps_refl [simp]: "keeps p p" "keeps p (p\<lparr>dp_cur := c\<rparr>)"
  unfolding keeps_def by (rule exI [of _ "dp_cur p"], simp) (rule exI [of _ c], simp)

lemma keeps_trans: "keeps p q \<Longrightarrow> keeps q r \<Longrightarrow> keeps p r"
  by (auto simp: keeps_def)

lemma keeps_typed: "keeps p p' \<Longrightarrow> all_typed p' = all_typed p"
  by (auto simp: keeps_def all_typed_def)

lemma take_bytes_typed: "take_bytes mem n p = Some (r, p') \<Longrightarrow> keeps p p' \<and> (\<forall>d. r = Inr d \<longrightarrow> (\<exists>bs. d = Rd_bytes bs \<and> length bs = n))"
  by (auto simp: take_bytes_def bytes_at_def bind_eq_Some_conv split: if_splits)

lemma host_keeps: "parse_host p = Some (r, p') \<Longrightarrow> keeps p p'"
  using parse_host_keeps by (simp add: keeps_def)

lemma parse_names_typed:
  assumes "parse_names mem n p = Some (r, p')"
  shows "keeps p p' \<and> (\<forall>d. r = Inr d \<longrightarrow> (\<exists>nm. d = Rd_name nm))"
  using assms unfolding parse_names_def Let_def by (elim dns_bind_Some) (auto dest: host_keeps split: if_splits)

lemma parse_soa_keeps:
  assumes "parse_soa mem n p = Some (r, p')"
  shows "keeps p p'"
  using assms unfolding parse_soa_def Let_def
  by (elim dns_bind_Some) (auto simp: bind_eq_Some_conv dest!: host_keeps split: if_splits intro: keeps_trans)

lemma parse_srv_keeps:
  assumes "parse_srv mem n p = Some (r, p')"
  shows "keeps p p'"
proof -
  have "keeps (p\<lparr>dp_cur := dp_cur p + 6\<rparr>) q \<Longrightarrow> keeps p q" for q using keeps_trans [of p "p\<lparr>dp_cur := dp_cur p + 6\<rparr>" q] by simp
  then show ?thesis using assms unfolding parse_srv_def Let_def
    by (auto simp: bind_eq_Some_conv elim!: dns_bind_Some dest!: host_keeps split: if_splits)
qed

lemma parse_mx_keeps:
  assumes "parse_mx mem n p = Some (r, p')"
  shows "keeps p p'"
proof -
  have "keeps (p\<lparr>dp_cur := dp_cur p + 2\<rparr>) q \<Longrightarrow> keeps p q" for q using keeps_trans [of p "p\<lparr>dp_cur := dp_cur p + 2\<rparr>" q] by simp
  then show ?thesis using assms unfolding parse_mx_def Let_def
    by (auto simp: bind_eq_Some_conv elim!: dns_bind_Some dest!: host_keeps split: if_splits)
qed

lemma parse_rdata_typed:
  assumes "parse_rdata mem type n p = Some (r, p')"
  shows "keeps p p' \<and> (\<forall>d. r = Inr d \<longrightarrow> typed_data type d)"
proof -
  consider "type = DNS_TYPE_A" | "type = DNS_TYPE_AAAA" | "type = DNS_TYPE_NS \<or> type = DNS_TYPE_CNAME \<or> type = DNS_TYPE_PTR" | "type = DNS_TYPE_SOA" | "type = DNS_TYPE_SRV" | "type = DNS_TYPE_MX"
    | "type \<notin> {DNS_TYPE_A, DNS_TYPE_AAAA, DNS_TYPE_NS, DNS_TYPE_CNAME, DNS_TYPE_PTR, DNS_TYPE_SOA, DNS_TYPE_SRV, DNS_TYPE_MX}" by auto
  then show ?thesis
  proof cases
    case 1
    then have "parse_a mem n p = Some (r, p')" using assms by (simp add: parse_rdata_def)
    then show ?thesis using 1 take_bytes_typed [of mem n p r p'] by (auto simp: parse_a_def typed_data_def dns_types split: if_splits)
  next
    case 2
    then have "parse_aaaa mem n p = Some (r, p')" using assms by (simp add: parse_rdata_def dns_types)
    then show ?thesis using 2 take_bytes_typed [of mem n p r p'] by (auto simp: parse_aaaa_def typed_data_def dns_types split: if_splits)
  next
    case 3
    then have "parse_names mem n p = Some (r, p')" using assms by (auto simp: parse_rdata_def dns_types)
    then show ?thesis using 3 parse_names_typed [of mem n p r p'] by (auto simp: typed_data_def dns_types)
  next
    case 4
    then have "parse_soa mem n p = Some (r, p')" using assms by (simp add: parse_rdata_def dns_types)
    then show ?thesis using 4 parse_soa_keeps by (auto simp: typed_data_def dns_types)
  next
    case 5
    then have "parse_srv mem n p = Some (r, p')" using assms by (simp add: parse_rdata_def dns_types)
    then show ?thesis using 5 parse_srv_keeps by (auto simp: typed_data_def dns_types)
  next
    case 6
    then have "parse_mx mem n p = Some (r, p')" using assms by (simp add: parse_rdata_def dns_types)
    then show ?thesis using 6 parse_mx_keeps by (auto simp: typed_data_def dns_types)
  next
    case 7
    then have "take_bytes mem n p = Some (r, p')" using assms by (simp add: parse_rdata_def parse_others_def)
    then show ?thesis using 7 take_bytes_typed [of mem n p r p'] by (auto simp: typed_data_def)
  qed
qed

lemma add_record_typed: "all_typed p \<Longrightarrow> typed_data (dr_type r) (dr_rdata r) \<Longrightarrow> all_typed (add_record idx r p)"
  by (auto simp: all_typed_def add_record_def)

lemma one_record_typed:
  assumes "parse_one_record mem idx p = Some (r, p')" "all_typed p"
  shows "all_typed p'"
  using assms(1) unfolding parse_one_record_def
proof (cases rule: dns_bind_Some)
  case (error e)
  then show ?thesis using host_keeps keeps_typed assms(2) by blast
next
  case (got host q)
  have q: "all_typed q" "\<And>c. all_typed (q\<lparr>dp_cur := c\<rparr>)" using host_keeps [OF got(1)] keeps_typed keeps_trans keeps_refl(2) assms(2) by metis+
  show ?thesis
  proof (cases "dp_msgsize q < dp_cur q + 10")
    case True
    then show ?thesis using got(2) q by simp
  next
    case False
    then obtain type rclass ttl rdlength where v: "(let p = q\<lparr>dp_cur := dp_cur q + 10\<rparr> in
        if dp_msgsize p < dp_cur p + unat rdlength then Some (Inl (- 2), p)
        else dns_bind (parse_rdata mem type (unat rdlength) p) (\<lambda>rdata p.
          if \<not> mem (length (c_str host) + 1) then None
          else Some (Inr (), add_record idx \<lparr>dr_name = c_str host, dr_type = type, dr_rclass = rclass, dr_ttl = ttl, dr_rdlength = rdlength, dr_rdata = rdata\<rparr> p))) = Some (r, p')"
      using got(2) by (auto simp: bind_eq_Some_conv)
    show ?thesis
    proof (cases "dp_msgsize q < dp_cur q + 10 + unat rdlength")
      case True
      then show ?thesis using v q by (auto simp: Let_def)
    next
      case False
      then have "dns_bind (parse_rdata mem type (unat rdlength) (q\<lparr>dp_cur := dp_cur q + 10\<rparr>)) (\<lambda>rdata p.
          if \<not> mem (length (c_str host) + 1) then None
          else Some (Inr (), add_record idx \<lparr>dr_name = c_str host, dr_type = type, dr_rclass = rclass, dr_ttl = ttl, dr_rdlength = rdlength, dr_rdata = rdata\<rparr> p)) = Some (r, p')"
        using v by (simp add: Let_def)
      then show ?thesis
      proof (cases rule: dns_bind_Some)
        case (error e)
        then show ?thesis using parse_rdata_typed keeps_typed q(2) by blast
      next
        case (got d s)
        then have "all_typed s" "typed_data type d" using parse_rdata_typed keeps_typed q(2) by blast+
        then show ?thesis using got(2) by (auto split: if_splits intro: add_record_typed)
      qed
    qed
  qed
qed

lemma records_typed: "parse_records mem idx n p = Some (r, p') \<Longrightarrow> all_typed p \<Longrightarrow> all_typed p'"
  by (induction n arbitrary: p) (auto elim!: dns_bind_Some dest: one_record_typed)

lemma question_typed:
  assumes "parse_question mem p = Some (r, p')" "all_typed p"
  shows "all_typed p'"
proof -
  have *: "parse_host p = Some (x, q) \<Longrightarrow> dp_answer_list q = dp_answer_list p" for x q by (drule parse_host_keeps) auto
  show ?thesis using assms unfolding parse_question_def all_typed_def
    by (auto simp: Let_def bind_eq_Some_conv split: if_splits elim!: dns_bind_Some dest!: *)
qed

lemma parse_all_typed:
  assumes "dns_parser_parse_all mem p = Some (r, p')" "all_typed p"
  shows "all_typed p'"
proof -
  have t: "all_typed (p\<lparr>dp_complete := b, dp_cur := c\<rparr>)" "all_typed (p\<lparr>dp_complete := b, dp_header := h, dp_cur := c\<rparr>)" for b c h using assms(2) by (simp_all add: all_typed_def)
  show ?thesis using assms(1) t unfolding dns_parser_parse_all_def parse_record_def
    by (auto simp: Let_def bind_eq_Some_conv split: if_splits elim!: dns_bind_Some dest!: question_typed records_typed)
qed

lemma received_parsed:
  assumes "parse_received mem k q = Some (r, n, p')"
  shows "\<exists>x. dns_parser_parse_all mem q = Some (x, p')"
proof -
  obtain x q' where "dns_parser_parse_all mem q = Some (x, q')" "(case x of Inl e \<Rightarrow> (e, k, q') | Inr _ \<Rightarrow> (1, k, q')) = (r, n, p')"
    using assms by (auto simp: parse_received_def bind_eq_Some_conv)
  then show ?thesis by (cases x) auto
qed

lemma append_typed:
  assumes "dns_parser_append_message mem buf p = Some (r, n, p')" "all_typed p"
  shows "all_typed p'"
proof -
  have t: "dp_answer_list q = dp_answer_list p \<Longrightarrow> all_typed q" for q using assms(2) by (simp add: all_typed_def)
  have "parse_received mem k q = Some (r, n, p') \<Longrightarrow> dp_answer_list q = dp_answer_list p \<Longrightarrow> all_typed p'" for k q
    using received_parsed parse_all_typed [OF _ t] by blast
  then show ?thesis using assms t by (auto simp: dns_parser_append_message_def Let_def bind_eq_Some_conv split: if_splits)
qed

lemma feed_typed: "feed mem bs p = Some (r, p') \<Longrightarrow> all_typed p \<Longrightarrow> all_typed p'"
  by (induction bs arbitrary: p) (auto simp: bind_eq_Some_conv split: if_splits dest: append_typed)

section \<open>The list of addresses\<close>

lemma find_cname_defined:
  assumes "\<forall>r \<in> set rs. typed_data (dr_type r) (dr_rdata r)"
  shows "dns_record_cursor_find_cname name rs \<noteq> None"
  using assms by (induction rs) (auto simp: typed_data_def rdata_string_def)

text \<open>The alias of a name, or the name itself if it has none.\<close>

definition alias_of :: "dns_record list \<Rightarrow> u8 list \<Rightarrow> u8 list" where
  "alias_of rs c = (case dns_record_cursor_find_cname c rs of Some (Some n) \<Rightarrow> n | _ \<Rightarrow> c)"

lemma follow_defined:
  assumes "\<forall>r \<in> set rs. typed_data (dr_type r) (dr_rdata r)"
  shows "\<exists>i n. follow_cname rs name k = Some ((alias_of rs ^^ i) name, n) \<and> (0 < n \<longrightarrow> dns_record_cursor_find_cname ((alias_of rs ^^ i) name) rs = Some None)"
  using assms
proof (induction rs name k rule: follow_cname.induct)
  case (1 rs name k)
  obtain x where x: "dns_record_cursor_find_cname name rs = Some x" using find_cname_defined [OF 1(2)] by blast
  show ?case
  proof (cases x)
    case None
    then show ?thesis using x by (intro exI [of _ 0] exI [of _ k]) (simp add: follow_cname.simps [of rs name k])
  next
    case (Some nm)
    have a: "alias_of rs name = nm" using x Some by (simp add: alias_of_def)
    have step: "(alias_of rs ^^ Suc i) name = (alias_of rs ^^ i) nm" for i by (simp only: funpow_Suc_right o_apply a)
    show ?thesis
    proof (cases "0 < k")
      case True
      then obtain i n where "follow_cname rs nm (k - 1) = Some ((alias_of rs ^^ i) nm, n)" "0 < n \<longrightarrow> dns_record_cursor_find_cname ((alias_of rs ^^ i) nm) rs = Some None"
        using 1 x Some by blast
      then show ?thesis using x Some True by (intro exI [of _ "Suc i"] exI [of _ n]) (simp only: step follow_cname.simps [of rs name k], simp)
    next
      case False
      then show ?thesis using x Some a by (intro exI [of _ 1] exI [of _ "k - 1"]) (simp add: follow_cname.simps [of rs name k])
    qed
  qed
qed

text \<open>The addresses of the matching records, in their order, with the port, and as long as their family demands.\<close>

definition addresses_of :: "u16 \<Rightarrow> u8 list \<Rightarrow> dns_record list \<Rightarrow> dns_addrinfo list \<Rightarrow> bool" where
  "addresses_of port c rs as \<longleftrightarrow> map Some as = map (record_address port) (filter (address_record c) rs) \<and>
     (\<forall>a \<in> set as. ai_port a = port \<and> length (ai_address a) = (if ai_inet6 a then 16 else 4))"

lemma record_address_defined:
  assumes "typed_data (dr_type r) (dr_rdata r)" "address_record c r"
  shows "\<exists>a. record_address port r = Some a \<and> ai_port a = port \<and> length (ai_address a) = (if ai_inet6 a then 16 else 4)"
  using assms by (auto simp: address_record_def typed_data_def record_address_def bytes_at_def dns_types)

lemma collect_all:
  assumes "\<forall>r \<in> set rs. typed_data (dr_type r) (dr_rdata r)"
  shows "collect_addresses mem port c rs = Some (Inl EAI_MEMORY) \<and> (\<exists>n. \<not> mem n) \<or> (\<exists>as. collect_addresses mem port c rs = Some (Inr as) \<and> addresses_of port c rs as)"
  using assms
proof (induction rs)
  case (Cons r rs)
  then have IH: "collect_addresses mem port c rs = Some (Inl EAI_MEMORY) \<and> (\<exists>n. \<not> mem n) \<or> (\<exists>as. collect_addresses mem port c rs = Some (Inr as) \<and> addresses_of port c rs as)" by simp
  show ?case
  proof (cases "address_record c r \<and> mem (48 + (if dr_type r = DNS_TYPE_A then 16 else 28))")
    case True
    then obtain a where "record_address port r = Some a" "ai_port a = port" "length (ai_address a) = (if ai_inet6 a then 16 else 4)"
      using record_address_defined [of r c port] Cons.prems by auto
    then show ?thesis using IH True by (auto simp: addresses_of_def)
  next
    case False
    then show ?thesis using IH by (auto simp: addresses_of_def)
  qed
qed (simp add: addresses_of_def)

section \<open>Properties\<close>

text \<open>
  C20: The list of addresses is safe for every response, whatever bytes were received. If the parser has read them, as a datagram or as a stream in pieces, then \<^verbatim>\<open>getaddrinfo\<close> follows the
  aliases to an end, also around a loop of them, and never reads data of a record as something it is not. A list that is returned is not empty and has the addresses of exactly the records
  of the answer with the name at the end of the chain, in their order, 4 bytes for IPv4 and 16 for IPv6, with the port; and when the response has no error code the name has no further alias.
\<close>

theorem dns_addresses_safe:
  assumes "feed mem pieces (dns_parser_init\<lparr>dp_single_packet := single\<rparr>) = Some (r, p)"
  shows "\<exists>res. dns_getaddrinfo mem p port = Some res \<and> (res = Inl EAI_MEMORY \<longrightarrow> (\<exists>n. \<not> mem n)) \<and>
    (\<forall>as canon. res = Inr (as, canon) \<longrightarrow> as \<noteq> [] \<and>
      (\<exists>i name. name = (alias_of (dp_answer_list p) ^^ i) (case dq_name (dp_question p) of Some n \<Rightarrow> n | None \<Rightarrow> []) \<and> canon \<in> {None, Some name} \<and>
        addresses_of port name (dp_answer_list p) as \<and> (get_rcode (dp_header p) = 0 \<longrightarrow> dns_record_cursor_find_cname name (dp_answer_list p) = Some None)))"
proof -
  have "all_typed (dns_parser_init\<lparr>dp_single_packet := single\<rparr>)" by (simp add: all_typed_def dns_parser_init_def)
  from feed_typed [OF assms this] have t: "\<forall>r \<in> set (dp_answer_list p). typed_data (dr_type r) (dr_rdata r)" by (simp add: all_typed_def)
  let ?q = "case dq_name (dp_question p) of Some n \<Rightarrow> n | None \<Rightarrow> []"
  obtain i n where f: "follow_cname (dp_answer_list p) ?q (uint (dh_ancount (dp_header p))) = Some ((alias_of (dp_answer_list p) ^^ i) ?q, n)"
    "0 < n \<longrightarrow> dns_record_cursor_find_cname ((alias_of (dp_answer_list p) ^^ i) ?q) (dp_answer_list p) = Some None"
    using follow_defined [OF t] by blast
  let ?name = "(alias_of (dp_answer_list p) ^^ i) ?q"
  have g: "\<exists>res. dns_getaddrinfo mem p port = Some res \<and> (res = Inl EAI_MEMORY \<longrightarrow> (\<exists>n. \<not> mem n)) \<and>
    (\<forall>as canon. res = Inr (as, canon) \<longrightarrow> as \<noteq> [] \<and> canon \<in> {None, Some ?name} \<and> addresses_of port ?name (dp_answer_list p) as \<and> (get_rcode (dp_header p) = 0 \<longrightarrow> 0 < n))"
    using collect_all [OF t, of mem port ?name] by (auto simp: dns_getaddrinfo_def Let_def f(1))
  then show ?thesis using f(2) by blast
qed

theorem dns_addresses_safe_witness:
  "\<exists>p res. feed (\<lambda>_. True) [message_bytes demo_dns_message] (dns_parser_init\<lparr>dp_single_packet := True\<rparr>) = Some (1, p) \<and> dns_getaddrinfo (\<lambda>_. True) p 80 = Some res \<and> res \<noteq> Inl EAI_MEMORY"
proof -
  obtain n p where "dns_parser_append_message all_mem (message_bytes demo_dns_message) (dns_parser_init\<lparr>dp_single_packet := True\<rparr>) = Some (1, n, p)"
    using append_udp [OF demo_dns_ok(1) init_partly(2)] by auto
  then have "feed all_mem [message_bytes demo_dns_message] (dns_parser_init\<lparr>dp_single_packet := True\<rparr>) = Some (1, p)" by simp
  from this dns_addresses_safe [OF this, of 80] show ?thesis by blast
qed

end
