(* ===== verification/Spec2Isabelle.thy ===== *)
theory Spec2Isabelle
  imports Flow_Build Kernel_List Comm_Requests Uri_Theorems Dns_Cache Mysql_Stream Redis_Theorems Http_Util Msgqueue Exec_Deinit Dns_Addresses
begin

text \<open>
  Verification of the core of Sogou C++ Workflow (\<^verbatim>\<open>src/workflow/src\<close>).

  \<^bold>\<open>The program.\<close> Workflow runs asynchronous tasks. Tasks are chained into series and series are joined into parallel works
  (\<^verbatim>\<open>factory/Workflow.cc\<close>, \<^verbatim>\<open>kernel/SubTask.cc\<close>). A network task asks the scheduler (\<^verbatim>\<open>kernel/CommScheduler.cc\<close>) for a
  connection to the target, or to one of a group of targets, with the least load; the communicator sends the encoded message
  (\<^verbatim>\<open>protocol/*Message.cc\<close>) and feeds the bytes that come back to an incremental parser (\<^verbatim>\<open>protocol/*_parser.c\<close>,
  \<^verbatim>\<open>protocol/mysql_stream.c\<close>). Poller threads pass results to handler threads through a message queue (\<^verbatim>\<open>kernel/msgqueue.c\<close>).
  Other work runs on the threads of a pool (\<^verbatim>\<open>kernel/thrdpool.c\<close>), to which the executor gives the sessions of named queues
  (\<^verbatim>\<open>kernel/Executor.cc\<close>).
  Addresses come from a URI (\<^verbatim>\<open>util/URIParser.cc\<close>) and from a cache of DNS answers (\<^verbatim>\<open>manager/DnsCache.cc\<close>) built on a cache
  with reference-counted handles (\<^verbatim>\<open>util/LRUCache.h\<close>). Intrusive lists (\<^verbatim>\<open>kernel/list.h\<close>) are used everywhere.

  \<^bold>\<open>The theories.\<close> Each theory says at its beginning which file it models.
  \<^item> \<open>WF_Prelude\<close>: the names of the model's types, the error numbers, arrays with bounds and shared lemmas.
  \<^item> \<open>Series_Queue\<close>: the circular task queue of \<^verbatim>\<open>SeriesWork\<close>. The record \<open>series_work\<close> has the fields of the class,
    \<open>push_front\<close>, \<open>push_back\<close>, \<open>expand_queue\<close> and \<open>take_task\<close> are the methods. The queue refines a list with an optional last
    element (locale and interpretation), and growing it ends and keeps the order.
  \<^item> \<open>Task_Flow\<close>: series and parallel works as they are built, run and dismissed. Tasks and series are in a heap (record \<open>flow\<close>);
    each thread inside \<^verbatim>\<open>dispatch\<close> or \<^verbatim>\<open>subtask_done\<close> is an activity, \<open>act_step\<close> is its next step, and \<open>flow_run\<close> interleaves
    activities with what users do in callbacks (push new plain tasks to the series of the task, or cancel it). \<open>Flow_Core\<close> has the invariant with a status per series and how single changes keep
    it, \<open>Flow_Dismiss\<close> what the recursive dismissal removes, \<open>Flow_Safe\<close> the steps of the activities. \<open>Flow_Theorems\<close>: in every
    interleaving nothing that was deleted is used, tasks of a series run one at a time, a parallel work joins its series, the
    work ends within a bound, and then nothing is left. \<open>Flow_Build\<close>: what the user builds is well formed.
  \<^item> \<open>Kernel_List\<close>: every function of \<^verbatim>\<open>list.h\<close> over a heap of nodes, against lists of nodes.
  \<^item> \<open>Comm_Sched\<close>, \<open>Comm_Requests\<close>: \<^verbatim>\<open>CommSchedTarget\<close> and \<^verbatim>\<open>CommSchedGroup\<close> with the heap of targets, acquiring with a time
    limit, split at the condition variable, and releasing; \<^verbatim>\<open>CommScheduler::request\<close> as a client of the locale
    \<open>sched_provider\<close>, which targets and groups both interpret. In every run of any number of threads the load of a target is the
    number of connections given out and stays within its limit; a group gives out a target of least load.
  \<^item> \<open>LRU_Cache\<close>, \<open>Dns_Cache\<close>: handles with reference counts on two recency lists in an explicit heap (locale
    \<open>handle_cache\<close>); values are freed exactly once and never while held. The DNS cache on top, with its two time limits;
    among threads that race for a stale entry one is told to refresh it.
  \<^item> \<open>String_Util\<close>, \<open>Uri_Parser\<close>, \<open>Uri_Theorems\<close>: URL coding, splitting and stripping; the URI parser with its character
    tables, copies and moves under failing allocation, and the query splitters, with round trips.
  \<^item> \<open>Mysql_Bytes\<close>, \<open>Mysql_Stream\<close>: integers of the MySQL protocol and of the machine for both byte orders, and where these differ; length-encoded
    integers and strings; the packet stream against a reader of single bytes, and the framing round trip with \<^verbatim>\<open>MySQLMessage::encode\<close>.
  \<^item> \<open>Dns_Parser\<close>, \<open>Dns_Message\<close>: the parser of DNS messages (\<^verbatim>\<open>dns_parser.c\<close>), messages that encode a question and responses that are
    matched with their request (\<^verbatim>\<open>DnsMessage.cc\<close>), and the list of addresses (\<^verbatim>\<open>DnsUtil.cc\<close>). \<open>Dns_Names\<close> and \<open>Dns_Records\<close> have the
    wire format, which the parser inverts. \<open>Dns_Theorems\<close>: messages and questions round trip, in any pieces; parsing a name ends when
    compression pointers point backwards. \<open>Dns_Addresses\<close>: whatever was received, the list of addresses is made safely from the right records.
  \<^item> \<open>Redis_Parser\<close>, \<open>Redis_Theorems\<close>: the parser of Redis replies with its reply objects in a heap. It inverts the wire
    format of nested replies, and pieces of a message do not matter.
  \<^item> \<open>C_Library\<close>: the conversions of the C library that the parsers use, and the printing of numbers.
  \<^item> \<open>Http_Parser\<close>, \<open>Http_Pieces\<close>, \<open>Http_Theorems\<close>: \<^verbatim>\<open>http_parser.c\<close> with all its line parsers. How the bytes of a message are
    cut into pieces does not matter; headers that are set are found; printed headers are parsed back.
  \<^item> \<open>Http_Message\<close>, \<open>Http_Util\<close>: \<^verbatim>\<open>HttpMessage.cc\<close> and \<^verbatim>\<open>HttpUtil.cc\<close>. What encoding does in every case (inside its vectors when it is given six or more), a message that was
    encoded is received as it was sent, a server answers expectations and errors in the right order, and chunked bodies are
    decoded to their data.
  \<^item> \<open>Msgqueue\<close>: the message queue, its two lists linked through memory cells, with threads that interleave at the mutexes and
    condition variables. It is first in, first out, bounded, and loses no wake-up.
  \<^item> \<open>Thread_Pool\<close>: the thread pool; every critical section is a step, and \<open>pool_run\<close> interleaves the threads, the tasks, the
    callers and the thread that destroys the pool. \<open>Pool_Inv\<close> and \<open>Pool_Calls\<close> have the invariant: the threads that leave form a
    chain in which each joins the one before. \<open>Pool_Theorems\<close>: nothing freed is used, no thread is joined twice, tasks run in order
    and once, no wake-up is lost, and destroying the pool, also from a task, ends with everything joined and freed, within a bound
    that grows only with spurious wake-ups and with what running tasks still add to the pool.
  \<^item> \<open>Executor\<close>: queues of sessions on the pool. \<open>Exec_Inv\<close> and \<open>Exec_Theorems\<close>: its runs are runs of the pool, a queue has one task in
    the pool exactly while it has sessions, and sessions are taken in order. \<open>Exec_Deinit\<close>: the end of \<^verbatim>\<open>deinit\<close> with the requests that the handling of
    canceled sessions dispatches (the parameter \<open>h\<close>); every request is handled exactly once, but for those that the handling of a canceled session dispatches
    too late for the loop of \<^verbatim>\<open>thrdpool_destroy\<close>, which are lost.

  \<^bold>\<open>Conventions.\<close> Undefined behaviour, a failed assertion and a loop that does not end are the value \<open>None\<close>; the theorems show
  when the results are \<open>Some\<close>. Loops are recursive functions with measures, or \<open>partial_function\<close> where ending is a
  theorem; no fuel is used. Allocation is a parameter (\<open>mem\<close>) that says which sizes succeed, or a flag of the call; times
  and user callbacks are arguments. Machine integers that may wrap are words; some sizes, indices and counters are
  natural numbers without a bound (slots of a series queue, references of a cache handle, positions in a URI), so what happens when a queue has \<open>2 ^ 30\<close> slots, a
  handle \<open>2 ^ 31\<close> holders or a URI \<open>2 ^ 31\<close> bytes is outside the model; the theories concerned say so.

  \<^bold>\<open>Not modelled.\<close> System calls and what waits on them (\<^verbatim>\<open>Communicator.cc\<close>, \<^verbatim>\<open>poller.c\<close>, \<^verbatim>\<open>mpoller.c\<close>, \<^verbatim>\<open>IOService\<close>,
  TLS), parallel works that a callback builds and pushes, moving of DNS messages,
  Kafka messages, typed Redis and MySQL results, service governance and upstream policies, the task factories, servers and clients; the vendored JSON library,
  demos, tests and documents of the repository.
\<close>

end
